(* ===== verification/Prelude.thy ===== *)
theory Prelude
  imports Main "HOL-Library.Word" "HOL-Library.Monad_Syntax"
begin

text \<open>
  Shared vocabulary of the development: the machine types, the reader monad
  (\<open>option\<close>, where \<open>None\<close> is a read outside the memory the caller owns), the
  \<open>size_t\<close> subtraction with its wrap-around, \<open>std::vector::resize\<close>, the loop
  that parses consecutive fixed-size items, and the generic lemmas on lists the
  component theories rest on.
\<close>

unbundle bit_operations_syntax

type_synonym byte = "8 word"
type_synonym u16 = "16 word"
type_synonym u32 = "32 word"
type_synonym u64 = "64 word"

text \<open>
  \<open>wire_simps\<close> collects the rewrite rules that evaluate a reader on a buffer
  given as a concatenation of encoded fields; \<open>emit_simps\<close> those that turn a
  sequence of stores into one \<open>emit\<close>.
\<close>

named_theorems wire_simps
named_theorems emit_simps
named_theorems safe_intros

text \<open>The size of an Ethernet frame, of \<open>rtp_rtcp_defines.h\<close>.\<close>

definition IP_PACKET_SIZE :: nat where
  "IP_PACKET_SIZE = 1500"

text \<open>The conversion of a number to \<open>int32_t\<close>.\<close>

definition to_int32 :: "int \<Rightarrow> int" where
  "to_int32 x = sint (word_of_int x :: u32)"

lemma sint_u32_small: "- (2 ^ 31) \<le> x \<Longrightarrow> x < 2 ^ 31 \<Longrightarrow> sint (word_of_int x :: u32) = x"
  unfolding sint_sbintrunc' by (rule signed_take_bit_int_eq_self) simp_all

lemma to_int32_id: "- (2 ^ 31) \<le> x \<Longrightarrow> x < 2 ^ 31 \<Longrightarrow> to_int32 x = x"
  unfolding to_int32_def by (rule sint_u32_small)

text \<open>Unsigned 64-bit subtraction of two \<open>size_t\<close> values: it wraps below zero.\<close>

definition size_sub :: "nat \<Rightarrow> nat \<Rightarrow> nat" where
  "size_sub a b = nat ((int a - int b) mod 2 ^ 64)"

lemma size_sub_le: "b \<le> a \<Longrightarrow> a < 2 ^ 64 \<Longrightarrow> size_sub a b = a - b"
  by (simp add: size_sub_def nat_diff_distrib)

text \<open>\<open>std::vector::resize(n)\<close>: truncates, or appends value-initialised elements.\<close>

definition resize :: "nat \<Rightarrow> 'a \<Rightarrow> 'a list \<Rightarrow> 'a list" where
  "resize n d xs = take n xs @ replicate (n - length xs) d"

lemma length_resize [simp]: "length (resize n d xs) = n"
  by (simp add: resize_def)

text \<open>Overwriting the elements from an offset on, as \<open>memcpy\<close> into an array does.\<close>

definition put_at :: "nat \<Rightarrow> 'a list \<Rightarrow> 'a list \<Rightarrow> 'a list" where
  "put_at off bs data = take off data @ bs @ drop (off + length bs) data"

lemma length_put_at: "off + length bs \<le> length d \<Longrightarrow> length (put_at off bs d) = length d"
  by (simp add: put_at_def)

lemma put_at_all: "length bs = length d \<Longrightarrow> put_at 0 bs d = bs"
  by (simp add: put_at_def)

lemma take_put_at: "n \<le> off \<Longrightarrow> off \<le> length d \<Longrightarrow> take n (put_at off bs d) = take n d"
  by (simp add: put_at_def min_def)

lemma drop_put_at: "off + length bs \<le> n \<Longrightarrow> off \<le> length d \<Longrightarrow> drop n (put_at off bs d) = drop n d"
  by (simp add: put_at_def)

lemma slice_put_at: "off \<le> length d \<Longrightarrow> take (length bs) (drop off (put_at off bs d)) = bs"
  by (simp add: put_at_def)

lemma nth_put_at:
  "off + length bs \<le> length d \<Longrightarrow> i < length d \<Longrightarrow>
     put_at off bs d ! i = (if off \<le> i \<and> i < off + length bs then bs ! (i - off) else d ! i)"
  by (auto simp: put_at_def nth_append min_def)

text \<open>A store into a buffer of fixed size; \<open>None\<close> is a store behind its end.\<close>

definition store_at :: "nat \<Rightarrow> byte list \<Rightarrow> byte list \<Rightarrow> byte list option" where
  "store_at off bs m = (if off + length bs \<le> length m then Some (put_at off bs m) else None)"

lemma store_at_next:
  "length pre = n \<Longrightarrow> length bs \<le> length rest \<Longrightarrow> store_at n bs (pre @ rest) = Some ((pre @ bs) @ drop (length bs) rest)"
  by (simp add: store_at_def put_at_def)

lemma store_at_first: "length bs \<le> length rest \<Longrightarrow> store_at 0 bs rest = Some (bs @ drop (length bs) rest)"
  by (simp add: store_at_def put_at_def)

lemma store_at_Some: "store_at off bs m = Some m' \<Longrightarrow> length m' = length m \<and> off + length bs \<le> length m"
  by (auto simp: store_at_def length_put_at split: if_splits)

text \<open>
  A range-\<open>for\<close> loop over a vector whose body parses the item at the read pointer
  into the element and advances the pointer by the item size.
\<close>

fun parse_each :: "(byte list \<Rightarrow> nat \<Rightarrow> 'a \<Rightarrow> 'a option) \<Rightarrow> nat \<Rightarrow> byte list \<Rightarrow> nat \<Rightarrow> 'a list
    \<Rightarrow> 'a list option" where
  "parse_each dec stride bs off [] = Some []"
| "parse_each dec stride bs off (x # xs) =
     do { y \<leftarrow> dec bs off x;
          ys \<leftarrow> parse_each dec stride bs (off + stride) xs;
          Some (y # ys) }"

lemma parse_each_length:
  "parse_each dec stride bs off xs = Some ys \<Longrightarrow> length ys = length xs"
  by (induction xs arbitrary: off ys) (auto split: Option.bind_splits)

lemma parse_each_all:
  assumes "\<And>off old y. dec bs off old = Some y \<Longrightarrow> P y"
    and "parse_each dec stride bs off xs = Some ys"
  shows "\<forall>y \<in> set ys. P y"
  using assms(2)
  by (induction xs arbitrary: off ys) (auto split: Option.bind_splits dest: assms(1))

text \<open>
  The interface of a fixed-size wire item: how it is written, how it is read back
  over an old value, and its width. Every repeated item of the RTCP packets
  (report blocks, nack items, ssrcs, \<dots>) is an instance.
\<close>

locale item_codec =
  fixes enc :: "'a \<Rightarrow> byte list"
    and dec :: "byte list \<Rightarrow> nat \<Rightarrow> 'a \<Rightarrow> 'a option"
    and width :: nat
    and wf :: "'a \<Rightarrow> bool"
  assumes length_enc: "length (enc x) = width"
    and dec_enc: "wf x \<Longrightarrow> dec (pre @ enc x @ post) (length pre) old = Some x"
    and dec_safe: "off + width \<le> length bs \<Longrightarrow> \<exists>y. dec bs off old = Some y"
begin

lemma length_concat_enc: "length (concat (map enc xs)) = width * length xs"
  by (induction xs) (auto simp: length_enc)

lemma parse_each_enc:
  assumes "\<forall>x \<in> set xs. wf x" and "length olds = length xs"
  shows "parse_each dec width (pre @ concat (map enc xs) @ post) (length pre) olds = Some xs"
  using assms
proof (induction xs arbitrary: pre olds)
  case Nil
  then show ?case by simp
next
  case (Cons x xs)
  then obtain old olds' where olds: "olds = old # olds'" "length olds' = length xs"
    by (cases olds) auto
  have "parse_each dec width ((pre @ enc x) @ concat (map enc xs) @ post)
      (length (pre @ enc x)) olds' = Some xs"
    using Cons.prems olds by (intro Cons.IH) auto
  moreover have "dec (pre @ enc x @ concat (map enc xs) @ post) (length pre) old = Some x"
    using Cons.prems by (intro dec_enc) simp
  ultimately show ?case
    using olds by (simp add: length_enc)
qed

lemma parse_each_enc_at:
  assumes "\<forall>x \<in> set xs. wf x" and "length olds = length xs" and "length pre = off"
  shows "parse_each dec width (pre @ concat (map enc xs) @ post) off olds = Some xs"
  using parse_each_enc [of xs olds pre post] assms by simp

lemma parse_each_safe:
  "off + width * length olds \<le> length bs \<Longrightarrow> \<exists>ys. parse_each dec width bs off olds = Some ys"
proof (induction olds arbitrary: off)
  case Nil
  then show ?case by simp
next
  case (Cons old olds)
  then obtain y where "dec bs off old = Some y"
    using dec_safe [of off bs old] by auto
  moreover obtain ys where "parse_each dec width bs (off + width) olds = Some ys"
    using Cons.IH [of "off + width"] Cons.prems by (auto simp: algebra_simps)
  ultimately show ?case by simp
qed

lemma parse_each_resize:
  assumes "off + width * n \<le> length bs"
  obtains ys where "parse_each dec width bs off (resize n d olds) = Some ys" "length ys = n"
proof -
  obtain ys where ys: "parse_each dec width bs off (resize n d olds) = Some ys"
    using parse_each_safe [of off "resize n d olds" bs] assms by auto
  then show thesis
    using that parse_each_length [OF ys] by simp
qed

end

text \<open>Reads of a list slice.\<close>

definition slice :: "byte list \<Rightarrow> nat \<Rightarrow> nat \<Rightarrow> byte list option" where
  "slice bs off n = (if off + n \<le> length bs then Some (take n (drop off bs)) else None)"

lemma slice_append [wire_simps]:
  "length xs \<le> off \<Longrightarrow> slice (xs @ ys) off n = slice ys (off - length xs) n"
  by (auto simp: slice_def)

lemma slice_here [wire_simps]: "length xs = n \<Longrightarrow> slice (xs @ ys) 0 n = Some xs"
  by (simp add: slice_def)

lemma slice_all [wire_simps]: "length xs = n \<Longrightarrow> slice xs 0 n = Some xs"
  by (simp add: slice_def)

lemma slice_Cons [wire_simps]: "slice (x # xs) (Suc off) n = slice xs off n"
  by (simp add: slice_def)

lemma bit_small_word:
  assumes "unat (x :: 'a :: len word) < 2 ^ k" and "bit x n"
  shows "n < k"
proof -
  have "take_bit k x = x"
    using assms(1) by (simp add: word_unat_eq_iff unsigned_take_bit_eq take_bit_nat_eq_self)
  with assms(2) show ?thesis
    by (metis bit_take_bit_iff)
qed

lemma round_up4: "(n :: nat) \<le> 3 + 4 * (n div 4)"
  by presburger

lemma slice_safe: "off + n \<le> length bs \<Longrightarrow> \<exists>xs. slice bs off n = Some xs \<and> length xs = n"
  by (auto simp: slice_def)


text \<open>
  The shape of every safety statement about a parser: it finishes without reading
  outside the memory it was given, and what it leaves on success satisfies \<open>P\<close>.
\<close>

definition returns :: "(bool \<times> 'a) option \<Rightarrow> ('a \<Rightarrow> bool) \<Rightarrow> bool" where
  "returns r P = (case r of None \<Rightarrow> False | Some (ok, x) \<Rightarrow> ok \<longrightarrow> P x)"

lemma returns_simps [simp]:
  "returns (Some (ok, x)) P = (ok \<longrightarrow> P x)" "\<not> returns None P"
  by (simp_all add: returns_def)

lemma returnsE:
  assumes "returns r P"
  obtains ok x where "r = Some (ok, x)" and "ok \<Longrightarrow> P x"
  using assms by (auto simp: returns_def split: option.splits)

lemma find_append: "find P (xs @ ys) = (case find P xs of None \<Rightarrow> find P ys | Some x \<Rightarrow> Some x)"
  by (induction xs) simp_all

end
