(* ===== verification/Byte_Io.thy ===== *)
theory Byte_Io
  imports Prelude
begin

text \<open>
  \<open>rtp_rtcp/byte_io.h\<close>: big-endian and little-endian readers and writers. The
  generic templates are loops over the bytes; the specialisations for one, two,
  four and eight bytes are written out. A reader returns \<open>None\<close> when it would read
  outside the buffer.
\<close>

subsection \<open>The readers and writers on exactly \<open>B\<close> bytes\<close>

definition InternalReadBigEndian :: "nat \<Rightarrow> byte list \<Rightarrow> 'a::len word" where
  "InternalReadBigEndian B data =
     fold (\<lambda>i val. val OR push_bit ((B - 1 - i) * 8) (ucast (data ! i))) [0..<B] 0"

definition InternalReadLittleEndian :: "nat \<Rightarrow> byte list \<Rightarrow> 'a::len word" where
  "InternalReadLittleEndian B data =
     fold (\<lambda>i val. val OR push_bit (i * 8) (ucast (data ! i))) [0..<B] 0"

definition WriteBigEndian :: "nat \<Rightarrow> 'a::len word \<Rightarrow> byte list" where
  "WriteBigEndian B val = map (\<lambda>i. ucast (drop_bit ((B - 1 - i) * 8) val)) [0..<B]"

definition WriteLittleEndian :: "nat \<Rightarrow> 'a::len word \<Rightarrow> byte list" where
  "WriteLittleEndian B val = map (\<lambda>i. ucast (drop_bit (i * 8) val)) [0..<B]"

definition ReadBigEndian2 :: "byte list \<Rightarrow> 'a::len word" where
  "ReadBigEndian2 data = push_bit 8 (ucast (data ! 0)) OR ucast (data ! 1)"

definition ReadLittleEndian2 :: "byte list \<Rightarrow> 'a::len word" where
  "ReadLittleEndian2 data = ucast (data ! 0) OR push_bit 8 (ucast (data ! 1))"

definition WriteBigEndian2 :: "'a::len word \<Rightarrow> byte list" where
  "WriteBigEndian2 val = [ucast (drop_bit 8 val), ucast val]"

definition WriteLittleEndian2 :: "'a::len word \<Rightarrow> byte list" where
  "WriteLittleEndian2 val = [ucast val, ucast (drop_bit 8 val)]"

definition ReadBigEndian4 :: "byte list \<Rightarrow> 'a::len word" where
  "ReadBigEndian4 data =
     push_bit 24 (ucast (data ! 0)) OR push_bit 16 (ucast (data ! 1))
       OR push_bit 8 (ucast (data ! 2)) OR ucast (data ! 3)"

definition ReadLittleEndian4 :: "byte list \<Rightarrow> 'a::len word" where
  "ReadLittleEndian4 data =
     ucast (data ! 0) OR push_bit 8 (ucast (data ! 1))
       OR push_bit 16 (ucast (data ! 2)) OR push_bit 24 (ucast (data ! 3))"

definition WriteBigEndian4 :: "'a::len word \<Rightarrow> byte list" where
  "WriteBigEndian4 val =
     [ucast (drop_bit 24 val), ucast (drop_bit 16 val), ucast (drop_bit 8 val), ucast val]"

definition WriteLittleEndian4 :: "'a::len word \<Rightarrow> byte list" where
  "WriteLittleEndian4 val =
     [ucast val, ucast (drop_bit 8 val), ucast (drop_bit 16 val), ucast (drop_bit 24 val)]"

definition ReadBigEndian8 :: "byte list \<Rightarrow> 'a::len word" where
  "ReadBigEndian8 data =
     push_bit 56 (ucast (data ! 0)) OR push_bit 48 (ucast (data ! 1))
       OR push_bit 40 (ucast (data ! 2)) OR push_bit 32 (ucast (data ! 3))
       OR push_bit 24 (ucast (data ! 4)) OR push_bit 16 (ucast (data ! 5))
       OR push_bit 8 (ucast (data ! 6)) OR ucast (data ! 7)"

definition ReadLittleEndian8 :: "byte list \<Rightarrow> 'a::len word" where
  "ReadLittleEndian8 data =
     ucast (data ! 0) OR push_bit 8 (ucast (data ! 1))
       OR push_bit 16 (ucast (data ! 2)) OR push_bit 24 (ucast (data ! 3))
       OR push_bit 32 (ucast (data ! 4)) OR push_bit 40 (ucast (data ! 5))
       OR push_bit 48 (ucast (data ! 6)) OR push_bit 56 (ucast (data ! 7))"

definition WriteBigEndian8 :: "'a::len word \<Rightarrow> byte list" where
  "WriteBigEndian8 val =
     [ucast (drop_bit 56 val), ucast (drop_bit 48 val), ucast (drop_bit 40 val),
      ucast (drop_bit 32 val), ucast (drop_bit 24 val), ucast (drop_bit 16 val),
      ucast (drop_bit 8 val), ucast val]"

definition WriteLittleEndian8 :: "'a::len word \<Rightarrow> byte list" where
  "WriteLittleEndian8 val =
     [ucast val, ucast (drop_bit 8 val), ucast (drop_bit 16 val), ucast (drop_bit 24 val),
      ucast (drop_bit 32 val), ucast (drop_bit 40 val), ucast (drop_bit 48 val),
      ucast (drop_bit 56 val)]"

subsection \<open>Signed values\<close>

definition SignExtend :: "nat \<Rightarrow> 'a::len word \<Rightarrow> 'a word" where
  "SignExtend B val =
     (let kMsb = (ucast (drop_bit ((B - 1) * 8) val) :: byte)
      in if kMsb AND 0x80 \<noteq> 0
         then NOT (push_bit ((B mod (LENGTH('a) div 8)) * 8) 1 - 1) OR val
         else val)"

definition ReinterpretAsSigned :: "'a::len word \<Rightarrow> int" where
  "ReinterpretAsSigned unsigned_val =
     (let kUnsignedHighestBitMask = (push_bit (LENGTH('a) - 1) 1 :: 'a word)
      in if unsigned_val AND kUnsignedHighestBitMask \<noteq> 0
         then uint (unsigned_val AND NOT kUnsignedHighestBitMask) - 2 ^ (LENGTH('a) - 1)
         else uint unsigned_val)"

definition ReinterpretAsUnsigned :: "int \<Rightarrow> 'a::len word" where
  "ReinterpretAsUnsigned val = word_of_int val"

text \<open>\<open>ByteReader<int32_t, 3>\<close> and \<open>ByteReader<int16_t>\<close>, with their writers.\<close>

definition ReadSigned24 :: "byte list \<Rightarrow> int" where
  "ReadSigned24 data =
     ReinterpretAsSigned (SignExtend 3 (InternalReadBigEndian 3 data :: u32))"

definition WriteSigned24 :: "int \<Rightarrow> byte list" where
  "WriteSigned24 val = WriteBigEndian 3 (ReinterpretAsUnsigned val :: u32)"

definition ReadSigned16 :: "byte list \<Rightarrow> int" where
  "ReadSigned16 data = ReinterpretAsSigned (ReadBigEndian2 data :: u16)"

definition WriteSigned16 :: "int \<Rightarrow> byte list" where
  "WriteSigned16 val = WriteBigEndian2 (ReinterpretAsUnsigned val :: u16)"

subsection \<open>Reads at an offset of a buffer\<close>

text \<open>
  \<open>fetch n f bs off\<close> is the read of an \<open>n\<close>-byte field through the pointer
  \<open>&bs[off]\<close>.
\<close>

definition fetch :: "nat \<Rightarrow> (byte list \<Rightarrow> 'v) \<Rightarrow> byte list \<Rightarrow> nat \<Rightarrow> 'v option" where
  "fetch n f bs off = map_option f (slice bs off n)"

definition get_u8 :: "byte list \<Rightarrow> nat \<Rightarrow> byte option" where
  "get_u8 bs off = (if off < length bs then Some (bs ! off) else None)"

abbreviation get_be16 :: "byte list \<Rightarrow> nat \<Rightarrow> u16 option" where
  "get_be16 \<equiv> fetch 2 ReadBigEndian2"

abbreviation get_be24 :: "byte list \<Rightarrow> nat \<Rightarrow> u32 option" where
  "get_be24 \<equiv> fetch 3 (InternalReadBigEndian 3)"

abbreviation get_be32 :: "byte list \<Rightarrow> nat \<Rightarrow> u32 option" where
  "get_be32 \<equiv> fetch 4 ReadBigEndian4"

abbreviation get_be64 :: "byte list \<Rightarrow> nat \<Rightarrow> u64 option" where
  "get_be64 \<equiv> fetch 8 ReadBigEndian8"

abbreviation get_s24 :: "byte list \<Rightarrow> nat \<Rightarrow> int option" where
  "get_s24 \<equiv> fetch 3 ReadSigned24"

abbreviation get_s16 :: "byte list \<Rightarrow> nat \<Rightarrow> int option" where
  "get_s16 \<equiv> fetch 2 ReadSigned16"

abbreviation put_be16 :: "u16 \<Rightarrow> byte list" where "put_be16 \<equiv> WriteBigEndian2"
abbreviation put_be24 :: "u32 \<Rightarrow> byte list" where "put_be24 \<equiv> WriteBigEndian 3"
abbreviation put_be32 :: "u32 \<Rightarrow> byte list" where "put_be32 \<equiv> WriteBigEndian4"
abbreviation put_be64 :: "u64 \<Rightarrow> byte list" where "put_be64 \<equiv> WriteBigEndian8"

subsection \<open>Lengths\<close>

lemma length_WriteBigEndian [simp, wire_simps]: "length (WriteBigEndian B val) = B"
  by (simp add: WriteBigEndian_def)

lemma length_WriteLittleEndian [simp]: "length (WriteLittleEndian B val) = B"
  by (simp add: WriteLittleEndian_def)

lemma length_WriteBigEndian2 [simp, wire_simps]: "length (WriteBigEndian2 val) = 2"
  by (simp add: WriteBigEndian2_def)

lemma length_WriteBigEndian4 [simp, wire_simps]: "length (WriteBigEndian4 val) = 4"
  by (simp add: WriteBigEndian4_def)

lemma length_WriteBigEndian8 [simp, wire_simps]: "length (WriteBigEndian8 val) = 8"
  by (simp add: WriteBigEndian8_def)

lemma length_WriteSigned24 [simp, wire_simps]: "length (WriteSigned24 v) = 3"
  by (simp add: WriteSigned24_def)

lemma length_WriteSigned16 [simp, wire_simps]: "length (WriteSigned16 v) = 2"
  by (simp add: WriteSigned16_def)

subsection \<open>The specialisations agree with the generic loops\<close>

lemma upt_2: "[0..<2] = [0, Suc 0]" and upt_3: "[0..<3] = [0, Suc 0, 2]"
  and upt_4: "[0..<4] = [0, Suc 0, 2, 3]"
  and upt_8: "[0..<8] = [0, Suc 0, 2, 3, 4, 5, 6, 7]"
  by (simp_all add: upt_rec numeral_eq_Suc)

lemma generic_eq_specialised:
  "InternalReadBigEndian 2 = ReadBigEndian2" "InternalReadLittleEndian 2 = ReadLittleEndian2"
  "WriteBigEndian 2 = WriteBigEndian2" "WriteLittleEndian 2 = WriteLittleEndian2"
  "InternalReadBigEndian 4 = ReadBigEndian4" "InternalReadLittleEndian 4 = ReadLittleEndian4"
  "WriteBigEndian 4 = WriteBigEndian4" "WriteLittleEndian 4 = WriteLittleEndian4"
  "InternalReadBigEndian 8 = ReadBigEndian8" "InternalReadLittleEndian 8 = ReadLittleEndian8"
  "WriteBigEndian 8 = WriteBigEndian8" "WriteLittleEndian 8 = WriteLittleEndian8"
  by (simp_all add: fun_eq_iff InternalReadBigEndian_def InternalReadLittleEndian_def
      WriteBigEndian_def WriteLittleEndian_def ReadBigEndian2_def ReadLittleEndian2_def
      WriteBigEndian2_def WriteLittleEndian2_def ReadBigEndian4_def ReadLittleEndian4_def
      WriteBigEndian4_def WriteLittleEndian4_def ReadBigEndian8_def ReadLittleEndian8_def
      WriteBigEndian8_def WriteLittleEndian8_def upt_2 upt_4 upt_8 or.assoc)


subsection \<open>Round trips\<close>

lemma bit_byte_at:
  "bit (push_bit k (ucast (ucast (drop_bit k v) :: byte)) :: 'a::len word) n
     \<longleftrightarrow> k \<le> n \<and> n < k + 8 \<and> bit (v :: 'a word) n"
  "bit (ucast (ucast v :: byte) :: 'a word) n \<longleftrightarrow> n < 8 \<and> bit v n"
  by (auto simp: bit_simps dest: bit_imp_le_length)

lemma read_write_be16: "ReadBigEndian2 (WriteBigEndian2 (v::u16)) = v"
  by (rule bit_word_eqI)
    (simp add: ReadBigEndian2_def WriteBigEndian2_def bit_or_iff bit_byte_at;
      arith)

lemma read_write_be24:
  "InternalReadBigEndian 3 (WriteBigEndian 3 (v::u32)) = take_bit 24 v"
  by (rule bit_word_eqI)
    (simp add: InternalReadBigEndian_def WriteBigEndian_def upt_3 bit_or_iff bit_take_bit_iff
      bit_byte_at; arith)

lemma read_write_be32: "ReadBigEndian4 (WriteBigEndian4 (v::u32)) = v"
  by (rule bit_word_eqI)
    (simp add: ReadBigEndian4_def WriteBigEndian4_def bit_or_iff bit_byte_at;
      arith)

lemma read_write_be64: "ReadBigEndian8 (WriteBigEndian8 (v::u64)) = v"
  by (rule bit_word_eqI)
    (simp add: ReadBigEndian8_def WriteBigEndian8_def bit_or_iff bit_byte_at;
      arith)

lemma read_write_le16: "ReadLittleEndian2 (WriteLittleEndian2 (v::u16)) = v"
  by (rule bit_word_eqI)
    (simp add: ReadLittleEndian2_def WriteLittleEndian2_def bit_or_iff bit_byte_at;
      arith)

lemma read_write_le32: "ReadLittleEndian4 (WriteLittleEndian4 (v::u32)) = v"
  by (rule bit_word_eqI)
    (simp add: ReadLittleEndian4_def WriteLittleEndian4_def bit_or_iff bit_byte_at;
      arith)

lemma read_write_le64: "ReadLittleEndian8 (WriteLittleEndian8 (v::u64)) = v"
  by (rule bit_word_eqI)
    (simp add: ReadLittleEndian8_def WriteLittleEndian8_def bit_or_iff bit_byte_at;
      arith)

lemma and_push_bit_1: "(w AND push_bit n 1 \<noteq> 0) = bit (w::'a::len word) n"
  by (simp add: push_bit_eq_mult and_exp_eq_0_iff_not_bit)

lemma take_bit_uint: "take_bit LENGTH('a) (uint (w::'a::len word)) = uint w"
  by (transfer; simp)

lemma ReinterpretAsSigned_sint: "ReinterpretAsSigned w = sint (w :: 'a::len word)"
proof -
  have low: "w AND NOT (push_bit (LENGTH('a) - 1) 1) = take_bit (LENGTH('a) - 1) w"
    by (rule bit_word_eqI) (auto simp: bit_simps)
  have sint: "sint w = uint w - 2 ^ LENGTH('a) * of_bool (bit w (LENGTH('a) - 1))"
    by (simp add: sint_uint signed_take_bit_eq_take_bit_minus bit_uint_iff take_bit_uint)
  have uint: "uint w = uint (take_bit (LENGTH('a) - 1) w)
      + 2 ^ (LENGTH('a) - 1) * of_bool (bit w (LENGTH('a) - 1))"
    using take_bit_Suc_from_most [of "LENGTH('a) - 1" "uint w"]
    by (simp add: unsigned_take_bit_eq bit_uint_iff take_bit_uint)
  have "(2::int) ^ LENGTH('a) = 2 * 2 ^ (LENGTH('a) - 1)"
    by (simp flip: power_Suc)
  with sint uint show ?thesis
    unfolding ReinterpretAsSigned_def Let_def and_push_bit_1 low by auto
qed

lemma SignExtend_3: "SignExtend 3 (take_bit 24 (w::u32)) = signed_take_bit 23 w"
proof -
  have msb: "((ucast (drop_bit 16 (take_bit 24 w)) :: byte) AND 0x80 \<noteq> 0) = bit w 23"
    using and_push_bit_1 [of "ucast (drop_bit 16 (take_bit 24 w)) :: byte" 7]
    by (simp add: bit_simps)
  have used: "bit (16777215 :: u32) k \<longleftrightarrow> k < 24" for k
    using bit_mask_iff [where 'a = u32, of 24 k] by (auto simp: mask_eq_exp_minus_1)
  have used_int: "bit (16777215 :: int) k \<longleftrightarrow> k < 24" for k
    using bit_mask_iff [where 'a = int, of 24 k] by (auto simp: mask_eq_exp_minus_1)
  show ?thesis
  proof (rule bit_word_eqI)
    fix k
    assume "k < LENGTH(32)"
    then show "bit (SignExtend 3 (take_bit 24 w)) k = bit (signed_take_bit 23 w) k"
      by (cases "k \<le> 23")
        (auto simp: SignExtend_def Let_def msb used used_int bit_simps min_def)
  qed
qed

lemma read_write_s24:
  assumes "- (2 ^ 23) \<le> v" and "v < 2 ^ 23"
  shows "ReadSigned24 (WriteSigned24 v) = v"
proof -
  have "sint (signed_take_bit 23 (word_of_int v :: u32)) = v"
    using assms by transfer (simp add: signed_take_bit_int_eq_self signed_take_bit_take_bit)
  then show ?thesis
    by (simp add: ReadSigned24_def WriteSigned24_def read_write_be24 SignExtend_3
        ReinterpretAsSigned_sint ReinterpretAsUnsigned_def)
qed

lemma read_write_s16:
  assumes "- (2 ^ 15) \<le> v" and "v < 2 ^ 15"
  shows "ReadSigned16 (WriteSigned16 v) = v"
proof -
  have "sint (word_of_int v :: u16) = v"
    using assms by transfer (simp add: signed_take_bit_int_eq_self)
  then show ?thesis
    by (simp add: ReadSigned16_def WriteSigned16_def read_write_be16
        ReinterpretAsSigned_sint ReinterpretAsUnsigned_def)
qed

lemma sint_signed_take_bit: "sint (signed_take_bit 23 (w::u32)) = signed_take_bit 23 (sint w)"
  by transfer (simp add: signed_take_bit_take_bit)

lemma ReadSigned24_bounds: "- (2 ^ 23) \<le> ReadSigned24 bs \<and> ReadSigned24 bs < 2 ^ 23"
proof -
  let ?w = "InternalReadBigEndian 3 bs :: u32"
  have fits: "take_bit 24 ?w = ?w"
    by (rule bit_word_eqI)
      (auto simp: InternalReadBigEndian_def upt_3 bit_simps dest: bit_imp_le_length)
  have "ReadSigned24 bs = sint (signed_take_bit 23 ?w)"
    using SignExtend_3 [of ?w] by (simp add: ReadSigned24_def ReinterpretAsSigned_sint fits)
  also have "\<dots> = signed_take_bit 23 (sint ?w)"
    by (rule sint_signed_take_bit)
  finally show ?thesis
    using signed_take_bit_int_greater_eq_minus_exp [of 23 "sint ?w"]
      signed_take_bit_int_less_exp [of 23 "sint ?w"] by simp
qed

subsection \<open>Evaluating reads on encoded buffers\<close>

lemma fetch_append [wire_simps]:
  "length xs \<le> off \<Longrightarrow> fetch n f (xs @ ys) off = fetch n f ys (off - length xs)"
  by (simp add: fetch_def slice_append)

lemma fetch_Cons [wire_simps]:
  "0 < off \<Longrightarrow> fetch n f (x # ys) off = fetch n f ys (off - 1)"
  by (cases off) (auto simp: fetch_def slice_def)

lemma fetch_here: "length xs = n \<Longrightarrow> fetch n f (xs @ ys) 0 = Some (f xs)"
  by (simp add: fetch_def slice_here)

lemma fetch_all: "length xs = n \<Longrightarrow> fetch n f xs 0 = Some (f xs)"
  by (simp add: fetch_def slice_all)

lemma get_u8_append [wire_simps]:
  "length xs \<le> off \<Longrightarrow> get_u8 (xs @ ys) off = get_u8 ys (off - length xs)"
  by (auto simp: get_u8_def nth_append)

lemma get_u8_Cons [wire_simps]: "0 < off \<Longrightarrow> get_u8 (x # ys) off = get_u8 ys (off - 1)"
  by (auto simp: get_u8_def)

lemma get_u8_here [wire_simps]: "get_u8 (x # ys) 0 = Some x"
  by (simp add: get_u8_def)

lemma get_u8_Some: "off < length bs \<Longrightarrow> get_u8 bs off = Some (bs ! off)"
  by (simp add: get_u8_def)

lemma get_be_here [wire_simps]:
  "get_be16 (put_be16 a @ ys) 0 = Some a" "get_be16 (put_be16 a) 0 = Some a"
  "get_be32 (put_be32 b @ ys) 0 = Some b" "get_be32 (put_be32 b) 0 = Some b"
  "get_be64 (put_be64 c @ ys) 0 = Some c" "get_be64 (put_be64 c) 0 = Some c"
  "get_be24 (put_be24 b @ ys) 0 = Some (take_bit 24 b)"
  "get_be24 (put_be24 b) 0 = Some (take_bit 24 b)"
  by (simp_all add: fetch_here fetch_all read_write_be16 read_write_be24 read_write_be32
      read_write_be64)

lemma get_s24_here [wire_simps]:
  assumes "- (2 ^ 23) \<le> v" and "v < 2 ^ 23"
  shows "get_s24 (WriteSigned24 v @ ys) 0 = Some v"
  using assms by (simp add: fetch_here read_write_s24)

lemma fetch_Some: "off + n \<le> length bs \<Longrightarrow> fetch n f bs off = Some (f (take n (drop off bs)))"
  by (simp add: fetch_def slice_def)

lemma fetch_drop [wire_simps]: "fetch n f (drop k bs) off = (if k \<le> length bs \<or> 0 < n
    then fetch n f bs (k + off) else fetch n f [] off)"
  by (auto simp: fetch_def slice_def add.commute)

text \<open>A 32-bit word is a wire item of four bytes.\<close>

interpretation be32: item_codec put_be32 "\<lambda>bs off _. get_be32 bs off" 4 "\<lambda>_. True"
  by unfold_locales (simp_all add: wire_simps fetch_Some read_write_be32)

subsection \<open>Properties\<close>

text \<open>
  C40: the hand-written two-, four- and eight-byte readers and writers of
  \<open>byte_io.h\<close> compute the same as the generic loops they specialise, at every
  integer type.
\<close>

theorem byte_io_specialisations:
  "InternalReadBigEndian 2 bs = (ReadBigEndian2 bs :: 'a::len word)
   \<and> InternalReadLittleEndian 2 bs = (ReadLittleEndian2 bs :: 'a word)
   \<and> InternalReadBigEndian 4 bs = (ReadBigEndian4 bs :: 'a word)
   \<and> InternalReadLittleEndian 4 bs = (ReadLittleEndian4 bs :: 'a word)
   \<and> InternalReadBigEndian 8 bs = (ReadBigEndian8 bs :: 'a word)
   \<and> InternalReadLittleEndian 8 bs = (ReadLittleEndian8 bs :: 'a word)
   \<and> WriteBigEndian 2 v = WriteBigEndian2 (v :: 'a word)
   \<and> WriteLittleEndian 2 v = WriteLittleEndian2 v
   \<and> WriteBigEndian 4 v = WriteBigEndian4 v \<and> WriteLittleEndian 4 v = WriteLittleEndian4 v
   \<and> WriteBigEndian 8 v = WriteBigEndian8 v \<and> WriteLittleEndian 8 v = WriteLittleEndian8 v"
  by (simp add: generic_eq_specialised)

text \<open>
  Reading back what was written gives the value, for every unsigned width and
  byte order, and for a signed 24-bit or 16-bit value whenever it fits the field;
  the 24-bit reader never leaves the signed 24-bit range.
\<close>

lemma byte_io_roundtrip:
  "ReadBigEndian2 (WriteBigEndian2 a) = (a :: u16)
   \<and> ReadLittleEndian2 (WriteLittleEndian2 a) = a
   \<and> ReadBigEndian4 (WriteBigEndian4 b) = (b :: u32)
   \<and> ReadLittleEndian4 (WriteLittleEndian4 b) = b
   \<and> ReadBigEndian8 (WriteBigEndian8 c) = (c :: u64)
   \<and> ReadLittleEndian8 (WriteLittleEndian8 c) = c
   \<and> (- (2 ^ 23) \<le> v \<and> v < 2 ^ 23 \<longleftrightarrow> ReadSigned24 (WriteSigned24 v) = v)
   \<and> (- (2 ^ 15) \<le> w \<and> w < 2 ^ 15 \<longrightarrow> ReadSigned16 (WriteSigned16 w) = w)"
  using read_write_s24 [of v] ReadSigned24_bounds [of "WriteSigned24 v"] read_write_s16 [of w]
  by (auto simp: read_write_be16 read_write_le16 read_write_be32 read_write_le32
      read_write_be64 read_write_le64)

end
