(* ===== verification/Rtcp_Packet.thy ===== *)
theory Rtcp_Packet
  imports Byte_Io
begin

text \<open>
  The base of every RTCP packet: \<open>rtp_rtcp/rtcp_packet.h\<close>, \<open>rtp_rtcp/rtcp_packet.cc\<close>
  and \<open>rtcp_packet/common_header.cc\<close>. A packet is created in a caller's buffer at
  \<open>*index\<close>; when it does not fit, the bytes so far are handed to the callback and the
  buffer is reused. The buffer is an explicit memory with a capacity: a store beyond
  the capacity, a call of a null callback and a failed \<open>RTC_CHECK\<close> all set \<open>fault\<close>.
  The locale \<open>rtcp_writer\<close> is the contract between a packet class and its clients.
\<close>

subsection \<open>The buffer a packet is created in\<close>

record wstate =
  mem :: "nat \<Rightarrow> byte"
  cap :: nat
  index :: nat
  ready :: "byte list list"
  fault :: bool

text \<open>Stores to \<open>packet[pos], packet[pos + 1], \<dots>\<close>, and \<open>*index += n\<close>.\<close>

definition put :: "nat \<Rightarrow> byte list \<Rightarrow> wstate \<Rightarrow> wstate" where
  "put pos bs w = w\<lparr>
     mem := (\<lambda>i. if pos \<le> i \<and> i < pos + length bs then bs ! (i - pos) else mem w i),
     fault := fault w \<or> cap w < pos + length bs\<rparr>"

definition advance :: "nat \<Rightarrow> wstate \<Rightarrow> wstate" where
  "advance n w = w\<lparr>index := index w + n\<rparr>"

definition rtc_check :: "bool \<Rightarrow> wstate \<Rightarrow> wstate" where
  "rtc_check b w = w\<lparr>fault := fault w \<or> \<not> b\<rparr>"

definition contents :: "wstate \<Rightarrow> byte list" where
  "contents w = map (mem w) [0..<index w]"

text \<open>Appending at \<open>*index\<close>: what a sequence of stores amounts to.\<close>

definition emit :: "byte list \<Rightarrow> wstate \<Rightarrow> wstate" where
  "emit bs w = advance (length bs) (put (index w) bs w)"

subsection \<open>\<open>RtcpPacket\<close>\<close>

record RtcpPacket =
  sender_ssrc :: u32

definition kHeaderLength :: nat where
  "kHeaderLength = 4"

definition OnBufferFull :: "bool \<Rightarrow> wstate \<Rightarrow> bool \<times> wstate" where
  "OnBufferFull callback w =
     (if index w = 0 then (False, w)
      else (True, w\<lparr>ready := ready w @ [contents w], index := 0,
                    fault := fault w \<or> \<not> callback\<rparr>))"

text \<open>
  \<open>while (*index + BlockLength() > max_length) if (!OnBufferFull(\<dots>)) return false;\<close>
\<close>

function reserve :: "nat \<Rightarrow> nat \<Rightarrow> bool \<Rightarrow> wstate \<Rightarrow> bool \<times> wstate" where
  "reserve len max_length callback w =
     (if index w + len > max_length
      then (case OnBufferFull callback w of
              (True, w') \<Rightarrow> reserve len max_length callback w'
            | (False, w') \<Rightarrow> (False, w'))
      else (True, w))"
  by pat_completeness auto
termination
  by (relation "measure (\<lambda>(_, _, _, w). index w)")
    (auto simp: OnBufferFull_def split: if_splits)

declare reserve.simps [simp del]

definition HeaderLength :: "nat \<Rightarrow> nat" where
  "HeaderLength length_in_bytes = (length_in_bytes - kHeaderLength) div 4"

definition CreateHeader :: "nat \<Rightarrow> byte \<Rightarrow> nat \<Rightarrow> bool \<Rightarrow> wstate \<Rightarrow> wstate" where
  "CreateHeader count_or_format packet_type len padding w =
     (let kVersionBits = push_bit 6 2 :: byte;
          padding_bit = (if padding then push_bit 5 1 else 0) :: byte;
          w = put (index w + 0) [kVersionBits OR padding_bit OR of_nat count_or_format] w;
          w = put (index w + 1) [packet_type] w;
          w = put (index w + 2) [of_nat (len div 2 ^ 8) AND 0xff] w;
          w = put (index w + 3) [of_nat len AND 0xff] w
      in advance kHeaderLength w)"

text \<open>
  \<open>Build()\<close> over a virtual \<open>Create\<close> with \<open>BlockLength() = len\<close>: the buffer is
  uninitialised memory \<open>m\<close> of the capacity the buffer class allocates; the callback
  is null.
\<close>

definition fresh :: "(nat \<Rightarrow> byte) \<Rightarrow> nat \<Rightarrow> wstate" where
  "fresh m n = \<lparr>mem = m, cap = n, index = 0, ready = [], fault = False\<rparr>"

lemma fresh_fields [simp]:
  "index (fresh m n) = 0" "cap (fresh m n) = n" "ready (fresh m n) = []"
  "fault (fresh m n) = False" "contents (fresh m n) = []"
  by (simp_all add: fresh_def contents_def)

definition Build :: "(nat \<Rightarrow> bool \<Rightarrow> wstate \<Rightarrow> bool \<times> wstate) \<Rightarrow> nat \<Rightarrow> nat \<Rightarrow> (nat \<Rightarrow> byte)
    \<Rightarrow> byte list" where
  "Build create len capacity m =
     (let (created, w) = create capacity False (fresh m capacity)
      in map (mem w) [0..<len])"

text \<open>\<open>Build(max_length, callback)\<close>: \<open>None\<close> is the failed \<open>RTC_CHECK_LE\<close>.\<close>

definition BuildCallback :: "(nat \<Rightarrow> bool \<Rightarrow> wstate \<Rightarrow> bool \<times> wstate) \<Rightarrow> nat \<Rightarrow> (nat \<Rightarrow> byte)
    \<Rightarrow> (bool \<times> wstate) option" where
  "BuildCallback create max_length m =
     (if max_length > IP_PACKET_SIZE then None
      else (case create max_length True (fresh m IP_PACKET_SIZE) of
              (False, w) \<Rightarrow> Some (False, w)
            | (True, w) \<Rightarrow> Some (OnBufferFull True w)))"

subsection \<open>\<open>CommonHeader\<close>\<close>

text \<open>
  \<open>payload\<close> is what the pointer \<open>payload_\<close> gives access to: the rest of the
  receive buffer, of which \<open>payload_size\<close> bytes belong to the packet.
\<close>

record CommonHeader =
  packet_type :: byte
  count_or_format :: byte
  padding_size :: byte
  payload_size :: nat
  payload :: "byte list"

definition CommonHeader_init :: CommonHeader where
  "CommonHeader_init = \<lparr>packet_type = 0, count_or_format = 0, padding_size = 0,
     payload_size = 0, payload = []\<rparr>"

definition CommonHeader_Parse :: "byte list \<Rightarrow> nat \<Rightarrow> CommonHeader \<Rightarrow> (bool \<times> CommonHeader) option"
  where
  "CommonHeader_Parse buffer size_bytes h =
     (if size_bytes < 4 then Some (False, h)
      else do {
        b0 \<leftarrow> get_u8 buffer 0;
        if drop_bit 6 b0 \<noteq> 2 then Some (False, h)
        else do {
          b1 \<leftarrow> get_u8 buffer 1;
          len \<leftarrow> get_be16 buffer 2;
          let has_padding = (b0 AND 0x20 \<noteq> 0);
              h = h\<lparr>count_or_format := b0 AND 0x1F, packet_type := b1,
                    payload_size := unat len * 4, payload := drop 4 buffer,
                    padding_size := 0\<rparr>
          in if size_bytes < 4 + payload_size h then Some (False, h)
             else if has_padding then
               if payload_size h = 0 then Some (False, h)
               else do {
                 pad \<leftarrow> get_u8 (payload h) (payload_size h - 1);
                 let h = h\<lparr>padding_size := pad\<rparr>
                 in if pad = 0 then Some (False, h)
                    else if unat pad > payload_size h then Some (False, h)
                    else Some (True, h\<lparr>payload_size := payload_size h - unat pad\<rparr>) }
             else Some (True, h) } })"

definition packet_size :: "CommonHeader \<Rightarrow> nat" where
  "packet_size h = 4 + payload_size h + unat (padding_size h)"

definition NextPacket :: "CommonHeader \<Rightarrow> byte list" where
  "NextPacket h = drop (payload_size h + unat (padding_size h)) (payload h)"

text \<open>The header of a received packet: its payload lies inside the receive buffer.\<close>

definition valid_header :: "CommonHeader \<Rightarrow> bool" where
  "valid_header h \<longleftrightarrow> payload_size h + unat (padding_size h) \<le> length (payload h)"

subsection \<open>A sequence of stores is one \<open>emit\<close>\<close>

lemma put_fields [emit_simps]:
  "index (put p bs w) = index w" "cap (put p bs w) = cap w" "ready (put p bs w) = ready w"
  by (simp_all add: put_def)

lemma advance_fields [emit_simps]:
  "index (advance n w) = index w + n" "cap (advance n w) = cap w"
  "ready (advance n w) = ready w" "mem (advance n w) = mem w" "fault (advance n w) = fault w"
  by (simp_all add: advance_def)

lemma emit_fields [emit_simps]:
  "index (emit bs w) = index w + length bs" "cap (emit bs w) = cap w"
  "ready (emit bs w) = ready w"
  "fault (emit bs w) = (fault w \<or> cap w < index w + length bs)"
  by (simp_all add: emit_def put_def advance_def)

lemma put_put [emit_simps]:
  "p' = p + length a \<Longrightarrow> put p' b (put p a w) = put p (a @ b) w"
  by (rule wstate.equality) (auto simp: put_def nth_append fun_eq_iff)

lemma advance_put [emit_simps]:
  "p = index w \<Longrightarrow> n = length a \<Longrightarrow> advance n (put p a w) = emit a w"
  by (simp add: emit_def)

lemma emit_emit [emit_simps]: "emit b (emit a w) = emit (a @ b) w"
  by (rule wstate.equality)
    (auto simp: emit_def put_def advance_def nth_append fun_eq_iff)

lemma emit_Nil: "index w \<le> cap w \<Longrightarrow> emit [] w = w"
  by (rule wstate.equality) (auto simp: emit_def put_def advance_def fun_eq_iff)

lemma put_emit_simps [emit_simps]:
  "p = index w + length a \<Longrightarrow> n = length b \<Longrightarrow> advance n (put p b (emit a w)) = emit (a @ b) w"
  by (simp add: advance_put emit_fields emit_emit)

lemma contents_emit: "contents (emit bs w) = contents w @ bs"
proof (rule nth_equalityI)
  show "length (contents (emit bs w)) = length (contents w @ bs)"
    by (simp add: contents_def emit_fields)
  fix i assume "i < length (contents (emit bs w))"
  then show "contents (emit bs w) ! i = (contents w @ bs) ! i"
    by (auto simp: contents_def emit_def put_def advance_def nth_append)
qed

text \<open>The loops that append one encoded item per element.\<close>

lemma fold_emit_emit [emit_simps]:
  "fold (\<lambda>x. emit (g x)) xs (emit bs w) = emit (bs @ concat (map g xs)) w"
  by (induction xs arbitrary: bs) (simp_all add: emit_emit)

lemma rtc_check_True [emit_simps]: "rtc_check True w = w"
  by (simp add: rtc_check_def)

definition header_bytes :: "nat \<Rightarrow> byte \<Rightarrow> nat \<Rightarrow> bool \<Rightarrow> byte list" where
  "header_bytes count pt len padding =
     [0x80 OR (if padding then 0x20 else 0) OR of_nat count, pt,
      of_nat (len div 256) AND 0xff, of_nat len AND 0xff]"

lemma length_header_bytes [simp, wire_simps]: "length (header_bytes c pt len p) = 4"
  by (simp add: header_bytes_def)

lemma CreateHeader_emit [emit_simps]:
  "CreateHeader count pt len padding w = emit (header_bytes count pt len padding) w"
  by (simp add: CreateHeader_def header_bytes_def kHeaderLength_def Let_def emit_simps)


subsection \<open>Parsing the common header\<close>

lemma first_byte:
  "\<forall>c \<in> set [0..<32]. \<forall>p \<in> {False, True}.
     (let b = (0x80 OR (if p then 0x20 else 0) OR of_nat c) :: byte
      in drop_bit 6 b = 2 \<and> (b AND 0x20 \<noteq> 0) = p \<and> b AND 0x1F = of_nat c)"
  by code_simp

lemma header_first_byte:
  assumes "c < 32" and "b = (0x80 OR (if p then 0x20 else 0) OR of_nat c :: byte)"
  shows "drop_bit 6 b = 2" and "(b AND 0x20 \<noteq> 0) = p" and "b AND 0x1F = of_nat c"
  using first_byte [rule_format, of c p] assms by (auto simp: Let_def)

lemma byte_and_ff: "(x :: byte) AND 0xff = x"
proof -
  have "(0xff :: byte) = - 1" by simp
  then show ?thesis by (simp only: and.right_neutral)
qed

lemma length_field:
  assumes "len < 65536"
  shows "[of_nat (len div 256) AND 0xff, of_nat len AND 0xff] = put_be16 (of_nat len)"
  using assms
  by (simp add: byte_and_ff WriteBigEndian2_def word_unat_eq_iff unat_of_nat
      unsigned_ucast_eq unsigned_drop_bit_eq take_bit_eq_mod drop_bit_eq_div unat_div)

lemma header_bytes_put:
  "len < 65536 \<Longrightarrow> header_bytes c pt len padding =
     (0x80 OR (if padding then 0x20 else 0) OR of_nat c) # pt # put_be16 (of_nat len)"
  using length_field [of len] by (simp add: header_bytes_def)

lemma CommonHeader_Parse_header_bytes:
  assumes "c < 32" and "len < 65536" and "4 + 4 * len \<le> size_bytes"
  shows "CommonHeader_Parse (header_bytes c pt len False @ rest) size_bytes h =
    Some (True, \<lparr>packet_type = pt, count_or_format = of_nat c, padding_size = 0,
                 payload_size = 4 * len, payload = rest\<rparr>)"
  using assms header_first_byte [OF assms(1) refl, of False]
  by (simp add: CommonHeader_Parse_def header_bytes_put wire_simps Let_def mult.commute
      unat_of_nat drop_Cons')


lemma CommonHeader_Parse_padded:
  assumes "c < 32" and "len < 65536" and "4 + 4 * len \<le> size_bytes"
    and "length body + length pad = 4 * len" and "pad \<noteq> []" and "length pad < 256"
    and "last pad = of_nat (length pad)"
  shows "CommonHeader_Parse (header_bytes c pt len True @ body @ pad @ rest) size_bytes h =
    Some (True, \<lparr>packet_type = pt, count_or_format = of_nat c,
                 padding_size = of_nat (length pad), payload_size = length body,
                 payload = body @ pad @ rest\<rparr>)"
proof -
  have pos: "4 * len - 1 = length body + (length pad - 1)" "length pad - 1 < length pad"
    using assms(4,5) by (cases pad; simp)+
  have at: "get_u8 (body @ pad @ rest) (4 * len - 1) = Some (of_nat (length pad))"
    using assms(5,7) pos(2) unfolding pos(1)
    by (auto simp: get_u8_def nth_append last_conv_nth trans_less_add1)
  have nonzero: "(of_nat (length pad) :: byte) \<noteq> 0" "unat (of_nat (length pad) :: byte) = length pad"
    using assms(5,6) by (auto simp: word_unat_eq_iff unat_of_nat)
  have "0 < len" "length pad \<le> 4 * len" "4 * len - length pad = length body"
    using assms(4,5) by (auto simp: neq_Nil_conv)
  then show ?thesis
    using assms(1-3) header_first_byte [OF assms(1) refl, of True] at nonzero
    by (simp add: CommonHeader_Parse_def header_bytes_put wire_simps Let_def mult.commute
        unat_of_nat drop_Cons')
qed

text \<open>What a successful parse of the header establishes.\<close>

definition header_of :: "byte list \<Rightarrow> nat \<Rightarrow> CommonHeader \<Rightarrow> bool" where
  "header_of buffer size_bytes h \<longleftrightarrow> valid_header h \<and> packet_size h \<le> size_bytes
     \<and> 4 dvd packet_size h \<and> payload h = drop 4 buffer \<and> payload_size h \<le> 4 * 65535
     \<and> unat (count_or_format h) < 32"

lemma unat_and_1F: "unat (b AND 0x1F :: byte) < 32"
proof -
  have "unat (b AND 0x1F) \<le> unat (0x1F :: byte)"
    by (rule word_and_le1 [THEN word_le_nat_alt [THEN iffD1]])
  then show ?thesis by simp
qed

lemma unat_u16_bound: "unat (l :: u16) \<le> 65535"
  using unsigned_less [of l, where 'a = nat] by simp

lemma CommonHeader_Parse_total:
  assumes "size_bytes \<le> length buffer"
  shows "returns (CommonHeader_Parse buffer size_bytes h) (header_of buffer size_bytes)"
proof (cases "size_bytes < 4 \<or> drop_bit 6 (buffer ! 0) \<noteq> 2")
  case True
  moreover have "get_u8 buffer 0 = Some (buffer ! 0)" if "\<not> size_bytes < 4"
    using that assms by (intro get_u8_Some) linarith
  ultimately show ?thesis
    by (auto simp: CommonHeader_Parse_def returns_def)
next
  case False
  define l where "l = (ReadBigEndian2 (take 2 (drop 2 buffer)) :: u16)"
  have long: "4 \<le> length buffer"
    using False assms by auto
  have reads: "get_u8 buffer 0 = Some (buffer ! 0)" "get_u8 buffer (Suc 0) = Some (buffer ! Suc 0)"
    "get_be16 buffer 2 = Some l"
    using long unfolding l_def by (auto intro!: get_u8_Some fetch_Some)
  let ?b = "drop 4 buffer ! (unat l * 4 - Suc 0)"
  note facts = False reads unat_and_1F [of "buffer ! 0"] unat_u16_bound [of l] assms
  note defs = CommonHeader_Parse_def Let_def returns_def header_of_def valid_header_def packet_size_def
  consider "size_bytes < 4 + unat l * 4 \<or> buffer ! 0 AND 0x20 \<noteq> 0 \<and> unat l = 0"
    | "4 + unat l * 4 \<le> size_bytes" "buffer ! 0 AND 0x20 = 0"
    | "4 + unat l * 4 \<le> size_bytes" "buffer ! 0 AND 0x20 \<noteq> 0" "unat l \<noteq> 0"
    using not_less by blast
  then show ?thesis
  proof cases
    case 1
    then show ?thesis using facts(1-4)
      by (elim disjE) (simp_all add: CommonHeader_Parse_def Let_def returns_def)
  next
    case 2
    then show ?thesis using facts by (simp add: defs)
  next
    case 3
    then have "get_u8 (drop 4 buffer) (unat l * 4 - Suc 0) = Some ?b"
      using assms by (intro get_u8_Some) simp
    with 3 show ?thesis
      using facts by (simp add: defs) linarith
  qed
qed

subsection \<open>Making room, and the contract of a packet class\<close>

definition flush :: "bool \<Rightarrow> wstate \<Rightarrow> wstate" where
  "flush callback w = snd (OnBufferFull callback w)"

lemma flush_fields [emit_simps]:
  "index w \<noteq> 0 \<Longrightarrow> index (flush cb w) = 0" "cap (flush cb w) = cap w"
  "index w \<noteq> 0 \<Longrightarrow> ready (flush cb w) = ready w @ [contents w]"
  "index w \<noteq> 0 \<Longrightarrow> fault (flush cb w) = (fault w \<or> \<not> cb)"
  by (simp_all add: flush_def OnBufferFull_def)

lemma reserve_eq:
  "reserve len max_length cb w =
     (if index w + len \<le> max_length then (True, w)
      else if index w = 0 then (False, w)
      else (len \<le> max_length, flush cb w))"
proof (cases "index w + len \<le> max_length \<or> index w = 0")
  case True
  then show ?thesis
    by (auto simp: reserve.simps [of len max_length cb w] OnBufferFull_def)
next
  case False
  let ?w = "flush cb w"
  from False have "OnBufferFull cb w = (True, ?w)"
    by (simp add: OnBufferFull_def flush_def)
  with False have "reserve len max_length cb w = reserve len max_length cb ?w"
    by (simp add: reserve.simps [of len max_length cb w])
  also have "\<dots> = (len \<le> max_length, ?w)"
    using False by (auto simp: reserve.simps [of len max_length cb ?w] OnBufferFull_def
        emit_simps)
  finally show ?thesis
    using False by simp
qed

text \<open>
  What every concrete packet class promises: \<open>Create\<close> makes room for
  \<open>BlockLength()\<close> bytes, failing when that is impossible, and then appends exactly
  the encoding of the packet, which has that length.
\<close>

locale rtcp_writer =
  fixes BlockLength :: "'p \<Rightarrow> nat"
    and Create :: "'p \<Rightarrow> nat \<Rightarrow> bool \<Rightarrow> wstate \<Rightarrow> bool \<times> wstate"
    and encode :: "'p \<Rightarrow> byte list"
    and wf :: "'p \<Rightarrow> bool"
  assumes Create_eq: "wf p \<Longrightarrow> Create p max_length cb w =
      (case reserve (BlockLength p) max_length cb w of
         (False, w') \<Rightarrow> (False, w')
       | (True, w') \<Rightarrow> (True, emit (encode p) w'))"
    and length_encode: "wf p \<Longrightarrow> length (encode p) = BlockLength p"
begin

lemma Create_cases:
  assumes "wf p"
  shows "Create p max_length cb w =
    (if index w + BlockLength p \<le> max_length then (True, emit (encode p) w)
     else if index w = 0 then (False, w)
     else if BlockLength p \<le> max_length then (True, emit (encode p) (flush cb w))
     else (False, flush cb w))"
  using assms by (auto simp: Create_eq reserve_eq)

text \<open>No store leaves the buffer and the write position stays within \<open>max_length\<close>.\<close>

lemma Create_safe:
  assumes "wf p" and "Create p max_length cb w = (ok, w')"
    and "index w \<le> max_length" and "max_length \<le> cap w" and "\<not> fault w" and "cb"
  shows "\<not> fault w' \<and> index w' \<le> max_length \<and> cap w' = cap w"
  using assms by (auto simp: Create_cases length_encode emit_simps split: if_splits)

text \<open>Nothing is lost or reordered: the bytes delivered and pending grow by the encoding.\<close>

lemma Create_stream:
  assumes "wf p" and "Create p max_length cb w = (ok, w')"
  shows "concat (ready w') @ contents w' =
    concat (ready w) @ contents w @ (if ok then encode p else [])"
proof -
  have drained: "concat (ready (flush cb w)) @ contents (flush cb w)
      = concat (ready w) @ contents w" if "index w \<noteq> 0"
    using that by (simp add: emit_simps contents_def)
  show ?thesis
    using assms drained
    by (auto simp: Create_cases contents_emit emit_simps split: if_splits)
qed

lemma Create_ok: "wf p \<Longrightarrow> fst (Create p max_length cb w) \<longleftrightarrow> BlockLength p \<le> max_length
    \<and> (index w + BlockLength p \<le> max_length \<or> index w \<noteq> 0)"
  by (auto simp: Create_cases)

lemma Build_encode:
  assumes "wf p" and "BlockLength p \<le> capacity"
  shows "Build (Create p) (BlockLength p) capacity m = encode p"
proof -
  let ?w = "emit (encode p) (fresh m capacity)"
  have "map (mem ?w) [0..<BlockLength p] = contents ?w"
    using assms(1) by (simp add: contents_def emit_simps length_encode)
  then show ?thesis
    using assms by (simp add: Build_def Create_cases contents_emit)
qed

lemma BuildCallback_encode:
  assumes "wf p" and "max_length \<le> IP_PACKET_SIZE" and "0 < BlockLength p"
  shows "map_option (\<lambda>(ok, w). (ok, ready w, fault w)) (BuildCallback (Create p) max_length m) =
    Some (if BlockLength p \<le> max_length then (True, [encode p], False) else (False, [], False))"
  using assms
  by (auto simp: BuildCallback_def Create_cases OnBufferFull_def emit_simps length_encode
      contents_emit)

end


text \<open>
  A packet \<open>p\<close> sent with \<open>Build\<close> arrives, in front of any further data, as a packet of type \<open>pt\<close> with \<open>n\<close> in the count field, and
  parses to \<open>q\<close>, whatever the object it is parsed into.
\<close>

definition received_as :: "('p \<Rightarrow> nat \<Rightarrow> bool \<Rightarrow> wstate \<Rightarrow> bool \<times> wstate) \<Rightarrow> ('p \<Rightarrow> nat) \<Rightarrow> (CommonHeader \<Rightarrow> 'p \<Rightarrow> (bool \<times> 'p) option)
    \<Rightarrow> byte \<Rightarrow> nat \<Rightarrow> 'p \<Rightarrow> 'p \<Rightarrow> bool" where
  "received_as Create BlockLength Parse pt n p q \<longleftrightarrow>
     (\<forall>capacity m rest h0 old. BlockLength p \<le> capacity \<longrightarrow>
       (\<exists>h. CommonHeader_Parse (Build (Create p) (BlockLength p) capacity m @ rest) (BlockLength p + length rest) h0 = Some (True, h)
          \<and> packet_type h = pt \<and> count_or_format h = of_nat n \<and> NextPacket h = rest \<and> Parse h old = Some (True, q)))"

text \<open>
  A packet class that writes one header and a body, and reads it back. \<open>canon\<close> is
  what the wire format keeps of a packet (the identity where nothing is rounded);
  \<open>post\<close> is what the parser guarantees for arbitrary input.
\<close>

definition packet_bytes :: "('p \<Rightarrow> nat) \<Rightarrow> byte \<Rightarrow> ('p \<Rightarrow> nat) \<Rightarrow> ('p \<Rightarrow> byte list) \<Rightarrow> 'p \<Rightarrow> byte list"
  where
  "packet_bytes fmt pt blen body p = header_bytes (fmt p) pt (HeaderLength (blen p)) False @ body p"

definition header_for :: "nat \<Rightarrow> byte \<Rightarrow> byte list \<Rightarrow> byte list \<Rightarrow> CommonHeader" where
  "header_for c pt body rest = \<lparr>packet_type = pt, count_or_format = of_nat c, padding_size = 0,
     payload_size = length body, payload = body @ rest\<rparr>"

lemma header_for_sel [simp]:
  "packet_type (header_for c pt body rest) = pt"
  "count_or_format (header_for c pt body rest) = of_nat c"
  "payload_size (header_for c pt body rest) = length body"
  "payload (header_for c pt body rest) = body @ rest"
  "NextPacket (header_for c pt body rest) = rest"
  by (simp_all add: header_for_def NextPacket_def)

locale rtcp_codec =
  fixes BlockLength :: "'p \<Rightarrow> nat"
    and Create :: "'p \<Rightarrow> nat \<Rightarrow> bool \<Rightarrow> wstate \<Rightarrow> bool \<times> wstate"
    and Parse :: "CommonHeader \<Rightarrow> 'p \<Rightarrow> (bool \<times> 'p) option"
    and fmt :: "'p \<Rightarrow> nat"
    and pt :: byte
    and body :: "'p \<Rightarrow> byte list"
    and wf :: "'p \<Rightarrow> bool"
    and canon :: "'p \<Rightarrow> 'p"
    and post :: "'p \<Rightarrow> bool"
  assumes Create_body: "wf p \<Longrightarrow> Create p max_length cb w =
      (case reserve (BlockLength p) max_length cb w of
         (False, w') \<Rightarrow> (False, w')
       | (True, w') \<Rightarrow> (True, emit (packet_bytes fmt pt BlockLength body p) w'))"
    and BlockLength_body: "wf p \<Longrightarrow> BlockLength p = 4 + length (body p)"
    and sizes: "wf p \<Longrightarrow> fmt p < 32 \<and> 4 dvd length (body p) \<and> length (body p) \<le> 262140"
    and Parse_body: "wf p \<Longrightarrow> Parse (header_for (fmt p) pt (body p) rest) old = Some (True, canon p)"
    and Parse_safe: "valid_header h \<Longrightarrow> unat (count_or_format h) < 32
      \<Longrightarrow> payload_size h \<le> 262140 \<Longrightarrow> returns (Parse h old) post"
begin

sublocale rtcp_writer BlockLength Create "packet_bytes fmt pt BlockLength body" wf
  by unfold_locales (simp_all add: Create_body BlockLength_body packet_bytes_def)

lemma header_parse:
  assumes "wf p"
  shows "CommonHeader_Parse (packet_bytes fmt pt BlockLength body p @ rest)
      (BlockLength p + length rest) h0 = Some (True, header_for (fmt p) pt (body p) rest)"
proof -
  have "HeaderLength (BlockLength p) * 4 = length (body p)"
    using sizes [OF assms] by (simp add: HeaderLength_def BlockLength_body [OF assms]
        kHeaderLength_def)
  then show ?thesis
    using sizes [OF assms] BlockLength_body [OF assms]
      CommonHeader_Parse_header_bytes [of "fmt p" "HeaderLength (BlockLength p)"
        "BlockLength p + length rest" pt "body p @ rest" h0]
    by (simp add: packet_bytes_def header_for_def mult.commute)
qed

lemma roundtrip:
  assumes "wf p" and "BlockLength p \<le> capacity"
  shows "\<exists>h. CommonHeader_Parse (Build (Create p) (BlockLength p) capacity m @ rest)
        (BlockLength p + length rest) h0 = Some (True, h)
      \<and> packet_type h = pt \<and> count_or_format h = of_nat (fmt p) \<and> NextPacket h = rest
      \<and> Parse h old = Some (True, canon p)"
  using assms by (simp add: Build_encode header_parse Parse_body)

lemma received: "wf p \<Longrightarrow> received_as Create BlockLength Parse pt (fmt p) p (canon p)"
  unfolding received_as_def by (intro allI impI) (rule roundtrip)

text \<open>Any buffer at all can be parsed.\<close>

lemma receive_safe:
  assumes "CommonHeader_Parse buffer size_bytes h0 = Some (True, h)" and "size_bytes \<le> length buffer"
  shows "returns (Parse h old) post"
  using CommonHeader_Parse_total [OF assms(2), of h0] assms(1)
  by (intro Parse_safe) (simp_all add: header_of_def)

end

subsection \<open>Properties\<close>

text \<open>
  C23: \<open>CommonHeader::Parse\<close> never reads outside the buffer, whatever the bytes; when
  it succeeds, header, payload and padding together lie inside the given size, are a
  whole number of 32-bit words, and the payload pointer is just behind the header.
\<close>

theorem CommonHeader_Parse_safe:
  assumes "size_bytes \<le> length buffer"
  shows "returns (CommonHeader_Parse buffer size_bytes h)
    (\<lambda>h'. packet_size h' \<le> size_bytes \<and> 4 dvd packet_size h' \<and> 4 \<le> packet_size h'
      \<and> payload h' = drop 4 buffer \<and> payload_size h' \<le> length (payload h')
      \<and> length (NextPacket h') = length buffer - packet_size h')"
  using CommonHeader_Parse_total [OF assms, of h] assms
  by (auto simp: returns_def header_of_def valid_header_def packet_size_def NextPacket_def
      split: option.splits)

theorem CommonHeader_Parse_safe_witness:
  "(let bs = [0x81, 200, 0, 1, 0xde, 0xad, 0xbe, 0xef, 9] :: byte list
    in map_option fst (CommonHeader_Parse bs 9 CommonHeader_init) = Some True
       \<and> returns (CommonHeader_Parse bs 9 CommonHeader_init)
          (\<lambda>h'. packet_size h' \<le> 9 \<and> 4 dvd packet_size h' \<and> 4 \<le> packet_size h'
            \<and> payload h' = drop 4 bs \<and> payload_size h' \<le> length (payload h')
            \<and> length (NextPacket h') = length bs - packet_size h'))"
proof -
  let ?bs = "[0x81, 200, 0, 1, 0xde, 0xad, 0xbe, 0xef, 9] :: byte list"
  have "map_option fst (CommonHeader_Parse ?bs 9 CommonHeader_init) = Some True"
    by code_simp
  moreover have "9 \<le> length ?bs" by simp
  ultimately show ?thesis
    unfolding Let_def using CommonHeader_Parse_safe [of 9 ?bs CommonHeader_init] by blast
qed

text \<open>
  What \<open>CreateHeader\<close> appends to a buffer is parsed back by
  \<open>CommonHeader::Parse\<close> to the same count, type and length, in front of any payload;
  with the padding bit, the payload the parser reports is the one without the padding.
\<close>

lemma CreateHeader_Parse_roundtrip:
  assumes "c < 32" and "len < 65536" and "length body + length pad = 4 * len"
    and "length pad < 256" and "pad \<noteq> [] \<longrightarrow> last pad = of_nat (length pad)"
  shows "CommonHeader_Parse
      (contents (emit (body @ pad @ rest) (CreateHeader c pt len (pad \<noteq> []) (fresh m n))))
      (4 + 4 * len + length rest) h =
    Some (True, \<lparr>packet_type = pt, count_or_format = of_nat c,
                 padding_size = of_nat (length pad), payload_size = length body,
                 payload = body @ pad @ rest\<rparr>)"
proof (cases "pad = []")
  case True
  then show ?thesis
    using assms CommonHeader_Parse_header_bytes [of c len "4 + 4 * len + length rest" pt "body @ rest"]
    by (simp add: emit_simps contents_emit)
next
  case False
  then show ?thesis
    using assms CommonHeader_Parse_padded [of c len "4 + 4 * len + length rest" body pad pt rest]
    by (simp add: emit_simps contents_emit)
qed

end
