(* ===== verification/Rtcp_Reports.thy ===== *)
theory Rtcp_Reports
  imports Rtcp_Packet
begin

text \<open>
  The reports of RFC 3550 and RFC 5450: \<open>rtcp_packet/report_block\<close>,
  \<open>sender_report\<close>, \<open>receiver_report\<close> and \<open>extended_jitter_report\<close>. Each class is a
  record, each setter, \<open>Parse\<close>, \<open>BlockLength\<close> and \<open>Create\<close> a definition; each class
  is an instance of \<open>rtcp_writer\<close>, and what it writes parses back to itself.
\<close>

subsection \<open>\<open>ReportBlock\<close>\<close>

record ReportBlock =
  source_ssrc :: u32
  fraction_lost :: byte
  cumulative_lost_signed :: int
  extended_high_seq_num :: u32
  jitter :: u32
  last_sr :: u32
  delay_since_last_sr :: u32

definition ReportBlock_init :: ReportBlock where
  "ReportBlock_init = \<lparr>source_ssrc = 0, fraction_lost = 0, cumulative_lost_signed = 0,
     extended_high_seq_num = 0, jitter = 0, last_sr = 0, delay_since_last_sr = 0\<rparr>"

definition ReportBlock_kLength :: nat where
  "ReportBlock_kLength = 24"

text \<open>\<open>ReportBlock::Parse(&buffer[off], length)\<close>.\<close>

definition ReportBlock_Parse :: "byte list \<Rightarrow> nat \<Rightarrow> nat \<Rightarrow> ReportBlock \<Rightarrow> (bool \<times> ReportBlock) option"
  where
  "ReportBlock_Parse buffer off len b =
     (if len < ReportBlock_kLength then Some (False, b)
      else do {
        source \<leftarrow> get_be32 buffer (off + 0);
        fraction \<leftarrow> get_u8 buffer (off + 4);
        lost \<leftarrow> get_s24 buffer (off + 5);
        high \<leftarrow> get_be32 buffer (off + 8);
        jit \<leftarrow> get_be32 buffer (off + 12);
        lsr \<leftarrow> get_be32 buffer (off + 16);
        dlsr \<leftarrow> get_be32 buffer (off + 20);
        Some (True, b\<lparr>source_ssrc := source, fraction_lost := fraction,
          cumulative_lost_signed := lost, extended_high_seq_num := high, jitter := jit,
          last_sr := lsr, delay_since_last_sr := dlsr\<rparr>) })"

text \<open>\<open>ReportBlock::Create(&packet[base])\<close>.\<close>

definition ReportBlock_Create :: "ReportBlock \<Rightarrow> nat \<Rightarrow> wstate \<Rightarrow> wstate" where
  "ReportBlock_Create b base w =
     (let w = put (base + 0) (put_be32 (source_ssrc b)) w;
          w = put (base + 4) [fraction_lost b] w;
          w = put (base + 5) (WriteSigned24 (cumulative_lost_signed b)) w;
          w = put (base + 8) (put_be32 (extended_high_seq_num b)) w;
          w = put (base + 12) (put_be32 (jitter b)) w;
          w = put (base + 16) (put_be32 (last_sr b)) w
      in put (base + 20) (put_be32 (delay_since_last_sr b)) w)"

definition SetCumulativeLost :: "int \<Rightarrow> ReportBlock \<Rightarrow> bool \<times> ReportBlock" where
  "SetCumulativeLost lost b =
     (if lost \<ge> 2 ^ 23 \<or> lost < - (2 ^ 23) then (False, b)
      else (True, b\<lparr>cumulative_lost_signed := lost\<rparr>))"

definition cumulative_lost :: "ReportBlock \<Rightarrow> u32" where
  "cumulative_lost b =
     (if cumulative_lost_signed b < 0 then 0 else word_of_int (cumulative_lost_signed b))"

text \<open>The class invariant that \<open>SetCumulativeLost\<close> maintains, and the encoding.\<close>

definition ReportBlock_wf :: "ReportBlock \<Rightarrow> bool" where
  "ReportBlock_wf b \<longleftrightarrow> - (2 ^ 23) \<le> cumulative_lost_signed b \<and> cumulative_lost_signed b < 2 ^ 23"

definition ReportBlock_bytes :: "ReportBlock \<Rightarrow> byte list" where
  "ReportBlock_bytes b = put_be32 (source_ssrc b) @ [fraction_lost b]
     @ WriteSigned24 (cumulative_lost_signed b) @ put_be32 (extended_high_seq_num b)
     @ put_be32 (jitter b) @ put_be32 (last_sr b) @ put_be32 (delay_since_last_sr b)"

lemma length_ReportBlock_bytes [simp, wire_simps]: "length (ReportBlock_bytes b) = 24"
  by (simp add: ReportBlock_bytes_def)

lemma ReportBlock_Create_put [emit_simps]:
  "ReportBlock_Create b base w = put base (ReportBlock_bytes b) w"
  by (simp add: ReportBlock_Create_def ReportBlock_bytes_def Let_def emit_simps)

lemma ReportBlock_Parse_bytes:
  assumes "ReportBlock_wf b"
  shows "ReportBlock_Parse (pre @ ReportBlock_bytes b @ post) (length pre) 24 old = Some (True, b)"
  using assms
  by (simp add: ReportBlock_Parse_def ReportBlock_bytes_def ReportBlock_wf_def
      ReportBlock_kLength_def wire_simps)

lemma ReportBlock_Parse_safe:
  "off + 24 \<le> length bs \<Longrightarrow> \<exists>b. ReportBlock_Parse bs off 24 old = Some (True, b)"
  by (simp add: ReportBlock_Parse_def ReportBlock_kLength_def fetch_Some get_u8_Some)

text \<open>A report block as it is read inside the loops of the report packets.\<close>

definition ReportBlock_read :: "byte list \<Rightarrow> nat \<Rightarrow> ReportBlock \<Rightarrow> ReportBlock option" where
  "ReportBlock_read bs off old =
     map_option snd (ReportBlock_Parse bs off ReportBlock_kLength old)"

interpretation report_block: item_codec ReportBlock_bytes ReportBlock_read 24 ReportBlock_wf
proof
  show "length (ReportBlock_bytes b) = 24" for b by simp
  show "ReportBlock_read (pre @ ReportBlock_bytes b @ post) (length pre) old = Some b"
    if "ReportBlock_wf b" for b pre post old
    using ReportBlock_Parse_bytes [OF that]
    by (simp add: ReportBlock_read_def ReportBlock_kLength_def)
  show "\<exists>y. ReportBlock_read bs off old = Some y" if "off + 24 \<le> length bs" for off bs old
    using ReportBlock_Parse_safe [OF that, of old]
    by (auto simp: ReportBlock_read_def ReportBlock_kLength_def)
qed

subsection \<open>\<open>SenderReport\<close>\<close>

text \<open>
  \<open>webrtc::NtpTime\<close> is not part of the repository: its operations are a parameter,
  and the one law the packets rely on is that the two 32-bit halves determine it.
\<close>

record 'ntp NtpOps =
  NtpSet :: "u32 \<Rightarrow> u32 \<Rightarrow> 'ntp"
  NtpSeconds :: "'ntp \<Rightarrow> u32"
  NtpFractions :: "'ntp \<Rightarrow> u32"

definition ntp_halves :: "'ntp NtpOps \<Rightarrow> bool" where
  "ntp_halves N \<longleftrightarrow> (\<forall>t. NtpSet N (NtpSeconds N t) (NtpFractions N t) = t)"

record 'ntp SenderReport = RtcpPacket +
  sr_ntp :: 'ntp
  sr_rtp_timestamp :: u32
  sr_packet_count :: u32
  sr_octet_count :: u32
  sr_report_blocks :: "ReportBlock list"

definition kMaxNumberOfReportBlocks :: nat where
  "kMaxNumberOfReportBlocks = 0x1f"

definition kSenderBaseLength :: nat where
  "kSenderBaseLength = 24"

definition SenderReport_Parse :: "'ntp NtpOps \<Rightarrow> CommonHeader \<Rightarrow> 'ntp SenderReport
    \<Rightarrow> (bool \<times> 'ntp SenderReport) option" where
  "SenderReport_Parse N h p =
     (let report_block_count = unat (count_or_format h)
      in if payload_size h < kSenderBaseLength + report_block_count * ReportBlock_kLength
         then Some (False, p)
         else do {
           ssrc \<leftarrow> get_be32 (payload h) 0;
           secs \<leftarrow> get_be32 (payload h) 4;
           frac \<leftarrow> get_be32 (payload h) 8;
           ts \<leftarrow> get_be32 (payload h) 12;
           packets \<leftarrow> get_be32 (payload h) 16;
           octets \<leftarrow> get_be32 (payload h) 20;
           blocks \<leftarrow> parse_each ReportBlock_read ReportBlock_kLength (payload h)
             kSenderBaseLength (resize report_block_count ReportBlock_init (sr_report_blocks p));
           Some (True, p\<lparr>sender_ssrc := ssrc, sr_ntp := NtpSet N secs frac,
             sr_rtp_timestamp := ts, sr_packet_count := packets, sr_octet_count := octets,
             sr_report_blocks := blocks\<rparr>) })"

definition SenderReport_BlockLength :: "'ntp SenderReport \<Rightarrow> nat" where
  "SenderReport_BlockLength p =
     kHeaderLength + kSenderBaseLength + length (sr_report_blocks p) * ReportBlock_kLength"

definition SenderReport_Create :: "'ntp NtpOps \<Rightarrow> 'ntp SenderReport \<Rightarrow> nat \<Rightarrow> bool \<Rightarrow> wstate
    \<Rightarrow> bool \<times> wstate" where
  "SenderReport_Create N p max_length callback w =
     (case reserve (SenderReport_BlockLength p) max_length callback w of
        (False, w) \<Rightarrow> (False, w)
      | (True, w) \<Rightarrow>
          (let w = CreateHeader (length (sr_report_blocks p)) 200
                     (HeaderLength (SenderReport_BlockLength p)) False w;
               w = put (index w + 0) (put_be32 (sender_ssrc p)) w;
               w = put (index w + 4) (put_be32 (NtpSeconds N (sr_ntp p))) w;
               w = put (index w + 8) (put_be32 (NtpFractions N (sr_ntp p))) w;
               w = put (index w + 12) (put_be32 (sr_rtp_timestamp p)) w;
               w = put (index w + 16) (put_be32 (sr_packet_count p)) w;
               w = put (index w + 20) (put_be32 (sr_octet_count p)) w;
               w = advance kSenderBaseLength w;
               w = fold (\<lambda>block w. advance ReportBlock_kLength
                                     (ReportBlock_Create block (index w) w))
                     (sr_report_blocks p) w
           in (True, w)))"

definition SenderReport_AddReportBlock :: "ReportBlock \<Rightarrow> 'ntp SenderReport
    \<Rightarrow> bool \<times> 'ntp SenderReport" where
  "SenderReport_AddReportBlock block p =
     (if length (sr_report_blocks p) \<ge> kMaxNumberOfReportBlocks then (False, p)
      else (True, p\<lparr>sr_report_blocks := sr_report_blocks p @ [block]\<rparr>))"

definition SenderReport_SetReportBlocks :: "ReportBlock list \<Rightarrow> 'ntp SenderReport
    \<Rightarrow> bool \<times> 'ntp SenderReport" where
  "SenderReport_SetReportBlocks blocks p =
     (if length blocks > kMaxNumberOfReportBlocks then (False, p)
      else (True, p\<lparr>sr_report_blocks := blocks\<rparr>))"

definition SenderReport_wf :: "'ntp SenderReport \<Rightarrow> bool" where
  "SenderReport_wf p \<longleftrightarrow> length (sr_report_blocks p) \<le> kMaxNumberOfReportBlocks
     \<and> (\<forall>b \<in> set (sr_report_blocks p). ReportBlock_wf b)"

definition SenderReport_body :: "'ntp NtpOps \<Rightarrow> 'ntp SenderReport \<Rightarrow> byte list" where
  "SenderReport_body N p =
     put_be32 (sender_ssrc p) @ put_be32 (NtpSeconds N (sr_ntp p))
     @ put_be32 (NtpFractions N (sr_ntp p)) @ put_be32 (sr_rtp_timestamp p)
     @ put_be32 (sr_packet_count p) @ put_be32 (sr_octet_count p)
     @ concat (map ReportBlock_bytes (sr_report_blocks p))"

lemmas SenderReport_consts = kHeaderLength_def kSenderBaseLength_def ReportBlock_kLength_def
  kMaxNumberOfReportBlocks_def

lemma SenderReport_Create_body:
  "SenderReport_Create N p max_length cb w =
     (case reserve (SenderReport_BlockLength p) max_length cb w of
        (False, w') \<Rightarrow> (False, w')
      | (True, w') \<Rightarrow> (True, emit (packet_bytes (\<lambda>p. length (sr_report_blocks p)) 200
          SenderReport_BlockLength (SenderReport_body N) p) w'))"
  by (simp add: SenderReport_Create_def SenderReport_body_def packet_bytes_def Let_def emit_simps
      SenderReport_consts split: prod.split bool.split)

lemma SenderReport_Parse_body:
  assumes "SenderReport_wf p" and "ntp_halves N"
  shows "SenderReport_Parse N (header_for (length (sr_report_blocks p)) 200 (SenderReport_body N p) rest) old
    = Some (True, p)"
proof -
  have n: "length (sr_report_blocks p) < 32"
    using assms(1) by (simp add: SenderReport_wf_def kMaxNumberOfReportBlocks_def)
  have blocks: "parse_each ReportBlock_read 24
      ((put_be32 (sender_ssrc p) @ put_be32 (NtpSeconds N (sr_ntp p))
     @ put_be32 (NtpFractions N (sr_ntp p)) @ put_be32 (sr_rtp_timestamp p)
     @ put_be32 (sr_packet_count p) @ put_be32 (sr_octet_count p))
     @ concat (map ReportBlock_bytes (sr_report_blocks p)) @ rest) 24
      (resize (length (sr_report_blocks p)) ReportBlock_init olds) = Some (sr_report_blocks p)" for olds
    using assms(1) by (intro report_block.parse_each_enc_at) (auto simp: SenderReport_wf_def)
  show ?thesis
    using n blocks assms(2)
    by (simp add: SenderReport_Parse_def SenderReport_body_def Let_def SenderReport_consts
        unat_of_nat wire_simps report_block.length_concat_enc ntp_halves_def)
qed

lemma ReportBlock_read_wf: "ReportBlock_read bs off old = Some b \<Longrightarrow> ReportBlock_wf b"
  using ReadSigned24_bounds
  by (auto simp: ReportBlock_read_def ReportBlock_Parse_def ReportBlock_kLength_def
      ReportBlock_wf_def fetch_def bind_eq_Some_conv)

lemma ReportBlocks_read:
  assumes "off + 24 * n \<le> length bs"
  obtains blocks where
    "parse_each ReportBlock_read 24 bs off (resize n ReportBlock_init olds) = Some blocks"
    "length blocks = n" "\<forall>b \<in> set blocks. ReportBlock_wf b"
proof -
  obtain blocks where blocks:
    "parse_each ReportBlock_read 24 bs off (resize n ReportBlock_init olds) = Some blocks"
    "length blocks = n"
    using assms by (rule report_block.parse_each_resize)
  moreover have "\<forall>b \<in> set blocks. ReportBlock_wf b"
    using blocks(1) by (rule parse_each_all [rotated]) (rule ReportBlock_read_wf)
  ultimately show thesis by (rule that)
qed

lemma SenderReport_Parse_safe:
  assumes "valid_header h" and "unat (count_or_format h) < 32"
  shows "returns (SenderReport_Parse N h p) SenderReport_wf"
proof (cases "payload_size h < 24 + unat (count_or_format h) * 24")
  case True
  then show ?thesis
    by (simp add: SenderReport_Parse_def kSenderBaseLength_def ReportBlock_kLength_def)
next
  case False
  then have len: "24 + 24 * unat (count_or_format h) \<le> length (payload h)"
    using assms(1) by (simp add: valid_header_def)
  obtain blocks where
    "parse_each ReportBlock_read 24 (payload h) 24
       (resize (unat (count_or_format h)) ReportBlock_init (sr_report_blocks p)) = Some blocks"
    "length blocks = unat (count_or_format h)" "\<forall>b \<in> set blocks. ReportBlock_wf b"
    using len by (rule ReportBlocks_read)
  then show ?thesis
    using False len assms(2)
    by (simp add: SenderReport_Parse_def kSenderBaseLength_def ReportBlock_kLength_def fetch_Some
        SenderReport_wf_def kMaxNumberOfReportBlocks_def)
qed

text \<open>The NTP law is needed to read a report back, not to write one.\<close>

interpretation sender_report: rtcp_codec SenderReport_BlockLength "SenderReport_Create N"
  "SenderReport_Parse N" "\<lambda>p. length (sr_report_blocks p)" 200 "SenderReport_body N"
  "\<lambda>p. SenderReport_wf p \<and> ntp_halves N" "\<lambda>p. p" SenderReport_wf for N
proof
  fix p :: "'a SenderReport"
  assume wf: "SenderReport_wf p \<and> ntp_halves N"
  show "SenderReport_BlockLength p = 4 + length (SenderReport_body N p)"
    "length (sr_report_blocks p) < 32 \<and> 4 dvd length (SenderReport_body N p)
      \<and> length (SenderReport_body N p) \<le> 262140"
    using wf
    by (auto simp: SenderReport_BlockLength_def SenderReport_body_def SenderReport_wf_def
        SenderReport_consts report_block.length_concat_enc)
qed (simp_all add: SenderReport_Create_body SenderReport_Parse_body SenderReport_Parse_safe)

lemma SenderReport_setters_wf:
  "SenderReport_wf p \<Longrightarrow> ReportBlock_wf b \<Longrightarrow> SenderReport_wf (snd (SenderReport_AddReportBlock b p))"
  "SenderReport_wf p \<Longrightarrow> \<forall>b \<in> set bs. ReportBlock_wf b
     \<Longrightarrow> SenderReport_wf (snd (SenderReport_SetReportBlocks bs p))"
  "ReportBlock_wf b \<Longrightarrow> ReportBlock_wf (snd (SetCumulativeLost lost b))"
  by (auto simp: SenderReport_wf_def SenderReport_AddReportBlock_def SenderReport_SetReportBlocks_def
      SetCumulativeLost_def ReportBlock_wf_def)

subsection \<open>\<open>ReceiverReport\<close>\<close>

record ReceiverReport = RtcpPacket +
  rr_report_blocks :: "ReportBlock list"

definition kRrBaseLength :: nat where
  "kRrBaseLength = 4"

definition ReceiverReport_Parse :: "CommonHeader \<Rightarrow> ReceiverReport
    \<Rightarrow> (bool \<times> ReceiverReport) option" where
  "ReceiverReport_Parse h p =
     (let report_blocks_count = unat (count_or_format h)
      in if payload_size h < kRrBaseLength + report_blocks_count * ReportBlock_kLength
         then Some (False, p)
         else do {
           ssrc \<leftarrow> get_be32 (payload h) 0;
           blocks \<leftarrow> parse_each ReportBlock_read ReportBlock_kLength (payload h)
             kRrBaseLength (resize report_blocks_count ReportBlock_init (rr_report_blocks p));
           Some (True, p\<lparr>sender_ssrc := ssrc, rr_report_blocks := blocks\<rparr>) })"

definition ReceiverReport_BlockLength :: "ReceiverReport \<Rightarrow> nat" where
  "ReceiverReport_BlockLength p =
     kHeaderLength + kRrBaseLength + length (rr_report_blocks p) * ReportBlock_kLength"

definition ReceiverReport_Create :: "ReceiverReport \<Rightarrow> nat \<Rightarrow> bool \<Rightarrow> wstate \<Rightarrow> bool \<times> wstate" where
  "ReceiverReport_Create p max_length callback w =
     (case reserve (ReceiverReport_BlockLength p) max_length callback w of
        (False, w) \<Rightarrow> (False, w)
      | (True, w) \<Rightarrow>
          (let w = CreateHeader (length (rr_report_blocks p)) 201
                     (HeaderLength (ReceiverReport_BlockLength p)) False w;
               w = put (index w) (put_be32 (sender_ssrc p)) w;
               w = advance kRrBaseLength w;
               w = fold (\<lambda>block w. advance ReportBlock_kLength
                                     (ReportBlock_Create block (index w) w))
                     (rr_report_blocks p) w
           in (True, w)))"

definition ReceiverReport_AddReportBlock :: "ReportBlock \<Rightarrow> ReceiverReport
    \<Rightarrow> bool \<times> ReceiverReport" where
  "ReceiverReport_AddReportBlock block p =
     (if length (rr_report_blocks p) \<ge> kMaxNumberOfReportBlocks then (False, p)
      else (True, p\<lparr>rr_report_blocks := rr_report_blocks p @ [block]\<rparr>))"

definition ReceiverReport_SetReportBlocks :: "ReportBlock list \<Rightarrow> ReceiverReport
    \<Rightarrow> bool \<times> ReceiverReport" where
  "ReceiverReport_SetReportBlocks blocks p =
     (if length blocks > kMaxNumberOfReportBlocks then (False, p)
      else (True, p\<lparr>rr_report_blocks := blocks\<rparr>))"

definition ReceiverReport_wf :: "ReceiverReport \<Rightarrow> bool" where
  "ReceiverReport_wf p \<longleftrightarrow> length (rr_report_blocks p) \<le> kMaxNumberOfReportBlocks
     \<and> (\<forall>b \<in> set (rr_report_blocks p). ReportBlock_wf b)"

definition ReceiverReport_body :: "ReceiverReport \<Rightarrow> byte list" where
  "ReceiverReport_body p =
     put_be32 (sender_ssrc p) @ concat (map ReportBlock_bytes (rr_report_blocks p))"

lemma ReceiverReport_Parse_body:
  assumes "ReceiverReport_wf p"
  shows "ReceiverReport_Parse (header_for (length (rr_report_blocks p)) 201 (ReceiverReport_body p) rest) old
    = Some (True, p)"
proof -
  have n: "length (rr_report_blocks p) < 32"
    using assms by (simp add: ReceiverReport_wf_def kMaxNumberOfReportBlocks_def)
  have "parse_each ReportBlock_read 24 (put_be32 (sender_ssrc p)
        @ concat (map ReportBlock_bytes (rr_report_blocks p)) @ rest) 4
      (resize (length (rr_report_blocks p)) ReportBlock_init olds) = Some (rr_report_blocks p)" for olds
    using assms by (intro report_block.parse_each_enc_at) (auto simp: ReceiverReport_wf_def)
  with n show ?thesis
    by (simp add: ReceiverReport_Parse_def ReceiverReport_body_def Let_def kRrBaseLength_def
        ReportBlock_kLength_def unat_of_nat wire_simps report_block.length_concat_enc)
qed

lemma ReceiverReport_Parse_safe:
  assumes "valid_header h" and "unat (count_or_format h) < 32"
  shows "returns (ReceiverReport_Parse h p) ReceiverReport_wf"
proof (cases "payload_size h < 4 + unat (count_or_format h) * 24")
  case True
  then show ?thesis
    by (simp add: ReceiverReport_Parse_def kRrBaseLength_def ReportBlock_kLength_def)
next
  case False
  then have len: "4 + 24 * unat (count_or_format h) \<le> length (payload h)"
    using assms(1) by (simp add: valid_header_def)
  obtain blocks where
    "parse_each ReportBlock_read 24 (payload h) 4
       (resize (unat (count_or_format h)) ReportBlock_init (rr_report_blocks p)) = Some blocks"
    "length blocks = unat (count_or_format h)" "\<forall>b \<in> set blocks. ReportBlock_wf b"
    using len by (rule ReportBlocks_read)
  then show ?thesis
    using False len assms(2)
    by (simp add: ReceiverReport_Parse_def kRrBaseLength_def ReportBlock_kLength_def fetch_Some
        ReceiverReport_wf_def kMaxNumberOfReportBlocks_def)
qed


interpretation receiver_report: rtcp_codec ReceiverReport_BlockLength ReceiverReport_Create
  ReceiverReport_Parse "\<lambda>p. length (rr_report_blocks p)" 201 ReceiverReport_body
  ReceiverReport_wf "\<lambda>p. p" ReceiverReport_wf
proof
  fix p
  assume wf: "ReceiverReport_wf p"
  show "ReceiverReport_Create p max_length cb w =
      (case reserve (ReceiverReport_BlockLength p) max_length cb w of
         (False, w') \<Rightarrow> (False, w')
       | (True, w') \<Rightarrow> (True, emit (packet_bytes (\<lambda>p. length (rr_report_blocks p)) 201
           ReceiverReport_BlockLength ReceiverReport_body p) w'))" for max_length cb w
    by (simp add: ReceiverReport_Create_def ReceiverReport_body_def packet_bytes_def Let_def
        emit_simps kRrBaseLength_def ReportBlock_kLength_def split: prod.split bool.split)
  show "ReceiverReport_BlockLength p = 4 + length (ReceiverReport_body p)"
    "length (rr_report_blocks p) < 32 \<and> 4 dvd length (ReceiverReport_body p)
      \<and> length (ReceiverReport_body p) \<le> 262140"
    using wf
    by (auto simp: ReceiverReport_BlockLength_def ReceiverReport_body_def ReceiverReport_wf_def
        SenderReport_consts kRrBaseLength_def report_block.length_concat_enc)
qed (simp_all add: ReceiverReport_Parse_body ReceiverReport_Parse_safe)

subsection \<open>\<open>ExtendedJitterReport\<close>\<close>

record ExtendedJitterReport = RtcpPacket +
  inter_arrival_jitters :: "u32 list"

definition kMaxNumberOfJitterValues :: nat where
  "kMaxNumberOfJitterValues = 0x1f"

definition kJitterSizeBytes :: nat where
  "kJitterSizeBytes = 4"

definition ExtendedJitterReport_Parse :: "CommonHeader \<Rightarrow> ExtendedJitterReport
    \<Rightarrow> (bool \<times> ExtendedJitterReport) option" where
  "ExtendedJitterReport_Parse h p =
     (let number_of_jitters = unat (count_or_format h)
      in if payload_size h < number_of_jitters * kJitterSizeBytes then Some (False, p)
         else do {
           js \<leftarrow> parse_each (\<lambda>bs off _. get_be32 bs off) kJitterSizeBytes (payload h) 0
             (resize number_of_jitters 0 (inter_arrival_jitters p));
           Some (True, p\<lparr>inter_arrival_jitters := js\<rparr>) })"

definition SetJitterValues :: "u32 list \<Rightarrow> ExtendedJitterReport \<Rightarrow> bool \<times> ExtendedJitterReport" where
  "SetJitterValues values p =
     (if length values > kMaxNumberOfJitterValues then (False, p)
      else (True, p\<lparr>inter_arrival_jitters := values\<rparr>))"

definition ExtendedJitterReport_BlockLength :: "ExtendedJitterReport \<Rightarrow> nat" where
  "ExtendedJitterReport_BlockLength p =
     kHeaderLength + kJitterSizeBytes * length (inter_arrival_jitters p)"

definition ExtendedJitterReport_Create :: "ExtendedJitterReport \<Rightarrow> nat \<Rightarrow> bool \<Rightarrow> wstate
    \<Rightarrow> bool \<times> wstate" where
  "ExtendedJitterReport_Create p max_length callback w =
     (case reserve (ExtendedJitterReport_BlockLength p) max_length callback w of
        (False, w) \<Rightarrow> (False, w)
      | (True, w) \<Rightarrow>
          (let len = length (inter_arrival_jitters p);
               w = CreateHeader len 195 len False w;
               w = fold (\<lambda>jitter w. advance kJitterSizeBytes (put (index w) (put_be32 jitter) w))
                     (inter_arrival_jitters p) w
           in (True, w)))"

definition ExtendedJitterReport_wf :: "ExtendedJitterReport \<Rightarrow> bool" where
  "ExtendedJitterReport_wf p \<longleftrightarrow> sender_ssrc p = 0
     \<and> length (inter_arrival_jitters p) \<le> kMaxNumberOfJitterValues"

text \<open>The packet carries no sender ssrc: the wire keeps only the jitters.\<close>

interpretation jitter_report: rtcp_codec ExtendedJitterReport_BlockLength
  ExtendedJitterReport_Create "\<lambda>h p. ExtendedJitterReport_Parse h (p\<lparr>sender_ssrc := 0\<rparr>)"
  "\<lambda>p. length (inter_arrival_jitters p)" 195
  "\<lambda>p. concat (map put_be32 (inter_arrival_jitters p))" ExtendedJitterReport_wf "\<lambda>p. p"
  ExtendedJitterReport_wf
proof
  fix p
  assume wf: "ExtendedJitterReport_wf p"
  then have n: "length (inter_arrival_jitters p) < 32"
    by (simp add: ExtendedJitterReport_wf_def kMaxNumberOfJitterValues_def)
  show "ExtendedJitterReport_Create p max_length cb w =
      (case reserve (ExtendedJitterReport_BlockLength p) max_length cb w of
         (False, w') \<Rightarrow> (False, w')
       | (True, w') \<Rightarrow> (True, emit (packet_bytes (\<lambda>p. length (inter_arrival_jitters p)) 195
           ExtendedJitterReport_BlockLength (\<lambda>p. concat (map put_be32 (inter_arrival_jitters p))) p)
           w'))" for max_length cb w
    by (simp add: ExtendedJitterReport_Create_def packet_bytes_def Let_def emit_simps
        ExtendedJitterReport_BlockLength_def kJitterSizeBytes_def kHeaderLength_def HeaderLength_def
        split: prod.split bool.split)
  show "ExtendedJitterReport_BlockLength p = 4 + length (concat (map put_be32 (inter_arrival_jitters p)))"
    by (simp add: ExtendedJitterReport_BlockLength_def kHeaderLength_def kJitterSizeBytes_def
        be32.length_concat_enc)
  show "length (inter_arrival_jitters p) < 32 \<and> 4 dvd length (concat (map put_be32 (inter_arrival_jitters p)))
      \<and> length (concat (map put_be32 (inter_arrival_jitters p))) \<le> 262140"
    using n by (simp add: be32.length_concat_enc)
  show "ExtendedJitterReport_Parse (header_for (length (inter_arrival_jitters p)) 195
      (concat (map put_be32 (inter_arrival_jitters p))) rest) (old\<lparr>sender_ssrc := 0\<rparr>) = Some (True, p)"
    for rest old
    using wf n be32.parse_each_enc_at [of "inter_arrival_jitters p"
        "resize (length (inter_arrival_jitters p)) 0 (inter_arrival_jitters old)" "[]" 0 rest]
    by (simp add: ExtendedJitterReport_Parse_def Let_def kJitterSizeBytes_def unat_of_nat
        be32.length_concat_enc ExtendedJitterReport_wf_def)
next
  fix h :: CommonHeader and old
  assume h: "valid_header h" "unat (count_or_format h) < 32"
  show "returns (ExtendedJitterReport_Parse h (old\<lparr>sender_ssrc := 0\<rparr>)) ExtendedJitterReport_wf"
  proof (cases "payload_size h < unat (count_or_format h) * 4")
    case False
    obtain js where "parse_each (\<lambda>bs off _. get_be32 bs off) 4 (payload h) 0
        (resize (unat (count_or_format h)) 0 (inter_arrival_jitters old)) = Some js"
      "length js = unat (count_or_format h)"
      using False h(1) by (elim be32.parse_each_resize [rotated]) (simp add: valid_header_def)
    with False h(2) show ?thesis
      by (simp add: ExtendedJitterReport_Parse_def kJitterSizeBytes_def ExtendedJitterReport_wf_def
          kMaxNumberOfJitterValues_def)
  qed (simp add: ExtendedJitterReport_Parse_def kJitterSizeBytes_def)
qed


subsection \<open>Properties\<close>

text \<open>
  Parsing arbitrary received bytes as a sender, receiver or jitter report never
  reads outside the receive buffer, and a report that parses satisfies the class
  invariant, so it can be written again.
\<close>

lemma report_parsers_safe:
  assumes "size_bytes \<le> length buffer"
    and "CommonHeader_Parse buffer size_bytes h0 = Some (True, h)"
  shows "returns (SenderReport_Parse N h sr) SenderReport_wf
    \<and> returns (ReceiverReport_Parse h rr) ReceiverReport_wf
    \<and> returns (ExtendedJitterReport_Parse h jr) (\<lambda>p. length (inter_arrival_jitters p) \<le> 31)"
proof -
  have "returns (ExtendedJitterReport_Parse h (jr\<lparr>sender_ssrc := 0\<rparr>)) ExtendedJitterReport_wf"
    using assms(2,1) by (rule jitter_report.receive_safe)
  then have "returns (ExtendedJitterReport_Parse h jr) (\<lambda>p. length (inter_arrival_jitters p) \<le> 31)"
    by (auto simp: ExtendedJitterReport_Parse_def Let_def returns_def ExtendedJitterReport_wf_def
        kMaxNumberOfJitterValues_def split: option.splits if_splits Option.bind_splits)
  then show ?thesis
    using sender_report.receive_safe [OF assms(2,1)] receiver_report.receive_safe [OF assms(2,1)]
    by blast
qed

end
