(* ===== verification/Rtcp_Feedback.thy ===== *)
theory Rtcp_Feedback
  imports Rtcp_Packet
begin

text \<open>
  The feedback messages of RFC 4585 and RFC 5104: \<open>rtcp_packet/rtpfb\<close> and \<open>psfb\<close> (the two
  base classes), \<open>pli\<close>, \<open>rapid_resync_request\<close>, \<open>fir\<close> and \<open>nack\<close>. The generic nack packs
  a list of sequence numbers into (first, bitmask) pairs and, unlike the other packets,
  splits itself over several packets when it does not fit the buffer.
\<close>

subsection \<open>The base classes \<open>Rtpfb\<close> and \<open>Psfb\<close>\<close>

record Rtpfb = RtcpPacket +
  media_ssrc :: u32

record Psfb = RtcpPacket +
  ps_media_ssrc :: u32

definition kCommonFeedbackLength :: nat where
  "kCommonFeedbackLength = 8"

definition Rtpfb_ParseCommonFeedback :: "byte list \<Rightarrow> 'a Rtpfb_scheme \<Rightarrow> 'a Rtpfb_scheme option" where
  "Rtpfb_ParseCommonFeedback bs p = do {
     sender \<leftarrow> get_be32 bs 0;
     media \<leftarrow> get_be32 bs 4;
     Some (p\<lparr>sender_ssrc := sender, media_ssrc := media\<rparr>) }"

definition Rtpfb_CreateCommonFeedback :: "'a Rtpfb_scheme \<Rightarrow> nat \<Rightarrow> wstate \<Rightarrow> wstate" where
  "Rtpfb_CreateCommonFeedback p base w =
     put (base + 4) (put_be32 (media_ssrc p)) (put (base + 0) (put_be32 (sender_ssrc p)) w)"

definition Psfb_ParseCommonFeedback :: "byte list \<Rightarrow> 'a Psfb_scheme \<Rightarrow> 'a Psfb_scheme option" where
  "Psfb_ParseCommonFeedback bs p = do {
     sender \<leftarrow> get_be32 bs 0;
     media \<leftarrow> get_be32 bs 4;
     Some (p\<lparr>sender_ssrc := sender, ps_media_ssrc := media\<rparr>) }"

definition Psfb_CreateCommonFeedback :: "'a Psfb_scheme \<Rightarrow> nat \<Rightarrow> wstate \<Rightarrow> wstate" where
  "Psfb_CreateCommonFeedback p base w =
     put (base + 4) (put_be32 (ps_media_ssrc p)) (put (base + 0) (put_be32 (sender_ssrc p)) w)"

definition Rtpfb_bytes :: "'a Rtpfb_scheme \<Rightarrow> byte list" where
  "Rtpfb_bytes p = put_be32 (sender_ssrc p) @ put_be32 (media_ssrc p)"

definition Psfb_bytes :: "'a Psfb_scheme \<Rightarrow> byte list" where
  "Psfb_bytes p = put_be32 (sender_ssrc p) @ put_be32 (ps_media_ssrc p)"

lemma length_feedback_bytes [simp, wire_simps]:
  "length (Rtpfb_bytes p) = 8" "length (Psfb_bytes q) = 8"
  by (simp_all add: Rtpfb_bytes_def Psfb_bytes_def)

lemma CreateCommonFeedback_put [emit_simps]:
  "Rtpfb_CreateCommonFeedback p base w = put base (Rtpfb_bytes p) w"
  "Psfb_CreateCommonFeedback q base w = put base (Psfb_bytes q) w"
  by (simp_all add: Rtpfb_CreateCommonFeedback_def Psfb_CreateCommonFeedback_def Rtpfb_bytes_def
      Psfb_bytes_def emit_simps)

lemma ParseCommonFeedback_bytes [wire_simps]:
  "Rtpfb_ParseCommonFeedback (Rtpfb_bytes p @ rest) old =
     Some (old\<lparr>sender_ssrc := sender_ssrc p, media_ssrc := media_ssrc p\<rparr>)"
  "Psfb_ParseCommonFeedback (Psfb_bytes q @ rest) old' =
     Some (old'\<lparr>sender_ssrc := sender_ssrc q, ps_media_ssrc := ps_media_ssrc q\<rparr>)"
  by (simp_all add: Rtpfb_ParseCommonFeedback_def Psfb_ParseCommonFeedback_def Rtpfb_bytes_def
      Psfb_bytes_def wire_simps)

lemma Rtpfb_ParseCommonFeedback_safe:
  assumes "8 \<le> length bs"
  obtains s m where "Rtpfb_ParseCommonFeedback bs p = Some (p\<lparr>sender_ssrc := s, media_ssrc := m\<rparr>)"
  using assms by (simp add: Rtpfb_ParseCommonFeedback_def fetch_Some)

lemma Psfb_ParseCommonFeedback_safe:
  assumes "8 \<le> length bs"
  obtains s m where "Psfb_ParseCommonFeedback bs p = Some (p\<lparr>sender_ssrc := s, ps_media_ssrc := m\<rparr>)"
  using assms by (simp add: Psfb_ParseCommonFeedback_def fetch_Some)

subsection \<open>\<open>Pli\<close> and \<open>RapidResyncRequest\<close>\<close>

definition Pli_Parse :: "CommonHeader \<Rightarrow> Psfb \<Rightarrow> (bool \<times> Psfb) option" where
  "Pli_Parse h p =
     (if payload_size h < kCommonFeedbackLength then Some (False, p)
      else do { p \<leftarrow> Psfb_ParseCommonFeedback (payload h) p; Some (True, p) })"

definition Pli_BlockLength :: "Psfb \<Rightarrow> nat" where
  "Pli_BlockLength p = kHeaderLength + kCommonFeedbackLength"

definition Pli_Create :: "Psfb \<Rightarrow> nat \<Rightarrow> bool \<Rightarrow> wstate \<Rightarrow> bool \<times> wstate" where
  "Pli_Create p max_length callback w =
     (case reserve (Pli_BlockLength p) max_length callback w of
        (False, w) \<Rightarrow> (False, w)
      | (True, w) \<Rightarrow>
          (let w = CreateHeader 1 206 (HeaderLength (Pli_BlockLength p)) False w;
               w = Psfb_CreateCommonFeedback p (index w) w
           in (True, advance kCommonFeedbackLength w)))"

definition RapidResyncRequest_Parse :: "CommonHeader \<Rightarrow> Rtpfb \<Rightarrow> (bool \<times> Rtpfb) option" where
  "RapidResyncRequest_Parse h p =
     (if payload_size h \<noteq> kCommonFeedbackLength then Some (False, p)
      else do { p \<leftarrow> Rtpfb_ParseCommonFeedback (payload h) p; Some (True, p) })"

definition RapidResyncRequest_BlockLength :: "Rtpfb \<Rightarrow> nat" where
  "RapidResyncRequest_BlockLength p = kHeaderLength + kCommonFeedbackLength"

definition RapidResyncRequest_Create :: "Rtpfb \<Rightarrow> nat \<Rightarrow> bool \<Rightarrow> wstate \<Rightarrow> bool \<times> wstate" where
  "RapidResyncRequest_Create p max_length callback w =
     (case reserve (RapidResyncRequest_BlockLength p) max_length callback w of
        (False, w) \<Rightarrow> (False, w)
      | (True, w) \<Rightarrow>
          (let w = CreateHeader 5 205 (HeaderLength (RapidResyncRequest_BlockLength p)) False w;
               w = Rtpfb_CreateCommonFeedback p (index w) w
           in (True, advance kCommonFeedbackLength w)))"

lemmas feedback_consts = kHeaderLength_def kCommonFeedbackLength_def HeaderLength_def

interpretation pli: rtcp_codec Pli_BlockLength Pli_Create Pli_Parse "\<lambda>_. 1" 206 Psfb_bytes
  "\<lambda>_. True" "\<lambda>p. p" "\<lambda>_. True"
proof
  fix h :: CommonHeader and old
  assume h: "valid_header h"
  show "returns (Pli_Parse h old) (\<lambda>_. True)"
  proof (cases "payload_size h < 8")
    case False
    with h have "8 \<le> length (payload h)" by (simp add: valid_header_def)
    then show ?thesis
      by (rule Psfb_ParseCommonFeedback_safe [of _ old]) (simp add: Pli_Parse_def)
  qed (simp add: Pli_Parse_def kCommonFeedbackLength_def)
qed (simp_all add: Pli_Create_def Pli_BlockLength_def Pli_Parse_def packet_bytes_def Let_def
    emit_simps wire_simps feedback_consts split: prod.split bool.split)

interpretation rrr: rtcp_codec RapidResyncRequest_BlockLength RapidResyncRequest_Create
  RapidResyncRequest_Parse "\<lambda>_. 5" 205 Rtpfb_bytes "\<lambda>_. True" "\<lambda>p. p" "\<lambda>_. True"
proof
  fix h :: CommonHeader and old
  assume h: "valid_header h"
  show "returns (RapidResyncRequest_Parse h old) (\<lambda>_. True)"
  proof (cases "payload_size h = 8")
    case True
    with h have "8 \<le> length (payload h)" by (simp add: valid_header_def)
    then show ?thesis
      by (rule Rtpfb_ParseCommonFeedback_safe [of _ old]) (simp add: RapidResyncRequest_Parse_def)
  qed (simp add: RapidResyncRequest_Parse_def kCommonFeedbackLength_def)
qed (simp_all add: RapidResyncRequest_Create_def RapidResyncRequest_BlockLength_def
    RapidResyncRequest_Parse_def packet_bytes_def Let_def emit_simps wire_simps feedback_consts
    split: prod.split bool.split)

subsection \<open>\<open>Fir\<close>\<close>

record FirRequest =
  fir_ssrc :: u32
  fir_seq_nr :: byte

record Fir = Psfb +
  fir_items :: "FirRequest list"

definition kFciLength :: nat where
  "kFciLength = 8"

definition FirRequest_init :: FirRequest where
  "FirRequest_init = \<lparr>fir_ssrc = 0, fir_seq_nr = 0\<rparr>"

definition AddRequestTo :: "u32 \<Rightarrow> byte \<Rightarrow> Fir \<Rightarrow> Fir" where
  "AddRequestTo ssrc seq_num p = p\<lparr>fir_items := fir_items p @ [\<lparr>fir_ssrc = ssrc, fir_seq_nr = seq_num\<rparr>]\<rparr>"

definition FirRequest_read :: "byte list \<Rightarrow> nat \<Rightarrow> FirRequest \<Rightarrow> FirRequest option" where
  "FirRequest_read bs next_fci r = do {
     ssrc \<leftarrow> get_be32 bs next_fci;
     seq \<leftarrow> get_u8 bs (next_fci + 4);
     Some (r\<lparr>fir_ssrc := ssrc, fir_seq_nr := seq\<rparr>) }"

definition Fir_Parse :: "CommonHeader \<Rightarrow> Fir \<Rightarrow> (bool \<times> Fir) option" where
  "Fir_Parse h p =
     (if payload_size h < kCommonFeedbackLength + kFciLength then Some (False, p)
      else if (payload_size h - kCommonFeedbackLength) mod kFciLength \<noteq> 0 then Some (False, p)
      else do {
        p \<leftarrow> Psfb_ParseCommonFeedback (payload h) p;
        let number_of_fci_items = (payload_size h - kCommonFeedbackLength) div kFciLength;
        items \<leftarrow> parse_each FirRequest_read kFciLength (payload h) kCommonFeedbackLength
          (resize number_of_fci_items FirRequest_init (fir_items p));
        Some (True, p\<lparr>fir_items := items\<rparr>) })"

definition Fir_BlockLength :: "Fir \<Rightarrow> nat" where
  "Fir_BlockLength p = kHeaderLength + kCommonFeedbackLength + kFciLength * length (fir_items p)"

text \<open>The body of the loop over \<open>items_\<close>.\<close>

definition FirRequest_write :: "FirRequest \<Rightarrow> wstate \<Rightarrow> wstate" where
  "FirRequest_write request w =
     (let kReserved = 0 :: u32;
          w = put (index w) (put_be32 (fir_ssrc request)) w;
          w = put (index w + 4) [fir_seq_nr request] w;
          w = put (index w + 5) (put_be24 kReserved) w
      in advance kFciLength w)"

definition Fir_Create :: "Fir \<Rightarrow> nat \<Rightarrow> bool \<Rightarrow> wstate \<Rightarrow> bool \<times> wstate" where
  "Fir_Create p max_length callback w =
     (case reserve (Fir_BlockLength p) max_length callback w of
        (False, w) \<Rightarrow> (False, w)
      | (True, w) \<Rightarrow>
          (let index_end = index w + Fir_BlockLength p;
               w = CreateHeader 4 206 (HeaderLength (Fir_BlockLength p)) False w;
               w = Psfb_CreateCommonFeedback p (index w) w;
               w = advance kCommonFeedbackLength w;
               w = fold FirRequest_write (fir_items p) w
           in (True, rtc_check (index w = index_end) w)))"

definition FirRequest_bytes :: "FirRequest \<Rightarrow> byte list" where
  "FirRequest_bytes r = put_be32 (fir_ssrc r) @ [fir_seq_nr r] @ put_be24 (0 :: u32)"

interpretation fir_item: item_codec FirRequest_bytes FirRequest_read 8 "\<lambda>_. True"
proof
  show "FirRequest_read (pre @ FirRequest_bytes x @ post) (length pre) old = Some x" for x pre post old
    by (simp add: FirRequest_bytes_def FirRequest_read_def wire_simps)
qed (simp_all add: FirRequest_bytes_def FirRequest_read_def fetch_Some get_u8_Some)

lemma FirRequest_write_emit [emit_simps]: "FirRequest_write = (\<lambda>r. emit (FirRequest_bytes r))"
  by (simp add: fun_eq_iff FirRequest_write_def FirRequest_bytes_def Let_def emit_simps kFciLength_def)

text \<open>
  A request needs at least one entry; the 16-bit length field bounds their number.
\<close>

definition Fir_wf :: "Fir \<Rightarrow> bool" where
  "Fir_wf p \<longleftrightarrow> 1 \<le> length (fir_items p) \<and> length (fir_items p) \<le> 32766"

definition Fir_body :: "Fir \<Rightarrow> byte list" where
  "Fir_body p = Psfb_bytes p @ concat (map FirRequest_bytes (fir_items p))"

lemma length_Fir_body: "length (Fir_body p) = 8 + 8 * length (fir_items p)"
  by (simp add: Fir_body_def fir_item.length_concat_enc)

lemmas fir_consts = feedback_consts kFciLength_def

lemma Fir_Parse_body:
  assumes "Fir_wf p"
  shows "Fir_Parse (header_for 4 206 (Fir_body p) rest) old = Some (True, p)"
proof -
  have "parse_each FirRequest_read 8 (Psfb_bytes p @ concat (map FirRequest_bytes (fir_items p)) @ rest)
      8 (resize (length (fir_items p)) FirRequest_init olds) = Some (fir_items p)" for olds
    by (rule fir_item.parse_each_enc_at) auto
  moreover have "fir_items p \<noteq> []"
    using assms by (auto simp: Fir_wf_def)
  ultimately show ?thesis
    by (simp add: Fir_Parse_def length_Fir_body fir_consts Fir_body_def [of p] wire_simps
        fir_item.length_concat_enc)
qed

lemma Fir_Parse_safe:
  assumes "valid_header h" and "payload_size h \<le> 262140"
  shows "returns (Fir_Parse h p) Fir_wf"
proof (cases "payload_size h < 16 \<or> (payload_size h - 8) mod 8 \<noteq> 0")
  case True
  then show ?thesis by (auto simp: Fir_Parse_def fir_consts)
next
  case False
  let ?n = "(payload_size h - 8) div 8"
  have n: "8 + 8 * ?n \<le> length (payload h)" "1 \<le> ?n" "?n \<le> 32766" "8 \<le> length (payload h)"
    using False assms by (auto simp: valid_header_def)
  obtain s m where p: "Psfb_ParseCommonFeedback (payload h) p =
      Some (p\<lparr>sender_ssrc := s, ps_media_ssrc := m\<rparr>)"
    using n(4) by (rule Psfb_ParseCommonFeedback_safe)
  obtain items where "parse_each FirRequest_read 8 (payload h) 8
      (resize ?n FirRequest_init (fir_items p)) = Some items" "length items = ?n"
    using n(1) by (rule fir_item.parse_each_resize)
  with p n show ?thesis
    using False by (simp add: Fir_Parse_def fir_consts Fir_wf_def)
qed

interpretation fir: rtcp_codec Fir_BlockLength Fir_Create Fir_Parse "\<lambda>_. 4" 206 Fir_body Fir_wf
  "\<lambda>p. p" Fir_wf
proof
  fix p
  assume wf: "Fir_wf p"
  show "Fir_Create p max_length cb w =
      (case reserve (Fir_BlockLength p) max_length cb w of
         (False, w') \<Rightarrow> (False, w')
       | (True, w') \<Rightarrow> (True, emit (packet_bytes (\<lambda>_. 4) 206 Fir_BlockLength Fir_body p) w'))"
    for max_length cb w
    by (simp add: Fir_Create_def Fir_body_def packet_bytes_def Let_def emit_simps fir_consts
        fir_item.length_concat_enc Fir_BlockLength_def
        split: prod.split bool.split)
  show "Fir_BlockLength p = 4 + length (Fir_body p)"
    "4 < (32 :: nat) \<and> 4 dvd length (Fir_body p) \<and> length (Fir_body p) \<le> 262140"
    using wf by (auto simp: Fir_BlockLength_def length_Fir_body Fir_wf_def fir_consts)
qed (simp_all add: Fir_Parse_body Fir_Parse_safe)

subsection \<open>\<open>Nack\<close>\<close>

record PackedNack =
  first_pid :: u16
  bitmask :: u16

record Nack = Rtpfb +
  packed :: "PackedNack list"
  packet_ids :: "u16 list"

definition kNackItemLength :: nat where
  "kNackItemLength = 4"

text \<open>
  The inner loop of \<open>Pack\<close>: absorbs the ids that follow \<open>first_pid\<close> by at most 16 into
  the bitmask and stops at the first other one.
\<close>

fun Pack_item :: "u16 \<Rightarrow> u16 \<Rightarrow> u16 list \<Rightarrow> u16 \<times> u16 list" where
  "Pack_item first bits [] = (bits, [])"
| "Pack_item first bits (x # xs) =
     (let shift = x - first - 1
      in if shift \<le> 15 then Pack_item first (bits OR push_bit (unat shift) 1) xs
         else (bits, x # xs))"

lemma Pack_item_shorter: "length (snd (Pack_item first bits xs)) \<le> length xs"
  by (induction first bits xs rule: Pack_item.induct) (auto simp: Let_def)

function Pack_loop :: "u16 list \<Rightarrow> PackedNack list" where
  "Pack_loop [] = []"
| "Pack_loop (x # xs) =
     (let item = Pack_item x 0 xs
      in \<lparr>first_pid = x, bitmask = fst item\<rparr> # Pack_loop (snd item))"
  by pat_completeness auto
termination
  by (relation "measure length") (auto simp: less_Suc_eq_le Pack_item_shorter)

definition Pack :: "Nack \<Rightarrow> Nack" where
  "Pack p = p\<lparr>packed := packed p @ Pack_loop (packet_ids p)\<rparr>"

definition SetPacketIds :: "u16 list \<Rightarrow> Nack \<Rightarrow> Nack" where
  "SetPacketIds nack_list p = Pack (p\<lparr>packet_ids := nack_list\<rparr>)"

text \<open>The inner loop of \<open>Unpack\<close> and its outer loop.\<close>

function Unpack_item :: "u16 \<Rightarrow> u16 \<Rightarrow> u16 list" where
  "Unpack_item pid bits =
     (if bits = 0 then []
      else (if bits AND 1 \<noteq> 0 then [pid] else []) @ Unpack_item (pid + 1) (drop_bit 1 bits))"
  by pat_completeness auto
termination
proof (relation "measure (\<lambda>(_, bits). unat bits)")
  fix pid bits :: u16
  assume "bits \<noteq> 0"
  then have "0 < unat bits"
    by (simp add: unat_gt_0)
  then show "((pid + 1, drop_bit 1 bits), pid, bits) \<in> measure (\<lambda>(_, bits). unat bits)"
    by (simp add: unsigned_drop_bit_eq drop_bit_Suc unat_div)
qed simp

declare Unpack_item.simps [simp del]

definition Unpack_items :: "PackedNack list \<Rightarrow> u16 list" where
  "Unpack_items items =
     concat (map (\<lambda>item. first_pid item # Unpack_item (first_pid item + 1) (bitmask item)) items)"

definition Unpack :: "Nack \<Rightarrow> Nack" where
  "Unpack p = p\<lparr>packet_ids := packet_ids p @ Unpack_items (packed p)\<rparr>"

definition PackedNack_read :: "byte list \<Rightarrow> nat \<Rightarrow> PackedNack \<Rightarrow> PackedNack option" where
  "PackedNack_read bs next_nack item = do {
     first \<leftarrow> get_be16 bs next_nack;
     bits \<leftarrow> get_be16 bs (next_nack + 2);
     Some (item\<lparr>first_pid := first, bitmask := bits\<rparr>) }"

definition Nack_Parse :: "CommonHeader \<Rightarrow> Nack \<Rightarrow> (bool \<times> Nack) option" where
  "Nack_Parse h p =
     (if payload_size h < kCommonFeedbackLength + kNackItemLength then Some (False, p)
      else do {
        let nack_items = (payload_size h - kCommonFeedbackLength) div kNackItemLength;
        p \<leftarrow> Rtpfb_ParseCommonFeedback (payload h) p;
        let p = p\<lparr>packet_ids := []\<rparr>;
        items \<leftarrow> parse_each PackedNack_read kNackItemLength (payload h) kCommonFeedbackLength
          (resize nack_items \<lparr>first_pid = 0, bitmask = 0\<rparr> (packed p));
        Some (True, Unpack (p\<lparr>packed := items\<rparr>)) })"

definition Nack_BlockLength :: "Nack \<Rightarrow> nat" where
  "Nack_BlockLength p =
     kHeaderLength + kCommonFeedbackLength + length (packed p) * kNackItemLength"

definition PackedNack_write :: "PackedNack \<Rightarrow> wstate \<Rightarrow> wstate" where
  "PackedNack_write item w =
     (let w = put (index w + 0) (put_be16 (first_pid item)) w;
          w = put (index w + 2) (put_be16 (bitmask item)) w
      in advance kNackItemLength w)"

text \<open>
  One packet of the loop in \<open>Create\<close>, with the items it takes. \<open>div_exact\<close> stands for
  \<open>rtc::CheckedDivExact\<close>, which is not part of the repository.
\<close>

definition Nack_fragment :: "(nat \<Rightarrow> nat \<Rightarrow> nat) \<Rightarrow> Nack \<Rightarrow> PackedNack list \<Rightarrow> wstate \<Rightarrow> wstate" where
  "Nack_fragment div_exact p items w =
     (let payload_size_bytes = kCommonFeedbackLength + length items * kNackItemLength;
          payload_size_32bits = div_exact payload_size_bytes 4;
          w = CreateHeader 1 205 payload_size_32bits False w;
          w = Rtpfb_CreateCommonFeedback p (index w) w;
          w = advance kCommonFeedbackLength w
      in fold PackedNack_write items w)"

text \<open>
  \<open>items\<close> is the rest of \<open>packed_\<close> from \<open>nack_index\<close> on. The subtraction
  \<open>max_length - *index\<close> is unsigned.
\<close>

function Nack_Create_loop :: "(nat \<Rightarrow> nat \<Rightarrow> nat) \<Rightarrow> Nack \<Rightarrow> PackedNack list \<Rightarrow> nat \<Rightarrow> bool \<Rightarrow> wstate
    \<Rightarrow> bool \<times> wstate" where
  "Nack_Create_loop div_exact p items max_length callback w =
     (let kNackHeaderLength = kHeaderLength + kCommonFeedbackLength;
          bytes_left_in_buffer = size_sub max_length (index w)
      in if items = [] then (True, w)
         else if bytes_left_in_buffer < kNackHeaderLength + kNackItemLength then
           case OnBufferFull callback w of
             (False, w') \<Rightarrow> (False, w')
           | (True, w') \<Rightarrow> Nack_Create_loop div_exact p items max_length callback w'
         else
           let num_nack_fields =
                 min ((bytes_left_in_buffer - kNackHeaderLength) div kNackItemLength) (length items)
           in Nack_Create_loop div_exact p (drop num_nack_fields items) max_length callback
                (Nack_fragment div_exact p (take num_nack_fields items) w))"
  by pat_completeness auto
termination
  by (relation "measures [\<lambda>(_, _, items, _). length items, \<lambda>(_, _, _, _, _, w). index w]")
    (auto simp: OnBufferFull_def kHeaderLength_def kCommonFeedbackLength_def kNackItemLength_def
      split: if_splits)

declare Nack_Create_loop.simps [simp del]

definition Nack_Create :: "(nat \<Rightarrow> nat \<Rightarrow> nat) \<Rightarrow> Nack \<Rightarrow> nat \<Rightarrow> bool \<Rightarrow> wstate \<Rightarrow> bool \<times> wstate" where
  "Nack_Create div_exact p max_length callback w =
     Nack_Create_loop div_exact p (packed p) max_length callback w"

subsubsection \<open>Packing loses nothing\<close>

lemma upt16: "[0..<16] = 0 # map Suc [0..<15]" "[0..<16] = [0..<15] @ [15 :: nat]"
  by (simp_all add: upt_rec)

lemma bit_u16_15: "\<not> bit (drop_bit (Suc 0) (b :: u16)) 15"
  by (auto simp: bit_drop_bit_eq dest: bit_imp_le_length)

text \<open>\<open>Unpack\<close> lists the set bits in increasing order.\<close>

lemma Unpack_item_bits:
  "Unpack_item pid bits = map (\<lambda>i. pid + of_nat i) (filter (bit bits) [0..<16])"
proof (induction pid bits rule: Unpack_item.induct)
  case (1 pid bits)
  show ?case
  proof (cases "bits = 0")
    case False
    have "filter (bit (drop_bit 1 bits)) [0..<16] = filter (bit (drop_bit 1 bits)) [0..<15]"
      unfolding upt16(2) by (simp add: bit_u16_15)
    then have "map (\<lambda>i. (pid + 1) + of_nat i) (filter (bit (drop_bit 1 bits)) [0..<16])
        = map (\<lambda>i. pid + of_nat i) (filter (bit bits) (map Suc [0..<15]))"
      by (simp add: filter_map o_def bit_drop_bit_eq algebra_simps)
    moreover have "(bits AND 1 \<noteq> 0) = bit bits 0"
      by (simp add: and_one_eq bit_0 odd_iff_mod_2_eq_one)
    ultimately show ?thesis
      using 1 [OF False] False unfolding upt16(1) by (simp add: Unpack_item.simps [of pid bits])
  qed (simp add: Unpack_item.simps)
qed

definition shift_of :: "u16 \<Rightarrow> u16 \<Rightarrow> nat" where
  "shift_of first x = unat (x - first - 1)"

lemma Pack_item_split:
  assumes "Pack_item first bits xs = (bits', rest)"
  shows "\<exists>pre. xs = pre @ rest \<and> (\<forall>x \<in> set pre. shift_of first x < 16)
    \<and> (\<forall>i. bit bits' i \<longleftrightarrow> bit bits i \<or> i \<in> shift_of first ` set pre)"
  using assms
proof (induction first bits xs arbitrary: bits' rest rule: Pack_item.induct)
  case (2 first bits x xs)
  show ?case
  proof (cases "x - first - 1 \<le> 15")
    case True
    then have s: "shift_of first x < 16"
      by (simp add: shift_of_def word_le_nat_alt)
    from True 2(2) have "Pack_item first (bits OR push_bit (shift_of first x) 1) xs = (bits', rest)"
      by (simp add: shift_of_def)
    from 2(1) [OF refl True this [unfolded shift_of_def]] obtain pre where
      pre: "xs = pre @ rest" "\<forall>x \<in> set pre. shift_of first x < 16"
      "\<forall>i. bit bits' i \<longleftrightarrow> bit (bits OR push_bit (shift_of first x) 1) i \<or> i \<in> shift_of first ` set pre"
      unfolding shift_of_def by blast
    with s show ?thesis
      by (intro exI [of _ "x # pre"]) (auto simp: bit_or_iff bit_exp_iff)
  next
    case False
    with 2(2) show ?thesis
      by (intro exI [of _ "[]"]) simp
  qed
qed simp

lemma of_nat_shift_of: "first + 1 + of_nat (shift_of first x) = x"
  by (simp add: shift_of_def)

lemma Pack_item_set:
  assumes "Pack_item first 0 xs = (bits, rest)"
  shows "set (Unpack_item (first + 1) bits) \<union> set rest = set xs"
proof -
  obtain pre where pre: "xs = pre @ rest" "\<forall>x \<in> set pre. shift_of first x < 16"
    "\<forall>i. bit bits i \<longleftrightarrow> i \<in> shift_of first ` set pre"
    using Pack_item_split [OF assms] by auto
  then have "{i. i < 16 \<and> bit bits i} = shift_of first ` set pre"
    by auto
  then have "set (Unpack_item (first + 1) bits) = (\<lambda>x. first + 1 + of_nat (shift_of first x)) ` set pre"
    by (simp add: Unpack_item_bits image_image Int_def conj_commute)
  then show ?thesis
    using pre(1) by (simp only: of_nat_shift_of image_ident set_append)
qed

lemma Unpack_Pack_set: "set (Unpack_items (Pack_loop ids)) = set ids"
proof (induction ids rule: Pack_loop.induct)
  case (2 x xs)
  obtain bits rest where "Pack_item x 0 xs = (bits, rest)" by fastforce
  with 2 Pack_item_set [OF this] show ?case
    by (auto simp: Unpack_items_def Let_def)
qed (simp add: Unpack_items_def)

text \<open>
  Ids that increase (modulo \<open>2 ^ 16\<close>, each less than half the range after the one before)
  come back in the same order.
\<close>

definition newer :: "u16 \<Rightarrow> u16 \<Rightarrow> bool" where
  "newer x y \<longleftrightarrow> 0 < unat (y - x) \<and> unat (y - x) < 2 ^ 15"

lemma shift_of_newer:
  assumes "shift_of first x < 16" and "newer x y"
  shows "shift_of first x < shift_of first y"
proof -
  have "y - first - 1 = (x - first - 1) + (y - x)" by simp
  then have "shift_of first y = (shift_of first x + unat (y - x)) mod 2 ^ 16"
    unfolding shift_of_def by (simp only: unat_word_ariths) simp
  then show ?thesis
    using assms by (simp add: newer_def)
qed

lemma Pack_item_order:
  assumes "Pack_item first 0 xs = (bits, rest)" and "successively newer xs"
  shows "Unpack_item (first + 1) bits @ rest = xs" and "successively newer rest"
proof -
  obtain pre where pre: "xs = pre @ rest" "\<forall>x \<in> set pre. shift_of first x < 16"
    "\<forall>i. bit bits i \<longleftrightarrow> i \<in> shift_of first ` set pre"
    using Pack_item_split [OF assms(1)] by auto
  have "successively newer pre"
    using assms(2) by (simp add: pre(1) successively_append_iff)
  then have "successively (\<lambda>x y. shift_of first x < shift_of first y) pre"
    by (rule successively_mono) (use pre(2) shift_of_newer in blast)
  then have sorted: "sorted_wrt (<) (map (shift_of first) pre)"
    by (simp add: successively_conv_sorted_wrt [symmetric] successively_map)
  have "filter (bit bits) [0..<16] = map (shift_of first) pre"
    by (rule strict_sorted_equal) (use pre sorted in \<open>auto intro: sorted_wrt_filter\<close>)
  then show "Unpack_item (first + 1) bits @ rest = xs"
    by (simp add: Unpack_item_bits pre(1) o_def of_nat_shift_of)
  show "successively newer rest"
    using assms(2) by (simp add: pre(1) successively_append_iff)
qed

lemma Unpack_Pack_order: "successively newer ids \<Longrightarrow> Unpack_items (Pack_loop ids) = ids"
proof (induction ids rule: Pack_loop.induct)
  case (2 x xs)
  obtain bits rest where item: "Pack_item x 0 xs = (bits, rest)" by fastforce
  have "successively newer xs"
    using 2(2) by (cases xs) auto
  from 2(1) [OF refl] Pack_item_order [OF item this] item show ?case
    by (simp add: Unpack_items_def)
qed (simp add: Unpack_items_def)

subsubsection \<open>Fragmentation\<close>

definition PackedNack_bytes :: "PackedNack \<Rightarrow> byte list" where
  "PackedNack_bytes item = put_be16 (first_pid item) @ put_be16 (bitmask item)"

definition Nack_body :: "Nack \<Rightarrow> PackedNack list \<Rightarrow> byte list" where
  "Nack_body p items = Rtpfb_bytes p @ concat (map PackedNack_bytes items)"

definition Nack_packet :: "Nack \<Rightarrow> PackedNack list \<Rightarrow> byte list" where
  "Nack_packet p items = header_bytes 1 205 (2 + length items) False @ Nack_body p items"

lemmas nack_consts = feedback_consts kNackItemLength_def

interpretation nack_item: item_codec PackedNack_bytes PackedNack_read 4 "\<lambda>_. True"
proof
  show "PackedNack_read (pre @ PackedNack_bytes x @ post) (length pre) old = Some x"
    for x pre post old
    by (simp add: PackedNack_bytes_def PackedNack_read_def wire_simps)
qed (simp_all add: PackedNack_bytes_def PackedNack_read_def fetch_Some)

lemma PackedNack_write_emit [emit_simps]:
  "PackedNack_write = (\<lambda>item. emit (PackedNack_bytes item))"
  by (simp add: fun_eq_iff PackedNack_write_def PackedNack_bytes_def Let_def emit_simps nack_consts)

lemma length_Nack_packet [simp]:
  "length (Nack_body p items) = 8 + 4 * length items"
  "length (Nack_packet p items) = 12 + 4 * length items"
  by (simp_all add: Nack_packet_def Nack_body_def nack_item.length_concat_enc)

definition div_exact_law :: "(nat \<Rightarrow> nat \<Rightarrow> nat) \<Rightarrow> bool" where
  "div_exact_law D \<longleftrightarrow> (\<forall>a b. b dvd a \<longrightarrow> b \<noteq> 0 \<longrightarrow> D a b = a div b)"

lemma Nack_fragment_emit:
  assumes "div_exact_law D"
  shows "Nack_fragment D p items w = emit (Nack_packet p items) w"
proof -
  have "D (8 + length items * 4) 4 = 2 + length items"
    using assms by (simp add: div_exact_law_def)
  then show ?thesis
    by (simp add: Nack_fragment_def Nack_packet_def Nack_body_def Let_def emit_simps nack_consts)
qed

lemma Nack_Parse_body:
  assumes "items \<noteq> []"
  shows "Nack_Parse (header_for 1 205 (Nack_body p items) rest) old =
    Some (True, \<lparr>sender_ssrc = sender_ssrc p, media_ssrc = media_ssrc p, packed = items,
      packet_ids = Unpack_items items\<rparr>)"
proof -
  have "parse_each PackedNack_read 4 (Rtpfb_bytes p @ concat (map PackedNack_bytes items) @ rest)
      8 (resize (length items) d olds) = Some items" for d olds
    by (rule nack_item.parse_each_enc_at) auto
  with assms show ?thesis
    by (simp add: Nack_Parse_def nack_consts wire_simps Nack_body_def [of p] Unpack_def
        nack_item.length_concat_enc)
qed

lemma Nack_packet_Parse:
  assumes "items \<noteq> []" and "length items \<le> 65533"
  shows "\<exists>h. CommonHeader_Parse (Nack_packet p items @ rest) (12 + 4 * length items + length rest) h0
        = Some (True, h)
      \<and> packet_type h = 205 \<and> count_or_format h = 1 \<and> NextPacket h = rest
      \<and> Nack_Parse h old = Some (True, \<lparr>sender_ssrc = sender_ssrc p, media_ssrc = media_ssrc p,
            packed = items, packet_ids = Unpack_items items\<rparr>)"
proof -
  have "CommonHeader_Parse (Nack_packet p items @ rest) (12 + 4 * length items + length rest) h0
      = Some (True, header_for 1 205 (Nack_body p items) rest)"
    using assms(2) CommonHeader_Parse_header_bytes [of 1 "2 + length items"
        "12 + 4 * length items + length rest" 205 "Nack_body p items @ rest" h0]
    by (simp add: Nack_packet_def header_for_def)
  then show ?thesis
    using Nack_Parse_body [OF assms(1)] by simp
qed

lemma Nack_Parse_safe:
  assumes "valid_header h"
  shows "returns (Nack_Parse h p) (\<lambda>q. packed q \<noteq> [] \<and> packet_ids q = Unpack_items (packed q))"
proof (cases "payload_size h < 12")
  case False
  let ?n = "(payload_size h - 8) div 4"
  have n: "8 + 4 * ?n \<le> length (payload h)" "1 \<le> ?n" "8 \<le> length (payload h)"
    using False assms by (auto simp: valid_header_def)
  obtain s m where p: "Rtpfb_ParseCommonFeedback (payload h) p =
      Some (p\<lparr>sender_ssrc := s, media_ssrc := m\<rparr>)"
    using n(3) by (rule Rtpfb_ParseCommonFeedback_safe)
  obtain items where "parse_each PackedNack_read 4 (payload h) 8
      (resize ?n \<lparr>first_pid = 0, bitmask = 0\<rparr> (packed p)) = Some items" "length items = ?n"
    using n(1) by (rule nack_item.parse_each_resize)
  with p n(2) show ?thesis
    using False by (auto simp: Nack_Parse_def nack_consts Unpack_def)
qed (simp add: Nack_Parse_def nack_consts)

text \<open>
  The bytes of a list of fragments, and what it means that a run of the loop delivered
  \<open>items\<close>: the pending datagram is completed by the fragments \<open>g\<close>, the fragments of each
  further datagram are the members of \<open>gs\<close>, no fragment is empty or split, and together
  they hold the items in order.
\<close>

definition fragments :: "Nack \<Rightarrow> PackedNack list list \<Rightarrow> byte list" where
  "fragments p g = concat (map (Nack_packet p) g)"

definition delivered :: "Nack \<Rightarrow> PackedNack list \<Rightarrow> nat \<Rightarrow> wstate \<Rightarrow> wstate
    \<Rightarrow> PackedNack list list \<Rightarrow> PackedNack list list list \<Rightarrow> bool" where
  "delivered p items max_length w w' g gs \<longleftrightarrow>
     ready w' @ [contents w'] = ready w @ [contents w @ fragments p g] @ map (fragments p) gs
     \<and> concat (g @ concat gs) = items \<and> (\<forall>c \<in> set (g @ concat gs). c \<noteq> [])
     \<and> (\<forall>d \<in> set ((contents w @ fragments p g) # map (fragments p) gs). length d \<le> max_length)
     \<and> \<not> fault w' \<and> index w' \<le> max_length"

lemma delivered_flush:
  assumes "delivered p items max_length (flush True w) w' g gs" and "0 < index w"
    and "index w \<le> max_length"
  shows "delivered p items max_length w w' [] (g # gs)"
  using assms by (auto simp: delivered_def emit_simps contents_def fragments_def)

lemma delivered_fragment:
  assumes "delivered p (drop n items) max_length (emit (Nack_packet p (take n items)) w) w' g gs"
    and "0 < n" and "items \<noteq> []"
  shows "delivered p items max_length w w' (take n items # g) gs"
  using assms by (auto simp: delivered_def emit_simps contents_emit fragments_def)

lemma Nack_Create_loop_delivers:
  assumes "div_exact_law D" and "16 \<le> max_length" and "max_length < 2 ^ 64"
    and "index w \<le> max_length" and "max_length \<le> cap w" and "\<not> fault w"
  shows "\<exists>w' g gs. Nack_Create_loop D p items max_length True w = (True, w')
    \<and> delivered p items max_length w w' g gs"
  using assms
proof (induction D p items max_length True w rule: Nack_Create_loop.induct)
  case (1 D p items max_length w)
  let ?left = "max_length - index w"
  have left: "size_sub max_length (index w) = ?left"
    using 1 by (intro size_sub_le) auto
  note step = Nack_Create_loop.simps [of D p items max_length True w, unfolded left Let_def]
  consider "items = []" | "items \<noteq> []" "?left < 16" | "items \<noteq> []" "16 \<le> ?left"
    using not_less by blast
  then show ?case
  proof cases
    case 1
    then have "delivered p items max_length w w [] []"
      using \<open>\<not> fault w\<close> \<open>index w \<le> max_length\<close>
      by (simp add: delivered_def fragments_def contents_def)
    then show ?thesis
      using 1 by (auto simp: Nack_Create_loop.simps [of D p "[]"] Let_def)
  next
    case 2
    with 1(4) have full: "OnBufferFull True w = (True, flush True w)" "0 < index w"
      by (auto simp: OnBufferFull_def flush_def)
    have "\<exists>w' g gs. Nack_Create_loop D p items max_length True (flush True w) = (True, w')
        \<and> delivered p items max_length (flush True w) w' g gs"
      by (rule "1.hyps"(1) [OF refl refl]) (use 1(3-) 2 full left in \<open>simp_all add: nack_consts emit_simps\<close>)
    then show ?thesis
      using 2 full(1) delivered_flush [OF _ full(2) \<open>index w \<le> max_length\<close>]
      by (simp add: step nack_consts) blast
  next
    case 3
    define n where "n = min ((?left - 12) div 4) (length items)"
    let ?w = "emit (Nack_packet p (take n items)) w"
    have "4 * n \<le> ?left - 12" "0 < n"
      unfolding n_def by (rule order_trans [OF mult_le_mono2 [OF min.cobounded1]]) (use 3 in simp_all)
    with 3(2) "1.prems"(4,5) have n: "0 < n" "index w + (12 + 4 * n) \<le> max_length"
      "index w + (12 + 4 * n) \<le> cap w"
      by linarith+
    have len: "length (take n items) = n"
      by (simp add: n_def)
    have neq: "n = min ((size_sub max_length (index w) - (kHeaderLength + kCommonFeedbackLength))
        div kNackItemLength) (length items)"
      by (simp add: left nack_consts n_def)
    have "\<exists>w' g gs. Nack_Create_loop D p (drop n items) max_length True ?w = (True, w')
        \<and> delivered p (drop n items) max_length ?w w' g gs"
      by (rule "1.hyps"(2) [OF refl refl 3(1) _ neq, unfolded Nack_fragment_emit [OF "1.prems"(1)]])
        (use "1.prems" 3 n left in \<open>simp_all add: nack_consts emit_simps len del: length_take\<close>)
    then obtain w' g gs where w': "Nack_Create_loop D p (drop n items) max_length True ?w = (True, w')"
      "delivered p items max_length w w' (take n items # g) gs"
      using delivered_fragment [OF _ n(1) 3(1)] by blast
    have "Nack_Create_loop D p items max_length True w =
        Nack_Create_loop D p (drop n items) max_length True ?w"
      using 3 \<open>div_exact_law D\<close> by (simp add: step nack_consts Nack_fragment_emit n_def)
    with w' show ?thesis by auto
  qed
qed

lemma fragment_fits:
  assumes "\<forall>d \<in> set ((contents w @ fragments p g) # map (fragments p) gs). length d \<le> n"
    and "c \<in> set (g @ concat gs)"
  shows "length (Nack_packet p c) \<le> n"
proof -
  have le: "length (Nack_packet p c) \<le> length (fragments p g')" if "c \<in> set g'" for g'
    using that by (auto simp: fragments_def length_concat intro!: member_le_sum_list)
  from assms(2) consider "c \<in> set g" | g' where "g' \<in> set gs" "c \<in> set g'" by auto
  then show ?thesis
    by cases (use assms(1) in \<open>force dest!: le\<close>)+
qed

subsection \<open>Properties\<close>

text \<open>
  C24: the nack packing is lossless. For every list of sequence numbers, unpacking what
  \<open>SetPacketIds\<close> packed yields the same set of numbers; a list in increasing order
  (modulo \<open>2 ^ 16\<close>) is recovered as it is, repetitions excluded.
\<close>

theorem Nack_Unpack_Pack:
  "set (Unpack_items (packed (SetPacketIds ids (p\<lparr>packed := []\<rparr>)))) = set ids
   \<and> (successively newer ids \<longrightarrow> Unpack_items (packed (SetPacketIds ids (p\<lparr>packed := []\<rparr>))) = ids)"
  by (simp add: SetPacketIds_def Pack_def Unpack_Pack_set Unpack_Pack_order)

theorem Nack_Unpack_Pack_witness:
  "(let ids = [65530, 65535, 0, 10, 11, 300] :: u16 list;
        p = \<lparr>sender_ssrc = 0, media_ssrc = 0, packed = [], packet_ids = []\<rparr>
    in successively newer ids \<and> Unpack_items (packed (SetPacketIds ids (p\<lparr>packed := []\<rparr>))) = ids)"
proof -
  have "successively newer [65530, 65535, 0, 10, 11, 300]"
    by (simp add: newer_def)
  then show ?thesis
    using Nack_Unpack_Pack [of "[65530, 65535, 0, 10, 11, 300]"
        "\<lparr>sender_ssrc = 0, media_ssrc = 0, packed = [], packet_ids = []\<rparr>"]
    unfolding Let_def by blast
qed

text \<open>
  C25: \<open>Nack::Create\<close> always succeeds when the buffer can hold one item, for a list of any
  length: it terminates, stays inside \<open>max_length\<close>, splits no packet over two datagrams, and
  the packets it produces, each of which \<open>CommonHeader::Parse\<close> and \<open>Nack::Parse\<close> accept,
  carry together exactly the packet ids of the original in order.
\<close>

theorem Nack_Create_fragments:
  assumes "div_exact_law D" and "16 \<le> max_length" and "max_length \<le> 262144"
    and "index w \<le> max_length" and "max_length \<le> cap w" and "\<not> fault w"
  shows "\<exists>w' g gs. Nack_Create D p max_length True w = (True, w')
    \<and> delivered p (packed p) max_length w w' g gs
    \<and> concat (map Unpack_items (g @ concat gs)) = Unpack_items (packed p)
    \<and> (\<forall>c \<in> set (g @ concat gs). \<forall>rest h0 old. \<exists>h.
         CommonHeader_Parse (Nack_packet p c @ rest) (length (Nack_packet p c @ rest)) h0 = Some (True, h)
         \<and> NextPacket h = rest
         \<and> Nack_Parse h old = Some (True, \<lparr>sender_ssrc = sender_ssrc p, media_ssrc = media_ssrc p,
              packed = c, packet_ids = Unpack_items c\<rparr>))"
proof -
  obtain w' g gs where run: "Nack_Create_loop D p (packed p) max_length True w = (True, w')"
    and d: "delivered p (packed p) max_length w w' g gs"
    using Nack_Create_loop_delivers [of D max_length w p "packed p"] assms by auto
  have items: "concat (g @ concat gs) = packed p" and nonempty: "\<forall>c \<in> set (g @ concat gs). c \<noteq> []"
    and fits: "\<forall>d \<in> set ((contents w @ fragments p g) # map (fragments p) gs). length d \<le> max_length"
    using d by (simp_all add: delivered_def)
  have parses: "\<exists>h. CommonHeader_Parse (Nack_packet p c @ rest) (length (Nack_packet p c @ rest)) h0
        = Some (True, h) \<and> NextPacket h = rest
      \<and> Nack_Parse h old = Some (True, \<lparr>sender_ssrc = sender_ssrc p, media_ssrc = media_ssrc p,
          packed = c, packet_ids = Unpack_items c\<rparr>)"
    if c: "c \<in> set (g @ concat gs)" for c rest h0 old
  proof -
    have "length (Nack_packet p c) \<le> max_length"
      using c by (rule fragment_fits [OF fits])
    then show ?thesis
      using Nack_packet_Parse [of c p rest h0 old] nonempty c assms(3) by auto
  qed
  have "concat (map Unpack_items xs) = Unpack_items (concat xs)" for xs
    by (induction xs) (simp_all add: Unpack_items_def)
  then show ?thesis
    using run d parses unfolding Nack_Create_def items [symmetric] by blast
qed

theorem Nack_Create_fragments_witness:
  "(let p = SetPacketIds [1, 100, 200] \<lparr>sender_ssrc = 7, media_ssrc = 8, packed = [], packet_ids = []\<rparr>;
        w = fresh (\<lambda>_. 0) 20
    in \<exists>w' g gs. Nack_Create (div) p 20 True w = (True, w')
    \<and> delivered p (packed p) 20 w w' g gs
    \<and> concat (map Unpack_items (g @ concat gs)) = Unpack_items (packed p)
    \<and> (\<forall>c \<in> set (g @ concat gs). \<forall>rest h0 old. \<exists>h.
         CommonHeader_Parse (Nack_packet p c @ rest) (length (Nack_packet p c @ rest)) h0 = Some (True, h)
         \<and> NextPacket h = rest
         \<and> Nack_Parse h old = Some (True, \<lparr>sender_ssrc = sender_ssrc p, media_ssrc = media_ssrc p,
              packed = c, packet_ids = Unpack_items c\<rparr>)))"
  unfolding Let_def by (rule Nack_Create_fragments) (simp_all add: div_exact_law_def)

text \<open>
  Parsing arbitrary received bytes as one of the feedback messages never reads outside
  the receive buffer; a nack that parses has at least one item and the ids of its items, a
  full intra request at least one entry.
\<close>

lemma feedback_parsers_safe:
  assumes "size_bytes \<le> length buffer"
    and "CommonHeader_Parse buffer size_bytes h0 = Some (True, h)"
  shows "returns (Pli_Parse h p) (\<lambda>_. True) \<and> returns (RapidResyncRequest_Parse h r) (\<lambda>_. True)
    \<and> returns (Fir_Parse h f) Fir_wf
    \<and> returns (Nack_Parse h n) (\<lambda>q. packed q \<noteq> [] \<and> packet_ids q = Unpack_items (packed q))"
proof -
  have "valid_header h"
    using CommonHeader_Parse_total [OF assms(1), of h0] assms(2) by (simp add: header_of_def)
  then show ?thesis
    using pli.receive_safe [OF assms(2,1)] rrr.receive_safe [OF assms(2,1)]
      fir.receive_safe [OF assms(2,1)] Nack_Parse_safe by blast
qed

end
