(* ===== verification/Rtcp_Bitrate.thy ===== *)
theory Rtcp_Bitrate
  imports Rtcp_Feedback
begin

text \<open>
  The messages that carry a bitrate as exponent and mantissa: \<open>rtcp_packet/tmmb_item\<close>,
  \<open>tmmbr\<close>, \<open>tmmbn\<close> (RFC 5104) and \<open>remb\<close>. The wire keeps the leading 17 (or 18) bits of
  the bitrate: what is received is the value sent, rounded down.
\<close>

subsection \<open>Exponent and mantissa\<close>

text \<open>\<open>while (mantissa > kMaxMantissa) { mantissa >>= 1; ++exponent; }\<close>\<close>

function mantissa_loop :: "u64 \<Rightarrow> u64 \<Rightarrow> nat \<Rightarrow> u64 \<times> nat" where
  "mantissa_loop kMaxMantissa mantissa exponent =
     (if mantissa > kMaxMantissa
      then mantissa_loop kMaxMantissa (drop_bit 1 mantissa) (exponent + 1)
      else (mantissa, exponent))"
  by pat_completeness auto
termination
proof (relation "measure (\<lambda>(_, m, _). unat m)")
  fix k m :: u64 and e :: nat
  assume "k < m"
  then have "0 < unat m"
    by (metis unat_gt_0 word_not_simps(1))
  then show "((k, drop_bit 1 m, e + 1), k, m, e) \<in> measure (\<lambda>(_, m, _). unat m)"
    by (simp add: drop_bit_Suc unat_div)
qed simp

declare mantissa_loop.simps [simp del]

text \<open>The loop stops at the least shift that makes the value fit.\<close>

lemma mantissa_loop_spec:
  assumes "mantissa_loop k m e = (m', e')"
  shows "\<exists>d. e' = e + d \<and> m' = drop_bit d m \<and> unat m' \<le> unat k
    \<and> (d = 0 \<or> unat k < unat m div 2 ^ (d - 1))"
  using assms
proof (induction k m e rule: mantissa_loop.induct)
  case (1 k m e)
  show ?case
  proof (cases "k < m")
    case True
    with 1 obtain d where d: "e' = e + 1 + d" "m' = drop_bit d (drop_bit 1 m)" "unat m' \<le> unat k"
      "d = 0 \<or> unat k < unat (drop_bit 1 m) div 2 ^ (d - 1)"
      by (auto simp: mantissa_loop.simps [of k m e])
    have "unat k < unat m div 2 ^ d"
    proof (cases d)
      case 0
      then show ?thesis using True by (simp add: word_less_nat_alt)
    next
      case (Suc d')
      then show ?thesis
        using d(4) by (simp add: unsigned_drop_bit_eq drop_bit_eq_div unat_div div_mult2_eq [symmetric])
    qed
    with d show ?thesis
      by (intro exI [of _ "Suc d"]) (simp add: drop_bit_drop_bit)
  next
    case False
    with 1(2) show ?thesis
      by (intro exI [of _ 0]) (simp add: mantissa_loop.simps [of k m e] word_less_nat_alt)
  qed
qed

text \<open>
  What is left of a value that keeps \<open>n\<close> leading bits: never more than the value, exact when
  it fits, and with a relative error below \<open>2 ^ - (n - 1)\<close>.
\<close>

definition rounded :: "u64 \<Rightarrow> u64 \<Rightarrow> u64" where
  "rounded k b = (case mantissa_loop k b 0 of (m, e) \<Rightarrow> push_bit e m)"

lemma mantissa_loop_bounds:
  assumes "mantissa_loop k b 0 = (m, e)" and "unat k = 2 ^ n - 1" and "0 < n"
  shows "m = drop_bit e b" and "unat m < 2 ^ n" and "e = 0 \<or> 2 ^ (n + e - 1) \<le> unat b"
    and "n + e \<le> 64 \<or> e = 0"
proof -
  obtain d where d: "e = d" "m = drop_bit d b" "unat m \<le> 2 ^ n - 1"
    "d = 0 \<or> 2 ^ n - 1 < unat b div 2 ^ (d - 1)"
    using mantissa_loop_spec [OF assms(1)] assms(2) by auto
  show "m = drop_bit e b" "unat m < 2 ^ n"
    using d(1-3) le_less_trans [of "unat m" "2 ^ n - 1" "2 ^ n"] by simp_all
  have large: "2 ^ (n + e - 1) \<le> unat b" if "e \<noteq> 0"
  proof -
    have "2 ^ n * 2 ^ (e - 1) \<le> unat b div 2 ^ (e - 1) * 2 ^ (e - 1)"
      using d that by (intro mult_right_mono) auto
    also have "\<dots> \<le> unat b" by simp
    finally show ?thesis
      using that by (simp add: power_add [symmetric])
  qed
  then show "e = 0 \<or> 2 ^ (n + e - 1) \<le> unat b" by auto
  have "(2 :: nat) ^ (n + e - 1) < 2 ^ 64" if "e \<noteq> 0"
    using large [OF that] unsigned_less [of b, where 'a = nat] by (simp add: order.strict_trans1)
  then show "n + e \<le> 64 \<or> e = 0"
    using assms(3) by (auto simp del: power_numeral dest: power_less_imp_less_exp [rotated])
qed

lemma unat_rounded:
  assumes "mantissa_loop k b 0 = (m, e)" and "unat k = 2 ^ n - 1" and "0 < n"
  shows "unat (push_bit e m) = unat b - unat b mod 2 ^ e"
proof -
  have m: "m = drop_bit e b"
    using assms by (rule mantissa_loop_bounds)
  have "unat b div 2 ^ e * 2 ^ e < 2 ^ 64"
    using order.strict_trans1 [OF div_times_less_eq_dividend [of "unat b" "2 ^ e"]]
      unsigned_less [of b, where 'a = nat] by simp
  moreover have "unat (push_bit e m) = take_bit 64 (push_bit e (drop_bit e (unat b)))"
    by (simp add: m unsigned_push_bit_eq unsigned_drop_bit_eq take_bit_nat_eq_self
        unsigned_less [where 'a = nat, of b, simplified])
  ultimately show ?thesis
    by (simp add: take_bit_nat_eq_self push_bit_eq_mult drop_bit_eq_div minus_mod_eq_div_mult)
qed

lemma rounded_bounds:
  assumes "unat k = 2 ^ n - 1" and "0 < n"
  shows "rounded k b \<le> b" and "unat b < 2 ^ n \<Longrightarrow> rounded k b = b"
    and "b \<noteq> 0 \<Longrightarrow> (unat b - unat (rounded k b)) * 2 ^ (n - 1) < unat b"
proof -
  obtain m e where run: "mantissa_loop k b 0 = (m, e)" by fastforce
  note e = mantissa_loop_bounds [OF run assms] and r = unat_rounded [OF run assms]
  have eq: "unat (rounded k b) = unat b - unat b mod 2 ^ e"
    using r by (simp add: rounded_def run)
  then show "rounded k b \<le> b"
    by (simp add: word_le_nat_alt)
  show "rounded k b = b" if "unat b < 2 ^ n"
  proof -
    have "e = 0"
    proof (rule ccontr)
      assume "e \<noteq> 0"
      then have "(2 :: nat) ^ n \<le> 2 ^ (n + e - 1)" by (intro power_increasing) auto
      with e(3) that \<open>e \<noteq> 0\<close> show False by linarith
    qed
    with eq show ?thesis by (simp add: word_unat_eq_iff)
  qed
  show "(unat b - unat (rounded k b)) * 2 ^ (n - 1) < unat b" if "b \<noteq> 0"
  proof (cases "e = 0")
    case True
    with eq that show ?thesis by (simp add: unat_gt_0)
  next
    case False
    have "unat b mod 2 ^ e * 2 ^ (n - 1) < 2 ^ e * 2 ^ (n - 1)" by simp
    also have "\<dots> \<le> unat b"
      using e(3) False assms(2) by (simp add: power_add [symmetric] add.commute)
    finally show ?thesis
      using eq by simp
  qed
qed

subsection \<open>\<open>TmmbItem\<close>\<close>

record TmmbItem =
  tmmb_ssrc :: u32
  bitrate_bps :: u64
  packet_overhead :: u16

definition TmmbItem_init :: TmmbItem where
  "TmmbItem_init = \<lparr>tmmb_ssrc = 0, bitrate_bps = 0, packet_overhead = 0\<rparr>"

definition TmmbItem_kLength :: nat where
  "TmmbItem_kLength = 8"

definition TmmbItem_Parse :: "byte list \<Rightarrow> nat \<Rightarrow> TmmbItem \<Rightarrow> (bool \<times> TmmbItem) option" where
  "TmmbItem_Parse buffer off t = do {
     ssrc \<leftarrow> get_be32 buffer (off + 0);
     compact \<leftarrow> get_be32 buffer (off + 4);
     let exponent = ucast (drop_bit 26 compact) :: byte;
         mantissa = ucast (drop_bit 9 compact AND 0x1ffff) :: u64;
         overhead = ucast (compact AND 0x1ff) :: u16;
         t = t\<lparr>tmmb_ssrc := ssrc, bitrate_bps := push_bit (unat exponent) mantissa\<rparr>;
         shift_overflow = (drop_bit (unat exponent) (bitrate_bps t) \<noteq> mantissa)
     in if shift_overflow then Some (False, t)
        else Some (True, t\<lparr>packet_overhead := overhead\<rparr>) }"

text \<open>The expression for \<open>compact\<close> has type \<open>uint64_t\<close> and is cut to 32 bits.\<close>

definition TmmbItem_Create :: "TmmbItem \<Rightarrow> nat \<Rightarrow> wstate \<Rightarrow> wstate" where
  "TmmbItem_Create t base w =
     (let kMaxMantissa = 0x1ffff :: u64;
          (mantissa, exponent) = mantissa_loop kMaxMantissa (bitrate_bps t) 0;
          w = put (base + 0) (put_be32 (tmmb_ssrc t)) w;
          compact = ucast ((ucast (push_bit 26 (of_nat exponent) :: u32) :: u64)
             OR push_bit 9 mantissa OR ucast (packet_overhead t)) :: u32
      in put (base + 4) (put_be32 compact) w)"

text \<open>The parse loop shared by both packets: it stops at the first item that fails.\<close>

fun TmmbItems_Parse :: "byte list \<Rightarrow> nat \<Rightarrow> TmmbItem list \<Rightarrow> (bool \<times> TmmbItem list) option" where
  "TmmbItems_Parse bs next_item [] = Some (True, [])"
| "TmmbItems_Parse bs next_item (item # items) = do {
     (ok, item') \<leftarrow> TmmbItem_Parse bs next_item item;
     if \<not> ok then Some (False, item' # items)
     else do {
       (ok, items') \<leftarrow> TmmbItems_Parse bs (next_item + TmmbItem_kLength) items;
       Some (ok, item' # items') } }"

lemma and_low: "(x :: u32) AND 0x1ffff = take_bit 17 x" "x AND 0x1ff = take_bit 9 x"
  by (simp_all add: take_bit_eq_mask mask_eq_exp_minus_1)

lemma compact_fields:
  fixes e :: nat and m :: u64 and o' :: u16
  assumes "e < 64" and "unat m < 2 ^ 17" and "unat o' < 2 ^ 9"
    and c: "c = (ucast ((ucast (push_bit 26 (of_nat e) :: u32) :: u64) OR push_bit 9 m OR ucast o') :: u32)"
  shows "unat (ucast (drop_bit 26 c) :: byte) = e" and "ucast (drop_bit 9 c AND 0x1ffff) = m"
    and "ucast (c AND 0x1ff) = o'"
proof -
  have "take_bit 6 e = e"
    using assms(1) by (simp add: take_bit_nat_eq_self)
  then have eb: "bit e n \<Longrightarrow> n < 6" for n
    by (metis bit_take_bit_iff)
  note mb = bit_small_word [OF assms(2)] and ob = bit_small_word [OF assms(3)]
  have cb: "bit c n \<longleftrightarrow> n < 32 \<and> (26 \<le> n \<and> bit e (n - 26) \<or> 9 \<le> n \<and> bit m (n - 9) \<or> bit o' n)" for n
    by (auto simp: c bit_simps)
  have "ucast (drop_bit 26 c) = (of_nat e :: byte)"
    by (rule bit_word_eqI) (auto simp: bit_simps cb dest: eb mb ob)
  then show "unat (ucast (drop_bit 26 c) :: byte) = e"
    using assms(1) by (simp add: unat_of_nat)
  show "ucast (drop_bit 9 c AND 0x1ffff) = m"
    by (rule bit_word_eqI) (auto simp: and_low bit_simps cb dest: eb mb ob)
  show "ucast (c AND 0x1ff) = o'"
    by (rule bit_word_eqI) (auto simp: and_low bit_simps cb dest: eb mb ob)
qed

definition TmmbItem_wf :: "TmmbItem \<Rightarrow> bool" where
  "TmmbItem_wf t \<longleftrightarrow> unat (packet_overhead t) < 2 ^ 9"

definition TmmbItem_canon :: "TmmbItem \<Rightarrow> TmmbItem" where
  "TmmbItem_canon t = t\<lparr>bitrate_bps := rounded 0x1ffff (bitrate_bps t)\<rparr>"

definition TmmbItem_bytes :: "TmmbItem \<Rightarrow> byte list" where
  "TmmbItem_bytes t = put_be32 (tmmb_ssrc t) @ put_be32
     (case mantissa_loop 0x1ffff (bitrate_bps t) 0 of (mantissa, exponent) \<Rightarrow>
        (ucast ((ucast (push_bit 26 (of_nat exponent) :: u32) :: u64)
          OR push_bit 9 mantissa OR ucast (packet_overhead t)) :: u32))"

lemma length_TmmbItem_bytes [simp, wire_simps]: "length (TmmbItem_bytes t) = 8"
  by (simp add: TmmbItem_bytes_def split: prod.split)

lemma length_TmmbItems [simp]: "length (concat (map TmmbItem_bytes ts)) = 8 * length ts"
  by (induction ts) auto

lemma TmmbItem_Create_put [emit_simps]: "TmmbItem_Create t base w = put base (TmmbItem_bytes t) w"
  by (simp add: TmmbItem_Create_def TmmbItem_bytes_def Let_def emit_simps split: prod.split)

lemma drop_push_drop: "drop_bit e (push_bit e (drop_bit e (b :: u64))) = drop_bit e b"
  by (rule bit_word_eqI) (auto simp: bit_simps dest: bit_imp_le_length)

lemma TmmbItem_Parse_bytes:
  assumes "TmmbItem_wf t"
  shows "TmmbItem_Parse (pre @ TmmbItem_bytes t @ post) (length pre) old = Some (True, TmmbItem_canon t)"
proof -
  obtain m e where run: "mantissa_loop 0x1ffff (bitrate_bps t) 0 = (m, e)" by fastforce
  have "unat (0x1ffff :: u64) = 2 ^ 17 - 1" "0 < (17 :: nat)" by simp_all
  note b = mantissa_loop_bounds [OF run this]
  have "e < 64" "unat m < 2 ^ 17" "unat (packet_overhead t) < 2 ^ 9"
    using b assms by (auto simp: TmmbItem_wf_def)
  from compact_fields [OF this refl] show ?thesis
    by (simp add: TmmbItem_Parse_def TmmbItem_bytes_def TmmbItem_canon_def rounded_def run Let_def
        wire_simps drop_push_drop b(1))
qed

lemma TmmbItems_Parse_bytes:
  assumes "\<forall>t \<in> set ts. TmmbItem_wf t" and "length olds = length ts" and "length pre = off"
  shows "TmmbItems_Parse (pre @ concat (map TmmbItem_bytes ts) @ post) off olds
    = Some (True, map TmmbItem_canon ts)"
  using assms
proof (induction ts arbitrary: pre olds off)
  case (Cons t ts)
  then obtain old olds' where olds: "olds = old # olds'" "length olds' = length ts"
    by (cases olds) auto
  have "TmmbItems_Parse ((pre @ TmmbItem_bytes t) @ concat (map TmmbItem_bytes ts) @ post) (off + 8) olds'
      = Some (True, map TmmbItem_canon ts)"
    using Cons.prems olds by (intro Cons.IH) auto
  moreover have "TmmbItem_Parse (pre @ TmmbItem_bytes t @ concat (map TmmbItem_bytes ts) @ post) off old
      = Some (True, TmmbItem_canon t)"
    using Cons.prems TmmbItem_Parse_bytes [of t pre] by auto
  ultimately show ?case
    using olds by (simp add: TmmbItem_kLength_def)
qed simp

lemma TmmbItem_Parse_safe:
  assumes "off + 8 \<le> length bs"
  shows "returns (TmmbItem_Parse bs off old) TmmbItem_wf"
proof -
  have low: "unat (ucast (c AND 0x1ff) :: u16) < 2 ^ 9" for c :: u32
    using take_bit_nat_less_exp [of 9 "unat c"]
    by (simp add: and_low unsigned_ucast_eq unsigned_take_bit_eq min_def)
  show ?thesis
    using assms low by (simp add: TmmbItem_Parse_def fetch_Some Let_def TmmbItem_wf_def)
qed

lemma TmmbItems_Parse_safe:
  assumes "off + 8 * length olds \<le> length bs"
  shows "returns (TmmbItems_Parse bs off olds)
    (\<lambda>ys. length ys = length olds \<and> (\<forall>y \<in> set ys. TmmbItem_wf y))"
  using assms
proof (induction olds arbitrary: off)
  case (Cons old olds)
  obtain ok y where y: "TmmbItem_Parse bs off old = Some (ok, y)" "ok \<Longrightarrow> TmmbItem_wf y"
    using TmmbItem_Parse_safe [of off bs old] Cons.prems by (auto elim: returnsE)
  have "returns (TmmbItems_Parse bs (off + 8) olds)
      (\<lambda>ys. length ys = length olds \<and> (\<forall>y \<in> set ys. TmmbItem_wf y))"
    using Cons.prems by (intro Cons.IH) simp
  with y show ?case
    by (elim returnsE) (simp add: TmmbItem_kLength_def)
qed simp

subsection \<open>\<open>Tmmbr\<close> and \<open>Tmmbn\<close>\<close>

record Tmmbr = Rtpfb +
  tmmbr_items :: "TmmbItem list"

record Tmmbn = Rtpfb +
  tmmbn_items :: "TmmbItem list"

definition Tmmbr_Parse :: "CommonHeader \<Rightarrow> Tmmbr \<Rightarrow> (bool \<times> Tmmbr) option" where
  "Tmmbr_Parse h p =
     (if payload_size h < kCommonFeedbackLength + TmmbItem_kLength then Some (False, p)
      else let items_size_bytes = payload_size h - kCommonFeedbackLength
      in if items_size_bytes mod TmmbItem_kLength \<noteq> 0 then Some (False, p)
      else do {
        p \<leftarrow> Rtpfb_ParseCommonFeedback (payload h) p;
        let number_of_items = items_size_bytes div TmmbItem_kLength;
        (ok, items) \<leftarrow> TmmbItems_Parse (payload h) kCommonFeedbackLength
          (resize number_of_items TmmbItem_init (tmmbr_items p));
        Some (ok, p\<lparr>tmmbr_items := items\<rparr>) })"

definition Tmmbr_AddTmmbr :: "TmmbItem \<Rightarrow> Tmmbr \<Rightarrow> Tmmbr" where
  "Tmmbr_AddTmmbr item p = p\<lparr>tmmbr_items := tmmbr_items p @ [item]\<rparr>"

definition Tmmbr_BlockLength :: "Tmmbr \<Rightarrow> nat" where
  "Tmmbr_BlockLength p =
     kHeaderLength + kCommonFeedbackLength + TmmbItem_kLength * length (tmmbr_items p)"

definition Tmmbr_Create :: "Tmmbr \<Rightarrow> nat \<Rightarrow> bool \<Rightarrow> wstate \<Rightarrow> bool \<times> wstate" where
  "Tmmbr_Create p max_length callback w =
     (case reserve (Tmmbr_BlockLength p) max_length callback w of
        (False, w) \<Rightarrow> (False, w)
      | (True, w) \<Rightarrow>
          (let index_end = index w + Tmmbr_BlockLength p;
               w = CreateHeader 3 205 (HeaderLength (Tmmbr_BlockLength p)) False w;
               w = Rtpfb_CreateCommonFeedback p (index w) w;
               w = advance kCommonFeedbackLength w;
               w = fold (\<lambda>item w. advance TmmbItem_kLength (TmmbItem_Create item (index w) w))
                     (tmmbr_items p) w
           in (True, rtc_check (index_end = index w) w)))"

definition Tmmbn_Parse :: "CommonHeader \<Rightarrow> Tmmbn \<Rightarrow> (bool \<times> Tmmbn) option" where
  "Tmmbn_Parse h p =
     (if payload_size h < kCommonFeedbackLength then Some (False, p)
      else let items_size_bytes = payload_size h - kCommonFeedbackLength
      in if items_size_bytes mod TmmbItem_kLength \<noteq> 0 then Some (False, p)
      else do {
        p \<leftarrow> Rtpfb_ParseCommonFeedback (payload h) p;
        let number_of_items = items_size_bytes div TmmbItem_kLength;
        (ok, items) \<leftarrow> TmmbItems_Parse (payload h) kCommonFeedbackLength
          (resize number_of_items TmmbItem_init (tmmbn_items p));
        Some (ok, p\<lparr>tmmbn_items := items\<rparr>) })"

definition Tmmbn_AddTmmbr :: "TmmbItem \<Rightarrow> Tmmbn \<Rightarrow> Tmmbn" where
  "Tmmbn_AddTmmbr item p = p\<lparr>tmmbn_items := tmmbn_items p @ [item]\<rparr>"

definition Tmmbn_BlockLength :: "Tmmbn \<Rightarrow> nat" where
  "Tmmbn_BlockLength p =
     kHeaderLength + kCommonFeedbackLength + TmmbItem_kLength * length (tmmbn_items p)"

definition Tmmbn_Create :: "Tmmbn \<Rightarrow> nat \<Rightarrow> bool \<Rightarrow> wstate \<Rightarrow> bool \<times> wstate" where
  "Tmmbn_Create p max_length callback w =
     (case reserve (Tmmbn_BlockLength p) max_length callback w of
        (False, w) \<Rightarrow> (False, w)
      | (True, w) \<Rightarrow>
          (let index_end = index w + Tmmbn_BlockLength p;
               w = CreateHeader 4 205 (HeaderLength (Tmmbn_BlockLength p)) False w;
               w = Rtpfb_CreateCommonFeedback p (index w) w;
               w = advance kCommonFeedbackLength w;
               w = fold (\<lambda>item w. advance TmmbItem_kLength (TmmbItem_Create item (index w) w))
                     (tmmbn_items p) w
           in (True, rtc_check (index_end = index w) w)))"

definition Tmmbr_wf :: "Tmmbr \<Rightarrow> bool" where
  "Tmmbr_wf p \<longleftrightarrow> tmmbr_items p \<noteq> [] \<and> length (tmmbr_items p) \<le> 32766
     \<and> (\<forall>t \<in> set (tmmbr_items p). TmmbItem_wf t)"

definition Tmmbn_wf :: "Tmmbn \<Rightarrow> bool" where
  "Tmmbn_wf p \<longleftrightarrow> length (tmmbn_items p) \<le> 32766 \<and> (\<forall>t \<in> set (tmmbn_items p). TmmbItem_wf t)"

lemmas tmmb_consts = feedback_consts TmmbItem_kLength_def

text \<open>The parse of the items behind the common feedback header, for both packets.\<close>

lemma TmmbItems_Parse_resize:
  assumes "\<forall>t \<in> set ts. TmmbItem_wf t"
  shows "TmmbItems_Parse (Rtpfb_bytes p @ concat (map TmmbItem_bytes ts) @ rest) 8
      (resize (length ts) TmmbItem_init olds) = Some (True, map TmmbItem_canon ts)"
  by (rule TmmbItems_Parse_bytes) (use assms in auto)

lemma TmmbItems_payload_safe:
  assumes "valid_header h" and "8 \<le> payload_size h" and "payload_size h \<le> 262140"
  shows "returns (TmmbItems_Parse (payload h) 8 (resize ((payload_size h - 8) div 8) TmmbItem_init olds))
    (\<lambda>ys. length ys = (payload_size h - 8) div 8 \<and> length ys \<le> 32766 \<and> (\<forall>y \<in> set ys. TmmbItem_wf y))"
proof -
  let ?n = "(payload_size h - 8) div 8"
  have "8 + 8 * ?n \<le> length (payload h)" "?n \<le> 32766"
    using assms by (auto simp: valid_header_def)
  then show ?thesis
    using TmmbItems_Parse_safe [of 8 "resize ?n TmmbItem_init olds" "payload h"]
    by (auto elim: returnsE)
qed

interpretation tmmbr: rtcp_codec Tmmbr_BlockLength Tmmbr_Create Tmmbr_Parse "\<lambda>_. 3" 205
  "\<lambda>p. Rtpfb_bytes p @ concat (map TmmbItem_bytes (tmmbr_items p))" Tmmbr_wf
  "\<lambda>p. p\<lparr>tmmbr_items := map TmmbItem_canon (tmmbr_items p)\<rparr>" Tmmbr_wf
proof
  fix p
  assume wf: "Tmmbr_wf p"
  let ?body = "\<lambda>p. Rtpfb_bytes p @ concat (map TmmbItem_bytes (tmmbr_items p))"
  show "Tmmbr_Create p max_length cb w =
      (case reserve (Tmmbr_BlockLength p) max_length cb w of
         (False, w') \<Rightarrow> (False, w')
       | (True, w') \<Rightarrow> (True, emit (packet_bytes (\<lambda>_. 3) 205 Tmmbr_BlockLength ?body p) w'))"
    for max_length cb w
    by (simp add: Tmmbr_Create_def packet_bytes_def Let_def emit_simps tmmb_consts
        Tmmbr_BlockLength_def split: prod.split bool.split)
  show "Tmmbr_BlockLength p = 4 + length (?body p)"
    "3 < (32 :: nat) \<and> 4 dvd length (?body p) \<and> length (?body p) \<le> 262140"
    using wf by (auto simp: Tmmbr_BlockLength_def Tmmbr_wf_def tmmb_consts)
  show "Tmmbr_Parse (header_for 3 205 (?body p) rest) old
      = Some (True, p\<lparr>tmmbr_items := map TmmbItem_canon (tmmbr_items p)\<rparr>)" for rest old
    using wf by (simp add: Tmmbr_Parse_def Let_def tmmb_consts wire_simps Tmmbr_wf_def
        TmmbItems_Parse_resize Suc_le_eq)
next
  fix h :: CommonHeader and old
  assume h: "valid_header h" "payload_size h \<le> 262140"
  show "returns (Tmmbr_Parse h old) Tmmbr_wf"
  proof (cases "payload_size h < 16")
    case False
    with h have "8 \<le> length (payload h)" by (simp add: valid_header_def)
    then obtain s m where p: "Rtpfb_ParseCommonFeedback (payload h) old =
        Some (old\<lparr>sender_ssrc := s, media_ssrc := m\<rparr>)"
      by (rule Rtpfb_ParseCommonFeedback_safe)
    from TmmbItems_payload_safe [OF h(1) _ h(2), of "tmmbr_items old"] False p show ?thesis
      by (auto simp: Tmmbr_Parse_def tmmb_consts Let_def Tmmbr_wf_def elim!: returnsE)
  qed (simp add: Tmmbr_Parse_def tmmb_consts)
qed

interpretation tmmbn: rtcp_codec Tmmbn_BlockLength Tmmbn_Create Tmmbn_Parse "\<lambda>_. 4" 205
  "\<lambda>p. Rtpfb_bytes p @ concat (map TmmbItem_bytes (tmmbn_items p))" Tmmbn_wf
  "\<lambda>p. p\<lparr>tmmbn_items := map TmmbItem_canon (tmmbn_items p)\<rparr>" Tmmbn_wf
proof
  fix p
  assume wf: "Tmmbn_wf p"
  let ?body = "\<lambda>p. Rtpfb_bytes p @ concat (map TmmbItem_bytes (tmmbn_items p))"
  show "Tmmbn_Create p max_length cb w =
      (case reserve (Tmmbn_BlockLength p) max_length cb w of
         (False, w') \<Rightarrow> (False, w')
       | (True, w') \<Rightarrow> (True, emit (packet_bytes (\<lambda>_. 4) 205 Tmmbn_BlockLength ?body p) w'))"
    for max_length cb w
    by (simp add: Tmmbn_Create_def packet_bytes_def Let_def emit_simps tmmb_consts
        Tmmbn_BlockLength_def split: prod.split bool.split)
  show "Tmmbn_BlockLength p = 4 + length (?body p)"
    "4 < (32 :: nat) \<and> 4 dvd length (?body p) \<and> length (?body p) \<le> 262140"
    using wf by (auto simp: Tmmbn_BlockLength_def Tmmbn_wf_def tmmb_consts)
  show "Tmmbn_Parse (header_for 4 205 (?body p) rest) old
      = Some (True, p\<lparr>tmmbn_items := map TmmbItem_canon (tmmbn_items p)\<rparr>)" for rest old
    using wf by (simp add: Tmmbn_Parse_def Let_def tmmb_consts wire_simps Tmmbn_wf_def
        TmmbItems_Parse_resize)
next
  fix h :: CommonHeader and old
  assume h: "valid_header h" "payload_size h \<le> 262140"
  show "returns (Tmmbn_Parse h old) Tmmbn_wf"
  proof (cases "payload_size h < 8")
    case False
    with h have "8 \<le> length (payload h)" by (simp add: valid_header_def)
    then obtain s m where p: "Rtpfb_ParseCommonFeedback (payload h) old =
        Some (old\<lparr>sender_ssrc := s, media_ssrc := m\<rparr>)"
      by (rule Rtpfb_ParseCommonFeedback_safe)
    from TmmbItems_payload_safe [OF h(1) _ h(2), of "tmmbn_items old"] False p show ?thesis
      by (auto simp: Tmmbn_Parse_def tmmb_consts Let_def Tmmbn_wf_def elim!: returnsE)
  qed (simp add: Tmmbn_Parse_def tmmb_consts)
qed

subsection \<open>\<open>Remb\<close>\<close>

text \<open>\<open>bitrate_bps_\<close> is an \<open>int64_t\<close>, kept as the integer it denotes.\<close>

record Remb = Psfb +
  remb_bitrate_bps :: int
  remb_ssrcs :: "u32 list"

definition kMaxNumberOfSsrcs :: nat where
  "kMaxNumberOfSsrcs = 0xff"

definition kUniqueIdentifier :: u32 where
  "kUniqueIdentifier = 0x52454D42"

definition Remb_SetSsrcs :: "u32 list \<Rightarrow> Remb \<Rightarrow> bool \<times> Remb" where
  "Remb_SetSsrcs ssrcs p =
     (if length ssrcs > kMaxNumberOfSsrcs then (False, p) else (True, p\<lparr>remb_ssrcs := ssrcs\<rparr>))"

definition Remb_Parse :: "CommonHeader \<Rightarrow> Remb \<Rightarrow> (bool \<times> Remb) option" where
  "Remb_Parse h p =
     (if payload_size h < 16 then Some (False, p)
      else do {
        uid \<leftarrow> get_be32 (payload h) 8;
        if kUniqueIdentifier \<noteq> uid then Some (False, p)
        else do {
          number_of_ssrcs \<leftarrow> get_u8 (payload h) 12;
          if payload_size h \<noteq> kCommonFeedbackLength + (2 + unat number_of_ssrcs) * 4
          then Some (False, p)
          else do {
            p \<leftarrow> Psfb_ParseCommonFeedback (payload h) p;
            b13 \<leftarrow> get_u8 (payload h) 13;
            low \<leftarrow> get_be16 (payload h) 14;
            let exponenta = drop_bit 2 b13;
                mantissa = ucast (push_bit 16 (ucast (b13 AND 0x03) :: u32) OR ucast low) :: u64;
                p = p\<lparr>remb_bitrate_bps := sint (push_bit (unat exponenta) mantissa)\<rparr>;
                shift_overflow =
                  (drop_bit (unat exponenta) (word_of_int (remb_bitrate_bps p) :: u64) \<noteq> mantissa)
            in if shift_overflow then Some (False, p)
               else do {
                 ssrcs \<leftarrow> parse_each (\<lambda>bs off _. get_be32 bs off) 4 (payload h) 16
                   (replicate (unat number_of_ssrcs) 0);
                 Some (True, p\<lparr>remb_ssrcs := ssrcs\<rparr>) } } } })"

definition Remb_BlockLength :: "Remb \<Rightarrow> nat" where
  "Remb_BlockLength p = kHeaderLength + kCommonFeedbackLength + (2 + length (remb_ssrcs p)) * 4"

definition Remb_Create :: "Remb \<Rightarrow> nat \<Rightarrow> bool \<Rightarrow> wstate \<Rightarrow> bool \<times> wstate" where
  "Remb_Create p max_length callback w =
     (case reserve (Remb_BlockLength p) max_length callback w of
        (False, w) \<Rightarrow> (False, w)
      | (True, w) \<Rightarrow>
          (let w = CreateHeader 15 206 (HeaderLength (Remb_BlockLength p)) False w;
               w = Psfb_CreateCommonFeedback p (index w) w;
               w = advance kCommonFeedbackLength w;
               w = put (index w) (put_be32 kUniqueIdentifier) w;
               w = advance 4 w;
               kMaxMantissa = 0x3ffff :: u64;
               (mantissa, exponenta) = mantissa_loop kMaxMantissa (word_of_int (remb_bitrate_bps p)) 0;
               w = advance 1 (put (index w) [of_nat (length (remb_ssrcs p))] w);
               w = advance 1 (put (index w)
                     [ucast (push_bit 2 (of_nat exponenta) OR drop_bit 16 mantissa)] w);
               w = put (index w) (put_be16 (ucast (mantissa AND 0xffff))) w;
               w = advance 2 w;
               w = fold (\<lambda>ssrc w. advance 4 (put (index w) (put_be32 ssrc) w)) (remb_ssrcs p) w
           in (True, w)))"

definition Remb_wf :: "Remb \<Rightarrow> bool" where
  "Remb_wf p \<longleftrightarrow> length (remb_ssrcs p) \<le> kMaxNumberOfSsrcs
     \<and> 0 \<le> remb_bitrate_bps p \<and> remb_bitrate_bps p < 2 ^ 63"

definition Remb_rate :: "Remb \<Rightarrow> byte list" where
  "Remb_rate p = (case mantissa_loop 0x3ffff (word_of_int (remb_bitrate_bps p)) 0 of
     (mantissa, exponenta) \<Rightarrow>
       [ucast (push_bit 2 (of_nat exponenta) OR drop_bit 16 mantissa)]
       @ put_be16 (ucast (mantissa AND 0xffff)))"

definition Remb_body :: "Remb \<Rightarrow> byte list" where
  "Remb_body p = Psfb_bytes p @ put_be32 kUniqueIdentifier @ [of_nat (length (remb_ssrcs p))]
     @ Remb_rate p @ concat (map put_be32 (remb_ssrcs p))"

definition Remb_canon :: "Remb \<Rightarrow> Remb" where
  "Remb_canon p =
     p\<lparr>remb_bitrate_bps := uint (rounded 0x3ffff (word_of_int (remb_bitrate_bps p)))\<rparr>"

lemmas remb_consts = feedback_consts kMaxNumberOfSsrcs_def

lemma length_Remb_body: "length (Remb_rate p) = 3" "length (Remb_body p) = 16 + 4 * length (remb_ssrcs p)"
  by (simp_all add: Remb_rate_def Remb_body_def be32.length_concat_enc split: prod.split)

lemma Remb_Create_emit:
  "Remb_Create p max_length cb w =
      (case reserve (Remb_BlockLength p) max_length cb w of
         (False, w') \<Rightarrow> (False, w')
       | (True, w') \<Rightarrow> (True, emit (packet_bytes (\<lambda>_. 15) 206 Remb_BlockLength Remb_body p) w'))"
  by (simp add: Remb_Create_def Remb_body_def Remb_rate_def packet_bytes_def Let_def emit_simps
      remb_consts split: prod.split bool.split)

lemma remb_fields:
  fixes e :: nat and m :: u64
  assumes "e < 64" and "unat m < 2 ^ 18"
    and b: "b = (ucast (push_bit 2 (of_nat e) OR drop_bit 16 m) :: byte)"
  shows "unat (drop_bit 2 b) = e"
    and "ucast (push_bit 16 (ucast (b AND 0x03) :: u32) OR ucast (ucast (m AND 0xffff) :: u16)) = m"
proof -
  have "take_bit 6 e = e"
    using assms(1) by (simp add: take_bit_nat_eq_self)
  then have eb: "bit e n \<Longrightarrow> n < 6" for n
    by (metis bit_take_bit_iff)
  note mb = bit_small_word [OF assms(2)]
  have bb: "bit b n \<longleftrightarrow> n < 8 \<and> (2 \<le> n \<and> bit e (n - 2) \<or> bit m (16 + n))" for n
    by (auto simp: b bit_simps)
  have "drop_bit 2 b = (of_nat e :: byte)"
    by (rule bit_word_eqI) (auto simp: bit_simps bb dest: eb mb)
  then show "unat (drop_bit 2 b) = e"
    using assms(1) by (simp add: unat_of_nat)
  have low: "x AND 0x03 = take_bit 2 x" "y AND 0xffff = take_bit 16 y" for x :: byte and y :: u64
    by (simp_all add: take_bit_eq_mask mask_eq_exp_minus_1)
  show "ucast (push_bit 16 (ucast (b AND 0x03) :: u32) OR ucast (ucast (m AND 0xffff) :: u16)) = m"
    by (rule bit_word_eqI) (auto simp: low bit_simps bb dest: eb mb)
qed

lemma sint_small: "uint (x :: u64) < 2 ^ 63 \<Longrightarrow> sint x = uint x"
  using signed_take_bit_int_eq_self [of 63 "uint x"] order_trans [of "- (2 ^ 63)" 0 "uint x"]
  by (simp add: sint_uint)

lemma Remb_Parse_body:
  assumes "Remb_wf p"
  shows "Remb_Parse (header_for 15 206 (Remb_body p) rest) old = Some (True, Remb_canon p)"
proof -
  let ?b = "word_of_int (remb_bitrate_bps p) :: u64"
  obtain m e where run: "mantissa_loop 0x3ffff ?b 0 = (m, e)" by fastforce
  have k: "unat (0x3ffff :: u64) = 2 ^ 18 - 1" "0 < (18 :: nat)" by simp_all
  note b = mantissa_loop_bounds [OF run k]
  have "e < 64" "unat m < 2 ^ 18" using b by auto
  note f = remb_fields [OF this refl]
  have r: "rounded 0x3ffff ?b = push_bit e m" by (simp add: rounded_def run)
  have "uint (push_bit e m) \<le> uint ?b"
    using rounded_bounds(1) [OF k, of ?b] by (simp add: r word_le_def)
  also have "uint ?b < 2 ^ 63"
    using assms by (simp add: Remb_wf_def uint_word_of_int)
  finally have s: "sint (push_bit e m) = uint (push_bit e m)"
    by (rule sint_small)
  have n: "unat (of_nat (length (remb_ssrcs p)) :: byte) = length (remb_ssrcs p)"
    using assms by (simp add: Remb_wf_def remb_consts unat_of_nat)
  have "parse_each (\<lambda>bs off _. get_be32 bs off) 4
      ((Psfb_bytes p @ put_be32 kUniqueIdentifier @ [of_nat (length (remb_ssrcs p))] @ Remb_rate p)
        @ concat (map put_be32 (remb_ssrcs p)) @ rest) 16 (replicate (length (remb_ssrcs p)) 0)
      = Some (remb_ssrcs p)"
    by (rule be32.parse_each_enc_at) (auto simp: length_Remb_body)
  then show ?thesis
    using n f s
    by (simp add: Remb_Parse_def length_Remb_body Remb_body_def [of p] Remb_rate_def run wire_simps
        remb_consts Let_def drop_push_drop b(1) Remb_canon_def rounded_def be32.length_concat_enc)
qed

lemma Remb_Parse_safe:
  assumes "valid_header h"
  shows "returns (Remb_Parse h p) (\<lambda>q. length (remb_ssrcs q) \<le> 255)"
proof (cases "payload_size h < 16")
  case False
  then have len: "16 \<le> length (payload h)"
    using assms by (simp add: valid_header_def)
  define n where "n = unat (payload h ! 12)"
  have "8 \<le> length (payload h)" using len by simp
  then obtain s m where common: "Psfb_ParseCommonFeedback (payload h) p =
      Some (p\<lparr>sender_ssrc := s, ps_media_ssrc := m\<rparr>)"
    by (rule Psfb_ParseCommonFeedback_safe)
  have reads: "get_u8 (payload h) 12 = Some (payload h ! 12)" "get_u8 (payload h) 13 = Some (payload h ! 13)"
    "get_be16 (payload h) 14 = Some (ReadBigEndian2 (take 2 (drop 14 (payload h))))"
    "get_be32 (payload h) 8 = Some (ReadBigEndian4 (take 4 (drop 8 (payload h))))"
    using len by (auto intro!: get_u8_Some fetch_Some)
  have n: "n \<le> 255"
    using unsigned_less [of "payload h ! 12", where 'a = nat] by (simp add: n_def)
  show ?thesis
  proof (cases "payload_size h = 16 + n * 4")
    case True
    then obtain ys where ys:
      "parse_each (\<lambda>bs off _. get_be32 bs off) 4 (payload h) 16 (replicate n 0) = Some ys"
      using be32.parse_each_safe [of 16 "replicate n 0" "payload h"] assms
      by (auto simp: valid_header_def)
    with n have "length ys \<le> 255"
      using parse_each_length [OF ys] by simp
    with True False common reads ys show ?thesis
      by (simp add: Remb_Parse_def remb_consts Let_def n_def [symmetric])
  next
    case False
    with \<open>\<not> payload_size h < 16\<close> reads show ?thesis
      by (simp add: Remb_Parse_def remb_consts n_def [symmetric])
  qed
qed (simp add: Remb_Parse_def)

interpretation remb: rtcp_codec Remb_BlockLength Remb_Create Remb_Parse "\<lambda>_. 15" 206 Remb_body
  Remb_wf Remb_canon "\<lambda>q. length (remb_ssrcs q) \<le> 255"
proof
  fix p
  assume wf: "Remb_wf p"
  show "Remb_BlockLength p = 4 + length (Remb_body p)"
    "15 < (32 :: nat) \<and> 4 dvd length (Remb_body p) \<and> length (Remb_body p) \<le> 262140"
    using wf by (auto simp: Remb_BlockLength_def length_Remb_body Remb_wf_def remb_consts)
qed (simp_all only: Remb_Create_emit Remb_Parse_body Remb_Parse_safe)

lemma Remb_canon_bounds:
  assumes "Remb_wf r"
  shows "remb_bitrate_bps (Remb_canon r) \<le> remb_bitrate_bps r"
    and "remb_bitrate_bps r < 2 ^ 18 \<Longrightarrow> Remb_canon r = r"
    and "remb_bitrate_bps r \<noteq> 0 \<Longrightarrow>
      (remb_bitrate_bps r - remb_bitrate_bps (Remb_canon r)) * 2 ^ 17 < remb_bitrate_bps r"
proof -
  define b where "b = (word_of_int (remb_bitrate_bps r) :: u64)"
  have b: "uint b = remb_bitrate_bps r"
    using assms by (simp add: b_def Remb_wf_def uint_word_of_int)
  have "unat (0x3ffff :: u64) = 2 ^ 18 - 1" "0 < (18 :: nat)" by simp_all
  note r = rounded_bounds [OF this, of b]
  have canon: "remb_bitrate_bps (Remb_canon r) = uint (rounded 0x3ffff b)"
    by (simp add: Remb_canon_def b_def)
  show le: "remb_bitrate_bps (Remb_canon r) \<le> remb_bitrate_bps r"
    using r(1) by (simp add: canon word_le_def b)
  show "Remb_canon r = r" if "remb_bitrate_bps r < 2 ^ 18"
  proof -
    have "unat b < 2 ^ 18"
      using that b unsigned_greater_eq [of b, where 'a = int] by (simp add: unat_eq_nat_uint)
    then show ?thesis
      using r(2) by (simp add: Remb_canon_def b_def [symmetric] b)
  qed
  show "(remb_bitrate_bps r - remb_bitrate_bps (Remb_canon r)) * 2 ^ 17 < remb_bitrate_bps r"
    if "remb_bitrate_bps r \<noteq> 0"
  proof -
    have "b \<noteq> 0" using that b by auto
    from r(3) [OF this] have "(unat b - unat (rounded 0x3ffff b)) * 131072 < unat b"
      "unat (rounded 0x3ffff b) \<le> unat b"
      using r(1) by (simp_all add: word_le_nat_alt)
    then have "(int (unat b) - int (unat (rounded 0x3ffff b))) * 131072 < int (unat b)"
      by (simp only: of_nat_less_iff [where 'a = int, symmetric] of_nat_mult of_nat_diff of_nat_numeral)
    then show ?thesis
      by (simp add: canon b [symmetric])
  qed
qed

lemma map_mem_put:
  assumes "base + length bs \<le> n"
  shows "map (mem (put base bs w)) [0..<n] = map (mem w) [0..<base] @ bs @ map (mem w) [base + length bs..<n]"
  by (rule nth_equalityI) (use assms in \<open>auto simp: put_def nth_append\<close>)

lemma TmmbItem_written:
  assumes "TmmbItem_wf t" "base + 8 \<le> n"
  shows "TmmbItem_Parse (map (mem (TmmbItem_Create t base w)) [0..<n]) base old = Some (True, TmmbItem_canon t)"
  unfolding TmmbItem_Create_put using map_mem_put[of base "TmmbItem_bytes t" n w] assms(2)
    TmmbItem_Parse_bytes[OF assms(1), of "map (mem w) [0..<base]" "map (mem w) [base + 8..<n]" old] by simp

lemma TmmbItem_canon_bounds:
  "bitrate_bps (TmmbItem_canon t) \<le> bitrate_bps t" "bitrate_bps t < 2 ^ 17 \<Longrightarrow> bitrate_bps (TmmbItem_canon t) = bitrate_bps t"
  "bitrate_bps t \<noteq> 0 \<Longrightarrow> (unat (bitrate_bps t) - unat (bitrate_bps (TmmbItem_canon t))) * 2 ^ 16 < unat (bitrate_bps t)"
  using rounded_bounds[of "0x1ffff" 17 "bitrate_bps t"] by (simp_all add: TmmbItem_canon_def word_less_nat_alt)

subsection \<open>Properties\<close>

text \<open>
  C28: what the wire keeps of a bitrate. The eight bytes that \<open>TmmbItem::Create\<close> writes anywhere in a buffer, for an overhead of nine bits, are
  accepted by \<open>TmmbItem::Parse\<close>: source and overhead are the ones written, the bitrate is at most the one written, equal to it when
  it is less than \<open>2 ^ 17\<close>, and otherwise less than it by less than one part in \<open>2 ^ 16\<close>. A REMB message with a bitrate of at
  least 0 and at most 255 sources is received with the same sources and a bitrate that is at most the one sent, equal to it when it is less than \<open>2 ^ 18\<close>, and
  otherwise less than it by less than one part in \<open>2 ^ 17\<close>.
\<close>

theorem bitrate_rounding:
  assumes "unat (packet_overhead t) < 2 ^ 9" "base + 8 \<le> n" "Remb_wf r"
  shows "(\<exists>t'. TmmbItem_Parse (map (mem (TmmbItem_Create t base w)) [0..<n]) base old = Some (True, t')
        \<and> tmmb_ssrc t' = tmmb_ssrc t \<and> packet_overhead t' = packet_overhead t \<and> bitrate_bps t' \<le> bitrate_bps t
        \<and> (bitrate_bps t < 2 ^ 17 \<longrightarrow> bitrate_bps t' = bitrate_bps t)
        \<and> (bitrate_bps t \<noteq> 0 \<longrightarrow> (unat (bitrate_bps t) - unat (bitrate_bps t')) * 2 ^ 16 < unat (bitrate_bps t)))
   \<and> (\<exists>r'. received_as Remb_Create Remb_BlockLength Remb_Parse 206 15 r r'
        \<and> r' = r\<lparr>remb_bitrate_bps := remb_bitrate_bps r'\<rparr> \<and> 0 \<le> remb_bitrate_bps r' \<and> remb_bitrate_bps r' \<le> remb_bitrate_bps r
        \<and> (remb_bitrate_bps r < 2 ^ 18 \<longrightarrow> remb_bitrate_bps r' = remb_bitrate_bps r)
        \<and> (remb_bitrate_bps r \<noteq> 0 \<longrightarrow> (remb_bitrate_bps r - remb_bitrate_bps r') * 2 ^ 17 < remb_bitrate_bps r))"
proof (intro conjI exI)
  have wf: "TmmbItem_wf t" using assms(1) by (simp add: TmmbItem_wf_def)
  show "TmmbItem_Parse (map (mem (TmmbItem_Create t base w)) [0..<n]) base old = Some (True, TmmbItem_canon t)"
    using wf assms(2) by (rule TmmbItem_written)
  show "received_as Remb_Create Remb_BlockLength Remb_Parse 206 15 r (Remb_canon r)" using remb.received[OF assms(3)] .
  show "Remb_canon r = r\<lparr>remb_bitrate_bps := remb_bitrate_bps (Remb_canon r)\<rparr>" "0 \<le> remb_bitrate_bps (Remb_canon r)"
    by (simp_all add: Remb_canon_def)
  show "remb_bitrate_bps r < 2 ^ 18 \<longrightarrow> remb_bitrate_bps (Remb_canon r) = remb_bitrate_bps r"
    using Remb_canon_bounds(2)[OF assms(3)] by simp
  show "remb_bitrate_bps r \<noteq> 0 \<longrightarrow> (remb_bitrate_bps r - remb_bitrate_bps (Remb_canon r)) * 2 ^ 17 < remb_bitrate_bps r"
    using Remb_canon_bounds(3)[OF assms(3)] by blast
qed (use TmmbItem_canon_bounds[of t] Remb_canon_bounds(1)[OF assms(3)] in \<open>simp_all add: TmmbItem_canon_def\<close>)

theorem bitrate_rounding_witness:
  "\<exists>t'. TmmbItem_Parse (map (mem (TmmbItem_Create \<lparr>tmmb_ssrc = 5, bitrate_bps = 131071, packet_overhead = 40\<rparr> 4 (fresh (\<lambda>_. 0) 12))) [0..<12]) 4
       TmmbItem_init = Some (True, t') \<and> bitrate_bps t' = 131071"
proof -
  let ?t = "\<lparr>tmmb_ssrc = 5, bitrate_bps = 131071, packet_overhead = 40\<rparr>"
  let ?r = "\<lparr>sender_ssrc = 1, ps_media_ssrc = 0, remb_bitrate_bps = 2 ^ 40 + 1, remb_ssrcs = []\<rparr>"
  have "unat (packet_overhead ?t) < 2 ^ 9" "4 + 8 \<le> (12 :: nat)" "Remb_wf ?r" "bitrate_bps ?t < 2 ^ 17"
    by (simp_all add: Remb_wf_def kMaxNumberOfSsrcs_def)
  then show ?thesis
    using bitrate_rounding [of ?t 4 12 ?r "fresh (\<lambda>_. 0) 12" TmmbItem_init] by fastforce
qed

text \<open>
  Parsing arbitrary bytes as TMMBR, TMMBN or REMB never reads outside the receive buffer;
  the first two establish the class invariant.
\<close>

lemma bitrate_parsers_safe:
  assumes "size_bytes \<le> length buffer"
    and "CommonHeader_Parse buffer size_bytes h0 = Some (True, h)"
  shows "returns (Tmmbr_Parse h t) Tmmbr_wf \<and> returns (Tmmbn_Parse h n) Tmmbn_wf
    \<and> returns (Remb_Parse h r) (\<lambda>q. length (remb_ssrcs q) \<le> 255)"
  using tmmbr.receive_safe [OF assms(2,1)] tmmbn.receive_safe [OF assms(2,1)]
    remb.receive_safe [OF assms(2,1)] by blast

text \<open>The overflow check of \<open>Remb::Parse\<close> accepts what fits 64 bits without a sign.\<close>

lemma shift_fits:
  fixes m :: u64
  assumes "e < 64"
  shows "drop_bit e (push_bit e m) = m \<longleftrightarrow> unat m * 2 ^ e < 2 ^ 64"
proof -
  have "unat (drop_bit e (push_bit e m)) = drop_bit e (push_bit e (take_bit (64 - e) (unat m)))"
    using assms by (simp add: unsigned_drop_bit_eq unsigned_push_bit_eq take_bit_push_bit)
  moreover have "drop_bit e (push_bit e x) = x" for x :: nat by (simp add: drop_bit_eq_div push_bit_eq_mult)
  ultimately have "unat (drop_bit e (push_bit e m)) = take_bit (64 - e) (unat m)" by simp
  then have "drop_bit e (push_bit e m) = m \<longleftrightarrow> take_bit (64 - e) (unat m) = unat m"
    by (simp add: word_unat_eq_iff)
  also have "\<dots> \<longleftrightarrow> unat m < 2 ^ (64 - e)" by (rule take_bit_nat_eq_self_iff)
  also have "\<dots> \<longleftrightarrow> unat m * 2 ^ e < 2 ^ (64 - e) * 2 ^ e" by simp
  also have "(2 :: nat) ^ (64 - e) * 2 ^ e = 2 ^ 64" using assms by (simp only: power_add[symmetric]) simp
  finally show ?thesis .
qed

lemma sint_shifted:
  fixes m :: u64
  assumes "unat m * 2 ^ e < 2 ^ 64"
  shows "sint (push_bit e m) = (if unat m * 2 ^ e < 2 ^ 63 then int (unat m * 2 ^ e) else int (unat m * 2 ^ e) - 2 ^ 64)"
proof -
  have "unat (push_bit e m) = take_bit 64 (unat m * 2 ^ e)" unfolding unsigned_push_bit_eq by (simp add: push_bit_eq_mult)
  also have "\<dots> = unat m * 2 ^ e" using assms by (rule take_bit_nat_eq_self)
  finally have u: "uint (push_bit e m) = int (unat m * 2 ^ e)" by (simp only: uint_nat)
  show ?thesis
  proof (cases "unat m * 2 ^ e < 2 ^ 63")
    case True
    then have "int (unat m * 2 ^ e) < 2 ^ 63" by (simp only: of_nat_less_iff[where 'a = int, symmetric]) simp
    then show ?thesis using sint_small[of "push_bit e m"] u True by (simp only: if_True)
  next
    case False
    let ?x = "int (unat m * 2 ^ e)"
    have "2 ^ 63 \<le> unat m * 2 ^ e" using False by (simp only: not_less)
    then have "int (2 ^ 63) \<le> ?x" "?x < int (2 ^ 64)" using assms by (simp_all only: of_nat_le_iff of_nat_less_iff)
    then have "- (2 ^ 63) \<le> ?x - 2 ^ 64" "?x - 2 ^ 64 < 2 ^ 63" by simp_all
    then have "sint (word_of_int (?x - 2 ^ 64) :: u64) = ?x - 2 ^ 64"
      unfolding sint_sbintrunc' by (intro signed_take_bit_int_eq_self) simp_all
    moreover have "word_of_int (?x - 2 ^ 64) = (word_of_int ?x :: u64)"
      unfolding word_of_int_eq_iff by (simp add: take_bit_eq_mod)
    moreover have "word_of_int ?x = push_bit e m" unfolding u[symmetric] by simp
    ultimately show ?thesis using False by (simp only: if_False)
  qed
qed

text \<open>
  For a REMB message with mantissa \<open>m\<close> (18 bits) and exponent \<open>e\<close> (6 bits), and any sources, \<open>Remb::Parse\<close> accepts exactly when
  \<open>m * 2 ^ e\<close> is below \<open>2 ^ 64\<close>. The bitrate it stores in its signed field is that number below \<open>2 ^ 63\<close>; from there on it is negative.
\<close>

theorem Remb_Parse_negative_bitrate:
  fixes m :: u64
  assumes "unat m < 2 ^ 18" "e < 64" "length ssrcs \<le> kMaxNumberOfSsrcs" "length common = 8"
    "body = common @ put_be32 kUniqueIdentifier @ [of_nat (length ssrcs), ucast (push_bit 2 (of_nat e) OR drop_bit 16 m)]
       @ put_be16 (ucast (m AND 0xffff)) @ concat (map put_be32 ssrcs)"
  shows "\<exists>q. Remb_Parse (header_for 15 206 body rest) old = Some (unat m * 2 ^ e < 2 ^ 64, q)
    \<and> (unat m * 2 ^ e < 2 ^ 64 \<longrightarrow> remb_ssrcs q = ssrcs \<and>
        remb_bitrate_bps q = (if unat m * 2 ^ e < 2 ^ 63 then int (unat m * 2 ^ e) else int (unat m * 2 ^ e) - 2 ^ 64))"
proof -
  note f = remb_fields [OF assms(2,1) refl]
  have "8 \<le> length (payload (header_for 15 206 body rest))" using assms(4,5) by simp
  then obtain s p where c: "Psfb_ParseCommonFeedback (payload (header_for 15 206 body rest)) old = Some (old\<lparr>sender_ssrc := s, ps_media_ssrc := p\<rparr>)"
    by (rule Psfb_ParseCommonFeedback_safe)
  have n: "unat (of_nat (length ssrcs) :: byte) = length ssrcs"
    using assms(3) by (simp add: remb_consts unat_of_nat)
  let ?pre = "common @ put_be32 kUniqueIdentifier @ [of_nat (length ssrcs), ucast (push_bit 2 (of_nat e) OR drop_bit 16 m)] @ put_be16 (ucast (m AND 0xffff))"
  have "parse_each (\<lambda>bs off _. get_be32 bs off) 4 (?pre @ concat (map put_be32 ssrcs) @ rest) 16 (replicate (length ssrcs) 0) = Some ssrcs"
    by (rule be32.parse_each_enc_at) (auto simp: assms(4))
  then have e: "parse_each (\<lambda>bs off _. get_be32 bs off) 4 (payload (header_for 15 206 body rest)) 16 (replicate (length ssrcs) 0) = Some ssrcs"
    by (simp add: assms(5))
  have "get_be32 (payload (header_for 15 206 body rest)) 8 = Some kUniqueIdentifier"
    "get_u8 (payload (header_for 15 206 body rest)) 12 = Some (of_nat (length ssrcs))"
    "get_u8 (payload (header_for 15 206 body rest)) 13 = Some (ucast (push_bit 2 (of_nat e) OR drop_bit 16 m))"
    "get_be16 (payload (header_for 15 206 body rest)) 14 = Some (ucast (m AND 0xffff))"
    "payload_size (header_for 15 206 body rest) = 16 + 4 * length ssrcs"
    using assms(4) by (simp_all add: assms(5) wire_simps be32.length_concat_enc)
  then show ?thesis
    using n c e f shift_fits[OF assms(2), of m] sint_shifted[of m e] by (simp add: Remb_Parse_def remb_consts Let_def)
qed

theorem Remb_Parse_negative_bitrate_witness:
  "\<exists>q. Remb_Parse (header_for 15 206 [0, 0, 0, 1, 0, 0, 0, 0, 0x52, 0x45, 0x4D, 0x42, 0, 0xFC, 0, 1] [])
     \<lparr>sender_ssrc = 0, ps_media_ssrc = 0, remb_bitrate_bps = 0, remb_ssrcs = []\<rparr> = Some (True, q) \<and> remb_bitrate_bps q = - (2 ^ 63)"
proof -
  have b: "[0, 0, 0, 1, 0, 0, 0, 0] @ put_be32 kUniqueIdentifier @ [of_nat (length ([] :: u32 list)), ucast (push_bit 2 (of_nat 63) OR drop_bit 16 (1 :: u64))]
     @ put_be16 (ucast ((1 :: u64) AND 0xffff)) @ concat (map put_be32 []) = [0, 0, 0, 1, 0, 0, 0, 0, 0x52, 0x45, 0x4D, 0x42, 0, 0xFC, 0, 1]"
    by code_simp
  show ?thesis
    using Remb_Parse_negative_bitrate[of 1 63 "[]" "[0, 0, 0, 1, 0, 0, 0, 0]", OF _ _ _ _ b[symmetric], of "[]"
        "\<lparr>sender_ssrc = 0, ps_media_ssrc = 0, remb_bitrate_bps = 0, remb_ssrcs = []\<rparr>"]
    by auto
qed

end
