(* ===== verification/Rtcp_Session.thy ===== *)
theory Rtcp_Session
  imports Rtcp_Feedback
begin

text \<open>
  The packets that describe and end a session, and two application messages:
  \<open>rtcp_packet/bye\<close>, \<open>app\<close>, \<open>loss_notification\<close> and \<open>sdes\<close>. Strings are lists of bytes. The
  source description packet has the one variable-length grammar of the family: chunks of
  items, each chunk padded to a word boundary.
\<close>

subsection \<open>\<open>Bye\<close>\<close>

record Bye = RtcpPacket +
  csrcs :: "u32 list"
  reason :: "byte list"

definition kMaxNumberOfCsrcs :: nat where
  "kMaxNumberOfCsrcs = 0x1f - 1"

definition Bye_Parse :: "CommonHeader \<Rightarrow> Bye \<Rightarrow> (bool \<times> Bye) option" where
  "Bye_Parse h p =
     (let src_count = unat (count_or_format h)
      in if payload_size h < 4 * src_count then Some (False, p)
      else let has_reason = (payload_size h > 4 * src_count)
      in do {
        reason_length \<leftarrow> (if has_reason then get_u8 (payload h) (4 * src_count) else Some 0);
        if has_reason \<and> payload_size h - 4 * src_count < 1 + unat reason_length then Some (False, p)
        else do {
          p \<leftarrow> (if src_count = 0 then Some (p\<lparr>sender_ssrc := 0, csrcs := []\<rparr>)
               else do {
                 ssrc \<leftarrow> get_be32 (payload h) 0;
                 cs \<leftarrow> parse_each (\<lambda>bs off _. get_be32 bs off) 4 (payload h) 4
                   (resize (src_count - 1) 0 (csrcs p));
                 Some (p\<lparr>sender_ssrc := ssrc, csrcs := cs\<rparr>) });
          r \<leftarrow> (if has_reason then slice (payload h) (4 * src_count + 1) (unat reason_length)
               else Some []);
          Some (True, p\<lparr>reason := r\<rparr>) } })"

definition Bye_BlockLength :: "Bye \<Rightarrow> nat" where
  "Bye_BlockLength p =
     (let src_count = 1 + length (csrcs p);
          reason_size_in_32bits = (if reason p = [] then 0 else length (reason p) div 4 + 1)
      in kHeaderLength + 4 * (src_count + reason_size_in_32bits))"

text \<open>\<open>index_end - *index\<close> cannot wrap: at most \<open>size / 4 + 1\<close> words of reason are written.\<close>

definition Bye_Create :: "Bye \<Rightarrow> nat \<Rightarrow> bool \<Rightarrow> wstate \<Rightarrow> bool \<times> wstate" where
  "Bye_Create p max_length callback w =
     (case reserve (Bye_BlockLength p) max_length callback w of
        (False, w) \<Rightarrow> (False, w)
      | (True, w) \<Rightarrow>
          (let index_end = index w + Bye_BlockLength p;
               w = CreateHeader (1 + length (csrcs p)) 203 (HeaderLength (Bye_BlockLength p)) False w;
               w = put (index w) (put_be32 (sender_ssrc p)) w;
               w = advance 4 w;
               w = fold (\<lambda>csrc w. advance 4 (put (index w) (put_be32 csrc) w)) (csrcs p) w
           in if reason p \<noteq> [] then
                let reason_length = of_nat (length (reason p)) :: byte;
                    w = advance 1 (put (index w) [reason_length] w);
                    w = put (index w) (take (unat reason_length) (reason p)) w;
                    w = advance (unat reason_length) w;
                    bytes_to_pad = index_end - index w
                in if bytes_to_pad > 0
                   then (True, advance bytes_to_pad (put (index w) (replicate bytes_to_pad 0) w))
                   else (True, w)
              else (True, w)))"

definition Bye_SetCsrcs :: "u32 list \<Rightarrow> Bye \<Rightarrow> bool \<times> Bye" where
  "Bye_SetCsrcs cs p =
     (if length cs > kMaxNumberOfCsrcs then (False, p) else (True, p\<lparr>csrcs := cs\<rparr>))"

definition Bye_SetReason :: "byte list \<Rightarrow> Bye \<Rightarrow> Bye" where
  "Bye_SetReason r p = p\<lparr>reason := r\<rparr>"

text \<open>What \<open>SetCsrcs\<close> enforces and \<open>SetReason\<close> requires of its caller.\<close>

definition Bye_wf :: "Bye \<Rightarrow> bool" where
  "Bye_wf p \<longleftrightarrow> length (csrcs p) \<le> kMaxNumberOfCsrcs \<and> length (reason p) \<le> 255"

definition Bye_reason :: "byte list \<Rightarrow> byte list" where
  "Bye_reason r = (if r = [] then []
     else [of_nat (length r)] @ r @ replicate (4 * (length r div 4 + 1) - (1 + length r)) 0)"

definition Bye_body :: "Bye \<Rightarrow> byte list" where
  "Bye_body p = (put_be32 (sender_ssrc p) @ concat (map put_be32 (csrcs p))) @ Bye_reason (reason p)"

lemma length_Bye_reason: "length (Bye_reason r) = (if r = [] then 0 else 4 * (length r div 4 + 1))"
  by (simp add: Bye_reason_def)

lemma length_Bye_body:
  "length (Bye_body p) = 4 * (1 + length (csrcs p) + (if reason p = [] then 0 else length (reason p) div 4 + 1))"
  by (simp add: Bye_body_def length_Bye_reason be32.length_concat_enc)

lemmas bye_consts = kHeaderLength_def HeaderLength_def kMaxNumberOfCsrcs_def

lemma Bye_Create_emit:
  assumes "Bye_wf p"
  shows "Bye_Create p max_length cb w =
      (case reserve (Bye_BlockLength p) max_length cb w of
         (False, w') \<Rightarrow> (False, w')
       | (True, w') \<Rightarrow> (True, emit (packet_bytes (\<lambda>p. 1 + length (csrcs p)) 203 Bye_BlockLength Bye_body p) w'))"
proof -
  have len: "unat (of_nat (length (reason p)) :: byte) = length (reason p)"
    using assms by (simp add: Bye_wf_def unat_of_nat)
  let ?l = "length (reason p)"
  note defs = Bye_Create_def Bye_body_def Bye_reason_def packet_bytes_def Let_def emit_simps
    bye_consts be32.length_concat_enc Bye_BlockLength_def
  consider "reason p = []" | "reason p \<noteq> []" "3 + 4 * (?l div 4) = ?l"
    | "reason p \<noteq> []" "?l < 3 + 4 * (?l div 4)"
    using round_up4 [of ?l] by linarith
  then show ?thesis
    using len by cases (simp_all add: defs split: prod.split bool.split)
qed

lemma Bye_Parse_body:
  assumes "Bye_wf p"
  shows "Bye_Parse (header_for (1 + length (csrcs p)) 203 (Bye_body p) rest) old = Some (True, p)"
proof -
  let ?n = "length (csrcs p)"
  have n: "?n \<le> 30" "length (reason p) \<le> 255"
    using assms by (simp_all add: Bye_wf_def kMaxNumberOfCsrcs_def)
  have cnt: "unat (1 + of_nat ?n :: byte) = Suc ?n"
    using n(1) by (simp add: unat_of_nat unat_word_ariths)
  have cs: "parse_each (\<lambda>bs off _. get_be32 bs off) 4 (put_be32 (sender_ssrc p)
        @ concat (map put_be32 (csrcs p)) @ tail) 4 (resize ?n 0 olds) = Some (csrcs p)" for tail olds
    by (rule be32.parse_each_enc_at) auto
  show ?thesis
  proof (cases "reason p = []")
    case True
    then show ?thesis
      using n cnt cs by (simp add: Bye_Parse_def Let_def length_Bye_body Bye_body_def [of p] Bye_reason_def
          unat_of_nat wire_simps be32.length_concat_enc)
  next
    case False
    then show ?thesis
      using n cnt cs round_up4 [of "length (reason p)"] by (simp add: not_less Bye_Parse_def Let_def length_Bye_body Bye_body_def [of p] Bye_reason_def
          unat_of_nat wire_simps be32.length_concat_enc)
  qed
qed

lemma slice_Some: "off + n \<le> length bs \<Longrightarrow> slice bs off n = Some (take n (drop off bs))"
  by (simp add: slice_def)

lemma Bye_Parse_safe:
  assumes "valid_header h" and "unat (count_or_format h) < 32"
  shows "returns (Bye_Parse h p) Bye_wf"
proof (cases "payload_size h < 4 * unat (count_or_format h)")
  case False
  define n where "n = unat (count_or_format h)"
  define l where "l = unat (payload h ! (4 * n))"
  have len: "4 * n \<le> payload_size h" "payload_size h \<le> length (payload h)" "n < 32"
    using False assms by (simp_all add: n_def valid_header_def)
  have l: "l \<le> 255"
    using unsigned_less [of "payload h ! (4 * n)", where 'a = nat] by (simp add: l_def)
  have srcs: "\<exists>s cs. (if n = 0 then Some (p\<lparr>sender_ssrc := 0, csrcs := []\<rparr>)
      else do { ssrc \<leftarrow> get_be32 (payload h) 0;
                cs \<leftarrow> parse_each (\<lambda>bs off _. get_be32 bs off) 4 (payload h) 4 (resize (n - 1) 0 (csrcs p));
                Some (p\<lparr>sender_ssrc := ssrc, csrcs := cs\<rparr>) })
      = Some (p\<lparr>sender_ssrc := s, csrcs := cs\<rparr>) \<and> length cs \<le> 30"
  proof (cases "n = 0")
    case False
    then have "4 + 4 * (n - 1) \<le> length (payload h)" using len by simp
    then obtain cs where "parse_each (\<lambda>bs off _. get_be32 bs off) 4 (payload h) 4
        (resize (n - 1) 0 (csrcs p)) = Some cs" "length cs = n - 1"
      by (rule be32.parse_each_resize)
    with False len show ?thesis
      by (intro exI [of _ "ReadBigEndian4 (take 4 (payload h))"] exI [of _ cs]) (simp add: fetch_Some)
  qed (rule exI [of _ 0], rule exI [of _ "[]"], simp)
  then obtain s cs where srcs: "(if n = 0 then Some (p\<lparr>sender_ssrc := 0, csrcs := []\<rparr>)
      else do { ssrc \<leftarrow> get_be32 (payload h) 0;
                cs \<leftarrow> parse_each (\<lambda>bs off _. get_be32 bs off) 4 (payload h) 4 (resize (n - 1) 0 (csrcs p));
                Some (p\<lparr>sender_ssrc := ssrc, csrcs := cs\<rparr>) })
      = Some (p\<lparr>sender_ssrc := s, csrcs := cs\<rparr>)" "length cs \<le> 30" by blast
  show ?thesis
  proof (cases "4 * n < payload_size h")
    case True
    then have "get_u8 (payload h) (4 * n) = Some (payload h ! (4 * n))"
      using len by (intro get_u8_Some) simp
    then show ?thesis
      using True len l srcs
      by (simp add: Bye_Parse_def Let_def n_def [symmetric] l_def [symmetric] Bye_wf_def
          kMaxNumberOfCsrcs_def slice_Some not_less)
  next
    case False
    then show ?thesis
      using len srcs by (simp add: Bye_Parse_def Let_def n_def [symmetric] Bye_wf_def kMaxNumberOfCsrcs_def)
  qed
qed (simp add: Bye_Parse_def)

interpretation bye: rtcp_codec Bye_BlockLength Bye_Create Bye_Parse "\<lambda>p. 1 + length (csrcs p)" 203
  Bye_body Bye_wf "\<lambda>p. p" Bye_wf
proof
  fix p
  assume wf: "Bye_wf p"
  show "Bye_BlockLength p = 4 + length (Bye_body p)"
    by (simp add: Bye_BlockLength_def length_Bye_body kHeaderLength_def)
  show "1 + length (csrcs p) < 32 \<and> 4 dvd length (Bye_body p) \<and> length (Bye_body p) \<le> 262140"
    using wf div_le_dividend [of "length (reason p)" 4]
    by (auto simp: length_Bye_body Bye_wf_def kMaxNumberOfCsrcs_def)
qed (simp_all only: Bye_Create_emit Bye_Parse_body Bye_Parse_safe)

subsection \<open>\<open>App\<close>\<close>

record App = RtcpPacket +
  sub_type :: byte
  app_name :: u32
  app_data :: "byte list"

definition kAppBaseLength :: nat where
  "kAppBaseLength = 8"

definition kMaxDataSize :: nat where
  "kMaxDataSize = 0xffff * 4 - kAppBaseLength"

definition App_Parse :: "CommonHeader \<Rightarrow> App \<Rightarrow> (bool \<times> App) option" where
  "App_Parse h p =
     (if payload_size h < kAppBaseLength then Some (False, p)
      else if payload_size h mod 4 \<noteq> 0 then Some (False, p)
      else do {
        ssrc \<leftarrow> get_be32 (payload h) 0;
        name \<leftarrow> get_be32 (payload h) 4;
        data \<leftarrow> slice (payload h) kAppBaseLength (payload_size h - kAppBaseLength);
        Some (True, p\<lparr>sub_type := count_or_format h, sender_ssrc := ssrc, app_name := name,
          app_data := data\<rparr>) })"

definition App_SetSubType :: "byte \<Rightarrow> App \<Rightarrow> App" where
  "App_SetSubType subtype p = p\<lparr>sub_type := subtype\<rparr>"

definition App_SetData :: "byte list \<Rightarrow> App \<Rightarrow> App" where
  "App_SetData data p = p\<lparr>app_data := data\<rparr>"

definition App_BlockLength :: "App \<Rightarrow> nat" where
  "App_BlockLength p = kHeaderLength + kAppBaseLength + length (app_data p)"

definition App_Create :: "App \<Rightarrow> nat \<Rightarrow> bool \<Rightarrow> wstate \<Rightarrow> bool \<times> wstate" where
  "App_Create p max_length callback w =
     (case reserve (App_BlockLength p) max_length callback w of
        (False, w) \<Rightarrow> (False, w)
      | (True, w) \<Rightarrow>
          (let w = CreateHeader (unat (sub_type p)) 204 (HeaderLength (App_BlockLength p)) False w;
               w = put (index w + 0) (put_be32 (sender_ssrc p)) w;
               w = put (index w + 4) (put_be32 (app_name p)) w;
               w = put (index w + 8) (app_data p) w
           in (True, advance (8 + length (app_data p)) w)))"

definition App_wf :: "App \<Rightarrow> bool" where
  "App_wf p \<longleftrightarrow> unat (sub_type p) < 32 \<and> 4 dvd length (app_data p) \<and> length (app_data p) \<le> kMaxDataSize"

definition App_body :: "App \<Rightarrow> byte list" where
  "App_body p = put_be32 (sender_ssrc p) @ put_be32 (app_name p) @ app_data p"

lemmas app_consts = kHeaderLength_def HeaderLength_def kAppBaseLength_def kMaxDataSize_def

interpretation app: rtcp_codec App_BlockLength App_Create App_Parse "\<lambda>p. unat (sub_type p)" 204
  App_body App_wf "\<lambda>p. p" App_wf
proof
  fix p
  assume wf: "App_wf p"
  show "App_Create p max_length cb w =
      (case reserve (App_BlockLength p) max_length cb w of
         (False, w') \<Rightarrow> (False, w')
       | (True, w') \<Rightarrow> (True, emit (packet_bytes (\<lambda>p. unat (sub_type p)) 204 App_BlockLength App_body p) w'))"
    for max_length cb w
    by (simp add: App_Create_def App_body_def packet_bytes_def Let_def emit_simps app_consts
        split: prod.split bool.split)
  show "App_BlockLength p = 4 + length (App_body p)"
    "unat (sub_type p) < 32 \<and> 4 dvd length (App_body p) \<and> length (App_body p) \<le> 262140"
    using wf by (auto simp: App_BlockLength_def App_body_def App_wf_def app_consts)
  show "App_Parse (header_for (unat (sub_type p)) 204 (App_body p) rest) old = Some (True, p)"
    for rest old
    using wf by (simp add: App_Parse_def App_body_def App_wf_def app_consts wire_simps mod_eq_0_iff_dvd)
next
  fix h :: CommonHeader and old
  assume h: "valid_header h" "unat (count_or_format h) < 32" "payload_size h \<le> 262140"
  then have "min (length (payload h) - 8) (payload_size h - 8) = payload_size h - 8"
    by (auto simp: valid_header_def)
  with h show "returns (App_Parse h old) App_wf"
    by (auto simp: App_Parse_def app_consts valid_header_def fetch_Some slice_Some App_wf_def
        dvd_diff_nat mod_eq_0_iff_dvd)
qed

subsection \<open>\<open>LossNotification\<close>\<close>

record LossNotification = Psfb +
  last_decoded :: u16
  last_received :: u16
  decodability_flag :: bool

definition LossNotification_kUniqueIdentifier :: u32 where
  "LossNotification_kUniqueIdentifier = 0x4C4E5446"

definition kLossNotificationPayloadLength :: nat where
  "kLossNotificationPayloadLength = 8"

definition LossNotification_BlockLength :: "LossNotification \<Rightarrow> nat" where
  "LossNotification_BlockLength p =
     kHeaderLength + kCommonFeedbackLength + kLossNotificationPayloadLength"

definition LossNotification_Create :: "LossNotification \<Rightarrow> nat \<Rightarrow> bool \<Rightarrow> wstate \<Rightarrow> bool \<times> wstate" where
  "LossNotification_Create p max_length callback w =
     (case reserve (LossNotification_BlockLength p) max_length callback w of
        (False, w) \<Rightarrow> (False, w)
      | (True, w) \<Rightarrow>
          (let w = CreateHeader 15 206 (HeaderLength (LossNotification_BlockLength p)) False w;
               w = Psfb_CreateCommonFeedback p (index w) w;
               w = advance kCommonFeedbackLength w;
               w = advance 4 (put (index w) (put_be32 LossNotification_kUniqueIdentifier) w);
               w = advance 2 (put (index w) (put_be16 (last_decoded p)) w);
               last_received_delta = last_received p - last_decoded p;
               last_received_delta_and_decodability =
                 push_bit 1 last_received_delta OR (if decodability_flag p then 1 else 0);
               w = advance 2 (put (index w) (put_be16 last_received_delta_and_decodability) w)
           in (True, w)))"

definition LossNotification_Parse :: "CommonHeader \<Rightarrow> LossNotification \<Rightarrow> (bool \<times> LossNotification) option"
  where
  "LossNotification_Parse h p =
     (if payload_size h < kCommonFeedbackLength + kLossNotificationPayloadLength then Some (False, p)
      else do {
        uid \<leftarrow> get_be32 (payload h) 8;
        if uid \<noteq> LossNotification_kUniqueIdentifier then Some (False, p)
        else do {
          p \<leftarrow> Psfb_ParseCommonFeedback (payload h) p;
          decoded \<leftarrow> get_be16 (payload h) 12;
          last_received_delta_and_decodability \<leftarrow> get_be16 (payload h) 14;
          Some (True, p\<lparr>last_decoded := decoded,
            last_received := decoded + drop_bit 1 last_received_delta_and_decodability,
            decodability_flag := (last_received_delta_and_decodability AND 1 \<noteq> 0)\<rparr>) } })"

definition LossNotification_Set :: "u16 \<Rightarrow> u16 \<Rightarrow> bool \<Rightarrow> LossNotification \<Rightarrow> bool \<times> LossNotification"
  where
  "LossNotification_Set decoded received decodable p =
     (let delta = received - decoded
      in if delta > 0x7fff then (False, p)
         else (True, p\<lparr>last_received := received, last_decoded := decoded,
                decodability_flag := decodable\<rparr>))"

text \<open>What \<open>Set\<close> checks: the delta fits the 15 bits the message has for it.\<close>

definition LossNotification_wf :: "LossNotification \<Rightarrow> bool" where
  "LossNotification_wf p \<longleftrightarrow> last_received p - last_decoded p \<le> 0x7fff"

definition LossNotification_body :: "LossNotification \<Rightarrow> byte list" where
  "LossNotification_body p = Psfb_bytes p @ put_be32 LossNotification_kUniqueIdentifier
     @ put_be16 (last_decoded p) @ put_be16 (push_bit 1 (last_received p - last_decoded p)
        OR (if decodability_flag p then 1 else 0))"

lemmas loss_consts = feedback_consts kLossNotificationPayloadLength_def

lemma delta_fields:
  fixes d :: u16
  assumes "d \<le> 0x7fff" and v: "v = push_bit 1 d OR (if f then 1 else 0)"
  shows "drop_bit 1 v = d" and "(v AND 1 \<noteq> 0) = f"
proof -
  have "unat d < 2 ^ 15"
    using assms(1) by (simp add: word_le_nat_alt)
  note db = bit_small_word [OF this]
  show "drop_bit 1 v = d"
    by (rule bit_word_eqI) (auto simp: v bit_simps simp del: push_bit_Suc dest: db)
  show "(v AND 1 \<noteq> 0) = f"
    by (auto simp: v and_one_eq odd_iff_mod_2_eq_one [symmetric] even_or_iff)
qed

interpretation loss: rtcp_codec LossNotification_BlockLength LossNotification_Create
  LossNotification_Parse "\<lambda>_. 15" 206 LossNotification_body LossNotification_wf "\<lambda>p. p"
  LossNotification_wf
proof
  fix p
  assume wf: "LossNotification_wf p"
  show "LossNotification_Create p max_length cb w =
      (case reserve (LossNotification_BlockLength p) max_length cb w of
         (False, w') \<Rightarrow> (False, w')
       | (True, w') \<Rightarrow> (True, emit (packet_bytes (\<lambda>_. 15) 206 LossNotification_BlockLength
           LossNotification_body p) w'))" for max_length cb w
    by (simp add: LossNotification_Create_def LossNotification_body_def packet_bytes_def Let_def
        emit_simps loss_consts split: prod.split bool.split)
  show "LossNotification_BlockLength p = 4 + length (LossNotification_body p)"
    "15 < (32 :: nat) \<and> 4 dvd length (LossNotification_body p) \<and> length (LossNotification_body p) \<le> 262140"
    by (simp_all add: LossNotification_BlockLength_def LossNotification_body_def loss_consts)
  show "LossNotification_Parse (header_for 15 206 (LossNotification_body p) rest) old = Some (True, p)"
    for rest old
    using delta_fields [OF wf [unfolded LossNotification_wf_def] refl, of "decodability_flag p"]
    by (simp add: LossNotification_Parse_def LossNotification_body_def loss_consts wire_simps)
next
  fix h :: CommonHeader and old
  assume h: "valid_header h"
  show "returns (LossNotification_Parse h old) LossNotification_wf"
  proof (cases "payload_size h < 16")
    case False
    with h have len: "16 \<le> length (payload h)"
      by (simp add: valid_header_def)
    then have "8 \<le> length (payload h)" by simp
    then obtain s m where p: "Psfb_ParseCommonFeedback (payload h) old =
        Some (old\<lparr>sender_ssrc := s, ps_media_ssrc := m\<rparr>)"
      by (rule Psfb_ParseCommonFeedback_safe)
    have "drop_bit 1 v \<le> 0x7fff" for v :: u16
      using unsigned_less [of v, where 'a = nat]
      by (simp add: word_le_nat_alt unsigned_drop_bit_eq drop_bit_eq_div unat_div)
    with p len False show ?thesis
      by (simp add: LossNotification_Parse_def loss_consts fetch_Some LossNotification_wf_def)
  qed (simp add: LossNotification_Parse_def loss_consts)
qed

subsection \<open>\<open>Sdes\<close>\<close>

record SdesChunk =
  chunk_ssrc :: u32
  cname :: "byte list"

record Sdes = RtcpPacket +
  chunks :: "SdesChunk list"
  block_length :: nat

definition kMaxNumberOfChunks :: nat where
  "kMaxNumberOfChunks = 0x1f"

definition kTerminatorTag :: byte where
  "kTerminatorTag = 0"

definition kCnameTag :: byte where
  "kCnameTag = 1"

definition ChunkSize :: "SdesChunk \<Rightarrow> nat" where
  "ChunkSize chunk =
     (let chunk_payload_size = 4 + 1 + 1 + length (cname chunk);
          padding_size = 4 - (chunk_payload_size mod 4)
      in chunk_payload_size + padding_size)"

definition Sdes_init :: Sdes where
  "Sdes_init = \<lparr>sender_ssrc = 0, chunks = [], block_length = kHeaderLength\<rparr>"

text \<open>
  The loop over the items of a chunk from offset \<open>pos\<close> of the payload, whose end is \<open>stop\<close>:
  the cname found, if any, and the offset behind the terminator; \<open>False\<close> is an early return.
\<close>

function (sequential) Sdes_items :: "byte list \<Rightarrow> nat \<Rightarrow> nat \<Rightarrow> byte list option
    \<Rightarrow> (bool \<times> (byte list option \<times> nat)) option" where
  "Sdes_items bs stop pos found = do {
     item_type \<leftarrow> get_u8 bs pos;
     if item_type = kTerminatorTag then Some (True, (found, pos + 1))
     else if pos + 1 \<ge> stop then Some (False, (found, pos + 1))
     else do {
       item_length \<leftarrow> get_u8 bs (pos + 1);
       if pos + 2 + unat item_length + 1 > stop then Some (False, (found, pos + 2))
       else if item_type = kCnameTag then
         (if found \<noteq> None then Some (False, (found, pos + 2))
          else do {
            name \<leftarrow> slice bs (pos + 2) (unat item_length);
            Sdes_items bs stop (pos + 2 + unat item_length) (Some name) })
       else Sdes_items bs stop (pos + 2 + unat item_length) found } }"
  by pat_completeness auto
termination
  by (relation "measure (\<lambda>(_, stop, pos, _). stop - pos)") auto

declare Sdes_items.simps [simp del]

text \<open>
  The loop over the chunks: the first argument counts \<open>number_of_chunks - i\<close>, which every
  iteration decreases, by \<open>++i\<close> or by dropping a chunk without cname.
\<close>

primrec Sdes_chunks :: "nat \<Rightarrow> byte list \<Rightarrow> nat \<Rightarrow> nat \<Rightarrow> SdesChunk list \<Rightarrow> nat
    \<Rightarrow> (bool \<times> (SdesChunk list \<times> nat)) option" where
  "Sdes_chunks 0 bs stop looking_at cs len = Some (True, (cs, len))"
| "Sdes_chunks (Suc n) bs stop looking_at cs len =
     (if int stop - int looking_at < 8 then Some (False, (cs, len))
      else do {
        ssrc \<leftarrow> get_be32 bs looking_at;
        (ok, (found, looking_at)) \<leftarrow> Sdes_items bs stop (looking_at + 4) None;
        if \<not> ok then Some (False, (cs, len))
        else
          let looking_at' = looking_at + (stop - looking_at) mod 4
          in case found of
               Some name \<Rightarrow>
                 (let chunk = \<lparr>chunk_ssrc = ssrc, cname = name\<rparr>
                  in Sdes_chunks n bs stop looking_at' (cs @ [chunk]) (len + ChunkSize chunk))
             | None \<Rightarrow> Sdes_chunks n bs stop looking_at' cs len })"

definition Sdes_Parse :: "CommonHeader \<Rightarrow> Sdes \<Rightarrow> (bool \<times> Sdes) option" where
  "Sdes_Parse h p = do {
     (ok, (cs, len)) \<leftarrow>
       Sdes_chunks (unat (count_or_format h)) (payload h) (payload_size h) 0 [] kHeaderLength;
     if \<not> ok then Some (False, p)
     else Some (True, p\<lparr>chunks := cs, block_length := len\<rparr>) }"

definition AddCName :: "u32 \<Rightarrow> byte list \<Rightarrow> Sdes \<Rightarrow> bool \<times> Sdes" where
  "AddCName ssrc name p =
     (if length (chunks p) \<ge> kMaxNumberOfChunks then (False, p)
      else let chunk = \<lparr>chunk_ssrc = ssrc, cname = name\<rparr>
           in (True, p\<lparr>chunks := chunks p @ [chunk], block_length := block_length p + ChunkSize chunk\<rparr>))"

definition Sdes_BlockLength :: "Sdes \<Rightarrow> nat" where
  "Sdes_BlockLength p = block_length p"

definition SdesChunk_write :: "SdesChunk \<Rightarrow> wstate \<Rightarrow> wstate" where
  "SdesChunk_write chunk w =
     (let w = put (index w + 0) (put_be32 (chunk_ssrc chunk)) w;
          w = put (index w + 4) [kCnameTag] w;
          w = put (index w + 5) [of_nat (length (cname chunk))] w;
          w = put (index w + 6) (cname chunk) w;
          w = advance (6 + length (cname chunk)) w;
          padding_size = 4 - ((6 + length (cname chunk)) mod 4);
          w = put (index w) (replicate padding_size 0) w
      in advance padding_size w)"

definition Sdes_Create :: "Sdes \<Rightarrow> nat \<Rightarrow> bool \<Rightarrow> wstate \<Rightarrow> bool \<times> wstate" where
  "Sdes_Create p max_length callback w =
     (case reserve (Sdes_BlockLength p) max_length callback w of
        (False, w) \<Rightarrow> (False, w)
      | (True, w) \<Rightarrow>
          (let index_end = index w + Sdes_BlockLength p;
               w = CreateHeader (length (chunks p)) 202 (HeaderLength (Sdes_BlockLength p)) False w;
               w = fold SdesChunk_write (chunks p) w
           in (True, rtc_check (index w = index_end) w)))"

text \<open>
  The class invariant: \<open>block_length_\<close> is the size \<open>Create\<close> writes (it is checked there by
  \<open>RTC_CHECK\<close>), and a cname fits its length byte.
\<close>

definition Sdes_wf :: "Sdes \<Rightarrow> bool" where
  "Sdes_wf p \<longleftrightarrow> length (chunks p) \<le> kMaxNumberOfChunks \<and> (\<forall>c \<in> set (chunks p). length (cname c) \<le> 255)
     \<and> block_length p = kHeaderLength + sum_list (map ChunkSize (chunks p))"

definition SdesChunk_bytes :: "SdesChunk \<Rightarrow> byte list" where
  "SdesChunk_bytes c = put_be32 (chunk_ssrc c) @ [kCnameTag, of_nat (length (cname c))] @ cname c
     @ replicate (4 - (6 + length (cname c)) mod 4) 0"

lemma SdesChunk_write_emit [emit_simps]: "SdesChunk_write = (\<lambda>c. emit (SdesChunk_bytes c))"
  by (simp add: fun_eq_iff SdesChunk_write_def SdesChunk_bytes_def Let_def emit_simps)

lemma length_SdesChunk_bytes [simp]: "length (SdesChunk_bytes c) = ChunkSize c"
  by (simp add: SdesChunk_bytes_def ChunkSize_def Let_def)

lemma length_Sdes_body [simp]:
  "length (concat (map SdesChunk_bytes cs)) = sum_list (map ChunkSize cs)"
  by (induction cs) auto

lemma ChunkSize_dvd: "4 dvd ChunkSize c" "8 \<le> ChunkSize c" "ChunkSize c \<le> 10 + length (cname c)"
  unfolding ChunkSize_def Let_def by presburger+

lemma ChunkSizes_dvd: "4 dvd sum_list (map ChunkSize cs)"
  by (induction cs) (auto simp: ChunkSize_dvd)

lemma ChunkSizes_bound:
  "(\<forall>c \<in> set cs. length (cname c) \<le> 255) \<Longrightarrow> sum_list (map ChunkSize cs) \<le> 265 * length cs"
  by (induction cs) (auto intro!: add_mono order_trans [OF ChunkSize_dvd(3)])

lemma Sdes_items_safe:
  assumes "pos < stop" and "stop \<le> length bs" and "\<forall>n. found = Some n \<longrightarrow> length n \<le> 255"
  shows "returns (Sdes_items bs stop pos found)
    (\<lambda>(f, pos'). pos' \<le> stop \<and> (\<forall>n. f = Some n \<longrightarrow> length n \<le> 255))"
  using assms
proof (induction bs stop pos found rule: Sdes_items.induct)
  case (1 bs stop pos found)
  let ?P = "\<lambda>(f, pos'). pos' \<le> stop \<and> (\<forall>n :: byte list. f = Some n \<longrightarrow> length n \<le> 255)"
  let ?len = "unat (bs ! (pos + 1))"
  have t: "get_u8 bs pos = Some (bs ! pos)"
    using 1 by (intro get_u8_Some) simp
  consider "bs ! pos = kTerminatorTag \<or> stop \<le> pos + 1"
    | "bs ! pos \<noteq> kTerminatorTag" "pos + 1 < stop"
    using not_less by blast
  then show ?case
  proof cases
    case 1
    then show ?thesis
      using t \<open>pos < stop\<close> \<open>\<forall>n. found = Some n \<longrightarrow> length n \<le> 255\<close>
      by (subst Sdes_items.simps) auto
  next
    case 2
    then have l: "get_u8 bs (pos + 1) = Some (bs ! (pos + 1))"
      using \<open>stop \<le> length bs\<close> by (intro get_u8_Some) simp
    have byte: "?len \<le> 255"
      using unsigned_less [of "bs ! (pos + 1)", where 'a = nat] by simp
    have name: "slice bs (pos + 2) ?len = Some (take ?len (drop (pos + 2) bs))"
      if "\<not> stop < pos + 2 + ?len + 1"
      using that \<open>stop \<le> length bs\<close> by (intro slice_Some) simp
    have rec1: "returns (Sdes_items bs stop (pos + 2 + ?len) (Some (take ?len (drop (pos + 2) bs)))) ?P"
      if "\<not> stop < pos + 2 + ?len + 1" "bs ! pos = kCnameTag" "found = None"
      using that 2 l t byte \<open>stop \<le> length bs\<close> name
      by (intro "1.IH"(1) [of "bs ! pos" "bs ! (pos + 1)"]) auto
    have rec2: "returns (Sdes_items bs stop (pos + 2 + ?len) found) ?P"
      if "\<not> stop < pos + 2 + ?len + 1" "bs ! pos \<noteq> kCnameTag"
      using that 2 l t "1.prems" by (intro "1.IH"(2) [of "bs ! pos" "bs ! (pos + 1)"]) auto
    show ?thesis
      using 2 t l name rec1 rec2 by (subst Sdes_items.simps) simp
  qed
qed

lemma Sdes_chunks_safe:
  assumes "stop \<le> length bs" and "\<forall>c \<in> set cs. length (cname c) \<le> 255"
    and "len = kHeaderLength + sum_list (map ChunkSize cs)"
  shows "returns (Sdes_chunks n bs stop pos cs len) (\<lambda>(cs', len').
    length cs' \<le> length cs + n \<and> (\<forall>c \<in> set cs'. length (cname c) \<le> 255)
    \<and> len' = kHeaderLength + sum_list (map ChunkSize cs'))"
  using assms
proof (induction n arbitrary: pos cs len)
  case (Suc n)
  show ?case
  proof (cases "int stop - int pos < 8")
    case False
    then have pos: "pos + 4 < stop" by linarith
    have "get_be32 bs pos = Some (ReadBigEndian4 (take 4 (drop pos bs)))"
      using pos Suc.prems(1) by (intro fetch_Some) simp
    moreover have "returns (Sdes_items bs stop (pos + 4) None)
        (\<lambda>(f, pos'). pos' \<le> stop \<and> (\<forall>n. f = Some n \<longrightarrow> length n \<le> 255))"
      using pos Suc.prems(1) by (intro Sdes_items_safe) auto
    then obtain ok f pos' where "Sdes_items bs stop (pos + 4) None = Some (ok, (f, pos'))"
      "ok \<Longrightarrow> \<forall>n. f = Some n \<longrightarrow> length n \<le> 255"
      by (elim returnsE) auto
    ultimately show ?thesis
      using False Suc.prems
        Suc.IH [of cs len "pos' + (stop - pos') mod 4"]
        Suc.IH [of "cs @ [\<lparr>chunk_ssrc = ReadBigEndian4 (take 4 (drop pos bs)), cname = the f\<rparr>]"
          "len + ChunkSize \<lparr>chunk_ssrc = ReadBigEndian4 (take 4 (drop pos bs)), cname = the f\<rparr>"
          "pos' + (stop - pos') mod 4"]
      by (auto simp: Let_def split: option.split elim!: returnsE)
  qed simp
qed simp

lemma Sdes_items_bytes:
  assumes "length name \<le> 255" and "length pre + 3 + length name \<le> stop" and "pos = length pre"
    and "0 < k"
  shows "Sdes_items (pre @ [kCnameTag, of_nat (length name)] @ name @ replicate k 0 @ post) stop pos None
    = Some (True, (Some name, pos + 3 + length name))"
proof -
  let ?bs = "pre @ [kCnameTag, of_nat (length name)] @ name @ replicate k 0 @ post"
  have len: "unat (of_nat (length name) :: byte) = length name"
    using assms(1) by (simp add: unat_of_nat)
  obtain k' where k: "k = Suc k'" using assms(4) by (cases k) auto
  have reads: "get_u8 ?bs pos = Some kCnameTag" "get_u8 ?bs (pos + 1) = Some (of_nat (length name))"
    "slice ?bs (pos + 2) (length name) = Some name" "get_u8 ?bs (pos + 2 + length name) = Some 0"
    using assms(3) by (simp_all add: k wire_simps, simp add: slice_def)
  have "Sdes_items ?bs stop (pos + 2 + length name) (Some name)
      = Some (True, (Some name, pos + 3 + length name))"
    by (subst Sdes_items.simps) (simp only: reads(4), simp add: kTerminatorTag_def)
  moreover have "kCnameTag \<noteq> kTerminatorTag" by (simp add: kCnameTag_def kTerminatorTag_def)
  ultimately show ?thesis
    using assms(2,3) len reads(1-3) by (subst Sdes_items.simps) simp
qed

text \<open>Behind the terminator, the padding leads to the end of the chunk.\<close>

lemma ChunkSize_align:
  assumes "4 dvd r"
  shows "7 + length (cname c) + (ChunkSize c + r - (7 + length (cname c))) mod 4 = ChunkSize c"
proof -
  define pad where "pad = 4 - (6 + length (cname c)) mod 4"
  have pad: "1 \<le> pad" "pad \<le> 4" by (simp_all add: pad_def Suc_le_eq)
  have size: "ChunkSize c = 6 + length (cname c) + pad" by (simp add: ChunkSize_def pad_def)
  obtain k where "r = 4 * k" using assms by (auto elim: dvdE)
  then have "(ChunkSize c + r - (7 + length (cname c))) mod 4 = (pad - 1 + k * 4) mod 4"
    using pad(1) by (simp add: size mult.commute)
  also have "\<dots> = pad - 1"
    using pad by (cases pad) simp_all
  finally show ?thesis
    using pad(1) by (simp add: size)
qed

lemma Sdes_chunks_bytes:
  assumes "\<forall>c \<in> set cs. length (cname c) \<le> 255" and "pos = length pre"
    and "stop = length pre + sum_list (map ChunkSize cs)"
  shows "Sdes_chunks (length cs) (pre @ concat (map SdesChunk_bytes cs) @ rest) stop pos acc len
    = Some (True, (acc @ cs, len + sum_list (map ChunkSize cs)))"
  using assms
proof (induction cs arbitrary: pre pos acc len)
  case (Cons c cs)
  let ?bs = "pre @ SdesChunk_bytes c @ concat (map SdesChunk_bytes cs) @ rest"
  let ?R = "sum_list (map ChunkSize cs)"
  have sz: "7 + length (cname c) \<le> ChunkSize c" "8 \<le> ChunkSize c"
    unfolding ChunkSize_def Let_def by presburger+
  have ssrc: "get_be32 ?bs pos = Some (chunk_ssrc c)"
    using Cons.prems(2) by (simp add: SdesChunk_bytes_def wire_simps)
  have "Sdes_items ((pre @ put_be32 (chunk_ssrc c)) @ [kCnameTag, of_nat (length (cname c))] @ cname c
        @ replicate (4 - (6 + length (cname c)) mod 4) 0 @ (concat (map SdesChunk_bytes cs) @ rest))
      stop (pos + 4) None = Some (True, (Some (cname c), pos + 4 + 3 + length (cname c)))"
    using Cons.prems sz by (intro Sdes_items_bytes) auto
  then have items: "Sdes_items ?bs stop (pos + 4) None
      = Some (True, (Some (cname c), pos + (7 + length (cname c))))"
    by (simp add: SdesChunk_bytes_def add.assoc)
  have "stop - (pos + (7 + length (cname c))) = ChunkSize c + ?R - (7 + length (cname c))"
    using Cons.prems by simp
  then have align: "pos + (7 + length (cname c)) + (stop - (pos + (7 + length (cname c)))) mod 4
      = pos + ChunkSize c"
    using ChunkSize_align [OF ChunkSizes_dvd, of c cs] by simp
  have chunk: "\<lparr>chunk_ssrc = chunk_ssrc c, cname = cname c\<rparr> = c" by simp
  have "Sdes_chunks (length cs) ((pre @ SdesChunk_bytes c) @ concat (map SdesChunk_bytes cs) @ rest) stop
      (pos + ChunkSize c) (acc @ [c]) (len + ChunkSize c)
      = Some (True, ((acc @ [c]) @ cs, len + ChunkSize c + ?R))"
    using Cons.prems by (intro Cons.IH) auto
  moreover have "\<not> int stop - int pos < 8"
    using Cons.prems(2,3) sz(2) by simp
  ultimately show ?case
    using ssrc items by (simp add: align chunk)
qed simp

lemma Sdes_BlockLength_bounds:
  assumes "Sdes_wf p"
  shows "Sdes_BlockLength p = 4 + length (concat (map SdesChunk_bytes (chunks p)))"
    and "length (chunks p) < 32" and "sum_list (map ChunkSize (chunks p)) \<le> 262140"
  using assms ChunkSizes_bound [of "chunks p"]
  by (auto simp: Sdes_wf_def Sdes_BlockLength_def kHeaderLength_def kMaxNumberOfChunks_def)

text \<open>As in the jitter report, the sender ssrc is not part of the packet.\<close>

interpretation sdes: rtcp_codec Sdes_BlockLength Sdes_Create
  "\<lambda>h p. Sdes_Parse h (p\<lparr>sender_ssrc := 0\<rparr>)" "\<lambda>p. length (chunks p)" 202
  "\<lambda>p. concat (map SdesChunk_bytes (chunks p))" "\<lambda>p. Sdes_wf p \<and> sender_ssrc p = 0" "\<lambda>p. p" Sdes_wf
proof
  fix p
  assume wf: "Sdes_wf p \<and> sender_ssrc p = 0"
  then have wf': "Sdes_wf p" by simp
  note b = Sdes_BlockLength_bounds [OF wf']
  show "Sdes_Create p max_length cb w =
      (case reserve (Sdes_BlockLength p) max_length cb w of
         (False, w') \<Rightarrow> (False, w')
       | (True, w') \<Rightarrow> (True, emit (packet_bytes (\<lambda>p. length (chunks p)) 202 Sdes_BlockLength
           (\<lambda>p. concat (map SdesChunk_bytes (chunks p))) p) w'))" for max_length cb w
    by (simp add: Sdes_Create_def packet_bytes_def Let_def emit_simps b(1) split: prod.split bool.split)
  show "Sdes_BlockLength p = 4 + length (concat (map SdesChunk_bytes (chunks p)))"
    "length (chunks p) < 32 \<and> 4 dvd length (concat (map SdesChunk_bytes (chunks p)))
      \<and> length (concat (map SdesChunk_bytes (chunks p))) \<le> 262140"
    using b ChunkSizes_dvd by simp_all
  show "Sdes_Parse (header_for (length (chunks p)) 202 (concat (map SdesChunk_bytes (chunks p))) rest)
      (old\<lparr>sender_ssrc := 0\<rparr>) = Some (True, p)" for rest old
    using wf b(2) Sdes_chunks_bytes [of "chunks p" 0 "[]" _ rest "[]" kHeaderLength]
    by (simp add: Sdes_Parse_def unat_of_nat Sdes_wf_def)
next
  fix h :: CommonHeader and old
  assume h: "valid_header h" "unat (count_or_format h) < 32"
  show "returns (Sdes_Parse h (old\<lparr>sender_ssrc := 0\<rparr>)) Sdes_wf"
    using Sdes_chunks_safe [of "payload_size h" "payload h" "[]" kHeaderLength "unat (count_or_format h)" 0] h
    by (auto simp: Sdes_Parse_def valid_header_def Sdes_wf_def kMaxNumberOfChunks_def elim!: returnsE)
qed

lemma AddCName_wf:
  "Sdes_wf p \<Longrightarrow> length name \<le> 255 \<Longrightarrow> Sdes_wf (snd (AddCName ssrc name p))"
  by (auto simp: AddCName_def Sdes_wf_def Let_def)

subsection \<open>Properties\<close>

text \<open>
  Parsing arbitrary bytes as a source description, goodbye, application packet or loss
  notification terminates, never reads outside the receive buffer and establishes the class
  invariant; in particular a parsed source description knows the size it would be written
  with, even when chunks without a cname were dropped.
\<close>

lemma session_parsers_safe:
  assumes "size_bytes \<le> length buffer"
    and "CommonHeader_Parse buffer size_bytes h0 = Some (True, h)"
  shows "returns (Sdes_Parse h (s\<lparr>sender_ssrc := 0\<rparr>)) Sdes_wf \<and> returns (Bye_Parse h b) Bye_wf
    \<and> returns (App_Parse h a) App_wf \<and> returns (LossNotification_Parse h l) LossNotification_wf"
  using sdes.receive_safe [OF assms(2,1)] bye.receive_safe [OF assms(2,1)]
    app.receive_safe [OF assms(2,1)] loss.receive_safe [OF assms(2,1)] by blast

end
