(* ===== verification/Rtcp_Xr.thy ===== *)
theory Rtcp_Xr
  imports Rtcp_Reports
begin

text \<open>
  Extended reports (RFC 3611): \<open>rtcp_packet/rrtr\<close>, \<open>dlrr\<close>, \<open>target_bitrate\<close> and
  \<open>extended_reports\<close>, a packet made of typed blocks that carry their own length. Unknown
  blocks are skipped, duplicates are ignored or replace the earlier one.
\<close>

subsection \<open>\<open>Rrtr\<close>\<close>

record 'ntp Rrtr =
  rrtr_ntp :: 'ntp

definition Rrtr_kBlockLength :: nat where
  "Rrtr_kBlockLength = 2"

definition Rrtr_kLength :: nat where
  "Rrtr_kLength = 4 * (Rrtr_kBlockLength + 1)"

definition Rrtr_Parse :: "'ntp NtpOps \<Rightarrow> byte list \<Rightarrow> nat \<Rightarrow> 'ntp Rrtr option" where
  "Rrtr_Parse N buffer off = do {
     seconds \<leftarrow> get_be32 buffer (off + 4);
     fraction \<leftarrow> get_be32 buffer (off + 8);
     Some \<lparr>rrtr_ntp = NtpSet N seconds fraction\<rparr> }"

definition Rrtr_Create :: "'ntp NtpOps \<Rightarrow> 'ntp Rrtr \<Rightarrow> nat \<Rightarrow> wstate \<Rightarrow> wstate" where
  "Rrtr_Create N r base w =
     (let kReserved = 0 :: byte;
          w = put (base + 0) [4] w;
          w = put (base + 1) [kReserved] w;
          w = put (base + 2) (put_be16 (of_nat Rrtr_kBlockLength)) w;
          w = put (base + 4) (put_be32 (NtpSeconds N (rrtr_ntp r))) w
      in put (base + 8) (put_be32 (NtpFractions N (rrtr_ntp r))) w)"

subsection \<open>\<open>Dlrr\<close>\<close>

record ReceiveTimeInfo =
  rti_ssrc :: u32
  last_rr :: u32
  delay_since_last_rr :: u32

definition ReceiveTimeInfo_init :: ReceiveTimeInfo where
  "ReceiveTimeInfo_init = \<lparr>rti_ssrc = 0, last_rr = 0, delay_since_last_rr = 0\<rparr>"

definition ReceiveTimeInfo_read :: "byte list \<Rightarrow> nat \<Rightarrow> ReceiveTimeInfo \<Rightarrow> ReceiveTimeInfo option" where
  "ReceiveTimeInfo_read bs read_at b = do {
     ssrc \<leftarrow> get_be32 bs (read_at + 0);
     last \<leftarrow> get_be32 bs (read_at + 4);
     delay \<leftarrow> get_be32 bs (read_at + 8);
     Some (b\<lparr>rti_ssrc := ssrc, last_rr := last, delay_since_last_rr := delay\<rparr>) }"

definition Dlrr_kBlockHeaderLength :: nat where
  "Dlrr_kBlockHeaderLength = 4"

definition kSubBlockLength :: nat where
  "kSubBlockLength = 12"

text \<open>A \<open>Dlrr\<close> is its list of sub-blocks.\<close>

type_synonym Dlrr = "ReceiveTimeInfo list"

definition Dlrr_Parse :: "byte list \<Rightarrow> nat \<Rightarrow> u16 \<Rightarrow> Dlrr \<Rightarrow> (bool \<times> Dlrr) option" where
  "Dlrr_Parse bs off block_length_32bits d =
     (if unat block_length_32bits mod 3 \<noteq> 0 then Some (False, d)
      else do {
        let blocks_count = unat block_length_32bits div 3;
        subs \<leftarrow> parse_each ReceiveTimeInfo_read kSubBlockLength bs (off + Dlrr_kBlockHeaderLength)
          (resize blocks_count ReceiveTimeInfo_init d);
        Some (True, subs) })"

definition Dlrr_BlockLength :: "Dlrr \<Rightarrow> nat" where
  "Dlrr_BlockLength d =
     (if d = [] then 0 else Dlrr_kBlockHeaderLength + kSubBlockLength * length d)"

text \<open>\<open>cast16\<close> stands for \<open>rtc::dchecked_cast<uint16_t>\<close>, which is not part of the repository.\<close>

fun Dlrr_sub_blocks :: "Dlrr \<Rightarrow> nat \<Rightarrow> wstate \<Rightarrow> wstate" where
  "Dlrr_sub_blocks [] write_at w = w"
| "Dlrr_sub_blocks (b # d) write_at w =
     (let w = put (write_at + 0) (put_be32 (rti_ssrc b)) w;
          w = put (write_at + 4) (put_be32 (last_rr b)) w;
          w = put (write_at + 8) (put_be32 (delay_since_last_rr b)) w
      in Dlrr_sub_blocks d (write_at + kSubBlockLength) w)"

definition Dlrr_Create :: "(nat \<Rightarrow> u16) \<Rightarrow> Dlrr \<Rightarrow> nat \<Rightarrow> wstate \<Rightarrow> wstate" where
  "Dlrr_Create cast16 d base w =
     (if d = [] then w
      else let kReserved = 0 :: byte;
               w = put (base + 0) [5] w;
               w = put (base + 1) [kReserved] w;
               w = put (base + 2) (put_be16 (cast16 (3 * length d))) w
           in Dlrr_sub_blocks d (base + Dlrr_kBlockHeaderLength) w)"

subsection \<open>\<open>TargetBitrate\<close>\<close>

record BitrateItem =
  spatial_layer :: byte
  temporal_layer :: byte
  target_bitrate_kbps :: u32

type_synonym TargetBitrate = "BitrateItem list"

definition kTargetBitrateHeaderSizeBytes :: nat where
  "kTargetBitrateHeaderSizeBytes = 4"

definition kBitrateItemSizeBytes :: nat where
  "kBitrateItemSizeBytes = 4"

definition AddTargetBitrate :: "byte \<Rightarrow> byte \<Rightarrow> u32 \<Rightarrow> TargetBitrate \<Rightarrow> TargetBitrate" where
  "AddTargetBitrate spatial temporal kbps t =
     t @ [\<lparr>spatial_layer = spatial, temporal_layer = temporal, target_bitrate_kbps = kbps\<rparr>]"

primrec TargetBitrate_loop :: "nat \<Rightarrow> byte list \<Rightarrow> nat \<Rightarrow> TargetBitrate \<Rightarrow> TargetBitrate option" where
  "TargetBitrate_loop 0 block pos t = Some t"
| "TargetBitrate_loop (Suc n) block pos t = do {
     layers \<leftarrow> get_u8 block pos;
     bitrate_kbps \<leftarrow> get_be24 block (pos + 1);
     TargetBitrate_loop n block (pos + kBitrateItemSizeBytes)
       (AddTargetBitrate (drop_bit 4 layers AND 0x0F) (layers AND 0x0F) bitrate_kbps t) }"

definition TargetBitrate_Parse :: "byte list \<Rightarrow> nat \<Rightarrow> u16 \<Rightarrow> TargetBitrate option" where
  "TargetBitrate_Parse bs off block_length =
     (let payload_bytes = unat block_length * 4;
          num_items = payload_bytes div kBitrateItemSizeBytes
      in TargetBitrate_loop num_items bs (off + kTargetBitrateHeaderSizeBytes) [])"

definition TargetBitrate_BlockLength :: "TargetBitrate \<Rightarrow> nat" where
  "TargetBitrate_BlockLength t = kTargetBitrateHeaderSizeBytes + length t * kBitrateItemSizeBytes"

fun TargetBitrate_items :: "TargetBitrate \<Rightarrow> nat \<Rightarrow> wstate \<Rightarrow> wstate" where
  "TargetBitrate_items [] pos w = w"
| "TargetBitrate_items (item # t) pos w =
     (let w = put pos [push_bit 4 (spatial_layer item) OR temporal_layer item] w;
          w = put (pos + 1) (put_be24 (target_bitrate_kbps item)) w
      in TargetBitrate_items t (pos + kBitrateItemSizeBytes) w)"

definition TargetBitrate_Create :: "(nat \<Rightarrow> u16) \<Rightarrow> TargetBitrate \<Rightarrow> nat \<Rightarrow> wstate \<Rightarrow> wstate" where
  "TargetBitrate_Create cast16 t base w =
     (let w = put (base + 0) [42] w;
          w = put (base + 1) [0] w;
          block_length_words = cast16 (TargetBitrate_BlockLength t div 4 - 1);
          w = put (base + 2) (put_be16 block_length_words) w
      in TargetBitrate_items t (base + kTargetBitrateHeaderSizeBytes) w)"

subsection \<open>\<open>ExtendedReports\<close>\<close>

record 'ntp ExtendedReports = RtcpPacket +
  rrtr_block :: "'ntp Rrtr option"
  dlrr_block :: Dlrr
  target_bitrate :: "TargetBitrate option"

definition kMaxNumberOfDlrrItems :: nat where
  "kMaxNumberOfDlrrItems = 50"

definition kXrBaseLength :: nat where
  "kXrBaseLength = 4"

definition kBlockHeaderSizeBytes :: nat where
  "kBlockHeaderSizeBytes = 4"

definition ParseRrtrBlock :: "'ntp NtpOps \<Rightarrow> byte list \<Rightarrow> nat \<Rightarrow> u16 \<Rightarrow> 'ntp ExtendedReports
    \<Rightarrow> 'ntp ExtendedReports option" where
  "ParseRrtrBlock N bs block block_length p =
     (if unat block_length \<noteq> Rrtr_kBlockLength then Some p
      else if rrtr_block p \<noteq> None then Some p
      else do { r \<leftarrow> Rrtr_Parse N bs block; Some (p\<lparr>rrtr_block := Some r\<rparr>) })"

definition ParseDlrrBlock :: "byte list \<Rightarrow> nat \<Rightarrow> u16 \<Rightarrow> 'ntp ExtendedReports
    \<Rightarrow> 'ntp ExtendedReports option" where
  "ParseDlrrBlock bs block block_length p =
     (if dlrr_block p \<noteq> [] then Some p
      else do {
        (_, d) \<leftarrow> Dlrr_Parse bs block block_length (dlrr_block p);
        Some (p\<lparr>dlrr_block := d\<rparr>) })"

definition ParseTargetBitrateBlock :: "byte list \<Rightarrow> nat \<Rightarrow> u16 \<Rightarrow> 'ntp ExtendedReports
    \<Rightarrow> 'ntp ExtendedReports option" where
  "ParseTargetBitrateBlock bs block block_length p = do {
     t \<leftarrow> TargetBitrate_Parse bs block block_length;
     Some (p\<lparr>target_bitrate := Some t\<rparr>) }"

definition ParseBlock :: "'ntp NtpOps \<Rightarrow> byte list \<Rightarrow> nat \<Rightarrow> byte \<Rightarrow> u16 \<Rightarrow> 'ntp ExtendedReports
    \<Rightarrow> 'ntp ExtendedReports option" where
  "ParseBlock N bs block block_type block_length p =
     (if block_type = 4 then ParseRrtrBlock N bs block block_length p
      else if block_type = 5 then ParseDlrrBlock bs block block_length p
      else if block_type = 42 then ParseTargetBitrateBlock bs block block_length p
      else Some p)"

text \<open>The loop over the blocks, from offset \<open>pos\<close> of the payload to its end \<open>stop\<close>.\<close>

function ParseBlocks :: "'ntp NtpOps \<Rightarrow> byte list \<Rightarrow> nat \<Rightarrow> nat \<Rightarrow> 'ntp ExtendedReports
    \<Rightarrow> (bool \<times> 'ntp ExtendedReports) option" where
  "ParseBlocks N bs stop pos p =
     (if pos + kBlockHeaderSizeBytes \<le> stop
      then do {
        block_type \<leftarrow> get_u8 bs pos;
        block_length \<leftarrow> get_be16 bs (pos + 2);
        let next_block = pos + kBlockHeaderSizeBytes + unat block_length * 4
        in if next_block > stop then Some (False, p)
           else do {
             p \<leftarrow> ParseBlock N bs pos block_type block_length p;
             ParseBlocks N bs stop next_block p } }
      else Some (True, p))"
  by pat_completeness auto
termination
  by (relation "measure (\<lambda>(_, _, stop, pos, _). stop - pos)") (auto simp: kBlockHeaderSizeBytes_def)

declare ParseBlocks.simps [simp del]

definition ExtendedReports_Parse :: "'ntp NtpOps \<Rightarrow> CommonHeader \<Rightarrow> 'ntp ExtendedReports
    \<Rightarrow> (bool \<times> 'ntp ExtendedReports) option" where
  "ExtendedReports_Parse N h p =
     (if payload_size h < kXrBaseLength then Some (False, p)
      else do {
        ssrc \<leftarrow> get_be32 (payload h) 0;
        ParseBlocks N (payload h) (payload_size h) kXrBaseLength
          (p\<lparr>sender_ssrc := ssrc, rrtr_block := None, dlrr_block := [], target_bitrate := None\<rparr>) })"

definition SetRrtr :: "'ntp Rrtr \<Rightarrow> 'ntp ExtendedReports \<Rightarrow> 'ntp ExtendedReports" where
  "SetRrtr r p = p\<lparr>rrtr_block := Some r\<rparr>"

definition AddDlrrItem :: "ReceiveTimeInfo \<Rightarrow> 'ntp ExtendedReports \<Rightarrow> bool \<times> 'ntp ExtendedReports" where
  "AddDlrrItem time_info p =
     (if length (dlrr_block p) \<ge> kMaxNumberOfDlrrItems then (False, p)
      else (True, p\<lparr>dlrr_block := dlrr_block p @ [time_info]\<rparr>))"

definition SetTargetBitrate :: "TargetBitrate \<Rightarrow> 'ntp ExtendedReports \<Rightarrow> 'ntp ExtendedReports" where
  "SetTargetBitrate bitrate p = p\<lparr>target_bitrate := Some bitrate\<rparr>"

definition RrtrLength :: "'ntp ExtendedReports \<Rightarrow> nat" where
  "RrtrLength p = (if rrtr_block p \<noteq> None then Rrtr_kLength else 0)"

definition TargetBitrateLength :: "'ntp ExtendedReports \<Rightarrow> nat" where
  "TargetBitrateLength p = (case target_bitrate p of Some t \<Rightarrow> TargetBitrate_BlockLength t | None \<Rightarrow> 0)"

definition ExtendedReports_BlockLength :: "'ntp ExtendedReports \<Rightarrow> nat" where
  "ExtendedReports_BlockLength p =
     kHeaderLength + kXrBaseLength + RrtrLength p + Dlrr_BlockLength (dlrr_block p) + TargetBitrateLength p"

definition ExtendedReports_Create :: "'ntp NtpOps \<Rightarrow> (nat \<Rightarrow> u16) \<Rightarrow> 'ntp ExtendedReports \<Rightarrow> nat \<Rightarrow> bool
    \<Rightarrow> wstate \<Rightarrow> bool \<times> wstate" where
  "ExtendedReports_Create N cast16 p max_length callback w =
     (case reserve (ExtendedReports_BlockLength p) max_length callback w of
        (False, w) \<Rightarrow> (False, w)
      | (True, w) \<Rightarrow>
          (let index_end = index w + ExtendedReports_BlockLength p;
               kReserved = 0;
               w = CreateHeader kReserved 207 (HeaderLength (ExtendedReports_BlockLength p)) False w;
               w = advance 4 (put (index w) (put_be32 (sender_ssrc p)) w);
               w = (case rrtr_block p of None \<Rightarrow> w
                    | Some r \<Rightarrow> advance Rrtr_kLength (Rrtr_Create N r (index w) w));
               w = (if dlrr_block p = [] then w
                    else advance (Dlrr_BlockLength (dlrr_block p))
                           (Dlrr_Create cast16 (dlrr_block p) (index w) w));
               w = (case target_bitrate p of None \<Rightarrow> w
                    | Some t \<Rightarrow> advance (TargetBitrate_BlockLength t)
                           (TargetBitrate_Create cast16 t (index w) w))
           in (True, rtc_check (index w = index_end) w)))"

subsection \<open>Encodings\<close>

definition Rrtr_bytes :: "'ntp NtpOps \<Rightarrow> 'ntp Rrtr \<Rightarrow> byte list" where
  "Rrtr_bytes N r = [4, 0] @ put_be16 2 @ put_be32 (NtpSeconds N (rrtr_ntp r))
     @ put_be32 (NtpFractions N (rrtr_ntp r))"

definition ReceiveTimeInfo_bytes :: "ReceiveTimeInfo \<Rightarrow> byte list" where
  "ReceiveTimeInfo_bytes b = put_be32 (rti_ssrc b) @ put_be32 (last_rr b) @ put_be32 (delay_since_last_rr b)"

definition Dlrr_bytes :: "Dlrr \<Rightarrow> byte list" where
  "Dlrr_bytes d = (if d = [] then []
     else [5, 0] @ put_be16 (of_nat (3 * length d)) @ concat (map ReceiveTimeInfo_bytes d))"

definition BitrateItem_bytes :: "BitrateItem \<Rightarrow> byte list" where
  "BitrateItem_bytes i = [push_bit 4 (spatial_layer i) OR temporal_layer i] @ put_be24 (target_bitrate_kbps i)"

definition TargetBitrate_bytes :: "TargetBitrate \<Rightarrow> byte list" where
  "TargetBitrate_bytes t = [42, 0] @ put_be16 (of_nat (length t)) @ concat (map BitrateItem_bytes t)"

definition ExtendedReports_body :: "'ntp NtpOps \<Rightarrow> 'ntp ExtendedReports \<Rightarrow> byte list" where
  "ExtendedReports_body N p = put_be32 (sender_ssrc p)
     @ (case rrtr_block p of None \<Rightarrow> [] | Some r \<Rightarrow> Rrtr_bytes N r)
     @ Dlrr_bytes (dlrr_block p)
     @ (case target_bitrate p of None \<Rightarrow> [] | Some t \<Rightarrow> TargetBitrate_bytes t)"

definition BitrateItem_wf :: "BitrateItem \<Rightarrow> bool" where
  "BitrateItem_wf i \<longleftrightarrow> unat (spatial_layer i) < 2 ^ 4 \<and> unat (temporal_layer i) < 2 ^ 4
     \<and> unat (target_bitrate_kbps i) < 2 ^ 24"

text \<open>Each block fits its 16-bit length field, and the packet its own.\<close>

definition ExtendedReports_wf :: "'ntp ExtendedReports \<Rightarrow> bool" where
  "ExtendedReports_wf p \<longleftrightarrow> 3 * length (dlrr_block p) < 65536
     \<and> (\<forall>t. target_bitrate p = Some t \<longrightarrow> length t < 65536 \<and> (\<forall>i \<in> set t. BitrateItem_wf i))
     \<and> ExtendedReports_BlockLength p \<le> 262144"

definition cast16_law :: "(nat \<Rightarrow> u16) \<Rightarrow> bool" where
  "cast16_law cast16 \<longleftrightarrow> (\<forall>n < 65536. cast16 n = of_nat n)"

lemmas xr_consts = Rrtr_kBlockLength_def Rrtr_kLength_def Dlrr_kBlockHeaderLength_def kSubBlockLength_def
  kTargetBitrateHeaderSizeBytes_def kBitrateItemSizeBytes_def kXrBaseLength_def kBlockHeaderSizeBytes_def
  kHeaderLength_def HeaderLength_def

interpretation dlrr_item: item_codec ReceiveTimeInfo_bytes ReceiveTimeInfo_read 12 "\<lambda>_. True"
proof
  show "ReceiveTimeInfo_read (pre @ ReceiveTimeInfo_bytes x @ post) (length pre) old = Some x"
    for x pre post old
    by (simp add: ReceiveTimeInfo_bytes_def ReceiveTimeInfo_read_def wire_simps)
qed (simp_all add: ReceiveTimeInfo_bytes_def ReceiveTimeInfo_read_def fetch_Some)

lemma BitrateItem_fields:
  assumes "unat (s :: byte) < 2 ^ 4" and "unat (t :: byte) < 2 ^ 4"
    and b: "b = push_bit 4 s OR t"
  shows "drop_bit 4 b AND 0x0F = s" and "b AND 0x0F = t"
proof -
  note sb = bit_small_word [OF assms(1)] and tb = bit_small_word [OF assms(2)]
  have low: "x AND 0x0F = take_bit 4 x" for x :: byte
    by (simp add: take_bit_eq_mask mask_eq_exp_minus_1)
  show "drop_bit 4 b AND 0x0F = s" "b AND 0x0F = t"
    unfolding low by (rule bit_word_eqI; auto simp: b bit_simps dest: sb tb)+
qed

lemma length_BitrateItem_bytes [simp]: "length (BitrateItem_bytes i) = 4"
  by (simp add: BitrateItem_bytes_def)

lemma length_BitrateItems [simp]: "length (concat (map BitrateItem_bytes t)) = 4 * length t"
  by (induction t) auto

lemma length_xr_bytes [simp]:
  "length (Rrtr_bytes N r) = 12" "length (Dlrr_bytes d) = Dlrr_BlockLength d"
  "length (TargetBitrate_bytes t) = TargetBitrate_BlockLength t"
  by (simp_all add: Rrtr_bytes_def Dlrr_bytes_def TargetBitrate_bytes_def Dlrr_BlockLength_def
      TargetBitrate_BlockLength_def xr_consts dlrr_item.length_concat_enc)

lemma length_ExtendedReports_body:
  "ExtendedReports_BlockLength p = 4 + length (ExtendedReports_body N p)"
  "4 dvd length (ExtendedReports_body N p)"
  by (auto simp: ExtendedReports_BlockLength_def ExtendedReports_body_def RrtrLength_def
      TargetBitrateLength_def TargetBitrate_BlockLength_def Dlrr_BlockLength_def xr_consts
      split: option.split)

lemma Dlrr_sub_blocks_put:
  "at = pos + length a \<Longrightarrow> Dlrr_sub_blocks d at (put pos a w) = put pos (a @ concat (map ReceiveTimeInfo_bytes d)) w"
proof (induction d arbitrary: a at)
  case (Cons b d)
  then show ?case
    using Cons.IH [of "at + 12" "a @ ReceiveTimeInfo_bytes b"]
    by (simp add: emit_simps Let_def ReceiveTimeInfo_bytes_def kSubBlockLength_def)
qed simp

lemma TargetBitrate_items_put:
  "at = pos + length a \<Longrightarrow> TargetBitrate_items t at (put pos a w) = put pos (a @ concat (map BitrateItem_bytes t)) w"
proof (induction t arbitrary: a at)
  case (Cons i t)
  then show ?case
    using Cons.IH [of "at + 4" "a @ BitrateItem_bytes i"]
    by (simp add: emit_simps Let_def BitrateItem_bytes_def kBitrateItemSizeBytes_def)
qed simp

lemma xr_Create_put:
  "Rrtr_Create N r base w = put base (Rrtr_bytes N r) w"
  "cast16_law cast16 \<Longrightarrow> 3 * length d < 65536 \<Longrightarrow> d \<noteq> [] \<Longrightarrow>
     Dlrr_Create cast16 d base w = put base (Dlrr_bytes d) w"
  "cast16_law cast16 \<Longrightarrow> length t < 65536 \<Longrightarrow>
     TargetBitrate_Create cast16 t base w = put base (TargetBitrate_bytes t) w"
  by (simp_all add: Rrtr_Create_def Rrtr_bytes_def Dlrr_Create_def Dlrr_bytes_def TargetBitrate_Create_def
      TargetBitrate_bytes_def TargetBitrate_BlockLength_def xr_consts emit_simps Let_def cast16_law_def
      Dlrr_sub_blocks_put TargetBitrate_items_put)

lemma ExtendedReports_Create_emit:
  assumes "ExtendedReports_wf p" and "cast16_law cast16"
  shows "ExtendedReports_Create N cast16 p max_length cb w =
      (case reserve (ExtendedReports_BlockLength p) max_length cb w of
         (False, w') \<Rightarrow> (False, w')
       | (True, w') \<Rightarrow> (True, emit (packet_bytes (\<lambda>_. 0) 207 ExtendedReports_BlockLength
           (ExtendedReports_body N) p) w'))"
proof -
  have d: "3 * length (dlrr_block p) < 65536" and t: "\<forall>t. target_bitrate p = Some t \<longrightarrow> length t < 65536"
    using assms(1) by (auto simp: ExtendedReports_wf_def)
  have nil: "Dlrr_BlockLength [] = 0" "Dlrr_bytes [] = []"
    by (simp_all add: Dlrr_BlockLength_def Dlrr_bytes_def)
  note defs = ExtendedReports_Create_def ExtendedReports_body_def packet_bytes_def Let_def emit_simps
    ExtendedReports_BlockLength_def RrtrLength_def TargetBitrateLength_def xr_consts
  show ?thesis
    using d t assms(2)
    by (cases "rrtr_block p"; cases "dlrr_block p = []"; cases "target_bitrate p")
      (simp_all add: defs xr_Create_put nil split: prod.split bool.split)
qed

subsection \<open>Parsing what was written\<close>

lemma Rrtr_Parse_bytes:
  assumes "ntp_halves N"
  shows "Rrtr_Parse N (pre @ Rrtr_bytes N r @ post) (length pre) = Some r"
  using assms by (simp add: Rrtr_Parse_def Rrtr_bytes_def wire_simps ntp_halves_def)

lemma Dlrr_Parse_bytes:
  assumes "d \<noteq> []" and "3 * length d < 65536"
  shows "Dlrr_Parse (pre @ Dlrr_bytes d @ post) (length pre) (of_nat (3 * length d)) old = Some (True, d)"
proof -
  have "unat (of_nat (3 * length d) :: u16) = 3 * length d"
    using assms(2) by (simp only: unat_of_nat) simp
  moreover have "parse_each ReceiveTimeInfo_read 12 ((pre @ [5, 0] @ put_be16 (of_nat (3 * length d)))
      @ concat (map ReceiveTimeInfo_bytes d) @ post) (length pre + 4)
      (resize (length d) ReceiveTimeInfo_init olds) = Some d" for olds
    by (rule dlrr_item.parse_each_enc_at) auto
  ultimately show ?thesis
    using assms(1) by (simp add: Dlrr_Parse_def Dlrr_bytes_def xr_consts)
qed

lemma TargetBitrate_loop_bytes:
  assumes "\<forall>i \<in> set t. BitrateItem_wf i" and "pos = length pre"
  shows "TargetBitrate_loop (length t) (pre @ concat (map BitrateItem_bytes t) @ post) pos acc = Some (acc @ t)"
  using assms
proof (induction t arbitrary: pre pos acc)
  case (Cons i t)
  have wf: "BitrateItem_wf i" using Cons.prems by simp
  then have kbps: "take_bit 24 (target_bitrate_kbps i) = target_bitrate_kbps i"
    by (simp add: BitrateItem_wf_def word_unat_eq_iff unsigned_take_bit_eq take_bit_nat_eq_self)
  let ?bs = "pre @ BitrateItem_bytes i @ concat (map BitrateItem_bytes t) @ post"
  let ?b = "push_bit 4 (spatial_layer i) OR temporal_layer i"
  have "unat (spatial_layer i) < 2 ^ 4" "unat (temporal_layer i) < 2 ^ 4"
    using wf by (simp_all add: BitrateItem_wf_def)
  note layers = BitrateItem_fields [OF this refl]
  have add: "AddTargetBitrate (drop_bit 4 ?b AND 0x0F) (?b AND 0x0F) (target_bitrate_kbps i) acc = acc @ [i]"
    unfolding layers by (simp add: AddTargetBitrate_def)
  have reads: "get_u8 ?bs pos = Some ?b" "get_be24 ?bs (pos + 1) = Some (target_bitrate_kbps i)"
    using Cons.prems(2) kbps by (simp_all add: BitrateItem_bytes_def wire_simps)
  have "TargetBitrate_loop (length t) ((pre @ BitrateItem_bytes i) @ concat (map BitrateItem_bytes t) @ post)
      (pos + 4) (acc @ [i]) = Some ((acc @ [i]) @ t)"
    using Cons.prems by (intro Cons.IH) auto
  then show ?case
    by (simp only: list.size TargetBitrate_loop.simps list.map concat.simps append_assoc reads bind.bind_lunit
        add kBitrateItemSizeBytes_def add_0_right add_Suc_right append_Cons append_Nil)
qed simp

lemma ParseBlocks_step:
  assumes "get_u8 bs pos = Some ty" and "get_be16 bs (pos + 2) = Some l"
    and "ParseBlock N bs pos ty l p = Some p'" and "pos + 4 + unat l * 4 = next_block"
    and "next_block \<le> stop"
  shows "ParseBlocks N bs stop pos p = ParseBlocks N bs stop next_block p'"
  using assms by (simp add: ParseBlocks.simps [of N bs stop pos p] kBlockHeaderSizeBytes_def)

lemma ParseBlocks_rrtr:
  assumes "ntp_halves N" and "rrtr_block q = None" and "pos = length pre" and "pos + 12 \<le> stop"
  shows "ParseBlocks N (pre @ Rrtr_bytes N r @ post) stop pos q =
    ParseBlocks N (pre @ Rrtr_bytes N r @ post) stop (pos + 12) (q\<lparr>rrtr_block := Some r\<rparr>)"
proof -
  let ?bs = "pre @ Rrtr_bytes N r @ post"
  have "get_u8 ?bs pos = Some 4" "get_be16 ?bs (pos + 2) = Some 2"
    using assms(3) by (simp_all add: Rrtr_bytes_def wire_simps)
  moreover have "ParseBlock N ?bs pos 4 2 q = Some (q\<lparr>rrtr_block := Some r\<rparr>)"
    using assms(2,3) Rrtr_Parse_bytes [OF assms(1)] by (simp add: ParseBlock_def ParseRrtrBlock_def xr_consts)
  ultimately show ?thesis
    by (rule ParseBlocks_step) (use assms(4) in simp_all)
qed

lemma ParseBlocks_dlrr:
  assumes "d \<noteq> []" and "3 * length d < 65536" and "dlrr_block q = []" and "pos = length pre"
    and "pos + Dlrr_BlockLength d \<le> stop"
  shows "ParseBlocks N (pre @ Dlrr_bytes d @ post) stop pos q =
    ParseBlocks N (pre @ Dlrr_bytes d @ post) stop (pos + Dlrr_BlockLength d) (q\<lparr>dlrr_block := d\<rparr>)"
proof -
  let ?bs = "pre @ Dlrr_bytes d @ post"
  define l where "l = (of_nat (3 * length d) :: u16)"
  have len: "unat l = 3 * length d"
    using assms(2) unfolding l_def by (simp only: unat_of_nat) simp
  have "get_u8 ?bs pos = Some 5" "get_be16 ?bs (pos + 2) = Some l"
    using assms(1,4) by (simp_all add: Dlrr_bytes_def wire_simps l_def)
  moreover have "ParseBlock N ?bs pos 5 l q = Some (q\<lparr>dlrr_block := d\<rparr>)"
    using assms(3,4) Dlrr_Parse_bytes [OF assms(1,2), folded l_def]
    by (simp add: ParseBlock_def ParseDlrrBlock_def)
  moreover have "pos + 4 + unat l * 4 = pos + Dlrr_BlockLength d"
    unfolding len using assms(1) by (simp add: Dlrr_BlockLength_def xr_consts)
  ultimately show ?thesis
    by (rule ParseBlocks_step) (rule assms(5))
qed

lemma ParseBlocks_target:
  assumes "length t < 65536" and "\<forall>i \<in> set t. BitrateItem_wf i" and "pos = length pre"
    and "pos + TargetBitrate_BlockLength t \<le> stop"
  shows "ParseBlocks N (pre @ TargetBitrate_bytes t @ post) stop pos q =
    ParseBlocks N (pre @ TargetBitrate_bytes t @ post) stop (pos + TargetBitrate_BlockLength t)
      (q\<lparr>target_bitrate := Some t\<rparr>)"
proof -
  let ?bs = "pre @ TargetBitrate_bytes t @ post" and ?l = "of_nat (length t) :: u16"
  have len: "unat ?l = length t"
    using assms(1) by (simp add: unat_of_nat)
  have "get_u8 ?bs pos = Some 42" "get_be16 ?bs (pos + 2) = Some ?l"
    using assms(3) by (simp_all add: TargetBitrate_bytes_def wire_simps)
  moreover have "TargetBitrate_loop (length t) ((pre @ [42, 0] @ put_be16 ?l)
      @ concat (map BitrateItem_bytes t) @ post) (pos + 4) [] = Some ([] @ t)"
    using assms(2,3) by (intro TargetBitrate_loop_bytes) auto
  then have "ParseBlock N ?bs pos 42 ?l q = Some (q\<lparr>target_bitrate := Some t\<rparr>)"
    by (simp add: ParseBlock_def ParseTargetBitrateBlock_def TargetBitrate_Parse_def xr_consts len
        TargetBitrate_bytes_def)
  moreover have "pos + 4 + unat ?l * 4 = pos + TargetBitrate_BlockLength t"
    unfolding len by (simp add: TargetBitrate_BlockLength_def xr_consts)
  ultimately show ?thesis
    by (rule ParseBlocks_step) (rule assms(4))
qed

lemma ParseBlocks_end: "ParseBlocks N bs stop stop q = Some (True, q)"
  by (simp add: ParseBlocks.simps [of N bs stop stop] kBlockHeaderSizeBytes_def)

lemma ExtendedReports_Parse_body:
  assumes wf: "ExtendedReports_wf p" and N: "ntp_halves N"
  shows "ExtendedReports_Parse N (header_for 0 207 (ExtendedReports_body N p) rest) old = Some (True, p)"
proof -
  define S where "S = put_be32 (sender_ssrc p)"
  define R where "R = (case rrtr_block p of None \<Rightarrow> [] | Some r \<Rightarrow> Rrtr_bytes N r)"
  define D where "D = Dlrr_bytes (dlrr_block p)"
  define T where "T = (case target_bitrate p of None \<Rightarrow> [] | Some t \<Rightarrow> TargetBitrate_bytes t)"
  define q :: "'a ExtendedReports" where "q = \<lparr>sender_ssrc = sender_ssrc p, rrtr_block = None,
    dlrr_block = [], target_bitrate = None\<rparr>"
  have q: "old\<lparr>sender_ssrc := sender_ssrc p, rrtr_block := None, dlrr_block := [],
      target_bitrate := None\<rparr> = q"
    by (cases old) (simp add: q_def)
  let ?bs = "S @ R @ D @ T @ rest" and ?stop = "4 + length R + length D + length T"
  have wfs: "3 * length (dlrr_block p) < 65536" "\<And>t. target_bitrate p = Some t \<Longrightarrow> length t < 65536"
    "\<And>t. target_bitrate p = Some t \<Longrightarrow> \<forall>i \<in> set t. BitrateItem_wf i"
    using wf by (auto simp: ExtendedReports_wf_def)
  have 1: "ParseBlocks N ?bs ?stop 4 q = ParseBlocks N ?bs ?stop (4 + length R) (q\<lparr>rrtr_block := rrtr_block p\<rparr>)"
  proof (cases "rrtr_block p")
    case None
    then show ?thesis by (simp add: R_def q_def)
  next
    case (Some r)
    then show ?thesis
      using ParseBlocks_rrtr [OF N, of q 4 S ?stop r "D @ T @ rest"] by (simp add: R_def S_def q_def)
  qed
  let ?q1 = "q\<lparr>rrtr_block := rrtr_block p\<rparr>"
  have 2: "ParseBlocks N ?bs ?stop (4 + length R) ?q1
      = ParseBlocks N ?bs ?stop (4 + length R + length D) (?q1\<lparr>dlrr_block := dlrr_block p\<rparr>)"
  proof (cases "dlrr_block p = []")
    case True
    then show ?thesis by (simp add: D_def q_def Dlrr_bytes_def)
  next
    case False
    then show ?thesis
      using ParseBlocks_dlrr [OF False wfs(1), of ?q1 "4 + length R" "S @ R" ?stop N "T @ rest"]
      by (simp add: D_def S_def q_def)
  qed
  let ?q2 = "?q1\<lparr>dlrr_block := dlrr_block p\<rparr>"
  have 3: "ParseBlocks N ?bs ?stop (4 + length R + length D) ?q2
      = ParseBlocks N ?bs ?stop ?stop (?q2\<lparr>target_bitrate := target_bitrate p\<rparr>)"
  proof (cases "target_bitrate p")
    case None
    then show ?thesis by (simp add: T_def q_def)
  next
    case (Some t)
    then show ?thesis
      using ParseBlocks_target [OF wfs(2,3), of t "4 + length R + length D" "S @ R @ D" ?stop N rest ?q2]
      by (simp add: T_def S_def)
  qed
  have "?q2\<lparr>target_bitrate := target_bitrate p\<rparr> = p"
    by (simp add: q_def)
  then have "ParseBlocks N ?bs ?stop 4 q = Some (True, p)"
    using 1 2 3 ParseBlocks_end by simp
  moreover have "ExtendedReports_body N p = S @ R @ D @ T"
    by (simp add: ExtendedReports_body_def S_def R_def D_def T_def)
  ultimately show ?thesis
    by (simp add: ExtendedReports_Parse_def kXrBaseLength_def q S_def wire_simps add.assoc)
qed

subsection \<open>Parsing anything\<close>

text \<open>The blocks kept so far take no more room than the bytes consumed.\<close>

definition xr_inv :: "'ntp ExtendedReports \<Rightarrow> nat \<Rightarrow> bool" where
  "xr_inv p pos \<longleftrightarrow> 3 * length (dlrr_block p) < 65536
     \<and> (\<forall>t. target_bitrate p = Some t \<longrightarrow> length t < 65536 \<and> (\<forall>i \<in> set t. BitrateItem_wf i))
     \<and> ExtendedReports_BlockLength p \<le> pos + 4"

lemma read_be24_bound: "unat (InternalReadBigEndian 3 bs :: u32) < 2 ^ 24"
proof -
  have "take_bit 24 (InternalReadBigEndian 3 bs :: u32) = InternalReadBigEndian 3 bs"
    by (rule bit_word_eqI)
      (auto simp: InternalReadBigEndian_def upt_3 bit_simps dest: bit_imp_le_length)
  then show ?thesis
    using take_bit_nat_less_exp [of 24 "unat (InternalReadBigEndian 3 bs :: u32)"]
    by (metis unsigned_take_bit_eq)
qed

lemma unat_and_0F: "unat (b AND 0x0F :: byte) < 2 ^ 4"
proof -
  have "unat (b AND 0x0F) \<le> unat (0x0F :: byte)"
    by (rule word_and_le1 [THEN word_le_nat_alt [THEN iffD1]])
  then show ?thesis by simp
qed

lemma TargetBitrate_loop_safe:
  assumes "pos + 4 * n \<le> length bs" and "\<forall>i \<in> set acc. BitrateItem_wf i"
  shows "\<exists>t. TargetBitrate_loop n bs pos acc = Some t \<and> length t = length acc + n
    \<and> (\<forall>i \<in> set t. BitrateItem_wf i)"
  using assms
proof (induction n arbitrary: pos acc)
  case (Suc n)
  let ?k = "InternalReadBigEndian 3 (take 3 (drop (pos + 1) bs)) :: u32"
  let ?acc = "AddTargetBitrate (drop_bit 4 (bs ! pos) AND 0x0F) (bs ! pos AND 0x0F) ?k acc"
  have reads: "get_u8 bs pos = Some (bs ! pos)" "get_be24 bs (pos + 1) = Some ?k"
    using Suc.prems(1) by (auto intro!: get_u8_Some fetch_Some)
  have "\<forall>i \<in> set ?acc. BitrateItem_wf i" "length ?acc = Suc (length acc)"
    using Suc.prems(2) unat_and_0F read_be24_bound
    by (auto simp: AddTargetBitrate_def BitrateItem_wf_def)
  then show ?case
    using Suc.IH [of "pos + 4" ?acc] Suc.prems(1) reads by (simp add: kBitrateItemSizeBytes_def)
qed simp

lemma ParseBlock_safe:
  assumes inv: "xr_inv p pos" and len: "pos + 4 + unat l * 4 \<le> length bs"
  shows "\<exists>p'. ParseBlock N bs pos ty l p = Some p' \<and> xr_inv p' (pos + 4 + unat l * 4)"
proof -
  note defs = ExtendedReports_BlockLength_def RrtrLength_def TargetBitrateLength_def
    TargetBitrate_BlockLength_def Dlrr_BlockLength_def xr_consts
  have l: "unat l \<le> 65535" by (rule unat_u16_bound)
  have keep: "xr_inv p (pos + 4 + unat l * 4)"
    using inv by (auto simp: xr_inv_def)
  have rrtr: "\<exists>p'. ParseRrtrBlock N bs pos l p = Some p' \<and> xr_inv p' (pos + 4 + unat l * 4)"
    using keep inv len
    by (auto simp: ParseRrtrBlock_def Rrtr_Parse_def fetch_Some xr_inv_def defs)
  have dlrr: "\<exists>p'. ParseDlrrBlock bs pos l p = Some p' \<and> xr_inv p' (pos + 4 + unat l * 4)"
  proof (cases "dlrr_block p \<noteq> [] \<or> unat l mod 3 \<noteq> 0")
    case True
    have "xr_inv (p\<lparr>dlrr_block := []\<rparr>) n = xr_inv p n" if "dlrr_block p = []" for n
      using that by (simp add: xr_inv_def ExtendedReports_BlockLength_def RrtrLength_def TargetBitrateLength_def)
    with True show ?thesis
      using keep by (auto simp: ParseDlrrBlock_def Dlrr_Parse_def)
  next
    case False
    have "pos + 4 + 12 * (unat l div 3) \<le> length bs"
      using len False by auto
    then obtain d where "parse_each ReceiveTimeInfo_read 12 bs (pos + 4)
        (resize (unat l div 3) ReceiveTimeInfo_init (dlrr_block p)) = Some d" "length d = unat l div 3"
      by (rule dlrr_item.parse_each_resize)
    then show ?thesis
      using False inv l by (auto simp: ParseDlrrBlock_def Dlrr_Parse_def xr_inv_def defs)
  qed
  have "\<exists>p'. ParseTargetBitrateBlock bs pos l p = Some p' \<and> xr_inv p' (pos + 4 + unat l * 4)"
    using TargetBitrate_loop_safe [of "pos + 4" "unat l" bs "[]"] len inv l
    by (auto simp: ParseTargetBitrateBlock_def TargetBitrate_Parse_def xr_inv_def defs mult.commute
        split: option.splits)
  with rrtr dlrr keep show ?thesis
    by (simp add: ParseBlock_def)
qed

lemma ParseBlocks_safe:
  assumes "xr_inv p pos" and "stop \<le> length bs" and "pos \<le> stop" and "stop \<le> 262140"
  shows "returns (ParseBlocks N bs stop pos p) ExtendedReports_wf"
  using assms
proof (induction N bs stop pos p rule: ParseBlocks.induct)
  case (1 N bs stop pos p)
  show ?case
  proof (cases "pos + 4 \<le> stop")
    case True
    let ?ty = "bs ! pos" and ?l = "ReadBigEndian2 (take 2 (drop (pos + 2) bs)) :: u16"
    let ?next = "pos + 4 + unat ?l * 4"
    have reads: "get_u8 bs pos = Some ?ty" "get_be16 bs (pos + 2) = Some ?l"
      using True "1.prems"(2) by (auto intro!: get_u8_Some fetch_Some)
    show ?thesis
    proof (cases "?next > stop")
      case True
      then show ?thesis
        using \<open>pos + 4 \<le> stop\<close> reads
        by (simp add: ParseBlocks.simps [of N bs stop pos p] kBlockHeaderSizeBytes_def)
    next
      case False
      then obtain p' where p': "ParseBlock N bs pos ?ty ?l p = Some p'" "xr_inv p' ?next"
        using ParseBlock_safe [of p pos ?l bs N ?ty] "1.prems" by auto
      then have "returns (ParseBlocks N bs stop ?next p') ExtendedReports_wf"
        using "1.IH" [OF _ reads refl] False True "1.prems"
        by (simp add: kBlockHeaderSizeBytes_def)
      then show ?thesis
        using p'(1) False True reads
        by (simp add: ParseBlocks.simps [of N bs stop pos p] kBlockHeaderSizeBytes_def)
    qed
  next
    case False
    then show ?thesis
      using "1.prems"
      by (auto simp: ParseBlocks.simps [of N bs stop pos p] kBlockHeaderSizeBytes_def xr_inv_def
          ExtendedReports_wf_def)
  qed
qed

text \<open>
  The external functions are parameters: the codec laws hold for every clock type whose
  halves determine it and every cast that is exact on 16-bit values.
\<close>

interpretation xr: rtcp_codec ExtendedReports_BlockLength
  "ExtendedReports_Create N cast16" "ExtendedReports_Parse N" "\<lambda>_. 0" 207 "ExtendedReports_body N"
  "\<lambda>p. ExtendedReports_wf p \<and> ntp_halves N \<and> cast16_law cast16" "\<lambda>p. p" ExtendedReports_wf
  for N :: "'ntp NtpOps" and cast16
proof
  fix p :: "'ntp ExtendedReports"
  assume "ExtendedReports_wf p \<and> ntp_halves N \<and> cast16_law cast16"
  then show "0 < (32 :: nat) \<and> 4 dvd length (ExtendedReports_body N p) \<and> length (ExtendedReports_body N p) \<le> 262140"
    using length_ExtendedReports_body(1) [of p N] length_ExtendedReports_body(2) [of N p]
    by (simp add: ExtendedReports_wf_def)
next
  fix h :: CommonHeader and old :: "'ntp ExtendedReports"
  assume h: "valid_header h" "payload_size h \<le> 262140"
  show "returns (ExtendedReports_Parse N h old) ExtendedReports_wf"
  proof (cases "payload_size h < 4")
    case False
    let ?q = "old\<lparr>sender_ssrc := ReadBigEndian4 (take 4 (payload h)), rrtr_block := None, dlrr_block := [],
      target_bitrate := None\<rparr>"
    have "xr_inv ?q 4"
      by (simp add: xr_inv_def ExtendedReports_BlockLength_def RrtrLength_def TargetBitrateLength_def
          Dlrr_BlockLength_def xr_consts)
    then have "returns (ParseBlocks N (payload h) (payload_size h) 4 ?q) ExtendedReports_wf"
      using h False by (intro ParseBlocks_safe) (auto simp: valid_header_def)
    then show ?thesis
      using False h by (simp add: ExtendedReports_Parse_def kXrBaseLength_def fetch_Some valid_header_def)
  qed (simp add: ExtendedReports_Parse_def kXrBaseLength_def)
qed (simp_all only: ExtendedReports_Create_emit ExtendedReports_Parse_body length_ExtendedReports_body)

subsection \<open>Properties\<close>

text \<open>
  Parsing arbitrary bytes as an extended report terminates and never reads outside the
  receive buffer, whatever block lengths, unknown or duplicate blocks it contains; a report
  that parses satisfies the class invariant and is no longer than the packet it came in, so
  it can be written again.
\<close>

lemma ExtendedReports_Parse_safe:
  assumes "size_bytes \<le> length buffer"
    and "CommonHeader_Parse buffer size_bytes h0 = Some (True, h)"
  shows "returns (ExtendedReports_Parse N h old) ExtendedReports_wf"
  using assms(2,1) by (rule xr.receive_safe)

end
