(* ===== verification/Rtcp_Status_Chunk.thy ===== *)
theory Rtcp_Status_Chunk
  imports Prelude
begin

text \<open>
  \<open>TransportFeedback::LastChunk\<close> of \<open>rtcp_packet/transport_feedback.cc\<close>: the packet status
  chunk under construction. It collects the delta sizes (0: not received, 1 or 2: bytes of
  the receive delta) that still fit one 16-bit chunk, and encodes them as a run length, a
  one-bit vector of 14 or a two-bit vector of 7 symbols. The abstract value of a chunk is the
  list \<open>symbols\<close> that \<open>AppendTo\<close> appends; every operation is specified on that list.
\<close>

subsection \<open>The class\<close>

text \<open>\<open>delta_sizes_\<close> is an array of 14 entries.\<close>

record LastChunk =
  delta_sizes :: "nat list"
  lc_size :: nat
  all_same :: bool
  has_large_delta :: bool

definition kMaxRunLengthCapacity :: nat where
  "kMaxRunLengthCapacity = 0x1fff"

definition kMaxOneBitCapacity :: nat where
  "kMaxOneBitCapacity = 14"

definition kMaxTwoBitCapacity :: nat where
  "kMaxTwoBitCapacity = 7"

definition kMaxVectorCapacity :: nat where
  "kMaxVectorCapacity = kMaxOneBitCapacity"

definition kLarge :: nat where
  "kLarge = 2"

definition LastChunk_Empty :: "LastChunk \<Rightarrow> bool" where
  "LastChunk_Empty c \<longleftrightarrow> lc_size c = 0"

definition LastChunk_Clear :: "LastChunk \<Rightarrow> LastChunk" where
  "LastChunk_Clear c = c\<lparr>lc_size := 0, all_same := True, has_large_delta := False\<rparr>"

definition CanAdd :: "nat \<Rightarrow> LastChunk \<Rightarrow> bool" where
  "CanAdd delta_size c \<longleftrightarrow>
     (if lc_size c < kMaxTwoBitCapacity then True
      else if lc_size c < kMaxOneBitCapacity \<and> \<not> has_large_delta c \<and> delta_size \<noteq> kLarge then True
      else if lc_size c < kMaxRunLengthCapacity \<and> all_same c \<and> delta_sizes c ! 0 = delta_size then True
      else False)"

definition LastChunk_Add :: "nat \<Rightarrow> LastChunk \<Rightarrow> LastChunk" where
  "LastChunk_Add delta_size c =
     (let c = (if lc_size c < kMaxVectorCapacity
               then c\<lparr>delta_sizes := (delta_sizes c)[lc_size c := delta_size]\<rparr> else c);
          c = c\<lparr>lc_size := lc_size c + 1\<rparr>;
          c = c\<lparr>all_same := all_same c \<and> delta_size = delta_sizes c ! 0\<rparr>
      in c\<lparr>has_large_delta := has_large_delta c \<or> delta_size = kLarge\<rparr>)"

definition EncodeOneBit :: "LastChunk \<Rightarrow> u16" where
  "EncodeOneBit c =
     fold (\<lambda>i chunk. chunk OR push_bit (kMaxOneBitCapacity - 1 - i) (of_nat (delta_sizes c ! i)))
       [0..<lc_size c] 0x8000"

definition DecodeOneBit :: "u16 \<Rightarrow> nat \<Rightarrow> LastChunk \<Rightarrow> LastChunk" where
  "DecodeOneBit chunk max_size c =
     (let size = min kMaxOneBitCapacity max_size
      in c\<lparr>lc_size := size, has_large_delta := False, all_same := False,
           delta_sizes := fold (\<lambda>i s. s[i := unat (drop_bit (kMaxOneBitCapacity - 1 - i) chunk AND 0x01)])
             [0..<size] (delta_sizes c)\<rparr>)"

definition EncodeTwoBit :: "nat \<Rightarrow> LastChunk \<Rightarrow> u16" where
  "EncodeTwoBit n c =
     fold (\<lambda>i chunk. chunk OR push_bit (2 * (kMaxTwoBitCapacity - 1 - i)) (of_nat (delta_sizes c ! i)))
       [0..<n] 0xc000"

definition DecodeTwoBit :: "u16 \<Rightarrow> nat \<Rightarrow> LastChunk \<Rightarrow> LastChunk" where
  "DecodeTwoBit chunk max_size c =
     (let size = min kMaxTwoBitCapacity max_size
      in c\<lparr>lc_size := size, has_large_delta := True, all_same := False,
           delta_sizes := fold (\<lambda>i s. s[i := unat (drop_bit (2 * (kMaxTwoBitCapacity - 1 - i)) chunk AND 0x03)])
             [0..<size] (delta_sizes c)\<rparr>)"

definition EncodeRunLength :: "LastChunk \<Rightarrow> u16" where
  "EncodeRunLength c = push_bit 13 (of_nat (delta_sizes c ! 0)) OR of_nat (lc_size c)"

definition DecodeRunLength :: "u16 \<Rightarrow> nat \<Rightarrow> LastChunk \<Rightarrow> LastChunk" where
  "DecodeRunLength chunk max_count c =
     (let size = min (unat (chunk AND 0x1fff)) max_count;
          delta_size = unat (drop_bit 13 chunk AND 0x03)
      in c\<lparr>lc_size := size, has_large_delta := (delta_size \<ge> kLarge), all_same := True,
           delta_sizes := fold (\<lambda>i s. s[i := delta_size]) [0..<min size kMaxVectorCapacity]
             (delta_sizes c)\<rparr>)"

text \<open>\<open>Emit\<close>: the loop that moves the remaining delta sizes to the front.\<close>

definition Emit_shift :: "LastChunk \<Rightarrow> LastChunk" where
  "Emit_shift c =
     fold (\<lambda>i c. let delta_size = delta_sizes c ! (kMaxTwoBitCapacity + i);
                     c = c\<lparr>delta_sizes := (delta_sizes c)[i := delta_size]\<rparr>;
                     c = c\<lparr>all_same := all_same c \<and> delta_size = delta_sizes c ! 0\<rparr>
                 in c\<lparr>has_large_delta := has_large_delta c \<or> delta_size = kLarge\<rparr>)
       [0..<lc_size c] c"

definition Emit :: "LastChunk \<Rightarrow> u16 \<times> LastChunk" where
  "Emit c =
     (if all_same c then (EncodeRunLength c, LastChunk_Clear c)
      else if lc_size c = kMaxOneBitCapacity then (EncodeOneBit c, LastChunk_Clear c)
      else (EncodeTwoBit kMaxTwoBitCapacity c,
            Emit_shift (c\<lparr>lc_size := lc_size c - kMaxTwoBitCapacity, all_same := True,
                          has_large_delta := False\<rparr>)))"

definition EncodeLast :: "LastChunk \<Rightarrow> u16" where
  "EncodeLast c =
     (if all_same c then EncodeRunLength c
      else if lc_size c \<le> kMaxTwoBitCapacity then EncodeTwoBit (lc_size c) c
      else EncodeOneBit c)"

text \<open>What \<open>AppendTo\<close> appends to its argument.\<close>

definition symbols :: "LastChunk \<Rightarrow> nat list" where
  "symbols c =
     (if all_same c then replicate (lc_size c) (delta_sizes c ! 0)
      else take (lc_size c) (delta_sizes c))"

definition AppendTo :: "LastChunk \<Rightarrow> nat list \<Rightarrow> nat list" where
  "AppendTo c deltas = deltas @ symbols c"

definition Decode :: "u16 \<Rightarrow> nat \<Rightarrow> LastChunk \<Rightarrow> LastChunk" where
  "Decode chunk max_size c =
     (if chunk AND 0x8000 = 0 then DecodeRunLength chunk max_size c
      else if chunk AND 0x4000 = 0 then DecodeOneBit chunk max_size c
      else DecodeTwoBit chunk max_size c)"

lemmas chunk_consts = kMaxRunLengthCapacity_def kMaxOneBitCapacity_def kMaxTwoBitCapacity_def
  kMaxVectorCapacity_def kLarge_def

subsection \<open>Invariants\<close>

text \<open>
  \<open>chunk_shape\<close> holds of every chunk, built or decoded. \<open>chunk_inv\<close> holds of the chunks built
  by \<open>Add\<close>: they can be encoded.
\<close>

definition chunk_shape :: "LastChunk \<Rightarrow> bool" where
  "chunk_shape c \<longleftrightarrow> length (delta_sizes c) = 14 \<and> (\<not> all_same c \<longrightarrow> lc_size c \<le> 14)"

definition chunk_inv :: "LastChunk \<Rightarrow> bool" where
  "chunk_inv c \<longleftrightarrow> chunk_shape c \<and> lc_size c \<le> 8191
     \<and> (\<forall>s \<in> set (symbols c). s \<le> 2) \<and> (2 \<in> set (symbols c) \<longrightarrow> has_large_delta c)
     \<and> (all_same c \<longrightarrow>
          take (min (lc_size c) 14) (delta_sizes c) = replicate (min (lc_size c) 14) (delta_sizes c ! 0))
     \<and> (\<not> all_same c \<and> 7 < lc_size c \<longrightarrow> \<not> has_large_delta c)"

lemma length_symbols: "chunk_shape c \<Longrightarrow> length (symbols c) = lc_size c"
  by (auto simp: chunk_shape_def symbols_def)

lemma symbols_prefix:
  assumes "chunk_inv c" and "lc_size c \<le> 14"
  shows "symbols c = take (lc_size c) (delta_sizes c)"
  using assms by (simp add: chunk_inv_def symbols_def)

lemma Clear_chunk:
  "chunk_shape c \<Longrightarrow> chunk_inv (LastChunk_Clear c)" "symbols (LastChunk_Clear c) = []"
  "length (delta_sizes c) = 14 \<Longrightarrow> chunk_inv (LastChunk_Clear c)"
  by (simp_all add: chunk_inv_def chunk_shape_def LastChunk_Clear_def symbols_def)

lemma take_update_snoc: "n < length s \<Longrightarrow> take (Suc n) (s[n := d]) = take n s @ [d]"
  by (simp add: take_Suc_conv_app_nth)

lemma Add_same:
  assumes "chunk_inv c" and "lc_size c < 14" and "all_same c"
    and "d = (delta_sizes c)[lc_size c := d] ! 0"
  shows "take (lc_size c) (delta_sizes c) @ [d] = replicate (Suc (lc_size c)) d"
proof (cases "lc_size c = 0")
  case False
  then have "delta_sizes c ! 0 = d"
    using assms(4) by simp
  moreover have "take (lc_size c) (delta_sizes c) = replicate (lc_size c) (delta_sizes c ! 0)"
    using assms(1-3) by (simp add: chunk_inv_def)
  ultimately show ?thesis
    by (simp add: replicate_append_same)
qed simp

lemma Add_symbols:
  assumes "chunk_inv c" and "CanAdd d c"
  shows "symbols (LastChunk_Add d c) = symbols c @ [d]"
proof (cases "lc_size c < 14")
  case True
  have len: "length (delta_sizes c) = 14"
    using assms(1) by (simp add: chunk_inv_def chunk_shape_def)
  let ?s = "(delta_sizes c)[lc_size c := d]"
  have "symbols (LastChunk_Add d c) = (if all_same c \<and> d = ?s ! 0
      then replicate (Suc (lc_size c)) (?s ! 0) else take (Suc (lc_size c)) ?s)"
    using True by (simp add: symbols_def LastChunk_Add_def chunk_consts del: replicate_Suc)
  also have "\<dots> = take (lc_size c) (delta_sizes c) @ [d]"
    using Add_same [OF assms(1) True, of d] take_update_snoc [of "lc_size c" "delta_sizes c" d] True len
    by (auto simp del: replicate_Suc)
  finally show ?thesis
    using symbols_prefix [OF assms(1)] True by simp
next
  case False
  then have "all_same c" "delta_sizes c ! 0 = d"
    using assms(2) by (simp_all add: CanAdd_def chunk_consts split: if_splits)
  with False show ?thesis
    by (simp add: symbols_def LastChunk_Add_def chunk_consts replicate_append_same)
qed

lemma Add_chunk_inv:
  assumes "chunk_inv c" and "CanAdd d c" and "d \<le> 2"
  shows "chunk_inv (LastChunk_Add d c)"
proof -
  let ?c = "LastChunk_Add d c"
  note sym = Add_symbols [OF assms(1,2)]
  have len: "length (delta_sizes c) = 14" and small: "\<not> all_same c \<longrightarrow> lc_size c \<le> 14"
    and large: "\<not> all_same c \<and> 7 < lc_size c \<longrightarrow> \<not> has_large_delta c"
    using assms(1) by (simp_all add: chunk_inv_def chunk_shape_def)
  have size: "lc_size ?c = Suc (lc_size c)" "has_large_delta ?c \<longleftrightarrow> has_large_delta c \<or> d = 2"
    "length (delta_sizes ?c) = 14"
    using len by (simp_all add: LastChunk_Add_def chunk_consts)
  have "\<not> all_same ?c \<longrightarrow> lc_size ?c \<le> 14 \<and> (7 < lc_size ?c \<longrightarrow> \<not> has_large_delta ?c)"
    using assms(2) small large
    by (auto simp: CanAdd_def LastChunk_Add_def chunk_consts split: if_splits)
  moreover have "lc_size ?c \<le> 8191"
    using assms(2) by (simp add: size CanAdd_def chunk_consts split: if_splits)
  moreover have "\<forall>s \<in> set (symbols ?c). s \<le> 2" "2 \<in> set (symbols ?c) \<longrightarrow> has_large_delta ?c"
    using assms(1,3) unfolding sym size(2) by (simp_all add: chunk_inv_def)
  moreover have "take (min (lc_size ?c) 14) (delta_sizes ?c) = replicate (min (lc_size ?c) 14) (delta_sizes ?c ! 0)"
    if same: "all_same ?c"
  proof (cases "lc_size c < 14")
    case True
    then have "symbols ?c = replicate (lc_size ?c) (delta_sizes ?c ! 0)"
      using same by (simp add: symbols_def)
    moreover have "symbols ?c = take (Suc (lc_size c)) (delta_sizes ?c)"
      using True len symbols_prefix [OF assms(1)] unfolding sym
      by (simp add: LastChunk_Add_def chunk_consts take_update_snoc)
    ultimately show ?thesis
      using True by (simp add: size)
  next
    case False
    then show ?thesis
      using same assms(1) by (simp add: LastChunk_Add_def chunk_consts chunk_inv_def)
  qed
  ultimately show ?thesis
    using size(3) by (simp add: chunk_inv_def chunk_shape_def)
qed

subsection \<open>The wire format of a chunk\<close>

text \<open>The symbols a 16-bit chunk denotes, up to \<open>max_size\<close> of them.\<close>

definition chunk_symbols :: "u16 \<Rightarrow> nat \<Rightarrow> nat list" where
  "chunk_symbols chunk max_size =
     (if chunk AND 0x8000 = 0
      then replicate (min (unat (chunk AND 0x1fff)) max_size) (unat (drop_bit 13 chunk AND 0x03))
      else if chunk AND 0x4000 = 0
      then map (\<lambda>i. unat (drop_bit (13 - i) chunk AND 0x01)) [0..<min 14 max_size]
      else map (\<lambda>i. unat (drop_bit (2 * (6 - i)) chunk AND 0x03)) [0..<min 7 max_size])"

lemma fold_update:
  "n \<le> length s \<Longrightarrow> fold (\<lambda>i s. s[i := f i]) [0..<n] s = map f [0..<n] @ drop n s"
proof (induction n)
  case (Suc n)
  then show ?case
    by (simp add: list_update_append Cons_nth_drop_Suc [symmetric] del: drop_Suc_Cons)
qed simp

lemma Decode_symbols:
  assumes "length (delta_sizes c) = 14"
  shows "symbols (Decode chunk max_size c) = chunk_symbols chunk max_size"
    and "chunk_shape (Decode chunk max_size c)"
proof -
  have "symbols (DecodeRunLength chunk max_size c)
      = replicate (min (unat (chunk AND 0x1fff)) max_size) (unat (drop_bit 13 chunk AND 0x03))"
    using assms by (cases "min (unat (chunk AND 0x1fff)) max_size")
      (simp_all add: symbols_def DecodeRunLength_def chunk_consts Let_def fold_update nth_append
        map_replicate_const del: upt_Suc)
  moreover have "symbols (DecodeOneBit chunk max_size c)
      = map (\<lambda>i. unat (drop_bit (13 - i) chunk AND 0x01)) [0..<min 14 max_size]"
    "symbols (DecodeTwoBit chunk max_size c)
      = map (\<lambda>i. unat (drop_bit (2 * (6 - i)) chunk AND 0x03)) [0..<min 7 max_size]"
    using assms by (simp_all add: DecodeOneBit_def DecodeTwoBit_def symbols_def chunk_consts Let_def fold_update)
  ultimately show "symbols (Decode chunk max_size c) = chunk_symbols chunk max_size"
    by (simp add: Decode_def chunk_symbols_def)
  show "chunk_shape (Decode chunk max_size c)"
    using assms
    by (auto simp: Decode_def chunk_shape_def DecodeRunLength_def DecodeOneBit_def DecodeTwoBit_def
        chunk_consts Let_def fold_update)
qed

text \<open>The bits of a vector chunk under construction.\<close>

lemma bit_pack:
  "bit (fold (\<lambda>i chunk. chunk OR push_bit (sh i) (of_nat (f i))) [0..<n] (c0 :: u16)) k \<longleftrightarrow>
     bit c0 k \<or> (\<exists>i < n. sh i \<le> k \<and> k < 16 \<and> bit (f i :: nat) (k - sh i))"
  by (induction n) (auto simp: bit_simps less_Suc_eq)

lemma bit_small_nat: "(x :: nat) < 2 ^ k \<Longrightarrow> bit x n \<Longrightarrow> n < k"
  by (metis bit_take_bit_iff take_bit_nat_eq_self)

lemma and_bits_u16:
  "(x :: u16) AND 0x01 = take_bit 1 x" "x AND 0x03 = take_bit 2 x" "x AND 0x1fff = take_bit 13 x"
  by (simp_all add: take_bit_eq_mask mask_eq_exp_minus_1)

lemma bit_chunk_tags:
  "bit (0x8000 :: u16) k \<longleftrightarrow> k = 15" "bit (0xc000 :: u16) k \<longleftrightarrow> k = 15 \<or> k = 14"
proof -
  have e: "(0x8000 :: u16) = 2 ^ 15" "(0xc000 :: u16) = 2 ^ 15 OR 2 ^ 14" by simp_all
  show "bit (0x8000 :: u16) k \<longleftrightarrow> k = 15" "bit (0xc000 :: u16) k \<longleftrightarrow> k = 15 \<or> k = 14"
    unfolding e bit_or_iff bit_exp_iff by auto
qed

lemma tag_zero: "(x :: u16) AND 0x8000 = 0 \<longleftrightarrow> \<not> bit x 15" "x AND 0x4000 = 0 \<longleftrightarrow> \<not> bit x 14"
proof -
  have "(0x8000 :: u16) = 2 ^ 15" "(0x4000 :: u16) = 2 ^ 14" by simp_all
  then show "x AND 0x8000 = 0 \<longleftrightarrow> \<not> bit x 15" "x AND 0x4000 = 0 \<longleftrightarrow> \<not> bit x 14"
    by (simp_all only: and_exp_eq_0_iff_not_bit)
qed

text \<open>Each encoding denotes the symbols it was made from.\<close>

lemma chunk_symbols_RunLength:
  assumes "lc_size c \<le> 8191" and "delta_sizes c ! 0 < 4"
  shows "chunk_symbols (EncodeRunLength c) n = replicate (min (lc_size c) n) (delta_sizes c ! 0)"
proof -
  let ?d = "delta_sizes c ! 0" and ?s = "lc_size c" and ?c = "EncodeRunLength c"
  have db: "bit ?d k \<Longrightarrow> k < 2" and sb: "bit ?s k \<Longrightarrow> k < 13" for k
    using assms bit_small_nat [of ?d 2 k] bit_small_nat [of ?s 13 k] by simp_all
  have c: "bit ?c k \<longleftrightarrow> k < 16 \<and> (13 \<le> k \<and> bit ?d (k - 13) \<or> bit ?s k)" for k
    by (auto simp: EncodeRunLength_def bit_simps)
  have "\<not> bit ?c 15" by (auto simp: c dest: db sb)
  moreover have "unat (take_bit 13 ?c) = ?s"
    by (rule bit_eqI) (auto simp: bit_simps c dest: db sb)
  moreover have "unat (take_bit 2 (drop_bit 13 ?c)) = ?d"
    by (rule bit_eqI) (auto simp: bit_simps c dest: db sb)
  ultimately show ?thesis
    by (simp add: chunk_symbols_def tag_zero and_bits_u16)
qed

lemma chunk_symbols_OneBit:
  assumes "lc_size c \<le> 14" and "\<forall>i < lc_size c. delta_sizes c ! i < 2" and "lc_size c = 14 \<or> n \<le> lc_size c"
  shows "chunk_symbols (EncodeOneBit c) n = take n (map (\<lambda>i. delta_sizes c ! i) [0..<lc_size c])"
proof -
  let ?c = "EncodeOneBit c" and ?d = "\<lambda>i. delta_sizes c ! i" and ?s = "lc_size c"
  have db: "i < ?s \<Longrightarrow> bit (?d i) k \<Longrightarrow> k = 0" for i k
    using assms(2) bit_small_nat [of "?d i" 1 k] by auto
  have c: "bit ?c k \<longleftrightarrow> k = 15 \<or> (\<exists>i < ?s. 13 - i \<le> k \<and> k < 16 \<and> bit (?d i) (k - (13 - i)))" for k
    unfolding EncodeOneBit_def chunk_consts bit_pack bit_chunk_tags by simp
  have tags: "bit ?c 15" "\<not> bit ?c 14"
    by (auto simp: c dest!: db)
  have "unat (take_bit 1 (drop_bit (13 - i) ?c)) = ?d i" if "i < ?s" for i
  proof (rule bit_eqI)
    fix k
    have "bit ?c (13 - i) \<longleftrightarrow> bit (?d i) 0"
    proof
      assume "bit ?c (13 - i)"
      then obtain j where j: "j < ?s" "13 - j \<le> 13 - i" "bit (?d j) (13 - i - (13 - j))"
        using that assms(1) by (auto simp: c)
      then have "i = j" using db [OF j(1,3)] that assms(1) by linarith
      with j(3) show "bit (?d i) 0" by simp
    next
      assume "bit (?d i) 0"
      with that assms(1) show "bit ?c (13 - i)" by (auto simp: c)
    qed
    then show "bit (unat (take_bit 1 (drop_bit (13 - i) ?c))) k = bit (?d i) k"
      using db [OF that] by (cases k) (auto simp: bit_simps even_drop_bit_iff_not_bit)
  qed
  then have "map (\<lambda>i. unat (take_bit 1 (drop_bit (13 - i) ?c))) [0..<min 14 n] = map ?d [0..<min 14 n]"
    using assms(1,3) by (intro map_cong) auto
  moreover have "take n [0..<?s] = [0..<min 14 n]"
    by (rule nth_equalityI) (use assms(1,3) in auto)
  ultimately show ?thesis
    by (simp add: chunk_symbols_def tag_zero tags and_bits_u16 take_map)
qed

lemma chunk_symbols_TwoBit:
  assumes "s \<le> 7" and "\<forall>i < s. delta_sizes c ! i < 4" and "s = 7 \<or> n \<le> s"
  shows "chunk_symbols (EncodeTwoBit s c) n = take n (map (\<lambda>i. delta_sizes c ! i) [0..<s])"
proof -
  let ?c = "EncodeTwoBit s c" and ?d = "\<lambda>i. delta_sizes c ! i"
  have db: "i < s \<Longrightarrow> bit (?d i) k \<Longrightarrow> k < 2" for i k
    using assms(2) bit_small_nat [of "?d i" 2 k] by auto
  have c: "bit ?c k \<longleftrightarrow> k = 15 \<or> k = 14
      \<or> (\<exists>i < s. 2 * (6 - i) \<le> k \<and> k < 16 \<and> bit (?d i) (k - 2 * (6 - i)))" for k
    unfolding EncodeTwoBit_def chunk_consts bit_pack bit_chunk_tags by simp
  have "unat (take_bit 2 (drop_bit (2 * (6 - i)) ?c)) = ?d i" if "i < s" for i
  proof (rule bit_eqI)
    fix k
    have "bit ?c (2 * (6 - i) + k) \<longleftrightarrow> bit (?d i) k" if "k < 2"
    proof
      assume "bit ?c (2 * (6 - i) + k)"
      then obtain j where j: "j < s" "2 * (6 - j) \<le> 2 * (6 - i) + k"
        "bit (?d j) (2 * (6 - i) + k - 2 * (6 - j))"
        using \<open>i < s\<close> \<open>k < 2\<close> assms(1) by (auto simp: c)
      then have "i = j" using db [OF j(1,3)] \<open>i < s\<close> \<open>k < 2\<close> assms(1) by linarith
      with j(3) show "bit (?d i) k" by simp
    next
      assume "bit (?d i) k"
      with \<open>i < s\<close> \<open>k < 2\<close> assms(1) show "bit ?c (2 * (6 - i) + k)" by (auto simp: c intro!: exI [of _ i])
    qed
    then show "bit (unat (take_bit 2 (drop_bit (2 * (6 - i)) ?c))) k = bit (?d i) k"
      using db [OF that] by (auto simp: bit_simps)
  qed
  then have "map (\<lambda>i. unat (take_bit 2 (drop_bit (2 * (6 - i)) ?c))) [0..<min 7 n] = map ?d [0..<min 7 n]"
    using assms(1,3) by (intro map_cong) auto
  moreover have "bit ?c 15" "bit ?c 14" by (simp_all add: c)
  moreover have "take n [0..<s] = [0..<min 7 n]"
    by (rule nth_equalityI) (use assms(1,3) in auto)
  ultimately show ?thesis
    by (simp add: chunk_symbols_def tag_zero and_bits_u16 take_map)
qed

subsection \<open>Emitting and encoding\<close>

lemma nth_in_take: "i < k \<Longrightarrow> k \<le> length xs \<Longrightarrow> xs ! i \<in> set (take k xs)"
  by (auto simp: in_set_conv_nth)

lemma delta_size_bound:
  assumes "chunk_inv c" and "i < lc_size c" and "i < 14"
  shows "delta_sizes c ! i \<le> 2"
proof -
  have "delta_sizes c ! i \<in> set (take (min (lc_size c) 14) (delta_sizes c))"
    using assms by (intro nth_in_take) (auto simp: chunk_inv_def chunk_shape_def)
  also have "set (take (min (lc_size c) 14) (delta_sizes c)) \<subseteq> set (symbols c)"
    using assms by (auto simp: chunk_inv_def chunk_shape_def symbols_def min_def)
  finally show ?thesis
    using assms(1) by (auto simp: chunk_inv_def)
qed

lemma map_nth_take: "n \<le> length xs \<Longrightarrow> map (\<lambda>i. xs ! i) [0..<n] = take n xs"
  by (rule nth_equalityI) auto

lemma not_large_bound:
  assumes "chunk_inv c" and "\<not> has_large_delta c" and "i < lc_size c" and "lc_size c \<le> 14"
  shows "delta_sizes c ! i < 2"
proof -
  have "delta_sizes c ! i \<in> set (symbols c)"
    using assms(1,3,4) unfolding symbols_prefix [OF assms(1,4)]
    by (intro nth_in_take) (auto simp: chunk_inv_def chunk_shape_def)
  then have "delta_sizes c ! i \<le> 2" "delta_sizes c ! i \<noteq> 2"
    using assms(1,2) unfolding chunk_inv_def by (blast, metis)
  then show ?thesis by linarith
qed

lemma EncodeLast_symbols:
  assumes "chunk_inv c"
  shows "chunk_symbols (EncodeLast c) (lc_size c) = symbols c"
proof -
  have len: "length (delta_sizes c) = 14" "lc_size c \<le> 8191" "\<not> all_same c \<Longrightarrow> lc_size c \<le> 14"
    "\<not> all_same c \<Longrightarrow> 7 < lc_size c \<Longrightarrow> \<not> has_large_delta c"
    using assms by (auto simp: chunk_inv_def chunk_shape_def)
  consider "all_same c" "lc_size c = 0" | "all_same c" "0 < lc_size c"
    | "\<not> all_same c" "lc_size c \<le> 7" | "\<not> all_same c" "7 < lc_size c"
    by linarith
  then show ?thesis
  proof cases
    case 1
    then show ?thesis
      by (simp add: symbols_def chunk_symbols_def)
  next
    case 2
    then have "delta_sizes c ! 0 < 4"
      using delta_size_bound [OF assms, of 0] by simp
    with 2 len show ?thesis
      by (simp add: EncodeLast_def symbols_def chunk_symbols_RunLength)
  next
    case 3
    then have "\<forall>i < lc_size c. delta_sizes c ! i < 4"
      using delta_size_bound [OF assms] by fastforce
    with 3 len show ?thesis
      by (simp add: EncodeLast_def symbols_def chunk_consts chunk_symbols_TwoBit map_nth_take)
  next
    case 4
    then have "\<forall>i < lc_size c. delta_sizes c ! i < 2"
      using not_large_bound [OF assms] len by simp
    with 4 len show ?thesis
      by (simp add: EncodeLast_def symbols_def chunk_consts chunk_symbols_OneBit map_nth_take)
  qed
qed

text \<open>
  The shift loop adds the remaining delta sizes, one by one, to an emptied chunk; it differs
  from \<open>Add\<close> only in that the size is already the final one.
\<close>

lemma Add_fold:
  assumes "chunk_inv c" and "lc_size c + length ds \<le> 7" and "\<forall>d \<in> set ds. d \<le> 2"
  shows "chunk_inv (fold LastChunk_Add ds c) \<and> symbols (fold LastChunk_Add ds c) = symbols c @ ds
    \<and> lc_size (fold LastChunk_Add ds c) = lc_size c + length ds"
  using assms
proof (induction ds arbitrary: c)
  case (Cons d ds)
  have "CanAdd d c"
    using Cons.prems(2) by (simp add: CanAdd_def chunk_consts)
  moreover have "lc_size (LastChunk_Add d c) = Suc (lc_size c)"
    by (simp add: LastChunk_Add_def)
  ultimately show ?case
    using Cons.IH [of "LastChunk_Add d c"] Cons.prems Add_chunk_inv [of c d] Add_symbols [of c d]
    by simp
qed simp

lemma Emit_shift_adds:
  assumes "length (delta_sizes c) = 14" and "k \<le> 7" and "lc_size c = m" and "all_same c"
    and "\<not> has_large_delta c"
  defines "X \<equiv> fold LastChunk_Add (take k (drop 7 (delta_sizes c))) (c\<lparr>lc_size := 0\<rparr>)"
  shows "fold (\<lambda>i c. let delta_size = delta_sizes c ! (kMaxTwoBitCapacity + i);
                     c = c\<lparr>delta_sizes := (delta_sizes c)[i := delta_size]\<rparr>;
                     c = c\<lparr>all_same := all_same c \<and> delta_size = delta_sizes c ! 0\<rparr>
                 in c\<lparr>has_large_delta := has_large_delta c \<or> delta_size = kLarge\<rparr>)
       [0..<k] c = X\<lparr>lc_size := m\<rparr> \<and> lc_size X = k
     \<and> (\<forall>j. 7 \<le> j \<longrightarrow> delta_sizes X ! j = delta_sizes c ! j) \<and> length (delta_sizes X) = 14"
  using assms(2) unfolding X_def
proof (induction k)
  case 0
  then show ?case using assms(1,3) by simp
next
  case (Suc k)
  let ?X = "fold LastChunk_Add (take k (drop 7 (delta_sizes c))) (c\<lparr>lc_size := 0\<rparr>)"
  have "take (Suc k) (drop 7 (delta_sizes c)) = take k (drop 7 (delta_sizes c)) @ [delta_sizes c ! (7 + k)]"
    using assms(1) Suc.prems by (simp add: take_Suc_conv_app_nth)
  then show ?case
    using Suc by (simp add: LastChunk_Add_def Let_def chunk_consts)
qed

lemma Emit_two_bit:
  assumes "chunk_inv c" and "\<not> all_same c" and "7 \<le> lc_size c" and "lc_size c < 14"
  shows "chunk_inv (snd (Emit c)) \<and> symbols (snd (Emit c)) = drop 7 (symbols c)
    \<and> lc_size (snd (Emit c)) = lc_size c - 7"
proof -
  let ?m = "lc_size c - 7"
  let ?c = "c\<lparr>lc_size := ?m, all_same := True, has_large_delta := False\<rparr>"
  let ?ds = "take ?m (drop 7 (delta_sizes c))"
  let ?empty = "c\<lparr>all_same := True, has_large_delta := False, lc_size := 0\<rparr>"
  let ?X = "fold LastChunk_Add ?ds ?empty"
  have len: "length (delta_sizes c) = 14"
    using assms(1) by (simp add: chunk_inv_def chunk_shape_def)
  have sym: "symbols c = take (lc_size c) (delta_sizes c)"
    using assms(2) by (simp add: symbols_def)
  have ds: "?ds = drop 7 (symbols c)"
    by (simp add: sym drop_take)
  have "\<forall>d \<in> set ?ds. d \<le> 2"
    using assms(1) unfolding ds by (auto simp: chunk_inv_def dest: in_set_dropD)
  moreover have "chunk_inv ?empty" "symbols ?empty = []"
    using len by (simp_all add: chunk_inv_def chunk_shape_def symbols_def)
  moreover have "length ?ds = ?m"
    using len assms(3,4) by simp
  ultimately have X: "chunk_inv ?X" "symbols ?X = ?ds" "lc_size ?X = ?m"
    using Add_fold [of ?empty ?ds] assms(4) by auto
  have "snd (Emit c) = Emit_shift ?c"
    using assms by (simp add: Emit_def chunk_consts)
  also have "\<dots> = ?X\<lparr>lc_size := ?m\<rparr>"
    using Emit_shift_adds [of ?c ?m ?m] len assms(4) by (simp add: Emit_shift_def)
  also have "\<dots> = ?X"
    using X(3) by simp
  finally show ?thesis
    using X ds by simp
qed

text \<open>
  A chunk that cannot take one more symbol: it emits a full chunk and the rest is small
  enough to take any symbol.
\<close>

lemma Emit_spec:
  assumes inv: "chunk_inv c" and full: "\<not> CanAdd d c" and le: "length (symbols c) \<le> n"
  shows "chunk_inv (snd (Emit c))"
    and "chunk_symbols (fst (Emit c)) n @ symbols (snd (Emit c)) = symbols c"
    and "lc_size (snd (Emit c)) < 7" and "chunk_symbols (fst (Emit c)) n \<noteq> []"
proof -
  have size: "7 \<le> lc_size c" "\<not> all_same c \<Longrightarrow> lc_size c \<le> 14"
    using full inv by (auto simp: CanAdd_def chunk_consts chunk_inv_def chunk_shape_def split: if_splits)
  have len: "length (delta_sizes c) = 14" "lc_size c \<le> 8191" "lc_size c \<le> n"
    using inv le by (auto simp: chunk_inv_def chunk_shape_def length_symbols)
  have clear: "chunk_inv (LastChunk_Clear c)" "symbols (LastChunk_Clear c) = []"
    "lc_size (LastChunk_Clear c) = 0"
    using Clear_chunk len by (simp_all add: LastChunk_Clear_def)
  consider (run) "all_same c" | (one) "\<not> all_same c" "lc_size c = 14" | (two) "\<not> all_same c" "lc_size c < 14"
    using size(2) by linarith
  then have "chunk_inv (snd (Emit c)) \<and> chunk_symbols (fst (Emit c)) n @ symbols (snd (Emit c)) = symbols c
    \<and> lc_size (snd (Emit c)) < 7 \<and> chunk_symbols (fst (Emit c)) n \<noteq> []"
  proof cases
    case run
    have "delta_sizes c ! 0 < 4"
      using delta_size_bound [OF inv, of 0] size by simp
    then have "chunk_symbols (EncodeRunLength c) n = symbols c"
      using run len by (simp add: chunk_symbols_RunLength symbols_def min_absorb1)
    moreover have "symbols c \<noteq> []"
      using run size(1) by (simp add: symbols_def)
    ultimately show ?thesis
      using run clear by (simp add: Emit_def)
  next
    case one
    then have "\<not> has_large_delta c"
      using inv by (simp add: chunk_inv_def)
    then have "\<forall>i < lc_size c. delta_sizes c ! i < 2"
      using not_large_bound [OF inv] one by simp
    then have "chunk_symbols (EncodeOneBit c) n = symbols c"
      using one len by (simp add: chunk_symbols_OneBit map_nth_take symbols_def del: upt_Suc)
    moreover have "symbols c \<noteq> []"
      using one len by (auto simp: symbols_def)
    ultimately show ?thesis
      using one clear by (simp add: Emit_def chunk_consts)
  next
    case two
    have "delta_sizes c ! i < 4" if "i < 7" for i
      using delta_size_bound [OF inv, of i] size(1) that by simp
    then have "chunk_symbols (EncodeTwoBit 7 c) n = take n (take 7 (delta_sizes c))"
      using len by (simp add: chunk_symbols_TwoBit map_nth_take del: upt_Suc)
    also have "\<dots> = take 7 (symbols c)"
      using two size(1) len(3) by (simp add: symbols_def min_absorb1 min_absorb2)
    finally have "chunk_symbols (EncodeTwoBit 7 c) n = take 7 (symbols c)" .
    moreover have "take 7 (symbols c) \<noteq> []"
      using two size(1) len by (auto simp: symbols_def)
    ultimately show ?thesis
      using two Emit_two_bit [OF inv] size(1)
      by (simp add: Emit_def [of c] chunk_consts)
  qed
  then show "chunk_inv (snd (Emit c))"
    and "chunk_symbols (fst (Emit c)) n @ symbols (snd (Emit c)) = symbols c"
    and "lc_size (snd (Emit c)) < 7" and "chunk_symbols (fst (Emit c)) n \<noteq> []"
    by blast+
qed

text \<open>A chunk never denotes more symbols than asked for, nor a symbol above 3.\<close>

lemma chunk_symbols_bounds:
  "length (chunk_symbols chunk n) \<le> n" "\<forall>s \<in> set (chunk_symbols chunk n). s \<le> 3"
proof -
  show "length (chunk_symbols chunk n) \<le> n" by (simp add: chunk_symbols_def)
  have "unat (x AND 0x01) \<le> 3" "unat (x AND 0x03) \<le> 3" for x :: u16
    using word_and_le1 [of x 1] word_and_le1 [of x 3] by (simp_all add: word_le_nat_alt)
  then show "\<forall>s \<in> set (chunk_symbols chunk n). s \<le> 3"
    by (auto simp: chunk_symbols_def)
qed

subsection \<open>Properties\<close>

text \<open>
  C27: the status chunk under construction is a faithful, bounded queue of delta sizes. Adding
  a size that \<open>CanAdd\<close> admits appends it; when it does not admit it, \<open>Emit\<close> removes a
  non-empty prefix, and any decoder reads back from the emitted 16 bits exactly that prefix;
  the rest then admits the size. The class invariant is kept throughout.
\<close>

theorem LastChunk_queue:
  assumes "chunk_inv c" and "d \<le> 2"
  shows "if CanAdd d c
    then chunk_inv (LastChunk_Add d c) \<and> symbols (LastChunk_Add d c) = symbols c @ [d]
    else \<exists>chunk c'. Emit c = (chunk, c') \<and> chunk_inv c' \<and> CanAdd d c'
      \<and> (\<exists>pre. pre \<noteq> [] \<and> symbols c = pre @ symbols c'
           \<and> (\<forall>n decoder. length (symbols c) \<le> n \<longrightarrow> length (delta_sizes decoder) = 14 \<longrightarrow>
                symbols (Decode chunk n decoder) = pre))"
proof (cases "CanAdd d c")
  case True
  then show ?thesis
    using Add_chunk_inv [OF assms(1) True assms(2)] Add_symbols [OF assms(1) True] by simp
next
  case False
  obtain chunk c' where e: "Emit c = (chunk, c')" by fastforce
  let ?pre = "chunk_symbols chunk (length (symbols c))"
  note spec = Emit_spec [OF assms(1) False, unfolded e fst_conv snd_conv]
  have "symbols (Decode chunk n decoder) = ?pre"
    if "length (symbols c) \<le> n" "length (delta_sizes decoder) = 14" for n decoder
    using spec(2) [OF that(1)] spec(2) [OF order_refl] Decode_symbols(1) [OF that(2)]
    by (metis append_same_eq)
  moreover have "CanAdd d c'"
    using spec(3) [OF order_refl] by (simp add: CanAdd_def chunk_consts)
  ultimately show ?thesis
    using False e spec(1,4) [OF order_refl] spec(2) [OF order_refl]
    by (auto intro!: exI [of _ ?pre])
qed

theorem LastChunk_queue_witness:
  "(let c = fold LastChunk_Add [1, 0, 1, 1, 0, 1, 1, 1] (LastChunk_Clear
          \<lparr>delta_sizes = replicate 14 0, lc_size = 0, all_same = True, has_large_delta = False\<rparr>)
    in chunk_inv c \<and> \<not> CanAdd 2 c
      \<and> (\<exists>chunk c'. Emit c = (chunk, c') \<and> chunk_inv c' \<and> CanAdd 2 c'
        \<and> (\<exists>pre. pre \<noteq> [] \<and> symbols c = pre @ symbols c')))"
proof -
  let ?e = "LastChunk_Clear
      \<lparr>delta_sizes = replicate 14 0, lc_size = 0, all_same = True, has_large_delta = False\<rparr>"
  let ?c = "fold LastChunk_Add [1, 0, 1, 1, 0, 1, 1, 1] ?e"
  have "chunk_inv ?c" "\<not> CanAdd 2 ?c"
    by code_simp+
  then show ?thesis
    unfolding Let_def using LastChunk_queue [of ?c 2] by (simp only: if_False) blast
qed

end
