(* ===== verification/Rtcp_Transport_Feedback.thy ===== *)
theory Rtcp_Transport_Feedback
  imports Rtcp_Feedback Rtcp_Status_Chunk "HOL-Library.Signed_Division"
begin

text \<open>
  \<open>rtcp_packet/transport_feedback\<close>: the transport-wide congestion control feedback. A
  message reports, for consecutive sequence numbers from a base, whether each packet was
  received and with which delay to the one before. It is built packet by packet
  (\<open>AddReceivedPacket\<close>), kept encoded in status chunks, written with explicit RTCP padding and
  parsed from the wire; \<open>IsConsistent\<close> is the condition the class promises after every public
  method.
\<close>

subsection \<open>The class\<close>

text \<open>
  The constructor for a lost packet leaves \<open>delta_ticks_\<close> uninitialised; it is 0 here and
  never read.
\<close>

record ReceivedPacket =
  sequence_number :: u16
  delta_ticks :: int
  received :: bool

definition ReceivedPacket_init :: "u16 \<Rightarrow> int \<Rightarrow> ReceivedPacket" where
  "ReceivedPacket_init seq delta = \<lparr>sequence_number = seq, delta_ticks = delta, received = True\<rparr>"

definition LostPacket_init :: "u16 \<Rightarrow> ReceivedPacket" where
  "LostPacket_init seq = \<lparr>sequence_number = seq, delta_ticks = 0, received = False\<rparr>"

definition kDeltaScaleFactor :: int where
  "kDeltaScaleFactor = 250"

definition delta_us :: "ReceivedPacket \<Rightarrow> int" where
  "delta_us r = delta_ticks r * kDeltaScaleFactor"

text \<open>
  \<open>num_seq_no_\<close> is a \<open>uint16_t\<close> that \<open>AddDeltaSize\<close> stops at \<open>0xffff\<close>, so it never wraps;
  times are \<open>int64_t\<close> microseconds and \<open>base_time_ticks_\<close> an \<open>int32_t\<close>, kept as integers.
\<close>

record TransportFeedback = Rtpfb +
  include_lost :: bool
  base_seq_no :: u16
  num_seq_no :: nat
  base_time_ticks :: int
  feedback_seq :: byte
  include_timestamps :: bool
  last_timestamp_us :: int
  received_packets :: "ReceivedPacket list"
  all_packets :: "ReceivedPacket list"
  encoded_chunks :: "u16 list"
  last_chunk :: LastChunk
  size_bytes :: nat

definition kTransportFeedbackHeaderSizeBytes :: nat where
  "kTransportFeedbackHeaderSizeBytes = 4 + 8 + 8"

definition kChunkSizeBytes :: nat where
  "kChunkSizeBytes = 2"

definition kMaxSizeBytes :: nat where
  "kMaxSizeBytes = 2 ^ 16 * 4"

definition kMinPayloadSizeBytes :: nat where
  "kMinPayloadSizeBytes = 8 + 8 + 2"

definition kBaseScaleFactor :: int where
  "kBaseScaleFactor = kDeltaScaleFactor * 2 ^ 8"

definition kTimeWrapPeriodUs :: int where
  "kTimeWrapPeriodUs = 2 ^ 24 * kBaseScaleFactor"

definition kMaxReportedPackets :: nat where
  "kMaxReportedPackets = 0xffff"

definition GetBaseTimeUs :: "TransportFeedback \<Rightarrow> int" where
  "GetBaseTimeUs p = base_time_ticks p * kBaseScaleFactor"

definition GetBaseDeltaUs :: "int \<Rightarrow> TransportFeedback \<Rightarrow> int" where
  "GetBaseDeltaUs prev_timestamp_us p =
     (let delta = GetBaseTimeUs p - prev_timestamp_us
      in if \<bar>delta - kTimeWrapPeriodUs\<bar> < \<bar>delta\<bar> then delta - kTimeWrapPeriodUs
         else if \<bar>delta + kTimeWrapPeriodUs\<bar> < \<bar>delta\<bar> then delta + kTimeWrapPeriodUs
         else delta)"

definition TransportFeedback_Clear :: "TransportFeedback \<Rightarrow> TransportFeedback" where
  "TransportFeedback_Clear p = p\<lparr>num_seq_no := 0, last_timestamp_us := GetBaseTimeUs p,
     received_packets := [], all_packets := [], encoded_chunks := [],
     last_chunk := LastChunk_Clear (last_chunk p),
     size_bytes := kTransportFeedbackHeaderSizeBytes\<rparr>"

text \<open>The array inside \<open>last_chunk_\<close> is uninitialised: \<open>junk\<close>.\<close>

definition TransportFeedback_init :: "nat list \<Rightarrow> bool \<Rightarrow> bool \<Rightarrow> TransportFeedback" where
  "TransportFeedback_init junk timestamps lost =
     \<lparr>sender_ssrc = 0, media_ssrc = 0, include_lost = lost, base_seq_no = 0, num_seq_no = 0,
      base_time_ticks = 0, feedback_seq = 0, include_timestamps = timestamps, last_timestamp_us = 0,
      received_packets = [], all_packets = [], encoded_chunks = [],
      last_chunk = \<lparr>delta_sizes = junk, lc_size = 0, all_same = True, has_large_delta = False\<rparr>,
      size_bytes = kTransportFeedbackHeaderSizeBytes\<rparr>"

text \<open>C++ division and remainder truncate towards zero.\<close>

definition SetBase :: "u16 \<Rightarrow> int \<Rightarrow> TransportFeedback \<Rightarrow> TransportFeedback" where
  "SetBase base_sequence ref_timestamp_us p =
     (let p = p\<lparr>base_seq_no := base_sequence,
                base_time_ticks := (ref_timestamp_us smod kTimeWrapPeriodUs) sdiv kBaseScaleFactor\<rparr>
      in p\<lparr>last_timestamp_us := GetBaseTimeUs p\<rparr>)"

definition SetFeedbackSequenceNumber :: "byte \<Rightarrow> TransportFeedback \<Rightarrow> TransportFeedback" where
  "SetFeedbackSequenceNumber feedback_sequence p = p\<lparr>feedback_seq := feedback_sequence\<rparr>"

definition AddDeltaSize :: "nat \<Rightarrow> TransportFeedback \<Rightarrow> bool \<times> TransportFeedback" where
  "AddDeltaSize delta_size p =
     (if num_seq_no p = kMaxReportedPackets then (False, p)
      else
        let add_chunk_size = (if LastChunk_Empty (last_chunk p) then kChunkSizeBytes else 0)
        in if size_bytes p + delta_size + add_chunk_size > kMaxSizeBytes then (False, p)
           else if CanAdd delta_size (last_chunk p) then
             (True, p\<lparr>size_bytes := size_bytes p + add_chunk_size,
                      last_chunk := LastChunk_Add delta_size (last_chunk p),
                      num_seq_no := num_seq_no p + 1\<rparr>)
           else if size_bytes p + delta_size + kChunkSizeBytes > kMaxSizeBytes then (False, p)
           else
             let (chunk, last) = Emit (last_chunk p)
             in (True, p\<lparr>encoded_chunks := encoded_chunks p @ [chunk],
                         size_bytes := size_bytes p + kChunkSizeBytes,
                         last_chunk := LastChunk_Add delta_size last,
                         num_seq_no := num_seq_no p + 1\<rparr>))"

text \<open>Appending a packet to \<open>received_packets_\<close> and, when lost ones are kept, to \<open>all_packets_\<close>.\<close>

definition push_received :: "u16 \<Rightarrow> int \<Rightarrow> TransportFeedback \<Rightarrow> TransportFeedback" where
  "push_received seq_no delta p =
     (let p = p\<lparr>received_packets := received_packets p @ [ReceivedPacket_init seq_no delta]\<rparr>
      in if include_lost p
         then p\<lparr>all_packets := all_packets p @ [ReceivedPacket_init seq_no delta]\<rparr> else p)"

definition push_lost :: "u16 \<Rightarrow> TransportFeedback \<Rightarrow> TransportFeedback" where
  "push_lost seq_no p =
     (if include_lost p then p\<lparr>all_packets := all_packets p @ [LostPacket_init seq_no]\<rparr> else p)"

text \<open>The loop that reports the sequence numbers before \<open>sequence_number\<close> as lost.\<close>

function AddLostPackets :: "u16 \<Rightarrow> u16 \<Rightarrow> TransportFeedback \<Rightarrow> bool \<times> TransportFeedback" where
  "AddLostPackets seq next_seq_no p =
     (if next_seq_no = seq then (True, p)
      else case AddDeltaSize 0 p of
        (False, p) \<Rightarrow> (False, p)
      | (True, p) \<Rightarrow>
          AddLostPackets seq (next_seq_no + 1) (push_lost next_seq_no p))"
  by pat_completeness auto
termination
proof (relation "measure (\<lambda>(seq, next_seq_no, _). unat (seq - next_seq_no))")
  fix seq next_seq_no :: u16 and p q r :: TransportFeedback
  assume "next_seq_no \<noteq> seq"
  then have "seq - next_seq_no \<noteq> 0" by simp
  moreover have "seq - (next_seq_no + 1) = (seq - next_seq_no) - 1" by simp
  ultimately have "unat (seq - (next_seq_no + 1)) = unat (seq - next_seq_no) - 1"
    using unat_minus_one by metis
  moreover have "0 < unat (seq - next_seq_no)"
    using \<open>seq - next_seq_no \<noteq> 0\<close> by (simp add: unat_gt_0)
  ultimately show "((seq, next_seq_no + 1, r), seq, next_seq_no, q)
      \<in> measure (\<lambda>(seq, next_seq_no, _). unat (seq - next_seq_no))"
    by simp
qed simp

declare AddLostPackets.simps [simp del]

definition to_int16 :: "int \<Rightarrow> int" where
  "to_int16 x = sint (word_of_int x :: 16 word)"

text \<open>The rounded delta in ticks, before it is cut to 16 bits.\<close>

definition delta_full :: "int \<Rightarrow> TransportFeedback \<Rightarrow> int" where
  "delta_full timestamp_us p =
     (let d = (timestamp_us - last_timestamp_us p) smod kTimeWrapPeriodUs;
          d = (if d > kTimeWrapPeriodUs sdiv 2 then d - kTimeWrapPeriodUs else d);
          d = d + (if d < 0 then - (kDeltaScaleFactor sdiv 2) else kDeltaScaleFactor sdiv 2)
      in d sdiv kDeltaScaleFactor)"

text \<open>
  \<open>is_newer\<close> stands for \<open>webrtc::IsNewerSequenceNumber\<close>, which is not part of the repository.
\<close>

definition AddReceivedPacket :: "(u16 \<Rightarrow> u16 \<Rightarrow> bool) \<Rightarrow> u16 \<Rightarrow> int \<Rightarrow> TransportFeedback
    \<Rightarrow> bool \<times> TransportFeedback" where
  "AddReceivedPacket is_newer seq timestamp_us p =
     (let full = (if include_timestamps p then delta_full timestamp_us p else 0);
          delta = to_int16 full
      in if delta \<noteq> full then (False, p)
      else
        let next_seq_no = base_seq_no p + of_nat (num_seq_no p);
            (ok, p) = (if seq \<noteq> next_seq_no then
                         (let last_seq_no = next_seq_no - 1
                          in if \<not> is_newer seq last_seq_no then (False, p)
                             else AddLostPackets seq next_seq_no p)
                       else (True, p))
        in if \<not> ok then (False, p)
        else
          let delta_size = (if 0 \<le> delta \<and> delta \<le> 0xff then 1 else 2);
              (ok, p) = AddDeltaSize delta_size p
          in if \<not> ok then (False, p)
             else
               let p = push_received seq delta p;
                   p = p\<lparr>last_timestamp_us := last_timestamp_us p + delta * kDeltaScaleFactor\<rparr>;
                   p = (if include_timestamps p then p\<lparr>size_bytes := size_bytes p + delta_size\<rparr> else p)
               in (True, p))"

subsubsection \<open>Parsing\<close>

text \<open>
  The loop over the chunks, from offset \<open>pos\<close> of the payload: the object, the delta sizes and
  the offset behind the chunks; \<open>False\<close> is the early return.
\<close>

function ParseChunks :: "byte list \<Rightarrow> nat \<Rightarrow> nat \<Rightarrow> nat \<Rightarrow> nat list \<Rightarrow> TransportFeedback
    \<Rightarrow> (bool \<times> (TransportFeedback \<times> nat list \<times> nat)) option" where
  "ParseChunks bs end_index status_count pos ds p =
     (if length ds < status_count then
        if pos + kChunkSizeBytes > end_index
        then Some (False, (TransportFeedback_Clear p, ds, pos))
        else do {
          chunk \<leftarrow> get_be16 bs pos;
          let p = p\<lparr>encoded_chunks := encoded_chunks p @ [chunk],
                    last_chunk := Decode chunk (status_count - length ds) (last_chunk p)\<rparr>
          in ParseChunks bs end_index status_count (pos + kChunkSizeBytes)
               (AppendTo (last_chunk p) ds) p }
      else Some (True, (p, ds, pos)))"
  by pat_completeness auto
termination
  by (relation "measure (\<lambda>(_, end_index, _, pos, _). end_index - pos)") (auto simp: kChunkSizeBytes_def)

declare ParseChunks.simps [simp del]

text \<open>The loop over the receive deltas.\<close>

fun ParseDeltas :: "byte list \<Rightarrow> nat \<Rightarrow> nat list \<Rightarrow> u16 \<Rightarrow> nat \<Rightarrow> TransportFeedback
    \<Rightarrow> (bool \<times> (TransportFeedback \<times> nat)) option" where
  "ParseDeltas bs end_index [] seq_no pos p = Some (True, (p, pos))"
| "ParseDeltas bs end_index (delta_size # ds) seq_no pos p =
     (if pos + delta_size > end_index then Some (False, (TransportFeedback_Clear p, pos))
      else if delta_size = 0 then ParseDeltas bs end_index ds (seq_no + 1) pos (push_lost seq_no p)
      else if delta_size = 1 then do {
        b \<leftarrow> get_u8 bs pos;
        let delta = int (unat b);
            p = push_received seq_no delta p;
            p = p\<lparr>last_timestamp_us := last_timestamp_us p + delta * kDeltaScaleFactor\<rparr>
        in ParseDeltas bs end_index ds (seq_no + 1) (pos + delta_size) p }
      else if delta_size = 2 then do {
        delta \<leftarrow> get_s16 bs pos;
        let p = push_received seq_no delta p;
            p = p\<lparr>last_timestamp_us := last_timestamp_us p + delta * kDeltaScaleFactor\<rparr>
        in ParseDeltas bs end_index ds (seq_no + 1) (pos + delta_size) p }
      else if delta_size = 3 then Some (False, (TransportFeedback_Clear p, pos))
      else ParseDeltas bs end_index ds (seq_no + 1) pos p)"

text \<open>The loop that only records which packets were received.\<close>

fun ParseStatuses :: "nat list \<Rightarrow> u16 \<Rightarrow> TransportFeedback \<Rightarrow> TransportFeedback" where
  "ParseStatuses [] seq_no p = p"
| "ParseStatuses (delta_size # ds) seq_no p =
     ParseStatuses ds (seq_no + 1) (if delta_size > 0 then push_received seq_no 0 p else push_lost seq_no p)"

definition TransportFeedback_Parse :: "CommonHeader \<Rightarrow> TransportFeedback
    \<Rightarrow> (bool \<times> TransportFeedback) option" where
  "TransportFeedback_Parse h p =
     (if payload_size h < kMinPayloadSizeBytes then Some (False, p)
      else do {
        p \<leftarrow> Rtpfb_ParseCommonFeedback (payload h) p;
        base \<leftarrow> get_be16 (payload h) 8;
        status_count \<leftarrow> get_be16 (payload h) 10;
        ticks \<leftarrow> get_s24 (payload h) 12;
        fbseq \<leftarrow> get_u8 (payload h) 15;
        let p = TransportFeedback_Clear
                  (p\<lparr>base_seq_no := base, base_time_ticks := ticks, feedback_seq := fbseq\<rparr>);
            end_index = payload_size h
        in if status_count = 0 then Some (False, p)
        else do {
          (ok, (p, ds, pos)) \<leftarrow> ParseChunks (payload h) end_index (unat status_count) 16 [] p;
          if \<not> ok then Some (False, p)
          else
            let p = p\<lparr>encoded_chunks := butlast (encoded_chunks p), num_seq_no := unat status_count\<rparr>;
                seq_no = base_seq_no p;
                recv_delta_size = sum_list ds
            in if end_index \<ge> pos + recv_delta_size then do {
                 (ok, (p, pos)) \<leftarrow> ParseDeltas (payload h) end_index ds seq_no pos p;
                 if \<not> ok then Some (False, p)
                 else Some (True, p\<lparr>size_bytes := kHeaderLength + pos\<rparr>) }
               else
                 let p = ParseStatuses ds seq_no (p\<lparr>include_timestamps := False\<rparr>)
                 in Some (True, p\<lparr>size_bytes := kHeaderLength + pos\<rparr>) } })"

text \<open>\<open>ParseFrom\<close>: \<open>Some None\<close> is the null pointer.\<close>

definition ParseFrom :: "nat list \<Rightarrow> byte list \<Rightarrow> nat \<Rightarrow> TransportFeedback option option" where
  "ParseFrom junk buffer len = do {
     (ok, header) \<leftarrow> CommonHeader_Parse buffer len CommonHeader_init;
     if \<not> ok then Some None
     else if packet_type header \<noteq> 205 \<or> count_or_format header \<noteq> 15 then Some None
     else do {
       (ok, parsed) \<leftarrow> TransportFeedback_Parse header (TransportFeedback_init junk True True);
       Some (if ok then Some parsed else None) } }"

subsubsection \<open>\<open>IsConsistent\<close>\<close>

text \<open>The chunk loop of \<open>IsConsistent\<close>, over a local decoder.\<close>

fun decode_chunks :: "u16 list \<Rightarrow> LastChunk \<Rightarrow> nat list \<Rightarrow> nat list" where
  "decode_chunks [] decoder ds = ds"
| "decode_chunks (chunk # cs) decoder ds =
     (let decoder = Decode chunk kMaxReportedPackets decoder
      in decode_chunks cs decoder (AppendTo decoder ds))"

text \<open>The packet loop: what is left of \<open>received_packets_\<close>, the timestamp and the size.\<close>

fun consistent_packets :: "bool \<Rightarrow> nat list \<Rightarrow> u16 \<Rightarrow> ReceivedPacket list \<Rightarrow> int \<Rightarrow> nat
    \<Rightarrow> (ReceivedPacket list \<times> int \<times> nat) option" where
  "consistent_packets ts [] seq_no rs timestamp_us sz = Some (rs, timestamp_us, sz)"
| "consistent_packets ts (delta_size # ds) seq_no rs timestamp_us sz =
     (let sz' = (if ts then sz + delta_size else sz)
      in if delta_size > 0 then
           (case rs of
              [] \<Rightarrow> None
            | r # rs \<Rightarrow>
                if sequence_number r \<noteq> seq_no then None
                else if delta_size = 1 \<and> (delta_ticks r < 0 \<or> delta_ticks r > 0xff) then None
                else consistent_packets ts ds (seq_no + 1) rs (timestamp_us + delta_us r) sz')
         else consistent_packets ts ds (seq_no + 1) rs timestamp_us sz')"

definition IsConsistent :: "nat list \<Rightarrow> TransportFeedback \<Rightarrow> bool" where
  "IsConsistent junk p =
     (let decoder = \<lparr>delta_sizes = junk, lc_size = 0, all_same = True, has_large_delta = False\<rparr>;
          ds = decode_chunks (encoded_chunks p) decoder [];
          sz = kTransportFeedbackHeaderSizeBytes + length (encoded_chunks p) * kChunkSizeBytes;
          (ds, sz) = (if \<not> LastChunk_Empty (last_chunk p)
             then (AppendTo (last_chunk p) ds, sz + kChunkSizeBytes) else (ds, sz))
      in if num_seq_no p \<noteq> length ds then False
         else case consistent_packets (include_timestamps p) ds (base_seq_no p) (received_packets p)
                (GetBaseTimeUs p) sz of
             None \<Rightarrow> False
           | Some (rs, timestamp_us, sz) \<Rightarrow>
               if rs \<noteq> [] then False
               else if timestamp_us \<noteq> last_timestamp_us p then False
               else size_bytes p = sz)"

subsubsection \<open>Writing\<close>

text \<open>Rounding up to a multiple of four by clearing the low two bits.\<close>

definition TransportFeedback_BlockLength :: "TransportFeedback \<Rightarrow> nat" where
  "TransportFeedback_BlockLength p = (size_bytes p + 3) div 4 * 4"

definition PaddingLength :: "TransportFeedback \<Rightarrow> nat" where
  "PaddingLength p = TransportFeedback_BlockLength p - size_bytes p"

definition write_delta :: "ReceivedPacket \<Rightarrow> wstate \<Rightarrow> wstate" where
  "write_delta r w =
     (let delta = delta_ticks r
      in if 0 \<le> delta \<and> delta \<le> 0xFF then advance 1 (put (index w) [word_of_int delta] w)
         else advance 2 (put (index w) (WriteSigned16 delta) w))"

definition TransportFeedback_Create :: "TransportFeedback \<Rightarrow> nat \<Rightarrow> bool \<Rightarrow> wstate \<Rightarrow> bool \<times> wstate" where
  "TransportFeedback_Create p max_length callback w =
     (if num_seq_no p = 0 then (False, w)
      else case reserve (TransportFeedback_BlockLength p) max_length callback w of
        (False, w) \<Rightarrow> (False, w)
      | (True, w) \<Rightarrow>
          (let padding_length = PaddingLength p;
               has_padding = (padding_length > 0);
               w = CreateHeader 15 205 (HeaderLength (TransportFeedback_BlockLength p)) has_padding w;
               w = Rtpfb_CreateCommonFeedback p (index w) w;
               w = advance kCommonFeedbackLength w;
               w = advance 2 (put (index w) (put_be16 (base_seq_no p)) w);
               w = advance 2 (put (index w) (put_be16 (of_nat (num_seq_no p))) w);
               w = advance 3 (put (index w) (WriteSigned24 (base_time_ticks p)) w);
               w = advance 1 (put (index w) [feedback_seq p] w);
               w = fold (\<lambda>chunk w. advance 2 (put (index w) (put_be16 chunk) w)) (encoded_chunks p) w;
               w = (if \<not> LastChunk_Empty (last_chunk p)
                    then advance 2 (put (index w) (put_be16 (EncodeLast (last_chunk p))) w) else w);
               w = (if include_timestamps p then fold write_delta (received_packets p) w else w)
           in if padding_length > 0 then
                let w = fold (\<lambda>_ w. advance 1 (put (index w) [0] w)) [0..<padding_length - 1] w
                in (True, advance 1 (put (index w) [of_nat padding_length] w))
              else (True, w)))"

lemmas tf_consts = kTransportFeedbackHeaderSizeBytes_def kChunkSizeBytes_def kMaxSizeBytes_def
  kMinPayloadSizeBytes_def kMaxReportedPackets_def

subsection \<open>What a message reports\<close>

text \<open>The delta sizes a message holds, in the order of the sequence numbers.\<close>

definition deltas :: "TransportFeedback \<Rightarrow> nat list" where
  "deltas p = concat (map (\<lambda>chunk. chunk_symbols chunk kMaxReportedPackets) (encoded_chunks p))
     @ symbols (last_chunk p)"

text \<open>
  \<open>described fit seq ds rs\<close>: the packets \<open>rs\<close> are exactly those of the sequence numbers from
  \<open>seq\<close> on whose delta size is not zero, and each fits its delta size.
\<close>

fun described :: "(nat \<Rightarrow> ReceivedPacket \<Rightarrow> bool) \<Rightarrow> u16 \<Rightarrow> nat list \<Rightarrow> ReceivedPacket list \<Rightarrow> bool" where
  "described fit seq [] rs \<longleftrightarrow> rs = []"
| "described fit seq (d # ds) rs \<longleftrightarrow>
     (if d = 0 then described fit (seq + 1) ds rs
      else case rs of
          [] \<Rightarrow> False
        | r # rs \<Rightarrow> sequence_number r = seq \<and> received r \<and> fit d r \<and> described fit (seq + 1) ds rs)"

fun with_lost :: "u16 \<Rightarrow> nat list \<Rightarrow> ReceivedPacket list \<Rightarrow> ReceivedPacket list" where
  "with_lost seq [] rs = []"
| "with_lost seq (d # ds) rs =
     (if d = 0 then LostPacket_init seq # with_lost (seq + 1) ds rs
      else case rs of [] \<Rightarrow> [] | r # rs \<Rightarrow> r # with_lost (seq + 1) ds rs)"

definition fits :: "nat \<Rightarrow> ReceivedPacket \<Rightarrow> bool" where
  "fits d r \<longleftrightarrow> d = (if 0 \<le> delta_ticks r \<and> delta_ticks r \<le> 255 then 1 else 2)
     \<and> - (2 ^ 15) \<le> delta_ticks r \<and> delta_ticks r < 2 ^ 15"

definition chunk_bytes :: "TransportFeedback \<Rightarrow> nat" where
  "chunk_bytes p = 20 + 2 * length (encoded_chunks p) + (if lc_size (last_chunk p) = 0 then 0 else 2)"

text \<open>The invariant of a message under construction.\<close>

definition tf_inv :: "TransportFeedback \<Rightarrow> bool" where
  "tf_inv p \<longleftrightarrow> chunk_inv (last_chunk p) \<and> num_seq_no p = length (deltas p) \<and> num_seq_no p \<le> 65535
     \<and> (lc_size (last_chunk p) = 0 \<longrightarrow> encoded_chunks p = [])
     \<and> described fits (base_seq_no p) (deltas p) (received_packets p)
     \<and> size_bytes p = chunk_bytes p + (if include_timestamps p then sum_list (deltas p) else 0)
     \<and> size_bytes p \<le> kMaxSizeBytes
     \<and> last_timestamp_us p = GetBaseTimeUs p + sum_list (map delta_us (received_packets p))
     \<and> (include_lost p \<longrightarrow> all_packets p = with_lost (base_seq_no p) (deltas p) (received_packets p))"

lemma described_append:
  "described fit seq ds rs \<Longrightarrow> described fit (seq + of_nat (length ds)) ds' rs'
    \<Longrightarrow> described fit seq (ds @ ds') (rs @ rs')"
  by (induction fit seq ds rs rule: described.induct) (auto simp: algebra_simps split: list.splits if_splits)

lemma with_lost_append:
  "described fit seq ds rs \<Longrightarrow>
     with_lost seq (ds @ ds') (rs @ rs') = with_lost seq ds rs @ with_lost (seq + of_nat (length ds)) ds' rs'"
  by (induction fit seq ds rs rule: described.induct) (auto simp: algebra_simps split: list.splits if_splits)

lemma AddDeltaSize_spec:
  assumes "chunk_inv (last_chunk p)" and "num_seq_no p = length (deltas p)" and "num_seq_no p \<le> 65535"
    and "d \<le> 2" and "AddDeltaSize d p = (True, p')"
  shows "\<exists>cs lc. p' = p\<lparr>encoded_chunks := cs, last_chunk := lc, num_seq_no := num_seq_no p + 1,
        size_bytes := size_bytes p'\<rparr>
      \<and> chunk_inv lc \<and> lc_size lc \<noteq> 0 \<and> deltas p' = deltas p @ [d] \<and> num_seq_no p < 65535
      \<and> size_bytes p' + d \<le> kMaxSizeBytes \<and> size_bytes p' + chunk_bytes p = size_bytes p + chunk_bytes p'"
proof -
  let ?c = "last_chunk p"
  have lt: "num_seq_no p < 65535"
    using assms(3,5) by (cases "num_seq_no p = 65535") (auto simp: AddDeltaSize_def tf_consts)
  have add: "lc_size (LastChunk_Add d c) \<noteq> 0" for c
    by (simp add: LastChunk_Add_def)
  show ?thesis
  proof (cases "CanAdd d ?c")
    case True
    with assms(5) lt have p': "p' = p\<lparr>size_bytes := size_bytes p + (if lc_size ?c = 0 then 2 else 0),
          last_chunk := LastChunk_Add d ?c, num_seq_no := num_seq_no p + 1\<rparr>"
      and sz: "size_bytes p + d + (if lc_size ?c = 0 then 2 else 0) \<le> kMaxSizeBytes"
      by (auto simp: AddDeltaSize_def Let_def tf_consts LastChunk_Empty_def split: if_splits)
    then show ?thesis
      using lt add Add_chunk_inv [OF assms(1) True assms(4)] Add_symbols [OF assms(1) True]
      by (intro exI [of _ "encoded_chunks p"] exI [of _ "LastChunk_Add d ?c"])
        (simp add: deltas_def chunk_bytes_def)
  next
    case False
    obtain chunk c' where e: "Emit ?c = (chunk, c')" by fastforce
    have "length (symbols ?c) \<le> kMaxReportedPackets"
      using assms(2,3) by (simp add: deltas_def tf_consts)
    note spec = Emit_spec [OF assms(1) False this, unfolded e fst_conv snd_conv]
    have can: "CanAdd d c'"
      using spec(3) by (simp add: CanAdd_def chunk_consts)
    have big: "lc_size ?c \<noteq> 0"
      using False by (auto simp: CanAdd_def chunk_consts split: if_splits)
    from False e assms(5) lt big have p': "p' = p\<lparr>encoded_chunks := encoded_chunks p @ [chunk],
          size_bytes := size_bytes p + 2, last_chunk := LastChunk_Add d c', num_seq_no := num_seq_no p + 1\<rparr>"
      and sz: "size_bytes p + d + 2 \<le> kMaxSizeBytes"
      by (auto simp: AddDeltaSize_def Let_def tf_consts LastChunk_Empty_def split: if_splits)
    then show ?thesis
      using lt add big Add_chunk_inv [OF spec(1) can assms(4)] Add_symbols [OF spec(1) can] spec(2)
      by (intro exI [of _ "encoded_chunks p @ [chunk]"] exI [of _ "LastChunk_Add d c'"])
        (simp add: deltas_def chunk_bytes_def)
  qed
qed

lemma AddDeltaSize_False: "AddDeltaSize d p = (False, p') \<Longrightarrow> p' = p"
  by (auto simp: AddDeltaSize_def Let_def split: if_splits prod.splits)

lemma deltas_upd [simp]:
  "deltas (push_lost s p) = deltas p" "deltas (push_received s d p) = deltas p"
  "deltas (p\<lparr>last_timestamp_us := t\<rparr>) = deltas p" "deltas (p\<lparr>size_bytes := n\<rparr>) = deltas p"
  by (simp_all add: deltas_def push_lost_def push_received_def Let_def)

lemma push_fields [simp]:
  "base_seq_no (push_lost s p) = base_seq_no p" "num_seq_no (push_lost s p) = num_seq_no p"
  "received_packets (push_lost s p) = received_packets p" "include_lost (push_lost s p) = include_lost p"
  "include_timestamps (push_lost s p) = include_timestamps p" "size_bytes (push_lost s p) = size_bytes p"
  "last_timestamp_us (push_lost s p) = last_timestamp_us p" "last_chunk (push_lost s p) = last_chunk p"
  "encoded_chunks (push_lost s p) = encoded_chunks p" "base_time_ticks (push_lost s p) = base_time_ticks p"
  "include_lost p \<Longrightarrow> all_packets (push_lost s p) = all_packets p @ [LostPacket_init s]"
  "feedback_seq (push_lost s p) = feedback_seq p" "sender_ssrc (push_lost s p) = sender_ssrc p"
  "media_ssrc (push_lost s p) = media_ssrc p"
  "base_seq_no (push_received s d p) = base_seq_no p" "num_seq_no (push_received s d p) = num_seq_no p"
  "received_packets (push_received s d p) = received_packets p @ [ReceivedPacket_init s d]"
  "include_lost (push_received s d p) = include_lost p"
  "include_timestamps (push_received s d p) = include_timestamps p"
  "size_bytes (push_received s d p) = size_bytes p"
  "last_timestamp_us (push_received s d p) = last_timestamp_us p"
  "last_chunk (push_received s d p) = last_chunk p"
  "encoded_chunks (push_received s d p) = encoded_chunks p"
  "base_time_ticks (push_received s d p) = base_time_ticks p"
  "include_lost p \<Longrightarrow> all_packets (push_received s d p) = all_packets p @ [ReceivedPacket_init s d]"
  "feedback_seq (push_received s d p) = feedback_seq p" "sender_ssrc (push_received s d p) = sender_ssrc p"
  "media_ssrc (push_received s d p) = media_ssrc p"
  by (simp_all add: push_lost_def push_received_def Let_def)

lemma GetBaseTimeUs_upd [simp]:
  "GetBaseTimeUs (push_lost s p) = GetBaseTimeUs p" "GetBaseTimeUs (push_received s d p) = GetBaseTimeUs p"
  by (simp_all add: GetBaseTimeUs_def)

lemma chunk_bytes_upd [simp]:
  "chunk_bytes (push_lost s p) = chunk_bytes p" "chunk_bytes (push_received s d p) = chunk_bytes p"
  by (simp_all add: chunk_bytes_def)

lemma tf_inv_lost:
  assumes "tf_inv p" and "AddDeltaSize 0 p = (True, p')"
  shows "tf_inv (push_lost (base_seq_no p + of_nat (num_seq_no p)) p')"
    and "num_seq_no p' = num_seq_no p + 1"
proof -
  obtain cs lc where p': "p' = p\<lparr>encoded_chunks := cs, last_chunk := lc, num_seq_no := num_seq_no p + 1,
        size_bytes := size_bytes p'\<rparr>"
    and spec: "chunk_inv lc" "lc_size lc \<noteq> 0" "deltas p' = deltas p @ [0]" "num_seq_no p < 65535"
      "size_bytes p' \<le> kMaxSizeBytes" "size_bytes p' + chunk_bytes p = size_bytes p + chunk_bytes p'"
    using AddDeltaSize_spec [of p 0 p'] assms by (auto simp: tf_inv_def)
  have same: "base_seq_no p' = base_seq_no p" "received_packets p' = received_packets p"
    "include_lost p' = include_lost p" "all_packets p' = all_packets p"
    "include_timestamps p' = include_timestamps p" "last_timestamp_us p' = last_timestamp_us p"
    "GetBaseTimeUs p' = GetBaseTimeUs p" "last_chunk p' = lc" "num_seq_no p' = num_seq_no p + 1"
    by (subst p'; simp add: GetBaseTimeUs_def)+
  show "num_seq_no p' = num_seq_no p + 1" by (rule same)
  have desc: "described fits (base_seq_no p) (deltas p) (received_packets p)"
    and num: "num_seq_no p = length (deltas p)"
    using assms(1) by (simp_all add: tf_inv_def)
  have "described fits (base_seq_no p) (deltas p @ [0]) (received_packets p)"
    using described_append [OF desc, of "[0]" "[]"] by simp
  moreover have "with_lost (base_seq_no p) (deltas p @ [0]) (received_packets p)
      = with_lost (base_seq_no p) (deltas p) (received_packets p)
        @ [LostPacket_init (base_seq_no p + of_nat (num_seq_no p))]"
    using with_lost_append [OF desc, of "[0]" "[]"] num by simp
  ultimately show "tf_inv (push_lost (base_seq_no p + of_nat (num_seq_no p)) p')"
    using assms(1) spec by (auto simp: tf_inv_def same)
qed

lemma tf_inv_received:
  assumes "tf_inv p" and "AddDeltaSize d p = (True, p')" and "fits d (ReceivedPacket_init seq delta)"
    and "seq = base_seq_no p + of_nat (num_seq_no p)"
  defines "q \<equiv> (push_received seq delta p')\<lparr>last_timestamp_us := last_timestamp_us p' + delta * kDeltaScaleFactor\<rparr>"
  shows "tf_inv (if include_timestamps p' then q\<lparr>size_bytes := size_bytes q + d\<rparr> else q)"
proof -
  have d: "d \<le> 2" "0 < d"
    using assms(3) by (auto simp: fits_def split: if_splits)
  obtain cs lc where p': "p' = p\<lparr>encoded_chunks := cs, last_chunk := lc, num_seq_no := num_seq_no p + 1,
        size_bytes := size_bytes p'\<rparr>"
    and spec: "chunk_inv lc" "lc_size lc \<noteq> 0" "deltas p' = deltas p @ [d]" "num_seq_no p < 65535"
      "size_bytes p' + d \<le> kMaxSizeBytes" "size_bytes p' + chunk_bytes p = size_bytes p + chunk_bytes p'"
    using AddDeltaSize_spec [of p d p'] assms(1,2) d by (auto simp: tf_inv_def)
  have same: "base_seq_no p' = base_seq_no p" "received_packets p' = received_packets p"
    "include_lost p' = include_lost p" "all_packets p' = all_packets p"
    "include_timestamps p' = include_timestamps p" "last_timestamp_us p' = last_timestamp_us p"
    "GetBaseTimeUs p' = GetBaseTimeUs p" "last_chunk p' = lc" "num_seq_no p' = num_seq_no p + 1"
    by (subst p'; simp add: GetBaseTimeUs_def)+
  have upd: "GetBaseTimeUs q = GetBaseTimeUs p" "chunk_bytes q = chunk_bytes p'" "deltas q = deltas p @ [d]"
    "GetBaseTimeUs (q\<lparr>size_bytes := n\<rparr>) = GetBaseTimeUs p" "chunk_bytes (q\<lparr>size_bytes := n\<rparr>) = chunk_bytes p'"
    for n using spec(3) same(7) by (simp_all add: q_def GetBaseTimeUs_def chunk_bytes_def)
  have q: "base_seq_no q = base_seq_no p" "num_seq_no q = num_seq_no p + 1" "last_chunk q = lc"
    "received_packets q = received_packets p @ [ReceivedPacket_init seq delta]"
    "include_lost q = include_lost p" "include_timestamps q = include_timestamps p"
    "size_bytes q = size_bytes p'" "last_timestamp_us q = last_timestamp_us p + delta * kDeltaScaleFactor"
    "include_lost p \<Longrightarrow> all_packets q = all_packets p @ [ReceivedPacket_init seq delta]"
    by (simp_all add: q_def same)
  have desc: "described fits (base_seq_no p) (deltas p) (received_packets p)"
    and num: "num_seq_no p = length (deltas p)"
    using assms(1) by (simp_all add: tf_inv_def)
  have "described fits (base_seq_no p) (deltas p @ [d]) (received_packets p @ [ReceivedPacket_init seq delta])"
    using described_append [OF desc, of "[d]" "[ReceivedPacket_init seq delta]"] assms(3,4) num d
    by (simp add: ReceivedPacket_init_def)
  moreover have "with_lost (base_seq_no p) (deltas p @ [d]) (received_packets p @ [ReceivedPacket_init seq delta])
      = with_lost (base_seq_no p) (deltas p) (received_packets p) @ [ReceivedPacket_init seq delta]"
    using with_lost_append [OF desc, of "[d]" "[ReceivedPacket_init seq delta]"] d by simp
  moreover have "delta_us (ReceivedPacket_init seq delta) = delta * kDeltaScaleFactor"
    by (simp add: delta_us_def ReceivedPacket_init_def)
  ultimately show ?thesis
    using assms(1) spec by (cases "include_timestamps p") (simp_all add: tf_inv_def upd same(5) q)
qed

text \<open>What the operations below keep of a message.\<close>

definition same_header :: "TransportFeedback \<Rightarrow> TransportFeedback \<Rightarrow> bool" where
  "same_header p q \<longleftrightarrow> base_seq_no q = base_seq_no p \<and> base_time_ticks q = base_time_ticks p
     \<and> include_lost q = include_lost p \<and> include_timestamps q = include_timestamps p
     \<and> feedback_seq q = feedback_seq p"

lemma AddDeltaSize_same_header:
  "AddDeltaSize d p = (ok, p') \<Longrightarrow> same_header p p' \<and> received_packets p' = received_packets p
     \<and> last_timestamp_us p' = last_timestamp_us p"
  by (auto simp: AddDeltaSize_def Let_def same_header_def split: if_splits prod.splits)

lemma AddLostPackets_inv:
  assumes "tf_inv p" and "next_seq_no = base_seq_no p + of_nat (num_seq_no p)"
    and "AddLostPackets seq next_seq_no p = (ok, p')"
  shows "tf_inv p' \<and> same_header p p' \<and> received_packets p' = received_packets p
    \<and> last_timestamp_us p' = last_timestamp_us p
    \<and> (ok \<longrightarrow> seq = base_seq_no p' + of_nat (num_seq_no p'))"
  using assms
proof (induction seq next_seq_no p rule: AddLostPackets.induct)
  case (1 seq next_seq_no p)
  show ?case
  proof (cases "next_seq_no = seq")
    case True
    then have "AddLostPackets seq next_seq_no p = (True, p)"
      by (subst AddLostPackets.simps) simp
    then have "p' = p" using "1.prems"(3) by simp
    with True "1.prems"(1,2) show ?thesis
      by (simp add: same_header_def)
  next
    case False
    obtain ok' q where q: "AddDeltaSize 0 p = (ok', q)" by fastforce
    note keep = AddDeltaSize_same_header [OF q]
    show ?thesis
    proof (cases ok')
      case True
      then have "AddDeltaSize 0 p = (True, q)" using q by simp
      note lost = tf_inv_lost [OF "1.prems"(1) this]
      let ?q = "push_lost next_seq_no q"
      have inv: "tf_inv ?q" "num_seq_no ?q = num_seq_no p + 1"
        using lost q True "1.prems"(2) by simp_all
      have "next_seq_no + 1 = base_seq_no ?q + of_nat (num_seq_no ?q)"
        using "1.prems"(2) keep inv(2) by (simp add: same_header_def)
      moreover have "AddLostPackets seq (next_seq_no + 1) ?q = (ok, p')"
        using "1.prems"(3) False q True by (simp add: AddLostPackets.simps [of seq next_seq_no p])
      ultimately have "tf_inv p' \<and> same_header ?q p' \<and> received_packets p' = received_packets ?q
          \<and> last_timestamp_us p' = last_timestamp_us ?q
          \<and> (ok \<longrightarrow> seq = base_seq_no p' + of_nat (num_seq_no p'))"
        using "1.IH" [OF False q [symmetric]] True inv(1) by simp
      then show ?thesis
        using keep by (simp add: same_header_def)
    next
      case no: False
      then have "p' = p" "\<not> ok"
        using "1.prems"(3) False q AddDeltaSize_False
        by (auto simp: AddLostPackets.simps [of seq next_seq_no p])
      with "1.prems"(1) show ?thesis
        by (simp add: same_header_def)
    qed
  qed
qed

lemma to_int16_bounds: "- (2 ^ 15) \<le> to_int16 x" "to_int16 x < 2 ^ 15"
  using sint_ge [of "word_of_int x :: 16 word"] sint_lt [of "word_of_int x :: 16 word"]
  by (simp_all add: to_int16_def)

text \<open>
  \<open>AddReceivedPacket\<close> keeps the invariant whatever it returns; when it succeeds, it has
  appended the packet with the delta in ticks.
\<close>

lemma AddReceivedPacket_inv:
  assumes "tf_inv p" and "AddReceivedPacket is_newer seq t p = (ok, p')"
  shows "tf_inv p' \<and> same_header p p' \<and> received_packets p' = received_packets p @ (if ok
    then [ReceivedPacket_init seq (if include_timestamps p then delta_full t p else 0)] else [])"
proof -
  define full where "full = (if include_timestamps p then delta_full t p else 0)"
  define d where "d = (if 0 \<le> to_int16 full \<and> to_int16 full \<le> 0xff then 1 else 2 :: nat)"
  define pre where "pre = (if seq \<noteq> base_seq_no p + of_nat (num_seq_no p) then
      (if \<not> is_newer seq (base_seq_no p + of_nat (num_seq_no p) - 1) then (False, p)
       else AddLostPackets seq (base_seq_no p + of_nat (num_seq_no p)) p) else (True, p))"
  obtain ok1 q where q: "pre = (ok1, q)" by fastforce
  have lost: "tf_inv q \<and> same_header p q \<and> received_packets q = received_packets p
    \<and> last_timestamp_us q = last_timestamp_us p
    \<and> (ok1 \<longrightarrow> seq = base_seq_no q + of_nat (num_seq_no q))"
  proof (cases "seq \<noteq> base_seq_no p + of_nat (num_seq_no p) \<and> is_newer seq (base_seq_no p + of_nat (num_seq_no p) - 1)")
    case True
    with q have "AddLostPackets seq (base_seq_no p + of_nat (num_seq_no p)) p = (ok1, q)"
      by (simp add: pre_def)
    from AddLostPackets_inv [OF assms(1) refl this] show ?thesis .
  next
    case False
    with q have "q = p" "ok1 \<longrightarrow> seq = base_seq_no p + of_nat (num_seq_no p)"
      by (auto simp: pre_def split: if_splits)
    with assms(1) show ?thesis by (simp add: same_header_def)
  qed
  obtain ok2 r where r: "AddDeltaSize d q = (ok2, r)" by fastforce
  note keep = AddDeltaSize_same_header [OF r]
  let ?s = "(push_received seq (to_int16 full) r)\<lparr>last_timestamp_us := last_timestamp_us r
      + to_int16 full * kDeltaScaleFactor\<rparr>"
  have run: "AddReceivedPacket is_newer seq t p =
      (if to_int16 full \<noteq> full then (False, p) else if \<not> ok1 then (False, q)
       else if \<not> ok2 then (False, r)
       else (True, if include_timestamps r then ?s\<lparr>size_bytes := size_bytes ?s + d\<rparr> else ?s))"
    by (simp only: AddReceivedPacket_def Let_def full_def [symmetric] d_def [symmetric]
        pre_def [symmetric] q r prod.case) simp
  consider "to_int16 full \<noteq> full" | "to_int16 full = full" "\<not> ok1" | "to_int16 full = full" "ok1" "\<not> ok2"
    | "to_int16 full = full" "ok1" "ok2" by blast
  then show ?thesis
  proof cases
    case 4
    then have "fits d (ReceivedPacket_init seq (to_int16 full))"
      using to_int16_bounds [of full] by (simp add: fits_def d_def ReceivedPacket_init_def)
    then have "tf_inv (if include_timestamps r then ?s\<lparr>size_bytes := size_bytes ?s + d\<rparr> else ?s)"
      using tf_inv_received [of q d r seq "to_int16 full"] lost r 4 by simp
    with 4 run lost keep assms(2) show ?thesis
      by (auto simp: same_header_def full_def [symmetric])
  qed (use run lost assms r AddDeltaSize_False in \<open>auto simp: same_header_def\<close>)
qed

lemma tf_inv_init:
  "length junk = 14 \<Longrightarrow> tf_inv (TransportFeedback_init junk ts lost)"
  by (simp add: tf_inv_def TransportFeedback_init_def chunk_inv_def chunk_shape_def symbols_def deltas_def
      chunk_bytes_def tf_consts GetBaseTimeUs_def)

lemma tf_inv_SetBase:
  assumes "tf_inv p" and "num_seq_no p = 0"
  shows "tf_inv (SetBase seq t p)"
proof -
  have d: "deltas (SetBase seq t p) = deltas p" and c: "chunk_bytes (SetBase seq t p) = chunk_bytes p"
    "last_chunk (SetBase seq t p) = last_chunk p" "encoded_chunks (SetBase seq t p) = encoded_chunks p"
    "size_bytes (SetBase seq t p) = size_bytes p" "num_seq_no (SetBase seq t p) = num_seq_no p"
    "received_packets (SetBase seq t p) = received_packets p" "all_packets (SetBase seq t p) = all_packets p"
    "include_lost (SetBase seq t p) = include_lost p"
    "include_timestamps (SetBase seq t p) = include_timestamps p"
    "last_timestamp_us (SetBase seq t p) = GetBaseTimeUs (SetBase seq t p)"
    by (simp_all add: SetBase_def deltas_def chunk_bytes_def GetBaseTimeUs_def)
  have "deltas p = []" "received_packets p = []" "include_lost p \<longrightarrow> all_packets p = []"
    using assms by (auto simp: tf_inv_def)
  then show ?thesis
    using assms(1) d by (simp add: tf_inv_def c)
qed

subsection \<open>Consistency\<close>

abbreviation full_symbols :: "u16 \<Rightarrow> nat list" where
  "full_symbols chunk \<equiv> chunk_symbols chunk kMaxReportedPackets"

text \<open>What \<open>IsConsistent\<close> asks of a packet and its delta size.\<close>

definition loosely_fits :: "nat \<Rightarrow> ReceivedPacket \<Rightarrow> bool" where
  "loosely_fits d r \<longleftrightarrow> (d = 1 \<longrightarrow> 0 \<le> delta_ticks r \<and> delta_ticks r \<le> 255)"

lemma described_mono:
  "described fit seq ds rs \<Longrightarrow> (\<And>d r. fit d r \<Longrightarrow> fit' d r) \<Longrightarrow> described fit' seq ds rs"
  by (induction fit seq ds rs rule: described.induct) (auto split: list.splits if_splits)

lemma fits_loosely: "fits d r \<Longrightarrow> loosely_fits d r"
  by (auto simp: fits_def loosely_fits_def split: if_splits)

lemma decode_chunks_eq:
  "length (delta_sizes decoder) = 14 \<Longrightarrow> decode_chunks cs decoder ds = ds @ concat (map full_symbols cs)"
proof (induction cs arbitrary: decoder ds)
  case (Cons c cs)
  have "length (delta_sizes (Decode c kMaxReportedPackets decoder)) = 14"
    using Decode_symbols(2) [OF Cons.prems] by (simp add: chunk_shape_def)
  then show ?case
    using Cons Decode_symbols(1) [OF Cons.prems] by (simp add: AppendTo_def)
qed simp

lemma consistent_packets_eq:
  "described loosely_fits seq ds rs \<Longrightarrow> consistent_packets ts ds seq rs t sz =
     Some ([], t + sum_list (map delta_us rs), sz + (if ts then sum_list ds else 0))"
proof (induction ds arbitrary: seq rs t sz)
  case (Cons d ds)
  show ?case
  proof (cases "d = 0")
    case True
    then show ?thesis using Cons by simp
  next
    case False
    with Cons.prems obtain r rs' where "rs = r # rs'" "sequence_number r = seq" "loosely_fits d r"
      "described loosely_fits (seq + 1) ds rs'"
      by (cases rs) auto
    moreover have "\<not> (d = 1 \<and> (delta_ticks r < 0 \<or> delta_ticks r > 255))"
      using \<open>loosely_fits d r\<close> by (auto simp: loosely_fits_def)
    ultimately show ?thesis
      using False Cons.IH by simp
  qed
qed simp

lemma IsConsistentI:
  assumes "length junk = 14" and "num_seq_no p = length (deltas p)"
    and "described loosely_fits (base_seq_no p) (deltas p) (received_packets p)"
    and "last_timestamp_us p = GetBaseTimeUs p + sum_list (map delta_us (received_packets p))"
    and "size_bytes p = chunk_bytes p + (if include_timestamps p then sum_list (deltas p) else 0)"
  shows "IsConsistent junk p"
proof -
  have d: "decode_chunks (encoded_chunks p) \<lparr>delta_sizes = junk, lc_size = 0, all_same = True,
      has_large_delta = False\<rparr> [] = concat (map full_symbols (encoded_chunks p))"
    using assms(1) by (simp add: decode_chunks_eq)
  have "deltas p = concat (map full_symbols (encoded_chunks p))" if "lc_size (last_chunk p) = 0"
    using that by (simp add: deltas_def symbols_def)
  then have "(if \<not> LastChunk_Empty (last_chunk p)
      then (AppendTo (last_chunk p) (concat (map full_symbols (encoded_chunks p))),
            kTransportFeedbackHeaderSizeBytes + length (encoded_chunks p) * kChunkSizeBytes + kChunkSizeBytes)
      else (concat (map full_symbols (encoded_chunks p)),
            kTransportFeedbackHeaderSizeBytes + length (encoded_chunks p) * kChunkSizeBytes))
      = (deltas p, chunk_bytes p)"
    by (simp add: LastChunk_Empty_def AppendTo_def deltas_def chunk_bytes_def tf_consts)
  then show ?thesis
    using assms(2-5) consistent_packets_eq [OF assms(3)]
    by (simp only: IsConsistent_def Let_def d prod.case) simp
qed

lemma tf_inv_consistent: "tf_inv p \<Longrightarrow> length junk = 14 \<Longrightarrow> IsConsistent junk p"
  by (rule IsConsistentI) (auto simp: tf_inv_def elim: described_mono fits_loosely)

subsection \<open>Parsing arbitrary bytes\<close>

lemma chunk_symbols_take:
  assumes "n \<le> m"
  shows "chunk_symbols chunk n = take n (chunk_symbols chunk m)"
proof -
  have "take n (replicate (min k m) x) = replicate (min k n) x" for k and x :: nat
    using assms by (simp add: min_def)
  moreover have "take n (map f [0..<min k m]) = map f [0..<min k n]" for k and f :: "nat \<Rightarrow> nat"
    using assms by (simp add: take_map min_def)
  ultimately show ?thesis
    by (simp add: chunk_symbols_def del: take_map take_replicate)
qed

lemma full_symbols_exact:
  assumes "n \<le> kMaxReportedPackets" and "length (chunk_symbols chunk n) < n"
  shows "chunk_symbols chunk n = full_symbols chunk"
  using chunk_symbols_take [OF assms(1), of chunk] assms(2) by (simp add: min_def split: if_splits)

text \<open>
  The chunk loop: on success the delta sizes are those of all chunks, the last of which is
  kept decoded.
\<close>

lemma ParseChunks_spec:
  assumes "end_index \<le> length bs" and "count \<le> kMaxReportedPackets" and "length ds < count"
    and "ds = concat (map full_symbols (encoded_chunks p))" and "length (delta_sizes (last_chunk p)) = 14"
    and "pos \<le> end_index"
  shows "returns (ParseChunks bs end_index count pos ds p) (\<lambda>(p', ds', pos').
    \<exists>cs lc. p' = p\<lparr>encoded_chunks := encoded_chunks p @ cs, last_chunk := lc\<rparr> \<and> cs \<noteq> [] \<and> chunk_shape lc
      \<and> ds' = concat (map full_symbols (encoded_chunks p @ butlast cs)) @ symbols lc \<and> symbols lc \<noteq> []
      \<and> (\<forall>s \<in> set (symbols lc). s \<le> 3) \<and> length ds' = count \<and> pos' = pos + 2 * length cs \<and> pos' \<le> end_index)"
  using assms
proof (induction bs end_index count pos ds p rule: ParseChunks.induct)
  case (1 bs end_index count pos ds p)
  show ?case
  proof (cases "pos + 2 > end_index")
    case True
    then show ?thesis
      using "1.prems"(3) by (simp add: ParseChunks.simps [of bs end_index count pos ds p] kChunkSizeBytes_def)
  next
    case False
    define chunk where "chunk = (ReadBigEndian2 (take 2 (drop pos bs)) :: u16)"
    have read: "get_be16 bs pos = Some chunk"
      using False "1.prems"(1) unfolding chunk_def by (intro fetch_Some) simp
    define rem where "rem = count - length ds"
    define lc where "lc = Decode chunk rem (last_chunk p)"
    define q where "q = p\<lparr>encoded_chunks := encoded_chunks p @ [chunk], last_chunk := lc\<rparr>"
    have lc: "symbols lc = chunk_symbols chunk rem" "chunk_shape lc"
      using Decode_symbols "1.prems"(5) by (simp_all add: lc_def)
    have bound: "length (symbols lc) \<le> rem"
      using chunk_symbols_bounds(1) [of chunk rem] by (simp add: lc)
    have step: "ParseChunks bs end_index count pos ds p
        = ParseChunks bs end_index count (pos + 2) (ds @ symbols lc) q"
      using False read "1.prems"(3)
      by (simp add: ParseChunks.simps [of bs end_index count pos ds p] kChunkSizeBytes_def q_def lc_def
          rem_def AppendTo_def)
    show ?thesis
    proof (cases "length (symbols lc) = rem")
      case True
      then have "length (ds @ symbols lc) = count" "symbols lc \<noteq> []"
        using "1.prems"(3) by (auto simp: rem_def)
      moreover from this have "ParseChunks bs end_index count (pos + 2) (ds @ symbols lc) q
          = Some (True, (q, ds @ symbols lc, pos + 2))"
        by (subst ParseChunks.simps) simp
      ultimately show ?thesis
        unfolding step using False lc(2) chunk_symbols_bounds(2) [of chunk rem] "1.prems"(4)
        by (auto simp: q_def lc(1) intro!: exI [of _ "[chunk]"] exI [of _ lc])
    next
      case short: False
      then have len: "length (ds @ symbols lc) < count"
        using bound "1.prems"(3) by (simp add: rem_def)
      have "symbols lc = full_symbols chunk"
        using full_symbols_exact [of rem chunk] bound short "1.prems"(2) by (simp add: lc rem_def)
      then have ds: "ds @ symbols lc = concat (map full_symbols (encoded_chunks q))"
        using "1.prems"(4) by (simp add: q_def)
      have app: "AppendTo (last_chunk q) ds = ds @ symbols lc"
        by (simp add: q_def AppendTo_def)
      have q_eq: "q = p\<lparr>encoded_chunks := encoded_chunks p @ [chunk],
          last_chunk := Decode chunk (count - length ds) (last_chunk p)\<rparr>"
        by (simp add: q_def lc_def rem_def)
      have q14: "length (delta_sizes (last_chunk q)) = 14"
        using lc(2) by (simp add: q_def chunk_shape_def)
      have "returns (ParseChunks bs end_index count (pos + 2) (ds @ symbols lc) q) (\<lambda>(p', ds', pos').
        \<exists>cs lc. p' = q\<lparr>encoded_chunks := encoded_chunks q @ cs, last_chunk := lc\<rparr> \<and> cs \<noteq> [] \<and> chunk_shape lc
        \<and> ds' = concat (map full_symbols (encoded_chunks q @ butlast cs)) @ symbols lc \<and> symbols lc \<noteq> []
        \<and> (\<forall>s \<in> set (symbols lc). s \<le> 3) \<and> length ds' = count \<and> pos' = pos + 2 + 2 * length cs \<and> pos' \<le> end_index)"
        using "1.IH" [OF "1.prems"(3) _ read q_eq, unfolded app kChunkSizeBytes_def] False len ds q14
          "1.prems"(1,2) by simp
      then obtain ok p' ds' pos' where run:
          "ParseChunks bs end_index count (pos + 2) (ds @ symbols lc) q = Some (ok, (p', ds', pos'))"
        and res: "ok \<Longrightarrow> \<exists>cs lc. p' = q\<lparr>encoded_chunks := encoded_chunks q @ cs, last_chunk := lc\<rparr>
          \<and> cs \<noteq> [] \<and> chunk_shape lc
          \<and> ds' = concat (map full_symbols (encoded_chunks q @ butlast cs)) @ symbols lc \<and> symbols lc \<noteq> []
          \<and> (\<forall>s \<in> set (symbols lc). s \<le> 3) \<and> length ds' = count \<and> pos' = pos + 2 + 2 * length cs \<and> pos' \<le> end_index"
        by (elim returnsE) auto
      show ?thesis
        unfolding step run returns_simps prod.case
      proof
        assume ok
        then obtain cs lc' where "p' = q\<lparr>encoded_chunks := encoded_chunks q @ cs, last_chunk := lc'\<rparr>" "cs \<noteq> []"
          "chunk_shape lc'" "ds' = concat (map full_symbols (encoded_chunks q @ butlast cs)) @ symbols lc'"
          "symbols lc' \<noteq> []" "\<forall>s \<in> set (symbols lc'). s \<le> 3" "length ds' = count" "pos' = pos + 2 + 2 * length cs" "pos' \<le> end_index"
          using res by blast
        then show "\<exists>cs lc. p' = p\<lparr>encoded_chunks := encoded_chunks p @ cs, last_chunk := lc\<rparr>
          \<and> cs \<noteq> [] \<and> chunk_shape lc
          \<and> ds' = concat (map full_symbols (encoded_chunks p @ butlast cs)) @ symbols lc \<and> symbols lc \<noteq> []
          \<and> (\<forall>s \<in> set (symbols lc). s \<le> 3) \<and> length ds' = count \<and> pos' = pos + 2 * length cs \<and> pos' \<le> end_index"
          by (intro exI [of _ "chunk # cs"] exI [of _ lc']) (simp add: q_def)
      qed
    qed
  qed
qed

text \<open>What the packets \<open>rs\<close> of the delta sizes \<open>ds\<close> add to a message.\<close>

definition report :: "u16 \<Rightarrow> nat list \<Rightarrow> ReceivedPacket list \<Rightarrow> TransportFeedback \<Rightarrow> TransportFeedback" where
  "report seq ds rs p = p\<lparr>last_timestamp_us := last_timestamp_us p + sum_list (map delta_us rs),
     received_packets := received_packets p @ rs,
     all_packets := all_packets p @ (if include_lost p then with_lost seq ds rs else [])\<rparr>"

lemma report_Nil [simp]: "report seq [] [] p = p"
  by (simp add: report_def)

lemma report_lost: "report (seq + 1) ds rs (push_lost seq p) = report seq (0 # ds) rs p"
  by (cases p) (simp add: report_def push_lost_def)

lemma report_received:
  "d \<noteq> 0 \<Longrightarrow> report (seq + 1) ds rs ((push_received seq delta p)
      \<lparr>last_timestamp_us := last_timestamp_us p + delta * kDeltaScaleFactor\<rparr>)
    = report seq (d # ds) (ReceivedPacket_init seq delta # rs) p"
  by (cases p) (simp add: report_def push_received_def delta_us_def ReceivedPacket_init_def Let_def)

lemma report_received0:
  "d \<noteq> 0 \<Longrightarrow> report (seq + 1) ds rs (push_received seq 0 p)
    = report seq (d # ds) (ReceivedPacket_init seq 0 # rs) p"
  by (cases p) (simp add: report_def push_received_def delta_us_def ReceivedPacket_init_def Let_def)

lemma ReceivedPacket_init_sel [simp]:
  "sequence_number (ReceivedPacket_init s d) = s" "delta_ticks (ReceivedPacket_init s d) = d"
  "received (ReceivedPacket_init s d)"
  by (simp_all add: ReceivedPacket_init_def)

lemma described_received:
  "d \<noteq> 0 \<Longrightarrow> described fit seq (d # ds) (ReceivedPacket_init seq delta # rs)
    \<longleftrightarrow> fit d (ReceivedPacket_init seq delta) \<and> described fit (seq + 1) ds rs"
  by simp

lemma ParseStatuses_spec:
  "\<exists>rs. ParseStatuses ds seq p = report seq ds rs p \<and> described loosely_fits seq ds rs"
proof (induction ds arbitrary: seq p)
  case (Cons d ds)
  show ?case
  proof (cases "d = 0")
    case True
    then show ?thesis using Cons by (simp flip: report_lost)
  next
    case False
    obtain rs where "ParseStatuses ds (seq + 1) (push_received seq 0 p) = report (seq + 1) ds rs (push_received seq 0 p)"
      "described loosely_fits (seq + 1) ds rs" using Cons by blast
    moreover have "loosely_fits d (ReceivedPacket_init seq 0)"
      by (simp add: loosely_fits_def)
    ultimately show ?thesis using False
      by (intro exI [of _ "ReceivedPacket_init seq 0 # rs"]) (simp add: report_received0)
  qed
qed (simp add: report_def)

lemma ParseDeltas_spec:
  assumes "end_index \<le> length bs" and "pos \<le> end_index" and "\<forall>d \<in> set ds. d \<le> 3"
  shows "returns (ParseDeltas bs end_index ds seq pos p) (\<lambda>(p', pos').
    pos' = pos + sum_list ds \<and> pos' \<le> end_index
      \<and> (\<exists>rs. p' = report seq ds rs p \<and> described loosely_fits seq ds rs))"
  using assms
proof (induction ds arbitrary: seq pos p)
  case (Cons d ds)
  show ?case
  proof (cases "pos + d > end_index \<or> d = 3")
    case True
    then show ?thesis by auto
  next
    case False
    then have le: "pos + d \<le> end_index" by simp
    have ds: "\<forall>d \<in> set ds. d \<le> 3" using Cons.prems(3) by simp
    show ?thesis
    proof (cases "d = 0")
      case True
      then show ?thesis
        using Cons.IH [OF Cons.prems(1,2) ds, of "seq + 1" "push_lost seq p"] le by (simp add: report_lost)
    next
      case nz: False
      define delta where "delta = (if d = 1 then int (unat (bs ! pos)) else ReadSigned16 (take 2 (drop pos bs)))"
      define q where "q = (push_received seq delta p)
        \<lparr>last_timestamp_us := last_timestamp_us p + delta * kDeltaScaleFactor\<rparr>"
      have d: "d = 1 \<or> d = 2" using nz False Cons.prems(3) by auto
      have step: "ParseDeltas bs end_index (d # ds) seq pos p = ParseDeltas bs end_index ds (seq + 1) (pos + d) q"
        using d le Cons.prems(1) by (auto simp: q_def delta_def get_u8_Some fetch_Some Let_def)
      have "loosely_fits d (ReceivedPacket_init seq delta)"
        using uint_lt2p [of "bs ! pos"] by (auto simp: loosely_fits_def delta_def)
      then have desc: "described loosely_fits seq (d # ds) (ReceivedPacket_init seq delta # rs)
          = described loosely_fits (seq + 1) ds rs" for rs
        using nz by simp
      from Cons.IH [OF Cons.prems(1) le ds, of "seq + 1" q] obtain ok p' pos' where
        run: "ParseDeltas bs end_index ds (seq + 1) (pos + d) q = Some (ok, (p', pos'))"
        and res: "ok \<Longrightarrow> pos' = pos + d + sum_list ds \<and> pos' \<le> end_index
          \<and> (\<exists>rs. p' = report (seq + 1) ds rs q \<and> described loosely_fits (seq + 1) ds rs)"
        by (elim returnsE) auto
      show ?thesis
        unfolding step run returns_simps prod.case
        using res desc unfolding q_def report_received [OF nz] by fastforce
    qed
  qed
qed (simp add: report_def)

text \<open>What holds of a parsed message: delta sizes need only loosely fit the deltas.\<close>

definition parsed_inv :: "TransportFeedback \<Rightarrow> bool" where
  "parsed_inv p \<longleftrightarrow> chunk_shape (last_chunk p) \<and> lc_size (last_chunk p) \<noteq> 0
     \<and> num_seq_no p = length (deltas p) \<and> 0 < num_seq_no p \<and> num_seq_no p \<le> 65535
     \<and> described loosely_fits (base_seq_no p) (deltas p) (received_packets p)
     \<and> last_timestamp_us p = GetBaseTimeUs p + sum_list (map delta_us (received_packets p))
     \<and> (include_lost p \<longrightarrow> all_packets p = with_lost (base_seq_no p) (deltas p) (received_packets p))"

definition parsed_size :: "TransportFeedback \<Rightarrow> bool" where
  "parsed_size p \<longleftrightarrow> size_bytes p = chunk_bytes p + (if include_timestamps p then sum_list (deltas p) else 0)"

text \<open>The state behind the two packet loops, from the state behind the chunk loop.\<close>

lemma parsed_inv_report:
  assumes "chunk_shape lc" and "symbols lc \<noteq> []" and "cs \<noteq> []"
    and "ds = concat (map full_symbols (butlast cs)) @ symbols lc" and "length ds = count" and "count \<le> 65535"
    and "described loosely_fits (base_seq_no p) ds rs"
    and "received_packets p = []" and "all_packets p = []" and "last_timestamp_us p = GetBaseTimeUs p"
  defines "q \<equiv> report (base_seq_no p) ds rs (p\<lparr>encoded_chunks := butlast cs, last_chunk := lc, num_seq_no := count\<rparr>)"
  shows "parsed_inv (q\<lparr>size_bytes := n\<rparr>)" and "deltas (q\<lparr>size_bytes := n\<rparr>) = ds"
    and "chunk_bytes (q\<lparr>size_bytes := n\<rparr>) = 20 + 2 * length cs"
    and "include_lost q = include_lost p" and "include_timestamps q = include_timestamps p"
    and "sender_ssrc q = sender_ssrc p"
proof -
  have lc: "lc_size lc \<noteq> 0"
    using assms(1,2) length_symbols [of lc] by (metis length_0_conv)
  show d: "deltas (q\<lparr>size_bytes := n\<rparr>) = ds"
    using assms(4) by (simp add: q_def report_def deltas_def)
  have "GetBaseTimeUs (q\<lparr>size_bytes := n\<rparr>) = GetBaseTimeUs p"
    by (simp add: q_def report_def GetBaseTimeUs_def)
  with d lc show "parsed_inv (q\<lparr>size_bytes := n\<rparr>)"
    using assms(1,2,4-10) unfolding parsed_inv_def
    by (auto simp: q_def report_def)
  show "chunk_bytes (q\<lparr>size_bytes := n\<rparr>) = 20 + 2 * length cs"
    using lc assms(3) by (cases cs) (simp_all add: chunk_bytes_def q_def report_def)
qed (simp_all add: q_def report_def)

lemma parsed_consistent:
  "parsed_inv p \<Longrightarrow> parsed_size p \<Longrightarrow> length junk = 14 \<Longrightarrow> IsConsistent junk p"
  by (rule IsConsistentI) (auto simp: parsed_inv_def parsed_size_def)

definition parse_result :: "CommonHeader \<Rightarrow> TransportFeedback \<Rightarrow> TransportFeedback \<Rightarrow> bool" where
  "parse_result h p p' \<longleftrightarrow> parsed_inv p' \<and> include_lost p' = include_lost p
     \<and> (include_timestamps p \<longrightarrow> parsed_size p') \<and> size_bytes p' \<le> 4 + payload_size h"

lemma parse_packets:
  assumes "end_index \<le> length bs" and "pos \<le> end_index" and "pos = 16 + 2 * length cs" and "payload_size h = end_index"
    and "chunk_shape lc" and "symbols lc \<noteq> []" and "cs \<noteq> []"
    and "ds = concat (map full_symbols (butlast cs)) @ symbols lc" and "length ds = count" and "count \<le> 65535"
    and "\<forall>d \<in> set ds. d \<le> 3"
    and "received_packets p = []" and "all_packets p = []" and "last_timestamp_us p = GetBaseTimeUs p"
    and "include_lost p = include_lost old" and "include_timestamps p = include_timestamps old"
  defines "q \<equiv> p\<lparr>encoded_chunks := butlast cs, last_chunk := lc, num_seq_no := count\<rparr>"
  shows "returns (do { (ok, (p, pos)) \<leftarrow> ParseDeltas bs end_index ds (base_seq_no q) pos q;
      if \<not> ok then Some (False, p) else Some (True, p\<lparr>size_bytes := kHeaderLength + pos\<rparr>) }) (parse_result h old)"
    and "parse_result h old ((ParseStatuses ds (base_seq_no q) (q\<lparr>include_timestamps := False\<rparr>))
      \<lparr>size_bytes := kHeaderLength + pos\<rparr>)"
proof -
  note rep = parsed_inv_report [OF assms(5-10)]
  have bs: "base_seq_no q = base_seq_no p" by (simp add: q_def)
  from ParseDeltas_spec [OF assms(1,2,11), of "base_seq_no p" q] obtain ok p' pos' where
    run: "ParseDeltas bs end_index ds (base_seq_no p) pos q = Some (ok, (p', pos'))"
    and res: "ok \<Longrightarrow> pos' = pos + sum_list ds \<and> pos' \<le> end_index
      \<and> (\<exists>rs. p' = report (base_seq_no p) ds rs q \<and> described loosely_fits (base_seq_no p) ds rs)"
    by (elim returnsE) auto
  have "parse_result h old (p'\<lparr>size_bytes := kHeaderLength + pos'\<rparr>)" if ok: ok
  proof -
    obtain rs where p': "p' = report (base_seq_no p) ds rs q" and d: "described loosely_fits (base_seq_no p) ds rs"
      using res [OF ok] by blast
    show ?thesis
      using rep [OF d assms(12-14)] res [OF ok] assms(3,4,15,16)
      by (simp add: parse_result_def parsed_size_def kHeaderLength_def p' q_def)
  qed
  then show "returns (do { (ok, (p, pos)) \<leftarrow> ParseDeltas bs end_index ds (base_seq_no q) pos q;
      if \<not> ok then Some (False, p) else Some (True, p\<lparr>size_bytes := kHeaderLength + pos\<rparr>) }) (parse_result h old)"
    by (simp add: bs run)
  let ?p = "p\<lparr>include_timestamps := False\<rparr>"
  let ?q = "?p\<lparr>encoded_chunks := butlast cs, last_chunk := lc, num_seq_no := count\<rparr>"
  obtain rs where run: "ParseStatuses ds (base_seq_no p) ?q = report (base_seq_no p) ds rs ?q"
    and d: "described loosely_fits (base_seq_no ?p) ds rs"
    using ParseStatuses_spec [of ds "base_seq_no p" ?q] by auto
  have "q\<lparr>include_timestamps := False\<rparr> = ?q" by (cases p) (simp add: q_def)
  with run rep [OF d] show "parse_result h old ((ParseStatuses ds (base_seq_no q) (q\<lparr>include_timestamps := False\<rparr>))
      \<lparr>size_bytes := kHeaderLength + pos\<rparr>)"
    using assms(2,3,4,12-16) by (simp add: bs parse_result_def parsed_size_def kHeaderLength_def GetBaseTimeUs_def)
qed

lemma chunks_last:
  "p\<lparr>last_chunk := lc, encoded_chunks := cs\<rparr> = (p :: TransportFeedback)\<lparr>encoded_chunks := cs, last_chunk := lc\<rparr>"
  by (cases p) simp

lemma TransportFeedback_Parse_result:
  assumes "valid_header h" and "length (delta_sizes (last_chunk p)) = 14"
  shows "returns (TransportFeedback_Parse h p) (parse_result h p)"
proof (cases "payload_size h < 18")
  case True
  then show ?thesis by (simp add: TransportFeedback_Parse_def kMinPayloadSizeBytes_def)
next
  case False
  let ?bs = "payload h"
  have len: "payload_size h \<le> length ?bs" "18 \<le> length ?bs"
    using assms(1) False by (simp_all add: valid_header_def)
  have "8 \<le> length ?bs" using len(2) by simp
  then obtain s m where com: "Rtpfb_ParseCommonFeedback ?bs p = Some (p\<lparr>sender_ssrc := s, media_ssrc := m\<rparr>)"
    by (rule Rtpfb_ParseCommonFeedback_safe)
  obtain base count ticks fb where reads: "get_be16 ?bs 8 = Some base" "get_be16 ?bs 10 = Some count"
    "get_s24 ?bs 12 = Some ticks" "get_u8 ?bs 15 = Some fb"
    using len by (simp add: fetch_Some get_u8_Some)
  define q where "q = TransportFeedback_Clear (p\<lparr>sender_ssrc := s, media_ssrc := m, base_seq_no := base,
      base_time_ticks := ticks, feedback_seq := fb\<rparr>)"
  have q: "received_packets q = []" "all_packets q = []" "last_timestamp_us q = GetBaseTimeUs q"
    "include_lost q = include_lost p" "include_timestamps q = include_timestamps p" "encoded_chunks q = []"
    "length (delta_sizes (last_chunk q)) = 14"
    using assms(2) by (simp_all add: q_def TransportFeedback_Clear_def GetBaseTimeUs_def LastChunk_Clear_def)
  note run = TransportFeedback_Parse_def [of h p] com reads
  show ?thesis
  proof (cases "count = 0")
    case True
    then show ?thesis using False by (simp add: run kMinPayloadSizeBytes_def Let_def)
  next
    case nz: False
    have cnt: "0 < unat count" "unat count \<le> 65535"
      using nz unsigned_less [of count, where ?'a = nat] by (auto simp: unat_gt_0)
    have "returns (ParseChunks ?bs (payload_size h) (unat count) 16 [] q) (\<lambda>(r, ds, pos).
        \<exists>cs lc. r = q\<lparr>encoded_chunks := cs, last_chunk := lc\<rparr> \<and> cs \<noteq> [] \<and> chunk_shape lc
        \<and> ds = concat (map full_symbols (butlast cs)) @ symbols lc \<and> symbols lc \<noteq> []
        \<and> (\<forall>s \<in> set (symbols lc). s \<le> 3) \<and> length ds = unat count
        \<and> pos = 16 + 2 * length cs \<and> pos \<le> payload_size h)"
      using ParseChunks_spec [of "payload_size h" ?bs "unat count" "[]" q 16] len cnt q False
      by (simp add: kMaxReportedPackets_def)
    then obtain ok r ds pos where
      chunks: "ParseChunks ?bs (payload_size h) (unat count) 16 [] q = Some (ok, (r, ds, pos))"
      and res: "ok \<Longrightarrow> \<exists>cs lc. r = q\<lparr>encoded_chunks := cs, last_chunk := lc\<rparr> \<and> cs \<noteq> []
        \<and> chunk_shape lc \<and> ds = concat (map full_symbols (butlast cs)) @ symbols lc \<and> symbols lc \<noteq> []
        \<and> (\<forall>s \<in> set (symbols lc). s \<le> 3) \<and> length ds = unat count
        \<and> pos = 16 + 2 * length cs \<and> pos \<le> payload_size h"
      by (elim returnsE) auto
    show ?thesis
    proof (cases ok)
      case no: False
      then show ?thesis using False nz chunks by (simp add: run kMinPayloadSizeBytes_def Let_def q_def)
    next
      case True
      then obtain cs lc where r: "r = q\<lparr>encoded_chunks := cs, last_chunk := lc\<rparr>"
        and cs: "cs \<noteq> []" "chunk_shape lc" "ds = concat (map full_symbols (butlast cs)) @ symbols lc"
          "symbols lc \<noteq> []" "length ds = unat count" "pos = 16 + 2 * length cs" "pos \<le> payload_size h"
        and le3: "\<forall>s \<in> set (symbols lc). s \<le> 3"
        using res by blast
      have "\<forall>d \<in> set ds. d \<le> 3"
        using le3 chunk_symbols_bounds(2) cs(3) by auto
      note packets = parse_packets [OF len(1) cs(7,6) refl cs(2,4,1,3,5) cnt(2) this q(1-5)]
      have "TransportFeedback_Parse h p =
        (let r = q\<lparr>encoded_chunks := butlast cs, last_chunk := lc, num_seq_no := unat count\<rparr>
         in if payload_size h \<ge> pos + sum_list ds then do {
           (ok, (p, pos)) \<leftarrow> ParseDeltas ?bs (payload_size h) ds (base_seq_no r) pos r;
           if \<not> ok then Some (False, p) else Some (True, p\<lparr>size_bytes := kHeaderLength + pos\<rparr>) }
         else Some (True, (ParseStatuses ds (base_seq_no r) (r\<lparr>include_timestamps := False\<rparr>))
           \<lparr>size_bytes := kHeaderLength + pos\<rparr>))"
        using False nz chunks True by (simp add: chunks_last run kMinPayloadSizeBytes_def Let_def q_def r)
      then show ?thesis
        using packets by (simp add: Let_def)
    qed
  qed
qed

subsection \<open>Writing\<close>

lemma fetch_at:
  assumes "drop off bs = enc @ rest" and "length enc = n" and "0 < n"
  shows "fetch n f bs off = Some (f enc)"
proof -
  have "length bs - off = n + length rest"
    using arg_cong [OF assms(1), of length] assms(2) by simp
  then have "off + n \<le> length bs" using assms(3) by simp
  then show ?thesis using assms by (simp add: fetch_Some)
qed

lemma get_u8_at: "drop off bs = b # rest \<Longrightarrow> get_u8 bs off = Some b"
  by (metis drop_all get_u8_Some leI list.distinct(1) nth_via_drop)

lemma read_write_s24_wrap: "ReadSigned24 (WriteSigned24 v) = signed_take_bit 23 v"
proof -
  have "sint (signed_take_bit 23 (word_of_int v :: u32)) = signed_take_bit 23 v"
    by transfer (simp add: signed_take_bit_take_bit min_def)
  then show ?thesis
    by (simp add: ReadSigned24_def WriteSigned24_def read_write_be24 SignExtend_3
        ReinterpretAsSigned_sint ReinterpretAsUnsigned_def)
qed

definition wire_chunks :: "TransportFeedback \<Rightarrow> u16 list" where
  "wire_chunks p = encoded_chunks p @ (if LastChunk_Empty (last_chunk p) then [] else [EncodeLast (last_chunk p)])"

definition delta_bytes :: "ReceivedPacket \<Rightarrow> byte list" where
  "delta_bytes r = (if 0 \<le> delta_ticks r \<and> delta_ticks r \<le> 0xFF then [word_of_int (delta_ticks r)]
     else WriteSigned16 (delta_ticks r))"

definition tf_body :: "TransportFeedback \<Rightarrow> byte list" where
  "tf_body p = Rtpfb_bytes p @ put_be16 (base_seq_no p) @ put_be16 (of_nat (num_seq_no p))
     @ WriteSigned24 (base_time_ticks p) @ [feedback_seq p] @ concat (map put_be16 (wire_chunks p))
     @ (if include_timestamps p then concat (map delta_bytes (received_packets p)) else [])"

definition pad_bytes :: "nat \<Rightarrow> byte list" where
  "pad_bytes n = (if n = 0 then [] else replicate (n - 1) 0 @ [of_nat n])"

definition tf_encode :: "TransportFeedback \<Rightarrow> byte list" where
  "tf_encode p = header_bytes 15 205 (HeaderLength (TransportFeedback_BlockLength p)) (0 < PaddingLength p)
     @ tf_body p @ pad_bytes (PaddingLength p)"

lemma write_delta_emit [emit_simps]: "write_delta = (\<lambda>r. emit (delta_bytes r))"
  by (simp add: write_delta_def delta_bytes_def fun_eq_iff Let_def emit_simps)

lemma chunk_emit: "advance 2 (put (index w) (put_be16 chunk) w) = emit (put_be16 chunk) w"
  by (simp add: emit_simps)

lemma zero_emit: "advance 1 (put (index w) [b] w) = emit [b] w"
  by (simp add: emit_simps)

lemma Create_tf:
  assumes "0 < num_seq_no p"
  shows "TransportFeedback_Create p max_length cb w =
    (case reserve (TransportFeedback_BlockLength p) max_length cb w of
         (False, w') \<Rightarrow> (False, w')
       | (True, w') \<Rightarrow> (True, emit (tf_encode p) w'))"
  using assms
  by (simp add: TransportFeedback_Create_def chunk_emit zero_emit emit_simps Let_def tf_encode_def
      tf_body_def pad_bytes_def wire_chunks_def kCommonFeedbackLength_def map_replicate_const
      split: prod.split bool.split)

lemma length_delta_bytes: "fits d r \<Longrightarrow> length (delta_bytes r) = d"
  by (auto simp: fits_def delta_bytes_def split: if_splits)

lemma length_deltas:
  "described fits seq ds rs \<Longrightarrow> length (concat (map delta_bytes rs)) = sum_list ds"
  by (induction "fits" seq ds rs rule: described.induct)
    (auto simp: length_delta_bytes split: if_splits list.splits)

lemma length_chunks [simp]: "length (concat (map put_be16 cs)) = 2 * length cs"
  by (induction cs) simp_all

lemma length_tf_body:
  assumes "tf_inv p"
  shows "length (tf_body p) = size_bytes p - 4" and "20 \<le> size_bytes p"
  using assms length_deltas [of "base_seq_no p" "deltas p" "received_packets p"]
  by (simp_all add: tf_inv_def tf_body_def wire_chunks_def LastChunk_Empty_def chunk_bytes_def)

lemma length_tf_encode: "tf_inv p \<Longrightarrow> length (tf_encode p) = TransportFeedback_BlockLength p"
  using length_tf_body [of p] round_up4 [of "size_bytes p"]
  by (auto simp: tf_encode_def pad_bytes_def PaddingLength_def TransportFeedback_BlockLength_def)

interpretation tf: rtcp_writer TransportFeedback_BlockLength TransportFeedback_Create tf_encode
  "\<lambda>p. tf_inv p \<and> 0 < num_seq_no p"
  by unfold_locales (simp_all add: Create_tf length_tf_encode)

subsection \<open>Parsing what was written\<close>

lemma get_be16_at: "drop off bs = put_be16 c @ rest \<Longrightarrow> get_be16 bs off = Some c"
  by (simp add: fetch_at read_write_be16)

lemma ParseChunks_bytes:
  assumes "drop pos bs = concat (map put_be16 (cs @ [c])) @ rest" and "pos + 2 * (length cs + 1) \<le> end_index"
    and "length ds + length (concat (map full_symbols cs)) + n = count" and "0 < n" and "count \<le> kMaxReportedPackets"
    and "length (chunk_symbols c n) = n" and "length (delta_sizes (last_chunk p)) = 14"
  shows "\<exists>lc. ParseChunks bs end_index count pos ds p =
      Some (True, (p\<lparr>encoded_chunks := encoded_chunks p @ cs @ [c], last_chunk := lc\<rparr>,
        ds @ concat (map full_symbols cs) @ chunk_symbols c n, pos + 2 * (length cs + 1)))
    \<and> symbols lc = chunk_symbols c n \<and> chunk_shape lc"
  using assms
proof (induction cs arbitrary: pos ds p)
  case Nil
  let ?lc = "Decode c n (last_chunk p)"
  have read: "get_be16 bs pos = Some c"
    using get_be16_at Nil.prems(1) by simp
  have lc: "symbols ?lc = chunk_symbols c n" "chunk_shape ?lc"
    using Decode_symbols Nil.prems(7) by simp_all
  have n: "count - length ds = n" "length ds < count"
    using Nil.prems by auto
  have "ParseChunks bs end_index count pos ds p = ParseChunks bs end_index count (pos + 2)
      (ds @ chunk_symbols c n) (p\<lparr>encoded_chunks := encoded_chunks p @ [c], last_chunk := ?lc\<rparr>)"
    using n Nil.prems(2) read lc(1)
    by (simp add: ParseChunks.simps [of bs end_index count pos ds p] kChunkSizeBytes_def AppendTo_def)
  also have "\<dots> = Some (True, (p\<lparr>encoded_chunks := encoded_chunks p @ [c], last_chunk := ?lc\<rparr>,
      ds @ chunk_symbols c n, pos + 2))"
    using Nil.prems(3,6) by (subst ParseChunks.simps) simp
  finally show ?case using lc by auto
next
  case (Cons c' cs)
  let ?rem = "count - length ds"
  let ?lc = "Decode c' ?rem (last_chunk p)"
  let ?q = "p\<lparr>encoded_chunks := encoded_chunks p @ [c'], last_chunk := ?lc\<rparr>"
  have read: "get_be16 bs pos = Some c'"
    using get_be16_at Cons.prems(1) by simp
  have next_bytes: "drop (pos + 2) bs = concat (map put_be16 (cs @ [c])) @ rest"
    using arg_cong [OF Cons.prems(1), of "drop 2"] by (simp add: add.commute)
  have lc: "symbols ?lc = chunk_symbols c' ?rem" "chunk_shape ?lc"
    using Decode_symbols Cons.prems(7) by simp_all
  have "length (full_symbols c') \<le> ?rem" "?rem \<le> kMaxReportedPackets" "length ds < count"
    using Cons.prems(3-5) by auto
  then have full: "chunk_symbols c' ?rem = full_symbols c'"
    using chunk_symbols_take [of ?rem kMaxReportedPackets c'] by simp
  have step: "ParseChunks bs end_index count pos ds p =
      ParseChunks bs end_index count (pos + 2) (ds @ full_symbols c') ?q"
    using \<open>length ds < count\<close> Cons.prems(2) read lc(1) full
    by (simp add: ParseChunks.simps [of bs end_index count pos ds p] kChunkSizeBytes_def AppendTo_def)
  have q14: "length (delta_sizes (last_chunk ?q)) = 14"
    using lc(2) by (simp add: chunk_shape_def)
  obtain lc' where "ParseChunks bs end_index count (pos + 2) (ds @ full_symbols c') ?q =
      Some (True, (?q\<lparr>encoded_chunks := encoded_chunks ?q @ cs @ [c], last_chunk := lc'\<rparr>,
        (ds @ full_symbols c') @ concat (map full_symbols cs) @ chunk_symbols c n, pos + 2 + 2 * (length cs + 1)))"
      "symbols lc' = chunk_symbols c n" "chunk_shape lc'"
    using Cons.IH [OF next_bytes _ _ Cons.prems(4-6) q14, of "ds @ full_symbols c'"] Cons.prems(2,3) by auto
  then show ?case
    unfolding step by (intro exI [of _ lc']) simp
qed

lemma uint_of_delta:
  assumes "0 \<le> v" and "v \<le> 255"
  shows "int (unat (word_of_int v :: byte)) = v"
  using assms by (simp add: unsigned_of_int take_bit_eq_mod)

lemma ParseDeltas_bytes:
  assumes "described fits seq ds rs" and "drop pos bs = concat (map delta_bytes rs) @ rest"
    and "pos + sum_list ds \<le> end_index"
  shows "ParseDeltas bs end_index ds seq pos p = Some (True, (report seq ds rs p, pos + sum_list ds))"
  using assms
proof (induction ds arbitrary: seq rs pos p)
  case (Cons d ds)
  show ?case
  proof (cases "d = 0")
    case True
    then show ?thesis
      using Cons.IH [of "seq + 1" rs pos "push_lost seq p"] Cons.prems by (simp add: report_lost)
  next
    case False
    with Cons.prems(1) obtain r rs' where rs: "rs = r # rs'" "sequence_number r = seq" "received r" "fits d r"
      "described fits (seq + 1) ds rs'"
      by (auto split: list.splits)
    let ?delta = "delta_ticks r"
    let ?q = "(push_received seq ?delta p)\<lparr>last_timestamp_us := last_timestamp_us p + ?delta * kDeltaScaleFactor\<rparr>"
    have r: "r = ReceivedPacket_init seq ?delta"
      using rs(2,3) by (cases r) (simp add: ReceivedPacket_init_def)
    have d: "d = 1 \<or> d = 2" "length (delta_bytes r) = d"
      using rs(4) length_delta_bytes by (auto simp: fits_def split: if_splits)
    have bytes: "drop pos bs = delta_bytes r @ concat (map delta_bytes rs') @ rest"
      using Cons.prems(2) rs(1) by simp
    have next_bytes: "drop (pos + d) bs = concat (map delta_bytes rs') @ rest"
      using arg_cong [OF bytes, of "drop d"] d(2) by (simp add: add.commute)
    have "ParseDeltas bs end_index (d # ds) seq pos p = ParseDeltas bs end_index ds (seq + 1) (pos + d) ?q"
    proof (cases "d = 1")
      case True
      then have "0 \<le> ?delta" "?delta \<le> 255" using rs(4) by (auto simp: fits_def split: if_splits)
      then have "get_u8 bs pos = Some (word_of_int ?delta)"
        using get_u8_at bytes by (simp add: delta_bytes_def)
      then show ?thesis
        using True Cons.prems(3) uint_of_delta \<open>0 \<le> ?delta\<close> \<open>?delta \<le> 255\<close> by (simp add: Let_def)
    next
      case no: False
      then have "delta_bytes r = WriteSigned16 ?delta" "d = 2" "ReadSigned16 (WriteSigned16 ?delta) = ?delta"
        using rs(4) d(1) read_write_s16 by (auto simp: fits_def delta_bytes_def split: if_splits)
      then show ?thesis
        using fetch_at [OF bytes, of 2 ReadSigned16] Cons.prems(3) by (simp add: Let_def)
    qed
    also have "\<dots> = Some (True, (report (seq + 1) ds rs' ?q, pos + d + sum_list ds))"
      using Cons.IH [OF rs(5) next_bytes] Cons.prems(3) by (simp add: add.assoc)
    also have "report (seq + 1) ds rs' ?q = report seq (d # ds) rs p"
      using report_received [OF False] r rs(1) by metis
    finally show ?thesis by (simp add: add.assoc)
  qed
qed simp

lemma ParseStatuses_zero:
  assumes "described fits seq ds rs" and "\<forall>r \<in> set rs. delta_ticks r = 0"
  shows "ParseStatuses ds seq p = report seq ds rs p"
  using assms
proof (induction ds arbitrary: seq rs p)
  case (Cons d ds)
  show ?case
  proof (cases "d = 0")
    case True
    then show ?thesis
      using Cons.IH [of "seq + 1" rs "push_lost seq p"] Cons.prems by (simp add: report_lost)
  next
    case False
    with Cons.prems obtain r rs' where rs: "rs = r # rs'" "sequence_number r = seq" "received r" "delta_ticks r = 0"
      "described fits (seq + 1) ds rs'" "\<forall>r \<in> set rs'. delta_ticks r = 0"
      by (auto split: list.splits)
    then have "r = ReceivedPacket_init seq 0"
      by (cases r) (simp add: ReceivedPacket_init_def)
    with False show ?thesis
      using Cons.IH [OF rs(5,6)] rs(1) report_received0 [OF False] by simp
  qed
qed simp

text \<open>A message that \<open>Parse\<close> recovers: without timestamps there is nothing but receipts to keep.\<close>

definition tf_wire :: "TransportFeedback \<Rightarrow> bool" where
  "tf_wire p \<longleftrightarrow> tf_inv p \<and> 0 < num_seq_no p
     \<and> (include_timestamps p \<or> received_packets p \<noteq> [] \<and> (\<forall>r \<in> set (received_packets p). delta_ticks r = 0))"

definition parsed_header :: "TransportFeedback \<Rightarrow> TransportFeedback \<Rightarrow> TransportFeedback" where
  "parsed_header p old = TransportFeedback_Clear (old\<lparr>sender_ssrc := sender_ssrc p, media_ssrc := media_ssrc p,
     base_seq_no := base_seq_no p, base_time_ticks := signed_take_bit 23 (base_time_ticks p),
     feedback_seq := feedback_seq p\<rparr>)"

definition parsed_back :: "TransportFeedback \<Rightarrow> LastChunk \<Rightarrow> TransportFeedback \<Rightarrow> TransportFeedback" where
  "parsed_back p lc old = (report (base_seq_no p) (deltas p) (received_packets p)
     ((parsed_header p old)\<lparr>encoded_chunks := encoded_chunks p, last_chunk := lc, num_seq_no := num_seq_no p,
       include_timestamps := include_timestamps p\<rparr>))\<lparr>size_bytes := size_bytes p\<rparr>"

lemma described_nonempty: "described fit seq ds rs \<Longrightarrow> rs \<noteq> [] \<Longrightarrow> 0 < sum_list ds"
  by (induction fit seq ds rs rule: described.induct) (auto split: if_splits)

lemma tf_inv_last_chunk:
  assumes "tf_inv p" and "0 < num_seq_no p"
  shows "lc_size (last_chunk p) \<noteq> 0"
proof
  assume "lc_size (last_chunk p) = 0"
  then have "deltas p = []" using assms(1) by (simp add: tf_inv_def deltas_def symbols_def)
  with assms show False by (simp add: tf_inv_def)
qed

lemma Parse_chunks_body:
  assumes "tf_inv p" and "0 < num_seq_no p" and "bs = tf_body p @ rest" and "end_index = length (tf_body p)"
    and "length (delta_sizes (last_chunk q)) = 14" and "encoded_chunks q = []"
  shows "\<exists>lc. ParseChunks bs end_index (num_seq_no p) 16 [] q =
      Some (True, (q\<lparr>encoded_chunks := wire_chunks p, last_chunk := lc\<rparr>, deltas p, 16 + 2 * length (wire_chunks p)))
    \<and> symbols lc = symbols (last_chunk p) \<and> chunk_shape lc"
proof -
  let ?lc = "last_chunk p" and ?c = "EncodeLast (last_chunk p)"
  have lc: "lc_size ?lc \<noteq> 0" "chunk_inv ?lc" "length (symbols ?lc) = lc_size ?lc"
    using tf_inv_last_chunk assms(1,2) length_symbols by (auto simp: tf_inv_def chunk_inv_def)
  have wc: "wire_chunks p = encoded_chunks p @ [?c]"
    using lc(1) by (simp add: wire_chunks_def LastChunk_Empty_def)
  have sym: "chunk_symbols ?c (lc_size ?lc) = symbols ?lc"
    by (rule EncodeLast_symbols [OF lc(2)])
  have "drop 16 bs = concat (map put_be16 (wire_chunks p))
      @ (if include_timestamps p then concat (map delta_bytes (received_packets p)) else []) @ rest"
    by (simp add: assms(3) tf_body_def)
  moreover have "16 + 2 * length (wire_chunks p) \<le> end_index"
    by (simp add: assms(4) tf_body_def)
  moreover have "length (concat (map full_symbols (encoded_chunks p))) + lc_size ?lc = num_seq_no p"
      "num_seq_no p \<le> kMaxReportedPackets"
    using assms(1) lc(3) by (simp_all add: tf_inv_def deltas_def kMaxReportedPackets_def)
  ultimately show ?thesis
    using ParseChunks_bytes [of 16 bs "encoded_chunks p" ?c _ end_index "[]" "lc_size ?lc" "num_seq_no p" q]
      lc(1,3) sym assms(5,6) unfolding wc deltas_def by simp
qed

lemma Parse_tf_body:
  assumes "tf_wire p" and "payload h = tf_body p @ rest" and "payload_size h = length (tf_body p)"
    and "length (delta_sizes (last_chunk old)) = 14" and "include_timestamps old"
  shows "\<exists>lc. TransportFeedback_Parse h old = Some (True, parsed_back p lc old)
    \<and> symbols lc = symbols (last_chunk p) \<and> chunk_shape lc"
proof -
  have inv: "tf_inv p" "0 < num_seq_no p" using assms(1) by (simp_all add: tf_wire_def)
  let ?bs = "payload h" and ?e = "payload_size h" and ?q = "parsed_header p old"
  have d: "described fits (base_seq_no p) (deltas p) (received_packets p)"
    using inv(1) by (simp add: tf_inv_def)
  have lcs: "lc_size (last_chunk p) \<noteq> 0" using tf_inv_last_chunk inv by blast
  have wc: "butlast (wire_chunks p) = encoded_chunks p" "length (wire_chunks p) = length (encoded_chunks p) + 1"
    using lcs by (simp_all add: wire_chunks_def LastChunk_Empty_def)
  have sz: "?e = size_bytes p - 4" "size_bytes p = 20 + 2 * length (wire_chunks p)
      + (if include_timestamps p then sum_list (deltas p) else 0)"
    using length_tf_body [OF inv(1)] assms(3) inv(1) lcs wc(2) by (simp_all add: tf_inv_def chunk_bytes_def)
  have e18: "\<not> ?e < kMinPayloadSizeBytes"
    using sz wc(2) by (simp add: kMinPayloadSizeBytes_def)
  obtain lc where chunks: "ParseChunks ?bs ?e (num_seq_no p) 16 [] ?q =
      Some (True, (?q\<lparr>encoded_chunks := wire_chunks p, last_chunk := lc\<rparr>, deltas p, 16 + 2 * length (wire_chunks p)))"
      "symbols lc = symbols (last_chunk p)" "chunk_shape lc"
    using Parse_chunks_body [OF inv assms(2,3), of ?q] assms(4)
    by (auto simp: parsed_header_def TransportFeedback_Clear_def LastChunk_Clear_def)
  have reads: "Rtpfb_ParseCommonFeedback ?bs old = Some (old\<lparr>sender_ssrc := sender_ssrc p, media_ssrc := media_ssrc p\<rparr>)"
    "get_be16 ?bs 8 = Some (base_seq_no p)" "get_be16 ?bs 10 = Some (of_nat (num_seq_no p))"
    "get_s24 ?bs 12 = Some (signed_take_bit 23 (base_time_ticks p))" "get_u8 ?bs 15 = Some (feedback_seq p)"
    using fetch_at [of 12 ?bs "WriteSigned24 (base_time_ticks p)" _ 3 ReadSigned24]
    by (simp_all add: assms(2) tf_body_def wire_simps read_write_s24_wrap)
  have num: "unat (of_nat (num_seq_no p) :: u16) = num_seq_no p" "(of_nat (num_seq_no p) :: u16) \<noteq> 0"
    using inv by (simp_all add: tf_inv_def unat_of_nat word_unat_eq_iff)
  let ?r = "?q\<lparr>encoded_chunks := encoded_chunks p, last_chunk := lc, num_seq_no := num_seq_no p\<rparr>"
  let ?pos = "16 + 2 * length (wire_chunks p)"
  have base: "base_seq_no ?q = base_seq_no p" "include_timestamps ?q"
    using assms(5) by (simp_all add: parsed_header_def TransportFeedback_Clear_def)
  have run: "TransportFeedback_Parse h old =
    (if ?e \<ge> ?pos + sum_list (deltas p) then do {
       (ok, (p, pos)) \<leftarrow> ParseDeltas ?bs ?e (deltas p) (base_seq_no p) ?pos ?r;
       if \<not> ok then Some (False, p) else Some (True, p\<lparr>size_bytes := kHeaderLength + pos\<rparr>) }
     else Some (True, (ParseStatuses (deltas p) (base_seq_no p) (?r\<lparr>include_timestamps := False\<rparr>))
       \<lparr>size_bytes := kHeaderLength + ?pos\<rparr>))"
    using e18 num chunks(1) wc(1) base(1)
    by (simp add: TransportFeedback_Parse_def reads Let_def parsed_header_def [symmetric] chunks_last)
  have "TransportFeedback_Parse h old = Some (True, parsed_back p lc old)"
  proof (cases "include_timestamps p")
    case True
    have "drop ?pos ?bs = concat (map delta_bytes (received_packets p)) @ rest"
      using True by (simp add: assms(2) tf_body_def)
    from ParseDeltas_bytes [OF d this, of ?e ?r] have
      "ParseDeltas ?bs ?e (deltas p) (base_seq_no p) ?pos ?r = Some (True,
        (report (base_seq_no p) (deltas p) (received_packets p) ?r, ?pos + sum_list (deltas p)))"
      using True sz by simp
    moreover have same: "?r\<lparr>include_timestamps := True\<rparr> = ?r" using base(2) by simp
    ultimately show ?thesis
      using True sz by (simp add: run parsed_back_def kHeaderLength_def same add.assoc)
  next
    case False
    then have "\<forall>r \<in> set (received_packets p). delta_ticks r = 0" "0 < sum_list (deltas p)"
      using assms(1) d described_nonempty by (auto simp: tf_wire_def)
    moreover have "?e = ?pos" using False sz by simp
    moreover from calculation have "\<not> ?pos + sum_list (deltas p) \<le> ?e" by linarith
    ultimately show ?thesis
      using False sz(2) ParseStatuses_zero [OF d] by (auto simp: run parsed_back_def kHeaderLength_def)
  qed
  with chunks(2,3) show ?thesis by blast
qed


lemma header_parse_tf:
  assumes "tf_wire p"
  shows "\<exists>h. CommonHeader_Parse (tf_encode p @ rest) (TransportFeedback_BlockLength p + length rest) h0 = Some (True, h)
    \<and> packet_type h = 205 \<and> count_or_format h = 15 \<and> payload_size h = length (tf_body p)
    \<and> (\<exists>pad. payload h = tf_body p @ pad @ rest) \<and> NextPacket h = rest"
proof -
  let ?pad = "pad_bytes (PaddingLength p)" and ?len = "HeaderLength (TransportFeedback_BlockLength p)"
  have inv: "tf_inv p" using assms by (simp add: tf_wire_def)
  note body = length_tf_body [OF inv]
  have le: "TransportFeedback_BlockLength p \<le> 262144"
  proof -
    have "size_bytes p \<le> 262144" using inv unfolding tf_inv_def kMaxSizeBytes_def by simp
    then show ?thesis by (simp add: TransportFeedback_BlockLength_def)
  qed
  have bl: "4 * ?len = TransportFeedback_BlockLength p - 4" "20 \<le> TransportFeedback_BlockLength p"
    using body(2) by (auto simp: HeaderLength_def TransportFeedback_BlockLength_def kHeaderLength_def)
  have pl: "PaddingLength p < 4" "PaddingLength p + size_bytes p = TransportFeedback_BlockLength p"
    using round_up4 [of "size_bytes p"] by (auto simp: PaddingLength_def TransportFeedback_BlockLength_def)
  have len: "?len < 65536" "4 + 4 * ?len \<le> TransportFeedback_BlockLength p + length rest"
    "length (tf_body p) + length ?pad = 4 * ?len"
    using le bl pl body by (auto simp: pad_bytes_def)
  show ?thesis
  proof (cases "PaddingLength p = 0")
    case True
    then show ?thesis
      using CommonHeader_Parse_header_bytes [OF _ len(1,2), of 15 205 "tf_body p @ rest" h0] len(3)
      by (simp add: tf_encode_def pad_bytes_def NextPacket_def)
  next
    case False
    then have pad: "?pad \<noteq> []" "length ?pad < 256" "last ?pad = of_nat (length ?pad)" "length ?pad < 4"
      using pl(1) by (simp_all add: pad_bytes_def)
    have "unat (of_nat (length ?pad) :: byte) = length ?pad"
      using pad(2) by (simp add: unat_of_nat)
    with False show ?thesis
      using CommonHeader_Parse_padded [OF _ len pad(1-3), of 15 205 rest h0]
      by (auto simp: tf_encode_def NextPacket_def)
  qed
qed

subsection \<open>Messages built through the interface\<close>

text \<open>
  The messages a program can build through the public interface: \<open>SetBase\<close> comes before the
  packets, and \<open>AddReceivedPacket\<close> may be called again after it has refused a packet.
\<close>

inductive built :: "(u16 \<Rightarrow> u16 \<Rightarrow> bool) \<Rightarrow> nat list \<Rightarrow> TransportFeedback \<Rightarrow> bool" for is_newer junk where
  built_init: "built is_newer junk (TransportFeedback_init junk ts lost)"
| built_base: "built is_newer junk p \<Longrightarrow> num_seq_no p = 0 \<Longrightarrow> built is_newer junk (SetBase seq t p)"
| built_feedback_seq: "built is_newer junk p \<Longrightarrow> built is_newer junk (SetFeedbackSequenceNumber n p)"
| built_ssrcs: "built is_newer junk p \<Longrightarrow> built is_newer junk (p\<lparr>sender_ssrc := s, media_ssrc := m\<rparr>)"
| built_add: "built is_newer junk p \<Longrightarrow> AddReceivedPacket is_newer seq t p = (ok, p')
    \<Longrightarrow> built is_newer junk p'"

inductive_cases built_cases: "built is_newer junk p"

definition no_deltas :: "TransportFeedback \<Rightarrow> bool" where
  "no_deltas p \<longleftrightarrow> include_timestamps p \<or> (\<forall>r \<in> set (received_packets p). delta_ticks r = 0)"

lemma tf_inv_cong:
  "tf_inv p \<Longrightarrow> tf_inv (SetFeedbackSequenceNumber n p)"
  "tf_inv p \<Longrightarrow> tf_inv (p\<lparr>sender_ssrc := s, media_ssrc := m\<rparr>)"
  by (simp_all add: tf_inv_def SetFeedbackSequenceNumber_def deltas_def chunk_bytes_def GetBaseTimeUs_def)

lemma AddReceivedPacket_no_deltas:
  assumes "AddReceivedPacket is_newer seq t p = (ok, p')" and "tf_inv p" and "no_deltas p"
  shows "no_deltas p'"
proof (cases ok)
  case True
  then show ?thesis
    using AddReceivedPacket_inv [OF assms(2,1)] assms(3) by (auto simp: no_deltas_def same_header_def)
next
  case False
  then show ?thesis
    using AddReceivedPacket_inv [OF assms(2,1)] assms(3) by (auto simp: no_deltas_def same_header_def)
qed

lemma built_inv: "built is_newer junk p \<Longrightarrow> length junk = 14 \<Longrightarrow> tf_inv p \<and> no_deltas p"
proof (induction rule: built.induct)
  case (built_init ts lost)
  then show ?case using tf_inv_init by (simp add: no_deltas_def) (simp add: TransportFeedback_init_def)
next
  case (built_base p seq t)
  then show ?case using tf_inv_SetBase by (simp add: no_deltas_def) (simp add: SetBase_def Let_def)
next
  case (built_feedback_seq p n)
  then show ?case by (simp add: tf_inv_cong no_deltas_def) (simp add: SetFeedbackSequenceNumber_def)
next
  case (built_ssrcs p s m)
  then show ?case by (simp add: tf_inv_cong no_deltas_def)
next
  case (built_add p seq t ok p')
  then show ?case using AddReceivedPacket_inv AddReceivedPacket_no_deltas by blast
qed

lemma smod_period: "\<exists>k. x smod kTimeWrapPeriodUs = x - k * (kTimeWrapPeriodUs :: int)"
  by (metis minus_sdiv_mult_eq_smod mult.commute)

lemma sdiv_round: "\<bar>(d + (if d < 0 then - 125 else 125)) sdiv 250 * 250 - d\<bar> \<le> (125 :: int)"
proof (cases "d < 0")
  case True
  then have "(d - 125) sdiv 250 = - ((125 - d) div 250)"
    by (simp add: signed_divide_int_def)
  moreover have "\<bar>- ((125 - d) div 250) * 250 - d\<bar> \<le> 125" by presburger
  ultimately show ?thesis using True by simp
next
  case False
  then have "(d + 125) sdiv 250 = (d + 125) div 250"
    by (simp add: signed_divide_int_def)
  moreover have "\<bar>(d + 125) div 250 * 250 - d\<bar> \<le> 125" by presburger
  ultimately show ?thesis using False by simp
qed

lemma delta_full_error:
  "\<exists>k. \<bar>last_timestamp_us p + delta_full t p * kDeltaScaleFactor - t - k * kTimeWrapPeriodUs\<bar> \<le> 125"
proof -
  define d0 where "d0 = (t - last_timestamp_us p) smod kTimeWrapPeriodUs"
  define d where "d = (if d0 > kTimeWrapPeriodUs sdiv 2 then d0 - kTimeWrapPeriodUs else d0)"
  obtain k where k: "d0 = t - last_timestamp_us p - k * kTimeWrapPeriodUs"
    using smod_period unfolding d0_def by blast
  have "\<exists>k. d = t - last_timestamp_us p - k * kTimeWrapPeriodUs"
    using k by (cases "d = d0") (auto simp: d_def algebra_simps intro: exI [of _ "k + 1"] exI [of _ k] split: if_splits)
  then obtain k' where k': "d = t - last_timestamp_us p - k' * kTimeWrapPeriodUs" by blast
  have "delta_full t p = (d + (if d < 0 then - 125 else 125)) sdiv 250"
    by (simp add: delta_full_def Let_def d_def d0_def kDeltaScaleFactor_def signed_divide_int_def)
  moreover have "\<bar>(d + (if d < 0 then - 125 else 125)) sdiv 250 * 250 - d\<bar> \<le> 125"
    by (rule sdiv_round)
  ultimately have "\<bar>delta_full t p * kDeltaScaleFactor - d\<bar> \<le> 125"
    by (simp add: kDeltaScaleFactor_def)
  then show ?thesis unfolding k' by (intro exI [of _ "- k'"]) (simp add: algebra_simps)
qed


definition wrap_newer :: "u16 \<Rightarrow> u16 \<Rightarrow> bool" where
  "wrap_newer a b \<longleftrightarrow> a \<noteq> b \<and> a - b < 0x8000"

definition example_feedback :: TransportFeedback where
  "example_feedback = snd (AddReceivedPacket wrap_newer 3 70000 (snd (AddReceivedPacket wrap_newer 0 64300
     (SetBase 65534 64000 (TransportFeedback_init [0,0,0,0,0,0,0,0,0,0,0,0,0,0] True True)))))"

lemmas example_eval = AddDeltaSize_def CanAdd_def LastChunk_Add_def LastChunk_Empty_def Let_def tf_consts
  chunk_consts TransportFeedback_init_def AddLostPackets.simps push_lost_def push_received_def SetBase_def
  AddReceivedPacket_def wrap_newer_def delta_full_def to_int16_def kDeltaScaleFactor_def kTimeWrapPeriodUs_def
  kBaseScaleFactor_def GetBaseTimeUs_def signed_divide_int_def signed_modulo_int_def
  TransportFeedback_BlockLength_def

text \<open>The message of the witnesses: two packets received, four lost.\<close>

lemma example_value: "example_feedback = \<lparr>sender_ssrc = 0, media_ssrc = 0, include_lost = True,
    base_seq_no = 65534, num_seq_no = 6, base_time_ticks = 1, feedback_seq = 0, include_timestamps = True,
    last_timestamp_us = 70000, received_packets = [ReceivedPacket_init 0 1, ReceivedPacket_init 3 23],
    all_packets = [LostPacket_init 65534, LostPacket_init 65535, ReceivedPacket_init 0 1,
      LostPacket_init 65537, LostPacket_init 65538, ReceivedPacket_init 3 23],
    encoded_chunks = [], last_chunk = \<lparr>delta_sizes = [0, 0, 1, 0, 0, 1, 0, 0, 0, 0, 0, 0, 0, 0],
      lc_size = 6, all_same = False, has_large_delta = False\<rparr>, size_bytes = 24\<rparr>"
  by (simp add: example_eval example_feedback_def)

lemma example_built: "built wrap_newer [0,0,0,0,0,0,0,0,0,0,0,0,0,0] example_feedback"
  unfolding example_feedback_def
  by (rule built_add [OF _ surjective_pairing], rule built_add [OF _ surjective_pairing], rule built_base,
      rule built_init) (simp add: TransportFeedback_init_def)

subsection \<open>Properties\<close>

text \<open>
  C13: every message built through the public interface satisfies \<open>IsConsistent\<close>, also
  after a refused packet, and fits an RTCP packet: its padded size is a multiple of four that
  the 16-bit length field can express.
\<close>

theorem built_consistent:
  assumes "built is_newer junk p" and "length junk = 14"
  shows "IsConsistent junk p \<and> size_bytes p \<le> kMaxSizeBytes
    \<and> 4 dvd TransportFeedback_BlockLength p \<and> TransportFeedback_BlockLength p \<le> 4 * (65535 + 1)
    \<and> PaddingLength p < 4 \<and> size_bytes p + PaddingLength p = TransportFeedback_BlockLength p"
proof -
  have inv: "tf_inv p" using built_inv [OF assms] by simp
  then have "size_bytes p \<le> 262144" unfolding tf_inv_def kMaxSizeBytes_def by simp
  then have "(size_bytes p + 3) div 4 * 4 \<le> 262144" by simp
  then show ?thesis
    using tf_inv_consistent [OF inv assms(2)] \<open>size_bytes p \<le> 262144\<close> round_up4 [of "size_bytes p"]
    by (auto simp: kMaxSizeBytes_def TransportFeedback_BlockLength_def PaddingLength_def)
qed

theorem built_consistent_witness:
  "IsConsistent [0,0,0,0,0,0,0,0,0,0,0,0,0,0] example_feedback \<and> size_bytes example_feedback \<le> kMaxSizeBytes"
  using built_consistent [OF example_built] by simp

text \<open>
  C26: \<open>AddReceivedPacket\<close> keeps the invariant whether or not it accepts the packet. An
  accepted packet is appended to the received ones with a delta that a signed 16-bit number holds, and the time a
  receiver reconstructs from it is within half a tick of the given timestamp, up to
  wrap-around of the 24-bit clock.
\<close>

theorem AddReceivedPacket_accurate:
  assumes "built is_newer junk p" and "length junk = 14" and "AddReceivedPacket is_newer seq t p = (True, p')"
    and "include_timestamps p"
  shows "built is_newer junk p'
    \<and> (\<exists>r. received_packets p' = received_packets p @ [r] \<and> sequence_number r = seq
          \<and> - (2 ^ 15) \<le> delta_ticks r \<and> delta_ticks r < 2 ^ 15)
    \<and> last_timestamp_us p' = GetBaseTimeUs p + sum_list (map delta_us (received_packets p'))
    \<and> (\<exists>k. \<bar>last_timestamp_us p' - t - k * kTimeWrapPeriodUs\<bar> \<le> 125)"
proof -
  have inv: "tf_inv p" using built_inv [OF assms(1,2)] by simp
  note add = AddReceivedPacket_inv [OF inv assms(3)]
  have eq: "to_int16 (delta_full t p) = delta_full t p"
    using assms(3,4) by (auto simp: AddReceivedPacket_def Let_def split: if_splits)
  have base: "GetBaseTimeUs p' = GetBaseTimeUs p"
    using add by (simp add: GetBaseTimeUs_def same_header_def)
  have "last_timestamp_us p' = last_timestamp_us p + delta_full t p * kDeltaScaleFactor"
    using add inv base assms(4) by (simp add: tf_inv_def delta_us_def)
  then have "\<exists>k. \<bar>last_timestamp_us p' - t - k * kTimeWrapPeriodUs\<bar> \<le> 125"
    using delta_full_error [of p t] by simp
  moreover have "last_timestamp_us p' = GetBaseTimeUs p + sum_list (map delta_us (received_packets p'))"
    using add base by (simp add: tf_inv_def)
  moreover have "built is_newer junk p'"
    by (rule built_add [OF assms(1,3)])
  ultimately show ?thesis
    using add assms(4) to_int16_bounds [of "delta_full t p"] eq by simp
qed

theorem AddReceivedPacket_accurate_witness:
  "\<exists>p. AddReceivedPacket wrap_newer 7 70000 example_feedback = (True, p) \<and> built wrap_newer [0,0,0,0,0,0,0,0,0,0,0,0,0,0] p"
proof -
  have "fst (AddReceivedPacket wrap_newer 7 70000 example_feedback)"
    "include_timestamps example_feedback" by (simp_all add: example_value example_eval)
  then show ?thesis
    using AddReceivedPacket_accurate [OF example_built, of 7 70000 "snd (AddReceivedPacket wrap_newer 7 70000 example_feedback)"]
    by (intro exI [of _ "snd (AddReceivedPacket wrap_newer 7 70000 example_feedback)"]) (simp add: prod_eq_iff)
qed

text \<open>
  C12: what \<open>Create\<close> writes, \<open>ParseFrom\<close> reads back, for every message built through the
  public interface that reports at least one packet: the packets with their deltas, the lost
  packets, the status chunks, the numbers and the size; the RTCP padding is skipped. The base
  time has 24 bits on the wire, so it comes back as the signed value congruent to it.
\<close>

theorem TransportFeedback_roundtrip:
  assumes "built is_newer junk p" and "received_packets p \<noteq> []"
    and "TransportFeedback_BlockLength p \<le> capacity" and "length junk = 14"
  shows "\<exists>q. ParseFrom junk (Build (TransportFeedback_Create p) (TransportFeedback_BlockLength p) capacity m @ rest)
        (TransportFeedback_BlockLength p + length rest) = Some (Some q)
      \<and> received_packets q = received_packets p
      \<and> all_packets q = with_lost (base_seq_no p) (deltas p) (received_packets p)
      \<and> sender_ssrc q = sender_ssrc p \<and> media_ssrc q = media_ssrc p
      \<and> base_seq_no q = base_seq_no p \<and> num_seq_no q = num_seq_no p \<and> feedback_seq q = feedback_seq p
      \<and> include_timestamps q = include_timestamps p \<and> deltas q = deltas p
      \<and> encoded_chunks q = encoded_chunks p \<and> size_bytes q = size_bytes p
      \<and> base_time_ticks q = signed_take_bit 23 (base_time_ticks p)"
proof -
  let ?old = "TransportFeedback_init junk True True"
  have inv: "tf_inv p" "no_deltas p" using built_inv [OF assms(1,4)] by simp_all
  then have "0 < num_seq_no p" using assms(2) by (auto simp: tf_inv_def)
  with inv assms(2) have wire: "tf_wire p" by (simp add: tf_wire_def no_deltas_def)
  have b: "Build (TransportFeedback_Create p) (TransportFeedback_BlockLength p) capacity m = tf_encode p"
    using tf.Build_encode wire assms(3) by (simp add: tf_wire_def)
  obtain h pad where h: "CommonHeader_Parse (tf_encode p @ rest) (TransportFeedback_BlockLength p + length rest)
      CommonHeader_init = Some (True, h)" "packet_type h = 205" "count_or_format h = 15"
      "payload_size h = length (tf_body p)" "payload h = tf_body p @ pad @ rest"
    using header_parse_tf [OF wire, of rest CommonHeader_init] by blast
  obtain lc where lc: "TransportFeedback_Parse h ?old = Some (True, parsed_back p lc ?old)"
      "symbols lc = symbols (last_chunk p)"
    using Parse_tf_body [OF wire h(5,4), of ?old] assms(4) by (auto simp: TransportFeedback_init_def)
  show ?thesis
    using lc(2) by (simp add: b ParseFrom_def h lc(1))
      (simp add: parsed_back_def report_def parsed_header_def TransportFeedback_Clear_def
        TransportFeedback_init_def deltas_def)
qed

theorem TransportFeedback_roundtrip_witness:
  "\<exists>q. ParseFrom [0,0,0,0,0,0,0,0,0,0,0,0,0,0] (Build (TransportFeedback_Create example_feedback) 24 24 (\<lambda>_. 0)) 24 = Some (Some q)
    \<and> received_packets q = [ReceivedPacket_init 0 1, ReceivedPacket_init 3 23] \<and> deltas q = [0, 0, 1, 0, 0, 1]"
proof -
  have ev: "received_packets example_feedback = [ReceivedPacket_init 0 1, ReceivedPacket_init 3 23]"
    "deltas example_feedback = [0, 0, 1, 0, 0, 1]" "TransportFeedback_BlockLength example_feedback = 24"
    by (simp_all add: example_value example_eval deltas_def symbols_def)
  show ?thesis
    using TransportFeedback_roundtrip [OF example_built, of 24 "\<lambda>_. 0" "[]"] unfolding ev by auto
qed

text \<open>
  \<open>GetBaseDeltaUs\<close> undoes the wrap-around of the base time: as long as the previous time
  is less than one and a half clock periods away, the result is congruent to the difference and at
  most half a period in size.
\<close>

lemma GetBaseDeltaUs_shortest:
  assumes "2 * \<bar>GetBaseTimeUs p - prev\<bar> \<le> 3 * kTimeWrapPeriodUs"
  shows "2 * \<bar>GetBaseDeltaUs prev p\<bar> \<le> kTimeWrapPeriodUs
    \<and> kTimeWrapPeriodUs dvd GetBaseDeltaUs prev p - (GetBaseTimeUs p - prev)"
proof -
  define d where "d = GetBaseTimeUs p - prev"
  consider "GetBaseDeltaUs prev p = d - kTimeWrapPeriodUs" "\<bar>d - kTimeWrapPeriodUs\<bar> < \<bar>d\<bar>"
    | "GetBaseDeltaUs prev p = d + kTimeWrapPeriodUs" "\<bar>d + kTimeWrapPeriodUs\<bar> < \<bar>d\<bar>"
    | "GetBaseDeltaUs prev p = d" "\<bar>d\<bar> \<le> \<bar>d - kTimeWrapPeriodUs\<bar>" "\<bar>d\<bar> \<le> \<bar>d + kTimeWrapPeriodUs\<bar>"
    by (force simp: GetBaseDeltaUs_def Let_def d_def)
  then show ?thesis
    using assms unfolding d_def [symmetric]
    by cases (auto simp: kTimeWrapPeriodUs_def kBaseScaleFactor_def kDeltaScaleFactor_def)
qed

text \<open>
  C14: parsing arbitrary bytes as transport feedback never reads outside the buffer. What is
  accepted is a message that \<open>IsConsistent\<close> approves: at least one status, the received
  packets exactly those with a non-zero delta size, and \<open>size_bytes_\<close> at most the size of the
  packet. With timestamps or without, lost packets are listed between the received ones.
\<close>

theorem ParseFrom_consistent:
  assumes "len \<le> length buffer" and "length junk = 14"
  shows "\<exists>r. ParseFrom junk buffer len = Some r \<and> (\<forall>p. r = Some p \<longrightarrow>
    IsConsistent junk p \<and> 0 < num_seq_no p \<and> size_bytes p \<le> len
    \<and> all_packets p = with_lost (base_seq_no p) (deltas p) (received_packets p))"
proof -
  obtain ok h where h: "CommonHeader_Parse buffer len CommonHeader_init = Some (ok, h)"
      "ok \<Longrightarrow> header_of buffer len h"
    using CommonHeader_Parse_total [OF assms(1), of CommonHeader_init] by (rule returnsE) blast
  let ?p = "TransportFeedback_init junk True True"
  show ?thesis
  proof (cases "ok \<and> packet_type h = 205 \<and> count_or_format h = 15")
    case False
    then show ?thesis by (auto simp: ParseFrom_def h(1))
  next
    case True
    then have hd: "header_of buffer len h" using h(2) by simp
    then have "valid_header h" and sz: "4 + payload_size h \<le> len"
      by (simp_all add: header_of_def packet_size_def)
    moreover have "length (delta_sizes (last_chunk ?p)) = 14"
      using assms(2) by (simp add: TransportFeedback_init_def)
    ultimately have "returns (TransportFeedback_Parse h ?p) (parse_result h ?p)"
      by (intro TransportFeedback_Parse_result)
    then obtain ok' p' where run: "TransportFeedback_Parse h ?p = Some (ok', p')"
      and res: "ok' \<Longrightarrow> parse_result h ?p p'"
      by (rule returnsE) blast
    have "IsConsistent junk p' \<and> 0 < num_seq_no p' \<and> size_bytes p' \<le> len
        \<and> all_packets p' = with_lost (base_seq_no p') (deltas p') (received_packets p')" if ok'
      using res [OF that] parsed_consistent assms(2) sz
      by (auto simp: parse_result_def parsed_inv_def TransportFeedback_init_def)
    with True run show ?thesis
      by (auto simp: ParseFrom_def h(1))
  qed
qed

theorem ParseFrom_consistent_witness:
  "\<exists>r. ParseFrom [0,0,0,0,0,0,0,0,0,0,0,0,0,0]
     [0x8F, 205, 0, 5, 0, 0, 0, 1, 0, 0, 0, 2, 0, 10, 0, 1, 0, 0, 1, 7, 0x20, 0x01, 4, 0] 24 = Some r"
  using ParseFrom_consistent [of 24 "[0x8F, 205, 0, 5, 0, 0, 0, 1, 0, 0, 0, 2, 0, 10, 0, 1, 0, 0, 1, 7,
      0x20, 0x01, 4, 0]" "[0,0,0,0,0,0,0,0,0,0,0,0,0,0]"] by fastforce

end
