(* ===== verification/Rtp_Extension_Map.thy ===== *)
theory Rtp_Extension_Map
  imports Prelude
begin

text \<open>
  \<open>RtpExtension\<close> (\<open>rtp_parameters\<close>) and \<open>RtpHeaderExtensionMap\<close>: the known RTP header
  extensions, their URIs, the negotiated numbering of extension types with ids 1 to 255, and the
  lookups in a list of negotiated extensions. The main fact is that however a map was filled, ids
  and types are in bijection.
\<close>

subsection \<open>Extension types and URIs\<close>

datatype RTPExtensionType =
    kRtpExtensionNone
  | kRtpExtensionTransmissionTimeOffset
  | kRtpExtensionAudioLevel
  | kRtpExtensionCsrcAudioLevel
  | kRtpExtensionInbandComfortNoise
  | kRtpExtensionAbsoluteSendTime
  | kRtpExtensionAbsoluteCaptureTime
  | kRtpExtensionVideoRotation
  | kRtpExtensionTransportSequenceNumber
  | kRtpExtensionTransportSequenceNumber02
  | kRtpExtensionPlayoutDelay
  | kRtpExtensionVideoContentType
  | kRtpExtensionVideoLayersAllocation
  | kRtpExtensionVideoTiming
  | kRtpExtensionRtpStreamId
  | kRtpExtensionRepairedRtpStreamId
  | kRtpExtensionMid
  | kRtpExtensionGenericFrameDescriptor00
  | kRtpExtensionGenericFrameDescriptor02
  | kRtpExtensionColorSpace
  | kRtpExtensionVideoFrameTrackingId

text \<open>The values \<open>kRtpExtensionNone + 1 .. kRtpExtensionNumberOfExtensions - 1\<close> in order.\<close>

definition extension_types :: "RTPExtensionType list" where
  "extension_types =
     [kRtpExtensionTransmissionTimeOffset, kRtpExtensionAudioLevel, kRtpExtensionCsrcAudioLevel,
      kRtpExtensionInbandComfortNoise, kRtpExtensionAbsoluteSendTime,
      kRtpExtensionAbsoluteCaptureTime, kRtpExtensionVideoRotation,
      kRtpExtensionTransportSequenceNumber, kRtpExtensionTransportSequenceNumber02,
      kRtpExtensionPlayoutDelay, kRtpExtensionVideoContentType,
      kRtpExtensionVideoLayersAllocation, kRtpExtensionVideoTiming, kRtpExtensionRtpStreamId,
      kRtpExtensionRepairedRtpStreamId, kRtpExtensionMid, kRtpExtensionGenericFrameDescriptor00,
      kRtpExtensionGenericFrameDescriptor02, kRtpExtensionColorSpace,
      kRtpExtensionVideoFrameTrackingId]"

definition kMinId :: nat where "kMinId = 1"
definition kMaxId :: nat where "kMaxId = 255"
definition kMaxValueSize :: nat where "kMaxValueSize = 255"
definition kOneByteHeaderExtensionMaxId :: nat where "kOneByteHeaderExtensionMaxId = 14"
definition kOneByteHeaderExtensionMaxValueSize :: nat where "kOneByteHeaderExtensionMaxValueSize = 16"

definition kEncryptHeaderExtensionsUri :: string where
  "kEncryptHeaderExtensionsUri = ''urn:ietf:params:rtp-hdrext:encrypt''"
definition kAudioLevelUri :: string where
  "kAudioLevelUri = ''urn:ietf:params:rtp-hdrext:ssrc-audio-level''"
definition kTimestampOffsetUri :: string where
  "kTimestampOffsetUri = ''urn:ietf:params:rtp-hdrext:toffset''"
definition kAbsSendTimeUri :: string where
  "kAbsSendTimeUri = ''http://www.webrtc.org/experiments/rtp-hdrext/abs-send-time''"
definition kAbsoluteCaptureTimeUri :: string where
  "kAbsoluteCaptureTimeUri = ''http://www.webrtc.org/experiments/rtp-hdrext/abs-capture-time''"
definition kVideoRotationUri :: string where
  "kVideoRotationUri = ''urn:3gpp:video-orientation''"
definition kVideoContentTypeUri :: string where
  "kVideoContentTypeUri = ''http://www.webrtc.org/experiments/rtp-hdrext/video-content-type''"
definition kVideoTimingUri :: string where
  "kVideoTimingUri = ''http://www.webrtc.org/experiments/rtp-hdrext/video-timing''"
definition kGenericFrameDescriptorUri00 :: string where
  "kGenericFrameDescriptorUri00 =
     ''http://www.webrtc.org/experiments/rtp-hdrext/generic-frame-descriptor-00''"
definition kDependencyDescriptorUri :: string where
  "kDependencyDescriptorUri =
     ''https://aomediacodec.github.io/av1-rtp-spec/#dependency-descriptor-rtp-header-extension''"
definition kVideoLayersAllocationUri :: string where
  "kVideoLayersAllocationUri =
     ''http://www.webrtc.org/experiments/rtp-hdrext/video-layers-allocation00''"
definition kTransportSequenceNumberUri :: string where
  "kTransportSequenceNumberUri =
     ''http://www.ietf.org/id/draft-holmer-rmcat-transport-wide-cc-extensions-01''"
definition kTransportSequenceNumberV2Uri :: string where
  "kTransportSequenceNumberV2Uri =
     ''http://www.webrtc.org/experiments/rtp-hdrext/transport-wide-cc-02''"
definition kPlayoutDelayUri :: string where
  "kPlayoutDelayUri = ''http://www.webrtc.org/experiments/rtp-hdrext/playout-delay''"
definition kColorSpaceUri :: string where
  "kColorSpaceUri = ''http://www.webrtc.org/experiments/rtp-hdrext/color-space''"
definition kMidUri :: string where
  "kMidUri = ''urn:ietf:params:rtp-hdrext:sdes:mid''"
definition kRidUri :: string where
  "kRidUri = ''urn:ietf:params:rtp-hdrext:sdes:rtp-stream-id''"
definition kRepairedRidUri :: string where
  "kRepairedRidUri = ''urn:ietf:params:rtp-hdrext:sdes:repaired-rtp-stream-id''"
definition kVideoFrameTrackingIdUri :: string where
  "kVideoFrameTrackingIdUri =
     ''http://www.webrtc.org/experiments/rtp-hdrext/video-frame-tracking-id''"
definition kCsrcAudioLevelsUri :: string where
  "kCsrcAudioLevelsUri = ''urn:ietf:params:rtp-hdrext:csrc-audio-level''"
definition kInbandComfortNoiseUri :: string where
  "kInbandComfortNoiseUri = ''http://www.webrtc.org/experiments/rtp-hdrext/inband-cn''"

definition kExtensions :: "(RTPExtensionType \<times> string) list" where
  "kExtensions =
     [(kRtpExtensionTransmissionTimeOffset, kTimestampOffsetUri),
      (kRtpExtensionAudioLevel, kAudioLevelUri),
      (kRtpExtensionCsrcAudioLevel, kCsrcAudioLevelsUri),
      (kRtpExtensionAbsoluteSendTime, kAbsSendTimeUri),
      (kRtpExtensionAbsoluteCaptureTime, kAbsoluteCaptureTimeUri),
      (kRtpExtensionVideoRotation, kVideoRotationUri),
      (kRtpExtensionTransportSequenceNumber, kTransportSequenceNumberUri),
      (kRtpExtensionTransportSequenceNumber02, kTransportSequenceNumberV2Uri),
      (kRtpExtensionPlayoutDelay, kPlayoutDelayUri),
      (kRtpExtensionVideoContentType, kVideoContentTypeUri),
      (kRtpExtensionVideoLayersAllocation, kVideoLayersAllocationUri),
      (kRtpExtensionVideoTiming, kVideoTimingUri),
      (kRtpExtensionRtpStreamId, kRidUri),
      (kRtpExtensionRepairedRtpStreamId, kRepairedRidUri),
      (kRtpExtensionMid, kMidUri),
      (kRtpExtensionGenericFrameDescriptor00, kGenericFrameDescriptorUri00),
      (kRtpExtensionGenericFrameDescriptor02, kDependencyDescriptorUri),
      (kRtpExtensionColorSpace, kColorSpaceUri),
      (kRtpExtensionInbandComfortNoise, kInbandComfortNoiseUri),
      (kRtpExtensionVideoFrameTrackingId, kVideoFrameTrackingIdUri)]"

subsection \<open>The map\<close>

text \<open>\<open>ids_\<close> is an array over the enumeration, so a function here; an id is a \<open>uint8_t\<close>.\<close>

record RtpHeaderExtensionMap =
  ids :: "RTPExtensionType \<Rightarrow> nat"
  extmap_allow_mixed :: bool

definition kInvalidId :: nat where "kInvalidId = 0"

definition RtpHeaderExtensionMap_init :: "bool \<Rightarrow> RtpHeaderExtensionMap" where
  "RtpHeaderExtensionMap_init mixed = \<lparr>ids = (\<lambda>_. kInvalidId), extmap_allow_mixed = mixed\<rparr>"

definition GetId :: "RTPExtensionType \<Rightarrow> RtpHeaderExtensionMap \<Rightarrow> nat" where
  "GetId type m = ids m type"

definition IsRegistered :: "RTPExtensionType \<Rightarrow> RtpHeaderExtensionMap \<Rightarrow> bool" where
  "IsRegistered type m \<longleftrightarrow> GetId type m \<noteq> kInvalidId"

text \<open>The loop over the types: the first whose id is the given one, or \<open>kInvalidType\<close>.\<close>

definition GetType :: "int \<Rightarrow> RtpHeaderExtensionMap \<Rightarrow> RTPExtensionType" where
  "GetType ident m = (case find (\<lambda>type. int (ids m type) = ident) extension_types of
     Some type \<Rightarrow> type | None \<Rightarrow> kRtpExtensionNone)"

definition Register :: "int \<Rightarrow> RTPExtensionType \<Rightarrow> RtpHeaderExtensionMap \<Rightarrow> bool \<times> RtpHeaderExtensionMap" where
  "Register ident type m =
     (if ident < int kMinId \<or> ident > int kMaxId then (False, m)
      else
        let registered_type = GetType ident m
        in if registered_type = type then (True, m)
           else if registered_type \<noteq> kRtpExtensionNone then (False, m)
           else (True, m\<lparr>ids := (ids m)(type := nat ident)\<rparr>))"

definition RegisterByType :: "int \<Rightarrow> RTPExtensionType \<Rightarrow> RtpHeaderExtensionMap
    \<Rightarrow> bool \<times> RtpHeaderExtensionMap" where
  "RegisterByType ident type m = (case find (\<lambda>e. type = fst e) kExtensions of
     Some e \<Rightarrow> Register ident (fst e) m | None \<Rightarrow> (False, m))"

definition RegisterByUri :: "int \<Rightarrow> string \<Rightarrow> RtpHeaderExtensionMap \<Rightarrow> bool \<times> RtpHeaderExtensionMap" where
  "RegisterByUri ident uri m = (case find (\<lambda>e. uri = snd e) kExtensions of
     Some e \<Rightarrow> Register ident (fst e) m | None \<Rightarrow> (False, m))"

definition Deregister :: "RTPExtensionType \<Rightarrow> RtpHeaderExtensionMap \<Rightarrow> RtpHeaderExtensionMap" where
  "Deregister type m = (if IsRegistered type m then m\<lparr>ids := (ids m)(type := kInvalidId)\<rparr> else m)"

definition DeregisterUri :: "string \<Rightarrow> RtpHeaderExtensionMap \<Rightarrow> RtpHeaderExtensionMap" where
  "DeregisterUri uri m = (case find (\<lambda>e. snd e = uri) kExtensions of
     Some e \<Rightarrow> m\<lparr>ids := (ids m)(fst e := kInvalidId)\<rparr> | None \<Rightarrow> m)"

subsection \<open>\<open>RtpExtension\<close>: lists of negotiated extensions\<close>

record RtpExtension =
  ext_uri :: string
  ext_id :: int
  ext_encrypt :: bool

datatype Filter = kDiscardEncryptedExtension | kPreferEncryptedExtension | kRequireEncryptedExtension

definition extension_map_of :: "RtpExtension list \<Rightarrow> RtpHeaderExtensionMap" where
  "extension_map_of extensions =
     fold (\<lambda>e m. snd (RegisterByUri (ext_id e) (ext_uri e) m)) extensions (RtpHeaderExtensionMap_init False)"

definition Reset :: "RtpExtension list \<Rightarrow> RtpHeaderExtensionMap \<Rightarrow> RtpHeaderExtensionMap" where
  "Reset extensions m =
     fold (\<lambda>e m. snd (RegisterByUri (ext_id e) (ext_uri e) m)) extensions (m\<lparr>ids := (\<lambda>_. kInvalidId)\<rparr>)"

definition IsSupportedForAudio :: "string \<Rightarrow> bool" where
  "IsSupportedForAudio uri \<longleftrightarrow> uri = kAudioLevelUri \<or> uri = kAbsSendTimeUri
     \<or> uri = kAbsoluteCaptureTimeUri \<or> uri = kTransportSequenceNumberUri
     \<or> uri = kTransportSequenceNumberV2Uri \<or> uri = kMidUri \<or> uri = kRidUri \<or> uri = kRepairedRidUri"

definition IsSupportedForVideo :: "string \<Rightarrow> bool" where
  "IsSupportedForVideo uri \<longleftrightarrow> uri = kTimestampOffsetUri \<or> uri = kAbsSendTimeUri
     \<or> uri = kAbsoluteCaptureTimeUri \<or> uri = kVideoRotationUri \<or> uri = kTransportSequenceNumberUri
     \<or> uri = kTransportSequenceNumberV2Uri \<or> uri = kPlayoutDelayUri \<or> uri = kVideoContentTypeUri
     \<or> uri = kVideoTimingUri \<or> uri = kMidUri \<or> uri = kGenericFrameDescriptorUri00
     \<or> uri = kDependencyDescriptorUri \<or> uri = kColorSpaceUri \<or> uri = kRidUri
     \<or> uri = kRepairedRidUri \<or> uri = kVideoLayersAllocationUri \<or> uri = kVideoFrameTrackingIdUri"

definition HeaderExtensionWithUriExists :: "RtpExtension list \<Rightarrow> string \<Rightarrow> bool" where
  "HeaderExtensionWithUriExists extensions uri = list_ex (\<lambda>e. ext_uri e = uri) extensions"

text \<open>The search loop; \<open>fallback\<close> is the local \<open>fallback_extension\<close>.\<close>

fun FindHeaderExtensionLoop :: "RtpExtension list \<Rightarrow> string \<Rightarrow> Filter \<Rightarrow> RtpExtension option
    \<Rightarrow> RtpExtension option" where
  "FindHeaderExtensionLoop [] uri filt fallback = fallback"
| "FindHeaderExtensionLoop (e # es) uri filt fallback =
     (if ext_uri e \<noteq> uri then FindHeaderExtensionLoop es uri filt fallback
      else case filt of
        kDiscardEncryptedExtension \<Rightarrow>
          if \<not> ext_encrypt e then Some e else FindHeaderExtensionLoop es uri filt fallback
      | kPreferEncryptedExtension \<Rightarrow>
          if ext_encrypt e then Some e else FindHeaderExtensionLoop es uri filt (Some e)
      | kRequireEncryptedExtension \<Rightarrow>
          if ext_encrypt e then Some e else FindHeaderExtensionLoop es uri filt fallback)"

definition FindHeaderExtensionByUri :: "RtpExtension list \<Rightarrow> string \<Rightarrow> Filter \<Rightarrow> RtpExtension option" where
  "FindHeaderExtensionByUri extensions uri filt = FindHeaderExtensionLoop extensions uri filt None"

definition FindHeaderExtensionByUriAndEncryption :: "RtpExtension list \<Rightarrow> string \<Rightarrow> bool
    \<Rightarrow> RtpExtension option" where
  "FindHeaderExtensionByUriAndEncryption extensions uri encrypt =
     find (\<lambda>e. ext_uri e = uri \<and> ext_encrypt e = encrypt) extensions"

text \<open>One of the two loops of \<open>DeduplicateHeaderExtensions\<close>.\<close>

definition add_missing :: "bool \<Rightarrow> RtpExtension \<Rightarrow> RtpExtension list \<Rightarrow> RtpExtension list" where
  "add_missing encrypted e filtered =
     (if ext_encrypt e \<noteq> encrypted then filtered
      else if \<not> HeaderExtensionWithUriExists filtered (ext_uri e) then filtered @ [e] else filtered)"

definition DeduplicateHeaderExtensions :: "RtpExtension list \<Rightarrow> Filter \<Rightarrow> RtpExtension list" where
  "DeduplicateHeaderExtensions extensions filt =
     (let filtered = (if filt \<noteq> kDiscardEncryptedExtension
                      then fold (add_missing True) extensions [] else [])
      in if filt \<noteq> kRequireEncryptedExtension
         then fold (add_missing False) extensions filtered else filtered)"

subsection \<open>Ids and types are in bijection\<close>

definition map_inv :: "RtpHeaderExtensionMap \<Rightarrow> bool" where
  "map_inv m \<longleftrightarrow> ids m kRtpExtensionNone = 0 \<and> (\<forall>t. ids m t \<le> 255)
     \<and> (\<forall>t u. ids m t = ids m u \<longrightarrow> ids m t \<noteq> 0 \<longrightarrow> t = u)"

lemma set_extension_types: "set extension_types = {t. t \<noteq> kRtpExtensionNone}"
proof -
  have "t \<in> set extension_types" if "t \<noteq> kRtpExtensionNone" for t
    using that by (cases t) (simp_all add: extension_types_def)
  moreover have "kRtpExtensionNone \<notin> set extension_types" by (simp add: extension_types_def)
  ultimately show ?thesis by blast
qed

lemma find_SomeD:
  assumes "find P xs = Some x"
  shows "x \<in> set xs" and "P x"
  using assms by (auto simp: find_Some_iff)

lemma GetType_None: "GetType i m = kRtpExtensionNone \<longleftrightarrow> (\<forall>t. t \<noteq> kRtpExtensionNone \<longrightarrow> int (ids m t) \<noteq> i)"
proof (cases "find (\<lambda>type. int (ids m type) = i) extension_types")
  case None
  then have "GetType i m = kRtpExtensionNone" by (simp add: GetType_def)
  with None show ?thesis using set_extension_types by (auto simp: find_None_iff)
next
  case (Some t)
  then have "t \<in> set extension_types" "int (ids m t) = i"
    by (auto dest: find_SomeD)
  with Some show ?thesis using set_extension_types by (auto simp: GetType_def)
qed

lemma GetType_ids: "GetType i m \<noteq> kRtpExtensionNone \<Longrightarrow> int (ids m (GetType i m)) = i"
  by (auto simp: GetType_def dest: find_SomeD split: option.splits)

lemma GetType_eq:
  assumes "map_inv m" and "0 < i" and "t \<noteq> kRtpExtensionNone"
  shows "GetType i m = t \<longleftrightarrow> int (ids m t) = i"
proof
  assume "GetType i m = t"
  then show "int (ids m t) = i" using GetType_ids [of i m] assms(3) by simp
next
  assume t: "int (ids m t) = i"
  then have "GetType i m \<noteq> kRtpExtensionNone" using GetType_None assms(3) by blast
  then have "ids m (GetType i m) = ids m t" using GetType_ids [of i m] t by simp
  with t assms(1,2) show "GetType i m = t" by (auto simp: map_inv_def)
qed

lemma map_inv_init: "map_inv (RtpHeaderExtensionMap_init b)"
  by (simp add: map_inv_def RtpHeaderExtensionMap_init_def kInvalidId_def)

lemma map_inv_clear: "map_inv m \<Longrightarrow> map_inv (m\<lparr>ids := (ids m)(t := kInvalidId)\<rparr>)"
  by (auto simp: map_inv_def kInvalidId_def)

lemma map_inv_Register:
  assumes "map_inv m" and "t \<noteq> kRtpExtensionNone"
  shows "map_inv (snd (Register i t m))"
proof (cases "i < 1 \<or> i > 255 \<or> GetType i m \<noteq> kRtpExtensionNone \<or> GetType i m = t")
  case True
  then show ?thesis using assms by (auto simp: Register_def kMinId_def kMaxId_def Let_def)
next
  case False
  then have i: "1 \<le> i" "i \<le> 255" and new: "ids m u \<noteq> nat i" for u
    using GetType_None [of i m] assms(1) by (cases "u = kRtpExtensionNone", auto simp: map_inv_def)+
  moreover have "snd (Register i t m) = m\<lparr>ids := (ids m)(t := nat i)\<rparr>"
    using False by (simp add: Register_def kMinId_def kMaxId_def Let_def)
  ultimately show ?thesis
    using assms by (auto simp: map_inv_def nat_le_iff new new [symmetric])
qed

lemma kExtensions_types: "e \<in> set kExtensions \<Longrightarrow> fst e \<noteq> kRtpExtensionNone"
  by (auto simp: kExtensions_def)

lemma map_inv_by:
  assumes "map_inv m"
  shows "map_inv (snd (RegisterByType i t m))" and "map_inv (snd (RegisterByUri i uri m))"
  using assms kExtensions_types map_inv_Register
  by (auto simp: RegisterByType_def RegisterByUri_def dest: find_SomeD split: option.split)

text \<open>The operations a program can apply to a map.\<close>

inductive reachable_map :: "RtpHeaderExtensionMap \<Rightarrow> bool" where
  "reachable_map (RtpHeaderExtensionMap_init b)"
| "reachable_map m \<Longrightarrow> reachable_map (snd (RegisterByType i t m))"
| "reachable_map m \<Longrightarrow> reachable_map (snd (RegisterByUri i uri m))"
| "reachable_map m \<Longrightarrow> reachable_map (Deregister t m)"
| "reachable_map m \<Longrightarrow> reachable_map (DeregisterUri uri m)"
| "reachable_map m \<Longrightarrow> reachable_map (m\<lparr>extmap_allow_mixed := b\<rparr>)"
| "reachable_map m \<Longrightarrow> reachable_map (m\<lparr>ids := (\<lambda>_. kInvalidId)\<rparr>)"

lemma reachable_map_inv: "reachable_map m \<Longrightarrow> map_inv m"
proof (induction rule: reachable_map.induct)
  case (4 m t)
  then show ?case by (simp add: Deregister_def map_inv_clear)
next
  case (5 m uri)
  then show ?case by (simp add: DeregisterUri_def map_inv_clear split: option.split)
next
  case (6 m b)
  then show ?case by (simp add: map_inv_def)
next
  case (7 m)
  then show ?case by (simp add: map_inv_def kInvalidId_def)
qed (simp_all add: map_inv_init map_inv_by)

lemma reachable_fold: "reachable_map m \<Longrightarrow>
    reachable_map (fold (\<lambda>e m. snd (RegisterByUri (ext_id e) (ext_uri e) m)) es m)"
  by (induction es arbitrary: m) (simp_all add: reachable_map.intros)

lemma reachable_map_of: "reachable_map (extension_map_of es)" "reachable_map m \<Longrightarrow> reachable_map (Reset es m)"
  by (simp_all add: extension_map_of_def Reset_def reachable_fold reachable_map.intros)

text \<open>
  C30: whatever sequence of registrations, deregistrations and resets produced a map, each id
  belongs to at most one type and \<open>GetType\<close> and \<open>GetId\<close> are inverse to each other; a successful
  registration makes exactly the given pair hold, and a refused one changes nothing.
\<close>

theorem extension_map_bijection:
  assumes "reachable_map m" and "t \<noteq> kRtpExtensionNone"
  shows "(0 < i \<longrightarrow> (GetType i m = t \<longleftrightarrow> int (GetId t m) = i))
    \<and> (fst (Register i t m) \<longleftrightarrow> 1 \<le> i \<and> i \<le> 255 \<and> GetType i m \<in> {t, kRtpExtensionNone})
    \<and> (if fst (Register i t m)
       then int (GetId t (snd (Register i t m))) = i \<and> GetType i (snd (Register i t m)) = t
         \<and> (\<forall>u. u \<noteq> t \<longrightarrow> GetId u (snd (Register i t m)) = GetId u m)
       else snd (Register i t m) = m)"
proof -
  have inv: "map_inv m" using reachable_map_inv assms(1) .
  let ?r = "Register i t m"
  have inv': "map_inv (snd ?r)" using map_inv_Register inv assms(2) .
  have ok: "fst ?r \<longleftrightarrow> 1 \<le> i \<and> i \<le> 255 \<and> GetType i m \<in> {t, kRtpExtensionNone}"
    using assms(2) by (auto simp: Register_def Let_def kMinId_def kMaxId_def)
  have refused: "snd ?r = m" if "\<not> fst ?r"
    using that by (auto simp: Register_def Let_def split: if_splits)
  have made: "int (GetId t (snd ?r)) = i \<and> (\<forall>u. u \<noteq> t \<longrightarrow> GetId u (snd ?r) = GetId u m)" if "fst ?r"
    using that ok assms(2) GetType_ids [of i m]
    by (auto simp: Register_def Let_def GetId_def kMinId_def kMaxId_def)
  then have "GetType i (snd ?r) = t" if "fst ?r"
    using that ok GetType_eq [OF inv' _ assms(2), of i] by (simp add: GetId_def)
  with ok refused made GetType_eq [OF inv _ assms(2), of i] show ?thesis
    by (auto simp: GetId_def)
qed

theorem extension_map_bijection_witness:
  "let m = snd (RegisterByType 3 kRtpExtensionMid (RtpHeaderExtensionMap_init True))
   in GetType 3 m = kRtpExtensionMid \<and> \<not> fst (Register 3 kRtpExtensionAudioLevel m)"
proof -
  let ?m = "snd (RegisterByType 3 kRtpExtensionMid (RtpHeaderExtensionMap_init True))"
  have "reachable_map ?m" by (intro reachable_map.intros)
  moreover have "GetId kRtpExtensionMid ?m = 3" by code_simp
  ultimately have "GetType 3 ?m = kRtpExtensionMid"
    using extension_map_bijection [of ?m kRtpExtensionMid 3] by simp
  then show ?thesis
    using extension_map_bijection [of ?m kRtpExtensionAudioLevel 3] \<open>reachable_map ?m\<close> by simp
qed

subsection \<open>Deduplication\<close>

lemma HeaderExtensionWithUriExists_iff: "HeaderExtensionWithUriExists es uri \<longleftrightarrow> uri \<in> ext_uri ` set es"
  by (auto simp: HeaderExtensionWithUriExists_def list_ex_iff)

text \<open>What one pass over the list adds to the extensions collected before.\<close>

lemma fold_add_missing:
  "distinct (map ext_uri acc) \<Longrightarrow>
   (\<exists>new. fold (add_missing b) es acc = acc @ new \<and> distinct (map ext_uri (acc @ new))
     \<and> set new \<subseteq> {e \<in> set es. ext_encrypt e = b}
     \<and> ext_uri ` set (acc @ new) = ext_uri ` set acc \<union> ext_uri ` {e \<in> set es. ext_encrypt e = b})"
proof (induction es arbitrary: acc)
  case (Cons e es)
  show ?case
  proof (cases "ext_encrypt e = b \<and> ext_uri e \<notin> ext_uri ` set acc")
    case True
    then have step: "add_missing b e acc = acc @ [e]"
      by (simp add: add_missing_def HeaderExtensionWithUriExists_iff)
    have "distinct (map ext_uri (acc @ [e]))" using True Cons.prems by simp
    from Cons.IH [OF this] obtain new where new: "fold (add_missing b) es (acc @ [e]) = (acc @ [e]) @ new"
      "distinct (map ext_uri ((acc @ [e]) @ new))" "set new \<subseteq> {e \<in> set es. ext_encrypt e = b}"
      "ext_uri ` set ((acc @ [e]) @ new) = ext_uri ` set (acc @ [e]) \<union> ext_uri ` {e \<in> set es. ext_encrypt e = b}"
      by blast
    then show ?thesis using True by (intro exI [of _ "e # new"]) (auto simp: step)
  next
    case False
    then have step: "add_missing b e acc = acc"
      by (auto simp: add_missing_def HeaderExtensionWithUriExists_iff)
    from Cons.IH [OF Cons.prems] obtain new where new: "fold (add_missing b) es acc = acc @ new"
      "distinct (map ext_uri (acc @ new))" "set new \<subseteq> {e \<in> set es. ext_encrypt e = b}"
      "ext_uri ` set (acc @ new) = ext_uri ` set acc \<union> ext_uri ` {e \<in> set es. ext_encrypt e = b}"
      by blast
    then show ?thesis using False by (intro exI [of _ new]) (auto simp: step)
  qed
qed simp

text \<open>A pass keeps what was there and takes the first one of each URI that is missing.\<close>

lemma find_add_missing:
  "find (\<lambda>d. ext_uri d = uri) (fold (add_missing b) es acc) =
     (case find (\<lambda>d. ext_uri d = uri) acc of None \<Rightarrow> find (\<lambda>e. ext_uri e = uri \<and> ext_encrypt e = b) es | Some d \<Rightarrow> Some d)"
proof (induction es arbitrary: acc)
  case (Cons e es)
  have "find (\<lambda>d. ext_uri d = uri) acc \<noteq> None" if "ext_uri e = uri" "HeaderExtensionWithUriExists acc (ext_uri e)"
    using that by (auto simp: HeaderExtensionWithUriExists_iff find_None_iff)
  then show ?case
    using Cons.IH[of "add_missing b e acc"] by (auto simp: add_missing_def find_append split: option.splits)
qed (simp split: option.split)

definition allowed :: "Filter \<Rightarrow> RtpExtension \<Rightarrow> bool" where
  "allowed filt e \<longleftrightarrow> (if ext_encrypt e then filt \<noteq> kDiscardEncryptedExtension
     else filt \<noteq> kRequireEncryptedExtension)"

lemma DeduplicateHeaderExtensions_first:
  "find (\<lambda>d. ext_uri d = uri) (DeduplicateHeaderExtensions es filt) =
     (case find (\<lambda>e. ext_uri e = uri \<and> ext_encrypt e \<and> allowed filt e) es of Some e \<Rightarrow> Some e
      | None \<Rightarrow> find (\<lambda>e. ext_uri e = uri \<and> \<not> ext_encrypt e \<and> allowed filt e) es)"
proof -
  have p: "(\<lambda>e. ext_uri e = uri \<and> ext_encrypt e \<and> allowed filt e) =
        (if filt \<noteq> kDiscardEncryptedExtension then (\<lambda>e. ext_uri e = uri \<and> ext_encrypt e = True) else (\<lambda>_. False))"
      "(\<lambda>e. ext_uri e = uri \<and> \<not> ext_encrypt e \<and> allowed filt e) =
        (if filt \<noteq> kRequireEncryptedExtension then (\<lambda>e. ext_uri e = uri \<and> ext_encrypt e = False) else (\<lambda>_. False))"
    by (auto simp: allowed_def fun_eq_iff)
  have "find (\<lambda>_. False) es = None" by (simp add: find_None_iff)
  then show ?thesis
    unfolding p DeduplicateHeaderExtensions_def Let_def by (cases filt) (simp_all add: find_add_missing split: option.split)
qed

text \<open>
  C31: \<open>DeduplicateHeaderExtensions\<close> returns extensions of the list that the filter allows, one for every URI that has an allowed extension and no URI
  twice. For each URI it is the first encrypted extension with that URI in the list, if encrypted ones are allowed and there is one, and otherwise the
  first one that is not encrypted, if such are allowed.
\<close>

theorem DeduplicateHeaderExtensions_spec:
  "let ds = DeduplicateHeaderExtensions es filt
   in distinct (map ext_uri ds) \<and> set ds \<subseteq> {e \<in> set es. allowed filt e}
    \<and> ext_uri ` set ds = ext_uri ` {e \<in> set es. allowed filt e}
    \<and> ext_uri ` {e \<in> set es. allowed filt e \<and> ext_encrypt e} = ext_uri ` {e \<in> set ds. ext_encrypt e}
    \<and> (\<forall>uri. find (\<lambda>d. ext_uri d = uri) ds =
        (case find (\<lambda>e. ext_uri e = uri \<and> ext_encrypt e \<and> allowed filt e) es of Some e \<Rightarrow> Some e
         | None \<Rightarrow> find (\<lambda>e. ext_uri e = uri \<and> \<not> ext_encrypt e \<and> allowed filt e) es))"
proof -
  define fst_pass where "fst_pass = (if filt \<noteq> kDiscardEncryptedExtension then fold (add_missing True) es [] else [])"
  have one: "distinct (map ext_uri fst_pass)" "set fst_pass \<subseteq> {e \<in> set es. allowed filt e \<and> ext_encrypt e}"
    "ext_uri ` set fst_pass = ext_uri ` {e \<in> set es. allowed filt e \<and> ext_encrypt e}"
    using fold_add_missing [of "[]" True es] by (auto simp: fst_pass_def allowed_def)
  obtain new where new: "DeduplicateHeaderExtensions es filt = fst_pass @ new"
    "distinct (map ext_uri (fst_pass @ new))" "set new \<subseteq> {e \<in> set es. allowed filt e \<and> \<not> ext_encrypt e}"
    "ext_uri ` set (fst_pass @ new) = ext_uri ` set fst_pass \<union> ext_uri ` {e \<in> set es. allowed filt e \<and> \<not> ext_encrypt e}"
  proof (cases "filt = kRequireEncryptedExtension")
    case True
    then have "DeduplicateHeaderExtensions es filt = fst_pass @ []"
      by (simp add: DeduplicateHeaderExtensions_def fst_pass_def)
    moreover have "{e \<in> set es. allowed filt e \<and> \<not> ext_encrypt e} = {}"
      using True by (simp add: allowed_def)
    ultimately show ?thesis using one(1) by (intro that [of "[]"]) auto
  next
    case False
    then have "DeduplicateHeaderExtensions es filt = fold (add_missing False) es fst_pass"
      by (simp add: DeduplicateHeaderExtensions_def fst_pass_def Let_def)
    moreover have "{e \<in> set es. allowed filt e \<and> \<not> ext_encrypt e} = {e \<in> set es. ext_encrypt e = False}"
      using False by (auto simp: allowed_def)
    ultimately show ?thesis using fold_add_missing [OF one(1), of False es] that by auto
  qed
  have all: "ext_uri ` {e \<in> set es. allowed filt e} = ext_uri ` {e \<in> set es. allowed filt e \<and> ext_encrypt e}
      \<union> ext_uri ` {e \<in> set es. allowed filt e \<and> \<not> ext_encrypt e}"
    by blast
  have enc: "{e \<in> set (fst_pass @ new). ext_encrypt e} = set fst_pass"
    using one(2) new(3) by auto
  have "distinct (map ext_uri (fst_pass @ new)) \<and> set (fst_pass @ new) \<subseteq> {e \<in> set es. allowed filt e}
      \<and> ext_uri ` set (fst_pass @ new) = ext_uri ` {e \<in> set es. allowed filt e}
      \<and> ext_uri ` {e \<in> set es. allowed filt e \<and> ext_encrypt e} = ext_uri ` {e \<in> set (fst_pass @ new). ext_encrypt e}"
    unfolding all enc using one new(2-4) by auto
  then show ?thesis unfolding Let_def new(1) using DeduplicateHeaderExtensions_first[of _ es filt] new(1) by metis
qed

end
