(* ===== verification/Rtp_Packet.thy ===== *)
theory Rtp_Packet
  imports Byte_Io Rtp_Extension_Map
begin

text \<open>
  \<open>rtp_packet\<close>: an RTP packet in its buffer. Header fields, contributing sources, header
  extensions in the one-byte and the two-byte form, payload and padding are written in place and
  parsed from the wire. The model keeps the packet's own buffer as memory with a capacity; a
  store beyond the capacity, a failed \<open>RTC_CHECK\<close> and a copy to a null pointer set \<open>rtp_fault\<close>.
\<close>

subsection \<open>The buffer\<close>

definition store :: "nat \<Rightarrow> byte list \<Rightarrow> (nat \<Rightarrow> byte) \<Rightarrow> nat \<Rightarrow> byte" where
  "store off bs m = (\<lambda>i. if off \<le> i \<and> i < off + length bs then bs ! (i - off) else m i)"

definition load :: "nat \<Rightarrow> nat \<Rightarrow> (nat \<Rightarrow> byte) \<Rightarrow> byte list" where
  "load off n m = map m [off..<off + n]"

subsection \<open>The class\<close>

record ExtensionInfo =
  info_id :: nat
  info_length :: nat
  info_offset :: nat

text \<open>\<open>uint8_t\<close>, \<open>uint8_t\<close> and \<open>uint16_t\<close>.\<close>

definition ExtensionInfo_init :: "nat \<Rightarrow> nat \<Rightarrow> nat \<Rightarrow> ExtensionInfo" where
  "ExtensionInfo_init ident len off =
     \<lparr>info_id = ident mod 2 ^ 8, info_length = len mod 2 ^ 8, info_offset = off mod 2 ^ 16\<rparr>"

record RtpPacket =
  rtp_marker :: bool
  rtp_payload_type :: byte
  rtp_padding_size :: nat
  rtp_sequence_number :: u16
  rtp_timestamp :: u32
  rtp_ssrc :: u32
  payload_offset :: nat
  rtp_payload_size :: nat
  rtp_extensions :: RtpHeaderExtensionMap
  extension_entries :: "ExtensionInfo list"
  extensions_size :: nat
  buf :: "nat \<Rightarrow> byte"
  buf_cap :: nat
  buf_size :: nat
  rtp_fault :: bool

definition kFixedHeaderSize :: nat where "kFixedHeaderSize = 12"
definition kRtpVersion :: byte where "kRtpVersion = 2"
definition kOneByteExtensionProfileId :: u16 where "kOneByteExtensionProfileId = 0xBEDE"
definition kTwoByteExtensionProfileId :: u16 where "kTwoByteExtensionProfileId = 0x1000"
definition kTwobyteExtensionProfileIdAppBitsFilter :: u16 where
  "kTwobyteExtensionProfileIdAppBitsFilter = 0xfff0"
definition kOneByteExtensionHeaderLength :: nat where "kOneByteExtensionHeaderLength = 1"
definition kTwoByteExtensionHeaderLength :: nat where "kTwoByteExtensionHeaderLength = 2"
definition kDefaultPacketSize :: nat where "kDefaultPacketSize = 1500"

definition rtp_size :: "RtpPacket \<Rightarrow> nat" where
  "rtp_size p = payload_offset p + rtp_payload_size p + rtp_padding_size p"

definition WriteAt :: "nat \<Rightarrow> byte list \<Rightarrow> RtpPacket \<Rightarrow> RtpPacket" where
  "WriteAt off bs p = p\<lparr>buf := store off bs (buf p),
     rtp_fault := rtp_fault p \<or> buf_cap p < off + length bs\<rparr>"

definition rtp_Clear :: "RtpPacket \<Rightarrow> RtpPacket" where
  "rtp_Clear p =
     (let p = p\<lparr>rtp_marker := False, rtp_payload_type := 0, rtp_sequence_number := 0,
                rtp_timestamp := 0, rtp_ssrc := 0, payload_offset := kFixedHeaderSize,
                rtp_payload_size := 0, rtp_padding_size := 0, extensions_size := 0,
                extension_entries := []\<rparr>;
          p = WriteAt 0 (replicate kFixedHeaderSize 0) p;
          p = p\<lparr>buf_size := kFixedHeaderSize\<rparr>
      in WriteAt 0 [push_bit 6 kRtpVersion] p)"

text \<open>The constructor; the memory \<open>m\<close> of the new buffer is uninitialised.\<close>

definition RtpPacket_init :: "RtpHeaderExtensionMap \<Rightarrow> nat \<Rightarrow> (nat \<Rightarrow> byte) \<Rightarrow> RtpPacket" where
  "RtpPacket_init exts capacity m = rtp_Clear
     \<lparr>rtp_marker = False, rtp_payload_type = 0, rtp_padding_size = 0, rtp_sequence_number = 0,
      rtp_timestamp = 0, rtp_ssrc = 0, payload_offset = 0, rtp_payload_size = 0,
      rtp_extensions = exts, extension_entries = [], extensions_size = 0, buf = m,
      buf_cap = capacity, buf_size = capacity, rtp_fault = False\<rparr>"

definition IdentifyExtensions :: "RtpHeaderExtensionMap \<Rightarrow> RtpPacket \<Rightarrow> RtpPacket" where
  "IdentifyExtensions exts p = p\<lparr>rtp_extensions := exts\<rparr>"

definition num_csrcs :: "RtpPacket \<Rightarrow> nat" where
  "num_csrcs p = unat (buf p 0 AND 0x0F)"

definition Csrcs :: "RtpPacket \<Rightarrow> u32 list" where
  "Csrcs p = map (\<lambda>i. ReadBigEndian4 (load (kFixedHeaderSize + i * 4) 4 (buf p))) [0..<num_csrcs p]"

definition CopyHeaderFrom :: "RtpPacket \<Rightarrow> RtpPacket \<Rightarrow> RtpPacket" where
  "CopyHeaderFrom packet p = p\<lparr>rtp_marker := rtp_marker packet,
     rtp_payload_type := rtp_payload_type packet,
     rtp_sequence_number := rtp_sequence_number packet, rtp_timestamp := rtp_timestamp packet,
     rtp_ssrc := rtp_ssrc packet, payload_offset := payload_offset packet,
     rtp_extensions := rtp_extensions packet, extension_entries := extension_entries packet,
     extensions_size := extensions_size packet, buf := buf packet, buf_cap := buf_cap packet,
     buf_size := payload_offset packet, rtp_payload_size := 0, rtp_padding_size := 0\<rparr>"

definition SetMarker :: "bool \<Rightarrow> RtpPacket \<Rightarrow> RtpPacket" where
  "SetMarker marker_bit p =
     (let p = p\<lparr>rtp_marker := marker_bit\<rparr>
      in if rtp_marker p then WriteAt 1 [buf p 1 OR 0x80] p else WriteAt 1 [buf p 1 AND 0x7F] p)"

definition SetPayloadType :: "byte \<Rightarrow> RtpPacket \<Rightarrow> RtpPacket" where
  "SetPayloadType pt p =
     (let p = p\<lparr>rtp_payload_type := pt\<rparr> in WriteAt 1 [(buf p 1 AND 0x80) OR pt] p)"

definition SetSequenceNumber :: "u16 \<Rightarrow> RtpPacket \<Rightarrow> RtpPacket" where
  "SetSequenceNumber seq_no p = WriteAt 2 (put_be16 seq_no) (p\<lparr>rtp_sequence_number := seq_no\<rparr>)"

definition SetTimestamp :: "u32 \<Rightarrow> RtpPacket \<Rightarrow> RtpPacket" where
  "SetTimestamp ts p = WriteAt 4 (put_be32 ts) (p\<lparr>rtp_timestamp := ts\<rparr>)"

definition SetSsrc :: "u32 \<Rightarrow> RtpPacket \<Rightarrow> RtpPacket" where
  "SetSsrc s p = WriteAt 8 (put_be32 s) (p\<lparr>rtp_ssrc := s\<rparr>)"

definition kPacerExitDeltaOffset :: nat where "kPacerExitDeltaOffset = 7"

text \<open>The body of the loop of \<open>ZeroMutableExtensions\<close>.\<close>

definition ZeroExtension :: "ExtensionInfo \<Rightarrow> RtpPacket \<Rightarrow> RtpPacket" where
  "ZeroExtension e p = (case GetType (int (info_id e)) (rtp_extensions p) of
     kRtpExtensionVideoTiming \<Rightarrow>
       if kPacerExitDeltaOffset < info_length e
       then WriteAt (info_offset e + kPacerExitDeltaOffset)
              (replicate (info_length e - kPacerExitDeltaOffset) 0) p
       else p
   | kRtpExtensionTransportSequenceNumber \<Rightarrow> WriteAt (info_offset e) (replicate (info_length e) 0) p
   | kRtpExtensionTransportSequenceNumber02 \<Rightarrow> WriteAt (info_offset e) (replicate (info_length e) 0) p
   | kRtpExtensionTransmissionTimeOffset \<Rightarrow> WriteAt (info_offset e) (replicate (info_length e) 0) p
   | kRtpExtensionAbsoluteSendTime \<Rightarrow> WriteAt (info_offset e) (replicate (info_length e) 0) p
   | _ \<Rightarrow> p)"

definition ZeroMutableExtensions :: "RtpPacket \<Rightarrow> RtpPacket" where
  "ZeroMutableExtensions p = fold ZeroExtension (extension_entries p) p"

definition SetCsrcs :: "u32 list \<Rightarrow> RtpPacket \<Rightarrow> RtpPacket" where
  "SetCsrcs csrcs p =
     (let p = p\<lparr>payload_offset := kFixedHeaderSize + 4 * length csrcs\<rparr>;
          p = WriteAt 0 [(buf p 0 AND 0xF0) OR of_nat (length csrcs)] p;
          (p, _) = fold (\<lambda>csrc (p, off). (WriteAt off (put_be32 csrc) p, off + 4)) csrcs
                     (p, kFixedHeaderSize)
      in p\<lparr>buf_size := payload_offset p\<rparr>)"

definition FindExtensionInfo :: "nat \<Rightarrow> RtpPacket \<Rightarrow> ExtensionInfo option" where
  "FindExtensionInfo ident p = find (\<lambda>e. info_id e = ident) (extension_entries p)"

definition SetExtensionLengthMaybeAddZeroPadding :: "nat \<Rightarrow> RtpPacket \<Rightarrow> nat \<times> RtpPacket" where
  "SetExtensionLengthMaybeAddZeroPadding extensions_offset p =
     (let extensions_words = ((extensions_size p + 3) div 4) mod 2 ^ 16;
          p = WriteAt (extensions_offset - 2) (put_be16 (of_nat extensions_words)) p;
          extension_padding_size = size_sub (4 * extensions_words) (extensions_size p);
          p = WriteAt (extensions_offset + extensions_size p) (replicate extension_padding_size 0) p
      in ((4 * extensions_words) mod 2 ^ 16, p))"

text \<open>
  The loop of \<open>PromoteToTwoByteHeaderExtension\<close>, over the entries from the last to the first;
  \<open>moved\<close> are those already rewritten.
\<close>

fun PromoteLoop :: "ExtensionInfo list \<Rightarrow> nat \<Rightarrow> ExtensionInfo list \<Rightarrow> RtpPacket \<Rightarrow> RtpPacket" where
  "PromoteLoop [] write_read_delta moved p = p\<lparr>extension_entries := moved\<rparr>"
| "PromoteLoop (e # es) write_read_delta moved p =
     (let read_index = info_offset e;
          write_index = read_index + write_read_delta;
          e = e\<lparr>info_offset := write_index mod 2 ^ 16\<rparr>;
          p = WriteAt write_index (load read_index (info_length e) (buf p)) p;
          p = WriteAt (write_index - 1) [of_nat (info_length e)] p;
          p = WriteAt (write_index - 2) [of_nat (info_id e)] p
      in PromoteLoop es (write_read_delta - 1) (e # moved) p)"

definition read_profile :: "nat \<Rightarrow> RtpPacket \<Rightarrow> u16" where
  "read_profile extensions_offset p = ReadBigEndian2 (load (extensions_offset - 4) 2 (buf p))"

definition extensions_start :: "RtpPacket \<Rightarrow> nat" where
  "extensions_start p = kFixedHeaderSize + num_csrcs p * 4 + 4"

text \<open>A failed \<open>RTC_CHECK\<close> is the first branch.\<close>

definition PromoteToTwoByteHeaderExtension :: "RtpPacket \<Rightarrow> RtpPacket" where
  "PromoteToTwoByteHeaderExtension p =
     (let extensions_offset = extensions_start p
      in if extension_entries p = [] \<or> rtp_payload_size p \<noteq> 0
            \<or> read_profile extensions_offset p \<noteq> kOneByteExtensionProfileId
         then p\<lparr>rtp_fault := True\<rparr>
         else
           let p = PromoteLoop (rev (extension_entries p)) (length (extension_entries p)) [] p;
               p = WriteAt (extensions_offset - 4) (put_be16 kTwoByteExtensionProfileId) p;
               p = p\<lparr>extensions_size := extensions_size p + length (extension_entries p)\<rparr>;
               (padded, p) = SetExtensionLengthMaybeAddZeroPadding extensions_offset p;
               p = p\<lparr>payload_offset := extensions_offset + padded\<rparr>
           in p\<lparr>buf_size := payload_offset p\<rparr>)"

text \<open>
  The part of \<open>AllocateRawExtension\<close> that writes the header of a new extension, once the
  profile is settled: the view of the extension's bytes as offset and length, or no view.
\<close>

definition AppendExtension :: "nat \<Rightarrow> nat \<Rightarrow> u16 \<Rightarrow> RtpPacket \<Rightarrow> (nat \<times> nat) option \<times> RtpPacket" where
  "AppendExtension ident len profile_id p =
     (let extensions_offset = extensions_start p;
          extension_header_size = (if profile_id = kOneByteExtensionProfileId
             then kOneByteExtensionHeaderLength else kTwoByteExtensionHeaderLength);
          new_extensions_size = extensions_size p + extension_header_size + len
      in if extensions_offset + new_extensions_size > buf_cap p then (None, p)
         else
           let p = (if extensions_size p = 0
                    then WriteAt (extensions_offset - 4) (put_be16 profile_id)
                           (WriteAt 0 [buf p 0 OR 0x10] p)
                    else p);
               p = (if profile_id = kOneByteExtensionProfileId
                    then WriteAt (extensions_offset + extensions_size p)
                           [push_bit 4 (of_nat ident) OR of_nat (len - 1)] p
                    else WriteAt (extensions_offset + extensions_size p + 1) [of_nat len]
                           (WriteAt (extensions_offset + extensions_size p) [of_nat ident] p));
               info_off = extensions_offset + extensions_size p + extension_header_size;
               info = ExtensionInfo_init ident len info_off;
               p = p\<lparr>extension_entries := extension_entries p @ [info],
                     extensions_size := new_extensions_size\<rparr>;
               (padded, p) = SetExtensionLengthMaybeAddZeroPadding extensions_offset p;
               p = p\<lparr>payload_offset := extensions_offset + padded\<rparr>;
               p = p\<lparr>buf_size := payload_offset p\<rparr>
           in (Some (info_offset info, info_length info), p))"

definition AllocateRawExtension :: "nat \<Rightarrow> nat \<Rightarrow> RtpPacket \<Rightarrow> (nat \<times> nat) option \<times> RtpPacket" where
  "AllocateRawExtension ident len p =
     (case FindExtensionInfo ident p of
        Some e \<Rightarrow> (if info_length e = len then Some (info_offset e, len) else None, p)
      | None \<Rightarrow>
          if rtp_payload_size p > 0 then (None, p)
          else if rtp_padding_size p > 0 then (None, p)
          else
            let extensions_offset = extensions_start p;
                two_byte_header_required = (ident > kOneByteHeaderExtensionMaxId
                  \<or> len > kOneByteHeaderExtensionMaxValueSize \<or> len = 0)
            in if two_byte_header_required \<and> \<not> extmap_allow_mixed (rtp_extensions p)
               then (None, p\<lparr>rtp_fault := True\<rparr>)
               else if extensions_size p > 0 then
                 let profile_id = read_profile extensions_offset p
                 in if profile_id = kOneByteExtensionProfileId \<and> two_byte_header_required then
                      if extensions_offset + (extensions_size p + length (extension_entries p)
                           + kTwoByteExtensionHeaderLength + len) > buf_cap p
                      then (None, p)
                      else AppendExtension ident len kTwoByteExtensionProfileId
                             (PromoteToTwoByteHeaderExtension p)
                    else AppendExtension ident len profile_id p
               else AppendExtension ident len (if two_byte_header_required
                      then kTwoByteExtensionProfileId else kOneByteExtensionProfileId) p)"

definition SetPayloadSize :: "nat \<Rightarrow> RtpPacket \<Rightarrow> nat option \<times> RtpPacket" where
  "SetPayloadSize size_bytes p =
     (if payload_offset p + size_bytes > buf_cap p then (None, p)
      else (Some (payload_offset p), p\<lparr>rtp_payload_size := size_bytes,
              buf_size := payload_offset p + size_bytes\<rparr>))"

definition AllocatePayload :: "nat \<Rightarrow> RtpPacket \<Rightarrow> nat option \<times> RtpPacket" where
  "AllocatePayload size_bytes p = SetPayloadSize size_bytes (snd (SetPayloadSize 0 p))"

definition SetPadding :: "nat \<Rightarrow> RtpPacket \<Rightarrow> bool \<times> RtpPacket" where
  "SetPadding padding_bytes p =
     (if payload_offset p + rtp_payload_size p + padding_bytes > buf_cap p then (False, p)
      else
        let p = p\<lparr>rtp_padding_size := padding_bytes mod 2 ^ 8\<rparr>;
            p = p\<lparr>buf_size := payload_offset p + rtp_payload_size p + rtp_padding_size p\<rparr>
        in if rtp_padding_size p > 0 then
             let padding_offset = payload_offset p + rtp_payload_size p;
                 padding_end = padding_offset + rtp_padding_size p;
                 p = WriteAt padding_offset (replicate (rtp_padding_size p - 1) 0) p;
                 p = WriteAt (padding_end - 1) [of_nat (rtp_padding_size p)] p
             in (True, WriteAt 0 [buf p 0 OR 0x20] p)
           else (True, WriteAt 0 [buf p 0 AND NOT 0x20] p))"

subsection \<open>Parsing\<close>

definition set_entry :: "nat \<Rightarrow> nat \<Rightarrow> nat \<Rightarrow> ExtensionInfo list \<Rightarrow> ExtensionInfo list" where
  "set_entry ident len off es =
     map (\<lambda>e. if info_id e = ident then e\<lparr>info_offset := off, info_length := len\<rparr> else e) es"

text \<open>
  \<open>FindOrCreateExtensionInfo\<close> gives a reference into the vector; here the vector it leaves,
  the entry being the one with the id.
\<close>

definition FindOrCreateExtensionInfo :: "nat \<Rightarrow> ExtensionInfo list \<Rightarrow> ExtensionInfo list" where
  "FindOrCreateExtensionInfo ident es =
     (if list_ex (\<lambda>e. info_id e = ident) es then es else es @ [ExtensionInfo_init ident 0 0])"

text \<open>The loop over the elements of the extension block.\<close>

function ParseExtensions :: "byte list \<Rightarrow> bool \<Rightarrow> nat \<Rightarrow> nat \<Rightarrow> nat \<Rightarrow> ExtensionInfo list
    \<Rightarrow> (nat \<times> ExtensionInfo list) option" where
  "ParseExtensions bs one_byte extension_offset extensions_capacity sz es =
     (let extension_header_length = (if one_byte then kOneByteExtensionHeaderLength
                                     else kTwoByteExtensionHeaderLength)
      in if sz + extension_header_length < extensions_capacity then do {
           b \<leftarrow> get_u8 bs (extension_offset + sz);
           if b = 0 then ParseExtensions bs one_byte extension_offset extensions_capacity (sz + 1) es
           else do {
             (ident, len) \<leftarrow> (if one_byte then Some (unat (drop_bit 4 b), 1 + unat (b AND 0xf))
                else do { l \<leftarrow> get_u8 bs (extension_offset + sz + 1); Some (unat b, unat l) });
             if one_byte \<and> (ident = 15 \<or> ident = 0 \<and> len \<noteq> 1) then Some (sz, es)
             else if sz + extension_header_length + len > extensions_capacity then Some (sz, es)
             else
               let es = FindOrCreateExtensionInfo ident es;
                   off = extension_offset + sz + extension_header_length
               in if off \<ge> 2 ^ 16 then Some (sz, es)
                  else ParseExtensions bs one_byte extension_offset extensions_capacity
                         (sz + (extension_header_length + len)) (set_entry ident len off es) } }
         else Some (sz, es))"
  by pat_completeness auto
termination
  by (relation "measure (\<lambda>(_, _, _, cap, sz, _). cap - sz)")
    (auto simp: kOneByteExtensionHeaderLength_def kTwoByteExtensionHeaderLength_def split: if_splits)

declare ParseExtensions.simps [simp del]

text \<open>The last part of \<open>ParseBuffer\<close>: padding and payload.\<close>

definition ParsePadding :: "byte list \<Rightarrow> nat \<Rightarrow> bool \<Rightarrow> RtpPacket \<Rightarrow> (bool \<times> RtpPacket) option" where
  "ParsePadding bs sz has_padding p = do {
     (ok, p) \<leftarrow> (if has_padding \<and> payload_offset p < sz
        then do { b \<leftarrow> get_u8 bs (sz - 1);
                  let p = p\<lparr>rtp_padding_size := unat b\<rparr>
                  in Some (rtp_padding_size p \<noteq> 0, p) }
        else Some (True, p\<lparr>rtp_padding_size := 0\<rparr>));
     if \<not> ok then Some (False, p)
     else if payload_offset p + rtp_padding_size p > sz then Some (False, p)
     else Some (True, p\<lparr>rtp_payload_size := sz - payload_offset p - rtp_padding_size p\<rparr>) }"

text \<open>The part of \<open>ParseBuffer\<close> behind the contributing sources.\<close>

definition ParseExtensionBlock :: "byte list \<Rightarrow> nat \<Rightarrow> RtpPacket \<Rightarrow> (bool \<times> RtpPacket) option" where
  "ParseExtensionBlock bs sz p =
     (let extension_offset = payload_offset p + 4
      in if extension_offset > sz then Some (False, p)
         else do {
           profile \<leftarrow> get_be16 bs (payload_offset p);
           words \<leftarrow> get_be16 bs (payload_offset p + 2);
           let extensions_capacity = unat words * 4
           in if extension_offset + extensions_capacity > sz then Some (False, p)
              else do {
                p \<leftarrow> (if profile \<noteq> kOneByteExtensionProfileId
                        \<and> profile AND kTwobyteExtensionProfileIdAppBitsFilter \<noteq> kTwoByteExtensionProfileId
                      then Some p
                      else do {
                        (n, es) \<leftarrow> ParseExtensions bs (profile = kOneByteExtensionProfileId)
                          extension_offset extensions_capacity (extensions_size p) (extension_entries p);
                        Some (p\<lparr>extensions_size := n, extension_entries := es\<rparr>) });
                Some (True, p\<lparr>payload_offset := extension_offset + extensions_capacity\<rparr>) } })"

definition ParseBuffer :: "byte list \<Rightarrow> nat \<Rightarrow> RtpPacket \<Rightarrow> (bool \<times> RtpPacket) option" where
  "ParseBuffer bs sz p =
     (if sz < kFixedHeaderSize then Some (False, p)
      else do {
        b0 \<leftarrow> get_u8 bs 0;
        if drop_bit 6 b0 \<noteq> kRtpVersion then Some (False, p)
        else do {
          b1 \<leftarrow> get_u8 bs 1;
          seq \<leftarrow> get_be16 bs 2;
          ts \<leftarrow> get_be32 bs 4;
          ssrc \<leftarrow> get_be32 bs 8;
          let has_padding = (b0 AND 0x20 \<noteq> 0);
              has_extension = (b0 AND 0x10 \<noteq> 0);
              number_of_crcs = unat (b0 AND 0x0f);
              p = p\<lparr>rtp_marker := (b1 AND 0x80 \<noteq> 0), rtp_payload_type := b1 AND 0x7f,
                    rtp_sequence_number := seq, rtp_timestamp := ts, rtp_ssrc := ssrc\<rparr>
          in if sz < kFixedHeaderSize + number_of_crcs * 4 then Some (False, p)
             else do {
               let p = p\<lparr>payload_offset := kFixedHeaderSize + number_of_crcs * 4,
                         extensions_size := 0, extension_entries := []\<rparr>
               in do {
                 (ok, p) \<leftarrow> (if has_extension then ParseExtensionBlock bs sz p else Some (True, p));
                 if \<not> ok then Some (False, p) else ParsePadding bs sz has_padding p } } } })"

text \<open>
  \<open>Parse\<close>: \<open>SetData\<close> copies the bytes into the packet's buffer; \<open>grow\<close> is the capacity the
  buffer class then has, from the old capacity and the size, and \<open>m\<close> the memory behind the copied bytes.
\<close>

definition rtp_Parse :: "(nat \<Rightarrow> nat \<Rightarrow> nat) \<Rightarrow> (nat \<Rightarrow> byte) \<Rightarrow> byte list \<Rightarrow> nat \<Rightarrow> RtpPacket
    \<Rightarrow> (bool \<times> RtpPacket) option" where
  "rtp_Parse grow m buffer buffer_size p = do {
     (ok, p) \<leftarrow> ParseBuffer buffer buffer_size p;
     if \<not> ok then Some (False, rtp_Clear p)
     else Some (True, p\<lparr>buf := store 0 (take buffer_size buffer) m,
                        buf_cap := grow (buf_cap p) buffer_size, buf_size := buffer_size\<rparr>) }"

subsection \<open>Extensions by type\<close>

text \<open>An empty list is the empty view.\<close>

definition FindExtension :: "RTPExtensionType \<Rightarrow> RtpPacket \<Rightarrow> byte list" where
  "FindExtension type p =
     (let ident = GetId type (rtp_extensions p)
      in if ident = kInvalidId then []
         else case FindExtensionInfo ident p of
             None \<Rightarrow> []
           | Some e \<Rightarrow> load (info_offset e) (info_length e) (buf p))"

definition AllocateExtension :: "RTPExtensionType \<Rightarrow> nat \<Rightarrow> RtpPacket \<Rightarrow> (nat \<times> nat) option \<times> RtpPacket" where
  "AllocateExtension type len p =
     (if len = 0 \<or> len > kMaxValueSize
         \<or> \<not> extmap_allow_mixed (rtp_extensions p) \<and> len > kOneByteHeaderExtensionMaxValueSize
      then (None, p)
      else
        let ident = GetId type (rtp_extensions p)
        in if ident = kInvalidId then (None, p)
           else if \<not> extmap_allow_mixed (rtp_extensions p) \<and> ident > kOneByteHeaderExtensionMaxId
           then (None, p)
           else AllocateRawExtension ident len p)"

definition HasExtension :: "RTPExtensionType \<Rightarrow> RtpPacket \<Rightarrow> bool" where
  "HasExtension type p =
     (let ident = GetId type (rtp_extensions p)
      in if ident = kInvalidId then False else FindExtensionInfo ident p \<noteq> None)"

text \<open>
  \<open>SetExtension<Extension>\<close>: \<open>Write\<close> is the extension's writer, given the bytes of the view
  and giving its result and the bytes it leaves there, or nothing when an \<open>RTC_CHECK\<close> of it fails.
\<close>

definition SetExtension :: "RTPExtensionType \<Rightarrow> nat \<Rightarrow> (byte list \<Rightarrow> (bool \<times> byte list) option) \<Rightarrow> RtpPacket
    \<Rightarrow> bool \<times> RtpPacket" where
  "SetExtension type value_size Write p =
     (case AllocateExtension type value_size p of
        (None, p) \<Rightarrow> (False, p)
      | (Some (off, len), p) \<Rightarrow>
          if len = 0 then (False, p)
          else case Write (load off len (buf p)) of
              None \<Rightarrow> (False, p\<lparr>rtp_fault := True\<rparr>)
            | Some (ok, bs) \<Rightarrow> (ok, WriteAt off bs p))"

text \<open>
  \<open>GetExtension<Extension>\<close>: \<open>parse\<close> is the extension's parser, given the view and the default value
  \<open>result.emplace()\<close> makes; the outer option is a read out of bounds, the inner the code's.
\<close>

definition GetExtension :: "RTPExtensionType \<Rightarrow> 'v \<Rightarrow> (byte list \<Rightarrow> 'v \<Rightarrow> (bool \<times> 'v) option) \<Rightarrow> RtpPacket
    \<Rightarrow> 'v option option" where
  "GetExtension type initial parse p =
     (let raw = FindExtension type p
      in if raw = [] then Some None
         else do { (ok, v) \<leftarrow> parse raw initial; Some (if ok then Some v else None) })"

definition ReserveExtension :: "RTPExtensionType \<Rightarrow> nat \<Rightarrow> RtpPacket \<Rightarrow> bool \<times> RtpPacket" where
  "ReserveExtension type value_size p =
     (case AllocateExtension type value_size p of
        (None, p) \<Rightarrow> (False, p)
      | (Some (off, len), p) \<Rightarrow>
          if len = 0 then (False, p) else (True, WriteAt off (replicate value_size 0) p))"

text \<open>
  The loop of \<open>RemoveExtension\<close> that copies the other extensions to the new packet; \<open>Inl\<close> is
  the early return, with the packet so far.
\<close>

fun CopyExtensions :: "nat \<Rightarrow> RtpPacket \<Rightarrow> ExtensionInfo list \<Rightarrow> bool \<Rightarrow> RtpPacket
    \<Rightarrow> RtpPacket + (bool \<times> RtpPacket)" where
  "CopyExtensions ident old [] found new = Inr (found, new)"
| "CopyExtensions ident old (e # es) found new =
     (if info_id e = ident then CopyExtensions ident old es True new
      else case AllocateRawExtension (info_id e) (info_length e) new of
          (None, new) \<Rightarrow> if info_length e \<noteq> 0 then Inl new else CopyExtensions ident old es found new
        | (Some (off, len), new) \<Rightarrow>
            if len \<noteq> info_length e then Inl new
            else CopyExtensions ident old es found
                   (WriteAt off (load (info_offset e) (info_length e) (buf old)) new))"

text \<open>The new packet has the default capacity and uninitialised memory \<open>m\<close>.\<close>

definition RemoveExtension :: "(nat \<Rightarrow> byte) \<Rightarrow> RTPExtensionType \<Rightarrow> RtpPacket \<Rightarrow> bool \<times> RtpPacket" where
  "RemoveExtension m type p =
     (let id_to_remove = GetId type (rtp_extensions p)
      in if id_to_remove = kInvalidId then (False, p)
         else
           let new = RtpPacket_init (RtpHeaderExtensionMap_init False) kDefaultPacketSize m;
               new = SetMarker (rtp_marker p) new;
               new = SetPayloadType (rtp_payload_type p) new;
               new = SetSequenceNumber (rtp_sequence_number p) new;
               new = SetTimestamp (rtp_timestamp p) new;
               new = SetSsrc (rtp_ssrc p) new;
               new = IdentifyExtensions (rtp_extensions p) new
           in case CopyExtensions id_to_remove p (extension_entries p) False new of
                Inl new \<Rightarrow> (False, p\<lparr>rtp_fault := rtp_fault p \<or> rtp_fault new\<rparr>)
              | Inr (False, new) \<Rightarrow> (False, p\<lparr>rtp_fault := rtp_fault p \<or> rtp_fault new\<rparr>)
              | Inr (True, new) \<Rightarrow>
                  let payload_bytes = load (payload_offset p) (rtp_payload_size p) (buf p);
                      (dest, new) = AllocatePayload (rtp_payload_size p) new;
                      new = (case dest of None \<Rightarrow> new\<lparr>rtp_fault := True\<rparr>
                             | Some off \<Rightarrow> WriteAt off payload_bytes new);
                      (_, new) = SetPadding (rtp_padding_size p) new
                  in (True, new))"

subsection \<open>Memory\<close>

lemma length_load [simp]: "length (load off n m) = n"
  by (simp add: load_def)

lemma load_0 [simp]: "load off 0 m = []"
  by (simp add: load_def)

lemma load_nth [simp]: "i < n \<Longrightarrow> load off n m ! i = m (off + i)"
  by (simp add: load_def)

lemma load_append: "load off (a + b) m = load off a m @ load (off + a) b m"
  using upt_add_eq_append [of off "off + a" b] by (simp add: load_def add.assoc)

lemma load_store_same: "length bs = n \<Longrightarrow> load off n (store off bs m) = bs"
  by (rule nth_equalityI) (simp_all add: load_def store_def)

lemma load_store_other:
  "off + n \<le> o' \<or> o' + length bs \<le> off \<Longrightarrow> load off n (store o' bs m) = load off n m"
  by (rule nth_equalityI) (auto simp: load_def store_def)

lemma load_store_in:
  assumes "o' + length bs \<le> n"
  shows "load 0 n (store o' bs m) = take o' (load 0 n m) @ bs @ drop (o' + length bs) (load 0 n m)"
proof (rule nth_equalityI)
  show "length (load 0 n (store o' bs m)) = length (take o' (load 0 n m) @ bs @ drop (o' + length bs) (load 0 n m))"
    using assms by simp
  fix i assume "i < length (load 0 n (store o' bs m))"
  then show "load 0 n (store o' bs m) ! i = (take o' (load 0 n m) @ bs @ drop (o' + length bs) (load 0 n m)) ! i"
    using assms by (auto simp: nth_append store_def min_def)
qed

lemma load_take: "k \<le> n \<Longrightarrow> load off k m = take k (load off n m)"
  by (simp add: load_def take_map min_def)

lemma load_prefix: "load off n m = xs @ ys \<Longrightarrow> load off (length xs) m = xs"
  using load_take [of "length xs" n off m] by (metis append_eq_conv_conj length_append length_load le_add1)

lemma load_suffix: "load off n m = xs @ ys \<Longrightarrow> load (off + length xs) (length ys) m = ys"
  using load_append [of off "length xs" "length ys" m] load_prefix [of off n m xs ys]
  by (metis append_same_eq length_append length_load same_append_eq)

lemma load_Cons_nth: "load off n m = x # xs \<Longrightarrow> m off = x"
  by (cases n) (auto simp: load_def upt_rec)

lemma load_concat: "load off (length (xs @ ys)) m = xs @ ys \<longleftrightarrow>
    load off (length xs) m = xs \<and> load (off + length xs) (length ys) m = ys"
  by (simp add: load_append)

lemma WriteAt_sel [simp]:
  "rtp_marker (WriteAt o' bs p) = rtp_marker p" "rtp_payload_type (WriteAt o' bs p) = rtp_payload_type p"
  "rtp_padding_size (WriteAt o' bs p) = rtp_padding_size p" "rtp_sequence_number (WriteAt o' bs p) = rtp_sequence_number p"
  "rtp_timestamp (WriteAt o' bs p) = rtp_timestamp p" "rtp_ssrc (WriteAt o' bs p) = rtp_ssrc p"
  "payload_offset (WriteAt o' bs p) = payload_offset p" "rtp_payload_size (WriteAt o' bs p) = rtp_payload_size p"
  "rtp_extensions (WriteAt o' bs p) = rtp_extensions p" "extension_entries (WriteAt o' bs p) = extension_entries p"
  "extensions_size (WriteAt o' bs p) = extensions_size p" "buf (WriteAt o' bs p) = store o' bs (buf p)"
  "buf_cap (WriteAt o' bs p) = buf_cap p" "buf_size (WriteAt o' bs p) = buf_size p"
  "rtp_fault (WriteAt o' bs p) = (rtp_fault p \<or> buf_cap p < o' + length bs)"
  by (simp_all add: WriteAt_def)

subsection \<open>Parsing arbitrary bytes\<close>

definition entries_within :: "nat \<Rightarrow> nat \<Rightarrow> ExtensionInfo list \<Rightarrow> bool" where
  "entries_within lo hi es \<longleftrightarrow> distinct (map info_id es) \<and> (\<forall>e \<in> set es. info_id e < 256 \<and> info_length e < 256
     \<and> info_offset e < 65536 \<and> (info_length e = 0 \<or> lo \<le> info_offset e \<and> info_offset e + info_length e \<le> hi))"

lemma entries_within_FindOrCreate:
  "entries_within lo hi es \<Longrightarrow> i < 256 \<Longrightarrow> entries_within lo hi (FindOrCreateExtensionInfo i es)"
  by (auto simp: entries_within_def FindOrCreateExtensionInfo_def ExtensionInfo_init_def list_ex_iff)

lemma map_id_set_entry [simp]: "map info_id (set_entry i len off es) = map info_id es"
  by (simp add: set_entry_def comp_def)

lemma entries_within_set_entry:
  assumes "entries_within lo hi es" and "len < 256" and "off < 65536" and "lo \<le> off" and "off + len \<le> hi"
  shows "entries_within lo hi (set_entry i len off es)"
  using assms unfolding entries_within_def map_id_set_entry by (auto simp: set_entry_def)

lemma unat_byte: "unat (b :: byte) < 256"
  using unsigned_less [of b, where ?'a = nat] by simp

lemma unat_nibble: "unat (b AND 0xf :: byte) < 16"
proof -
  have "unat (b AND 0xf) \<le> unat (0xf :: byte)"
    by (rule word_and_le1 [THEN word_le_nat_alt [THEN iffD1]])
  then show ?thesis by simp
qed

definition hdr_len :: "bool \<Rightarrow> nat" where
  "hdr_len one = (if one then 1 else 2)"

text \<open>Id and length of the element at an offset.\<close>

definition elem_header :: "byte list \<Rightarrow> bool \<Rightarrow> nat \<Rightarrow> (nat \<times> nat) option" where
  "elem_header bs one pos = do {
     b \<leftarrow> get_u8 bs pos;
     if one then Some (unat (drop_bit 4 b), 1 + unat (b AND 0xf))
     else do { l \<leftarrow> get_u8 bs (pos + 1); Some (unat b, unat l) } }"

lemma ParseExtensions_end: "\<not> sz + hdr_len one < cap \<Longrightarrow> ParseExtensions bs one off cap sz es = Some (sz, es)"
  by (simp add: ParseExtensions.simps hdr_len_def kOneByteExtensionHeaderLength_def
      kTwoByteExtensionHeaderLength_def Let_def split: if_splits)

lemma ParseExtensions_padding:
  "sz + hdr_len one < cap \<Longrightarrow> get_u8 bs (off + sz) = Some 0 \<Longrightarrow>
    ParseExtensions bs one off cap sz es = ParseExtensions bs one off cap (sz + 1) es"
  by (cases one) (simp_all add: ParseExtensions.simps [of bs _ off cap sz es] hdr_len_def
      kOneByteExtensionHeaderLength_def kTwoByteExtensionHeaderLength_def Let_def)

lemma ParseExtensions_elem:
  assumes "sz + hdr_len one < cap" and "get_u8 bs (off + sz) = Some b" and "b \<noteq> 0"
    and "elem_header bs one (off + sz) = Some (i, len)"
  shows "ParseExtensions bs one off cap sz es =
    (if one \<and> (i = 15 \<or> i = 0 \<and> len \<noteq> 1) \<or> sz + hdr_len one + len > cap then Some (sz, es)
     else if off + sz + hdr_len one \<ge> 2 ^ 16 then Some (sz, FindOrCreateExtensionInfo i es)
     else ParseExtensions bs one off cap (sz + (hdr_len one + len))
            (set_entry i len (off + sz + hdr_len one) (FindOrCreateExtensionInfo i es)))"
proof -
  have "(if one then Some (unat (drop_bit 4 b), 1 + unat (b AND 0xf))
      else do { l \<leftarrow> get_u8 bs (off + sz + 1); Some (unat b, unat l) }) = Some (i, len)"
    using assms(2,4) by (simp add: elem_header_def)
  then show ?thesis
    using assms(1-3) by (subst ParseExtensions.simps) (cases one; auto simp: hdr_len_def kOneByteExtensionHeaderLength_def
        kTwoByteExtensionHeaderLength_def Let_def)
qed

lemma elem_header_safe:
  assumes "pos + hdr_len one \<le> length bs"
  shows "\<exists>i len. elem_header bs one pos = Some (i, len) \<and> i < 256 \<and> len < 256"
  using assms unat_byte unat_nibble [of "bs ! pos"]
  by (cases one) (auto simp: elem_header_def hdr_len_def get_u8_Some intro: less_trans)

lemma ParseExtensions_safe:
  assumes "off + cap \<le> length bs" and "entries_within off (off + cap) es"
  shows "\<exists>n es'. ParseExtensions bs one off cap sz es = Some (n, es') \<and> entries_within off (off + cap) es'"
  using assms(2)
proof (induction "cap - sz" arbitrary: sz es rule: less_induct)
  case less
  have pos: "0 < hdr_len one" by (simp add: hdr_len_def)
  show ?case
  proof (cases "sz + hdr_len one < cap")
    case False
    then show ?thesis using less.prems by (simp add: ParseExtensions_end)
  next
    case True
    then obtain b where rd: "get_u8 bs (off + sz) = Some b"
      using assms(1) by (simp add: get_u8_Some)
    obtain i len where il: "elem_header bs one (off + sz) = Some (i, len)" "i < 256" "len < 256"
      using elem_header_safe [of "off + sz" one bs] True assms(1) by auto
    have within: "entries_within off (off + cap) (FindOrCreateExtensionInfo i es)"
      using entries_within_FindOrCreate less.prems il(2) by blast
    show ?thesis
    proof (cases "b = 0")
      case True
      then show ?thesis
        using less.hyps [of "sz + 1" es] less.prems rd \<open>sz + hdr_len one < cap\<close> ParseExtensions_padding by simp
    next
      case False
      let ?es = "set_entry i len (off + sz + hdr_len one) (FindOrCreateExtensionInfo i es)"
      have "\<exists>n es'. ParseExtensions bs one off cap (sz + (hdr_len one + len)) ?es = Some (n, es')
          \<and> entries_within off (off + cap) es'"
        if "sz + hdr_len one + len \<le> cap" "off + sz + hdr_len one < 2 ^ 16"
        using that True pos within il(3)
        by (intro less.hyps entries_within_set_entry) auto
      then show ?thesis
        using ParseExtensions_elem [OF True rd False il(1), of es] within less.prems
        by (auto simp: not_le not_less)
    qed
  qed
qed

text \<open>What a successful parse establishes of the fields.\<close>

definition parsed_layout :: "nat \<Rightarrow> RtpPacket \<Rightarrow> bool" where
  "parsed_layout sz p \<longleftrightarrow> rtp_size p = sz \<and> 12 \<le> payload_offset p \<and> rtp_padding_size p < 256
     \<and> unat (rtp_payload_type p) < 128 \<and> entries_within 16 (payload_offset p) (extension_entries p)"

lemma entries_within_mono:
  "entries_within lo hi es \<Longrightarrow> lo' \<le> lo \<Longrightarrow> hi \<le> hi' \<Longrightarrow> entries_within lo' hi' es"
  by (fastforce simp: entries_within_def)

lemma ParsePadding_safe:
  assumes "sz \<le> length bs" and "payload_offset p \<le> sz"
  shows "returns (ParsePadding bs sz pad p) (\<lambda>q. rtp_size q = sz \<and> rtp_padding_size q < 256
    \<and> payload_offset q = payload_offset p \<and> extension_entries q = extension_entries p
    \<and> rtp_payload_type q = rtp_payload_type p)"
proof (cases "pad \<and> payload_offset p < sz")
  case True
  then have "get_u8 bs (sz - 1) = Some (bs ! (sz - 1))"
    using assms by (intro get_u8_Some) auto
  with True unat_byte [of "bs ! (sz - 1)"] show ?thesis
    by (auto simp: ParsePadding_def rtp_size_def)
next
  case False
  then show ?thesis using assms by (auto simp: ParsePadding_def rtp_size_def)
qed

lemma ParseExtensionBlock_safe:
  assumes "sz \<le> length bs" and "12 \<le> payload_offset p" and "extension_entries p = []"
  shows "returns (ParseExtensionBlock bs sz p) (\<lambda>q. payload_offset p \<le> payload_offset q \<and> payload_offset q \<le> sz
    \<and> entries_within 16 (payload_offset q) (extension_entries q) \<and> rtp_payload_type q = rtp_payload_type p)"
proof (cases "payload_offset p + 4 > sz")
  case True
  then show ?thesis by (simp add: ParseExtensionBlock_def Let_def)
next
  case False
  let ?off = "payload_offset p + 4"
  obtain profile words where rd: "get_be16 bs (payload_offset p) = Some profile"
    "get_be16 bs (payload_offset p + 2) = Some words"
    using False assms(1) by (simp add: fetch_Some)
  let ?cap = "unat words * 4"
  show ?thesis
  proof (cases "?off + ?cap > sz")
    case True
    then show ?thesis using False rd by (simp add: ParseExtensionBlock_def Let_def)
  next
    case fits: False
    have nil: "entries_within lo hi []" for lo hi by (simp add: entries_within_def)
    obtain n es where run: "ParseExtensions bs (profile = kOneByteExtensionProfileId) ?off ?cap
        (extensions_size p) (extension_entries p) = Some (n, es)" "entries_within ?off (?off + ?cap) es"
      using ParseExtensions_safe [of ?off ?cap bs "[]"] fits assms(1,3) nil by fastforce
    then have "entries_within 16 (?off + ?cap) es"
      using assms(2) by (elim entries_within_mono) auto
    with False fits rd run(1) assms(3) nil show ?thesis
      by (auto simp: ParseExtensionBlock_def Let_def)
  qed
qed

lemma ParseBuffer_safe:
  assumes "sz \<le> length bs"
  shows "returns (ParseBuffer bs sz p) (parsed_layout sz)"
proof (cases "sz < 12 \<or> drop_bit 6 (bs ! 0) \<noteq> kRtpVersion")
  case True
  moreover have "get_u8 bs 0 = Some (bs ! 0)" if "\<not> sz < 12"
    using that assms by (intro get_u8_Some) auto
  ultimately show ?thesis
    by (auto simp: ParseBuffer_def kFixedHeaderSize_def)
next
  case False
  let ?b0 = "bs ! 0"
  have rd0: "get_u8 bs 0 = Some ?b0"
    using False assms by (intro get_u8_Some) auto
  obtain seq ts ssrc where rd: "get_u8 bs 1 = Some (bs ! 1)" "get_be16 bs 2 = Some seq"
      "get_be32 bs 4 = Some ts" "get_be32 bs 8 = Some ssrc"
    using False assms by (auto simp: get_u8_Some fetch_Some)
  define h where "h = p\<lparr>rtp_marker := (bs ! 1 AND 0x80 \<noteq> 0), rtp_payload_type := bs ! 1 AND 0x7f,
    rtp_sequence_number := seq, rtp_timestamp := ts, rtp_ssrc := ssrc\<rparr>"
  define q where "q = h\<lparr>payload_offset := 12 + unat (?b0 AND 0x0f) * 4, extensions_size := 0, extension_entries := []\<rparr>"
  have run: "ParseBuffer bs sz p = (if sz < 12 + unat (?b0 AND 0x0f) * 4 then Some (False, h)
      else do { (ok, r) \<leftarrow> (if ?b0 AND 0x10 \<noteq> 0 then ParseExtensionBlock bs sz q else Some (True, q));
                if \<not> ok then Some (False, r) else ParsePadding bs sz (?b0 AND 0x20 \<noteq> 0) r })"
    using False rd0 rd by (simp add: ParseBuffer_def kFixedHeaderSize_def Let_def h_def q_def)
  have pt: "unat (rtp_payload_type q) < 128"
  proof -
    have "unat (bs ! 1 AND 0x7f) \<le> unat (0x7f :: byte)"
      by (rule word_and_le1 [THEN word_le_nat_alt [THEN iffD1]])
    then show ?thesis by (simp add: q_def h_def)
  qed
  show ?thesis
  proof (cases "sz < 12 + unat (?b0 AND 0x0f) * 4")
    case True
    then show ?thesis by (simp add: run)
  next
    case fits: False
    have "returns (if ?b0 AND 0x10 \<noteq> 0 then ParseExtensionBlock bs sz q else Some (True, q))
      (\<lambda>r. 12 \<le> payload_offset r \<and> payload_offset r \<le> sz
         \<and> entries_within 16 (payload_offset r) (extension_entries r) \<and> rtp_payload_type r = rtp_payload_type q)"
    proof (cases "?b0 AND 0x10 \<noteq> 0")
      case True
      have "12 \<le> payload_offset q" "extension_entries q = []" by (simp_all add: q_def)
      then show ?thesis
        using ParseExtensionBlock_safe [OF assms, of q] True
        by (auto simp: returns_def split: option.splits)
    next
      case False
      then show ?thesis using fits by (simp add: q_def entries_within_def)
    qed
    then obtain ok r where r: "(if ?b0 AND 0x10 \<noteq> 0 then ParseExtensionBlock bs sz q else Some (True, q)) = Some (ok, r)"
      "ok \<Longrightarrow> 12 \<le> payload_offset r \<and> payload_offset r \<le> sz
         \<and> entries_within 16 (payload_offset r) (extension_entries r) \<and> rtp_payload_type r = rtp_payload_type q"
      by (rule returnsE) blast
    show ?thesis
    proof (cases ok)
      case True
      then show ?thesis
        using r fits pt ParsePadding_safe [OF assms, of r "?b0 AND 0x20 \<noteq> 0"]
        by (auto simp: run returns_def parsed_layout_def split: option.splits)
    next
      case False
      then show ?thesis using r fits by (simp add: run)
    qed
  qed
qed

text \<open>
  C5: on every input, of whatever length and content, the parser reads only bytes of the buffer
  and returns; when it accepts, the packet's parts fill the given size, the payload type has seven
  bits, and the extensions have distinct ids and lie between the fixed header and the payload.
\<close>

theorem rtp_Parse_safe:
  assumes "n \<le> length bs"
  shows "\<exists>ok q. rtp_Parse grow m bs n p = Some (ok, q)
    \<and> (ok \<longrightarrow> parsed_layout n q \<and> load 0 n (buf q) = take n bs \<and> buf_size q = n)"
proof -
  obtain ok h where h: "ParseBuffer bs n p = Some (ok, h)" "ok \<Longrightarrow> parsed_layout n h"
    using ParseBuffer_safe [OF assms] by (rule returnsE) blast
  then show ?thesis
    using assms by (cases ok) (auto simp: rtp_Parse_def parsed_layout_def rtp_size_def load_store_same)
qed

theorem rtp_Parse_safe_witness:
  "\<exists>ok q. rtp_Parse (\<lambda>c n. max c n) (\<lambda>_. 0) (replicate 20 0x90) 20 (RtpPacket_init (RtpHeaderExtensionMap_init False) 1500 (\<lambda>_. 0)) = Some (ok, q)
    \<and> (ok \<longrightarrow> parsed_layout 20 q \<and> load 0 20 (buf q) = take 20 (replicate 20 0x90) \<and> buf_size q = 20)"
  by (rule rtp_Parse_safe) simp

end
