(* ===== verification/Rtp_Packet_Build.thy ===== *)
theory Rtp_Packet_Build
  imports Rtp_Packet
begin

text \<open>
  The representation invariant of an RTP packet, \<open>rtp_rep\<close>: the header part of the buffer is the
  encoding of the packet's fields, its contributing sources and its header extensions. The
  constructor establishes it, and the setters, the payload and padding operations and the allocation of
  extensions keep it, the promotion of the extensions from the one-byte to the two-byte form included.
\<close>

subsection \<open>What the buffer of a built packet holds\<close>

definition byte0 :: "bool \<Rightarrow> bool \<Rightarrow> nat \<Rightarrow> byte" where
  "byte0 pad ext n = 0x80 OR (if pad then 0x20 else 0) OR (if ext then 0x10 else 0) OR of_nat n"

definition byte1 :: "bool \<Rightarrow> byte \<Rightarrow> byte" where
  "byte1 mark pt = (if mark then 0x80 else 0) OR pt"

lemma byte0_all: "\<forall>n \<in> set [0..<16]. \<forall>pad \<in> {False, True}. \<forall>ext \<in> {False, True}.
    drop_bit 6 (byte0 pad ext n) = 2 \<and> (byte0 pad ext n AND 0x20 \<noteq> 0) = pad
    \<and> (byte0 pad ext n AND 0x10 \<noteq> 0) = ext \<and> byte0 pad ext n AND 0x0f = of_nat n
    \<and> byte0 pad ext n OR 0x10 = byte0 pad True n \<and> byte0 pad ext n OR 0x20 = byte0 True ext n
    \<and> byte0 pad ext n AND NOT 0x20 = byte0 False ext n
    \<and> byte0 pad ext n AND 0xF0 = byte0 pad ext 0"
  by code_simp

lemma byte0:
  assumes "n \<le> 15"
  shows "drop_bit 6 (byte0 pad ext n) = 2" "(byte0 pad ext n AND 0x20 \<noteq> 0) = pad"
    "(byte0 pad ext n AND 0x10 \<noteq> 0) = ext" "byte0 pad ext n AND 0x0f = of_nat n"
    "byte0 pad ext n OR 0x10 = byte0 pad True n" "byte0 pad ext n OR 0x20 = byte0 True ext n"
    "byte0 pad ext n AND NOT 0x20 = byte0 False ext n" "byte0 pad ext n AND 0xF0 = byte0 pad ext 0"
  using byte0_all [rule_format, of n pad ext] assms by auto

lemma byte0_count: "byte0 pad ext 0 OR of_nat n = byte0 pad ext n"
  by (cases pad; cases ext; simp add: byte0_def flip: or.assoc)

lemma byte1_all: "\<forall>k \<in> set [0..<128]. \<forall>mark \<in> {False, True}.
    (byte1 mark (of_nat k) AND 0x80 \<noteq> 0) = mark \<and> byte1 mark (of_nat k) AND 0x7f = of_nat k
    \<and> byte1 mark (of_nat k) OR 0x80 = byte1 True (of_nat k)
    \<and> byte1 mark (of_nat k) AND 0x80 = byte1 mark 0"
  by code_simp

lemma byte1:
  assumes "unat pt < 128"
  shows "(byte1 mark pt AND 0x80 \<noteq> 0) = mark" "byte1 mark pt AND 0x7f = pt"
    "byte1 mark pt OR 0x80 = byte1 True pt" "byte1 mark pt AND 0x80 = byte1 mark 0"
  using byte1_all [rule_format, of "unat pt" mark] assms by auto

lemma byte1_simps: "byte1 False pt = pt" "byte1 mark 0 OR pt = byte1 mark pt"
  by (simp_all add: byte1_def)

text \<open>An extension element: id and data, in the one-byte or the two-byte form.\<close>

fun elem :: "bool \<Rightarrow> nat \<times> byte list \<Rightarrow> byte list" where
  "elem one (i, d) = (if one then [push_bit 4 (of_nat i) OR of_nat (length d - 1)]
     else [of_nat i, of_nat (length d)]) @ d"

definition block :: "bool \<Rightarrow> (nat \<times> byte list) list \<Rightarrow> byte list" where
  "block one es = concat (map (elem one) es)"

fun infos :: "bool \<Rightarrow> nat \<Rightarrow> (nat \<times> byte list) list \<Rightarrow> ExtensionInfo list" where
  "infos one off [] = []"
| "infos one off ((i, d) # es) =
     \<lparr>info_id = i, info_length = length d, info_offset = off + hdr_len one\<rparr>
       # infos one (off + hdr_len one + length d) es"

lemma length_elem: "length (elem one (i, d)) = hdr_len one + length d"
  by (simp add: hdr_len_def)

lemma block_simps [simp]: "block one [] = []" "block one (e # es) = elem one e @ block one es"
    "block one (es @ es') = block one es @ block one es'"
  by (simp_all add: block_def)

lemma infos_append: "infos one off (es @ es') = infos one off es @ infos one (off + length (block one es)) es'"
  by (induction one off es rule: infos.induct) (simp_all add: hdr_len_def add.assoc)

lemma infos_ids [simp]: "map info_id (infos one off es) = map fst es"
  by (induction one off es rule: infos.induct) simp_all

lemma infos_Nil [simp]: "infos one off es = [] \<longleftrightarrow> es = []"
  by (cases es) auto

lemma length_infos [simp]: "length (infos one off es) = length es"
  by (induction one off es rule: infos.induct) simp_all

definition profile :: "bool \<Rightarrow> u16" where
  "profile one = (if one then kOneByteExtensionProfileId else kTwoByteExtensionProfileId)"

definition ext_words :: "nat \<Rightarrow> nat" where
  "ext_words n = (n + 3) div 4"

lemma ext_words: "n \<le> 4 * ext_words n" "4 * ext_words n < n + 4"
  unfolding ext_words_def by presburger+

lemma ext_words_le: "n \<le> 4 * k \<Longrightarrow> ext_words n \<le> k"
  unfolding ext_words_def by presburger

definition ext_part :: "bool \<Rightarrow> (nat \<times> byte list) list \<Rightarrow> byte list" where
  "ext_part one es = (let b = block one es; w = ext_words (length b)
     in if es = [] then []
        else put_be16 (profile one) @ put_be16 (of_nat w) @ b @ replicate (4 * w - length b) 0)"

lemma length_ext_part: "length (ext_part one es) = (if es = [] then 0 else 4 + 4 * ext_words (length (block one es)))"
  using ext_words(1) [of "length (block one es)"] by (simp add: ext_part_def Let_def)

definition csrc_bytes :: "u32 list \<Rightarrow> byte list" where
  "csrc_bytes cs = concat (map put_be32 cs)"

lemma length_csrc_bytes [simp]: "length (csrc_bytes cs) = 4 * length cs"
  by (induction cs) (simp_all add: csrc_bytes_def)

definition fixed_header :: "RtpPacket \<Rightarrow> u32 list \<Rightarrow> (nat \<times> byte list) list \<Rightarrow> byte list" where
  "fixed_header p cs es = byte0 (0 < rtp_padding_size p) (es \<noteq> []) (length cs)
     # byte1 (rtp_marker p) (rtp_payload_type p)
     # put_be16 (rtp_sequence_number p) @ put_be32 (rtp_timestamp p) @ put_be32 (rtp_ssrc p)"

lemma length_fixed_header [simp]: "length (fixed_header p cs es) = 12"
  by (simp add: fixed_header_def)

definition wf_ext :: "bool \<Rightarrow> nat \<Rightarrow> nat \<Rightarrow> bool" where
  "wf_ext one i len \<longleftrightarrow> 1 \<le> i \<and> i \<le> 255 \<and> 1 \<le> len \<and> len \<le> 255 \<and> (one \<longrightarrow> i \<le> 14 \<and> len \<le> 16)"

definition wf_exts :: "bool \<Rightarrow> (nat \<times> byte list) list \<Rightarrow> bool" where
  "wf_exts one es \<longleftrightarrow> distinct (map fst es) \<and> (\<forall>(i, d) \<in> set es. wf_ext one i (length d))"

definition padding_ok :: "RtpPacket \<Rightarrow> bool" where
  "padding_ok p \<longleftrightarrow> rtp_padding_size p < 256 \<and> (0 < rtp_padding_size p \<longrightarrow>
     load (payload_offset p + rtp_payload_size p) (rtp_padding_size p) (buf p)
       = replicate (rtp_padding_size p - 1) 0 @ [of_nat (rtp_padding_size p)])"

definition buffer_ok :: "RtpPacket \<Rightarrow> bool" where
  "buffer_ok p \<longleftrightarrow> buf_size p = rtp_size p \<and> rtp_size p \<le> buf_cap p \<and> 4 dvd buf_cap p \<and> buf_cap p < 65536
     \<and> \<not> rtp_fault p"

text \<open>
  The representation invariant: the packet holds the sources \<open>cs\<close> and the extensions \<open>es\<close>, and
  the header part of its buffer is their encoding.
\<close>

definition rtp_rep :: "RtpPacket \<Rightarrow> u32 list \<Rightarrow> bool \<Rightarrow> (nat \<times> byte list) list \<Rightarrow> bool" where
  "rtp_rep p cs one es \<longleftrightarrow>
     load 0 (payload_offset p) (buf p) = fixed_header p cs es @ csrc_bytes cs @ ext_part one es
     \<and> length cs \<le> 15 \<and> unat (rtp_payload_type p) < 128 \<and> wf_exts one es
     \<and> extension_entries p = infos one (16 + 4 * length cs) es
     \<and> extensions_size p = length (block one es) \<and> padding_ok p \<and> buffer_ok p"

lemma rtp_rep_offset:
  assumes "rtp_rep p cs one es"
  shows "payload_offset p = 12 + 4 * length cs + length (ext_part one es)"
proof -
  have "length (load 0 (payload_offset p) (buf p)) = length (fixed_header p cs es @ csrc_bytes cs @ ext_part one es)"
    using assms by (simp only: rtp_rep_def)
  then show ?thesis by simp
qed

lemma rtp_rep_num:
  assumes "rtp_rep p cs one es"
  shows "buf p 0 = byte0 (0 < rtp_padding_size p) (es \<noteq> []) (length cs)"
    and "buf p 1 = byte1 (rtp_marker p) (rtp_payload_type p)"
    and "num_csrcs p = length cs"
proof -
  have l: "load 0 (payload_offset p) (buf p) = byte0 (0 < rtp_padding_size p) (es \<noteq> []) (length cs)
     # byte1 (rtp_marker p) (rtp_payload_type p) # (put_be16 (rtp_sequence_number p)
     @ put_be32 (rtp_timestamp p) @ put_be32 (rtp_ssrc p) @ csrc_bytes cs @ ext_part one es)"
    and n: "length cs \<le> 15"
    using assms by (simp_all add: rtp_rep_def fixed_header_def)
  show b0: "buf p 0 = byte0 (0 < rtp_padding_size p) (es \<noteq> []) (length cs)"
    using load_Cons_nth [OF l] .
  show "buf p 1 = byte1 (rtp_marker p) (rtp_payload_type p)"
    using arg_cong [OF l, of "\<lambda>xs. xs ! 1"] rtp_rep_offset [OF assms] by simp
  show "num_csrcs p = length cs"
    using byte0(4) [OF n] n by (simp add: num_csrcs_def b0 unat_of_nat)
qed

lemma rtp_rep_start: "rtp_rep p cs one es \<Longrightarrow> extensions_start p = 16 + 4 * length cs"
  using rtp_rep_num(3) [of p cs one es] by (simp add: extensions_start_def kFixedHeaderSize_def)

subsection \<open>Constructor and setters\<close>

lemma rtp_rep_init:
  assumes "12 \<le> capacity" and "4 dvd capacity" and "capacity < 65536"
  shows "rtp_rep (RtpPacket_init exts capacity m) [] True []"
proof -
  let ?p = "RtpPacket_init exts capacity m"
  have zeros: "replicate 12 (0 :: byte) = [0, 0, 0, 0, 0, 0, 0, 0, 0, 0, 0, 0]"
    by (simp add: numeral_eq_Suc)
  have "buf ?p = store 0 [push_bit 6 2] (store 0 (replicate 12 0) m)"
    by (simp add: RtpPacket_init_def rtp_Clear_def Let_def kFixedHeaderSize_def kRtpVersion_def)
  then have "load 0 12 (buf ?p) = 0x80 # drop 1 (replicate 12 0)"
    using load_store_in [of 0 "[push_bit 6 2]" 12 "store 0 (replicate 12 0) m"]
      load_store_same [of "replicate 12 0" 12 0 m] by simp
  then have "load 0 12 (buf ?p) = [0x80, 0, 0, 0, 0, 0, 0, 0, 0, 0, 0, 0]"
    by (simp add: zeros)
  moreover have "put_be16 0 = [0, 0]" "put_be32 0 = [0, 0, 0, 0]"
    by (simp_all add: WriteBigEndian2_def WriteBigEndian4_def)
  moreover have "rtp_size ?p = 12" "buf_size ?p = 12" "rtp_padding_size ?p = 0" "payload_offset ?p = 12"
    "extension_entries ?p = []" "extensions_size ?p = 0" "buf_cap ?p = capacity" "rtp_payload_type ?p = 0"
    "\<not> rtp_marker ?p" "rtp_sequence_number ?p = 0" "rtp_timestamp ?p = 0" "rtp_ssrc ?p = 0" "\<not> rtp_fault ?p"
    using assms(1)
    by (simp_all add: RtpPacket_init_def rtp_Clear_def Let_def kFixedHeaderSize_def rtp_size_def)
  ultimately show ?thesis
    using assms by (simp add: rtp_rep_def padding_ok_def buffer_ok_def fixed_header_def byte0_def byte1_def
        csrc_bytes_def ext_part_def wf_exts_def)
qed

text \<open>A store into the fixed header that changes the header as the new field values ask for.\<close>

lemma rtp_rep_store:
  assumes "rtp_rep p cs one es" and "off + length bs \<le> 12"
    and "fixed_header q cs es = take off (fixed_header p cs es) @ bs @ drop (off + length bs) (fixed_header p cs es)"
    and "q = (WriteAt off bs p)\<lparr>rtp_marker := mk, rtp_payload_type := pt, rtp_sequence_number := sn,
      rtp_timestamp := ts, rtp_ssrc := ss\<rparr>"
    and "unat (rtp_payload_type q) < 128"
  shows "rtp_rep q cs one es"
proof -
  have off: "12 \<le> payload_offset p" using rtp_rep_offset [OF assms(1)] by simp
  have same: "payload_offset q = payload_offset p" "rtp_payload_size q = rtp_payload_size p"
    "rtp_padding_size q = rtp_padding_size p" "extension_entries q = extension_entries p"
    "extensions_size q = extensions_size p" "buf_cap q = buf_cap p" "buf_size q = buf_size p"
    "buf q = store off bs (buf p)" "rtp_fault q = (rtp_fault p \<or> buf_cap p < off + length bs)"
    unfolding assms(4) by simp_all
  have "load 0 (payload_offset p) (buf q) = fixed_header q cs es @ csrc_bytes cs @ ext_part one es"
    using load_store_in [of off bs "payload_offset p" "buf p"] assms(1,2) off
    unfolding same(8) assms(3) rtp_rep_def by simp
  moreover have "padding_ok q"
    using assms(1,2) off load_store_other [of "payload_offset p + rtp_payload_size p" "rtp_padding_size p" off bs "buf p"]
    by (simp add: rtp_rep_def padding_ok_def same)
  moreover have "buffer_ok q"
    using assms(1,2) off by (auto simp: rtp_rep_def buffer_ok_def rtp_size_def same)
  ultimately show ?thesis
    using assms(1,5) by (simp add: rtp_rep_def same)
qed

lemma rtp_rep_setters:
  assumes "rtp_rep p cs one es"
  shows "rtp_rep (SetMarker b p) cs one es" and "unat pt < 128 \<Longrightarrow> rtp_rep (SetPayloadType pt p) cs one es"
    and "rtp_rep (SetSequenceNumber seq p) cs one es" and "rtp_rep (SetTimestamp ts p) cs one es"
    and "rtp_rep (SetSsrc ss p) cs one es"
proof -
  have b: "buf p (Suc 0) = byte1 (rtp_marker p) (rtp_payload_type p)"
    using rtp_rep_num(2) [OF assms] by simp
  have pt: "unat (rtp_payload_type p) < 128" using assms by (simp add: rtp_rep_def)
  note b1 = byte1 [OF pt, of "rtp_marker p"] byte1_simps
  note defs = SetMarker_def SetPayloadType_def SetSequenceNumber_def SetTimestamp_def SetSsrc_def Let_def WriteAt_def
  show "rtp_rep (SetMarker b p) cs one es"
    by (rule rtp_rep_store [OF assms, where off = 1 and bs = "[byte1 b (rtp_payload_type p)]" and mk = b and pt = "rtp_payload_type p" and sn = "rtp_sequence_number p" and ts = "rtp_timestamp p" and ss = "rtp_ssrc p"])
      (use pt in \<open>auto simp: defs b b1 fixed_header_def intro!: RtpPacket.equality\<close>)
  show "rtp_rep (SetPayloadType pt p) cs one es" if "unat pt < 128" for pt
    by (rule rtp_rep_store [OF assms, where off = 1 and bs = "[byte1 (rtp_marker p) pt]" and mk = "rtp_marker p" and pt = pt and sn = "rtp_sequence_number p" and ts = "rtp_timestamp p" and ss = "rtp_ssrc p"])
      (use that in \<open>auto simp: defs b b1 fixed_header_def intro!: RtpPacket.equality\<close>)
  show "rtp_rep (SetSequenceNumber seq p) cs one es"
    by (rule rtp_rep_store [OF assms, where off = 2 and bs = "put_be16 seq" and mk = "rtp_marker p" and pt = "rtp_payload_type p" and sn = seq and ts = "rtp_timestamp p" and ss = "rtp_ssrc p"])
      (use pt in \<open>auto simp: defs fixed_header_def intro!: RtpPacket.equality\<close>)
  show "rtp_rep (SetTimestamp ts p) cs one es"
    by (rule rtp_rep_store [OF assms, where off = 4 and bs = "put_be32 ts" and mk = "rtp_marker p" and pt = "rtp_payload_type p" and sn = "rtp_sequence_number p" and ts = ts and ss = "rtp_ssrc p"])
      (use pt in \<open>auto simp: defs fixed_header_def intro!: RtpPacket.equality\<close>)
  show "rtp_rep (SetSsrc ss p) cs one es"
    by (rule rtp_rep_store [OF assms, where off = 8 and bs = "put_be32 ss" and mk = "rtp_marker p" and pt = "rtp_payload_type p" and sn = "rtp_sequence_number p" and ts = "rtp_timestamp p" and ss = ss])
      (use pt in \<open>auto simp: defs fixed_header_def intro!: RtpPacket.equality\<close>)
qed

lemma store_append: "store (off + length a) b (store off a m) = store off (a @ b) m"
  by (rule ext) (auto simp: store_def nth_append)

lemma WriteAt_append: "WriteAt (off + length a) b (WriteAt off a p) = WriteAt off (a @ b) p"
  by (rule RtpPacket.equality) (auto simp: store_append)

lemma WriteAt_Nil: "off \<le> buf_cap p \<Longrightarrow> WriteAt off [] p = p"
  by (rule RtpPacket.equality) (auto simp: store_def fun_eq_iff)

lemma fold_csrcs:
  "fold (\<lambda>csrc (p, off). (WriteAt off (put_be32 csrc) p, off + 4)) cs (WriteAt off xs p, off + length xs)
    = (WriteAt off (xs @ csrc_bytes cs) p, off + length xs + 4 * length cs)"
proof (induction cs arbitrary: xs)
  case (Cons c cs)
  have "off + length xs + 4 = off + length (xs @ put_be32 c)" by simp
  then show ?case using Cons [of "xs @ put_be32 c"] by (simp add: WriteAt_append csrc_bytes_def add.assoc)
qed (simp add: csrc_bytes_def)

lemma rtp_rep_SetCsrcs:
  assumes "rtp_rep p cs0 one []" and "rtp_payload_size p = 0" and "rtp_padding_size p = 0"
    and "length cs \<le> 15" and "12 + 4 * length cs \<le> buf_cap p"
  shows "rtp_rep (SetCsrcs cs p) cs one []"
proof -
  let ?n = "12 + 4 * length cs"
  let ?b = "byte0 False False (length cs)"
  have n0: "length cs0 \<le> 15" using assms(1) by (simp add: rtp_rep_def)
  have off: "payload_offset p = 12 + 4 * length cs0"
    using rtp_rep_offset [OF assms(1)] by (simp add: length_ext_part)
  let ?p = "p\<lparr>payload_offset := ?n\<rparr>"
  have b: "(buf p 0 AND 0xF0) OR of_nat (length cs) = ?b"
    using rtp_rep_num(1) [OF assms(1)] byte0(8) [OF n0] byte0_count assms(3) by simp
  have "12 \<le> buf_cap (WriteAt 0 [?b] ?p)" using assms(5) by simp
  from fold_csrcs [of cs 12 "[]" "WriteAt 0 [?b] ?p", unfolded WriteAt_Nil [OF this]]
  have run: "SetCsrcs cs p = (WriteAt 12 (csrc_bytes cs) (WriteAt 0 [?b] ?p))\<lparr>buf_size := ?n\<rparr>"
    by (simp add: SetCsrcs_def Let_def kFixedHeaderSize_def b)
  let ?m = "store 12 (csrc_bytes cs) (store 0 [?b] (buf p))"
  have "load 0 12 (buf p) = fixed_header p cs0 []"
    using assms(1) load_take [of 12 "payload_offset p" 0 "buf p"] off by (simp add: rtp_rep_def)
  then have "load 0 12 ?m = ?b # drop 1 (fixed_header p cs0 [])"
    using load_store_other [of 0 12 12 "csrc_bytes cs" "store 0 [?b] (buf p)"] load_store_in [of 0 "[?b]" 12 "buf p"]
    by simp
  moreover have "load 12 (4 * length cs) ?m = csrc_bytes cs"
    by (rule load_store_same) simp
  ultimately have "load 0 ?n ?m = (?b # drop 1 (fixed_header p cs0 [])) @ csrc_bytes cs"
    using load_append [of 0 12 "4 * length cs" ?m] by simp
  then show ?thesis
    using assms by (simp add: run rtp_rep_def fixed_header_def ext_part_def padding_ok_def buffer_ok_def rtp_size_def
        wf_exts_def)
qed

lemma rtp_rep_SetPayloadSize:
  assumes "rtp_rep p cs one es" and "rtp_padding_size p = 0"
  shows "rtp_rep (snd (SetPayloadSize n p)) cs one es"
  using assms by (auto simp: SetPayloadSize_def rtp_rep_def padding_ok_def buffer_ok_def rtp_size_def fixed_header_def)

lemma rtp_rep_payload:
  assumes "rtp_rep p cs one es" and "payload_offset p \<le> off"
    and "off + length bs \<le> payload_offset p + rtp_payload_size p"
  shows "rtp_rep (WriteAt off bs p) cs one es"
proof -
  have "load 0 (payload_offset p) (store off bs (buf p)) = load 0 (payload_offset p) (buf p)"
    by (rule load_store_other) (use assms in simp)
  moreover have "load (payload_offset p + rtp_payload_size p) (rtp_padding_size p) (store off bs (buf p))
      = load (payload_offset p + rtp_payload_size p) (rtp_padding_size p) (buf p)"
    by (rule load_store_other) (use assms in simp)
  ultimately show ?thesis
    using assms by (auto simp: rtp_rep_def padding_ok_def buffer_ok_def rtp_size_def fixed_header_def)
qed

lemma rtp_rep_SetPadding:
  assumes "rtp_rep p cs one es" and "n < 256"
  shows "rtp_rep (snd (SetPadding n p)) cs one es"
    and "fst (SetPadding n p) \<Longrightarrow> rtp_padding_size (snd (SetPadding n p)) = n"
proof -
  let ?e = "payload_offset p + rtp_payload_size p"
  have off: "12 \<le> payload_offset p" using rtp_rep_offset [OF assms(1)] by simp
  have n15: "length cs \<le> 15" using assms(1) by (simp add: rtp_rep_def)
  note b0 = rtp_rep_num(1) [OF assms(1)] byte0 [OF n15]
  have hdr: "load 0 (payload_offset p) (buf p) = fixed_header p cs es @ csrc_bytes cs @ ext_part one es"
    using assms(1) by (simp add: rtp_rep_def)
  have fits: "?e + n \<le> buf_cap p" "?e \<le> buf_cap p" if "\<not> buf_cap p < ?e + n"
    using that by auto
  let ?b = "byte0 (0 < n) (es \<noteq> []) (length cs)"
  let ?pad = "if n = 0 then [] else replicate (n - 1) 0 @ [of_nat n]"
  let ?q = "WriteAt 0 [?b] (WriteAt ?e ?pad (p\<lparr>rtp_padding_size := n, buf_size := ?e + n\<rparr>))"
  have keep: "store ?e bs (buf p) 0 = buf p 0" for bs
    using off by (simp add: store_def)
  have run: "SetPadding n p = (if ?e + n > buf_cap p then (False, p) else (True, ?q))"
  proof (cases "buf_cap p < ?e + n \<or> n = 0")
    case True
    then show ?thesis
      using assms(2) b0 by (auto simp: SetPadding_def Let_def WriteAt_Nil)
  next
    case False
    then have w: "WriteAt (?e + (n - 1)) [of_nat n] (WriteAt ?e (replicate (n - 1) 0) r) = WriteAt ?e ?pad r" for r
      using WriteAt_append [of ?e "replicate (n - 1) 0" "[of_nat n]" r] by simp
    define q1 where "q1 = p\<lparr>rtp_padding_size := n, buf_size := ?e + n\<rparr>"
    define r where "r = WriteAt (?e + n - 1) [of_nat n] (WriteAt ?e (replicate (n - 1) 0) q1)"
    have "?e + n - 1 = ?e + (n - 1)" using False by simp
    then have r: "r = WriteAt ?e ?pad q1" unfolding r_def by (simp only: w)
    then have "buf r 0 = buf p 0" using keep by (simp add: q1_def)
    then have "buf r 0 OR 0x20 = ?b" using b0(1,7) False by simp
    moreover have "SetPadding n p = (True, WriteAt 0 [buf r 0 OR 0x20] r)"
      using False assms(2) by (simp add: SetPadding_def Let_def q1_def r_def)
    ultimately show ?thesis using False by (simp add: r q1_def)
  qed
  have "rtp_rep ?q cs one es" if fit: "?e + n \<le> buf_cap p"
  proof -
    let ?m = "store ?e ?pad (buf p)"
    have "load 0 (payload_offset p) ?m = load 0 (payload_offset p) (buf p)"
      by (rule load_store_other) simp
    then have "load 0 (payload_offset p) (store 0 [?b] ?m)
        = ?b # drop 1 (fixed_header p cs es @ csrc_bytes cs @ ext_part one es)"
      using load_store_in [of 0 "[?b]" "payload_offset p" ?m] off hdr by simp
    moreover have "load ?e n (store 0 [?b] ?m) = ?pad"
      using load_store_other [of ?e n 0 "[?b]" ?m] load_store_same [of ?pad n ?e "buf p"] off by auto
    ultimately have "load 0 (payload_offset p) (buf ?q) = fixed_header ?q cs es @ csrc_bytes cs @ ext_part one es"
      "padding_ok ?q"
      using assms(2) by (simp_all add: fixed_header_def padding_ok_def split: if_splits)
    moreover have "buffer_ok ?q"
      using assms fit off by (simp add: rtp_rep_def buffer_ok_def rtp_size_def)
    ultimately show ?thesis
      using assms(1) by (simp add: rtp_rep_def)
  qed
  then show "rtp_rep (snd (SetPadding n p)) cs one es"
    using assms(1) by (simp add: run)
  show "rtp_padding_size (snd (SetPadding n p)) = n" if "fst (SetPadding n p)"
    using that by (simp add: run split: if_splits)
qed

lemma rtp_rep_write_ext:
  assumes "rtp_rep p cs one (as @ (i, d) # bs)" and "length d' = length d"
    and "off = 16 + 4 * length cs + length (block one as) + hdr_len one"
  shows "rtp_rep (WriteAt off d' p) cs one (as @ (i, d') # bs)"
proof -
  let ?es = "as @ (i, d) # bs" and ?es' = "as @ (i, d') # bs"
  define h :: "byte list" where
    "h = (if one then [push_bit 4 (of_nat i) OR of_nat (length d - 1)] else [of_nat i, of_nat (length d)])"
  have el: "elem one (i, d) = h @ d" "elem one (i, d') = h @ d'" and hl: "length h = hdr_len one"
    using assms(2) by (simp_all add: hdr_len_def h_def)
  have len: "length (block one ?es') = length (block one ?es)" using assms(2) by simp
  define w where "w = ext_words (length (block one ?es))"
  define post :: "byte list" where "post = block one bs @ replicate (4 * w - length (block one ?es)) 0"
  define pre where "pre = fixed_header p cs ?es @ csrc_bytes cs @ put_be16 (profile one) @ put_be16 (of_nat w)
    @ block one as @ h"
  have ep: "ext_part one ?es = put_be16 (profile one) @ put_be16 (of_nat w) @ block one as @ h @ d @ post"
    "ext_part one ?es' = put_be16 (profile one) @ put_be16 (of_nat w) @ block one as @ h @ d' @ post"
    using assms(2) by (simp_all add: ext_part_def Let_def post_def w_def el hl del: elem.simps)
  have pre: "length pre = off" using assms(3) hl by (simp add: pre_def)
  have load: "load 0 (payload_offset p) (buf p) = pre @ d @ post"
    using assms(1) by (simp add: rtp_rep_def ep pre_def)
  have po: "payload_offset p = off + length d + length post"
    using arg_cong [OF load, of length] pre by simp
  have new: "load 0 (payload_offset p) (store off d' (buf p)) = pre @ d' @ post"
    using load_store_in [of off d' "payload_offset p" "buf p"] po pre assms(2) unfolding load by simp
  have infos: "infos one o' ?es' = infos one o' ?es" for o'
    using assms(2) by (simp add: infos_append)
  have wf: "wf_exts one ?es' = wf_exts one ?es" using assms(2) by (simp add: wf_exts_def)
  have fh: "fixed_header (WriteAt off d' p) cs ?es' = fixed_header p cs ?es" by (simp add: fixed_header_def)
  have "padding_ok (WriteAt off d' p)"
    using assms(1,2) load_store_other [of "payload_offset p + rtp_payload_size p" "rtp_padding_size p" off d' "buf p"] po
    by (simp add: rtp_rep_def padding_ok_def)
  moreover have "buffer_ok (WriteAt off d' p)"
    using assms(1,2) po by (auto simp: rtp_rep_def buffer_ok_def rtp_size_def)
  ultimately show ?thesis
    using assms(1) new unfolding rtp_rep_def infos wf fh len by (simp add: ep pre_def)
qed

lemma rtp_rep_parts:
  assumes "rtp_rep p cs one es"
  shows "load 0 12 (buf p) = fixed_header p cs es" and "load 12 (4 * length cs) (buf p) = csrc_bytes cs"
    and "es \<noteq> [] \<Longrightarrow> load (12 + 4 * length cs) 2 (buf p) = put_be16 (profile one)"
    and "load (16 + 4 * length cs) (length (block one es)) (buf p) = block one es"
proof -
  let ?n = "4 * length cs"
  have l: "load 0 (payload_offset p) (buf p) = fixed_header p cs es @ csrc_bytes cs @ ext_part one es"
    using assms by (simp add: rtp_rep_def)
  show "load 0 12 (buf p) = fixed_header p cs es" using load_prefix [OF l] by simp
  have l1: "load 12 (?n + length (ext_part one es)) (buf p) = csrc_bytes cs @ ext_part one es"
    using load_suffix [OF l] by simp
  show "load 12 ?n (buf p) = csrc_bytes cs" using load_prefix [OF l1] by simp
  have l2: "load (12 + ?n) (length (ext_part one es)) (buf p) = ext_part one es"
    using load_suffix [OF l1] by simp
  let ?rest = "put_be16 (of_nat (ext_words (length (block one es)))) @ block one es
    @ replicate (4 * ext_words (length (block one es)) - length (block one es)) 0"
  have ep: "ext_part one es = put_be16 (profile one) @ ?rest" if "es \<noteq> []"
    using that by (simp add: ext_part_def Let_def)
  show "load (12 + ?n) 2 (buf p) = put_be16 (profile one)" if "es \<noteq> []"
    using load_prefix [of "12 + ?n" "length (ext_part one es)" "buf p" "put_be16 (profile one)"] l2 ep [OF that] by simp
  show "load (16 + ?n) (length (block one es)) (buf p) = block one es"
  proof (cases "es = []")
    case False
    have "load (12 + ?n) (length (ext_part one es)) (buf p) = (put_be16 (profile one)
        @ put_be16 (of_nat (ext_words (length (block one es))))) @ block one es
        @ replicate (4 * ext_words (length (block one es)) - length (block one es)) 0"
      using l2 ep [OF False] by simp
    from load_prefix [OF load_suffix [OF this]] show ?thesis by simp
  qed simp
qed

lemma SetExtensionLength:
  assumes "4 * ext_words (extensions_size p) < 65536"
  shows "SetExtensionLengthMaybeAddZeroPadding E p = (4 * ext_words (extensions_size p),
    WriteAt (E + extensions_size p) (replicate (4 * ext_words (extensions_size p) - extensions_size p) 0)
      (WriteAt (E - 2) (put_be16 (of_nat (ext_words (extensions_size p)))) p))"
  using assms ext_words(1) [of "extensions_size p"]
  by (simp add: SetExtensionLengthMaybeAddZeroPadding_def Let_def ext_words_def size_sub_le)

lemma load_eight:
  "load 0 (a + b + c + d + e + f + g + h) m = load 0 a m @ load a b m @ load (a + b) c m @ load (a + b + c) d m
     @ load (a + b + c + d) e m @ load (a + b + c + d + e) f m @ load (a + b + c + d + e + f) g m
     @ load (a + b + c + d + e + f + g) h m"
  by (simp add: load_append)

definition same_fields :: "RtpPacket \<Rightarrow> RtpPacket \<Rightarrow> bool" where
  "same_fields p q \<longleftrightarrow> rtp_marker q = rtp_marker p \<and> rtp_payload_type q = rtp_payload_type p
     \<and> rtp_sequence_number q = rtp_sequence_number p \<and> rtp_timestamp q = rtp_timestamp p \<and> rtp_ssrc q = rtp_ssrc p
     \<and> rtp_extensions q = rtp_extensions p \<and> rtp_payload_size q = rtp_payload_size p
     \<and> rtp_padding_size q = rtp_padding_size p \<and> buf_cap q = buf_cap p"

lemma rtp_rep_intro:
  assumes "rtp_rep p cs one0 es0" and "same_fields p q" and "rtp_payload_size p = 0" and "rtp_padding_size p = 0"
    and "wf_exts one es" and "es \<noteq> []" and "\<not> rtp_fault q"
    and "E = 16 + 4 * length cs" and "B = length (block one es)"
    and "load 0 12 (buf q) = byte0 False True (length cs) # drop 1 (fixed_header p cs es0)"
    and "load 12 (4 * length cs) (buf q) = csrc_bytes cs"
    and "load (E - 4) 2 (buf q) = put_be16 (profile one)"
    and "load (E - 2) 2 (buf q) = put_be16 (of_nat (ext_words B))"
    and "load E B (buf q) = block one es"
    and "load (E + B) (4 * ext_words B - B) (buf q) = replicate (4 * ext_words B - B) 0"
    and "payload_offset q = E + 4 * ext_words B" and "buf_size q = payload_offset q"
    and "extension_entries q = infos one E es" and "extensions_size q = B" and "E + 4 * ext_words B \<le> buf_cap p"
  shows "rtp_rep q cs one es"
proof -
  let ?n = "4 * length cs"
  have "payload_offset q = 12 + ?n + 2 + 2 + B + (4 * ext_words B - B) + 0 + 0"
    using assms(8,16) ext_words(1) [of B] by simp
  then have "load 0 (payload_offset q) (buf q) = (byte0 False True (length cs) # drop 1 (fixed_header p cs es0))
      @ csrc_bytes cs @ put_be16 (profile one) @ put_be16 (of_nat (ext_words B)) @ block one es
      @ replicate (4 * ext_words B - B) 0"
    using load_eight [of 12 ?n 2 2 B "4 * ext_words B - B" 0 0 "buf q"] assms(8,10-15) by simp
  also have "\<dots> = fixed_header q cs es @ csrc_bytes cs @ ext_part one es"
    using assms(2,4,6,9) by (simp add: same_fields_def fixed_header_def ext_part_def Let_def)
  finally show ?thesis
    using assms by (auto simp: rtp_rep_def same_fields_def padding_ok_def buffer_ok_def rtp_size_def)
qed

definition elem_hdr :: "bool \<Rightarrow> nat \<Rightarrow> nat \<Rightarrow> byte list" where
  "elem_hdr one i len = (if one then [push_bit 4 (of_nat i) OR of_nat (len - 1)] else [of_nat i, of_nat len])"

lemma elem_elem_hdr: "elem one (i, d) = elem_hdr one i (length d) @ d"
  by (simp add: elem_hdr_def)

lemma length_elem_hdr [simp]: "length (elem_hdr one i len) = hdr_len one"
  by (simp add: elem_hdr_def hdr_len_def)

lemma profile_neq: "profile True = kOneByteExtensionProfileId" "profile False \<noteq> kOneByteExtensionProfileId"
    "profile False = kTwoByteExtensionProfileId"
  by (simp_all add: profile_def kOneByteExtensionProfileId_def kTwoByteExtensionProfileId_def)

lemma AppendExtension_rep:
  assumes "rtp_rep p cs one es" and "rtp_payload_size p = 0" and "rtp_padding_size p = 0"
    and "i \<notin> fst ` set es" and "wf_ext one' i len" and "es = [] \<or> one' = one"
  defines "off \<equiv> 16 + 4 * length cs + length (block one es) + hdr_len one'"
  shows "AppendExtension i len (profile one') p = (None, p) \<and> buf_cap p < off + len
    \<or> (\<exists>d q. AppendExtension i len (profile one') p = (Some (off, len), q) \<and> length d = len
        \<and> rtp_rep q cs one' (es @ [(i, d)]) \<and> same_fields p q)"
proof (cases "buf_cap p < off + len")
  case True
  then show ?thesis
    using rtp_rep_start [OF assms(1)] assms(1) profile_neq
    by (cases one') (simp_all add: AppendExtension_def Let_def off_def rtp_rep_def hdr_len_def
        kOneByteExtensionHeaderLength_def kTwoByteExtensionHeaderLength_def)
next
  case False
  define E where "E = 16 + 4 * length cs"
  define B where "B = length (block one es)"
  define h where "h = hdr_len one'"
  define B' where "B' = B + h + len"
  define W where "W = ext_words B'"
  have off: "off = E + B + h" by (simp add: off_def E_def B_def h_def)
  have len: "1 \<le> len" "len \<le> 255" "1 \<le> i" "i \<le> 255" using assms(5) by (auto simp: wf_ext_def)
  have n15: "length cs \<le> 15" and cap: "4 dvd buf_cap p" "buf_cap p < 65536" and nf: "\<not> rtp_fault p"
    and esz: "extensions_size p = B" and ent: "extension_entries p = infos one E es"
    using assms(1) by (auto simp: rtp_rep_def buffer_ok_def B_def E_def)
  have st: "extensions_start p = E" using rtp_rep_start [OF assms(1)] by (simp add: E_def)
  have B0: "B = 0 \<longleftrightarrow> es = []"
  proof -
    have "0 < length (elem one e)" for e by (cases e) simp
    then show ?thesis by (cases es) (auto simp: B_def)
  qed
  obtain c where c: "buf_cap p = 4 * c" using cap(1) by (elim dvdE)
  have "B' \<le> 4 * (c - (4 + length cs))" using False c by (simp add: off B'_def E_def)
  then have W: "4 * W \<le> buf_cap p - E" using ext_words_le [of B' "c - (4 + length cs)"] c by (simp add: W_def E_def)
  have EB: "E + B' \<le> buf_cap p" using False by (simp add: off B'_def)
  then have W': "E + 4 * W \<le> buf_cap p" "B' \<le> 4 * W" using W ext_words(1) [of B'] by (simp_all add: W_def)
  define p1 where "p1 = (if es = [] then WriteAt (E - 4) (put_be16 (profile one')) (WriteAt 0 [buf p 0 OR 0x10] p) else p)"
  define p2 where "p2 = WriteAt (E + B) (elem_hdr one' i len) p1"
  define info where "info = \<lparr>info_id = i, info_length = len, info_offset = off\<rparr>"
  define p3 where "p3 = p2\<lparr>extension_entries := extension_entries p2 @ [info], extensions_size := B'\<rparr>"
  define q where "q = (WriteAt (E + B') (replicate (4 * W - B') 0) (WriteAt (E - 2) (put_be16 (of_nat W)) p3))
    \<lparr>payload_offset := E + 4 * W, buf_size := E + 4 * W\<rparr>"
  have p1_sel: "extensions_size p1 = B" "extension_entries p1 = infos one E es" "buf_cap p1 = buf_cap p"
    by (simp_all add: p1_def esz ent)
  have p2_sel: "extensions_size p2 = B" "extension_entries p2 = infos one E es" "buf_cap p2 = buf_cap p"
    by (simp_all add: p2_def p1_sel)
  have two: "WriteAt (E + B + 1) [of_nat len] (WriteAt (E + B) [of_nat i] r) = WriteAt (E + B) [of_nat i, of_nat len] r" for r
    using WriteAt_append [of "E + B" "[of_nat i]" "[of_nat len]" r] by simp
  have info: "ExtensionInfo_init i len off = info"
    using len EB cap(2) by (simp add: ExtensionInfo_init_def info_def off B'_def)
  have "extensions_size p3 = B'" by (simp add: p3_def)
  moreover have "4 * W < 65536" using W' cap(2) by simp
  ultimately have sl: "SetExtensionLengthMaybeAddZeroPadding E p3 = (4 * W,
      WriteAt (E + B') (replicate (4 * W - B') 0) (WriteAt (E - 2) (put_be16 (of_nat W)) p3))"
    using SetExtensionLength [of p3 E] by (simp add: W_def)
  have hl_eq: "(if profile one' = kOneByteExtensionProfileId then kOneByteExtensionHeaderLength
      else kTwoByteExtensionHeaderLength) = h"
    using profile_neq by (cases one') (simp_all add: h_def hdr_len_def kOneByteExtensionHeaderLength_def
        kTwoByteExtensionHeaderLength_def)
  have p2_eq: "(if profile one' = kOneByteExtensionProfileId
      then WriteAt (E + B) [push_bit 4 (of_nat i) OR of_nat (len - 1)] p1
      else WriteAt (E + B + 1) [of_nat len] (WriteAt (E + B) [of_nat i] p1)) = p2"
    using profile_neq two by (cases one') (simp_all add: p2_def elem_hdr_def)
  have p1_eq: "(if B = 0 then WriteAt (E - 4) (put_be16 (profile one')) (WriteAt 0 [buf p 0 OR 0x10] p) else p) = p1"
    by (simp add: p1_def B0)
  have fit: "\<not> E + B' > buf_cap p" using EB by simp
  have run: "AppendExtension i len (profile one') p = (Some (off, len), q)"
    by (simp only: AppendExtension_def Let_def st esz hl_eq p1_eq p1_sel(1) p2_eq p2_sel(1) B'_def [symmetric]
        off [symmetric] info p3_def [symmetric] sl prod.case fit if_False) (simp add: q_def info_def)
  define d where "d = load off len (buf p)"
  have "length d = len" by (simp add: d_def)
  moreover have "same_fields p q"
    by (simp add: same_fields_def q_def p3_def p2_def p1_def)
  moreover have "rtp_rep q cs one' (es @ [(i, d)])"
  proof (rule rtp_rep_intro [OF assms(1) \<open>same_fields p q\<close> assms(2,3), where E = E and B = B'])
    note parts = rtp_rep_parts [OF assms(1)]
    have blk: "block one' (es @ [(i, d)]) = block one es @ elem_hdr one' i len @ d"
      using assms(6) by (auto simp: elem_elem_hdr \<open>length d = len\<close> simp del: elem.simps)
    have inf: "infos one' E (es @ [(i, d)]) = infos one E es @ [info]"
      using assms(6) by (auto simp: infos_append info_def off_def E_def B_def h_def \<open>length d = len\<close>)
    show "wf_exts one' (es @ [(i, d)])"
      using assms(1,4,5,6) \<open>length d = len\<close> by (auto simp: rtp_rep_def wf_exts_def)
    show "es @ [(i, d)] \<noteq> []" by simp
    show "E = 16 + 4 * length cs" by (rule E_def)
    show "B' = length (block one' (es @ [(i, d)]))"
      unfolding blk by (simp add: B'_def B_def h_def \<open>length d = len\<close>)
    have bq: "buf q = store (E + B') (replicate (4 * W - B') 0) (store (E - 2) (put_be16 (of_nat W))
        (store (E + B) (elem_hdr one' i len) (buf p1)))"
      by (simp add: q_def p3_def p2_def)
    have m1: "load 0 12 (buf p1) = byte0 False True (length cs) # drop 1 (fixed_header p cs es)"
      "load 12 (4 * length cs) (buf p1) = csrc_bytes cs" "load (E - 4) 2 (buf p1) = put_be16 (profile one')"
      "load E B (buf p1) = block one es" "load off len (buf p1) = d"
    proof -
      have b: "buf p 0 OR 0x10 = byte0 False True (length cs)"
        using rtp_rep_num(1) [OF assms(1)] byte0(5) [OF n15] assms(3) by simp
      show "load 0 12 (buf p1) = byte0 False True (length cs) # drop 1 (fixed_header p cs es)"
      proof (cases "es = []")
        case True
        then show ?thesis
          using parts(1) load_store_in [of 0 "[buf p 0 OR 0x10]" 12 "buf p"] b
          by (simp add: p1_def load_store_other E_def)
      next
        case False
        then show ?thesis using parts(1) assms(3) by (simp add: p1_def fixed_header_def)
      qed
      show "load 12 (4 * length cs) (buf p1) = csrc_bytes cs"
        using parts(2) by (simp add: p1_def load_store_other E_def)
      show "load (E - 4) 2 (buf p1) = put_be16 (profile one')"
        using parts(3) assms(6) by (cases "es = []") (simp_all add: p1_def load_store_same E_def)
      show "load E B (buf p1) = block one es"
        using parts(4) by (simp add: p1_def load_store_other E_def B_def)
      show "load off len (buf p1) = d"
        by (simp add: p1_def load_store_other E_def off_def d_def)
    qed
    show "load 0 12 (buf q) = byte0 False True (length cs) # drop 1 (fixed_header p cs es)"
      using m1(1) by (simp add: bq load_store_other E_def)
    show "load 12 (4 * length cs) (buf q) = csrc_bytes cs"
      using m1(2) by (simp add: bq load_store_other E_def)
    show "load (E - 4) 2 (buf q) = put_be16 (profile one')"
      using m1(3) by (simp add: bq load_store_other E_def)
    show "load (E - 2) 2 (buf q) = put_be16 (of_nat (ext_words B'))"
      by (simp add: bq load_store_other load_store_same E_def W_def)
    show "load (E + B') (4 * ext_words B' - B') (buf q) = replicate (4 * ext_words B' - B') 0"
      by (simp add: bq load_store_same flip: W_def)
    have "load E B (buf q) = block one es"
      using m1(4) by (simp add: bq load_store_other E_def B'_def)
    moreover have "load (E + B) h (buf q) = elem_hdr one' i len"
      by (simp add: bq load_store_other load_store_same E_def B'_def h_def)
    moreover have "load (E + B + h) len (buf q) = d"
      using m1(5) by (simp add: bq load_store_other E_def B'_def h_def off)
    ultimately show "load E B' (buf q) = block one' (es @ [(i, d)])"
      unfolding blk by (simp add: B'_def load_append add.assoc)
    show "\<not> rtp_fault q"
      using nf W' EB len n15 by (auto simp: q_def p3_def p2_def p1_def E_def B'_def h_def)
    show "payload_offset q = E + 4 * ext_words B'" "buf_size q = payload_offset q" "extensions_size q = B'"
      by (simp_all add: q_def W_def p3_def)
    show "extension_entries q = infos one' E (es @ [(i, d)])"
      by (simp add: q_def p3_def p2_sel inf)
    show "E + 4 * ext_words B' \<le> buf_cap p" using W' by (simp add: W_def)
  qed
  ultimately show ?thesis using run by blast
qed

lemma length_block: "length (block one es) = hdr_len one * length es + length (concat (map snd es))"
  by (induction es) (auto simp: hdr_len_def)

lemma length_block_promote: "length (block False es) = length (block True es) + length es"
  by (simp add: length_block hdr_len_def)

text \<open>
  The promotion loop: elements in the one-byte form at \<open>E\<close> become the same elements in the
  two-byte form, from the last to the first, although the two regions overlap.
\<close>

lemma PromoteLoop_block:
  assumes "load E (length (block True es)) (buf p) = block True es"
    and "\<forall>(i, d) \<in> set es. wf_ext True i (length d)"
    and "E + length (block False es) < 65536" and "E + length (block False es) \<le> buf_cap p"
    and "E + length (block False es) \<le> hi" and "2 \<le> E"
  shows "\<exists>q. PromoteLoop (rev (infos True E es)) (length es) moved p = q \<and> extension_entries q = infos False E es @ moved
    \<and> q = p\<lparr>extension_entries := extension_entries q, buf := buf q\<rparr>
    \<and> load E (length (block False es)) (buf q) = block False es
    \<and> load 0 E (buf q) = load 0 E (buf p) \<and> (\<forall>n. load hi n (buf q) = load hi n (buf p))"
  using assms
proof (induction es arbitrary: p moved hi rule: rev_induct)
  case Nil
  then show ?case by simp
next
  case (snoc x es)
  obtain i d where x: "x = (i, d)" by fastforce
  let ?k = "length es" and ?B = "length (block True es)" and ?B2 = "length (block False es)"
  have B2: "?B2 = ?B + ?k" by (rule length_block_promote)
  let ?r = "E + ?B + 1" and ?w = "E + ?B2 + 2"
  have w: "?r + (?k + 1) = ?w" using B2 by simp
  have tot: "length (block False (es @ [x])) = ?B2 + 2 + length d" by (simp add: x)
  have wf: "wf_ext True i (length d)" using snoc.prems(2) by (auto simp: x)
  then have d16: "length d < 256" "i < 256" by (simp_all add: wf_ext_def)
  have inf: "infos True E (es @ [x]) = infos True E es @ [\<lparr>info_id = i, info_length = length d, info_offset = ?r\<rparr>]"
    by (simp add: infos_append x hdr_len_def)
  have old: "load E ?B (buf p) = block True es" "load ?r (length d) (buf p) = d"
  proof -
    have "load E (length (block True (es @ [x]))) (buf p) = block True es @ elem_hdr True i (length d) @ d"
      using snoc.prems(1) by (simp add: x elem_elem_hdr del: elem.simps)
    from load_prefix [OF this] load_suffix [OF load_suffix [OF this, simplified]]
    show "load E ?B (buf p) = block True es" "load ?r (length d) (buf p) = d"
      by (simp_all add: hdr_len_def)
  qed
  define p1 where "p1 = WriteAt (?w - 2) [of_nat i] (WriteAt (?w - 1) [of_nat (length d)] (WriteAt ?w d p))"
  define e where "e = \<lparr>info_id = i, info_length = length d, info_offset = ?w\<rparr>"
  have step: "PromoteLoop (rev (infos True E (es @ [x]))) (length (es @ [x])) moved p
      = PromoteLoop (rev (infos True E es)) ?k (e # moved) p1"
    unfolding inf using w old(2) snoc.prems(3) tot by (simp add: Let_def p1_def e_def B2 add.assoc)
  have m1: "buf p1 = store (E + ?B2) [of_nat i] (store (E + ?B2 + 1) [of_nat (length d)] (store (E + ?B2 + 2) d (buf p)))"
    by (simp add: p1_def)
  have p1: "p1 = p\<lparr>buf := buf p1\<rparr>"
    using snoc.prems(4) tot by (auto simp: p1_def WriteAt_def)
  have "load E ?B (buf p1) = block True es"
    using old(1) B2 by (simp add: m1 load_store_other)
  moreover have "buf_cap p1 = buf_cap p" by (simp add: p1_def)
  ultimately obtain q where q: "PromoteLoop (rev (infos True E es)) ?k (e # moved) p1 = q"
    "extension_entries q = infos False E es @ e # moved" "q = p1\<lparr>extension_entries := extension_entries q, buf := buf q\<rparr>"
    "load E ?B2 (buf q) = block False es" "load 0 E (buf q) = load 0 E (buf p1)"
    "\<forall>n. load (E + ?B2) n (buf q) = load (E + ?B2) n (buf p1)"
    using snoc.IH [of p1 "E + ?B2" "e # moved"] snoc.prems tot by auto
  have above: "load hi n (buf q) = load hi n (buf p)" for n
  proof -
    have "load (E + ?B2) ((hi - (E + ?B2)) + n) (buf q) = load (E + ?B2) ((hi - (E + ?B2)) + n) (buf p1)" using q(6) by blast
    then have "load (E + ?B2 + (hi - (E + ?B2))) n (buf q) = load (E + ?B2 + (hi - (E + ?B2))) n (buf p1)"
      by (simp only: load_append) simp
    then have "load hi n (buf q) = load hi n (buf p1)" using snoc.prems(5) tot by simp
    then show ?thesis using snoc.prems(5) tot by (simp add: m1 load_store_other)
  qed
  have new: "load (E + ?B2) (2 + length d) (buf p1) = [of_nat i, of_nat (length d)] @ d"
  proof -
    have "load (E + ?B2) (1 + 1 + length d) (buf p1) = load (E + ?B2) 1 (buf p1) @ load (E + ?B2 + 1) 1 (buf p1)
        @ load (E + ?B2 + 1 + 1) (length d) (buf p1)"
      by (simp only: load_append append_assoc add.assoc)
    then show ?thesis by (simp add: m1 load_store_other load_store_same)
  qed
  have "load E (?B2 + (2 + length d)) (buf q) = block False (es @ [x])"
    unfolding load_append [of E ?B2] q(4) using q(6) new by (simp add: x)
  moreover have "infos False E (es @ [x]) = infos False E es @ [e]"
    by (simp add: infos_append x e_def hdr_len_def)
  moreover have "load 0 E (buf p1) = load 0 E (buf p)"
    by (simp add: m1 load_store_other)
  moreover have "q = p\<lparr>extension_entries := extension_entries q, buf := buf q\<rparr>"
    by (subst q(3), subst p1) simp
  ultimately show ?case
    unfolding step tot q(1) using q(2,5) above by (intro exI [of _ q] conjI) (simp_all add: add.assoc)
qed

lemma read_profile_rep:
  assumes "rtp_rep p cs one es" and "es \<noteq> []"
  shows "read_profile (16 + 4 * length cs) p = profile one"
  using rtp_rep_parts(3) [OF assms] by (simp add: read_profile_def read_write_be16)

lemma ext_words_fit:
  assumes "4 dvd c" and "4 dvd E" and "E + n \<le> (c :: nat)"
  shows "E + 4 * ext_words n \<le> c"
proof -
  obtain a b where ab: "c = 4 * a" "E = 4 * b" using assms(1,2) by (elim dvdE)
  have "ext_words n \<le> a - b" using assms(3) ab by (intro ext_words_le) simp
  then show ?thesis using assms(3) ab by simp
qed

lemma wf_exts_two: "wf_exts one es \<Longrightarrow> wf_exts False es"
  by (auto simp: wf_exts_def wf_ext_def)

lemma PromoteToTwoByteHeaderExtension_rep:
  assumes "rtp_rep p cs True es" and "es \<noteq> []" and "rtp_payload_size p = 0" and "rtp_padding_size p = 0"
    and "16 + 4 * length cs + length (block False es) \<le> buf_cap p"
  shows "rtp_rep (PromoteToTwoByteHeaderExtension p) cs False es" (is ?rep)
    and "same_fields p (PromoteToTwoByteHeaderExtension p)" (is ?same)
proof -
  define E where "E = 16 + 4 * length cs"
  define B where "B = length (block False es)"
  define W where "W = ext_words B"
  have cap: "4 dvd buf_cap p" "buf_cap p < 65536" and nf: "\<not> rtp_fault p" and wf: "wf_exts True es"
    and esz: "extensions_size p = length (block True es)" and ent: "extension_entries p = infos True E es"
    using assms(1) by (auto simp: rtp_rep_def buffer_ok_def E_def)
  have EB: "E + B \<le> buf_cap p" using assms(5) by (simp add: E_def B_def)
  have W: "E + 4 * W \<le> buf_cap p" "B \<le> 4 * W" "4 * W < 65536"
    using ext_words_fit [OF cap(1) _ EB] ext_words(1) [of B] cap(2) by (simp_all add: E_def W_def)
  note parts = rtp_rep_parts [OF assms(1)]
  obtain q where q: "PromoteLoop (rev (infos True E es)) (length es) [] p = q"
    "extension_entries q = infos False E es" "q = p\<lparr>extension_entries := extension_entries q, buf := buf q\<rparr>"
    "load E B (buf q) = block False es" "load 0 E (buf q) = load 0 E (buf p)"
    using PromoteLoop_block [of E es p "E + B" "[]"] parts(4) wf EB cap(2)
    by (auto simp: E_def B_def wf_exts_def)
  have sel: "rtp_fault q = rtp_fault p" "extensions_size q = extensions_size p" "buf_cap q = buf_cap p"
    "same_fields p q"
    by (subst q(3), simp)+ (subst q(3), simp add: same_fields_def)
  define q1 where "q1 = (WriteAt (E - 4) (put_be16 (profile False)) q)\<lparr>extensions_size := B\<rparr>"
  define q2 where "q2 = (WriteAt (E + B) (replicate (4 * W - B) 0) (WriteAt (E - 2) (put_be16 (of_nat W)) q1))
    \<lparr>payload_offset := E + 4 * W, buf_size := E + 4 * W\<rparr>"
  have "extensions_size q1 = B" by (simp add: q1_def)
  then have sl: "SetExtensionLengthMaybeAddZeroPadding E q1 = (4 * W,
      WriteAt (E + B) (replicate (4 * W - B) 0) (WriteAt (E - 2) (put_be16 (of_nat W)) q1))"
    using SetExtensionLength [of q1 E] W by (simp add: W_def)
  have run: "PromoteToTwoByteHeaderExtension p = q2"
  proof -
    have guard: "(extension_entries p = [] \<or> rtp_payload_size p \<noteq> 0
        \<or> read_profile E p \<noteq> kOneByteExtensionProfileId) = False"
      using read_profile_rep [OF assms(1,2)] assms(2,3) profile_neq(1) by (simp add: ent E_def)
    have "(WriteAt (E - 4) (put_be16 kTwoByteExtensionProfileId) q)\<lparr>extensions_size := extensions_size q + length es\<rparr> = q1"
      using sel(2) esz by (simp add: q1_def profile_neq(3) B_def length_block_promote)
    then show ?thesis
      using rtp_rep_start [OF assms(1)] guard q(1,2) sl
      by (simp add: PromoteToTwoByteHeaderExtension_def Let_def E_def [symmetric] ent q2_def)
  qed
  show ?same using sel(4) by (simp add: run same_fields_def q2_def q1_def)
  have bq: "buf q2 = store (E + B) (replicate (4 * W - B) 0) (store (E - 2) (put_be16 (of_nat W))
      (store (E - 4) (put_be16 (profile False)) (buf q)))"
    by (simp add: q2_def q1_def)
  have low: "load 0 12 (buf q) = load 0 12 (buf p)" "load 12 (4 * length cs) (buf q) = load 12 (4 * length cs) (buf p)"
  proof -
    have "load 0 (12 + (4 * length cs + 4)) (buf q) = load 0 (12 + (4 * length cs + 4)) (buf p)"
      using q(5) by (simp add: E_def)
    then show "load 0 12 (buf q) = load 0 12 (buf p)" "load 12 (4 * length cs) (buf q) = load 12 (4 * length cs) (buf p)"
      unfolding load_append by simp_all
  qed
  show ?rep
    unfolding run
  proof (rule rtp_rep_intro [OF assms(1) _ assms(3,4), where E = E and B = B])
    show "same_fields p q2" using \<open>?same\<close> run by simp
    show "wf_exts False es" "es \<noteq> []" using wf_exts_two [OF wf] assms(2) by auto
    show "\<not> rtp_fault q2" using nf sel EB W by (auto simp: q2_def q1_def E_def)
    show "load 0 12 (buf q2) = byte0 False True (length cs) # drop 1 (fixed_header p cs es)"
      using low(1) parts(1) assms(2,4) by (simp add: bq load_store_other E_def fixed_header_def)
    show "load 12 (4 * length cs) (buf q2) = csrc_bytes cs"
      using low(2) parts(2) by (simp add: bq load_store_other E_def)
    show "load (E - 4) 2 (buf q2) = put_be16 (profile False)" "load (E - 2) 2 (buf q2) = put_be16 (of_nat (ext_words B))"
      by (simp_all add: bq load_store_other load_store_same E_def W_def)
    show "load E B (buf q2) = block False es"
      using q(4) by (simp add: bq load_store_other E_def)
    show "load (E + B) (4 * ext_words B - B) (buf q2) = replicate (4 * ext_words B - B) 0"
      by (simp add: bq load_store_same flip: W_def)
    show "payload_offset q2 = E + 4 * ext_words B" "buf_size q2 = payload_offset q2" "extensions_size q2 = B"
      "extension_entries q2 = infos False E es" "E + 4 * ext_words B \<le> buf_cap p"
      using q(2) W(1) by (simp_all add: q2_def q1_def W_def)
  qed (simp_all add: E_def B_def)
qed

text \<open>Where the data of the extension behind \<open>as\<close> is.\<close>

definition data_offset :: "u32 list \<Rightarrow> bool \<Rightarrow> (nat \<times> byte list) list \<Rightarrow> nat" where
  "data_offset cs one as = 16 + 4 * length cs + length (block one as) + hdr_len one"

lemma find_infos_None: "i \<notin> fst ` set es \<Longrightarrow> find (\<lambda>e. info_id e = i) (infos one off es) = None"
  by (induction one off es rule: infos.induct) auto

lemma FindExtensionInfo_None:
  "rtp_rep p cs one es \<Longrightarrow> i \<notin> fst ` set es \<Longrightarrow> FindExtensionInfo i p = None"
  by (simp add: FindExtensionInfo_def rtp_rep_def find_infos_None)

lemma FindExtensionInfo_Some:
  assumes "rtp_rep p cs one (as @ (i, d) # bs)"
  shows "FindExtensionInfo i p = Some \<lparr>info_id = i, info_length = length d, info_offset = data_offset cs one as\<rparr>"
proof -
  have "i \<notin> fst ` set as" using assms by (auto simp: rtp_rep_def wf_exts_def)
  then show ?thesis
    using assms by (simp add: FindExtensionInfo_def rtp_rep_def find_append find_infos_None infos_append data_offset_def)
qed

lemma rtp_rep_data:
  assumes "rtp_rep p cs one (as @ (i, d) # bs)"
  shows "load (data_offset cs one as) (length d) (buf p) = d"
proof -
  have "load (16 + 4 * length cs) (length (block one (as @ (i, d) # bs))) (buf p)
      = (block one as @ elem_hdr one i (length d)) @ d @ block one bs"
    using rtp_rep_parts(4) [OF assms] by (simp add: elem_elem_hdr del: elem.simps)
  from load_prefix [OF load_suffix [OF this]] show ?thesis
    by (simp add: data_offset_def add.assoc)
qed

definition two_byte_required :: "nat \<Rightarrow> nat \<Rightarrow> bool" where
  "two_byte_required i len \<longleftrightarrow> i > 14 \<or> len > 16"

lemma wf_ext_required: "1 \<le> i \<Longrightarrow> i \<le> 255 \<Longrightarrow> 1 \<le> len \<Longrightarrow> len \<le> 255 \<Longrightarrow>
    one \<longrightarrow> \<not> two_byte_required i len \<Longrightarrow> wf_ext one i len"
  by (auto simp: wf_ext_def two_byte_required_def)

text \<open>
  A sufficient condition for an allocation to succeed: the extension is there with that length, or
  there is no payload and no padding yet and place for the extension even in the two-byte form.
\<close>

definition raw_room :: "nat \<Rightarrow> nat \<Rightarrow> RtpPacket \<Rightarrow> bool" where
  "raw_room i len p = (case FindExtensionInfo i p of
     Some e \<Rightarrow> info_length e = len
   | None \<Rightarrow> rtp_payload_size p = 0 \<and> rtp_padding_size p = 0
       \<and> extensions_start p + extensions_size p + length (extension_entries p) + 2 + len \<le> buf_cap p)"

text \<open>
  Allocation finds the extension, refuses and leaves the packet, or adds an extension behind the
  others, in the two-byte form when one of them needs it.
\<close>

lemma AllocateRawExtension_rep:
  assumes "rtp_rep p cs one es" and "1 \<le> i" and "i \<le> 255" and "1 \<le> len" and "len \<le> 255"
    and "two_byte_required i len \<longrightarrow> extmap_allow_mixed (rtp_extensions p)"
  shows "AllocateRawExtension i len p = (None, p) \<and> \<not> raw_room i len p
    \<or> (\<exists>as d bs. es = as @ (i, d) # bs \<and> length d = len
         \<and> AllocateRawExtension i len p = (Some (data_offset cs one as, len), p))
    \<or> (\<exists>one' d q. AllocateRawExtension i len p = (Some (data_offset cs one' es, len), q) \<and> length d = len
         \<and> rtp_rep q cs one' (es @ [(i, d)]) \<and> same_fields p q
         \<and> rtp_payload_size p = 0 \<and> rtp_padding_size p = 0)"
proof (cases "i \<in> fst ` set es")
  case True
  then obtain as d bs where es: "es = as @ (i, d) # bs" by (metis imageE prod.collapse split_list)
  then show ?thesis
    using FindExtensionInfo_Some [of p cs one as i d bs] assms(1)
    by (cases "length d = len") (auto simp: AllocateRawExtension_def raw_room_def)
next
  case new: False
  have f: "FindExtensionInfo i p = None" using FindExtensionInfo_None [OF assms(1) new] .
  have st: "extensions_start p = 16 + 4 * length cs" by (rule rtp_rep_start [OF assms(1)])
  have req: "(i > kOneByteHeaderExtensionMaxId \<or> len > kOneByteHeaderExtensionMaxValueSize \<or> len = 0)
      = two_byte_required i len"
    using assms(4) by (auto simp: two_byte_required_def kOneByteHeaderExtensionMaxId_def kOneByteHeaderExtensionMaxValueSize_def)
  have esz: "extensions_size p = length (block one es)" "extension_entries p = infos one (16 + 4 * length cs) es"
    using assms(1) by (simp_all add: rtp_rep_def)
  have pos: "0 < extensions_size p \<longleftrightarrow> es \<noteq> []"
    by (cases es) (auto simp: esz length_block hdr_len_def)
  have run: "AllocateRawExtension i len p = (if rtp_payload_size p > 0 \<or> rtp_padding_size p > 0 then (None, p)
      else if es \<noteq> [] \<and> one \<and> two_byte_required i len then
        (if 16 + 4 * length cs + (extensions_size p + length es + 2 + len) > buf_cap p then (None, p)
         else AppendExtension i len (profile False) (PromoteToTwoByteHeaderExtension p))
      else AppendExtension i len (profile (if es = [] then \<not> two_byte_required i len else one)) p)"
    using assms(6) read_profile_rep [OF assms(1)] profile_neq
    unfolding AllocateRawExtension_def f req st Let_def pos
    by (cases one) (auto simp: esz(2) kTwoByteExtensionHeaderLength_def)
  have room: "raw_room i len p \<longleftrightarrow> rtp_payload_size p = 0 \<and> rtp_padding_size p = 0
      \<and> 16 + 4 * length cs + length (block one es) + length es + 2 + len \<le> buf_cap p"
    by (simp add: raw_room_def f st esz)
  show ?thesis
  proof (cases "rtp_payload_size p = 0 \<and> rtp_padding_size p = 0")
    case False
    then show ?thesis by (auto simp: run room)
  next
    case z: True
    have append: "?thesis" if "AllocateRawExtension i len p = AppendExtension i len (profile one') p"
        "wf_ext one' i len" "es = [] \<or> one' = one" for one'
    proof -
      have eq: "data_offset cs one' es = 16 + 4 * length cs + length (block one es) + hdr_len one'"
        using that(3) by (auto simp: data_offset_def)
      have "\<not> raw_room i len p" if "buf_cap p < data_offset cs one' es + len"
        using that unfolding room eq by (cases one') (auto simp: hdr_len_def)
      then show ?thesis
        using AppendExtension_rep [OF assms(1) _ _ new that(2,3)] z that(1) unfolding eq [symmetric] by metis
    qed
    consider (promote) "es \<noteq> []" "one" "two_byte_required i len"
      | (empty) "es = []" | (same) "es \<noteq> []" "one \<longrightarrow> \<not> two_byte_required i len" by blast
    then show ?thesis
    proof cases
      case promote
      let ?q = "PromoteToTwoByteHeaderExtension p"
      have fit: ?thesis if "16 + 4 * length cs + (extensions_size p + length es + 2 + len) \<le> buf_cap p"
      proof -
        have le: "16 + 4 * length cs + length (block False es) \<le> buf_cap p"
          using that promote by (simp add: esz length_block_promote)
        have rep: "rtp_rep ?q cs False es" and same: "same_fields p ?q"
          using PromoteToTwoByteHeaderExtension_rep [OF _ promote(1) _ _ le] assms(1) promote(2) z by auto
        have wf: "wf_ext False i len" using assms(2-5) by (simp add: wf_ext_def)
        have "\<exists>d q. AppendExtension i len (profile False) ?q = (Some (data_offset cs False es, len), q)
            \<and> length d = len \<and> rtp_rep q cs False (es @ [(i, d)]) \<and> same_fields ?q q"
          using AppendExtension_rep [OF rep _ _ new wf] same z that promote(2)
          by (auto simp: same_fields_def data_offset_def esz length_block_promote hdr_len_def)
        then show ?thesis
          using that same z promote unfolding run by (force simp: same_fields_def)
      qed
      show ?thesis
      proof (cases "16 + 4 * length cs + (extensions_size p + length es + 2 + len) \<le> buf_cap p")
        case True
        then show ?thesis by (rule fit)
      next
        case False
        then show ?thesis using promote z by (simp add: run room esz add.assoc)
      qed
    next
      case empty
      then show ?thesis
        using wf_ext_required [of i len "\<not> two_byte_required i len"] assms(2-5) z
        by (intro append [of "\<not> two_byte_required i len"]) (simp_all add: run)
    next
      case same
      then show ?thesis
        using wf_ext_required [of i len one] assms(2-5) z
        by (intro append [of one]) (auto simp: run)
    qed
  qed
qed

end
