(* ===== verification/Rtp_Packet_Interface.thy ===== *)
theory Rtp_Packet_Interface
  imports Rtp_Packet_Build
begin

text \<open>
  What a program that builds packets through the interface of \<open>RtpPacket\<close> relies on: no call writes outside the
  buffer, parsing gives the packet back, an extension that was set is found, and removing one keeps
  the others. The packets are those of \<open>built_packet\<close>, the closure of the interface's calls.
\<close>

subsection \<open>Parsing what was built\<close>

lemma get_u8_load: "k < n \<Longrightarrow> get_u8 (load 0 n m) k = Some (m k)"
  by (simp add: get_u8_Some)

lemma fetch_load: "k + w \<le> n \<Longrightarrow> fetch w f (load 0 n m) k = Some (f (load k w m))"
proof -
  assume "k + w \<le> n"
  then have "take w (drop k (load 0 n m)) = load k w m"
    by (intro nth_equalityI) auto
  then show ?thesis using \<open>k + w \<le> n\<close> by (simp add: fetch_Some)
qed

lemma one_byte_header_all: "\<forall>i \<in> set [1..<15]. \<forall>l \<in> set [0..<16].
    let b = push_bit 4 (of_nat i) OR of_nat l :: byte in b \<noteq> 0 \<and> unat (drop_bit 4 b) = i \<and> unat (b AND 0xf) = l"
  by code_simp

lemma elem_header_load:
  assumes "wf_ext one i len" and "load pos (hdr_len one) m = elem_hdr one i len" and "pos + hdr_len one \<le> n"
  shows "elem_header (load 0 n m) one pos = Some (i, len)" and "m pos \<noteq> 0"
proof -
  have "elem_header (load 0 n m) one pos = Some (i, len) \<and> m pos \<noteq> 0"
  proof (cases one)
    case True
    have b: "m pos = push_bit 4 (of_nat i) OR of_nat (len - 1)"
      using load_Cons_nth [of pos "hdr_len one" m] assms(2) True by (simp add: elem_hdr_def)
    have "i \<in> set [1..<15]" "len - 1 \<in> set [0..<16]" "1 \<le> len"
      using assms(1) True by (auto simp: wf_ext_def)
    with one_byte_header_all have "m pos \<noteq> 0 \<and> unat (drop_bit 4 (m pos)) = i \<and> unat (m pos AND 0xf) = len - 1"
      unfolding b Let_def by blast
    then show ?thesis
      using True assms(3) \<open>1 \<le> len\<close> by (simp add: elem_header_def get_u8_load hdr_len_def)
  next
    case False
    have l: "load pos (1 + 1) m = [of_nat i] @ [of_nat len]"
      using assms(2) False by (simp add: hdr_len_def elem_hdr_def numeral_2_eq_2)
    have b: "m pos = of_nat i" "m (pos + 1) = of_nat len"
      using load_Cons_nth [of pos "1 + 1" m] load_Cons_nth [of "pos + 1" 1 m] l load_suffix [OF l] by auto
    have "unat (m pos) = i" "unat (m (pos + 1)) = len" "i \<noteq> 0"
      using assms(1) unfolding b by (auto simp: wf_ext_def unat_of_nat)
    then show ?thesis
      using False assms(3) by (auto simp: elem_header_def get_u8_load hdr_len_def)
  qed
  then show "elem_header (load 0 n m) one pos = Some (i, len)" and "m pos \<noteq> 0" by auto
qed

lemma ParseExtensions_zeros:
  assumes "E + cap \<le> n" and "\<And>k. s \<le> k \<Longrightarrow> k < cap \<Longrightarrow> m (E + k) = 0"
  shows "\<exists>k. ParseExtensions (load 0 n m) one E cap s es = Some (k, es)"
  using assms(2)
proof (induction "cap - s" arbitrary: s rule: less_induct)
  case less
  show ?case
  proof (cases "s + hdr_len one < cap")
    case True
    then have "ParseExtensions (load 0 n m) one E cap s es = ParseExtensions (load 0 n m) one E cap (s + 1) es"
      using less.prems assms(1) by (intro ParseExtensions_padding) (simp_all add: get_u8_load)
    then show ?thesis using less.hyps [of "s + 1"] less.prems True by simp
  qed (simp add: ParseExtensions_end)
qed

lemma ParseExtensions_infos:
  assumes "E + cap \<le> n" and "n < 65536" and "wf_exts one es"
    and "load (E + s) (length (block one es)) m = block one es" and "s + length (block one es) \<le> cap"
    and "\<And>k. s + length (block one es) \<le> k \<Longrightarrow> k < cap \<Longrightarrow> m (E + k) = 0"
    and "info_id ` set acc \<inter> fst ` set es = {}"
  shows "\<exists>k. ParseExtensions (load 0 n m) one E cap s acc = Some (k, acc @ infos one (E + s) es)"
  using assms(3-)
proof (induction es arbitrary: s acc)
  case Nil
  then show ?case using ParseExtensions_zeros [OF assms(1), of s m one acc] by simp
next
  case (Cons e es)
  obtain i d where e: "e = (i, d)" by fastforce
  have wf: "wf_ext one i (length d)" "wf_exts one es" "i \<notin> fst ` set es"
    using Cons.prems(1) by (auto simp: wf_exts_def e)
  then have len: "1 \<le> length d" by (simp add: wf_ext_def)
  define s' where "s' = s + (hdr_len one + length d)"
  have blk: "block one (e # es) = elem_hdr one i (length d) @ d @ block one es"
    by (simp add: e elem_elem_hdr del: elem.simps)
  have l: "load (E + s) (length (block one (e # es))) m = elem_hdr one i (length d) @ d @ block one es"
    using Cons.prems(2) unfolding blk .
  have hdr: "load (E + s) (hdr_len one) m = elem_hdr one i (length d)"
    using load_prefix [OF l] by simp
  have rest: "load (E + s') (length (block one es)) m = block one es"
    using load_suffix [OF load_suffix [OF l]] by (simp add: s'_def add.assoc)
  have tot: "s + length (block one (e # es)) = s' + length (block one es)"
    unfolding blk by (simp add: s'_def)
  have lt: "s + hdr_len one < cap" "s' \<le> cap" using Cons.prems(3) len unfolding tot by (simp_all add: s'_def)
  have pos: "E + s + hdr_len one \<le> n" using lt(1) assms(1) by simp
  note h = elem_header_load [OF wf(1) hdr pos]
  have new: "set_entry i (length d) (E + s + hdr_len one) (FindOrCreateExtensionInfo i acc)
      = acc @ [\<lparr>info_id = i, info_length = length d, info_offset = E + s + hdr_len one\<rparr>]"
  proof -
    have "\<forall>x \<in> set acc. info_id x \<noteq> i" using Cons.prems(5) by (auto simp: e)
    moreover have "i < 256" using wf(1) by (simp add: wf_ext_def)
    ultimately show ?thesis
      by (auto simp: FindOrCreateExtensionInfo_def list_ex_iff set_entry_def ExtensionInfo_init_def map_idI)
  qed
  have ok: "\<not> (one \<and> (i = 15 \<or> i = 0 \<and> length d \<noteq> 1) \<or> s + hdr_len one + length d > cap)"
    using wf(1) lt(2) by (auto simp: wf_ext_def s'_def)
  have small: "\<not> 2 ^ 16 \<le> E + s + hdr_len one" using lt(1) assms(1,2) by simp
  have rd: "get_u8 (load 0 n m) (E + s) = Some (m (E + s))" using pos by (simp add: get_u8_load hdr_len_def split: if_splits)
  have step: "ParseExtensions (load 0 n m) one E cap s acc = ParseExtensions (load 0 n m) one E cap s'
      (acc @ [\<lparr>info_id = i, info_length = length d, info_offset = E + s + hdr_len one\<rparr>])"
    unfolding ParseExtensions_elem [OF lt(1) rd h(2) h(1)] new s'_def [symmetric] if_not_P [OF ok] if_not_P [OF small] ..
  have disj: "info_id ` set (acc @ [\<lparr>info_id = i, info_length = length d, info_offset = E + s + hdr_len one\<rparr>])
      \<inter> fst ` set es = {}"
    using Cons.prems(5) wf(3) by auto
  from Cons.IH [OF wf(2) rest _ _ disj] Cons.prems(3,4) show ?case
    unfolding step tot e by (simp add: s'_def add.assoc length_elem del: elem.simps)
qed

lemma rtp_rep_words:
  assumes "rtp_rep p cs one es" and "es \<noteq> []"
  defines "B \<equiv> length (block one es)"
  shows "load (14 + 4 * length cs) 2 (buf p) = put_be16 (of_nat (ext_words B))"
    and "B \<le> k \<Longrightarrow> k < 4 * ext_words B \<Longrightarrow> buf p (16 + 4 * length cs + k) = 0"
proof -
  let ?z = "replicate (4 * ext_words B - B) 0"
  have "load 0 (payload_offset p) (buf p) = (fixed_header p cs es @ csrc_bytes cs) @ (put_be16 (profile one)
      @ put_be16 (of_nat (ext_words B)) @ block one es @ ?z)"
    using assms by (simp add: rtp_rep_def ext_part_def Let_def)
  note l1 = load_suffix [OF load_suffix [OF this]]
  from load_prefix [OF l1] show "load (14 + 4 * length cs) 2 (buf p) = put_be16 (of_nat (ext_words B))"
    by (simp add: add.commute)
  have z: "load (16 + 4 * length cs + B) (4 * ext_words B - B) (buf p) = ?z"
    using load_suffix [OF load_suffix [OF l1]] by (simp add: B_def add.commute add.left_commute)
  show "buf p (16 + 4 * length cs + k) = 0" if k: "B \<le> k" "k < 4 * ext_words B"
    using arg_cong [OF z, of "\<lambda>xs. xs ! (k - B)"] k by (simp add: add.assoc)
qed

lemma rtp_rep_fields:
  assumes "rtp_rep p cs one es"
  shows "load 2 2 (buf p) = put_be16 (rtp_sequence_number p)" "load 4 4 (buf p) = put_be32 (rtp_timestamp p)"
    "load 8 4 (buf p) = put_be32 (rtp_ssrc p)"
proof -
  have l0: "load 0 12 (buf p) = [byte0 (0 < rtp_padding_size p) (es \<noteq> []) (length cs),
     byte1 (rtp_marker p) (rtp_payload_type p)] @ put_be16 (rtp_sequence_number p) @ put_be32 (rtp_timestamp p)
     @ put_be32 (rtp_ssrc p)"
    using rtp_rep_parts(1) [OF assms] by (simp add: fixed_header_def)
  note l1 = load_suffix [OF l0] note l2 = load_suffix [OF l1] note l3 = load_suffix [OF l2]
  show "load 2 2 (buf p) = put_be16 (rtp_sequence_number p)" "load 4 4 (buf p) = put_be32 (rtp_timestamp p)"
    "load 8 4 (buf p) = put_be32 (rtp_ssrc p)"
    using load_prefix [OF l1] load_prefix [OF l2] l3 by (simp_all add: eval_nat_numeral)
qed

lemma ParseExtensionBlock_rep:
  assumes "rtp_rep p cs one es" and "es \<noteq> []" and "payload_offset r = 12 + 4 * length cs"
    and "extensions_size r = 0" and "extension_entries r = []" and "n = rtp_size p"
  shows "\<exists>k. ParseExtensionBlock (load 0 n (buf p)) n r = Some (True,
    r\<lparr>extensions_size := k, extension_entries := extension_entries p, payload_offset := payload_offset p\<rparr>)"
proof -
  define E where "E = 16 + 4 * length cs"
  define W where "W = ext_words (length (block one es))"
  have off: "payload_offset p = E + 4 * W"
    using rtp_rep_offset [OF assms(1)] assms(2) by (simp add: length_ext_part E_def W_def)
  have n: "E + 4 * W \<le> n" "n < 65536"
    using assms(1,6) off by (auto simp: rtp_rep_def buffer_ok_def rtp_size_def)
  have rd: "get_be16 (load 0 n (buf p)) (12 + 4 * length cs) = Some (profile one)"
    "get_be16 (load 0 n (buf p)) (14 + 4 * length cs) = Some (of_nat W)"
    using n rtp_rep_parts(3) [OF assms(1,2)] rtp_rep_words(1) [OF assms(1,2)]
    by (simp_all add: fetch_load E_def read_write_be16 W_def)
  have W: "unat (of_nat W :: u16) = W" using n by (simp add: unat_of_nat)
  obtain k where k: "ParseExtensions (load 0 n (buf p)) one E (4 * W) 0 [] = Some (k, infos one E es)"
    using ParseExtensions_infos [of E "4 * W" n one es 0 "buf p" "[]"] n assms(1) rtp_rep_parts(4) [OF assms(1)]
      ext_words(1) [of "length (block one es)"] rtp_rep_words(2) [OF assms(1,2)]
    by (auto simp: E_def W_def rtp_rep_def)
  have known: "profile False AND kTwobyteExtensionProfileIdAppBitsFilter = kTwoByteExtensionProfileId"
    by (simp_all add: profile_def kTwoByteExtensionProfileId_def kTwobyteExtensionProfileIdAppBitsFilter_def)
  have ent: "extension_entries p = infos one E es" using assms(1) by (simp add: rtp_rep_def E_def)
  have "ParseExtensionBlock (load 0 n (buf p)) n r = Some (True,
    r\<lparr>extensions_size := k, extension_entries := infos one E es, payload_offset := E + 4 * W\<rparr>)"
    using n rd known k unfolding ParseExtensionBlock_def assms(3-5) Let_def
    by (cases one) (simp_all add: profile_neq(1,2) E_def W mult.commute add.commute)
  then show ?thesis unfolding off ent by blast
qed

text \<open>The part of a packet that does not depend on where its buffer lies.\<close>

definition header_fields :: "RtpPacket \<Rightarrow> bool \<times> byte \<times> u16 \<times> u32 \<times> u32" where
  "header_fields p = (rtp_marker p, rtp_payload_type p, rtp_sequence_number p, rtp_timestamp p, rtp_ssrc p)"

definition layout_fields :: "RtpPacket \<Rightarrow> nat \<times> nat \<times> nat \<times> ExtensionInfo list" where
  "layout_fields p = (payload_offset p, rtp_payload_size p, rtp_padding_size p, extension_entries p)"

lemma ParsePadding_rep:
  assumes "rtp_rep p cs one es" and "payload_offset r = payload_offset p" and "n = rtp_size p"
  shows "ParsePadding (load 0 n (buf p)) n (0 < rtp_padding_size p) r
    = Some (True, r\<lparr>rtp_padding_size := rtp_padding_size p, rtp_payload_size := rtp_payload_size p\<rparr>)"
proof (cases "0 < rtp_padding_size p")
  case True
  have pad: "rtp_padding_size p < 256" "load (payload_offset p + rtp_payload_size p) (rtp_padding_size p) (buf p)
       = replicate (rtp_padding_size p - 1) 0 @ [of_nat (rtp_padding_size p)]"
    using assms(1) True by (auto simp: rtp_rep_def padding_ok_def)
  have "load (n - 1) 1 (buf p) = [of_nat (rtp_padding_size p)]"
    using load_suffix [OF pad(2)] True assms(3) by (simp add: rtp_size_def)
  then have "buf p (n - 1) = of_nat (rtp_padding_size p)" by (simp add: load_def)
  then have "get_u8 (load 0 n (buf p)) (n - 1) = Some (of_nat (rtp_padding_size p))"
    using True assms(3) by (subst get_u8_load) (auto simp: rtp_size_def)
  then show ?thesis
    using True pad(1) assms(2,3) by (simp add: ParsePadding_def rtp_size_def unat_of_nat Let_def)
next
  case False
  then show ?thesis using assms(2,3) by (simp add: ParsePadding_def rtp_size_def)
qed

lemma ParseBuffer_rep:
  assumes "rtp_rep p cs one es"
  shows "\<exists>q. ParseBuffer (load 0 (rtp_size p) (buf p)) (rtp_size p) r = Some (True, q)
    \<and> header_fields q = header_fields p \<and> layout_fields q = layout_fields p
    \<and> rtp_extensions q = rtp_extensions r \<and> rtp_fault q = rtp_fault r"
proof -
  define n where "n = rtp_size p"
  have n15: "length cs \<le> 15" and pt: "unat (rtp_payload_type p) < 128" using assms by (simp_all add: rtp_rep_def)
  have off: "payload_offset p = 12 + 4 * length cs + length (ext_part one es)" by (rule rtp_rep_offset [OF assms])
  have n12: "12 + 4 * length cs \<le> n" using off by (simp add: n_def rtp_size_def)
  note b = rtp_rep_num [OF assms]
  have rd: "get_u8 (load 0 n (buf p)) 0 = Some (byte0 (0 < rtp_padding_size p) (es \<noteq> []) (length cs))"
    "get_u8 (load 0 n (buf p)) (Suc 0) = Some (byte1 (rtp_marker p) (rtp_payload_type p))"
    using b n12 get_u8_load [of 0 n "buf p"] get_u8_load [of 1 n "buf p"] by (simp_all add: get_u8_load)
  have rd': "get_be16 (load 0 n (buf p)) 2 = Some (rtp_sequence_number p)"
    "get_be32 (load 0 n (buf p)) 4 = Some (rtp_timestamp p)" "get_be32 (load 0 n (buf p)) 8 = Some (rtp_ssrc p)"
    using rtp_rep_fields [OF assms] n12 by (simp_all add: fetch_load read_write_be16 read_write_be32)
  note b0 = byte0 [OF n15, of "0 < rtp_padding_size p" "es \<noteq> []"]
  note b1 = byte1 [OF pt, of "rtp_marker p"]
  have cnt: "unat (of_nat (length cs) :: byte) = length cs" using n15 by (simp add: unat_of_nat)
  define h where "h = r\<lparr>rtp_marker := rtp_marker p, rtp_payload_type := rtp_payload_type p,
    rtp_sequence_number := rtp_sequence_number p, rtp_timestamp := rtp_timestamp p, rtp_ssrc := rtp_ssrc p,
    payload_offset := 12 + 4 * length cs, extensions_size := 0, extension_entries := []\<rparr>"
  have run: "ParseBuffer (load 0 n (buf p)) n r = do {
      (ok, q) \<leftarrow> (if es \<noteq> [] then ParseExtensionBlock (load 0 n (buf p)) n h else Some (True, h));
      if \<not> ok then Some (False, q) else ParsePadding (load 0 n (buf p)) n (0 < rtp_padding_size p) q }"
    using n12 rd rd' b0 b1 cnt
    by (simp add: ParseBuffer_def kFixedHeaderSize_def kRtpVersion_def Let_def h_def mult.commute)
  obtain k where blk: "(if es \<noteq> [] then ParseExtensionBlock (load 0 n (buf p)) n h else Some (True, h)) = Some (True,
      h\<lparr>extensions_size := k, extension_entries := extension_entries p, payload_offset := payload_offset p\<rparr>)"
  proof (cases "es = []")
    case True
    then have "extension_entries p = []" "payload_offset p = 12 + 4 * length cs"
      using assms off by (simp_all add: rtp_rep_def length_ext_part)
    with True show ?thesis by (intro that [of 0]) (simp add: h_def)
  next
    case False
    then show ?thesis
      using ParseExtensionBlock_rep [OF assms False, of h n] that by (auto simp: h_def n_def)
  qed
  show ?thesis
    unfolding n_def [symmetric] run blk using ParsePadding_rep [OF assms _ n_def]
    by (simp add: header_fields_def layout_fields_def h_def)
qed

subsection \<open>Extensions by type\<close>

lemma map_inv_le: "map_inv m \<Longrightarrow> GetId t m \<le> 255"
  by (auto simp: map_inv_def GetId_def)

lemma map_of_split: "distinct (map fst (as @ (i, d) # bs)) \<Longrightarrow> map_of (as @ (i, d) # bs) i = Some d"
  by (induction as) auto

text \<open>The packet as a map from ids to the bytes of the extension.\<close>

lemma FindExtensionInfo_rep:
  assumes "rtp_rep p cs one es"
  shows "map_option (\<lambda>e. load (info_offset e) (info_length e) (buf p)) (FindExtensionInfo i p) = map_of es i"
proof (cases "i \<in> fst ` set es")
  case True
  then obtain as d bs where es: "es = as @ (i, d) # bs" by (metis imageE prod.collapse split_list)
  have "distinct (map fst es)" using assms by (simp add: rtp_rep_def wf_exts_def)
  then have "map_of es i = Some d" using es map_of_split by metis
  moreover have rep: "rtp_rep p cs one (as @ (i, d) # bs)" using assms es by simp
  ultimately show ?thesis using FindExtensionInfo_Some [OF rep] rtp_rep_data [OF rep] by simp
next
  case False
  then have "map_of es i = None" by (simp add: map_of_eq_None_iff)
  then show ?thesis using FindExtensionInfo_None [OF assms False] by simp
qed

lemma FindExtension_rep:
  assumes "rtp_rep p cs one es"
  shows "FindExtension t p = (if GetId t (rtp_extensions p) = kInvalidId then []
    else case map_of es (GetId t (rtp_extensions p)) of None \<Rightarrow> [] | Some d \<Rightarrow> d)"
  using FindExtensionInfo_rep [OF assms, of "GetId t (rtp_extensions p)", symmetric]
  by (auto simp: FindExtension_def Let_def split: option.split)

text \<open>The map \<open>es\<close> holds after the one before was changed at \<open>i\<close>.\<close>

lemma map_of_replace: "distinct (map fst (as @ (i, d) # bs)) \<Longrightarrow>
    map_of (as @ (i, d') # bs) = (map_of (as @ (i, d) # bs))(i \<mapsto> d')"
  by (induction as) (auto simp: fun_eq_iff)

lemma map_of_add: "i \<notin> fst ` set es \<Longrightarrow> map_of (es @ [(i, d)]) = (map_of es)(i \<mapsto> d)"
  by (induction es) (auto simp: fun_eq_iff)

text \<open>The type is registered, the length allowed for its id, and there is room.\<close>

definition has_room :: "RTPExtensionType \<Rightarrow> nat \<Rightarrow> RtpPacket \<Rightarrow> bool" where
  "has_room t len p \<longleftrightarrow> (let i = GetId t (rtp_extensions p) in i \<noteq> kInvalidId \<and> 1 \<le> len \<and> len \<le> 255
     \<and> (extmap_allow_mixed (rtp_extensions p) \<or> i \<le> 14 \<and> len \<le> 16) \<and> raw_room i len p)"

lemma AllocateExtension_rep:
  assumes "rtp_rep p cs one es" and "map_inv (rtp_extensions p)"
  shows "AllocateExtension t len p = (None, p) \<and> \<not> has_room t len p
    \<or> (\<exists>as d bs one' q. AllocateExtension t len p = (Some (data_offset cs one' as, len), q) \<and> length d = len \<and> 1 \<le> len
         \<and> GetId t (rtp_extensions p) \<noteq> kInvalidId
         \<and> rtp_rep q cs one' (as @ (GetId t (rtp_extensions p), d) # bs) \<and> same_fields p q
         \<and> map_of (as @ (GetId t (rtp_extensions p), d) # bs) = (map_of es)(GetId t (rtp_extensions p) \<mapsto> d))"
proof -
  define i where "i = GetId t (rtp_extensions p)"
  have i: "i \<le> 255" using map_inv_le [OF assms(2)] by (simp add: i_def)
  have dist: "distinct (map fst es)" using assms(1) by (simp add: rtp_rep_def wf_exts_def)
  have refl: "same_fields p p" by (simp add: same_fields_def)
  show ?thesis
  proof (cases "AllocateExtension t len p = (None, p) \<and> \<not> has_room t len p")
    case False
    define allowed where "allowed \<longleftrightarrow> i \<noteq> kInvalidId \<and> 1 \<le> len \<and> len \<le> 255
      \<and> (extmap_allow_mixed (rtp_extensions p) \<or> i \<le> 14 \<and> len \<le> 16)"
    have "AllocateExtension t len p = (if allowed then AllocateRawExtension i len p else (None, p))"
      by (auto simp: AllocateExtension_def i_def allowed_def Let_def kMaxValueSize_def kOneByteHeaderExtensionMaxId_def
          kOneByteHeaderExtensionMaxValueSize_def)
    moreover have "has_room t len p \<longleftrightarrow> allowed \<and> raw_room i len p"
      by (simp add: has_room_def allowed_def i_def Let_def)
    ultimately have allowed and run: "AllocateExtension t len p = AllocateRawExtension i len p"
      and room: "has_room t len p \<longleftrightarrow> raw_room i len p" using False by (simp_all split: if_splits)
    then have len: "1 \<le> len" "len \<le> 255" and i0: "i \<noteq> kInvalidId"
      and mixed: "two_byte_required i len \<longrightarrow> extmap_allow_mixed (rtp_extensions p)"
      unfolding allowed_def two_byte_required_def by auto
    have "1 \<le> i" using i0 by (simp add: kInvalidId_def)
    note alloc = AllocateRawExtension_rep [OF assms(1) this i len mixed]
    then show ?thesis
    proof (elim disjE exE conjE)
      fix as d bs
      assume a: "es = as @ (i, d) # bs" "length d = len"
        "AllocateRawExtension i len p = (Some (data_offset cs one as, len), p)"
      then have "map_of (as @ (i, d) # bs) = (map_of es)(i \<mapsto> d)"
        using map_of_replace [of as i d bs d] dist by simp
      moreover have "rtp_rep p cs one (as @ (i, d) # bs)" using assms(1) a(1) by simp
      ultimately show ?thesis
        using run a(2,3) len(1) i0 refl unfolding i_def
        by (intro disjI2 exI [of _ as] exI [of _ d] exI [of _ bs] exI [of _ one] exI [of _ p]) simp
    next
      fix one' d q
      assume a: "AllocateRawExtension i len p = (Some (data_offset cs one' es, len), q)" "length d = len"
        "rtp_rep q cs one' (es @ [(i, d)])" "same_fields p q"
      then have "i \<notin> fst ` set es" by (auto simp: rtp_rep_def wf_exts_def)
      with map_of_add [of i es d] a run len(1) i0 show ?thesis unfolding i_def
        by (intro disjI2 exI [of _ es] exI [of _ d] exI [of _ "[]"] exI [of _ one'] exI [of _ q]) simp
    qed (use False run room in simp)
  qed simp
qed

lemma rtp_rep_write:
  assumes "rtp_rep p cs one (as @ (i, d) # bs)" and "length d' = length d"
  shows "rtp_rep (WriteAt (data_offset cs one as) d' p) cs one (as @ (i, d') # bs)"
  by (rule rtp_rep_write_ext [OF assms]) (simp add: data_offset_def)

text \<open>The writer does its work in a view of the given size and stays in it.\<close>

definition writes :: "nat \<Rightarrow> (byte list \<Rightarrow> (bool \<times> byte list) option) \<Rightarrow> bool" where
  "writes n Write \<longleftrightarrow> (\<forall>bs. length bs = n \<longrightarrow> (\<exists>ok bs'. Write bs = Some (ok, bs') \<and> length bs' = n))"

lemma writes_zero: "writes n (\<lambda>bs. Some (True, replicate (length bs) 0))"
  by (auto simp: writes_def)

lemma writesE:
  assumes "writes n Write" and "length bs = n"
  obtains ok bs' where "Write bs = Some (ok, bs')" and "length bs' = n"
  using assms by (auto simp: writes_def)

lemma SetExtension_rep:
  assumes "rtp_rep p cs one es" and "map_inv (rtp_extensions p)" and "writes n Write"
  shows "SetExtension t n Write p = (False, p) \<and> \<not> has_room t n p
    \<or> (\<exists>q one' es' bs ok bs'. SetExtension t n Write p = (ok, q) \<and> length bs = n \<and> 1 \<le> n \<and> Write bs = Some (ok, bs')
         \<and> GetId t (rtp_extensions p) \<noteq> kInvalidId \<and> rtp_rep q cs one' es' \<and> same_fields p q
         \<and> map_of es' = (map_of es)(GetId t (rtp_extensions p) \<mapsto> bs'))"
  using AllocateExtension_rep [OF assms(1,2), of t n]
proof (elim disjE exE conjE)
  assume "AllocateExtension t n p = (None, p)" "\<not> has_room t n p"
  then show ?thesis by (simp add: SetExtension_def)
next
  fix as d bs one' q
  define i where "i = GetId t (rtp_extensions p)"
  assume a: "AllocateExtension t n p = (Some (data_offset cs one' as, n), q)" "length d = n" "1 \<le> n"
    "GetId t (rtp_extensions p) \<noteq> kInvalidId" "rtp_rep q cs one' (as @ (GetId t (rtp_extensions p), d) # bs)"
    "same_fields p q" "map_of (as @ (GetId t (rtp_extensions p), d) # bs) = (map_of es)(GetId t (rtp_extensions p) \<mapsto> d)"
  note a' = a(5,7) [folded i_def]
  obtain ok d' where w: "Write d = Some (ok, d')" "length d' = n" using assms(3) a(2) by (rule writesE)
  define q' where "q' = WriteAt (data_offset cs one' as) d' q"
  have run: "SetExtension t n Write p = (ok, q')"
    using a(1-3) rtp_rep_data [OF a(5)] w(1) by (simp add: SetExtension_def q'_def)
  have rep: "rtp_rep q' cs one' (as @ (i, d') # bs)"
    using rtp_rep_write [OF a'(1)] w(2) a(2) by (simp add: q'_def)
  moreover have "map_of (as @ (i, d') # bs) = (map_of es)(i \<mapsto> d')"
    using map_of_replace [of as i d bs d'] a' by (simp add: rtp_rep_def wf_exts_def)
  moreover have "same_fields p q'" using a(6) by (simp add: same_fields_def q'_def)
  ultimately show ?thesis
    using run a(2-4) w(1) unfolding i_def
    by (intro disjI2 exI [of _ q'] exI [of _ one'] exI [of _ "as @ (i, d') # bs"] exI [of _ d] exI [of _ ok]
        exI [of _ d']) (simp add: i_def)
qed

lemma store_within: "store (off + k) bs m = store off (load off k m @ bs) m"
  by (rule ext) (auto simp: store_def nth_append)

lemma ZeroExtension_rep:
  assumes "rtp_rep p cs one (as @ (i, d) # bs)"
  shows "\<exists>d'. length d' = length d
    \<and> rtp_rep (ZeroExtension \<lparr>info_id = i, info_length = length d, info_offset = data_offset cs one as\<rparr> p) cs one (as @ (i, d') # bs)"
proof -
  have part: "WriteAt (data_offset cs one as + k) xs p = WriteAt (data_offset cs one as) (take k d @ xs) p"
    if "k + length xs = length d" for k xs
  proof -
    have "load (data_offset cs one as) k (buf p) = take k d"
      using load_take [of k "length d" "data_offset cs one as" "buf p"] rtp_rep_data [OF assms] that by simp
    moreover have "length (take k d @ xs) = k + length xs" using that by simp
    ultimately show ?thesis by (simp add: WriteAt_def store_within add.assoc del: length_append length_take)
  qed
  note w = rtp_rep_write [OF assms]
  let ?e = "\<lparr>info_id = i, info_length = length d, info_offset = data_offset cs one as\<rparr>"
  let ?k = kPacerExitDeltaOffset
  have "ZeroExtension ?e p = p \<or> ZeroExtension ?e p = WriteAt (data_offset cs one as) (replicate (length d) 0) p
    \<or> ?k < length d \<and> ZeroExtension ?e p = WriteAt (data_offset cs one as + ?k) (replicate (length d - ?k) 0) p"
    by (cases "GetType (int i) (rtp_extensions p)")
      (simp_all only: ZeroExtension_def RTPExtensionType.case ExtensionInfo.select_convs, auto)
  then consider "ZeroExtension ?e p = p" | "ZeroExtension ?e p = WriteAt (data_offset cs one as) (replicate (length d) 0) p"
    | "?k < length d" "ZeroExtension ?e p = WriteAt (data_offset cs one as + ?k) (replicate (length d - ?k) 0) p"
    by blast
  then show ?thesis
  proof cases
    case 1
    show ?thesis unfolding 1 using assms by blast
  next
    case 2
    show ?thesis unfolding 2 using w [of "replicate (length d) 0"] by (meson length_replicate)
  next
    case 3
    have len: "length (take ?k d @ replicate (length d - ?k) 0) = length d" using 3(1) by simp
    have k: "?k + length (replicate (length d - ?k) (0 :: byte)) = length d" using 3(1) by simp
    show ?thesis unfolding 3(2) part [OF k] using w [OF len] len by blast
  qed
qed

lemma infos_split:
  "e \<in> set (infos one off es) \<Longrightarrow> \<exists>as i d bs. es = as @ (i, d) # bs
    \<and> e = \<lparr>info_id = i, info_length = length d, info_offset = off + length (block one as) + hdr_len one\<rparr>"
proof (induction one off es rule: infos.induct)
  case (2 one off i d es)
  show ?case
  proof (cases "e \<in> set (infos one (off + hdr_len one + length d) es)")
    case True
    with 2(1) obtain as j x bs where *: "es = as @ (j, x) # bs"
      "e = \<lparr>info_id = j, info_length = length x, info_offset = off + hdr_len one + length d + length (block one as) + hdr_len one\<rparr>"
      by blast
    then show ?thesis
      by (intro exI [of _ "(i, d) # as"] exI [of _ j] exI [of _ x] exI [of _ bs]) (simp add: length_elem add_ac del: elem.simps)
  next
    case False
    then show ?thesis using 2(2) by (intro exI [of _ "[]"] exI [of _ i] exI [of _ d] exI [of _ es]) auto
  qed
qed simp

lemma ZeroMutableExtensions_fold:
  assumes "rtp_rep p cs one es" and "set xs \<subseteq> set (infos one (16 + 4 * length cs) es)"
  shows "\<exists>es'. rtp_rep (fold ZeroExtension xs p) cs one es'"
  using assms
proof (induction xs arbitrary: p es)
  case (Cons x xs)
  then obtain as i d bs where x: "es = as @ (i, d) # bs"
      "x = \<lparr>info_id = i, info_length = length d, info_offset = data_offset cs one as\<rparr>"
    using infos_split [of x one "16 + 4 * length cs" es] by (auto simp: data_offset_def)
  obtain d' where d': "length d' = length d" "rtp_rep (ZeroExtension x p) cs one (as @ (i, d') # bs)"
    using ZeroExtension_rep [of p cs one as i d bs] Cons.prems(1) x by blast
  have "infos one (16 + 4 * length cs) (as @ (i, d') # bs) = infos one (16 + 4 * length cs) es"
    using d'(1) x(1) by (simp add: infos_append)
  with Cons.IH [OF d'(2)] Cons.prems(2) show ?case by simp
qed auto

lemma ZeroExtension_map [simp]: "rtp_extensions (ZeroExtension x p) = rtp_extensions p"
  by (simp add: ZeroExtension_def split: RTPExtensionType.split)

lemma ZeroMutableExtensions_rep:
  assumes "rtp_rep p cs one es"
  shows "\<exists>es'. rtp_rep (ZeroMutableExtensions p) cs one es'"
    and "rtp_extensions (ZeroMutableExtensions p) = rtp_extensions p"
proof -
  show "\<exists>es'. rtp_rep (ZeroMutableExtensions p) cs one es'"
    unfolding ZeroMutableExtensions_def using assms
    by (intro ZeroMutableExtensions_fold [OF assms]) (simp add: rtp_rep_def)
  have "rtp_extensions (fold ZeroExtension xs p) = rtp_extensions p" for xs
    by (induction xs arbitrary: p) simp_all
  then show "rtp_extensions (ZeroMutableExtensions p) = rtp_extensions p" by (simp add: ZeroMutableExtensions_def)
qed

lemma ReserveExtension_eq:
  assumes "rtp_rep p cs one es" and "map_inv (rtp_extensions p)"
  shows "ReserveExtension t n p = SetExtension t n (\<lambda>bs. Some (True, replicate (length bs) 0)) p"
  using AllocateExtension_rep [OF assms, of t n]
proof (elim disjE exE conjE)
  fix as d bs one' q
  assume "AllocateExtension t n p = (Some (data_offset cs one' as, n), q)"
  then show ?thesis by (simp add: ReserveExtension_def SetExtension_def)
qed (simp add: ReserveExtension_def SetExtension_def)

lemma SetExtension_ok:
  assumes "rtp_rep p cs one es" and "map_inv (rtp_extensions p)" and "writes n Write"
  shows "\<exists>cs one es. rtp_rep (snd (SetExtension t n Write p)) cs one es"
    and "map_inv (rtp_extensions (snd (SetExtension t n Write p)))"
  using SetExtension_rep [OF assms, of t] assms(1,2) unfolding same_fields_def
  by (metis snd_conv, metis snd_conv)

lemma setters_map [simp]:
  "rtp_extensions (SetMarker b p) = rtp_extensions p" "rtp_extensions (SetPayloadType pt p) = rtp_extensions p"
  "rtp_extensions (SetSequenceNumber seq p) = rtp_extensions p" "rtp_extensions (SetTimestamp ts p) = rtp_extensions p"
  "rtp_extensions (SetSsrc ss p) = rtp_extensions p" "rtp_extensions (snd (SetPayloadSize n p)) = rtp_extensions p"
  "rtp_extensions (snd (SetPadding n p)) = rtp_extensions p" "rtp_extensions (RtpPacket_init exts capacity m) = exts"
  by (simp_all add: SetMarker_def SetPayloadType_def SetSequenceNumber_def SetTimestamp_def SetSsrc_def Let_def
      SetPayloadSize_def SetPadding_def RtpPacket_init_def rtp_Clear_def)

lemma SetCsrcs_map [simp]: "rtp_extensions (SetCsrcs cs p) = rtp_extensions p"
proof -
  have "rtp_extensions (fst (fold (\<lambda>csrc (p, off). (WriteAt off (put_be32 csrc) p, off + 4)) cs r)) = rtp_extensions (fst r)" for r
    by (induction cs arbitrary: r) (simp_all split: prod.split)
  from this [of "(WriteAt 0 [(buf p 0 AND 0xF0) OR of_nat (length cs)] (p\<lparr>payload_offset := kFixedHeaderSize + 4 * length cs\<rparr>), kFixedHeaderSize)"]
  show ?thesis by (auto simp: SetCsrcs_def Let_def split: prod.split)
qed

lemma rtp_rep_identify: "rtp_rep p cs one es \<Longrightarrow> rtp_rep (IdentifyExtensions exts p) cs one es"
  by (simp add: IdentifyExtensions_def rtp_rep_def fixed_header_def padding_ok_def buffer_ok_def rtp_size_def)

lemma rtp_Clear_eq: "\<not> rtp_fault p \<Longrightarrow> rtp_Clear p = RtpPacket_init (rtp_extensions p) (buf_cap p) (buf p)"
  by (simp add: RtpPacket_init_def rtp_Clear_def Let_def WriteAt_def)

lemma rtp_rep_Clear:
  assumes "rtp_rep p cs one es"
  shows "rtp_rep (rtp_Clear p) [] True []" "rtp_extensions (rtp_Clear p) = rtp_extensions p"
proof -
  have b: "12 \<le> buf_cap p" "4 dvd buf_cap p" "buf_cap p < 65536" "\<not> rtp_fault p"
    using assms rtp_rep_offset[OF assms] by (auto simp: rtp_rep_def buffer_ok_def rtp_size_def)
  then show "rtp_rep (rtp_Clear p) [] True []" "rtp_extensions (rtp_Clear p) = rtp_extensions p"
    by (simp_all add: rtp_Clear_eq rtp_rep_init)
qed

lemma rtp_rep_CopyHeaderFrom:
  assumes "rtp_rep packet cs one es" "rtp_padding_size packet = 0" "\<not> rtp_fault p"
  shows "rtp_rep (CopyHeaderFrom packet p) cs one es" "rtp_extensions (CopyHeaderFrom packet p) = rtp_extensions packet"
  using assms by (auto simp: rtp_rep_def CopyHeaderFrom_def fixed_header_def padding_ok_def buffer_ok_def rtp_size_def)

subsection \<open>Removing an extension\<close>

text \<open>
  Copying the extensions \<open>es\<close> of a packet to a new one that holds \<open>kept\<close> leaves there all of them
  but the one to remove, when the new packet has room for them.
\<close>

lemma CopyExtensions_rep:
  assumes "rtp_rep p cs one (es0 @ es)" and "rtp_rep r [] one' kept"
    and "rtp_payload_size r = 0" and "rtp_padding_size r = 0" and "fst ` set kept \<subseteq> fst ` set es0"
    and "\<forall>(i, d) \<in> set es. two_byte_required i (length d) \<longrightarrow> extmap_allow_mixed (rtp_extensions r)"
    and "\<And>x. 16 + length (block x kept) + length (block False es) + length kept + length es \<le> buf_cap r"
  shows "\<exists>r' one''. CopyExtensions i p (infos one (16 + 4 * length cs + length (block one es0)) es) found r
      = Inr (found \<or> i \<in> fst ` set es, r')
    \<and> rtp_rep r' [] one'' (kept @ filter (\<lambda>e. fst e \<noteq> i) es) \<and> same_fields r r'"
  using assms
proof (induction es arbitrary: es0 kept r one' found)
  case Nil
  then show ?case by (auto simp: same_fields_def)
next
  case (Cons e es)
  obtain j d where e: "e = (j, d)" by fastforce
  let ?off = "16 + 4 * length cs + length (block one es0)"
  have rep: "rtp_rep p cs one (es0 @ (j, d) # es)" using Cons.prems(1) by (simp add: e)
  have info: "infos one ?off (e # es) = \<lparr>info_id = j, info_length = length d, info_offset = data_offset cs one es0\<rparr>
      # infos one (16 + 4 * length cs + length (block one (es0 @ [e]))) es"
    by (simp add: e data_offset_def length_elem add.assoc del: elem.simps)
  have fits: "16 + length (block x kept) + 2 + length d + length kept + length (block False es) + length es + 1 \<le> buf_cap r" for x
    using Cons.prems(7) [of x] by (simp add: e length_elem hdr_len_def del: elem.simps)
  show ?case
  proof (cases "j = i")
    case True
    have le: "16 + length (block x kept) + length (block False es) + length kept + length es \<le> buf_cap r" for x
      using fits [of x] by simp
    have "\<exists>r' one''. CopyExtensions i p (infos one (16 + 4 * length cs + length (block one (es0 @ [e]))) es) True r
        = Inr (True \<or> i \<in> fst ` set es, r') \<and> rtp_rep r' [] one'' (kept @ filter (\<lambda>e. fst e \<noteq> i) es) \<and> same_fields r r'"
      using Cons.prems(2-6) rep e by (intro Cons.IH le) auto
    then show ?thesis unfolding info using True e by simp
  next
    case False
    have wf: "wf_exts one (es0 @ (j, d) # es)" using rep by (simp add: rtp_rep_def)
    have j: "1 \<le> j" "j \<le> 255" "1 \<le> length d" "length d \<le> 255" and new: "j \<notin> fst ` set kept"
      using wf Cons.prems(5) by (auto simp: wf_exts_def wf_ext_def)
    have "two_byte_required j (length d) \<longrightarrow> extmap_allow_mixed (rtp_extensions r)" using Cons.prems(6) e by auto
    note alloc = AllocateRawExtension_rep [OF Cons.prems(2) j this]
    have "raw_room j (length d) r"
      using FindExtensionInfo_None [OF Cons.prems(2) new] Cons.prems(2-4) rtp_rep_start [OF Cons.prems(2)] fits [of one']
      by (simp add: raw_room_def rtp_rep_def)
    with alloc new obtain one2 d2 r2 where a: "AllocateRawExtension j (length d) r = (Some (data_offset [] one2 kept, length d), r2)"
      "length d2 = length d" "rtp_rep r2 [] one2 (kept @ [(j, d2)])" "same_fields r r2" by force
    define r3 where "r3 = WriteAt (data_offset [] one2 kept) d r2"
    have r3: "rtp_rep r3 [] one2 (kept @ [(j, d)])" "same_fields r r3"
      using rtp_rep_write [of r2 "[]" one2 kept j d2 "[]" d] a by (simp_all add: r3_def same_fields_def)
    have step: "CopyExtensions i p (infos one ?off (e # es)) found r
        = CopyExtensions i p (infos one (16 + 4 * length cs + length (block one (es0 @ [e]))) es) found r3"
      unfolding info using False a(1) rtp_rep_data [OF rep] by (simp add: r3_def)
    have "\<exists>r' one''. CopyExtensions i p (infos one (16 + 4 * length cs + length (block one (es0 @ [e]))) es) found r3
        = Inr (found \<or> i \<in> fst ` set es, r')
        \<and> rtp_rep r' [] one'' ((kept @ [(j, d)]) @ filter (\<lambda>e. fst e \<noteq> i) es) \<and> same_fields r3 r'"
    proof (rule Cons.IH)
      show "rtp_rep p cs one ((es0 @ [e]) @ es)" using rep e by simp
      show "rtp_rep r3 [] one2 (kept @ [(j, d)])" by (rule r3(1))
      show "rtp_payload_size r3 = 0" "rtp_padding_size r3 = 0" using Cons.prems(3,4) r3(2) by (simp_all add: same_fields_def)
      show "fst ` set (kept @ [(j, d)]) \<subseteq> fst ` set (es0 @ [e])" using Cons.prems(5) e by auto
      show "\<forall>(i, d) \<in> set es. two_byte_required i (length d) \<longrightarrow> extmap_allow_mixed (rtp_extensions r3)"
        using Cons.prems(6) r3(2) by (auto simp: same_fields_def)
      show "16 + length (block x (kept @ [(j, d)])) + length (block False es) + length (kept @ [(j, d)]) + length es \<le> buf_cap r3" for x
        using fits [of x] r3(2) by (cases x) (simp_all add: same_fields_def length_elem hdr_len_def del: elem.simps)
    qed
    then show ?thesis
      unfolding step using r3(2) False e by (auto simp: same_fields_def)
  qed
qed

lemma header_setters:
  "header_fields (SetSsrc ss (SetTimestamp ts (SetSequenceNumber seq (SetPayloadType pt (SetMarker b r)))))
    = (b, pt, seq, ts, ss)"
  "rtp_payload_size (SetSsrc ss (SetTimestamp ts (SetSequenceNumber seq (SetPayloadType pt (SetMarker b r))))) = rtp_payload_size r"
  "rtp_padding_size (SetSsrc ss (SetTimestamp ts (SetSequenceNumber seq (SetPayloadType pt (SetMarker b r))))) = rtp_padding_size r"
  "buf_cap (SetSsrc ss (SetTimestamp ts (SetSequenceNumber seq (SetPayloadType pt (SetMarker b r))))) = buf_cap r"
  by (simp_all add: header_fields_def SetMarker_def SetPayloadType_def SetSequenceNumber_def SetTimestamp_def SetSsrc_def Let_def)

lemma header_fields_same: "same_fields p q \<Longrightarrow> header_fields q = header_fields p"
  by (simp add: same_fields_def header_fields_def)

lemma map_of_filter_id: "map_of (filter (\<lambda>e. fst e \<noteq> i) es) = (map_of es)(i := None)"
  by (induction es) (auto simp: fun_eq_iff)

lemma AllocatePayload_rep:
  assumes "rtp_rep p cs one es" and "rtp_padding_size p = 0" and "payload_offset p + n \<le> buf_cap p"
  shows "AllocatePayload n p = (Some (payload_offset p), p\<lparr>rtp_payload_size := n, buf_size := payload_offset p + n\<rparr>)"
    and "rtp_rep (p\<lparr>rtp_payload_size := n, buf_size := payload_offset p + n\<rparr>) cs one es"
proof -
  have "payload_offset p \<le> buf_cap p" using assms(3) by simp
  then show "AllocatePayload n p = (Some (payload_offset p), p\<lparr>rtp_payload_size := n, buf_size := payload_offset p + n\<rparr>)"
    using assms(3) by (simp add: AllocatePayload_def SetPayloadSize_def)
  show "rtp_rep (p\<lparr>rtp_payload_size := n, buf_size := payload_offset p + n\<rparr>) cs one es"
    using rtp_rep_SetPayloadSize [OF assms(1,2), of n] assms(3) by (simp add: SetPayloadSize_def)
qed

lemma SetPadding_fields:
  assumes "rtp_rep p cs one es" and "n < 256" and "payload_offset p + rtp_payload_size p + n \<le> buf_cap p"
  defines "q \<equiv> snd (SetPadding n p)"
  shows "rtp_padding_size q = n" "header_fields q = header_fields p" "rtp_payload_size q = rtp_payload_size p"
    "payload_offset q = payload_offset p" "rtp_extensions q = rtp_extensions p"
    "load (payload_offset p) (rtp_payload_size p) (buf q) = load (payload_offset p) (rtp_payload_size p) (buf p)"
proof -
  have off: "12 \<le> payload_offset p" using rtp_rep_offset [OF assms(1)] by simp
  show "rtp_padding_size q = n" "header_fields q = header_fields p" "rtp_payload_size q = rtp_payload_size p"
    "payload_offset q = payload_offset p" "rtp_extensions q = rtp_extensions p"
    using assms(2,3) by (simp_all add: q_def SetPadding_def header_fields_def Let_def)
  show "load (payload_offset p) (rtp_payload_size p) (buf q) = load (payload_offset p) (rtp_payload_size p) (buf p)"
    using assms(2,3) off by (auto simp: q_def SetPadding_def Let_def load_store_other)
qed

lemma rtp_rep_bounds:
  assumes "rtp_rep p cs one es"
  shows "payload_offset p \<le> 19 + 4 * length cs + length (block one es)"
    and "es \<noteq> [] \<Longrightarrow> 16 + 4 * length cs + length (block one es) \<le> payload_offset p"
  using rtp_rep_offset [OF assms] ext_words [of "length (block one es)"] by (auto simp: length_ext_part)

lemma length_block_le: "length (block one es) \<le> length (block False es)" "length (block False es) \<le> length (block one es) + length es"
  by (cases one; simp add: length_block hdr_len_def)+

lemma length_block_filter: "length (block one (filter P es)) \<le> length (block one es)"
  by (induction es) auto

lemma RemoveExtension_rep:
  assumes rep: "rtp_rep p cs one es" and inv: "map_inv (rtp_extensions p)" and has: "HasExtension t p"
    and mixed: "\<forall>e \<in> set (extension_entries p). info_id e \<le> 14 \<and> info_length e \<le> 16 \<or> extmap_allow_mixed (rtp_extensions p)"
    and size: "rtp_size p + 2 * length (extension_entries p) + 4 \<le> kDefaultPacketSize"
  shows "\<exists>q one'. RemoveExtension m t p = (True, q)
    \<and> rtp_rep q [] one' (filter (\<lambda>e. fst e \<noteq> GetId t (rtp_extensions p)) es) \<and> header_fields q = header_fields p
    \<and> rtp_payload_size q = rtp_payload_size p \<and> rtp_padding_size q = rtp_padding_size p \<and> rtp_extensions q = rtp_extensions p
    \<and> load (payload_offset q) (rtp_payload_size q) (buf q) = load (payload_offset p) (rtp_payload_size p) (buf p)"
proof -
  define i where "i = GetId t (rtp_extensions p)"
  let ?kept = "filter (\<lambda>e. fst e \<noteq> i) es"
  have ent: "extension_entries p = infos one (16 + 4 * length cs) es" and pt: "unat (rtp_payload_type p) < 128"
    using rep by (simp_all add: rtp_rep_def)
  have i: "i \<noteq> kInvalidId" "i \<in> fst ` set es"
    using has FindExtensionInfo_None [OF rep, of i] by (auto simp: HasExtension_def i_def Let_def split: if_splits)
  then have "es \<noteq> []" by auto
  have cap: "16 + 4 * length cs + length (block one es) + 2 * length es + rtp_payload_size p + rtp_padding_size p + 4 \<le> 1500"
    using rtp_rep_bounds(2) [OF rep \<open>es \<noteq> []\<close>] size by (simp add: rtp_size_def ent kDefaultPacketSize_def)
  define h where "h = SetSsrc (rtp_ssrc p) (SetTimestamp (rtp_timestamp p) (SetSequenceNumber (rtp_sequence_number p)
    (SetPayloadType (rtp_payload_type p) (SetMarker (rtp_marker p) (RtpPacket_init (RtpHeaderExtensionMap_init False) kDefaultPacketSize m)))))"
  define r where "r = IdentifyExtensions (rtp_extensions p) h"
  have r: "rtp_rep r [] True []"
    unfolding r_def h_def using pt by (intro rtp_rep_identify rtp_rep_setters rtp_rep_init) (simp_all add: kDefaultPacketSize_def)
  have "rtp_payload_size h = 0" "rtp_padding_size h = 0" "buf_cap h = 1500" "header_fields h = header_fields p"
    unfolding h_def by (simp_all only: header_setters) (simp_all add: RtpPacket_init_def rtp_Clear_def Let_def
        kDefaultPacketSize_def header_fields_def)
  then have rs: "rtp_payload_size r = 0" "rtp_padding_size r = 0" "buf_cap r = 1500" "header_fields r = header_fields p"
      "rtp_extensions r = rtp_extensions p"
    by (simp_all add: r_def IdentifyExtensions_def header_fields_def)
  have two: "\<forall>(j, d) \<in> set es. two_byte_required j (length d) \<longrightarrow> extmap_allow_mixed (rtp_extensions r)"
  proof clarify
    fix j d assume jd: "(j, d) \<in> set es" "two_byte_required j (length d)"
    then obtain as bs where "es = as @ (j, d) # bs" by (meson split_list)
    then have "\<lparr>info_id = j, info_length = length d, info_offset = data_offset cs one as\<rparr> \<in> set (extension_entries p)"
      by (simp add: ent infos_append data_offset_def)
    with mixed jd(2) rs(5) show "extmap_allow_mixed (rtp_extensions r)" by (fastforce simp: two_byte_required_def)
  qed
  have fits: "16 + length (block x []) + length (block False es) + length ([] :: (nat \<times> byte list) list) + length es \<le> buf_cap r" for x
    using cap length_block_le(2) [of es one] rs(3) by simp
  obtain n one' where n: "CopyExtensions i p (extension_entries p) False r = Inr (True, n)"
      "rtp_rep n [] one' ?kept" "same_fields r n"
    using CopyExtensions_rep [of p cs one "[]" es r True "[]" i False] rep r rs(1,2) two fits i(2) ent by auto
  define l where "l = rtp_payload_size p"
  have len: "length (block one' ?kept) \<le> length (block one es) + length es"
    using length_block_filter [of one' "\<lambda>e. fst e \<noteq> i" es] length_block_le(1) [of one' es] length_block_le(2) [of es one] by simp
  have room: "payload_offset n + l + rtp_padding_size p \<le> buf_cap n"
    using rtp_rep_bounds(1) [OF n(2)] len cap n(3) rs(3) by (simp add: same_fields_def l_def)
  have zn: "rtp_padding_size n = 0" using n(3) rs(2) by (simp add: same_fields_def)
  define n1 where "n1 = n\<lparr>rtp_payload_size := l, buf_size := payload_offset n + l\<rparr>"
  have n1: "AllocatePayload l n = (Some (payload_offset n), n1)" "rtp_rep n1 [] one' ?kept"
    using AllocatePayload_rep [OF n(2) zn, of l] room by (simp_all add: n1_def)
  define bytes where "bytes = load (payload_offset p) l (buf p)"
  define n2 where "n2 = WriteAt (payload_offset n) bytes n1"
  have n2: "rtp_rep n2 [] one' ?kept"
    unfolding n2_def by (rule rtp_rep_payload [OF n1(2)]) (simp_all add: n1_def bytes_def)
  define q where "q = snd (SetPadding (rtp_padding_size p) n2)"
  have pad: "rtp_padding_size p < 256" using rep by (simp add: rtp_rep_def padding_ok_def)
  have sel2: "payload_offset n2 = payload_offset n" "rtp_payload_size n2 = l" "buf_cap n2 = buf_cap n"
      "header_fields n2 = header_fields p" "rtp_extensions n2 = rtp_extensions p"
    using n(3) rs(4,5) by (simp_all add: n2_def n1_def same_fields_def header_fields_def)
  note q = SetPadding_fields [OF n2 pad, folded q_def]
  have run: "RemoveExtension m t p = (True, q)"
    using i(1) n(1) n1(1)
    by (simp add: RemoveExtension_def Let_def i_def [symmetric] h_def [symmetric] r_def [symmetric]
        l_def [symmetric] bytes_def [symmetric] n2_def [symmetric] q_def split: prod.split)
  have "rtp_rep q [] one' ?kept" using rtp_rep_SetPadding(1) [OF n2 pad] by (simp add: q_def)
  moreover have "load (payload_offset n2) l (buf n2) = bytes"
    by (simp add: n2_def n1_def load_store_same bytes_def)
  ultimately show ?thesis
    unfolding i_def [symmetric] using run q room sel2
    by (intro exI [of _ q] exI [of _ one']) (simp add: l_def [symmetric] bytes_def)
qed

subsection \<open>Packets built through the interface\<close>

text \<open>
  The calls by which a packet is built, each under the conditions its \<open>RTC_DCHECK\<close>s document:
  payload types have seven bits, sources come before extensions, payload and padding and there are at
  most fifteen, the payload is sized before the padding, and writers stay in the view
  they are given. Capacities are at least twelve, below 65536 and multiples of four. \<open>CopyHeaderFrom\<close> is called for a packet without padding
  (it copies the padding bit and not the padding), and \<open>RemoveExtension\<close> for a packet that has the extension and
  fits the default size with all of its extensions in the two-byte form; it is refused in a packet without the extension.
\<close>

inductive built_packet :: "RtpPacket \<Rightarrow> bool" where
  construct: "reachable_map exts \<Longrightarrow> 12 \<le> capacity \<Longrightarrow> 4 dvd capacity \<Longrightarrow> capacity < 65536 \<Longrightarrow>
    built_packet (RtpPacket_init exts capacity m)"
| identify: "built_packet p \<Longrightarrow> reachable_map exts \<Longrightarrow> built_packet (IdentifyExtensions exts p)"
| marker: "built_packet p \<Longrightarrow> built_packet (SetMarker b p)"
| payload_type: "built_packet p \<Longrightarrow> unat pt < 128 \<Longrightarrow> built_packet (SetPayloadType pt p)"
| sequence_number: "built_packet p \<Longrightarrow> built_packet (SetSequenceNumber seq p)"
| timestamp: "built_packet p \<Longrightarrow> built_packet (SetTimestamp ts p)"
| ssrc: "built_packet p \<Longrightarrow> built_packet (SetSsrc ss p)"
| csrcs: "built_packet p \<Longrightarrow> extension_entries p = [] \<Longrightarrow> rtp_payload_size p = 0 \<Longrightarrow> rtp_padding_size p = 0 \<Longrightarrow>
    length cs \<le> 15 \<Longrightarrow> 12 + 4 * length cs \<le> buf_cap p \<Longrightarrow> built_packet (SetCsrcs cs p)"
| extension: "built_packet p \<Longrightarrow> writes n Write \<Longrightarrow>
    built_packet (snd (SetExtension t n Write p))"
| reserve: "built_packet p \<Longrightarrow> built_packet (snd (ReserveExtension t n p))"
| zero: "built_packet p \<Longrightarrow> built_packet (ZeroMutableExtensions p)"
| payload_size: "built_packet p \<Longrightarrow> rtp_padding_size p = 0 \<Longrightarrow> built_packet (snd (SetPayloadSize n p))"
| payload: "built_packet p \<Longrightarrow> off + length bs \<le> rtp_payload_size p \<Longrightarrow>
    built_packet (WriteAt (payload_offset p + off) bs p)"
| clear: "built_packet p \<Longrightarrow> built_packet (rtp_Clear p)"
| copy_header: "built_packet p \<Longrightarrow> built_packet packet \<Longrightarrow> rtp_padding_size packet = 0 \<Longrightarrow> built_packet (CopyHeaderFrom packet p)"
| remove: "built_packet p \<Longrightarrow> HasExtension t p \<Longrightarrow>
    \<forall>e \<in> set (extension_entries p). info_id e \<le> 14 \<and> info_length e \<le> 16 \<or> extmap_allow_mixed (rtp_extensions p) \<Longrightarrow>
    rtp_size p + 2 * length (extension_entries p) + 4 \<le> kDefaultPacketSize \<Longrightarrow> built_packet (snd (RemoveExtension m t p))"
| padding: "built_packet p \<Longrightarrow> n < 256 \<Longrightarrow> built_packet (snd (SetPadding n p))"

lemma built_packet_ok:
  assumes "built_packet p"
  shows "map_inv (rtp_extensions p) \<and> (\<exists>cs one es. rtp_rep p cs one es)"
  using assms
proof induction
  case (construct exts capacity m)
  then show ?case using rtp_rep_init [of capacity exts m] reachable_map_inv setters_map(8) by metis
next
  case (identify p exts)
  moreover have "rtp_extensions (IdentifyExtensions exts p) = exts" by (simp add: IdentifyExtensions_def)
  ultimately show ?case using rtp_rep_identify reachable_map_inv by metis
next
  case (csrcs p cs)
  then obtain cs' one es where rep: "rtp_rep p cs' one es" by blast
  then have "infos one (16 + 4 * length cs') es = []" using csrcs.hyps(2) by (simp add: rtp_rep_def)
  then have "es = []" by simp
  then show ?case using rtp_rep_SetCsrcs [of p cs' one cs] rep csrcs by auto
next
  case (extension p Write t n)
  then show ?case using SetExtension_ok by blast
next
  case (reserve p t n)
  then obtain cs one es where rep: "rtp_rep p cs one es" and inv: "map_inv (rtp_extensions p)" by blast
  show ?case unfolding ReserveExtension_eq [OF rep inv] using SetExtension_ok [OF rep inv writes_zero] by blast
next
  case (zero p)
  then show ?case using ZeroMutableExtensions_rep by fastforce
next
  case (clear p)
  then show ?case using rtp_rep_Clear by metis
next
  case (copy_header p packet)
  then have "\<not> rtp_fault p" by (auto simp: rtp_rep_def buffer_ok_def)
  then show ?case using rtp_rep_CopyHeaderFrom copy_header by metis
next
  case (remove p t m)
  then obtain cs one es where rep: "rtp_rep p cs one es" and inv: "map_inv (rtp_extensions p)" by blast
  obtain q one' where "RemoveExtension m t p = (True, q)" "rtp_rep q [] one' (filter (\<lambda>e. fst e \<noteq> GetId t (rtp_extensions p)) es)"
      "rtp_extensions q = rtp_extensions p"
    using RemoveExtension_rep [OF rep inv remove.hyps(2-4)] by blast
  then show ?case using inv by auto
next
  case (payload p off bs)
  then show ?case using rtp_rep_payload [of p _ _ _ "payload_offset p + off" bs] by fastforce
qed (use rtp_rep_setters rtp_rep_SetPayloadSize rtp_rep_SetPadding(1) in \<open>fastforce+\<close>)

lemma Csrcs_cong:
  assumes "load 0 n (buf q) = load 0 n (buf p)" and "kFixedHeaderSize + num_csrcs p * 4 \<le> n"
  shows "Csrcs q = Csrcs p"
proof -
  have same: "buf q k = buf p k" if "k < n" for k
    using arg_cong [OF assms(1), of "\<lambda>xs. xs ! k"] that by simp
  have "num_csrcs q = num_csrcs p" using same [of 0] assms(2) by (simp add: num_csrcs_def kFixedHeaderSize_def)
  moreover have "load (kFixedHeaderSize + i * 4) 4 (buf q) = load (kFixedHeaderSize + i * 4) 4 (buf p)"
    if "i < num_csrcs p" for i
    using same assms(2) that by (intro nth_equalityI) auto
  ultimately show ?thesis by (simp add: Csrcs_def)
qed

lemma FindExtension_cong:
  assumes "load 0 n (buf q) = load 0 n (buf p)" and "extension_entries q = extension_entries p"
    and "rtp_extensions q = rtp_extensions p" and "entries_within lo n (extension_entries p)"
  shows "FindExtension t q = FindExtension t p"
proof -
  have same: "buf q k = buf p k" if "k < n" for k
    using arg_cong [OF assms(1), of "\<lambda>xs. xs ! k"] that by simp
  have "load (info_offset e) (info_length e) (buf q) = load (info_offset e) (info_length e) (buf p)"
    if "FindExtensionInfo (GetId t (rtp_extensions p)) p = Some e" for e
  proof -
    have "e \<in> set (extension_entries p)" using that by (auto simp: FindExtensionInfo_def dest: find_SomeD)
    then have "info_length e = 0 \<or> info_offset e + info_length e \<le> n"
      using assms(4) by (auto simp: entries_within_def)
    then show ?thesis using same by (intro nth_equalityI) auto
  qed
  then show ?thesis
    using assms(2,3) by (auto simp: FindExtension_def FindExtensionInfo_def Let_def split: option.split)
qed

lemma rtp_Parse_rep:
  assumes "rtp_rep p cs one es" and "rtp_extensions r = rtp_extensions p"
  shows "\<exists>q. rtp_Parse grow m (load 0 (rtp_size p) (buf p)) (rtp_size p) r = Some (True, q)
    \<and> header_fields q = header_fields p \<and> layout_fields q = layout_fields p
    \<and> load 0 (rtp_size p) (buf q) = load 0 (rtp_size p) (buf p) \<and> Csrcs q = Csrcs p
    \<and> (\<forall>t. FindExtension t q = FindExtension t p) \<and> rtp_fault q = rtp_fault r"
proof -
  let ?n = "rtp_size p" and ?bs = "load 0 (rtp_size p) (buf p)"
  obtain h where h: "ParseBuffer ?bs ?n r = Some (True, h)" "header_fields h = header_fields p"
      "layout_fields h = layout_fields p" "rtp_extensions h = rtp_extensions r" "rtp_fault h = rtp_fault r"
    using ParseBuffer_rep [OF assms(1)] by blast
  define q where "q = h\<lparr>buf := store 0 (take ?n ?bs) m, buf_cap := grow (buf_cap h) ?n, buf_size := ?n\<rparr>"
  have run: "rtp_Parse grow m ?bs ?n r = Some (True, q)" by (simp add: rtp_Parse_def h(1) q_def)
  have mem: "load 0 ?n (buf q) = load 0 ?n (buf p)" by (simp add: q_def load_store_same)
  have fields: "header_fields q = header_fields p" "layout_fields q = layout_fields p"
    using h(2,3) by (simp_all add: q_def header_fields_def layout_fields_def)
  have off: "kFixedHeaderSize + num_csrcs p * 4 \<le> ?n"
    using rtp_rep_offset [OF assms(1)] rtp_rep_num(3) [OF assms(1)]
    by (simp add: rtp_size_def kFixedHeaderSize_def)
  have "parsed_layout ?n h" using ParseBuffer_safe [of ?n ?bs r] h(1) by simp
  then have "entries_within 16 ?n (extension_entries p)"
    using h(3) by (auto simp: parsed_layout_def layout_fields_def rtp_size_def elim: entries_within_mono)
  then have "FindExtension t q = FindExtension t p" for t
    using FindExtension_cong [OF mem] fields(2) h(4) assms(2) by (simp add: layout_fields_def q_def)
  then show ?thesis
    using run mem fields Csrcs_cong [OF mem off] h(5) by (simp add: q_def)
qed

text \<open>
  C1: a packet built by the calls of \<open>built_packet\<close> (the constructor with a capacity that is at least twelve, a multiple of four and below 65536,
  \<open>IdentifyExtensions\<close>, the setters of the header fields, \<open>SetCsrcs\<close>, \<open>SetExtension\<close>, \<open>ReserveExtension\<close>, \<open>ZeroMutableExtensions\<close>, \<open>SetPayloadSize\<close>
  and writes to the payload, \<open>SetPadding\<close>, \<open>Clear\<close>, \<open>CopyHeaderFrom\<close> for a packet without padding, and \<open>RemoveExtension\<close> within the default size), in any order that respects
  the conditions their \<open>RTC_DCHECK\<close>s document, has never been written outside its buffer, and parsing the bytes it sends gives a packet with the
  same header fields, contributing sources, extensions, payload and padding.
\<close>

theorem built_packet_roundtrip:
  assumes "built_packet p" and "rtp_extensions r = rtp_extensions p"
  shows "\<not> rtp_fault p \<and> rtp_size p \<le> buf_cap p
    \<and> (\<exists>q. rtp_Parse grow m (load 0 (rtp_size p) (buf p)) (rtp_size p) r = Some (True, q)
        \<and> header_fields q = header_fields p \<and> layout_fields q = layout_fields p
        \<and> load 0 (rtp_size p) (buf q) = load 0 (rtp_size p) (buf p) \<and> Csrcs q = Csrcs p
        \<and> (\<forall>t. FindExtension t q = FindExtension t p))"
proof -
  obtain cs one es where rep: "rtp_rep p cs one es" using built_packet_ok [OF assms(1)] by blast
  then have "\<not> rtp_fault p" "rtp_size p \<le> buf_cap p" by (auto simp: rtp_rep_def buffer_ok_def)
  with rtp_Parse_rep [OF rep assms(2)] show ?thesis by blast
qed

text \<open>
  C3: a successful \<open>SetExtension\<close> makes exactly the bytes its writer left the ones
  \<open>FindExtension\<close> gives for the type, keeps the extension of every type with another id, the sources and the
  header fields; a call that is refused changes nothing, and none is refused when the type
  is registered, the length allowed and there is room.
\<close>

theorem SetExtension_lookup:
  assumes "built_packet p" and "writes n Write" and "SetExtension t n Write p = (ok, q)"
  shows "(\<not> ok \<and> q = p \<and> \<not> has_room t n p) \<or> (\<exists>bs bs'. length bs = n \<and> Write bs = Some (ok, bs') \<and> FindExtension t q = bs'
    \<and> (\<forall>t'. GetId t' (rtp_extensions p) \<noteq> GetId t (rtp_extensions p) \<longrightarrow> FindExtension t' q = FindExtension t' p)
    \<and> Csrcs q = Csrcs p \<and> header_fields q = header_fields p
    \<and> rtp_payload_size q = rtp_payload_size p \<and> rtp_padding_size q = rtp_padding_size p)"
proof -
  obtain cs one es where rep: "rtp_rep p cs one es" and inv: "map_inv (rtp_extensions p)"
    using built_packet_ok [OF assms(1)] by blast
  have cs: "Csrcs q = Csrcs p" if "rtp_rep q cs one' es'" for one' es'
  proof -
    have "load 12 (4 * length cs) (buf q) = load 12 (4 * length cs) (buf p)"
      using rtp_rep_parts(2) [OF that] rtp_rep_parts(2) [OF rep] by simp
    then have same: "buf q (12 + k) = buf p (12 + k)" if "k < 4 * length cs" for k
      using that by (metis load_nth)
    have "load (12 + i * 4) 4 (buf q) = load (12 + i * 4) 4 (buf p)" if "i < length cs" for i
      using that same by (intro nth_equalityI) (auto simp: add.assoc)
    then show ?thesis
      using rtp_rep_num(3) [OF that] rtp_rep_num(3) [OF rep] by (simp add: Csrcs_def kFixedHeaderSize_def)
  qed
  from SetExtension_rep [OF rep inv assms(2), of t] show ?thesis
  proof (elim disjE exE conjE)
    fix q' one' es' bs ok' bs'
    assume a: "SetExtension t n Write p = (ok', q')" "length bs = n" "1 \<le> n" "Write bs = Some (ok', bs')"
      "GetId t (rtp_extensions p) \<noteq> kInvalidId" "rtp_rep q' cs one' es'" "same_fields p q'"
      "map_of es' = (map_of es)(GetId t (rtp_extensions p) \<mapsto> bs')"
    then have q: "q' = q" "ok' = ok" using assms(3) by simp_all
    have f: "FindExtension t' q = (if GetId t' (rtp_extensions p) = kInvalidId then [] else
        case ((map_of es)(GetId t (rtp_extensions p) \<mapsto> bs')) (GetId t' (rtp_extensions p))
        of None \<Rightarrow> [] | Some d \<Rightarrow> d)" for t'
      using FindExtension_rep [OF a(6), of t'] a(7,8) by (simp add: q same_fields_def)
    show ?thesis
      using f a(2,4,5,7) cs a(6) FindExtension_rep [OF rep]
      by (intro disjI2 exI [of _ bs] exI [of _ bs']) (simp add: q same_fields_def header_fields_def)
  qed (use assms(3) in simp)
qed

text \<open>
  C29: from a built packet that has the extension, whose size with two more bytes for each extension and four more is within the default size of 1500,
  and all of whose extensions fit the one-byte form or which allows the two-byte form, \<open>RemoveExtension\<close> makes a packet without that extension. It
  keeps every other extension, also those whose ids are not registered, the header fields, the payload and the padding; the contributing sources are lost.
\<close>

theorem RemoveExtension_spec:
  assumes "built_packet p" and "HasExtension t p"
    and "\<forall>e \<in> set (extension_entries p). info_id e \<le> 14 \<and> info_length e \<le> 16 \<or> extmap_allow_mixed (rtp_extensions p)"
    and "rtp_size p + 2 * length (extension_entries p) + 4 \<le> kDefaultPacketSize"
  shows "\<exists>q. RemoveExtension m t p = (True, q) \<and> \<not> rtp_fault q \<and> FindExtension t q = []
    \<and> (\<forall>i. map_option (\<lambda>e. load (info_offset e) (info_length e) (buf q)) (FindExtensionInfo i q) =
        (if i = GetId t (rtp_extensions p) then None else map_option (\<lambda>e. load (info_offset e) (info_length e) (buf p)) (FindExtensionInfo i p)))
    \<and> (\<forall>t'. GetId t' (rtp_extensions p) \<noteq> GetId t (rtp_extensions p) \<longrightarrow> FindExtension t' q = FindExtension t' p)
    \<and> header_fields q = header_fields p \<and> rtp_padding_size q = rtp_padding_size p
    \<and> load (payload_offset q) (rtp_payload_size q) (buf q) = load (payload_offset p) (rtp_payload_size p) (buf p)
    \<and> Csrcs q = []"
proof -
  obtain cs one es where rep: "rtp_rep p cs one es" and inv: "map_inv (rtp_extensions p)"
    using built_packet_ok [OF assms(1)] by blast
  obtain q one' where q: "RemoveExtension m t p = (True, q)"
      "rtp_rep q [] one' (filter (\<lambda>e. fst e \<noteq> GetId t (rtp_extensions p)) es)" "header_fields q = header_fields p"
      "rtp_padding_size q = rtp_padding_size p" "rtp_extensions q = rtp_extensions p"
      "load (payload_offset q) (rtp_payload_size q) (buf q) = load (payload_offset p) (rtp_payload_size p) (buf p)"
    using RemoveExtension_rep [OF rep inv assms(2-4)] by blast
  have "\<not> rtp_fault q" using q(2) by (simp add: rtp_rep_def buffer_ok_def)
  moreover have "Csrcs q = []" using rtp_rep_num(3) [OF q(2)] by (simp add: Csrcs_def)
  moreover have "FindExtension t q = []"
    using FindExtension_rep [OF q(2), of t] q(5) by (simp add: map_of_filter_id)
  moreover have "FindExtension t' q = FindExtension t' p" if "GetId t' (rtp_extensions p) \<noteq> GetId t (rtp_extensions p)" for t'
    using FindExtension_rep [OF q(2), of t'] FindExtension_rep [OF rep, of t'] q(5) that by (simp add: map_of_filter_id)
  moreover have "map_option (\<lambda>e. load (info_offset e) (info_length e) (buf q)) (FindExtensionInfo i q) =
      (if i = GetId t (rtp_extensions p) then None else map_option (\<lambda>e. load (info_offset e) (info_length e) (buf p)) (FindExtensionInfo i p))" for i
    unfolding FindExtensionInfo_rep [OF q(2)] FindExtensionInfo_rep [OF rep] by (simp add: map_of_filter_id)
  ultimately show ?thesis using q by blast
qed

text \<open>
  C33: the check of \<open>AllocateRawExtension\<close> is of the unpadded size: in a packet whose capacity the new
  extension reaches exactly without being a multiple of four, the zero padding is
  written behind the end of the buffer.
\<close>

theorem AllocateRawExtension_overrun:
  assumes "1 \<le> i" and "i \<le> 14" and "1 \<le> len" and "len \<le> 16" and "(1 + len) mod 4 \<noteq> 0"
  shows "\<exists>q. AllocateRawExtension i len (RtpPacket_init exts (17 + len) m) = (Some (17, len), q) \<and> rtp_fault q"
proof -
  let ?p = "RtpPacket_init exts (17 + len) m"
  have st: "extensions_start ?p = 16" "FindExtensionInfo i ?p = None" "rtp_payload_size ?p = 0" "rtp_padding_size ?p = 0"
    "extensions_size ?p = 0" "buf_cap ?p = 17 + len" "extension_entries ?p = []"
    by (simp_all add: extensions_start_def num_csrcs_def RtpPacket_init_def rtp_Clear_def Let_def kFixedHeaderSize_def
        kRtpVersion_def store_def FindExtensionInfo_def)
  have w: "4 * ext_words (1 + len) < 65536" "1 + len < 4 * ext_words (1 + len)"
    using assms(4,5) ext_words [of "1 + len"] by (auto simp: ext_words_def) presburger
  have one: "\<not> (i > kOneByteHeaderExtensionMaxId \<or> len > kOneByteHeaderExtensionMaxValueSize \<or> len = 0)"
    using assms by (simp add: kOneByteHeaderExtensionMaxId_def kOneByteHeaderExtensionMaxValueSize_def)
  have "AllocateRawExtension i len ?p = AppendExtension i len kOneByteExtensionProfileId ?p"
    using one by (simp add: AllocateRawExtension_def st Let_def)
  also have "\<exists>q. \<dots> = (Some (17, len), q) \<and> rtp_fault q"
    using assms w by (simp add: AppendExtension_def st Let_def kOneByteExtensionHeaderLength_def
        SetExtensionLength ExtensionInfo_init_def)
  finally show ?thesis .
qed

theorem AllocateRawExtension_overrun_witness:
  "\<exists>q. AllocateRawExtension 1 1 (RtpPacket_init (RtpHeaderExtensionMap_init False) 18 (\<lambda>_. 0)) = (Some (17, 1), q) \<and> rtp_fault q"
  using AllocateRawExtension_overrun [of 1 1 "RtpHeaderExtensionMap_init False" "\<lambda>_. 0"] by simp

subsection \<open>A packet with an extension, payload and padding\<close>

definition sample_map :: RtpHeaderExtensionMap where
  "sample_map = snd (RegisterByType 3 kRtpExtensionMid (RtpHeaderExtensionMap_init False))"

definition sample_Write :: "byte list \<Rightarrow> (bool \<times> byte list) option" where
  "sample_Write bs = Some (True, replicate (length bs) 0x61)"

definition sample_header :: RtpPacket where
  "sample_header = SetSsrc 0x11223344 (SetMarker True (RtpPacket_init sample_map 1500 (\<lambda>_. 0)))"

definition sample_packet :: RtpPacket where
  "sample_packet = snd (SetExtension kRtpExtensionMid 2 sample_Write sample_header)"

lemma sample_id: "GetId kRtpExtensionMid sample_map = 3" "extmap_allow_mixed sample_map = False"
  by (simp_all add: sample_map_def RegisterByType_def kExtensions_def Register_def GetType_def kMinId_def kMaxId_def
      extension_types_def RtpHeaderExtensionMap_init_def GetId_def kInvalidId_def Let_def)

lemma sample_header_built: "built_packet sample_header"
  unfolding sample_header_def sample_map_def
  by (intro built_packet.intros reachable_map.intros) simp_all

lemma sample_writes: "writes n sample_Write"
  by (auto simp: writes_def sample_Write_def)

lemma sample_built: "built_packet sample_packet"
  unfolding sample_packet_def by (rule built_packet.extension [OF sample_header_built]) (rule sample_writes)

lemma sample_room: "has_room kRtpExtensionMid 2 sample_header"
  by (simp add: has_room_def raw_room_def sample_header_def sample_id kInvalidId_def FindExtensionInfo_def Let_def
      extensions_start_def num_csrcs_def SetSsrc_def SetMarker_def RtpPacket_init_def rtp_Clear_def
      kFixedHeaderSize_def kRtpVersion_def store_def)

lemma sample_header_fields:
  "extensions_start sample_header = 16" "rtp_payload_size sample_header = 0" "rtp_padding_size sample_header = 0"
  "extensions_size sample_header = 0" "buf_cap sample_header = 1500" "extension_entries sample_header = []"
  "rtp_extensions sample_header = sample_map"
  by (simp_all add: sample_header_def extensions_start_def num_csrcs_def SetSsrc_def SetMarker_def RtpPacket_init_def rtp_Clear_def
      kFixedHeaderSize_def kRtpVersion_def store_def Let_def)

lemma sample_packet_fields:
  "extension_entries sample_packet = [\<lparr>info_id = 3, info_length = 2, info_offset = 17\<rparr>]" "rtp_size sample_packet = 20"
  "rtp_extensions sample_packet = sample_map"
proof -
  have "ext_words (Suc (Suc (Suc 0))) = 1" by (simp add: ext_words_def)
  then show "extension_entries sample_packet = [\<lparr>info_id = 3, info_length = 2, info_offset = 17\<rparr>]" "rtp_size sample_packet = 20"
    "rtp_extensions sample_packet = sample_map"
    by (simp_all add: sample_packet_def SetExtension_def AllocateExtension_def AllocateRawExtension_def AppendExtension_def
        sample_header_fields sample_id FindExtensionInfo_def kInvalidId_def kMaxValueSize_def Let_def SetExtensionLength
        kOneByteHeaderExtensionMaxId_def kOneByteHeaderExtensionMaxValueSize_def kOneByteExtensionHeaderLength_def
        ExtensionInfo_init_def rtp_size_def sample_Write_def)
qed

theorem built_packet_roundtrip_witness:
  "\<exists>q. rtp_Parse max (\<lambda>_. 0) (load 0 (rtp_size sample_packet) (buf sample_packet)) 20
      (RtpPacket_init sample_map 1500 (\<lambda>_. 0)) = Some (True, q)
    \<and> (\<forall>t. FindExtension t q = FindExtension t sample_packet)"
  using built_packet_roundtrip [OF sample_built, of "RtpPacket_init sample_map 1500 (\<lambda>_. 0)" max "\<lambda>_. 0"]
  by (auto simp: sample_packet_fields)

theorem SetExtension_lookup_witness:
  "\<exists>q. SetExtension kRtpExtensionMid 2 sample_Write sample_header = (True, q)
    \<and> FindExtension kRtpExtensionMid q = [0x61, 0x61]"
proof -
  obtain ok q where q: "SetExtension kRtpExtensionMid 2 sample_Write sample_header = (ok, q)" by fastforce
  have "\<exists>bs bs'. length bs = 2 \<and> sample_Write bs = Some (ok, bs') \<and> FindExtension kRtpExtensionMid q = bs'"
    using SetExtension_lookup [OF sample_header_built sample_writes q] sample_room by blast
  then show ?thesis using q by (auto simp: sample_Write_def numeral_2_eq_2)
qed

theorem RemoveExtension_spec_witness:
  "\<exists>q. RemoveExtension (\<lambda>_. 0) kRtpExtensionMid sample_packet = (True, q) \<and> \<not> rtp_fault q
    \<and> FindExtension kRtpExtensionMid q = []"
proof -
  have "HasExtension kRtpExtensionMid sample_packet"
    by (simp add: HasExtension_def sample_packet_fields sample_id kInvalidId_def FindExtensionInfo_def Let_def)
  from RemoveExtension_spec [OF sample_built this, of "\<lambda>_. 0"] show ?thesis
    by (auto simp: sample_packet_fields kDefaultPacketSize_def)
qed

end
