(* ===== verification/Rtp_Header_Extensions.thy ===== *)
theory Rtp_Header_Extensions
  imports Rtp_Packet_Interface "HOL-Library.Signed_Division"
begin

text \<open>
  \<open>rtp_header_extensions\<close> and \<open>rtp_cvo.h\<close>: the encodings of the single header extensions. Each has
  a size, a parser and a writer; the locale \<open>header_extension\<close> is the contract that makes them
  work with the packet, and its interpretations discharge it for every extension but the
  inband comfort noise, whose parser and writer disagree. The color space extension is left
  out: it works in floating point on classes of the codec library.

  A parser is given the view and the object it fills; the option is a read outside the view. A
  writer is given the bytes of the view, which has the extension's size, and gives its result with
  the bytes it leaves; the option is a failed \<open>RTC_CHECK\<close>.
\<close>

subsection \<open>Absolute send time\<close>

definition AbsoluteSendTime_kValueSizeBytes :: nat where "AbsoluteSendTime_kValueSizeBytes = 3"

definition AbsoluteSendTime_ValueSize :: "u32 \<Rightarrow> nat" where
  "AbsoluteSendTime_ValueSize _ = AbsoluteSendTime_kValueSizeBytes"

definition AbsoluteSendTime_Parse :: "byte list \<Rightarrow> u32 \<Rightarrow> (bool \<times> u32) option" where
  "AbsoluteSendTime_Parse data time_24bits =
     (if length data \<noteq> 3 then Some (False, time_24bits)
      else do { t \<leftarrow> get_be24 data 0; Some (True, t) })"

definition AbsoluteSendTime_Write :: "u32 \<Rightarrow> byte list \<Rightarrow> (bool \<times> byte list) option" where
  "AbsoluteSendTime_Write time_24bits data = Some (True, put_at 0 (put_be24 time_24bits) data)"

text \<open>The shift and the sum are 64-bit; the model has no overflow below \<open>2\<^sup>4\<^sup>5\<close> milliseconds.\<close>

definition MsTo24Bits :: "int \<Rightarrow> u32" where
  "MsTo24Bits time_ms = word_of_int ((time_ms * 2 ^ 18 + 500) sdiv 1000) AND 0x00FFFFFF"

subsection \<open>Absolute capture time\<close>

record AbsoluteCaptureTime =
  absolute_capture_timestamp :: u64
  estimated_capture_clock_offset :: "int option"

definition AbsoluteCaptureTime_kValueSizeBytes :: nat where "AbsoluteCaptureTime_kValueSizeBytes = 16"
definition kValueSizeBytesWithoutEstimatedCaptureClockOffset :: nat where
  "kValueSizeBytesWithoutEstimatedCaptureClockOffset = 8"

definition AbsoluteCaptureTime_Parse :: "byte list \<Rightarrow> AbsoluteCaptureTime \<Rightarrow> (bool \<times> AbsoluteCaptureTime) option" where
  "AbsoluteCaptureTime_Parse data extension =
     (if length data \<noteq> AbsoluteCaptureTime_kValueSizeBytes
         \<and> length data \<noteq> kValueSizeBytesWithoutEstimatedCaptureClockOffset
      then Some (False, extension)
      else do {
        ts \<leftarrow> get_be64 data 0;
        let extension = extension\<lparr>absolute_capture_timestamp := ts\<rparr>
        in if length data \<noteq> kValueSizeBytesWithoutEstimatedCaptureClockOffset
           then do { off \<leftarrow> get_be64 data 8;
                     Some (True, extension\<lparr>estimated_capture_clock_offset := Some (ReinterpretAsSigned off)\<rparr>) }
           else Some (True, extension) })"

definition AbsoluteCaptureTime_ValueSize :: "AbsoluteCaptureTime \<Rightarrow> nat" where
  "AbsoluteCaptureTime_ValueSize extension =
     (if estimated_capture_clock_offset extension \<noteq> None then AbsoluteCaptureTime_kValueSizeBytes
      else kValueSizeBytesWithoutEstimatedCaptureClockOffset)"

definition AbsoluteCaptureTime_Write :: "AbsoluteCaptureTime \<Rightarrow> byte list \<Rightarrow> (bool \<times> byte list) option" where
  "AbsoluteCaptureTime_Write extension data =
     (let data = put_at 0 (put_be64 (absolute_capture_timestamp extension)) data
      in if length data \<noteq> kValueSizeBytesWithoutEstimatedCaptureClockOffset
         then case estimated_capture_clock_offset extension of
             None \<Rightarrow> None
           | Some off \<Rightarrow> Some (True, put_at 8 (put_be64 (ReinterpretAsUnsigned off)) data)
         else Some (True, data))"

subsection \<open>Audio levels\<close>

definition AudioLevel_kValueSizeBytes :: nat where "AudioLevel_kValueSizeBytes = 1"

definition AudioLevel_ValueSize :: "bool \<times> byte \<Rightarrow> nat" where
  "AudioLevel_ValueSize _ = AudioLevel_kValueSizeBytes"

definition AudioLevel_Parse :: "byte list \<Rightarrow> bool \<times> byte \<Rightarrow> (bool \<times> bool \<times> byte) option" where
  "AudioLevel_Parse data v =
     (if length data \<noteq> 1 then Some (False, v)
      else do { b \<leftarrow> get_u8 data 0; Some (True, b AND 0x80 \<noteq> 0, b AND 0x7F) })"

definition AudioLevel_Write :: "bool \<times> byte \<Rightarrow> byte list \<Rightarrow> (bool \<times> byte list) option" where
  "AudioLevel_Write v data = (case v of (voice_activity, audio_level) \<Rightarrow>
     if \<not> audio_level \<le> 0x7f then None
     else Some (True, put_at 0 [(if voice_activity then 0x80 else 0x00) OR audio_level] data))"

definition kRtpCsrcSize :: nat where "kRtpCsrcSize = 15"

definition CsrcAudioLevel_Parse :: "byte list \<Rightarrow> byte list \<Rightarrow> (bool \<times> byte list) option" where
  "CsrcAudioLevel_Parse data csrc_audio_levels =
     (if length data > kRtpCsrcSize then Some (False, csrc_audio_levels)
      else Some (True, map (\<lambda>b. b AND 0x7F) data))"

definition CsrcAudioLevel_ValueSize :: "byte list \<Rightarrow> nat" where
  "CsrcAudioLevel_ValueSize csrc_audio_levels = length csrc_audio_levels"

definition CsrcAudioLevel_Write :: "byte list \<Rightarrow> byte list \<Rightarrow> (bool \<times> byte list) option" where
  "CsrcAudioLevel_Write csrc_audio_levels data =
     (if \<not> length csrc_audio_levels \<le> kRtpCsrcSize then None
      else if length csrc_audio_levels \<noteq> length data then Some (False, data)
      else Some (True, map (\<lambda>b. b AND 0x7F) csrc_audio_levels))"

subsection \<open>Transmission offset\<close>

definition TransmissionOffset_kValueSizeBytes :: nat where "TransmissionOffset_kValueSizeBytes = 3"

definition TransmissionOffset_ValueSize :: "int \<Rightarrow> nat" where
  "TransmissionOffset_ValueSize _ = TransmissionOffset_kValueSizeBytes"

definition TransmissionOffset_Parse :: "byte list \<Rightarrow> int \<Rightarrow> (bool \<times> int) option" where
  "TransmissionOffset_Parse data rtp_time =
     (if length data \<noteq> 3 then Some (False, rtp_time)
      else do { t \<leftarrow> get_s24 data 0; Some (True, t) })"

definition TransmissionOffset_Write :: "int \<Rightarrow> byte list \<Rightarrow> (bool \<times> byte list) option" where
  "TransmissionOffset_Write rtp_time data = Some (True, put_at 0 (WriteSigned24 rtp_time) data)"

subsection \<open>Transport sequence numbers\<close>

definition TransportSequenceNumber_kValueSizeBytes :: nat where "TransportSequenceNumber_kValueSizeBytes = 2"

definition TransportSequenceNumber_ValueSize :: "u16 \<Rightarrow> nat" where
  "TransportSequenceNumber_ValueSize _ = TransportSequenceNumber_kValueSizeBytes"

definition TransportSequenceNumber_Parse :: "byte list \<Rightarrow> u16 \<Rightarrow> (bool \<times> u16) option" where
  "TransportSequenceNumber_Parse data transport_sequence_number =
     (if length data \<noteq> TransportSequenceNumber_kValueSizeBytes then Some (False, transport_sequence_number)
      else do { n \<leftarrow> get_be16 data 0; Some (True, n) })"

definition TransportSequenceNumber_Write :: "u16 \<Rightarrow> byte list \<Rightarrow> (bool \<times> byte list) option" where
  "TransportSequenceNumber_Write transport_sequence_number data =
     Some (True, put_at 0 (put_be16 transport_sequence_number) data)"

record FeedbackRequest =
  include_timestamps :: bool
  sequence_count :: int

definition TransportSequenceNumberV2_kValueSizeBytes :: nat where "TransportSequenceNumberV2_kValueSizeBytes = 4"
definition kValueSizeBytesWithoutFeedbackRequest :: nat where "kValueSizeBytesWithoutFeedbackRequest = 2"
definition kIncludeTimestampsBit :: u16 where "kIncludeTimestampsBit = push_bit 15 1"

definition TransportSequenceNumberV2_ValueSize :: "u16 \<times> FeedbackRequest option \<Rightarrow> nat" where
  "TransportSequenceNumberV2_ValueSize v = (case v of (_, feedback_request) \<Rightarrow>
     if feedback_request \<noteq> None then TransportSequenceNumberV2_kValueSizeBytes
     else kValueSizeBytesWithoutFeedbackRequest)"

definition TransportSequenceNumberV2_Parse :: "byte list \<Rightarrow> u16 \<times> FeedbackRequest option
    \<Rightarrow> (bool \<times> u16 \<times> FeedbackRequest option) option" where
  "TransportSequenceNumberV2_Parse data v =
     (if length data \<noteq> TransportSequenceNumberV2_kValueSizeBytes
         \<and> length data \<noteq> kValueSizeBytesWithoutFeedbackRequest
      then Some (False, v)
      else do {
        n \<leftarrow> get_be16 data 0;
        if length data = TransportSequenceNumberV2_kValueSizeBytes then do {
          feedback_request_raw \<leftarrow> get_be16 data 2;
          let include_ts = (feedback_request_raw AND kIncludeTimestampsBit \<noteq> 0);
              count = feedback_request_raw AND NOT kIncludeTimestampsBit
          in Some (True, n, if count \<noteq> 0
               then Some \<lparr>include_timestamps = include_ts, sequence_count = uint count\<rparr> else None) }
        else Some (True, n, None) })"

definition TransportSequenceNumberV2_Write :: "u16 \<times> FeedbackRequest option \<Rightarrow> byte list
    \<Rightarrow> (bool \<times> byte list) option" where
  "TransportSequenceNumberV2_Write v data = (case v of (transport_sequence_number, feedback_request) \<Rightarrow>
     let data = put_at 0 (put_be16 transport_sequence_number) data
     in case feedback_request of
          None \<Rightarrow> Some (True, data)
        | Some r \<Rightarrow>
            let feedback_request_raw = word_of_int (sequence_count r)
                  OR (if include_timestamps r then kIncludeTimestampsBit else 0)
            in Some (True, put_at 2 (put_be16 feedback_request_raw) data))"

subsection \<open>Video orientation\<close>

text \<open>The values of the codec library's enumeration \<open>VideoRotation\<close> that the code names.\<close>

datatype VideoRotation = kVideoRotation_0 | kVideoRotation_90 | kVideoRotation_180 | kVideoRotation_270

fun ConvertVideoRotationToCVOByte :: "VideoRotation \<Rightarrow> byte" where
  "ConvertVideoRotationToCVOByte kVideoRotation_0 = 0"
| "ConvertVideoRotationToCVOByte kVideoRotation_90 = 1"
| "ConvertVideoRotationToCVOByte kVideoRotation_180 = 2"
| "ConvertVideoRotationToCVOByte kVideoRotation_270 = 3"

definition ConvertCVOByteToVideoRotation :: "byte \<Rightarrow> VideoRotation" where
  "ConvertCVOByteToVideoRotation cvo_byte =
     (let rotation_bits = cvo_byte AND 0x3
      in if rotation_bits = 0 then kVideoRotation_0
         else if rotation_bits = 1 then kVideoRotation_90
         else if rotation_bits = 2 then kVideoRotation_180
         else if rotation_bits = 3 then kVideoRotation_270
         else kVideoRotation_0)"

definition VideoOrientation_kValueSizeBytes :: nat where "VideoOrientation_kValueSizeBytes = 1"

definition VideoOrientation_ValueSize :: "VideoRotation \<Rightarrow> nat" where
  "VideoOrientation_ValueSize _ = VideoOrientation_kValueSizeBytes"

definition VideoOrientation_Parse :: "byte list \<Rightarrow> VideoRotation \<Rightarrow> (bool \<times> VideoRotation) option" where
  "VideoOrientation_Parse data rotation =
     (if length data \<noteq> 1 then Some (False, rotation)
      else do { b \<leftarrow> get_u8 data 0; Some (True, ConvertCVOByteToVideoRotation b) })"

definition VideoOrientation_Write :: "VideoRotation \<Rightarrow> byte list \<Rightarrow> (bool \<times> byte list) option" where
  "VideoOrientation_Write rotation data = Some (True, put_at 0 [ConvertVideoRotationToCVOByte rotation] data)"

text \<open>The overloads for the raw byte.\<close>

definition VideoOrientation_ParseByte :: "byte list \<Rightarrow> byte \<Rightarrow> (bool \<times> byte) option" where
  "VideoOrientation_ParseByte data val =
     (if length data \<noteq> 1 then Some (False, val) else do { b \<leftarrow> get_u8 data 0; Some (True, b) })"

definition VideoOrientation_WriteByte :: "byte \<Rightarrow> byte list \<Rightarrow> (bool \<times> byte list) option" where
  "VideoOrientation_WriteByte val data = Some (True, put_at 0 [val] data)"

subsection \<open>Playout delay\<close>

text \<open>The fields of the codec library's \<open>VideoPlayoutDelay\<close> that the code reads and writes, of type \<open>int\<close>.\<close>

record VideoPlayoutDelay =
  min_ms :: int
  max_ms :: int

definition kGranularityMs :: int where "kGranularityMs = 10"
definition kMaxMs :: int where "kMaxMs = 0xfff * kGranularityMs"
definition PlayoutDelayLimits_kValueSizeBytes :: nat where "PlayoutDelayLimits_kValueSizeBytes = 3"

definition PlayoutDelayLimits_ValueSize :: "VideoPlayoutDelay \<Rightarrow> nat" where
  "PlayoutDelayLimits_ValueSize _ = PlayoutDelayLimits_kValueSizeBytes"

definition PlayoutDelayLimits_Parse :: "byte list \<Rightarrow> VideoPlayoutDelay \<Rightarrow> (bool \<times> VideoPlayoutDelay) option" where
  "PlayoutDelayLimits_Parse data playout_delay =
     (if length data \<noteq> 3 then Some (False, playout_delay)
      else do {
        raw \<leftarrow> get_be24 data 0;
        let min_raw = (ucast (drop_bit 12 raw) :: u16); max_raw = (ucast (raw AND 0xfff) :: u16)
        in if min_raw > max_raw then Some (False, playout_delay)
           else Some (True, playout_delay\<lparr>min_ms := uint min_raw * kGranularityMs,
                                          max_ms := uint max_raw * kGranularityMs\<rparr>) })"

definition PlayoutDelayLimits_Write :: "VideoPlayoutDelay \<Rightarrow> byte list \<Rightarrow> (bool \<times> byte list) option" where
  "PlayoutDelayLimits_Write playout_delay data =
     (let min_delay = word_of_int (min_ms playout_delay sdiv kGranularityMs) :: u32;
          max_delay = word_of_int (max_ms playout_delay sdiv kGranularityMs) :: u32
      in Some (True, put_at 0 (put_be24 (push_bit 12 min_delay OR max_delay)) data))"

subsection \<open>Video content type\<close>

text \<open>\<open>IsValidContentType\<close> is the codec library's; a content type is its byte.\<close>

definition VideoContentType_kValueSizeBytes :: nat where "VideoContentType_kValueSizeBytes = 1"

definition VideoContentType_ValueSize :: "byte \<Rightarrow> nat" where
  "VideoContentType_ValueSize _ = VideoContentType_kValueSizeBytes"

definition VideoContentType_Parse :: "(byte \<Rightarrow> bool) \<Rightarrow> byte list \<Rightarrow> byte \<Rightarrow> (bool \<times> byte) option" where
  "VideoContentType_Parse IsValidContentType data content_type =
     (if length data = 1 then do {
        b \<leftarrow> get_u8 data 0;
        if IsValidContentType b then Some (True, b) else Some (False, content_type) }
      else Some (False, content_type))"

definition VideoContentType_Write :: "byte \<Rightarrow> byte list \<Rightarrow> (bool \<times> byte list) option" where
  "VideoContentType_Write content_type data = Some (True, put_at 0 [content_type] data)"

subsection \<open>Video timing\<close>

text \<open>The fields of the codec library's \<open>VideoSendTiming\<close> at the widths the code reads and writes.\<close>

record VideoSendTiming =
  vt_flags :: byte
  encode_start_delta_ms :: u16
  encode_finish_delta_ms :: u16
  packetization_finish_delta_ms :: u16
  pacer_exit_delta_ms :: u16
  network_timestamp_delta_ms :: u16
  network2_timestamp_delta_ms :: u16

definition VideoTiming_kValueSizeBytes :: nat where "VideoTiming_kValueSizeBytes = 13"
definition kFlagsOffset :: nat where "kFlagsOffset = 0"
definition kEncodeStartDeltaOffset :: nat where "kEncodeStartDeltaOffset = 1"
definition kEncodeFinishDeltaOffset :: nat where "kEncodeFinishDeltaOffset = 3"
definition kPacketizationFinishDeltaOffset :: nat where "kPacketizationFinishDeltaOffset = 5"
definition kNetworkTimestampDeltaOffset :: nat where "kNetworkTimestampDeltaOffset = 9"
definition kNetwork2TimestampDeltaOffset :: nat where "kNetwork2TimestampDeltaOffset = 11"

definition VideoTiming_ValueSize :: "VideoSendTiming \<Rightarrow> nat" where
  "VideoTiming_ValueSize _ = VideoTiming_kValueSizeBytes"

definition VideoTiming_Parse :: "byte list \<Rightarrow> VideoSendTiming \<Rightarrow> (bool \<times> VideoSendTiming) option" where
  "VideoTiming_Parse data timing =
     (if length data \<noteq> VideoTiming_kValueSizeBytes - 1 \<and> length data \<noteq> VideoTiming_kValueSizeBytes
      then Some (False, timing)
      else do {
        (flags, off) \<leftarrow> (if length data = VideoTiming_kValueSizeBytes - 1 then Some (0, 1)
                         else do { b \<leftarrow> get_u8 data 0; Some (b, 0) });
        t1 \<leftarrow> get_be16 data (kEncodeStartDeltaOffset - off);
        t2 \<leftarrow> get_be16 data (kEncodeFinishDeltaOffset - off);
        t3 \<leftarrow> get_be16 data (kPacketizationFinishDeltaOffset - off);
        t4 \<leftarrow> get_be16 data (kPacerExitDeltaOffset - off);
        t5 \<leftarrow> get_be16 data (kNetworkTimestampDeltaOffset - off);
        t6 \<leftarrow> get_be16 data (kNetwork2TimestampDeltaOffset - off);
        Some (True, timing\<lparr>vt_flags := flags, encode_start_delta_ms := t1, encode_finish_delta_ms := t2,
          packetization_finish_delta_ms := t3, pacer_exit_delta_ms := t4,
          network_timestamp_delta_ms := t5, network2_timestamp_delta_ms := t6\<rparr>) })"

definition VideoTiming_Write :: "VideoSendTiming \<Rightarrow> byte list \<Rightarrow> (bool \<times> byte list) option" where
  "VideoTiming_Write timing data =
     (let data = put_at kFlagsOffset [vt_flags timing] data;
          data = put_at kEncodeStartDeltaOffset (put_be16 (encode_start_delta_ms timing)) data;
          data = put_at kEncodeFinishDeltaOffset (put_be16 (encode_finish_delta_ms timing)) data;
          data = put_at kPacketizationFinishDeltaOffset (put_be16 (packetization_finish_delta_ms timing)) data;
          data = put_at kPacerExitDeltaOffset (put_be16 (pacer_exit_delta_ms timing)) data;
          data = put_at kNetworkTimestampDeltaOffset (put_be16 (network_timestamp_delta_ms timing)) data;
          data = put_at kNetwork2TimestampDeltaOffset (put_be16 (network2_timestamp_delta_ms timing)) data
      in Some (True, data))"

text \<open>The overload that writes a single delta at a given offset.\<close>

definition VideoTiming_WriteDelta :: "u16 \<Rightarrow> nat \<Rightarrow> byte list \<Rightarrow> (bool \<times> byte list) option" where
  "VideoTiming_WriteDelta time_delta_ms off data = Some (True, put_at off (put_be16 time_delta_ms) data)"

subsection \<open>Strings\<close>

definition BaseRtpStringExtension_kMaxValueSizeBytes :: nat where
  "BaseRtpStringExtension_kMaxValueSizeBytes = 16"

definition BaseRtpStringExtension_Parse :: "byte list \<Rightarrow> byte list \<Rightarrow> (bool \<times> byte list) option" where
  "BaseRtpStringExtension_Parse data str =
     (if data = [] then Some (False, str)
      else do { b \<leftarrow> get_u8 data 0;
                if b = 0 then Some (False, str) else Some (True, takeWhile (\<lambda>c. c \<noteq> 0) data) })"

definition BaseRtpStringExtension_ValueSize :: "byte list \<Rightarrow> nat" where
  "BaseRtpStringExtension_ValueSize str = length str"

definition BaseRtpStringExtension_Write :: "byte list \<Rightarrow> byte list \<Rightarrow> (bool \<times> byte list) option" where
  "BaseRtpStringExtension_Write str data =
     (if length str > BaseRtpStringExtension_kMaxValueSizeBytes then Some (False, data)
      else Some (True, put_at 0 str data))"

subsection \<open>Inband comfort noise\<close>

definition InbandComfortNoise_kValueSizeBytes :: nat where "InbandComfortNoise_kValueSizeBytes = 1"

definition InbandComfortNoise_Parse :: "byte list \<Rightarrow> byte option \<Rightarrow> (bool \<times> byte option) option" where
  "InbandComfortNoise_Parse data level =
     (if length data \<noteq> InbandComfortNoise_kValueSizeBytes then Some (False, level)
      else do { b \<leftarrow> get_u8 data 0;
                Some (True, if b AND 0x80 \<noteq> 0 then None else Some (b AND 0x7F)) })"

definition InbandComfortNoise_Write :: "byte option \<Rightarrow> byte list \<Rightarrow> (bool \<times> byte list) option" where
  "InbandComfortNoise_Write level data =
     (let data = put_at 0 [0] data
      in case level of
           None \<Rightarrow> Some (True, data)
         | Some l \<Rightarrow> if l > 127 then Some (False, data) else Some (True, put_at 0 [0x80 OR l] data))"

subsection \<open>Video frame tracking id\<close>

definition VideoFrameTrackingId_kValueSizeBytes :: nat where "VideoFrameTrackingId_kValueSizeBytes = 2"

definition VideoFrameTrackingId_ValueSize :: "u16 \<Rightarrow> nat" where
  "VideoFrameTrackingId_ValueSize _ = VideoFrameTrackingId_kValueSizeBytes"

definition VideoFrameTrackingId_Parse :: "byte list \<Rightarrow> u16 \<Rightarrow> (bool \<times> u16) option" where
  "VideoFrameTrackingId_Parse data video_frame_tracking_id =
     (if length data \<noteq> VideoFrameTrackingId_kValueSizeBytes then Some (False, video_frame_tracking_id)
      else do { n \<leftarrow> get_be16 data 0; Some (True, n) })"

definition VideoFrameTrackingId_Write :: "u16 \<Rightarrow> byte list \<Rightarrow> (bool \<times> byte list) option" where
  "VideoFrameTrackingId_Write video_frame_tracking_id data =
     Some (True, put_at 0 (put_be16 video_frame_tracking_id) data)"

subsection \<open>The contract of an extension\<close>

text \<open>
  What \<open>RtpPacket\<close> relies on: the parser reads only the view, and the writer, on a value it is made for, fills a view
  of the value's size with bytes from which the parser reads \<open>sent v\<close>, the value as it can be transmitted, into
  a fresh object.
\<close>

locale header_extension =
  fixes kId :: RTPExtensionType
    and ValueSize :: "'v \<Rightarrow> nat"
    and Parse :: "byte list \<Rightarrow> 'v \<Rightarrow> (bool \<times> 'v) option"
    and Write :: "'v \<Rightarrow> byte list \<Rightarrow> (bool \<times> byte list) option"
    and valid :: "'v \<Rightarrow> bool"
    and sent :: "'v \<Rightarrow> 'v"
    and initial :: 'v
  assumes Parse_safe: "Parse d v \<noteq> None"
    and Write_Parse: "valid v \<Longrightarrow> length d = ValueSize v \<Longrightarrow>
      \<exists>d'. Write v d = Some (True, d') \<and> length d' = ValueSize v \<and> Parse d' initial = Some (True, sent v)"
begin

lemma Write_writes: "valid v \<Longrightarrow> writes (ValueSize v) (Write v)"
  using Write_Parse by (fastforce simp: writes_def)

lemma get_total: "GetExtension kId initial Parse p \<noteq> None"
  using Parse_safe [of "FindExtension kId p" initial] by (auto simp: GetExtension_def Let_def split: bind_splits)

lemma set_get_packet:
  assumes "built_packet p" and "valid v" and "has_room kId (ValueSize v) p"
  shows "\<exists>q. SetExtension kId (ValueSize v) (Write v) p = (True, q) \<and> built_packet q
    \<and> GetExtension kId initial Parse q = Some (Some (sent v))"
proof -
  obtain cs one es where rep: "rtp_rep p cs one es" and inv: "map_inv (rtp_extensions p)"
    using built_packet_ok [OF assms(1)] by blast
  note w = Write_writes [OF assms(2)]
  obtain q one' es' bs ok bs' where q: "SetExtension kId (ValueSize v) (Write v) p = (ok, q)" "length bs = ValueSize v"
      "1 \<le> ValueSize v" "Write v bs = Some (ok, bs')" "GetId kId (rtp_extensions p) \<noteq> kInvalidId" "rtp_rep q cs one' es'"
      "same_fields p q" "map_of es' = (map_of es)(GetId kId (rtp_extensions p) \<mapsto> bs')"
    using SetExtension_rep [OF rep inv w, of kId] assms(3) by blast
  from Write_Parse [OF assms(2) q(2)] q(4) have ok: "ok" "length bs' = ValueSize v" "Parse bs' initial = Some (True, sent v)"
    by auto
  have "rtp_extensions q = rtp_extensions p" using q(7) by (simp add: same_fields_def)
  then have "FindExtension kId q = bs'" using FindExtension_rep [OF q(6), of kId] q(5,8) by simp
  moreover have "bs' \<noteq> []" using ok(2) q(3) by auto
  ultimately have "GetExtension kId initial Parse q = Some (Some (sent v))"
    using ok(3) by (simp add: GetExtension_def)
  moreover have "built_packet q" using built_packet.extension [OF assms(1) w, of kId] q(1) by simp
  ultimately show ?thesis using q(1) ok(1) by simp
qed

end

interpretation abs_send_time: header_extension kRtpExtensionAbsoluteSendTime AbsoluteSendTime_ValueSize
    AbsoluteSendTime_Parse AbsoluteSendTime_Write "\<lambda>t. t < 2 ^ 24" "\<lambda>t. t" 0
proof
  show "AbsoluteSendTime_Parse d v \<noteq> None" for d v
    by (auto simp: AbsoluteSendTime_Parse_def fetch_Some)
  show "\<exists>d'. AbsoluteSendTime_Write v d = Some (True, d') \<and> length d' = AbsoluteSendTime_ValueSize v
      \<and> AbsoluteSendTime_Parse d' 0 = Some (True, v)" if "v < 2 ^ 24" "length d = AbsoluteSendTime_ValueSize v" for v d
  proof -
    have "take_bit 24 v = v" using that(1) by (simp add: less_mask_eq take_bit_eq_mask)
    then show ?thesis
      using that(2) by (simp add: AbsoluteSendTime_Write_def AbsoluteSendTime_Parse_def AbsoluteSendTime_ValueSize_def
          AbsoluteSendTime_kValueSizeBytes_def put_at_all wire_simps)
  qed
qed

interpretation audio_level: header_extension kRtpExtensionAudioLevel AudioLevel_ValueSize
    AudioLevel_Parse AudioLevel_Write "\<lambda>(_, l). l \<le> 0x7f" "\<lambda>v. v" "(False, 0)"
proof
  show "AudioLevel_Parse d v \<noteq> None" for d v
    by (auto simp: AudioLevel_Parse_def get_u8_def)
  show "\<exists>d'. AudioLevel_Write v d = Some (True, d') \<and> length d' = AudioLevel_ValueSize v
      \<and> AudioLevel_Parse d' (False, 0) = Some (True, v)"
    if "case v of (_, l) \<Rightarrow> l \<le> 0x7f" "length d = AudioLevel_ValueSize v" for v d
  proof -
    obtain act l where v: "v = (act, l)" by fastforce
    have "unat l < 128" using that(1) by (simp add: v word_le_nat_alt)
    note b = byte1 [OF this, of act]
    show ?thesis
      using that b by (simp add: v AudioLevel_Write_def AudioLevel_Parse_def AudioLevel_ValueSize_def
          AudioLevel_kValueSizeBytes_def put_at_all get_u8_here byte1_def)
  qed
qed

interpretation csrc_audio_level: header_extension kRtpExtensionCsrcAudioLevel CsrcAudioLevel_ValueSize
    CsrcAudioLevel_Parse CsrcAudioLevel_Write "\<lambda>ls. length ls \<le> kRtpCsrcSize" "map (\<lambda>b. b AND 0x7F)" "[]"
  by unfold_locales (auto simp: CsrcAudioLevel_Parse_def CsrcAudioLevel_Write_def CsrcAudioLevel_ValueSize_def comp_def)

interpretation transmission_offset: header_extension kRtpExtensionTransmissionTimeOffset TransmissionOffset_ValueSize
    TransmissionOffset_Parse TransmissionOffset_Write "\<lambda>t. - (2 ^ 23) \<le> t \<and> t < 2 ^ 23" "\<lambda>t. t" 0
  by unfold_locales (auto simp: TransmissionOffset_Parse_def TransmissionOffset_Write_def TransmissionOffset_ValueSize_def
      TransmissionOffset_kValueSizeBytes_def put_at_all fetch_Some fetch_all read_write_s24)

interpretation transport_sequence_number: header_extension kRtpExtensionTransportSequenceNumber
    TransportSequenceNumber_ValueSize TransportSequenceNumber_Parse TransportSequenceNumber_Write "\<lambda>_. True" "\<lambda>n. n" 0
  by unfold_locales (auto simp: TransportSequenceNumber_Parse_def TransportSequenceNumber_Write_def
      TransportSequenceNumber_ValueSize_def TransportSequenceNumber_kValueSizeBytes_def put_at_all fetch_Some wire_simps)

interpretation video_frame_tracking_id: header_extension kRtpExtensionVideoFrameTrackingId
    VideoFrameTrackingId_ValueSize VideoFrameTrackingId_Parse VideoFrameTrackingId_Write "\<lambda>_. True" "\<lambda>n. n" 0
  by unfold_locales (auto simp: VideoFrameTrackingId_Parse_def VideoFrameTrackingId_Write_def
      VideoFrameTrackingId_ValueSize_def VideoFrameTrackingId_kValueSizeBytes_def put_at_all fetch_Some wire_simps)

interpretation video_content_type: header_extension kRtpExtensionVideoContentType VideoContentType_ValueSize
    "VideoContentType_Parse ok" VideoContentType_Write ok "\<lambda>b. b" 0 for ok
  by unfold_locales (auto simp: VideoContentType_Parse_def VideoContentType_Write_def VideoContentType_ValueSize_def
      VideoContentType_kValueSizeBytes_def put_at_all get_u8_def)

interpretation video_orientation: header_extension kRtpExtensionVideoRotation VideoOrientation_ValueSize
    VideoOrientation_Parse VideoOrientation_Write "\<lambda>_. True" "\<lambda>r. r" kVideoRotation_0
proof
  show "VideoOrientation_Parse d v \<noteq> None" for d v
    by (auto simp: VideoOrientation_Parse_def get_u8_def)
  show "\<exists>d'. VideoOrientation_Write v d = Some (True, d') \<and> length d' = VideoOrientation_ValueSize v
      \<and> VideoOrientation_Parse d' kVideoRotation_0 = Some (True, v)" if "length d = VideoOrientation_ValueSize v" for v d
    using that by (cases v) (simp_all add: VideoOrientation_Parse_def VideoOrientation_Write_def VideoOrientation_ValueSize_def
        VideoOrientation_kValueSizeBytes_def put_at_all get_u8_here ConvertCVOByteToVideoRotation_def)
qed

interpretation rtp_string: header_extension t BaseRtpStringExtension_ValueSize
    BaseRtpStringExtension_Parse BaseRtpStringExtension_Write
    "\<lambda>s. 1 \<le> length s \<and> length s \<le> BaseRtpStringExtension_kMaxValueSizeBytes \<and> 0 \<notin> set s" "\<lambda>s. s" "[]" for t
proof
  show "BaseRtpStringExtension_Parse d v \<noteq> None" for d v
    by (auto simp: BaseRtpStringExtension_Parse_def get_u8_def)
  show "\<exists>d'. BaseRtpStringExtension_Write v d = Some (True, d') \<and> length d' = BaseRtpStringExtension_ValueSize v
      \<and> BaseRtpStringExtension_Parse d' [] = Some (True, v)"
    if "1 \<le> length v \<and> length v \<le> BaseRtpStringExtension_kMaxValueSizeBytes \<and> 0 \<notin> set v"
      "length d = BaseRtpStringExtension_ValueSize v" for v d
  proof -
    have "takeWhile (\<lambda>c. c \<noteq> 0) v = v" using that(1) by (auto simp: takeWhile_eq_all_conv)
    then show ?thesis
      using that by (cases v) (auto simp: BaseRtpStringExtension_Write_def BaseRtpStringExtension_Parse_def
          BaseRtpStringExtension_ValueSize_def put_at_all get_u8_here)
  qed
qed

lemma ReinterpretAsSigned_Unsigned:
  assumes "- (2 ^ 63) \<le> v" and "v < 2 ^ 63"
  shows "ReinterpretAsSigned (ReinterpretAsUnsigned v :: u64) = v"
proof -
  have "sint (word_of_int v :: u64) = v"
    using assms by transfer (simp add: signed_take_bit_int_eq_self)
  then show ?thesis by (simp add: ReinterpretAsSigned_sint ReinterpretAsUnsigned_def)
qed

interpretation abs_capture_time: header_extension kRtpExtensionAbsoluteCaptureTime AbsoluteCaptureTime_ValueSize
    AbsoluteCaptureTime_Parse AbsoluteCaptureTime_Write
    "\<lambda>v. \<forall>off. estimated_capture_clock_offset v = Some off \<longrightarrow> - (2 ^ 63) \<le> off \<and> off < 2 ^ 63" "\<lambda>v. v"
    "\<lparr>absolute_capture_timestamp = 0, estimated_capture_clock_offset = None\<rparr>"
proof
  note defs = AbsoluteCaptureTime_Write_def AbsoluteCaptureTime_Parse_def AbsoluteCaptureTime_ValueSize_def
    AbsoluteCaptureTime_kValueSizeBytes_def kValueSizeBytesWithoutEstimatedCaptureClockOffset_def Let_def
  show "AbsoluteCaptureTime_Parse d v \<noteq> None" for d v
    by (auto simp: defs fetch_Some)
  show "\<exists>d'. AbsoluteCaptureTime_Write v d = Some (True, d') \<and> length d' = AbsoluteCaptureTime_ValueSize v
      \<and> AbsoluteCaptureTime_Parse d' \<lparr>absolute_capture_timestamp = 0, estimated_capture_clock_offset = None\<rparr> = Some (True, v)"
    if "\<forall>off. estimated_capture_clock_offset v = Some off \<longrightarrow> - (2 ^ 63) \<le> off \<and> off < 2 ^ 63"
      "length d = AbsoluteCaptureTime_ValueSize v" for v d
  proof (cases "estimated_capture_clock_offset v")
    case None
    then show ?thesis using that(2) by (cases v) (simp add: defs put_at_all wire_simps)
  next
    case (Some off)
    have d: "length d = 16" using that(2) Some by (simp add: defs)
    have two: "put_at 8 (put_be64 b) (put_at 0 (put_be64 a) d) = put_be64 a @ put_be64 b" for a b
      using d by (simp add: put_at_def)
    show ?thesis
      using Some that(1) d two by (cases v) (simp add: defs wire_simps ReinterpretAsSigned_Unsigned length_put_at)
  qed
qed

lemma include_bit:
  assumes "uint (c :: u16) < 2 ^ 15"
  shows "(c OR kIncludeTimestampsBit) AND kIncludeTimestampsBit \<noteq> 0" "c AND kIncludeTimestampsBit = 0"
    "(c OR kIncludeTimestampsBit) AND NOT kIncludeTimestampsBit = c" "c AND NOT kIncludeTimestampsBit = c"
proof -
  have top: "\<not> bit c n" if "15 \<le> n" for n
  proof
    assume "bit c n"
    moreover have "take_bit 15 (uint c) = uint c" using assms by (simp add: take_bit_int_eq_self)
    ultimately show False using that by (metis bit_take_bit_iff bit_uint_iff bit_imp_le_length not_less)
  qed
  have bits: "bit kIncludeTimestampsBit n \<longleftrightarrow> n = 15" for n
    unfolding kIncludeTimestampsBit_def by (auto simp only: bit_push_bit_iff bit_1_iff) auto
  have "bit ((c OR kIncludeTimestampsBit) AND kIncludeTimestampsBit) 15" by (simp add: bit_simps bits)
  then show "(c OR kIncludeTimestampsBit) AND kIncludeTimestampsBit \<noteq> 0" by auto
  show "c AND kIncludeTimestampsBit = 0" "(c OR kIncludeTimestampsBit) AND NOT kIncludeTimestampsBit = c"
    "c AND NOT kIncludeTimestampsBit = c"
    using top by (auto intro!: bit_word_eqI simp: bit_simps bits)
qed

interpretation transport_sequence_number_v2: header_extension kRtpExtensionTransportSequenceNumber02
    TransportSequenceNumberV2_ValueSize TransportSequenceNumberV2_Parse TransportSequenceNumberV2_Write
    "\<lambda>(_, r). \<forall>f. r = Some f \<longrightarrow> 1 \<le> sequence_count f \<and> sequence_count f < 2 ^ 15" "\<lambda>v. v" "(0, None)"
proof
  note defs = TransportSequenceNumberV2_Write_def TransportSequenceNumberV2_Parse_def TransportSequenceNumberV2_ValueSize_def
    TransportSequenceNumberV2_kValueSizeBytes_def kValueSizeBytesWithoutFeedbackRequest_def Let_def
  show "TransportSequenceNumberV2_Parse d v \<noteq> None" for d v
    by (auto simp: defs fetch_Some)
  show "\<exists>d'. TransportSequenceNumberV2_Write v d = Some (True, d') \<and> length d' = TransportSequenceNumberV2_ValueSize v
      \<and> TransportSequenceNumberV2_Parse d' (0, None) = Some (True, v)"
    if "case v of (_, r) \<Rightarrow> \<forall>f. r = Some f \<longrightarrow> 1 \<le> sequence_count f \<and> sequence_count f < 2 ^ 15"
      "length d = TransportSequenceNumberV2_ValueSize v" for v d
  proof -
    obtain n r where v: "v = (n, r)" by fastforce
    show ?thesis
    proof (cases r)
      case None
      then show ?thesis using that(2) by (simp add: v defs put_at_all wire_simps)
    next
      case (Some f)
      let ?c = "word_of_int (sequence_count f) :: u16"
      have c: "uint ?c = sequence_count f" using that(1) Some by (simp add: v uint_word_of_int)
      have lt: "uint ?c < 2 ^ 15" and nz: "?c \<noteq> 0" using that(1) Some c by (auto simp: v)
      note bits = include_bit [OF lt]
      have d: "length d = 4" using that(2) Some by (simp add: v defs)
      have two: "put_at 2 (put_be16 b) (put_at 0 (put_be16 a) d) = put_be16 a @ put_be16 b" for a b
        using d by (simp add: put_at_def)
      show ?thesis
        using Some two bits c nz by (cases f) (simp add: v defs wire_simps)
    qed
  qed
qed

lemma two_fields:
  fixes a b :: u32
  assumes "take_bit 12 a = a" and "take_bit 12 b = b"
  shows "take_bit 24 (push_bit 12 a OR b) = push_bit 12 a OR b" "drop_bit 12 (push_bit 12 a OR b) = a"
    "(push_bit 12 a OR b) AND 0xfff = b"
proof -
  have a: "bit a n \<Longrightarrow> n < 12" and b: "bit b n \<Longrightarrow> n < 12" for n
    using assms by (metis bit_take_bit_iff)+
  have m: "(0xfff :: u32) = mask 12" by (simp add: mask_eq_exp_minus_1)
  show "take_bit 24 (push_bit 12 a OR b) = push_bit 12 a OR b"
  proof (rule bit_word_eqI)
    fix n assume "n < LENGTH(32)"
    then show "bit (take_bit 24 (push_bit 12 a OR b)) n \<longleftrightarrow> bit (push_bit 12 a OR b) n"
      using a [of "n - 12"] b [of n] by (auto simp: bit_simps)
  qed
  show "drop_bit 12 (push_bit 12 a OR b) = a"
  proof (rule bit_word_eqI)
    fix n assume "n < LENGTH(32)"
    then show "bit (drop_bit 12 (push_bit 12 a OR b)) n \<longleftrightarrow> bit a n"
      using a [of n] b [of "12 + n"] by (auto simp: bit_simps)
  qed
  show "(push_bit 12 a OR b) AND 0xfff = b"
    unfolding m using b by (auto intro!: bit_word_eqI simp: bit_simps)
qed

definition playout_valid :: "VideoPlayoutDelay \<Rightarrow> bool" where
  "playout_valid v \<longleftrightarrow> 0 \<le> min_ms v \<and> min_ms v \<le> max_ms v \<and> max_ms v \<le> kMaxMs"

definition playout_sent :: "VideoPlayoutDelay \<Rightarrow> VideoPlayoutDelay" where
  "playout_sent v = \<lparr>min_ms = min_ms v div 10 * 10, max_ms = max_ms v div 10 * 10\<rparr>"

lemma twelve_bits:
  assumes "0 \<le> x" and "x < 4096"
  defines "w \<equiv> word_of_int x :: u32"
  shows "take_bit 12 w = w" "uint (ucast w :: u16) = x"
proof -
  have "uint w = x" using assms by (simp add: w_def uint_word_of_int)
  moreover have "take_bit 12 x = x" using assms(1,2) by (simp add: take_bit_int_eq_self)
  ultimately show "take_bit 12 w = w" by (intro word_uint_eqI) (simp add: unsigned_take_bit_eq)
  show "uint (ucast w :: u16) = x"
    using \<open>uint w = x\<close> assms(1,2) by (simp add: unsigned_ucast_eq take_bit_int_eq_self)
qed

interpretation playout_delay: header_extension kRtpExtensionPlayoutDelay PlayoutDelayLimits_ValueSize
    PlayoutDelayLimits_Parse PlayoutDelayLimits_Write playout_valid playout_sent "\<lparr>min_ms = -1, max_ms = -1\<rparr>"
proof
  show "PlayoutDelayLimits_Parse d v \<noteq> None" for d v
    by (auto simp: PlayoutDelayLimits_Parse_def fetch_Some Let_def)
  show "\<exists>d'. PlayoutDelayLimits_Write v d = Some (True, d') \<and> length d' = PlayoutDelayLimits_ValueSize v
      \<and> PlayoutDelayLimits_Parse d' \<lparr>min_ms = -1, max_ms = -1\<rparr> = Some (True, playout_sent v)"
    if "playout_valid v" "length d = PlayoutDelayLimits_ValueSize v" for v d
  proof -
    define a b where "a = min_ms v div 10" and "b = max_ms v div 10"
    have ab: "0 \<le> a" "a \<le> b" "b < 4096"
      using that(1) by (auto simp: a_def b_def playout_valid_def kMaxMs_def kGranularityMs_def zdiv_mono1)
    have div: "min_ms v sdiv 10 = a" "max_ms v sdiv 10 = b"
      using that(1) by (auto simp: a_def b_def playout_valid_def signed_divide_int_def sgn_if)
    have a: "take_bit 12 (word_of_int a :: u32) = word_of_int a" "uint (ucast (word_of_int a :: u32) :: u16) = a"
      using twelve_bits [of a] ab by auto
    have b: "take_bit 12 (word_of_int b :: u32) = word_of_int b" "uint (ucast (word_of_int b :: u32) :: u16) = b"
      using twelve_bits [of b] ab by auto
    note f = two_fields [OF a(1) b(1)]
    have le: "\<not> (ucast (word_of_int b :: u32) :: u16) < ucast (word_of_int a :: u32)"
      using ab(2) a(2) b(2) by (simp add: word_less_def)
    have "length d = 3" using that(2) by (simp add: PlayoutDelayLimits_ValueSize_def PlayoutDelayLimits_kValueSizeBytes_def)
    then show ?thesis
      using div f le a(2) b(2)
      by (simp add: PlayoutDelayLimits_Write_def PlayoutDelayLimits_Parse_def PlayoutDelayLimits_ValueSize_def
          PlayoutDelayLimits_kValueSizeBytes_def kGranularityMs_def Let_def put_at_all wire_simps playout_sent_def a_def b_def)
  qed
qed

lemma put_at_first: "put_at 0 [x] d = [x] @ drop 1 d"
  by (simp add: put_at_def)

lemma put_at_next: "length xs = off \<Longrightarrow> put_at off bs (xs @ drop off d) = (xs @ bs) @ drop (off + length bs) d"
  by (simp add: put_at_def add.commute)

interpretation video_timing: header_extension kRtpExtensionVideoTiming VideoTiming_ValueSize
    VideoTiming_Parse VideoTiming_Write "\<lambda>_. True" "\<lambda>v. v" t for t
proof
  note offs = VideoTiming_kValueSizeBytes_def kFlagsOffset_def kEncodeStartDeltaOffset_def kEncodeFinishDeltaOffset_def
    kPacketizationFinishDeltaOffset_def kPacerExitDeltaOffset_def kNetworkTimestampDeltaOffset_def kNetwork2TimestampDeltaOffset_def
  show "VideoTiming_Parse d v \<noteq> None" for d v
    by (auto simp: VideoTiming_Parse_def offs get_u8_def fetch_Some)
  show "\<exists>d'. VideoTiming_Write v d = Some (True, d') \<and> length d' = VideoTiming_ValueSize v
      \<and> VideoTiming_Parse d' t = Some (True, v)" if "length d = VideoTiming_ValueSize v" for v d
  proof -
    have d: "length d = 13" using that by (simp add: VideoTiming_ValueSize_def offs)
    have next16: "put_at off (put_be16 x) (xs @ drop off d) = (xs @ put_be16 x) @ drop k d"
      if "length xs = off" "k = off + 2" for off k x xs
      using put_at_next [OF that(1), of "put_be16 x" d] that(2) by simp
    have steps: "put_at 1 (put_be16 t1) ([f] @ drop 1 d) = ([f] @ put_be16 t1) @ drop 3 d"
      "put_at 3 (put_be16 t2) (([f] @ put_be16 t1) @ drop 3 d) = (([f] @ put_be16 t1) @ put_be16 t2) @ drop 5 d"
      "put_at 5 (put_be16 t3) ((([f] @ put_be16 t1) @ put_be16 t2) @ drop 5 d)
        = ((([f] @ put_be16 t1) @ put_be16 t2) @ put_be16 t3) @ drop 7 d"
      "put_at 7 (put_be16 t4) (((([f] @ put_be16 t1) @ put_be16 t2) @ put_be16 t3) @ drop 7 d)
        = (((([f] @ put_be16 t1) @ put_be16 t2) @ put_be16 t3) @ put_be16 t4) @ drop 9 d"
      "put_at 9 (put_be16 t5) ((((([f] @ put_be16 t1) @ put_be16 t2) @ put_be16 t3) @ put_be16 t4) @ drop 9 d)
        = ((((([f] @ put_be16 t1) @ put_be16 t2) @ put_be16 t3) @ put_be16 t4) @ put_be16 t5) @ drop 11 d"
      "put_at 11 (put_be16 t6) (((((([f] @ put_be16 t1) @ put_be16 t2) @ put_be16 t3) @ put_be16 t4) @ put_be16 t5) @ drop 11 d)
        = (((((([f] @ put_be16 t1) @ put_be16 t2) @ put_be16 t3) @ put_be16 t4) @ put_be16 t5) @ put_be16 t6) @ drop 13 d"
      for f t1 t2 t3 t4 t5 t6
      by (rule next16; simp)+
    have "VideoTiming_Write v d = Some (True, vt_flags v # put_be16 (encode_start_delta_ms v) @ put_be16 (encode_finish_delta_ms v)
        @ put_be16 (packetization_finish_delta_ms v) @ put_be16 (pacer_exit_delta_ms v)
        @ put_be16 (network_timestamp_delta_ms v) @ put_be16 (network2_timestamp_delta_ms v))"
      unfolding VideoTiming_Write_def offs Let_def put_at_first steps using d by simp
    then show ?thesis
      by (cases v) (simp add: VideoTiming_Parse_def VideoTiming_ValueSize_def offs wire_simps)
  qed
qed

subsection \<open>Extensions through a packet\<close>

text \<open>Setting \<open>v\<close> in a packet with room for it succeeds, and reading it back gives \<open>v'\<close>.\<close>

definition set_get :: "RTPExtensionType \<Rightarrow> ('v \<Rightarrow> nat) \<Rightarrow> (byte list \<Rightarrow> 'v \<Rightarrow> (bool \<times> 'v) option)
    \<Rightarrow> ('v \<Rightarrow> byte list \<Rightarrow> (bool \<times> byte list) option) \<Rightarrow> 'v \<Rightarrow> RtpPacket \<Rightarrow> 'v \<Rightarrow> 'v \<Rightarrow> bool" where
  "set_get t ValueSize Parse Write initial p v v' \<longleftrightarrow> (has_room t (ValueSize v) p \<longrightarrow>
     (\<exists>q. SetExtension t (ValueSize v) (Write v) p = (True, q) \<and> built_packet q
        \<and> GetExtension t initial Parse q = Some (Some v')))"

context header_extension
begin

lemma set_get_sent: "built_packet p \<Longrightarrow> valid v \<Longrightarrow> set_get kId ValueSize Parse Write initial p v (sent v)"
  using set_get_packet by (simp add: set_get_def)

end

text \<open>
  C4: setting a header extension in any packet built through the interface that has room for it
  succeeds, and reading it back from the packet gives the value: exactly for the send time, the capture time,
  the audio level, the transmission offset, the two transport sequence numbers, the orientation, the content type, the timing,
  the string extensions and the tracking id, with the top bit cleared for the levels of the
  contributing sources, and rounded down to ten milliseconds for the playout delay.
\<close>

theorem header_extensions_set_get:
  assumes "built_packet p" and "time24 < 2 ^ 24" and "snd level \<le> 0x7f" and "length levels \<le> kRtpCsrcSize"
    and "- (2 ^ 23) \<le> offset" and "offset < 2 ^ 23"
    and "\<forall>off. estimated_capture_clock_offset capture = Some off \<longrightarrow> - (2 ^ 63) \<le> off \<and> off < 2 ^ 63"
    and "\<forall>f. request = Some f \<longrightarrow> 1 \<le> sequence_count f \<and> sequence_count f < 2 ^ 15"
    and "playout_valid delay" and "IsValidContentType content"
    and "1 \<le> length str" and "length str \<le> BaseRtpStringExtension_kMaxValueSizeBytes" and "0 \<notin> set str"
  shows "set_get kRtpExtensionAbsoluteSendTime AbsoluteSendTime_ValueSize AbsoluteSendTime_Parse AbsoluteSendTime_Write 0
      p time24 time24
    \<and> set_get kRtpExtensionAbsoluteCaptureTime AbsoluteCaptureTime_ValueSize AbsoluteCaptureTime_Parse AbsoluteCaptureTime_Write
      \<lparr>absolute_capture_timestamp = 0, estimated_capture_clock_offset = None\<rparr> p capture capture
    \<and> set_get kRtpExtensionAudioLevel AudioLevel_ValueSize AudioLevel_Parse AudioLevel_Write (False, 0) p level level
    \<and> set_get kRtpExtensionCsrcAudioLevel CsrcAudioLevel_ValueSize CsrcAudioLevel_Parse CsrcAudioLevel_Write []
      p levels (map (\<lambda>b. b AND 0x7F) levels)
    \<and> set_get kRtpExtensionTransmissionTimeOffset TransmissionOffset_ValueSize TransmissionOffset_Parse TransmissionOffset_Write 0
      p offset offset
    \<and> set_get kRtpExtensionTransportSequenceNumber TransportSequenceNumber_ValueSize TransportSequenceNumber_Parse
      TransportSequenceNumber_Write 0 p n n
    \<and> set_get kRtpExtensionTransportSequenceNumber02 TransportSequenceNumberV2_ValueSize TransportSequenceNumberV2_Parse
      TransportSequenceNumberV2_Write (0, None) p (n, request) (n, request)
    \<and> set_get kRtpExtensionVideoRotation VideoOrientation_ValueSize VideoOrientation_Parse VideoOrientation_Write kVideoRotation_0
      p rotation rotation
    \<and> set_get kRtpExtensionPlayoutDelay PlayoutDelayLimits_ValueSize PlayoutDelayLimits_Parse PlayoutDelayLimits_Write
      \<lparr>min_ms = -1, max_ms = -1\<rparr> p delay \<lparr>min_ms = min_ms delay div 10 * 10, max_ms = max_ms delay div 10 * 10\<rparr>
    \<and> set_get kRtpExtensionVideoContentType VideoContentType_ValueSize (VideoContentType_Parse IsValidContentType)
      VideoContentType_Write 0 p content content
    \<and> set_get kRtpExtensionVideoTiming VideoTiming_ValueSize VideoTiming_Parse VideoTiming_Write timing0 p timing timing
    \<and> set_get kRtpExtensionMid BaseRtpStringExtension_ValueSize BaseRtpStringExtension_Parse BaseRtpStringExtension_Write []
      p str str
    \<and> set_get kRtpExtensionVideoFrameTrackingId VideoFrameTrackingId_ValueSize VideoFrameTrackingId_Parse
      VideoFrameTrackingId_Write 0 p n n"
proof (intro conjI)
  note p = assms(1)
  show "set_get kRtpExtensionAbsoluteSendTime AbsoluteSendTime_ValueSize AbsoluteSendTime_Parse AbsoluteSendTime_Write 0
      p time24 time24" by (rule abs_send_time.set_get_sent [OF p assms(2)])
  show "set_get kRtpExtensionAbsoluteCaptureTime AbsoluteCaptureTime_ValueSize AbsoluteCaptureTime_Parse AbsoluteCaptureTime_Write
      \<lparr>absolute_capture_timestamp = 0, estimated_capture_clock_offset = None\<rparr> p capture capture"
    by (rule abs_capture_time.set_get_sent [OF p assms(7)])
  show "set_get kRtpExtensionAudioLevel AudioLevel_ValueSize AudioLevel_Parse AudioLevel_Write (False, 0) p level level"
    using audio_level.set_get_sent [OF p, of level] assms(3) by (simp add: case_prod_beta)
  show "set_get kRtpExtensionCsrcAudioLevel CsrcAudioLevel_ValueSize CsrcAudioLevel_Parse CsrcAudioLevel_Write []
      p levels (map (\<lambda>b. b AND 0x7F) levels)" by (rule csrc_audio_level.set_get_sent [OF p assms(4)])
  show "set_get kRtpExtensionTransmissionTimeOffset TransmissionOffset_ValueSize TransmissionOffset_Parse TransmissionOffset_Write 0
      p offset offset" using transmission_offset.set_get_sent [OF p, of offset] assms(5,6) by simp
  show "set_get kRtpExtensionTransportSequenceNumber TransportSequenceNumber_ValueSize TransportSequenceNumber_Parse
      TransportSequenceNumber_Write 0 p n n" by (rule transport_sequence_number.set_get_sent [OF p]) simp
  show "set_get kRtpExtensionTransportSequenceNumber02 TransportSequenceNumberV2_ValueSize TransportSequenceNumberV2_Parse
      TransportSequenceNumberV2_Write (0, None) p (n, request) (n, request)"
    using transport_sequence_number_v2.set_get_sent [OF p, of "(n, request)"] assms(8) by simp
  show "set_get kRtpExtensionVideoRotation VideoOrientation_ValueSize VideoOrientation_Parse VideoOrientation_Write kVideoRotation_0
      p rotation rotation" by (rule video_orientation.set_get_sent [OF p]) simp
  show "set_get kRtpExtensionPlayoutDelay PlayoutDelayLimits_ValueSize PlayoutDelayLimits_Parse PlayoutDelayLimits_Write
      \<lparr>min_ms = -1, max_ms = -1\<rparr> p delay \<lparr>min_ms = min_ms delay div 10 * 10, max_ms = max_ms delay div 10 * 10\<rparr>"
    using playout_delay.set_get_sent [OF p assms(9)] by (simp add: playout_sent_def)
  show "set_get kRtpExtensionVideoContentType VideoContentType_ValueSize (VideoContentType_Parse IsValidContentType)
      VideoContentType_Write 0 p content content" using p assms(10) by (rule video_content_type.set_get_sent)
  show "set_get kRtpExtensionVideoTiming VideoTiming_ValueSize VideoTiming_Parse VideoTiming_Write timing0 p timing timing"
    by (rule video_timing.set_get_sent [OF p]) simp
  show "set_get kRtpExtensionMid BaseRtpStringExtension_ValueSize BaseRtpStringExtension_Parse BaseRtpStringExtension_Write []
      p str str" using rtp_string.set_get_sent [OF p, of str] assms(11-13) by simp
  show "set_get kRtpExtensionVideoFrameTrackingId VideoFrameTrackingId_ValueSize VideoFrameTrackingId_Parse
      VideoFrameTrackingId_Write 0 p n n" by (rule video_frame_tracking_id.set_get_sent [OF p]) simp
qed

theorem header_extensions_set_get_witness:
  "\<exists>q. SetExtension kRtpExtensionMid 2 (BaseRtpStringExtension_Write [0x61, 0x62]) sample_header = (True, q)
    \<and> GetExtension kRtpExtensionMid [] BaseRtpStringExtension_Parse q = Some (Some [0x61, 0x62])"
proof -
  have "set_get kRtpExtensionMid BaseRtpStringExtension_ValueSize BaseRtpStringExtension_Parse BaseRtpStringExtension_Write []
      sample_header [0x61, 0x62] [0x61, 0x62]"
    using header_extensions_set_get [OF sample_header_built, where ?time24.0 = 0 and level = "(False, 0)" and levels = "[]"
        and offset = 0 and capture = "\<lparr>absolute_capture_timestamp = 0, estimated_capture_clock_offset = None\<rparr>"
        and request = None and delay = "\<lparr>min_ms = 0, max_ms = 0\<rparr>" and IsValidContentType = "\<lambda>_. True"
        and str = "[0x61, 0x62]"]
    by (simp add: playout_valid_def kMaxMs_def kGranularityMs_def BaseRtpStringExtension_kMaxValueSizeBytes_def)
  then show ?thesis
    using sample_room by (auto simp: set_get_def BaseRtpStringExtension_ValueSize_def numeral_2_eq_2)
qed

text \<open>
  C39: the writer and the parser of the inband comfort noise extension use the top bit with opposite
  meanings: every level that is written is parsed as no level, and no level as level zero.
\<close>

theorem InbandComfortNoise_mismatch:
  assumes "l \<le> 127" and "length data = InbandComfortNoise_kValueSizeBytes"
  shows "(\<exists>d. InbandComfortNoise_Write (Some l) data = Some (True, d) \<and> InbandComfortNoise_Parse d v = Some (True, None))
    \<and> (\<exists>d. InbandComfortNoise_Write None data = Some (True, d) \<and> InbandComfortNoise_Parse d v = Some (True, Some 0))"
proof (intro conjI)
  have d: "length data = 1" using assms(2) by (simp add: InbandComfortNoise_kValueSizeBytes_def)
  have "unat l < 128" using assms(1) by (simp add: word_le_nat_alt)
  then have "byte1 True l AND 0x80 \<noteq> 0" using byte1(1) [of l True] by simp
  then show "\<exists>d. InbandComfortNoise_Write (Some l) data = Some (True, d) \<and> InbandComfortNoise_Parse d v = Some (True, None)"
    using d assms(1) by (simp add: InbandComfortNoise_Write_def InbandComfortNoise_Parse_def put_at_all Let_def
        InbandComfortNoise_kValueSizeBytes_def get_u8_here byte1_def not_less)
  show "\<exists>d. InbandComfortNoise_Write None data = Some (True, d) \<and> InbandComfortNoise_Parse d v = Some (True, Some 0)"
    using d by (simp add: InbandComfortNoise_Write_def InbandComfortNoise_Parse_def put_at_all
        InbandComfortNoise_kValueSizeBytes_def get_u8_here)
qed

theorem InbandComfortNoise_mismatch_witness:
  "\<exists>d. InbandComfortNoise_Write (Some 20) [0] = Some (True, d) \<and> InbandComfortNoise_Parse d None = Some (True, None)"
  using InbandComfortNoise_mismatch [of 20 "[0]" None] by (simp add: InbandComfortNoise_kValueSizeBytes_def)

end
