(* ===== verification/Rtp_Format.thy ===== *)
theory Rtp_Format
  imports Rtp_Packet_Interface "HOL-Library.Signed_Division"
begin

text \<open>
  Packetizing of video frames: \<open>rtp_format\<close> (the split of a payload into parts of about equal size), \<open>rtp_format_video_generic\<close> and the
  generic and raw depacketizers. The locale \<open>packetizer\<close> is the contract of the interface \<open>RtpPacketizer\<close>; the generic packetizer here and the one for
  H.264 in \<open>Rtp_H264\<close> are interpretations of it.
\<close>

subsection \<open>Splitting a payload\<close>

record PayloadSizeLimits =
  max_payload_len :: int
  first_packet_reduction_len :: int
  last_packet_reduction_len :: int
  single_packet_reduction_len :: int

text \<open>The sums and differences of \<open>int\<close> values; \<open>None\<close> where they overflow.\<close>

definition int_result :: "int \<Rightarrow> int option" where
  "int_result x = (if - (2 ^ 31) \<le> x \<and> x < 2 ^ 31 then Some x else None)"

text \<open>The loop of \<open>SplitAboutEqually\<close>. For reductions that are not negative its values lie between 0 and
  \<open>total_bytes\<close>; that it ends is part of the theorem on it.\<close>

partial_function (option) split_loop :: "int \<Rightarrow> int \<Rightarrow> int \<Rightarrow> int \<Rightarrow> int \<Rightarrow> bool \<Rightarrow> int list option" where
  "split_loop reduction num_packets_left num_larger_packets bytes_per_packet remaining_data first_packet =
     (if \<not> remaining_data > 0 then Some []
      else
        let bytes_per_packet = (if num_packets_left = num_larger_packets then bytes_per_packet + 1 else bytes_per_packet);
            current = (if first_packet then if bytes_per_packet > reduction + 1 then bytes_per_packet - reduction else 1 else bytes_per_packet);
            current = (if current > remaining_data then remaining_data else current);
            current = (if num_packets_left = 2 \<and> current = remaining_data then current - 1 else current)
        in do {
          rest \<leftarrow> split_loop reduction (num_packets_left - 1) num_larger_packets bytes_per_packet (remaining_data - current) False;
          Some (current # rest) })"

text \<open>\<open>None\<close> is an overflow, a division by zero, or a loop that does not end.\<close>

definition SplitAboutEqually :: "int \<Rightarrow> PayloadSizeLimits \<Rightarrow> int list option" where
  "SplitAboutEqually payload_len limits = do {
     single \<leftarrow> int_result (single_packet_reduction_len limits + payload_len);
     if max_payload_len limits \<ge> single then Some [payload_len]
     else do {
       first_room \<leftarrow> int_result (max_payload_len limits - first_packet_reduction_len limits);
       if first_room < 1 then Some []
       else do {
         last_room \<leftarrow> int_result (max_payload_len limits - last_packet_reduction_len limits);
         if last_room < 1 then Some []
         else do {
           with_first \<leftarrow> int_result (payload_len + first_packet_reduction_len limits);
           total_bytes \<leftarrow> int_result (with_first + last_packet_reduction_len limits);
           with_max \<leftarrow> int_result (total_bytes + max_payload_len limits);
           dividend \<leftarrow> int_result (with_max - 1);
           if max_payload_len limits = 0 then None
           else
             let num_packets_left = dividend sdiv max_payload_len limits;
                 num_packets_left = (if num_packets_left = 1 then 2 else num_packets_left)
             in if payload_len < num_packets_left then Some []
                else if num_packets_left = 0 then None
                else split_loop (first_packet_reduction_len limits) num_packets_left (total_bytes smod num_packets_left)
                       (total_bytes sdiv num_packets_left) payload_len True } } } }"

text \<open>
  What a split has to be: positive parts that add up to the payload, a single one within the limit for single packets, or the first, the last
  and all parts within theirs.
\<close>

definition valid_split :: "PayloadSizeLimits \<Rightarrow> int \<Rightarrow> int list \<Rightarrow> bool" where
  "valid_split limits n cs \<longleftrightarrow> cs \<noteq> [] \<and> sum_list cs = n \<and> (\<forall>c \<in> set cs. 0 < c) \<and>
     (if length cs = 1 then n \<le> max_payload_len limits - single_packet_reduction_len limits
      else hd cs \<le> max_payload_len limits - first_packet_reduction_len limits \<and>
        last cs \<le> max_payload_len limits - last_packet_reduction_len limits \<and> (\<forall>c \<in> set cs. c \<le> max_payload_len limits))"

text \<open>Payload and limits for which no sum overflows.\<close>

definition split_range :: "int \<Rightarrow> PayloadSizeLimits \<Rightarrow> bool" where
  "split_range len limits \<longleftrightarrow> 0 < len \<and> 0 \<le> first_packet_reduction_len limits \<and> 0 \<le> last_packet_reduction_len limits \<and>
     0 \<le> single_packet_reduction_len limits \<and>
     len + first_packet_reduction_len limits + last_packet_reduction_len limits + single_packet_reduction_len limits
       + \<bar>max_payload_len limits\<bar> < 2 ^ 31"

lemma split_loop_done: "split_loop f k lg b 0 first = Some []"
  by (simp add: split_loop.simps[of f k lg b 0])

lemma split_loop_step:
  assumes "0 < r" "b' = (if k = lg then b + 1 else b)" "c0 = (if first then if b' > f + 1 then b' - f else 1 else b')"
    "c1 = min c0 r" "c = (if k = 2 \<and> c1 = r then c1 - 1 else c1)"
  shows "split_loop f k lg b r first = do { rest \<leftarrow> split_loop f (k - 1) lg b' (r - c) False; Some (c # rest) }"
  using assms by (subst split_loop.simps) (simp add: Let_def min_def)

lemma split_loop_last:
  assumes "0 < r" "r \<le> (if lg = 1 then b + 1 else b)"
  shows "split_loop f 1 lg b r False = Some [r]"
proof -
  have "min (if 1 = lg then b + 1 else b) r = r" using assms(2) by (auto simp: min_def)
  then show ?thesis using split_loop_step[OF assms(1) refl refl refl refl, of f 1 lg b False] by (simp add: split_loop_done)
qed

lemma split_loop_rest:
  fixes k :: nat and b lg :: int
  assumes "2 \<le> k" "1 \<le> b" "0 \<le> lg" "b + (if 0 < lg then 1 else 0) \<le> mx" "0 \<le> l" "l < mx" "l \<le> e" "r = int k * b + min (int k) lg - e"
    "\<forall>j. 2 \<le> j \<and> j \<le> int k \<longrightarrow> j \<le> j * b + min j lg - e"
  shows "\<exists>cs. split_loop f (int k) lg (if int k < lg then b + 1 else b) r False = Some cs \<and> length cs = k \<and> sum_list cs = r \<and>
    (\<forall>c \<in> set cs. 0 < c \<and> c \<le> mx) \<and> last cs \<le> mx - l"
  using assms(1,8,9)
proof (induction k arbitrary: r rule: nat_induct_at_least)
  case base
  let ?a2 = "if 2 \<le> lg then b + 1 else b" and ?a1 = "if 1 \<le> lg then b + 1 else b"
  let ?c = "if ?a2 < r then ?a2 else r - 1"
  have r: "2 \<le> r" using base by auto
  have "split_loop f 2 lg (if 2 < lg then b + 1 else b) r False = do { rest \<leftarrow> split_loop f 1 lg ?a2 (r - ?c) False; Some (?c # rest) }"
    by (subst split_loop_step[OF _ refl refl refl refl]) (use r in \<open>auto simp: min_def\<close>)
  moreover have p: "0 < r - ?c" "r - ?c \<le> ?a1" "r - ?c \<le> mx - l"
    using base assms(2-7) by (auto split: if_splits)
  have "split_loop f 1 lg ?a2 (r - ?c) False = Some [r - ?c]"
    by (rule split_loop_last[OF p(1)]) (use p(2) in auto)
  ultimately have "split_loop f 2 lg (if 2 < lg then b + 1 else b) r False = Some [?c, r - ?c]" by simp
  moreover have "0 < ?c" "?c \<le> mx" using r assms(2,4) by (auto split: if_splits)
  ultimately show ?case using p r assms(5) by (intro exI[of _ "[?c, r - ?c]"]) auto
next
  case (Suc k)
  let ?c = "if int k < lg then b + 1 else b"
  let ?r = "int k * b + min (int k) lg - e"
  have "int k \<le> ?r" using Suc by simp
  then have r: "r = ?r + ?c" using Suc.prems by (auto simp: algebra_simps min_def split: if_splits)
  have c: "0 < ?c" "?c \<le> mx" using assms(2-4) by (auto split: if_splits)
  obtain cs where cs: "split_loop f (int k) lg ?c ?r False = Some cs" "length cs = k" "sum_list cs = ?r"
      "\<forall>c \<in> set cs. 0 < c \<and> c \<le> mx" "last cs \<le> mx - l"
    using Suc.IH[of ?r] Suc.prems by auto
  have "split_loop f (int (Suc k)) lg (if int (Suc k) < lg then b + 1 else b) r False = do { rest \<leftarrow> split_loop f (int k) lg ?c ?r False; Some (?c # rest) }"
    by (subst split_loop_step[OF _ refl refl refl refl]) (use r c \<open>int k \<le> ?r\<close> Suc.hyps in \<open>auto simp: min_def\<close>)
  then show ?case using cs c r Suc.hyps by (intro exI[of _ "?c # cs"]) auto
qed

lemma room_for_rest:
  fixes k n b lg m :: int
  assumes "2 \<le> k" "k < n" "0 \<le> lg" "lg < n" "0 \<le> m" "(n - 1) * (m + 1) + 1 \<le> n * b + lg" "n * b + lg \<le> n * (m + 1)"
  shows "k + 1 + 2 * m \<le> (k + 1) * b + min k lg" "b + (if 0 < lg then 1 else 0) \<le> m + 1"
proof -
  have "n * b \<le> n * (m + 1)" using assms(3,7) by linarith
  then have b: "b \<le> m + 1" using assms(1,2) by (simp add: mult_le_cancel_left)
  have b': "b \<le> m" if "0 < lg"
  proof -
    have "n * b < n * (m + 1)" using that assms(7) by linarith
    then show ?thesis using assms(1,2) by (simp add: mult_less_cancel_left)
  qed
  then show "b + (if 0 < lg then 1 else 0) \<le> m + 1" using b by auto
  have km: "2 * m \<le> k * m" using assms(1,5) by (intro mult_right_mono) auto
  show "k + 1 + 2 * m \<le> (k + 1) * b + min k lg"
  proof (cases "lg \<le> k")
    case True
    have "(n - k - 1) * b \<le> (n - k - 1) * (m + 1)" using b assms(2) by (intro mult_left_mono) auto
    then show ?thesis using assms(6) km True by (simp add: algebra_simps)
  next
    case False
    then have "(n - k - 1) * b \<le> (n - k - 1) * m" using b' assms(1,2) by (intro mult_left_mono) auto
    then show ?thesis using assms(4,6) km False by (simp add: algebra_simps)
  qed
qed

lemma split_loop_all:
  fixes n b lg len :: int
  assumes "2 \<le> n" "n \<le> len" "0 \<le> lg" "lg < n" "0 \<le> f" "f < mx" "0 \<le> l" "l < mx"
    "len + f + l = n * b + lg" "n = 2 \<or> (n - 1) * mx + 1 \<le> n * b + lg" "n * b + lg \<le> n * mx"
  shows "\<exists>cs. split_loop f n lg b len True = Some cs \<and> int (length cs) = n \<and> sum_list cs = len \<and>
    (\<forall>c \<in> set cs. 0 < c \<and> c \<le> mx) \<and> hd cs \<le> mx - f \<and> last cs \<le> mx - l"
proof -
  have b1: "1 \<le> b"
  proof (rule ccontr)
    assume "\<not> 1 \<le> b"
    then have "n * b \<le> n * 0" using assms(1) by (intro mult_left_mono) auto
    then show False using assms(2-5,7,9) by simp
  qed
  have bm: "b \<le> mx"
  proof -
    have "n * b \<le> n * mx" using assms(3,11) by linarith
    then show ?thesis using assms(1) by (simp add: mult_le_cancel_left)
  qed
  define c where "c = (if b > f + 1 then b - f else 1)"
  have c: "0 < c" "c \<le> mx - f" unfolding c_def using bm assms(6) by auto
  show ?thesis
  proof (cases "n = 2")
    case True
    let ?c = "if c < len then c else len - 1"
    have "split_loop f n lg b len True = do { rest \<leftarrow> split_loop f 1 lg b (len - ?c) False; Some (?c # rest) }"
      by (subst split_loop_step[OF _ refl refl refl refl]) (use assms(1,2,4) c True in \<open>auto simp: min_def c_def\<close>)
    moreover have p: "0 < len - ?c" "len - ?c \<le> (if lg = 1 then b + 1 else b)" "len - ?c \<le> mx - l" "0 < ?c" "?c \<le> mx - f"
      using assms c b1 bm True by (auto simp: c_def split: if_splits)
    moreover note split_loop_last[OF p(1,2), of f]
    ultimately show ?thesis using assms(5,7) True by (intro exI[of _ "[?c, len - ?c]"]) auto
  next
    case False
    then have n3: "3 \<le> n" "(n - 1) * mx + 1 \<le> n * b + lg" using assms(1,10) by auto
    define k where "k = nat (n - 1)"
    have k: "2 \<le> k" "int k = n - 1" using n3 by (auto simp: k_def)
    define e where "e = l + (if b > f + 1 then 0 else f + 1 - b)"
    have room: "j \<le> j * b + min j lg - e" if "2 \<le> j" "j \<le> int k" for j
      using room_for_rest(1)[of j n lg "mx - 1" b] that k n3 assms(3,4,6-8,11) bm by (auto simp: e_def algebra_simps)
    have r: "len - c = int k * b + min (int k) lg - e"
      using assms(4,9) k by (auto simp: e_def c_def algebra_simps min_def)
    have "int k \<le> len - c" using room[of "int k"] k r by simp
    then have "split_loop f n lg b len True = do { rest \<leftarrow> split_loop f (int k) lg b (len - c) False; Some (c # rest) }"
      by (subst split_loop_step[OF _ refl refl refl refl]) (use k n3 assms(4) c in \<open>auto simp: min_def c_def split: if_splits\<close>)
    moreover have "\<not> int k < lg" using k assms(4) by simp
    ultimately have st: "split_loop f n lg b len True = do { rest \<leftarrow> split_loop f (int k) lg (if int k < lg then b + 1 else b) (len - c) False; Some (c # rest) }"
      by simp
    have bb: "b + (if 0 < lg then 1 else 0) \<le> mx" using room_for_rest(2)[of 2 n lg "mx - 1" b] n3 assms(3-8,11) by simp
    have "l \<le> e" by (auto simp: e_def)
    then obtain cs where "split_loop f (int k) lg (if int k < lg then b + 1 else b) (len - c) False = Some cs" "length cs = k" "sum_list cs = len - c"
        "\<forall>c \<in> set cs. 0 < c \<and> c \<le> mx" "last cs \<le> mx - l"
      using split_loop_rest[OF k(1) b1 assms(3) bb assms(7,8) _ r, of f] room by blast
    then show ?thesis using st c k assms(5) by (intro exI[of _ "c # cs"]) auto
  qed
qed

lemma sum_list_bound: "\<forall>c \<in> set cs. c \<le> (m :: int) \<Longrightarrow> sum_list cs \<le> int (length cs) * m"
  by (induction cs) (auto simp: algebra_simps)

lemma sum_list_positive: "\<forall>c \<in> set cs. 0 < (c :: int) \<Longrightarrow> int (length cs) \<le> sum_list cs"
  by (induction cs) auto

lemma valid_split_length:
  assumes "valid_split limits len ds" "length ds \<noteq> 1"
  shows "len + first_packet_reduction_len limits + last_packet_reduction_len limits \<le> int (length ds) * max_payload_len limits" "2 \<le> length ds"
proof -
  obtain x ys where ds: "ds = x # ys" "ys \<noteq> []" using assms by (cases ds) (auto simp: valid_split_def)
  then obtain zs z where ys: "ys = zs @ [z]" by (cases ys rule: rev_cases) auto
  have "sum_list zs \<le> int (length zs) * max_payload_len limits" using assms by (intro sum_list_bound) (auto simp: valid_split_def ds ys)
  then show "len + first_packet_reduction_len limits + last_packet_reduction_len limits \<le> int (length ds) * max_payload_len limits" "2 \<le> length ds"
    using assms by (auto simp: valid_split_def ds ys algebra_simps)
qed

lemma ceil_div:
  fixes t m :: int
  assumes "0 < t" "0 < m"
  defines "n \<equiv> (t + m - 1) sdiv m"
  shows "t \<le> n * m" "(n - 1) * m + 1 \<le> t" "1 \<le> n"
proof -
  have n: "n = (t + m - 1) div m" using assms(1,2) by (simp add: n_def signed_divide_int_def)
  have "n * m + (t + m - 1) mod m = t + m - 1" by (simp add: n)
  moreover have "0 \<le> (t + m - 1) mod m" "(t + m - 1) mod m < m" using assms(2) by simp_all
  ultimately show "t \<le> n * m" "(n - 1) * m + 1 \<le> t" by (simp_all add: algebra_simps)
  have "1 * m \<le> t + m - 1" using assms(1) by simp
  then show "1 \<le> n" unfolding n using assms(2) by (simp add: pos_imp_zdiv_pos_iff int_one_le_iff_zero_less)
qed

text \<open>The fewest parts, and an empty result exactly when there is no split.\<close>

definition fewest_split :: "PayloadSizeLimits \<Rightarrow> int \<Rightarrow> int list \<Rightarrow> bool" where
  "fewest_split limits len cs \<longleftrightarrow> (if cs = [] then \<not> (\<exists>ds. valid_split limits len ds)
     else valid_split limits len cs \<and> (\<forall>ds. valid_split limits len ds \<longrightarrow> length cs \<le> length ds))"

lemma SplitAboutEqually_ok:
  assumes range: "split_range len limits"
  shows "\<exists>cs. SplitAboutEqually len limits = Some cs \<and> fewest_split limits len cs"
proof -
  let ?mx = "max_payload_len limits" and ?f = "first_packet_reduction_len limits" and ?l = "last_packet_reduction_len limits"
  let ?t = "len + ?f + ?l"
  have assms: "0 < len" "0 \<le> ?f" "0 \<le> ?l" using range by (simp_all add: split_range_def)
  have int: "int_result (single_packet_reduction_len limits + len) = Some (single_packet_reduction_len limits + len)"
      "int_result (?mx - ?f) = Some (?mx - ?f)" "int_result (?mx - ?l) = Some (?mx - ?l)" "int_result (len + ?f) = Some (len + ?f)"
      "int_result ?t = Some ?t" "int_result (?t + ?mx) = Some (?t + ?mx)" "int_result (?t + ?mx - 1) = Some (?t + ?mx - 1)"
    using range by (auto simp: split_range_def int_result_def abs_if split: if_splits)
  consider (single) "len \<le> ?mx - single_packet_reduction_len limits"
    | (full) "\<not> len \<le> ?mx - single_packet_reduction_len limits" "?mx - ?f < 1 \<or> ?mx - ?l < 1"
    | (many) "\<not> len \<le> ?mx - single_packet_reduction_len limits" "?f < ?mx" "?l < ?mx" by linarith
  then show ?thesis
  proof cases
    case single
    then have "SplitAboutEqually len limits = Some [len]" "valid_split limits len [len]"
      using assms(1) by (simp_all add: SplitAboutEqually_def valid_split_def int)
    moreover have "1 \<le> length ds" if "valid_split limits len ds" for ds using that by (cases ds) (auto simp: valid_split_def)
    ultimately show ?thesis by (auto simp: fewest_split_def)
  next
    case full
    have "\<not> valid_split limits len ds" for ds
    proof
      assume v: "valid_split limits len ds"
      then have "0 < hd ds" "0 < last ds" by (simp_all add: valid_split_def)
      moreover have "hd ds \<le> ?mx - ?f" "last ds \<le> ?mx - ?l" using v full(1) by (simp_all add: valid_split_def split: if_splits)
      ultimately show False using full(2) by linarith
    qed
    then show ?thesis using full by (auto simp: SplitAboutEqually_def int fewest_split_def)
  next
    case many
    define q where "q = (?t + ?mx - 1) sdiv ?mx"
    define n where "n = (if q = 1 then 2 else q)"
    have q: "?t \<le> q * ?mx" "(q - 1) * ?mx + 1 \<le> ?t" "1 \<le> q" using ceil_div[of ?t ?mx] assms many by (auto simp: q_def)
    have tn: "?t \<le> n * ?mx" "2 \<le> n" using q many assms by (auto simp: n_def)
    have least: "n \<le> int (length ds)" if "valid_split limits len ds" for ds
    proof -
      have ne: "length ds \<noteq> 1" using that many by (auto simp: valid_split_def)
      have "(q - 1) * ?mx < int (length ds) * ?mx" using valid_split_length(1)[OF that ne] q(2) by linarith
      then have "q \<le> int (length ds)" using many assms by (simp add: mult_less_cancel_right)
      then show ?thesis using valid_split_length(2)[OF that ne] by (simp add: n_def)
    qed
    have e: "SplitAboutEqually len limits = (if len < n then Some [] else split_loop ?f n (?t smod n) (?t sdiv n) len True)"
    proof -
      have "\<not> ?mx \<ge> single_packet_reduction_len limits + len" "\<not> ?mx - ?f < 1" "\<not> ?mx - ?l < 1" "?mx \<noteq> 0" "n \<noteq> 0" using many assms tn by auto
      then show ?thesis
        unfolding SplitAboutEqually_def Let_def int Option.bind.bind_lunit q_def[symmetric] n_def[symmetric] by (simp only: if_False)
    qed
    show ?thesis
    proof (cases "len < n")
      case True
      have "\<not> valid_split limits len ds" for ds
      proof
        assume v: "valid_split limits len ds"
        then have "int (length ds) \<le> len" using sum_list_positive[of ds] by (simp add: valid_split_def)
        then show False using least[OF v] True by simp
      qed
      then show ?thesis using e True by (simp add: fewest_split_def)
    next
      case False
      have d: "?t sdiv n = ?t div n" "?t smod n = ?t mod n"
        using assms tn by (simp_all add: signed_divide_int_def signed_modulo_int_def minus_div_mult_eq_mod)
      have "?t = n * (?t div n) + ?t mod n" "0 \<le> ?t mod n" "?t mod n < n" using tn by simp_all
      moreover have "n = 2 \<or> (n - 1) * ?mx + 1 \<le> ?t" using q by (auto simp: n_def)
      ultimately obtain cs where cs: "split_loop ?f n (?t smod n) (?t sdiv n) len True = Some cs" "int (length cs) = n" "sum_list cs = len"
          "\<forall>c \<in> set cs. 0 < c \<and> c \<le> ?mx" "hd cs \<le> ?mx - ?f" "last cs \<le> ?mx - ?l"
        using split_loop_all[of n len "?t mod n" ?f ?mx ?l "?t div n"] tn False many assms unfolding d by auto
      then have "valid_split limits len cs" "cs \<noteq> []" using tn(2) by (auto simp: valid_split_def)
      then show ?thesis using e cs least False by (intro exI[of _ cs]) (auto simp: fewest_split_def)
    qed
  qed
qed

text \<open>
  C11: \<open>SplitAboutEqually\<close> returns for every positive payload length and all reductions that are not negative (as long as their sum with the
  maximal length is an \<open>int\<close>). It returns a split with the fewest packets: positive sizes that add up to the payload, with the first, the last, a single
  packet and all packets within their limits, and no such split has fewer packets. It returns the empty vector exactly when there is none.
\<close>

theorem SplitAboutEqually_optimal:
  assumes "split_range len limits"
  shows "\<exists>cs. SplitAboutEqually len limits = Some cs \<and>
    (cs \<noteq> [] \<longrightarrow> valid_split limits len cs \<and> (\<forall>ds. valid_split limits len ds \<longrightarrow> length cs \<le> length ds)) \<and>
    (cs = [] \<longleftrightarrow> \<not> (\<exists>ds. valid_split limits len ds))"
  using SplitAboutEqually_ok[OF assms] by (auto simp: fewest_split_def split: if_splits)

definition sample_limits :: PayloadSizeLimits where
  "sample_limits = \<lparr>max_payload_len = 10, first_packet_reduction_len = 3, last_packet_reduction_len = 2, single_packet_reduction_len = 5\<rparr>"

theorem SplitAboutEqually_optimal_witness:
  "\<exists>cs. SplitAboutEqually 23 sample_limits = Some cs \<and> (cs \<noteq> [] \<longrightarrow> sum_list cs = 23)"
  using SplitAboutEqually_optimal[of 23 sample_limits] by (auto simp: split_range_def sample_limits_def valid_split_def)

subsection \<open>Payloads of packets\<close>

text \<open>\<open>RtpPacket::payload()\<close> and \<open>FreeCapacity()\<close>.\<close>

definition packet_payload :: "RtpPacket \<Rightarrow> byte list" where
  "packet_payload p = load (payload_offset p) (rtp_payload_size p) (buf p)"

definition FreeCapacity :: "RtpPacket \<Rightarrow> nat" where
  "FreeCapacity p = size_sub (buf_cap p) (rtp_size p)"

definition blank :: "nat \<Rightarrow> RtpPacket \<Rightarrow> bool" where
  "blank n p \<longleftrightarrow> built_packet p \<and> rtp_payload_size p = 0 \<and> rtp_padding_size p = 0 \<and> payload_offset p + n \<le> buf_cap p"

definition packet_sent :: "RtpPacket \<Rightarrow> byte list \<Rightarrow> bool \<Rightarrow> RtpPacket \<Rightarrow> bool" where
  "packet_sent p x m q \<longleftrightarrow> built_packet q \<and> packet_payload q = x \<and> header_fields q = (m, snd (header_fields p)) \<and>
     rtp_extensions q = rtp_extensions p"

fun drain :: "('s \<Rightarrow> RtpPacket \<Rightarrow> bool \<times> 's \<times> RtpPacket) \<Rightarrow> 's \<Rightarrow> RtpPacket list \<Rightarrow> bool list \<times> 's \<times> RtpPacket list" where
  "drain next s [] = ([], s, [])"
| "drain next s (p # ps) =
     (let (ok, s, q) = next s p; (oks, s, qs) = drain next s ps in (ok # oks, s, q # qs))"

subsection \<open>Sending a payload\<close>

lemma blank_rep: "blank n p \<Longrightarrow> \<exists>cs one es. rtp_rep p cs one es"
  unfolding blank_def using built_packet_ok by blast

lemma built_AllocatePayload:
  assumes "blank n p"
  shows "AllocatePayload n p = (Some (payload_offset p), p\<lparr>rtp_payload_size := n, buf_size := payload_offset p + n\<rparr>)"
    "built_packet (p\<lparr>rtp_payload_size := n, buf_size := payload_offset p + n\<rparr>)"
proof -
  obtain cs one es where rep: "rtp_rep p cs one es" using blank_rep[OF assms] by blast
  show "AllocatePayload n p = (Some (payload_offset p), p\<lparr>rtp_payload_size := n, buf_size := payload_offset p + n\<rparr>)"
    using AllocatePayload_rep(1)[OF rep] assms by (simp add: blank_def)
  show "built_packet (p\<lparr>rtp_payload_size := n, buf_size := payload_offset p + n\<rparr>)"
    using built_packet.payload_size[of p n] assms by (simp add: blank_def SetPayloadSize_def)
qed

lemma sent_payload:
  assumes "blank (length x) p"
  shows "packet_sent p x m (SetMarker m (WriteAt (payload_offset p) x (p\<lparr>rtp_payload_size := length x, buf_size := payload_offset p + length x\<rparr>)))"
proof -
  let ?a = "p\<lparr>rtp_payload_size := length x, buf_size := payload_offset p + length x\<rparr>"
  let ?w = "WriteAt (payload_offset p) x ?a"
  have "built_packet ?a" by (rule built_AllocatePayload(2)[OF assms])
  then have "built_packet ?w" using built_packet.payload[of ?a 0 x] by simp
  then have b: "built_packet (SetMarker m ?w)" by (rule built_packet.marker)
  obtain cs one es where rep: "rtp_rep p cs one es" using blank_rep[OF assms] by blast
  then have "12 \<le> payload_offset p" using rtp_rep_offset by fastforce
  then have "load (payload_offset p) (length x) (store 1 [c] (store (payload_offset p) x (buf p))) = x" for c
    by (subst load_store_other) (auto simp: load_store_same)
  then have "packet_payload (SetMarker m ?w) = x" by (simp add: packet_payload_def SetMarker_def Let_def)
  moreover have "header_fields (SetMarker m ?w) = (m, snd (header_fields p))" by (simp add: header_fields_def SetMarker_def Let_def)
  ultimately show ?thesis using b by (simp add: packet_sent_def)
qed

text \<open>A packet that was sent is received with the same payload.\<close>

lemma received_payload:
  assumes "built_packet q" "rtp_extensions r = rtp_extensions q"
  shows "\<exists>q'. rtp_Parse grow m (load 0 (rtp_size q) (buf q)) (rtp_size q) r = Some (True, q') \<and> packet_payload q' = packet_payload q \<and>
    header_fields q' = header_fields q"
proof -
  obtain cs one es where rep: "rtp_rep q cs one es" using built_packet_ok[OF assms(1)] by blast
  obtain q' where q': "rtp_Parse grow m (load 0 (rtp_size q) (buf q)) (rtp_size q) r = Some (True, q')" "header_fields q' = header_fields q"
      "layout_fields q' = layout_fields q" "load 0 (rtp_size q) (buf q') = load 0 (rtp_size q) (buf q)"
    using rtp_Parse_rep[OF rep assms(2), of grow m] by blast
  have "buf q' i = buf q i" if "i < rtp_size q" for i
    using arg_cong[OF q'(4), of "\<lambda>xs. xs ! i"] that by simp
  then have "packet_payload q' = packet_payload q"
    using q'(3) by (auto simp: packet_payload_def layout_fields_def rtp_size_def intro!: nth_equalityI)
  then show ?thesis using q' by blast
qed

text \<open>The bytes of a packet are parsed into the packet \<open>r\<close>; what arrives is the marker and the payload.\<close>

definition over_wire :: "(nat \<Rightarrow> nat \<Rightarrow> nat) \<Rightarrow> (nat \<Rightarrow> byte) \<Rightarrow> RtpPacket \<Rightarrow> RtpPacket \<Rightarrow> (bool \<times> byte list) option" where
  "over_wire grow m r q = (case rtp_Parse grow m (load 0 (rtp_size q) (buf q)) (rtp_size q) r of
     Some (True, q') \<Rightarrow> Some (rtp_marker q', packet_payload q') | _ \<Rightarrow> None)"

definition last_marked :: "'a list \<Rightarrow> (bool \<times> 'a) list" where
  "last_marked xs = map (\<lambda>i. (Suc i = length xs, xs ! i)) [0..<length xs]"

lemma over_wire_sent:
  assumes "packet_sent p x b q" "rtp_extensions r = rtp_extensions p"
  shows "over_wire grow m r q = Some (b, x)"
  using received_payload[of q r grow m] assms by (auto simp: packet_sent_def over_wire_def header_fields_def)

subsection \<open>The interface of a packetizer\<close>

text \<open>
  The contract of \<open>RtpPacketizer\<close>: a packetizer holds a list of payloads, \<open>NumPackets\<close> is their number, and \<open>NextPacket\<close> puts the first one
  into the packet it is given and sets the marker on the last one.
\<close>

locale packetizer =
  fixes next_packet :: "'s \<Rightarrow> RtpPacket \<Rightarrow> bool \<times> 's \<times> RtpPacket"
    and num_packets :: "'s \<Rightarrow> nat"
    and holds :: "'s \<Rightarrow> byte list list \<Rightarrow> bool"
  assumes next_end: "holds s [] \<Longrightarrow> next_packet s p = (False, s, p)"
    and next_more: "holds s (x # xs) \<Longrightarrow> blank (length x) p \<Longrightarrow>
      \<exists>s' q. next_packet s p = (True, s', q) \<and> holds s' xs \<and> packet_sent p x (xs = []) q"
    and num_holds: "holds s xs \<Longrightarrow> num_packets s = length xs"
begin

lemma drain_all:
  assumes "holds s xs" "list_all2 (\<lambda>x. blank (length x)) xs ps"
  shows "\<exists>s' qs. drain next_packet s ps = (replicate (length xs) True, s', qs) \<and> holds s' [] \<and> length qs = length xs \<and>
    (\<forall>i < length xs. packet_sent (ps ! i) (xs ! i) (Suc i = length xs) (qs ! i))"
  using assms(2,1)
proof (induction xs ps arbitrary: s rule: list_all2_induct)
  case (Cons x xs p ps)
  obtain s1 q where n: "next_packet s p = (True, s1, q)" "holds s1 xs" "packet_sent p x (xs = []) q"
    using next_more[OF Cons.prems Cons.hyps(1)] by blast
  obtain s2 qs where d: "drain next_packet s1 ps = (replicate (length xs) True, s2, qs)" "holds s2 []" "length qs = length xs"
      "\<forall>i < length xs. packet_sent (ps ! i) (xs ! i) (Suc i = length xs) (qs ! i)"
    using Cons.IH[OF n(2)] by blast
  have "packet_sent ((p # ps) ! i) ((x # xs) ! i) (Suc i = length (x # xs)) ((q # qs) ! i)" if "i < length (x # xs)" for i
    using that n(3) d(4) by (cases i) (auto simp: length_0_conv)
  then show ?case using n(1) d by (intro exI[of _ s2] exI[of _ "q # qs"]) simp
qed simp

lemma sends_all:
  assumes "holds s xs" "length ps = length xs" "\<forall>p \<in> set ps. rtp_extensions p = rtp_extensions r" "\<forall>p \<in> set ps. \<forall>x \<in> set xs. blank (length x) p"
  shows "\<exists>s' qs. drain next_packet s ps = (replicate (length xs) True, s', qs) \<and> (\<forall>p. next_packet s' p = (False, s', p)) \<and>
    map (over_wire grow m r) qs = map Some (last_marked xs)"
proof -
  have "list_all2 (\<lambda>x. blank (length x)) xs ps" using assms(2,4) by (auto simp: list_all2_conv_all_nth)
  then obtain s' qs where d: "drain next_packet s ps = (replicate (length xs) True, s', qs)" "holds s' []" "length qs = length xs"
      "\<forall>i < length xs. packet_sent (ps ! i) (xs ! i) (Suc i = length xs) (qs ! i)"
    using drain_all[OF assms(1)] by blast
  then have "over_wire grow m r (qs ! i) = Some (Suc i = length xs, xs ! i)" if "i < length xs" for i
    using that assms(2,3) by (intro over_wire_sent[of "ps ! i"]) auto
  then have "map (over_wire grow m r) qs = map Some (last_marked xs)"
    using d(3) by (auto simp: last_marked_def intro!: nth_equalityI)
  then show ?thesis using d next_end by blast
qed

end

subsection \<open>The generic packetizer and its depacketizers\<close>

text \<open>
  The parts of \<open>RTPVideoHeader\<close> that the packetizers and depacketizers here use. The frame and codec types of \<open>libmedia_codec\<close> and the
  H.264 header of WebRTC are not under \<open>src/\<close>; their fields and constants are the ones the code names. \<open>nalus\<close> holds the first \<open>nalus_length\<close>
  entries of the array.
\<close>

datatype VideoFrameType = kEmptyFrame | kVideoFrameKey | kVideoFrameDelta
datatype VideoCodecType = kVideoCodecGeneric | kVideoCodecH264
datatype H264PacketizationTypes = kH264SingleNalu | kH264StapA | kH264FuA

record NaluInfo =
  nalu_info_type :: byte
  nalu_sps_id :: int
  nalu_pps_id :: int

record RTPVideoHeaderH264 =
  nalu_type :: byte
  packetization_type :: H264PacketizationTypes
  nalus :: "NaluInfo list"

datatype RTPVideoTypeHeader = Monostate | H264Header RTPVideoHeaderH264 | LegacyGeneric u16

record RTPVideoHeader =
  frame_type :: VideoFrameType
  frame_width :: u16
  frame_height :: u16
  is_first_packet_in_frame :: bool
  is_last_packet_in_frame :: bool
  simulcastIdx :: byte
  codec :: VideoCodecType
  video_type_header :: RTPVideoTypeHeader

definition RTPVideoHeader_init :: RTPVideoHeader where
  "RTPVideoHeader_init = \<lparr>frame_type = kEmptyFrame, frame_width = 0, frame_height = 0, is_first_packet_in_frame = False,
     is_last_packet_in_frame = False, simulcastIdx = 0, codec = kVideoCodecGeneric, video_type_header = Monostate\<rparr>"

record ParsedRtpPayload =
  video_header :: RTPVideoHeader
  video_payload :: "byte list"

record RtpPacketizerGeneric =
  generic_header :: "byte list"
  generic_header_size :: nat
  remaining_payload :: "byte list"
  payload_sizes :: "int list"

definition kKeyFrameBit :: byte where "kKeyFrameBit = 0x01"
definition kFirstPacketBit :: byte where "kFirstPacketBit = 0x02"
definition kExtendedHeaderBit :: byte where "kExtendedHeaderBit = 0x04"
definition kGenericHeaderLength :: nat where "kGenericHeaderLength = 1"
definition kExtendedHeaderLength :: nat where "kExtendedHeaderLength = 2"

lemmas generic_consts = kKeyFrameBit_def kFirstPacketBit_def kExtendedHeaderBit_def kGenericHeaderLength_def kExtendedHeaderLength_def

definition BuildHeader :: "RTPVideoHeader \<Rightarrow> byte list \<times> nat" where
  "BuildHeader hdr =
     (let h0 = (if frame_type hdr = kVideoFrameKey then kFirstPacketBit OR kKeyFrameBit else kFirstPacketBit)
      in case video_type_header hdr of
           LegacyGeneric picture_id \<Rightarrow>
             ([h0 OR kExtendedHeaderBit, ucast (drop_bit 8 picture_id AND 0x7F), ucast (picture_id AND 0xFF)],
              kGenericHeaderLength + kExtendedHeaderLength)
         | _ \<Rightarrow> ([h0], kGenericHeaderLength))"

definition RtpPacketizerGeneric_init :: "byte list \<Rightarrow> PayloadSizeLimits \<Rightarrow> RTPVideoHeader \<Rightarrow> RtpPacketizerGeneric option" where
  "RtpPacketizerGeneric_init payload limits hdr = do {
     let (h, n) = BuildHeader hdr;
     let limits = limits\<lparr>max_payload_len := to_int32 (max_payload_len limits - int n)\<rparr>;
     sizes \<leftarrow> SplitAboutEqually (to_int32 (int (length payload))) limits;
     Some \<lparr>generic_header = h, generic_header_size = n, remaining_payload = payload, payload_sizes = sizes\<rparr> }"

definition RtpPacketizerGeneric_raw :: "byte list \<Rightarrow> PayloadSizeLimits \<Rightarrow> RtpPacketizerGeneric option" where
  "RtpPacketizerGeneric_raw payload limits = do {
     sizes \<leftarrow> SplitAboutEqually (to_int32 (int (length payload))) limits;
     Some \<lparr>generic_header = [], generic_header_size = 0, remaining_payload = payload, payload_sizes = sizes\<rparr> }"

definition generic_NumPackets :: "RtpPacketizerGeneric \<Rightarrow> nat" where
  "generic_NumPackets s = length (payload_sizes s)"

definition generic_NextPacket :: "RtpPacketizerGeneric \<Rightarrow> RtpPacket \<Rightarrow> bool \<times> RtpPacketizerGeneric \<times> RtpPacket" where
  "generic_NextPacket s p =
     (case payload_sizes s of
        [] \<Rightarrow> (False, s, p)
      | n # ns \<Rightarrow>
          let len = nat (n mod 2 ^ 64)
          in case AllocatePayload (generic_header_size s + len) p of
               (None, p) \<Rightarrow> (False, s, p\<lparr>rtp_fault := True\<rparr>)
             | (Some off, p) \<Rightarrow>
                 if length (remaining_payload s) < len then (False, s, p\<lparr>rtp_fault := True\<rparr>)
                 else
                   let (p, h) = (if generic_header_size s > 0
                                 then (WriteAt off (take (generic_header_size s) (generic_header s)) p,
                                       (generic_header s)[0 := generic_header s ! 0 AND NOT kFirstPacketBit])
                                 else (p, generic_header s));
                       p = WriteAt (off + generic_header_size s) (take len (remaining_payload s)) p;
                       rest = drop len (remaining_payload s)
                   in (True, s\<lparr>generic_header := h, remaining_payload := rest, payload_sizes := ns\<rparr>, SetMarker (rest = []) p))"

text \<open>What the packetizer still holds.\<close>

fun cut_parts :: "byte list \<Rightarrow> byte list \<Rightarrow> byte list \<Rightarrow> int list \<Rightarrow> byte list list" where
  "cut_parts h h' xs [] = []"
| "cut_parts h h' xs (n # ns) = (h @ take (nat n) xs) # cut_parts h' h' (drop (nat n) xs) ns"

definition middle_header :: "byte list \<Rightarrow> byte list" where
  "middle_header h = (if h = [] then [] else h[0 := h ! 0 AND NOT kFirstPacketBit])"

definition generic_holds :: "RtpPacketizerGeneric \<Rightarrow> byte list list \<Rightarrow> bool" where
  "generic_holds s xs \<longleftrightarrow> generic_header_size s = length (generic_header s) \<and> (\<forall>n \<in> set (payload_sizes s). 0 < n \<and> n < 2 ^ 64) \<and>
     sum_list (payload_sizes s) = int (length (remaining_payload s)) \<and>
     xs = cut_parts (generic_header s) (middle_header (generic_header s)) (remaining_payload s) (payload_sizes s)"

lemma middle_header_idem: "middle_header (middle_header h) = middle_header h"
  by (cases h) (auto simp: middle_header_def and.assoc)

lemma sum_list_zero: "\<forall>n \<in> set ns. 0 < (n :: int) \<Longrightarrow> sum_list ns = 0 \<longleftrightarrow> ns = []"
  using sum_list_positive[of ns] by (cases ns) auto

lemma blank_more: "blank n p \<Longrightarrow> m \<le> n \<Longrightarrow> blank m p"
  by (simp add: blank_def)

lemma WriteAt_two: "WriteAt (off + length xs) ys (WriteAt off xs p) = WriteAt off (xs @ ys) p"
  by (simp add: WriteAt_append)

interpretation generic: packetizer generic_NextPacket generic_NumPackets generic_holds
proof
  fix s :: RtpPacketizerGeneric and p
  assume "generic_holds s []"
  then have "payload_sizes s = []" by (cases "payload_sizes s") (auto simp: generic_holds_def)
  then show "generic_NextPacket s p = (False, s, p)" by (simp add: generic_NextPacket_def)
next
  fix s :: RtpPacketizerGeneric and x xs p
  assume h: "generic_holds s (x # xs)" and bl: "blank (length x) p"
  obtain n ns where ns: "payload_sizes s = n # ns" using h by (cases "payload_sizes s") (auto simp: generic_holds_def)
  let ?h = "generic_header s" and ?r = "remaining_payload s"
  have n: "0 < n" "nat (n mod 2 ^ 64) = nat n" "nat n \<le> length ?r" "sum_list ns = int (length (drop (nat n) ?r))" "\<forall>n \<in> set ns. 0 < n \<and> n < 2 ^ 64"
    using h sum_list_positive[of ns] by (auto simp: generic_holds_def ns of_nat_diff)
  have x: "x = ?h @ take (nat n) ?r" "xs = cut_parts (middle_header ?h) (middle_header ?h) (drop (nat n) ?r) ns"
    and hs: "generic_header_size s = length ?h" using h by (simp_all add: generic_holds_def ns)
  have lx: "length x = length ?h + nat n" using n(3) by (simp add: x)
  note a = built_AllocatePayload[OF bl]
  have last: "drop (nat n) ?r = [] \<longleftrightarrow> xs = []" using n(4,5) sum_list_zero[of ns] by (cases ns) (auto simp: x(2))
  let ?s = "s\<lparr>generic_header := middle_header ?h, remaining_payload := drop (nat n) ?r, payload_sizes := ns\<rparr>"
  let ?q = "SetMarker (xs = []) (WriteAt (payload_offset p) x (p\<lparr>rtp_payload_size := length x, buf_size := payload_offset p + length x\<rparr>))"
  have "generic_NextPacket s p = (True, ?s, ?q)"
    unfolding generic_NextPacket_def ns list.case Let_def n(2) hs lx[symmetric] a(1)
    using n(3) last WriteAt_two[of "payload_offset p" ?h "take (nat n) ?r"]
    by (simp add: x(1) middle_header_def lx[unfolded x(1)])
  moreover have "generic_holds ?s xs"
    using n x(2) hs by (auto simp: generic_holds_def middle_header_idem) (auto simp: middle_header_def)
  ultimately show "\<exists>s' q. generic_NextPacket s p = (True, s', q) \<and> generic_holds s' xs \<and> packet_sent p x (xs = []) q"
    using sent_payload[OF bl] by blast
next
  fix s :: RtpPacketizerGeneric and xs
  have "length (cut_parts h h' r ns) = length ns" for h h' r ns by (induction h h' r ns rule: cut_parts.induct) auto
  then show "generic_holds s xs \<Longrightarrow> generic_NumPackets s = length xs" by (simp add: generic_holds_def generic_NumPackets_def)
qed

definition VideoRtpDepacketizerGeneric_Parse :: "byte list \<Rightarrow> ParsedRtpPayload option option" where
  "VideoRtpDepacketizerGeneric_Parse rtp_payload =
     (if length rtp_payload = 0 then Some None
      else do {
        generic_header \<leftarrow> get_u8 rtp_payload 0;
        let h = RTPVideoHeader_init
          \<lparr>frame_type := (if generic_header AND kKeyFrameBit \<noteq> 0 then kVideoFrameKey else kVideoFrameDelta),
           is_first_packet_in_frame := generic_header AND kFirstPacketBit \<noteq> 0, codec := kVideoCodecGeneric, frame_width := 0, frame_height := 0\<rparr>;
        if generic_header AND kExtendedHeaderBit \<noteq> 0 then
          if length rtp_payload < kGenericHeaderLength + kExtendedHeaderLength then Some None
          else do {
            b1 \<leftarrow> get_u8 rtp_payload 1;
            b2 \<leftarrow> get_u8 rtp_payload 2;
            Some (Some \<lparr>video_header = h\<lparr>video_type_header := LegacyGeneric (push_bit 8 (ucast (b1 AND 0x7F)) OR ucast b2)\<rparr>,
                        video_payload = drop (kGenericHeaderLength + kExtendedHeaderLength) rtp_payload\<rparr>) }
        else Some (Some \<lparr>video_header = h, video_payload = drop kGenericHeaderLength rtp_payload\<rparr>) })"

definition VideoRtpDepacketizerRaw_Parse :: "byte list \<Rightarrow> ParsedRtpPayload" where
  "VideoRtpDepacketizerRaw_Parse rtp_payload = \<lparr>video_header = RTPVideoHeader_init, video_payload = rtp_payload\<rparr>"

text \<open>What the receiver is told about packet \<open>i\<close> of a frame.\<close>

definition generic_video_header :: "RTPVideoHeader \<Rightarrow> bool \<Rightarrow> RTPVideoHeader" where
  "generic_video_header hdr first = RTPVideoHeader_init
     \<lparr>frame_type := (if frame_type hdr = kVideoFrameKey then kVideoFrameKey else kVideoFrameDelta), is_first_packet_in_frame := first,
      video_type_header := (case video_type_header hdr of LegacyGeneric picture_id \<Rightarrow> LegacyGeneric (picture_id AND 0x7FFF) | _ \<Rightarrow> Monostate)\<rparr>"

definition fits_limits :: "PayloadSizeLimits \<Rightarrow> nat list \<Rightarrow> bool" where
  "fits_limits limits ns \<longleftrightarrow> ns \<noteq> [] \<and>
     (if length ns = 1 then int (hd ns) \<le> max_payload_len limits - single_packet_reduction_len limits
      else int (hd ns) \<le> max_payload_len limits - first_packet_reduction_len limits \<and>
        int (last ns) \<le> max_payload_len limits - last_packet_reduction_len limits \<and> (\<forall>n \<in> set ns. int n \<le> max_payload_len limits))"

lemma picture_id_bytes:
  "push_bit 8 (ucast (ucast (drop_bit 8 (x :: u16) AND 0x7F) AND (0x7F :: byte)) :: u16) OR ucast (ucast (x AND 0xFF) :: byte) = x AND 0x7FFF"
proof -
  have m: "(0x7F :: u16) = mask 7" "(0x7F :: byte) = mask 7" "(0xFF :: u16) = mask 8" "(0x7FFF :: u16) = mask 15"
    by (simp_all add: mask_eq_exp_minus_1)
  show ?thesis
    unfolding m
  proof (rule bit_word_eqI)
    fix n
    assume "n < LENGTH(16)"
    then show "bit (push_bit 8 (ucast (ucast (drop_bit 8 x AND mask 7) AND (mask 7 :: byte)) :: u16) OR ucast (ucast (x AND mask 8) :: byte)) n = bit (x AND mask 15) n"
      by (cases "n < 8") (auto simp: bit_or_iff bit_and_iff bit_push_bit_iff bit_unsigned_iff bit_mask_iff bit_drop_bit_eq)
  qed
qed

lemma generic_header_parse:
  assumes "h = fst (BuildHeader hdr)" "h' = (if first then h else middle_header h)"
  shows "VideoRtpDepacketizerGeneric_Parse (h' @ x) = Some (Some \<lparr>video_header = generic_video_header hdr first, video_payload = x\<rparr>)"
proof (cases "\<exists>pid. video_type_header hdr = LegacyGeneric pid")
  case True
  then obtain pid where t: "video_type_header hdr = LegacyGeneric pid" by blast
  have "h = [if frame_type hdr = kVideoFrameKey then 7 else 6, ucast (drop_bit 8 pid AND 0x7F), ucast (pid AND 0xFF)]"
    by (simp add: assms(1) BuildHeader_def t generic_consts)
  then have "h' = [(if frame_type hdr = kVideoFrameKey then if first then 7 else 5 else if first then 6 else 4), ucast (drop_bit 8 pid AND 0x7F), ucast (pid AND 0xFF)]"
    by (simp add: assms(2) middle_header_def generic_consts)
  then show ?thesis
    by (simp add: VideoRtpDepacketizerGeneric_Parse_def get_u8_def generic_video_header_def t generic_consts picture_id_bytes RTPVideoHeader_init_def)
next
  case False
  then have "h = [if frame_type hdr = kVideoFrameKey then 3 else 2]" 
    by (cases "video_type_header hdr") (simp_all add: assms(1) BuildHeader_def generic_consts)
  then have "h' = [(if frame_type hdr = kVideoFrameKey then if first then 3 else 1 else if first then 2 else 0)]"
    by (simp add: assms(2) middle_header_def generic_consts)
  then show ?thesis
    using False by (cases "video_type_header hdr") (simp_all add: VideoRtpDepacketizerGeneric_Parse_def get_u8_def generic_video_header_def generic_consts RTPVideoHeader_init_def)
qed

lemma length_BuildHeader: "BuildHeader hdr = (h, n) \<Longrightarrow> n = length h \<and> h \<noteq> [] \<and> length h \<le> 3"
  by (auto simp: BuildHeader_def generic_consts Let_def split: RTPVideoTypeHeader.splits)

lemma length_middle_header [simp]: "length (middle_header h) = length h"
  by (simp add: middle_header_def)

lemma cut_parts_concat:
  assumes "\<forall>n \<in> set ns. 0 < n" "sum_list ns = int (length xs)" "length h' = length h"
  shows "concat (map (drop (length h)) (cut_parts h h' xs ns)) = xs" "map length (cut_parts h h' xs ns) = map (\<lambda>n. length h + nat n) ns"
proof -
  have "concat (map (drop (length h)) (cut_parts h h' xs ns)) = xs \<and> map length (cut_parts h h' xs ns) = map (\<lambda>n. length h + nat n) ns"
    using assms
  proof (induction ns arbitrary: h xs)
    case (Cons n ns)
    have n: "0 < n" "nat n \<le> length xs" "sum_list ns = int (length (drop (nat n) xs))"
      using Cons.prems sum_list_positive[of ns] by auto
    have "concat (map (drop (length h')) (cut_parts h' h' (drop (nat n) xs) ns)) = drop (nat n) xs \<and>
        map length (cut_parts h' h' (drop (nat n) xs) ns) = map (\<lambda>n. length h' + nat n) ns"
      using Cons.prems n(3) by (intro Cons.IH) auto
    then show ?case using n Cons.prems(3) by simp
  qed simp
  then show "concat (map (drop (length h)) (cut_parts h h' xs ns)) = xs" "map length (cut_parts h h' xs ns) = map (\<lambda>n. length h + nat n) ns"
    by blast+
qed

lemma cut_parts_nth:
  "i < length ns \<Longrightarrow> \<exists>y. cut_parts h h' xs ns ! i = (if i = 0 then h else h') @ y"
proof (induction ns arbitrary: h xs i)
  case (Cons n ns)
  then show ?case
  proof (cases i)
    case (Suc j)
    then show ?thesis using Cons.IH[of j h' "drop (nat n) xs"] Cons.prems by (auto split: if_splits)
  qed auto
qed simp

lemma fits_cut:
  assumes "valid_split (limits\<lparr>max_payload_len := max_payload_len limits - int k\<rparr>) len ns"
  shows "fits_limits limits (map (\<lambda>n. k + nat n) ns)"
proof -
  have pos: "\<forall>n \<in> set ns. int (k + nat n) = int k + n" and ne: "ns \<noteq> []" using assms by (auto simp: valid_split_def)
  then have "int (k + nat (hd ns)) = int k + hd ns" "int (k + nat (last ns)) = int k + last ns" by simp_all
  moreover have "sum_list ns = hd ns" if "length ns = 1" using that by (cases ns) auto
  ultimately show ?thesis
    using assms pos ne by (auto simp: fits_limits_def valid_split_def hd_map last_map simp del: of_nat_add split: if_splits)
qed

lemma fits_limits_max:
  assumes "fits_limits limits ns" "0 \<le> single_packet_reduction_len limits" "n \<in> set ns"
  shows "int n \<le> max_payload_len limits"
  using assms by (cases ns) (auto simp: fits_limits_def split: if_splits)

lemma split_range_small: "split_range (int n) limits \<Longrightarrow> n < 2 ^ 31"
proof -
  assume "split_range (int n) limits"
  then have "int n < 2 ^ 31" unfolding split_range_def by linarith
  then show "n < 2 ^ 31" by simp
qed

lemma generic_range:
  assumes "payload \<noteq> []" "split_range (int (length payload) + 3) limits" "BuildHeader hdr = (h, k)"
  shows "split_range (int (length payload)) (limits\<lparr>max_payload_len := max_payload_len limits - int k\<rparr>)"
    "to_int32 (max_payload_len limits - int k) = max_payload_len limits - int k"
proof -
  have k: "k \<le> 3" using length_BuildHeader[OF assms(3)] by auto
  show "split_range (int (length payload)) (limits\<lparr>max_payload_len := max_payload_len limits - int k\<rparr>)"
    using assms(1,2) k by (auto simp: split_range_def)
  show "to_int32 (max_payload_len limits - int k) = max_payload_len limits - int k"
    using assms(2) k unfolding split_range_def by (intro to_int32_id) linarith+
qed

lemma generic_init_returns:
  assumes "payload \<noteq> []" "split_range (int (length payload) + 3) limits"
  shows "\<exists>s. RtpPacketizerGeneric_init payload limits hdr = Some s \<and>
    (generic_NumPackets s = 0 \<longleftrightarrow>
       \<not> (\<exists>ns. valid_split (limits\<lparr>max_payload_len := max_payload_len limits - int (snd (BuildHeader hdr))\<rparr>) (int (length payload)) ns))"
proof -
  obtain h k where hk: "BuildHeader hdr = (h, k)" by (cases "BuildHeader hdr")
  note r = generic_range[OF assms hk]
  have small: "length payload < 2 ^ 31" using split_range_small[OF r(1)] by simp
  let ?l = "limits\<lparr>max_payload_len := max_payload_len limits - int k\<rparr>"
  obtain ns where ns: "SplitAboutEqually (int (length payload)) ?l = Some ns" "fewest_split ?l (int (length payload)) ns"
    using SplitAboutEqually_ok[OF r(1)] by blast
  have "ns = [] \<longleftrightarrow> \<not> (\<exists>ds. valid_split ?l (int (length payload)) ds)" using ns(2) by (auto simp: fewest_split_def split: if_splits)
  then show ?thesis using ns(1) small by (simp add: RtpPacketizerGeneric_init_def hk r(2) to_int32_id generic_NumPackets_def)
qed

lemma generic_frame_sent:
  assumes "payload \<noteq> []" "split_range (int (length payload) + 3) limits" "RtpPacketizerGeneric_init payload limits hdr = Some s" "generic_NumPackets s \<noteq> 0"
    "length ps = generic_NumPackets s"
    "\<forall>p \<in> set ps. blank (nat (max_payload_len limits)) p \<and> rtp_extensions p = rtp_extensions r"
  shows "\<exists>s' qs xs vs. drain generic_NextPacket s ps = (replicate (length ps) True, s', qs) \<and>
    (\<forall>p. generic_NextPacket s' p = (False, s', p)) \<and> map (over_wire grow m r) qs = map Some (last_marked xs) \<and>
    fits_limits limits (map length xs) \<and> map VideoRtpDepacketizerGeneric_Parse xs = map (\<lambda>v. Some (Some v)) vs \<and>
    map video_header vs = map (\<lambda>i. generic_video_header hdr (i = 0)) [0..<length xs] \<and> concat (map video_payload vs) = payload"
proof -
  obtain h k where hk: "BuildHeader hdr = (h, k)" by (cases "BuildHeader hdr")
  have k: "k = length h" "h \<noteq> []" "k \<le> 3" using length_BuildHeader[OF hk] by auto
  let ?l = "limits\<lparr>max_payload_len := max_payload_len limits - int k\<rparr>"
  note range = generic_range(1)[OF assms(1,2) hk] and mx = generic_range(2)[OF assms(1,2) hk]
  have small: "length payload < 2 ^ 31" using split_range_small[OF range] by simp
  obtain ns where ns: "SplitAboutEqually (int (length payload)) ?l = Some ns"
      "s = \<lparr>generic_header = h, generic_header_size = k, remaining_payload = payload, payload_sizes = ns\<rparr>"
    using assms(3) small by (auto simp: RtpPacketizerGeneric_init_def hk mx to_int32_id split: Option.bind_splits)
  have ne: "ns \<noteq> []" using assms(4) by (simp add: ns(2) generic_NumPackets_def)
  have v: "valid_split ?l (int (length payload)) ns"
    using SplitAboutEqually_ok[OF range] ns(1) ne by (simp add: fewest_split_def)
  let ?xs = "cut_parts h (middle_header h) payload ns"
  have part: "0 < n \<and> n < 2 ^ 64" if "n \<in> set ns" for n
  proof -
    have "0 \<le> x" if "x \<in> set ns" for x using that v by (auto simp: valid_split_def dest: bspec less_imp_le)
    then have "n \<le> sum_list ns" using that member_le_sum_list by blast
    then show ?thesis using that v small by (auto simp: valid_split_def)
  qed
  have holds: "generic_holds s ?xs" using v part k by (simp add: generic_holds_def ns(2) valid_split_def)
  have c: "concat (map (drop (length h)) ?xs) = payload" "map length ?xs = map (\<lambda>n. length h + nat n) ns"
    using cut_parts_concat[of ns payload "middle_header h" h] v by (simp_all add: valid_split_def)
  have lx: "length ?xs = length ns" using arg_cong[OF c(2), of length] by simp
  have fits: "fits_limits limits (map length ?xs)" using fits_cut[OF v] by (simp add: c(2) k(1))
  have room: "\<forall>p \<in> set ps. \<forall>x \<in> set ?xs. blank (length x) p"
  proof (intro ballI)
    fix p x
    assume p: "p \<in> set ps" and "x \<in> set ?xs"
    then have "int (length x) \<le> max_payload_len limits" using fits_limits_max[OF fits, of "length x"] assms(2) by (auto simp: split_range_def)
    then have "length x \<le> nat (max_payload_len limits)" by linarith
    then show "blank (length x) p" using assms(6) p blank_more by blast
  qed
  obtain s' qs where d: "drain generic_NextPacket s ps = (replicate (length ?xs) True, s', qs)" "\<forall>p. generic_NextPacket s' p = (False, s', p)"
      "map (over_wire grow m r) qs = map Some (last_marked ?xs)"
    using generic.sends_all[OF holds, of ps r grow m] room assms(5,6) lx by (auto simp: ns(2) generic_NumPackets_def)
  define vs where "vs = map (\<lambda>i. \<lparr>video_header = generic_video_header hdr (i = 0), video_payload = drop (length h) (?xs ! i)\<rparr>) [0..<length ?xs]"
  have "VideoRtpDepacketizerGeneric_Parse (?xs ! i) = Some (Some (vs ! i))" if i: "i < length ?xs" for i
  proof -
    have "i < length ns" using i lx by simp
    then obtain y where y: "?xs ! i = (if i = 0 then h else middle_header h) @ y" using cut_parts_nth[of i ns h "middle_header h" payload] by blast
    then have "drop (length h) (?xs ! i) = y" by auto
    then show ?thesis
      using generic_header_parse[of h hdr "if i = 0 then h else middle_header h" "i = 0" y] hk y i by (simp add: vs_def)
  qed
  then have "map VideoRtpDepacketizerGeneric_Parse ?xs = map (\<lambda>v. Some (Some v)) vs" by (auto simp: vs_def intro!: nth_equalityI)
  moreover have "map video_payload vs = map (drop (length h)) ?xs" by (auto simp: vs_def intro!: nth_equalityI)
  moreover have "map video_header vs = map (\<lambda>i. generic_video_header hdr (i = 0)) [0..<length ?xs]" by (simp add: vs_def)
  ultimately show ?thesis
    using d fits c(1) lx assms(5) by (intro exI[of _ s'] exI[of _ qs] exI[of _ ?xs] exI[of _ vs]) (simp add: ns(2) generic_NumPackets_def)
qed

text \<open>
  C10: A frame that is not empty is given to the generic packetizer with reductions that are not negative, and with sums of the lengths and limits that are \<open>int\<close> values.
  The constructor returns, and there is no packet to send exactly when no split of the frame keeps the limits, less the header. Otherwise as many
  blank packets as \<open>NumPackets\<close> says, with room for the maximal payload, are all filled and the next call of \<open>NextPacket\<close> returns \<open>false\<close>; the payloads keep the
  limits for first, last and single packets, and only the last packet has the marker. The packets, sent and parsed by a receiver with the same extension map, are all
  accepted by the generic depacketizer, which reports key or delta frame and the picture id (15 bits of it), marks the first packet of the frame, and gives payloads
  whose concatenation is the frame.
\<close>

theorem generic_frame_roundtrip:
  assumes "payload \<noteq> []" "split_range (int (length payload) + 3) limits"
  shows "\<exists>s. RtpPacketizerGeneric_init payload limits hdr = Some s \<and>
    (generic_NumPackets s = 0 \<longleftrightarrow>
       \<not> (\<exists>ns. valid_split (limits\<lparr>max_payload_len := max_payload_len limits - int (snd (BuildHeader hdr))\<rparr>) (int (length payload)) ns)) \<and>
    (\<forall>ps r grow m. generic_NumPackets s \<noteq> 0 \<and> length ps = generic_NumPackets s \<and>
         (\<forall>p \<in> set ps. blank (nat (max_payload_len limits)) p \<and> rtp_extensions p = rtp_extensions r) \<longrightarrow>
       (\<exists>s' qs xs vs. drain generic_NextPacket s ps = (replicate (length ps) True, s', qs) \<and>
          (\<forall>p. generic_NextPacket s' p = (False, s', p)) \<and> map (over_wire grow m r) qs = map Some (last_marked xs) \<and>
          fits_limits limits (map length xs) \<and> map VideoRtpDepacketizerGeneric_Parse xs = map (\<lambda>v. Some (Some v)) vs \<and>
          map video_header vs = map (\<lambda>i. generic_video_header hdr (i = 0)) [0..<length xs] \<and> concat (map video_payload vs) = payload))"
proof -
  obtain s where s: "RtpPacketizerGeneric_init payload limits hdr = Some s"
      "generic_NumPackets s = 0 \<longleftrightarrow>
       \<not> (\<exists>ns. valid_split (limits\<lparr>max_payload_len := max_payload_len limits - int (snd (BuildHeader hdr))\<rparr>) (int (length payload)) ns)"
    using generic_init_returns[OF assms, of hdr] by (elim exE conjE) (rule that)
  show ?thesis
  proof (rule exI[of _ s], intro conjI allI impI)
    fix ps and r :: RtpPacket and grow m
    assume "generic_NumPackets s \<noteq> 0 \<and> length ps = generic_NumPackets s \<and>
      (\<forall>p \<in> set ps. blank (nat (max_payload_len limits)) p \<and> rtp_extensions p = rtp_extensions r)"
    then have "generic_NumPackets s \<noteq> 0" "length ps = generic_NumPackets s"
      "\<forall>p \<in> set ps. blank (nat (max_payload_len limits)) p \<and> rtp_extensions p = rtp_extensions r"
      by simp_all
    then show "\<exists>s' qs xs vs. drain generic_NextPacket s ps = (replicate (length ps) True, s', qs) \<and>
          (\<forall>p. generic_NextPacket s' p = (False, s', p)) \<and> map (over_wire grow m r) qs = map Some (last_marked xs) \<and>
          fits_limits limits (map length xs) \<and> map VideoRtpDepacketizerGeneric_Parse xs = map (\<lambda>v. Some (Some v)) vs \<and>
          map video_header vs = map (\<lambda>i. generic_video_header hdr (i = 0)) [0..<length xs] \<and> concat (map video_payload vs) = payload"
      by (rule generic_frame_sent[OF assms s(1)])
  qed (fact s)+
qed

definition sample_frame :: "byte list" where "sample_frame = [1, 2, 3, 4, 5, 6, 7]"

definition sample_generic :: RTPVideoHeader where
  "sample_generic = RTPVideoHeader_init\<lparr>frame_type := kVideoFrameKey, video_type_header := LegacyGeneric 7\<rparr>"

definition blank_packet :: RtpPacket where
  "blank_packet = RtpPacket_init sample_map 1500 (\<lambda>_. 0)"

lemma blank_packet_ok: "n \<le> 1000 \<Longrightarrow> blank n blank_packet"
  unfolding blank_def blank_packet_def sample_map_def
  by (intro conjI built_packet.intros reachable_map.intros) (simp_all add: RtpPacket_init_def rtp_Clear_def Let_def kFixedHeaderSize_def)

theorem generic_frame_roundtrip_witness:
  "\<exists>s s' qs xs vs. RtpPacketizerGeneric_init sample_frame sample_limits sample_generic = Some s \<and>
     drain generic_NextPacket s [blank_packet, blank_packet] = ([True, True], s', qs) \<and>
     map (over_wire max (\<lambda>_. 0) blank_packet) qs = map Some (last_marked xs) \<and>
     map VideoRtpDepacketizerGeneric_Parse xs = map (\<lambda>v. Some (Some v)) vs \<and> concat (map video_payload vs) = sample_frame"
proof -
  have i: "RtpPacketizerGeneric_init sample_frame sample_limits sample_generic = Some
      \<lparr>generic_header = [7, 0, 7], generic_header_size = 3, remaining_payload = sample_frame, payload_sizes = [3, 4]\<rparr>" (is "_ = Some ?s")
    by (simp add: RtpPacketizerGeneric_init_def BuildHeader_def sample_generic_def sample_limits_def sample_frame_def generic_consts to_int32_id
        SplitAboutEqually_def int_result_def split_loop.simps signed_divide_int_def signed_modulo_int_def)
  have n: "generic_NumPackets ?s = 2" by (simp add: generic_NumPackets_def)
  have "\<exists>s' qs xs vs. drain generic_NextPacket ?s [blank_packet, blank_packet] = (replicate (length [blank_packet, blank_packet]) True, s', qs) \<and>
      (\<forall>p. generic_NextPacket s' p = (False, s', p)) \<and> map (over_wire max (\<lambda>_. 0) blank_packet) qs = map Some (last_marked xs) \<and>
      fits_limits sample_limits (map length xs) \<and> map VideoRtpDepacketizerGeneric_Parse xs = map (\<lambda>v. Some (Some v)) vs \<and>
      map video_header vs = map (\<lambda>i. generic_video_header sample_generic (i = 0)) [0..<length xs] \<and> concat (map video_payload vs) = sample_frame"
  proof -
    have "sample_frame \<noteq> []" "split_range (int (length sample_frame) + 3) sample_limits"
      by (simp_all add: sample_frame_def sample_limits_def split_range_def)
    from generic_frame_roundtrip[OF this, of sample_generic] show ?thesis
      unfolding i option.inject using n blank_packet_ok[of 10] by (elim exE conjE allE[of _ "[blank_packet, blank_packet]"]) (auto simp: sample_limits_def simp del: drain.simps)
  qed
  then obtain s' qs xs vs where "drain generic_NextPacket ?s [blank_packet, blank_packet] = (replicate (length [blank_packet, blank_packet]) True, s', qs)"
      "map (over_wire max (\<lambda>_. 0) blank_packet) qs = map Some (last_marked xs)"
      "map VideoRtpDepacketizerGeneric_Parse xs = map (\<lambda>v. Some (Some v)) vs" "concat (map video_payload vs) = sample_frame"
    by (elim exE conjE) (rule that)
  then show ?thesis
    using i by (intro exI[of _ ?s] exI[of _ s'] exI[of _ qs] exI[of _ xs] exI[of _ vs]) (simp add: numeral_2_eq_2 del: drain.simps)
qed

end
