(* ===== verification/Rtp_H264.thy ===== *)
theory Rtp_H264
  imports Rtp_Format
begin

text \<open>
  The H.264 packetizer of \<open>rtp_format_h264\<close>: NAL units go into single packets, several small ones into one aggregated packet (STAP-A), a large one
  into fragments (FU-A). The library code for H.264 that the sources call (finding NAL units, parsing parameter sets, the constants of the NAL unit types)
  is not under \<open>src/\<close>; it is the parameter \<open>h264_lib\<close>. The first part shows that the packetizer is a \<open>packetizer\<close> and the second which packets it
  generates.
\<close>

subsection \<open>The packetizer\<close>

datatype H264PacketizationMode = NonInterleaved | SingleNalUnit

record PacketUnit =
  source_fragment :: "byte list"
  first_fragment :: bool
  last_fragment :: bool
  aggregated :: bool
  unit_header :: byte

record h264_lib =
  FindNaluIndices :: "byte list \<Rightarrow> (nat \<times> nat) list"
  ParseAndRewriteSps :: "byte list \<Rightarrow> byte list \<Rightarrow> bool \<times> byte list \<times> (u32 \<times> u32 \<times> u32) option"
  ParsePpsIds :: "byte list \<Rightarrow> (u32 \<times> u32) option"
  ParsePpsIdFromSlice :: "byte list \<Rightarrow> u32 option"
  kSlice :: byte
  kIdr :: byte
  kSps :: byte
  kPps :: byte
  kStapA :: byte
  kFuA :: byte
  kNaluTypeSize :: nat
  kMaxNalusPerPacket :: nat

record RtpPacketizerH264 =
  h264_limits :: PayloadSizeLimits
  num_packets_left :: nat
  input_fragments :: "byte list list"
  packets :: "PacketUnit list"

definition kNalHeaderSize :: nat where "kNalHeaderSize = 1"
definition kFuAHeaderSize :: nat where "kFuAHeaderSize = 2"
definition kLengthFieldSize :: nat where "kLengthFieldSize = 2"
definition kStapAHeaderSize :: nat where "kStapAHeaderSize = kNalHeaderSize + kLengthFieldSize"
definition kFBit :: byte where "kFBit = 0x80"
definition kNriMask :: byte where "kNriMask = 0x60"
definition kTypeMask :: byte where "kTypeMask = 0x1F"
definition kSBit :: byte where "kSBit = 0x80"
definition kEBit :: byte where "kEBit = 0x40"

lemmas h264_sizes = kNalHeaderSize_def kFuAHeaderSize_def kLengthFieldSize_def kStapAHeaderSize_def
lemmas h264_masks = kFBit_def kNriMask_def kTypeMask_def kSBit_def kEBit_def

text \<open>An \<open>int\<close> that becomes a \<open>size_t\<close>.\<close>

definition size_of_int :: "int \<Rightarrow> nat" where
  "size_of_int x = nat (x mod 2 ^ 64)"

definition single_packet_capacity :: "PayloadSizeLimits \<Rightarrow> nat \<Rightarrow> nat \<Rightarrow> int" where
  "single_packet_capacity limits n i =
     (if n = 1 then max_payload_len limits - single_packet_reduction_len limits
      else if i = 0 then max_payload_len limits - first_packet_reduction_len limits
      else if i + 1 = n then max_payload_len limits - last_packet_reduction_len limits
      else max_payload_len limits)"

definition fu_limits :: "PayloadSizeLimits \<Rightarrow> nat \<Rightarrow> nat \<Rightarrow> PayloadSizeLimits" where
  "fu_limits limits n i =
     limits\<lparr>max_payload_len := to_int32 (max_payload_len limits - int kFuAHeaderSize),
       single_packet_reduction_len :=
         (if n \<noteq> 1 then if i = n - 1 then last_packet_reduction_len limits else if i = 0 then first_packet_reduction_len limits else 0
          else single_packet_reduction_len limits),
       first_packet_reduction_len := (if i \<noteq> 0 then 0 else first_packet_reduction_len limits),
       last_packet_reduction_len := (if i \<noteq> n - 1 then 0 else last_packet_reduction_len limits)\<rparr>"

text \<open>\<open>rtc::ArrayView::subview\<close> cuts the view off at the end of the data.\<close>

definition subview :: "byte list \<Rightarrow> nat \<Rightarrow> nat \<Rightarrow> byte list" where
  "subview xs off n = take n (drop off xs)"

text \<open>
  The units of one fragmented NAL unit, from the offset \<open>off\<close> on; \<open>payload_left\<close> is what has not been cut off yet. The checks
  \<open>RTC_CHECK_GT(packet_length, 0)\<close> and \<open>RTC_CHECK_EQ(0, payload_left)\<close> give \<open>None\<close>.
\<close>

fun fu_units :: "byte list \<Rightarrow> nat \<Rightarrow> nat \<Rightarrow> bool \<Rightarrow> int list \<Rightarrow> (PacketUnit list) option" where
  "fu_units fragment off payload_left first [] = (if payload_left = 0 then Some [] else None)"
| "fu_units fragment off payload_left first (n # ns) =
     (if \<not> n > 0 then None
      else do {
        header \<leftarrow> get_u8 fragment 0;
        us \<leftarrow> fu_units fragment (off + nat n) (size_sub payload_left (nat n)) False ns;
        Some (\<lparr>source_fragment = subview fragment off (nat n), first_fragment = first, last_fragment = (ns = []), aggregated = False,
               unit_header = header\<rparr> # us) })"

definition PacketizeFuA :: "PayloadSizeLimits \<Rightarrow> byte list list \<Rightarrow> nat \<Rightarrow> (bool \<times> PacketUnit list) option" where
  "PacketizeFuA limits fragments i = do {
     let fragment = fragments ! i;
     let payload_left = size_sub (length fragment) kNalHeaderSize;
     payload_sizes \<leftarrow> SplitAboutEqually (to_int32 (int payload_left)) (fu_limits limits (length fragments) i);
     if payload_sizes = [] then Some (False, [])
     else do {
       us \<leftarrow> fu_units fragment kNalHeaderSize payload_left True payload_sizes;
       Some (True, us) } }"

definition payload_size_needed :: "PayloadSizeLimits \<Rightarrow> nat \<Rightarrow> nat \<Rightarrow> byte list \<Rightarrow> nat \<Rightarrow> nat" where
  "payload_size_needed limits n i fragment headers =
     (if n = 1 then length fragment + headers
      else if i = n - 1 then (length fragment + headers + size_of_int (last_packet_reduction_len limits)) mod 2 ^ 64
      else length fragment + headers)"

fun stap_loop :: "PayloadSizeLimits \<Rightarrow> nat \<Rightarrow> nat \<Rightarrow> byte list list \<Rightarrow> nat \<Rightarrow> nat \<Rightarrow> nat \<Rightarrow> (PacketUnit list \<times> nat) option" where
  "stap_loop limits n i [] left headers aggregated_fragments = Some ([], i)"
| "stap_loop limits n i (fragment # fragments) left headers aggregated_fragments =
     (if left \<ge> payload_size_needed limits n i fragment headers then
        if fragment = [] then None
        else do {
          (us, j) \<leftarrow> stap_loop limits n (Suc i) fragments (size_sub (size_sub left (length fragment)) headers)
            (kLengthFieldSize + (if aggregated_fragments = 0 then kNalHeaderSize + kLengthFieldSize else 0)) (Suc aggregated_fragments);
          Some (\<lparr>source_fragment = fragment, first_fragment = (aggregated_fragments = 0), last_fragment = False, aggregated = True,
                 unit_header = hd fragment\<rparr> # us, j) }
      else Some ([], i))"

definition mark_last :: "PacketUnit list \<Rightarrow> PacketUnit list" where
  "mark_last us = butlast us @ [(last us)\<lparr>last_fragment := True\<rparr>]"

definition PacketizeStapA :: "PayloadSizeLimits \<Rightarrow> byte list list \<Rightarrow> nat \<Rightarrow> (PacketUnit list \<times> nat) option" where
  "PacketizeStapA limits fragments i = do {
     let n = length fragments;
     let left = size_of_int (max_payload_len limits);
     let left = (if n = 1 then size_sub left (size_of_int (single_packet_reduction_len limits))
                 else if i = 0 then size_sub left (size_of_int (first_packet_reduction_len limits)) else left);
     if left < length (fragments ! i) then None
     else do {
       (us, j) \<leftarrow> stap_loop limits n i (drop i fragments) left 0 0;
       if us = [] then None else Some (mark_last us, j) } }"

definition PacketizeSingleNalu :: "PayloadSizeLimits \<Rightarrow> byte list list \<Rightarrow> nat \<Rightarrow> (bool \<times> PacketUnit list) option" where
  "PacketizeSingleNalu limits fragments i =
     (let n = length fragments;
          left = size_of_int (max_payload_len limits);
          left = (if n = 1 then size_sub left (size_of_int (single_packet_reduction_len limits))
                  else if i = 0 then size_sub left (size_of_int (first_packet_reduction_len limits))
                  else if i + 1 = n then size_sub left (size_of_int (last_packet_reduction_len limits)) else left);
          fragment = fragments ! i
      in if left < length fragment then Some (False, [])
         else if fragment = [] then None
         else Some (True, [\<lparr>source_fragment = fragment, first_fragment = True, last_fragment = True, aggregated = False, unit_header = hd fragment\<rparr>]))"

lemma stap_loop_forward: "stap_loop limits n i fs left headers k = Some (us, j) \<Longrightarrow> j = i + length us"
  by (induction limits n i fs left headers k arbitrary: us j rule: stap_loop.induct) (auto split: if_splits Option.bind_splits)

lemma PacketizeStapA_forward: "PacketizeStapA limits fragments i = Some (us, j) \<Longrightarrow> i < j"
  by (auto simp: PacketizeStapA_def Let_def dest!: stap_loop_forward split: if_splits Option.bind_splits)

text \<open>The loop over the NAL units: success, the packet units and \<open>num_packets_left_\<close>.\<close>

function generate_packets :: "H264PacketizationMode \<Rightarrow> PayloadSizeLimits \<Rightarrow> byte list list \<Rightarrow> nat \<Rightarrow> PacketUnit list \<Rightarrow> nat
    \<Rightarrow> (bool \<times> PacketUnit list \<times> nat) option" where
  "generate_packets mode limits fragments i us n =
     (if \<not> i < length fragments then Some (True, us, n)
      else
        case mode of
          SingleNalUnit \<Rightarrow>
            (case PacketizeSingleNalu limits fragments i of
               None \<Rightarrow> None
             | Some (ok, us') \<Rightarrow> if \<not> ok then Some (False, us, n) else generate_packets mode limits fragments (Suc i) (us @ us') (Suc n))
        | NonInterleaved \<Rightarrow>
            (case int_result (single_packet_capacity limits (length fragments) i) of
               None \<Rightarrow> None
             | Some capacity \<Rightarrow>
                 if to_int32 (int (length (fragments ! i))) > capacity then
                   (case PacketizeFuA limits fragments i of
                      None \<Rightarrow> None
                    | Some (ok, us') \<Rightarrow> if \<not> ok then Some (False, us, n) else generate_packets mode limits fragments (Suc i) (us @ us') (n + length us'))
                 else
                   (case PacketizeStapA limits fragments i of
                      None \<Rightarrow> None
                    | Some (us', j) \<Rightarrow> generate_packets mode limits fragments j (us @ us') (Suc n))))"
  by pat_completeness auto
termination
  by (relation "measure (\<lambda>(_, _, fragments, i, _, _). length fragments - i)") (auto dest: PacketizeStapA_forward)

declare generate_packets.simps [simp del]

definition RtpPacketizerH264_init :: "h264_lib \<Rightarrow> byte list \<Rightarrow> PayloadSizeLimits \<Rightarrow> H264PacketizationMode \<Rightarrow> RtpPacketizerH264 option" where
  "RtpPacketizerH264_init lib payload limits mode = do {
     let fragments = map (\<lambda>(off, n). subview payload off n) (FindNaluIndices lib payload);
     (ok, us, n) \<leftarrow> generate_packets mode limits fragments 0 [] 0;
     Some (if ok then \<lparr>h264_limits = limits, num_packets_left = n, input_fragments = fragments, packets = us\<rparr>
           else \<lparr>h264_limits = limits, num_packets_left = 0, input_fragments = fragments, packets = []\<rparr>) }"

definition h264_NumPackets :: "RtpPacketizerH264 \<Rightarrow> nat" where
  "h264_NumPackets s = num_packets_left s"

definition pop_fragment :: "RtpPacketizerH264 \<Rightarrow> RtpPacketizerH264" where
  "pop_fragment s = s\<lparr>input_fragments := tl (input_fragments s)\<rparr>"

definition pop_packet :: "RtpPacketizerH264 \<Rightarrow> RtpPacketizerH264" where
  "pop_packet s = s\<lparr>packets := tl (packets s)\<rparr>"

text \<open>A failed \<open>RTC_CHECK\<close> and a write through the null pointer of a failed allocation set the fault flag.\<close>

definition h264_fault :: "RtpPacket \<Rightarrow> RtpPacket" where
  "h264_fault p = p\<lparr>rtp_fault := True\<rparr>"

fun aggregate_loop :: "nat \<Rightarrow> nat \<Rightarrow> nat \<Rightarrow> PacketUnit list \<Rightarrow> RtpPacketizerH264 \<Rightarrow> RtpPacket \<Rightarrow> RtpPacketizerH264 \<times> RtpPacket \<times> nat" where
  "aggregate_loop off capacity index [] s p = (s, h264_fault p, index)"
| "aggregate_loop off capacity index (u # us) s p =
     (if \<not> aggregated u then (s, if last_fragment u then p else h264_fault p, index)
      else
        let fragment = source_fragment u
        in if \<not> index + kLengthFieldSize + length fragment \<le> capacity then (s, h264_fault p, index)
           else
             let p = WriteAt (off + index) (put_be16 (of_nat (length fragment))) p;
                 index = index + kLengthFieldSize;
                 p = WriteAt (off + index) fragment p;
                 index = index + length fragment;
                 s = pop_fragment (pop_packet s)
             in if last_fragment u then (s, p, index) else aggregate_loop off capacity index us s p)"

definition NextAggregatePacket :: "h264_lib \<Rightarrow> RtpPacketizerH264 \<Rightarrow> RtpPacket \<Rightarrow> RtpPacketizerH264 \<times> RtpPacket" where
  "NextAggregatePacket lib s p =
     (let payload_capacity = FreeCapacity p
      in if payload_capacity < kNalHeaderSize then (s, h264_fault p)
         else
           case AllocatePayload payload_capacity p of
             (None, p) \<Rightarrow> (s, h264_fault p)
           | (Some off, p) \<Rightarrow>
               let u = hd (packets s)
               in if \<not> first_fragment u then (s, h264_fault p)
                  else
                    let p = WriteAt off [(unit_header u AND (kFBit OR kNriMask)) OR kStapA lib] p;
                        (s, p, index) = aggregate_loop off payload_capacity kNalHeaderSize (packets s) s p
                    in (s, snd (SetPayloadSize index p)))"

definition NextFragmentPacket :: "h264_lib \<Rightarrow> RtpPacketizerH264 \<Rightarrow> RtpPacket \<Rightarrow> RtpPacketizerH264 \<times> RtpPacket" where
  "NextFragmentPacket lib s p =
     (let u = hd (packets s);
          fu_indicator = (unit_header u AND (kFBit OR kNriMask)) OR kFuA lib;
          fu_header = (if first_fragment u then kSBit else 0) OR (if last_fragment u then kEBit else 0) OR (unit_header u AND kTypeMask);
          fragment = source_fragment u;
          (off, p) = AllocatePayload (kFuAHeaderSize + length fragment) p;
          p = (case off of
                 None \<Rightarrow> h264_fault p
               | Some off \<Rightarrow> WriteAt (off + kFuAHeaderSize) fragment (WriteAt (off + 1) [fu_header] (WriteAt off [fu_indicator] p)));
          s = (if last_fragment u then pop_fragment s else s)
      in (pop_packet s, p))"

definition h264_NextPacket :: "h264_lib \<Rightarrow> RtpPacketizerH264 \<Rightarrow> RtpPacket \<Rightarrow> bool \<times> RtpPacketizerH264 \<times> RtpPacket" where
  "h264_NextPacket lib s p =
     (case packets s of
        [] \<Rightarrow> (False, s, p)
      | u # _ \<Rightarrow>
          let (s, p) =
                (if first_fragment u \<and> last_fragment u then
                   let (off, p) = AllocatePayload (length (source_fragment u)) p
                   in (pop_fragment (pop_packet s), case off of None \<Rightarrow> h264_fault p | Some off \<Rightarrow> WriteAt off (source_fragment u) p)
                 else if aggregated u then NextAggregatePacket lib s p
                 else NextFragmentPacket lib s p);
              p = SetMarker (packets s = []) p
          in (True, s\<lparr>num_packets_left := size_sub (num_packets_left s) 1\<rparr>, p))"

subsection \<open>What the packetizer holds\<close>

text \<open>The three kinds of payload of RFC 6184 and the packet units that stand for them.\<close>

datatype h264_packet = Single "byte list" | Stap "byte list list" | Frag byte bool bool "byte list"

definition stap_entry :: "byte list \<Rightarrow> byte list" where
  "stap_entry x = put_be16 (of_nat (length x)) @ x"

fun plan_payload :: "h264_lib \<Rightarrow> h264_packet \<Rightarrow> byte list" where
  "plan_payload lib (Single x) = x"
| "plan_payload lib (Stap xs) = ((hd (hd xs) AND (kFBit OR kNriMask)) OR kStapA lib) # concat (map stap_entry xs)"
| "plan_payload lib (Frag h f l x) =
     [(h AND (kFBit OR kNriMask)) OR kFuA lib, (if f then kSBit else 0) OR (if l then kEBit else 0) OR (h AND kTypeMask)] @ x"

definition stap_unit :: "bool \<Rightarrow> bool \<Rightarrow> byte list \<Rightarrow> PacketUnit" where
  "stap_unit f l x = \<lparr>source_fragment = x, first_fragment = f, last_fragment = l, aggregated = True, unit_header = hd x\<rparr>"

fun stap_units :: "bool \<Rightarrow> byte list list \<Rightarrow> PacketUnit list" where
  "stap_units f [] = []"
| "stap_units f (x # xs) = stap_unit f (xs = []) x # stap_units False xs"

fun packet_units :: "h264_packet \<Rightarrow> PacketUnit list \<Rightarrow> bool" where
  "packet_units (Single x) us \<longleftrightarrow> (\<exists>u. us = [u] \<and> source_fragment u = x \<and> first_fragment u \<and> last_fragment u)"
| "packet_units (Stap xs) us \<longleftrightarrow> 2 \<le> length xs \<and> us = stap_units True xs"
| "packet_units (Frag h f l x) us \<longleftrightarrow>
     \<not> (f \<and> l) \<and> us = [\<lparr>source_fragment = x, first_fragment = f, last_fragment = l, aggregated = False, unit_header = h\<rparr>]"

definition h264_holds :: "h264_lib \<Rightarrow> RtpPacketizerH264 \<Rightarrow> byte list list \<Rightarrow> bool" where
  "h264_holds lib s xs \<longleftrightarrow> (\<exists>plan uss. list_all2 packet_units plan uss \<and> packets s = concat uss \<and> xs = map (plan_payload lib) plan \<and>
     num_packets_left s = length plan \<and> length plan < 2 ^ 64)"

lemma packets_pop [simp]: "packets (pop_fragment s) = packets s" "packets (pop_packet s) = tl (packets s)"
    "num_packets_left (pop_fragment s) = num_packets_left s" "num_packets_left (pop_packet s) = num_packets_left s"
  by (simp_all add: pop_fragment_def pop_packet_def)

lemma aggregate_loop_units:
  assumes "xs \<noteq> []" "packets s = stap_units f xs @ us" "length pre + length (concat (map stap_entry xs)) \<le> capacity"
  shows "\<exists>s'. aggregate_loop off capacity (length pre) (stap_units f xs @ us) s (WriteAt off pre p) =
      (s', WriteAt off (pre @ concat (map stap_entry xs)) p, length pre + length (concat (map stap_entry xs))) \<and>
    packets s' = us \<and> num_packets_left s' = num_packets_left s"
  using assms
proof (induction xs arbitrary: s f pre)
  case (Cons x xs)
  let ?pre = "pre @ stap_entry x" and ?s = "pop_fragment (pop_packet s)"
  have w: "WriteAt (off + (length pre + 2)) x (WriteAt (off + length pre) (put_be16 (of_nat (length x))) (WriteAt off pre p)) = WriteAt off ?pre p"
    using WriteAt_two[of off "pre @ put_be16 (of_nat (length x))" x p] WriteAt_two[of off pre "put_be16 (of_nat (length x))" p]
    by (simp add: stap_entry_def)
  have step: "aggregate_loop off capacity (length pre) (stap_units f (x # xs) @ us) s (WriteAt off pre p) =
      (if xs = [] then (?s, WriteAt off ?pre p, length ?pre)
       else aggregate_loop off capacity (length ?pre) (stap_units False xs @ us) ?s (WriteAt off ?pre p))"
    using Cons.prems(3) w by (simp add: stap_unit_def Let_def h264_sizes stap_entry_def)
  show ?case
  proof (cases "xs = []")
    case True
    then show ?thesis using step Cons.prems(2) by (simp add: stap_unit_def)
  next
    case False
    have "packets ?s = stap_units False xs @ us" using Cons.prems(2) by simp
    moreover have "length ?pre + length (concat (map stap_entry xs)) \<le> capacity" using Cons.prems(3) by simp
    ultimately show ?thesis using Cons.IH[OF False, of ?s False ?pre] step False by (simp add: add.assoc)
  qed
qed simp

lemma blank_FreeCapacity:
  assumes "blank n p"
  shows "FreeCapacity p = buf_cap p - payload_offset p" "blank (FreeCapacity p) p" "n \<le> FreeCapacity p"
proof -
  obtain cs one es where "rtp_rep p cs one es" using blank_rep[OF assms] by blast
  then have "buf_cap p < 65536" by (simp add: rtp_rep_def buffer_ok_def)
  then show "FreeCapacity p = buf_cap p - payload_offset p"
    using assms by (simp add: FreeCapacity_def rtp_size_def blank_def size_sub_le)
  then show "blank (FreeCapacity p) p" "n \<le> FreeCapacity p" using assms by (auto simp: blank_def)
qed

lemma NextAggregatePacket_ok:
  assumes "2 \<le> length xs" "packets s = stap_units True xs @ us" "blank (length (plan_payload lib (Stap xs))) p"
  defines "x \<equiv> plan_payload lib (Stap xs)"
  shows "\<exists>s'. NextAggregatePacket lib s p =
      (s', WriteAt (payload_offset p) x (p\<lparr>rtp_payload_size := length x, buf_size := payload_offset p + length x\<rparr>)) \<and>
    packets s' = us \<and> num_packets_left s' = num_packets_left s"
proof -
  let ?c = "FreeCapacity p" and ?off = "payload_offset p"
  let ?p = "p\<lparr>rtp_payload_size := ?c, buf_size := ?off + ?c\<rparr>"
  note c = blank_FreeCapacity[OF assms(3)]
  note a = built_AllocatePayload(1)[OF c(2)]
  obtain y ys where xs: "xs = y # ys" using assms(1) by (cases xs) auto
  have u: "first_fragment (hd (packets s))" "unit_header (hd (packets s)) = hd (hd xs)" using assms(2) by (simp_all add: xs stap_unit_def)
  let ?h = "[(hd (hd xs) AND (kFBit OR kNriMask)) OR kStapA lib]"
  have x: "x = ?h @ concat (map stap_entry xs)" by (simp add: x_def)
  obtain s' where s': "aggregate_loop ?off ?c kNalHeaderSize (packets s) s (WriteAt ?off ?h ?p) = (s', WriteAt ?off x ?p, length x)"
      "packets s' = us" "num_packets_left s' = num_packets_left s"
    using aggregate_loop_units[of xs s True us ?h ?c ?off ?p] assms(2) c(3) x by (auto simp: xs h264_sizes x_def)
  have l: "?off + length x \<le> buf_cap p" "1 \<le> ?c" using assms(3) c(3) by (auto simp: blank_def x_def)
  have "NextAggregatePacket lib s p = (s', snd (SetPayloadSize (length x) (WriteAt ?off x ?p)))"
    using u l(2) s'(1) by (simp add: NextAggregatePacket_def a kNalHeaderSize_def Let_def)
  also have "snd (SetPayloadSize (length x) (WriteAt ?off x ?p)) = WriteAt ?off x (p\<lparr>rtp_payload_size := length x, buf_size := ?off + length x\<rparr>)"
    using l(1) by (simp add: SetPayloadSize_def WriteAt_def)
  finally show ?thesis using s' by blast
qed

lemma NextFragmentPacket_ok:
  assumes "hd (packets s) = \<lparr>source_fragment = y, first_fragment = f, last_fragment = l, aggregated = False, unit_header = h\<rparr>"
    "blank (length (plan_payload lib (Frag h f l y))) p"
  defines "x \<equiv> plan_payload lib (Frag h f l y)"
  shows "\<exists>s'. NextFragmentPacket lib s p =
      (s', WriteAt (payload_offset p) x (p\<lparr>rtp_payload_size := length x, buf_size := payload_offset p + length x\<rparr>)) \<and>
    packets s' = tl (packets s) \<and> num_packets_left s' = num_packets_left s"
proof -
  let ?off = "payload_offset p" and ?p = "p\<lparr>rtp_payload_size := length x, buf_size := payload_offset p + length x\<rparr>"
  have lx: "kFuAHeaderSize + length y = length x" by (simp add: x_def kFuAHeaderSize_def)
  note a = built_AllocatePayload(1)[OF assms(2), folded x_def]
  have w: "WriteAt (off + 2) y (WriteAt (off + 1) [c] (WriteAt off [b] q)) = WriteAt off ([b, c] @ y) q" for off b c q
    using WriteAt_two[of off "[b, c]" y q] WriteAt_two[of off "[b]" "[c]" q] by simp
  have "NextFragmentPacket lib s p = (pop_packet (if l then pop_fragment s else s), WriteAt ?off x ?p)"
    using a w by (simp add: NextFragmentPacket_def assms(1) x_def kFuAHeaderSize_def Let_def)
  then show ?thesis by auto
qed

lemma h264_next:
  assumes pk: "packet_units pk us" and s: "packets s = us @ rest" and bl: "blank (length (plan_payload lib pk)) p"
  shows "\<exists>s' q. h264_NextPacket lib s p = (True, s'\<lparr>num_packets_left := size_sub (num_packets_left s) 1\<rparr>, q) \<and> packets s' = rest \<and>
    packet_sent p (plan_payload lib pk) (rest = []) q"
proof -
  let ?x = "plan_payload lib pk"
  let ?w = "WriteAt (payload_offset p) ?x (p\<lparr>rtp_payload_size := length ?x, buf_size := payload_offset p + length ?x\<rparr>)"
  have fin: ?thesis if "h264_NextPacket lib s p = (True, s'\<lparr>num_packets_left := size_sub (num_packets_left s) 1\<rparr>, SetMarker (packets s' = []) ?w)"
    "packets s' = rest" for s' using sent_payload[OF bl, of "rest = []"] that by blast
  show ?thesis
  proof (cases pk)
    case (Single x)
    then obtain u where u: "us = [u]" "source_fragment u = x" "first_fragment u" "last_fragment u" using pk by auto
    have "h264_NextPacket lib s p = (True, (pop_fragment (pop_packet s))\<lparr>num_packets_left := size_sub (num_packets_left s) 1\<rparr>,
        SetMarker (packets (pop_fragment (pop_packet s)) = []) ?w)"
      using built_AllocatePayload(1)[OF bl] u by (simp add: h264_NextPacket_def s Single)
    then show ?thesis by (rule fin) (simp add: s u(1))
  next
    case (Stap xs)
    then have xs: "2 \<le> length xs" "us = stap_units True xs" using pk by auto
    obtain y z zs where e: "xs = y # z # zs" using xs(1) by (cases xs; cases "tl xs") auto
    obtain s' where s': "NextAggregatePacket lib s p = (s', ?w)" "packets s' = rest" "num_packets_left s' = num_packets_left s"
      using NextAggregatePacket_ok[OF xs(1), of s rest lib p] s xs(2) bl Stap by auto
    have hd: "packets s = stap_unit True False y # stap_units False (z # zs) @ rest" by (simp add: s xs(2) e)
    have "h264_NextPacket lib s p = (True, s'\<lparr>num_packets_left := size_sub (num_packets_left s) 1\<rparr>, SetMarker (packets s' = []) ?w)"
      using s' by (simp add: h264_NextPacket_def hd stap_unit_def)
    then show ?thesis using s'(2) by (rule fin)
  next
    case (Frag h f l y)
    then have u: "\<not> (f \<and> l)" "packets s = \<lparr>source_fragment = y, first_fragment = f, last_fragment = l, aggregated = False, unit_header = h\<rparr> # rest"
      using pk s by auto
    obtain s' where s': "NextFragmentPacket lib s p = (s', ?w)" "packets s' = rest" "num_packets_left s' = num_packets_left s"
      using NextFragmentPacket_ok[of s y f l h lib p] u(2) bl Frag by auto
    have "h264_NextPacket lib s p = (True, s'\<lparr>num_packets_left := size_sub (num_packets_left s) 1\<rparr>, SetMarker (packets s' = []) ?w)"
      using s' u(1) by (cases f; cases l) (simp_all add: h264_NextPacket_def u(2))
    then show ?thesis using s'(2) by (rule fin)
  qed
qed

lemma packet_units_nonempty: "packet_units pk us \<Longrightarrow> us \<noteq> []"
  by (cases pk) (auto simp: neq_Nil_conv Suc_le_length_iff numeral_2_eq_2)

interpretation h264: packetizer "h264_NextPacket lib" h264_NumPackets "h264_holds lib" for lib
proof
  fix s p
  show "h264_holds lib s [] \<Longrightarrow> h264_NextPacket lib s p = (False, s, p)"
    by (auto simp: h264_holds_def h264_NextPacket_def)
next
  fix s x xs p
  assume h: "h264_holds lib s (x # xs)" and bl: "blank (length x) p"
  then obtain pk plan us uss where hd: "packet_units pk us" "list_all2 packet_units plan uss" "packets s = us @ concat uss"
      "x = plan_payload lib pk" "xs = map (plan_payload lib) plan" "num_packets_left s = Suc (length plan)" "Suc (length plan) < 2 ^ 64"
    by (auto simp: h264_holds_def list_all2_Cons1 Cons_eq_map_conv)
  obtain s' q where n: "h264_NextPacket lib s p = (True, s'\<lparr>num_packets_left := size_sub (num_packets_left s) 1\<rparr>, q)" "packets s' = concat uss"
      "packet_sent p (plan_payload lib pk) (concat uss = []) q"
    using h264_next[OF hd(1,3), of lib p] bl hd(4) by blast
  have "concat uss = [] \<longleftrightarrow> xs = []" using hd(2,5) packet_units_nonempty by (cases plan) (auto simp: list_all2_Cons1)
  moreover have "h264_holds lib (s'\<lparr>num_packets_left := size_sub (num_packets_left s) 1\<rparr>) xs"
    unfolding h264_holds_def using hd n(2) by (intro exI[of _ plan] exI[of _ uss]) (simp add: size_sub_le)
  ultimately show "\<exists>s' q. h264_NextPacket lib s p = (True, s', q) \<and> h264_holds lib s' xs \<and> packet_sent p x (xs = []) q"
    using n hd(4) by auto
next
  fix s xs
  show "h264_holds lib s xs \<Longrightarrow> h264_NumPackets s = length xs" by (auto simp: h264_holds_def h264_NumPackets_def)
qed

subsection \<open>What the packetizer generates\<close>

definition limits_ok :: "PayloadSizeLimits \<Rightarrow> bool" where
  "limits_ok limits \<longleftrightarrow> max_payload_len limits < 2 ^ 16 \<and> 0 \<le> first_packet_reduction_len limits \<and> 0 \<le> last_packet_reduction_len limits \<and>
     0 \<le> single_packet_reduction_len limits \<and>
     single_packet_reduction_len limits \<le> first_packet_reduction_len limits + last_packet_reduction_len limits \<and>
     first_packet_reduction_len limits + last_packet_reduction_len limits < max_payload_len limits"

fun frag_list :: "byte \<Rightarrow> bool \<Rightarrow> byte list list \<Rightarrow> h264_packet list" where
  "frag_list h f [] = []"
| "frag_list h f (y # ys) = Frag h f (ys = []) y # frag_list h False ys"

inductive carries :: "h264_packet list \<Rightarrow> byte list list \<Rightarrow> bool" where
  carries_nil: "carries [] []"
| carries_single: "carries plan ns \<Longrightarrow> carries (Single x # plan) (x # ns)"
| carries_stap: "carries plan ns \<Longrightarrow> 2 \<le> length xs \<Longrightarrow> \<forall>x \<in> set xs. length x < 2 ^ 16 \<Longrightarrow> carries (Stap xs # plan) (xs @ ns)"
| carries_frags: "carries plan ns \<Longrightarrow> 2 \<le> length ys \<Longrightarrow> \<forall>y \<in> set ys. y \<noteq> [] \<Longrightarrow> carries (frag_list h True ys @ plan) ((h # concat ys) # ns)"

definition cannot_send :: "H264PacketizationMode \<Rightarrow> PayloadSizeLimits \<Rightarrow> byte list list \<Rightarrow> nat \<Rightarrow> bool" where
  "cannot_send mode limits fs i \<longleftrightarrow> int (length (fs ! i)) > single_packet_capacity limits (length fs) i \<and>
     (mode = NonInterleaved \<longrightarrow> \<not> (\<exists>ns. valid_split (fu_limits limits (length fs) i) (int (length (fs ! i)) - 1) ns))"

text \<open>Size limits of the packets of the NAL units from \<open>i\<close> up to \<open>j\<close> of \<open>n\<close>.\<close>

definition group_fits :: "PayloadSizeLimits \<Rightarrow> nat \<Rightarrow> nat \<Rightarrow> nat \<Rightarrow> nat list \<Rightarrow> bool" where
  "group_fits limits n i j ls \<longleftrightarrow> ls \<noteq> [] \<and> (\<forall>l \<in> set ls. int l \<le> max_payload_len limits) \<and>
     (i = 0 \<and> (n \<noteq> 1 \<or> length ls \<noteq> 1) \<longrightarrow> int (hd ls) \<le> max_payload_len limits - first_packet_reduction_len limits) \<and>
     (j = n \<and> (n \<noteq> 1 \<or> length ls \<noteq> 1) \<longrightarrow> int (last ls) \<le> max_payload_len limits - last_packet_reduction_len limits) \<and>
     (i = 0 \<and> j = n \<and> length ls = 1 \<longrightarrow> int (hd ls) \<le> max_payload_len limits - single_packet_reduction_len limits)"

lemma group_fits_append:
  assumes "group_fits limits n i j ls" "group_fits limits n j n ks" "i < j" "j < n"
  shows "group_fits limits n i n (ls @ ks)"
  using assms by (cases ls; cases ks) (auto simp: group_fits_def)

lemma group_fits_all: "group_fits limits n 0 n ls \<Longrightarrow> fits_limits limits ls"
  by (auto simp: group_fits_def fits_limits_def)

lemma size_of_int_eq: "0 \<le> x \<Longrightarrow> x < 2 ^ 64 \<Longrightarrow> size_of_int x = nat x"
  by (simp add: size_of_int_def)

lemma size_diff:
  assumes "0 \<le> y" "y \<le> x" "x < 2 ^ 16"
  shows "size_sub (size_of_int x) (size_of_int y) = nat (x - y)"
proof -
  have "size_of_int x = nat x" "size_of_int y = nat y" using assms by (auto intro!: size_of_int_eq)
  then show ?thesis using assms by (simp add: size_sub_le nat_diff_distrib)
qed

lemma single_group:
  assumes "limits_ok limits" "i < length fs" "int (length (fs ! i)) \<le> single_packet_capacity limits (length fs) i"
  shows "group_fits limits (length fs) i (Suc i) [length (fs ! i)]"
  using assms by (auto simp: group_fits_def single_packet_capacity_def limits_ok_def split: if_splits)

lemma PacketizeSingleNalu_ok:
  assumes "limits_ok limits" "i < length fs" "fs ! i \<noteq> []"
  shows "PacketizeSingleNalu limits fs i =
    Some (if int (length (fs ! i)) > single_packet_capacity limits (length fs) i then (False, [])
          else (True, [\<lparr>source_fragment = fs ! i, first_fragment = True, last_fragment = True, aggregated = False, unit_header = hd (fs ! i)\<rparr>]))"
proof -
  let ?m = "max_payload_len limits"
  have b: "0 \<le> ?m" "?m < 2 ^ 16" "0 \<le> first_packet_reduction_len limits" "first_packet_reduction_len limits \<le> ?m"
      "0 \<le> last_packet_reduction_len limits" "last_packet_reduction_len limits \<le> ?m"
      "0 \<le> single_packet_reduction_len limits" "single_packet_reduction_len limits \<le> ?m"
    using assms(1) by (auto simp: limits_ok_def)
  have e: "size_of_int ?m = nat ?m" using b by (intro size_of_int_eq) auto
  note d = size_diff[OF b(3,4,2), unfolded e] size_diff[OF b(5,6,2), unfolded e] size_diff[OF b(7,8,2), unfolded e]
  show ?thesis
    using b assms(3) unfolding PacketizeSingleNalu_def single_packet_capacity_def Let_def e d by auto
qed

lemma fu_units_ok:
  assumes "fragment = h # body" "\<forall>n \<in> set ns. 0 < n" "sum_list ns = int left" "left < 2 ^ 64" "\<not> f \<or> 2 \<le> length ns"
  shows "\<exists>us. fu_units fragment off left f ns = Some us \<and>
    list_all2 packet_units (frag_list h f (cut_parts [] [] (drop off fragment) ns)) (map (\<lambda>u. [u]) us)"
  using assms(2-5)
proof (induction ns arbitrary: off left f)
  case (Cons n ns)
  have n: "0 < n" "nat n \<le> left" "sum_list ns = int (left - nat n)"
    using Cons.prems sum_list_positive[of ns] by auto
  have sz: "size_sub left (nat n) = left - nat n" using n(2) Cons.prems(3) by (simp add: size_sub_le)
  obtain us where us: "fu_units fragment (off + nat n) (left - nat n) False ns = Some us"
      "list_all2 packet_units (frag_list h False (cut_parts [] [] (drop (off + nat n) fragment) ns)) (map (\<lambda>u. [u]) us)"
    using Cons.IH[of "left - nat n" False "off + nat n"] Cons.prems(1,3) n less_imp_diff_less[OF Cons.prems(3)] by auto
  have e: "cut_parts [] [] xs ns = [] \<longleftrightarrow> ns = []" for xs by (cases ns) auto
  have "fu_units fragment off left f (n # ns) = Some (\<lparr>source_fragment = take (nat n) (drop off fragment), first_fragment = f, last_fragment = (ns = []),
      aggregated = False, unit_header = h\<rparr> # us)"
    using n us(1) by (simp add: subview_def get_u8_def assms(1) sz)
  moreover have "\<not> (f \<and> ns = [])" using Cons.prems(4) by auto
  ultimately show ?case using us(2) by (simp add: e add.commute)
qed simp

lemma cut_parts_parts:
  assumes "\<forall>n \<in> set ns. 0 < n" "sum_list ns = int (length xs)"
  shows "concat (cut_parts [] [] xs ns) = xs" "map length (cut_parts [] [] xs ns) = map nat ns"
    "\<forall>y \<in> set (cut_parts [] [] xs ns). y \<noteq> []"
proof -
  show "concat (cut_parts [] [] xs ns) = xs" and l: "map length (cut_parts [] [] xs ns) = map nat ns"
    using cut_parts_concat[OF assms, of "[]" "[]"] by simp_all
  have "length y \<in> set (map length (cut_parts [] [] xs ns))" if "y \<in> set (cut_parts [] [] xs ns)" for y using that by simp
  then show "\<forall>y \<in> set (cut_parts [] [] xs ns). y \<noteq> []" unfolding l using assms(1) by force
qed

lemma length_frag_list: "map (length \<circ> plan_payload lib) (frag_list h f ys) = map (\<lambda>y. 2 + length y) ys"
  by (induction h f ys rule: frag_list.induct) auto

lemma PacketizeFuA_ok:
  assumes lim: "limits_ok limits" and i: "i < length fs" and ne: "fs ! i \<noteq> []" and len: "length (fs ! i) < 2 ^ 30"
    and big: "int (length (fs ! i)) > single_packet_capacity limits (length fs) i"
  shows "(PacketizeFuA limits fs i = Some (False, []) \<and> cannot_send NonInterleaved limits fs i) \<or>
    (\<exists>h ys us. PacketizeFuA limits fs i = Some (True, us) \<and> fs ! i = h # concat ys \<and> 2 \<le> length ys \<and> (\<forall>y \<in> set ys. y \<noteq> []) \<and>
       list_all2 packet_units (frag_list h True ys) (map (\<lambda>u. [u]) us) \<and> group_fits limits (length fs) i (Suc i) (map (\<lambda>y. 2 + length y) ys))"
proof -
  let ?l = "fu_limits limits (length fs) i"
  obtain h body where f: "fs ! i = h # body" using ne by (cases "fs ! i") auto
  have red: "0 \<le> first_packet_reduction_len ?l" "0 \<le> last_packet_reduction_len ?l" "0 \<le> single_packet_reduction_len ?l"
    using lim by (auto simp: fu_limits_def limits_ok_def)
  have m: "max_payload_len ?l = max_payload_len limits - 2"
    using lim by (simp add: fu_limits_def kFuAHeaderSize_def to_int32_id limits_ok_def)
  have notone: "\<not> int (length body) \<le> max_payload_len ?l - single_packet_reduction_len ?l"
    using big i unfolding m by (auto simp: f single_packet_capacity_def fu_limits_def split: if_splits)
  have sz: "size_sub (length (fs ! i)) kNalHeaderSize = length body" "to_int32 (int (length body)) = int (length body)"
    using len by (simp_all add: f kNalHeaderSize_def size_sub_le to_int32_id)
  have pos: "0 < int (length body)"
    using big lim i by (cases body) (auto simp: f single_packet_capacity_def limits_ok_def split: if_splits)
  have "split_range (int (length body)) ?l"
    using pos red len lim unfolding split_range_def m by (auto simp: f fu_limits_def limits_ok_def)
  then obtain ns where ns: "SplitAboutEqually (int (length body)) ?l = Some ns"
      "if ns = [] then \<not> (\<exists>ds. valid_split ?l (int (length body)) ds) else valid_split ?l (int (length body)) ns"
    using SplitAboutEqually_ok[of "int (length body)" ?l] unfolding fewest_split_def by (metis (no_types, lifting))
  have run: "PacketizeFuA limits fs i = (if ns = [] then Some (False, []) else do { us \<leftarrow> fu_units (fs ! i) 1 (length body) True ns; Some (True, us) })"
    unfolding PacketizeFuA_def Let_def sz ns(1) by (simp add: kNalHeaderSize_def)
  show ?thesis
  proof (cases "ns = []")
    case True
    then show ?thesis using ns(2) big by (intro disjI1) (simp add: run cannot_send_def f)
  next
    case False
    then have v: "valid_split ?l (int (length body)) ns" using ns(2) by simp
    then have "length ns \<noteq> 1" using notone by (auto simp: valid_split_def)
    then have n2: "2 \<le> length ns" using False by (cases ns; cases "tl ns") auto
    define ys where "ys = cut_parts [] [] body ns"
    have v': "\<forall>n \<in> set ns. 0 < n" "sum_list ns = int (length body)" using v by (simp_all add: valid_split_def)
    note ys = cut_parts_parts[OF v', folded ys_def]
    have ly: "length ys = length ns" using arg_cong[OF ys(2), of length] by simp
    obtain us where us: "fu_units (fs ! i) 1 (length body) True ns = Some us" "list_all2 packet_units (frag_list h True ys) (map (\<lambda>u. [u]) us)"
      using fu_units_ok[OF f v'(1), of "length body" True 1] v'(2) n2 len by (auto simp: f ys_def)
    have g: "group_fits limits (length fs) i (Suc i) (map (\<lambda>n. 2 + nat n) ns)"
    proof -
      have p: "\<forall>n \<in> set ns. int (2 + nat n) = 2 + n" "int (2 + nat (hd ns)) = 2 + hd ns" "int (2 + nat (last ns)) = 2 + last ns"
        using v'(1) False by (auto intro!: less_imp_le)
      have "hd ns \<le> max_payload_len ?l - first_packet_reduction_len ?l" "last ns \<le> max_payload_len ?l - last_packet_reduction_len ?l"
          "\<forall>n \<in> set ns. n \<le> max_payload_len ?l"
        using v \<open>length ns \<noteq> 1\<close> by (simp_all add: valid_split_def)
      then show ?thesis
        using p False n2 unfolding m by (auto simp: group_fits_def hd_map last_map fu_limits_def simp del: of_nat_add split: if_splits)
    qed
    have "map (\<lambda>y. 2 + length y) ys = map ((+) 2) (map length ys)" by simp
    then have "map (\<lambda>y. 2 + length y) ys = map (\<lambda>n. 2 + nat n) ns" unfolding ys(2) by simp
    then show ?thesis using us ys n2 ly g False
      by (intro disjI2 exI[of _ h] exI[of _ ys] exI[of _ us]) (simp add: run f)
  qed
qed

fun stap_cost :: "nat \<Rightarrow> nat \<Rightarrow> byte list list \<Rightarrow> nat" where
  "stap_cost headers k [] = 0"
| "stap_cost headers k (x # xs) = length x + headers + stap_cost (if k = 0 then 5 else 2) (Suc k) xs"

fun stap_part :: "bool \<Rightarrow> byte list list \<Rightarrow> PacketUnit list" where
  "stap_part f [] = []"
| "stap_part f (x # xs) = stap_unit f False x # stap_part False xs"

lemma stap_part_Nil [simp]: "stap_part f xs = [] \<longleftrightarrow> xs = []"
  by (cases xs) auto

lemma mark_last_part: "xs \<noteq> [] \<Longrightarrow> mark_last (stap_part f xs) = stap_units f xs"
  by (induction f xs rule: stap_part.induct) (auto simp: mark_last_def stap_unit_def)

lemma stap_cost_payload: "2 \<le> length xs \<Longrightarrow> length (plan_payload lib (Stap xs)) = stap_cost 0 0 xs"
proof -
  assume "2 \<le> length xs"
  then obtain x y ys where xs: "xs = x # y # ys" by (cases xs; cases "tl xs") auto
  have "stap_cost 2 (Suc k) ys = length (concat (map stap_entry ys))" for k ys
    by (induction ys arbitrary: k) (auto simp: stap_entry_def)
  then show ?thesis by (simp add: xs stap_entry_def numeral_2_eq_2)
qed

lemma payload_size_needed_eq:
  assumes "length fragment < 2 ^ 30" "headers \<le> 5" "0 \<le> last_packet_reduction_len limits" "last_packet_reduction_len limits < 2 ^ 16"
  shows "payload_size_needed limits n i fragment headers =
    length fragment + headers + (if n \<noteq> 1 \<and> i = n - 1 then nat (last_packet_reduction_len limits) else 0)"
proof -
  have "size_of_int (last_packet_reduction_len limits) = nat (last_packet_reduction_len limits)" using assms(3,4) by (intro size_of_int_eq) auto
  moreover have "(length fragment + headers + nat (last_packet_reduction_len limits)) mod 2 ^ 64 = length fragment + headers + nat (last_packet_reduction_len limits)"
    using assms by (intro mod_less) auto
  ultimately show ?thesis unfolding payload_size_needed_def by (simp only: if_distrib) auto
qed

lemma stap_loop_ok:
  assumes "\<forall>x \<in> set fs. x \<noteq> [] \<and> length x < 2 ^ 30" "i + length fs = n" "left < 2 ^ 64" "headers \<le> 5" "0 \<le> last_packet_reduction_len limits" "last_packet_reduction_len limits < 2 ^ 16"
  shows "\<exists>xs. stap_loop limits n i fs left headers k = Some (stap_part (k = 0) xs, i + length xs) \<and> xs = take (length xs) fs \<and>
    stap_cost headers k xs \<le> left \<and>
    (xs \<noteq> [] \<and> i + length xs = n \<and> n \<noteq> 1 \<longrightarrow> stap_cost headers k xs + nat (last_packet_reduction_len limits) \<le> left)"
  using assms(1-4)
proof (induction fs arbitrary: i left headers k)
  case (Cons x fs)
  have need: "payload_size_needed limits n i x headers = length x + headers + (if n \<noteq> 1 \<and> i = n - 1 then nat (last_packet_reduction_len limits) else 0)"
    using Cons.prems(1,4) assms(5,6) by (intro payload_size_needed_eq) auto
  show ?case
  proof (cases "left \<ge> payload_size_needed limits n i x headers")
    case True
    let ?left = "left - length x - headers"
    have l: "length x + headers \<le> left" using True by (auto simp: need split: if_splits)
    have ls: "size_sub (size_sub left (length x)) headers = ?left" using l Cons.prems(3) by (simp add: size_sub_le)
    let ?h = "if k = 0 then 5 else 2"
    have hd: "kLengthFieldSize + (if k = 0 then kNalHeaderSize + kLengthFieldSize else 0) = ?h" by (simp add: h264_sizes)
    obtain xs where xs: "stap_loop limits n (Suc i) fs ?left ?h (Suc k) = Some (stap_part False xs, Suc i + length xs)" "xs = take (length xs) fs"
        "stap_cost ?h (Suc k) xs \<le> ?left"
        "xs \<noteq> [] \<and> Suc i + length xs = n \<and> n \<noteq> 1 \<longrightarrow> stap_cost ?h (Suc k) xs + nat (last_packet_reduction_len limits) \<le> ?left"
    proof -
      have "\<forall>x \<in> set fs. x \<noteq> [] \<and> length x < 2 ^ 30" "Suc i + length fs = n" "?left < 2 ^ 64" "?h \<le> (5 :: nat)" using Cons.prems by auto
      from Cons.IH[OF this, of "Suc k"] show thesis using that by auto
    qed
    have "stap_loop limits n i (x # fs) left headers k = Some (stap_part (k = 0) (x # xs), i + length (x # xs))"
      using True Cons.prems(1) unfolding stap_loop.simps hd ls xs(1) by (simp add: stap_unit_def)
    moreover have "x # xs = take (length (x # xs)) (x # fs)" using xs(2) by simp
    moreover have "stap_cost headers k (x # xs) \<le> left" using xs(3) l by auto
    moreover have "stap_cost headers k (x # xs) + nat (last_packet_reduction_len limits) \<le> left" if "i + length (x # xs) = n" "n \<noteq> 1"
      using xs(4) that True l by (cases "xs = []") (auto simp: need split: if_splits)
    ultimately show ?thesis by blast
  next
    case False
    then show ?thesis by (intro exI[of _ "[]"]) simp
  qed
qed simp

lemma PacketizeStapA_ok:
  assumes lim: "limits_ok limits" and i: "i < length fs" and ne: "\<forall>x \<in> set fs. x \<noteq> [] \<and> length x < 2 ^ 30"
    and fit: "int (length (fs ! i)) \<le> single_packet_capacity limits (length fs) i"
  shows "\<exists>xs pk us. PacketizeStapA limits fs i = Some (us, i + length xs) \<and> xs \<noteq> [] \<and> xs = take (length xs) (drop i fs) \<and>
    packet_units pk us \<and> (pk = (if length xs = 1 then Single (hd xs) else Stap xs)) \<and> (\<forall>x \<in> set xs. length x < 2 ^ 16) \<and>
    group_fits limits (length fs) i (i + length xs) [length (plan_payload lib pk)]"
proof -
  let ?m = "max_payload_len limits" and ?n = "length fs"
  have b: "0 \<le> ?m" "?m < 2 ^ 16" "0 \<le> first_packet_reduction_len limits" "first_packet_reduction_len limits \<le> ?m"
      "0 \<le> last_packet_reduction_len limits" "last_packet_reduction_len limits < 2 ^ 16"
      "0 \<le> single_packet_reduction_len limits" "single_packet_reduction_len limits \<le> ?m"
    using lim by (auto simp: limits_ok_def)
  define L where "L = (if ?n = 1 then nat (?m - single_packet_reduction_len limits) else if i = 0 then nat (?m - first_packet_reduction_len limits) else nat ?m)"
  have e: "size_of_int ?m = nat ?m" using b by (intro size_of_int_eq) auto
  have "(if ?n = 1 then size_sub (size_of_int ?m) (size_of_int (single_packet_reduction_len limits))
      else if i = 0 then size_sub (size_of_int ?m) (size_of_int (first_packet_reduction_len limits)) else size_of_int ?m) = L"
    using size_diff[OF b(3,4,2)] size_diff[OF b(7,8,2)] e by (simp add: L_def)
  then have run: "PacketizeStapA limits fs i = (if L < length (fs ! i) then None
      else do { (us, j) \<leftarrow> stap_loop limits ?n i (drop i fs) L 0 0; if us = [] then None else Some (mark_last us, j) })"
    unfolding PacketizeStapA_def Let_def by simp
  have Lb: "L < 2 ^ 16" "int L \<le> ?m" using b by (auto simp: L_def)
  obtain xs where xs: "stap_loop limits ?n i (drop i fs) L 0 0 = Some (stap_part True xs, i + length xs)" "xs = take (length xs) (drop i fs)"
      "stap_cost 0 0 xs \<le> L" "xs \<noteq> [] \<and> i + length xs = ?n \<and> ?n \<noteq> 1 \<longrightarrow> stap_cost 0 0 xs + nat (last_packet_reduction_len limits) \<le> L"
    using stap_loop_ok[of "drop i fs" i ?n L 0 limits 0] ne i b Lb by (auto dest: in_set_dropD)
  have fi: "drop i fs = fs ! i # drop (Suc i) fs" using i by (simp add: Cons_nth_drop_Suc)
  have nn: "?n = 1 \<or> 1 < ?n" using i by linarith
  have pn: "payload_size_needed limits ?n i (fs ! i) 0 = length (fs ! i) + (if ?n \<noteq> 1 \<and> i = ?n - 1 then nat (last_packet_reduction_len limits) else 0)"
    using payload_size_needed_eq[of "fs ! i" 0 limits ?n i] ne i b(5,6) by auto
  have need: "payload_size_needed limits ?n i (fs ! i) 0 \<le> L" "length (fs ! i) \<le> L"
  proof -
    have "payload_size_needed limits ?n i (fs ! i) 0 \<le> L \<and> length (fs ! i) \<le> L"
    proof (cases "?n = 1")
      case True
      then show ?thesis using fit unfolding pn by (simp add: single_packet_capacity_def L_def)
    next
      case False
      then have "i = 0 \<and> i \<noteq> ?n - 1 \<or> i \<noteq> 0 \<and> i = ?n - 1 \<and> i + 1 = ?n \<or> i \<noteq> 0 \<and> i \<noteq> ?n - 1 \<and> i + 1 \<noteq> ?n" using nn by linarith
      then show ?thesis
        using fit b False unfolding pn by (elim disjE) (auto simp: single_packet_capacity_def L_def)
    qed
    then show "payload_size_needed limits ?n i (fs ! i) 0 \<le> L" "length (fs ! i) \<le> L" by blast+
  qed
  then have nonempty: "xs \<noteq> []" using xs(1) ne i by (auto simp: fi split: if_splits Option.bind_splits)
  define pk where "pk = (if length xs = 1 then Single (hd xs) else Stap xs)"
  have cost: "length (plan_payload lib pk) = stap_cost 0 0 xs"
  proof (cases "length xs = 1")
    case True
    then show ?thesis by (cases xs) (auto simp: pk_def)
  next
    case False
    then have "2 \<le> length xs" using nonempty by (cases xs; cases "tl xs") auto
    then show ?thesis unfolding pk_def using False stap_cost_payload by simp
  qed
  have "packet_units pk (stap_units True xs)"
    using nonempty by (cases xs; cases "tl xs") (auto simp: pk_def stap_unit_def)
  moreover have "PacketizeStapA limits fs i = Some (stap_units True xs, i + length xs)"
    using need(2) nonempty by (simp add: run xs(1) mark_last_part)
  moreover have "length x < 2 ^ 16" if "x \<in> set xs" for x
  proof -
    have "length x \<le> stap_cost h k xs" for h k using that by (induction xs arbitrary: h k) (auto intro: trans_le_add2)
    from this[of 0 0] show ?thesis using xs(3) Lb(1) by linarith
  qed
  moreover have "group_fits limits ?n i (i + length xs) [length (plan_payload lib pk)]"
  proof -
    define C where "C = int (stap_cost 0 0 xs)"
    have intL: "int L = (if ?n = 1 then ?m - single_packet_reduction_len limits else if i = 0 then ?m - first_packet_reduction_len limits else ?m)"
      using b by (simp add: L_def)
    have "C \<le> int L" "i + length xs = ?n \<and> ?n \<noteq> 1 \<longrightarrow> C + last_packet_reduction_len limits \<le> int L"
      using xs(3,4) nonempty b(5) by (auto simp: C_def)
    then show ?thesis
      using b lim i unfolding cost group_fits_def intL limits_ok_def by (cases "?n = 1"; cases "i = 0") (simp_all add: C_def [symmetric], linarith+)
  qed
  ultimately show ?thesis using nonempty xs(2) pk_def by blast
qed

text \<open>What \<open>generate_packets\<close> returns from the NAL unit \<open>i\<close> on.\<close>

definition generated :: "h264_lib \<Rightarrow> H264PacketizationMode \<Rightarrow> PayloadSizeLimits \<Rightarrow> byte list list \<Rightarrow> nat \<Rightarrow> PacketUnit list \<Rightarrow> nat
    \<Rightarrow> (bool \<times> PacketUnit list \<times> nat) option \<Rightarrow> bool" where
  "generated lib mode limits fs i us n res \<longleftrightarrow>
     (\<exists>plan uss. res = Some (True, us @ concat uss, n + length plan) \<and> list_all2 packet_units plan uss \<and> carries plan (drop i fs) \<and>
        (i < length fs \<longrightarrow> group_fits limits (length fs) i (length fs) (map (length \<circ> plan_payload lib) plan)) \<and>
        (mode = SingleNalUnit \<longrightarrow> plan = map Single (drop i fs))) \<or>
     (\<exists>us' n' j. res = Some (False, us', n') \<and> i \<le> j \<and> j < length fs \<and> cannot_send mode limits fs j)"

lemma generated_step:
  assumes rest: "generated lib mode limits fs j (us @ concat uss) (n + length G) res"
    and G: "list_all2 packet_units G uss" "\<And>plan ns. carries plan ns \<Longrightarrow> carries (G @ plan) (ds @ ns)" "drop i fs = ds @ drop j fs"
      "group_fits limits (length fs) i j (map (length \<circ> plan_payload lib) G)" "i < j" "j \<le> length fs" "mode = SingleNalUnit \<longrightarrow> G = map Single ds"
  shows "generated lib mode limits fs i us n res"
  using rest unfolding generated_def[of lib mode limits fs j]
proof (elim disjE exE conjE)
  fix plan vss
  assume p: "res = Some (True, (us @ concat uss) @ concat vss, n + length G + length plan)" "list_all2 packet_units plan vss"
    "carries plan (drop j fs)" "j < length fs \<longrightarrow> group_fits limits (length fs) j (length fs) (map (length \<circ> plan_payload lib) plan)"
    "mode = SingleNalUnit \<longrightarrow> plan = map Single (drop j fs)"
  have "group_fits limits (length fs) i (length fs) (map (length \<circ> plan_payload lib) (G @ plan))" if "i < length fs"
  proof (cases "j < length fs")
    case True
    then show ?thesis using group_fits_append[OF G(4) _ G(5)] p(4) by simp
  next
    case False
    then have "drop j fs = []" by simp
    then have "plan = []" using p(3) by (auto elim: carries.cases)
    moreover have "j = length fs" using False G(6) by simp
    ultimately show ?thesis using G(4) by simp
  qed
  then show ?thesis
    unfolding generated_def using p G
    by (intro disjI1 exI[of _ "G @ plan"] exI[of _ "uss @ vss"]) (auto intro: list_all2_appendI)
next
  fix us' n' k
  assume "res = Some (False, us', n')" "j \<le> k" "k < length fs" "cannot_send mode limits fs k"
  then show ?thesis unfolding generated_def using G(5) by (intro disjI2 exI[of _ us'] exI[of _ n'] exI[of _ k]) simp
qed

lemma generated_stop:
  assumes "generate_packets mode limits fs i us n = Some (False, us, n)" "cannot_send mode limits fs i" "i < length fs"
  shows "generated lib mode limits fs i us n (generate_packets mode limits fs i us n)"
  unfolding generated_def using assms by blast

lemma generated_single:
  assumes lim: "limits_ok limits" and i: "i < length fs" "fs ! i \<noteq> []" and mode: "mode = SingleNalUnit"
    and rest: "\<And>us n. generated lib mode limits fs (Suc i) us n (generate_packets mode limits fs (Suc i) us n)"
  shows "generated lib mode limits fs i us n (generate_packets mode limits fs i us n)"
proof (cases "int (length (fs ! i)) > single_packet_capacity limits (length fs) i")
  case True
  then have "generate_packets mode limits fs i us n = Some (False, us, n)"
    unfolding generate_packets.simps[of mode limits fs i us n] using PacketizeSingleNalu_ok[OF lim i] i mode by simp
  then show ?thesis using True mode i by (intro generated_stop) (simp_all add: cannot_send_def)
next
  case False
  let ?u = "\<lparr>source_fragment = fs ! i, first_fragment = True, last_fragment = True, aggregated = False, unit_header = hd (fs ! i)\<rparr>"
  have fi: "drop i fs = [fs ! i] @ drop (Suc i) fs" using i by (simp add: Cons_nth_drop_Suc)
  have e: "generate_packets mode limits fs i us n = generate_packets mode limits fs (Suc i) (us @ concat [[?u]]) (n + length [Single (fs ! i)])"
    unfolding generate_packets.simps[of mode limits fs i us n] using PacketizeSingleNalu_ok[OF lim i] i False mode by simp
  show ?thesis
    unfolding e
  proof (rule generated_step[OF rest _ _ fi])
    show "group_fits limits (length fs) i (Suc i) (map (length \<circ> plan_payload lib) [Single (fs ! i)])"
      using single_group[OF lim i(1)] False by simp
  qed (use i in \<open>auto intro: carries_single\<close>)
qed

text \<open>The step of the mode \<open>NonInterleaved\<close>.\<close>

lemma generate_packets_NonInterleaved:
  assumes lim: "limits_ok limits" and i: "i < length fs" "length (fs ! i) < 2 ^ 30"
  shows "generate_packets NonInterleaved limits fs i us n =
    (if int (length (fs ! i)) > single_packet_capacity limits (length fs) i then
       (case PacketizeFuA limits fs i of None \<Rightarrow> None
        | Some (ok, us') \<Rightarrow> if \<not> ok then Some (False, us, n) else generate_packets NonInterleaved limits fs (Suc i) (us @ us') (n + length us'))
     else (case PacketizeStapA limits fs i of None \<Rightarrow> None
        | Some (us', j) \<Rightarrow> generate_packets NonInterleaved limits fs j (us @ us') (Suc n)))"
proof -
  have "int_result (single_packet_capacity limits (length fs) i) = Some (single_packet_capacity limits (length fs) i)"
    using lim by (auto simp: int_result_def single_packet_capacity_def limits_ok_def)
  then show ?thesis
    unfolding generate_packets.simps[of NonInterleaved limits fs i us n] using i by (simp add: to_int32_id)
qed

lemma generated_fu:
  assumes lim: "limits_ok limits" and i: "i < length fs" "fs ! i \<noteq> []" "length (fs ! i) < 2 ^ 30"
    and big: "int (length (fs ! i)) > single_packet_capacity limits (length fs) i"
    and rest: "\<And>us n. generated lib NonInterleaved limits fs (Suc i) us n (generate_packets NonInterleaved limits fs (Suc i) us n)"
  shows "generated lib NonInterleaved limits fs i us n (generate_packets NonInterleaved limits fs i us n)"
  using PacketizeFuA_ok[OF lim i big]
proof (elim disjE exE conjE)
  assume f: "PacketizeFuA limits fs i = Some (False, [])" "cannot_send NonInterleaved limits fs i"
  then have "generate_packets NonInterleaved limits fs i us n = Some (False, us, n)"
    using big by (simp add: generate_packets_NonInterleaved[OF lim i(1,3)])
  then show ?thesis using f(2) i(1) by (rule generated_stop)
next
  fix h ys vs
  assume f: "PacketizeFuA limits fs i = Some (True, vs)" "fs ! i = h # concat ys" "2 \<le> length ys" "\<forall>y \<in> set ys. y \<noteq> []"
    "list_all2 packet_units (frag_list h True ys) (map (\<lambda>u. [u]) vs)" "group_fits limits (length fs) i (Suc i) (map (\<lambda>y. 2 + length y) ys)"
  have fi: "drop i fs = [fs ! i] @ drop (Suc i) fs" using i by (simp add: Cons_nth_drop_Suc)
  have c: "concat (map (\<lambda>u. [u]) vs) = vs" by (induction vs) auto
  have l: "length (frag_list h True ys) = length vs" using list_all2_lengthD[OF f(5)] by simp
  have e: "generate_packets NonInterleaved limits fs i us n =
      generate_packets NonInterleaved limits fs (Suc i) (us @ concat (map (\<lambda>u. [u]) vs)) (n + length (frag_list h True ys))"
    using big by (simp add: generate_packets_NonInterleaved[OF lim i(1,3)] f(1) c l)
  show ?thesis
    unfolding e
  proof (rule generated_step[OF rest f(5) _ fi])
    show "group_fits limits (length fs) i (Suc i) (map (length \<circ> plan_payload lib) (frag_list h True ys))"
      using f(6) by (simp add: length_frag_list)
  qed (use i f in \<open>auto intro: carries_frags\<close>)
qed

lemma generated_stap:
  assumes lim: "limits_ok limits" and i: "i < length fs" and ne: "\<forall>x \<in> set fs. x \<noteq> [] \<and> length x < 2 ^ 30"
    and fit: "int (length (fs ! i)) \<le> single_packet_capacity limits (length fs) i"
    and rest: "\<And>j us n. i < j \<Longrightarrow> generated lib NonInterleaved limits fs j us n (generate_packets NonInterleaved limits fs j us n)"
  shows "generated lib NonInterleaved limits fs i us n (generate_packets NonInterleaved limits fs i us n)"
proof -
  obtain xs pk vs where s: "PacketizeStapA limits fs i = Some (vs, i + length xs)" "xs \<noteq> []" "xs = take (length xs) (drop i fs)"
      "packet_units pk vs" "pk = (if length xs = 1 then Single (hd xs) else Stap xs)" "\<forall>x \<in> set xs. length x < 2 ^ 16"
      "group_fits limits (length fs) i (i + length xs) [length (plan_payload lib pk)]"
    using PacketizeStapA_ok[OF lim i ne fit, of lib] by blast
  have d: "drop i fs = xs @ drop (i + length xs) fs" using s(3) by (metis append_take_drop_id drop_drop add.commute)
  have le: "i + length xs \<le> length fs" using arg_cong[OF s(3), of length] i by simp
  have carry: "carries plan ns \<Longrightarrow> carries ([pk] @ plan) (xs @ ns)" for plan ns
    using s(2,5,6) carries_stap[of plan ns xs] carries_single[of plan ns "hd xs"] by (cases xs; cases "tl xs") auto
  have "length (fs ! i) < 2 ^ 30" using ne i by simp
  then have e: "generate_packets NonInterleaved limits fs i us n =
      generate_packets NonInterleaved limits fs (i + length xs) (us @ concat [vs]) (n + length [pk])"
    using fit by (simp add: generate_packets_NonInterleaved[OF lim i] s(1))
  have "i < i + length xs" using s(2) by simp
  then show ?thesis
    unfolding e by (rule generated_step[OF rest _ carry d]) (use s le in auto)
qed

lemma generate_packets_ok:
  assumes lim: "limits_ok limits" and ne: "\<forall>x \<in> set fs. x \<noteq> [] \<and> length x < 2 ^ 30"
  shows "generated lib mode limits fs i us n (generate_packets mode limits fs i us n)"
proof (induction "length fs - i" arbitrary: i us n rule: less_induct)
  case less
  show ?case
  proof (cases "i < length fs")
    case False
    then show ?thesis
      unfolding generated_def by (intro disjI1 exI[of _ "[]"]) (simp add: generate_packets.simps[of mode limits fs i] carries_nil)
  next
    case True
    then have rest: "generated lib mode limits fs j us n (generate_packets mode limits fs j us n)" if "i < j" for j us n
      using that by (intro less) auto
    have nei: "fs ! i \<noteq> []" "length (fs ! i) < 2 ^ 30" using ne True by auto
    show ?thesis
    proof (cases mode)
      case SingleNalUnit
      then show ?thesis using generated_single[OF lim True nei(1)] rest by blast
    next
      case NonInterleaved
      then show ?thesis
        using generated_fu[OF lim True nei] generated_stap[OF lim True ne] rest
        by (cases "int (length (fs ! i)) > single_packet_capacity limits (length fs) i") (simp_all add: not_less)
    qed
  qed
qed

end
