(* ===== verification/Rtp_H264_Stream.thy ===== *)
theory Rtp_H264_Stream
  imports Rtp_H264
begin

text \<open>
  The H.264 depacketizer of \<open>video_rtp_depacketizer_h264\<close>, the assembly of frames of \<open>video_rtp_depacketizer\<close>, and the round trip of a frame from
  the packetizer over the wire to the depacketizer.
\<close>

subsection \<open>The depacketizer\<close>

text \<open>The offsets of the NAL units of a STAP-A packet, relative to the packet; \<open>pos\<close> is the read position behind the NAL header.\<close>

function ParseStapAStartOffsets :: "byte list \<Rightarrow> nat \<Rightarrow> nat \<Rightarrow> nat \<Rightarrow> nat list \<Rightarrow> (bool \<times> nat list) option" where
  "ParseStapAStartOffsets payload pos length_remaining off offsets =
     (if \<not> length_remaining > 0 then Some (True, offsets)
      else if length_remaining < 2 then Some (False, offsets)
      else
        case get_be16 payload pos of
          None \<Rightarrow> None
        | Some sz \<Rightarrow>
            let nalu_size = unat sz
            in if nalu_size > length_remaining - 2 then Some (False, offsets)
               else ParseStapAStartOffsets payload (pos + 2 + nalu_size) (length_remaining - 2 - nalu_size)
                      (off + (kLengthFieldSize + nalu_size)) (offsets @ [off + kStapAHeaderSize]))"
  by pat_completeness auto
termination
  by (relation "measure (\<lambda>(_, _, n, _, _). n)") auto

declare ParseStapAStartOffsets.simps [simp del]

definition to_id :: "u32 \<Rightarrow> int" where "to_id x = sint x"

text \<open>An SPS: the rewriter gets a copy of everything in front of it, and a rewritten one replaces the old.\<close>

definition process_sps :: "h264_lib \<Rightarrow> byte list \<Rightarrow> bool \<Rightarrow> nat \<Rightarrow> nat \<Rightarrow> ParsedRtpPayload \<Rightarrow> NaluInfo \<Rightarrow> (ParsedRtpPayload \<times> NaluInfo) option" where
  "process_sps lib payload stap start_offset end_offset v nalu = do {
     before \<leftarrow> slice payload 0 start_offset;
     sps_bytes \<leftarrow> slice payload start_offset (size_sub end_offset start_offset);
     let (rewritten, output_buffer, sps) = ParseAndRewriteSps lib sps_bytes before;
     v \<leftarrow> (if rewritten then do {
            output_buffer \<leftarrow>
              (if stap then
                 store_at (size_sub start_offset (kNaluTypeSize lib + kLengthFieldSize))
                   (put_be16 (of_nat (size_sub (length output_buffer) start_offset + kNaluTypeSize lib))) output_buffer
               else Some output_buffer);
            rest \<leftarrow> slice payload end_offset (size_sub (length payload) end_offset);
            Some (v\<lparr>video_payload := output_buffer @ rest\<rparr>) }
          else Some v);
     let v = v\<lparr>video_header := (video_header v)\<lparr>frame_type := kVideoFrameKey\<rparr>\<rparr>;
     Some (case sps of
         Some (w, h, ident) \<Rightarrow> (v\<lparr>video_header := (video_header v)\<lparr>frame_width := ucast w, frame_height := ucast h\<rparr>\<rparr>,
           nalu\<lparr>nalu_sps_id := to_id ident\<rparr>)
       | None \<Rightarrow> (v, nalu)) }"

definition process_slice :: "h264_lib \<Rightarrow> byte list \<Rightarrow> nat \<Rightarrow> nat \<Rightarrow> NaluInfo \<Rightarrow> NaluInfo option" where
  "process_slice lib payload start_offset end_offset nalu = do {
     bs \<leftarrow> slice payload start_offset (size_sub end_offset start_offset);
     Some (case ParsePpsIdFromSlice lib bs of Some pps_id \<Rightarrow> nalu\<lparr>nalu_pps_id := to_id pps_id\<rparr> | None \<Rightarrow> nalu) }"

text \<open>One NAL unit; the inner \<open>None\<close> is \<open>absl::nullopt\<close>.\<close>

definition process_nalu :: "h264_lib \<Rightarrow> byte list \<Rightarrow> bool \<Rightarrow> nat \<Rightarrow> nat \<Rightarrow> ParsedRtpPayload \<Rightarrow> (ParsedRtpPayload \<times> NaluInfo) option option" where
  "process_nalu lib payload stap start_offset end_offset v =
     (if size_sub end_offset start_offset < kNaluTypeSize lib then Some None
      else do {
        b \<leftarrow> get_u8 payload start_offset;
        let ty = b AND kTypeMask;
        let nalu = \<lparr>nalu_info_type = ty, nalu_sps_id = -1, nalu_pps_id = -1\<rparr>;
        let start_offset = start_offset + kNaluTypeSize lib;
        if ty = kSps lib then map_option Some (process_sps lib payload stap start_offset end_offset v nalu)
        else if ty = kPps lib then do {
          bs \<leftarrow> slice payload start_offset (size_sub end_offset start_offset);
          Some (Some (v, case ParsePpsIds lib bs of Some (pps_id, sps_id) \<Rightarrow> nalu\<lparr>nalu_pps_id := to_id pps_id, nalu_sps_id := to_id sps_id\<rparr> | None \<Rightarrow> nalu)) }
        else if ty = kIdr lib then
          map_option (\<lambda>n. Some (v\<lparr>video_header := (video_header v)\<lparr>frame_type := kVideoFrameKey\<rparr>\<rparr>, n)) (process_slice lib payload start_offset end_offset nalu)
        else if ty = kSlice lib then map_option (\<lambda>n. Some (v, n)) (process_slice lib payload start_offset end_offset nalu)
        else if ty = kStapA lib \<or> ty = kFuA lib then Some None
        else Some (Some (v, nalu)) })"

fun process_nalus :: "h264_lib \<Rightarrow> byte list \<Rightarrow> bool \<Rightarrow> nat list \<Rightarrow> ParsedRtpPayload \<Rightarrow> RTPVideoHeaderH264 \<Rightarrow> (ParsedRtpPayload \<times> RTPVideoHeaderH264) option option" where
  "process_nalus lib payload stap (start_offset # next # offsets) v h =
     (case process_nalu lib payload stap start_offset (size_sub next kLengthFieldSize) v of
        None \<Rightarrow> None
      | Some None \<Rightarrow> Some None
      | Some (Some (v, nalu)) \<Rightarrow>
          process_nalus lib payload stap (next # offsets) v
            (if length (nalus h) = kMaxNalusPerPacket lib then h else h\<lparr>nalus := nalus h @ [nalu]\<rparr>))"
| "process_nalus lib payload stap offsets v h = Some (Some (v, h))"

definition ProcessStapAOrSingleNalu :: "h264_lib \<Rightarrow> byte list \<Rightarrow> ParsedRtpPayload option option" where
  "ProcessStapAOrSingleNalu lib payload = do {
     b0 \<leftarrow> get_u8 payload 0;
     let v = \<lparr>video_header = RTPVideoHeader_init\<lparr>frame_width := 0, frame_height := 0, codec := kVideoCodecH264, simulcastIdx := 0,
                is_first_packet_in_frame := True\<rparr>, video_payload = payload\<rparr>;
     let nalu_length = size_sub (length payload) kNalHeaderSize;
     let stap = (b0 AND kTypeMask = kStapA lib);
     start \<leftarrow>
       (if stap then
          if length payload \<le> kStapAHeaderSize then Some None
          else do {
            (ok, offsets) \<leftarrow> ParseStapAStartOffsets payload kNalHeaderSize nalu_length 0 [];
            b \<leftarrow> get_u8 payload kStapAHeaderSize;
            Some (if ok then Some (offsets, \<lparr>nalu_type = b AND kTypeMask, packetization_type = kH264StapA, nalus = []\<rparr>) else None) }
        else Some (Some ([0], \<lparr>nalu_type = b0 AND kTypeMask, packetization_type = kH264SingleNalu, nalus = []\<rparr>)));
     case start of
       None \<Rightarrow> Some None
     | Some (offsets, h) \<Rightarrow>
         map_option (map_option (\<lambda>(v, h). v\<lparr>video_header := (video_header v)\<lparr>video_type_header := H264Header h\<rparr>\<rparr>))
           (process_nalus lib payload stap (offsets @ [length payload + kLengthFieldSize])
             (v\<lparr>video_header := (video_header v)\<lparr>frame_type := kVideoFrameDelta\<rparr>\<rparr>) h) }"

definition ParseFuaNalu :: "h264_lib \<Rightarrow> byte list \<Rightarrow> ParsedRtpPayload option option" where
  "ParseFuaNalu lib payload =
     (if length payload < kFuAHeaderSize then Some None
      else do {
        b0 \<leftarrow> get_u8 payload 0;
        b1 \<leftarrow> get_u8 payload 1;
        let fnri = b0 AND (kFBit OR kNriMask);
        let original_nal_type = b1 AND kTypeMask;
        let first = (b1 AND kSBit > 0);
        let nalu = \<lparr>nalu_info_type = original_nal_type, nalu_sps_id = -1, nalu_pps_id = -1\<rparr>;
        let nalu = (if first then case ParsePpsIdFromSlice lib (drop (2 * kNalHeaderSize) payload) of
                        Some pps_id \<Rightarrow> nalu\<lparr>nalu_pps_id := to_id pps_id\<rparr> | None \<Rightarrow> nalu else nalu);
        let v = (if first then (drop kNalHeaderSize payload)[0 := fnri OR original_nal_type] else drop kFuAHeaderSize payload);
        Some (Some \<lparr>video_header = RTPVideoHeader_init
            \<lparr>frame_type := (if original_nal_type = kIdr lib then kVideoFrameKey else kVideoFrameDelta), frame_width := 0, frame_height := 0,
             codec := kVideoCodecH264, simulcastIdx := 0, is_first_packet_in_frame := first,
             video_type_header := H264Header \<lparr>nalu_type = original_nal_type, packetization_type = kH264FuA, nalus = (if first then [nalu] else [])\<rparr>\<rparr>,
           video_payload = v\<rparr>) })"

definition VideoRtpDepacketizerH264_Parse :: "h264_lib \<Rightarrow> byte list \<Rightarrow> ParsedRtpPayload option option" where
  "VideoRtpDepacketizerH264_Parse lib payload =
     (if length payload = 0 then Some None
      else do {
        b0 \<leftarrow> get_u8 payload 0;
        if b0 AND kTypeMask = kFuA lib then ParseFuaNalu lib payload else ProcessStapAOrSingleNalu lib payload })"

definition h264_start_code :: "byte list" where "h264_start_code = [0, 0, 0, 1]"

definition AssembleFrame :: "byte list list \<Rightarrow> byte list" where
  "AssembleFrame rtp_payloads = concat (map (\<lambda>payload. h264_start_code @ payload) rtp_payloads)"

subsection \<open>What is received is what was sent\<close>

text \<open>The NAL unit types of H.264 and RFC 6184; the rewriter appends to the buffer it is given.\<close>

definition h264_law :: "h264_lib \<Rightarrow> bool" where
  "h264_law lib \<longleftrightarrow> kSlice lib = 1 \<and> kIdr lib = 5 \<and> kSps lib = 7 \<and> kPps lib = 8 \<and> kStapA lib = 24 \<and> kFuA lib = 28 \<and> kNaluTypeSize lib = 1 \<and>
     (\<forall>bs out. \<exists>new. fst (snd (ParseAndRewriteSps lib bs out)) = out @ new)"

definition nalu_ok :: "h264_lib \<Rightarrow> byte list \<Rightarrow> bool" where
  "nalu_ok lib x \<longleftrightarrow> x \<noteq> [] \<and> hd x AND kTypeMask \<notin> {24, 28} \<and>
     (hd x AND kTypeMask = 7 \<longrightarrow> (\<forall>out. \<not> fst (ParseAndRewriteSps lib (tl x) out)))"

text \<open>The receiver of RFC 6184 behind the depacketizer: it takes aggregated packets apart and joins fragments.\<close>

function stap_split :: "byte list \<Rightarrow> byte list list" where
  "stap_split bs = (if length bs < 2 then [] else
     let n = unat (the (get_be16 bs 0)) in take n (drop 2 bs) # stap_split (drop (2 + n) bs))"
  by pat_completeness auto
termination
  by (relation "measure length") (auto simp: Let_def)

declare stap_split.simps [simp del]

definition add_payload :: "ParsedRtpPayload \<Rightarrow> byte list list \<Rightarrow> byte list list" where
  "add_payload v ns =
     (case video_type_header (video_header v) of
        H264Header h \<Rightarrow>
          (case packetization_type h of
             kH264SingleNalu \<Rightarrow> ns @ [video_payload v]
           | kH264StapA \<Rightarrow> ns @ stap_split (tl (video_payload v))
           | kH264FuA \<Rightarrow> if is_first_packet_in_frame (video_header v) then ns @ [video_payload v]
               else butlast ns @ [last ns @ video_payload v])
      | _ \<Rightarrow> ns)"

definition reassemble :: "ParsedRtpPayload list \<Rightarrow> byte list list" where
  "reassemble vs = fold add_payload vs []"

lemma byte_eqI:
  fixes a b :: byte
  assumes "\<And>n. n \<in> {0, 1, 2, 3, 4, 5, 6, 7} \<Longrightarrow> bit a n = bit b n"
  shows "a = b"
proof (rule bit_word_eqI)
  fix n
  assume "n < LENGTH(8)"
  then have "n = 0 \<or> n = 1 \<or> n = 2 \<or> n = 3 \<or> n = 4 \<or> n = 5 \<or> n = 6 \<or> n = 7" by auto
  then show "bit a n = bit b n" using assms by blast
qed

lemma fu_bytes:
  fixes h :: byte
  shows "((h AND 0xE0) OR 28) AND 0x1F = 28" "((h AND 0xE0) OR 28) AND 0xE0 = h AND 0xE0" "((h AND 0xE0) OR 24) AND 0x1F = 24"
    "(0x80 OR (h AND 0x1F)) AND 0x1F = h AND 0x1F" "(0x40 OR (h AND 0x1F)) AND 0x1F = h AND 0x1F"
    "(0x80 OR 0x40 OR (h AND 0x1F)) AND 0x1F = h AND 0x1F"
    "(0x80 OR (h AND 0x1F)) AND 0x80 = 0x80" "(0x40 OR (h AND 0x1F)) AND 0x80 = 0" "(0x80 OR 0x40 OR (h AND 0x1F)) AND 0x80 = 0x80"
    "(h AND 0x1F) AND 0x80 = 0" "(h AND 0x1F) AND 0x1F = h AND 0x1F" "(h AND 0xE0) OR (h AND 0x1F) = h"
  by (rule byte_eqI; auto simp: bit_or_iff bit_and_iff)+

lemma process_nalu_keeps:
  assumes law: "h264_law lib" and ok: "nalu_ok lib x" and p: "payload = pre @ x @ post" "length payload < 2 ^ 64"
  shows "\<exists>v' n. process_nalu lib payload stap (length pre) (length pre + length x) v = Some (Some (v', n)) \<and> video_payload v' = video_payload v \<and>
    is_first_packet_in_frame (video_header v') = is_first_packet_in_frame (video_header v)"
proof -
  obtain b ys where x: "x = b # ys" using ok by (cases x) (auto simp: nalu_ok_def)
  have sz: "size_sub (length pre + length x) (length pre) = Suc (length ys)" "size_sub (length pre + length x) (Suc (length pre)) = length ys"
    using p by (simp_all add: x size_sub_le)
  have g: "get_u8 payload (length pre) = Some b" "slice payload (Suc (length pre)) (length ys) = Some ys" "slice payload 0 (Suc (length pre)) = Some (pre @ [b])"
    by (simp_all add: p(1) x get_u8_def nth_append slice_def)
  have c: "kNaluTypeSize lib = 1" "kSps lib = 7" "kStapA lib = 24" "kFuA lib = 28" using law by (simp_all add: h264_law_def)
  have sps: "\<exists>v' n. process_sps lib payload stap (Suc (length pre)) (length pre + length x) v nalu = Some (v', n) \<and> video_payload v' = video_payload v \<and>
      is_first_packet_in_frame (video_header v') = is_first_packet_in_frame (video_header v)" if ty: "b AND kTypeMask = 7" for nalu
  proof -
    obtain out s where "ParseAndRewriteSps lib ys (pre @ [b]) = (False, out, s)"
    proof -
      have "\<not> fst (ParseAndRewriteSps lib ys (pre @ [b]))" using ok ty by (simp add: nalu_ok_def x)
      then show thesis using that by (cases "ParseAndRewriteSps lib ys (pre @ [b])") auto
    qed
    then show ?thesis by (auto simp: process_sps_def g sz Let_def split: option.splits)
  qed
  have "b AND kTypeMask \<notin> {24, 28}" using ok by (simp add: nalu_ok_def x)
  then show ?thesis
    using sps by (auto simp: process_nalu_def sz g c Let_def process_slice_def)
qed

lemma parse_frag:
  assumes law: "h264_law lib" and "y \<noteq> []"
  shows "\<exists>v. VideoRtpDepacketizerH264_Parse lib (plan_payload lib (Frag h f l y)) = Some (Some v) \<and>
    (\<forall>ns. add_payload v ns = (if f then ns @ [h # y] else butlast ns @ [last ns @ y]))"
proof -
  have c: "kFuA lib = 28" "kFBit OR kNriMask = 0xE0" "kTypeMask = 0x1F" "kSBit = 0x80" "kEBit = 0x40" using law by (simp_all add: h264_law_def h264_masks)
  let ?i = "(h AND 0xE0) OR 28" and ?h = "(if f then 0x80 else 0) OR (if l then 0x40 else 0) OR (h AND 0x1F)"
  have p: "plan_payload lib (Frag h f l y) = [?i, ?h] @ y" by (simp only: plan_payload.simps c)
  have "VideoRtpDepacketizerH264_Parse lib ([?i, ?h] @ y) = ParseFuaNalu lib ([?i, ?h] @ y)"
    by (simp add: VideoRtpDepacketizerH264_Parse_def get_u8_def c fu_bytes)
  moreover have "\<exists>v. ParseFuaNalu lib ([?i, ?h] @ y) = Some (Some v) \<and> video_payload v = (if f then h # y else y) \<and>
      is_first_packet_in_frame (video_header v) = f \<and> (\<exists>e. video_type_header (video_header v) = H264Header e \<and> packetization_type e = kH264FuA)"
    unfolding ParseFuaNalu_def h264_sizes by (cases f; cases l) (simp_all add: get_u8_def c fu_bytes RTPVideoHeader_init_def Let_def)
  ultimately show ?thesis unfolding p by (auto simp: add_payload_def)
qed

lemma parse_single:
  assumes law: "h264_law lib" and ok: "nalu_ok lib x" and len: "length x < 2 ^ 31"
  shows "\<exists>v. VideoRtpDepacketizerH264_Parse lib x = Some (Some v) \<and> video_payload v = x \<and> (\<forall>ns. add_payload v ns = ns @ [x])"
proof -
  obtain b ys where x: "x = b # ys" using ok by (cases x) (auto simp: nalu_ok_def)
  have ty: "b AND kTypeMask \<noteq> 24" "b AND kTypeMask \<noteq> 28" using ok by (auto simp: nalu_ok_def x)
  have c: "kFuA lib = 28" "kStapA lib = 24" using law by (simp_all add: h264_law_def)
  have g: "get_u8 x 0 = Some b" by (simp add: x get_u8_def)
  have e: "size_sub (length x + kLengthFieldSize) kLengthFieldSize = length x" using len by (simp add: size_sub_le kLengthFieldSize_def)
  have k: "\<exists>v' n. process_nalu lib x False 0 (length x) v = Some (Some (v', n)) \<and> video_payload v' = video_payload v \<and>
      is_first_packet_in_frame (video_header v') = is_first_packet_in_frame (video_header v)" for v
    using process_nalu_keeps[OF law ok, of x "[]" "[]" False v] len by simp
  have "VideoRtpDepacketizerH264_Parse lib x = ProcessStapAOrSingleNalu lib x"
    by (simp add: VideoRtpDepacketizerH264_Parse_def g c ty) (simp add: x)
  moreover have "\<exists>v. ProcessStapAOrSingleNalu lib x = Some (Some v) \<and> video_payload v = x \<and>
      (\<exists>h. video_type_header (video_header v) = H264Header h \<and> packetization_type h = kH264SingleNalu)"
  proof -
    let ?v = "\<lparr>video_header = RTPVideoHeader_init\<lparr>frame_width := 0, frame_height := 0, codec := kVideoCodecH264, simulcastIdx := 0,
                is_first_packet_in_frame := True, frame_type := kVideoFrameDelta\<rparr>, video_payload = x\<rparr>"
    obtain v n where v: "process_nalu lib x False 0 (length x) ?v = Some (Some (v, n))" "video_payload v = x" using k[of ?v] by auto
    have p: "process_nalus lib x False [0, length x + kLengthFieldSize] ?v h =
        Some (Some (v, if length (nalus h) = kMaxNalusPerPacket lib then h else h\<lparr>nalus := nalus h @ [n]\<rparr>))" for h
      by (simp add: e v(1))
    show ?thesis using v(2) by (simp add: ProcessStapAOrSingleNalu_def g c ty p del: process_nalus.simps)
  qed
  ultimately show ?thesis by (auto simp: add_payload_def)
qed

subsection \<open>Aggregated packets\<close>

fun stap_offsets :: "nat \<Rightarrow> byte list list \<Rightarrow> nat list" where
  "stap_offsets off [] = []"
| "stap_offsets off (x # xs) = (off + 3) # stap_offsets (off + 2 + length x) xs"

lemma stap_entry_size: "length x < 2 ^ 16 \<Longrightarrow> unat (of_nat (length x) :: u16) = length x"
  by (simp only: unat_of_nat) simp

lemma ParseStapAStartOffsets_ok:
  assumes "\<forall>x \<in> set xs. length x < 2 ^ 16" "payload = pre @ concat (map stap_entry xs)" "pos = length pre" "n = length (concat (map stap_entry xs))"
  shows "ParseStapAStartOffsets payload pos n off offsets = Some (True, offsets @ stap_offsets off xs)"
  using assms
proof (induction xs arbitrary: pre pos n off offsets)
  case Nil
  then show ?case by (simp add: ParseStapAStartOffsets.simps)
next
  case (Cons x xs)
  have g: "get_be16 payload pos = Some (of_nat (length x))" using Cons.prems by (simp add: stap_entry_def wire_simps)
  have u: "unat (of_nat (length x) :: u16) = length x" using Cons.prems(1) by (intro stap_entry_size) simp
  have n: "0 < n" "\<not> n < 2" "\<not> length x > n - 2" using Cons.prems(4) by (auto simp: stap_entry_def)
  have "ParseStapAStartOffsets payload (pos + 2 + length x) (n - 2 - length x) (off + (kLengthFieldSize + length x)) (offsets @ [off + kStapAHeaderSize]) =
      Some (True, (offsets @ [off + kStapAHeaderSize]) @ stap_offsets (off + (kLengthFieldSize + length x)) xs)"
    by (rule Cons.IH[where pre = "pre @ stap_entry x"]) (use Cons.prems in \<open>auto simp: stap_entry_def\<close>)
  moreover have "offsets @ stap_offsets off (x # xs) = (offsets @ [off + kStapAHeaderSize]) @ stap_offsets (off + (kLengthFieldSize + length x)) xs"
    by (simp add: h264_sizes)
  ultimately show ?case
    unfolding ParseStapAStartOffsets.simps[of payload pos n off offsets] g option.case Let_def u using n by simp
qed

lemma process_nalus_ok:
  assumes law: "h264_law lib" and "\<forall>x \<in> set xs. nalu_ok lib x" "payload = pre @ concat (map stap_entry xs)" "length payload < 2 ^ 31"
    "length pre = Suc off" "e = length payload + 2"
  shows "\<exists>v' h'. process_nalus lib payload True (stap_offsets off xs @ [e]) v h = Some (Some (v', h')) \<and>
    video_payload v' = video_payload v \<and> packetization_type h' = packetization_type h"
  using assms(2-6)
proof (induction xs arbitrary: pre off v h)
  case (Cons x xs)
  let ?pre = "pre @ put_be16 (of_nat (length x))"
  obtain nx rest where offs: "stap_offsets (off + 2 + length x) xs @ [e] = nx # rest" by (cases xs) auto
  have nx: "size_sub nx kLengthFieldSize = length ?pre + length x" "length ?pre = off + 3"
    using offs Cons.prems by (cases xs; auto simp: size_sub_le kLengthFieldSize_def stap_entry_def)+
  have pay: "payload = ?pre @ x @ concat (map stap_entry xs)" using Cons.prems(2) by (simp add: stap_entry_def[of x])
  obtain v1 n where v1: "process_nalu lib payload True (off + 3) (length ?pre + length x) v = Some (Some (v1, n))" "video_payload v1 = video_payload v"
  proof -
    have "nalu_ok lib x" "length payload < 2 ^ 64" using Cons.prems(1,3) by auto
    from process_nalu_keeps[OF law this(1) pay this(2), of True v, unfolded nx(2)] show thesis using that unfolding nx(2) by blast
  qed
  let ?h = "if length (nalus h) = kMaxNalusPerPacket lib then h else h\<lparr>nalus := nalus h @ [n]\<rparr>"
  have "\<exists>v' h'. process_nalus lib payload True (stap_offsets (off + 2 + length x) xs @ [e]) v1 ?h = Some (Some (v', h')) \<and>
      video_payload v' = video_payload v1 \<and> packetization_type h' = packetization_type ?h"
    by (rule Cons.IH[where pre = "pre @ stap_entry x"]) (use Cons.prems in \<open>auto simp: stap_entry_def\<close>)
  then show ?case using v1 nx offs by (auto split: if_splits)
qed simp

lemma stap_split_ok:
  assumes "\<forall>x \<in> set xs. length x < 2 ^ 16"
  shows "stap_split (concat (map stap_entry xs)) = xs"
  using assms
proof (induction xs)
  case (Cons x xs)
  have "get_be16 (put_be16 (of_nat (length x)) @ x @ zs) 0 = Some (of_nat (length x))" for zs by (simp add: wire_simps)
  then show ?case
    using Cons stap_entry_size[of x] by (subst stap_split.simps) (simp add: Let_def stap_entry_def[of x])
qed (simp add: stap_split.simps)

lemma parse_stap:
  assumes law: "h264_law lib" and ok: "\<forall>x \<in> set xs. nalu_ok lib x \<and> length x < 2 ^ 16" and "2 \<le> length xs"
    and len: "length (plan_payload lib (Stap xs)) < 2 ^ 31"
  shows "\<exists>v. VideoRtpDepacketizerH264_Parse lib (plan_payload lib (Stap xs)) = Some (Some v) \<and> (\<forall>ns. add_payload v ns = ns @ xs)"
proof -
  let ?b = "(hd (hd xs) AND 0xE0) OR 24" and ?c = "concat (map stap_entry xs)"
  let ?p = "?b # ?c"
  have c: "kFuA lib = 28" "kStapA lib = 24" "kFBit OR kNriMask = 0xE0" "kTypeMask = 0x1F" using law by (simp_all add: h264_law_def h264_masks)
  have p: "plan_payload lib (Stap xs) = ?p" by (simp only: plan_payload.simps c)
  have kSA: "kStapAHeaderSize = 3" by (simp add: h264_sizes)
  obtain x y ys where xs: "xs = x # y # ys" using assms(3) by (cases xs; cases "tl xs") auto
  have big: "3 < length ?p" "\<exists>b3. get_u8 ?p 3 = Some b3" by (auto simp: xs stap_entry_def get_u8_def)
  then obtain b3 where b3: "get_u8 ?p 3 = Some b3" by blast
  have o: "ParseStapAStartOffsets ?p kNalHeaderSize (length ?c) 0 [] = Some (True, stap_offsets 0 xs)"
    using ParseStapAStartOffsets_ok[of xs ?p "[?b]" 1 "length ?c" 0 "[]"] ok by (simp add: kNalHeaderSize_def)
  let ?v = "\<lparr>video_header = RTPVideoHeader_init\<lparr>frame_width := 0, frame_height := 0, codec := kVideoCodecH264,
      simulcastIdx := 0, is_first_packet_in_frame := True, frame_type := kVideoFrameDelta\<rparr>, video_payload = ?p\<rparr>"
  let ?h = "\<lparr>nalu_type = b3 AND 0x1F, packetization_type = kH264StapA, nalus = []\<rparr>"
  obtain v h where v: "process_nalus lib ?p True (stap_offsets 0 xs @ [length ?p + 2]) ?v ?h = Some (Some (v, h))" "video_payload v = ?p"
      "packetization_type h = kH264StapA"
    using process_nalus_ok[OF law, of xs ?p "[?b]" 0 "length ?p + 2" ?v ?h] ok len p by auto
  have "VideoRtpDepacketizerH264_Parse lib ?p = ProcessStapAOrSingleNalu lib ?p"
    by (simp add: VideoRtpDepacketizerH264_Parse_def get_u8_def c fu_bytes)
  also have "\<dots> = Some (Some (v\<lparr>video_header := (video_header v)\<lparr>video_type_header := H264Header h\<rparr>\<rparr>))"
  proof -
    have "get_u8 ?p 0 = Some ?b" "size_sub (length ?p) kNalHeaderSize = length ?c" "\<not> length ?p \<le> kStapAHeaderSize" "get_u8 ?p kStapAHeaderSize = Some b3"
      using len p big(1) b3 unfolding kSA by (simp_all add: get_u8_def size_sub_le kNalHeaderSize_def)
    then show ?thesis
      using v(1) by (simp add: ProcessStapAOrSingleNalu_def c fu_bytes o kLengthFieldSize_def)
  qed
  finally show ?thesis unfolding p using v(2,3) ok by (intro exI conjI) (auto simp: add_payload_def stap_split_ok)
qed

lemma parse_frags_rest:
  assumes law: "h264_law lib" and "\<forall>y \<in> set ys. y \<noteq> []"
  shows "\<exists>vs. map (\<lambda>pk. VideoRtpDepacketizerH264_Parse lib (plan_payload lib pk)) (frag_list h False ys) = map (\<lambda>v. Some (Some v)) vs \<and>
    (\<forall>ns. ns \<noteq> [] \<longrightarrow> fold add_payload vs ns = butlast ns @ [last ns @ concat ys])"
  using assms(2)
proof (induction ys)
  case (Cons y ys)
  obtain vs where vs: "map (\<lambda>pk. VideoRtpDepacketizerH264_Parse lib (plan_payload lib pk)) (frag_list h False ys) = map (\<lambda>v. Some (Some v)) vs"
      "\<forall>ns. ns \<noteq> [] \<longrightarrow> fold add_payload vs ns = butlast ns @ [last ns @ concat ys]"
    using Cons by auto
  obtain v where v: "VideoRtpDepacketizerH264_Parse lib (plan_payload lib (Frag h False (ys = []) y)) = Some (Some v)"
      "\<forall>ns. add_payload v ns = butlast ns @ [last ns @ y]"
    using parse_frag[OF law, of y h False "ys = []"] Cons.prems by auto
  show ?case using vs v by (intro exI[of _ "v # vs"]) simp
qed simp

lemma parse_frags:
  assumes law: "h264_law lib" and "\<forall>y \<in> set ys. y \<noteq> []" "ys \<noteq> []"
  shows "\<exists>vs. map (\<lambda>pk. VideoRtpDepacketizerH264_Parse lib (plan_payload lib pk)) (frag_list h True ys) = map (\<lambda>v. Some (Some v)) vs \<and>
    (\<forall>ns. fold add_payload vs ns = ns @ [h # concat ys])"
proof -
  obtain y zs where ys: "ys = y # zs" using assms(3) by (cases ys) auto
  obtain vs where vs: "map (\<lambda>pk. VideoRtpDepacketizerH264_Parse lib (plan_payload lib pk)) (frag_list h False zs) = map (\<lambda>v. Some (Some v)) vs"
      "\<forall>ns. ns \<noteq> [] \<longrightarrow> fold add_payload vs ns = butlast ns @ [last ns @ concat zs]"
    using parse_frags_rest[OF law, of zs h] assms(2) ys by auto
  obtain v where v: "VideoRtpDepacketizerH264_Parse lib (plan_payload lib (Frag h True (zs = []) y)) = Some (Some v)" "\<forall>ns. add_payload v ns = ns @ [h # y]"
    using parse_frag[OF law, of y h True "zs = []"] assms(2) ys by auto
  show ?thesis using vs v by (intro exI[of _ "v # vs"]) (simp add: ys)
qed

lemma carries_received:
  assumes "carries plan ns" "h264_law lib" "\<forall>x \<in> set ns. nalu_ok lib x \<and> length x < 2 ^ 31" "\<forall>pk \<in> set plan. length (plan_payload lib pk) < 2 ^ 31"
  shows "\<exists>vs. map (\<lambda>pk. VideoRtpDepacketizerH264_Parse lib (plan_payload lib pk)) plan = map (\<lambda>v. Some (Some v)) vs \<and>
    (\<forall>ms. fold add_payload vs ms = ms @ ns) \<and> (plan = map Single ns \<longrightarrow> map video_payload vs = ns)"
  using assms
proof induction
  case (carries_single plan ns x)
  obtain vs where "map (\<lambda>pk. VideoRtpDepacketizerH264_Parse lib (plan_payload lib pk)) plan = map (\<lambda>v. Some (Some v)) vs"
      "\<forall>ms. fold add_payload vs ms = ms @ ns" "plan = map Single ns \<longrightarrow> map video_payload vs = ns"
    using carries_single by auto
  moreover obtain v where "VideoRtpDepacketizerH264_Parse lib x = Some (Some v)" "video_payload v = x" "\<forall>ns. add_payload v ns = ns @ [x]"
    using parse_single[of lib x] carries_single by auto
  ultimately show ?case by (intro exI[of _ "v # vs"]) simp
next
  case (carries_stap plan ns xs)
  obtain vs where "map (\<lambda>pk. VideoRtpDepacketizerH264_Parse lib (plan_payload lib pk)) plan = map (\<lambda>v. Some (Some v)) vs"
      "\<forall>ms. fold add_payload vs ms = ms @ ns"
    using carries_stap by auto
  moreover obtain v where "VideoRtpDepacketizerH264_Parse lib (plan_payload lib (Stap xs)) = Some (Some v)" "\<forall>ns. add_payload v ns = ns @ xs"
    using parse_stap[of lib xs] carries_stap by auto
  moreover have "Stap xs # plan \<noteq> map Single (xs @ ns)" using carries_stap(2) by (cases xs) auto
  ultimately show ?case by (intro exI[of _ "v # vs"]) simp
next
  case (carries_frags plan ns ys h)
  obtain vs where "map (\<lambda>pk. VideoRtpDepacketizerH264_Parse lib (plan_payload lib pk)) plan = map (\<lambda>v. Some (Some v)) vs"
      "\<forall>ms. fold add_payload vs ms = ms @ ns"
    using carries_frags by auto
  moreover obtain us where "map (\<lambda>pk. VideoRtpDepacketizerH264_Parse lib (plan_payload lib pk)) (frag_list h True ys) = map (\<lambda>v. Some (Some v)) us"
      "\<forall>ns. fold add_payload us ns = ns @ [h # concat ys]"
    using parse_frags[of lib ys h] carries_frags.hyps carries_frags.prems(1) by (cases "ys = []") auto
  moreover have "frag_list h True ys @ plan \<noteq> map Single ((h # concat ys) # ns)" using carries_frags(2) by (cases ys) auto
  ultimately show ?case by (intro exI[of _ "us @ vs"]) simp
qed simp

lemma carries_Nil: "carries plan ns \<Longrightarrow> plan = [] \<Longrightarrow> ns = []"
proof (induction rule: carries.induct)
  case (carries_frags plan ns ys h)
  then show ?case by (cases ys) auto
qed auto

lemma carries_length:
  assumes "carries plan ns" "\<forall>x \<in> set ns. x \<noteq> []"
  shows "length plan \<le> length (concat ns)"
  using assms
proof induction
  case (carries_single plan ns x)
  then show ?case by (cases x) auto
next
  case (carries_stap plan ns xs)
  then show ?case by (cases xs; cases "hd xs") auto
next
  case (carries_frags plan ns ys h)
  have "length (frag_list h f ys) = length ys" for f by (induction ys arbitrary: f) auto
  moreover have "length ys \<le> length (concat ys)" using carries_frags(3)
  proof (induction ys)
    case (Cons y ys)
    then show ?case by (cases y) auto
  qed simp
  ultimately show ?case using carries_frags by simp
qed simp

text \<open>
  The receiver sees the payloads \<open>xs\<close> of the packets into which a packetizer put its frame, and the depacketizer makes \<open>vs\<close> of them.
\<close>

definition h264_received :: "h264_lib \<Rightarrow> RtpPacketizerH264 \<Rightarrow> RtpPacket list \<Rightarrow> (nat \<Rightarrow> nat \<Rightarrow> nat) \<Rightarrow> (nat \<Rightarrow> byte) \<Rightarrow> RtpPacket
    \<Rightarrow> byte list list \<Rightarrow> ParsedRtpPayload list \<Rightarrow> bool" where
  "h264_received lib s ps grow m r xs vs \<longleftrightarrow> (\<exists>s' qs. drain (h264_NextPacket lib) s ps = (replicate (length ps) True, s', qs) \<and>
     (\<forall>p. h264_NextPacket lib s' p = (False, s', p)) \<and> map (over_wire grow m r) qs = map Some (last_marked xs) \<and>
     map (VideoRtpDepacketizerH264_Parse lib) xs = map (\<lambda>v. Some (Some v)) vs)"

lemma h264_sent:
  assumes law: "h264_law lib" and lim: "limits_ok limits" and ns: "ns = map (\<lambda>(off, n). subview payload off n) (FindNaluIndices lib payload)"
    "ns \<noteq> []" "\<forall>x \<in> set ns. nalu_ok lib x" "length (concat ns) < 2 ^ 30"
  shows "\<exists>s. RtpPacketizerH264_init lib payload limits mode = Some s \<and>
    ((h264_NumPackets s = 0 \<and> (\<exists>i < length ns. cannot_send mode limits ns i)) \<or>
     (\<exists>plan vs. h264_NumPackets s = length plan \<and> plan \<noteq> [] \<and> carries plan ns \<and> (mode = SingleNalUnit \<longrightarrow> plan = map Single ns) \<and>
       fits_limits limits (map (length \<circ> plan_payload lib) plan) \<and> (\<forall>ms. fold add_payload vs ms = ms @ ns) \<and>
       (\<forall>ps r grow m. length ps = length plan \<and> (\<forall>p \<in> set ps. blank (nat (max_payload_len limits)) p \<and> rtp_extensions p = rtp_extensions r) \<longrightarrow>
          h264_received lib s ps grow m r (map (plan_payload lib) plan) vs)))"
proof -
  have each: "length x < 2 ^ 30" if "x \<in> set ns" for x
  proof -
    have "length x \<le> length (concat ns)" using that by (induction ns) auto
    then show ?thesis using ns(4) by linarith
  qed
  have "generated lib mode limits ns 0 [] 0 (generate_packets mode limits ns 0 [] 0)"
    using ns(3) each by (intro generate_packets_ok[OF lim]) (auto simp: nalu_ok_def)
  then show ?thesis
    unfolding generated_def
  proof (elim disjE exE conjE)
    fix us n i
    assume "generate_packets mode limits ns 0 [] 0 = Some (False, us, n)" "i < length ns" "cannot_send mode limits ns i"
    then show ?thesis using ns(1) by (auto simp: RtpPacketizerH264_init_def h264_NumPackets_def Let_def)
  next
    fix plan uss
    assume g: "generate_packets mode limits ns 0 [] 0 = Some (True, [] @ concat uss, 0 + length plan)" "list_all2 packet_units plan uss"
      "carries plan (drop 0 ns)" "0 < length ns \<longrightarrow> group_fits limits (length ns) 0 (length ns) (map (length \<circ> plan_payload lib) plan)"
      "mode = SingleNalUnit \<longrightarrow> plan = map Single (drop 0 ns)"
    let ?s = "\<lparr>h264_limits = limits, num_packets_left = length plan, input_fragments = ns, packets = concat uss\<rparr>" and ?xs = "map (plan_payload lib) plan"
    have c: "carries plan ns" using g(3) by simp
    have fits: "fits_limits limits (map (length \<circ> plan_payload lib) plan)" using g(4) ns(2) group_fits_all by simp
    have max: "int (length (plan_payload lib pk)) \<le> max_payload_len limits" if "pk \<in> set plan" for pk
      using fits_limits_max[OF fits, of "length (plan_payload lib pk)"] lim that by (auto simp: limits_ok_def)
    have "length (plan_payload lib pk) < 2 ^ 31" if "pk \<in> set plan" for pk using max[OF that] lim by (auto simp: limits_ok_def)
    then obtain vs where vs: "map (\<lambda>pk. VideoRtpDepacketizerH264_Parse lib (plan_payload lib pk)) plan = map (\<lambda>v. Some (Some v)) vs"
        "\<forall>ms. fold add_payload vs ms = ms @ ns" "plan = map Single ns \<longrightarrow> map video_payload vs = ns"
      using carries_received[OF c law] ns(3) each by fastforce
    have "length plan < 2 ^ 64" using carries_length[OF c] ns(3,4) by (auto simp: nalu_ok_def)
    then have holds: "h264_holds lib ?s ?xs" using g(2) by (auto simp: h264_holds_def)
    have "h264_received lib ?s ps grow m r ?xs vs"
      if p: "length ps = length plan" "\<forall>p \<in> set ps. blank (nat (max_payload_len limits)) p \<and> rtp_extensions p = rtp_extensions r" for ps r grow m
    proof -
      have "blank (length x) p" if x: "p \<in> set ps" "x \<in> set ?xs" for p x
      proof -
        have "length x \<le> nat (max_payload_len limits)" using max x(2) by force
        then show ?thesis using p(2) x(1) blank_more by blast
      qed
      then show ?thesis
        using h264.sends_all[OF holds, of ps r grow m] p vs(1) by (auto simp: h264_received_def comp_def)
    qed
    moreover have "RtpPacketizerH264_init lib payload limits mode = Some ?s" using ns(1) g(1) by (simp add: RtpPacketizerH264_init_def)
    moreover have "plan \<noteq> []" using carries_Nil[OF c] ns(2) by blast
    ultimately show ?thesis
      using c g(5) fits vs by (intro exI[of _ ?s] conjI disjI2 exI[of _ plan] exI[of _ vs]) (auto simp: h264_NumPackets_def)
  qed
qed

text \<open>
  C9: A frame of NAL units (none empty, none of the types for aggregated and fragmented packets, no SPS that has to be rewritten, less than \<open>2 ^ 30\<close> bytes together)
  is given to the H.264 packetizer with limits of less than \<open>2 ^ 16\<close> bytes, reductions that are not negative, a first and a last reduction that together are less than the
  maximal payload, and a reduction for a single packet of at most their sum. The constructor returns. Without packets there is a NAL unit that is too large for one packet
  and that, in the mode \<open>NonInterleaved\<close>, cannot be split into fragments within the limits. Otherwise as many blank packets as \<open>NumPackets\<close> says, with room for
  the maximal payload, are all filled and the next call returns \<open>false\<close>; the payloads keep the limits; sent and parsed by a receiver with the same extension map only
  the last has the marker; the depacketizer accepts all payloads, and splitting aggregated packets and joining fragments as RFC 6184 says gives back the NAL units.
  In the mode \<open>SingleNalUnit\<close> the payloads are the NAL units themselves.
\<close>

theorem h264_frame_roundtrip:
  assumes "h264_law lib" "limits_ok limits" "ns = map (\<lambda>(off, n). subview payload off n) (FindNaluIndices lib payload)"
    "ns \<noteq> []" "\<forall>x \<in> set ns. nalu_ok lib x" "length (concat ns) < 2 ^ 30"
  shows "\<exists>s. RtpPacketizerH264_init lib payload limits mode = Some s \<and>
    (h264_NumPackets s = 0 \<longrightarrow> (\<exists>i < length ns. cannot_send mode limits ns i)) \<and>
    (\<forall>ps r grow m. h264_NumPackets s \<noteq> 0 \<and> length ps = h264_NumPackets s \<and>
         (\<forall>p \<in> set ps. blank (nat (max_payload_len limits)) p \<and> rtp_extensions p = rtp_extensions r) \<longrightarrow>
       (\<exists>xs vs. h264_received lib s ps grow m r xs vs \<and> fits_limits limits (map length xs) \<and> reassemble vs = ns \<and>
          (mode = SingleNalUnit \<longrightarrow> xs = ns)))"
proof -
  obtain s where s: "RtpPacketizerH264_init lib payload limits mode = Some s"
      "(h264_NumPackets s = 0 \<and> (\<exists>i < length ns. cannot_send mode limits ns i)) \<or>
       (\<exists>plan vs. h264_NumPackets s = length plan \<and> plan \<noteq> [] \<and> carries plan ns \<and> (mode = SingleNalUnit \<longrightarrow> plan = map Single ns) \<and>
         fits_limits limits (map (length \<circ> plan_payload lib) plan) \<and> (\<forall>ms. fold add_payload vs ms = ms @ ns) \<and>
         (\<forall>ps r grow m. length ps = length plan \<and> (\<forall>p \<in> set ps. blank (nat (max_payload_len limits)) p \<and> rtp_extensions p = rtp_extensions r) \<longrightarrow>
            h264_received lib s ps grow m r (map (plan_payload lib) plan) vs))"
    using h264_sent[OF assms, of mode] by blast
  from s(2) show ?thesis
  proof (elim disjE exE conjE)
    fix plan vs
    assume p: "h264_NumPackets s = length plan" "plan \<noteq> []" "mode = SingleNalUnit \<longrightarrow> plan = map Single ns"
      "fits_limits limits (map (length \<circ> plan_payload lib) plan)" "\<forall>ms. fold add_payload vs ms = ms @ ns"
      "\<forall>ps r grow m. length ps = length plan \<and> (\<forall>p \<in> set ps. blank (nat (max_payload_len limits)) p \<and> rtp_extensions p = rtp_extensions r) \<longrightarrow>
         h264_received lib s ps grow m r (map (plan_payload lib) plan) vs"
    have "reassemble vs = ns" using p(5) by (simp add: reassemble_def)
    moreover have "mode = SingleNalUnit \<Longrightarrow> map (plan_payload lib) plan = ns" using p(3) by (simp add: comp_def)
    moreover have "fits_limits limits (map length (map (plan_payload lib) plan))" using p(4) by simp
    ultimately have "\<exists>xs vs. h264_received lib s ps grow m r xs vs \<and> fits_limits limits (map length xs) \<and> reassemble vs = ns \<and>
        (mode = SingleNalUnit \<longrightarrow> xs = ns)"
      if "length ps = length plan \<and> (\<forall>p \<in> set ps. blank (nat (max_payload_len limits)) p \<and> rtp_extensions p = rtp_extensions r)" for ps r grow m
      using p(6) that by (intro exI[of _ "map (plan_payload lib) plan"] exI[of _ vs] conjI) blast+
    then show ?thesis using s(1) p(1,2) by (intro exI[of _ s]) simp
  qed (use s(1) in auto)
qed

definition sample_h264 :: h264_lib where
  "sample_h264 = \<lparr>FindNaluIndices = (\<lambda>_. [(0, 3), (3, 12), (15, 2)]), ParseAndRewriteSps = (\<lambda>bs out. (False, out @ bs, None)),
     ParsePpsIds = (\<lambda>_. None), ParsePpsIdFromSlice = (\<lambda>_. None), kSlice = 1, kIdr = 5, kSps = 7, kPps = 8, kStapA = 24, kFuA = 28, kNaluTypeSize = 1, kMaxNalusPerPacket = 10\<rparr>"

definition sample_nalus :: "byte list list" where
  "sample_nalus = [[0x67, 1, 2], [0x65, 1, 2, 3, 4, 5, 6, 7, 8, 9, 10, 11], [0x41, 1]]"

theorem h264_frame_roundtrip_witness:
  "\<exists>s xs vs. RtpPacketizerH264_init sample_h264 (concat sample_nalus) sample_limits NonInterleaved = Some s \<and>
     h264_received sample_h264 s (replicate (h264_NumPackets s) blank_packet) max (\<lambda>_. 0) blank_packet xs vs \<and>
     fits_limits sample_limits (map length xs) \<and> reassemble vs = sample_nalus"
proof -
  let ?P = "\<lambda>s ps r grow m. \<exists>xs vs. h264_received sample_h264 s ps grow m r xs vs \<and> fits_limits sample_limits (map length xs) \<and>
    reassemble vs = sample_nalus \<and> (NonInterleaved = SingleNalUnit \<longrightarrow> xs = sample_nalus)"
  have "\<exists>s. RtpPacketizerH264_init sample_h264 (concat sample_nalus) sample_limits NonInterleaved = Some s \<and>
      (h264_NumPackets s = 0 \<longrightarrow> (\<exists>i < length sample_nalus. cannot_send NonInterleaved sample_limits sample_nalus i)) \<and>
      (\<forall>ps r grow m. h264_NumPackets s \<noteq> 0 \<and> length ps = h264_NumPackets s \<and>
         (\<forall>p \<in> set ps. blank (nat (max_payload_len sample_limits)) p \<and> rtp_extensions p = rtp_extensions r) \<longrightarrow> ?P s ps r grow m)"
    by (rule h264_frame_roundtrip)
      (auto simp: h264_law_def limits_ok_def sample_limits_def sample_h264_def sample_nalus_def subview_def nalu_ok_def kTypeMask_def)
  then obtain s where s: "RtpPacketizerH264_init sample_h264 (concat sample_nalus) sample_limits NonInterleaved = Some s"
      "h264_NumPackets s = 0 \<longrightarrow> (\<exists>i < length sample_nalus. cannot_send NonInterleaved sample_limits sample_nalus i)"
      "\<forall>ps r grow m. h264_NumPackets s \<noteq> 0 \<and> length ps = h264_NumPackets s \<and>
         (\<forall>p \<in> set ps. blank (nat (max_payload_len sample_limits)) p \<and> rtp_extensions p = rtp_extensions r) \<longrightarrow> ?P s ps r grow m"
    by (elim exE conjE) (rule that)
  have "valid_split (fu_limits sample_limits 3 1) 11 [6, 5]"
    by (simp add: valid_split_def fu_limits_def sample_limits_def kFuAHeaderSize_def to_int32_id)
  then have "\<not> cannot_send NonInterleaved sample_limits sample_nalus i" if "i < length sample_nalus" for i
    using that by (auto simp: cannot_send_def sample_nalus_def single_packet_capacity_def sample_limits_def less_Suc_eq numeral_3_eq_3)
  then have "h264_NumPackets s \<noteq> 0" using s(2) by blast
  then have "?P s (replicate (h264_NumPackets s) blank_packet) blank_packet max (\<lambda>_. 0)"
    by (intro s(3)[rule_format]) (auto simp: sample_limits_def intro: blank_packet_ok)
  then show ?thesis using s(1) by blast
qed

subsection \<open>Frames put together from payloads\<close>

text \<open>A start code stands in front of every payload, also in front of the second and later fragments of a NAL unit.\<close>

lemma AssembleFrame_fragments:
  assumes "2 \<le> length payloads"
  shows "AssembleFrame payloads \<noteq> h264_start_code @ concat payloads"
proof -
  have "length (AssembleFrame payloads) = 4 * length payloads + length (concat payloads)"
    unfolding AssembleFrame_def by (induction payloads) (auto simp: h264_start_code_def)
  then show ?thesis using assms by (auto simp: h264_start_code_def dest: arg_cong[of _ _ length])
qed

end
