(* ===== verification/Http_Utils.thy ===== *)
theory Http_Utils
  imports Prelude "HOL-Library.Char_ord"
begin

text \<open>
  \<open>libhttp/http_utils\<close>: the tables of status codes, methods and content types of the HTTP code,
  trimming of white space, and the percent encoding of URLs with its decoder. A \<open>char\<close> is a
  \<open>char\<close> here too: the classification functions of \<open><cctype>\<close> are those of the C locale, where no
  byte from 128 on is a digit, a letter or a space.
\<close>

subsection \<open>Status codes\<close>

text \<open>An \<open>HttpStatusCode\<close> is its number; the table lists the enumerators.\<close>

definition known_codes :: "int list" where
  "known_codes = [
     0, 100, 101, 200, 201, 202, 203, 204, 205, 206, 300, 301, 302, 303, 304, 305, 307, 308, 400,
     401, 402, 403, 404, 405, 406, 407, 408, 409, 410, 411, 412, 413, 414, 415, 416, 417, 418,
     421, 425, 426, 428, 429, 431, 451, 500, 501, 502, 503, 504, 505, 510]"

definition kUnknown :: int where "kUnknown = 0"
definition k400BadRequest :: int where "k400BadRequest = 400"

definition ParseStatusCode :: "int \<Rightarrow> int" where
  "ParseStatusCode code = (if code \<in> set known_codes then code else kUnknown)"

definition status_messages :: "(int \<times> string) list" where
  "status_messages = [
     (0, ''unknown''), (100, ''Continue''), (101, ''Switching Protocols''), (200, ''OK''),
     (201, ''Created''), (202, ''Accepted''), (203, ''Non Authoritative Information''),
     (204, ''No Content''), (205, ''Reset Content''), (206, ''Partial Content''),
     (300, ''Multiple Choices''), (301, ''Moved Permanently''), (302, ''Found''),
     (303, ''See Other''), (304, ''Not Modified''), (305, ''Use Proxy''),
     (307, ''Temporary Redirect''), (308, ''Permanent Redirect''), (400, ''Bad Request''),
     (401, ''Unauthorized''), (402, ''Payment Required''), (403, ''Forbidden''),
     (404, ''Not Found''), (405, ''Method Not Allowed''), (406, ''Not Acceptable''),
     (407, ''Proxy Authentication Required''), (408, ''Request Timeout''), (409, ''Conflict''),
     (410, ''Gone''), (411, ''Length Required''), (412, ''Precondition Failed''),
     (413, ''Request Entity Too Large''), (414, ''Request URI Too Large''),
     (415, ''Unsupported Media Type''), (416, ''Requested Range Not Satisfiable''),
     (417, ''Expectation Failed''), (418, ''Im A Teapot''), (421, ''Misdirected Request''),
     (425, ''Too Early''), (426, ''Upgrade Required''), (428, ''Precondition Required''),
     (429, ''Too Many Requests''), (431, ''Request Header Fields Too Large''),
     (451, ''Unavailable For Legal Reasons''), (500, ''Internal Server Error''),
     (501, ''Not Implemented''), (502, ''Bad Gateway''), (503, ''Service Unavailable''),
     (504, ''Gateway Timeout''), (505, ''HTTP Version Not Supported''), (510, ''Not Extended'')]"

definition ParseStatusMessage :: "int \<Rightarrow> string" where
  "ParseStatusMessage code = (case map_of status_messages code of
     Some m \<Rightarrow> m
   | None \<Rightarrow> ''unknown'')"

definition status_strings :: "(int \<times> string) list" where
  "status_strings = [
     (100, ''Continue''), (101, ''Switching Protocols''), (200, ''OK''), (201, ''Created''),
     (202, ''Accepted''), (203, ''Non-Authoritative Information''), (204, ''No Content''),
     (205, ''Reset Content''), (206, ''Partial Content''), (300, ''Multiple Choices''),
     (301, ''Moved Permanently''), (302, ''Found''), (303, ''See Other''),
     (304, ''Not Modified''), (305, ''Use Proxy''), (307, ''Temporary Redirect''),
     (308, ''Permanent Redirect''), (400, ''Bad Request''), (401, ''Unauthorized''),
     (402, ''Payment Required''), (403, ''Forbidden''), (404, ''Not Found''),
     (405, ''Method Not Allowed''), (406, ''Not Acceptable''),
     (407, ''Proxy Authentication Required''), (408, ''Request Time-out''), (409, ''Conflict''),
     (410, ''Gone''), (411, ''Length Required''), (412, ''Precondition Failed''),
     (413, ''Request Entity Too Large''), (414, ''Request-URI Too Large''),
     (415, ''Unsupported Media Type''), (416, ''Requested Range Not Satisfiable''),
     (417, ''Expectation Failed''), (418, ''I'' @ CHR 0x27 # ''m a Teapot''),
     (421, ''Misdirected Request''), (425, ''Too Early''), (426, ''Upgrade Required''),
     (428, ''Precondition Required''), (429, ''Too Many Requests''),
     (431, ''Request Header Fields Too Large''), (451, ''Unavailable For Legal Reasons''),
     (500, ''Internal Server Error''), (501, ''Not Implemented''), (502, ''Bad Gateway''),
     (503, ''Service Unavailable''), (504, ''Gateway Time-out''),
     (505, ''HTTP Version Not Supported''), (510, ''Not Extended'')]"

definition StatusCodeToString :: "int \<Rightarrow> string" where
  "StatusCodeToString code = (case map_of status_strings code of
     Some m \<Rightarrow> m
   | None \<Rightarrow>
       if 100 \<le> code \<and> code < 200 then ''Informational''
       else if 200 \<le> code \<and> code < 300 then ''Successful''
       else if 300 \<le> code \<and> code < 400 then ''Redirection''
       else if 400 \<le> code \<and> code < 500 then ''Bad Request''
       else if 500 \<le> code \<and> code < 600 then ''Server Error''
       else ''Undefined Error'')"

subsection \<open>Methods and content types\<close>

datatype HttpMethod = kGet | kPost | kHead | kPut | kDelete | kOptions | kPatch | kInvalid

definition ParseMethod :: "string \<Rightarrow> HttpMethod" where
  "ParseMethod m =
    (if m = ''GET'' then kGet
     else if m = ''PUT'' then kPut
     else if m = ''POST'' then kPost
     else if m = ''HEAD'' then kHead
     else if m = ''DELETE'' then kDelete
     else if m = ''OPTIONS'' then kOptions
     else kInvalid)"

datatype ContentType =
    kContentTypeNONE | kContentTypeAppJson | kContentTypeTextPlain | kContentTypeTextHTML
  | kContentTypeAppXForm | kContentTypeAppMpegUrl | kContentTypeVideoMP2T | kContentTypeVideoXFlv
  | kContentTypeTextXML | kContentTypeAppXML

definition crlf :: string where "crlf = [CHR 0x0D, CHR 0x0A]"

fun ContentTypeToString :: "ContentType \<Rightarrow> string" where
  "ContentTypeToString kContentTypeTextHTML = ''Content-Type: text/html; charset=utf-8'' @ crlf"
| "ContentTypeToString kContentTypeAppXForm = ''Content-Type: application/x-www-form-urlencoded'' @ crlf"
| "ContentTypeToString kContentTypeTextXML = ''Content-Type: text/xml; charset=utf-8'' @ crlf"
| "ContentTypeToString kContentTypeAppXML = ''Content-Type: application/xml; charset=utf-8'' @ crlf"
| "ContentTypeToString kContentTypeAppJson = ''Content-Type: application/json; charset=utf-8'' @ crlf"
| "ContentTypeToString kContentTypeAppMpegUrl = ''Content-Type: application/vnd.apple.mpegurl'' @ crlf"
| "ContentTypeToString kContentTypeVideoMP2T = ''Content-Type: video/MP2T'' @ crlf"
| "ContentTypeToString kContentTypeVideoXFlv = ''Content-Type: video/x-flv'' @ crlf"
| "ContentTypeToString kContentTypeNONE = []"
| "ContentTypeToString kContentTypeTextPlain = ''Content-Type: text/plain; charset=utf-8'' @ crlf"

definition tolower :: "char \<Rightarrow> char" where
  "tolower c = (if CHR ''A'' \<le> c \<and> c \<le> CHR ''Z'' then char_of (of_char c + 32 :: nat) else c)"

text \<open>The part behind the last dot in lower case, empty when there is no dot.\<close>

definition extName :: "string \<Rightarrow> string" where
  "extName s = (if CHR ''.'' \<in> set s then map tolower (rev (takeWhile (\<lambda>c. c \<noteq> CHR ''.'') (rev s))) else [])"

definition GetContentType :: "string \<Rightarrow> ContentType" where
  "GetContentType fileName = (let e = extName fileName in
     if length e = 0 then kContentTypeNONE
     else if length e = 2 \<and> e = ''ts'' then kContentTypeVideoMP2T
     else if length e \<in> {2, 3} \<and> e = ''flv'' then kContentTypeVideoXFlv
     else if length e \<in> {2, 3, 4} \<and> e = ''html'' then kContentTypeTextHTML
     else kContentTypeTextPlain)"

definition ParseContentType :: "string \<Rightarrow> ContentType" where
  "ParseContentType s =
    (if s = ''text/html'' then kContentTypeTextHTML
     else if s = ''application/x-www-form-urlencoded'' then kContentTypeAppXForm
     else if s = ''application/xml'' then kContentTypeAppXML
     else if s = ''application/json'' then kContentTypeAppJson
     else if s = ''text/plain'' then kContentTypeTextPlain
     else kContentTypeNONE)"

subsection \<open>Trimming\<close>

definition isspace :: "char \<Rightarrow> bool" where
  "isspace c \<longleftrightarrow> c \<in> {CHR '' '', CHR 0x09, CHR 0x0A, CHR 0x0B, CHR 0x0C, CHR 0x0D}"

definition ltrim :: "string \<Rightarrow> string" where
  "ltrim s = dropWhile isspace s"

definition rtrim :: "string \<Rightarrow> string" where
  "rtrim s = rev (dropWhile isspace (rev s))"

definition Trim :: "string \<Rightarrow> string" where
  "Trim s = ltrim (rtrim s)"

subsection \<open>Percent encoding\<close>

definition hex_digit :: "nat \<Rightarrow> char" where
  "hex_digit d = char_of (d + (if d > 9 then of_char CHR ''A'' - 10 else of_char CHR ''0''))"

definition CharToHex :: "char \<Rightarrow> string" where
  "CharToHex c = [hex_digit (of_char c div 16), hex_digit (of_char c mod 16)]"

definition unescaped :: "char \<Rightarrow> bool" where
  "unescaped c \<longleftrightarrow> CHR ''A'' \<le> c \<and> c \<le> CHR ''Z'' \<or> CHR ''a'' \<le> c \<and> c \<le> CHR ''z''
     \<or> CHR ''0'' \<le> c \<and> c \<le> CHR ''9'' \<or> c \<in> set ''-_.!~*()&=/?'' \<or> c = CHR 0x27 \<or> c = CHR 0x5C"

fun UrlEncode :: "string \<Rightarrow> string" where
  "UrlEncode [] = []"
| "UrlEncode (c # s) =
    (if c = CHR '' '' then [CHR ''+'']
     else if unescaped c then [c]
     else CHR ''%'' # CharToHex c) @ UrlEncode s"

definition NeedUrlDecoding :: "string \<Rightarrow> bool" where
  "NeedUrlDecoding url = list_ex (\<lambda>c. c = CHR ''+'' \<or> c = CHR ''%'') url"

definition isxdigit :: "char \<Rightarrow> bool" where
  "isxdigit c \<longleftrightarrow> CHR ''0'' \<le> c \<and> c \<le> CHR ''9'' \<or> CHR ''a'' \<le> c \<and> c \<le> CHR ''f''
     \<or> CHR ''A'' \<le> c \<and> c \<le> CHR ''F''"

definition hex_value :: "char \<Rightarrow> nat" where
  "hex_value c =
    (if CHR ''0'' \<le> c \<and> c \<le> CHR ''9'' then of_char c - of_char CHR ''0''
     else if CHR ''a'' \<le> c \<and> c \<le> CHR ''f'' then of_char c - of_char CHR ''a'' + 10
     else if CHR ''A'' \<le> c \<and> c \<le> CHR ''F'' then of_char c - of_char CHR ''A'' + 10
     else of_char c)"

text \<open>A \<open>%\<close> that two hexadecimal digits do not follow stands for itself.\<close>

fun UrlDecode :: "string \<Rightarrow> string" where
  "UrlDecode [] = []"
| "UrlDecode (c # s) =
    (if c = CHR ''+'' then CHR '' '' # UrlDecode s
     else if c = CHR ''%'' then
       case s of
         a # b # r \<Rightarrow>
           if isxdigit a \<and> isxdigit b then char_of (hex_value a * 16 + hex_value b) # UrlDecode r
           else CHR ''%'' # UrlDecode s
       | _ \<Rightarrow> CHR ''%'' # UrlDecode s
     else c # UrlDecode s)"

subsection \<open>Facts\<close>

lemma hex_digit_below: "d < 16 \<Longrightarrow> isxdigit (hex_digit d) \<and> hex_value (hex_digit d) = d"
proof -
  have all: "\<forall>d\<in>set [0..<16]. isxdigit (hex_digit d) \<and> hex_value (hex_digit d) = d"
    by code_simp
  assume "d < 16"
  then show ?thesis using all by simp
qed

lemma of_char_256: "of_char c < (256 :: nat)"
  using mod_less_divisor [of 256 "of_char c"] by simp

lemma UrlDecode_hex:
  "UrlDecode (CHR ''%'' # CharToHex c @ s) = c # UrlDecode s"
proof -
  have "of_char c div 16 < (16 :: nat)" "of_char c mod 16 < (16 :: nat)"
    using of_char_256 [of c] by linarith+
  moreover have "char_of (of_char c div 16 * 16 + of_char c mod (16::nat)) = c"
    by simp
  ultimately show ?thesis
    by (simp add: CharToHex_def hex_digit_below)
qed

lemma UrlDecode_plain:
  "unescaped c \<Longrightarrow> UrlDecode (c # s) = c # UrlDecode s"
proof -
  have "\<not> unescaped CHR ''+''" "\<not> unescaped CHR ''%''" by code_simp+
  moreover assume "unescaped c"
  ultimately have "c \<noteq> CHR ''+''" "c \<noteq> CHR ''%''" by metis+
  then show ?thesis by simp
qed

lemma UrlDecode_Encode: "UrlDecode (UrlEncode s) = s"
proof (induction s)
  case (Cons c s)
  have sp: "UrlDecode (CHR ''+'' # UrlEncode s) = CHR '' '' # UrlDecode (UrlEncode s)"
    by simp
  have "UrlDecode (UrlEncode (c # s)) = c # UrlDecode (UrlEncode s)"
    using UrlDecode_hex [of c "UrlEncode s"] UrlDecode_plain [of c "UrlEncode s"] sp
    by (simp del: UrlDecode.simps)
  with Cons.IH show ?case by simp
qed simp

lemma UrlDecode_not_needed: "\<not> NeedUrlDecoding s \<Longrightarrow> UrlDecode s = s"
  by (induction s) (simp_all add: NeedUrlDecoding_def)

lemma Trim_idem [simp]: "Trim (Trim s) = Trim s"
proof -
  have no_front: "dropWhile isspace (rev t) = rev t"
    if "dropWhile isspace (rev u) = rev u" "t = dropWhile isspace u" for t u
  proof (cases "t = []")
    case False
    have "u = takeWhile isspace u @ t"
      using that(2) by simp
    with False have "last t = last u" "u \<noteq> []"
      by (metis last_appendR, metis append_is_Nil_conv)
    with False that(1) show ?thesis
      using length_dropWhile_le [of isspace "rev (butlast u)"]
      by (cases t rule: rev_cases; cases u rule: rev_cases) (auto split: if_splits)
  qed simp
  define r where "r = rev (dropWhile isspace (rev s))"
  have r: "dropWhile isspace (rev r) = rev r"
    by (simp add: r_def dropWhile_idem)
  have "rev (dropWhile isspace (rev (dropWhile isspace r))) = dropWhile isspace r"
    using no_front [OF r refl] by simp
  then show ?thesis
    by (simp add: Trim_def ltrim_def rtrim_def r_def [symmetric] dropWhile_idem)
qed

definition visible :: "char \<Rightarrow> bool" where
  "visible c \<longleftrightarrow> CHR '' '' < c \<and> c < CHR 0x7F"

lemma UrlEncode_visible: "list_all visible (UrlEncode s)"
proof (induction s)
  case (Cons c s)
  have plain: "unescaped c \<longrightarrow> visible c"
    by (auto simp: unescaped_def visible_def less_eq_char_def less_char_def)
  have digits: "\<forall>d\<in>set [0..<16]. visible (hex_digit d)" by code_simp
  have "of_char c div 16 < (16 :: nat)"
    using of_char_256 [of c] by linarith
  then have hex: "list_all visible (CharToHex c)"
    using digits by (simp add: CharToHex_def)
  have "visible CHR ''+''" "visible CHR ''%''" by code_simp+
  with plain hex Cons.IH show ?case by simp
qed simp

subsection \<open>Properties\<close>

text \<open>
  C34: Decoding an encoded URL gives the URL back for every string of bytes; the encoded form
  holds no blank and no control character; and skipping the decoder on a URL that
  \<open>NeedUrlDecoding\<close> declines changes nothing.
\<close>

theorem Url_roundtrip:
  "UrlDecode (UrlEncode s) = s
   \<and> list_all visible (UrlEncode s)
   \<and> (if NeedUrlDecoding s then UrlDecode s else s) = UrlDecode s"
  by (simp add: UrlDecode_Encode UrlEncode_visible UrlDecode_not_needed)

end
