(* ===== verification/Http_Request.thy ===== *)
theory Http_Request
  imports Http_Utils Byte_Io
begin

text \<open>
  \<open>libhttp/http_request\<close>: an HTTP request or response with its headers, parameters and body, and
  its text form. \<open>rtc::split\<close> is not part of the sources: it is the argument \<open>split\<close>, and
  \<open>splits_fields\<close> says what its documentation promises. The order in which an
  \<open>unordered_map\<close> is walked is unspecified: it is the argument \<open>order\<close>, and \<open>walks\<close> says that
  every entry is visited once.
\<close>

subsection \<open>The code outside the sources\<close>

type_synonym splitter = "string \<Rightarrow> char \<Rightarrow> string list"
type_synonym string_map = "string \<rightharpoonup> string"

fun join_fields :: "char \<Rightarrow> string list \<Rightarrow> string" where
  "join_fields d [] = []"
| "join_fields d [f] = f"
| "join_fields d (f # g # fs) = f @ d # join_fields d (g # fs)"

definition splits_fields :: "splitter \<Rightarrow> bool" where
  "splits_fields split \<longleftrightarrow> (\<forall>s d. split s d \<noteq> [] \<and> (\<forall>f \<in> set (split s d). d \<notin> set f) \<and> join_fields d (split s d) = s)"

definition walks :: "(string_map \<Rightarrow> (string \<times> string) list) \<Rightarrow> bool" where
  "walks order \<longleftrightarrow> (\<forall>m. finite (dom m) \<longrightarrow> distinct (map fst (order m)) \<and> map_of (order m) = m)"

subsection \<open>The request\<close>

datatype Version = Version_kUnknown | kHttp10 | kHttp11

record HttpRequest =
  rq_method :: HttpMethod
  rq_version :: Version
  rq_path :: string
  rq_query :: string
  rq_headers :: string_map
  rq_parameters :: string_map
  rq_body :: string
  rq_code :: u32
  rq_is_request :: bool
  rq_is_stream :: bool
  rq_is_chunked :: bool

definition HttpRequest_init :: "bool \<Rightarrow> HttpRequest" where
  "HttpRequest_init is_request = \<lparr>rq_method = kInvalid, rq_version = Version_kUnknown, rq_path = [],
     rq_query = [], rq_headers = Map.empty, rq_parameters = Map.empty, rq_body = [], rq_code = 0,
     rq_is_request = is_request, rq_is_stream = False, rq_is_chunked = False\<rparr>"

definition AddHeader :: "string \<Rightarrow> string \<Rightarrow> HttpRequest \<Rightarrow> HttpRequest" where
  "AddHeader field value r = r\<lparr>rq_headers := (rq_headers r)(map tolower field \<mapsto> value)\<rparr>"

definition RemoveHeader :: "string \<Rightarrow> HttpRequest \<Rightarrow> HttpRequest" where
  "RemoveHeader key r = r\<lparr>rq_headers := (rq_headers r)(map tolower key := None)\<rparr>"

definition GetHeader :: "string \<Rightarrow> HttpRequest \<Rightarrow> string" where
  "GetHeader field r = (case rq_headers r (map tolower field) of Some v \<Rightarrow> v | None \<Rightarrow> [])"

definition SetParameter :: "string \<Rightarrow> string \<Rightarrow> HttpRequest \<Rightarrow> HttpRequest" where
  "SetParameter key value r = r\<lparr>rq_parameters := (rq_parameters r)(key \<mapsto> value)\<rparr>"

definition GetParameter :: "string \<Rightarrow> HttpRequest \<Rightarrow> string" where
  "GetParameter key r = (case rq_parameters r key of Some v \<Rightarrow> v | None \<Rightarrow> [])"

text \<open>The field up to the first separator and the rest behind it, as with \<open>find\<close> and \<open>substr\<close>.\<close>

definition cut_at :: "char \<Rightarrow> string \<Rightarrow> (string \<times> string) option" where
  "cut_at d s = (if d \<in> set s then Some (takeWhile (\<lambda>c. c \<noteq> d) s, tl (dropWhile (\<lambda>c. c \<noteq> d) s)) else None)"

definition ParseParameters :: "splitter \<Rightarrow> HttpRequest \<Rightarrow> HttpRequest" where
  "ParseParameters split r = fold (\<lambda>l r. case cut_at CHR ''='' l of
       Some (k, v) \<Rightarrow> SetParameter (Trim k) (Trim v) r
     | None \<Rightarrow> r) (split (rq_query r) CHR ''&'') r"

definition SetQuery :: "splitter \<Rightarrow> string \<Rightarrow> HttpRequest \<Rightarrow> HttpRequest" where
  "SetQuery split query r = ParseParameters split (r\<lparr>rq_query := query\<rparr>)"

definition SetMethodString :: "string \<Rightarrow> HttpRequest \<Rightarrow> HttpRequest" where
  "SetMethodString m r = r\<lparr>rq_method := ParseMethod m\<rparr>"

definition SetMethod :: "HttpMethod \<Rightarrow> HttpRequest \<Rightarrow> HttpRequest" where
  "SetMethod m r = r\<lparr>rq_method := m\<rparr>"

text \<open>\<open>v.compare(0, 6, \<dots>)\<close> is non-zero when the first six characters differ from the literal.\<close>

definition SetVersionString :: "string \<Rightarrow> HttpRequest \<Rightarrow> HttpRequest" where
  "SetVersionString v r = r\<lparr>rq_version :=
     (if length v = 8 \<and> take 6 v \<noteq> ''HTTP/1.'' then
        if v ! 7 = CHR ''1'' then kHttp11
        else if v ! 7 = CHR ''0'' then kHttp10
        else Version_kUnknown
      else Version_kUnknown)\<rparr>"

definition SetVersion :: "Version \<Rightarrow> HttpRequest \<Rightarrow> HttpRequest" where
  "SetVersion v r = r\<lparr>rq_version := v\<rparr>"

definition SetPath :: "string \<Rightarrow> HttpRequest \<Rightarrow> HttpRequest" where
  "SetPath path r = r\<lparr>rq_path := (if NeedUrlDecoding path then UrlDecode path else path)\<rparr>"

definition SetStatusCode :: "int \<Rightarrow> HttpRequest \<Rightarrow> HttpRequest" where
  "SetStatusCode code r = r\<lparr>rq_code := word_of_int code\<rparr>"

definition SetBody :: "string \<Rightarrow> HttpRequest \<Rightarrow> HttpRequest" where
  "SetBody body r = r\<lparr>rq_body := body\<rparr>"

definition SetIsStream :: "bool \<Rightarrow> HttpRequest \<Rightarrow> HttpRequest" where
  "SetIsStream s r = r\<lparr>rq_is_stream := s\<rparr>"

definition SetIsChunked :: "bool \<Rightarrow> HttpRequest \<Rightarrow> HttpRequest" where
  "SetIsChunked c r = r\<lparr>rq_is_chunked := c\<rparr>"

subsection \<open>The text form\<close>

text \<open>\<open>ss << n\<close> for an unsigned number.\<close>

fun decimal :: "nat \<Rightarrow> string" where
  "decimal n = (if n < 10 then [char_of (48 + n)] else decimal (n div 10) @ [char_of (48 + n mod 10)])"

declare decimal.simps [simp del]

fun method_name :: "HttpMethod \<Rightarrow> string" where
  "method_name kGet = ''GET''"
| "method_name kPost = ''POST''"
| "method_name kHead = ''HEAD''"
| "method_name kPut = ''PUT''"
| "method_name kDelete = ''DELETE''"
| "method_name kOptions = ''OPTIONS''"
| "method_name kPatch = ''PATCH''"
| "method_name kInvalid = ''UNKNOW''"

definition version_name :: "Version \<Rightarrow> string" where
  "version_name v = (if v = kHttp10 then ''HTTP/1.0 '' else ''HTTP/1.1 '')"

definition request_target :: "(string_map \<Rightarrow> (string \<times> string) list) \<Rightarrow> HttpRequest \<Rightarrow> string" where
  "request_target order r =
     (if rq_path r \<noteq> [] then rq_path r else ''/'')
     @ (if rq_parameters r \<noteq> Map.empty then
          CHR ''?'' # join_fields CHR ''&'' (map (\<lambda>(k, v). k @ CHR ''='' # v) (order (rq_parameters r)))
        else [])"

definition AppendRequestFirstLine :: "(string_map \<Rightarrow> (string \<times> string) list) \<Rightarrow> HttpRequest \<Rightarrow> string" where
  "AppendRequestFirstLine order r =
     method_name (rq_method r) @ '' '' @ UrlEncode (request_target order r) @ '' '' @ version_name (rq_version r) @ crlf"

definition AppendResponseFirstLine :: "HttpRequest \<Rightarrow> string" where
  "AppendResponseFirstLine r =
     version_name (rq_version r) @ decimal (unat (rq_code r)) @ '' '' @ ParseStatusMessage (sint (rq_code r)) @ crlf"

definition MakeHeaders :: "(string_map \<Rightarrow> (string \<times> string) list) \<Rightarrow> HttpRequest \<Rightarrow> string" where
  "MakeHeaders order r =
     (if rq_is_request r then AppendRequestFirstLine order r else AppendResponseFirstLine r)
     @ concat (map (\<lambda>(k, v). k @ '': '' @ v @ crlf) (order (rq_headers r))) @ crlf"

definition AppendToBuffer :: "(string_map \<Rightarrow> (string \<times> string) list) \<Rightarrow> HttpRequest \<Rightarrow> string" where
  "AppendToBuffer order r = MakeHeaders order r @ rq_body r"

subsection \<open>Standard responses\<close>

definition error_response :: "int \<Rightarrow> HttpRequest" where
  "error_response code =
     AddHeader ''Access-Control-Allow-Headers'' ''content-type''
    (AddHeader ''Allow'' ''POST, GET, OPTIONS''
    (AddHeader ''Access-Control-Allow-Methods'' ''POST, GET, OPTIONS''
    (AddHeader ''Access-Control-Allow-Origin'' ''*''
    (AddHeader ''User-Agent'' ''WebServer''
    (SetStatusCode code (HttpRequest_init False))))))"

definition NewHttp400Response :: HttpRequest where "NewHttp400Response = error_response 400"
definition NewHttp404Response :: HttpRequest where "NewHttp404Response = error_response 404"

definition NewHttpOptionsResponse :: HttpRequest where
  "NewHttpOptionsResponse =
     AddHeader ''Access-Control-Allow-Headers'' ''content-type''
    (AddHeader ''Allow'' ''POST, GET, OPTIONS''
    (AddHeader ''Access-Control-Allow-Methods'' ''POST, GET, OPTIONS''
    (AddHeader ''Access-Control-Allow-Origin'' ''*''
    (AddHeader ''content-type'' ''text/plain''
    (AddHeader ''content-length'' ''0''
    (AddHeader ''server'' ''WebServer''
    (SetStatusCode 200 (HttpRequest_init False))))))))"

subsection \<open>Facts\<close>

text \<open>The comparison of six characters with seven never finds them equal, so it does not restrict the version.\<close>

lemma SetVersionString_unchecked:
  "length v = 8 \<Longrightarrow> rq_version (SetVersionString v r)
     = (if last v = CHR ''1'' then kHttp11 else if last v = CHR ''0'' then kHttp10 else Version_kUnknown)"
proof -
  assume v: "length v = 8"
  have "length (take 6 v) \<noteq> length ''HTTP/1.''" using v by simp
  then have "take 6 v \<noteq> ''HTTP/1.''" by metis
  moreover have "last v = v ! 7" using v by (subst last_conv_nth) auto
  ultimately show ?thesis using v by (simp add: SetVersionString_def)
qed

lemma GetHeader_AddHeader:
  "GetHeader g (AddHeader f v r) = (if map tolower g = map tolower f then v else GetHeader g r)"
  by (simp add: GetHeader_def AddHeader_def)

lemma GetHeader_RemoveHeader:
  "GetHeader g (RemoveHeader f r) = (if map tolower g = map tolower f then [] else GetHeader g r)"
  by (simp add: GetHeader_def RemoveHeader_def)

end
