(* ===== verification/Http_Buffer.thy ===== *)
theory Http_Buffer
  imports Byte_Io
begin

text \<open>
  \<open>libhttp/msg_buffer\<close>: the byte buffer of the HTTP code, a vector with a read and a write
  position. The positions move apart when bytes are appended, and together when bytes are
  retrieved; the vector grows, is compacted and shrinks on the way. A store outside the vector,
  and a call of \<open>std::copy\<close> with its destination inside the source range, set \<open>mb_fault\<close>.
\<close>

definition kBufferOffset :: nat where "kBufferOffset = 8"
definition kBufferDefaultLength :: nat where "kBufferDefaultLength = 2048"

record MsgBuffer =
  mb_head :: nat
  mb_initCap :: nat
  mb_buffer :: string
  mb_tail :: nat
  mb_fault :: bool

definition MsgBuffer_init :: "nat \<Rightarrow> MsgBuffer" where
  "MsgBuffer_init len = \<lparr>mb_head = kBufferOffset, mb_initCap = len,
     mb_buffer = replicate (len + kBufferOffset) CHR 0x00, mb_tail = kBufferOffset, mb_fault = False\<rparr>"

text \<open>The difference of two \<open>size_t\<close> values.\<close>

definition usub :: "nat \<Rightarrow> nat \<Rightarrow> nat" where
  "usub a b = (if b \<le> a then a - b else 2 ^ 64 + a - b)"

definition ReadableBytes :: "MsgBuffer \<Rightarrow> nat" where
  "ReadableBytes m = usub (mb_tail m) (mb_head m)"

definition WritableBytes :: "MsgBuffer \<Rightarrow> nat" where
  "WritableBytes m = usub (length (mb_buffer m)) (mb_tail m)"

text \<open>The bytes between the two positions.\<close>

definition Peek :: "MsgBuffer \<Rightarrow> string" where
  "Peek m = take (mb_tail m - mb_head m) (drop (mb_head m) (mb_buffer m))"

text \<open>\<open>memcpy(begin() + off, s, len)\<close>.\<close>

definition mb_memcpy :: "nat \<Rightarrow> string \<Rightarrow> MsgBuffer \<Rightarrow> MsgBuffer" where
  "mb_memcpy off s m = m\<lparr>mb_buffer := put_at off s (mb_buffer m),
     mb_fault := mb_fault m \<or> length (mb_buffer m) < off + length s\<rparr>"

text \<open>
  \<open>std::copy(begin() + head_, begin() + tail_, begin() + off)\<close>: the elements are assigned one after the other, from the first to the last.
  The call is undefined when the destination lies inside the source range; the fault is set then and nothing is claimed of the contents.
\<close>

fun copy_forward :: "nat \<Rightarrow> nat \<Rightarrow> nat \<Rightarrow> string \<Rightarrow> string" where
  "copy_forward first dest 0 b = b"
| "copy_forward first dest (Suc n) b = copy_forward (Suc first) (Suc dest) n (b[dest := b ! first])"

definition mb_copy :: "nat \<Rightarrow> MsgBuffer \<Rightarrow> MsgBuffer" where
  "mb_copy off m =
     (let n = mb_tail m - mb_head m
      in m\<lparr>mb_buffer := copy_forward (mb_head m) off n (mb_buffer m),
           mb_fault := mb_fault m \<or> mb_tail m < mb_head m \<or> length (mb_buffer m) < mb_tail m
             \<or> length (mb_buffer m) < off + n \<or> mb_head m \<le> off \<and> off < mb_tail m\<rparr>)"

text \<open>The part of \<open>Append\<close> behind \<open>EnsureWritableBytes\<close>.\<close>

definition AppendRaw :: "string \<Rightarrow> MsgBuffer \<Rightarrow> MsgBuffer" where
  "AppendRaw s m = (let m = mb_memcpy (mb_tail m) s m in m\<lparr>mb_tail := mb_tail m + length s\<rparr>)"

text \<open>Both buffers after \<open>Swap\<close>.\<close>

definition mb_Swap :: "MsgBuffer \<Rightarrow> MsgBuffer \<Rightarrow> MsgBuffer \<times> MsgBuffer" where
  "mb_Swap m buf = (buf, m)"

text \<open>
  In the last branch the new buffer's own call of \<open>EnsureWritableBytes\<close> returns at once, as
  \<open>EnsureWritableBytes_nested\<close> shows; the swap leaves the new buffer.
\<close>

definition EnsureWritableBytes :: "nat \<Rightarrow> MsgBuffer \<Rightarrow> MsgBuffer" where
  "EnsureWritableBytes len m =
     (if WritableBytes m \<ge> len then m
      else if mb_head m + WritableBytes m \<ge> len + kBufferOffset then
        let m' = mb_copy kBufferOffset m
        in m'\<lparr>mb_tail := kBufferOffset + (mb_tail m - mb_head m), mb_head := kBufferOffset\<rparr>
      else
        let newLen = (if length (mb_buffer m) * 2 > kBufferOffset + ReadableBytes m + len
                      then length (mb_buffer m) * 2 else kBufferOffset + ReadableBytes m + len);
            newbuffer = AppendRaw (Peek m) (MsgBuffer_init newLen)
        in (fst (mb_Swap m newbuffer))\<lparr>mb_fault := mb_fault newbuffer \<or> mb_fault m\<rparr>)"

definition mb_Append :: "string \<Rightarrow> MsgBuffer \<Rightarrow> MsgBuffer" where
  "mb_Append s m = AppendRaw s (EnsureWritableBytes (length s) m)"

definition AppendBuffer :: "MsgBuffer \<Rightarrow> MsgBuffer \<Rightarrow> MsgBuffer" where
  "AppendBuffer buf m = AppendRaw (Peek buf) (EnsureWritableBytes (ReadableBytes buf) m)"

definition chars_of :: "byte list \<Rightarrow> string" where "chars_of = map (\<lambda>b. char_of (unat b))"
definition bytes_of :: "string \<Rightarrow> byte list" where "bytes_of = map (\<lambda>c. of_nat (of_char c))"

definition AppendInt8 :: "byte \<Rightarrow> MsgBuffer \<Rightarrow> MsgBuffer" where "AppendInt8 b = mb_Append (chars_of [b])"
definition AppendInt16 :: "u16 \<Rightarrow> MsgBuffer \<Rightarrow> MsgBuffer" where "AppendInt16 s = mb_Append (chars_of (put_be16 s))"
definition AppendInt32 :: "u32 \<Rightarrow> MsgBuffer \<Rightarrow> MsgBuffer" where "AppendInt32 i = mb_Append (chars_of (put_be32 i))"
definition AppendInt64 :: "u64 \<Rightarrow> MsgBuffer \<Rightarrow> MsgBuffer" where "AppendInt64 l = mb_Append (chars_of (put_be64 l))"

text \<open>The option is a read outside the vector.\<close>

definition PeekInt8 :: "MsgBuffer \<Rightarrow> byte option" where
  "PeekInt8 m = get_u8 (bytes_of (mb_buffer m)) (mb_head m)"
definition PeekInt16 :: "MsgBuffer \<Rightarrow> u16 option" where
  "PeekInt16 m = get_be16 (bytes_of (mb_buffer m)) (mb_head m)"
definition PeekInt32 :: "MsgBuffer \<Rightarrow> u32 option" where
  "PeekInt32 m = get_be32 (bytes_of (mb_buffer m)) (mb_head m)"
definition PeekInt64 :: "MsgBuffer \<Rightarrow> u64 option" where
  "PeekInt64 m = get_be64 (bytes_of (mb_buffer m)) (mb_head m)"

definition RetrieveAll :: "MsgBuffer \<Rightarrow> MsgBuffer" where
  "RetrieveAll m =
     (let m = (if length (mb_buffer m) > mb_initCap m * 2
               then m\<lparr>mb_buffer := resize (mb_initCap m) CHR 0x00 (mb_buffer m)\<rparr> else m)
      in m\<lparr>mb_tail := kBufferOffset, mb_head := kBufferOffset\<rparr>)"

definition Retrieve :: "nat \<Rightarrow> MsgBuffer \<Rightarrow> MsgBuffer" where
  "Retrieve len m = (if len \<ge> ReadableBytes m then RetrieveAll m else m\<lparr>mb_head := mb_head m + len\<rparr>)"

definition mb_Read :: "nat \<Rightarrow> MsgBuffer \<Rightarrow> string \<times> MsgBuffer" where
  "mb_Read len m =
     (let len = (if len > ReadableBytes m then ReadableBytes m else len)
      in (take len (drop (mb_head m) (mb_buffer m)), Retrieve len m))"

definition ReadInt8 :: "MsgBuffer \<Rightarrow> (byte \<times> MsgBuffer) option" where
  "ReadInt8 m = do { r \<leftarrow> PeekInt8 m; Some (r, Retrieve 1 m) }"
definition ReadInt16 :: "MsgBuffer \<Rightarrow> (u16 \<times> MsgBuffer) option" where
  "ReadInt16 m = do { r \<leftarrow> PeekInt16 m; Some (r, Retrieve 2 m) }"
definition ReadInt32 :: "MsgBuffer \<Rightarrow> (u32 \<times> MsgBuffer) option" where
  "ReadInt32 m = do { r \<leftarrow> PeekInt32 m; Some (r, Retrieve 4 m) }"
definition ReadInt64 :: "MsgBuffer \<Rightarrow> (u64 \<times> MsgBuffer) option" where
  "ReadInt64 m = do { r \<leftarrow> PeekInt64 m; Some (r, Retrieve 8 m) }"

text \<open>\<open>std::search\<close>: the offset of the first occurrence.\<close>

fun search :: "string \<Rightarrow> string \<Rightarrow> nat option" where
  "search pat [] = (if pat = [] then Some 0 else None)"
| "search pat (x # xs) = (if take (length pat) (x # xs) = pat then Some 0 else map_option Suc (search pat xs))"

definition mb_CRLF :: string where "mb_CRLF = [CHR 0x0D, CHR 0x0A]"

text \<open>The position as an offset from \<open>Peek()\<close>.\<close>

definition FindCRLF :: "MsgBuffer \<Rightarrow> nat option" where
  "FindCRLF m = search mb_CRLF (Peek m)"

definition RetrieveUntil :: "nat \<Rightarrow> MsgBuffer \<Rightarrow> MsgBuffer" where
  "RetrieveUntil end_offset m = Retrieve end_offset m"

definition AddInFront :: "string \<Rightarrow> MsgBuffer \<Rightarrow> MsgBuffer" where
  "AddInFront s m =
     (let len = length s
      in if mb_head m \<ge> len then
           let m' = mb_memcpy (mb_head m - len) s m in m'\<lparr>mb_head := mb_head m - len\<rparr>
         else if len \<le> WritableBytes m then
           let m' = mb_memcpy (mb_head m) s (mb_copy (mb_head m + len) m)
           in m'\<lparr>mb_tail := mb_tail m + len\<rparr>
         else
           let newLen = (if len + ReadableBytes m < mb_initCap m then mb_initCap m else len + ReadableBytes m);
               newBuf = AppendBuffer m (mb_Append s (MsgBuffer_init newLen))
           in (fst (mb_Swap m newBuf))\<lparr>mb_fault := mb_fault newBuf \<or> mb_fault m\<rparr>)"

definition AddInFrontInt8 :: "byte \<Rightarrow> MsgBuffer \<Rightarrow> MsgBuffer" where
  "AddInFrontInt8 b = AddInFront (chars_of [b])"
definition AddInFrontInt16 :: "u16 \<Rightarrow> MsgBuffer \<Rightarrow> MsgBuffer" where
  "AddInFrontInt16 s = AddInFront (chars_of (put_be16 s))"
definition AddInFrontInt32 :: "u32 \<Rightarrow> MsgBuffer \<Rightarrow> MsgBuffer" where
  "AddInFrontInt32 i = AddInFront (chars_of (put_be32 i))"
definition AddInFrontInt64 :: "u64 \<Rightarrow> MsgBuffer \<Rightarrow> MsgBuffer" where
  "AddInFrontInt64 l = AddInFront (chars_of (put_be64 l))"

definition HasWritten :: "nat \<Rightarrow> MsgBuffer \<Rightarrow> MsgBuffer" where
  "HasWritten len m = m\<lparr>mb_tail := mb_tail m + len\<rparr>"

definition Unwrite :: "nat \<Rightarrow> MsgBuffer \<Rightarrow> MsgBuffer" where
  "Unwrite off m = m\<lparr>mb_tail := usub (mb_tail m) off\<rparr>"


subsection \<open>The buffer is a queue of bytes\<close>

lemma fst_mb_Swap [simp]: "fst (mb_Swap m buf) = buf"
  by (simp add: mb_Swap_def)

text \<open>The contract of a byte queue, and what a client that feeds segments gets from it.\<close>

locale byte_queue =
  fixes ok :: "'q \<Rightarrow> bool"
    and contents :: "'q \<Rightarrow> string"
    and append :: "string \<Rightarrow> 'q \<Rightarrow> 'q"
    and retrieve :: "nat \<Rightarrow> 'q \<Rightarrow> 'q"
  assumes append_ok: "ok q \<Longrightarrow> ok (append s q)"
    and append_contents: "ok q \<Longrightarrow> contents (append s q) = contents q @ s"
    and retrieve_ok: "ok q \<Longrightarrow> ok (retrieve n q)"
    and retrieve_contents: "ok q \<Longrightarrow> contents (retrieve n q) = drop n (contents q)"
begin

lemma feed_ok: "ok q \<Longrightarrow> ok (fold append segs q)"
  by (induction segs arbitrary: q) (simp_all add: append_ok)

lemma feed_contents: "ok q \<Longrightarrow> contents (fold append segs q) = contents q @ concat segs"
  by (induction segs arbitrary: q) (simp_all add: append_ok append_contents)

lemma feed_retrieve: "ok q \<Longrightarrow> contents q = [] \<Longrightarrow> n = length (concat segs) \<Longrightarrow>
    contents (retrieve n (fold append (segs @ rest) q)) = concat rest"
  using feed_ok [of q "segs @ rest"] feed_contents [of q "segs @ rest"] by (simp add: retrieve_contents)

end

definition mb_inv :: "MsgBuffer \<Rightarrow> bool" where
  "mb_inv m \<longleftrightarrow> mb_head m \<le> mb_tail m \<and> mb_tail m \<le> length (mb_buffer m) \<and> kBufferOffset \<le> length (mb_buffer m)
     \<and> kBufferOffset \<le> mb_initCap m \<and> \<not> mb_fault m"

lemma mb_inv_sizes:
  assumes "mb_inv m"
  shows "ReadableBytes m = mb_tail m - mb_head m" "WritableBytes m = length (mb_buffer m) - mb_tail m"
    "length (Peek m) = mb_tail m - mb_head m"
  using assms by (auto simp: mb_inv_def ReadableBytes_def WritableBytes_def usub_def Peek_def min_def)

lemma length_copy_forward [simp]: "length (copy_forward first dest n b) = length b"
  by (induction n arbitrary: first dest b) simp_all

lemma nth_copy_forward:
  assumes "dest < first \<or> first + n \<le> dest" "first + n \<le> length b" "dest + n \<le> length b" "k < length b"
  shows "copy_forward first dest n b ! k = (if dest \<le> k \<and> k < dest + n then b ! (first + k - dest) else b ! k)"
  using assms
proof (induction n arbitrary: first dest b)
  case (Suc n)
  have "copy_forward (Suc first) (Suc dest) n (b[dest := b ! first]) ! k =
      (if Suc dest \<le> k \<and> k < Suc dest + n then b[dest := b ! first] ! (Suc first + k - Suc dest) else b[dest := b ! first] ! k)"
    using Suc.prems by (intro Suc.IH) auto
  then show ?case using Suc.prems by (auto simp: nth_list_update)
qed auto

lemma copy_forward_put_at:
  assumes "dest < first \<or> first + n \<le> dest" "first + n \<le> length b" "dest + n \<le> length b"
  shows "copy_forward first dest n b = put_at dest (take n (drop first b)) b"
proof (rule nth_equalityI)
  have l: "length (put_at dest (take n (drop first b)) b) = length b" using assms by (simp add: length_put_at)
  then show "length (copy_forward first dest n b) = length (put_at dest (take n (drop first b)) b)" by simp
  fix k
  assume "k < length (copy_forward first dest n b)"
  then have k: "k < length b" by simp
  show "copy_forward first dest n b ! k = put_at dest (take n (drop first b)) b ! k"
    unfolding nth_copy_forward[OF assms k] using assms k by (auto simp: put_at_def nth_append)
qed

lemma mb_copy_apart:
  assumes "mb_inv m" "off < mb_head m \<or> mb_tail m \<le> off" "off + length (Peek m) \<le> length (mb_buffer m)"
  shows "mb_copy off m = mb_memcpy off (Peek m) m"
proof -
  have h: "mb_head m \<le> mb_tail m" "mb_tail m \<le> length (mb_buffer m)" using assms(1) by (auto simp: mb_inv_def)
  have "copy_forward (mb_head m) off (mb_tail m - mb_head m) (mb_buffer m) = put_at off (Peek m) (mb_buffer m)"
    unfolding Peek_def using assms(2,3) h mb_inv_sizes(3)[OF assms(1)] by (intro copy_forward_put_at) auto
  then show ?thesis using assms h mb_inv_sizes(3)[OF assms(1)] by (auto simp: mb_copy_def mb_memcpy_def Let_def)
qed

lemma mb_inv_init: "kBufferOffset \<le> len \<Longrightarrow> mb_inv (MsgBuffer_init len)"
  and Peek_init: "Peek (MsgBuffer_init len) = []"
  by (simp_all add: mb_inv_def MsgBuffer_init_def Peek_def)

lemma AppendRaw_ok:
  assumes "mb_inv m" and "length s \<le> WritableBytes m"
  shows "mb_inv (AppendRaw s m)" "Peek (AppendRaw s m) = Peek m @ s"
    "WritableBytes (AppendRaw s m) = WritableBytes m - length s" "mb_initCap (AppendRaw s m) = mb_initCap m"
proof -
  have le: "mb_tail m + length s \<le> length (mb_buffer m)" "mb_head m \<le> mb_tail m"
    using assms mb_inv_sizes [OF assms(1)] by (auto simp: mb_inv_def)
  show inv: "mb_inv (AppendRaw s m)"
    using assms(1) le by (simp add: AppendRaw_def mb_memcpy_def mb_inv_def Let_def length_put_at)
  have "drop (mb_head m) (put_at (mb_tail m) s (mb_buffer m)) = Peek m @ s @ drop (mb_tail m + length s) (mb_buffer m)"
    using le by (simp add: put_at_def Peek_def drop_take)
  then show "Peek (AppendRaw s m) = Peek m @ s"
    using le mb_inv_sizes(3) [OF assms(1)] by (simp add: AppendRaw_def mb_memcpy_def Let_def Peek_def [of "_ \<lparr>mb_tail := _\<rparr>"])
  show "WritableBytes (AppendRaw s m) = WritableBytes m - length s" "mb_initCap (AppendRaw s m) = mb_initCap m"
    using le mb_inv_sizes(2) [OF inv] mb_inv_sizes(2) [OF assms(1)]
    by (simp_all add: AppendRaw_def mb_memcpy_def Let_def length_put_at)
qed

lemma EnsureWritableBytes_nested:
  assumes "mb_inv m" and "kBufferOffset + ReadableBytes m + len \<le> newLen"
  shows "EnsureWritableBytes (ReadableBytes m) (MsgBuffer_init newLen) = MsgBuffer_init newLen"
  using assms by (simp add: EnsureWritableBytes_def WritableBytes_def MsgBuffer_init_def usub_def)

lemma EnsureWritableBytes_ok:
  assumes "mb_inv m"
  shows "mb_inv (EnsureWritableBytes len m)" (is ?inv) and "Peek (EnsureWritableBytes len m) = Peek m" (is ?same)
    and "len \<le> WritableBytes (EnsureWritableBytes len m)" (is ?room)
proof -
  note sz = mb_inv_sizes [OF assms]
  have h: "mb_head m \<le> mb_tail m" "mb_tail m \<le> length (mb_buffer m)" "8 \<le> mb_initCap m" "\<not> mb_fault m"
    using assms by (auto simp: mb_inv_def kBufferOffset_def)
  consider (room) "len \<le> WritableBytes m"
    | (move) "WritableBytes m < len" "len + kBufferOffset \<le> mb_head m + WritableBytes m"
    | (grow) "WritableBytes m < len" "mb_head m + WritableBytes m < len + kBufferOffset" by linarith
  then have "?inv \<and> ?same \<and> ?room"
  proof cases
    case room
    then show ?thesis using assms by (simp add: EnsureWritableBytes_def)
  next
    case move
    define q where "q = (mb_copy kBufferOffset m)\<lparr>mb_tail := kBufferOffset + (mb_tail m - mb_head m), mb_head := kBufferOffset\<rparr>"
    have run: "EnsureWritableBytes len m = q" using move by (simp add: EnsureWritableBytes_def q_def)
    have lt: "kBufferOffset < mb_head m" using move by simp
    have buf: "mb_buffer q = put_at 8 (Peek m) (mb_buffer m)" "\<not> mb_fault q" "mb_initCap q = mb_initCap m"
      "mb_head q = 8" "mb_tail q = 8 + (mb_tail m - mb_head m)"
      using lt h sz(3) mb_copy_apart[OF assms, of 8] by (simp_all add: q_def mb_memcpy_def kBufferOffset_def)
    have fits: "8 + length (Peek m) \<le> length (mb_buffer m)" using lt h sz(3) by (simp add: kBufferOffset_def)
    have len: "length (mb_buffer q) = length (mb_buffer m)" using fits by (simp add: buf length_put_at)
    have inv: "mb_inv q" using h len buf sz(3) fits by (auto simp: mb_inv_def kBufferOffset_def)
    moreover have "Peek q = Peek m"
      using slice_put_at [of 8 "mb_buffer m" "Peek m"] fits sz(3) by (simp add: Peek_def [of q] buf)
    moreover have "len \<le> WritableBytes q"
      using mb_inv_sizes(2) [OF inv] move(2) h sz len buf by (simp add: kBufferOffset_def)
    ultimately show ?thesis unfolding run by blast
  next
    case grow
    define newLen where "newLen = (if length (mb_buffer m) * 2 > kBufferOffset + ReadableBytes m + len
      then length (mb_buffer m) * 2 else kBufferOffset + ReadableBytes m + len)"
    have new: "kBufferOffset + ReadableBytes m + len \<le> newLen" by (simp add: newLen_def)
    let ?n = "MsgBuffer_init newLen"
    have inv: "mb_inv ?n" using new by (intro mb_inv_init) simp
    have w: "WritableBytes ?n = newLen" by (simp add: WritableBytes_def MsgBuffer_init_def usub_def)
    have room: "length (Peek m) \<le> WritableBytes ?n" using new sz by (simp add: w)
    note a = AppendRaw_ok [OF inv room]
    have run: "EnsureWritableBytes len m = AppendRaw (Peek m) ?n"
      using grow h(4) by (simp add: EnsureWritableBytes_def newLen_def Let_def)
    show ?thesis unfolding run using a new sz w by (simp add: Peek_init)
  qed
  then show ?inv ?same ?room by auto
qed

lemma mb_Append_ok:
  assumes "mb_inv m"
  shows "mb_inv (mb_Append s m)" "Peek (mb_Append s m) = Peek m @ s"
  using EnsureWritableBytes_ok [OF assms, of "length s"] by (simp_all add: mb_Append_def AppendRaw_ok)

lemma AppendBuffer_ok:
  assumes "mb_inv m" and "mb_inv b"
  shows "mb_inv (AppendBuffer b m)" "Peek (AppendBuffer b m) = Peek m @ Peek b"
  using EnsureWritableBytes_ok [OF assms(1), of "ReadableBytes b"] mb_inv_sizes [OF assms(2)]
  by (simp_all add: AppendBuffer_def AppendRaw_ok)

lemma RetrieveAll_ok:
  assumes "mb_inv m"
  shows "mb_inv (RetrieveAll m)" "Peek (RetrieveAll m) = []"
  using assms by (auto simp: RetrieveAll_def mb_inv_def Peek_def Let_def)

lemma Retrieve_ok:
  assumes "mb_inv m"
  shows "mb_inv (Retrieve n m)" "Peek (Retrieve n m) = drop n (Peek m)"
proof -
  have len: "length (Peek m) = ReadableBytes m" using mb_inv_sizes [OF assms] by simp
  show "mb_inv (Retrieve n m)"
    using assms RetrieveAll_ok(1) [OF assms] mb_inv_sizes(1) [OF assms] by (auto simp: Retrieve_def mb_inv_def)
  show "Peek (Retrieve n m) = drop n (Peek m)"
    using RetrieveAll_ok(2) [OF assms] len mb_inv_sizes(1) [OF assms]
    by (auto simp: Retrieve_def Peek_def drop_take add.commute)
qed

interpretation msg_buffer: byte_queue mb_inv Peek mb_Append Retrieve
  by unfold_locales (simp_all add: mb_Append_ok Retrieve_ok)

text \<open>
  Prepending: \<open>shift_overlaps\<close> is when the bytes are shifted to the right inside the buffer by
  less than their number.
\<close>

definition shift_overlaps :: "nat \<Rightarrow> MsgBuffer \<Rightarrow> bool" where
  "shift_overlaps len m \<longleftrightarrow> mb_head m < len \<and> len \<le> WritableBytes m \<and> len < ReadableBytes m"

lemma AddInFront_shift:
  assumes "mb_inv m" and shift: "mb_head m < length s" "length s \<le> WritableBytes m"
  shows "mb_fault (AddInFront s m) \<longleftrightarrow> shift_overlaps (length s) m"
    and "\<not> shift_overlaps (length s) m \<Longrightarrow> Peek (AddInFront s m) = s @ Peek m \<and> mb_inv (AddInFront s m)"
proof -
  note sz = mb_inv_sizes [OF assms(1)]
  have h: "mb_head m \<le> mb_tail m" "mb_tail m \<le> length (mb_buffer m)" "8 \<le> mb_initCap m" "\<not> mb_fault m" "8 \<le> length (mb_buffer m)"
    using assms(1) by (auto simp: mb_inv_def kBufferOffset_def)
  let ?n = "length s"
  define q where "q = AddInFront s m"
  have le: "mb_tail m + ?n \<le> length (mb_buffer m)" using shift(2) sz(2) h by simp
  have run: "q = (mb_memcpy (mb_head m) s (mb_copy (mb_head m + ?n) m))\<lparr>mb_tail := mb_tail m + ?n\<rparr>"
    using shift unfolding q_def AddInFront_def by (simp add: Let_def)
  have o: "shift_overlaps ?n m \<longleftrightarrow> ?n < mb_tail m - mb_head m" using shift sz(1) by (simp add: shift_overlaps_def)
  show "mb_fault (AddInFront s m) \<longleftrightarrow> shift_overlaps ?n m"
    unfolding o q_def[symmetric] run using h le shift(1) by (auto simp: mb_memcpy_def mb_copy_def Let_def)
  show "Peek (AddInFront s m) = s @ Peek m \<and> mb_inv (AddInFront s m)" if "\<not> shift_overlaps ?n m"
  proof -
    define c where "c = put_at (mb_head m + ?n) (Peek m) (mb_buffer m)"
    have c: "length c = length (mb_buffer m)" unfolding c_def using le h sz(3) by (simp add: length_put_at)
    have "mb_copy (mb_head m + ?n) m = mb_memcpy (mb_head m + ?n) (Peek m) m"
      using that o h le sz(3) by (intro mb_copy_apart assms(1)) auto
    then have q: "mb_buffer q = put_at (mb_head m) s c" "mb_head q = mb_head m" "mb_tail q = mb_tail m + ?n"
        "mb_initCap q = mb_initCap m" "\<not> mb_fault q"
      using h le sz(3) c unfolding run mb_memcpy_def c_def by auto
    have "drop (mb_head m) (put_at (mb_head m) s c) = s @ drop (mb_head m + ?n) c" using h c le by (simp add: put_at_def)
    moreover have "take (mb_tail m - mb_head m) (drop (mb_head m + ?n) c) = Peek m"
      using slice_put_at [of "mb_head m + ?n" "mb_buffer m" "Peek m"] h le sz(3) by (simp add: c_def)
    ultimately have "Peek q = s @ Peek m" using h by (simp add: Peek_def [of q] q add.commute diff_add_assoc)
    moreover have "mb_inv q" using q h c le by (auto simp: mb_inv_def kBufferOffset_def length_put_at)
    ultimately show ?thesis by (simp add: q_def)
  qed
qed

lemma AddInFront_ok:
  assumes "mb_inv m"
  shows "\<not> shift_overlaps (length s) m \<Longrightarrow> Peek (AddInFront s m) = s @ Peek m"
    and "mb_fault (AddInFront s m) \<longleftrightarrow> shift_overlaps (length s) m"
    and "\<not> shift_overlaps (length s) m \<Longrightarrow> mb_inv (AddInFront s m)"
proof -
  note sz = mb_inv_sizes [OF assms]
  have h: "mb_head m \<le> mb_tail m" "mb_tail m \<le> length (mb_buffer m)" "8 \<le> mb_initCap m" "\<not> mb_fault m"
      "8 \<le> length (mb_buffer m)"
    using assms by (auto simp: mb_inv_def kBufferOffset_def)
  consider (front) "length s \<le> mb_head m" | (shift) "mb_head m < length s" "length s \<le> WritableBytes m"
    | (grow) "mb_head m < length s" "WritableBytes m < length s" by linarith
  then have "(mb_fault (AddInFront s m) \<longleftrightarrow> shift_overlaps (length s) m) \<and>
      (\<not> shift_overlaps (length s) m \<longrightarrow> Peek (AddInFront s m) = s @ Peek m \<and> mb_inv (AddInFront s m))"
  proof cases
    case front
    let ?o = "mb_head m - length s"
    have run: "AddInFront s m = (mb_memcpy ?o s m)\<lparr>mb_head := ?o\<rparr>"
      using front by (simp add: AddInFront_def Let_def)
    have "drop ?o (put_at ?o s (mb_buffer m)) = s @ drop (mb_head m) (mb_buffer m)"
      using front h by (simp add: put_at_def)
    moreover have "take (mb_tail m - ?o) (s @ drop (mb_head m) (mb_buffer m)) = s @ Peek m"
      using front h by (simp add: Peek_def)
    ultimately have "Peek (AddInFront s m) = s @ Peek m"
      by (simp add: run Peek_def [of "_ \<lparr>mb_head := _\<rparr>"] mb_memcpy_def)
    moreover have "mb_inv (AddInFront s m)"
      using front h by (auto simp: run mb_memcpy_def mb_inv_def kBufferOffset_def length_put_at)
    ultimately show ?thesis using front by (simp add: mb_inv_def shift_overlaps_def)
  next
    case shift
    then show ?thesis using AddInFront_shift[OF assms, of s] by blast
  next
    case grow
    define newLen where "newLen = (if length s + ReadableBytes m < mb_initCap m then mb_initCap m else length s + ReadableBytes m)"
    have "mb_inv (MsgBuffer_init newLen)"
      using h by (intro mb_inv_init) (auto simp: newLen_def kBufferOffset_def)
    note a = mb_Append_ok [OF this, of s]
    note b = AppendBuffer_ok [OF a(1) assms]
    have run: "AddInFront s m = AppendBuffer m (mb_Append s (MsgBuffer_init newLen))"
      using grow h(4) by (simp add: AddInFront_def newLen_def Let_def)
    show ?thesis unfolding run using b a(2) grow by (simp add: Peek_init shift_overlaps_def mb_inv_def)
  qed
  then show "\<not> shift_overlaps (length s) m \<Longrightarrow> Peek (AddInFront s m) = s @ Peek m" "mb_fault (AddInFront s m) \<longleftrightarrow> shift_overlaps (length s) m"
    "\<not> shift_overlaps (length s) m \<Longrightarrow> mb_inv (AddInFront s m)" by auto
qed

lemma length_bytes_of [simp]: "length (bytes_of s) = length s"
  by (simp add: bytes_of_def)

lemma bytes_of_chars_of [simp]: "bytes_of (chars_of bs) = bs"
proof -
  have "of_nat (of_char (char_of (unat b))) = b" for b :: byte
    using unsigned_less [of b, where ?'a = nat] by (simp add: of_char_of)
  then show ?thesis by (simp add: bytes_of_def chars_of_def comp_def)
qed

lemma bytes_of_slice: "take n (drop k (bytes_of s)) = bytes_of (take n (drop k s))"
  by (simp add: bytes_of_def take_map drop_map)

text \<open>An integer at the front of the contents is what \<open>PeekInt\<close> reads.\<close>

lemma Peek_front:
  assumes "mb_inv m" and "Peek m = chars_of bs @ s"
  shows "fetch (length bs) f (bytes_of (mb_buffer m)) (mb_head m) = Some (f bs)"
proof -
  have len: "mb_head m + length bs \<le> length (mb_buffer m)"
    using mb_inv_sizes(3) [OF assms(1)] assms by (auto simp: chars_of_def mb_inv_def)
  have "length (chars_of bs @ s) = mb_tail m - mb_head m" using mb_inv_sizes(3) [OF assms(1)] assms(2) by simp
  then have "length bs \<le> mb_tail m - mb_head m" by (simp add: chars_of_def)
  then have "take (length bs) (drop (mb_head m) (mb_buffer m)) = take (length bs) (Peek m)"
    by (simp add: Peek_def min_def)
  also have "\<dots> = chars_of bs" by (simp add: assms(2) chars_of_def)
  finally show ?thesis using len by (simp add: fetch_Some bytes_of_slice)
qed

subsection \<open>Buffers of a program\<close>

inductive mb_reachable :: "MsgBuffer \<Rightarrow> bool" where
  "kBufferOffset \<le> len \<Longrightarrow> mb_reachable (MsgBuffer_init len)"
| "mb_reachable m \<Longrightarrow> mb_reachable (mb_Append s m)"
| "mb_reachable m \<Longrightarrow> mb_reachable b \<Longrightarrow> mb_reachable (AppendBuffer b m)"
| "mb_reachable m \<Longrightarrow> mb_reachable (EnsureWritableBytes n m)"
| "mb_reachable m \<Longrightarrow> mb_reachable (Retrieve n m)"
| "mb_reachable m \<Longrightarrow> mb_reachable (RetrieveAll m)"
| "mb_reachable m \<Longrightarrow> \<not> shift_overlaps (length s) m \<Longrightarrow> mb_reachable (AddInFront s m)"
| "mb_reachable m \<Longrightarrow> n \<le> WritableBytes m \<Longrightarrow> mb_reachable (HasWritten n m)"
| "mb_reachable m \<Longrightarrow> n \<le> ReadableBytes m \<Longrightarrow> mb_reachable (Unwrite n m)"

text \<open>
  \<open>HasWritten\<close> takes bytes in that the caller has stored behind the write position, \<open>Unwrite\<close> gives the last ones up; neither checks its argument.
\<close>

lemma HasWritten_ok:
  assumes "mb_inv m" "n \<le> WritableBytes m"
  shows "mb_inv (HasWritten n m)" "Peek (HasWritten n m) = Peek m @ take n (drop (mb_tail m) (mb_buffer m))"
proof -
  have h: "mb_head m \<le> mb_tail m" "mb_tail m \<le> length (mb_buffer m)" "mb_tail m + n \<le> length (mb_buffer m)"
    using assms mb_inv_sizes(2)[OF assms(1)] by (auto simp: mb_inv_def)
  then show "mb_inv (HasWritten n m)" using assms(1) by (auto simp: mb_inv_def HasWritten_def)
  have e: "mb_tail m + n - mb_head m = (mb_tail m - mb_head m) + n" using h by simp
  have "Peek (HasWritten n m) = take ((mb_tail m - mb_head m) + n) (drop (mb_head m) (mb_buffer m))"
    unfolding e[symmetric] by (simp add: Peek_def HasWritten_def)
  then show "Peek (HasWritten n m) = Peek m @ take n (drop (mb_tail m) (mb_buffer m))"
    unfolding take_add using h(1) by (simp add: Peek_def)
qed

lemma Unwrite_ok:
  assumes "mb_inv m" "n \<le> ReadableBytes m"
  shows "mb_inv (Unwrite n m)" "Peek (Unwrite n m) = take (length (Peek m) - n) (Peek m)"
proof -
  have h: "mb_head m \<le> mb_tail m" "mb_tail m \<le> length (mb_buffer m)" "n \<le> mb_tail m - mb_head m"
    using assms mb_inv_sizes(1)[OF assms(1)] by (auto simp: mb_inv_def)
  then have u: "usub (mb_tail m) n = mb_tail m - n" by (simp add: usub_def)
  show "mb_inv (Unwrite n m)" using assms(1) h by (auto simp: mb_inv_def Unwrite_def u)
  show "Peek (Unwrite n m) = take (length (Peek m) - n) (Peek m)"
    using h mb_inv_sizes(3)[OF assms(1)] by (simp add: Peek_def Unwrite_def u add.commute)
qed

lemma mb_reachable_inv: "mb_reachable m \<Longrightarrow> mb_inv m"
  by (induction rule: mb_reachable.induct)
    (simp_all add: mb_inv_init mb_Append_ok AppendBuffer_ok EnsureWritableBytes_ok Retrieve_ok RetrieveAll_ok AddInFront_ok
      HasWritten_ok Unwrite_ok)

lemma mb_Read_ok:
  assumes "mb_inv m"
  shows "fst (mb_Read n m) = take n (Peek m)" "Peek (snd (mb_Read n m)) = drop n (Peek m)"
proof -
  note sz = mb_inv_sizes [OF assms]
  have "take k (drop (mb_head m) (mb_buffer m)) = take k (Peek m)" if "k \<le> ReadableBytes m" for k
    using that sz(1) by (simp add: Peek_def min_def)
  then show "fst (mb_Read n m) = take n (Peek m)"
    using sz by (auto simp: mb_Read_def Let_def Peek_def)
  show "Peek (snd (mb_Read n m)) = drop n (Peek m)"
    using sz Retrieve_ok(2) [OF assms] by (auto simp: mb_Read_def Let_def)
qed

text \<open>
  C21: take a buffer that was constructed for at least eight bytes and is the result of \<open>Append\<close>, \<open>EnsureWritableBytes\<close>, \<open>Retrieve\<close>,
  \<open>RetrieveAll\<close> and \<open>AddInFront\<close> calls, of \<open>HasWritten\<close> within the writable and \<open>Unwrite\<close> within the readable bytes, where no \<open>AddInFront\<close> shifted the
  bytes by less than their number (\<open>shift_overlaps\<close>: the call of \<open>std::copy\<close> is undefined then). No store has left its vector and no call was
  undefined, and it behaves as a queue of bytes: appending adds at the end, retrieving and reading take from the front, growing and compacting change
  nothing, \<open>Unwrite\<close> takes from the end, prepending without overlap adds at the front, and an integer put in front without overlap or into an empty
  buffer is the one read. Prepending is faulty exactly when the ranges overlap.
\<close>

theorem MsgBuffer_refines_queue:
  assumes "mb_reachable m"
  shows "\<not> mb_fault m \<and> ReadableBytes m = length (Peek m)
    \<and> Peek (mb_Append s m) = Peek m @ s
    \<and> Peek (Retrieve n m) = drop n (Peek m) \<and> Peek (RetrieveAll m) = []
    \<and> fst (mb_Read n m) = take n (Peek m) \<and> Peek (snd (mb_Read n m)) = drop n (Peek m)
    \<and> Peek (EnsureWritableBytes n m) = Peek m \<and> n \<le> WritableBytes (EnsureWritableBytes n m)
    \<and> (n \<le> ReadableBytes m \<longrightarrow> Peek (Unwrite n m) = take (length (Peek m) - n) (Peek m))
    \<and> (\<not> shift_overlaps (length s) m \<longrightarrow> Peek (AddInFront s m) = s @ Peek m)
    \<and> (mb_fault (AddInFront s m) \<longleftrightarrow> shift_overlaps (length s) m)
    \<and> (\<not> shift_overlaps 4 m \<longrightarrow> PeekInt32 (AddInFrontInt32 i m) = Some i)
    \<and> (Peek m = [] \<longrightarrow> PeekInt16 (AppendInt16 h m) = Some h \<and> PeekInt64 (AppendInt64 l m) = Some l)"
proof -
  note inv = mb_reachable_inv [OF assms]
  have front: "PeekInt32 (AddInFrontInt32 i m) = Some i" if "\<not> shift_overlaps 4 m"
    using Peek_front [of "AddInFrontInt32 i m" "put_be32 i" "Peek m" "ReadBigEndian4 :: byte list \<Rightarrow> u32"] AddInFront_ok(1,3) [OF inv] that
    by (simp add: AddInFrontInt32_def PeekInt32_def chars_of_def read_write_be32)
  have append: "PeekInt16 (AppendInt16 h m) = Some h" "PeekInt64 (AppendInt64 l m) = Some l" if "Peek m = []"
    using Peek_front [of "AppendInt16 h m" "put_be16 h" "[]" "ReadBigEndian2 :: byte list \<Rightarrow> u16"]
      Peek_front [of "AppendInt64 l m" "put_be64 l" "[]" "ReadBigEndian8 :: byte list \<Rightarrow> u64"] mb_Append_ok [OF inv] that
    by (simp_all add: AppendInt16_def AppendInt64_def PeekInt16_def PeekInt64_def read_write_be16 read_write_be64)
  show ?thesis
    using inv mb_inv_sizes [OF inv] mb_Append_ok(2) [OF inv] Retrieve_ok(2) [OF inv] RetrieveAll_ok(2) [OF inv]
      mb_Read_ok [OF inv] EnsureWritableBytes_ok [OF inv] AddInFront_ok(1,2) [OF inv] Unwrite_ok(2) [OF inv] front append
    by (simp add: mb_inv_def)
qed

theorem MsgBuffer_refines_queue_witness:
  "Peek (mb_Append ''ab'' (MsgBuffer_init 8)) = ''ab'' \<and> PeekInt16 (AppendInt16 513 (MsgBuffer_init 8)) = Some 513"
  using MsgBuffer_refines_queue [of "MsgBuffer_init 8" "''ab''" 0 0 513 0] mb_reachable.intros(1) [of 8]
  by (simp add: kBufferOffset_def Peek_init)

text \<open>
  C36: a buffer constructed for fewer than eight bytes is cut by \<open>RetrieveAll\<close> below its own write
  position; \<open>WritableBytes\<close> then wraps around, and the next append writes outside the vector.
\<close>

theorem MsgBuffer_small_overrun:
  assumes "len < kBufferOffset" and "s \<noteq> []" and "length s \<le> 2 ^ 32"
  shows "mb_fault (mb_Append s (RetrieveAll (MsgBuffer_init len)))"
proof -
  define m where "m = RetrieveAll (MsgBuffer_init len)"
  have m: "length (mb_buffer m) = len" "mb_tail m = 8"
    using assms(1) by (simp_all add: m_def RetrieveAll_def MsgBuffer_init_def kBufferOffset_def)
  then have "length s \<le> WritableBytes m" using assms(1,3) by (simp add: WritableBytes_def usub_def kBufferOffset_def)
  then have "mb_Append s m = AppendRaw s m" by (simp add: mb_Append_def EnsureWritableBytes_def)
  moreover have "mb_fault (AppendRaw s m)"
    using m assms(1,2) by (cases s) (simp_all add: AppendRaw_def mb_memcpy_def Let_def kBufferOffset_def)
  ultimately show ?thesis by (simp add: m_def)
qed

theorem MsgBuffer_small_overrun_witness: "mb_fault (mb_Append ''a'' (RetrieveAll (MsgBuffer_init 4)))"
  using MsgBuffer_small_overrun [of 4 "''a''"] by (simp add: kBufferOffset_def)

end
