(* ===== verification/Http_Parser.thy ===== *)
theory Http_Parser
  imports Http_Request Http_Buffer
begin

text \<open>
  \<open>libhttp/packet\<close> and \<open>libhttp/http_parser\<close>: the packet a body is collected in, and the parser that
  is driven with a buffer until it has a request, a response or a chunk. A store outside a packet, an
  index behind the end of a vector, an allocation with a negative size and a signed overflow set
  \<open>hp_fault\<close>. A \<open>long\<close> has 64 bits, as on the Unix targets of the build.
\<close>

subsection \<open>Packets\<close>

definition kPacketTypeUnknowed :: int where "kPacketTypeUnknowed = 255"

record Packet =
  pk_type :: int
  pk_size :: u32
  pk_index :: int
  pk_timestamp :: u64
  pk_capacity :: u32
  pk_data :: string

text \<open>The block of a negative size is smaller than the object, or too large to be allocated.\<close>

definition NewPacket :: "int \<Rightarrow> Packet option" where
  "NewPacket sz = (if sz < 0 then None else
     Some \<lparr>pk_type = kPacketTypeUnknowed, pk_size = 0, pk_index = -1, pk_timestamp = 0,
           pk_capacity = word_of_int sz, pk_data = replicate (nat sz) CHR 0x00\<rparr>)"

definition PacketSize :: "Packet \<Rightarrow> int" where "PacketSize p = sint (pk_size p)"
definition Space :: "Packet \<Rightarrow> int" where "Space p = sint (pk_capacity p - pk_size p)"
definition SetPacketSize :: "nat \<Rightarrow> Packet \<Rightarrow> Packet" where "SetPacketSize len p = p\<lparr>pk_size := of_nat len\<rparr>"
definition UpdatePacketSize :: "nat \<Rightarrow> Packet \<Rightarrow> Packet" where
  "UpdatePacketSize len p = p\<lparr>pk_size := pk_size p + of_nat len\<rparr>"

subsection \<open>Numbers in text\<close>

text \<open>
  The C functions \<open>strtoull\<close> and \<open>strtol\<close>: white space, a sign, an optional \<open>0x\<close> for base 16 in front of a
  digit, and the digits of the base, whose value is \<open>None\<close> when there is none.
\<close>

definition is_digit :: "nat \<Rightarrow> char \<Rightarrow> bool" where
  "is_digit base c \<longleftrightarrow> isxdigit c \<and> hex_value c < base"

definition digits_value :: "nat \<Rightarrow> string \<Rightarrow> nat" where
  "digits_value base s = foldl (\<lambda>a c. a * base + hex_value c) 0 s"

definition number_prefix :: "nat \<Rightarrow> string \<Rightarrow> (bool \<times> nat) option" where
  "number_prefix base s =
     (let s = dropWhile isspace s;
          neg = (s \<noteq> [] \<and> hd s = CHR ''-'');
          s = (if s \<noteq> [] \<and> hd s \<in> {CHR ''-'', CHR ''+''} then tl s else s);
          s = (if base = 16 \<and> 2 < length s \<and> s ! 0 = CHR ''0'' \<and> s ! 1 \<in> {CHR ''x'', CHR ''X''} \<and> is_digit 16 (s ! 2)
               then drop 2 s else s);
          ds = takeWhile (is_digit base) s
      in if ds = [] then None else Some (neg, digits_value base ds))"

text \<open>\<open>None\<close> is an exception: no digits, or a value out of range.\<close>

definition stoull :: "string \<Rightarrow> nat option" where
  "stoull s = (case number_prefix 10 s of
     None \<Rightarrow> None
   | Some (neg, v) \<Rightarrow>
       if v \<ge> 2 ^ 64 then None
       else Some (if neg \<and> v \<noteq> 0 then 2 ^ 64 - v else v))"

definition strtol :: "string \<Rightarrow> nat \<Rightarrow> int" where
  "strtol s base = (case number_prefix base s of
     None \<Rightarrow> 0
   | Some (neg, v) \<Rightarrow> if neg then max (- (2 ^ 63)) (- int v) else min (2 ^ 63 - 1) (int v))"

definition atoi :: "string \<Rightarrow> int" where
  "atoi s = to_int32 (strtol s 10)"

subsection \<open>The parser\<close>

definition CRLFCRLF :: string where "CRLFCRLF = [CHR 0x0D, CHR 0x0A, CHR 0x0D, CHR 0x0A]"
definition kHttpMaxBodySize :: int where "kHttpMaxBodySize = 64 * 1024"

datatype HttpParserState =
    kExpectHeaders | kExpectNormalBody | kExpectStreamBody | kExpectHttpComplete | kExpectChunkLen
  | kExpectChunkBody | kExpectChunkComplete | kExpectLastEmptyChunk | kExpectContinue | kExpectError

record HttpParser =
  hp_state :: HttpParserState
  hp_chunk_length :: int
  hp_content_length :: int
  hp_is_stream :: bool
  hp_is_chunked :: bool
  hp_is_request :: bool
  hp_reason :: int
  hp_header :: string
  hp_chunk :: "Packet option"
  hp_req :: "HttpRequest option"
  hp_fault :: bool

definition HttpParser_init :: HttpParser where
  "HttpParser_init = \<lparr>hp_state = kExpectHeaders, hp_chunk_length = 0, hp_content_length = 0,
     hp_is_stream = False, hp_is_chunked = False, hp_is_request = True, hp_reason = kUnknown,
     hp_header = [], hp_chunk = None, hp_req = None, hp_fault = False\<rparr>"

definition ClearForNextHttp :: "HttpParser \<Rightarrow> HttpParser" where
  "ClearForNextHttp p = p\<lparr>hp_state := kExpectHeaders, hp_header := [], hp_req := None,
     hp_content_length := -1, hp_chunk := None\<rparr>"

definition ClearForNextChunk :: "HttpParser \<Rightarrow> HttpParser" where
  "ClearForNextChunk p =
     (if hp_is_chunked p then p\<lparr>hp_state := kExpectChunkLen, hp_chunk_length := -1\<rparr>
      else if hp_is_stream p then p\<lparr>hp_state := kExpectStreamBody\<rparr>
      else p\<lparr>hp_state := kExpectHeaders, hp_chunk_length := -1\<rparr>)\<lparr>hp_chunk := None\<rparr>"

definition hp_fail :: "HttpParser \<Rightarrow> HttpParser" where
  "hp_fail p = p\<lparr>hp_reason := k400BadRequest, hp_state := kExpectError\<rparr>"

text \<open>\<open>list[i]\<close>, with the flag that it is behind the end.\<close>

definition at :: "string list \<Rightarrow> nat \<Rightarrow> HttpParser \<Rightarrow> string \<times> HttpParser" where
  "at l i p = (if i < length l then (l ! i, p) else ([], p\<lparr>hp_fault := True\<rparr>))"

definition ProcessMethodLine :: "splitter \<Rightarrow> string \<Rightarrow> HttpParser \<Rightarrow> HttpParser" where
  "ProcessMethodLine split line p =
     (let l = split line CHR '' '';
          (l0, p) = at l 0 p;
          is_request = (take 4 (map tolower l0) \<noteq> ''http'');
          r = HttpRequest_init is_request
      in if is_request then
           let (path, p) = at l 1 p;
               (ver, p) = at l 2 p;
               r = SetMethodString l0 r;
               r = (case cut_at CHR ''?'' path of
                      Some (a, q) \<Rightarrow> SetQuery split q (SetPath a r)
                    | None \<Rightarrow> SetPath path r);
               r = SetVersionString ver r
           in p\<lparr>hp_is_request := is_request, hp_req := Some r\<rparr>
         else
           let (code, p) = at l 1 p;
               r = SetStatusCode (atoi code) (SetVersionString l0 r)
           in p\<lparr>hp_is_request := is_request, hp_req := Some r\<rparr>)"

definition header_line :: "string \<Rightarrow> HttpRequest \<Rightarrow> HttpRequest" where
  "header_line l r = (case cut_at CHR '':'' l of
       Some (k, v) \<Rightarrow> AddHeader (Trim k) (Trim v) r
     | None \<Rightarrow> r)"

text \<open>What the parser expects behind the headers of request \<open>r\<close>.\<close>

definition body_state :: "HttpRequest \<Rightarrow> HttpParser \<Rightarrow> HttpParser" where
  "body_state r p =
     (let len = GetHeader ''content-length'' r
      in if len \<noteq> [] then
           case stoull len of
             None \<Rightarrow> hp_fail p
           | Some n \<Rightarrow>
               let p = p\<lparr>hp_content_length := to_int32 (int n)\<rparr>
               in p\<lparr>hp_state := (if hp_content_length p = 0 then kExpectHttpComplete else kExpectNormalBody)\<rparr>
         else if GetHeader ''transfer-encoding'' r = ''chunked'' then
           p\<lparr>hp_is_chunked := True, hp_req := Some (SetIsChunked True r), hp_state := kExpectChunkLen\<rparr>
         else if \<not> hp_is_request p \<and> rq_code r \<noteq> 200
               \<or> hp_is_request p \<and> (rq_method r = kGet \<or> rq_method r = kHead \<or> rq_method r = kOptions) then
           p\<lparr>hp_chunk_length := 0, hp_state := kExpectHttpComplete\<rparr>
         else
           p\<lparr>hp_content_length := -1, hp_is_stream := True, hp_req := Some (SetIsStream True r),
             hp_state := kExpectStreamBody\<rparr>)"

definition ParseHeaders :: "splitter \<Rightarrow> HttpParser \<Rightarrow> HttpParser" where
  "ParseHeaders split p =
     (case split (hp_header p) CHR 0x0A of
        [] \<Rightarrow> hp_fail p
      | l # ls \<Rightarrow>
          let p = ProcessMethodLine split l p;
              r = fold header_line (l # ls) (the (hp_req p))
          in body_state r (p\<lparr>hp_req := Some r\<rparr>))"

text \<open>
  The three body readers share the transfer from the buffer into the packet \<open>chunk_\<close>, which is allocated with
  \<open>cap\<close> bytes when there is none: \<open>sz\<close> bytes are copied, counted and retrieved. The result is \<open>None\<close>
  when the packet could not be allocated or the copy leaves it.
\<close>

definition transfer :: "int \<Rightarrow> Packet option \<Rightarrow> MsgBuffer \<Rightarrow> (int \<times> Packet \<times> MsgBuffer) option" where
  "transfer cap chunk buf = do {
     c \<leftarrow> (case chunk of Some c \<Rightarrow> Some c | None \<Rightarrow> NewPacket cap);
     let sz = min (to_int32 (int (ReadableBytes buf))) (Space c);
     if 0 \<le> sz \<and> 0 \<le> PacketSize c \<and> PacketSize c + sz \<le> int (length (pk_data c)) then
       Some (sz,
             UpdatePacketSize (nat sz)
               (c\<lparr>pk_data := put_at (nat (PacketSize c)) (take (nat sz) (Peek buf)) (pk_data c)\<rparr>),
             Retrieve (nat sz) buf)
     else None }"

definition ParseStream :: "HttpParser \<Rightarrow> MsgBuffer \<Rightarrow> HttpParser \<times> MsgBuffer" where
  "ParseStream p buf = (case transfer kHttpMaxBodySize (hp_chunk p) buf of
     None \<Rightarrow> (p\<lparr>hp_fault := True\<rparr>, buf)
   | Some (sz, c, buf) \<Rightarrow>
       let p = p\<lparr>hp_chunk := Some c\<rparr>
       in (if Space c = 0 then p\<lparr>hp_state := kExpectChunkComplete\<rparr> else p, buf))"

definition ParseNormalBody :: "HttpParser \<Rightarrow> MsgBuffer \<Rightarrow> HttpParser \<times> MsgBuffer" where
  "ParseNormalBody p buf = (case transfer (hp_content_length p) (hp_chunk p) buf of
     None \<Rightarrow> (p\<lparr>hp_fault := True\<rparr>, buf)
   | Some (sz, c, buf) \<Rightarrow>
       let p = p\<lparr>hp_chunk := Some c, hp_content_length := hp_content_length p - sz\<rparr>
       in (if hp_content_length p = 0 then p\<lparr>hp_state := kExpectHttpComplete\<rparr> else p, buf))"

text \<open>\<open>SetPacketSize(PacketSize() - 2)\<close> converts an \<open>int\<close> to \<open>size_t\<close> and then to 32 bits.\<close>

definition ParseChunk :: "HttpParser \<Rightarrow> MsgBuffer \<Rightarrow> HttpParser \<times> MsgBuffer" where
  "ParseChunk p buf = (case transfer (hp_chunk_length p) (hp_chunk p) buf of
     None \<Rightarrow> (p\<lparr>hp_fault := True\<rparr>, buf)
   | Some (sz, c, buf) \<Rightarrow>
       let p = p\<lparr>hp_chunk := Some c, hp_chunk_length := hp_chunk_length p - sz\<rparr>
       in (if hp_chunk_length p = 0 \<or> Space c = 0 then
             p\<lparr>hp_chunk := Some (SetPacketSize (nat ((PacketSize c - 2) mod 2 ^ 64)) c),
               hp_state := kExpectChunkComplete\<rparr>
           else p, buf))"

text \<open>\<open>current_chunk_length_ += 2\<close> is an addition of \<open>int32_t\<close> values; where it overflows the result is the wrapped one and the fault is set.\<close>

definition ParseChunkLen :: "HttpParser \<Rightarrow> MsgBuffer \<Rightarrow> HttpParser \<times> MsgBuffer" where
  "ParseChunkLen p buf = (case FindCRLF buf of
     Some pos \<Rightarrow>
       let p = p\<lparr>hp_chunk_length := to_int32 (strtol (take pos (Peek buf)) 16)\<rparr>;
           p = (if hp_chunk_length p > 1024 * 1024 then hp_fail p else p);
           buf = RetrieveUntil (pos + 2) buf
       in if hp_chunk_length p = 0 then (p\<lparr>hp_state := kExpectLastEmptyChunk\<rparr>, buf)
          else (p\<lparr>hp_chunk_length := to_int32 (hp_chunk_length p + 2), hp_state := kExpectChunkBody,
                  hp_fault := hp_fault p \<or> hp_chunk_length p + 2 \<ge> 2 ^ 31\<rparr>, buf)
   | None \<Rightarrow>
       if ReadableBytes buf > 32 then (hp_fail p, RetrieveAll buf) else (p, buf))"

definition ParseExpectHeaders :: "splitter \<Rightarrow> HttpParser \<Rightarrow> MsgBuffer \<Rightarrow> HttpParserState \<times> HttpParser \<times> MsgBuffer" where
  "ParseExpectHeaders split p buf =
     (if ReadableBytes buf > length CRLFCRLF then
        case search CRLFCRLF (Peek buf) of
          Some sz \<Rightarrow>
            let p = ParseHeaders split (p\<lparr>hp_header := take sz (Peek buf)\<rparr>)
            in (hp_state p, p, Retrieve (sz + 4) buf)
        | None \<Rightarrow>
            if int (ReadableBytes buf) > kHttpMaxBodySize then (kExpectError, hp_fail p, buf)
            else (kExpectContinue, p, buf)
      else (kExpectContinue, p, buf))"

text \<open>The part of \<open>Parse\<close> that starts the next message or chunk, and the switch over the state.\<close>

definition parser_clear :: "HttpParser \<Rightarrow> HttpParser" where
  "parser_clear p =
     (if hp_state p = kExpectHttpComplete then ClearForNextHttp p
      else if hp_state p = kExpectChunkComplete then ClearForNextChunk p else p)"

definition ParseLastEmptyChunk :: "HttpParser \<Rightarrow> MsgBuffer \<Rightarrow> HttpParser \<times> MsgBuffer" where
  "ParseLastEmptyChunk p buf = (case FindCRLF buf of
     Some pos \<Rightarrow> (p\<lparr>hp_chunk := None, hp_state := kExpectChunkComplete\<rparr>, RetrieveUntil (pos + 2) buf)
   | None \<Rightarrow> (p, buf))"

definition parser_switch :: "splitter \<Rightarrow> HttpParser \<Rightarrow> MsgBuffer \<Rightarrow> HttpParserState \<times> HttpParser \<times> MsgBuffer" where
  "parser_switch split p buf =
     (let ret = (\<lambda>(p, buf). (hp_state p, p, buf))
      in case hp_state p of
           kExpectHeaders \<Rightarrow> ParseExpectHeaders split p buf
         | kExpectNormalBody \<Rightarrow> ret (ParseNormalBody p buf)
         | kExpectStreamBody \<Rightarrow> ret (ParseStream p buf)
         | kExpectChunkLen \<Rightarrow> ret (ParseChunkLen p buf)
         | kExpectChunkBody \<Rightarrow> ret (ParseChunk p buf)
         | kExpectLastEmptyChunk \<Rightarrow> ret (ParseLastEmptyChunk p buf)
         | _ \<Rightarrow> ret (p, buf))"

definition parser_Parse :: "splitter \<Rightarrow> HttpParser \<Rightarrow> MsgBuffer \<Rightarrow> HttpParserState \<times> HttpParser \<times> MsgBuffer" where
  "parser_Parse split p buf =
     (if ReadableBytes buf = 0 then (hp_state p, p, buf) else parser_switch split (parser_clear p) buf)"

end
