(* ===== verification/Http_Context.thy ===== *)
theory Http_Context
  imports Http_Parser
begin

text \<open>
  \<open>libhttp/http_context\<close> and the receiving side of \<open>libhttp/http_server\<close>: the loop that feeds received bytes
  to the parser, and the state machine that sends headers, bodies and chunks one write at a time. What
  the context does to its surroundings (signals and calls of the connection) is the list \<open>cx_events\<close>, oldest
  first; a packet read behind its end and a missing packet set \<open>cx_fault\<close>. The loop gets fuel, since it may
  not end: \<open>None\<close> is a loop that is still running.
\<close>

datatype ContextEvent =
    OnRequest "HttpRequest option" "Packet option"
  | ConnectionClose
  | AsyncSend string
  | OnSent
  | OnSentNextChunk

datatype HttpContextPostState =
    kHttpContextPostInit | kHttpContextPostHttp | kHttpContextPostHttpHeader | kHttpContextPostHttpBody
  | kHttpContextPostHttpStreamHeader | kHttpContextPostHttpStreamChunk | kHttpContextPostChunkHeader
  | kHttpContextPostChunkLen | kHttpContextPostChunkBody | kHttpContextPostChunkEOF

record HttpContext =
  cx_parser :: HttpParser
  cx_header :: string
  cx_packet :: "Packet option"
  cx_post :: HttpContextPostState
  cx_header_sent :: bool
  cx_events :: "ContextEvent list"
  cx_fault :: bool

text \<open>The constructor leaves \<open>header_sent_\<close> as it finds it in memory: the argument.\<close>

definition HttpContext_init :: "bool \<Rightarrow> HttpContext" where
  "HttpContext_init garbage = \<lparr>cx_parser = HttpParser_init, cx_header = [], cx_packet = None,
     cx_post = kHttpContextPostInit, cx_header_sent = garbage, cx_events = [], cx_fault = False\<rparr>"

definition emit :: "ContextEvent \<Rightarrow> HttpContext \<Rightarrow> HttpContext" where
  "emit e c = c\<lparr>cx_events := cx_events c @ [e]\<rparr>"

subsection \<open>Receiving\<close>

definition context_step :: "splitter \<Rightarrow> HttpContext \<Rightarrow> MsgBuffer \<Rightarrow> HttpContext \<times> MsgBuffer" where
  "context_step split c buf =
     (let (state, p, buf) = parser_Parse split (cx_parser c) buf;
          c = c\<lparr>cx_parser := p\<rparr>
      in (if state = kExpectHttpComplete \<or> state = kExpectChunkComplete then emit (OnRequest (hp_req p) (hp_chunk p)) c
          else if state = kExpectError then emit ConnectionClose c
          else c, buf))"

fun context_Parse :: "nat \<Rightarrow> splitter \<Rightarrow> HttpContext \<Rightarrow> MsgBuffer \<Rightarrow> (HttpContext \<times> MsgBuffer) option" where
  "context_Parse fuel split c buf =
     (if ReadableBytes buf > 1 then
        case fuel of
          0 \<Rightarrow> None
        | Suc n \<Rightarrow> (case context_step split c buf of (c, buf) \<Rightarrow> context_Parse n split c buf)
      else Some (c, buf))"

declare context_Parse.simps [simp del]

definition server_OnRecv :: "nat \<Rightarrow> splitter \<Rightarrow> string \<Rightarrow> HttpContext \<Rightarrow> HttpContext option" where
  "server_OnRecv fuel split data c =
     map_option fst (context_Parse fuel split c (mb_Append data (MsgBuffer_init kBufferDefaultLength)))"

subsection \<open>Sending\<close>

text \<open>The bytes of \<open>CopyOnWriteBuffer(packet->Data(), packet->PacketSize())\<close>.\<close>

definition packet_bytes :: "Packet \<Rightarrow> string option" where
  "packet_bytes p = (if 0 \<le> PacketSize p \<and> PacketSize p \<le> int (length (pk_data p))
     then Some (take (nat (PacketSize p)) (pk_data p)) else None)"

definition send_packet :: "HttpContext \<Rightarrow> HttpContext" where
  "send_packet c = (case Option.bind (cx_packet c) packet_bytes of
     Some s \<Rightarrow> emit (AsyncSend s) c
   | None \<Rightarrow> c\<lparr>cx_fault := True\<rparr>)"

definition PostRequestString :: "string \<Rightarrow> HttpContext \<Rightarrow> bool \<times> HttpContext" where
  "PostRequestString header_and_body c =
     (if cx_post c \<noteq> kHttpContextPostInit then (False, c)
      else (True, emit (AsyncSend header_and_body) (c\<lparr>cx_header := header_and_body, cx_post := kHttpContextPostHttp\<rparr>)))"

definition PostRequestPacket :: "string \<Rightarrow> Packet \<Rightarrow> HttpContext \<Rightarrow> bool \<times> HttpContext" where
  "PostRequestPacket header packet c =
     (if cx_post c \<noteq> kHttpContextPostInit then (False, c)
      else (True, emit (AsyncSend header)
             (c\<lparr>cx_header := header, cx_packet := Some packet, cx_post := kHttpContextPostHttpHeader\<rparr>)))"

definition PostChunkHeader :: "string \<Rightarrow> HttpContext \<Rightarrow> bool \<times> HttpContext" where
  "PostChunkHeader header c =
     (if cx_post c \<noteq> kHttpContextPostInit then (False, c)
      else (True, (emit (AsyncSend header) (c\<lparr>cx_header := header, cx_post := kHttpContextPostInit\<rparr>))\<lparr>cx_header_sent := True\<rparr>))"

definition PostStreamHeader :: "string \<Rightarrow> HttpContext \<Rightarrow> bool \<times> HttpContext" where
  "PostStreamHeader header c =
     (if cx_post c \<noteq> kHttpContextPostInit then (False, c)
      else (True, (emit (AsyncSend header) (c\<lparr>cx_header := header, cx_post := kHttpContextPostInit\<rparr>))\<lparr>cx_header_sent := True\<rparr>))"

definition PostRequest :: "(string_map \<Rightarrow> (string \<times> string) list) \<Rightarrow> HttpRequest \<Rightarrow> HttpContext \<Rightarrow> bool \<times> HttpContext" where
  "PostRequest order r c =
     (True, snd (if rq_is_chunked r then PostChunkHeader (MakeHeaders order r) c
                 else if rq_is_stream r then PostStreamHeader (MakeHeaders order r) c
                 else PostRequestString (AppendToBuffer order r) c))"

text \<open>\<open>sprintf(buf, "%X\r\n", n)\<close> of an unsigned number.\<close>

fun hexadecimal :: "nat \<Rightarrow> string" where
  "hexadecimal n = (if n < 16 then [hex_digit n] else hexadecimal (n div 16) @ [hex_digit (n mod 16)])"

declare hexadecimal.simps [simp del]

definition PostChunk :: "Packet \<Rightarrow> HttpContext \<Rightarrow> HttpContext" where
  "PostChunk chunk c =
     (let c = c\<lparr>cx_packet := Some chunk\<rparr>
      in if \<not> cx_header_sent c then
           (emit (AsyncSend (cx_header c)) (c\<lparr>cx_post := kHttpContextPostChunkHeader\<rparr>))\<lparr>cx_header_sent := True\<rparr>
         else
           let c = c\<lparr>cx_post := kHttpContextPostChunkLen, cx_header := hexadecimal (unat (pk_size chunk)) @ crlf\<rparr>
           in emit (AsyncSend (cx_header c)) c)"

definition CHUNK_EOF :: string where "CHUNK_EOF = ''0'' @ crlf @ crlf"

definition PostEofChunk :: "HttpContext \<Rightarrow> HttpContext" where
  "PostEofChunk c = emit (AsyncSend CHUNK_EOF) (c\<lparr>cx_post := kHttpContextPostChunkEOF\<rparr>)"

definition PostStreamChunk :: "Packet \<Rightarrow> HttpContext \<Rightarrow> bool \<times> HttpContext" where
  "PostStreamChunk packet c =
     (if cx_post c = kHttpContextPostInit then
        let c = c\<lparr>cx_packet := Some packet\<rparr>
        in (True,
            if \<not> cx_header_sent c then
              (emit (AsyncSend (cx_header c)) (c\<lparr>cx_post := kHttpContextPostHttpStreamHeader\<rparr>))\<lparr>cx_header_sent := True\<rparr>
            else send_packet (c\<lparr>cx_post := kHttpContextPostHttpStreamChunk\<rparr>))
      else (False, c))"

fun WriteComplete_in :: "HttpContextPostState \<Rightarrow> HttpContext \<Rightarrow> HttpContext" where
  "WriteComplete_in kHttpContextPostInit c = c"
| "WriteComplete_in kHttpContextPostHttp c = emit OnSent (c\<lparr>cx_post := kHttpContextPostInit\<rparr>)"
| "WriteComplete_in kHttpContextPostHttpHeader c = send_packet (c\<lparr>cx_post := kHttpContextPostHttpBody\<rparr>)"
| "WriteComplete_in kHttpContextPostHttpBody c = emit OnSent (c\<lparr>cx_post := kHttpContextPostInit\<rparr>)"
| "WriteComplete_in kHttpContextPostChunkHeader c = emit OnSentNextChunk (c\<lparr>cx_post := kHttpContextPostChunkLen\<rparr>)"
| "WriteComplete_in kHttpContextPostChunkLen c = send_packet (c\<lparr>cx_post := kHttpContextPostChunkBody\<rparr>)"
| "WriteComplete_in kHttpContextPostChunkBody c = emit OnSentNextChunk (c\<lparr>cx_post := kHttpContextPostInit\<rparr>)"
| "WriteComplete_in kHttpContextPostChunkEOF c = emit OnSent (c\<lparr>cx_post := kHttpContextPostInit\<rparr>)"
| "WriteComplete_in kHttpContextPostHttpStreamHeader c = emit OnSentNextChunk (c\<lparr>cx_post := kHttpContextPostInit\<rparr>)"
| "WriteComplete_in kHttpContextPostHttpStreamChunk c = emit OnSentNextChunk (c\<lparr>cx_post := kHttpContextPostInit\<rparr>)"

definition WriteComplete :: "HttpContext \<Rightarrow> HttpContext" where
  "WriteComplete c = WriteComplete_in (cx_post c) c"

end
