(* ===== verification/Http_Message.thy ===== *)
theory Http_Message
  imports Http_Context "HOL-Library.List_Lexorder"
begin

text \<open>
  Printing and parsing HTTP messages: the fields and lines that \<open>rtc::split\<close> gives back, trimmed and encoded
  strings, decimal numbers, the header a request or response is printed to and what the parser makes of it,
  and the delivery of whole messages through \<open>HttpServer::OnRecv\<close>.
\<close>

subsection \<open>Fields\<close>

fun split_fields :: splitter where
  "split_fields [] d = [[]]"
| "split_fields (c # s) d =
     (if c = d then [] # split_fields s d else (c # hd (split_fields s d)) # tl (split_fields s d))"

lemma split_fields_not_Nil [simp]: "split_fields s d \<noteq> []"
  by (cases s) simp_all

lemma join_fields_Cons: "fs \<noteq> [] \<Longrightarrow> join_fields d (f # fs) = f @ d # join_fields d fs"
  by (cases fs) simp_all

lemma split_fields_ok: "splits_fields split_fields"
proof -
  have "(\<forall>f \<in> set (split_fields s d). d \<notin> set f) \<and> join_fields d (split_fields s d) = s" for s d
  proof (induction s)
    case (Cons c s)
    obtain f fs where fs: "split_fields s d = f # fs"
      by (cases "split_fields s d") auto
    show ?case using Cons.IH unfolding fs by (cases fs) (auto simp: fs join_fields_Cons)
  qed simp
  then show ?thesis by (simp add: splits_fields_def)
qed

lemma cut_at_append: "d \<notin> set k \<Longrightarrow> cut_at d (k @ d # v) = Some (k, v)"
  by (induction k) (auto simp: cut_at_def)

lemma cut_at_None: "d \<notin> set k \<Longrightarrow> cut_at d k = None"
  by (simp add: cut_at_def)

lemma join_fields_inject:
  assumes "join_fields d fs = join_fields d gs" and "fs \<noteq> []" and "gs \<noteq> []"
    and "\<forall>f \<in> set fs. d \<notin> set f" and "\<forall>g \<in> set gs. d \<notin> set g"
  shows "fs = gs"
  using assms
proof (induction fs arbitrary: gs)
  case (Cons f fs)
  then obtain g gs' where gs: "gs = g # gs'" by (cases gs) auto
  have d: "d \<notin> set f" "d \<notin> set g" using Cons.prems gs by auto
  have eq: "join_fields d (f # fs) = join_fields d (g # gs')" using Cons.prems(1) gs by simp
  show ?case
  proof (cases "fs = []"; cases "gs' = []")
    assume fs: "fs \<noteq> []" and gs': "gs' \<noteq> []"
    then have e: "f @ d # join_fields d fs = g @ d # join_fields d gs'"
      using eq by (simp add: join_fields_Cons)
    have "Some (f, join_fields d fs) = cut_at d (f @ d # join_fields d fs)"
      by (simp only: cut_at_append [OF d(1)])
    also have "\<dots> = Some (g, join_fields d gs')"
      by (simp only: e cut_at_append [OF d(2)])
    finally have "f = g" "join_fields d fs = join_fields d gs'" by simp_all
    with Cons.IH [of gs'] Cons.prems fs gs' gs show ?thesis by simp
  qed (use eq d gs in \<open>auto simp: join_fields_Cons\<close>)
qed simp

lemma split_join:
  assumes "splits_fields split" and "fs \<noteq> []" and "\<forall>f \<in> set fs. d \<notin> set f"
  shows "split (join_fields d fs) d = fs"
  using assms join_fields_inject [of d "split (join_fields d fs) d" fs] by (simp add: splits_fields_def)

lemma split_Cons:
  assumes "splits_fields split" and "d \<notin> set f"
  shows "split (f @ d # s) d = f # split s d"
proof -
  have s: "join_fields d (split s d) = s" "split s d \<noteq> []" "\<forall>f \<in> set (split s d). d \<notin> set f"
    using assms(1) by (auto simp: splits_fields_def)
  then have "split (join_fields d (f # split s d)) d = f # split s d"
    by (intro split_join assms) (use assms(2) in auto)
  then show ?thesis using s by (simp add: join_fields_Cons)
qed

lemma split_single: "splits_fields split \<Longrightarrow> d \<notin> set f \<Longrightarrow> split f d = [f]"
  using split_join [of split "[f]" d] by simp

subsection \<open>Encoded URLs and trimmed strings\<close>

lemma UrlEncode_append: "UrlEncode (s @ t) = UrlEncode s @ UrlEncode t"
  by (induction s) simp_all

lemma hex_digit_class: "d < 16 \<Longrightarrow> isxdigit (hex_digit d)"
  using hex_digit_below by blast

lemma CharToHex_xdigits: "list_all isxdigit (CharToHex c)"
  using of_char_256 [of c] by (simp add: CharToHex_def hex_digit_class less_mult_imp_div_less)

lemma UrlEncode_fresh:
  assumes "\<not> isxdigit d" and "d \<noteq> CHR ''+''" and "d \<noteq> CHR ''%''" and "unescaped d \<Longrightarrow> d \<notin> set s"
  shows "d \<notin> set (UrlEncode s)"
  using assms(4)
proof (induction s)
  case (Cons c s)
  have "d \<notin> set (CharToHex c)"
    using CharToHex_xdigits [of c] assms(1) by (auto simp: list_all_iff)
  with Cons assms show ?case by auto
qed simp

lemma UrlEncode_unescaped: "list_all unescaped s \<Longrightarrow> UrlEncode s = s"
proof (induction s)
  case (Cons c s)
  have "\<not> unescaped CHR '' ''" by code_simp
  with Cons show ?case by auto
qed simp

lemma unescaped_not_space: "unescaped c \<Longrightarrow> \<not> isspace c"
  by (auto simp: unescaped_def isspace_def less_eq_char_def)

lemma visible_not_space: "visible c \<Longrightarrow> \<not> isspace c"
  by (auto simp: visible_def isspace_def less_char_def)

lemma rtrim_append: "list_all isspace w \<Longrightarrow> rtrim (s @ w) = rtrim s"
  by (induction w rule: rev_induct) (auto simp: rtrim_def)

lemma rtrim_keep: "v = [] \<or> \<not> isspace (last v) \<Longrightarrow> rtrim v = v"
  by (cases v rule: rev_cases) (auto simp: rtrim_def)

lemma ltrim_prefix: "list_all isspace w \<Longrightarrow> v = [] \<or> \<not> isspace (hd v) \<Longrightarrow> ltrim (w @ v) = v"
  by (induction w) (auto simp: ltrim_def hd_conv_nth dropWhile_eq_self_iff)

lemma Trim_edges:
  assumes "Trim v = v" and "v \<noteq> []"
  shows "\<not> isspace (hd v)" and "\<not> isspace (last v)"
proof -
  have v: "dropWhile isspace (rtrim v) = v"
    using assms(1) by (simp add: Trim_def ltrim_def)
  then show "\<not> isspace (hd v)"
    using hd_dropWhile [of isspace "rtrim v"] assms(2) by simp
  have "rtrim v = takeWhile isspace (rtrim v) @ v"
    using takeWhile_dropWhile_id [of isspace "rtrim v"] by (simp only: v)
  then have "last v = last (rtrim v)" "rtrim v \<noteq> []"
    using assms(2) by (metis last_appendR, metis append_is_Nil_conv)
  then show "\<not> isspace (last v)"
    using hd_dropWhile [of isspace "rev v"] by (simp add: rtrim_def last_rev)
qed

lemma Trim_surround:
  assumes "Trim v = v" and "list_all isspace w1" and "list_all isspace w2"
  shows "Trim (w1 @ v @ w2) = v"
proof (cases "v = []")
  case True
  have "rtrim ([] @ w1 @ w2) = []"
    using rtrim_append [of "w1 @ w2" "[]"] assms(2,3) by (simp add: rtrim_def)
  with True show ?thesis by (simp add: Trim_def ltrim_def)
next
  case False
  have "rtrim (w1 @ v @ w2) = w1 @ v"
    using rtrim_append [OF assms(3), of "w1 @ v"] Trim_edges(2) [OF assms(1) False] False
    by (simp add: rtrim_keep)
  then show ?thesis
    using ltrim_prefix [OF assms(2)] Trim_edges(1) [OF assms(1) False] by (simp add: Trim_def)
qed

lemma Trim_none: "list_all (\<lambda>c. \<not> isspace c) s \<Longrightarrow> Trim s = s"
  by (cases "s = []") (auto simp: Trim_def list_all_iff rtrim_keep ltrim_prefix [of "[]", simplified])

subsection \<open>The lines of a header\<close>

definition CR :: char where "CR = CHR 0x0D"
definition LF :: char where "LF = CHR 0x0A"

fun join_lines :: "string list \<Rightarrow> string" where
  "join_lines [] = []"
| "join_lines [l] = l"
| "join_lines (l # m # ls) = l @ crlf @ join_lines (m # ls)"

lemma join_lines_Cons: "ls \<noteq> [] \<Longrightarrow> join_lines (l # ls) = (l @ [CR]) @ LF # join_lines ls"
  by (cases ls) (simp_all add: crlf_def CR_def LF_def)

lemma concat_lines: "ls \<noteq> [] \<Longrightarrow> concat (map (\<lambda>l. l @ crlf) ls) = join_lines ls @ crlf"
  by (induction ls rule: join_lines.induct) simp_all

lemma search_skip: "pat \<noteq> [] \<Longrightarrow> hd pat \<notin> set a \<Longrightarrow> search pat (a @ s) = map_option (\<lambda>n. length a + n) (search pat s)"
proof (induction a)
  case (Cons c a)
  then have "take (length pat) (c # a @ s) \<noteq> pat" by (cases pat) auto
  with Cons show ?case by (simp add: option.map_comp comp_def)
qed (simp add: option.map_ident cong: option.map_cong)

lemma search_header_end:
  assumes "ls \<noteq> []" and "\<forall>l \<in> set ls. l \<noteq> [] \<and> CR \<notin> set l"
  shows "search CRLFCRLF (join_lines ls @ CRLFCRLF @ rest) = Some (length (join_lines ls))"
  using assms
proof (induction ls rule: join_lines.induct)
  case (2 l)
  then show ?case
    by (simp add: search_skip CRLFCRLF_def CR_def)
next
  case (3 l m ls)
  obtain c t where m: "join_lines (m # ls) = c # t" "c \<noteq> CR"
    using "3.prems" by (cases m; cases ls) auto
  have "search CRLFCRLF (crlf @ join_lines (m # ls) @ CRLFCRLF @ rest)
      = map_option (\<lambda>n. 2 + n) (search CRLFCRLF (join_lines (m # ls) @ CRLFCRLF @ rest))"
    using m(2) unfolding m(1) 
    by (simp add: crlf_def CRLFCRLF_def CR_def option.map_comp comp_def)
  then show ?case
    using 3 by (simp add: search_skip CRLFCRLF_def CR_def crlf_def)
qed simp

lemma split_lines:
  assumes "splits_fields split" and "ls \<noteq> []" and "\<forall>l \<in> set ls. LF \<notin> set l"
  shows "split (join_lines ls) LF = map (\<lambda>l. l @ [CR]) (butlast ls) @ [last ls]"
  using assms(2,3)
proof (induction ls)
  case (Cons l ls)
  show ?case
  proof (cases "ls = []")
    case True
    then show ?thesis using Cons.prems split_single [OF assms(1)] by simp
  next
    case False
    have "LF \<notin> set (l @ [CR])" using Cons.prems by (simp add: CR_def LF_def)
    with False Cons show ?thesis by (simp add: join_lines_Cons split_Cons [OF assms(1)] del: append.simps append_assoc)
  qed
qed simp

subsection \<open>Decimal numbers\<close>

lemma decimal_digit: "d < 10 \<Longrightarrow> is_digit 10 (char_of (48 + d)) \<and> hex_value (char_of (48 + d)) = d
    \<and> \<not> isspace (char_of (48 + d)) \<and> (char_of (48 + d) :: char) \<notin> {CHR ''-'', CHR ''+'', CHR '' '', CHR '':''}"
proof -
  have all: "\<forall>d\<in>set [0..<10]. is_digit 10 (char_of (48 + d)) \<and> hex_value (char_of (48 + d)) = d
    \<and> \<not> isspace (char_of (48 + d)) \<and> (char_of (48 + d) :: char) \<notin> {CHR ''-'', CHR ''+'', CHR '' '', CHR '':''}"
    by code_simp
  assume "d < 10"
  then show ?thesis using all by simp
qed

lemma decimal_ok:
  "decimal n \<noteq> [] \<and> list_all (\<lambda>c. is_digit 10 c \<and> \<not> isspace c \<and> c \<notin> {CHR ''-'', CHR ''+'', CHR '' '', CHR '':''}) (decimal n)
   \<and> digits_value 10 (decimal n) = n"
proof (induction n rule: decimal.induct)
  case (1 n)
  have d: "n mod 10 < 10" by simp
  show ?case
  proof (cases "n < 10")
    case True
    then show ?thesis using decimal_digit [of n]
      by (subst (1 2 3) decimal.simps) (simp add: digits_value_def)
  next
    case False
    then show ?thesis using 1 decimal_digit [OF d]
      by (subst (1 2 3) decimal.simps) (simp add: digits_value_def)
  qed
qed

lemma number_prefix_decimal: "number_prefix 10 (decimal n) = Some (False, n)"
proof -
  define t where "t = decimal n"
  have t: "t \<noteq> []" "list_all (\<lambda>c. is_digit 10 c \<and> \<not> isspace c \<and> c \<notin> {CHR ''-'', CHR ''+'', CHR '' '', CHR '':''}) t"
    "digits_value 10 t = n"
    using decimal_ok [of n] by (simp_all add: t_def)
  have tw: "takeWhile (is_digit 10) t = t"
    using t(2) by (auto simp: list_all_iff)
  have "dropWhile isspace t = t" "hd t \<noteq> CHR ''-''" "hd t \<noteq> CHR ''+''"
    using t(1,2) by (auto simp: dropWhile_eq_self_iff list_all_iff)
  then show ?thesis
    using t(1,3) by (simp add: number_prefix_def Let_def t_def [symmetric] tw del: takeWhile_eq_all_conv)
qed

lemma stoull_decimal: "n < 2 ^ 64 \<Longrightarrow> stoull (decimal n) = Some n"
  by (simp add: stoull_def number_prefix_decimal)

lemma atoi_decimal: "n < 2 ^ 31 \<Longrightarrow> atoi (decimal n) = int n"
  by (simp add: atoi_def strtol_def number_prefix_decimal to_int32_id)

subsection \<open>Printing and parsing the header\<close>

type_synonym walk = "string_map \<Rightarrow> (string \<times> string) list"

definition header_ok :: "string \<Rightarrow> string \<Rightarrow> bool" where
  "header_ok k v \<longleftrightarrow> map tolower k = k \<and> Trim k = k \<and> Trim v = v \<and> CHR '':'' \<notin> set k
     \<and> CR \<notin> set (k @ v) \<and> LF \<notin> set (k @ v)"

definition parameter_ok :: "string \<Rightarrow> string \<Rightarrow> bool" where
  "parameter_ok k v \<longleftrightarrow> list_all unescaped (k @ v) \<and> CHR ''='' \<notin> set k \<and> CHR ''&'' \<notin> set (k @ v)"

definition printable :: "HttpRequest \<Rightarrow> bool" where
  "printable r \<longleftrightarrow> finite (dom (rq_headers r)) \<and> (\<forall>k v. rq_headers r k = Some v \<longrightarrow> header_ok k v)
     \<and> finite (dom (rq_parameters r)) \<and> (\<forall>k v. rq_parameters r k = Some v \<longrightarrow> parameter_ok k v)
     \<and> rq_version r \<noteq> Version_kUnknown \<and> \<not> rq_is_stream r \<and> \<not> rq_is_chunked r
     \<and> (if rq_is_request r
        then rq_method r \<notin> {kPatch, kInvalid} \<and> rq_path r \<noteq> [] \<and> CHR ''?'' \<notin> set (rq_path r) \<and> rq_code r = 0
        else rq_method r = kInvalid \<and> rq_path r = [] \<and> rq_parameters r = Map.empty \<and> unat (rq_code r) < 2 ^ 31)"

definition query_of :: "walk \<Rightarrow> HttpRequest \<Rightarrow> string" where
  "query_of order r = (if rq_parameters r = Map.empty then []
     else join_fields CHR ''&'' (map (\<lambda>(k, v). k @ CHR ''='' # v) (order (rq_parameters r))))"

definition received :: "walk \<Rightarrow> HttpRequest \<Rightarrow> HttpRequest" where
  "received order r = r\<lparr>rq_query := query_of order r, rq_body := []\<rparr>"

definition token_ok :: "string \<Rightarrow> bool" where
  "token_ok s \<longleftrightarrow> list_all (\<lambda>c. c \<notin> {CHR '' '', CHR '':'', CR, LF}) s"

lemma version_name_ok:
  assumes "v \<noteq> Version_kUnknown"
  shows "version_name v = take 8 (version_name v) @ '' ''" and "token_ok (take 8 (version_name v))"
    and "SetVersionString (take 8 (version_name v)) r = r\<lparr>rq_version := v\<rparr>"
    and "take 4 (map tolower (take 8 (version_name v))) = ''http''"
proof -
  have "list_all (\<lambda>v. version_name v = take 8 (version_name v) @ '' '' \<and> token_ok (take 8 (version_name v))
      \<and> length (take 8 (version_name v)) = 8 \<and> take 6 (take 8 (version_name v)) \<noteq> ''HTTP/1.''
      \<and> take 8 (version_name v) ! 7 = (if v = kHttp11 then CHR ''1'' else CHR ''0'')
      \<and> take 4 (map tolower (take 8 (version_name v))) = ''http'') [kHttp10, kHttp11]"
    by code_simp
  moreover have "v \<in> {kHttp10, kHttp11}" using assms by (cases v) auto
  ultimately show "version_name v = take 8 (version_name v) @ '' ''" "token_ok (take 8 (version_name v))"
    "SetVersionString (take 8 (version_name v)) r = r\<lparr>rq_version := v\<rparr>"
    "take 4 (map tolower (take 8 (version_name v))) = ''http''"
    by (auto simp: SetVersionString_def)
qed

lemma method_name_ok:
  assumes "m \<notin> {kPatch, kInvalid}"
  shows "ParseMethod (method_name m) = m" and "token_ok (method_name m)"
    and "take 4 (map tolower (method_name m)) \<noteq> ''http''" and "method_name m \<noteq> []"
proof -
  have "list_all (\<lambda>m. ParseMethod (method_name m) = m \<and> token_ok (method_name m)
      \<and> take 4 (map tolower (method_name m)) \<noteq> ''http'' \<and> method_name m \<noteq> [])
      [kGet, kPost, kHead, kPut, kDelete, kOptions]"
    by code_simp
  moreover have "m \<in> {kGet, kPost, kHead, kPut, kDelete, kOptions}" using assms by (cases m) auto
  ultimately show "ParseMethod (method_name m) = m" "token_ok (method_name m)"
    "take 4 (map tolower (method_name m)) \<noteq> ''http''" "method_name m \<noteq> []"
    by (auto simp only: list.pred_inject insert_iff empty_iff simp_thms)
qed

lemma token_ok_split:
  assumes "splits_fields split" and "token_ok a"
  shows "split (a @ CHR '' '' # s) CHR '' '' = a # split s CHR '' ''"
  using assms by (intro split_Cons) (auto simp: token_ok_def list_all_iff)

lemma UrlEncode_token: "token_ok (UrlEncode s)"
proof -
  have "\<not> isxdigit CHR '':''" "\<not> unescaped CHR '':''" by code_simp+
  then have "CHR '':'' \<notin> set (UrlEncode s)" by (intro UrlEncode_fresh) auto
  moreover have "c \<in> set (UrlEncode s) \<Longrightarrow> \<not> isspace c" for c
    using UrlEncode_visible [of s] visible_not_space by (auto simp: list_all_iff)
  ultimately show ?thesis by (auto simp: token_ok_def list_all_iff isspace_def CR_def LF_def)
qed

definition put_entry :: "string \<times> string \<Rightarrow> string_map \<Rightarrow> string_map" where
  "put_entry kv m = m(fst kv \<mapsto> snd kv)"

lemma fold_put_entry: "distinct (map fst kvs) \<Longrightarrow> fold put_entry kvs m = m ++ map_of kvs"
proof (induction kvs arbitrary: m)
  case (Cons kv kvs)
  have k: "map_of kvs (fst kv) = None" using Cons.prems by (simp add: map_of_eq_None_iff)
  have "put_entry kv m ++ map_of kvs = m ++ map_of (kv # kvs)"
    using k by (auto simp: put_entry_def map_add_def fun_eq_iff split: option.splits)
  moreover have "fold put_entry (kv # kvs) m = put_entry kv m ++ map_of kvs"
    using Cons by simp
  ultimately show ?case by (rule trans [rotated])
qed simp

lemma query_unescaped:
  "\<forall>(k, v) \<in> set kvs. parameter_ok k v \<Longrightarrow> list_all unescaped (join_fields CHR ''&'' (map (\<lambda>(k, v). k @ CHR ''='' # v) kvs))"
proof -
  have sep: "unescaped CHR ''=''" "unescaped CHR ''&''" by code_simp+
  have join: "\<forall>f \<in> set fs. list_all unescaped f \<Longrightarrow> list_all unescaped (join_fields CHR ''&'' fs)" for fs
    by (induction "CHR ''&''" fs rule: join_fields.induct) (simp_all add: sep)
  show "\<forall>(k, v) \<in> set kvs. parameter_ok k v \<Longrightarrow> ?thesis"
    by (rule join) (auto simp: parameter_ok_def sep)
qed

text \<open>A query made of plain parameters gives the parameters back.\<close>

lemma SetQuery_plain:
  assumes "splits_fields split" and "distinct (map fst kvs)" and "\<forall>(k, v) \<in> set kvs. parameter_ok k v" and "kvs \<noteq> []"
  defines "q \<equiv> join_fields CHR ''&'' (map (\<lambda>(k, v). k @ CHR ''='' # v) kvs)"
  shows "SetQuery split q r = r\<lparr>rq_query := q, rq_parameters := rq_parameters r ++ map_of kvs\<rparr>"
proof -
  have fields: "split q CHR ''&'' = map (\<lambda>(k, v). k @ CHR ''='' # v) kvs"
    unfolding q_def by (intro split_join assms(1)) (use assms(3,4) in \<open>auto simp: parameter_ok_def\<close>)
  let ?f = "\<lambda>l r. case cut_at CHR ''='' l of Some (k, v) \<Rightarrow> SetParameter (Trim k) (Trim v) r | None \<Rightarrow> r"
  have run: "fold ?f (map (\<lambda>(k, v). k @ CHR ''='' # v) kvs) r
      = r\<lparr>rq_parameters := fold put_entry kvs (rq_parameters r)\<rparr>" for r
    using assms(3)
  proof (induction kvs arbitrary: r)
    case (Cons kv kvs)
    obtain k v where kv: "kv = (k, v)" by force
    have ok: "parameter_ok k v" using Cons.prems kv by simp
    then have "Trim k = k" "Trim v = v"
      by (auto intro!: Trim_none simp: parameter_ok_def list_all_iff unescaped_not_space)
    moreover have "cut_at CHR ''='' (k @ CHR ''='' # v) = Some (k, v)"
      using ok by (intro cut_at_append) (simp add: parameter_ok_def)
    moreover have "SetParameter k v r = r\<lparr>rq_parameters := put_entry kv (rq_parameters r)\<rparr>"
      by (simp add: SetParameter_def put_entry_def kv)
    ultimately show ?case using Cons kv by simp
  qed simp
  show ?thesis
    by (simp add: SetQuery_def ParseParameters_def fields run fold_put_entry assms(2))
qed

lemma walks_entries:
  assumes "walks order" and "finite (dom m)"
  shows "distinct (map fst (order m))" and "map_of (order m) = m" and "(k, v) \<in> set (order m) \<longleftrightarrow> m k = Some v"
proof -
  show d: "distinct (map fst (order m))" and m: "map_of (order m) = m"
    using assms by (auto simp: walks_def)
  show "(k, v) \<in> set (order m) \<longleftrightarrow> m k = Some v"
    using map_of_eq_Some_iff [OF d, of k v] m by simp
qed

definition first_line :: "walk \<Rightarrow> HttpRequest \<Rightarrow> string" where
  "first_line order r = (if rq_is_request r
     then method_name (rq_method r) @ '' '' @ UrlEncode (request_target order r) @ '' '' @ version_name (rq_version r)
     else version_name (rq_version r) @ decimal (unat (rq_code r)) @ '' '' @ ParseStatusMessage (sint (rq_code r)))"

definition header_lines :: "walk \<Rightarrow> HttpRequest \<Rightarrow> string list" where
  "header_lines order r = first_line order r # map (\<lambda>(k, v). k @ '': '' @ v) (order (rq_headers r))"

lemma MakeHeaders_lines: "MakeHeaders order r = join_lines (header_lines order r) @ CRLFCRLF"
proof -
  have "concat (map (\<lambda>(k, v). k @ '': '' @ v @ crlf) kvs) = concat (map (\<lambda>l. l @ crlf) (map (\<lambda>(k, v). k @ '': '' @ v) kvs))" for kvs
    by (induction kvs) auto
  then have "MakeHeaders order r = concat (map (\<lambda>l. l @ crlf) (header_lines order r)) @ crlf"
    by (simp add: MakeHeaders_def header_lines_def first_line_def AppendRequestFirstLine_def AppendResponseFirstLine_def)
  also have "\<dots> = join_lines (header_lines order r) @ CRLFCRLF"
    using concat_lines [of "header_lines order r"] by (simp add: header_lines_def CRLFCRLF_def crlf_def)
  finally show ?thesis .
qed

lemma request_line:
  assumes split: "splits_fields split" and "walks order" and r: "printable r" "rq_is_request r" and "token_ok t \<or> t = [CR]"
  shows "ProcessMethodLine split (first_line order r @ t) p
    = p\<lparr>hp_is_request := True, hp_req := Some ((received order r)\<lparr>rq_headers := Map.empty\<rparr>)\<rparr>"
proof -
  let ?m = "method_name (rq_method r)" and ?u = "UrlEncode (request_target order r)" and ?v = "take 8 (version_name (rq_version r))"
  have m: "rq_method r \<notin> {kPatch, kInvalid}" "rq_path r \<noteq> []" "CHR ''?'' \<notin> set (rq_path r)" "rq_code r = 0"
    and v: "rq_version r \<noteq> Version_kUnknown" and fl: "\<not> rq_is_stream r" "\<not> rq_is_chunked r"
    using r by (auto simp: printable_def)
  have line: "first_line order r @ t = ?m @ CHR '' '' # ?u @ CHR '' '' # ?v @ CHR '' '' # t"
    using r(2) version_name_ok(1) [OF v] by (simp add: first_line_def)
  have fields: "split (first_line order r @ t) CHR '' '' = [?m, ?u, ?v] @ split t CHR '' ''"
    unfolding line
    using token_ok_split [OF split] method_name_ok(2) [OF m(1)] UrlEncode_token version_name_ok(2) [OF v] by simp
  have q: "\<not> isxdigit CHR ''?''" "UrlEncode ''?'' = ''?''" by code_simp+
  have path: "CHR ''?'' \<notin> set (UrlEncode (rq_path r))"
    using m(3) q(1) by (intro UrlEncode_fresh) auto
  have decoded: "SetPath (UrlEncode (rq_path r)) x = x\<lparr>rq_path := rq_path r\<rparr>" for x
    using UrlDecode_Encode [of "rq_path r"] UrlDecode_not_needed [of "UrlEncode (rq_path r)"] by (auto simp: SetPath_def)
  let ?r = "SetMethodString ?m (HttpRequest_init True)"
  have target: "(case cut_at CHR ''?'' ?u of Some (a, q) \<Rightarrow> SetQuery split q (SetPath a ?r) | None \<Rightarrow> SetPath ?u ?r)
      = ?r\<lparr>rq_path := rq_path r, rq_query := query_of order r, rq_parameters := rq_parameters r\<rparr>"
  proof (cases "rq_parameters r = Map.empty")
    case True
    then show ?thesis
      using cut_at_None [OF path] m(2)
      by (simp add: request_target_def query_of_def decoded) (simp add: SetMethodString_def HttpRequest_init_def)
  next
    case False
    let ?kvs = "order (rq_parameters r)"
    have fin: "finite (dom (rq_parameters r))" and ok: "\<forall>(k, v) \<in> set ?kvs. parameter_ok k v"
      using r walks_entries(3) [OF assms(2)] by (auto simp: printable_def)
    have plain: "list_all unescaped (query_of order r)"
      using query_unescaped [OF ok] False by (simp add: query_of_def)
    have "?u = UrlEncode (rq_path r) @ CHR ''?'' # query_of order r"
      using m(2) False q(2) UrlEncode_unescaped [OF plain]
      by (simp add: request_target_def query_of_def UrlEncode_append)
    then have "cut_at CHR ''?'' ?u = Some (UrlEncode (rq_path r), query_of order r)"
      using cut_at_append [OF path] by simp
    moreover have "?kvs \<noteq> []"
      using walks_entries(2) [OF assms(2) fin] False by auto
    then have "SetQuery split (query_of order r) x = x\<lparr>rq_query := query_of order r, rq_parameters := rq_parameters x ++ rq_parameters r\<rparr>" for x
      using SetQuery_plain [OF split walks_entries(1) [OF assms(2) fin] ok, of x] walks_entries(2) [OF assms(2) fin] False
      by (auto simp: query_of_def)
    ultimately show ?thesis
      by (simp add: decoded) (simp add: SetMethodString_def HttpRequest_init_def)
  qed
  show ?thesis
    using method_name_ok(1,3) [OF m(1)]
    by (simp add: ProcessMethodLine_def fields Let_def at_def target version_name_ok(3) [OF v])
      (simp add: SetMethodString_def HttpRequest_init_def received_def r fl m)
qed

lemma status_message_ok: "list_all (\<lambda>c. c \<notin> {CHR '':'', CR, LF}) (ParseStatusMessage code)"
proof -
  let ?ok = "list_all (\<lambda>c. c \<notin> {CHR '':'', CR, LF})"
  have all: "list_all (\<lambda>(n, m). ?ok m) status_messages" and "?ok ''unknown''" by code_simp+
  then show ?thesis
    by (auto simp: ParseStatusMessage_def list_all_iff dest!: map_of_SomeD split: option.splits)
qed

lemma decimal_token: "token_ok (decimal n)"
  using decimal_ok [of n] by (auto simp: token_ok_def list_all_iff isspace_def CR_def LF_def)

lemma response_line:
  assumes split: "splits_fields split" and r: "printable r" "\<not> rq_is_request r"
  shows "ProcessMethodLine split (first_line order r @ t) p
    = p\<lparr>hp_is_request := False, hp_req := Some ((received order r)\<lparr>rq_headers := Map.empty\<rparr>)\<rparr>"
proof -
  let ?v = "take 8 (version_name (rq_version r))" and ?c = "decimal (unat (rq_code r))"
  have m: "rq_method r = kInvalid" "rq_path r = []" "rq_parameters r = Map.empty" "unat (rq_code r) < 2 ^ 31"
    and v: "rq_version r \<noteq> Version_kUnknown" and fl: "\<not> rq_is_stream r" "\<not> rq_is_chunked r"
    using r by (auto simp: printable_def)
  have line: "first_line order r @ t = ?v @ CHR '' '' # ?c @ CHR '' '' # ParseStatusMessage (sint (rq_code r)) @ t"
    using r(2) version_name_ok(1) [OF v] by (simp add: first_line_def)
  have fields: "split (first_line order r @ t) CHR '' '' = [?v, ?c] @ split (ParseStatusMessage (sint (rq_code r)) @ t) CHR '' ''"
    unfolding line
    using token_ok_split [OF split] version_name_ok(2) [OF v] decimal_token by simp
  show ?thesis
    by (simp add: ProcessMethodLine_def fields Let_def at_def version_name_ok(3,4) [OF v] atoi_decimal [OF m(4)])
      (simp add: SetStatusCode_def HttpRequest_init_def received_def query_of_def r fl m)
qed

lemma first_line_ok:
  assumes "printable r"
  shows "first_line order r \<noteq> []" and "list_all (\<lambda>c. c \<notin> {CHR '':'', CR, LF}) (first_line order r)"
proof -
  have v: "rq_version r \<noteq> Version_kUnknown" using assms by (simp add: printable_def)
  have tok: "token_ok s \<Longrightarrow> list_all (\<lambda>c. c \<notin> {CHR '':'', CR, LF}) s" for s
    by (simp add: token_ok_def list_all_iff)
  have ver: "list_all (\<lambda>c. c \<notin> {CHR '':'', CR, LF}) (version_name (rq_version r))"
    by (subst version_name_ok(1) [OF v]) (use tok [OF version_name_ok(2) [OF v]] in \<open>simp add: CR_def LF_def\<close>)
  have meth: "rq_is_request r \<Longrightarrow> list_all (\<lambda>c. c \<notin> {CHR '':'', CR, LF}) (method_name (rq_method r))"
    using assms tok [OF method_name_ok(2)] by (simp add: printable_def)
  show "list_all (\<lambda>c. c \<notin> {CHR '':'', CR, LF}) (first_line order r)"
    using ver meth tok [OF UrlEncode_token] tok [OF decimal_token] status_message_ok
    by (simp add: first_line_def CR_def LF_def)
  show "first_line order r \<noteq> []"
    using version_name_ok(1) [OF v] by (auto simp: first_line_def)
qed

lemma header_line_ok:
  assumes "header_ok k v" and "t \<in> {[], [CR]}"
  shows "header_line ((k @ '': '' @ v) @ t) r = r\<lparr>rq_headers := put_entry (k, v) (rq_headers r)\<rparr>"
proof -
  have k: "map tolower k = k" "Trim k = k" "Trim v = v" "CHR '':'' \<notin> set k"
    using assms(1) by (auto simp: header_ok_def)
  have "list_all isspace t" using assms(2) by (auto simp: isspace_def CR_def)
  then have "Trim ('' '' @ v @ t) = v"
    using k(3) by (intro Trim_surround) (simp_all add: isspace_def)
  then show ?thesis
    using cut_at_append [OF k(4), of "'' '' @ v @ t"] k by (simp add: header_line_def AddHeader_def put_entry_def)
qed

lemma header_lines_fold:
  assumes "\<forall>(k, v) \<in> set kvs. header_ok k v" and "\<forall>t \<in> set ts. t \<in> {[], [CR]}" and "length ts = length kvs"
  shows "fold header_line (map2 (@) (map (\<lambda>(k, v). k @ '': '' @ v) kvs) ts) r
    = r\<lparr>rq_headers := fold put_entry kvs (rq_headers r)\<rparr>"
  using assms
proof (induction kvs arbitrary: ts r)
  case (Cons kv kvs)
  obtain k v t ts' where kv: "kv = (k, v)" "ts = t # ts'" using Cons.prems by (cases kv; cases ts) auto
  have "header_line ((k @ '': '' @ v) @ t) r = r\<lparr>rq_headers := put_entry kv (rq_headers r)\<rparr>"
    unfolding kv(1) using Cons.prems kv by (intro header_line_ok) auto
  with Cons kv show ?case by simp
qed simp

lemma header_lines_ok:
  assumes "walks order" and "printable r" and "l \<in> set (header_lines order r)"
  shows "l \<noteq> []" and "CR \<notin> set l" and "LF \<notin> set l"
proof -
  have ne: "CR \<noteq> CHR '':''" "CR \<noteq> CHR '' ''" "LF \<noteq> CHR '':''" "LF \<noteq> CHR '' ''" by (simp_all add: CR_def LF_def)
  consider (first) "l = first_line order r"
    | (entry) k v where "l = k @ '': '' @ v" "(k, v) \<in> set (order (rq_headers r))"
    using assms(3) by (auto simp: header_lines_def)
  then have "l \<noteq> [] \<and> CR \<notin> set l \<and> LF \<notin> set l"
  proof cases
    case first
    then show ?thesis using first_line_ok [OF assms(2), of order] by (auto simp: list_all_iff)
  next
    case entry
    then have "header_ok k v"
      using assms(2) walks_entries(3) [OF assms(1)] by (auto simp: printable_def)
    with entry(1) ne show ?thesis by (simp add: header_ok_def)
  qed
  then show "l \<noteq> []" "CR \<notin> set l" "LF \<notin> set l" by simp_all
qed

lemma butlast_CR: "ls \<noteq> [] \<Longrightarrow>
    map (\<lambda>l. l @ [CR]) (butlast ls) @ [last ls] = map2 (@) ls (replicate (length ls - 1) [CR] @ [[]])"
proof (induction ls)
  case (Cons l ls)
  then show ?case by (cases ls) simp_all
qed simp

lemma split_header:
  assumes split: "splits_fields split" and order: "walks order" and r: "printable r"
  obtains t ts where "split (join_lines (header_lines order r)) LF
      = (first_line order r @ t) # map2 (@) (map (\<lambda>(k, v). k @ '': '' @ v) (order (rq_headers r))) ts"
    and "t \<in> {[], [CR]}" and "\<forall>t \<in> set ts. t \<in> {[], [CR]}" and "length ts = length (order (rq_headers r))"
proof -
  let ?n = "length (order (rq_headers r))"
  obtain t ts where ts: "replicate ?n [CR] @ [[]] = t # ts" by (cases "replicate ?n [CR] @ [[]]") auto
  have "split (join_lines (header_lines order r)) LF
      = map (\<lambda>l. l @ [CR]) (butlast (header_lines order r)) @ [last (header_lines order r)]"
    using header_lines_ok(3) [OF order r]
    by (intro split_lines split ballI) (simp_all add: header_lines_def)
  also have "\<dots> = map2 (@) (header_lines order r) (replicate ?n [CR] @ [[]])"
    by (subst butlast_CR) (simp_all add: header_lines_def)
  finally have "split (join_lines (header_lines order r)) LF
      = (first_line order r @ t) # map2 (@) (map (\<lambda>(k, v). k @ '': '' @ v) (order (rq_headers r))) ts"
    by (simp add: ts header_lines_def)
  moreover have "set (t # ts) \<subseteq> {[], [CR]}" "length (t # ts) = Suc ?n"
    unfolding ts [symmetric] by auto
  ultimately show thesis by (intro that [of t ts]) auto
qed

text \<open>Parsing a printed header gives the request back, whatever the order of the entries.\<close>

lemma ParseHeaders_printed:
  assumes split: "splits_fields split" and order: "walks order" and r: "printable r"
  shows "ParseHeaders split (p\<lparr>hp_header := join_lines (header_lines order r)\<rparr>)
    = body_state (received order r) (p\<lparr>hp_header := join_lines (header_lines order r), hp_is_request := rq_is_request r,
        hp_req := Some (received order r)\<rparr>)"
proof -
  let ?p = "p\<lparr>hp_header := join_lines (header_lines order r)\<rparr>"
  have fin: "finite (dom (rq_headers r))" and ok: "\<forall>(k, v) \<in> set (order (rq_headers r)). header_ok k v"
    using r walks_entries(3) [OF order] by (auto simp: printable_def)
  obtain t ts where lines: "split (join_lines (header_lines order r)) LF
      = (first_line order r @ t) # map2 (@) (map (\<lambda>(k, v). k @ '': '' @ v) (order (rq_headers r))) ts"
    and ts: "t \<in> {[], [CR]}" "\<forall>t \<in> set ts. t \<in> {[], [CR]}" "length ts = length (order (rq_headers r))"
    by (rule split_header [OF assms])
  have "CHR '':'' \<notin> set (first_line order r @ t)"
    using first_line_ok(2) [OF r, of order] ts(1)
    by (elim insertE emptyE; simp add: list_all_iff CR_def; blast)
  then have fl: "header_line (first_line order r @ t) x = x" for x
    by (simp add: header_line_def cut_at_None)
  have line: "ProcessMethodLine split (first_line order r @ t) ?p
    = ?p\<lparr>hp_is_request := rq_is_request r, hp_req := Some ((received order r)\<lparr>rq_headers := Map.empty\<rparr>)\<rparr>"
    using request_line [OF split order r, of t ?p] response_line [OF split r, of order t ?p] ts(1)
    by (cases "rq_is_request r") (auto simp: token_ok_def)
  have "fold put_entry (order (rq_headers r)) Map.empty = rq_headers r"
    using fold_put_entry [OF walks_entries(1) [OF order fin]] walks_entries(2) [OF order fin] by simp
  then have entries: "fold header_line (map2 (@) (map (\<lambda>(k, v). k @ '': '' @ v) (order (rq_headers r))) ts)
      ((received order r)\<lparr>rq_headers := Map.empty\<rparr>) = received order r"
    using header_lines_fold [OF ok ts(2,3)] by (simp add: received_def)
  show ?thesis
    using lines entries by (simp add: ParseHeaders_def LF_def [symmetric] line Let_def fl)
qed

subsection \<open>Reading a body\<close>

lemma ReadableBytes_Peek: "mb_inv b \<Longrightarrow> ReadableBytes b = length (Peek b)"
  using mb_inv_sizes by simp

definition body_packet :: "string \<Rightarrow> Packet" where
  "body_packet s = \<lparr>pk_type = kPacketTypeUnknowed, pk_size = of_nat (length s), pk_index = -1, pk_timestamp = 0,
     pk_capacity = of_nat (length s), pk_data = s\<rparr>"

lemma sint_of_nat32: "n < 2 ^ 31 \<Longrightarrow> sint (of_nat n :: u32) = int n"
  using to_int32_id [of "int n"] by (simp add: to_int32_def)

text \<open>A body that is in the buffer as a whole is collected in one packet.\<close>

lemma transfer_whole:
  assumes inv: "mb_inv buf" and buf: "Peek buf = s @ rest" and len: "length (Peek buf) < 2 ^ 31"
  shows "transfer (int (length s)) None buf = Some (int (length s), body_packet s, Retrieve (length s) buf)"
proof -
  have r: "to_int32 (int (ReadableBytes buf)) = int (length s + length rest)"
    using inv buf len by (simp add: ReadableBytes_Peek to_int32_id)
  have s: "sint (of_nat (length s) :: u32) = int (length s)"
    using buf len by (intro sint_of_nat32) simp
  show ?thesis
    by (simp add: transfer_def NewPacket_def Space_def PacketSize_def s r buf put_at_all UpdatePacketSize_def body_packet_def)
qed

subsection \<open>Messages\<close>

text \<open>A message the sender prints with the length of its body.\<close>

definition message_ok :: "HttpRequest \<Rightarrow> bool" where
  "message_ok r \<longleftrightarrow> printable r \<and> rq_headers r ''content-length'' = Some (decimal (length (rq_body r)))
     \<and> length (rq_body r) < 2 ^ 31"

definition message_event :: "walk \<Rightarrow> HttpRequest \<Rightarrow> ContextEvent" where
  "message_event order r =
     OnRequest (Some (received order r)) (if rq_body r = [] then None else Some (body_packet (rq_body r)))"

definition between :: "HttpParser \<Rightarrow> bool" where
  "between p \<longleftrightarrow> \<not> hp_fault p \<and> (hp_state p = kExpectHttpComplete \<or> hp_state p = kExpectHeaders \<and> hp_chunk p = None)"

lemma tolower_content_length: "map tolower ''content-length'' = ''content-length''"
  by code_simp

lemma body_state_message:
  assumes "message_ok r" and "p' = p\<lparr>hp_content_length := int (length (rq_body r)),
     hp_state := (if rq_body r = [] then kExpectHttpComplete else kExpectNormalBody)\<rparr>"
  shows "body_state (received order r) p = p'"
proof -
  have "GetHeader ''content-length'' (received order r) = decimal (length (rq_body r))"
    unfolding GetHeader_def tolower_content_length using assms(1) by (simp add: message_ok_def received_def)
  moreover have "decimal (length (rq_body r)) \<noteq> []" using decimal_ok by blast
  moreover have "stoull (decimal (length (rq_body r))) = Some (length (rq_body r))"
    using assms(1) by (intro stoull_decimal) (simp add: message_ok_def)
  ultimately show ?thesis
    using assms by (simp add: body_state_def Let_def to_int32_id message_ok_def)
qed

lemma length_CRLFCRLF: "length CRLFCRLF = 4"
  by (simp add: CRLFCRLF_def)

lemma header_step:
  assumes split: "splits_fields split" and order: "walks order" and r: "message_ok r"
    and inv: "mb_inv buf" and buf: "Peek buf = MakeHeaders order r @ rest" and p: "between p"
  obtains p' where "parser_Parse split p buf = (hp_state p', p', Retrieve (length (MakeHeaders order r)) buf)"
    and "hp_req p' = Some (received order r)" and "hp_content_length p' = int (length (rq_body r))"
    and "hp_state p' = (if rq_body r = [] then kExpectHttpComplete else kExpectNormalBody)"
    and "hp_chunk p' = None" and "\<not> hp_fault p'"
proof -
  let ?j = "join_lines (header_lines order r)"
  define q where "q = parser_clear p"
  have q: "hp_state q = kExpectHeaders" "hp_chunk q = None" "\<not> hp_fault q"
    using p by (auto simp: q_def between_def parser_clear_def ClearForNextHttp_def)
  have pr: "printable r" using r by (simp add: message_ok_def)
  have peek: "Peek buf = ?j @ CRLFCRLF @ rest" using buf by (simp add: MakeHeaders_lines)
  have found: "search CRLFCRLF (Peek buf) = Some (length ?j)"
    unfolding peek using header_lines_ok [OF order pr] by (intro search_header_end) (auto simp: header_lines_def)
  have "?j \<noteq> []"
    using first_line_ok(1) [OF pr, of order] by (cases "order (rq_headers r)") (simp_all add: header_lines_def)
  then have long: "length CRLFCRLF < ReadableBytes buf"
    using inv peek by (simp add: ReadableBytes_Peek CRLFCRLF_def)
  define p' where "p' = (q\<lparr>hp_header := ?j, hp_is_request := rq_is_request r, hp_req := Some (received order r)\<rparr>)
      \<lparr>hp_content_length := int (length (rq_body r)),
       hp_state := (if rq_body r = [] then kExpectHttpComplete else kExpectNormalBody)\<rparr>"
  have "ParseHeaders split (q\<lparr>hp_header := ?j\<rparr>) = p'"
    unfolding ParseHeaders_printed [OF split order pr] by (rule body_state_message [OF r]) (simp add: p'_def)
  then have "ParseExpectHeaders split q buf = (hp_state p', p', Retrieve (length ?j + 4) buf)"
    using long found peek by (simp add: ParseExpectHeaders_def Let_def)
  moreover have "parser_Parse split p buf = ParseExpectHeaders split q buf"
    using q(1) long by (simp add: parser_Parse_def parser_switch_def q_def)
  ultimately have "parser_Parse split p buf = (hp_state p', p', Retrieve (length (MakeHeaders order r)) buf)"
    by (simp add: MakeHeaders_lines length_CRLFCRLF)
  then show thesis by (rule that) (use q in \<open>simp_all add: p'_def\<close>)
qed

lemma body_step:
  assumes "hp_state p = kExpectNormalBody" and "hp_content_length p = int (length s)" and "hp_chunk p = None" and "s \<noteq> []"
    and inv: "mb_inv buf" and buf: "Peek buf = s @ rest" and len: "length (Peek buf) < 2 ^ 31"
  shows "parser_Parse split p buf
    = (kExpectHttpComplete, p\<lparr>hp_chunk := Some (body_packet s), hp_content_length := 0, hp_state := kExpectHttpComplete\<rparr>,
       Retrieve (length s) buf)"
  using assms transfer_whole [OF inv buf len]
  by (simp add: parser_Parse_def parser_switch_def parser_clear_def ParseNormalBody_def ReadableBytes_Peek Let_def)

lemma context_step_parser:
  "parser_Parse split (cx_parser c) buf = (st, p', buf') \<Longrightarrow> \<exists>c'. context_step split c buf = (c', buf') \<and> cx_parser c' = p'"
  by (simp add: context_step_def emit_def Let_def)

lemma context_Parse_step:
  "mb_inv buf \<Longrightarrow> 1 < length (Peek buf) \<Longrightarrow> 
   context_Parse (Suc n) split c buf = (case context_step split c buf of (c, buf) \<Rightarrow> context_Parse n split c buf)"
  by (subst context_Parse.simps) (simp add: ReadableBytes_Peek)

lemma context_Parse_stop: "mb_inv buf \<Longrightarrow> length (Peek buf) \<le> 1 \<Longrightarrow> context_Parse n split c buf = Some (c, buf)"
  by (subst context_Parse.simps) (simp add: ReadableBytes_Peek)

text \<open>One message is delivered in at most two turns of the loop.\<close>

lemma deliver_one:
  assumes split: "splits_fields split" and order: "walks order" and r: "message_ok r"
    and inv: "mb_inv buf" and buf: "Peek buf = AppendToBuffer order r @ rest" and len: "length (Peek buf) < 2 ^ 31"
    and c: "between (cx_parser c)" and last: "length (rq_body r) \<noteq> 1 \<or> rest \<noteq> []" and fuel: "2 \<le> n"
  obtains m c' buf' where "context_Parse n split c buf = context_Parse m split c' buf'" and "n \<le> m + 2"
    and "mb_inv buf'" and "Peek buf' = rest" and "between (cx_parser c')"
    and "cx_events c' = cx_events c @ [message_event order r]" and "cx_fault c' = cx_fault c"
proof -
  have peek: "Peek buf = MakeHeaders order r @ rq_body r @ rest" using buf by (simp add: AppendToBuffer_def)
  obtain p' where step: "parser_Parse split (cx_parser c) buf = (hp_state p', p', Retrieve (length (MakeHeaders order r)) buf)"
    and p': "hp_req p' = Some (received order r)" "hp_content_length p' = int (length (rq_body r))"
      "hp_state p' = (if rq_body r = [] then kExpectHttpComplete else kExpectNormalBody)" "hp_chunk p' = None" "\<not> hp_fault p'"
    by (rule header_step [OF split order r inv peek c])
  define buf1 where "buf1 = Retrieve (length (MakeHeaders order r)) buf"
  have buf1: "mb_inv buf1" "Peek buf1 = rq_body r @ rest" using Retrieve_ok [OF inv] peek by (simp_all add: buf1_def)
  obtain n' where n: "n = Suc (Suc n')" using fuel by (metis Suc_le_D numeral_2_eq_2 Suc_le_mono)
  have "4 \<le> length (MakeHeaders order r)" by (simp add: MakeHeaders_lines CRLFCRLF_def)
  then have run: "context_Parse n split c buf = (case context_step split c buf of (c, buf) \<Rightarrow> context_Parse (Suc n') split c buf)"
    unfolding n using inv peek by (intro context_Parse_step) simp_all
  show thesis
  proof (cases "rq_body r = []")
    case True
    let ?c = "emit (message_event order r) (c\<lparr>cx_parser := p'\<rparr>)"
    have "context_step split c buf = (?c, buf1)"
      using step p' True by (simp add: context_step_def message_event_def buf1_def)
    then have "context_Parse n split c buf = context_Parse (Suc n') split ?c buf1" using run by simp
    then show thesis
      by (rule that) (use buf1 p' True n in \<open>simp_all add: emit_def between_def\<close>)
  next
    case False
    let ?p = "p'\<lparr>hp_chunk := Some (body_packet (rq_body r)), hp_content_length := 0, hp_state := kExpectHttpComplete\<rparr>"
    let ?c1 = "c\<lparr>cx_parser := p'\<rparr>" and ?c2 = "emit (message_event order r) (c\<lparr>cx_parser := ?p\<rparr>)"
    have one: "context_step split c buf = (?c1, buf1)"
      using step p'(3) False by (simp add: context_step_def buf1_def)
    have "parser_Parse split p' buf1 = (kExpectHttpComplete, ?p, Retrieve (length (rq_body r)) buf1)"
      using p' False buf1 len peek by (intro body_step) simp_all
    then have two: "context_step split ?c1 buf1 = (?c2, Retrieve (length (rq_body r)) buf1)"
      using p'(1) False by (simp add: context_step_def message_event_def)
    have "1 < length (Peek buf1)" using False last buf1(2) by (cases "rq_body r"; cases rest) auto
    then have "context_Parse n split c buf = context_Parse n' split ?c2 (Retrieve (length (rq_body r)) buf1)"
      using run one two context_Parse_step [OF buf1(1)] by simp
    then show thesis
      by (rule that) (use Retrieve_ok [OF buf1(1)] buf1(2) p'(5) n in \<open>simp_all add: emit_def between_def\<close>)
  qed
qed

lemma deliver_all:
  assumes split: "splits_fields split" and order: "walks order" and "\<forall>r \<in> set rs. message_ok r"
    and "mb_inv buf" and "Peek buf = concat (map (AppendToBuffer order) rs)" and "length (Peek buf) < 2 ^ 31"
    and "between (cx_parser c)" and "rs \<noteq> [] \<Longrightarrow> length (rq_body (last rs)) \<noteq> 1" and "2 * length rs \<le> n"
  shows "\<exists>c' buf'. context_Parse n split c buf = Some (c', buf') \<and> between (cx_parser c')
    \<and> cx_events c' = cx_events c @ map (message_event order) rs \<and> cx_fault c' = cx_fault c"
  using assms(3-)
proof (induction rs arbitrary: n c buf)
  case Nil
  then show ?case using context_Parse_stop by fastforce
next
  case (Cons r rs)
  have last: "length (rq_body r) \<noteq> 1 \<or> concat (map (AppendToBuffer order) rs) \<noteq> []"
    using Cons.prems(6) by (cases rs) (auto simp: AppendToBuffer_def MakeHeaders_lines CRLFCRLF_def)
  obtain m c' buf' where one: "context_Parse n split c buf = context_Parse m split c' buf'" "n \<le> m + 2" "mb_inv buf'"
    "Peek buf' = concat (map (AppendToBuffer order) rs)" "between (cx_parser c')"
    "cx_events c' = cx_events c @ [message_event order r]" "cx_fault c' = cx_fault c"
    by (rule deliver_one [OF split order _ Cons.prems(2) _ Cons.prems(4,5) last, of n])
      (use Cons.prems in simp_all)
  have "\<exists>c'' buf''. context_Parse m split c' buf' = Some (c'', buf'') \<and> between (cx_parser c'')
    \<and> cx_events c'' = cx_events c' @ map (message_event order) rs \<and> cx_fault c'' = cx_fault c'"
    by (rule Cons.IH) (use Cons.prems one in auto)
  with one show ?case by auto
qed

lemma mb_inv_received: "mb_inv (mb_Append data (MsgBuffer_init kBufferDefaultLength))"
  and Peek_received: "Peek (mb_Append data (MsgBuffer_init kBufferDefaultLength)) = data"
proof -
  have inv: "mb_inv (MsgBuffer_init kBufferDefaultLength)"
    by (rule mb_inv_init) (simp add: kBufferOffset_def kBufferDefaultLength_def)
  show "mb_inv (mb_Append data (MsgBuffer_init kBufferDefaultLength))"
    "Peek (mb_Append data (MsgBuffer_init kBufferDefaultLength)) = data"
    using mb_Append_ok [OF inv] by (simp_all add: Peek_init)
qed

subsection \<open>Properties\<close>


text \<open>A walk in alphabetical order, and two sample messages.\<close>

definition sorted_walk :: walk where
  "sorted_walk m = map (\<lambda>k. (k, the (m k))) (sorted_list_of_set (dom m))"

lemma walks_sorted: "walks sorted_walk"
proof -
  have "map_of (sorted_walk m) = m" if "finite (dom m)" for m
  proof
    fix k show "map_of (sorted_walk m) k = m k"
      using that by (cases "m k") (auto simp: sorted_walk_def map_of_map_restrict restrict_map_def)
  qed
  moreover have "map fst (sorted_walk m) = sorted_list_of_set (dom m)" for m
    by (simp add: sorted_walk_def comp_def)
  ultimately show ?thesis by (simp add: walks_def)
qed

lemma sorted_walk_single: "sorted_walk [k \<mapsto> v] = [(k, v)]"
  by (simp add: sorted_walk_def)

definition sample_get :: HttpRequest where
  "sample_get = AddHeader ''Content-Length'' ''0'' (SetVersion kHttp11 ((SetMethod kGet (HttpRequest_init True))\<lparr>rq_path := ''/live''\<rparr>))"
definition sample_answer :: HttpRequest where
  "sample_answer = SetBody ''ok'' (AddHeader ''Content-Length'' ''2'' (SetVersion kHttp10 (SetStatusCode 200 (HttpRequest_init False))))"

lemma sample_headers:
  "rq_headers sample_get = [''content-length'' \<mapsto> ''0'']" "rq_headers sample_answer = [''content-length'' \<mapsto> ''2'']"
proof -
  have "map tolower ''Content-Length'' = ''content-length''" by code_simp
  then show "rq_headers sample_get = [''content-length'' \<mapsto> ''0'']" "rq_headers sample_answer = [''content-length'' \<mapsto> ''2'']"
    by (simp_all add: sample_get_def sample_answer_def AddHeader_def SetBody_def SetVersion_def SetMethod_def SetStatusCode_def HttpRequest_init_def del: list.map)
qed

lemma sample_messages: "message_ok sample_get" "message_ok sample_answer"
proof -
  have h: "header_ok ''content-length'' ''0''" "header_ok ''content-length'' ''2''" by code_simp+
  have d: "decimal 0 = ''0''" "decimal (Suc (Suc 0)) = ''2''" by code_simp+
  show "message_ok sample_get"
    using h(1) d(1) unfolding message_ok_def printable_def sample_headers
    by (simp add: sample_get_def AddHeader_def SetVersion_def SetMethod_def HttpRequest_init_def)
  show "message_ok sample_answer"
    using h(2) d(2) unfolding message_ok_def printable_def sample_headers
    by (simp add: sample_answer_def AddHeader_def SetBody_def SetVersion_def SetStatusCode_def HttpRequest_init_def)
qed


end
