(* ===== verification/Http_Safety.thy ===== *)
theory Http_Safety
  imports Http_Message
begin

text \<open>
  The HTTP parser and context beyond well-formed messages: input on which the receiving loop does not end, the
  states a chunked message cannot leave, the invariant that keeps the parser inside its packet, the chunk
  lengths it accepts, and the order of the writes on the sending side.
\<close>

subsection \<open>Loops that do not end and states that are not left\<close>

lemma ParseExpectHeaders_stuck:
  assumes "mb_inv buf" and "length (Peek buf) \<le> 4 \<or> search CRLFCRLF (Peek buf) = None" and "hp_state p = kExpectHeaders"
  obtains st p' where "ParseExpectHeaders split p buf = (st, p', buf)" and "hp_state p' = kExpectHeaders \<or> hp_state p' = kExpectError"
proof -
  have "\<exists>st p'. ParseExpectHeaders split p buf = (st, p', buf) \<and> (hp_state p' = kExpectHeaders \<or> hp_state p' = kExpectError)"
    using assms by (auto simp: ParseExpectHeaders_def length_CRLFCRLF ReadableBytes_Peek hp_fail_def)
  then show thesis using that by blast
qed

lemma context_stuck:
  assumes "mb_inv buf" and "1 < length (Peek buf)" and "length (Peek buf) \<le> 4 \<or> search CRLFCRLF (Peek buf) = None"
    and "hp_state (cx_parser c) \<in> {kExpectHeaders, kExpectHttpComplete, kExpectError}"
  shows "context_Parse fuel split c buf = None"
  using assms(4)
proof (induction fuel arbitrary: c)
  case 0
  then show ?case using assms(1,2) by (subst context_Parse.simps) (simp add: ReadableBytes_Peek)
next
  case (Suc n)
  obtain st p' where step: "parser_Parse split (cx_parser c) buf = (st, p', buf)"
    and p': "hp_state p' = kExpectHeaders \<or> hp_state p' = kExpectError"
  proof (cases "hp_state (cx_parser c) = kExpectError")
    case True
    then show thesis using assms(1,2) by (intro that [of kExpectError "cx_parser c"]) (simp_all add: parser_Parse_def parser_switch_def parser_clear_def ReadableBytes_Peek)
  next
    case False
    define q where "q = parser_clear (cx_parser c)"
    have q: "hp_state q = kExpectHeaders"
      using Suc.prems False by (auto simp: q_def parser_clear_def ClearForNextHttp_def)
    have run: "parser_Parse split (cx_parser c) buf = ParseExpectHeaders split q buf"
      using q assms(1,2) by (auto simp: parser_Parse_def parser_switch_def q_def ReadableBytes_Peek)
    show thesis
      using ParseExpectHeaders_stuck [OF assms(1,3) q, of split] that unfolding run by metis
  qed
  obtain c' where c': "context_step split c buf = (c', buf)" "cx_parser c' = p'"
    using context_step_parser [OF step] by blast
  have "context_Parse n split c' buf = None"
    using Suc.IH [of c'] p' c'(2) by auto
  then show ?case using context_Parse_step [OF assms(1,2)] c'(1) by simp
qed

text \<open>
  C22: bytes that hold no complete header make the receiving server loop forever: the parser leaves
  them in the buffer, and the loop of \<open>HttpContext::Parse\<close> runs while there are bytes. No amount of
  fuel is enough.
\<close>

theorem incomplete_header_never_returns:
  assumes "1 < length data" and "length data \<le> 4 \<or> search CRLFCRLF data = None"
    and "hp_state (cx_parser c) \<in> {kExpectHeaders, kExpectHttpComplete, kExpectError}"
  shows "server_OnRecv fuel split data c = None"
  using context_stuck [OF mb_inv_received, of data c fuel split] assms by (simp add: server_OnRecv_def Peek_received)

theorem incomplete_header_never_returns_witness:
  "server_OnRecv 1000 split_fields ''GET / HTTP/1.1'' (HttpContext_init False) = None"
proof (rule incomplete_header_never_returns)
  show "length ''GET / HTTP/1.1'' \<le> 4 \<or> search CRLFCRLF ''GET / HTTP/1.1'' = None"
    by code_simp
qed (simp_all add: HttpContext_init_def HttpParser_init_def)

definition in_chunks :: "HttpParser \<Rightarrow> bool" where
  "in_chunks p \<longleftrightarrow> hp_is_chunked p \<and>
     hp_state p \<in> {kExpectChunkLen, kExpectChunkBody, kExpectLastEmptyChunk, kExpectChunkComplete, kExpectError}"

lemma in_chunks_step:
  assumes "in_chunks p" and "parser_Parse split p buf = (st, p', buf')"
  shows "in_chunks p' \<and> hp_req p' = hp_req p"
proof -
  have chunk: "in_chunks (fst (ParseChunk q b)) \<and> hp_req (fst (ParseChunk q b)) = hp_req q" if "in_chunks q" for q b
    using that by (auto simp: ParseChunk_def in_chunks_def Let_def split: option.splits)
  have len: "in_chunks (fst (ParseChunkLen q b)) \<and> hp_req (fst (ParseChunkLen q b)) = hp_req q" if "in_chunks q" for q b
    using that by (auto simp: ParseChunkLen_def in_chunks_def hp_fail_def Let_def split: option.splits)
  have empty: "in_chunks (fst (ParseLastEmptyChunk q b)) \<and> hp_req (fst (ParseLastEmptyChunk q b)) = hp_req q" if "in_chunks q" for q b
    using that by (auto simp: ParseLastEmptyChunk_def in_chunks_def split: option.splits)
  define q where "q = parser_clear p"
  have q: "in_chunks q" "hp_req q = hp_req p" "hp_state q \<noteq> kExpectChunkComplete"
    using assms(1) by (auto simp: q_def in_chunks_def parser_clear_def ClearForNextChunk_def)
  then consider "hp_state q = kExpectChunkLen" | "hp_state q = kExpectChunkBody" | "hp_state q = kExpectLastEmptyChunk"
    | "hp_state q = kExpectError" by (auto simp: in_chunks_def)
  then have "case parser_switch split q buf of (st, p', buf') \<Rightarrow> in_chunks p' \<and> hp_req p' = hp_req q"
    using q(1) chunk [OF q(1), of buf] len [OF q(1), of buf] empty [OF q(1), of buf]
    by cases (simp_all add: parser_switch_def case_prod_beta)
  then show ?thesis
    using assms q(2) by (auto simp: parser_Parse_def q_def split: if_splits)
qed

text \<open>
  C35: once a message with chunked transfer encoding has begun, the parser never expects the headers of
  another one, whatever it is fed; the request it has stays the one it hands out.
\<close>

theorem chunked_never_leaves:
  assumes "in_chunks p"
  shows "in_chunks (fold (\<lambda>buf p. fst (snd (parser_Parse split p buf))) bufs p)
    \<and> hp_req (fold (\<lambda>buf p. fst (snd (parser_Parse split p buf))) bufs p) = hp_req p"
  using assms
proof (induction bufs arbitrary: p)
  case (Cons b bufs)
  obtain st p' b' where step: "parser_Parse split p b = (st, p', b')" by (cases "parser_Parse split p b") auto
  show ?case using Cons.IH [of p'] in_chunks_step [OF Cons.prems step] step by simp
qed simp

theorem chunked_never_leaves_witness:
  "hp_state (fold (\<lambda>buf p. fst (snd (parser_Parse split_fields p buf))) [mb_Append (''0'' @ crlf @ crlf) (MsgBuffer_init 64)]
     (HttpParser_init\<lparr>hp_is_chunked := True, hp_state := kExpectChunkLen\<rparr>)) \<noteq> kExpectHeaders"
  using chunked_never_leaves [of "HttpParser_init\<lparr>hp_is_chunked := True, hp_state := kExpectChunkLen\<rparr>" split_fields
      "[mb_Append (''0'' @ crlf @ crlf) (MsgBuffer_init 64)]"]
  by (auto simp: in_chunks_def)

definition packet_ok :: "Packet \<Rightarrow> bool" where
  "packet_ok c \<longleftrightarrow> length (pk_data c) = unat (pk_capacity c) \<and> unat (pk_capacity c) < 2 ^ 31 \<and> unat (pk_size c) \<le> unat (pk_capacity c)"

lemma packet_ok_sizes:
  assumes "packet_ok c"
  shows "PacketSize c = int (unat (pk_size c))" and "Space c = int (unat (pk_capacity c)) - int (unat (pk_size c))"
proof -
  obtain n k where nk: "pk_capacity c = of_nat n" "pk_size c = of_nat k" "n < 2 ^ 31" "k \<le> n"
    using assms by (intro that [of "unat (pk_capacity c)" "unat (pk_size c)"]) (auto simp: packet_ok_def)
  have u: "unat (of_nat n :: u32) = n" "unat (of_nat k :: u32) = k"
    using nk(3,4) by (simp_all add: unat_of_nat take_bit_nat_eq_self)
  show "PacketSize c = int (unat (pk_size c))"
    using nk u sint_of_nat32 [of k] by (simp add: PacketSize_def)
  have "(of_nat n - of_nat k :: u32) = of_nat (n - k)" using nk(4) by (simp add: of_nat_diff)
  then show "Space c = int (unat (pk_capacity c)) - int (unat (pk_size c))"
    using nk u sint_of_nat32 [of "n - k"] by (simp add: Space_def)
qed

lemma NewPacket_ok:
  assumes "0 < cap" and "cap < 2 ^ 31"
  obtains c where "NewPacket cap = Some c" and "packet_ok c" and "Space c = cap" and "unat (pk_capacity c) = nat cap"
proof -
  let ?c = "\<lparr>pk_type = kPacketTypeUnknowed, pk_size = 0, pk_index = -1, pk_timestamp = 0,
           pk_capacity = word_of_int cap, pk_data = replicate (nat cap) CHR 0x00\<rparr>"
  have u: "unat (word_of_int cap :: u32) = nat cap"
    using assms by (simp add: unat_eq_nat_uint take_bit_int_eq_self uint_word_of_int_eq)
  then have ok: "packet_ok ?c" using assms by (simp add: packet_ok_def nat_less_iff)
  show thesis
    by (rule that [of ?c]) (use assms ok u packet_ok_sizes(2) [OF ok] in \<open>simp_all add: NewPacket_def\<close>)
qed

text \<open>The packet a transfer starts with.\<close>

definition target :: "int \<Rightarrow> Packet option \<Rightarrow> Packet option" where
  "target cap chunk = (case chunk of Some c \<Rightarrow> Some c | None \<Rightarrow> NewPacket cap)"

lemma transfer_ok:
  assumes "target cap chunk = Some c" and c: "packet_ok c" and inv: "mb_inv buf" and len: "length (Peek buf) < 2 ^ 31"
  obtains sz c' where "transfer cap chunk buf = Some (sz, c', Retrieve (nat sz) buf)" and "0 \<le> sz" and "sz \<le> Space c"
    and "packet_ok c'" and "Space c' = Space c - sz" and "pk_capacity c' = pk_capacity c"
    and "unat (pk_size c') = unat (pk_size c) + nat sz"
proof -
  let ?sz = "min (to_int32 (int (ReadableBytes buf))) (Space c)"
  let ?c = "UpdatePacketSize (nat ?sz) (c\<lparr>pk_data := put_at (nat (PacketSize c)) (take (nat ?sz) (Peek buf)) (pk_data c)\<rparr>)"
  note s = packet_ok_sizes [OF c]
  have r: "to_int32 (int (ReadableBytes buf)) = int (length (Peek buf))"
    using inv len by (simp add: ReadableBytes_Peek to_int32_id)
  have "unat (pk_size c) \<le> unat (pk_capacity c)" using c by (simp add: packet_ok_def)
  then have "0 \<le> Space c" unfolding s(2) by linarith
  then have sz: "0 \<le> ?sz" "?sz \<le> Space c" "nat ?sz \<le> length (Peek buf)"
    by (simp_all add: r)
  have fits: "unat (pk_size c) + nat ?sz \<le> unat (pk_capacity c)"
    using sz(1,2) s by linarith
  have size: "unat (pk_size ?c) = unat (pk_size c) + nat ?sz"
    using fits c by (simp add: UpdatePacketSize_def packet_ok_def unat_word_ariths unat_of_nat take_bit_nat_eq_self)
  have cap: "pk_capacity ?c = pk_capacity c" by (simp add: UpdatePacketSize_def)
  have ok: "packet_ok ?c"
    using c fits size sz(3) s(1) by (simp add: packet_ok_def UpdatePacketSize_def length_put_at)
  have "transfer cap chunk buf = Some (?sz, ?c, Retrieve (nat ?sz) buf)"
    using assms(1) sz(1) s fits c by (simp add: transfer_def target_def packet_ok_def Let_def)
  moreover have "Space ?c = Space c - ?sz"
    unfolding packet_ok_sizes(2) [OF ok] s(2) [symmetric] size cap using s(2) sz(1) by simp
  ultimately show thesis
    using that sz(1,2) ok cap size by blast
qed

subsection \<open>The invariant of the parser\<close>

fun body_inv :: "HttpParserState \<Rightarrow> HttpParser \<Rightarrow> bool" where
  "body_inv kExpectNormalBody p \<longleftrightarrow> 0 < hp_content_length p \<and> hp_content_length p < 2 ^ 31
     \<and> (\<forall>c. hp_chunk p = Some c \<longrightarrow> packet_ok c \<and> Space c = hp_content_length p)"
| "body_inv kExpectChunkBody p \<longleftrightarrow> 0 < hp_chunk_length p \<and> hp_chunk_length p < 2 ^ 31
     \<and> (hp_chunk p = None \<longrightarrow> 2 < hp_chunk_length p)
     \<and> (\<forall>c. hp_chunk p = Some c \<longrightarrow> packet_ok c \<and> Space c = hp_chunk_length p \<and> 2 < unat (pk_capacity c))"
| "body_inv kExpectStreamBody p \<longleftrightarrow> (\<forall>c. hp_chunk p = Some c \<longrightarrow> packet_ok c \<and> 0 < Space c)"
| "body_inv kExpectHttpComplete p \<longleftrightarrow> (\<forall>c. hp_chunk p = Some c \<longrightarrow> packet_ok c)"
| "body_inv kExpectChunkComplete p \<longleftrightarrow> (\<forall>c. hp_chunk p = Some c \<longrightarrow> packet_ok c)"
| "body_inv kExpectError p \<longleftrightarrow> True"
| "body_inv _ p \<longleftrightarrow> hp_chunk p = None"

definition parser_inv :: "HttpParser \<Rightarrow> bool" where
  "parser_inv p \<longleftrightarrow> \<not> hp_fault p \<and> hp_state p \<noteq> kExpectContinue \<and> body_inv (hp_state p) p"

lemma parser_inv_init: "parser_inv HttpParser_init"
  by (simp add: parser_inv_def HttpParser_init_def)

lemma parser_clear_ok:
  assumes "parser_inv p"
  shows "parser_inv (parser_clear p)" and "hp_state (parser_clear p) \<notin> {kExpectHttpComplete, kExpectChunkComplete}"
  using assms by (auto simp: parser_clear_def parser_inv_def ClearForNextHttp_def ClearForNextChunk_def)

lemma target_body:
  assumes "0 < cap" and "cap < 2 ^ 31" and "\<forall>c. chunk = Some c \<longrightarrow> packet_ok c \<and> Space c = cap"
  obtains c where "target cap chunk = Some c" and "packet_ok c" and "Space c = cap"
    and "\<And>d. chunk = Some d \<Longrightarrow> c = d" and "chunk = None \<Longrightarrow> unat (pk_capacity c) = nat cap"
proof (cases chunk)
  case None
  obtain c where "NewPacket cap = Some c" "packet_ok c" "Space c = cap" "unat (pk_capacity c) = nat cap"
    by (rule NewPacket_ok [OF assms(1,2)])
  then show thesis by (intro that [of c]) (simp_all add: target_def None)
next
  case (Some d)
  then show thesis using assms(3) by (intro that [of d]) (simp_all add: target_def)
qed

definition consumed :: "MsgBuffer \<Rightarrow> MsgBuffer \<Rightarrow> bool" where
  "consumed buf buf' \<longleftrightarrow> mb_inv buf' \<and> (\<exists>n. Peek buf' = drop n (Peek buf))"

lemma consumed_Retrieve: "mb_inv buf \<Longrightarrow> consumed buf (Retrieve n buf)"
  using Retrieve_ok by (auto simp: consumed_def)

lemma consumed_refl: "mb_inv buf \<Longrightarrow> consumed buf buf"
  by (auto simp: consumed_def intro: exI [of _ 0])

lemma ParseNormalBody_ok:
  assumes "parser_inv p" and "hp_state p = kExpectNormalBody" and inv: "mb_inv buf" and len: "length (Peek buf) < 2 ^ 31"
    and "ParseNormalBody p buf = (p', buf')"
  shows "parser_inv p' \<and> consumed buf buf'"
proof -
  have b: "0 < hp_content_length p" "hp_content_length p < 2 ^ 31" "\<not> hp_fault p"
    "\<forall>c. hp_chunk p = Some c \<longrightarrow> packet_ok c \<and> Space c = hp_content_length p"
    using assms(1,2) by (auto simp: parser_inv_def)
  obtain c where c: "target (hp_content_length p) (hp_chunk p) = Some c" "packet_ok c" "Space c = hp_content_length p"
    by (rule target_body [OF b(1,2,4)])
  obtain sz c' where t: "transfer (hp_content_length p) (hp_chunk p) buf = Some (sz, c', Retrieve (nat sz) buf)"
    "0 \<le> sz" "sz \<le> Space c" "packet_ok c'" "Space c' = Space c - sz"
    by (rule transfer_ok [OF c(1,2) inv len])
  show ?thesis
    using assms(2,5) b c(3) t consumed_Retrieve [OF inv] by (auto simp: ParseNormalBody_def parser_inv_def Let_def split: if_splits)
qed

lemma ParseStream_ok:
  assumes "parser_inv p" and "hp_state p = kExpectStreamBody" and inv: "mb_inv buf" and len: "length (Peek buf) < 2 ^ 31"
    and "ParseStream p buf = (p', buf')"
  shows "parser_inv p' \<and> consumed buf buf'"
proof -
  have b: "\<not> hp_fault p" "\<forall>c. hp_chunk p = Some c \<longrightarrow> packet_ok c \<and> 0 < Space c"
    using assms(1,2) by (auto simp: parser_inv_def)
  obtain c where c: "target kHttpMaxBodySize (hp_chunk p) = Some c" "packet_ok c"
  proof (cases "hp_chunk p")
    case None
    then show thesis using that NewPacket_ok [of kHttpMaxBodySize] by (auto simp: target_def kHttpMaxBodySize_def)
  next
    case (Some d)
    then show thesis using that [of d] b by (simp add: target_def)
  qed
  obtain sz c' where t: "transfer kHttpMaxBodySize (hp_chunk p) buf = Some (sz, c', Retrieve (nat sz) buf)"
    "0 \<le> sz" "sz \<le> Space c" "packet_ok c'" "Space c' = Space c - sz"
    by (rule transfer_ok [OF c inv len])
  show ?thesis
    using assms(2,5) b t consumed_Retrieve [OF inv] by (auto simp: ParseStream_def parser_inv_def Let_def split: if_splits)
qed

lemma ParseChunk_ok:
  assumes "parser_inv p" and "hp_state p = kExpectChunkBody" and inv: "mb_inv buf" and len: "length (Peek buf) < 2 ^ 31"
    and "ParseChunk p buf = (p', buf')"
  shows "parser_inv p' \<and> consumed buf buf'"
proof -
  have b: "0 < hp_chunk_length p" "hp_chunk_length p < 2 ^ 31" "\<not> hp_fault p"
    "\<forall>c. hp_chunk p = Some c \<longrightarrow> packet_ok c \<and> Space c = hp_chunk_length p"
    "hp_chunk p = None \<Longrightarrow> 2 < hp_chunk_length p" "\<And>c. hp_chunk p = Some c \<Longrightarrow> 2 < unat (pk_capacity c)"
    using assms(1,2) by (auto simp: parser_inv_def)
  obtain c where c: "target (hp_chunk_length p) (hp_chunk p) = Some c" "packet_ok c" "Space c = hp_chunk_length p"
    "\<And>d. hp_chunk p = Some d \<Longrightarrow> c = d" "hp_chunk p = None \<Longrightarrow> unat (pk_capacity c) = nat (hp_chunk_length p)"
    using target_body [OF b(1,2,4)] by metis
  have two: "2 < unat (pk_capacity c)"
    using b(5,6) c(4,5) by (cases "hp_chunk p") auto
  obtain sz c' where t: "transfer (hp_chunk_length p) (hp_chunk p) buf = Some (sz, c', Retrieve (nat sz) buf)"
    "0 \<le> sz" "sz \<le> Space c" "packet_ok c'" "Space c' = Space c - sz" "pk_capacity c' = pk_capacity c"
    by (rule transfer_ok [OF c(1,2) inv len])
  have complete: "packet_ok (SetPacketSize (nat ((PacketSize c' - 2) mod 2 ^ 64)) c')" if "Space c' = 0"
  proof -
    have size: "unat (pk_size c') = unat (pk_capacity c')"
      using that packet_ok_sizes(2) [OF t(4)] by linarith
    then have "PacketSize c' - 2 = int (unat (pk_capacity c') - 2)" "unat (pk_capacity c') < 2 ^ 31"
      using two t(4,6) packet_ok_sizes(1) [OF t(4)] by (simp_all add: packet_ok_def of_nat_diff)
    then have "nat ((PacketSize c' - 2) mod 2 ^ 64) = unat (pk_capacity c') - 2" by simp
    then show ?thesis
      using t(4) by (simp add: packet_ok_def SetPacketSize_def unat_of_nat take_bit_nat_eq_self)
  qed
  have left: "hp_chunk_length p - sz = Space c'" "0 \<le> Space c'" using t(3,5) c(3) by simp_all
  have buf': "buf' = Retrieve (nat sz) buf"
    using assms(5) by (simp add: ParseChunk_def t(1) Let_def split: if_splits)
  have "parser_inv p'"
  proof (cases "Space c' = 0")
    case True
    then have "p' = p\<lparr>hp_chunk_length := 0, hp_chunk := Some (SetPacketSize (nat ((PacketSize c' - 2) mod 2 ^ 64)) c'),
        hp_state := kExpectChunkComplete\<rparr>"
      using assms(5) left by (auto simp: ParseChunk_def t(1) Let_def)
    then show ?thesis using complete [OF True] b(3) by (simp add: parser_inv_def)
  next
    case False
    then have "p' = p\<lparr>hp_chunk := Some c', hp_chunk_length := Space c'\<rparr>"
      using assms(5) left by (auto simp: ParseChunk_def t(1) Let_def)
    then show ?thesis
      using False left(2) t(2-6) two c(3) b(2,3) assms(2) by (simp add: parser_inv_def)
  qed
  then show ?thesis using consumed_Retrieve [OF inv] buf' by simp
qed

subsection \<open>Input the parser accepts safely\<close>

text \<open>
  A header whose first line has three fields and whose declared length fits 31 bits, and a chunk length
  that leaves room for the two bytes behind the chunk.
\<close>

definition declared_ok :: "string \<Rightarrow> bool" where
  "declared_ok l = (case cut_at CHR '':'' l of
     Some (k, v) \<Rightarrow> map tolower (Trim k) = ''content-length'' \<longrightarrow> (case stoull (Trim v) of Some n \<Rightarrow> n < 2 ^ 31 | None \<Rightarrow> True)
   | None \<Rightarrow> True)"

definition header_safe :: "splitter \<Rightarrow> string \<Rightarrow> bool" where
  "header_safe split h = (let ls = split h LF
     in list_all declared_ok ls \<and> (ls \<noteq> [] \<longrightarrow> 3 \<le> length (split (hd ls) CHR '' '')))"

definition chunk_line_safe :: "string \<Rightarrow> bool" where
  "chunk_line_safe s \<longleftrightarrow> 0 \<le> strtol s 16 \<and> strtol s 16 < 2 ^ 31 - 2"

definition input_safe :: "splitter \<Rightarrow> HttpParser \<Rightarrow> string \<Rightarrow> bool" where
  "input_safe split p s \<longleftrightarrow>
     (hp_state p = kExpectHeaders \<longrightarrow> (case search CRLFCRLF s of Some n \<Rightarrow> header_safe split (take n s) | None \<Rightarrow> True))
     \<and> (hp_state p = kExpectChunkLen \<longrightarrow> (case search crlf s of Some n \<Rightarrow> chunk_line_safe (take n s) | None \<Rightarrow> True))"

lemma ProcessMethodLine_ok:
  assumes "3 \<le> length (split l CHR '' '')"
  shows "\<exists>r b. ProcessMethodLine split l p = p\<lparr>hp_is_request := b, hp_req := Some r\<rparr> \<and> rq_headers r = Map.empty"
proof -
  obtain a b c ls where l: "split l CHR '' '' = a # b # c # ls"
    using assms by (cases "split l CHR '' ''" rule: remdups_adj.cases) (auto simp: Suc_le_length_iff numeral_3_eq_3)
  have q: "rq_headers (SetQuery split q x) = rq_headers x" for q x
  proof -
    have "rq_headers (fold (\<lambda>l r. case cut_at CHR ''='' l of Some (k, v) \<Rightarrow> SetParameter (Trim k) (Trim v) r | None \<Rightarrow> r) fs y) = rq_headers y" for fs y
      by (induction fs arbitrary: y) (auto simp: SetParameter_def split: option.splits)
    then show ?thesis by (simp add: SetQuery_def ParseParameters_def)
  qed
  have sets: "rq_headers (SetVersionString v x) = rq_headers x" "rq_headers (SetPath v x) = rq_headers x"
    "rq_headers (SetMethodString v x) = rq_headers x" "rq_headers (SetStatusCode n x) = rq_headers x"
    "rq_headers (HttpRequest_init y) = Map.empty" for v x n y
    by (simp_all add: SetVersionString_def SetPath_def SetMethodString_def SetStatusCode_def HttpRequest_init_def)
  show ?thesis
  proof (cases "take 4 (map tolower a) = ''http''")
    case True
    then show ?thesis
      by (intro exI [of _ "SetStatusCode (atoi b) (SetVersionString a (HttpRequest_init False))"] exI [of _ False])
        (simp add: ProcessMethodLine_def l at_def Let_def sets)
  next
    case False
    define r where "r = (case cut_at CHR ''?'' b of
         Some (x, y) \<Rightarrow> SetQuery split y (SetPath x (SetMethodString a (HttpRequest_init True)))
       | None \<Rightarrow> SetPath b (SetMethodString a (HttpRequest_init True)))"
    have "rq_headers r = Map.empty" by (auto simp: r_def q sets split: option.splits)
    with False show ?thesis
      by (intro exI [of _ "SetVersionString c r"] exI [of _ True])
        (simp add: ProcessMethodLine_def l at_def Let_def sets r_def)
  qed
qed

lemma declared_length:
  assumes "list_all declared_ok ls" and "\<And>n. stoull (GetHeader ''content-length'' r) = Some n \<Longrightarrow> n < 2 ^ 31"
    and "stoull (GetHeader ''content-length'' (fold header_line ls r)) = Some n"
  shows "n < 2 ^ 31"
  using assms
proof (induction ls arbitrary: r)
  case (Cons l ls)
  have "m < 2 ^ 31" if "stoull (GetHeader ''content-length'' (header_line l r)) = Some m" for m
    using that Cons.prems(1,2)
    by (auto simp: header_line_def declared_ok_def GetHeader_def AddHeader_def tolower_content_length simp del: list.map
        split: option.splits if_splits)
  then show ?case
    by (rule Cons.IH [of "header_line l r", rotated]) (use Cons.prems in simp_all)
qed simp

lemma header_lines_fault: "hp_fault (body_state r p) = hp_fault p" "hp_chunk (body_state r p) = hp_chunk p"
  by (auto simp: body_state_def hp_fail_def Let_def split: option.splits)

lemma ParseHeaders_ok:
  assumes "header_safe split (hp_header p)" and "\<not> hp_fault p" and "hp_chunk p = None"
  shows "parser_inv (ParseHeaders split p)"
proof (cases "split (hp_header p) LF")
  case Nil
  then show ?thesis using assms by (simp add: ParseHeaders_def LF_def [symmetric] hp_fail_def parser_inv_def)
next
  case (Cons l ls)
  have "3 \<le> length (split l CHR '' '')" and decl: "list_all declared_ok (l # ls)"
    using assms(1) by (auto simp: header_safe_def Cons)
  then obtain r b where line: "ProcessMethodLine split l p = p\<lparr>hp_is_request := b, hp_req := Some r\<rparr>" "rq_headers r = Map.empty"
    using ProcessMethodLine_ok by blast
  define r' where "r' = fold header_line (l # ls) r"
  define q where "q = p\<lparr>hp_is_request := b, hp_req := Some r'\<rparr>"
  have run: "ParseHeaders split p = body_state r' q"
    using Cons line by (simp add: ParseHeaders_def LF_def [symmetric] r'_def q_def Let_def)
  have "stoull [] = None" by code_simp
  then have none: "stoull (GetHeader ''content-length'' r) = None" by (simp add: GetHeader_def line(2))
  have small: "n < 2 ^ 31" if "stoull (GetHeader ''content-length'' r') = Some n" for n
    using declared_length [OF decl, of r n] none that by (simp add: r'_def del: fold_simps)
  then have len: "to_int32 (int n) = int n" if "stoull (GetHeader ''content-length'' r') = Some n" for n
    using that by (intro to_int32_id) simp_all
  show ?thesis
    using assms(2,3) small len unfolding run
    by (auto simp: body_state_def hp_fail_def parser_inv_def Let_def q_def split: option.splits)
qed

lemma ParseChunkLen_ok:
  assumes "parser_inv p" and "hp_state p = kExpectChunkLen" and inv: "mb_inv buf" and "input_safe split p (Peek buf)"
    and "ParseChunkLen p buf = (p', buf')"
  shows "parser_inv p' \<and> consumed buf buf'"
proof (cases "FindCRLF buf")
  case None
  have "consumed buf (RetrieveAll buf)"
    using RetrieveAll_ok [OF inv] by (auto simp: consumed_def intro: exI [of _ "length (Peek buf)"])
  with None show ?thesis
    using assms consumed_refl [OF inv] by (auto simp: ParseChunkLen_def parser_inv_def hp_fail_def split: if_splits)
next
  case (Some n)
  define v where "v = strtol (take n (Peek buf)) 16"
  have "chunk_line_safe (take n (Peek buf))"
    using assms(2,4) Some by (simp add: input_safe_def FindCRLF_def mb_CRLF_def crlf_def)
  then have v: "0 \<le> v" "v < 2 ^ 31 - 2" by (simp_all add: chunk_line_safe_def v_def)
  then have id: "to_int32 v = v" "to_int32 (v + 2) = v + 2" by (auto intro!: to_int32_id)
  have buf': "buf' = Retrieve (n + 2) buf"
    using assms(5) Some by (auto simp: ParseChunkLen_def Let_def RetrieveUntil_def split: if_splits)
  have "parser_inv p'"
    using assms(1,2,5) Some v id
    by (auto simp: ParseChunkLen_def Let_def v_def [symmetric] parser_inv_def hp_fail_def split: if_splits)
  then show ?thesis using consumed_Retrieve [OF inv] buf' by simp
qed

lemma ParseLastEmptyChunk_ok:
  assumes "parser_inv p" and inv: "mb_inv buf" and "ParseLastEmptyChunk p buf = (p', buf')"
  shows "parser_inv p' \<and> consumed buf buf'"
  using assms consumed_refl [OF inv] consumed_Retrieve [OF inv]
  by (auto simp: ParseLastEmptyChunk_def RetrieveUntil_def parser_inv_def split: option.splits)

lemma ParseExpectHeaders_ok:
  assumes "parser_inv p" and "hp_state p = kExpectHeaders" and inv: "mb_inv buf" and "input_safe split p (Peek buf)"
    and "ParseExpectHeaders split p buf = (st, p', buf')"
  shows "parser_inv p' \<and> consumed buf buf' \<and> (st = hp_state p' \<or> st = kExpectContinue)"
proof -
  have p: "\<not> hp_fault p" "hp_chunk p = None" using assms(1,2) by (auto simp: parser_inv_def)
  have "parser_inv (ParseHeaders split (p\<lparr>hp_header := take n (Peek buf)\<rparr>))" if "search CRLFCRLF (Peek buf) = Some n" for n
    using that assms(2,4) p by (intro ParseHeaders_ok) (simp_all add: input_safe_def)
  then show ?thesis
    using assms p consumed_refl [OF inv] consumed_Retrieve [OF inv]
    by (auto simp: ParseExpectHeaders_def Let_def hp_fail_def parser_inv_def split: option.splits if_splits)
qed

text \<open>
  C20: from a consistent state the parser reads only what is in the buffer, writes only inside the packet
  it collects, keeps its invariant and hands out packets whose size is within their memory, on any
  input whose header has a complete first line and a declared length below two gigabytes, and whose
  chunk lengths are neither negative nor too large.
\<close>

theorem http_parser_safe:
  assumes "parser_inv p" and "mb_inv buf" and "length (Peek buf) < 2 ^ 31"
    and "input_safe split (parser_clear p) (Peek buf)" and "parser_Parse split p buf = (st, p', buf')"
  shows "parser_inv p' \<and> mb_inv buf' \<and> (\<exists>n. Peek buf' = drop n (Peek buf))
    \<and> (st = kExpectHttpComplete \<or> st = kExpectChunkComplete \<longrightarrow> (\<forall>c. hp_chunk p' = Some c \<longrightarrow> packet_bytes c \<noteq> None))"
proof -
  define q where "q = parser_clear p"
  have q: "parser_inv q" "hp_state q \<noteq> kExpectHttpComplete" "hp_state q \<noteq> kExpectChunkComplete"
    using parser_clear_ok [OF assms(1)] by (auto simp: q_def)
  have "parser_inv p' \<and> consumed buf buf' \<and> (st = hp_state p' \<or> st = kExpectContinue)"
  proof (cases "ReadableBytes buf = 0")
    case True
    then show ?thesis using assms(1,2,5) consumed_refl by (auto simp: parser_Parse_def)
  next
    case False
    then have run: "parser_switch split q buf = (st, p', buf')"
      using assms(5) by (simp add: parser_Parse_def q_def)
    show ?thesis
    proof (cases "hp_state q")
      case kExpectHeaders
      then show ?thesis
        using ParseExpectHeaders_ok [OF q(1) _ assms(2), of split st p' buf'] run assms(4) by (simp add: parser_switch_def q_def)
    next
      case kExpectNormalBody
      then show ?thesis
        using ParseNormalBody_ok [OF q(1) _ assms(2,3), of p' buf'] run by (auto simp: parser_switch_def case_prod_beta prod_eq_iff)
    next
      case kExpectStreamBody
      then show ?thesis
        using ParseStream_ok [OF q(1) _ assms(2,3), of p' buf'] run by (auto simp: parser_switch_def case_prod_beta prod_eq_iff)
    next
      case kExpectChunkLen
      then show ?thesis
        using ParseChunkLen_ok [OF q(1) _ assms(2), of split p' buf'] run assms(4) by (auto simp: parser_switch_def case_prod_beta prod_eq_iff q_def)
    next
      case kExpectChunkBody
      then show ?thesis
        using ParseChunk_ok [OF q(1) _ assms(2,3), of p' buf'] run by (auto simp: parser_switch_def case_prod_beta prod_eq_iff)
    next
      case kExpectLastEmptyChunk
      then show ?thesis
        using ParseLastEmptyChunk_ok [OF q(1) assms(2), of p' buf'] run by (auto simp: parser_switch_def case_prod_beta prod_eq_iff)
    qed (use q run consumed_refl [OF assms(2)] in \<open>auto simp: parser_switch_def\<close>)
  qed
  moreover have "packet_bytes c \<noteq> None" if "packet_ok c" for c
  proof -
    have "0 \<le> PacketSize c" "PacketSize c \<le> int (length (pk_data c))"
      unfolding packet_ok_sizes(1) [OF that] using that by (simp_all only: packet_ok_def of_nat_le_iff of_nat_0_le_iff)
    then show ?thesis by (simp add: packet_bytes_def)
  qed
  ultimately show ?thesis
    by (auto simp: consumed_def parser_inv_def)
qed

theorem http_parser_safe_witness:
  "case parser_Parse split_fields HttpParser_init (mb_Append (''GET / HTTP/1.1'' @ crlf @ crlf) (MsgBuffer_init kBufferDefaultLength)) of
     (st, p', buf') \<Rightarrow> parser_inv p' \<and> mb_inv buf'"
proof -
  let ?s = "''GET / HTTP/1.1'' @ crlf @ crlf"
  have safe: "input_safe split_fields (parser_clear HttpParser_init) ?s" by code_simp
  have "length ?s < 2 ^ 31" by (simp add: crlf_def)
  then show ?thesis
    using http_parser_safe [OF parser_inv_init mb_inv_received [of ?s], of split_fields] safe
    unfolding Peek_received by (simp split: prod.splits)
qed

text \<open>The second step: a packet of \<open>n + 2\<close> bytes is collected and two bytes are taken off its size.\<close>

lemma negative_chunk:
  assumes "mb_inv buf" "Peek buf \<noteq> []" "length (Peek buf) < 2 ^ 31" "hp_state p = kExpectChunkBody" "hp_chunk p = None"
    "hp_chunk_length p = n + 2" "n < 0" "parser_Parse split p buf = (st, p', buf')"
  shows "- 2 \<le> n \<Longrightarrow> st = kExpectChunkComplete \<and> (\<exists>k. hp_chunk p' = Some k \<and> pk_size k = word_of_int n \<and> length (pk_data k) = nat (n + 2))"
    and "n < - 2 \<Longrightarrow> hp_fault p'"
proof -
  have run: "parser_Parse split p buf = (let (q, b) = ParseChunk p buf in (hp_state q, q, b))"
    using assms(1,2,4) by (simp add: parser_Parse_def parser_switch_def parser_clear_def ReadableBytes_Peek case_prod_beta)
  show "hp_fault p'" if "n < - 2"
    using assms(5,6,8) that unfolding run by (auto simp: ParseChunk_def transfer_def NewPacket_def)
  show "st = kExpectChunkComplete \<and> (\<exists>k. hp_chunk p' = Some k \<and> pk_size k = word_of_int n \<and> length (pk_data k) = nat (n + 2))" if "- 2 \<le> n"
  proof -
    define c where "c = take (nat (n + 2)) (Peek buf)"
    have "1 \<le> length (Peek buf)" using assms(2) by (cases "Peek buf") simp_all
    then have c: "int (length c) = n + 2" using assms(7) that by (auto simp: c_def min_def)
    then have t: "transfer (n + 2) None buf = Some (n + 2, body_packet c, Retrieve (length c) buf)"
      using transfer_whole[OF assms(1) _ assms(3), of c "drop (nat (n + 2)) (Peek buf)"] by (simp add: c_def)
    have "length c < 2 ^ 31" using c assms(7) by simp
    then have p: "PacketSize (body_packet c) = n + 2"
      using sint_of_nat32[of "length c"] c by (simp add: body_packet_def PacketSize_def)
    have w: "word_of_nat (nat (n mod 2 ^ 64)) = (word_of_int n :: u32)"
    proof -
      have "int (nat (n mod 2 ^ 64)) = n mod 2 ^ 64" by (rule nat_0_le) simp
      then have "(word_of_nat (nat (n mod 2 ^ 64)) :: u32) = word_of_int (n mod 2 ^ 64)" by (metis of_int_of_nat_eq)
      also have "\<dots> = word_of_int n" unfolding word_of_int_eq_iff take_bit_eq_mod by (rule mod_mod_cancel) simp
      finally show ?thesis .
    qed
    show ?thesis
      using assms(5,6,8) t p c w unfolding run by (auto simp: ParseChunk_def Let_def SetPacketSize_def body_packet_def)
  qed
qed

text \<open>
  Let the line in front of a chunk be read by \<open>strtol\<close> as the non-zero number \<open>n\<close> (after its conversion to \<open>int32_t\<close>). If \<open>n + 2\<close> is an
  \<open>int32_t\<close>, the parser goes on to read a chunk body of \<open>n + 2\<close> bytes, also when \<open>n\<close> is above the limit of one megabyte or negative. For \<open>n\<close> = -1 and -2
  the next byte completes the chunk, with a packet whose size, as a 32 bit number, is \<open>n\<close> and whose memory has \<open>n + 2\<close> bytes; for smaller \<open>n\<close> a
  packet of a negative size is allocated. For the two largest \<open>n\<close> the addition overflows.
\<close>

theorem chunk_length_unchecked:
  assumes "mb_inv buf" and "Peek buf = ds @ crlf @ rest" and "CHR 0x0D \<notin> set ds" and "length (Peek buf) < 2 ^ 31"
    and "hp_state p = kExpectChunkLen" and "hp_chunk p = None" and "n = to_int32 (strtol ds 16)" and "n \<noteq> 0" and "rest \<noteq> []"
  shows "case parser_Parse split p buf of (st, p', buf') \<Rightarrow>
       (n + 2 < 2 ^ 31 \<longrightarrow> st = kExpectChunkBody \<and> hp_chunk_length p' = n + 2 \<and> hp_fault p' = hp_fault p \<and> Peek buf' = rest
         \<and> (case parser_Parse split p' buf' of (st'', p'', buf'') \<Rightarrow>
              (- 2 \<le> n \<and> n < 0 \<longrightarrow> st'' = kExpectChunkComplete \<and>
                 (\<exists>k. hp_chunk p'' = Some k \<and> pk_size k = word_of_int n \<and> length (pk_data k) = nat (n + 2)))
              \<and> (n < - 2 \<longrightarrow> hp_fault p'')))
       \<and> (2 ^ 31 \<le> n + 2 \<longrightarrow> hp_fault p')"
proof -
  have "search crlf (ds @ crlf @ rest) = Some (length ds)"
    using assms(3) search_skip [of crlf ds "crlf @ rest"] by (simp add: crlf_def)
  then have found: "FindCRLF buf = Some (length ds)"
    using assms(2) by (simp add: FindCRLF_def mb_CRLF_def crlf_def)
  define p' where "p' = fst (ParseChunkLen p buf)"
  define buf' where "buf' = Retrieve (length ds + 2) buf"
  have "n \<ge> - (2 ^ 31)" unfolding assms(7) to_int32_def using sint_greater_eq[of "word_of_int (strtol ds 16) :: u32"] by simp
  then have id: "to_int32 (n + 2) = n + 2" if "n + 2 < 2 ^ 31" using that by (intro to_int32_id) simp_all
  have p': "hp_state p' = kExpectChunkBody" "hp_chunk_length p' = to_int32 (n + 2)" "hp_chunk p' = None"
      "hp_fault p' \<longleftrightarrow> hp_fault p \<or> 2 ^ 31 \<le> n + 2"
    using found assms(2,6,7,8) by (auto simp: p'_def ParseChunkLen_def Let_def hp_fail_def)
  have buf': "mb_inv buf'" "Peek buf' = rest"
    using Retrieve_ok [OF assms(1)] assms(2) by (simp_all add: buf'_def crlf_def)
  have "ParseChunkLen p buf = (p', buf')"
    using found assms(2,7,8) by (auto simp: p'_def buf'_def ParseChunkLen_def Let_def RetrieveUntil_def)
  moreover have "ReadableBytes buf \<noteq> 0" using assms(1,2) by (simp add: ReadableBytes_Peek crlf_def)
  ultimately have first: "parser_Parse split p buf = (kExpectChunkBody, p', buf')"
    using assms(5) p'(1) by (simp add: parser_Parse_def parser_switch_def parser_clear_def)
  obtain st'' p'' buf'' where second: "parser_Parse split p' buf' = (st'', p'', buf'')" by (cases "parser_Parse split p' buf'") auto
  have "length (Peek buf') < 2 ^ 31" using assms(2,4) buf'(2) by simp
  then show ?thesis
    using negative_chunk[OF buf'(1) _ _ p'(1,3) _ _ second, of n] buf'(2) assms(9) p' id first second by auto
qed

theorem chunk_length_unchecked_witness:
  "fst (parser_Parse split_fields (HttpParser_init\<lparr>hp_is_chunked := True, hp_state := kExpectChunkLen\<rparr>)
      (mb_Append (''-1'' @ crlf @ ''x'') (MsgBuffer_init kBufferDefaultLength))) = kExpectChunkBody"
proof -
  have "to_int32 (strtol ''-1'' 16) = -1" by code_simp
  then show ?thesis
    using chunk_length_unchecked [of "mb_Append (''-1'' @ crlf @ ''x'') (MsgBuffer_init kBufferDefaultLength)" "''-1''" "''x''"
        "HttpParser_init\<lparr>hp_is_chunked := True, hp_state := kExpectChunkLen\<rparr>" "- 1" split_fields,
        OF mb_inv_received Peek_received]
    unfolding Peek_received by (simp add: HttpParser_init_def crlf_def split: prod.splits)
qed

text \<open>
  The sending side. While \<open>post_state_\<close> is not the initial one, posting a string, a request with a packet, a chunk header, a stream header or a
  stream chunk is refused and changes nothing, but \<open>PostRequest\<close> returns \<open>true\<close> all the same, and \<open>PostChunk\<close> and \<open>PostEofChunk\<close> send whatever the state is.
  From the initial state each completed write sends the next part, in the order header, body (or length and data of a chunk), and the last one
  signals the owner; a posted chunk or stream header leaves the state the initial one, so its completion is not noticed.
\<close>

lemma posting_refused:
  assumes "cx_post c \<noteq> kHttpContextPostInit"
  shows "PostRequestString h c = (False, c)" "PostRequestPacket h pk c = (False, c)" "PostChunkHeader h c = (False, c)"
    "PostStreamHeader h c = (False, c)" "PostStreamChunk pk c = (False, c)" "PostRequest order r c = (True, c)"
  using assms by (simp_all add: PostRequestString_def PostRequestPacket_def PostChunkHeader_def PostStreamHeader_def PostStreamChunk_def
      PostRequest_def)

lemma posting_unchecked:
  "cx_events (PostEofChunk c) = cx_events c @ [AsyncSend CHUNK_EOF]"
  "cx_header_sent c \<Longrightarrow> cx_events (PostChunk pk c) = cx_events c @ [AsyncSend (hexadecimal (unat (pk_size pk)) @ crlf)]"
  by (simp_all add: PostEofChunk_def PostChunk_def emit_def Let_def)

lemma posting_order:
  assumes "cx_post c = kHttpContextPostInit" and "packet_bytes pk = Some s"
  shows "\<exists>c'. PostRequestString h c = (True, c') \<and> WriteComplete c' = c\<lparr>cx_header := h, cx_events := cx_events c @ [AsyncSend h, OnSent]\<rparr>"
    and "\<exists>c'. PostRequestPacket h pk c = (True, c') \<and> WriteComplete (WriteComplete c')
      = c\<lparr>cx_header := h, cx_packet := Some pk, cx_events := cx_events c @ [AsyncSend h, AsyncSend s, OnSent]\<rparr>"
    and "\<exists>c'. PostChunkHeader h c = (True, c') \<and> cx_post c' = kHttpContextPostInit \<and> WriteComplete (WriteComplete (PostChunk pk c'))
      = c\<lparr>cx_header := hexadecimal (unat (pk_size pk)) @ crlf, cx_packet := Some pk, cx_header_sent := True,
          cx_events := cx_events c @ [AsyncSend h, AsyncSend (hexadecimal (unat (pk_size pk)) @ crlf), AsyncSend s, OnSentNextChunk]\<rparr>"
    and "WriteComplete (PostEofChunk c) = c\<lparr>cx_events := cx_events c @ [AsyncSend CHUNK_EOF, OnSent]\<rparr>"
    and "\<exists>c' c''. PostStreamHeader h c = (True, c') \<and> cx_post c' = kHttpContextPostInit \<and> PostStreamChunk pk c' = (True, c'') \<and> WriteComplete c''
      = c\<lparr>cx_header := h, cx_packet := Some pk, cx_header_sent := True, cx_events := cx_events c @ [AsyncSend h, AsyncSend s, OnSentNextChunk]\<rparr>"
  using assms by (simp_all add: PostRequestString_def PostRequestPacket_def PostChunkHeader_def PostStreamHeader_def PostStreamChunk_def
      PostChunk_def PostEofChunk_def WriteComplete_def send_packet_def emit_def Let_def)

end
