(* ===== verification/Fec_Masks.thy ===== *)
theory Fec_Masks
  imports Byte_Io
begin

text \<open>
  \<open>forward_error_correction_internal.cc\<close> and the private tables: which media packets a FEC packet protects. A
  mask has one row per FEC packet; each row has two or six bytes, and the bit for media packet \<open>c\<close> is bit
  \<open>7 - c mod 8\<close> of byte \<open>c div 8\<close>.
\<close>

subsection \<open>Tables\<close>

text \<open>The macro \<open>kPacketMask\<dots>N\<close> is the number of masks followed by the masks.\<close>

definition packet_mask_entry :: "byte list list \<Rightarrow> byte list" where
  "packet_mask_entry masks = of_nat (length masks) # concat masks"

definition kMaskRandom1 :: "byte list list" where
  "kMaskRandom1 = [
     [0x80, 0x00]]"

definition kMaskRandom2 :: "byte list list" where
  "kMaskRandom2 = [
     [0xc0, 0x00],
     [0xc0, 0x00, 0x80, 0x00]]"

definition kMaskRandom3 :: "byte list list" where
  "kMaskRandom3 = [
     [0xe0, 0x00],
     [0xc0, 0x00, 0xa0, 0x00],
     [0xc0, 0x00, 0xa0, 0x00, 0x60, 0x00]]"

definition kMaskRandom4 :: "byte list list" where
  "kMaskRandom4 = [
     [0xf0, 0x00],
     [0xc0, 0x00, 0xb0, 0x00],
     [0xc0, 0x00, 0xb0, 0x00, 0x60, 0x00],
     [0xc0, 0x00, 0xa0, 0x00, 0x30, 0x00, 0x50, 0x00]]"

definition kMaskRandom5 :: "byte list list" where
  "kMaskRandom5 = [
     [0xf8, 0x00],
     [0xa8, 0x00, 0xd0, 0x00],
     [0xb0, 0x00, 0xc8, 0x00, 0x50, 0x00],
     [0xc8, 0x00, 0xb0, 0x00, 0x50, 0x00, 0x28, 0x00],
     [0xc0, 0x00, 0x30, 0x00, 0x18, 0x00, 0xa0, 0x00, 0x48, 0x00]]"

definition kMaskRandom6 :: "byte list list" where
  "kMaskRandom6 = [
     [0xfc, 0x00],
     [0xa8, 0x00, 0xd4, 0x00],
     [0xd0, 0x00, 0x68, 0x00, 0xa4, 0x00],
     [0xa8, 0x00, 0x58, 0x00, 0x64, 0x00, 0x94, 0x00],
     [0xa8, 0x00, 0x84, 0x00, 0x64, 0x00, 0x90, 0x00, 0x58, 0x00],
     [0x98, 0x00, 0x64, 0x00, 0x50, 0x00, 0x14, 0x00, 0xa8, 0x00, 0xe0, 0x00]]"

definition kMaskRandom7 :: "byte list list" where
  "kMaskRandom7 = [
     [0xfe, 0x00],
     [0xd4, 0x00, 0xaa, 0x00],
     [0xd0, 0x00, 0xaa, 0x00, 0x64, 0x00],
     [0xd0, 0x00, 0xaa, 0x00, 0x64, 0x00, 0x1c, 0x00],
     [0x0c, 0x00, 0xb0, 0x00, 0x1a, 0x00, 0xc4, 0x00, 0x62, 0x00],
     [0x8c, 0x00, 0x4a, 0x00, 0x64, 0x00, 0xd0, 0x00, 0xa0, 0x00, 0x32, 0x00],
     [0x4a, 0x00, 0x94, 0x00, 0x1a, 0x00, 0xc4, 0x00, 0x28, 0x00, 0xc2, 0x00, 0x34, 0x00]]"

definition kMaskRandom8 :: "byte list list" where
  "kMaskRandom8 = [
     [0xff, 0x00],
     [0xaa, 0x00, 0xd5, 0x00],
     [0xc5, 0x00, 0x92, 0x00, 0x6a, 0x00],
     [0x45, 0x00, 0xb4, 0x00, 0x6a, 0x00, 0x89, 0x00],
     [0x8c, 0x00, 0x92, 0x00, 0x2b, 0x00, 0x51, 0x00, 0x64, 0x00],
     [0xa1, 0x00, 0x52, 0x00, 0x91, 0x00, 0x2a, 0x00, 0xc4, 0x00, 0x4c, 0x00],
     [0x15, 0x00, 0xc2, 0x00, 0x25, 0x00, 0x62, 0x00, 0x58, 0x00, 0x8c, 0x00, 0xa3, 0x00],
     [0x25, 0x00, 0x8a, 0x00, 0x91, 0x00, 0x68, 0x00, 0x32, 0x00, 0x43, 0x00, 0xc4, 0x00, 0x1c,
      0x00]]"

definition kMaskRandom9 :: "byte list list" where
  "kMaskRandom9 = [
     [0xff, 0x80],
     [0xaa, 0x80, 0xd5, 0x00],
     [0xa5, 0x00, 0xc8, 0x00, 0x52, 0x80],
     [0xa2, 0x00, 0xc9, 0x00, 0x52, 0x80, 0x24, 0x80],
     [0x8c, 0x00, 0x25, 0x00, 0x92, 0x80, 0x41, 0x80, 0x58, 0x00],
     [0x84, 0x80, 0x27, 0x00, 0x51, 0x80, 0x1a, 0x00, 0x68, 0x00, 0x89, 0x00],
     [0x8c, 0x00, 0x47, 0x00, 0x81, 0x80, 0x12, 0x80, 0x58, 0x00, 0x28, 0x80, 0xb4, 0x00],
     [0x2c, 0x00, 0x91, 0x00, 0x40, 0x80, 0x06, 0x80, 0xc8, 0x00, 0x45, 0x00, 0x30, 0x80, 0xa2,
      0x00],
     [0x4c, 0x00, 0x62, 0x00, 0x91, 0x00, 0x42, 0x80, 0xa4, 0x00, 0x13, 0x00, 0x30, 0x80, 0x88,
      0x80, 0x09, 0x00]]"

definition kMaskRandom10 :: "byte list list" where
  "kMaskRandom10 = [
     [0xff, 0xc0],
     [0xaa, 0x80, 0xd5, 0x40],
     [0xa4, 0x40, 0xc9, 0x00, 0x52, 0x80],
     [0xca, 0x00, 0x32, 0x80, 0xa1, 0x40, 0x55, 0x00],
     [0xca, 0x00, 0x32, 0x80, 0xa1, 0x40, 0x55, 0x00, 0x08, 0xc0],
     [0x0e, 0x00, 0x33, 0x00, 0x10, 0xc0, 0x45, 0x40, 0x88, 0x80, 0xe0, 0x00],
     [0x46, 0x00, 0x33, 0x00, 0x80, 0xc0, 0x0c, 0x40, 0x28, 0x80, 0x94, 0x00, 0xc1, 0x00],
     [0x2c, 0x00, 0x81, 0x80, 0xa0, 0x40, 0x05, 0x40, 0x18, 0x80, 0xc2, 0x00, 0x22, 0x80, 0x50,
      0x40],
     [0x4c, 0x00, 0x23, 0x00, 0x88, 0xc0, 0x21, 0x40, 0x52, 0x80, 0x94, 0x00, 0x26, 0x00, 0x48,
      0x40, 0x91, 0x80],
     [0x4c, 0x00, 0x51, 0x00, 0xa0, 0x40, 0x04, 0xc0, 0x03, 0x80, 0x86, 0x00, 0x29, 0x00, 0x42,
      0x40, 0x98, 0x00, 0x30, 0x80]]"

definition kMaskRandom11 :: "byte list list" where
  "kMaskRandom11 = [
     [0xff, 0xe0],
     [0xec, 0xc0, 0x9b, 0xa0],
     [0xca, 0xc0, 0xf1, 0x40, 0xb6, 0x20],
     [0xc4, 0xc0, 0x31, 0x60, 0x4b, 0x20, 0x2c, 0xa0],
     [0x86, 0x80, 0x23, 0x20, 0x16, 0x20, 0x4c, 0x20, 0x41, 0xc0],
     [0x64, 0x40, 0x51, 0x40, 0x0c, 0xa0, 0xa1, 0x20, 0x12, 0xa0, 0x8a, 0x40],
     [0x46, 0x40, 0x33, 0x20, 0x91, 0x80, 0xa4, 0x20, 0x50, 0xa0, 0x84, 0xc0, 0x09, 0x60],
     [0x0c, 0x80, 0x80, 0x60, 0xa0, 0x80, 0x05, 0x40, 0x43, 0x00, 0x1a, 0x00, 0x60, 0x20, 0x14,
      0x20],
     [0x46, 0x40, 0x62, 0x60, 0x8c, 0x00, 0x01, 0x60, 0x07, 0x80, 0xa0, 0x80, 0x18, 0xa0, 0x91,
      0x00, 0x78, 0x00],
     [0x64, 0x40, 0x51, 0x40, 0xa9, 0x00, 0x04, 0xc0, 0xd0, 0x00, 0x82, 0x40, 0x21, 0x20, 0x0c,
      0x20, 0x4a, 0x00, 0x12, 0xa0],
     [0x46, 0x40, 0x33, 0x20, 0x99, 0x00, 0x05, 0x80, 0x80, 0xa0, 0x84, 0x40, 0x40, 0x60, 0x0a,
      0x80, 0x68, 0x00, 0x10, 0x20, 0x30, 0x40]]"

definition kMaskRandom12 :: "byte list list" where
  "kMaskRandom12 = [
     [0xff, 0xf0],
     [0xec, 0xc0, 0x93, 0xb0],
     [0x9b, 0x80, 0x4f, 0x10, 0x3c, 0x60],
     [0x8b, 0x20, 0x14, 0xb0, 0x22, 0xd0, 0x45, 0x50],
     [0x53, 0x60, 0x64, 0x20, 0x0c, 0xc0, 0x82, 0xa0, 0x09, 0x30],
     [0x51, 0x40, 0xc5, 0x10, 0x21, 0x80, 0x12, 0x30, 0x08, 0xe0, 0x2e, 0x00],
     [0x53, 0x60, 0x21, 0x30, 0x90, 0x90, 0x02, 0x50, 0x06, 0xa0, 0x2c, 0x00, 0x88, 0x60],
     [0x20, 0x60, 0x80, 0x30, 0x42, 0x40, 0x01, 0x90, 0x14, 0x10, 0x0a, 0x80, 0x38, 0x00, 0xc5,
      0x00],
     [0x53, 0x60, 0xe4, 0x20, 0x24, 0x40, 0xa1, 0x10, 0x18, 0x30, 0x03, 0x90, 0x8a, 0x10, 0x04,
      0x90, 0x00, 0xe0],
     [0x51, 0x40, 0x45, 0x10, 0x80, 0xd0, 0x24, 0x20, 0x0a, 0x20, 0x00, 0xe0, 0xb8, 0x00, 0x09,
      0x10, 0x56, 0x00, 0xa2, 0x80],
     [0x53, 0x60, 0x21, 0x30, 0x10, 0x90, 0x00, 0x70, 0x0c, 0x10, 0x40, 0xc0, 0x6a, 0x00, 0x86,
      0x00, 0x24, 0x80, 0x89, 0x00, 0xc0, 0x20],
     [0x10, 0x60, 0x02, 0x30, 0x40, 0x50, 0x21, 0x80, 0x81, 0x10, 0x14, 0x80, 0x98, 0x00, 0x08,
      0x90, 0x62, 0x00, 0x24, 0x20, 0x8a, 0x00, 0x84, 0x40]]"

definition kPacketMaskRandomTbl :: "byte list" where
  "kPacketMaskRandomTbl = 12 # concat (map packet_mask_entry
     [kMaskRandom1, kMaskRandom2, kMaskRandom3, kMaskRandom4, kMaskRandom5, kMaskRandom6,
      kMaskRandom7, kMaskRandom8, kMaskRandom9, kMaskRandom10, kMaskRandom11, kMaskRandom12])"

definition kMaskBursty1 :: "byte list list" where
  "kMaskBursty1 = [
     [0x80, 0x00]]"

definition kMaskBursty2 :: "byte list list" where
  "kMaskBursty2 = [
     [0xc0, 0x00],
     [0x80, 0x00, 0xc0, 0x00]]"

definition kMaskBursty3 :: "byte list list" where
  "kMaskBursty3 = [
     [0xe0, 0x00],
     [0xc0, 0x00, 0xa0, 0x00],
     [0x80, 0x00, 0xc0, 0x00, 0x60, 0x00]]"

definition kMaskBursty4 :: "byte list list" where
  "kMaskBursty4 = [
     [0xf0, 0x00],
     [0xa0, 0x00, 0xd0, 0x00],
     [0xc0, 0x00, 0x60, 0x00, 0x90, 0x00],
     [0x80, 0x00, 0xc0, 0x00, 0x60, 0x00, 0x30, 0x00]]"

definition kMaskBursty5 :: "byte list list" where
  "kMaskBursty5 = [
     [0xf8, 0x00],
     [0xd0, 0x00, 0xa8, 0x00],
     [0x70, 0x00, 0x90, 0x00, 0xc8, 0x00],
     [0xc0, 0x00, 0x60, 0x00, 0x30, 0x00, 0x88, 0x00],
     [0x80, 0x00, 0xc0, 0x00, 0x60, 0x00, 0x30, 0x00, 0x18, 0x00]]"

definition kMaskBursty6 :: "byte list list" where
  "kMaskBursty6 = [
     [0xfc, 0x00],
     [0xa8, 0x00, 0xd4, 0x00],
     [0x94, 0x00, 0xc8, 0x00, 0x64, 0x00],
     [0x60, 0x00, 0x38, 0x00, 0x88, 0x00, 0xc4, 0x00],
     [0xc0, 0x00, 0x60, 0x00, 0x30, 0x00, 0x18, 0x00, 0x84, 0x00],
     [0x80, 0x00, 0xc0, 0x00, 0x60, 0x00, 0x30, 0x00, 0x18, 0x00, 0x0c, 0x00]]"

definition kMaskBursty7 :: "byte list list" where
  "kMaskBursty7 = [
     [0xfe, 0x00],
     [0xd4, 0x00, 0xaa, 0x00],
     [0xc8, 0x00, 0x74, 0x00, 0x92, 0x00],
     [0x38, 0x00, 0x8a, 0x00, 0xc4, 0x00, 0x62, 0x00],
     [0x60, 0x00, 0x30, 0x00, 0x1c, 0x00, 0x84, 0x00, 0xc2, 0x00],
     [0xc0, 0x00, 0x60, 0x00, 0x30, 0x00, 0x18, 0x00, 0x0c, 0x00, 0x82, 0x00],
     [0x80, 0x00, 0xc0, 0x00, 0x60, 0x00, 0x30, 0x00, 0x18, 0x00, 0x0c, 0x00, 0x06, 0x00]]"

definition kMaskBursty8 :: "byte list list" where
  "kMaskBursty8 = [
     [0xff, 0x00],
     [0xaa, 0x00, 0xd5, 0x00],
     [0x74, 0x00, 0x92, 0x00, 0xc9, 0x00],
     [0x8a, 0x00, 0xc5, 0x00, 0x62, 0x00, 0x31, 0x00],
     [0x30, 0x00, 0x1c, 0x00, 0x85, 0x00, 0xc2, 0x00, 0x61, 0x00],
     [0x60, 0x00, 0x30, 0x00, 0x18, 0x00, 0x0e, 0x00, 0x82, 0x00, 0xc1, 0x00],
     [0xc0, 0x00, 0x60, 0x00, 0x30, 0x00, 0x18, 0x00, 0x0c, 0x00, 0x06, 0x00, 0x81, 0x00],
     [0x80, 0x00, 0xc0, 0x00, 0x60, 0x00, 0x30, 0x00, 0x18, 0x00, 0x0c, 0x00, 0x06, 0x00, 0x03,
      0x00]]"

definition kMaskBursty9 :: "byte list list" where
  "kMaskBursty9 = [
     [0xff, 0x80],
     [0xd5, 0x00, 0xaa, 0x80],
     [0x92, 0x00, 0xc9, 0x00, 0x74, 0x80],
     [0xc5, 0x00, 0x62, 0x00, 0x39, 0x00, 0x8a, 0x80],
     [0x1c, 0x00, 0x85, 0x00, 0xc2, 0x80, 0x61, 0x00, 0x30, 0x80],
     [0x30, 0x00, 0x18, 0x00, 0x0e, 0x00, 0x82, 0x80, 0xc1, 0x00, 0x60, 0x80],
     [0x60, 0x00, 0x30, 0x00, 0x18, 0x00, 0x0c, 0x00, 0x07, 0x00, 0x81, 0x00, 0xc0, 0x80],
     [0xc0, 0x00, 0x60, 0x00, 0x30, 0x00, 0x18, 0x00, 0x0c, 0x00, 0x06, 0x00, 0x03, 0x00, 0x80,
      0x80],
     [0x80, 0x00, 0xc0, 0x00, 0x60, 0x00, 0x30, 0x00, 0x18, 0x00, 0x0c, 0x00, 0x06, 0x00, 0x03,
      0x00, 0x01, 0x80]]"

definition kMaskBursty10 :: "byte list list" where
  "kMaskBursty10 = [
     [0xff, 0xc0],
     [0xaa, 0x80, 0xd5, 0x40],
     [0xc9, 0x00, 0x74, 0x80, 0x92, 0x40],
     [0x62, 0x00, 0x39, 0x00, 0x8a, 0x80, 0xc5, 0x40],
     [0x85, 0x00, 0xc2, 0x80, 0x61, 0x40, 0x30, 0x80, 0x18, 0x40],
     [0x18, 0x00, 0x0e, 0x00, 0x82, 0x80, 0xc1, 0x40, 0x60, 0x80, 0x30, 0x40],
     [0x30, 0x00, 0x18, 0x00, 0x0c, 0x00, 0x07, 0x00, 0x81, 0x40, 0xc0, 0x80, 0x60, 0x40],
     [0x60, 0x00, 0x30, 0x00, 0x18, 0x00, 0x0c, 0x00, 0x06, 0x00, 0x03, 0x00, 0x80, 0x80, 0xc0,
      0x40],
     [0xc0, 0x00, 0x60, 0x00, 0x30, 0x00, 0x18, 0x00, 0x0c, 0x00, 0x06, 0x00, 0x03, 0x00, 0x01,
      0x80, 0x80, 0x40],
     [0x80, 0x00, 0xc0, 0x00, 0x60, 0x00, 0x30, 0x00, 0x18, 0x00, 0x0c, 0x00, 0x06, 0x00, 0x03,
      0x00, 0x01, 0x80, 0x00, 0xc0]]"

definition kMaskBursty11 :: "byte list list" where
  "kMaskBursty11 = [
     [0xff, 0xe0],
     [0xd5, 0x40, 0xaa, 0xa0],
     [0x74, 0x80, 0x92, 0x40, 0xc9, 0x20],
     [0x39, 0x00, 0x8a, 0x80, 0xc5, 0x40, 0x62, 0x20],
     [0xc2, 0xc0, 0x61, 0x00, 0x30, 0xa0, 0x1c, 0x40, 0x85, 0x20],
     [0x0e, 0x00, 0x82, 0x80, 0xc1, 0x40, 0x60, 0xa0, 0x30, 0x40, 0x18, 0x20],
     [0x18, 0x00, 0x0c, 0x00, 0x07, 0x00, 0x81, 0x40, 0xc0, 0xa0, 0x60, 0x40, 0x30, 0x20],
     [0x30, 0x00, 0x18, 0x00, 0x0c, 0x00, 0x06, 0x00, 0x03, 0x40, 0x80, 0xa0, 0xc0, 0x40, 0x60,
      0x20],
     [0x60, 0x00, 0x30, 0x00, 0x18, 0x00, 0x0c, 0x00, 0x06, 0x00, 0x03, 0x00, 0x01, 0x80, 0x80,
      0x40, 0xc0, 0x20],
     [0xc0, 0x00, 0x60, 0x00, 0x30, 0x00, 0x18, 0x00, 0x0c, 0x00, 0x06, 0x00, 0x03, 0x00, 0x01,
      0x80, 0x00, 0xc0, 0x80, 0x20],
     [0x80, 0x00, 0xc0, 0x00, 0x60, 0x00, 0x30, 0x00, 0x18, 0x00, 0x0c, 0x00, 0x06, 0x00, 0x03,
      0x00, 0x01, 0x80, 0x00, 0xc0, 0x00, 0x60]]"

definition kMaskBursty12 :: "byte list list" where
  "kMaskBursty12 = [
     [0xff, 0xf0],
     [0xaa, 0xa0, 0xd5, 0x50],
     [0x92, 0x40, 0xc9, 0x20, 0x74, 0x90],
     [0x8a, 0x80, 0xc5, 0x40, 0x62, 0x20, 0x39, 0x10],
     [0x61, 0x00, 0x30, 0xa0, 0x1c, 0x50, 0x85, 0x20, 0xc2, 0x90],
     [0x82, 0x90, 0xc1, 0x40, 0x60, 0xa0, 0x30, 0x50, 0x18, 0x20, 0x0c, 0x10],
     [0x0c, 0x00, 0x07, 0x00, 0x81, 0x40, 0xc0, 0xa0, 0x60, 0x50, 0x30, 0x20, 0x18, 0x10],
     [0x18, 0x00, 0x0c, 0x00, 0x06, 0x00, 0x03, 0x00, 0x80, 0xa0, 0xc0, 0x50, 0x60, 0x20, 0x30,
      0x10],
     [0x30, 0x00, 0x18, 0x00, 0x0c, 0x00, 0x06, 0x00, 0x03, 0x00, 0x01, 0x80, 0x80, 0x50, 0xc0,
      0x20, 0x60, 0x10],
     [0x60, 0x00, 0x30, 0x00, 0x18, 0x00, 0x0c, 0x00, 0x06, 0x00, 0x03, 0x00, 0x01, 0x80, 0x00,
      0xc0, 0x80, 0x20, 0xc0, 0x10],
     [0xc0, 0x00, 0x60, 0x00, 0x30, 0x00, 0x18, 0x00, 0x0c, 0x00, 0x06, 0x00, 0x03, 0x00, 0x01,
      0x80, 0x00, 0xc0, 0x00, 0x60, 0x80, 0x10],
     [0x80, 0x00, 0xc0, 0x00, 0x60, 0x00, 0x30, 0x00, 0x18, 0x00, 0x0c, 0x00, 0x06, 0x00, 0x03,
      0x00, 0x01, 0x80, 0x00, 0xc0, 0x00, 0x60, 0x00, 0x30]]"

definition kPacketMaskBurstyTbl :: "byte list" where
  "kPacketMaskBurstyTbl = 12 # concat (map packet_mask_entry
     [kMaskBursty1, kMaskBursty2, kMaskBursty3, kMaskBursty4, kMaskBursty5, kMaskBursty6,
      kMaskBursty7, kMaskBursty8, kMaskBursty9, kMaskBursty10, kMaskBursty11, kMaskBursty12])"

subsection \<open>Lookup\<close>

definition kUlpfecMaxMediaPackets :: nat where "kUlpfecMaxMediaPackets = 48"
definition kUlpfecPacketMaskSizeLBitClear :: nat where "kUlpfecPacketMaskSizeLBitClear = 2"
definition kUlpfecPacketMaskSizeLBitSet :: nat where "kUlpfecPacketMaskSizeLBitSet = 6"

definition PacketMaskSize :: "nat \<Rightarrow> nat" where
  "PacketMaskSize num_sequence_numbers =
     (if num_sequence_numbers > 8 * kUlpfecPacketMaskSizeLBitClear then kUlpfecPacketMaskSizeLBitSet
      else kUlpfecPacketMaskSizeLBitClear)"

text \<open>\<open>entry += inc * (j + 1)\<close> for \<open>j\<close> from 0 below \<open>count\<close>.\<close>

fun skip_data :: "nat \<Rightarrow> nat \<Rightarrow> byte list \<Rightarrow> byte list" where
  "skip_data inc 0 entry = entry"
| "skip_data inc (Suc j) entry = drop (inc * Suc j) (skip_data inc j entry)"

text \<open>The loop over the entries in front of the wanted one; \<open>i\<close> counts them. \<open>None\<close> is a read behind the table.\<close>

fun skip_entries :: "nat \<Rightarrow> nat \<Rightarrow> nat \<Rightarrow> byte list \<Rightarrow> (nat \<times> byte list) option" where
  "skip_entries 0 i inc entry = Some (inc, entry)"
| "skip_entries (Suc n) i inc [] = None"
| "skip_entries (Suc n) i inc (count # entry) =
     (let inc = (if i = 16 then 6 else inc)
      in skip_entries n (Suc i) inc (skip_data inc (unat count) entry))"

definition LookUpInFecTable :: "byte list \<Rightarrow> nat \<Rightarrow> nat \<Rightarrow> byte list option" where
  "LookUpInFecTable table media_packet_index fec_index = (case skip_entries media_packet_index 0 2 (drop 1 table) of
     None \<Rightarrow> None
   | Some (inc, entry) \<Rightarrow>
       let inc = (if media_packet_index = 16 then 6 else inc);
           entry = skip_data inc fec_index (drop 1 entry);
           sz = inc * (fec_index + 1)
       in if sz \<le> length entry then Some (take sz entry) else None)"

text \<open>One byte of the mask for more than twelve media packets: media packet \<open>X\<close> is protected by FEC packet \<open>X mod N\<close>.\<close>

definition interleaved_byte :: "nat \<Rightarrow> nat \<Rightarrow> nat \<Rightarrow> nat \<Rightarrow> byte" where
  "interleaved_byte num_media_packets num_fec_packets row col =
     foldr (OR) (map (\<lambda>b. if (col * 8 + b) mod num_fec_packets = row \<and> col * 8 + b < num_media_packets
                          then drop_bit b 0x80 else 0) [0..<8]) 0"

definition kFECPacketMaskMaxSize :: nat where "kFECPacketMaskMaxSize = 288"

text \<open>\<open>None\<close> is also a store behind the \<open>fec_packet_mask_\<close> array.\<close>

definition LookUp :: "byte list \<Rightarrow> nat \<Rightarrow> nat \<Rightarrow> byte list option" where
  "LookUp table num_media_packets num_fec_packets =
     (if num_media_packets \<le> 12 then LookUpInFecTable table (num_media_packets - 1) (num_fec_packets - 1)
      else if kFECPacketMaskMaxSize < num_fec_packets * PacketMaskSize num_media_packets then None
      else Some (concat (map (\<lambda>row. map (interleaved_byte num_media_packets num_fec_packets row)
                                        [0..<PacketMaskSize num_media_packets])
                             [0..<num_fec_packets])))"

datatype FecMaskType = kFecMaskRandom | kFecMaskBursty

definition PickTable :: "FecMaskType \<Rightarrow> nat \<Rightarrow> byte list" where
  "PickTable fec_mask_type num_media_packets =
     (if fec_mask_type \<noteq> kFecMaskRandom \<and> num_media_packets \<le> unat (hd kPacketMaskBurstyTbl)
      then kPacketMaskBurstyTbl else kPacketMaskRandomTbl)"

subsection \<open>Masks for a batch\<close>

definition FitSubMask :: "nat \<Rightarrow> nat \<Rightarrow> nat \<Rightarrow> byte list \<Rightarrow> nat \<Rightarrow> byte list \<Rightarrow> byte list" where
  "FitSubMask num_mask_bytes num_sub_mask_bytes num_rows sub_mask off packet_mask =
     (if num_mask_bytes = num_sub_mask_bytes then put_at off (take (num_rows * num_sub_mask_bytes) sub_mask) packet_mask
      else fold (\<lambda>i. put_at (off + i * num_mask_bytes) (take num_sub_mask_bytes (drop (i * num_sub_mask_bytes) sub_mask)))
             [0..<num_rows] packet_mask)"

text \<open>\<open>ShiftFitSubMask\<close>: the row loop, each row from its last byte to its first.\<close>

definition shift_fit_row :: "nat \<Rightarrow> nat \<Rightarrow> nat \<Rightarrow> byte list \<Rightarrow> nat \<Rightarrow> byte list \<Rightarrow> byte list" where
  "shift_fit_row num_mask_bytes res_mask_bytes num_column_shift sub_mask i packet_mask =
     (let num_bit_shifts = num_column_shift mod 8;
          pkt_mask_idx = i * num_mask_bytes + res_mask_bytes - 1 + num_column_shift div 8;
          pkt_mask_idx2 = (i - num_column_shift) * res_mask_bytes + res_mask_bytes - 1;
          m = (if num_mask_bytes > res_mask_bytes
               then packet_mask[pkt_mask_idx + 1 := push_bit (8 - num_bit_shifts) (sub_mask ! pkt_mask_idx2)]
               else packet_mask);
          m = fold (\<lambda>k m. m[pkt_mask_idx - k := drop_bit num_bit_shifts (sub_mask ! (pkt_mask_idx2 - k))
                               OR push_bit (8 - num_bit_shifts) (sub_mask ! (pkt_mask_idx2 - k - 1))])
                [0..<res_mask_bytes - 1] m
      in m[pkt_mask_idx - (res_mask_bytes - 1) :=
             drop_bit num_bit_shifts (sub_mask ! (pkt_mask_idx2 - (res_mask_bytes - 1)))])"

definition ShiftFitSubMask :: "nat \<Rightarrow> nat \<Rightarrow> nat \<Rightarrow> nat \<Rightarrow> byte list \<Rightarrow> byte list \<Rightarrow> byte list" where
  "ShiftFitSubMask num_mask_bytes res_mask_bytes num_column_shift end_row sub_mask packet_mask =
     fold (shift_fit_row num_mask_bytes res_mask_bytes num_column_shift sub_mask) [num_column_shift..<end_row] packet_mask"

datatype ProtectionMode = kModeNoOverlap | kModeOverlap | kModeBiasFirstPacket

definition ImportantPacketProtection :: "nat \<Rightarrow> nat \<Rightarrow> nat \<Rightarrow> byte list \<Rightarrow> byte list \<Rightarrow> byte list option" where
  "ImportantPacketProtection num_fec_for_imp_packets num_imp_packets num_mask_bytes packet_mask table = do {
     sub \<leftarrow> LookUp table num_imp_packets num_fec_for_imp_packets;
     Some (FitSubMask num_mask_bytes (PacketMaskSize num_imp_packets) num_fec_for_imp_packets sub 0 packet_mask) }"

definition RemainingPacketProtection ::
  "nat \<Rightarrow> nat \<Rightarrow> nat \<Rightarrow> nat \<Rightarrow> ProtectionMode \<Rightarrow> byte list \<Rightarrow> byte list \<Rightarrow> byte list option" where
  "RemainingPacketProtection num_media_packets num_fec_remaining num_fec_for_imp_packets num_mask_bytes mode
     packet_mask table =
     (if mode = kModeNoOverlap then do {
        sub \<leftarrow> LookUp table (num_media_packets - num_fec_for_imp_packets) num_fec_remaining;
        Some (ShiftFitSubMask num_mask_bytes (PacketMaskSize (num_media_packets - num_fec_for_imp_packets))
                num_fec_for_imp_packets (num_fec_for_imp_packets + num_fec_remaining) sub packet_mask) }
      else do {
        sub \<leftarrow> LookUp table num_media_packets num_fec_remaining;
        let m = FitSubMask num_mask_bytes num_mask_bytes num_fec_remaining sub (num_fec_for_imp_packets * num_mask_bytes)
                  packet_mask
        in Some (if mode = kModeBiasFirstPacket
                 then fold (\<lambda>i m. m[i * num_mask_bytes := m ! (i * num_mask_bytes) OR 0x80]) [0..<num_fec_remaining] m
                 else m) })"

text \<open>\<open>0.5 * n\<close> cut to an \<open>int\<close> is \<open>n div 2\<close>.\<close>

definition SetProtectionAllocation :: "nat \<Rightarrow> nat \<Rightarrow> nat \<Rightarrow> nat" where
  "SetProtectionAllocation num_media_packets num_fec_packets num_imp_packets =
     (let max_num_fec_for_imp = num_fec_packets div 2;
          n = (if num_imp_packets < max_num_fec_for_imp then num_imp_packets else max_num_fec_for_imp)
      in if num_fec_packets = 1 \<and> num_media_packets > 2 * num_imp_packets then 0 else n)"

definition UnequalProtectionMask :: "nat \<Rightarrow> nat \<Rightarrow> nat \<Rightarrow> nat \<Rightarrow> byte list \<Rightarrow> byte list \<Rightarrow> byte list option" where
  "UnequalProtectionMask num_media_packets num_fec_packets num_imp_packets num_mask_bytes packet_mask table =
     (let mode = kModeOverlap;
          imp = (if mode \<noteq> kModeBiasFirstPacket
                 then SetProtectionAllocation num_media_packets num_fec_packets num_imp_packets else 0);
          remaining = num_fec_packets - imp
      in do {
        packet_mask \<leftarrow> (if imp > 0 then ImportantPacketProtection imp num_imp_packets num_mask_bytes packet_mask table
                        else Some packet_mask);
        if remaining > 0 then RemainingPacketProtection num_media_packets remaining imp num_mask_bytes mode packet_mask table
        else Some packet_mask })"

definition GeneratePacketMasks :: "nat \<Rightarrow> nat \<Rightarrow> nat \<Rightarrow> bool \<Rightarrow> byte list \<Rightarrow> byte list \<Rightarrow> byte list option" where
  "GeneratePacketMasks num_media_packets num_fec_packets num_imp_packets use_unequal_protection table packet_mask =
     (if \<not> use_unequal_protection \<or> num_imp_packets = 0 then do {
        mask \<leftarrow> LookUp table num_media_packets num_fec_packets;
        Some (put_at 0 mask packet_mask) }
      else UnequalProtectionMask num_media_packets num_fec_packets num_imp_packets (PacketMaskSize num_media_packets)
             packet_mask table)"

subsection \<open>Moving columns\<close>

definition InsertZeroColumns :: "nat \<Rightarrow> byte list \<Rightarrow> nat \<Rightarrow> nat \<Rightarrow> nat \<Rightarrow> byte list" where
  "InsertZeroColumns num_zeros new_mask new_mask_bytes num_fec_packets new_bit_index =
     fold (\<lambda>row m. let i = row * new_mask_bytes + new_bit_index div 8
                   in m[i := push_bit (min num_zeros (7 - new_bit_index mod 8)) (m ! i)]) [0..<num_fec_packets] new_mask"

definition CopyColumn :: "byte list \<Rightarrow> nat \<Rightarrow> byte list \<Rightarrow> nat \<Rightarrow> nat \<Rightarrow> nat \<Rightarrow> nat \<Rightarrow> (byte list \<times> byte list) option" where
  "CopyColumn new_mask new_mask_bytes old_mask old_mask_bytes num_fec_packets new_bit_index old_bit_index =
     (if \<not> new_bit_index < 8 * new_mask_bytes then None
      else Some (fold (\<lambda>row (new, old).
        let i = row * new_mask_bytes + new_bit_index div 8;
            j = row * old_mask_bytes + old_bit_index div 8;
            b = new ! i OR drop_bit 7 (old ! j AND 0x80);
            b = (if new_bit_index mod 8 \<noteq> 7 then push_bit 1 b else b)
        in (new[i := b], old[j := push_bit 1 (old ! j)])) [0..<num_fec_packets] (new_mask, old_mask)))"

subsection \<open>Reading the tables\<close>

definition triangular :: "byte list list \<Rightarrow> bool" where
  "triangular masks \<longleftrightarrow> list_all (\<lambda>j. length (masks ! j) = 2 * Suc j) [0..<length masks]"

lemma skip_data_concat:
  assumes "triangular masks" "k \<le> length masks"
  shows "skip_data 2 k (concat masks @ rest) = concat (drop k masks) @ rest"
  using assms(2)
proof (induction k)
  case (Suc k)
  then have "drop k masks = masks ! k # drop (Suc k) masks" "length (masks ! k) = 2 * Suc k"
    using assms(1) by (auto simp: Cons_nth_drop_Suc triangular_def list_all_iff)
  then show ?case using Suc by simp
qed simp

lemma skip_entries_concat:
  assumes "list_all (\<lambda>t. triangular t \<and> length t < 256) tabs" "k \<le> length tabs" "i + k \<le> 16"
  shows "skip_entries k i 2 (concat (map packet_mask_entry tabs))
           = Some (2, concat (map packet_mask_entry (drop k tabs)))"
  using assms
proof (induction k arbitrary: i tabs)
  case (Suc k)
  then obtain t ts where [simp]: "tabs = t # ts" by (cases tabs) auto
  have "unat (of_nat (length t) :: byte) = length t"
    using Suc.prems by (simp add: unsigned_of_nat take_bit_nat_eq_self)
  moreover have "skip_data 2 (length t) (concat t @ concat (map packet_mask_entry ts))
      = concat (map packet_mask_entry ts)"
    using Suc.prems by (subst skip_data_concat) auto
  ultimately show ?case
    using Suc.prems Suc.IH[of ts "Suc i"] by (simp add: packet_mask_entry_def[of t] Let_def)
qed simp

lemma LookUpInFecTable_entry:
  assumes "list_all (\<lambda>t. triangular t \<and> length t < 256) tabs" "i < length tabs" "j < length (tabs ! i)" "i < 16"
  shows "LookUpInFecTable (x # concat (map packet_mask_entry tabs)) i j = Some (tabs ! i ! j)"
proof -
  have d: "drop i tabs = tabs ! i # drop (Suc i) tabs" "drop j (tabs ! i) = tabs ! i ! j # drop (Suc j) (tabs ! i)"
    using assms by (simp_all add: Cons_nth_drop_Suc)
  have t: "triangular (tabs ! i)" using assms by (simp add: list_all_length)
  then have l: "length (tabs ! i ! j) = 2 * Suc j" using assms by (simp add: triangular_def list_all_iff)
  show ?thesis
    using assms t by (simp add: LookUpInFecTable_def skip_entries_concat d packet_mask_entry_def Let_def
        skip_data_concat less_imp_le l)
qed

subsection \<open>The protection matrix\<close>

definition mask_bit :: "nat \<Rightarrow> byte list \<Rightarrow> nat \<Rightarrow> nat \<Rightarrow> bool" where
  "mask_bit w msk row c \<longleftrightarrow> bit (msk ! (row * w + c div 8)) (7 - c mod 8)"

definition covers :: "nat \<Rightarrow> nat \<Rightarrow> nat \<Rightarrow> byte list \<Rightarrow> bool" where
  "covers m n w msk \<longleftrightarrow> length msk = n * w \<and>
     (\<forall>row < n. \<exists>c < m. mask_bit w msk row c) \<and>
     (\<forall>row < n. \<forall>c < 8 * w. mask_bit w msk row c \<longrightarrow> c < m) \<and>
     (\<forall>c < m. \<exists>row < n. mask_bit w msk row c)"

lemma bit_foldr_or: "bit (foldr (OR) xs (0 :: byte)) k \<longleftrightarrow> (\<exists>x \<in> set xs. bit x k)"
  by (induction xs) (auto simp: bit_or_iff)

lemma bit_column: "bit (drop_bit b (0x80 :: byte)) k \<longleftrightarrow> b + k = 7"
proof -
  have "(0x80 :: byte) = 2 ^ 7" by simp
  then show ?thesis by (auto simp only: bit_drop_bit_eq bit_exp_iff comp_def possible_bit_word) auto
qed

lemma bit_interleaved_byte:
  assumes "b < 8"
  shows "bit (interleaved_byte m n row col) (7 - b) \<longleftrightarrow> (col * 8 + b) mod n = row \<and> col * 8 + b < m"
proof -
  have eq: "x + (7 - b) = 7 \<longleftrightarrow> x = b" for x using assms by auto
  have "bit (interleaved_byte m n row col) (7 - b) \<longleftrightarrow>
      (\<exists>x \<in> {0..<8}. ((col * 8 + x) mod n = row \<and> col * 8 + x < m) \<and> x + (7 - b) = 7)"
    unfolding interleaved_byte_def bit_foldr_or set_map set_upt bex_simps
    by (rule bex_cong) (auto simp: bit_column)
  also have "\<dots> \<longleftrightarrow> (\<exists>x \<in> {b}. (col * 8 + x) mod n = row \<and> col * 8 + x < m)"
    using assms eq by auto
  finally show ?thesis by simp
qed

lemma nth_concat_rows:
  assumes "row < n" "c < w"
  shows "concat (map (\<lambda>row. map (f row) [0..<w]) [0..<n]) ! (row * w + c) = f row c"
  using assms
proof (induction n)
  case (Suc n)
  have len: "length (concat (map (\<lambda>row. map (f row) [0..<w]) [0..<n])) = n * w"
    by (simp add: length_concat comp_def sum_list_triv)
  show ?case
  proof (cases "row < n")
    case True
    then have "Suc row * w \<le> n * w" by (intro mult_le_mono1) simp
    then have "row * w + c < n * w" using Suc.prems by simp
    then show ?thesis using Suc True by (simp add: nth_append len)
  next
    case False
    then show ?thesis using Suc.prems by (simp add: nth_append len less_Suc_eq)
  qed
qed simp

lemma covers_interleaved:
  assumes "0 < n" "n \<le> m" "m \<le> 8 * w"
  shows "covers m n w (concat (map (\<lambda>row. map (interleaved_byte m n row) [0..<w]) [0..<n]))"
    (is "covers m n w ?msk")
proof -
  have bit: "mask_bit w ?msk row c \<longleftrightarrow> c mod n = row \<and> c < m" if "row < n" "c < 8 * w" for row c
  proof -
    have "c div 8 < w" using that by (simp add: less_mult_imp_div_less mult.commute)
    then show ?thesis
      using that bit_interleaved_byte[of "c mod 8" m n row "c div 8"]
      by (simp add: mask_bit_def nth_concat_rows)
  qed
  have "\<exists>c < m. mask_bit w ?msk row c" if "row < n" for row
    using that assms bit by (intro exI[of _ row]) auto
  moreover have "\<exists>row < n. mask_bit w ?msk row c" if "c < m" for c
    using that assms bit by (intro exI[of _ "c mod n"]) auto
  ultimately show ?thesis
    using bit by (auto simp: covers_def length_concat comp_def sum_list_triv)
qed

text \<open>For two-byte rows the same facts are decided by computing the disjunction of the rows.\<close>

fun or_rows :: "byte list \<Rightarrow> byte \<times> byte" where
  "or_rows (a # b # bs) = (let (x, y) = or_rows bs in (a OR x, b OR y))"
| "or_rows _ = (0, 0)"

fun no_empty_row :: "byte list \<Rightarrow> bool" where
  "no_empty_row (a # b # bs) \<longleftrightarrow> (a \<noteq> 0 \<or> b \<noteq> 0) \<and> no_empty_row bs"
| "no_empty_row _ = True"

lemma or_rows_bit:
  "length bs = 2 * n \<Longrightarrow> or_rows bs = (x, y) \<Longrightarrow>
     (bit x k \<longleftrightarrow> (\<exists>r < n. bit (bs ! (r * 2)) k)) \<and> (bit y k \<longleftrightarrow> (\<exists>r < n. bit (bs ! (r * 2 + 1)) k))"
proof (induction bs arbitrary: n x y rule: or_rows.induct)
  case (1 a b bs)
  obtain n' where n: "n = Suc n'" using 1 by (cases n) auto
  obtain x' y' where xy: "or_rows bs = (x', y')" by fastforce
  with 1 n have [simp]: "x = a OR x'" "y = b OR y'" "length bs = 2 * n'" by auto
  show ?case
    using 1(1)[OF _ xy] by (simp add: n bit_or_iff Ex_less_Suc2)
qed auto

lemma no_empty_row_nth:
  "length bs = 2 * n \<Longrightarrow> no_empty_row bs \<Longrightarrow> r < n \<Longrightarrow> bs ! (r * 2) \<noteq> 0 \<or> bs ! (r * 2 + 1) \<noteq> 0"
proof (induction bs arbitrary: n r rule: no_empty_row.induct)
  case (1 a b bs)
  then show ?case by (cases n; cases r) auto
qed auto

definition full_row :: "nat \<Rightarrow> byte \<times> byte" where
  "full_row m = (interleaved_byte m 1 0 0, interleaved_byte m 1 0 1)"

lemma covers_by_rows:
  assumes "length msk = 2 * n" "no_empty_row msk" "or_rows msk = full_row m" "m \<le> 16"
  shows "covers m n 2 msk"
proof -
  have or_bit: "(\<exists>r < n. mask_bit 2 msk r c) \<longleftrightarrow> c < m" if "c < 16" for c
  proof -
    have "c div 8 = 0 \<or> c div 8 = 1" using that by auto
    then show ?thesis
      using or_rows_bit[OF assms(1), of _ _ "7 - c mod 8"] assms(3)
        bit_interleaved_byte[of "c mod 8" m 1 0 "c div 8"]
      by (auto simp: full_row_def mask_bit_def)
  qed
  have "\<exists>c < 16. mask_bit 2 msk r c" if r: "r < n" for r
  proof -
    have set_bit: "\<exists>j < 8. bit x (7 - j)" if nz: "x \<noteq> 0" for x :: byte
    proof -
      obtain k where "k < 8" "bit x k" using nz bit_word_eqI[of x 0] by auto
      then show ?thesis by (intro exI[of _ "7 - k"]) auto
    qed
    obtain i j where "i < 2" "j < 8" "bit (msk ! (r * 2 + i)) (7 - j)"
      using no_empty_row_nth[OF assms(1,2) r] set_bit
      by (metis add_0_right one_less_numeral_iff semiring_norm(76) zero_less_numeral)
    then show ?thesis
      by (intro exI[of _ "i * 8 + j"]) (auto simp: mask_bit_def)
  qed
  then have "\<exists>c < m. mask_bit 2 msk r c" if "r < n" for r
    using that or_bit by blast
  then show ?thesis
    using or_bit assms(1,4) by (auto simp: covers_def)
qed

definition good_entry :: "nat \<Rightarrow> byte list list \<Rightarrow> bool" where
  "good_entry m masks \<longleftrightarrow> length masks = m \<and> triangular masks \<and>
     list_all (\<lambda>msk. no_empty_row msk \<and> or_rows msk = full_row m) masks"

definition good_table :: "byte list list list \<Rightarrow> bool" where
  "good_table tabs \<longleftrightarrow> list_all (\<lambda>(m, masks). good_entry m masks) (zip [1..<13] tabs) \<and> length tabs = 12"

lemma good_random: "good_table [kMaskRandom1, kMaskRandom2, kMaskRandom3, kMaskRandom4, kMaskRandom5, kMaskRandom6,
    kMaskRandom7, kMaskRandom8, kMaskRandom9, kMaskRandom10, kMaskRandom11, kMaskRandom12]"
  by code_simp

lemma good_bursty: "good_table [kMaskBursty1, kMaskBursty2, kMaskBursty3, kMaskBursty4, kMaskBursty5, kMaskBursty6,
    kMaskBursty7, kMaskBursty8, kMaskBursty9, kMaskBursty10, kMaskBursty11, kMaskBursty12]"
  by code_simp


lemma good_table_LookUp:
  assumes "good_table tabs" "0 < n" "n \<le> m" "m \<le> 12"
  shows "\<exists>msk. LookUpInFecTable (x # concat (map packet_mask_entry tabs)) (m - 1) (n - 1) = Some msk \<and> covers m n 2 msk"
proof -
  have e: "good_entry (Suc i) (tabs ! i)" if "i < 12" for i
    using assms(1) that by (auto simp: good_table_def list_all_length)
  have l: "length tabs = 12" using assms(1) by (simp add: good_table_def)
  have g: "good_entry m (tabs ! (m - 1))" using e[of "m - 1"] assms by simp
  have "LookUpInFecTable (x # concat (map packet_mask_entry tabs)) (m - 1) (n - 1) = Some (tabs ! (m - 1) ! (n - 1))"
  proof (rule LookUpInFecTable_entry)
    show "list_all (\<lambda>t. triangular t \<and> length t < 256) tabs"
      using e l by (auto simp: list_all_length good_entry_def)
  qed (use assms l g in \<open>auto simp: good_entry_def\<close>)
  moreover have "covers m n 2 (tabs ! (m - 1) ! (n - 1))"
    using g assms by (intro covers_by_rows) (auto simp: good_entry_def triangular_def list_all_length)
  ultimately show ?thesis by blast
qed

lemma PacketMaskSize_bounds: "PacketMaskSize m \<in> {2, 6}" "m \<le> 48 \<Longrightarrow> m \<le> 8 * PacketMaskSize m"
  by (auto simp: PacketMaskSize_def kUlpfecPacketMaskSizeLBitClear_def kUlpfecPacketMaskSizeLBitSet_def)

lemma PacketMaskSize_mono: "m \<le> m' \<Longrightarrow> PacketMaskSize m \<le> PacketMaskSize m'"
  by (auto simp: PacketMaskSize_def kUlpfecPacketMaskSizeLBitClear_def kUlpfecPacketMaskSizeLBitSet_def)

lemma LookUp_covers:
  assumes "0 < n" "n \<le> m" "m \<le> 48"
  shows "\<exists>msk. LookUp (PickTable ty M) m n = Some msk \<and> covers m n (PacketMaskSize m) msk"
proof (cases "m \<le> 12")
  case True
  moreover have "PacketMaskSize m = 2"
    using True by (simp add: PacketMaskSize_def kUlpfecPacketMaskSizeLBitClear_def)
  ultimately show ?thesis
    using good_table_LookUp[OF good_random assms(1,2)] good_table_LookUp[OF good_bursty assms(1,2)]
    by (auto simp: LookUp_def PickTable_def kPacketMaskRandomTbl_def kPacketMaskBurstyTbl_def)
next
  case False
  have "n * PacketMaskSize m \<le> 48 * 6"
    using assms PacketMaskSize_bounds(1)[of m] by (intro mult_le_mono) auto
  then show ?thesis
    using False assms covers_interleaved[of n m "PacketMaskSize m"] PacketMaskSize_bounds(2)[of m]
    by (auto simp: LookUp_def kFECPacketMaskMaxSize_def)
qed

lemma row_bound: "row < n \<Longrightarrow> j < w \<Longrightarrow> row * w + j < n * (w :: nat)"
  using mult_le_mono1[of "Suc row" n w] by simp

lemma row_less: "j < w \<Longrightarrow> row * w + j < k * w \<longleftrightarrow> row < (k :: nat)"
proof (cases "row < k")
  case False
  then have "k * w \<le> row * w" by (intro mult_le_mono1) simp
  then show ?thesis using False by linarith
qed (simp add: row_bound)

lemma row_index_inj:
  assumes "j < w" "j' < w"
  shows "row * w + j = row' * w + j' \<longleftrightarrow> row = row' \<and> j = (j' :: nat)"
proof
  assume eq: "row * w + j = row' * w + j'"
  have "(row * w + j) div w = row" "(row' * w + j') div w = row'" using assms by simp_all
  then show "row = row' \<and> j = j'" using eq by simp
qed simp

lemma FitSubMask_nth:
  assumes "w' \<le> w" "k \<le> n" "length sub = k * w'" "length buf = n * w"
  shows "length (FitSubMask w w' k sub 0 buf) = n * w \<and>
    (\<forall>row < n. \<forall>j < w. FitSubMask w w' k sub 0 buf ! (row * w + j)
       = (if row < k \<and> j < w' then sub ! (row * w' + j) else buf ! (row * w + j)))"
proof (cases "w = w'")
  case True
  have kn: "k * w \<le> n * w" using assms by simp
  then show ?thesis
    using True assms kn by (auto simp: FitSubMask_def length_put_at nth_put_at row_bound row_less)
next
  case False
  define store where "store i = put_at (i * w) (take w' (drop (i * w') sub))" for i
  have len: "length (take w' (drop (i * w') sub)) = w'" if "i < k" for i
    using that assms(3) mult_le_mono1[of "Suc i" k w'] by simp
  have "length (fold store [0..<i] buf) = n * w \<and>
    (\<forall>row < n. \<forall>j < w. fold store [0..<i] buf ! (row * w + j)
       = (if row < i \<and> j < w' then sub ! (row * w' + j) else buf ! (row * w + j)))" if "i \<le> k" for i
    using that
  proof (induction i)
    case (Suc i)
    let ?m = "fold store [0..<i] buf"
    have IH: "length ?m = n * w" "\<And>row j. row < n \<Longrightarrow> j < w \<Longrightarrow> ?m ! (row * w + j)
       = (if row < i \<and> j < w' then sub ! (row * w' + j) else buf ! (row * w + j))"
      using Suc by auto
    have "i * w + w' \<le> n * w"
      using Suc.prems assms mult_le_mono1[of "Suc i" n w] by simp
    moreover have "i * w \<le> row * w + j \<and> row * w + j < i * w + w' \<longleftrightarrow> row = i \<and> j < w'" if "j < w" for row j
    proof (cases "row = i")
      case False
      then show ?thesis
        using that assms(1) mult_le_mono1[of "Suc row" i w] mult_le_mono1[of "Suc i" row w]
        by (cases "row < i") auto
    qed simp
    ultimately show ?case
      using Suc.prems assms(3) len[of i]
      by (auto simp: store_def[of i] length_put_at IH nth_put_at row_bound less_Suc_eq)
  qed (simp add: assms(4))
  from this[OF order.refl] show ?thesis
    using False by (simp add: FitSubMask_def store_def[abs_def])
qed

lemma covers_stack:
  assumes buf: "length buf = (k + n) * w" and sub: "covers m n w sub" "m \<le> 8 * w"
    and top: "\<And>row. row < k \<Longrightarrow> \<exists>c < m. mask_bit w buf row c"
      "\<And>row c. row < k \<Longrightarrow> c < 8 * w \<Longrightarrow> mask_bit w buf row c \<Longrightarrow> c < m"
  shows "covers m (k + n) w (put_at (k * w) sub buf)" (is "covers _ _ _ ?msk")
proof -
  have len: "length sub = n * w" "length ?msk = (k + n) * w"
    using sub buf by (auto simp: covers_def length_put_at algebra_simps)
  have bit: "mask_bit w ?msk row c = (if row < k then mask_bit w buf row c else mask_bit w sub (row - k) c)"
    if "row < k + n" "c < 8 * w" for row c
  proof -
    have c: "c div 8 < w" using that by (simp add: less_mult_imp_div_less mult.commute)
    have "row * w + c div 8 < (k + n) * w" using row_bound[OF that(1) c] .
    moreover have "row * w + c div 8 < k * w \<longleftrightarrow> row < k" using c by (rule row_less)
    ultimately show ?thesis
      using len buf by (auto simp: mask_bit_def nth_put_at algebra_simps diff_mult_distrib)
  qed
  have low: "\<exists>row < k + n. mask_bit w ?msk row c" if cm: "c < m" for c
  proof -
    obtain r where "r < n" "mask_bit w sub r c" using cm sub(1) unfolding covers_def by blast
    then show ?thesis using cm sub(2) bit[of "k + r" c] by (intro exI[of _ "k + r"]) auto
  qed
  have "\<exists>c < m. mask_bit w ?msk row c" if "row < k + n" for row
  proof (cases "row < k")
    case True
    then obtain c where "c < m" "mask_bit w buf row c" using top(1) by blast
    then show ?thesis using True sub(2) bit[of row c] by (intro exI[of _ c]) auto
  next
    case False
    then have "row - k < n" using that by auto
    then obtain c where "c < m" "mask_bit w sub (row - k) c" using sub(1) unfolding covers_def by blast
    then show ?thesis using False that sub(2) bit[of row c] by (intro exI[of _ c]) auto
  qed
  moreover have "c < m" if "row < k + n" "c < 8 * w" "mask_bit w ?msk row c" for row c
  proof (cases "row < k")
    case True
    then show ?thesis using that bit[OF that(1,2)] top(2)[of row c] by simp
  next
    case False
    then have "row - k < n" "mask_bit w sub (row - k) c" using that bit[OF that(1,2)] by auto
    then show ?thesis using that(2) sub(1) unfolding covers_def by blast
  qed
  ultimately show ?thesis using low len by (auto simp: covers_def)
qed

lemma FitSubMask_rows:
  assumes "covers m k w' sub" "m \<le> m'" "w' \<le> w" "k \<le> n" "length buf = n * w" "set buf \<subseteq> {0}" "m \<le> 8 * w'" "row < k"
  shows "\<exists>c < m'. mask_bit w (FitSubMask w w' k sub 0 buf) row c"
    and "c < 8 * w \<Longrightarrow> mask_bit w (FitSubMask w w' k sub 0 buf) row c \<Longrightarrow> c < m'"
proof -
  have bit: "mask_bit w (FitSubMask w w' k sub 0 buf) row c \<longleftrightarrow> c < 8 * w' \<and> mask_bit w' sub row c" if "c < 8 * w" for c
  proof -
    have c: "c div 8 < w" "c div 8 < w' \<longleftrightarrow> c < 8 * w'" using that by (auto simp: less_mult_imp_div_less mult.commute)
    then have "row * w + c div 8 < n * w" using row_bound[of row n "c div 8" w] assms by simp
    then have "buf ! (row * w + c div 8) \<in> set buf" using assms(5) by (intro nth_mem) simp
    then have "buf ! (row * w + c div 8) = 0" using assms(6) by blast
    moreover have "FitSubMask w w' k sub 0 buf ! (row * w + c div 8)
        = (if row < k \<and> c div 8 < w' then sub ! (row * w' + c div 8) else buf ! (row * w + c div 8))"
      using FitSubMask_nth[of w' w k n sub buf] assms c(1) by (simp add: covers_def)
    ultimately show ?thesis
      using assms(8) c(2) by (auto simp: mask_bit_def)
  qed
  show "c < m'" if "c < 8 * w" "mask_bit w (FitSubMask w w' k sub 0 buf) row c"
  proof -
    have "c < m" using that bit[OF that(1)] assms(1,8) unfolding covers_def by blast
    then show ?thesis using assms(2) by simp
  qed
  obtain c where "c < m" "mask_bit w' sub row c" using assms(1,8) unfolding covers_def by blast
  then show "\<exists>c < m'. mask_bit w (FitSubMask w w' k sub 0 buf) row c"
    using assms(2,3,7) bit[of c] by (intro exI[of _ c]) auto
qed

lemma put_at_append: "off + length bs \<le> length d \<Longrightarrow> put_at off bs (d @ rest) = put_at off bs d @ rest"
  by (simp add: put_at_def)

lemma FitSubMask_append:
  assumes "w' \<le> w" "k \<le> n" "length sub = k * w'" "length buf = n * w"
  shows "FitSubMask w w' k sub 0 (buf @ rest) = FitSubMask w w' k sub 0 buf @ rest"
proof (cases "w = w'")
  case True
  then show ?thesis using assms by (simp add: FitSubMask_def put_at_append)
next
  case False
  define store where "store i = put_at (i * w) (take w' (drop (i * w') sub))" for i
  have "length (fold store [0..<i] buf) = n * w \<and> fold store [0..<i] (buf @ rest) = fold store [0..<i] buf @ rest" if "i \<le> k" for i
    using that
  proof (induction i)
    case (Suc i)
    have "Suc i * w \<le> n * w" "Suc i * w' \<le> k * w'" using Suc.prems assms(2) by (auto intro!: mult_le_mono1 simp del: mult_Suc)
    then have "i * w + length (take w' (drop (i * w') sub)) \<le> n * w" using assms(1,3) by simp
    then show ?case using Suc by (simp add: store_def[of i] put_at_append length_put_at)
  qed (simp add: assms(4))
  from this[OF order.refl] show ?thesis
    using False by (simp add: FitSubMask_def store_def[abs_def])
qed

lemma GeneratePacketMasks_covers:
  assumes "0 < n" "n \<le> m" "m \<le> kUlpfecMaxMediaPackets" "imp \<le> m"
  shows "\<exists>msk. GeneratePacketMasks m n imp uep (PickTable ty m) (replicate (n * PacketMaskSize m) 0 @ rest) = Some (msk @ rest) \<and>
    covers m n (PacketMaskSize m) msk"
proof (cases "\<not> uep \<or> imp = 0")
  case True
  then show ?thesis
    using LookUp_covers[of n m ty m] assms
    by (auto simp: GeneratePacketMasks_def kUlpfecMaxMediaPackets_def put_at_append put_at_all covers_def)
next
  case False
  define k where "k = SetProtectionAllocation m n imp"
  define w where "w = PacketMaskSize m"
  have k: "k \<le> imp" "k < n"
    using assms by (auto simp: k_def SetProtectionAllocation_def Let_def)
  have m: "m \<le> 48" "m \<le> 8 * w" using assms PacketMaskSize_bounds(2)[of m] by (auto simp: kUlpfecMaxMediaPackets_def w_def)
  obtain sub where sub: "LookUp (PickTable ty m) m (n - k) = Some sub" "covers m (n - k) w sub"
    using LookUp_covers[of "n - k" m ty m] k(2) assms(2) m(1) unfolding w_def by fastforce
  have remaining: "RemainingPacketProtection m (n - k) k w kModeOverlap buf (PickTable ty m) = Some (put_at (k * w) sub buf)" for buf
    using sub by (simp add: RemainingPacketProtection_def FitSubMask_def covers_def)
  have stack: "covers m n w (put_at (k * w) sub buf)" if "length buf = n * w"
      "\<And>row. row < k \<Longrightarrow> \<exists>c < m. mask_bit w buf row c"
      "\<And>row c. row < k \<Longrightarrow> c < 8 * w \<Longrightarrow> mask_bit w buf row c \<Longrightarrow> c < m" for buf
    using covers_stack[OF _ sub(2) m(2), of buf k] that k by simp
  show ?thesis
  proof (cases "k = 0")
    case True
    then show ?thesis
      using False assms remaining stack[of "replicate (n * w) 0"] sub(2)
      by (simp add: put_at_append covers_def[of m n] covers_def[of m "n - k"] GeneratePacketMasks_def UnequalProtectionMask_def Let_def flip: k_def w_def)
  next
    case kpos: False
    let ?w' = "PacketMaskSize imp"
    obtain s1 where s1: "LookUp (PickTable ty m) imp k = Some s1" "covers imp k ?w' s1"
      using LookUp_covers[of k imp ty m] kpos k assms m by auto
    define buf where "buf = FitSubMask w ?w' k s1 0 (replicate (n * w) 0)"
    have w': "?w' \<le> w" "imp \<le> 8 * ?w'"
      using PacketMaskSize_mono[of imp m] PacketMaskSize_bounds(2)[of imp] assms m by (auto simp: w_def)
    have "FitSubMask w ?w' k s1 0 (replicate (n * w) 0 @ rest) = buf @ rest"
      using FitSubMask_append[of ?w' w k n s1] w' k s1(2) by (simp add: buf_def covers_def)
    moreover have len: "length buf = n * w"
      using FitSubMask_nth[of ?w' w k n s1 "replicate (n * w) 0"] w' k s1(2) by (simp add: buf_def covers_def)
    moreover have "put_at (k * w) sub (buf @ rest) = put_at (k * w) sub buf @ rest"
      using len sub(2) k by (intro put_at_append) (simp add: covers_def flip: add_mult_distrib)
    ultimately have app: "put_at (k * w) sub (FitSubMask w ?w' k s1 0 (replicate (n * w) 0 @ rest)) = put_at (k * w) sub buf @ rest"
      by simp
    have "covers m n w (put_at (k * w) sub buf)"
      using len FitSubMask_rows[OF s1(2) assms(4) w'(1) _ _ _ w'(2), of n "replicate (n * w) 0"] k
      by (intro stack) (simp_all add: buf_def set_replicate_conv_if)
    then show ?thesis
      using False kpos k remaining s1(1) app
      by (simp add: GeneratePacketMasks_def UnequalProtectionMask_def ImportantPacketProtection_def Let_def
          flip: k_def w_def)
  qed
qed

text \<open>
  C8: For every batch of up to 48 media packets, number of FEC packets and number of important packets, with equal or
  unequal protection and either kind of table, mask generation stays inside its tables and arrays, changes no byte behind
  the rows it was asked for, and yields a matrix in which every FEC packet protects a packet of the batch and none outside
  it, and every packet of the batch is protected by some FEC packet.
\<close>

theorem packet_masks_cover:
  assumes "0 < n" "n \<le> m" "m \<le> kUlpfecMaxMediaPackets" "imp \<le> m"
  shows "\<exists>msk. GeneratePacketMasks m n imp uep (PickTable ty m) (replicate (n * PacketMaskSize m) 0 @ rest) = Some (msk @ rest) \<and>
    covers m n (PacketMaskSize m) msk"
  by (rule GeneratePacketMasks_covers[OF assms])

theorem packet_masks_cover_witness:
  "\<exists>msk. GeneratePacketMasks 20 4 3 True (PickTable kFecMaskBursty 20) (replicate (4 * PacketMaskSize 20) 0 @ [7]) = Some (msk @ [7]) \<and>
    covers 20 4 (PacketMaskSize 20) msk"
  by (rule packet_masks_cover) (simp_all add: kUlpfecMaxMediaPackets_def)

end
