(* ===== verification/Fec_Codec.thy ===== *)
theory Fec_Codec
  imports Fec_Masks
begin

text \<open>
  \<open>forward_error_correction.cc\<close>, the part that computes: building FEC packets from media packets (\<open>EncodeFec\<close>) and
  rebuilding one media packet from a FEC packet and the other packets it protects (\<open>RecoverPacket\<close>), with the ULPFEC
  header of \<open>ulpfec_header_reader_writer.cc\<close>. The header reader and writer are virtual classes: they are records of
  functions here, and the encoder takes one as an argument. A packet under construction is its storage (all bytes the
  buffer owns) and its size; storage that \<open>CopyOnWriteBuffer\<close> allocates is the argument \<open>grow\<close>: the
  bytes in use and the wanted capacity give the new storage. \<open>None\<close> is an access outside of a packet or an array, or a failed
  \<open>RTC_CHECK\<close>.
\<close>

subsection \<open>Packets\<close>

definition kRtpHeaderSize :: nat where "kRtpHeaderSize = 12"
definition kTransportOverhead :: nat where "kTransportOverhead = 28"

record FecPacket =
  pkt_store :: "byte list"
  pkt_size :: nat

type_synonym grow = "byte list \<Rightarrow> nat \<Rightarrow> byte list"

definition pkt_data :: "FecPacket \<Rightarrow> byte list" where
  "pkt_data p = take (pkt_size p) (pkt_store p)"

definition EnsureCapacity :: "grow \<Rightarrow> nat \<Rightarrow> FecPacket \<Rightarrow> FecPacket" where
  "EnsureCapacity grow n p = (if n \<le> length (pkt_store p) then p else p\<lparr>pkt_store := grow (pkt_data p) n\<rparr>)"

definition SetSize :: "grow \<Rightarrow> nat \<Rightarrow> FecPacket \<Rightarrow> FecPacket" where
  "SetSize grow n p = (EnsureCapacity grow n p)\<lparr>pkt_size := n\<rparr>"

definition ParseSequenceNumber :: "byte list \<Rightarrow> u16" where
  "ParseSequenceNumber packet = push_bit 8 (ucast (packet ! 2)) + ucast (packet ! 3)"

definition ParseSsrc :: "byte list \<Rightarrow> u32" where
  "ParseSsrc packet = push_bit 24 (ucast (packet ! 8)) + push_bit 16 (ucast (packet ! 9))
     + push_bit 8 (ucast (packet ! 10)) + ucast (packet ! 11)"

text \<open>\<open>dst[off + i] ^= bs[i]\<close> for every \<open>i\<close>.\<close>

definition xor_bytes :: "nat \<Rightarrow> byte list \<Rightarrow> byte list \<Rightarrow> byte list" where
  "xor_bytes off bs m = fold (\<lambda>i m. m[off + i := m ! (off + i) XOR bs ! i]) [0..<length bs] m"

definition XorHeaders :: "byte list \<Rightarrow> FecPacket \<Rightarrow> FecPacket option" where
  "XorHeaders src dst =
     (if length src < 8 \<or> length (pkt_store dst) < 8 then None
      else Some (dst\<lparr>pkt_store := xor_bytes 4 (take 4 (drop 4 src))
             (xor_bytes 2 (put_be16 (of_nat (size_sub (length src) kRtpHeaderSize)))
               (xor_bytes 0 (take 2 src) (pkt_store dst)))\<rparr>))"

definition XorPayloads :: "grow \<Rightarrow> byte list \<Rightarrow> nat \<Rightarrow> nat \<Rightarrow> FecPacket \<Rightarrow> FecPacket option" where
  "XorPayloads grow src payload_length dst_offset dst =
     (let dst = (if dst_offset + payload_length > pkt_size dst then SetSize grow (dst_offset + payload_length) dst else dst)
      in if 0 < payload_length \<and>
            (length src < kRtpHeaderSize + payload_length \<or> length (pkt_store dst) < dst_offset + payload_length) then None
         else Some (dst\<lparr>pkt_store := xor_bytes dst_offset (take payload_length (drop kRtpHeaderSize src)) (pkt_store dst)\<rparr>))"

subsection \<open>Received FEC packets and the header classes\<close>

record ProtectedPacket =
  pp_ssrc :: u32
  pp_seq_num :: u16
  pp_pkt :: "byte list option"

record ReceivedFecPacket =
  fec_seq_num :: u16
  protected_packets :: "ProtectedPacket list"
  fec_ssrc :: u32
  fec_hdr_size :: nat
  protected_ssrc :: u32
  fec_seq_num_base :: u16
  fec_mask_offset :: nat
  fec_mask_size :: nat
  protection_length :: nat
  fec_pkt :: "byte list"

record FecHeaderReader =
  reader_MaxMediaPackets :: nat
  reader_MaxFecPackets :: nat
  ReadFecHeader :: "ReceivedFecPacket \<Rightarrow> (bool \<times> ReceivedFecPacket) option"

record FecHeaderWriter =
  writer_MaxMediaPackets :: nat
  writer_MaxFecPackets :: nat
  writer_MaxPacketOverhead :: nat
  MinPacketMaskSize :: "byte list \<Rightarrow> nat \<Rightarrow> nat"
  FecHeaderSize :: "nat \<Rightarrow> nat"
  FinalizeFecHeader :: "u32 \<Rightarrow> u16 \<Rightarrow> byte list \<Rightarrow> nat \<Rightarrow> FecPacket \<Rightarrow> FecPacket option"

subsection \<open>ULPFEC headers\<close>

definition kMaxMediaPackets :: nat where "kMaxMediaPackets = 48"
definition kMaxTrackedMediaPackets :: nat where "kMaxTrackedMediaPackets = 4 * kMaxMediaPackets"
definition kMaxFecPackets :: nat where "kMaxFecPackets = kMaxMediaPackets"
definition kFecLevel0HeaderSize :: nat where "kFecLevel0HeaderSize = 10"
definition kFecLevel1HeaderSizeLBitSet :: nat where "kFecLevel1HeaderSizeLBitSet = 2 + kUlpfecPacketMaskSizeLBitSet"
definition kFecLevel1HeaderSizeLBitClear :: nat where
  "kFecLevel1HeaderSizeLBitClear = 2 + kUlpfecPacketMaskSizeLBitClear"
definition kPacketMaskOffset :: nat where "kPacketMaskOffset = kFecLevel0HeaderSize + 2"

definition UlpfecHeaderSize :: "nat \<Rightarrow> nat" where
  "UlpfecHeaderSize packet_mask_size =
     (if packet_mask_size \<le> kUlpfecPacketMaskSizeLBitClear then kFecLevel0HeaderSize + kFecLevel1HeaderSizeLBitClear
      else kFecLevel0HeaderSize + kFecLevel1HeaderSizeLBitSet)"

definition ulpfec_ReadFecHeader :: "ReceivedFecPacket \<Rightarrow> (bool \<times> ReceivedFecPacket) option" where
  "ulpfec_ReadFecHeader fec_packet =
     (let data = fec_pkt fec_packet
      in if length data < kPacketMaskOffset then Some (False, fec_packet)
         else do {
           b0 \<leftarrow> get_u8 data 0;
           let l_bit = (b0 AND 0x40 \<noteq> 0);
           let mask_size = (if l_bit then kUlpfecPacketMaskSizeLBitSet else kUlpfecPacketMaskSizeLBitClear);
           base \<leftarrow> get_be16 data 2;
           plen \<leftarrow> get_be16 data 10;
           len \<leftarrow> slice data 8 2;
           Some (True, fec_packet\<lparr>fec_hdr_size := UlpfecHeaderSize mask_size, protected_ssrc := fec_ssrc fec_packet,
             fec_seq_num_base := base, fec_mask_offset := kPacketMaskOffset, fec_mask_size := mask_size,
             protection_length := unat plen, fec_pkt := put_at 2 len data\<rparr>) })"

definition ulpfec_FinalizeFecHeader :: "u32 \<Rightarrow> u16 \<Rightarrow> byte list \<Rightarrow> nat \<Rightarrow> FecPacket \<Rightarrow> FecPacket option" where
  "ulpfec_FinalizeFecHeader media_ssrc seq_num_base packet_mask packet_mask_size fec_packet =
     (let data = pkt_store fec_packet
      in if length data < 12 + packet_mask_size \<or> length packet_mask < packet_mask_size then None
         else
           let b0 = data ! 0 AND 0x7f;
               l_bit = (packet_mask_size = kUlpfecPacketMaskSizeLBitSet);
               data = data[0 := if l_bit then b0 OR 0x40 else b0 AND 0xbf];
               data = put_at 8 (take 2 (drop 2 data)) data;
               data = put_at 2 (put_be16 seq_num_base) data;
               fec_header_size = UlpfecHeaderSize packet_mask_size;
               data = put_at 10 (put_be16 (of_nat (size_sub (pkt_size fec_packet) fec_header_size))) data
           in Some (fec_packet\<lparr>pkt_store := put_at 12 (take packet_mask_size packet_mask) data\<rparr>))"

definition UlpfecHeaderReader :: FecHeaderReader where
  "UlpfecHeaderReader = \<lparr>reader_MaxMediaPackets = kMaxTrackedMediaPackets, reader_MaxFecPackets = kMaxFecPackets,
     ReadFecHeader = ulpfec_ReadFecHeader\<rparr>"

definition UlpfecHeaderWriter :: FecHeaderWriter where
  "UlpfecHeaderWriter = \<lparr>writer_MaxMediaPackets = kMaxMediaPackets, writer_MaxFecPackets = kMaxFecPackets,
     writer_MaxPacketOverhead = kFecLevel0HeaderSize + kFecLevel1HeaderSizeLBitSet,
     MinPacketMaskSize = (\<lambda>packet_mask packet_mask_size. packet_mask_size), FecHeaderSize = UlpfecHeaderSize,
     FinalizeFecHeader = ulpfec_FinalizeFecHeader\<rparr>"

subsection \<open>Encoding\<close>

record FecEncoder =
  generated_fec_packets :: "FecPacket list"
  packet_masks :: "byte list"
  tmp_packet_masks :: "byte list"
  enc_mask_size :: nat

definition NumFecPackets :: "nat \<Rightarrow> nat \<Rightarrow> nat" where
  "NumFecPackets num_media_packets protection_factor =
     (let n = (num_media_packets * protection_factor + 128) div 256
      in if protection_factor > 0 \<and> n = 0 then 1 else n)"

text \<open>
  The loop over the media packets behind the first one: for every hole in the sequence numbers zero columns
  are inserted, then the packet's own column is copied.
\<close>

fun insert_zeros_loop :: "nat \<Rightarrow> nat \<Rightarrow> nat \<Rightarrow> nat \<Rightarrow> u16 \<Rightarrow> byte list list \<Rightarrow> nat \<Rightarrow> nat \<Rightarrow> byte list \<times> byte list
    \<Rightarrow> (nat \<times> byte list \<times> byte list) option" where
  "insert_zeros_loop max_media_packets n tmp_size msize prev_seq_num [] new_bit_index old_bit_index (new, old) =
     Some (new_bit_index, new, old)"
| "insert_zeros_loop max_media_packets n tmp_size msize prev_seq_num (p # ps) new_bit_index old_bit_index (new, old) =
     (if new_bit_index = max_media_packets then Some (new_bit_index, new, old)
      else
        let seq_num = ParseSequenceNumber p;
            num_zeros = unat (seq_num - prev_seq_num - 1);
            new = (if num_zeros > 0 then InsertZeroColumns num_zeros new tmp_size n new_bit_index else new);
            new_bit_index = new_bit_index + num_zeros
        in do {
          cols \<leftarrow> CopyColumn new tmp_size old msize n new_bit_index old_bit_index;
          insert_zeros_loop max_media_packets n tmp_size msize seq_num ps (Suc new_bit_index) (Suc old_bit_index) cols })"

definition shift_last_byte :: "nat \<Rightarrow> nat \<Rightarrow> nat \<Rightarrow> byte list \<Rightarrow> byte list" where
  "shift_last_byte n tmp_size new_bit_index new =
     (if new_bit_index mod 8 \<noteq> 0
      then fold (\<lambda>row m. let i = row * tmp_size + new_bit_index div 8
                         in m[i := push_bit (7 - new_bit_index mod 8) (m ! i)]) [0..<n] new
      else new)"

text \<open>The result is \<open>None\<close> for the code's \<open>-1\<close> inside the outer option.\<close>

definition InsertZerosInPacketMasks ::
  "FecHeaderWriter \<Rightarrow> byte list list \<Rightarrow> nat \<Rightarrow> FecEncoder \<Rightarrow> (nat option \<times> FecEncoder) option" where
  "InsertZerosInPacketMasks writer media_packets num_fec_packets st =
     (let num_media_packets = length media_packets
      in if num_media_packets \<le> 1 then Some (Some num_media_packets, st)
         else
           let last_seq_num = ParseSequenceNumber (last media_packets);
               first_seq_num = ParseSequenceNumber (hd media_packets);
               missing = (size_sub (unat (last_seq_num - first_seq_num)) num_media_packets + 1) mod 2 ^ 64;
               max_media_packets = writer_MaxMediaPackets writer
           in if missing = 0 then Some (Some num_media_packets, st)
              else if (missing + num_media_packets) mod 2 ^ 64 > max_media_packets then Some (None, st)
              else
                let tmp_size = PacketMaskSize ((missing + num_media_packets) mod 2 ^ 64);
                    tmp = put_at 0 (replicate (num_fec_packets * tmp_size) 0) (tmp_packet_masks st);
                    msize = enc_mask_size st
                in do {
                  cols \<leftarrow> CopyColumn tmp tmp_size (packet_masks st) msize num_fec_packets 0 0;
                  (new_bit_index, new, old) \<leftarrow> insert_zeros_loop max_media_packets num_fec_packets tmp_size msize
                     first_seq_num (tl media_packets) 1 1 cols;
                  let new = shift_last_byte num_fec_packets tmp_size new_bit_index new;
                  Some (Some new_bit_index,
                    st\<lparr>tmp_packet_masks := new, packet_masks := put_at 0 (take (num_fec_packets * tmp_size) new) old\<rparr>) })"

text \<open>One media packet is added to a FEC packet; the first one is copied, the others are XORed in.\<close>

definition protect_packet :: "grow \<Rightarrow> nat \<Rightarrow> byte list \<Rightarrow> FecPacket \<Rightarrow> FecPacket option" where
  "protect_packet grow fec_header_size p fec_packet =
     (let media_payload_length = length p - kRtpHeaderSize;
          first_protected_packet = (pkt_size fec_packet = 0);
          fec_packet_length = fec_header_size + media_payload_length;
          fec_packet = (if fec_packet_length > pkt_size fec_packet then SetSize grow fec_packet_length fec_packet
                        else fec_packet)
      in if first_protected_packet then
           if length (pkt_store fec_packet) < fec_packet_length then None
           else Some (fec_packet\<lparr>pkt_store :=
             put_at fec_header_size (drop kRtpHeaderSize p)
               (put_at 4 (take 4 (drop 4 p))
                 (put_at 2 (put_be16 (of_nat media_payload_length))
                   (put_at 0 (take 2 p) (pkt_store fec_packet))))\<rparr>)
         else do {
           fec_packet \<leftarrow> XorHeaders p fec_packet;
           XorPayloads grow p media_payload_length fec_header_size fec_packet })"

fun protect_loop :: "grow \<Rightarrow> byte list \<Rightarrow> nat \<Rightarrow> u16 \<Rightarrow> nat \<Rightarrow> nat \<Rightarrow> byte list list \<Rightarrow> FecPacket \<Rightarrow> FecPacket option" where
  "protect_loop grow masks fec_header_size prev_seq_num pkt_mask_idx media_pkt_idx [] fec_packet = Some fec_packet"
| "protect_loop grow masks fec_header_size prev_seq_num pkt_mask_idx media_pkt_idx (p # ps) fec_packet = do {
     m \<leftarrow> get_u8 masks pkt_mask_idx;
     fec_packet \<leftarrow> (if bit m (7 - media_pkt_idx) then protect_packet grow fec_header_size p fec_packet else Some fec_packet);
     let (seq_num, idx) = (case ps of [] \<Rightarrow> (prev_seq_num, media_pkt_idx)
           | q # _ \<Rightarrow> (ParseSequenceNumber q, media_pkt_idx + unat (ParseSequenceNumber q - prev_seq_num)));
     protect_loop grow masks fec_header_size seq_num (pkt_mask_idx + idx div 8) (idx mod 8) ps fec_packet }"

definition generate_fec_payload :: "grow \<Rightarrow> FecHeaderWriter \<Rightarrow> byte list list \<Rightarrow> FecEncoder \<Rightarrow> nat \<Rightarrow> FecPacket option" where
  "generate_fec_payload grow writer media_packets st i =
     (let pkt_mask_idx = i * enc_mask_size st;
          min_packet_mask_size = MinPacketMaskSize writer (drop pkt_mask_idx (packet_masks st)) (enc_mask_size st)
      in protect_loop grow (packet_masks st) (FecHeaderSize writer min_packet_mask_size)
           (ParseSequenceNumber (hd media_packets)) pkt_mask_idx 0 media_packets (generated_fec_packets st ! i))"

text \<open>A loop that replaces the first \<open>n\<close> generated packets, each by a function of its index.\<close>

fun update_packets :: "(nat \<Rightarrow> FecEncoder \<Rightarrow> FecPacket option) \<Rightarrow> nat list \<Rightarrow> FecEncoder \<Rightarrow> FecEncoder option" where
  "update_packets f [] st = Some st"
| "update_packets f (i # is) st = do {
     p \<leftarrow> (if i < length (generated_fec_packets st) then f i st else None);
     update_packets f is (st\<lparr>generated_fec_packets := (generated_fec_packets st)[i := p]\<rparr>) }"

definition GenerateFecPayloads :: "grow \<Rightarrow> FecHeaderWriter \<Rightarrow> byte list list \<Rightarrow> nat \<Rightarrow> FecEncoder \<Rightarrow> FecEncoder option" where
  "GenerateFecPayloads grow writer media_packets num_fec_packets st =
     update_packets (\<lambda>i st. generate_fec_payload grow writer media_packets st i) [0..<num_fec_packets] st"

definition FinalizeFecHeaders :: "FecHeaderWriter \<Rightarrow> nat \<Rightarrow> u32 \<Rightarrow> u16 \<Rightarrow> FecEncoder \<Rightarrow> FecEncoder option" where
  "FinalizeFecHeaders writer num_fec_packets media_ssrc base st =
     update_packets (\<lambda>i st. FinalizeFecHeader writer media_ssrc base (drop (i * enc_mask_size st) (packet_masks st))
        (enc_mask_size st) (generated_fec_packets st ! i)) [0..<num_fec_packets] st"

text \<open>The buffer of a generated packet is zeroed and marked as untouched.\<close>

definition reset_fec_packet :: "grow \<Rightarrow> FecPacket \<Rightarrow> FecPacket" where
  "reset_fec_packet grow p =
     (let p = EnsureCapacity grow IP_PACKET_SIZE p
      in SetSize grow 0 (p\<lparr>pkt_store := put_at 0 (replicate IP_PACKET_SIZE 0) (pkt_store p)\<rparr>))"

text \<open>
  The result is whether the code returns 0, the number of entries of \<open>fec_packets\<close> (pointers to the first generated
  packets), and the state.
\<close>

definition EncodeFec :: "grow \<Rightarrow> FecHeaderWriter \<Rightarrow> byte list list \<Rightarrow> nat \<Rightarrow> nat \<Rightarrow> bool \<Rightarrow> FecMaskType \<Rightarrow> FecEncoder
    \<Rightarrow> (bool \<times> nat \<times> FecEncoder) option" where
  "EncodeFec grow writer media_packets protection_factor num_important_packets use_unequal_protection fec_mask_type st =
     (let num_media_packets = length media_packets
      in if num_media_packets > writer_MaxMediaPackets writer then Some (False, 0, st)
         else if list_ex (\<lambda>p. length p < kRtpHeaderSize) media_packets then Some (False, 0, st)
         else
           let num_fec_packets = NumFecPackets num_media_packets protection_factor
           in if num_fec_packets = 0 then Some (True, 0, st)
              else do {
                st \<leftarrow> update_packets (\<lambda>i st. Some (reset_fec_packet grow (generated_fec_packets st ! i))) [0..<num_fec_packets] st;
                let st = st\<lparr>enc_mask_size := PacketMaskSize num_media_packets\<rparr>;
                let zeros = replicate (num_fec_packets * enc_mask_size st) 0;
                masks \<leftarrow> GeneratePacketMasks num_media_packets num_fec_packets num_important_packets use_unequal_protection
                   (PickTable fec_mask_type num_media_packets) (put_at 0 zeros (packet_masks st));
                (num_mask_bits, st) \<leftarrow> InsertZerosInPacketMasks writer media_packets num_fec_packets (st\<lparr>packet_masks := masks\<rparr>);
                (case num_mask_bits of None \<Rightarrow> Some (False, 0, st)
                 | Some bits \<Rightarrow> do {
                     st \<leftarrow> GenerateFecPayloads grow writer media_packets num_fec_packets (st\<lparr>enc_mask_size := PacketMaskSize bits\<rparr>);
                     st \<leftarrow> FinalizeFecHeaders writer num_fec_packets (ParseSsrc (hd media_packets))
                        (ParseSequenceNumber (hd media_packets)) st;
                     Some (True, num_fec_packets, st) }) })"

subsection \<open>The mask of a received packet\<close>

text \<open>The loop of \<open>InsertFecPacket\<close> that turns the mask into the list of protected packets.\<close>

definition mask_packets :: "u32 \<Rightarrow> ReceivedFecPacket \<Rightarrow> ProtectedPacket list" where
  "mask_packets protected_media_ssrc fec_packet = concat (map (\<lambda>byte_idx.
     let packet_mask = fec_pkt fec_packet ! (fec_mask_offset fec_packet + byte_idx)
     in map (\<lambda>bit_idx. \<lparr>pp_ssrc = protected_media_ssrc,
                        pp_seq_num = fec_seq_num_base fec_packet + of_nat (byte_idx * 8 + bit_idx), pp_pkt = None\<rparr>)
            (filter (\<lambda>bit_idx. bit packet_mask (7 - bit_idx)) [0..<8])) [0..<fec_mask_size fec_packet])"

subsection \<open>Recovery\<close>

record RecoveredPacket =
  rp_ssrc :: u32
  rp_seq_num :: u16
  was_recovered :: bool
  returned :: bool
  rp_pkt :: FecPacket

definition StartPacketRecovery :: "grow \<Rightarrow> ReceivedFecPacket \<Rightarrow> RecoveredPacket \<Rightarrow> (bool \<times> RecoveredPacket) option" where
  "StartPacketRecovery grow fec_packet recovered_packet =
     (let recovered_packet = recovered_packet\<lparr>rp_pkt := \<lparr>pkt_store = [], pkt_size = 0\<rparr>\<rparr>;
          data = fec_pkt fec_packet; plen = protection_length fec_packet
      in if length data < fec_hdr_size fec_packet + plen then Some (False, recovered_packet)
         else if plen > min (IP_PACKET_SIZE - kRtpHeaderSize) (size_sub IP_PACKET_SIZE (fec_hdr_size fec_packet))
         then Some (False, recovered_packet)
         else
           let p = SetSize grow (plen + kRtpHeaderSize) (EnsureCapacity grow IP_PACKET_SIZE (rp_pkt recovered_packet))
           in if length data < kRtpHeaderSize \<or> length (pkt_store p) < kRtpHeaderSize + plen then None
              else
                let s = put_at 0 (take kRtpHeaderSize data) (pkt_store p);
                    s = (if plen > 0 then put_at kRtpHeaderSize (take plen (drop (fec_hdr_size fec_packet) data)) s else s)
                in Some (True, recovered_packet\<lparr>returned := False, was_recovered := True, rp_pkt := p\<lparr>pkt_store := s\<rparr>\<rparr>))"

definition FinishPacketRecovery :: "grow \<Rightarrow> ReceivedFecPacket \<Rightarrow> RecoveredPacket \<Rightarrow> (bool \<times> RecoveredPacket) option" where
  "FinishPacketRecovery grow fec_packet recovered_packet =
     (let p = rp_pkt recovered_packet; s = pkt_store p
      in if length s < kRtpHeaderSize then None
         else do {
           let s = s[0 := (s ! 0 OR 0x80) AND 0xbf];
           len \<leftarrow> get_be16 s 2;
           let new_size = unat len + kRtpHeaderSize;
           if new_size > IP_PACKET_SIZE - kRtpHeaderSize
           then Some (False, recovered_packet\<lparr>rp_pkt := p\<lparr>pkt_store := s\<rparr>\<rparr>)
           else
             let p = SetSize grow new_size (p\<lparr>pkt_store := s\<rparr>);
                 s = put_at 2 (put_be16 (rp_seq_num recovered_packet)) (pkt_store p);
                 s = put_at 8 (put_be32 (protected_ssrc fec_packet)) s
             in Some (True, recovered_packet\<lparr>rp_pkt := p\<lparr>pkt_store := s\<rparr>, rp_ssrc := protected_ssrc fec_packet\<rparr>) })"

fun recover_loop :: "grow \<Rightarrow> ProtectedPacket list \<Rightarrow> RecoveredPacket \<Rightarrow> RecoveredPacket option" where
  "recover_loop grow [] r = Some r"
| "recover_loop grow (pp # pps) r = (case pp_pkt pp of
     None \<Rightarrow> recover_loop grow pps (r\<lparr>rp_seq_num := pp_seq_num pp\<rparr>)
   | Some src \<Rightarrow> do {
       p \<leftarrow> XorHeaders src (rp_pkt r);
       p \<leftarrow> XorPayloads grow src (size_sub (length src) kRtpHeaderSize) kRtpHeaderSize p;
       recover_loop grow pps (r\<lparr>rp_pkt := p\<rparr>) })"

definition RecoverPacket :: "grow \<Rightarrow> ReceivedFecPacket \<Rightarrow> RecoveredPacket \<Rightarrow> (bool \<times> RecoveredPacket) option" where
  "RecoverPacket grow fec_packet recovered_packet = do {
     (ok, r) \<leftarrow> StartPacketRecovery grow fec_packet recovered_packet;
     if \<not> ok then Some (False, r)
     else do {
       r \<leftarrow> recover_loop grow (protected_packets fec_packet) r;
       FinishPacketRecovery grow fec_packet r } }"

subsection \<open>The parity of a list of packets\<close>

definition nth0 :: "byte list \<Rightarrow> nat \<Rightarrow> byte" where
  "nth0 bs i = (if i < length bs then bs ! i else 0)"

text \<open>What a FEC packet protects of a media packet: two header bytes, the payload length, the timestamp, the payload.\<close>

definition fec_image :: "byte list \<Rightarrow> byte list" where
  "fec_image p = take 2 p @ put_be16 (of_nat (length p - kRtpHeaderSize)) @ take 4 (drop 4 p) @ drop kRtpHeaderSize p"

definition parity :: "byte list list \<Rightarrow> nat \<Rightarrow> byte" where
  "parity ps i = foldr (\<lambda>p. (XOR) (nth0 (fec_image p) i)) ps 0"

definition max_payload :: "byte list list \<Rightarrow> nat" where
  "max_payload ps = foldr (\<lambda>p. max (length p - kRtpHeaderSize)) ps 0"

lemma parity_simps [simp]:
  "parity [] i = 0" "parity (p # ps) i = nth0 (fec_image p) i XOR parity ps i"
  "parity (ps @ qs) i = parity ps i XOR parity qs i"
  by (simp_all add: parity_def) (induction ps; simp add: ac_simps)

lemma max_payload_simps [simp]:
  "max_payload [] = 0" "max_payload (p # ps) = max (length p - kRtpHeaderSize) (max_payload ps)"
  "max_payload (ps @ qs) = max (max_payload ps) (max_payload qs)"
  by (simp_all add: max_payload_def) (induction ps; simp add: max.assoc)

lemma max_payload_ge: "p \<in> set ps \<Longrightarrow> length p - kRtpHeaderSize \<le> max_payload ps"
  by (induction ps) auto

lemma length_fec_image: "kRtpHeaderSize \<le> length p \<Longrightarrow> length (fec_image p) = length p - 4"
  by (simp add: fec_image_def kRtpHeaderSize_def)

lemma nth_fec_image:
  assumes "kRtpHeaderSize \<le> length p"
  shows "nth0 (fec_image p) i =
    (if i < 2 then p ! i else if i < 4 then put_be16 (of_nat (length p - kRtpHeaderSize)) ! (i - 2)
     else if i < 8 then p ! i else nth0 (drop kRtpHeaderSize p) (i - 8))"
  using assms by (auto simp: nth0_def fec_image_def kRtpHeaderSize_def nth_append numeral_2_eq_2 less_diff_conv)

lemma xor_bytes_nth:
  assumes "off + length bs \<le> length m"
  shows "length (xor_bytes off bs m) = length m"
    "i < length m \<Longrightarrow> xor_bytes off bs m ! i = (if off \<le> i \<and> i < off + length bs then m ! i XOR bs ! (i - off) else m ! i)"
proof -
  define step where "step i m = m[off + i := m ! (off + i) XOR bs ! i]" for i m
  have "length (fold step [0..<k] m) = length m \<and> (\<forall>i < length m. fold step [0..<k] m ! i =
      (if off \<le> i \<and> i < off + k then m ! i XOR bs ! (i - off) else m ! i))" if "k \<le> length bs" for k
    using that
  proof (induction k)
    case (Suc k)
    then show ?case using assms by (auto simp: step_def[of k] nth_list_update less_Suc_eq)
  qed auto
  from this[OF order.refl] show "length (xor_bytes off bs m) = length m"
    "i < length m \<Longrightarrow> xor_bytes off bs m ! i = (if off \<le> i \<and> i < off + length bs then m ! i XOR bs ! (i - off) else m ! i)"
    by (auto simp: xor_bytes_def step_def[abs_def])
qed

text \<open>XORing a packet in: the header part first, then the payload at the given offset.\<close>

lemma XorHeaders_nth:
  assumes "kRtpHeaderSize \<le> length p" "length p < 2 ^ 64" "8 \<le> length (pkt_store f)"
  shows "\<exists>f'. XorHeaders p f = Some f' \<and> pkt_size f' = pkt_size f \<and> length (pkt_store f') = length (pkt_store f) \<and>
    (\<forall>i < length (pkt_store f). pkt_store f' ! i = (if i < 8 then pkt_store f ! i XOR nth0 (fec_image p) i else pkt_store f ! i))"
  using assms
  by (auto simp: XorHeaders_def xor_bytes_nth nth_fec_image kRtpHeaderSize_def size_sub_le min_def)

lemma nth_fec_image_payload:
  "kRtpHeaderSize \<le> length p \<Longrightarrow>
     nth0 (fec_image p) (8 + k) = (if k < length p - kRtpHeaderSize then p ! (kRtpHeaderSize + k) else 0)"
  by (auto simp: nth_fec_image) (auto simp: nth0_def)

lemma XorPayloads_nth:
  assumes p: "kRtpHeaderSize \<le> length p" and off: "off + (length p - kRtpHeaderSize) \<le> length (pkt_store f)"
  shows "\<exists>f'. XorPayloads grow p (length p - kRtpHeaderSize) off f = Some f' \<and>
    pkt_size f' = max (pkt_size f) (off + (length p - kRtpHeaderSize)) \<and> length (pkt_store f') = length (pkt_store f) \<and>
    (\<forall>i < off. pkt_store f' ! i = pkt_store f ! i) \<and>
    (\<forall>k. off + k < length (pkt_store f) \<longrightarrow>
       pkt_store f' ! (off + k) = pkt_store f ! (off + k) XOR nth0 (fec_image p) (8 + k))"
proof -
  let ?n = "length p - kRtpHeaderSize"
  let ?f = "\<lparr>pkt_store = xor_bytes off (drop kRtpHeaderSize p) (pkt_store f), pkt_size = max (pkt_size f) (off + ?n)\<rparr>"
  have "XorPayloads grow p ?n off f = Some (f\<lparr>pkt_store := pkt_store ?f, pkt_size := pkt_size ?f\<rparr>)"
    using assms by (auto simp: XorPayloads_def Let_def SetSize_def EnsureCapacity_def max_def)
  moreover have "length (pkt_store ?f) = length (pkt_store f)"
    using off by (simp add: xor_bytes_nth)
  moreover have "pkt_store ?f ! i = pkt_store f ! i" if "i < off" for i
    using that off by (cases "i < length (pkt_store f)") (auto simp: xor_bytes_nth)
  moreover have "pkt_store ?f ! (off + k) = pkt_store f ! (off + k) XOR nth0 (fec_image p) (8 + k)"
    if "off + k < length (pkt_store f)" for k
    using that off p by (auto simp: xor_bytes_nth nth_fec_image_payload)
  ultimately show ?thesis by auto
qed

subsection \<open>Building a FEC packet\<close>

text \<open>The FEC packet under construction holds the parity of the packets added so far, and zeros behind it.\<close>

definition holds_parity :: "nat \<Rightarrow> byte list list \<Rightarrow> FecPacket \<Rightarrow> bool" where
  "holds_parity hdr ps f \<longleftrightarrow> IP_PACKET_SIZE \<le> length (pkt_store f) \<and>
     pkt_size f = (if ps = [] then 0 else hdr + max_payload ps) \<and>
     (\<forall>i < 8. pkt_store f ! i = parity ps i) \<and> (\<forall>i. 8 \<le> i \<and> i < hdr \<longrightarrow> pkt_store f ! i = 0) \<and>
     (\<forall>k. hdr + k < IP_PACKET_SIZE \<longrightarrow> pkt_store f ! (hdr + k) = parity ps (8 + k))"

definition fits_mtu :: "nat \<Rightarrow> byte list \<Rightarrow> bool" where
  "fits_mtu hdr p \<longleftrightarrow> kRtpHeaderSize \<le> length p \<and> hdr + (length p - kRtpHeaderSize) \<le> IP_PACKET_SIZE"

lemma protect_packet_first:
  assumes "holds_parity hdr [] f" "fits_mtu hdr p" "8 \<le> hdr" 
  shows "\<exists>f'. protect_packet grow hdr p f = Some f' \<and> holds_parity hdr [p] f'"
proof -
  let ?s = "put_at hdr (drop kRtpHeaderSize p) (put_at 4 (take 4 (drop 4 p))
     (put_at 2 (put_be16 (of_nat (length p - kRtpHeaderSize))) (put_at 0 (take 2 p) (pkt_store f))))"
  have st: "IP_PACKET_SIZE \<le> length (pkt_store f)" "pkt_size f = 0"
    and z: "\<And>i. i < 8 \<or> (8 \<le> i \<and> i < hdr) \<Longrightarrow> pkt_store f ! i = 0" "\<And>k. hdr + k < IP_PACKET_SIZE \<Longrightarrow> pkt_store f ! (hdr + k) = 0"
    using assms(1) by (auto simp: holds_parity_def)
  have p: "kRtpHeaderSize \<le> length p" "hdr + (length p - kRtpHeaderSize) \<le> length (pkt_store f)"
    using assms(2) st by (auto simp: fits_mtu_def)
  have pre: "protect_packet grow hdr p f = Some (f\<lparr>pkt_store := ?s, pkt_size := hdr + (length p - kRtpHeaderSize)\<rparr>)"
    using p st assms(3) by (simp add: protect_packet_def Let_def SetSize_def EnsureCapacity_def)
  have len: "length (put_at 0 (take 2 p) (pkt_store f)) = length (pkt_store f)" if "12 \<le> length (pkt_store f)"
    using that by (simp add: length_put_at)
  have big: "12 \<le> length (pkt_store f)" using st by (simp add: IP_PACKET_SIZE_def)
  have p12: "12 \<le> length p" using p by (simp add: kRtpHeaderSize_def)
  have n: "length ?s = length (pkt_store f)" using p big p12 assms(3) by (simp add: length_put_at)
  have "?s ! i = nth0 (fec_image p) i" if "i < 8" for i
    using that p big p12 assms(3) by (auto simp: nth_put_at length_put_at nth_fec_image)
  moreover have "?s ! i = 0" if "8 \<le> i" "i < hdr" for i
    using that p big p12 assms(3) z(1)[of i] st by (auto simp: nth_put_at length_put_at)
  moreover have "?s ! (hdr + k) = nth0 (fec_image p) (8 + k)" if "hdr + k < IP_PACKET_SIZE" for k
    using that p big p12 assms(3) z(2)[of k] st by (auto simp: nth_put_at length_put_at nth_fec_image_payload)
  ultimately show ?thesis
    using pre n st by (auto simp: holds_parity_def)
qed

lemma protect_packet_next:
  assumes "holds_parity hdr ps f" "ps \<noteq> []" "fits_mtu hdr p" "8 \<le> hdr" 
  shows "\<exists>f'. protect_packet grow hdr p f = Some f' \<and> holds_parity hdr (ps @ [p]) f'"
proof -
  let ?n = "length p - kRtpHeaderSize"
  define f1 where "f1 = (if hdr + ?n > pkt_size f then SetSize grow (hdr + ?n) f else f)"
  have st: "IP_PACKET_SIZE \<le> length (pkt_store f)" "pkt_size f = hdr + max_payload ps"
    and acc: "\<And>i. i < 8 \<Longrightarrow> pkt_store f ! i = parity ps i" "\<And>i. 8 \<le> i \<Longrightarrow> i < hdr \<Longrightarrow> pkt_store f ! i = 0"
      "\<And>k. hdr + k < IP_PACKET_SIZE \<Longrightarrow> pkt_store f ! (hdr + k) = parity ps (8 + k)"
    using assms(1,2) by (auto simp: holds_parity_def)
  have p: "kRtpHeaderSize \<le> length p" "hdr + ?n \<le> length (pkt_store f)" "length p < 2 ^ 64" "8 \<le> length (pkt_store f)"
    using assms(3) st by (auto simp: fits_mtu_def IP_PACKET_SIZE_def kRtpHeaderSize_def)
  have f1: "pkt_store f1 = pkt_store f" "pkt_size f1 = max (hdr + max_payload ps) (hdr + ?n)"
    using p st by (auto simp: f1_def SetSize_def EnsureCapacity_def)
  obtain f2 where f2: "XorHeaders p f1 = Some f2" "pkt_size f2 = pkt_size f1" "length (pkt_store f2) = length (pkt_store f)"
    "\<And>i. i < length (pkt_store f) \<Longrightarrow>
       pkt_store f2 ! i = (if i < 8 then pkt_store f ! i XOR nth0 (fec_image p) i else pkt_store f ! i)"
    using XorHeaders_nth[of p f1] p f1(1) by auto
  obtain f3 where f3: "XorPayloads grow p ?n hdr f2 = Some f3" "pkt_size f3 = max (pkt_size f2) (hdr + ?n)"
    "length (pkt_store f3) = length (pkt_store f)" "\<And>i. i < hdr \<Longrightarrow> pkt_store f3 ! i = pkt_store f2 ! i"
    "\<And>k. hdr + k < length (pkt_store f) \<Longrightarrow> pkt_store f3 ! (hdr + k) = pkt_store f2 ! (hdr + k) XOR nth0 (fec_image p) (8 + k)"
    using XorPayloads_nth[of p hdr f2 grow] p f2(3) by auto
  have "protect_packet grow hdr p f = Some f3"
    using f2(1) f3(1) st assms(4) by (simp add: protect_packet_def Let_def f1_def)
  moreover have "pkt_store f3 ! i = parity (ps @ [p]) i" if "i < 8" for i
    using that f3(4)[of i] f2(4)[of i] acc(1)[of i] p assms(4) by simp
  moreover have "pkt_store f3 ! i = 0" if "8 \<le> i" "i < hdr" for i
    using that f3(4)[of i] f2(4)[of i] acc(2)[of i] p by simp
  moreover have "pkt_store f3 ! (hdr + k) = parity (ps @ [p]) (8 + k)" if "hdr + k < IP_PACKET_SIZE" for k
    using that f3(5)[of k] f2(4)[of "hdr + k"] acc(3)[of k] st assms(4) by simp
  moreover have "pkt_size f3 = hdr + max_payload (ps @ [p])"
    using f3(2) f2(2) f1(2) by (simp add: nat_add_max_right)
  ultimately show ?thesis
    using st f3(3) by (auto simp: holds_parity_def)
qed

lemma protect_packet_holds:
  assumes "holds_parity hdr ps f" "fits_mtu hdr p" "8 \<le> hdr"
  shows "\<exists>f'. protect_packet grow hdr p f = Some f' \<and> holds_parity hdr (ps @ [p]) f'"
  using protect_packet_first[OF _ assms(2,3)] protect_packet_next[OF assms(1) _ assms(2,3)] assms(1)
  by (cases "ps = []") auto

text \<open>The column of a packet in the masks is the distance of its sequence number from the first one.\<close>

definition column :: "u16 \<Rightarrow> byte list \<Rightarrow> nat" where
  "column s0 p = unat (ParseSequenceNumber p - s0)"

definition protects :: "byte list \<Rightarrow> nat \<Rightarrow> u16 \<Rightarrow> byte list \<Rightarrow> bool" where
  "protects masks b s0 p \<longleftrightarrow> bit (masks ! (b + column s0 p div 8)) (7 - column s0 p mod 8)"

lemma split_column: "(c + d) div 8 = c div 8 + (c mod 8 + d) div 8" "(c + d) mod 8 = (c mod 8 + d) mod 8" for c :: nat
proof -
  have "8 * (c div 8) + (c mod 8 + d) = c + d" by (simp add: add.assoc[symmetric])
  moreover have "(8 * (c div 8) + (c mod 8 + d)) div 8 = c div 8 + (c mod 8 + d) div 8" by (rule div_mult_self4) simp
  ultimately show "(c + d) div 8 = c div 8 + (c mod 8 + d) div 8" by (simp only:)
qed (simp add: mod_simps)

lemma column_step:
  assumes "column s0 p < column s0 q"
  shows "unat (ParseSequenceNumber q - ParseSequenceNumber p) = column s0 q - column s0 p"
proof -
  have "ParseSequenceNumber q - ParseSequenceNumber p = (ParseSequenceNumber q - s0) - (ParseSequenceNumber p - s0)"
    by simp
  then show ?thesis using assms by (simp only: column_def unat_sub less_imp_le word_le_nat_alt)
qed

lemma protect_loop_holds:
  assumes "sorted_wrt (<) (map (column s0) (p # ps))" "\<And>q. q \<in> set (p # ps) \<Longrightarrow> fits_mtu hdr q \<and> b + column s0 q div 8 < length masks"
    "8 \<le> hdr" "holds_parity hdr acc f"
  shows "\<exists>f'. protect_loop grow masks hdr (ParseSequenceNumber p) (b + column s0 p div 8) (column s0 p mod 8) (p # ps) f = Some f' \<and>
    holds_parity hdr (acc @ filter (protects masks b s0) (p # ps)) f'"
  using assms
proof (induction ps arbitrary: p acc f)
  case Nil
  then show ?case
    using protect_packet_holds[of hdr acc f p grow] by (auto simp: get_u8_def protects_def)
next
  case (Cons q qs)
  have d: "unat (ParseSequenceNumber q - ParseSequenceNumber p) = column s0 q - column s0 p" "column s0 p < column s0 q"
    using Cons.prems(1) by (auto intro: column_step)
  define c d where "c = column s0 p" and "d = column s0 q - c"
  have cq: "column s0 q = c + d" using d(2) by (simp add: c_def d_def)
  have idx: "b + c div 8 + (c mod 8 + d) div 8 = b + (c + d) div 8" "(c mod 8 + d) mod 8 = (c + d) mod 8"
    using split_column[of c d] by simp_all
  obtain f1 where f1: "(if protects masks b s0 p then protect_packet grow hdr p f else Some f) = Some f1"
    "holds_parity hdr (acc @ filter (protects masks b s0) [p]) f1"
    using protect_packet_holds[of hdr acc f p grow] Cons.prems(2)[of p] Cons.prems(3,4) by (cases "protects masks b s0 p") auto
  obtain f' where f': "protect_loop grow masks hdr (ParseSequenceNumber q) (b + column s0 q div 8) (column s0 q mod 8) (q # qs) f1 = Some f'"
    "holds_parity hdr ((acc @ filter (protects masks b s0) [p]) @ filter (protects masks b s0) (q # qs)) f'"
    using Cons.IH[of q "acc @ filter (protects masks b s0) [p]" f1] Cons.prems f1(2) by auto
  have p: "(if bit (masks ! (b + c div 8)) (7 - c mod 8) then protect_packet grow hdr p f else Some f) = Some f1"
    "b + c div 8 < length masks"
    using f1(1) Cons.prems(2)[of p] by (simp_all add: protects_def c_def)
  have "protect_loop grow masks hdr (ParseSequenceNumber p) (b + c div 8) (c mod 8) (p # q # qs) f = Some f'"
    using p f'(1) d(1) by (subst protect_loop.simps) (simp add: get_u8_def cq idx c_def[symmetric] del: protect_loop.simps)
  moreover have "(acc @ filter (protects masks b s0) [p]) @ filter (protects masks b s0) (q # qs) = acc @ filter (protects masks b s0) (p # q # qs)"
    by simp
  ultimately show ?case using f'(2) by (auto simp only: c_def)
qed

end
