(* ===== verification/Fec_Spread.thy ===== *)
theory Fec_Spread
  imports Fec_Codec
begin

text \<open>
  \<open>InsertZerosInPacketMasks\<close> moves the columns of the masks apart where sequence numbers are missing, by shifting the
  bytes of the old masks out and the bytes of the new ones in. It is proved to put column \<open>j\<close> at the distance of packet
  \<open>j\<close>'s sequence number from the first one, and to leave all other columns empty.
\<close>

subsection \<open>Spreading the columns over the sequence numbers\<close>

text \<open>A loop over the rows that changes one byte of each.\<close>

lemma fold_rows:
  assumes "j0 < w" "n * w \<le> length m"
  shows "length (fold (\<lambda>row m. m[row * w + j0 := g (m ! (row * w + j0))]) [0..<n] m) = length m \<and>
    (\<forall>row < n. \<forall>j < w. fold (\<lambda>row m. m[row * w + j0 := g (m ! (row * w + j0))]) [0..<n] m ! (row * w + j)
        = (if j = j0 then g (m ! (row * w + j)) else m ! (row * w + j)))"
proof -
  define step where "step row m = m[row * w + j0 := g (m ! (row * w + j0))]" for row m
  have inj: "row' * w + j0 = row * w + j \<longleftrightarrow> row = row' \<and> j = j0" if "j < w" for row row' j
    using row_index_inj[of j0 w j row' row] that assms(1) by auto
  have "length (fold step [0..<i] m) = length m \<and> (\<forall>row < n. \<forall>j < w. fold step [0..<i] m ! (row * w + j)
        = (if row < i \<and> j = j0 then g (m ! (row * w + j)) else m ! (row * w + j)))" if "i \<le> n" for i
    using that
  proof (induction i)
    case (Suc i)
    have "row * w + j < length m" if "row < n" "j < w" for row j
      using row_bound[OF that] assms(2) by simp
    then show ?case
      using Suc assms(1) inj by (auto simp: step_def[of i] nth_list_update less_Suc_eq)
  qed simp
  from this[OF order.refl] show ?thesis by (simp add: step_def[abs_def])
qed

lemma CopyColumn_nth:
  assumes "nbi < 8 * w'" "obi < 8 * w" "n * w' \<le> length new" "n * w \<le> length old"
  shows "\<exists>new' old'. CopyColumn new w' old w n nbi obi = Some (new', old') \<and> length new' = length new \<and> length old' = length old \<and>
    (\<forall>row < n. \<forall>j < w'. new' ! (row * w' + j) =
       (if j = nbi div 8 then push_bit (if nbi mod 8 \<noteq> 7 then 1 else 0)
          (new ! (row * w' + j) OR drop_bit 7 (old ! (row * w + obi div 8) AND 0x80)) else new ! (row * w' + j))) \<and>
    (\<forall>row < n. \<forall>j < w. old' ! (row * w + j) =
       (if j = obi div 8 then push_bit 1 (old ! (row * w + j)) else old ! (row * w + j)))"
proof -
  define g where "g x y = push_bit (if nbi mod 8 \<noteq> 7 then 1 else 0) (x OR drop_bit 7 (y AND 0x80 :: byte))" for x y
  define step where "step row = (\<lambda>(new, old :: byte list).
    (new[row * w' + nbi div 8 := g (new ! (row * w' + nbi div 8)) (old ! (row * w + obi div 8))],
     old[row * w + obi div 8 := push_bit 1 (old ! (row * w + obi div 8))]))" for row
  have jn: "nbi div 8 < w'" "obi div 8 < w" using assms(1,2) by (simp_all add: less_mult_imp_div_less mult.commute)
  have inj: "row' * w' + nbi div 8 = row * w' + j \<longleftrightarrow> row = row' \<and> j = nbi div 8" if "j < w'" for row row' j
    using row_index_inj[OF jn(1) that, of row' row] by auto
  have inj2: "row' * w + obi div 8 = row * w + j \<longleftrightarrow> row = row' \<and> j = obi div 8" if "j < w" for row row' j
    using row_index_inj[OF jn(2) that, of row' row] by auto
  have bnd: "row * w' + j < length new" if "row < n" "j < w'" for row j using row_bound[OF that] assms(3) by simp
  have bnd2: "row * w + j < length old" if "row < n" "j < w" for row j using row_bound[OF that] assms(4) by simp
  have "\<exists>new' old'. fold step [0..<i] (new, old) = (new', old') \<and> length new' = length new \<and> length old' = length old \<and>
    (\<forall>row < n. \<forall>j < w'. new' ! (row * w' + j) =
       (if row < i \<and> j = nbi div 8 then g (new ! (row * w' + j)) (old ! (row * w + obi div 8)) else new ! (row * w' + j))) \<and>
    (\<forall>row < n. \<forall>j < w. old' ! (row * w + j) =
       (if row < i \<and> j = obi div 8 then push_bit 1 (old ! (row * w + j)) else old ! (row * w + j)))" if "i \<le> n" for i
    using that
  proof (induction i)
    case (Suc i)
    then obtain new1 old1 where "fold step [0..<i] (new, old) = (new1, old1)" "length new1 = length new" "length old1 = length old"
      and n1: "\<And>row j. row < n \<Longrightarrow> j < w' \<Longrightarrow> new1 ! (row * w' + j) =
        (if row < i \<and> j = nbi div 8 then g (new ! (row * w' + j)) (old ! (row * w + obi div 8)) else new ! (row * w' + j))"
      and o1: "\<And>row j. row < n \<Longrightarrow> j < w \<Longrightarrow> old1 ! (row * w + j) =
        (if row < i \<and> j = obi div 8 then push_bit 1 (old ! (row * w + j)) else old ! (row * w + j))"
      by auto
    then show ?case
      using Suc.prems jn by (auto simp: step_def[of i] nth_list_update less_Suc_eq inj inj2 bnd bnd2 n1 o1)
  qed simp
  note res = this[OF order.refl]
  have "CopyColumn new w' old w n nbi obi = Some (fold step [0..<n] (new, old))"
    using assms(1) by (cases "nbi mod 8 = 7") (simp_all only: CopyColumn_def Let_def step_def[abs_def] g_def simp_thms if_True if_False push_bit_0_id id_apply)
  then show ?thesis
    using res unfolding g_def[symmetric] by (simp del: push_bit_Suc)
qed

text \<open>
  A byte of the new mask is filled from its right end: as long as it is the current byte its columns end at bit 1, and
  once it is complete column \<open>c\<close> is at bit \<open>7 - c mod 8\<close>.
\<close>

definition last_bit :: "nat \<Rightarrow> nat \<Rightarrow> nat" where
  "last_bit nbi j = (if j < nbi div 8 then 7 else nbi mod 8)"

definition spreading :: "nat \<Rightarrow> nat \<Rightarrow> nat \<Rightarrow> (nat \<Rightarrow> nat \<Rightarrow> bool) \<Rightarrow> byte list \<Rightarrow> nat \<Rightarrow> nat \<Rightarrow> byte list \<Rightarrow> byte list \<Rightarrow> bool" where
  "spreading w' w n P orig nbi obi new old \<longleftrightarrow> n * w' \<le> length new \<and> n * w \<le> length old \<and>
     (\<forall>row < n. \<forall>c. P row c \<longrightarrow> c < nbi) \<and>
     (\<forall>row < n. \<forall>j < w'. \<forall>k < 8. bit (new ! (row * w' + j)) k \<longleftrightarrow>
        (\<exists>c. P row c \<and> c div 8 = j \<and> k + c mod 8 = last_bit nbi j)) \<and>
     (\<forall>row < n. \<forall>j < w. obi div 8 \<le> j \<longrightarrow>
        old ! (row * w + j) = push_bit (if j = obi div 8 then obi mod 8 else 0) (orig ! (row * w + j)))"

lemma last_bit_add: "last_bit (nbi + z) (nbi div 8) = nbi mod 8 + min z (7 - nbi mod 8)"
proof (cases "nbi mod 8 + z < 8")
  case True
  then show ?thesis by (simp add: last_bit_def split_column[of nbi z])
next
  case False
  then have "0 < (nbi mod 8 + z) div 8" by (simp add: div_greater_zero_iff)
  moreover have "nbi mod 8 < 8" by simp
  then have "min z (7 - nbi mod 8) = 7 - nbi mod 8" "nbi mod 8 + (7 - nbi mod 8) = 7" using False by linarith+
  ultimately show ?thesis by (simp add: last_bit_def split_column[of nbi z])
qed

text \<open>Shifting the current byte left by as many bits as the step adds columns, without pushing it over the end.\<close>

lemma shifted_bits:
  assumes P: "\<And>c. P c \<Longrightarrow> c < nbi" and "k < 8"
    and s: "s = min z (7 - nbi mod 8)"
    and b: "\<And>k. k < 8 \<Longrightarrow> bit (b :: byte) k \<longleftrightarrow> (\<exists>c. P c \<and> c div 8 = nbi div 8 \<and> k + c mod 8 = nbi mod 8)"
  shows "bit (push_bit s b) k \<longleftrightarrow> (\<exists>c. P c \<and> c div 8 = nbi div 8 \<and> k + c mod 8 = last_bit (nbi + z) (nbi div 8))"
proof -
  define t where "t = nbi mod 8"
  have lb: "last_bit (nbi + z) (nbi div 8) = t + s" by (simp add: last_bit_add s t_def)
  have le: "s \<le> k" if "P c" "c div 8 = nbi div 8" "k + c mod 8 = t + s" for c
  proof -
    have "c mod 8 < t" using P[OF that(1)] that(2) div_mult_mod_eq[of c 8] div_mult_mod_eq[of nbi 8] unfolding t_def by linarith
    then show ?thesis using that(3) by linarith
  qed
  have "s \<le> k \<and> (\<exists>c. P c \<and> c div 8 = nbi div 8 \<and> k - s + c mod 8 = t)
      \<longleftrightarrow> (\<exists>c. P c \<and> c div 8 = nbi div 8 \<and> k + c mod 8 = t + s)" (is "?L = ?R")
  proof
    assume ?L
    then obtain c where "P c" "c div 8 = nbi div 8" "k + c mod 8 = t + s"
      using add.commute le_add_diff_inverse2 by (metis add.assoc)
    then show ?R by blast
  next
    assume ?R
    then obtain c where c: "P c" "c div 8 = nbi div 8" "k + c mod 8 = t + s" by blast
    then have "k - s + c mod 8 = t" using le[OF c] by linarith
    then show ?L using c le[OF c] by blast
  qed
  moreover have "bit (push_bit s b) k \<longleftrightarrow> s \<le> k \<and> bit b (k - s)"
    using assms(2) by (auto simp: bit_push_bit_iff)
  ultimately show ?thesis
    using b[of "k - s"] assms(2) unfolding lb t_def[symmetric] by simp
qed

lemma later_bytes: "(\<And>c. P c \<Longrightarrow> c < nbi) \<Longrightarrow> nbi div 8 < j \<Longrightarrow> P c \<Longrightarrow> c div 8 \<noteq> (j :: nat)"
  by (meson div_le_mono less_imp_le_nat not_le)

lemma spreading_zeros:
  assumes sp: "spreading w' w n P orig nbi obi new old" and nbi: "nbi < 8 * w'"
  shows "spreading w' w n P orig (nbi + z) obi (InsertZeroColumns z new w' n nbi) old"
proof -
  let ?s = "min z (7 - nbi mod 8)" and ?new = "InsertZeroColumns z new w' n nbi"
  have j0: "nbi div 8 < w'" using nbi by (simp add: less_mult_imp_div_less mult.commute)
  have eq: "?new = fold (\<lambda>row m. m[row * w' + nbi div 8 := push_bit ?s (m ! (row * w' + nbi div 8))]) [0..<n] new"
    by (simp add: InsertZeroColumns_def Let_def)
  have len: "length ?new = length new" and nth: "\<And>row j. row < n \<Longrightarrow> j < w' \<Longrightarrow> ?new ! (row * w' + j)
        = (if j = nbi div 8 then push_bit ?s (new ! (row * w' + j)) else new ! (row * w' + j))"
    using fold_rows[OF j0, of n new "push_bit ?s"] sp unfolding eq spreading_def by blast+
  have old: "row < n \<Longrightarrow> P row c \<Longrightarrow> c < nbi" for row c using sp by (auto simp: spreading_def)
  have bits: "row < n \<Longrightarrow> j < w' \<Longrightarrow> k < 8 \<Longrightarrow> bit (new ! (row * w' + j)) k \<longleftrightarrow>
        (\<exists>c. P row c \<and> c div 8 = j \<and> k + c mod 8 = last_bit nbi j)" for row j k using sp by (auto simp: spreading_def)
  have "bit (?new ! (row * w' + j)) k \<longleftrightarrow> (\<exists>c. P row c \<and> c div 8 = j \<and> k + c mod 8 = last_bit (nbi + z) j)"
    if r: "row < n" "j < w'" "k < 8" for row j k
  proof (cases j "nbi div 8" rule: linorder_cases)
    case less
    then have "j < (nbi + z) div 8" by (meson div_le_mono le_add1 less_le_trans)
    then show ?thesis using less bits[OF r] nth[OF r(1,2)] by (simp add: last_bit_def)
  next
    case equal
    show ?thesis
      unfolding nth[OF r(1,2)] using equal shifted_bits[of "P row" nbi k ?s z "new ! (row * w' + j)"] old[OF r(1)] r bits[OF r(1,2)]
      by (simp add: last_bit_def[of nbi])
  next
    case greater
    then show ?thesis using bits[OF r] nth[OF r(1,2)] later_bytes[of "P row" nbi j] old[OF r(1)] by auto
  qed
  then show ?thesis using sp len by (auto simp: spreading_def intro: trans_less_add1)
qed


lemma bit_top_bit: "bit (drop_bit 7 (x AND 0x80 :: byte)) k \<longleftrightarrow> k = 0 \<and> bit x 7"
proof -
  have "(0x80 :: byte) = 2 ^ 7" by simp
  then show ?thesis
    by (auto simp only: bit_drop_bit_eq bit_and_iff bit_exp_iff comp_def possible_bit_word) auto
qed

lemma bit_push_or:
  assumes "\<And>k. bit x k \<longleftrightarrow> k = 0 \<and> M" "k < 8"
  shows "bit (push_bit s (b OR x :: byte)) k \<longleftrightarrow> bit (push_bit s b) k \<or> k = s \<and> M"
  using assms(2) by (auto simp: bit_push_bit_iff bit_or_iff assms(1) simp del: push_bit_or)

lemma spreading_copy:
  assumes sp: "spreading w' w n P orig nbi obi new old" and nbi: "nbi < 8 * w'" and obi: "obi < 8 * w"
  shows "\<exists>new' old'. CopyColumn new w' old w n nbi obi = Some (new', old') \<and> length new' = length new \<and> length old' = length old \<and>
    spreading w' w n (\<lambda>row c. P row c \<or> c = nbi \<and> mask_bit w orig row obi) orig (Suc nbi) (Suc obi) new' old'"
proof -
  let ?P = "\<lambda>row c. P row c \<or> c = nbi \<and> mask_bit w orig row obi" and ?s = "if nbi mod 8 \<noteq> 7 then 1 else 0 :: nat"
  have b: "n * w' \<le> length new" "n * w \<le> length old" "\<And>row c. row < n \<Longrightarrow> P row c \<Longrightarrow> c < nbi"
    using sp by (auto simp: spreading_def)
  obtain new' old' where cc: "CopyColumn new w' old w n nbi obi = Some (new', old')" "length new' = length new" "length old' = length old"
    and nth: "\<And>row j. row < n \<Longrightarrow> j < w' \<Longrightarrow> new' ! (row * w' + j) =
       (if j = nbi div 8 then push_bit ?s (new ! (row * w' + j) OR drop_bit 7 (old ! (row * w + obi div 8) AND 0x80))
        else new ! (row * w' + j))"
    and onth: "\<And>row j. row < n \<Longrightarrow> j < w \<Longrightarrow> old' ! (row * w + j) =
       (if j = obi div 8 then push_bit 1 (old ! (row * w + j)) else old ! (row * w + j))"
    using CopyColumn_nth[OF nbi obi b(1,2)] by blast
  have bits: "row < n \<Longrightarrow> j < w' \<Longrightarrow> k < 8 \<Longrightarrow> bit (new ! (row * w' + j)) k \<longleftrightarrow>
        (\<exists>c. P row c \<and> c div 8 = j \<and> k + c mod 8 = last_bit nbi j)" for row j k using sp by (auto simp: spreading_def)
  have o: "row < n \<Longrightarrow> j < w \<Longrightarrow> obi div 8 \<le> j \<Longrightarrow>
      old ! (row * w + j) = push_bit (if j = obi div 8 then obi mod 8 else 0) (orig ! (row * w + j))" for row j
    using sp by (auto simp: spreading_def)
  have ow: "obi div 8 < w" using obi by (simp add: less_mult_imp_div_less mult.commute)
  have top: "bit (drop_bit 7 (old ! (row * w + obi div 8) AND 0x80)) k \<longleftrightarrow> k = 0 \<and> mask_bit w orig row obi" if "row < n" for row k
    unfolding bit_top_bit using o[OF that ow] mod_less_divisor[of 8 obi] by (auto simp: mask_bit_def bit_push_bit_iff)
  have s: "?s = min 1 (7 - nbi mod 8)" using mod_less_divisor[of 8 nbi] by auto
  have "bit (new' ! (row * w' + j)) k \<longleftrightarrow> (\<exists>c. ?P row c \<and> c div 8 = j \<and> k + c mod 8 = last_bit (Suc nbi) j)"
    if r: "row < n" "j < w'" "k < 8" for row j k
  proof (cases j "nbi div 8" rule: linorder_cases)
    case less
    then have "j < Suc nbi div 8" by (meson div_le_mono le_SucI le_refl less_le_trans)
    then show ?thesis using less bits[OF r] nth[OF r(1,2)] by (auto simp: last_bit_def)
  next
    case equal
    let ?b = "new ! (row * w' + j)"
    have "bit (new' ! (row * w' + j)) k \<longleftrightarrow> bit (push_bit ?s ?b) k \<or> k = ?s \<and> mask_bit w orig row obi"
      unfolding nth[OF r(1,2)] if_P[OF equal] by (rule bit_push_or) (use r(3) top[OF r(1)] in simp_all)
    also have "bit (push_bit ?s ?b) k \<longleftrightarrow> (\<exists>c. P row c \<and> c div 8 = nbi div 8 \<and> k + c mod 8 = last_bit (nbi + 1) (nbi div 8))"
      using shifted_bits[of "P row" nbi k ?s 1 ?b, OF _ r(3) s] b(3)[OF r(1)] bits[OF r(1,2)] equal by (simp add: last_bit_def[of nbi])
    also have "k = ?s \<longleftrightarrow> k + nbi mod 8 = last_bit (nbi + 1) (nbi div 8)"
      unfolding last_bit_add s[symmetric] by auto
    finally show ?thesis using equal by auto
  next
    case greater
    then have "c div 8 \<noteq> j" if "?P row c" for c
      using later_bytes[of "P row" nbi j c] b(3)[OF r(1)] that by auto
    then show ?thesis using greater bits[OF r] nth[OF r(1,2)] by auto
  qed
  moreover have "old' ! (row * w + j) = push_bit (if j = Suc obi div 8 then Suc obi mod 8 else 0) (orig ! (row * w + j))"
    if "row < n" "j < w" "Suc obi div 8 \<le> j" for row j
  proof (cases "obi mod 8 = 7")
    case True
    then have "Suc obi div 8 = Suc (obi div 8)" "Suc obi mod 8 = 0" using split_column[of obi 1] by simp_all
    then show ?thesis using that onth[of row j] o[of row j] by auto
  next
    case False
    then have "obi mod 8 + 1 < 8" using mod_less_divisor[of 8 obi] by linarith
    then have "Suc obi div 8 = obi div 8" "Suc obi mod 8 = Suc (obi mod 8)" using split_column[of obi 1] by simp_all
    then show ?thesis using that onth[of row j] o[of row j] by (auto simp: push_bit_eq_mult ac_simps)
  qed
  ultimately have "spreading w' w n ?P orig (Suc nbi) (Suc obi) new' old'"
    using b cc(2,3) unfolding spreading_def by (auto simp: less_SucI)
  then show ?thesis using cc by blast
qed


lemma length_fold_update: "length (fold (\<lambda>i m. m[f i := g i m]) is m) = length m"
  by (induction "is" arbitrary: m) auto

lemma length_InsertZeroColumns: "length (InsertZeroColumns z new w n nbi) = length new"
  by (simp add: InsertZeroColumns_def Let_def length_fold_update)

definition spread_to :: "nat \<Rightarrow> byte list \<Rightarrow> nat list \<Rightarrow> nat \<Rightarrow> nat \<Rightarrow> nat \<Rightarrow> bool" where
  "spread_to w orig cs i row c \<longleftrightarrow> (\<exists>j < i. c = cs ! j \<and> mask_bit w orig row j)"

lemma spread_to_Suc:
  "(\<lambda>row c. spread_to w orig cs i row c \<or> c = cs ! i \<and> mask_bit w orig row i) = spread_to w orig cs (Suc i)"
  by (auto simp: spread_to_def fun_eq_iff less_Suc_eq)

lemma insert_zeros_loop_ok:
  assumes "spreading w' w n (spread_to w orig (map (column s0) media) obi) orig (Suc (column s0 (media ! (obi - 1)))) obi new old"
    "ps = drop obi media" "0 < obi" "obi \<le> length media" "sorted_wrt (<) (map (column s0) media)"
    "\<And>p. p \<in> set media \<Longrightarrow> column s0 p < mx \<and> column s0 p < 8 * w'" "length media \<le> 8 * w"
  shows "\<exists>new' old'. insert_zeros_loop mx n w' w (ParseSequenceNumber (media ! (obi - 1))) ps
      (Suc (column s0 (media ! (obi - 1)))) obi (new, old) = Some (Suc (column s0 (last media)), new', old') \<and>
    length new' = length new \<and> length old' = length old \<and>
    spreading w' w n (spread_to w orig (map (column s0) media) (length media)) orig (Suc (column s0 (last media))) (length media) new' old'"
  using assms
proof (induction ps arbitrary: obi new old)
  case Nil
  then have "obi = length media" by simp
  then show ?case using Nil.prems by (simp add: last_conv_nth)
next
  case (Cons p ps)
  let ?cs = "map (column s0) media" and ?q = "media ! (obi - 1)"
  have o: "obi < length media" and p: "p = media ! obi" and ps: "ps = drop (Suc obi) media"
    using Cons.prems(2) by (metis drop_all list.distinct(1) not_le_imp_less, metis drop_all list.distinct(1) not_le_imp_less nth_via_drop,
        metis drop_Suc list.sel(3) tl_drop)
  have lt: "column s0 ?q < column s0 p"
    using sorted_wrt_nth_less[OF Cons.prems(5), of "obi - 1" obi] o p Cons.prems(3) by simp
  define z where "z = column s0 p - column s0 ?q - 1"
  have z: "unat (ParseSequenceNumber p - ParseSequenceNumber ?q - 1) = z"
  proof -
    have "unat (ParseSequenceNumber p - ParseSequenceNumber ?q) = column s0 p - column s0 ?q" using column_step[OF lt] .
    moreover have "ParseSequenceNumber p - ParseSequenceNumber ?q \<noteq> 0" using calculation lt by auto
    ultimately show ?thesis using lt by (simp add: z_def unat_minus_one)
  qed
  have nz: "Suc (column s0 ?q) + z = column s0 p" using lt by (simp add: z_def)
  have pb: "column s0 p < mx" "column s0 p < 8 * w'" using Cons.prems(6)[of p] p o by auto
  let ?new = "if z > 0 then InsertZeroColumns z new w' n (Suc (column s0 ?q)) else new"
  have "spreading w' w n (spread_to w orig ?cs obi) orig (column s0 p) obi ?new old"
    using spreading_zeros[OF Cons.prems(1), of z] Cons.prems(1) nz lt pb by (cases "z > 0") auto
  from spreading_copy[OF this pb(2)] obtain new' old' where c: "CopyColumn ?new w' old w n (column s0 p) obi = Some (new', old')"
    "length new' = length ?new" "length old' = length old"
    "spreading w' w n (spread_to w orig ?cs (Suc obi)) orig (Suc (column s0 p)) (Suc obi) new' old'"
    using o p Cons.prems(7) spread_to_Suc[of w orig ?cs obi] by auto
  have IH: "\<exists>new'' old''. insert_zeros_loop mx n w' w (ParseSequenceNumber p) ps (Suc (column s0 p)) (Suc obi) (new', old')
        = Some (Suc (column s0 (last media)), new'', old'') \<and> length new'' = length new' \<and> length old'' = length old' \<and>
    spreading w' w n (spread_to w orig ?cs (length media)) orig (Suc (column s0 (last media))) (length media) new'' old''"
    using Cons.IH[of "Suc obi" new' old'] c(4) ps o p Cons.prems(5-7) by simp
  have "insert_zeros_loop mx n w' w (ParseSequenceNumber ?q) (p # ps) (Suc (column s0 ?q)) obi (new, old)
      = insert_zeros_loop mx n w' w (ParseSequenceNumber p) ps (Suc (column s0 p)) (Suc obi) (new', old')"
    using c(1) lt pb(1) unfolding insert_zeros_loop.simps Let_def z nz by simp
  moreover have "length new' = length new" using c(2) by (simp add: length_InsertZeroColumns)
  ultimately show ?case using IH c(3) by simp
qed

lemma spreading_start:
  assumes "set (take (n * w') new) \<subseteq> {0}" "n * w' \<le> length new" "n * w \<le> length orig"
  shows "spreading w' w n (\<lambda>_ _. False) orig 0 0 new orig"
proof -
  have "new ! (row * w' + j) = 0" if "row < n" "j < w'" for row j
  proof -
    have "row * w' + j < n * w'" using row_bound[OF that] .
    then have "new ! (row * w' + j) \<in> set (take (n * w') new)" using assms(2) by (auto simp: in_set_conv_nth)
    then show ?thesis using assms(1) by auto
  qed
  then show ?thesis using assms by (auto simp: spreading_def)
qed

lemma shift_last_byte_ok:
  assumes sp: "spreading w' w n P orig nbi obi new old" "nbi \<le> 8 * w'"
  shows "length (shift_last_byte n w' nbi new) = length new \<and>
    (\<forall>row < n. \<forall>c < 8 * w'. mask_bit w' (shift_last_byte n w' nbi new) row c \<longleftrightarrow> P row c)"
proof -
  let ?new = "shift_last_byte n w' nbi new"
  define nbi' where "nbi' = (if nbi mod 8 = 0 then nbi else nbi + (8 - nbi mod 8))"
  have sp': "spreading w' w n P orig nbi' obi ?new old \<and> nbi' mod 8 = 0 \<and> nbi \<le> nbi'"
  proof (cases "nbi mod 8 = 0")
    case True
    then show ?thesis using sp by (simp add: shift_last_byte_def nbi'_def)
  next
    case False
    have "nbi < 8 * w'" using sp(2) False by (metis le_neq_implies_less mod_mult_self1_is_0)
    moreover have "?new = InsertZeroColumns (8 - nbi mod 8) new w' n nbi"
      using False mod_less_divisor[of 8 nbi] by (simp add: shift_last_byte_def InsertZeroColumns_def)
    moreover have "(nbi + (8 - nbi mod 8)) mod 8 = 0"
      unfolding split_column(2)[of nbi "8 - nbi mod 8"] using mod_less_divisor[of 8 nbi] by simp
    ultimately show ?thesis
      using spreading_zeros[OF sp(1), of "8 - nbi mod 8"] unfolding nbi'_def if_not_P[OF False] by (metis le_add1)
  qed
  have "mask_bit w' ?new row c \<longleftrightarrow> P row c" if "row < n" "c < 8 * w'" for row c
  proof -
    have j: "c div 8 < w'" using that by (simp add: less_mult_imp_div_less mult.commute)
    have lt: "c' div 8 < nbi' div 8" if "P row c'" for c'
    proof -
      have "c' < nbi'" using sp' that \<open>row < n\<close> by (auto simp: spreading_def)
      then show ?thesis using sp' div_mult_mod_eq[of nbi' 8] by (simp add: div_less_iff_less_mult)
    qed
    have "mask_bit w' ?new row c \<longleftrightarrow> (\<exists>c'. P row c' \<and> c' div 8 = c div 8 \<and> 7 - c mod 8 + c' mod 8 = last_bit nbi' (c div 8))"
      using sp' that j by (simp add: spreading_def mask_bit_def)
    also have "\<dots> \<longleftrightarrow> (\<exists>c'. P row c' \<and> c' div 8 = c div 8 \<and> 7 - c mod 8 + c' mod 8 = 7)"
      using lt by (metis last_bit_def)
    also have "\<dots> \<longleftrightarrow> P row c"
    proof
      assume "\<exists>c'. P row c' \<and> c' div 8 = c div 8 \<and> 7 - c mod 8 + c' mod 8 = 7"
      then obtain c' where c': "P row c'" "c' div 8 = c div 8" "7 - c mod 8 + c' mod 8 = 7" by blast
      then have "c' mod 8 = c mod 8" using mod_less_divisor[of 8 c] by linarith
      then have "c' = c" using c'(2) by (metis div_mod_decomp)
      then show "P row c" using c'(1) by simp
    next
      assume "P row c"
      then show "\<exists>c'. P row c' \<and> c' div 8 = c div 8 \<and> 7 - c mod 8 + c' mod 8 = 7"
        using mod_less_divisor[of 8 c] by (intro exI[of _ c] conjI) (assumption, rule refl, linarith)
    qed
    finally show ?thesis .
  qed
  moreover have "length ?new = length new" by (simp add: shift_last_byte_def Let_def length_fold_update)
  ultimately show ?thesis by blast
qed


lemma sorted_lower_bound: "sorted_wrt (<) (cs :: nat list) \<Longrightarrow> j < length cs \<Longrightarrow> j \<le> cs ! j"
proof (induction j)
  case (Suc j)
  then have "j \<le> cs ! j" "cs ! j < cs ! Suc j" by (auto intro: sorted_wrt_nth_less)
  then show ?case by simp
qed simp

lemma sorted_dense:
  assumes "sorted_wrt (<) (cs :: nat list)" "cs \<noteq> []" "last cs = length cs - 1" "j < length cs"
  shows "cs ! j = j"
proof -
  have up: "cs ! (length cs - 1 - i) \<le> length cs - 1 - i" if "i < length cs" for i
    using that
  proof (induction i)
    case 0
    then show ?case using assms(2,3) by (simp add: last_conv_nth)
  next
    case (Suc i)
    then have "cs ! (length cs - 1 - Suc i) < cs ! (length cs - 1 - i)" by (intro sorted_wrt_nth_less[OF assms(1)]) auto
    then show ?case using Suc by fastforce
  qed
  then have "cs ! j \<le> j" using up[of "length cs - 1 - j"] assms(4) by simp
  then show ?thesis using sorted_lower_bound[OF assms(1,4)] by simp
qed

text \<open>The packets of a batch: sequence numbers increase from packet to packet, and the last is less than 48 behind the first.\<close>

definition batch :: "byte list list \<Rightarrow> bool" where
  "batch media \<longleftrightarrow> media \<noteq> [] \<and> (let s0 = ParseSequenceNumber (hd media)
     in sorted_wrt (<) (map (column s0) media) \<and> column s0 (last media) < kUlpfecMaxMediaPackets)"

lemma batch_columns:
  assumes "batch media" and s0: "s0 = ParseSequenceNumber (hd media)"
  shows "sorted_wrt (<) (map (column s0) media)" "p \<in> set media \<Longrightarrow> column s0 p \<le> column s0 (last media)"
    "length media \<le> Suc (column s0 (last media))" "column s0 (last media) < 48" "column s0 (hd media) = 0"
proof -
  show so: "sorted_wrt (<) (map (column s0) media)" and "column s0 (last media) < 48"
    using assms by (auto simp: batch_def kUlpfecMaxMediaPackets_def Let_def)
  show "column s0 (hd media) = 0" by (simp add: column_def s0)
  have ne: "media \<noteq> []" using assms by (simp add: batch_def)
  show "length media \<le> Suc (column s0 (last media))"
    using sorted_lower_bound[OF so, of "length media - 1"] ne by (simp add: last_conv_nth)
  assume "p \<in> set media"
  then obtain j where "j < length media" "p = media ! j" by (auto simp: in_set_conv_nth)
  then show "column s0 p \<le> column s0 (last media)"
    using sorted_wrt_nth_less[OF so, of j "length media - 1"] ne
    by (cases "j < length media - 1") (auto simp: last_conv_nth not_less dest: le_antisym[rotated])
qed

lemma mask_bit_append:
  assumes "length xs = n * w" "row < n" "c < 8 * w"
  shows "mask_bit w (xs @ ys) row c \<longleftrightarrow> mask_bit w xs row c"
proof -
  have "c div 8 < w" using assms(3) by (simp add: less_mult_imp_div_less mult.commute)
  then have "row * w + c div 8 < length xs" using row_bound[of row n "c div 8" w] assms by simp
  then show ?thesis by (simp add: mask_bit_def nth_append)
qed

lemma missing_count:
  assumes "k \<le> Suc L" "0 < k" "L < 48"
  shows "(size_sub L k + 1) mod 2 ^ 64 = Suc L - k"
proof (cases "k \<le> L")
  case True
  then show ?thesis using assms by (simp add: size_sub_le)
next
  case False
  then have "k = Suc L" using assms by simp
  then show ?thesis by (simp add: size_sub_def)
qed

text \<open>Without holes the masks stay as they are; the columns are the indices of the packets.\<close>

lemma dense_columns:
  assumes media: "batch media" and s0: "s0 = ParseSequenceNumber (hd media)" and d: "length media = Suc (column s0 (last media))"
    and c: "covers (length media) n w orig" and "row < n" "c < 8 * w"
  shows "mask_bit w (orig @ rest) row c \<longleftrightarrow> (\<exists>j < length media. c = column s0 (media ! j) \<and> mask_bit w orig row j)"
proof -
  have ne: "media \<noteq> []" using media by (simp add: batch_def)
  have "column s0 (media ! j) = j" if "j < length media" for j
    using sorted_dense[OF batch_columns(1)[OF media s0], of j] that ne d by (simp add: last_map)
  moreover have "mask_bit w (orig @ rest) row c \<longleftrightarrow> mask_bit w orig row c"
    using c assms(5,6) by (intro mask_bit_append) (auto simp: covers_def)
  moreover have "c < length media" if "mask_bit w orig row c"
    using c assms(5,6) that unfolding covers_def by blast
  ultimately show ?thesis by metis
qed

lemma InsertZeros_holes:
  assumes media: "batch media" and s0: "s0 = ParseSequenceNumber (hd media)" and st: "enc_mask_size st = PacketMaskSize (length media)"
      "length (packet_masks st) = 288" "length (tmp_packet_masks st) = 288" "n \<le> 48"
    and holes: "length media < Suc (column s0 (last media))" "1 < length media" and w': "w' = PacketMaskSize (Suc (column s0 (last media)))"
  shows "\<exists>st'. InsertZerosInPacketMasks UlpfecHeaderWriter media n st = Some (Some (Suc (column s0 (last media))), st') \<and>
    length (packet_masks st') = 288 \<and> length (tmp_packet_masks st') = 288 \<and> generated_fec_packets st' = generated_fec_packets st \<and>
    (\<forall>row < n. \<forall>c < 8 * w'. mask_bit w' (packet_masks st') row c \<longleftrightarrow>
       spread_to (PacketMaskSize (length media)) (packet_masks st) (map (column s0) media) (length media) row c)"
proof -
  let ?w = "PacketMaskSize (length media)" and ?cs = "map (column s0) media" and ?L = "column s0 (last media)"
  define orig where "orig = packet_masks st"
  define tmp where "tmp = put_at 0 (replicate (n * w') 0) (tmp_packet_masks st)"
  note bc = batch_columns[OF media s0]
  have ne: "media \<noteq> []" using media by (simp add: batch_def)
  have nw: "n * w' \<le> 288" "n * ?w \<le> 288" "w' \<noteq> 0" "?w \<noteq> 0" "Suc ?L \<le> 8 * w'" "length media \<le> 8 * ?w"
  proof -
    have "n * PacketMaskSize m \<le> 48 * 6" for m
      using st(4) PacketMaskSize_bounds(1)[of m] by (intro mult_le_mono) auto
    then show "n * w' \<le> 288" "n * ?w \<le> 288" by (simp_all add: w')
    show "w' \<noteq> 0" "?w \<noteq> 0" using PacketMaskSize_bounds(1)[of "Suc ?L"] PacketMaskSize_bounds(1)[of "length media"] by (auto simp: w')
    show "Suc ?L \<le> 8 * w'" "length media \<le> 8 * ?w" using PacketMaskSize_bounds(2) bc(3,4) by (simp_all add: w')
  qed
  have tmp: "length tmp = 288" "set (take (n * w') tmp) \<subseteq> {0}"
    using nw(1) st(3) by (auto simp: tmp_def length_put_at put_at_def set_replicate_conv_if)
  have "spreading w' ?w n (\<lambda>_ _. False) orig 0 0 tmp orig"
    using tmp nw st by (intro spreading_start) (auto simp: orig_def)
  from spreading_copy[OF this] nw obtain new old where c0: "CopyColumn tmp w' orig ?w n 0 0 = Some (new, old)"
    "length new = 288" "length old = 288" and sp0: "spreading w' ?w n (\<lambda>row c. c = 0 \<and> mask_bit ?w orig row 0) orig 1 1 new old"
    using tmp(1) st(2) by (auto simp: orig_def)
  have m0: "media ! 0 = hd media" "column s0 (media ! 0) = 0" using ne bc(5) by (simp_all add: hd_conv_nth)
  have "(\<lambda>row c. c = 0 \<and> mask_bit ?w orig row 0) = spread_to ?w orig ?cs 1"
    using m0(2) ne by (auto simp: spread_to_def fun_eq_iff)
  with sp0 have "spreading w' ?w n (spread_to ?w orig ?cs 1) orig (Suc (column s0 (media ! (1 - 1)))) 1 new old"
    using m0(2) by simp
  from insert_zeros_loop_ok[OF this, of "tl media" 48] obtain new' old' where
    lp: "insert_zeros_loop 48 n w' ?w s0 (tl media) 1 1 (new, old) = Some (Suc ?L, new', old')" "length new' = 288" "length old' = 288"
    and sp: "spreading w' ?w n (spread_to ?w orig ?cs (length media)) orig (Suc ?L) (length media) new' old'"
    using bc(1,2,4) nw(5,6) ne m0 c0(2,3) s0 by (fastforce simp: drop_Suc Suc_le_eq le_less_trans)
  let ?new = "shift_last_byte n w' (Suc ?L) new'"
  have fin: "length ?new = 288" "\<And>row c. row < n \<Longrightarrow> c < 8 * w' \<Longrightarrow> mask_bit w' ?new row c \<longleftrightarrow> spread_to ?w orig ?cs (length media) row c"
    using shift_last_byte_ok[OF sp nw(5)] lp(2) by auto
  let ?st = "st\<lparr>tmp_packet_masks := ?new, packet_masks := put_at 0 (take (n * w') ?new) old'\<rparr>"
  have "unat (ParseSequenceNumber (last media) - s0) = ?L" by (simp add: column_def)
  note cnt = this missing_count[of "length media" ?L, OF bc(3) _ bc(4)]
  have tot: "(Suc ?L - length media + length media) mod 2 ^ 64 = Suc ?L" "Suc ?L - length media \<noteq> 0" "\<not> length media \<le> 1" "0 < length media"
    using holes bc(4) ne by simp_all
  have "InsertZerosInPacketMasks UlpfecHeaderWriter media n st = Some (Some (Suc ?L), ?st)"
    unfolding InsertZerosInPacketMasks_def Let_def cnt(1) cnt(2)[OF tot(4)] tot(1) st(1) w'[symmetric] orig_def[symmetric]
      tmp_def[symmetric] s0[symmetric] c0(1)
    using tot bc(4) lp(1) by (simp add: UlpfecHeaderWriter_def kMaxMediaPackets_def)
  moreover have "mask_bit w' (packet_masks ?st) row c \<longleftrightarrow> mask_bit w' ?new row c" if "row < n" "c < 8 * w'" for row c
    using mask_bit_append[of "take (n * w') ?new" n w' row c "drop (n * w') old'"]
      mask_bit_append[of "take (n * w') ?new" n w' row c "drop (n * w') ?new"] that nw(1) fin(1)
    by (simp add: put_at_def)
  moreover have "length (packet_masks ?st) = 288" using nw(1) fin(1) lp(3) by (simp add: length_put_at)
  ultimately show ?thesis using fin by (intro exI[of _ ?st]) (simp add: orig_def)
qed


lemma InsertZerosInPacketMasks_ok:
  assumes media: "batch media" and s0: "s0 = ParseSequenceNumber (hd media)" and st: "enc_mask_size st = PacketMaskSize (length media)"
      "packet_masks st = orig @ rest" "covers (length media) n (PacketMaskSize (length media)) orig"
      "length (packet_masks st) = 288" "length (tmp_packet_masks st) = 288" "n \<le> 48"
    and w': "w' = PacketMaskSize (Suc (column s0 (last media)))"
  shows "\<exists>st'. InsertZerosInPacketMasks UlpfecHeaderWriter media n st = Some (Some (Suc (column s0 (last media))), st') \<and>
    length (packet_masks st') = 288 \<and> length (tmp_packet_masks st') = 288 \<and> generated_fec_packets st' = generated_fec_packets st \<and>
    (\<forall>row < n. \<forall>c < 8 * w'. mask_bit w' (packet_masks st') row c \<longleftrightarrow>
       (\<exists>j < length media. c = column s0 (media ! j) \<and> mask_bit (PacketMaskSize (length media)) orig row j))"
proof (cases "length media < Suc (column s0 (last media))")
  case True
  note bc = batch_columns[OF media s0]
  have one: "1 < length media"
  proof (rule ccontr)
    assume "\<not> 1 < length media"
    then have "last media = hd media" using media by (cases media) (auto simp: batch_def)
    then show False using True bc(5) media by (simp add: batch_def)
  qed
  have "mask_bit (PacketMaskSize (length media)) (packet_masks st) row j \<longleftrightarrow> mask_bit (PacketMaskSize (length media)) orig row j"
    if "row < n" "j < length media" for row j
    unfolding st(2) using that st(3) PacketMaskSize_bounds(2)[of "length media"] bc(3,4)
    by (intro mask_bit_append[of _ n]) (auto simp: covers_def)
  then have "row < n \<Longrightarrow> spread_to (PacketMaskSize (length media)) (packet_masks st) (map (column s0) media) (length media) row c \<longleftrightarrow>
      (\<exists>j < length media. c = column s0 (media ! j) \<and> mask_bit (PacketMaskSize (length media)) orig row j)" for row c
    by (auto simp: spread_to_def)
  then show ?thesis using InsertZeros_holes[OF media s0 st(1,4-6) True one w'] by simp
next
  case False
  then have d: "length media = Suc (column s0 (last media))" using batch_columns(3)[OF media s0] by simp
  have L: "unat (ParseSequenceNumber (last media) - ParseSequenceNumber (hd media)) = column s0 (last media)" by (simp add: column_def s0)
  have "InsertZerosInPacketMasks UlpfecHeaderWriter media n st = Some (Some (Suc (column s0 (last media))), st)"
    unfolding InsertZerosInPacketMasks_def Let_def L
    using missing_count[of "length media" "column s0 (last media)"] batch_columns(4)[OF media s0] d by simp
  then show ?thesis
    using st dense_columns[OF media s0 d st(3)] d w' by auto
qed

end
