(* ===== verification/Fec_Recover.thy ===== *)
theory Fec_Recover
  imports Fec_Codec
begin

text \<open>
  Recovery: a received FEC packet that carries the parity of the packets it protects gives back the one packet that
  is missing, byte for byte, whatever the newly allocated storage contained.
\<close>

subsection \<open>Recovering a packet\<close>

lemma put_ParseSequenceNumber: "put_be16 (ParseSequenceNumber p) = [p ! 2, p ! 3]"
proof -
  have "(push_bit 8 (ucast (p ! 2)) :: u16) AND ucast (p ! 3) = 0"
    by (rule bit_word_eqI) (auto simp: bit_simps dest: bit_imp_le_length)
  then have "ParseSequenceNumber p = push_bit 8 (ucast (p ! 2)) OR ucast (p ! 3)"
    by (simp add: ParseSequenceNumber_def disjunctive_add_eq_or)
  then show ?thesis
    by (auto simp: WriteBigEndian2_def intro!: bit_word_eqI) (auto simp: bit_simps dest: bit_imp_le_length)
qed

lemma put_ParseSsrc: "put_be32 (ParseSsrc p) = [p ! 8, p ! 9, p ! 10, p ! 11]"
proof -
  let ?a = "push_bit 24 (ucast (p ! 8)) :: u32" and ?b = "push_bit 16 (ucast (p ! 9)) :: u32"
    and ?c = "push_bit 8 (ucast (p ! 10)) :: u32" and ?d = "ucast (p ! 11) :: u32"
  have "?a AND ?b = 0" "(?a OR ?b) AND ?c = 0" "((?a OR ?b) OR ?c) AND ?d = 0"
    by (rule bit_word_eqI; auto simp: bit_simps dest: bit_imp_le_length)+
  then have "ParseSsrc p = ((?a OR ?b) OR ?c) OR ?d"
    by (simp add: ParseSsrc_def disjunctive_add_eq_or)
  then show ?thesis
    by (auto simp: WriteBigEndian4_def intro!: bit_word_eqI) (auto simp: bit_simps dest: bit_imp_le_length)
qed

text \<open>
  A received FEC packet whose header has been read carries the parity of the packets it protects. The two
  leading bits of the first byte (E and L) are not part of it.
\<close>

definition carries_parity :: "byte list list \<Rightarrow> ReceivedFecPacket \<Rightarrow> bool" where
  "carries_parity ps fec \<longleftrightarrow>
     (let data = fec_pkt fec; hdr = fec_hdr_size fec; plen = protection_length fec
      in kRtpHeaderSize \<le> hdr \<and> hdr + plen \<le> length data \<and> hdr + plen \<le> IP_PACKET_SIZE \<and>
         (\<forall>p \<in> set ps. kRtpHeaderSize \<le> length p) \<and> max_payload ps \<le> plen \<and>
         data ! 0 AND 0x3f = parity ps 0 AND 0x3f \<and> (\<forall>i. 0 < i \<and> i < 8 \<longrightarrow> data ! i = parity ps i) \<and>
         (\<forall>k < plen. data ! (hdr + k) = parity ps (8 + k)))"

text \<open>The documented behaviour of reallocation: the bytes in use are kept, the capacity is at least the wanted one.\<close>

definition grow_law :: "grow \<Rightarrow> bool" where
  "grow_law grow \<longleftrightarrow> (\<forall>xs n. n \<le> length (grow xs n) \<and> (length xs \<le> n \<longrightarrow> take (length xs) (grow xs n) = xs))"

text \<open>A media packet as the sender made it: RTP version 2, the given SSRC and sequence number, of a size that can be recovered.\<close>

definition media_packet :: "u32 \<Rightarrow> u16 \<Rightarrow> byte list \<Rightarrow> bool" where
  "media_packet ssrc s p \<longleftrightarrow> kRtpHeaderSize \<le> length p \<and> length p \<le> IP_PACKET_SIZE - kRtpHeaderSize \<and>
     p ! 0 AND 0xc0 = 0x80 \<and> ParseSequenceNumber p = s \<and> ParseSsrc p = ssrc"

lemma version_restored:
  assumes "x AND 0x3f = y AND 0x3f" "y AND 0xc0 = (0x80 :: byte)"
  shows "(x OR 0x80) AND 0xbf = y"
proof -
  have "(0x3f :: byte) = mask 6" "(0xbf :: byte) = NOT (push_bit 6 1)" "(0x80 :: byte) = push_bit 7 1" "(0xc0 :: byte) = push_bit 6 1 OR push_bit 7 1"
    by (simp_all add: mask_eq_exp_minus_1)
  note c = this
  have lo: "bit x n = bit y n" if "n < 6" for n
    using arg_cong[OF assms(1), of "\<lambda>w. bit w n"] that by (simp only: c bit_simps) simp
  have hi: "bit y 7" "\<not> bit y 6"
    using arg_cong[OF assms(2), of "\<lambda>w. bit w 7"] arg_cong[OF assms(2), of "\<lambda>w. bit w 6"] by (simp_all add: c bit_simps del: push_bit_of_1)
  show ?thesis
  proof (rule bit_word_eqI)
    fix n assume "n < LENGTH(8)"
    then have "n < 6 \<or> n = 6 \<or> n = 7" by auto
    then show "bit ((x OR 0x80) AND 0xbf) n = bit y n"
      using lo hi by (auto simp: c bit_simps simp del: push_bit_of_1)
  qed
qed


lemma parity_cancel: "(a XOR b) XOR b = (a :: byte)" "(a XOR (b XOR c)) XOR c = a XOR b"
  by (simp_all add: ac_simps)

text \<open>The packet being rebuilt is the FEC packet with the packets seen so far XORed in.\<close>

definition rebuilding :: "ReceivedFecPacket \<Rightarrow> byte list list \<Rightarrow> RecoveredPacket \<Rightarrow> bool" where
  "rebuilding fec qs r \<longleftrightarrow> IP_PACKET_SIZE \<le> length (pkt_store (rp_pkt r)) \<and>
     pkt_size (rp_pkt r) = kRtpHeaderSize + protection_length fec \<and> was_recovered r \<and> \<not> returned r \<and>
     (\<forall>i < 8. pkt_store (rp_pkt r) ! i = fec_pkt fec ! i XOR parity qs i) \<and>
     (\<forall>k < protection_length fec.
        pkt_store (rp_pkt r) ! (kRtpHeaderSize + k) = fec_pkt fec ! (fec_hdr_size fec + k) XOR parity qs (8 + k))"

lemma put_at_Nil [simp]: "put_at off [] d = d"
  by (simp add: put_at_def)

lemma u16_of_nat: "n < 65536 \<Longrightarrow> unat (of_nat n :: u16) = n"
  by (simp add: unsigned_of_nat take_bit_nat_eq_self)

lemma upt_12: "[0..<12] = [0, 1, 2, 3, 4, 5, 6, 7, 8, 9, 10, 11]"
  by (simp add: upt_rec)

lemma take2_drop: "n + 2 \<le> length xs \<Longrightarrow> take 2 (drop n xs) = [xs ! n, xs ! Suc n]"
  by (simp add: Cons_nth_drop_Suc[symmetric] numeral_2_eq_2)

lemma StartPacketRecovery_ok:
  assumes "carries_parity ps fec" "grow_law grow"
  shows "\<exists>r. StartPacketRecovery grow fec r0 = Some (True, r) \<and> rebuilding fec [] r"
proof -
  let ?d = "fec_pkt fec" and ?n = "protection_length fec" and ?h = "fec_hdr_size fec"
  have b: "12 \<le> ?h" "?h + ?n \<le> length ?d" "?h + ?n \<le> 1500"
    using assms(1) by (auto simp: carries_parity_def Let_def kRtpHeaderSize_def IP_PACKET_SIZE_def)
  define g where "g = grow [] 1500"
  have g: "1500 \<le> length g" using assms(2) by (simp add: grow_law_def g_def)
  have "StartPacketRecovery grow fec r0 = Some (True, r0\<lparr>returned := False, was_recovered := True,
      rp_pkt := \<lparr>pkt_store = put_at 12 (take ?n (drop ?h ?d)) (put_at 0 (take 12 ?d) g), pkt_size = 12 + ?n\<rparr>\<rparr>)"
    using b g by (auto simp: StartPacketRecovery_def Let_def kRtpHeaderSize_def IP_PACKET_SIZE_def size_sub_le SetSize_def
        EnsureCapacity_def pkt_data_def min_def add.commute simp flip: g_def)
  then show ?thesis
    using b g by (auto simp: rebuilding_def kRtpHeaderSize_def IP_PACKET_SIZE_def length_put_at nth_put_at)
qed

lemma recover_step:
  assumes "rebuilding fec qs r" "kRtpHeaderSize \<le> length q" "length q \<le> kRtpHeaderSize + protection_length fec"
    "kRtpHeaderSize + protection_length fec \<le> IP_PACKET_SIZE"
  shows "\<exists>p1 p2. XorHeaders q (rp_pkt r) = Some p1 \<and>
    XorPayloads grow q (size_sub (length q) kRtpHeaderSize) kRtpHeaderSize p1 = Some p2 \<and> rebuilding fec (q # qs) (r\<lparr>rp_pkt := p2\<rparr>)"
proof -
  let ?f = "rp_pkt r" and ?n = "length q - kRtpHeaderSize"
  have b: "length q < 2 ^ 64" "8 \<le> length (pkt_store ?f)" "12 + ?n \<le> length (pkt_store ?f)"
    "kRtpHeaderSize + protection_length fec \<le> length (pkt_store ?f)"
    using assms by (auto simp: rebuilding_def IP_PACKET_SIZE_def kRtpHeaderSize_def)
  obtain p1 where p1: "XorHeaders q ?f = Some p1" "pkt_size p1 = pkt_size ?f" "length (pkt_store p1) = length (pkt_store ?f)"
    "\<And>i. i < length (pkt_store ?f) \<Longrightarrow>
       pkt_store p1 ! i = (if i < 8 then pkt_store ?f ! i XOR nth0 (fec_image q) i else pkt_store ?f ! i)"
    using XorHeaders_nth[OF assms(2) b(1,2)] by blast
  obtain p2 where p2: "XorPayloads grow q ?n kRtpHeaderSize p1 = Some p2" "pkt_size p2 = max (pkt_size p1) (kRtpHeaderSize + ?n)"
    "length (pkt_store p2) = length (pkt_store ?f)" "\<And>i. i < kRtpHeaderSize \<Longrightarrow> pkt_store p2 ! i = pkt_store p1 ! i"
    "\<And>k. kRtpHeaderSize + k < length (pkt_store ?f) \<Longrightarrow>
       pkt_store p2 ! (kRtpHeaderSize + k) = pkt_store p1 ! (kRtpHeaderSize + k) XOR nth0 (fec_image q) (8 + k)"
    using XorPayloads_nth[of q kRtpHeaderSize p1 grow] assms(2) b p1(3) by (auto simp: kRtpHeaderSize_def)
  have "pkt_store p2 ! i = fec_pkt fec ! i XOR parity (q # qs) i" if "i < 8" for i
    using that p2(4)[of i] p1(4)[of i] assms(1) b by (simp add: rebuilding_def kRtpHeaderSize_def ac_simps)
  moreover have "pkt_store p2 ! (kRtpHeaderSize + k) = fec_pkt fec ! (fec_hdr_size fec + k) XOR parity (q # qs) (8 + k)"
    if "k < protection_length fec" for k
    using that p2(5)[of k] p1(4)[of "kRtpHeaderSize + k"] assms(1) b by (simp add: rebuilding_def kRtpHeaderSize_def ac_simps)
  ultimately show ?thesis
    using p1(1,2) p2(1-3) assms b(1) by (auto simp: rebuilding_def size_sub_le)
qed

lemma recover_loop_ok:
  assumes "rebuilding fec qs r" "\<And>pp q. pp \<in> set pps \<Longrightarrow> pp_pkt pp = Some q \<Longrightarrow>
      kRtpHeaderSize \<le> length q \<and> length q \<le> kRtpHeaderSize + protection_length fec"
    "kRtpHeaderSize + protection_length fec \<le> IP_PACKET_SIZE"
  shows "\<exists>r'. recover_loop grow pps r = Some r' \<and> rebuilding fec (rev (List.map_filter pp_pkt pps) @ qs) r' \<and>
    rp_seq_num r' = (case filter (\<lambda>pp. pp_pkt pp = None) pps of [] \<Rightarrow> rp_seq_num r | xs \<Rightarrow> pp_seq_num (last xs))"
  using assms
proof (induction pps arbitrary: r qs)
  case Nil
  then show ?case by (simp add: List.map_filter_simps)
next
  case (Cons pp pps)
  show ?case
  proof (cases "pp_pkt pp")
    case None
    have "rebuilding fec qs (r\<lparr>rp_seq_num := pp_seq_num pp\<rparr>)" using Cons.prems(1) by (simp add: rebuilding_def)
    from Cons.IH[OF this] Cons.prems(2,3) show ?thesis
      using None by (fastforce simp: List.map_filter_simps split: list.splits)
  next
    case (Some q)
    obtain p1 p2 where p: "XorHeaders q (rp_pkt r) = Some p1"
      "XorPayloads grow q (size_sub (length q) kRtpHeaderSize) kRtpHeaderSize p1 = Some p2" "rebuilding fec (q # qs) (r\<lparr>rp_pkt := p2\<rparr>)"
      using recover_step[of fec qs r q grow] Cons.prems Some by auto
    from Cons.IH[OF p(3)] Cons.prems(2,3) show ?thesis
      using Some p(1,2) by (fastforce simp: List.map_filter_simps split: list.splits)
  qed
qed


text \<open>Once all other packets are XORed in, the storage holds what the FEC packet protects of the missing one.\<close>

lemma FinishPacketRecovery_ok:
  assumes r: "IP_PACKET_SIZE \<le> length (pkt_store (rp_pkt r))" "was_recovered r" "\<not> returned r" "rp_seq_num r = s"
    and m: "media_packet (protected_ssrc fec) s m" 
    and head: "pkt_store (rp_pkt r) ! 0 AND 0x3f = nth0 (fec_image m) 0 AND 0x3f"
      "\<And>i. 0 < i \<Longrightarrow> i < 8 \<Longrightarrow> pkt_store (rp_pkt r) ! i = nth0 (fec_image m) i"
    and body: "\<And>k. k < length m - kRtpHeaderSize \<Longrightarrow> pkt_store (rp_pkt r) ! (kRtpHeaderSize + k) = nth0 (fec_image m) (8 + k)"
  shows "\<exists>r'. FinishPacketRecovery grow fec r = Some (True, r') \<and> pkt_data (rp_pkt r') = m \<and> rp_seq_num r' = s \<and>
    rp_ssrc r' = protected_ssrc fec \<and> was_recovered r' \<and> \<not> returned r'"
proof -
  define st where "st = pkt_store (rp_pkt r)"
  have m': "12 \<le> length m" "length m \<le> 1488" "m ! 0 AND 0xc0 = 0x80" "put_be16 s = [m ! 2, m ! 3]"
    "put_be32 (protected_ssrc fec) = [m ! 8, m ! 9, m ! 10, m ! 11]" "1500 \<le> length st"
    using m r(1) put_ParseSequenceNumber[of m] put_ParseSsrc[of m]
    by (auto simp: media_packet_def kRtpHeaderSize_def IP_PACKET_SIZE_def st_def)
  define s1 where "s1 = st[0 := (st ! 0 OR 0x80) AND 0xbf]"
  have head': "st ! i = m ! i" if "i \<in> {1, 4, 5, 6, 7}" for i
    using that head(2)[of i] m' by (auto simp: st_def nth_fec_image kRtpHeaderSize_def)
  have "take 2 (drop 2 s1) = put_be16 (of_nat (length m - 12))"
    using head(2)[of 2] head(2)[of 3] m'
    by (simp add: take2_drop s1_def st_def nth_fec_image kRtpHeaderSize_def) (simp add: WriteBigEndian2_def)
  then have len: "get_be16 s1 2 = Some (of_nat (length m - 12))"
    using m' by (simp add: fetch_Some s1_def read_write_be16)
  have un: "unat (of_nat (length m - 12) :: u16) = length m - 12"
    by (rule u16_of_nat) (use m' in simp)
  have ne: "0 < length st" using m' by linarith
  have s10: "s1 ! 0 = m ! 0"
    unfolding s1_def nth_list_update_eq[OF ne] using version_restored[of "st ! 0" "m ! 0"] head(1) m' by (auto simp: s1_def st_def nth_fec_image kRtpHeaderSize_def)
  have s1i: "s1 ! i = st ! i" if "0 < i" for i using that by (simp add: s1_def)
  let ?s = "put_at 8 (put_be32 (protected_ssrc fec)) (put_at 2 (put_be16 s) s1)"
  have "FinishPacketRecovery grow fec r = Some (True, r\<lparr>rp_pkt := (rp_pkt r)\<lparr>pkt_store := ?s, pkt_size := length m\<rparr>,
      rp_ssrc := protected_ssrc fec\<rparr>)"
    using m' len un r(4)
    by (simp add: FinishPacketRecovery_def Let_def kRtpHeaderSize_def IP_PACKET_SIZE_def SetSize_def EnsureCapacity_def
        flip: st_def s1_def) (simp add: s1_def)
  moreover have "take (length m) ?s = m"
  proof (rule nth_equalityI)
    show "length (take (length m) ?s) = length m" using m' by (simp add: length_put_at s1_def)
    fix i assume "i < length (take (length m) ?s)"
    then have i: "i < length m" by simp
    have n: "?s ! i = (if 8 \<le> i \<and> i < 12 then [m ! 8, m ! 9, m ! 10, m ! 11] ! (i - 8)
        else if 2 \<le> i \<and> i < 4 then [m ! 2, m ! 3] ! (i - 2) else s1 ! i)"
      using i m' by (simp add: nth_put_at length_put_at s1_def)
    have "i < 12 \<Longrightarrow> i \<in> set [0..<12]" by simp
    then consider "i = 0" | "i \<in> {1, 4, 5, 6, 7}" | "i \<in> {2, 3, 8, 9, 10, 11}" | "12 \<le> i"
      unfolding upt_12 by (cases "12 \<le> i") auto
    then have "?s ! i = m ! i"
    proof cases
      case 1
      then show ?thesis using n s10 by simp
    next
      case 2
      then show ?thesis unfolding n using s1i[of i] head'[OF 2] by auto
    next
      case 3
      then show ?thesis unfolding n by auto
    next
      case 4
      then have "s1 ! i = st ! (12 + (i - 12))" by (simp add: s1i)
      also have "\<dots> = m ! i"
        using body[of "i - 12"] i 4 m' nth_fec_image_payload[of m "i - 12"] by (simp add: st_def kRtpHeaderSize_def)
      finally show ?thesis using 4 n by simp
    qed
    then show "take (length m) ?s ! i = m ! i" using i by simp
  qed
  ultimately show ?thesis using r(2-4) by (simp add: pkt_data_def)
qed

text \<open>RecoverPacket gives back exactly the one missing packet.\<close>

lemma RecoverPacket_ok:
  assumes fec: "carries_parity (map (orig \<circ> pp_seq_num) (protected_packets fec)) fec" and grow: "grow_law grow"
    and pps: "protected_packets fec = xs @ pm # ys" "pp_pkt pm = None"
    and others: "\<And>pp. pp \<in> set (xs @ ys) \<Longrightarrow> pp_pkt pp = Some (orig (pp_seq_num pp))"
    and m: "media_packet (protected_ssrc fec) (pp_seq_num pm) (orig (pp_seq_num pm))"
  shows "\<exists>r. RecoverPacket grow fec r0 = Some (True, r) \<and> pkt_data (rp_pkt r) = orig (pp_seq_num pm) \<and>
    rp_seq_num r = pp_seq_num pm \<and> rp_ssrc r = protected_ssrc fec \<and> was_recovered r \<and> \<not> returned r"
proof -
  let ?o = "orig \<circ> pp_seq_num" and ?m = "orig (pp_seq_num pm)"
  let ?qs = "rev (map ?o (xs @ ys))"
  have bounds: "kRtpHeaderSize + protection_length fec \<le> IP_PACKET_SIZE"
    "\<And>pp. pp \<in> set (protected_packets fec) \<Longrightarrow> kRtpHeaderSize \<le> length (?o pp) \<and> length (?o pp) \<le> kRtpHeaderSize + protection_length fec"
  proof -
    show "kRtpHeaderSize + protection_length fec \<le> IP_PACKET_SIZE" using fec by (auto simp: carries_parity_def Let_def)
    fix pp assume "pp \<in> set (protected_packets fec)"
    then have "?o pp \<in> set (map ?o (protected_packets fec))" by (simp only: set_map) (rule imageI)
    then have "length (?o pp) - kRtpHeaderSize \<le> protection_length fec" "kRtpHeaderSize \<le> length (?o pp)"
      using max_payload_ge[of "?o pp" "map ?o (protected_packets fec)"] fec
      by (auto simp: carries_parity_def Let_def simp del: set_map)
    then show "kRtpHeaderSize \<le> length (?o pp) \<and> length (?o pp) \<le> kRtpHeaderSize + protection_length fec" by simp
  qed
  obtain r where r: "StartPacketRecovery grow fec r0 = Some (True, r)" "rebuilding fec [] r"
    using StartPacketRecovery_ok[OF fec grow] by blast
  have mf: "List.map_filter pp_pkt zs = map ?o zs" if "\<And>pp. pp \<in> set zs \<Longrightarrow> pp_pkt pp = Some (?o pp)" for zs
    using that by (induction zs) (auto simp: List.map_filter_simps)
  have mfa: "List.map_filter pp_pkt (xs @ pm # ys) = map ?o (xs @ ys)"
    using mf[of xs] mf[of ys] others pps(2) by (simp add: List.map_filter_def)
  have fl: "filter (\<lambda>pp. pp_pkt pp = None) (protected_packets fec) = [pm]"
    using pps others by (auto simp: filter_empty_conv)
  obtain r1 where r1: "recover_loop grow (protected_packets fec) r = Some r1" "rebuilding fec ?qs r1" "rp_seq_num r1 = pp_seq_num pm"
    using recover_loop_ok[OF r(2), of "protected_packets fec" grow] bounds others pps fl mfa by (fastforce)
  have par: "parity (map ?o (protected_packets fec)) i XOR parity ?qs i = nth0 (fec_image ?m) i" for i
  proof -
    have "parity (rev zs) i = parity zs i" for zs by (induction zs) (auto simp: ac_simps)
    then show ?thesis using pps(1) by (simp add: ac_simps)
  qed
  have "pkt_store (rp_pkt r1) ! 0 = fec_pkt fec ! 0 XOR parity ?qs 0" using r1(2) by (simp add: rebuilding_def)
  then have h0: "pkt_store (rp_pkt r1) ! 0 AND 0x3f = nth0 (fec_image ?m) 0 AND 0x3f"
    using fec par[of 0, symmetric] by (simp only: carries_parity_def Let_def bit.conj_xor_distrib2)
  have "\<exists>r'. FinishPacketRecovery grow fec r1 = Some (True, r') \<and> pkt_data (rp_pkt r') = ?m \<and> rp_seq_num r' = pp_seq_num pm \<and>
    rp_ssrc r' = protected_ssrc fec \<and> was_recovered r' \<and> \<not> returned r'"
  proof (rule FinishPacketRecovery_ok)
    show "IP_PACKET_SIZE \<le> length (pkt_store (rp_pkt r1))" "was_recovered r1" "\<not> returned r1" using r1(2) by (auto simp: rebuilding_def)
    show "pkt_store (rp_pkt r1) ! i = nth0 (fec_image ?m) i" if "0 < i" "i < 8" for i
      using that r1(2) fec par[of i] by (auto simp: rebuilding_def carries_parity_def Let_def)
    show "pkt_store (rp_pkt r1) ! (kRtpHeaderSize + k) = nth0 (fec_image ?m) (8 + k)" if "k < length ?m - kRtpHeaderSize" for k
      using that r1(2) fec par[of "8 + k"] bounds(2)[of pm] pps(1) by (auto simp: rebuilding_def carries_parity_def Let_def)
  qed (use h0 r1(3) m in auto)
  then show ?thesis using r(1) r1(1) by (simp add: RecoverPacket_def)
qed

end
