(* ===== verification/Fec_Encode.thy ===== *)
theory Fec_Encode
  imports Fec_Spread Fec_Recover
begin

text \<open>
  Encoding with the ULPFEC header: what \<open>EncodeFec\<close> writes, what \<open>ReadFecHeader\<close> makes of it, and the round trip through
  \<open>RecoverPacket\<close>.
\<close>

subsection \<open>From the encoder to the decoder\<close>

lemma UlpfecHeaderSize_eq: "w \<in> {2, 6} \<Longrightarrow> UlpfecHeaderSize w = 12 + w"
  by (auto simp: UlpfecHeaderSize_def kUlpfecPacketMaskSizeLBitClear_def kFecLevel0HeaderSize_def
      kFecLevel1HeaderSizeLBitClear_def kFecLevel1HeaderSizeLBitSet_def kUlpfecPacketMaskSizeLBitSet_def)

lemma l_bit_set: "((x AND 0x7f) OR 0x40) AND 0x40 \<noteq> (0 :: byte)" "((x AND 0x7f) OR 0x40) AND 0x3f = x AND 0x3f"
  and l_bit_clear: "((x AND 0x7f) AND 0xbf) AND 0x40 = (0 :: byte)" "((x AND 0x7f) AND 0xbf) AND 0x3f = x AND 0x3f"
proof -
  have c: "(0x3f :: byte) = mask 6" "(0x7f :: byte) = mask 7" "(0xbf :: byte) = NOT (push_bit 6 1)" "(0x40 :: byte) = push_bit 6 1"
    by (simp_all add: mask_eq_exp_minus_1)
  have "bit (((x AND 0x7f) OR 0x40) AND 0x40) 6" by (simp add: c bit_simps del: push_bit_of_1)
  then show "((x AND 0x7f) OR 0x40) AND 0x40 \<noteq> (0 :: byte)" by auto
  show "((x AND 0x7f) OR 0x40) AND 0x3f = x AND 0x3f" "((x AND 0x7f) AND 0xbf) AND 0x40 = (0 :: byte)"
    "((x AND 0x7f) AND 0xbf) AND 0x3f = x AND 0x3f"
    by (rule bit_word_eqI; simp only: c bit_simps; auto)+
qed

text \<open>The bytes of a finished ULPFEC packet.\<close>

lemma ulpfec_FinalizeFecHeader_nth:
  assumes f: "holds_parity (12 + w) ps f" "ps \<noteq> []" "w \<in> {2, 6}" "w \<le> length msk" "12 + w + max_payload ps \<le> IP_PACKET_SIZE"
  shows "\<exists>f'. ulpfec_FinalizeFecHeader ssrc base msk w f = Some f' \<and> length (pkt_data f') = 12 + w + max_payload ps \<and>
    pkt_data f' ! 0 AND 0x3f = parity ps 0 AND 0x3f \<and> (pkt_data f' ! 0 AND 0x40 \<noteq> 0 \<longleftrightarrow> w = 6) \<and>
    pkt_data f' ! 1 = parity ps 1 \<and> take 2 (drop 2 (pkt_data f')) = put_be16 base \<and>
    (\<forall>i. 4 \<le> i \<and> i < 8 \<longrightarrow> pkt_data f' ! i = parity ps i) \<and> take 2 (drop 8 (pkt_data f')) = [parity ps 2, parity ps 3] \<and>
    take 2 (drop 10 (pkt_data f')) = put_be16 (of_nat (max_payload ps)) \<and>
    (\<forall>j < w. pkt_data f' ! (12 + j) = msk ! j) \<and> (\<forall>k < max_payload ps. pkt_data f' ! (12 + w + k) = parity ps (8 + k))"
proof -
  define st where "st = pkt_store f"
  have l: "1500 \<le> length st" "12 + w + max_payload ps \<le> 1500" "w \<le> 6" and sz: "pkt_size f = 12 + w + max_payload ps"
    and st8: "\<And>i. i < 8 \<Longrightarrow> st ! i = parity ps i" and body: "\<And>k. 12 + w + k < 1500 \<Longrightarrow> st ! (12 + w + k) = parity ps (8 + k)"
    using assms by (auto simp: holds_parity_def IP_PACKET_SIZE_def st_def)
  define b0 where "b0 = (if w = 6 then (st ! 0 AND 0x7f) OR 0x40 else (st ! 0 AND 0x7f) AND 0xbf)"
  define d1 where "d1 = st[0 := b0]"
  let ?len = "put_be16 (of_nat (max_payload ps))"
  define d where "d = put_at 12 (take w msk) (put_at 10 ?len (put_at 2 (put_be16 base) (put_at 8 (take 2 (drop 2 d1)) d1)))"
  have ne: "length d1 = length st" by (simp add: d1_def)
  have st_ne: "st \<noteq> []" using l(1) by auto
  have l8: "take 2 (drop 2 d1) = [parity ps 2, parity ps 3]" using l st8[of 2] st8[of 3] by (simp add: take2_drop d1_def)
  have f': "ulpfec_FinalizeFecHeader ssrc base msk w f = Some (f\<lparr>pkt_store := d\<rparr>)"
    using l assms(3,4) sz
    by (simp add: ulpfec_FinalizeFecHeader_def Let_def d_def d1_def b0_def st_def UlpfecHeaderSize_eq size_sub_le
        kUlpfecPacketMaskSizeLBitSet_def)
  have n: "d ! i = (if 12 \<le> i \<and> i < 12 + w then msk ! (i - 12) else if 10 \<le> i \<and> i < 12 then ?len ! (i - 10)
      else if 2 \<le> i \<and> i < 4 then put_be16 base ! (i - 2) else if 8 \<le> i \<and> i < 10 then [parity ps 2, parity ps 3] ! (i - 8)
      else d1 ! i)" if "i < length st" for i
    using that l assms(4) by (auto simp: d_def l8 nth_put_at length_put_at ne)
  have ld: "length d = length st" using l assms(4) by (simp add: d_def l8 length_put_at ne)
  have pd: "pkt_data (f\<lparr>pkt_store := d\<rparr>) = take (12 + w + max_payload ps) d" by (simp add: pkt_data_def sz)
  have d1n: "d1 ! i = (if i = 0 then b0 else st ! i)" if "i < length st" for i using that by (auto simp: d1_def)
  have "b0 AND 0x3f = parity ps 0 AND 0x3f" "b0 AND 0x40 \<noteq> 0 \<longleftrightarrow> w = 6"
    using l_bit_set l_bit_clear st8[of 0] by (simp_all add: b0_def)
  moreover have "d ! 0 = b0" "d ! 1 = parity ps 1" using n[of 0] n[of 1] d1n[of 0] d1n[of 1] l st8[of 1] st_ne by auto
  moreover have "d ! i = parity ps i" if "4 \<le> i" "i < 8" for i using that n[of i] d1n[of i] l st8[of i] by simp
  moreover have "d ! (12 + w + k) = parity ps (8 + k)" if "k < max_payload ps" for k
    using that n[of "12 + w + k"] d1n[of "12 + w + k"] l body[of k] by simp
  moreover have "d ! (12 + j) = msk ! j" if "j < w" for j using that n[of "12 + j"] l by simp
  moreover have "take 2 (drop 2 d) = put_be16 base" "take 2 (drop 10 d) = ?len" "take 2 (drop 8 d) = [parity ps 2, parity ps 3]"
    using n[of 2] n[of 3] n[of 10] n[of 11] n[of 8] n[of 9] l by (simp_all add: take2_drop ld WriteBigEndian2_def)
  moreover have "take 2 (drop i (take (12 + w + max_payload ps) d)) = take 2 (drop i d)" if "i \<le> 10" for i
    using that by (simp add: drop_take min_def)
  ultimately show ?thesis
    using f' l ld by (intro exI[of _ "f\<lparr>pkt_store := d\<rparr>"]) (simp add: pd)
qed


lemma ulpfec_read_back:
  assumes f: "holds_parity (12 + w) ps f" "ps \<noteq> []" "w \<in> {2, 6}" "w \<le> length msk" "12 + w + max_payload ps \<le> IP_PACKET_SIZE"
    and ps: "\<forall>p \<in> set ps. kRtpHeaderSize \<le> length p"
  shows "\<exists>f'. ulpfec_FinalizeFecHeader ssrc base msk w f = Some f' \<and>
    (\<forall>fec0. fec_pkt fec0 = pkt_data f' \<longrightarrow> (\<exists>fec. ulpfec_ReadFecHeader fec0 = Some (True, fec) \<and> carries_parity ps fec \<and>
       fec_ssrc fec = fec_ssrc fec0 \<and> protected_ssrc fec = fec_ssrc fec0 \<and> fec_seq_num fec = fec_seq_num fec0 \<and>
       protected_packets fec = protected_packets fec0 \<and> fec_seq_num_base fec = base \<and>
       fec_mask_offset fec = 12 \<and> fec_mask_size fec = w \<and> (\<forall>j < w. fec_pkt fec ! (12 + j) = msk ! j) \<and>
       12 + w \<le> length (fec_pkt fec)))"
proof -
  obtain f' where f': "ulpfec_FinalizeFecHeader ssrc base msk w f = Some f'" and len: "length (pkt_data f') = 12 + w + max_payload ps"
    and b0: "pkt_data f' ! 0 AND 0x3f = parity ps 0 AND 0x3f" "pkt_data f' ! 0 AND 0x40 \<noteq> 0 \<longleftrightarrow> w = 6"
    and b1: "pkt_data f' ! 1 = parity ps 1" and sn: "take 2 (drop 2 (pkt_data f')) = put_be16 base"
    and ts: "\<And>i. 4 \<le> i \<Longrightarrow> i < 8 \<Longrightarrow> pkt_data f' ! i = parity ps i" and lr: "take 2 (drop 8 (pkt_data f')) = [parity ps 2, parity ps 3]"
    and pl: "take 2 (drop 10 (pkt_data f')) = put_be16 (of_nat (max_payload ps))"
    and mk: "\<And>j. j < w \<Longrightarrow> pkt_data f' ! (12 + j) = msk ! j"
    and body: "\<And>k. k < max_payload ps \<Longrightarrow> pkt_data f' ! (12 + w + k) = parity ps (8 + k)"
    using ulpfec_FinalizeFecHeader_nth[OF f, of ssrc base] by blast
  define d where "d = pkt_data f'"
  have l: "14 \<le> length d" using len f(3) by (auto simp: d_def)
  have d_ne: "d \<noteq> []" using l by auto
  define d' where "d' = put_at 2 [parity ps 2, parity ps 3] d"
  have n: "d' ! i = (if i = 2 then parity ps 2 else if i = 3 then parity ps 3 else d ! i)" if "i < length d" for i
  proof -
    have "2 \<le> i \<and> i < 4 \<longleftrightarrow> i = 2 \<or> i = 3" by linarith
    then show ?thesis using that l by (auto simp: d'_def nth_put_at)
  qed
  have mp: "max_payload ps < 65536" using f(5) by (simp add: IP_PACKET_SIZE_def)
  have rd: "get_u8 d 0 = Some (d ! 0)" "get_be16 d 2 = Some base" "get_be16 d 10 = Some (of_nat (max_payload ps))"
    "slice d 8 2 = Some [parity ps 2, parity ps 3]"
    using l d_ne sn pl lr unfolding d_def[symmetric] by (simp_all add: get_u8_def fetch_Some slice_def read_write_be16)
  have "\<exists>fec. ulpfec_ReadFecHeader fec0 = Some (True, fec) \<and> carries_parity ps fec \<and>
       fec_ssrc fec = fec_ssrc fec0 \<and> protected_ssrc fec = fec_ssrc fec0 \<and> fec_seq_num fec = fec_seq_num fec0 \<and>
       protected_packets fec = protected_packets fec0 \<and> fec_seq_num_base fec = base \<and>
       fec_mask_offset fec = 12 \<and> fec_mask_size fec = w \<and> (\<forall>j < w. fec_pkt fec ! (12 + j) = msk ! j) \<and>
       12 + w \<le> length (fec_pkt fec)" if fec0: "fec_pkt fec0 = d" for fec0
  proof -
    define fec where "fec = fec0\<lparr>fec_hdr_size := 12 + w, protected_ssrc := fec_ssrc fec0,
             fec_seq_num_base := base, fec_mask_offset := 12, fec_mask_size := w,
             protection_length := max_payload ps, fec_pkt := d'\<rparr>"
    have w: "(if d ! 0 AND 0x40 \<noteq> 0 then kUlpfecPacketMaskSizeLBitSet else kUlpfecPacketMaskSizeLBitClear) = w"
      using b0(2) f(3) unfolding d_def by (auto simp: kUlpfecPacketMaskSizeLBitClear_def kUlpfecPacketMaskSizeLBitSet_def)
    have "ulpfec_ReadFecHeader fec0 = Some (True, fec)"
      unfolding ulpfec_ReadFecHeader_def Let_def fec0 rd
      using l by (simp add: w rd UlpfecHeaderSize_eq[OF f(3)] fec_def kPacketMaskOffset_def kFecLevel0HeaderSize_def d'_def
          u16_of_nat[OF mp])
    moreover have "parity ps i = d' ! i" if "0 < i" "i < 8" for i
      using that n[of i] ts[of i] b1 l unfolding d_def[symmetric]
      by (cases "4 \<le> i") (auto simp: not_le less_Suc_eq numeral_eq_Suc)
    moreover have "d' ! (12 + w + k) = parity ps (8 + k)" if "k < max_payload ps" for k
      using that n[of "12 + w + k"] body[OF that] len unfolding d_def[symmetric] by simp
    moreover have "d' ! (12 + j) = msk ! j" if "j < w" for j
      using that n[of "12 + j"] mk[OF that] len unfolding d_def[symmetric] by simp
    moreover have "length d' = length d" using l by (simp add: d'_def length_put_at)
    moreover have "d' ! 0 AND 0x3f = parity ps 0 AND 0x3f" using n[of 0] b0(1) d_ne unfolding d_def[symmetric] by simp
    ultimately show ?thesis
      using ps f(5) len by (intro exI[of _ fec]) (simp add: fec_def carries_parity_def kRtpHeaderSize_def d_def)
  qed
  then show ?thesis using f' by (auto simp: d_def)
qed

text \<open>The mask read from the packet lists the protected sequence numbers in order.\<close>

lemma upt_bytes: "[0..<w * 8] = concat (map (\<lambda>b. map (\<lambda>i. b * 8 + i) [0..<8]) [0..<w])"
proof (induction w)
  case (Suc w)
  have "[0..<Suc w * 8] = [0..<w * 8] @ [w * 8..<w * 8 + 8]" by (metis upt_add_eq_append le0 mult_Suc add.commute)
  also have "[w * 8..<w * 8 + 8] = map (\<lambda>i. w * 8 + i) [0..<8]" by (simp add: map_add_upt add.commute)
  finally show ?case using Suc by simp
qed simp

lemma mask_packets_seq:
  assumes "\<And>j. j < fec_mask_size fec \<Longrightarrow> fec_pkt fec ! (fec_mask_offset fec + j) = msk ! j"
  shows "map pp_seq_num (mask_packets ssrc fec) = map (\<lambda>c. fec_seq_num_base fec + of_nat c)
      (filter (\<lambda>c. bit (msk ! (c div 8)) (7 - c mod 8)) [0..<fec_mask_size fec * 8])"
    and "pp \<in> set (mask_packets ssrc fec) \<Longrightarrow> pp_pkt pp = None \<and> pp_ssrc pp = ssrc"
proof -
  have "map (\<lambda>c. fec_seq_num_base fec + of_nat c) (filter (\<lambda>c. bit (msk ! (c div 8)) (7 - c mod 8)) [0..<fec_mask_size fec * 8])
    = concat (map (\<lambda>b. map (\<lambda>i. fec_seq_num_base fec + of_nat (b * 8 + i)) (filter (\<lambda>i. bit (msk ! b) (7 - i)) [0..<8])) [0..<fec_mask_size fec])"
    unfolding upt_bytes filter_concat map_concat map_map comp_def filter_map
    by (intro arg_cong[of _ _ concat] map_cong filter_cong refl) auto
  also have "\<dots> = map pp_seq_num (mask_packets ssrc fec)"
    unfolding mask_packets_def Let_def map_concat map_map comp_def
    by (intro arg_cong[of _ _ concat] map_cong) (auto simp: assms)
  finally show "map pp_seq_num (mask_packets ssrc fec) = map (\<lambda>c. fec_seq_num_base fec + of_nat c)
      (filter (\<lambda>c. bit (msk ! (c div 8)) (7 - c mod 8)) [0..<fec_mask_size fec * 8])" by simp
  show "pp \<in> set (mask_packets ssrc fec) \<Longrightarrow> pp_pkt pp = None \<and> pp_ssrc pp = ssrc" by (auto simp: mask_packets_def Let_def)
qed

definition encoder_ok :: "FecEncoder \<Rightarrow> bool" where
  "encoder_ok st \<longleftrightarrow> length (packet_masks st) = 288 \<and> length (tmp_packet_masks st) = 288 \<and> length (generated_fec_packets st) = 48"

text \<open>A loop over the generated packets whose step depends on the old packet of the same index only.\<close>

lemma update_packets_ok:
  assumes "\<And>i gen. i < n \<Longrightarrow> length gen = length (generated_fec_packets st) \<Longrightarrow> gen ! i = generated_fec_packets st ! i \<Longrightarrow>
      f i (st\<lparr>generated_fec_packets := gen\<rparr>) = Some (g i)"
    and "n \<le> length (generated_fec_packets st)"
  shows "\<exists>gen. update_packets f [0..<n] st = Some (st\<lparr>generated_fec_packets := gen\<rparr>) \<and> length gen = length (generated_fec_packets st) \<and>
    (\<forall>i < n. gen ! i = g i)"
proof -
  have "\<exists>gen. update_packets f [k..<n] (st\<lparr>generated_fec_packets := gen0\<rparr>) = Some (st\<lparr>generated_fec_packets := gen\<rparr>) \<and>
      length gen = length gen0 \<and> (\<forall>i < n. gen ! i = g i)"
    if "k \<le> n" "length gen0 = length (generated_fec_packets st)" "\<forall>i < k. gen0 ! i = g i"
      "\<forall>i. k \<le> i \<and> i < n \<longrightarrow> gen0 ! i = generated_fec_packets st ! i" for k gen0
    using that
  proof (induction "n - k" arbitrary: k gen0)
    case 0
    then show ?case by auto
  next
    case (Suc d)
    then have k: "k < n" by simp
    have "\<exists>gen. update_packets f [Suc k..<n] (st\<lparr>generated_fec_packets := gen0[k := g k]\<rparr>) = Some (st\<lparr>generated_fec_packets := gen\<rparr>) \<and>
      length gen = length (gen0[k := g k]) \<and> (\<forall>i < n. gen ! i = g i)"
      by (rule Suc.hyps(1)) (use Suc k assms(2) in \<open>auto simp: nth_list_update less_Suc_eq\<close>)
    moreover have "f k (st\<lparr>generated_fec_packets := gen0\<rparr>) = Some (g k)"
      using assms(1)[OF k, of gen0] Suc.prems k by auto
    moreover have "[k..<n] = k # [Suc k..<n]" using k by (rule upt_conv_Cons)
    ultimately show ?case using k assms(2) Suc.prems(2) by simp
  qed
  from this[of 0 "generated_fec_packets st"] show ?thesis by simp
qed

lemma reset_holds_parity:
  assumes "grow_law grow" "hdr \<le> IP_PACKET_SIZE"
  shows "holds_parity hdr [] (reset_fec_packet grow p)"
proof -
  let ?p = "EnsureCapacity grow IP_PACKET_SIZE p"
  have l: "1500 \<le> length (pkt_store ?p)"
    using assms(1) by (auto simp: EnsureCapacity_def grow_law_def IP_PACKET_SIZE_def)
  have "reset_fec_packet grow p = ?p\<lparr>pkt_store := put_at 0 (replicate 1500 0) (pkt_store ?p), pkt_size := 0\<rparr>"
    unfolding reset_fec_packet_def Let_def by (simp add: SetSize_def EnsureCapacity_def[of grow 0] IP_PACKET_SIZE_def)
  then show ?thesis using l assms(2) by (auto simp: holds_parity_def nth_put_at length_put_at IP_PACKET_SIZE_def)
qed

lemma NumFecPackets_bounds:
  assumes "0 < pf" "pf < 256" "0 < m"
  shows "0 < NumFecPackets m pf" "NumFecPackets m pf \<le> m"
proof -
  have "m * pf \<le> m * 255" using assms(2) by simp
  then have "m * pf + 128 < Suc m * 256" unfolding mult_Suc by linarith
  then have "(m * pf + 128) div 256 < Suc m" by (rule less_mult_imp_div_less)
  then show "0 < NumFecPackets m pf" "NumFecPackets m pf \<le> m" using assms by (auto simp: NumFecPackets_def Let_def)
qed

definition protected_by :: "nat \<Rightarrow> byte list \<Rightarrow> nat \<Rightarrow> byte list list \<Rightarrow> byte list list" where
  "protected_by w msk i media = map ((!) media) (filter (mask_bit w msk i) [0..<length media])"

lemma filter_columns:
  assumes media: "batch media" and s0: "s0 = ParseSequenceNumber (hd media)"
    and masks: "\<And>c. c < 8 * w' \<Longrightarrow> mask_bit w' masks i c \<longleftrightarrow> (\<exists>j < length media. c = column s0 (media ! j) \<and> mask_bit w orig i j)"
    and w': "Suc (column s0 (last media)) \<le> 8 * w'"
  shows "filter (protects masks (i * w') s0) media = protected_by w orig i media"
    and "map (column s0) (protected_by w orig i media) = filter (mask_bit w' masks i) [0..<8 * w']"
proof -
  note bc = batch_columns[OF media s0]
  have inj: "column s0 (media ! j) = column s0 (media ! j') \<longleftrightarrow> j = j'" if "j < length media" "j' < length media" for j j'
    using sorted_wrt_nth_less[OF bc(1), of j j'] sorted_wrt_nth_less[OF bc(1), of j' j] that by (cases j j' rule: linorder_cases) auto
  have col: "column s0 (media ! j) < 8 * w'" if "j < length media" for j using bc(2)[of "media ! j"] that w' by simp
  have "protects masks (i * w') s0 (media ! j) \<longleftrightarrow> mask_bit w orig i j" if "j < length media" for j
    using masks[OF col[OF that]] that inj by (auto simp: protects_def mask_bit_def)
  then have "filter (protects masks (i * w') s0) (map ((!) media) [0..<length media]) = protected_by w orig i media"
    unfolding protected_by_def filter_map by (intro arg_cong[of _ _ "map _"] filter_cong) auto
  then show "filter (protects masks (i * w') s0) media = protected_by w orig i media" by (simp add: map_nth)
  have "sorted_wrt (<) (map (column s0) (protected_by w orig i media))"
  proof -
    have "sorted_wrt (\<lambda>j j'. column s0 (media ! j) < column s0 (media ! j')) [0..<length media]"
      using bc(1) by (auto simp: sorted_wrt_iff_nth_less)
    then show ?thesis by (simp add: protected_by_def sorted_wrt_map sorted_wrt_filter)
  qed
  moreover have "set (map (column s0) (protected_by w orig i media)) = set (filter (mask_bit w' masks i) [0..<8 * w'])"
    using masks col by (auto simp: protected_by_def)
  ultimately show "map (column s0) (protected_by w orig i media) = filter (mask_bit w' masks i) [0..<8 * w']"
    by (intro sorted_distinct_set_unique) (auto simp: strict_sorted_iff sorted_wrt_filter)
qed

lemma protected_by_set: "p \<in> set (protected_by w msk i media) \<Longrightarrow> p \<in> set media"
  by (auto simp: protected_by_def)

lemma protected_by_nonempty: "covers (length media) n w msk \<Longrightarrow> i < n \<Longrightarrow> protected_by w msk i media \<noteq> []"
  by (fastforce simp: covers_def protected_by_def filter_empty_conv)


lemma max_payload_le: "(\<And>p. p \<in> set ps \<Longrightarrow> length p - kRtpHeaderSize \<le> b) \<Longrightarrow> max_payload ps \<le> b"
  by (induction ps) auto

text \<open>Media packets for which encoding logs no warning about their size.\<close>

definition media_sizes :: "byte list list \<Rightarrow> bool" where
  "media_sizes media \<longleftrightarrow> (\<forall>p \<in> set media. kRtpHeaderSize \<le> length p \<and>
     length p + writer_MaxPacketOverhead UlpfecHeaderWriter + kTransportOverhead \<le> IP_PACKET_SIZE)"

lemma media_sizes_fits:
  assumes "media_sizes media" "p \<in> set media" "w \<in> {2, 6}"
  shows "fits_mtu (12 + w) p" "length p \<le> 1454"
  using assms by (auto simp: media_sizes_def fits_mtu_def UlpfecHeaderWriter_def kFecLevel0HeaderSize_def kFecLevel1HeaderSizeLBitSet_def
      kUlpfecPacketMaskSizeLBitSet_def kTransportOverhead_def IP_PACKET_SIZE_def kRtpHeaderSize_def)

text \<open>One finished FEC packet, as the decoder reads it.\<close>

definition describes :: "byte list list \<Rightarrow> byte list \<Rightarrow> bool" where
  "describes ps data \<longleftrightarrow> (\<forall>fec0 ssrc. fec_pkt fec0 = data \<longrightarrow> (\<exists>fec. ulpfec_ReadFecHeader fec0 = Some (True, fec) \<and>
     carries_parity ps fec \<and> fec_ssrc fec = fec_ssrc fec0 \<and> protected_ssrc fec = fec_ssrc fec0 \<and> fec_seq_num fec = fec_seq_num fec0 \<and>
     protected_packets fec = protected_packets fec0 \<and> fec_mask_offset fec + fec_mask_size fec \<le> length (fec_pkt fec) \<and>
     map pp_seq_num (mask_packets ssrc fec) = map ParseSequenceNumber ps \<and>
     (\<forall>pp \<in> set (mask_packets ssrc fec). pp_pkt pp = None \<and> pp_ssrc pp = ssrc)))"

lemma finalized_describes:
  assumes media: "batch media" "media_sizes media" and s0: "s0 = ParseSequenceNumber (hd media)"
    and masks: "\<And>c. c < 8 * w' \<Longrightarrow> mask_bit w' masks i c \<longleftrightarrow> (\<exists>j < length media. c = column s0 (media ! j) \<and> mask_bit w orig i j)"
    and w': "Suc (column s0 (last media)) \<le> 8 * w'" "w' \<in> {2, 6}" and ne: "protected_by w orig i media \<noteq> []"
    and f: "holds_parity (12 + w') (protected_by w orig i media) f" and len: "Suc i * w' \<le> length masks"
  shows "\<exists>f'. ulpfec_FinalizeFecHeader mssrc s0 (drop (i * w') masks) w' f = Some f' \<and> describes (protected_by w orig i media) (pkt_data f')"
proof -
  let ?ps = "protected_by w orig i media"
  have fit: "fits_mtu (12 + w') p" if "p \<in> set ?ps" for p using media_sizes_fits(1)[OF media(2) protected_by_set[OF that] w'(2)] .
  have "length p - kRtpHeaderSize \<le> IP_PACKET_SIZE - (12 + w')" if "p \<in> set ?ps" for p
    using fit[OF that] unfolding fits_mtu_def by linarith
  then have "max_payload ?ps \<le> IP_PACKET_SIZE - (12 + w')" by (rule max_payload_le)
  moreover have "12 + w' \<le> IP_PACKET_SIZE" using w'(2) by (auto simp: IP_PACKET_SIZE_def)
  ultimately have b: "12 + w' + max_payload ?ps \<le> IP_PACKET_SIZE" by linarith
  have "\<forall>p \<in> set ?ps. kRtpHeaderSize \<le> length p" using fit by (auto simp: fits_mtu_def)
  note sizes = this
  have "w' \<le> length (drop (i * w') masks)" using len unfolding length_drop mult_Suc by linarith
  from ulpfec_read_back[OF f ne w'(2) this b sizes, of mssrc s0] obtain f' where
    f': "ulpfec_FinalizeFecHeader mssrc s0 (drop (i * w') masks) w' f = Some f'"
    and rb: "\<And>fec0. fec_pkt fec0 = pkt_data f' \<Longrightarrow> \<exists>fec. ulpfec_ReadFecHeader fec0 = Some (True, fec) \<and> carries_parity ?ps fec \<and>
       fec_ssrc fec = fec_ssrc fec0 \<and> protected_ssrc fec = fec_ssrc fec0 \<and> fec_seq_num fec = fec_seq_num fec0 \<and>
       protected_packets fec = protected_packets fec0 \<and> fec_seq_num_base fec = s0 \<and>
       fec_mask_offset fec = 12 \<and> fec_mask_size fec = w' \<and> (\<forall>j < w'. fec_pkt fec ! (12 + j) = drop (i * w') masks ! j) \<and>
       12 + w' \<le> length (fec_pkt fec)" by blast
  have "describes ?ps (pkt_data f')"
    unfolding describes_def
  proof (intro allI impI)
    fix fec0 :: ReceivedFecPacket and ssrc assume "fec_pkt fec0 = pkt_data f'"
    from rb[OF this] obtain fec where r: "ulpfec_ReadFecHeader fec0 = Some (True, fec)" "carries_parity ?ps fec"
       "fec_ssrc fec = fec_ssrc fec0" "protected_ssrc fec = fec_ssrc fec0" "fec_seq_num fec = fec_seq_num fec0"
       "protected_packets fec = protected_packets fec0" "fec_seq_num_base fec = s0"
       "fec_mask_offset fec = 12" "fec_mask_size fec = w'" "\<And>j. j < w' \<Longrightarrow> fec_pkt fec ! (12 + j) = drop (i * w') masks ! j"
       "12 + w' \<le> length (fec_pkt fec)" by auto
    have mp: "map pp_seq_num (mask_packets ssrc fec) = map (\<lambda>c. s0 + of_nat c)
      (filter (\<lambda>c. bit (drop (i * w') masks ! (c div 8)) (7 - c mod 8)) [0..<w' * 8])"
      using mask_packets_seq(1)[of fec "drop (i * w') masks" ssrc] r by simp
    also have "filter (\<lambda>c. bit (drop (i * w') masks ! (c div 8)) (7 - c mod 8)) [0..<w' * 8] = filter (mask_bit w' masks i) [0..<8 * w']"
    proof (rule filter_cong)
      show "[0..<w' * 8] = [0..<8 * w']" by (simp add: mult.commute)
      fix c assume "c \<in> set [0..<8 * w']"
      then have "i * w' \<le> length masks" using len by simp
      then show "bit (drop (i * w') masks ! (c div 8)) (7 - c mod 8) = mask_bit w' masks i c" by (simp add: mask_bit_def)
    qed
    also have "\<dots> = map (column s0) ?ps" using filter_columns(2)[OF media(1) s0 masks w'(1)] by simp
    also have "map (\<lambda>c. s0 + of_nat c) (map (column s0) ?ps) = map ParseSequenceNumber ?ps" by (simp add: column_def)
    finally show "\<exists>fec. ulpfec_ReadFecHeader fec0 = Some (True, fec) \<and>
     carries_parity ?ps fec \<and> fec_ssrc fec = fec_ssrc fec0 \<and> protected_ssrc fec = fec_ssrc fec0 \<and> fec_seq_num fec = fec_seq_num fec0 \<and>
     protected_packets fec = protected_packets fec0 \<and> fec_mask_offset fec + fec_mask_size fec \<le> length (fec_pkt fec) \<and>
     map pp_seq_num (mask_packets ssrc fec) = map ParseSequenceNumber ?ps \<and>
     (\<forall>pp \<in> set (mask_packets ssrc fec). pp_pkt pp = None \<and> pp_ssrc pp = ssrc)"
      using r mask_packets_seq(2)[of fec "drop (i * w') masks" _ ssrc] by (intro exI[of _ fec]) auto
  qed
  then show ?thesis using f' by blast
qed

lemma payload_parity:
  assumes media: "batch media" "media_sizes media" and s0: "s0 = ParseSequenceNumber (hd media)"
    and masks: "\<And>c. c < 8 * w' \<Longrightarrow> mask_bit w' (packet_masks st) i c \<longleftrightarrow> (\<exists>j < length media. c = column s0 (media ! j) \<and> mask_bit w orig i j)"
    and w': "Suc (column s0 (last media)) \<le> 8 * w'" "w' \<in> {2, 6}" "enc_mask_size st = w'" and len: "Suc i * w' \<le> length (packet_masks st)"
    and f: "holds_parity (12 + w') [] (generated_fec_packets st ! i)"
  shows "\<exists>f'. generate_fec_payload grow UlpfecHeaderWriter media st i = Some f' \<and> holds_parity (12 + w') (protected_by w orig i media) f'"
proof -
  note bc = batch_columns[OF media(1) s0]
  obtain p ps where m: "media = p # ps" using media(1) by (cases media) (auto simp: batch_def)
  have c0: "column s0 p = 0" using bc(5) m by simp
  have bound: "fits_mtu (12 + w') q \<and> i * w' + column s0 q div 8 < length (packet_masks st)" if "q \<in> set (p # ps)" for q
  proof -
    have "column s0 q < 8 * w'" using bc(2)[of q] that w'(1) m by simp
    then have "column s0 q div 8 < w'" by (simp add: less_mult_imp_div_less mult.commute)
    then show ?thesis using len media_sizes_fits(1)[OF media(2) _ w'(2), of q] that m by simp
  qed
  have "\<exists>f'. protect_loop grow (packet_masks st) (12 + w') (ParseSequenceNumber p) (i * w' + column s0 p div 8) (column s0 p mod 8) (p # ps)
      (generated_fec_packets st ! i) = Some f' \<and> holds_parity (12 + w') ([] @ filter (protects (packet_masks st) (i * w') s0) (p # ps)) f'"
    by (rule protect_loop_holds) (use bc(1) m bound f in auto)
  then show ?thesis
    using filter_columns(1)[OF media(1) s0 masks w'(1)] m c0 w'(2,3)
    by (simp add: generate_fec_payload_def Let_def UlpfecHeaderWriter_def UlpfecHeaderSize_eq del: protect_loop.simps)
qed


lemma EncodeFec_describes:
  assumes media: "batch media" "media_sizes media" "length media \<le> kMaxMediaPackets" and st: "encoder_ok st" and grow: "grow_law grow"
    and n: "0 < pf" "pf < 256" "imp \<le> length media"
  shows "\<exists>st' msk. EncodeFec grow UlpfecHeaderWriter media pf imp uep ty st = Some (True, NumFecPackets (length media) pf, st') \<and>
    encoder_ok st' \<and> covers (length media) (NumFecPackets (length media) pf) (PacketMaskSize (length media)) msk \<and>
    (\<forall>i < NumFecPackets (length media) pf. describes (protected_by (PacketMaskSize (length media)) msk i media)
       (pkt_data (generated_fec_packets st' ! i)))"
proof -
  define m where "m = length media"
  define n where "n = NumFecPackets m pf"
  define w where "w = PacketMaskSize m"
  define s0 where "s0 = ParseSequenceNumber (hd media)"
  define bits where "bits = Suc (column s0 (last media))"
  define w' where "w' = PacketMaskSize bits"
  note bc = batch_columns[OF media(1) s0_def]
  have m: "0 < m" "m \<le> 48" using media(1,3) by (auto simp: batch_def m_def kMaxMediaPackets_def)
  have n: "0 < n" "n \<le> m" "n \<le> 48" using NumFecPackets_bounds[OF assms(6,7) m(1)] m by (auto simp: n_def)
  have ww: "w' \<in> {2, 6}" "bits \<le> 8 * w'" using PacketMaskSize_bounds[of bits] bc(4) by (auto simp: w'_def bits_def)
  have nw: "n * w \<le> 288" "Suc i * w' \<le> 288" if "i < n" for i
  proof -
    show "n * w \<le> 288" using mult_le_mono[of n 48 w 6] n PacketMaskSize_bounds(1)[of m] by (auto simp: w_def)
    show "Suc i * w' \<le> 288" using mult_le_mono[of "Suc i" 48 w' 6] that n ww(1) by auto
  qed
  obtain gen where g1: "update_packets (\<lambda>i st. Some (reset_fec_packet grow (generated_fec_packets st ! i))) [0..<n] st
       = Some (st\<lparr>generated_fec_packets := gen\<rparr>)" "length gen = 48"
      "\<And>i. i < n \<Longrightarrow> gen ! i = reset_fec_packet grow (generated_fec_packets st ! i)"
    using update_packets_ok[of n st "\<lambda>i st. Some (reset_fec_packet grow (generated_fec_packets st ! i))"
        "\<lambda>i. reset_fec_packet grow (generated_fec_packets st ! i)"] st n by (auto simp: encoder_ok_def)
  have reset: "holds_parity (12 + w') [] (gen ! i)" if "i < n" for i
    unfolding g1(3)[OF that] using ww(1) by (intro reset_holds_parity[OF grow]) (auto simp: IP_PACKET_SIZE_def)
  define rest where "rest = drop (n * w) (packet_masks st)"
  have pm: "put_at 0 (replicate (n * w) 0) (packet_masks st) = replicate (n * w) 0 @ rest" "length rest = 288 - n * w"
    using st by (simp_all add: put_at_def rest_def encoder_ok_def)
  obtain msk where mk: "GeneratePacketMasks m n imp uep (PickTable ty m) (replicate (n * w) 0 @ rest) = Some (msk @ rest)" "covers m n w msk"
    using GeneratePacketMasks_covers[OF n(1,2), of imp uep ty rest] m(2) assms(8) by (auto simp: w_def kUlpfecMaxMediaPackets_def m_def)
  define st1 where "st1 = st\<lparr>generated_fec_packets := gen, enc_mask_size := w, packet_masks := msk @ rest\<rparr>"
  have st1: "enc_mask_size st1 = PacketMaskSize (length media)" "packet_masks st1 = msk @ rest" "length (packet_masks st1) = 288"
    "length (tmp_packet_masks st1) = 288" "generated_fec_packets st1 = gen"
    using pm(2) mk(2) nw(1)[OF n(1)] st by (simp_all add: st1_def w_def m_def covers_def encoder_ok_def)
  obtain st2 where st2: "InsertZerosInPacketMasks UlpfecHeaderWriter media n st1 = Some (Some bits, st2)"
    "length (packet_masks st2) = 288" "length (tmp_packet_masks st2) = 288" "generated_fec_packets st2 = gen"
    and bits: "\<And>i c. i < n \<Longrightarrow> c < 8 * w' \<Longrightarrow> mask_bit w' (packet_masks st2) i c \<longleftrightarrow>
       (\<exists>j < length media. c = column s0 (media ! j) \<and> mask_bit w msk i j)"
    using InsertZerosInPacketMasks_ok[OF media(1) s0_def st1(1,2) _ st1(3,4) n(3) refl] mk(2) st1(5)
    by (auto simp: m_def w_def w'_def bits_def)
  define st3 where "st3 = st2\<lparr>enc_mask_size := w'\<rparr>"
  let ?ps = "\<lambda>i. protected_by w msk i media"
  have "\<exists>f. \<forall>i < n. generate_fec_payload grow UlpfecHeaderWriter media st3 i = Some (f i) \<and> holds_parity (12 + w') (?ps i) (f i)"
  proof -
    have "\<exists>f. generate_fec_payload grow UlpfecHeaderWriter media st3 i = Some f \<and> holds_parity (12 + w') (?ps i) f" if "i < n" for i
      by (rule payload_parity[OF media(1,2) s0_def])
        (use that bits[OF that] ww bc(1) nw[OF that] st2 reset[OF that] in \<open>auto simp: st3_def bits_def\<close>)
    then show ?thesis by metis
  qed
  then obtain f where f: "\<And>i. i < n \<Longrightarrow> generate_fec_payload grow UlpfecHeaderWriter media st3 i = Some (f i)"
    "\<And>i. i < n \<Longrightarrow> holds_parity (12 + w') (?ps i) (f i)" by blast
  obtain gen2 where g2: "GenerateFecPayloads grow UlpfecHeaderWriter media n st3 = Some (st3\<lparr>generated_fec_packets := gen2\<rparr>)"
      "length gen2 = 48" "\<And>i. i < n \<Longrightarrow> gen2 ! i = f i"
    using update_packets_ok[of n st3 "\<lambda>i st. generate_fec_payload grow UlpfecHeaderWriter media st i" f] f(1) n st2(4) g1(2)
    by (auto simp: GenerateFecPayloads_def generate_fec_payload_def Let_def st3_def)
  have "\<exists>h. \<forall>i < n. ulpfec_FinalizeFecHeader (ParseSsrc (hd media)) s0 (drop (i * w') (packet_masks st2)) w' (f i) = Some (h i) \<and>
      describes (?ps i) (pkt_data (h i))"
  proof -
    have "\<exists>h. ulpfec_FinalizeFecHeader (ParseSsrc (hd media)) s0 (drop (i * w') (packet_masks st2)) w' (f i) = Some h \<and>
      describes (?ps i) (pkt_data h)" if "i < n" for i
      using that bits[OF that] ww nw[OF that] st2 f(2)[OF that] protected_by_nonempty[OF mk(2)[unfolded m_def] that]
      by (intro finalized_describes[OF media(1,2) s0_def]) (auto simp: bits_def)
    then show ?thesis by metis
  qed
  then obtain h where h: "\<And>i. i < n \<Longrightarrow> ulpfec_FinalizeFecHeader (ParseSsrc (hd media)) s0 (drop (i * w') (packet_masks st2)) w' (f i) = Some (h i)"
    "\<And>i. i < n \<Longrightarrow> describes (?ps i) (pkt_data (h i))" by blast
  let ?st4 = "st3\<lparr>generated_fec_packets := gen2\<rparr>"
  obtain gen3 where g3: "FinalizeFecHeaders UlpfecHeaderWriter n (ParseSsrc (hd media)) s0 ?st4 = Some (?st4\<lparr>generated_fec_packets := gen3\<rparr>)"
      "length gen3 = 48" "\<And>i. i < n \<Longrightarrow> gen3 ! i = h i"
    using update_packets_ok[of n ?st4 "\<lambda>i st. FinalizeFecHeader UlpfecHeaderWriter (ParseSsrc (hd media)) s0
        (drop (i * enc_mask_size st) (packet_masks st)) (enc_mask_size st) (generated_fec_packets st ! i)" h] h(1) n g2(2,3)
    by (auto simp: FinalizeFecHeaders_def UlpfecHeaderWriter_def st3_def)
  let ?st5 = "?st4\<lparr>generated_fec_packets := gen3\<rparr>"
  have mx: "writer_MaxMediaPackets UlpfecHeaderWriter = 48" by (simp add: UlpfecHeaderWriter_def kMaxMediaPackets_def)
  have small: "\<not> list_ex (\<lambda>p. length p < kRtpHeaderSize) media" using media(2) by (auto simp: media_sizes_def list_ex_iff)
  have "EncodeFec grow UlpfecHeaderWriter media pf imp uep ty st = Some (True, n, ?st5)"
    unfolding EncodeFec_def Let_def m_def[symmetric] n_def[symmetric] s0_def[symmetric] w_def[symmetric] g1(1)
    using small m n mk(1) st2(1) g2(1) g3(1) pm(1) mx
    by (simp add: st1_def[symmetric] st3_def[symmetric] w'_def[symmetric])
  then show ?thesis
    using g3 h(2) mk(2) st2 unfolding n_def[symmetric] m_def[symmetric] w_def[symmetric]
    by (intro exI[of _ ?st5] exI[of _ msk]) (auto simp: encoder_ok_def st3_def)
qed

text \<open>The protected packets of a received FEC packet once all media packets but the lost one have arrived.\<close>

definition all_but :: "byte list \<Rightarrow> byte list list \<Rightarrow> ProtectedPacket list \<Rightarrow> ProtectedPacket list" where
  "all_but lost ps pps = map2 (\<lambda>p pp. if p = lost then pp else pp\<lparr>pp_pkt := Some p\<rparr>) ps pps"

lemma distinct_map_inj: "distinct (map f xs) \<Longrightarrow> x \<in> set xs \<Longrightarrow> y \<in> set xs \<Longrightarrow> f x = f y \<Longrightarrow> x = y"
  by (auto simp: distinct_map inj_on_def)

lemma batch_distinct:
  assumes "batch media"
  shows "distinct (map ParseSequenceNumber media)"
proof -
  let ?s = "ParseSequenceNumber (hd media)"
  have "distinct (map (column ?s) media)" using batch_columns(1)[OF assms refl] by (simp add: strict_sorted_iff)
  then have "distinct (map (\<lambda>c. ?s + of_nat c) (map (column ?s) media))"
    unfolding distinct_map[of _ "map (column ?s) media"]
  proof (intro conjI)
    show "inj_on (\<lambda>c. ?s + of_nat c) (set (map (column ?s) media))"
    proof (rule inj_onI)
      fix x y assume "x \<in> set (map (column ?s) media)" "y \<in> set (map (column ?s) media)" "?s + of_nat x = ?s + of_nat y"
      moreover from this have "x < 65536" "y < 65536"
        using batch_columns(2,4)[OF assms refl] by (auto intro: le_less_trans[of _ "column ?s (last media)"])
      ultimately show "x = y" using u16_of_nat by (metis add_left_cancel)
    qed
  qed
  then show ?thesis by (simp add: column_def comp_def)
qed

lemma describes_recover:
  assumes d: "describes ps data" and dist: "distinct (map ParseSequenceNumber ps)" and lost: "lost \<in> set ps"
    and m: "\<And>p. p \<in> set ps \<Longrightarrow> media_packet ssrc (ParseSequenceNumber p) p" and grow: "grow_law grow"
    and fec0: "fec_pkt fec0 = data" "fec_ssrc fec0 = ssrc"
  shows "\<exists>fec r. ulpfec_ReadFecHeader fec0 = Some (True, fec) \<and>
    RecoverPacket grow (fec\<lparr>protected_packets := all_but lost ps (mask_packets ssrc fec)\<rparr>) r0 = Some (True, r) \<and>
    pkt_data (rp_pkt r) = lost \<and> rp_seq_num r = ParseSequenceNumber lost \<and> rp_ssrc r = ssrc \<and> was_recovered r"
proof -
  obtain fec where fec: "ulpfec_ReadFecHeader fec0 = Some (True, fec)" "carries_parity ps fec" "protected_ssrc fec = ssrc"
     and sn: "map pp_seq_num (mask_packets ssrc fec) = map ParseSequenceNumber ps"
     and none: "\<And>pp. pp \<in> set (mask_packets ssrc fec) \<Longrightarrow> pp_pkt pp = None"
    using d fec0 unfolding describes_def by metis
  let ?mp = "mask_packets ssrc fec" and ?fec = "fec\<lparr>protected_packets := all_but lost ps (mask_packets ssrc fec)\<rparr>"
  obtain orig where orig: "\<And>p. p \<in> set ps \<Longrightarrow> orig (ParseSequenceNumber p) = p"
  proof
    fix p assume p: "p \<in> set ps"
    have "(THE q. q \<in> set ps \<and> ParseSequenceNumber q = ParseSequenceNumber p) = p"
      using p distinct_map_inj[OF dist _ p] by (intro the_equality) auto
    then show "(\<lambda>s. THE q. q \<in> set ps \<and> ParseSequenceNumber q = s) (ParseSequenceNumber p) = p" .
  qed
  have len: "length ?mp = length ps" using sn by (metis length_map)
  have nth: "pp_seq_num (?mp ! i) = ParseSequenceNumber (ps ! i)" if "i < length ps" for i
    using sn that len by (metis nth_map)
  obtain i where i: "i < length ps" "ps ! i = lost" using lost by (auto simp: in_set_conv_nth)
  define pps where "pps = all_but lost ps ?mp"
  have lp: "length pps = length ps" and pn: "\<And>j. j < length ps \<Longrightarrow> pps ! j = (if ps ! j = lost then ?mp ! j else (?mp ! j)\<lparr>pp_pkt := Some (ps ! j)\<rparr>)"
    using len by (simp_all add: pps_def all_but_def)
  have split: "pps = take i pps @ pps ! i # drop (Suc i) pps" using i(1) lp by (simp add: id_take_nth_drop)
  have other: "pp_pkt pp = Some (orig (pp_seq_num pp))" if "pp \<in> set (take i pps @ drop (Suc i) pps)" for pp
  proof -
    have "(\<exists>j < i. pp = pps ! j) \<or> (\<exists>k. k < length pps - Suc i \<and> pp = pps ! (Suc i + k))"
      using that i(1) lp by (auto simp: in_set_conv_nth)
    then obtain j where j: "j < length ps" "j \<noteq> i" "pp = pps ! j"
    proof (elim disjE exE conjE)
      fix k assume "k < length pps - Suc i" "pp = pps ! (Suc i + k)"
      then show thesis using that[of "Suc i + k"] lp by simp
    next
      fix k assume "k < i" "pp = pps ! k"
      then show thesis using that[of k] i(1) by simp
    qed
    have "distinct ps" using dist by (simp add: distinct_map)
    then have "ps ! j \<noteq> lost" using i j by (simp add: nth_eq_iff_index_eq flip: i(2))
    then show ?thesis using j nth[OF j(1)] pn[OF j(1)] orig[of "ps ! j"] by simp
  qed
  have seqs: "map (orig \<circ> pp_seq_num) pps = ps"
  proof (rule nth_equalityI)
    fix j assume "j < length (map (orig \<circ> pp_seq_num) pps)"
    then have j: "j < length ps" using lp by simp
    then have "pp_seq_num (pps ! j) = ParseSequenceNumber (ps ! j)" using nth pn by simp
    then show "map (orig \<circ> pp_seq_num) pps ! j = ps ! j" using j lp orig[of "ps ! j"] by simp
  qed (simp add: lp)
  have par: "carries_parity (map (orig \<circ> pp_seq_num) (protected_packets ?fec)) ?fec"
    using fec(2) seqs by (simp add: pps_def carries_parity_def Let_def)
  have "\<exists>r. RecoverPacket grow ?fec r0 = Some (True, r) \<and> pkt_data (rp_pkt r) = orig (pp_seq_num (pps ! i)) \<and>
    rp_seq_num r = pp_seq_num (pps ! i) \<and> rp_ssrc r = protected_ssrc ?fec \<and> was_recovered r \<and> \<not> returned r"
  proof (rule RecoverPacket_ok[OF par grow])
    show "protected_packets ?fec = take i pps @ pps ! i # drop (Suc i) pps" using split by (simp add: pps_def)
    show "pp_pkt (pps ! i) = None" using pn[OF i(1)] i none[of "?mp ! i"] len by simp
    show "media_packet (protected_ssrc ?fec) (pp_seq_num (pps ! i)) (orig (pp_seq_num (pps ! i)))"
      using pn[OF i(1)] i nth[OF i(1)] orig[OF lost] m[OF lost] fec(3) by simp
  qed (use other in blast)
  moreover have "pp_seq_num (pps ! i) = ParseSequenceNumber lost" using pn[OF i(1)] nth[OF i(1)] i by simp
  ultimately show ?thesis using fec(1,3) orig[OF lost] by auto
qed

text \<open>
  C6: End to end over one batch: for media packets in sequence order (holes allowed, at most 48 sequence numbers), of sizes
  for which no warning is logged, \<open>EncodeFec\<close> succeeds inside its arrays whatever its buffers held before, every media packet
  is protected by some FEC packet, and if one packet of those a FEC packet protects is lost, the header read from
  that FEC packet and \<open>RecoverPacket\<close> give exactly that packet back.
\<close>

theorem fec_encode_recover:
  assumes "batch media" "media_sizes media" "encoder_ok st" "grow_law grow" "0 < pf" "pf < 256" "imp \<le> length media"
    and "\<And>p. p \<in> set media \<Longrightarrow> p ! 0 AND 0xc0 = 0x80 \<and> ParseSsrc p = ssrc"
  shows "\<exists>n st' msk. EncodeFec grow UlpfecHeaderWriter media pf imp uep ty st = Some (True, n, st') \<and> encoder_ok st' \<and>
    0 < n \<and> n \<le> length media \<and> covers (length media) n (PacketMaskSize (length media)) msk \<and>
    (\<forall>i < n. \<forall>lost \<in> set (protected_by (PacketMaskSize (length media)) msk i media). \<forall>fec0 r0.
       fec_pkt fec0 = pkt_data (generated_fec_packets st' ! i) \<and> fec_ssrc fec0 = ssrc \<longrightarrow>
       (\<exists>fec r. ulpfec_ReadFecHeader fec0 = Some (True, fec) \<and>
         RecoverPacket grow (fec\<lparr>protected_packets := all_but lost (protected_by (PacketMaskSize (length media)) msk i media)
            (mask_packets ssrc fec)\<rparr>) r0 = Some (True, r) \<and>
         pkt_data (rp_pkt r) = lost \<and> rp_seq_num r = ParseSequenceNumber lost \<and> rp_ssrc r = ssrc \<and> was_recovered r))"
proof -
  have m: "length media \<le> kMaxMediaPackets" "0 < length media"
    using batch_columns(3,4)[OF assms(1) refl] assms(1) by (auto simp: kMaxMediaPackets_def batch_def)
  obtain st' msk where e: "EncodeFec grow UlpfecHeaderWriter media pf imp uep ty st = Some (True, NumFecPackets (length media) pf, st')"
    "encoder_ok st'" "covers (length media) (NumFecPackets (length media) pf) (PacketMaskSize (length media)) msk"
    "\<And>i. i < NumFecPackets (length media) pf \<Longrightarrow> describes (protected_by (PacketMaskSize (length media)) msk i media)
       (pkt_data (generated_fec_packets st' ! i))"
    using EncodeFec_describes[OF assms(1,2) m(1) assms(3-7)] by blast
  have mp: "media_packet ssrc (ParseSequenceNumber p) p" if "p \<in> set media" for p
    using assms(8)[OF that] media_sizes_fits[OF assms(2) that, of 2] by (simp add: media_packet_def fits_mtu_def IP_PACKET_SIZE_def kRtpHeaderSize_def)
  have dist: "distinct (map ParseSequenceNumber (protected_by w msk i media))" for w i
  proof -
    have "distinct (map (\<lambda>j. ParseSequenceNumber (media ! j)) [0..<length media])"
    proof -
      have "map (\<lambda>j. ParseSequenceNumber (media ! j)) [0..<length media] = map ParseSequenceNumber media"
        by (rule nth_equalityI) simp_all
      then show ?thesis using batch_distinct[OF assms(1)] by simp
    qed
    then show ?thesis unfolding protected_by_def map_map comp_def by (rule distinct_map_filter)
  qed
  let ?n = "NumFecPackets (length media) pf" and ?ps = "\<lambda>i. protected_by (PacketMaskSize (length media)) msk i media"
  have rec: "\<exists>fec r. ulpfec_ReadFecHeader fec0 = Some (True, fec) \<and>
         RecoverPacket grow (fec\<lparr>protected_packets := all_but lost (?ps i) (mask_packets ssrc fec)\<rparr>) r0 = Some (True, r) \<and>
         pkt_data (rp_pkt r) = lost \<and> rp_seq_num r = ParseSequenceNumber lost \<and> rp_ssrc r = ssrc \<and> was_recovered r"
    if "i < ?n" "lost \<in> set (?ps i)" "fec_pkt fec0 = pkt_data (generated_fec_packets st' ! i) \<and> fec_ssrc fec0 = ssrc" for i lost fec0 r0
    by (rule describes_recover[OF e(4)[OF that(1)] dist that(2) mp assms(4)]) (use that(3) in \<open>auto dest: protected_by_set\<close>)
  show ?thesis
    by (intro exI[of _ ?n] exI[of _ st'] exI[of _ msk] conjI allI ballI impI)
      (rule e NumFecPackets_bounds[OF assms(5,6) m(2)] rec; assumption?)+
qed

definition witness_media :: "byte list list" where
  "witness_media = [[0x80, 96, 0, 1, 0, 0, 0, 9, 0, 0, 0, 5, 1, 2, 3], [0x80, 0xe0, 0, 3, 0, 0, 0, 10, 0, 0, 0, 5, 7]]"

definition witness_encoder :: FecEncoder where
  "witness_encoder = \<lparr>generated_fec_packets = replicate 48 \<lparr>pkt_store = [], pkt_size = 0\<rparr>,
     packet_masks = replicate 288 0, tmp_packet_masks = replicate 288 0, enc_mask_size = 0\<rparr>"

definition witness_grow :: grow where
  "witness_grow xs n = xs @ replicate n 0"

theorem fec_encode_recover_witness:
  "\<exists>n st' msk. EncodeFec witness_grow UlpfecHeaderWriter witness_media 255 1 True kFecMaskBursty witness_encoder = Some (True, n, st') \<and>
    encoder_ok st' \<and> 0 < n \<and> n \<le> length witness_media \<and> covers (length witness_media) n (PacketMaskSize (length witness_media)) msk \<and>
    (\<forall>i < n. \<forall>lost \<in> set (protected_by (PacketMaskSize (length witness_media)) msk i witness_media). \<forall>fec0 r0.
       fec_pkt fec0 = pkt_data (generated_fec_packets st' ! i) \<and> fec_ssrc fec0 = 5 \<longrightarrow>
       (\<exists>fec r. ulpfec_ReadFecHeader fec0 = Some (True, fec) \<and>
         RecoverPacket witness_grow (fec\<lparr>protected_packets := all_but lost
            (protected_by (PacketMaskSize (length witness_media)) msk i witness_media) (mask_packets 5 fec)\<rparr>) r0 = Some (True, r) \<and>
         pkt_data (rp_pkt r) = lost \<and> rp_seq_num r = ParseSequenceNumber lost \<and> rp_ssrc r = 5 \<and> was_recovered r))"
proof (rule fec_encode_recover)
  show "batch witness_media" by code_simp
  show "media_sizes witness_media" by code_simp
  show "encoder_ok witness_encoder" by (simp add: encoder_ok_def witness_encoder_def)
  show "grow_law witness_grow" by (simp add: grow_law_def witness_grow_def)
  show "1 \<le> length witness_media" by (simp add: witness_media_def)
  show "p ! 0 AND 0xc0 = 0x80 \<and> ParseSsrc p = 5" if "p \<in> set witness_media" for p
    using that by (auto simp: witness_media_def ParseSsrc_def)
qed simp_all

end
