(* ===== verification/Fec_Decoder.thy ===== *)
theory Fec_Decoder
  imports Fec_Encode
begin

text \<open>
  \<open>forward_error_correction.cc\<close>, the decoder: the list of FEC packets waiting for media packets and the list of media
  packets received or recovered. \<open>IsNewerSequenceNumber\<close> and \<open>MinDiff\<close> are not under \<open>src/\<close>; they are the arguments \<open>newer\<close> and
  \<open>min_diff\<close>. \<open>std::list::sort\<close> is a stable sort by the given comparison. \<open>None\<close> is an access outside of a packet.
\<close>

subsection \<open>State and comparison\<close>

record FecReceivedPacket =
  rcv_ssrc :: u32
  rcv_seq_num :: u16
  is_fec :: bool
  is_recovered :: bool
  rcv_pkt :: "byte list"

record FecDecoder =
  protected_media_ssrc :: u32
  received_fec_packets :: "ReceivedFecPacket list"

type_synonym newer_fn = "u16 \<Rightarrow> u16 \<Rightarrow> bool"

definition LessThan :: "newer_fn \<Rightarrow> u16 \<Rightarrow> u16 \<Rightarrow> bool" where
  "LessThan newer first second = newer second first"

definition kOldSequenceThreshold :: u16 where "kOldSequenceThreshold = 0x3fff"

fun insert_by :: "newer_fn \<Rightarrow> ('a \<Rightarrow> u16) \<Rightarrow> 'a \<Rightarrow> 'a list \<Rightarrow> 'a list" where
  "insert_by newer key x [] = [x]"
| "insert_by newer key x (y # ys) = (if LessThan newer (key y) (key x) then y # insert_by newer key x ys else x # y # ys)"

definition list_sort :: "newer_fn \<Rightarrow> ('a \<Rightarrow> u16) \<Rightarrow> 'a list \<Rightarrow> 'a list" where
  "list_sort newer key xs = foldr (insert_by newer key) xs []"

text \<open>\<open>std::lower_bound\<close>: the half-open range of length \<open>len\<close> from \<open>first\<close> is halved until it is empty.\<close>

function lower_bound :: "newer_fn \<Rightarrow> ('a \<Rightarrow> u16) \<Rightarrow> 'a list \<Rightarrow> u16 \<Rightarrow> nat \<Rightarrow> nat \<Rightarrow> nat" where
  "lower_bound newer key xs v first len =
     (if len = 0 then first
      else if LessThan newer (key (xs ! (first + len div 2))) v
      then lower_bound newer key xs v (first + len div 2 + 1) (len - len div 2 - 1)
      else lower_bound newer key xs v first (len div 2))"
  by pat_completeness auto
termination
  by (relation "measure (\<lambda>(_, _, _, _, _, len). len)") auto

declare lower_bound.simps [simp del]

subsection \<open>Inserting packets\<close>

definition ResetState :: "FecDecoder \<Rightarrow> FecDecoder \<times> RecoveredPacket list" where
  "ResetState st = (st\<lparr>received_fec_packets := []\<rparr>, [])"

definition update_covering :: "newer_fn \<Rightarrow> RecoveredPacket \<Rightarrow> ReceivedFecPacket \<Rightarrow> ReceivedFecPacket" where
  "update_covering newer packet fec_packet =
     (let pps = protected_packets fec_packet;
          i = lower_bound newer pp_seq_num pps (rp_seq_num packet) 0 (length pps)
      in if i < length pps \<and> pp_seq_num (pps ! i) = rp_seq_num packet
         then fec_packet\<lparr>protected_packets := pps[i := (pps ! i)\<lparr>pp_pkt := Some (pkt_data (rp_pkt packet))\<rparr>]\<rparr>
         else fec_packet)"

definition UpdateCoveringFecPackets :: "newer_fn \<Rightarrow> RecoveredPacket \<Rightarrow> FecDecoder \<Rightarrow> FecDecoder" where
  "UpdateCoveringFecPackets newer packet st =
     st\<lparr>received_fec_packets := map (update_covering newer packet) (received_fec_packets st)\<rparr>"

definition InsertMediaPacket :: "newer_fn \<Rightarrow> RecoveredPacket list \<Rightarrow> FecReceivedPacket \<Rightarrow> FecDecoder \<Rightarrow> FecDecoder \<times> RecoveredPacket list" where
  "InsertMediaPacket newer recovered_packets received_packet st =
     (if list_ex (\<lambda>r. rp_seq_num r = rcv_seq_num received_packet) recovered_packets then (st, recovered_packets)
      else
        let r = \<lparr>rp_ssrc = rcv_ssrc received_packet, rp_seq_num = rcv_seq_num received_packet, was_recovered = False,
                 returned = True, rp_pkt = \<lparr>pkt_store = rcv_pkt received_packet, pkt_size = length (rcv_pkt received_packet)\<rparr>\<rparr>
        in (UpdateCoveringFecPackets newer r st, list_sort newer rp_seq_num (recovered_packets @ [r])))"

text \<open>Both lists are walked in step; a protected packet with the sequence number of a recovered one gets its data.\<close>

fun assign_recovered :: "newer_fn \<Rightarrow> ProtectedPacket list \<Rightarrow> RecoveredPacket list \<Rightarrow> ProtectedPacket list" where
  "assign_recovered newer [] rs = []"
| "assign_recovered newer (p # ps) [] = p # ps"
| "assign_recovered newer (p # ps) (r # rs) =
     (if LessThan newer (pp_seq_num p) (rp_seq_num r) then p # assign_recovered newer ps (r # rs)
      else if LessThan newer (rp_seq_num r) (pp_seq_num p) then assign_recovered newer (p # ps) rs
      else p\<lparr>pp_pkt := Some (pkt_data (rp_pkt r))\<rparr> # assign_recovered newer ps rs)"

definition AssignRecoveredPackets :: "newer_fn \<Rightarrow> RecoveredPacket list \<Rightarrow> ReceivedFecPacket \<Rightarrow> ReceivedFecPacket" where
  "AssignRecoveredPackets newer recovered_packets fec_packet =
     fec_packet\<lparr>protected_packets := assign_recovered newer (protected_packets fec_packet) recovered_packets\<rparr>"

text \<open>\<open>fresh\<close> is a new \<open>ReceivedFecPacket\<close>; its members are not initialised, its list is empty.\<close>

definition InsertFecPacket :: "newer_fn \<Rightarrow> FecHeaderReader \<Rightarrow> ReceivedFecPacket \<Rightarrow> RecoveredPacket list \<Rightarrow> FecReceivedPacket \<Rightarrow> FecDecoder
    \<Rightarrow> FecDecoder option" where
  "InsertFecPacket newer reader fresh recovered_packets received_packet st =
     (if list_ex (\<lambda>f. fec_seq_num f = rcv_seq_num received_packet) (received_fec_packets st) then Some st
      else
        let fec_packet = fresh\<lparr>protected_packets := [], fec_pkt := rcv_pkt received_packet, fec_ssrc := rcv_ssrc received_packet,
                               fec_seq_num := rcv_seq_num received_packet\<rparr>
        in do {
          (ret, fec_packet) \<leftarrow> ReadFecHeader reader fec_packet;
          if \<not> ret then Some st
          else if protected_ssrc fec_packet \<noteq> protected_media_ssrc st then Some st
          else if fec_mask_offset fec_packet + fec_mask_size fec_packet > length (fec_pkt fec_packet) then Some st
          else
            let fec_packet = fec_packet\<lparr>protected_packets := mask_packets (protected_media_ssrc st) fec_packet\<rparr>
            in if protected_packets fec_packet = [] then Some st
               else
                 let fec_packet = AssignRecoveredPackets newer recovered_packets fec_packet;
                     fecs = list_sort newer fec_seq_num (received_fec_packets st @ [fec_packet])
                 in Some (st\<lparr>received_fec_packets := if length fecs > reader_MaxFecPackets reader then tl fecs else fecs\<rparr>) })"

definition DiscardOldRecoveredPackets :: "FecHeaderReader \<Rightarrow> RecoveredPacket list \<Rightarrow> RecoveredPacket list" where
  "DiscardOldRecoveredPackets reader recovered_packets =
     drop (length recovered_packets - reader_MaxMediaPackets reader) recovered_packets"

definition InsertPacket :: "newer_fn \<Rightarrow> (u16 \<Rightarrow> u16 \<Rightarrow> u16) \<Rightarrow> FecHeaderReader \<Rightarrow> ReceivedFecPacket \<Rightarrow> FecReceivedPacket \<Rightarrow> RecoveredPacket list
    \<Rightarrow> FecDecoder \<Rightarrow> (FecDecoder \<times> RecoveredPacket list) option" where
  "InsertPacket newer min_diff reader fresh received_packet recovered_packets st =
     (let fecs = received_fec_packets st;
          st = (if fecs \<noteq> [] \<and> rcv_ssrc received_packet = fec_ssrc (hd fecs)
                then st\<lparr>received_fec_packets :=
                       dropWhile (\<lambda>f. min_diff (rcv_seq_num received_packet) (fec_seq_num f) > kOldSequenceThreshold) fecs\<rparr>
                else st)
      in do {
        (st, recovered_packets) \<leftarrow>
          (if is_fec received_packet then do {
             st \<leftarrow> InsertFecPacket newer reader fresh recovered_packets received_packet st;
             Some (st, recovered_packets) }
           else Some (InsertMediaPacket newer recovered_packets received_packet st));
        Some (st, DiscardOldRecoveredPackets reader recovered_packets) })"

subsection \<open>Recovering packets\<close>

text \<open>The count stops at two.\<close>

definition NumCoveredPacketsMissing :: "ReceivedFecPacket \<Rightarrow> nat" where
  "NumCoveredPacketsMissing fec_packet = min 2 (length (filter (\<lambda>pp. pp_pkt pp = None) (protected_packets fec_packet)))"

definition IsOldFecPacket :: "(u16 \<Rightarrow> u16 \<Rightarrow> u16) \<Rightarrow> ReceivedFecPacket \<Rightarrow> RecoveredPacket list \<Rightarrow> bool" where
  "IsOldFecPacket min_diff fec_packet recovered_packets =
     (if recovered_packets = [] then False
      else min_diff (rp_seq_num (last recovered_packets)) (pp_seq_num (last (protected_packets fec_packet))) > kOldSequenceThreshold)"

text \<open>
  The loop with its iterator: \<open>passed\<close> are the FEC packets in front of it, kept. After a recovery it starts over with one FEC packet
  less. \<open>r0\<close> is a new, uninitialised \<open>RecoveredPacket\<close>.
\<close>

function attempt_recovery :: "grow \<Rightarrow> newer_fn \<Rightarrow> (u16 \<Rightarrow> u16 \<Rightarrow> u16) \<Rightarrow> FecHeaderReader \<Rightarrow> RecoveredPacket \<Rightarrow> ReceivedFecPacket list
    \<Rightarrow> ReceivedFecPacket list \<Rightarrow> RecoveredPacket list \<Rightarrow> (ReceivedFecPacket list \<times> RecoveredPacket list) option" where
  "attempt_recovery grow newer min_diff reader r0 passed [] rs = Some (passed, rs)"
| "attempt_recovery grow newer min_diff reader r0 passed (f # fs) rs =
     (if NumCoveredPacketsMissing f = 1 then
        (case RecoverPacket grow f r0 of
           None \<Rightarrow> None
         | Some (ok, r) \<Rightarrow>
             if \<not> ok then attempt_recovery grow newer min_diff reader r0 passed fs rs
             else attempt_recovery grow newer min_diff reader r0 [] (map (update_covering newer r) (passed @ fs))
                    (DiscardOldRecoveredPackets reader (list_sort newer rp_seq_num (rs @ [r]))))
      else if NumCoveredPacketsMissing f = 0 \<or> IsOldFecPacket min_diff f rs
      then attempt_recovery grow newer min_diff reader r0 passed fs rs
      else attempt_recovery grow newer min_diff reader r0 (passed @ [f]) fs rs)"
  by pat_completeness auto
termination
  by (relation "inv_image (less_than <*lex*> less_than)
        (\<lambda>(_, _, _, _, _, passed, fs, _). (length passed + length fs, length fs))") auto

definition AttemptRecovery :: "grow \<Rightarrow> newer_fn \<Rightarrow> (u16 \<Rightarrow> u16 \<Rightarrow> u16) \<Rightarrow> FecHeaderReader \<Rightarrow> RecoveredPacket \<Rightarrow> RecoveredPacket list
    \<Rightarrow> FecDecoder \<Rightarrow> (FecDecoder \<times> RecoveredPacket list) option" where
  "AttemptRecovery grow newer min_diff reader r0 recovered_packets st = do {
     (fecs, rs) \<leftarrow> attempt_recovery grow newer min_diff reader r0 [] (received_fec_packets st) recovered_packets;
     Some (st\<lparr>received_fec_packets := fecs\<rparr>, rs) }"

definition DecodeFec :: "grow \<Rightarrow> newer_fn \<Rightarrow> (u16 \<Rightarrow> u16 \<Rightarrow> u16) \<Rightarrow> FecHeaderReader \<Rightarrow> ReceivedFecPacket \<Rightarrow> RecoveredPacket \<Rightarrow> FecReceivedPacket
    \<Rightarrow> RecoveredPacket list \<Rightarrow> FecDecoder \<Rightarrow> (FecDecoder \<times> RecoveredPacket list) option" where
  "DecodeFec grow newer min_diff reader fresh r0 received_packet recovered_packets st =
     (let max_media_packets = reader_MaxMediaPackets reader;
          (st, recovered_packets) =
            (if length recovered_packets = max_media_packets \<and> recovered_packets \<noteq> [] \<and>
                rcv_ssrc received_packet = rp_ssrc (last recovered_packets) \<and>
                unat (min_diff (rcv_seq_num received_packet) (rp_seq_num (last recovered_packets))) > max_media_packets
             then ResetState st else (st, recovered_packets))
      in do {
        (st, recovered_packets) \<leftarrow> InsertPacket newer min_diff reader fresh received_packet recovered_packets st;
        AttemptRecovery grow newer min_diff reader r0 recovered_packets st })"

subsection \<open>Only genuine packets are recovered\<close>

text \<open>Documented behaviour of \<open>IsNewerSequenceNumber\<close>: of two different sequence numbers one is newer.\<close>

definition newer_law :: "newer_fn \<Rightarrow> bool" where
  "newer_law newer \<longleftrightarrow> (\<forall>a b. a \<noteq> b \<longrightarrow> newer a b \<or> newer b a)"

text \<open>\<open>orig\<close> gives the media packet the sender made with a sequence number.\<close>

definition genuine :: "(u16 \<Rightarrow> byte list) \<Rightarrow> u32 \<Rightarrow> RecoveredPacket \<Rightarrow> bool" where
  "genuine orig ssrc r \<longleftrightarrow> pkt_data (rp_pkt r) = orig (rp_seq_num r) \<and> rp_ssrc r = ssrc"

definition genuine_fec :: "(u16 \<Rightarrow> byte list) \<Rightarrow> u32 \<Rightarrow> ReceivedFecPacket \<Rightarrow> bool" where
  "genuine_fec orig ssrc f \<longleftrightarrow> carries_parity (map (orig \<circ> pp_seq_num) (protected_packets f)) f \<and> protected_ssrc f = ssrc \<and>
     (\<forall>pp \<in> set (protected_packets f). media_packet ssrc (pp_seq_num pp) (orig (pp_seq_num pp)) \<and>
        (pp_pkt pp = None \<or> pp_pkt pp = Some (orig (pp_seq_num pp))))"

definition genuine_received :: "(u16 \<Rightarrow> byte list) \<Rightarrow> u32 \<Rightarrow> FecReceivedPacket \<Rightarrow> bool" where
  "genuine_received orig ssrc p \<longleftrightarrow> rcv_ssrc p = ssrc \<and>
     (if is_fec p then \<exists>ps. describes ps (rcv_pkt p) \<and>
        (\<forall>q \<in> set ps. orig (ParseSequenceNumber q) = q \<and> media_packet ssrc (ParseSequenceNumber q) q)
      else rcv_pkt p = orig (rcv_seq_num p))"

definition decoder_ok :: "(u16 \<Rightarrow> byte list) \<Rightarrow> FecDecoder \<Rightarrow> RecoveredPacket list \<Rightarrow> bool" where
  "decoder_ok orig st rs \<longleftrightarrow> (\<forall>f \<in> set (received_fec_packets st). genuine_fec orig (protected_media_ssrc st) f) \<and>
     (\<forall>r \<in> set rs. genuine orig (protected_media_ssrc st) r) \<and>
     length (received_fec_packets st) \<le> kMaxFecPackets \<and> length rs \<le> kMaxTrackedMediaPackets"

lemma set_insert_by: "set (insert_by newer key x ys) = insert x (set ys)"
  by (induction ys) auto

lemma length_insert_by: "length (insert_by newer key x ys) = Suc (length ys)"
  by (induction ys) auto

lemma set_list_sort [simp]: "set (list_sort newer key xs) = set xs"
  by (induction xs) (auto simp: list_sort_def set_insert_by)

lemma length_list_sort [simp]: "length (list_sort newer key xs) = length xs"
  by (induction xs) (auto simp: list_sort_def length_insert_by)

lemma carries_parity_protected [simp]: "carries_parity ps (f\<lparr>protected_packets := pps\<rparr>) = carries_parity ps f"
  by (simp add: carries_parity_def)

text \<open>Filling in genuine data keeps a FEC packet genuine.\<close>

lemma genuine_fec_fill:
  assumes "genuine_fec orig ssrc f" "map pp_seq_num pps = map pp_seq_num (protected_packets f)"
    "\<And>pp. pp \<in> set pps \<Longrightarrow> pp_pkt pp = None \<or> pp_pkt pp = Some (orig (pp_seq_num pp))"
  shows "genuine_fec orig ssrc (f\<lparr>protected_packets := pps\<rparr>)"
proof -
  have "map (orig \<circ> pp_seq_num) pps = map (orig \<circ> pp_seq_num) (protected_packets f)"
    using arg_cong[OF assms(2), of "map orig"] by simp
  moreover have "pp_seq_num ` set pps = pp_seq_num ` set (protected_packets f)" using arg_cong[OF assms(2), of set] by simp
  then have "media_packet ssrc (pp_seq_num pp) (orig (pp_seq_num pp))" if "pp \<in> set pps" for pp
    using assms(1) that unfolding genuine_fec_def by (metis (no_types, lifting) image_iff)
  ultimately show ?thesis using assms(1,3) by (auto simp: genuine_fec_def)
qed

lemma update_covering_genuine:
  assumes "genuine_fec orig ssrc f" "genuine orig ssrc r"
  shows "genuine_fec orig ssrc (update_covering newer r f)"
proof -
  let ?pps = "protected_packets f"
  let ?i = "lower_bound newer pp_seq_num ?pps (rp_seq_num r) 0 (length ?pps)"
  have "genuine_fec orig ssrc (f\<lparr>protected_packets := ?pps[?i := (?pps ! ?i)\<lparr>pp_pkt := Some (pkt_data (rp_pkt r))\<rparr>]\<rparr>)"
    if "?i < length ?pps" "pp_seq_num (?pps ! ?i) = rp_seq_num r"
  proof (rule genuine_fec_fill[OF assms(1)])
    show "map pp_seq_num (?pps[?i := (?pps ! ?i)\<lparr>pp_pkt := Some (pkt_data (rp_pkt r))\<rparr>]) = map pp_seq_num ?pps"
      using that by (simp add: map_update list_update_same_conv)
    fix pp assume "pp \<in> set (?pps[?i := (?pps ! ?i)\<lparr>pp_pkt := Some (pkt_data (rp_pkt r))\<rparr>])"
    then have "pp = (?pps ! ?i)\<lparr>pp_pkt := Some (pkt_data (rp_pkt r))\<rparr> \<or> pp \<in> set ?pps" using set_update_subset_insert by fastforce
    then show "pp_pkt pp = None \<or> pp_pkt pp = Some (orig (pp_seq_num pp))"
      using assms that by (auto simp: genuine_fec_def genuine_def)
  qed
  then show ?thesis using assms(1) by (simp add: update_covering_def Let_def)
qed

lemma assign_recovered_seq: "map pp_seq_num (assign_recovered newer pps rs) = map pp_seq_num pps"
  by (induction newer pps rs rule: assign_recovered.induct) auto

lemma assign_recovered_genuine:
  assumes "newer_law newer" "\<And>r. r \<in> set rs \<Longrightarrow> genuine orig ssrc r"
    "\<And>pp. pp \<in> set pps \<Longrightarrow> pp_pkt pp = None \<or> pp_pkt pp = Some (orig (pp_seq_num pp))"
  shows "pp \<in> set (assign_recovered newer pps rs) \<Longrightarrow> pp_pkt pp = None \<or> pp_pkt pp = Some (orig (pp_seq_num pp))"
  using assms
proof (induction newer pps rs rule: assign_recovered.induct)
  case (3 newer p ps r rs)
  have eq: "pp_seq_num p = rp_seq_num r"
    if "\<not> LessThan newer (pp_seq_num p) (rp_seq_num r)" "\<not> LessThan newer (rp_seq_num r) (pp_seq_num p)"
    using that 3(5) by (auto simp: newer_law_def LessThan_def)
  show ?case
    using 3 eq by (auto simp: genuine_def split: if_splits)
qed auto

lemma one_missing:
  assumes "NumCoveredPacketsMissing f = 1"
  obtains xs pm ys where "protected_packets f = xs @ pm # ys" "pp_pkt pm = None" "\<And>pp. pp \<in> set (xs @ ys) \<Longrightarrow> pp_pkt pp \<noteq> None"
proof -
  have "length (filter (\<lambda>pp. pp_pkt pp = None) (protected_packets f)) = 1" using assms by (simp add: NumCoveredPacketsMissing_def min_def split: if_splits)
  then obtain pm where pm: "filter (\<lambda>pp. pp_pkt pp = None) (protected_packets f) = [pm]" by (auto simp: length_Suc_conv)
  then obtain xs ys where "protected_packets f = xs @ pm # ys" "\<forall>x \<in> set xs. pp_pkt x \<noteq> None" "pp_pkt pm = None"
      "[] = filter (\<lambda>pp. pp_pkt pp = None) ys"
    using filter_eq_ConsD[OF pm] by auto
  then show thesis by (intro that[of xs pm ys]) (auto simp: filter_empty_conv eq_commute[of "[]"])
qed

lemma RecoverPacket_genuine:
  assumes "genuine_fec orig ssrc f" "NumCoveredPacketsMissing f = 1" "grow_law grow"
  shows "\<exists>r. RecoverPacket grow f r0 = Some (True, r) \<and> genuine orig ssrc r \<and> was_recovered r \<and>
    (\<exists>pm \<in> set (protected_packets f). pp_pkt pm = None \<and> rp_seq_num r = pp_seq_num pm \<and>
       (\<forall>pp \<in> set (protected_packets f). pp_pkt pp = None \<longrightarrow> pp_seq_num pp = rp_seq_num r))"
proof -
  obtain xs pm ys where s: "protected_packets f = xs @ pm # ys" "pp_pkt pm = None" "\<And>pp. pp \<in> set (xs @ ys) \<Longrightarrow> pp_pkt pp \<noteq> None"
    using one_missing[OF assms(2)] by blast
  have "pp_pkt pp = Some (orig (pp_seq_num pp))" if "pp \<in> set (xs @ ys)" for pp
  proof -
    have "pp \<in> set (protected_packets f)" using that s(1) by auto
    then show ?thesis using assms(1) s(3)[OF that] unfolding genuine_fec_def by metis
  qed
  moreover have "media_packet (protected_ssrc f) (pp_seq_num pm) (orig (pp_seq_num pm))" "protected_ssrc f = ssrc"
    using assms(1) s(1) by (auto simp: genuine_fec_def)
  moreover have "carries_parity (map (orig \<circ> pp_seq_num) (protected_packets f)) f" using assms(1) by (simp add: genuine_fec_def)
  ultimately obtain r where r: "RecoverPacket grow f r0 = Some (True, r)" "pkt_data (rp_pkt r) = orig (pp_seq_num pm)"
      "rp_seq_num r = pp_seq_num pm" "rp_ssrc r = ssrc" "was_recovered r"
    using RecoverPacket_ok[of orig f grow xs pm ys r0] s assms(3) by auto
  have "pp_seq_num pp = rp_seq_num r" if "pp \<in> set (protected_packets f)" "pp_pkt pp = None" for pp
  proof -
    have "pp = pm \<or> pp \<in> set (xs @ ys)" using that(1) s(1) by auto
    then show ?thesis using s(3)[of pp] that(2) r(3) by metis
  qed
  moreover have "pm \<in> set (protected_packets f)" using s(1) by simp
  moreover have "genuine orig ssrc r" using r by (simp add: genuine_def)
  ultimately show ?thesis using r(1,3,5) s(2) by blast
qed

lemma attempt_recovery_ok:
  assumes "\<forall>f \<in> set (passed @ fs). genuine_fec orig ssrc f" "\<forall>r \<in> set rs. genuine orig ssrc r" "grow_law grow"
    "\<forall>f \<in> set passed. NumCoveredPacketsMissing f = 2" "length rs \<le> kMaxTrackedMediaPackets"
  shows "\<exists>fs' rs'. attempt_recovery grow newer min_diff UlpfecHeaderReader r0 passed fs rs = Some (fs', rs') \<and>
    (\<forall>f \<in> set fs'. genuine_fec orig ssrc f \<and> NumCoveredPacketsMissing f = 2) \<and> (\<forall>r \<in> set rs'. genuine orig ssrc r) \<and>
    length fs' \<le> length (passed @ fs) \<and> length rs' \<le> kMaxTrackedMediaPackets"
  using assms
proof (induction grow newer min_diff "UlpfecHeaderReader" r0 passed fs rs rule: attempt_recovery.induct)
  case (1 grow newer min_diff r0 passed rs)
  then show ?case by simp
next
  case (2 grow newer min_diff r0 passed f fs rs)
  have two: "NumCoveredPacketsMissing f \<le> 2" by (simp add: NumCoveredPacketsMissing_def)
  show ?case
  proof (cases "NumCoveredPacketsMissing f = 1")
    case True
    obtain r where r: "RecoverPacket grow f r0 = Some (True, r)" "genuine orig ssrc r"
      using RecoverPacket_genuine[of orig ssrc f grow r0] True 2(5,7) by auto
    let ?rs = "DiscardOldRecoveredPackets UlpfecHeaderReader (list_sort newer rp_seq_num (rs @ [r]))"
    have rs: "\<forall>r \<in> set ?rs. genuine orig ssrc r" "length ?rs \<le> kMaxTrackedMediaPackets"
      using 2(6) r(2) set_drop_subset by (fastforce simp: DiscardOldRecoveredPackets_def UlpfecHeaderReader_def)+
    have fs: "\<forall>f \<in> set ([] @ map (update_covering newer r) (passed @ fs)). genuine_fec orig ssrc f"
      using 2(5) update_covering_genuine[OF _ r(2)] by auto
    show ?thesis
      using 2(2)[OF True r(1) refl _ fs rs(1) 2(7) _ rs(2)] True r(1) by fastforce
  next
    case False
    show ?thesis
    proof (cases "NumCoveredPacketsMissing f = 0 \<or> IsOldFecPacket min_diff f rs")
      case True
      then show ?thesis using 2(3)[OF False True] False 2(5-9) by fastforce
    next
      case keep: False
      then have "NumCoveredPacketsMissing f = 2" using False two by simp
      then show ?thesis using 2(4)[OF False keep] False keep 2(5-9) by fastforce
    qed
  qed
qed

lemma InsertPacket_ok:
  assumes ok: "decoder_ok orig st rs" and newer: "newer_law newer" and p: "genuine_received orig (protected_media_ssrc st) p"
  shows "\<exists>st' rs'. InsertPacket newer min_diff UlpfecHeaderReader fresh p rs st = Some (st', rs') \<and> decoder_ok orig st' rs' \<and>
    protected_media_ssrc st' = protected_media_ssrc st"
proof -
  let ?ssrc = "protected_media_ssrc st"
  define st1 where "st1 = (if received_fec_packets st \<noteq> [] \<and> rcv_ssrc p = fec_ssrc (hd (received_fec_packets st))
                then st\<lparr>received_fec_packets := dropWhile (\<lambda>f. min_diff (rcv_seq_num p) (fec_seq_num f) > kOldSequenceThreshold)
                       (received_fec_packets st)\<rparr> else st)"
  have st1: "protected_media_ssrc st1 = ?ssrc" "\<forall>f \<in> set (received_fec_packets st1). genuine_fec orig ?ssrc f"
    "length (received_fec_packets st1) \<le> kMaxFecPackets"
    using ok by (auto simp: st1_def decoder_ok_def dest!: set_dropWhileD intro: le_trans[OF length_dropWhile_le])
  have rs: "\<forall>r \<in> set rs. genuine orig ?ssrc r" "length rs \<le> kMaxTrackedMediaPackets" using ok by (auto simp: decoder_ok_def)
  have discard: "\<forall>r \<in> set (DiscardOldRecoveredPackets UlpfecHeaderReader xs). genuine orig ?ssrc r"
    "length (DiscardOldRecoveredPackets UlpfecHeaderReader xs) \<le> kMaxTrackedMediaPackets" if "\<forall>r \<in> set xs. genuine orig ?ssrc r" for xs
    using that by (auto simp: DiscardOldRecoveredPackets_def UlpfecHeaderReader_def dest: in_set_dropD)
  show ?thesis
  proof (cases "is_fec p")
    case False
    obtain st2 rs2 where im: "InsertMediaPacket newer rs p st1 = (st2, rs2)" by fastforce
    have "rcv_pkt p = orig (rcv_seq_num p)" "rcv_ssrc p = ?ssrc" using p False by (auto simp: genuine_received_def)
    then have "(\<forall>f \<in> set (received_fec_packets st2). genuine_fec orig ?ssrc f) \<and> (\<forall>r \<in> set rs2. genuine orig ?ssrc r) \<and>
        protected_media_ssrc st2 = ?ssrc \<and> length (received_fec_packets st2) \<le> kMaxFecPackets"
      using im st1 rs by (auto simp: InsertMediaPacket_def UpdateCoveringFecPackets_def Let_def genuine_def pkt_data_def
          intro!: update_covering_genuine split: if_splits)
    then show ?thesis using discard[of rs2] False im by (simp add: InsertPacket_def Let_def flip: st1_def) (auto simp: decoder_ok_def)
  next
    case True
    obtain ps where ps: "describes ps (rcv_pkt p)" "\<And>q. q \<in> set ps \<Longrightarrow> orig (ParseSequenceNumber q) = q \<and> media_packet ?ssrc (ParseSequenceNumber q) q"
      and ssrc: "rcv_ssrc p = ?ssrc"
      using p True by (auto simp: genuine_received_def)
    let ?f0 = "fresh\<lparr>protected_packets := [], fec_pkt := rcv_pkt p, fec_ssrc := rcv_ssrc p, fec_seq_num := rcv_seq_num p\<rparr>"
    obtain f where f: "ulpfec_ReadFecHeader ?f0 = Some (True, f)" "carries_parity ps f" "protected_ssrc f = ?ssrc"
       "fec_mask_offset f + fec_mask_size f \<le> length (fec_pkt f)"
       "map pp_seq_num (mask_packets ?ssrc f) = map ParseSequenceNumber ps"
       "\<And>pp. pp \<in> set (mask_packets ?ssrc f) \<Longrightarrow> pp_pkt pp = None"
      using ps(1)[unfolded describes_def, rule_format, of ?f0 ?ssrc] ssrc by auto
    have seqs: "map (orig \<circ> pp_seq_num) (mask_packets ?ssrc f) = ps"
    proof -
      have "map (orig \<circ> pp_seq_num) (mask_packets ?ssrc f) = map orig (map ParseSequenceNumber ps)"
        unfolding f(5)[symmetric] by simp
      then show ?thesis using ps(2) by (simp add: map_idI)
    qed
    have "pp_seq_num ` set (mask_packets ?ssrc f) = ParseSequenceNumber ` set ps" using arg_cong[OF f(5), of set] by simp
    then have mp: "media_packet ?ssrc (pp_seq_num pp) (orig (pp_seq_num pp))" if "pp \<in> set (mask_packets ?ssrc f)" for pp
      using that ps(2) by (metis (no_types, lifting) image_iff)
    let ?f1 = "f\<lparr>protected_packets := mask_packets ?ssrc f\<rparr>"
    have g1: "genuine_fec orig ?ssrc ?f1" using f seqs mp by (simp add: genuine_fec_def)
    have g2: "genuine_fec orig ?ssrc (AssignRecoveredPackets newer rs ?f1)"
      unfolding AssignRecoveredPackets_def
      by (rule genuine_fec_fill[OF g1]) (use assign_recovered_genuine[OF newer, of rs orig ?ssrc "mask_packets ?ssrc f"] rs(1) f(6) in \<open>auto simp: assign_recovered_seq\<close>)
    let ?fecs = "list_sort newer fec_seq_num (received_fec_packets st1 @ [AssignRecoveredPackets newer rs ?f1])"
    let ?st2 = "st1\<lparr>received_fec_packets := if length ?fecs > reader_MaxFecPackets UlpfecHeaderReader then tl ?fecs else ?fecs\<rparr>"
    have all: "\<forall>f \<in> set (received_fec_packets ?st2). genuine_fec orig ?ssrc f"
    proof -
      have "set (tl ?fecs) \<subseteq> set ?fecs" using set_drop_subset[of 1 ?fecs] by (simp add: drop_Suc)
      then have "set (received_fec_packets ?st2) \<subseteq> set ?fecs" by auto
      then show ?thesis using st1(2) g2 by auto
    qed
    have len: "length (received_fec_packets ?st2) \<le> kMaxFecPackets" using st1(3) by (auto simp: UlpfecHeaderReader_def)
    have "InsertFecPacket newer UlpfecHeaderReader fresh rs p st1 \<in> {Some st1, Some ?st2}"
      using f ssrc st1(1) unfolding InsertFecPacket_def Let_def
      by (simp add: UlpfecHeaderReader_def del: length_list_sort)
    then obtain st2 where "InsertFecPacket newer UlpfecHeaderReader fresh rs p st1 = Some st2"
      "\<forall>f \<in> set (received_fec_packets st2). genuine_fec orig ?ssrc f" "length (received_fec_packets st2) \<le> kMaxFecPackets"
      "protected_media_ssrc st2 = ?ssrc"
      using all len st1 by fastforce
    then show ?thesis using discard[of rs] rs True by (simp add: InsertPacket_def Let_def flip: st1_def) (auto simp: decoder_ok_def)
  qed
qed

text \<open>
  C7: whatever subset of the genuine packets of a stream arrives, in whatever order and with whatever repetitions, the decoder never reads
  outside of a packet, every media packet it holds is exactly the one the sender made (received or recovered), its lists stay within their limits,
  and the FEC packets it keeps are those with two packets missing.
\<close>

theorem DecodeFec_ok:
  assumes ok: "decoder_ok orig st rs" and newer: "newer_law newer" and grow: "grow_law grow"
    and p: "genuine_received orig (protected_media_ssrc st) p"
  shows "\<exists>st' rs'. DecodeFec grow newer min_diff UlpfecHeaderReader fresh r0 p rs st = Some (st', rs') \<and> decoder_ok orig st' rs' \<and>
    protected_media_ssrc st' = protected_media_ssrc st \<and> (\<forall>f \<in> set (received_fec_packets st'). NumCoveredPacketsMissing f = 2)"
proof -
  obtain st1 rs1 where s1: "(if length rs = reader_MaxMediaPackets UlpfecHeaderReader \<and> rs \<noteq> [] \<and> rcv_ssrc p = rp_ssrc (last rs) \<and>
      unat (min_diff (rcv_seq_num p) (rp_seq_num (last rs))) > reader_MaxMediaPackets UlpfecHeaderReader then ResetState st else (st, rs)) = (st1, rs1)"
    by fastforce
  have ok1: "decoder_ok orig st1 rs1" "protected_media_ssrc st1 = protected_media_ssrc st"
    using s1 ok by (auto simp: decoder_ok_def ResetState_def split: if_splits)
  obtain st2 rs2 where s2: "InsertPacket newer min_diff UlpfecHeaderReader fresh p rs1 st1 = Some (st2, rs2)" "decoder_ok orig st2 rs2"
    "protected_media_ssrc st2 = protected_media_ssrc st"
    using InsertPacket_ok[OF ok1(1) newer, of p min_diff fresh] p ok1(2) by auto
  obtain fs rs3 where s3: "attempt_recovery grow newer min_diff UlpfecHeaderReader r0 [] (received_fec_packets st2) rs2 = Some (fs, rs3)"
    "\<forall>f \<in> set fs. genuine_fec orig (protected_media_ssrc st) f \<and> NumCoveredPacketsMissing f = 2"
    "\<forall>r \<in> set rs3. genuine orig (protected_media_ssrc st) r" "length fs \<le> length (received_fec_packets st2)" "length rs3 \<le> kMaxTrackedMediaPackets"
    using attempt_recovery_ok[of "[]" "received_fec_packets st2" orig "protected_media_ssrc st" rs2 grow newer min_diff r0] s2(2,3) grow
    by (auto simp: decoder_ok_def)
  have "DecodeFec grow newer min_diff UlpfecHeaderReader fresh r0 p rs st = Some (st2\<lparr>received_fec_packets := fs\<rparr>, rs3)"
    unfolding DecodeFec_def Let_def s1 using s2(1) s3(1) by (simp add: AttemptRecovery_def)
  then show ?thesis using s2 s3 by (auto simp: decoder_ok_def)
qed

theorem DecodeFec_ok_witness:
  "\<forall>fresh r0. \<exists>st' rs'. DecodeFec witness_grow (\<lambda>a b. b < a) (\<lambda>a b. min (a - b) (b - a)) UlpfecHeaderReader fresh r0
      \<lparr>rcv_ssrc = 5, rcv_seq_num = 1, is_fec = False, is_recovered = False, rcv_pkt = [0x80, 96, 0, 1]\<rparr> []
      \<lparr>protected_media_ssrc = 5, received_fec_packets = []\<rparr> = Some (st', rs') \<and>
    decoder_ok (\<lambda>_. [0x80, 96, 0, 1]) st' rs' \<and> protected_media_ssrc st' = 5 \<and>
    (\<forall>f \<in> set (received_fec_packets st'). NumCoveredPacketsMissing f = 2)"
proof (intro allI)
  fix fresh r0
  let ?st = "\<lparr>protected_media_ssrc = 5, received_fec_packets = []\<rparr>"
  let ?p = "\<lparr>rcv_ssrc = 5, rcv_seq_num = 1, is_fec = False, is_recovered = False, rcv_pkt = [0x80, 96, 0, 1]\<rparr>"
  have "decoder_ok (\<lambda>_. [0x80, 96, 0, 1]) ?st []" by (simp add: decoder_ok_def)
  moreover have "newer_law (\<lambda>a b. b < a)" by (auto simp: newer_law_def)
  moreover have "grow_law witness_grow" by (simp add: grow_law_def witness_grow_def)
  moreover have "genuine_received (\<lambda>_. [0x80, 96, 0, 1]) (protected_media_ssrc ?st) ?p" by (simp add: genuine_received_def)
  ultimately show "\<exists>st' rs'. DecodeFec witness_grow (\<lambda>a b. b < a) (\<lambda>a b. min (a - b) (b - a)) UlpfecHeaderReader fresh r0 ?p [] ?st = Some (st', rs') \<and>
    decoder_ok (\<lambda>_. [0x80, 96, 0, 1]) st' rs' \<and> protected_media_ssrc st' = 5 \<and>
    (\<forall>f \<in> set (received_fec_packets st'). NumCoveredPacketsMissing f = 2)"
    using DecodeFec_ok[of "\<lambda>_. [0x80, 96, 0, 1]" ?st "[]" "\<lambda>a b. b < a" witness_grow ?p "\<lambda>a b. min (a - b) (b - a)" fresh r0] by simp
qed

end
