(* ===== verification/Fec_Session.thy ===== *)
theory Fec_Session
  imports Fec_Decoder
begin

text \<open>
  Completeness of the FEC decoder: over the packets of a session, whose sequence numbers lie within a quarter of the range and which are
  no more than the decoder keeps, everything that can be recovered is recovered; and the encoder and the decoder together. The
  invariant is that every waiting FEC packet knows exactly the media packets the decoder has.
\<close>

subsection \<open>Nothing recoverable is left behind\<close>

text \<open>
  Documented behaviour of the sequence number functions: the newer of two numbers is the one less than half the range
  ahead, and \<open>MinDiff\<close> is the shorter way around.
\<close>

definition seq_laws :: "newer_fn \<Rightarrow> (u16 \<Rightarrow> u16 \<Rightarrow> u16) \<Rightarrow> bool" where
  "seq_laws newer min_diff \<longleftrightarrow> newer_law newer \<and> (\<forall>a. \<not> newer a a) \<and>
     (\<forall>a b. 0 < unat (a - b) \<and> unat (a - b) < 0x8000 \<longrightarrow> newer a b \<and> \<not> newer b a) \<and> (\<forall>a b. min_diff a b = min (a - b) (b - a))"

definition pos :: "u16 \<Rightarrow> u16 \<Rightarrow> nat" where
  "pos b s = unat (s - b)"

text \<open>A stretch of at most a quarter of the range, starting at \<open>b\<close>.\<close>

definition stretch :: "u16 \<Rightarrow> u16 set" where
  "stretch b = {s. pos b s < 0x4000}"

abbreviation ordered :: "u16 \<Rightarrow> ('a \<Rightarrow> u16) \<Rightarrow> 'a list \<Rightarrow> bool" where
  "ordered b key \<equiv> sorted_wrt (\<lambda>x y. pos b (key x) < pos b (key y))"

lemma pos_diff: "pos b x < pos b y \<Longrightarrow> unat (y - x) = pos b y - pos b x"
proof -
  assume l: "pos b x < pos b y"
  have "y - x = (y - b) - (x - b)" by simp
  then show ?thesis using l by (simp only: pos_def unat_sub less_imp_le word_le_nat_alt)
qed

lemma pos_inj: "pos b x = pos b y \<longleftrightarrow> x = y"
  unfolding pos_def word_unat_eq_iff[symmetric] by simp

lemma LessThan_pos:
  assumes "seq_laws newer min_diff" "x \<in> stretch b" "y \<in> stretch b"
  shows "LessThan newer x y \<longleftrightarrow> pos b x < pos b y"
proof (cases "pos b x" "pos b y" rule: linorder_cases)
  case less
  then have "0 < unat (y - x)" "unat (y - x) < 0x8000" using pos_diff[OF less] assms(3) by (auto simp: stretch_def)
  then show ?thesis using assms(1) less by (auto simp: seq_laws_def LessThan_def)
next
  case equal
  then show ?thesis using assms(1) by (simp add: pos_inj seq_laws_def LessThan_def)
next
  case greater
  then have "0 < unat (x - y)" "unat (x - y) < 0x8000" using pos_diff[OF greater] assms(2) by (auto simp: stretch_def)
  then show ?thesis using assms(1) greater by (auto simp: seq_laws_def LessThan_def)
qed

lemma min_diff_stretch:
  assumes "seq_laws newer min_diff" "x \<in> stretch b" "y \<in> stretch b"
  shows "min_diff x y \<le> kOldSequenceThreshold"
proof -
  have *: "min (x - y) (y - x) \<le> 0x3fff" if "pos b x \<le> pos b y" "y \<in> stretch b" for x y
  proof (cases "pos b x = pos b y")
    case True
    then show ?thesis by (simp add: pos_inj)
  next
    case False
    then have "unat (y - x) \<le> 0x3fff" using pos_diff[of b x y] that by (auto simp: stretch_def)
    then have "y - x \<le> 0x3fff" unfolding word_le_nat_alt by simp
    then show ?thesis by (simp add: min_le_iff_disj)
  qed
  have "min (x - y) (y - x) \<le> 0x3fff"
    using *[of x y] *[of y x] assms(2,3) by (cases "pos b x \<le> pos b y") (auto simp: min.commute)
  then show ?thesis using assms(1) by (simp add: seq_laws_def kOldSequenceThreshold_def)
qed

lemma insert_by_ordered:
  assumes "seq_laws newer min_diff" "ordered b key ys" "key x \<in> stretch b" "key x \<notin> key ` set ys" "key ` set ys \<subseteq> stretch b"
  shows "ordered b key (insert_by newer key x ys)"
  using assms(2,4,5)
proof (induction ys)
  case (Cons y ys)
  have lt: "LessThan newer (key y) (key x) \<longleftrightarrow> pos b (key y) < pos b (key x)" using LessThan_pos[OF assms(1)] Cons.prems assms(3) by auto
  have ne: "pos b (key y) \<noteq> pos b (key x)" using Cons.prems(2) by (auto simp: pos_inj)
  show ?case using Cons lt ne by (auto simp: set_insert_by dest: less_trans)
qed simp

lemma list_sort_ordered:
  assumes "seq_laws newer min_diff" "distinct (map key xs)" "key ` set xs \<subseteq> stretch b"
  shows "ordered b key (list_sort newer key xs)"
  using assms(2,3)
proof (induction xs)
  case (Cons x xs)
  then show ?case
    using insert_by_ordered[OF assms(1), of b key "list_sort newer key xs" x] set_list_sort[of newer key xs]
    by (simp add: list_sort_def)
qed (simp add: list_sort_def)

lemma ordered_distinct: "ordered b key xs \<Longrightarrow> distinct (map key xs)"
  by (induction xs) auto

lemma ordered_map: "ordered b key xs \<longleftrightarrow> sorted_wrt (\<lambda>x y. pos b x < pos b y) (map key xs)"
  by (simp add: sorted_wrt_map)

lemma lower_bound_ordered:
  assumes "seq_laws newer min_diff" "ordered b key xs" "key ` set xs \<subseteq> stretch b" "v \<in> stretch b" "first + len \<le> length xs"
  shows "first \<le> lower_bound newer key xs v first len \<and> lower_bound newer key xs v first len \<le> first + len \<and>
    (\<forall>j. first \<le> j \<and> j < lower_bound newer key xs v first len \<longrightarrow> pos b (key (xs ! j)) < pos b v) \<and>
    (lower_bound newer key xs v first len < first + len \<longrightarrow> pos b v \<le> pos b (key (xs ! lower_bound newer key xs v first len)))"
  using assms
proof (induction newer key xs v first len rule: lower_bound.induct)
  case (1 newer key xs v first len)
  show ?case
  proof (cases "len = 0")
    case True
    then show ?thesis by (simp add: lower_bound.simps[of newer key xs v first 0])
  next
    case False
    let ?m = "first + len div 2"
    have m: "?m < length xs" using 1(7) False by linarith
    have lt: "LessThan newer (key (xs ! ?m)) v \<longleftrightarrow> pos b (key (xs ! ?m)) < pos b v"
    proof (rule LessThan_pos[OF 1(3) _ 1(6)])
      show "key (xs ! ?m) \<in> stretch b" using 1(5) nth_mem[OF m] by blast
    qed
    show ?thesis
    proof (cases "LessThan newer (key (xs ! ?m)) v")
      case True
      have eq: "lower_bound newer key xs v first len = lower_bound newer key xs v (?m + 1) (len - len div 2 - 1)"
        using False True by (simp add: lower_bound.simps[of newer key xs v first len])
      have below: "pos b (key (xs ! j)) < pos b v" if "j \<le> ?m" for j
        using sorted_wrt_nth_less[OF 1(4), of j ?m] that m True lt by (cases "j = ?m") auto
      have end_eq: "?m + 1 + (len - len div 2 - 1) = first + len" using False by linarith
      have IH: "?m + 1 \<le> lower_bound newer key xs v (?m + 1) (len - len div 2 - 1) \<and>
        lower_bound newer key xs v (?m + 1) (len - len div 2 - 1) \<le> first + len \<and>
        (\<forall>j. ?m + 1 \<le> j \<and> j < lower_bound newer key xs v (?m + 1) (len - len div 2 - 1) \<longrightarrow> pos b (key (xs ! j)) < pos b v) \<and>
        (lower_bound newer key xs v (?m + 1) (len - len div 2 - 1) < first + len \<longrightarrow>
           pos b v \<le> pos b (key (xs ! lower_bound newer key xs v (?m + 1) (len - len div 2 - 1))))"
        using 1(1)[OF False True 1(3-6)] 1(7) end_eq by simp
      define i where "i = lower_bound newer key xs v (?m + 1) (len - len div 2 - 1)"
      have "pos b (key (xs ! j)) < pos b v" if "j < i" for j
        using IH below[of j] that by (cases "j \<le> ?m") (auto simp: i_def)
      then show ?thesis unfolding eq i_def[symmetric] using IH[folded i_def] by (intro conjI) auto
    next
      case ge: False
      have eq: "lower_bound newer key xs v first len = lower_bound newer key xs v first (len div 2)"
        using False ge by (simp add: lower_bound.simps[of newer key xs v first len])
      have IH: "first \<le> lower_bound newer key xs v first (len div 2) \<and> lower_bound newer key xs v first (len div 2) \<le> ?m \<and>
        (\<forall>j. first \<le> j \<and> j < lower_bound newer key xs v first (len div 2) \<longrightarrow> pos b (key (xs ! j)) < pos b v) \<and>
        (lower_bound newer key xs v first (len div 2) < ?m \<longrightarrow>
           pos b v \<le> pos b (key (xs ! lower_bound newer key xs v first (len div 2))))"
        using 1(2)[OF False ge 1(3-6)] m by simp
      show ?thesis unfolding eq using IH ge lt by (cases "lower_bound newer key xs v first (len div 2) = ?m") auto
    qed
  qed
qed

lemma lower_bound_finds:
  assumes "seq_laws newer min_diff" "ordered b key xs" "key ` set xs \<subseteq> stretch b" "v \<in> stretch b"
  shows "(let i = lower_bound newer key xs v 0 (length xs) in i < length xs \<and> key (xs ! i) = v) \<longleftrightarrow> v \<in> key ` set xs"
proof -
  let ?i = "lower_bound newer key xs v 0 (length xs)"
  have lb: "?i \<le> length xs" "\<And>j. j < ?i \<Longrightarrow> pos b (key (xs ! j)) < pos b v" "?i < length xs \<Longrightarrow> pos b v \<le> pos b (key (xs ! ?i))"
    using lower_bound_ordered[OF assms, of 0 "length xs"] by auto
  have "?i < length xs \<and> key (xs ! ?i) = v" if v: "v \<in> key ` set xs"
  proof -
    obtain j where j: "j < length xs" "key (xs ! j) = v" using v by (auto simp: in_set_conv_nth)
    have "?i \<le> j" using lb(2)[of j] j by (meson less_irrefl not_le)
    moreover have "pos b v < pos b v" if "?i < j"
      using lb(3) sorted_wrt_nth_less[OF assms(2) that j(1)] j that by (auto intro: le_less_trans)
    ultimately have "?i = j" by (meson le_neq_implies_less less_irrefl)
    then show ?thesis using j by simp
  qed
  then show ?thesis by (auto simp: Let_def intro: rev_image_eqI[OF nth_mem])
qed


lemma assign_recovered_complete:
  assumes "seq_laws newer min_diff" "ordered b pp_seq_num pps" "ordered b rp_seq_num rs"
    "pp_seq_num ` set pps \<subseteq> stretch b" "rp_seq_num ` set rs \<subseteq> stretch b" "\<forall>pp \<in> set pps. pp_pkt pp = None"
  shows "\<forall>pp \<in> set (assign_recovered newer pps rs). pp_pkt pp \<noteq> None \<longleftrightarrow> pp_seq_num pp \<in> rp_seq_num ` set rs"
  using assms
proof (induction newer pps rs rule: assign_recovered.induct)
  case (3 newer p ps r rs)
  have lt: "LessThan newer (pp_seq_num p) (rp_seq_num r) \<longleftrightarrow> pos b (pp_seq_num p) < pos b (rp_seq_num r)"
    "LessThan newer (rp_seq_num r) (pp_seq_num p) \<longleftrightarrow> pos b (rp_seq_num r) < pos b (pp_seq_num p)"
    using LessThan_pos[OF 3(4), of _ b] 3(7,8) by auto
  have ps: "pos b (pp_seq_num p) < pos b (pp_seq_num pp)" if "pp \<in> set ps" for pp using 3(5) that by simp
  have rs: "pos b (rp_seq_num r) < pos b (rp_seq_num r')" if "r' \<in> set rs" for r' using 3(6) that by simp
  have keys: "pp_seq_num ` set (assign_recovered newer xs ys) = pp_seq_num ` set xs" for xs ys
    using arg_cong[OF assign_recovered_seq[of newer xs ys], of set] by simp
  show ?case
  proof (cases "pos b (pp_seq_num p)" "pos b (rp_seq_num r)" rule: linorder_cases)
    case less
    have "pp_seq_num p \<notin> rp_seq_num ` set (r # rs)" using less rs by fastforce
    then show ?thesis using 3(1)[OF _ 3(4)] 3(5-9) less lt by auto
  next
    case equal
    have eq: "pp_seq_num p = rp_seq_num r" using equal by (simp add: pos_inj)
    have "pp_seq_num pp \<noteq> rp_seq_num r" if "pp \<in> set (assign_recovered newer ps rs)" for pp
    proof -
      have "pp_seq_num pp \<in> pp_seq_num ` set ps" using keys that by blast
      then show ?thesis using ps equal by fastforce
    qed
    then show ?thesis using 3(3)[OF _ _ 3(4)] 3(5-9) equal lt eq by auto
  next
    case greater
    have "pp_seq_num pp \<noteq> rp_seq_num r" if "pp \<in> set (assign_recovered newer (p # ps) rs)" for pp
    proof -
      have "pp_seq_num pp \<in> pp_seq_num ` set (p # ps)" using keys that by blast
      then show ?thesis using ps greater by fastforce
    qed
    then show ?thesis using 3(2)[OF _ _ 3(4)] 3(5-9) greater lt by auto
  qed
qed auto

text \<open>The decoder is up to date with the media packets it has: every waiting FEC packet knows exactly those.\<close>

definition complete_fec :: "u16 \<Rightarrow> u16 set \<Rightarrow> u16 set \<Rightarrow> ReceivedFecPacket \<Rightarrow> bool" where
  "complete_fec b U S f \<longleftrightarrow> protected_packets f \<noteq> [] \<and> ordered b pp_seq_num (protected_packets f) \<and>
     pp_seq_num ` set (protected_packets f) \<subseteq> U \<and>
     (\<forall>pp \<in> set (protected_packets f). pp_pkt pp \<noteq> None \<longleftrightarrow> pp_seq_num pp \<in> S)"

definition up_to_date :: "u16 \<Rightarrow> u16 set \<Rightarrow> ReceivedFecPacket list \<Rightarrow> RecoveredPacket list \<Rightarrow> bool" where
  "up_to_date b U fs rs \<longleftrightarrow> ordered b rp_seq_num rs \<and> rp_seq_num ` set rs \<subseteq> U \<and>
     (\<forall>f \<in> set fs. complete_fec b U (rp_seq_num ` set rs) f)"

lemma update_covering_complete:
  assumes "seq_laws newer min_diff" "U \<subseteq> stretch b" "complete_fec b U S f" "rp_seq_num r \<in> U"
  shows "complete_fec b U (insert (rp_seq_num r) S) (update_covering newer r f)"
    "map pp_seq_num (protected_packets (update_covering newer r f)) = map pp_seq_num (protected_packets f)"
    "fec_seq_num (update_covering newer r f) = fec_seq_num f"
proof -
  let ?pps = "protected_packets f"
  let ?i = "lower_bound newer pp_seq_num ?pps (rp_seq_num r) 0 (length ?pps)"
  have lb: "?i < length ?pps \<and> pp_seq_num (?pps ! ?i) = rp_seq_num r \<longleftrightarrow> rp_seq_num r \<in> pp_seq_num ` set ?pps"
    using lower_bound_finds[OF assms(1), of b pp_seq_num ?pps "rp_seq_num r"] assms(2-4) by (auto simp: complete_fec_def Let_def)
  show "fec_seq_num (update_covering newer r f) = fec_seq_num f" by (simp add: update_covering_def Let_def)
  show sq: "map pp_seq_num (protected_packets (update_covering newer r f)) = map pp_seq_num ?pps"
    by (simp add: update_covering_def Let_def map_update list_update_same_conv)
  show "complete_fec b U (insert (rp_seq_num r) S) (update_covering newer r f)"
  proof (cases "rp_seq_num r \<in> pp_seq_num ` set ?pps")
    case False
    then have "pp_seq_num pp \<noteq> rp_seq_num r" if "pp \<in> set ?pps" for pp using that by (metis image_eqI)
    moreover have "update_covering newer r f = f" using False lb by (auto simp: update_covering_def Let_def)
    ultimately show ?thesis using assms(3) by (simp add: complete_fec_def)
  next
    case True
    define pps where "pps = ?pps[?i := (?pps ! ?i)\<lparr>pp_pkt := Some (pkt_data (rp_pkt r))\<rparr>]"
    have i: "?i < length ?pps" "pp_seq_num (?pps ! ?i) = rp_seq_num r" using lb True by auto
    have u: "update_covering newer r f = f\<lparr>protected_packets := pps\<rparr>" using i by (simp add: update_covering_def Let_def pps_def)
    have sq': "map pp_seq_num pps = map pp_seq_num ?pps" using sq u by simp
    have dist: "distinct (map pp_seq_num ?pps)" using assms(3) ordered_distinct by (auto simp: complete_fec_def)
    have nth: "pps ! j = (if j = ?i then (?pps ! j)\<lparr>pp_pkt := Some (pkt_data (rp_pkt r))\<rparr> else ?pps ! j)" if "j < length ?pps" for j
      using that by (simp add: pps_def nth_list_update)
    have "pp_pkt (pps ! j) \<noteq> None \<longleftrightarrow> pp_seq_num (pps ! j) \<in> insert (rp_seq_num r) S" if j: "j < length ?pps" for j
    proof (cases "j = ?i")
      case False
      then have "pp_seq_num (?pps ! j) \<noteq> rp_seq_num r"
        using dist i j by (metis length_map nth_eq_iff_index_eq nth_map)
      then show ?thesis using False nth[OF j] assms(3) j by (simp add: complete_fec_def)
    qed (use nth i in simp)
    moreover have "ordered b pp_seq_num pps"
      using assms(3) unfolding complete_fec_def ordered_map[of b pp_seq_num] sq' by simp
    moreover have "pp_seq_num ` set pps = pp_seq_num ` set ?pps" using arg_cong[OF sq', of set] by simp
    moreover have "length pps = length ?pps" by (simp add: pps_def)
    moreover from this i have "pps \<noteq> []" by auto
    moreover have "\<forall>pp \<in> set pps. pp_pkt pp \<noteq> None \<longleftrightarrow> pp_seq_num pp \<in> insert (rp_seq_num r) S"
      using calculation(1,4) by (metis in_set_conv_nth)
    ultimately show ?thesis
      using assms(3) unfolding u complete_fec_def by (simp del: not_None_eq)
  qed
qed

lemma up_to_date_length:
  assumes "up_to_date b U fs rs" "finite U"
  shows "length rs \<le> card U"
proof -
  have d: "distinct (map rp_seq_num rs)" using assms(1) ordered_distinct by (auto simp: up_to_date_def)
  have "length rs = card (rp_seq_num ` set rs)" using distinct_card[OF d] by simp
  also have "\<dots> \<le> card U" using assms by (intro card_mono) (auto simp: up_to_date_def)
  finally show ?thesis .
qed

lemma DiscardOld_none: "length rs < 192 \<Longrightarrow> DiscardOldRecoveredPackets UlpfecHeaderReader rs = rs"
  by (simp add: DiscardOldRecoveredPackets_def UlpfecHeaderReader_def kMaxTrackedMediaPackets_def kMaxMediaPackets_def)

text \<open>A new media packet is sorted in and every waiting FEC packet learns of it.\<close>

lemma up_to_date_insert:
  assumes laws: "seq_laws newer min_diff" and U: "U \<subseteq> stretch b" "finite U" and u: "up_to_date b U fs rs"
    and r: "rp_seq_num r \<in> U" "rp_seq_num r \<notin> rp_seq_num ` set rs"
  shows "up_to_date b U (map (update_covering newer r) fs) (list_sort newer rp_seq_num (rs @ [r]))"
proof -
  have rs: "distinct (map rp_seq_num rs)" "rp_seq_num ` set rs \<subseteq> U" using u ordered_distinct by (auto simp: up_to_date_def)
  have "ordered b rp_seq_num (list_sort newer rp_seq_num (rs @ [r]))"
    using rs r U by (intro list_sort_ordered[OF laws]) auto
  moreover have "complete_fec b U (insert (rp_seq_num r) (rp_seq_num ` set rs)) (update_covering newer r f)" if "f \<in> set fs" for f
    using update_covering_complete(1)[OF laws U(1) _ r(1)] u that by (auto simp: up_to_date_def)
  ultimately show ?thesis using rs r(1) by (auto simp: up_to_date_def)
qed

definition kept_or_covered :: "ReceivedFecPacket list \<Rightarrow> u16 set \<Rightarrow> ReceivedFecPacket \<Rightarrow> bool" where
  "kept_or_covered fs S f \<longleftrightarrow> (\<exists>f' \<in> set fs. fec_seq_num f' = fec_seq_num f \<and>
       map pp_seq_num (protected_packets f') = map pp_seq_num (protected_packets f)) \<or>
     pp_seq_num ` set (protected_packets f) \<subseteq> S"

lemma kept_or_covered_cong:
  assumes "fec_seq_num f = fec_seq_num g" "map pp_seq_num (protected_packets f) = map pp_seq_num (protected_packets g)"
  shows "kept_or_covered fs S f \<longleftrightarrow> kept_or_covered fs S g"
proof -
  have "pp_seq_num ` set (protected_packets f) = pp_seq_num ` set (protected_packets g)"
    using arg_cong[OF assms(2), of set] by simp
  then show ?thesis using assms by (simp add: kept_or_covered_def)
qed

lemma not_old:
  assumes "seq_laws newer min_diff" "U \<subseteq> stretch b" "up_to_date b U (f # fs) rs"
  shows "\<not> IsOldFecPacket min_diff f rs"
proof (cases "rs = []")
  case False
  then have "rp_seq_num (last rs) \<in> U" "pp_seq_num (last (protected_packets f)) \<in> U"
    using assms(3) by (auto simp: up_to_date_def complete_fec_def)
  then have "min_diff (rp_seq_num (last rs)) (pp_seq_num (last (protected_packets f))) \<le> kOldSequenceThreshold"
    using assms(1,2) by (intro min_diff_stretch) auto
  then show ?thesis using False by (simp add: IsOldFecPacket_def not_less)
qed (simp add: IsOldFecPacket_def)

lemma attempt_recovery_complete:
  assumes laws: "seq_laws newer min_diff" and U: "U \<subseteq> stretch b" "finite U" "card U < 192" and grow: "grow_law grow"
    and "\<forall>f \<in> set (passed @ fs). genuine_fec orig ssrc f" "up_to_date b U (passed @ fs) rs" "distinct (map fec_seq_num (passed @ fs))"
    and "attempt_recovery grow newer min_diff UlpfecHeaderReader r0 passed fs rs = Some (fs', rs')"
  shows "up_to_date b U fs' rs' \<and> rp_seq_num ` set rs \<subseteq> rp_seq_num ` set rs' \<and> distinct (map fec_seq_num fs') \<and>
    fec_seq_num ` set fs' \<subseteq> fec_seq_num ` set (passed @ fs) \<and>
    (\<forall>f' \<in> set fs'. \<exists>f \<in> set (passed @ fs). fec_seq_num f' = fec_seq_num f \<and> map pp_seq_num (protected_packets f') = map pp_seq_num (protected_packets f)) \<and>
    (\<forall>f \<in> set (passed @ fs). kept_or_covered fs' (rp_seq_num ` set rs') f)"
  using assms(6-) laws grow
proof (induction grow newer min_diff "UlpfecHeaderReader" r0 passed fs rs rule: attempt_recovery.induct)
  case (1 grow newer min_diff r0 passed rs)
  then show ?case by (auto simp: kept_or_covered_def)
next
  case (2 grow newer min_diff r0 passed f fs rs)
  note prems = 2(5-10)
  have cf: "complete_fec b U (rp_seq_num ` set rs) f" using prems(2) by (auto simp: up_to_date_def)
  have rest: "up_to_date b U (passed @ fs) rs" "distinct (map fec_seq_num (passed @ fs))"
    "\<forall>f \<in> set (passed @ fs). genuine_fec orig ssrc f" using prems(1-3) by (auto simp: up_to_date_def)
  show ?case
  proof (cases "NumCoveredPacketsMissing f = 1")
    case True
    obtain r pm where r: "RecoverPacket grow f r0 = Some (True, r)" "genuine orig ssrc r"
      and pm: "pm \<in> set (protected_packets f)" "pp_pkt pm = None" "rp_seq_num r = pp_seq_num pm"
      and only: "\<And>pp. pp \<in> set (protected_packets f) \<Longrightarrow> pp_pkt pp = None \<Longrightarrow> pp_seq_num pp = rp_seq_num r"
      using RecoverPacket_genuine[of orig ssrc f grow r0] True prems(1,6) by auto
    have s: "rp_seq_num r \<in> U" "rp_seq_num r \<notin> rp_seq_num ` set rs" using cf pm by (auto simp: complete_fec_def)
    let ?fs = "map (update_covering newer r) (passed @ fs)" and ?rs = "list_sort newer rp_seq_num (rs @ [r])"
    have upd: "up_to_date b U ?fs ?rs" using up_to_date_insert[OF prems(5) U(1,2) rest(1) s] .
    have disc: "DiscardOldRecoveredPackets UlpfecHeaderReader ?rs = ?rs"
      using up_to_date_length[OF upd U(2)] U(3) by (intro DiscardOld_none) simp
    have same: "fec_seq_num (update_covering newer r g) = fec_seq_num g"
      "map pp_seq_num (protected_packets (update_covering newer r g)) = map pp_seq_num (protected_packets g)" if "g \<in> set (passed @ fs)" for g
      using update_covering_complete(2,3)[OF prems(5) U(1) _ s(1), of "rp_seq_num ` set rs" g] that rest(1) by (auto simp: up_to_date_def)
    have dist: "distinct (map fec_seq_num ?fs)"
      using rest(2) same(1) by (simp add: comp_def cong: map_cong)
    have gen: "\<forall>f \<in> set ([] @ ?fs). genuine_fec orig ssrc f" using rest(3) update_covering_genuine[OF _ r(2)] by auto
    have "attempt_recovery grow newer min_diff UlpfecHeaderReader r0 [] ?fs ?rs = Some (fs', rs')"
      using prems(4) True r(1) disc by simp
    from 2(2)[OF True r(1) refl _ gen, unfolded disc] upd dist this prems(5,6)
    have IH: "up_to_date b U fs' rs'" "rp_seq_num ` set ?rs \<subseteq> rp_seq_num ` set rs'" "distinct (map fec_seq_num fs')"
      "fec_seq_num ` set fs' \<subseteq> fec_seq_num ` set ?fs"
      "\<And>f'. f' \<in> set fs' \<Longrightarrow> \<exists>f \<in> set ?fs. fec_seq_num f' = fec_seq_num f \<and> map pp_seq_num (protected_packets f') = map pp_seq_num (protected_packets f)"
      "\<And>g. g \<in> set ?fs \<Longrightarrow> kept_or_covered fs' (rp_seq_num ` set rs') g" by auto
    have kc: "kept_or_covered fs' (rp_seq_num ` set rs') g" if "g \<in> set (passed @ fs)" for g
      using IH(6)[of "update_covering newer r g"] kept_or_covered_cong[OF same[OF that]] that by auto
    have cov: "pp_seq_num ` set (protected_packets f) \<subseteq> rp_seq_num ` set rs'"
    proof -
      have "pp_seq_num pp \<in> insert (rp_seq_num r) (rp_seq_num ` set rs)" if "pp \<in> set (protected_packets f)" for pp
        using cf only[OF that] that by (cases "pp_pkt pp = None") (auto simp: complete_fec_def)
      moreover have "insert (rp_seq_num r) (rp_seq_num ` set rs) \<subseteq> rp_seq_num ` set rs'" using IH(2) by simp
      ultimately show ?thesis by blast
    qed
    have src: "\<exists>g \<in> set (passed @ fs). fec_seq_num f' = fec_seq_num g \<and> map pp_seq_num (protected_packets f') = map pp_seq_num (protected_packets g)"
      if "f' \<in> set fs'" for f' using IH(5)[OF that] same by fastforce
    show ?thesis
    proof (intro conjI ballI)
      show "up_to_date b U fs' rs'" "distinct (map fec_seq_num fs')" by (rule IH)+
      show "rp_seq_num ` set rs \<subseteq> rp_seq_num ` set rs'" using IH(2) by simp
      show "fec_seq_num ` set fs' \<subseteq> fec_seq_num ` set (passed @ f # fs)"
      proof
        fix s assume "s \<in> fec_seq_num ` set fs'"
        then obtain f' where "f' \<in> set fs'" "s = fec_seq_num f'" by blast
        with src[of f'] show "s \<in> fec_seq_num ` set (passed @ f # fs)" by auto
      qed
    next
      fix f' assume "f' \<in> set fs'"
      from src[OF this] show "\<exists>g \<in> set (passed @ f # fs). fec_seq_num f' = fec_seq_num g \<and> map pp_seq_num (protected_packets f') = map pp_seq_num (protected_packets g)"
        by auto
    next
      fix g assume "g \<in> set (passed @ f # fs)"
      then consider "g = f" | "g \<in> set (passed @ fs)" by auto
      then show "kept_or_covered fs' (rp_seq_num ` set rs') g"
        using kc cov by cases (simp_all add: kept_or_covered_def)
    qed
  next
    case False
    show ?thesis
    proof (cases "NumCoveredPacketsMissing f = 0")
      case True
      then have "pp_pkt pp \<noteq> None" if "pp \<in> set (protected_packets f)" for pp
        using that by (auto simp: NumCoveredPacketsMissing_def filter_empty_conv min_def split: if_splits)
      then have cov: "pp_seq_num ` set (protected_packets f) \<subseteq> rp_seq_num ` set rs" using cf by (auto simp: complete_fec_def)
      have ar: "attempt_recovery grow newer min_diff UlpfecHeaderReader r0 passed fs rs = Some (fs', rs')" using prems(4) True by simp
      have IH: "up_to_date b U fs' rs' \<and> rp_seq_num ` set rs \<subseteq> rp_seq_num ` set rs' \<and> distinct (map fec_seq_num fs') \<and>
        fec_seq_num ` set fs' \<subseteq> fec_seq_num ` set (passed @ fs) \<and>
        (\<forall>f' \<in> set fs'. \<exists>f \<in> set (passed @ fs). fec_seq_num f' = fec_seq_num f \<and> map pp_seq_num (protected_packets f') = map pp_seq_num (protected_packets f)) \<and>
        (\<forall>f \<in> set (passed @ fs). kept_or_covered fs' (rp_seq_num ` set rs') f)"
        by (rule 2(3)[OF False disjI1[OF True] rest(3) rest(1) rest(2) ar prems(5) prems(6)])
      then have "rp_seq_num ` set rs \<subseteq> rp_seq_num ` set rs'" by (elim conjE)
      with cov have "kept_or_covered fs' (rp_seq_num ` set rs') f" unfolding kept_or_covered_def by (intro disjI2) (rule subset_trans)
      moreover have "set (passed @ f # fs) = insert f (set (passed @ fs))" by simp
      ultimately show ?thesis using IH by (simp only: image_insert ball_simps bex_simps) (meson subset_insertI2)
    next
      case n0: False
      have "up_to_date b U (f # fs) rs" using prems(2) by (auto simp: up_to_date_def)
      then have keep: "\<not> (NumCoveredPacketsMissing f = 0 \<or> IsOldFecPacket min_diff f rs)" using n0 not_old[OF prems(5) U(1)] by blast
      have "attempt_recovery grow newer min_diff UlpfecHeaderReader r0 (passed @ [f]) fs rs = Some (fs', rs')" using prems(4) False keep by simp
      with 2(4)[OF False keep] prems show ?thesis by simp
    qed
  qed
qed

text \<open>A run of the decoder over the packets as they arrive.\<close>

fun decode_all :: "grow \<Rightarrow> newer_fn \<Rightarrow> (u16 \<Rightarrow> u16 \<Rightarrow> u16) \<Rightarrow> ReceivedFecPacket \<Rightarrow> RecoveredPacket \<Rightarrow> FecReceivedPacket list
    \<Rightarrow> FecDecoder \<times> RecoveredPacket list \<Rightarrow> (FecDecoder \<times> RecoveredPacket list) option" where
  "decode_all grow newer min_diff fresh r0 [] s = Some s"
| "decode_all grow newer min_diff fresh r0 (p # ps) (st, rs) = do {
     s \<leftarrow> DecodeFec grow newer min_diff UlpfecHeaderReader fresh r0 p rs st;
     decode_all grow newer min_diff fresh r0 ps s }"

text \<open>
  The traffic of a session: \<open>U\<close> are the sequence numbers of its media packets, \<open>W\<close> those of its FEC packets, \<open>orig\<close> the media
  packets by number, and \<open>grp\<close> the packets a FEC packet protects.
\<close>

definition session :: "u16 \<Rightarrow> u16 set \<Rightarrow> u16 set \<Rightarrow> (u16 \<Rightarrow> byte list) \<Rightarrow> (u16 \<Rightarrow> byte list list) \<Rightarrow> u32 \<Rightarrow> bool" where
  "session b U W orig grp ssrc \<longleftrightarrow> U \<subseteq> stretch b \<and> W \<subseteq> stretch b \<and> finite U \<and> card U < kMaxTrackedMediaPackets \<and>
     finite W \<and> card W \<le> kMaxFecPackets \<and>
     (\<forall>s \<in> W. grp s \<noteq> [] \<and> ordered b ParseSequenceNumber (grp s) \<and>
       (\<forall>q \<in> set (grp s). ParseSequenceNumber q \<in> U \<and> orig (ParseSequenceNumber q) = q \<and> media_packet ssrc (ParseSequenceNumber q) q))"

definition of_session :: "u16 set \<Rightarrow> u16 set \<Rightarrow> (u16 \<Rightarrow> byte list) \<Rightarrow> (u16 \<Rightarrow> byte list list) \<Rightarrow> u32 \<Rightarrow> FecReceivedPacket \<Rightarrow> bool" where
  "of_session U W orig grp ssrc p \<longleftrightarrow> rcv_ssrc p = ssrc \<and>
     (if is_fec p then rcv_seq_num p \<in> W \<and> describes (grp (rcv_seq_num p)) (rcv_pkt p)
      else rcv_seq_num p \<in> U \<and> rcv_pkt p = orig (rcv_seq_num p))"

definition accounted :: "(u16 \<Rightarrow> byte list list) \<Rightarrow> FecDecoder \<Rightarrow> RecoveredPacket list \<Rightarrow> FecReceivedPacket \<Rightarrow> bool" where
  "accounted grp st rs p \<longleftrightarrow>
     (if is_fec p then (\<exists>f \<in> set (received_fec_packets st). fec_seq_num f = rcv_seq_num p) \<or>
        ParseSequenceNumber ` set (grp (rcv_seq_num p)) \<subseteq> rp_seq_num ` set rs
      else rcv_seq_num p \<in> rp_seq_num ` set rs)"

definition session_state :: "u16 \<Rightarrow> u16 set \<Rightarrow> u16 set \<Rightarrow> (u16 \<Rightarrow> byte list) \<Rightarrow> (u16 \<Rightarrow> byte list list) \<Rightarrow> u32 \<Rightarrow> FecDecoder \<Rightarrow> RecoveredPacket list \<Rightarrow> bool" where
  "session_state b U W orig grp ssrc st rs \<longleftrightarrow> protected_media_ssrc st = ssrc \<and> decoder_ok orig st rs \<and>
     up_to_date b U (received_fec_packets st) rs \<and> distinct (map fec_seq_num (received_fec_packets st)) \<and>
     fec_seq_num ` set (received_fec_packets st) \<subseteq> W \<and>
     (\<forall>f \<in> set (received_fec_packets st). map pp_seq_num (protected_packets f) = map ParseSequenceNumber (grp (fec_seq_num f)))"

lemma session_insert_media:
  assumes laws: "seq_laws newer min_diff" and s: "session b U W orig grp ssrc" and st: "session_state b U W orig grp ssrc st rs"
    and p: "of_session U W orig grp ssrc p" "\<not> is_fec p"
  shows "\<exists>st' rs'. InsertMediaPacket newer rs p st = (st', rs') \<and> protected_media_ssrc st' = ssrc \<and>
     up_to_date b U (received_fec_packets st') rs' \<and> map fec_seq_num (received_fec_packets st') = map fec_seq_num (received_fec_packets st) \<and>
     map (\<lambda>f. map pp_seq_num (protected_packets f)) (received_fec_packets st') = map (\<lambda>f. map pp_seq_num (protected_packets f)) (received_fec_packets st) \<and>
     rp_seq_num ` set rs' = insert (rcv_seq_num p) (rp_seq_num ` set rs)"
proof (cases "rcv_seq_num p \<in> rp_seq_num ` set rs")
  case True
  then have "list_ex (\<lambda>r. rp_seq_num r = rcv_seq_num p) rs" by (auto simp: list_ex_iff)
  then show ?thesis using st True by (auto simp: InsertMediaPacket_def session_state_def)
next
  case False
  let ?r = "\<lparr>rp_ssrc = rcv_ssrc p, rp_seq_num = rcv_seq_num p, was_recovered = False, returned = True,
    rp_pkt = \<lparr>pkt_store = rcv_pkt p, pkt_size = length (rcv_pkt p)\<rparr>\<rparr>"
  have U: "U \<subseteq> stretch b" "finite U" and u: "up_to_date b U (received_fec_packets st) rs" and r: "rp_seq_num ?r \<in> U" "rp_seq_num ?r \<notin> rp_seq_num ` set rs"
    using s st p False by (auto simp: session_def session_state_def of_session_def)
  have nd: "\<not> list_ex (\<lambda>r. rp_seq_num r = rcv_seq_num p) rs" using False by (force simp: list_ex_iff)
  have cf: "complete_fec b U (rp_seq_num ` set rs) f" if "f \<in> set (received_fec_packets st)" for f using u that by (auto simp: up_to_date_def)
  show ?thesis
    using up_to_date_insert[OF laws U u r] nd st update_covering_complete(2,3)[OF laws U(1) cf r(1)]
    by (simp add: InsertMediaPacket_def UpdateCoveringFecPackets_def Let_def session_state_def comp_def cong: map_cong)
qed

lemma session_insert_fec:
  assumes laws: "seq_laws newer min_diff" and s: "session b U W orig grp ssrc" and st: "session_state b U W orig grp ssrc st rs"
    and p: "of_session U W orig grp ssrc p" "is_fec p"
  shows "\<exists>st'. InsertFecPacket newer UlpfecHeaderReader fresh rs p st = Some st' \<and> protected_media_ssrc st' = ssrc \<and>
     up_to_date b U (received_fec_packets st') rs \<and> distinct (map fec_seq_num (received_fec_packets st')) \<and>
     fec_seq_num ` set (received_fec_packets st') = insert (rcv_seq_num p) (fec_seq_num ` set (received_fec_packets st)) \<and>
     (\<forall>f \<in> set (received_fec_packets st'). map pp_seq_num (protected_packets f) = map ParseSequenceNumber (grp (fec_seq_num f)))"
proof (cases "rcv_seq_num p \<in> fec_seq_num ` set (received_fec_packets st)")
  case True
  then have "list_ex (\<lambda>f. fec_seq_num f = rcv_seq_num p) (received_fec_packets st)" by (auto simp: list_ex_iff)
  then show ?thesis using st True by (auto simp: InsertFecPacket_def session_state_def)
next
  case False
  let ?fecs = "received_fec_packets st" and ?g = "grp (rcv_seq_num p)"
  have nd: "\<not> list_ex (\<lambda>f. fec_seq_num f = rcv_seq_num p) ?fecs" using False by (force simp: list_ex_iff)
  have W: "rcv_seq_num p \<in> W" "describes ?g (rcv_pkt p)" "rcv_ssrc p = ssrc" "protected_media_ssrc st = ssrc" "U \<subseteq> stretch b"
    using p st s by (auto simp: of_session_def session_state_def session_def)
  have g: "?g \<noteq> []" "ordered b ParseSequenceNumber ?g" "\<And>q. q \<in> set ?g \<Longrightarrow> ParseSequenceNumber q \<in> U"
    using s W(1) by (auto simp: session_def)
  have rs: "ordered b rp_seq_num rs" "rp_seq_num ` set rs \<subseteq> U" using st by (auto simp: session_state_def up_to_date_def)
  let ?f0 = "fresh\<lparr>protected_packets := [], fec_pkt := rcv_pkt p, fec_ssrc := rcv_ssrc p, fec_seq_num := rcv_seq_num p\<rparr>"
  obtain f where f: "ulpfec_ReadFecHeader ?f0 = Some (True, f)" "protected_ssrc f = ssrc" "fec_seq_num f = rcv_seq_num p"
     "fec_mask_offset f + fec_mask_size f \<le> length (fec_pkt f)" "map pp_seq_num (mask_packets ssrc f) = map ParseSequenceNumber ?g"
     "\<forall>pp \<in> set (mask_packets ssrc f). pp_pkt pp = None"
    using W(2)[unfolded describes_def, rule_format, of ?f0 ssrc] W(3) by auto
  let ?mp = "mask_packets ssrc f"
  have ne: "?mp \<noteq> []" using f(5) g(1) by auto
  have keys: "pp_seq_num ` set ?mp = ParseSequenceNumber ` set ?g" using arg_cong[OF f(5), of set] by simp
  have ord: "ordered b pp_seq_num ?mp" using g(2) unfolding ordered_map[of b pp_seq_num] ordered_map[of b ParseSequenceNumber] f(5) .
  let ?f = "AssignRecoveredPackets newer rs (f\<lparr>protected_packets := ?mp\<rparr>)"
  have sq: "map pp_seq_num (protected_packets ?f) = map ParseSequenceNumber ?g" "fec_seq_num ?f = rcv_seq_num p"
    using f by (simp_all add: AssignRecoveredPackets_def assign_recovered_seq)
  have keys': "pp_seq_num ` set (protected_packets ?f) = ParseSequenceNumber ` set ?g" using arg_cong[OF sq(1), of set] by simp
  have cf: "complete_fec b U (rp_seq_num ` set rs) ?f"
    unfolding complete_fec_def
  proof (intro conjI)
    show "protected_packets ?f \<noteq> []" using sq(1) g(1) by auto
    show "ordered b pp_seq_num (protected_packets ?f)"
      using g(2) unfolding ordered_map[of b pp_seq_num] ordered_map[of b ParseSequenceNumber] sq(1) .
    show "pp_seq_num ` set (protected_packets ?f) \<subseteq> U" unfolding keys' using g(3) by blast
    show "\<forall>pp \<in> set (protected_packets ?f). (pp_pkt pp \<noteq> None) = (pp_seq_num pp \<in> rp_seq_num ` set rs)"
    proof -
      have "pp_seq_num ` set ?mp \<subseteq> stretch b" "rp_seq_num ` set rs \<subseteq> stretch b" unfolding keys using g(3) W(5) rs(2) by blast+
      from assign_recovered_complete[OF laws ord rs(1) this f(6)] show ?thesis by (simp add: AssignRecoveredPackets_def)
    qed
  qed
  let ?all = "list_sort newer fec_seq_num (?fecs @ [?f])"
  have len: "\<not> length ?all > kMaxFecPackets"
  proof -
    have d: "distinct (map fec_seq_num (?fecs @ [?f]))" using st False sq(2) by (auto simp: session_state_def)
    have "length ?all = card (fec_seq_num ` set (?fecs @ [?f]))" using distinct_card[OF d] by simp
    also have "\<dots> \<le> card W" using s st W(1) sq(2) by (intro card_mono) (auto simp: session_def session_state_def)
    finally show ?thesis using s by (simp add: session_def)
  qed
  have "InsertFecPacket newer UlpfecHeaderReader fresh rs p st = Some (st\<lparr>received_fec_packets := ?all\<rparr>)"
    using nd f W(3,4) ne len unfolding InsertFecPacket_def Let_def
    by (simp add: UlpfecHeaderReader_def del: length_list_sort)
  moreover have "distinct (map fec_seq_num ?all)"
  proof -
    have "distinct (map fec_seq_num (?fecs @ [?f]))" "fec_seq_num ` set (?fecs @ [?f]) \<subseteq> stretch b"
      using st s False sq(2) W(1) by (auto simp: session_state_def session_def)
    then show ?thesis using ordered_distinct[OF list_sort_ordered[OF laws]] by blast
  qed
  moreover have "up_to_date b U ?all rs" using st cf by (auto simp: session_state_def up_to_date_def)
  ultimately show ?thesis using st sq W(4) by (auto simp: session_state_def)
qed

lemma session_genuine:
  assumes "session b U W orig grp ssrc" "of_session U W orig grp ssrc p"
  shows "genuine_received orig ssrc p"
proof (cases "is_fec p")
  case True
  let ?g = "grp (rcv_seq_num p)"
  have "describes ?g (rcv_pkt p)" "rcv_seq_num p \<in> W" "rcv_ssrc p = ssrc" using assms(2) True by (auto simp: of_session_def)
  moreover from this have "\<forall>q \<in> set ?g. orig (ParseSequenceNumber q) = q \<and> media_packet ssrc (ParseSequenceNumber q) q"
    using assms(1) by (simp add: session_def)
  ultimately show ?thesis using True by (auto simp: genuine_received_def)
qed (use assms in \<open>simp add: genuine_received_def of_session_def\<close>)

text \<open>Within a session no FEC packet is too old when a packet is inserted.\<close>

lemma session_nothing_old:
  assumes laws: "seq_laws newer min_diff" and s: "session b U W orig grp ssrc" and st: "session_state b U W orig grp ssrc st rs"
    and p: "of_session U W orig grp ssrc p"
  shows "dropWhile (\<lambda>f. min_diff (rcv_seq_num p) (fec_seq_num f) > kOldSequenceThreshold) (received_fec_packets st) = received_fec_packets st"
proof (cases "received_fec_packets st")
  case (Cons f fs)
  then have "fec_seq_num f \<in> stretch b" "rcv_seq_num p \<in> stretch b"
    using s st p by (auto simp: session_def session_state_def of_session_def split: if_splits)
  then have "min_diff (rcv_seq_num p) (fec_seq_num f) \<le> kOldSequenceThreshold" using min_diff_stretch[OF laws] by blast
  then show ?thesis using Cons by (simp add: not_less)
qed simp

lemma session_insert:
  assumes laws: "seq_laws newer min_diff" and s: "session b U W orig grp ssrc" and st: "session_state b U W orig grp ssrc st rs"
    and p: "of_session U W orig grp ssrc p"
  shows "\<exists>st' rs'. InsertPacket newer min_diff UlpfecHeaderReader fresh p rs st = Some (st', rs') \<and> session_state b U W orig grp ssrc st' rs' \<and>
     fec_seq_num ` set (received_fec_packets st) \<subseteq> fec_seq_num ` set (received_fec_packets st') \<and>
     rp_seq_num ` set rs \<subseteq> rp_seq_num ` set rs' \<and> accounted grp st' rs' p"
proof -
  obtain st1 rs1 where i: "InsertPacket newer min_diff UlpfecHeaderReader fresh p rs st = Some (st1, rs1)" "decoder_ok orig st1 rs1"
      "protected_media_ssrc st1 = ssrc"
    using InsertPacket_ok[of orig st rs newer p min_diff fresh] st laws session_genuine[OF s p] by (auto simp: session_state_def seq_laws_def)
  have U: "finite U" "card U < 192" using s by (simp_all add: session_def kMaxTrackedMediaPackets_def kMaxMediaPackets_def)
  note none = session_nothing_old[OF laws s st p]
  show ?thesis
  proof (cases "is_fec p")
    case True
    obtain st2 where f: "InsertFecPacket newer UlpfecHeaderReader fresh rs p st = Some st2" "up_to_date b U (received_fec_packets st2) rs"
        "distinct (map fec_seq_num (received_fec_packets st2))"
        "fec_seq_num ` set (received_fec_packets st2) = insert (rcv_seq_num p) (fec_seq_num ` set (received_fec_packets st))"
        "\<forall>f \<in> set (received_fec_packets st2). map pp_seq_num (protected_packets f) = map ParseSequenceNumber (grp (fec_seq_num f))"
      using session_insert_fec[OF laws s st p True] by blast
    have "length rs < 192" using up_to_date_length[OF f(2) U(1)] U(2) by simp
    then have "InsertPacket newer min_diff UlpfecHeaderReader fresh p rs st = Some (st2, rs)"
      using True f(1) none by (simp add: InsertPacket_def DiscardOld_none Let_def)
    moreover have "rcv_seq_num p \<in> W" using p True by (simp add: of_session_def)
    moreover have "\<exists>f \<in> set (received_fec_packets st2). fec_seq_num f = rcv_seq_num p" using f(4) by (metis imageE insertI1)
    ultimately show ?thesis using i f(2-5) st True by (auto simp: session_state_def accounted_def)
  next
    case False
    obtain st2 rs2 where m: "InsertMediaPacket newer rs p st = (st2, rs2)" "up_to_date b U (received_fec_packets st2) rs2"
        "map fec_seq_num (received_fec_packets st2) = map fec_seq_num (received_fec_packets st)"
        "map (\<lambda>f. map pp_seq_num (protected_packets f)) (received_fec_packets st2) = map (\<lambda>f. map pp_seq_num (protected_packets f)) (received_fec_packets st)"
        "rp_seq_num ` set rs2 = insert (rcv_seq_num p) (rp_seq_num ` set rs)"
      using session_insert_media[OF laws s st p False] by blast
    have "length rs2 < 192" using up_to_date_length[OF m(2) U(1)] U(2) by simp
    then have e: "InsertPacket newer min_diff UlpfecHeaderReader fresh p rs st = Some (st2, rs2)"
      using False m(1) none by (simp add: InsertPacket_def DiscardOld_none Let_def)
    have sq: "fec_seq_num ` set (received_fec_packets st2) = fec_seq_num ` set (received_fec_packets st)"
      using arg_cong[OF m(3), of set] by simp
    have "map pp_seq_num (protected_packets f) = map ParseSequenceNumber (grp (fec_seq_num f))" if "f \<in> set (received_fec_packets st2)" for f
    proof -
      obtain j where j: "j < length (received_fec_packets st2)" "f = received_fec_packets st2 ! j" using \<open>f \<in> _\<close> unfolding in_set_conv_nth by blast
      have l: "length (received_fec_packets st2) = length (received_fec_packets st)" using m(3) by (rule map_eq_imp_length_eq)
      let ?f = "received_fec_packets st ! j"
      have "?f \<in> set (received_fec_packets st)" using j(1) l by simp
      then have "map pp_seq_num (protected_packets ?f) = map ParseSequenceNumber (grp (fec_seq_num ?f))" using st by (simp add: session_state_def)
      moreover have "fec_seq_num f = fec_seq_num ?f" "map pp_seq_num (protected_packets f) = map pp_seq_num (protected_packets ?f)"
        using arg_cong[OF m(3), of "\<lambda>xs. xs ! j"] arg_cong[OF m(4), of "\<lambda>xs. xs ! j"] j l by simp_all
      ultimately show ?thesis by simp
    qed
    then show ?thesis using i e m st False sq by (auto simp: session_state_def accounted_def)
  qed
qed

lemma session_recover:
  assumes laws: "seq_laws newer min_diff" and s: "session b U W orig grp ssrc" and st: "session_state b U W orig grp ssrc st rs"
    and grow: "grow_law grow"
  shows "\<exists>st' rs'. AttemptRecovery grow newer min_diff UlpfecHeaderReader r0 rs st = Some (st', rs') \<and> session_state b U W orig grp ssrc st' rs' \<and>
     (\<forall>f \<in> set (received_fec_packets st'). NumCoveredPacketsMissing f = 2) \<and> (\<forall>p. accounted grp st rs p \<longrightarrow> accounted grp st' rs' p)"
proof -
  let ?fs = "received_fec_packets st"
  have ok: "\<forall>f \<in> set ([] @ ?fs). genuine_fec orig ssrc f" "\<forall>r \<in> set rs. genuine orig ssrc r" "length rs \<le> kMaxTrackedMediaPackets"
    "length ?fs \<le> kMaxFecPackets" "up_to_date b U ([] @ ?fs) rs" "distinct (map fec_seq_num ([] @ ?fs))"
    using st by (auto simp: session_state_def decoder_ok_def)
  obtain fs' rs' where a: "attempt_recovery grow newer min_diff UlpfecHeaderReader r0 [] ?fs rs = Some (fs', rs')"
      "\<forall>f \<in> set fs'. genuine_fec orig ssrc f \<and> NumCoveredPacketsMissing f = 2" "\<forall>r \<in> set rs'. genuine orig ssrc r"
      "length fs' \<le> length ?fs" "length rs' \<le> kMaxTrackedMediaPackets"
    using attempt_recovery_ok[OF ok(1,2) grow _ ok(3), of newer min_diff r0] by auto
  have U: "U \<subseteq> stretch b" "finite U" "card U < 192" using s by (simp_all add: session_def kMaxTrackedMediaPackets_def kMaxMediaPackets_def)
  have c: "up_to_date b U fs' rs'" "rp_seq_num ` set rs \<subseteq> rp_seq_num ` set rs'" "distinct (map fec_seq_num fs')"
      "fec_seq_num ` set fs' \<subseteq> fec_seq_num ` set ?fs"
      "\<And>f'. f' \<in> set fs' \<Longrightarrow> \<exists>f \<in> set ?fs. fec_seq_num f' = fec_seq_num f \<and> map pp_seq_num (protected_packets f') = map pp_seq_num (protected_packets f)"
      "\<And>f. f \<in> set ?fs \<Longrightarrow> kept_or_covered fs' (rp_seq_num ` set rs') f"
    using attempt_recovery_complete[OF laws U grow ok(1,5,6) a(1)] by auto
  let ?st = "st\<lparr>received_fec_packets := fs'\<rparr>"
  have same: "map pp_seq_num (protected_packets f) = map ParseSequenceNumber (grp (fec_seq_num f))" if "f \<in> set ?fs" for f
    using st that by (simp add: session_state_def)
  have "map pp_seq_num (protected_packets f') = map ParseSequenceNumber (grp (fec_seq_num f'))" if "f' \<in> set fs'" for f'
    using c(5)[OF that] same by auto
  then have "session_state b U W orig grp ssrc ?st rs'"
    using st a c(1,3) ok(4) subset_trans[OF c(4)] by (simp add: session_state_def decoder_ok_def)
  moreover have "accounted grp ?st rs' p" if acc: "accounted grp st rs p" for p
  proof (cases "is_fec p \<and> (\<exists>f \<in> set ?fs. fec_seq_num f = rcv_seq_num p)")
    case True
    then obtain f where f: "f \<in> set ?fs" "fec_seq_num f = rcv_seq_num p" by blast
    have "pp_seq_num ` set (protected_packets f) = ParseSequenceNumber ` set (grp (rcv_seq_num p))"
      using arg_cong[OF same[OF f(1)], of set] f(2) by simp
    then show ?thesis using c(6)[OF f(1)] f(2) True by (auto simp: kept_or_covered_def accounted_def)
  next
    case False
    then show ?thesis using acc subset_trans[OF _ c(2)] subsetD[OF c(2)] by (cases "is_fec p") (auto simp: accounted_def simp del: image_subset_iff)
  qed
  ultimately show ?thesis using a(1,2) by (auto simp: AttemptRecovery_def)
qed

lemma session_DecodeFec:
  assumes laws: "seq_laws newer min_diff" and s: "session b U W orig grp ssrc" and st: "session_state b U W orig grp ssrc st rs"
    and p: "of_session U W orig grp ssrc p" and grow: "grow_law grow"
  shows "\<exists>st' rs'. DecodeFec grow newer min_diff UlpfecHeaderReader fresh r0 p rs st = Some (st', rs') \<and>
     session_state b U W orig grp ssrc st' rs' \<and> (\<forall>f \<in> set (received_fec_packets st'). NumCoveredPacketsMissing f = 2) \<and>
     accounted grp st' rs' p \<and> (\<forall>q. accounted grp st rs q \<longrightarrow> accounted grp st' rs' q)"
proof -
  obtain st1 rs1 where i: "InsertPacket newer min_diff UlpfecHeaderReader fresh p rs st = Some (st1, rs1)"
      "session_state b U W orig grp ssrc st1 rs1" "fec_seq_num ` set (received_fec_packets st) \<subseteq> fec_seq_num ` set (received_fec_packets st1)"
      "rp_seq_num ` set rs \<subseteq> rp_seq_num ` set rs1" "accounted grp st1 rs1 p"
    using session_insert[OF laws s st p] by blast
  obtain st2 rs2 where r: "AttemptRecovery grow newer min_diff UlpfecHeaderReader r0 rs1 st1 = Some (st2, rs2)"
      "session_state b U W orig grp ssrc st2 rs2" "\<forall>f \<in> set (received_fec_packets st2). NumCoveredPacketsMissing f = 2"
      "\<And>p. accounted grp st1 rs1 p \<Longrightarrow> accounted grp st2 rs2 p"
    using session_recover[OF laws s i(2) grow] by blast
  have "length rs < reader_MaxMediaPackets UlpfecHeaderReader"
    using up_to_date_length[of b U "received_fec_packets st" rs] st s by (auto simp: session_state_def session_def UlpfecHeaderReader_def)
  then have "DecodeFec grow newer min_diff UlpfecHeaderReader fresh r0 p rs st = Some (st2, rs2)"
    using i(1) r(1) by (simp add: DecodeFec_def Let_def)
  moreover have "accounted grp st1 rs1 q" if "accounted grp st rs q" for q
  proof -
    have "\<exists>g \<in> set (received_fec_packets st1). fec_seq_num g = fec_seq_num f" if "f \<in> set (received_fec_packets st)" for f
      using i(3) that by (metis image_eqI imageE subsetD)
    then show ?thesis using that i(4) by (fastforce simp: accounted_def)
  qed
  ultimately show ?thesis using r i(5) by blast
qed

lemma session_decode_all:
  assumes laws: "seq_laws newer min_diff" and s: "session b U W orig grp ssrc" and grow: "grow_law grow"
    and "session_state b U W orig grp ssrc st rs" "\<forall>p \<in> set ps. of_session U W orig grp ssrc p"
    and "\<forall>f \<in> set (received_fec_packets st). NumCoveredPacketsMissing f = 2"
  shows "\<exists>st' rs'. decode_all grow newer min_diff fresh r0 ps (st, rs) = Some (st', rs') \<and>
     session_state b U W orig grp ssrc st' rs' \<and> (\<forall>f \<in> set (received_fec_packets st'). NumCoveredPacketsMissing f = 2) \<and>
     (\<forall>q. q \<in> set ps \<or> accounted grp st rs q \<longrightarrow> accounted grp st' rs' q)"
  using assms(4-)
proof (induction ps arbitrary: st rs)
  case (Cons p ps)
  obtain st1 rs1 where d: "DecodeFec grow newer min_diff UlpfecHeaderReader fresh r0 p rs st = Some (st1, rs1)"
     "session_state b U W orig grp ssrc st1 rs1" "\<forall>f \<in> set (received_fec_packets st1). NumCoveredPacketsMissing f = 2"
     "accounted grp st1 rs1 p" "\<And>q. accounted grp st rs q \<Longrightarrow> accounted grp st1 rs1 q"
    using session_DecodeFec[OF laws s Cons.prems(1) _ grow, of p fresh r0] Cons.prems(2) by auto
  obtain st' rs' where "decode_all grow newer min_diff fresh r0 ps (st1, rs1) = Some (st', rs')"
     "session_state b U W orig grp ssrc st' rs'" "\<forall>f \<in> set (received_fec_packets st'). NumCoveredPacketsMissing f = 2"
     "\<forall>q. q \<in> set ps \<or> accounted grp st1 rs1 q \<longrightarrow> accounted grp st' rs' q"
    using Cons.IH[OF d(2) _ d(3)] Cons.prems(2) by auto
  then show ?case using d by auto
qed auto

text \<open>A FEC packet that waits has two packets missing, so it is not one with a single packet lost.\<close>

lemma two_missing:
  assumes "complete_fec b U S f" "NumCoveredPacketsMissing f = 2"
  shows "\<exists>s \<in> pp_seq_num ` set (protected_packets f). s \<noteq> t \<and> s \<notin> S"
proof (rule ccontr)
  assume "\<not> ?thesis"
  then have t: "pp_seq_num pp = t" if "pp \<in> set (protected_packets f)" "pp_pkt pp = None" for pp
    using that assms(1) by (auto simp: complete_fec_def)
  let ?none = "filter (\<lambda>pp. pp_pkt pp = None) (protected_packets f)"
  have "distinct (map pp_seq_num (protected_packets f))" using assms(1) ordered_distinct by (auto simp: complete_fec_def)
  then have d: "distinct (map pp_seq_num ?none)" by (rule distinct_map_filter)
  have "set (map pp_seq_num ?none) \<subseteq> {t}" using t by auto
  then have "length ?none \<le> 1" using distinct_card[OF d] card_mono[of "{t}" "set (map pp_seq_num ?none)"] by simp
  then show False using assms(2) by (simp add: NumCoveredPacketsMissing_def)
qed

lemma decode_all_session:
  assumes "seq_laws newer min_diff" "grow_law grow" "session b U W orig grp ssrc"
    and "\<And>p. p \<in> set ps \<Longrightarrow> of_session U W orig grp ssrc p"
  shows "\<exists>st rs. decode_all grow newer min_diff fresh r0 ps (\<lparr>protected_media_ssrc = ssrc, received_fec_packets = []\<rparr>, []) = Some (st, rs) \<and>
    (\<forall>r \<in> set rs. rp_seq_num r \<in> U \<and> pkt_data (rp_pkt r) = orig (rp_seq_num r)) \<and>
    (\<forall>p \<in> set ps. \<not> is_fec p \<longrightarrow> rcv_seq_num p \<in> rp_seq_num ` set rs) \<and>
    (\<forall>p \<in> set ps. \<forall>lost. is_fec p \<and> (\<forall>q \<in> set (grp (rcv_seq_num p)). q \<noteq> lost \<longrightarrow> ParseSequenceNumber q \<in> rp_seq_num ` set rs) \<longrightarrow>
       ParseSequenceNumber ` set (grp (rcv_seq_num p)) \<subseteq> rp_seq_num ` set rs)"
proof -
  let ?st = "\<lparr>protected_media_ssrc = ssrc, received_fec_packets = []\<rparr>"
  have "session_state b U W orig grp ssrc ?st []" by (simp add: session_state_def decoder_ok_def up_to_date_def)
  from session_decode_all[OF assms(1,3,2) this, of ps fresh r0] assms(4)
  obtain st rs where d: "decode_all grow newer min_diff fresh r0 ps (?st, []) = Some (st, rs)" "session_state b U W orig grp ssrc st rs"
      "\<And>f. f \<in> set (received_fec_packets st) \<Longrightarrow> NumCoveredPacketsMissing f = 2" "\<And>q. q \<in> set ps \<Longrightarrow> accounted grp st rs q" by auto
  let ?S = "rp_seq_num ` set rs"
  have "ParseSequenceNumber ` set (grp (rcv_seq_num p)) \<subseteq> ?S"
    if p: "p \<in> set ps" and one: "is_fec p \<and> (\<forall>q \<in> set (grp (rcv_seq_num p)). q \<noteq> lost \<longrightarrow> ParseSequenceNumber q \<in> ?S)" for p lost
  proof (rule ccontr)
    assume no: "\<not> ParseSequenceNumber ` set (grp (rcv_seq_num p)) \<subseteq> ?S"
    then obtain f where f: "f \<in> set (received_fec_packets st)" "fec_seq_num f = rcv_seq_num p"
      using d(4)[OF p] one by (auto simp: accounted_def)
    have "map pp_seq_num (protected_packets f) = map ParseSequenceNumber (grp (rcv_seq_num p))" "complete_fec b U ?S f"
      using d(2) f by (auto simp: session_state_def up_to_date_def)
    then have "\<exists>s \<in> ParseSequenceNumber ` set (grp (rcv_seq_num p)). s \<noteq> ParseSequenceNumber lost \<and> s \<notin> ?S"
      using two_missing[of b U ?S f "ParseSequenceNumber lost"] d(3)[OF f(1)] by (metis list.set_map)
    then show False using one by auto
  qed
  moreover have "\<forall>r \<in> set rs. rp_seq_num r \<in> U \<and> pkt_data (rp_pkt r) = orig (rp_seq_num r)"
    using d(2) by (auto simp: session_state_def decoder_ok_def genuine_def up_to_date_def)
  moreover have "\<forall>p \<in> set ps. \<not> is_fec p \<longrightarrow> rcv_seq_num p \<in> ?S" using d(4) by (auto simp: accounted_def)
  ultimately show ?thesis using d(1) by blast
qed

subsection \<open>Encoder and decoder together\<close>

text \<open>
  What the network may deliver of a batch: its media packets and the FEC packets the encoder made for it, sent with the sequence
  numbers \<open>num 0\<close>, \<open>num 1\<close>, \<dots>
\<close>

definition sent :: "u32 \<Rightarrow> (nat \<Rightarrow> u16) \<Rightarrow> byte list list \<Rightarrow> nat \<Rightarrow> FecPacket list \<Rightarrow> FecReceivedPacket \<Rightarrow> bool" where
  "sent ssrc num media n fecs p \<longleftrightarrow> rcv_ssrc p = ssrc \<and>
     (if is_fec p then \<exists>i < n. rcv_seq_num p = num i \<and> rcv_pkt p = pkt_data (fecs ! i)
      else rcv_pkt p \<in> set media \<and> rcv_seq_num p = ParseSequenceNumber (rcv_pkt p))"

lemma ordered_protected_by:
  assumes "batch media"
  shows "ordered (ParseSequenceNumber (hd media)) ParseSequenceNumber (protected_by w msk i media)"
proof -
  have so: "sorted_wrt (<) (map (column (ParseSequenceNumber (hd media))) media)" using batch_columns(1)[OF assms refl] .
  have "sorted_wrt (\<lambda>j k. pos (ParseSequenceNumber (hd media)) (ParseSequenceNumber (media ! j))
      < pos (ParseSequenceNumber (hd media)) (ParseSequenceNumber (media ! k))) (filter (mask_bit w msk i) [0..<length media])"
    unfolding sorted_wrt_iff_nth_less
  proof (intro allI impI)
    fix j k
    let ?is = "filter (mask_bit w msk i) [0..<length media]"
    assume jk: "j < k" "k < length ?is"
    have "sorted_wrt (<) ?is" by (intro sorted_wrt_filter) simp
    then have "?is ! j < ?is ! k" using sorted_wrt_nth_less[OF _ jk] by blast
    moreover have "?is ! k < length media" using nth_mem[OF jk(2)] by simp
    ultimately show "pos (ParseSequenceNumber (hd media)) (ParseSequenceNumber (media ! (?is ! j)))
      < pos (ParseSequenceNumber (hd media)) (ParseSequenceNumber (media ! (?is ! k)))"
      using sorted_wrt_nth_less[OF so] by (simp add: pos_def column_def)
  qed
  then show ?thesis by (simp add: protected_by_def sorted_wrt_map)
qed

lemma batch_session:
  fixes num :: "nat \<Rightarrow> u16"
  assumes media: "batch media" and n: "n \<le> kMaxFecPackets" "covers (length media) n w msk"
    and mp: "\<And>p. p \<in> set media \<Longrightarrow> media_packet ssrc (ParseSequenceNumber p) p"
    and num: "num ` {..<n} \<subseteq> stretch (ParseSequenceNumber (hd media))" "inj_on num {..<n}"
    and orig: "\<And>p. p \<in> set media \<Longrightarrow> orig (ParseSequenceNumber p) = p"
    and grp: "\<And>i. i < n \<Longrightarrow> grp (num i) = protected_by w msk i media"
  shows "session (ParseSequenceNumber (hd media)) (ParseSequenceNumber ` set media) (num ` {..<n}) orig grp ssrc"
  unfolding session_def
proof (intro conjI ballI)
  let ?b = "ParseSequenceNumber (hd media)"
  show "ParseSequenceNumber ` set media \<subseteq> stretch ?b"
    using batch_columns(2,4)[OF media refl] by (fastforce simp: stretch_def pos_def column_def)
  have "card (ParseSequenceNumber ` set media) \<le> length media" using card_image_le[of "set media" ParseSequenceNumber] card_length[of media] by simp
  also have "\<dots> \<le> 48" using batch_columns(3,4)[OF media refl] by simp
  finally show "card (ParseSequenceNumber ` set media) < kMaxTrackedMediaPackets" by (simp add: kMaxTrackedMediaPackets_def kMaxMediaPackets_def)
  show "card (num ` {..<n}) \<le> kMaxFecPackets" using card_image[OF num(2)] n(1) by simp
  fix s assume "s \<in> num ` {..<n}"
  then obtain i where i: "i < n" "s = num i" by auto
  show "grp s \<noteq> []" using i grp protected_by_nonempty[OF n(2) i(1)] by simp
  show "ordered ?b ParseSequenceNumber (grp s)" using ordered_protected_by[OF media] grp i by simp
  fix q assume "q \<in> set (grp s)"
  then have "q \<in> set media" using grp i protected_by_set by auto
  then show "ParseSequenceNumber q \<in> ParseSequenceNumber ` set media" "orig (ParseSequenceNumber q) = q" "media_packet ssrc (ParseSequenceNumber q) q"
    using orig mp by auto
qed (use num in simp_all)

lemma batch_decode:
  fixes num :: "nat \<Rightarrow> u16"
  assumes media: "batch media" and n: "n \<le> kMaxFecPackets" "covers (length media) n w msk"
    and mp: "\<And>p. p \<in> set media \<Longrightarrow> media_packet ssrc (ParseSequenceNumber p) p"
    and num: "num ` {..<n} \<subseteq> stretch (ParseSequenceNumber (hd media))" "inj_on num {..<n}"
    and laws: "seq_laws newer min_diff" "grow_law grow"
    and fecs: "\<And>i. i < n \<Longrightarrow> describes (protected_by w msk i media) (pkt_data (fecs ! i))"
    and ps: "\<And>p. p \<in> set ps \<Longrightarrow> sent ssrc num media n fecs p"
  obtains dec rs where "decode_all grow newer min_diff fresh r0 ps (\<lparr>protected_media_ssrc = ssrc, received_fec_packets = []\<rparr>, []) = Some (dec, rs)"
    "pkt_data ` rp_pkt ` set rs \<subseteq> set media" "\<And>p. p \<in> set ps \<Longrightarrow> \<not> is_fec p \<Longrightarrow> rcv_pkt p \<in> pkt_data ` rp_pkt ` set rs"
    "\<And>p i lost. p \<in> set ps \<Longrightarrow> is_fec p \<Longrightarrow> i < n \<Longrightarrow> rcv_seq_num p = num i \<Longrightarrow>
       set (protected_by w msk i media) - {lost} \<subseteq> pkt_data ` rp_pkt ` set rs \<Longrightarrow>
       set (protected_by w msk i media) \<subseteq> pkt_data ` rp_pkt ` set rs"
proof -
  let ?b = "ParseSequenceNumber (hd media)" and ?U = "ParseSequenceNumber ` set media"
  define orig where "orig = the_inv_into (set media) ParseSequenceNumber"
  define grp where "grp s = protected_by w msk (the_inv_into {..<n} num s) media" for s
  have inj: "inj_on ParseSequenceNumber (set media)" using batch_distinct[OF media] by (simp add: distinct_map)
  have orig: "orig (ParseSequenceNumber p) = p" if "p \<in> set media" for p using the_inv_into_f_f[OF inj that] by (simp add: orig_def)
  have grp: "grp (num i) = protected_by w msk i media" if "i < n" for i using the_inv_into_f_f[OF num(2)] that by (simp add: grp_def)
  have ses: "session ?b ?U (num ` {..<n}) orig grp ssrc" by (rule batch_session[OF media n mp num orig grp])
  have of: "of_session ?U (num ` {..<n}) orig grp ssrc p" if p: "p \<in> set ps" for p
    using ps[OF p] fecs grp orig by (auto simp: sent_def of_session_def)
  obtain dec rs where d: "decode_all grow newer min_diff fresh r0 ps (\<lparr>protected_media_ssrc = ssrc, received_fec_packets = []\<rparr>, []) = Some (dec, rs)"
    and gen: "\<forall>r \<in> set rs. rp_seq_num r \<in> ?U \<and> pkt_data (rp_pkt r) = orig (rp_seq_num r)"
    and got: "\<forall>p \<in> set ps. \<not> is_fec p \<longrightarrow> rcv_seq_num p \<in> rp_seq_num ` set rs"
    and sat: "\<forall>p \<in> set ps. \<forall>lost. is_fec p \<and> (\<forall>q \<in> set (grp (rcv_seq_num p)). q \<noteq> lost \<longrightarrow> ParseSequenceNumber q \<in> rp_seq_num ` set rs) \<longrightarrow>
     ParseSequenceNumber ` set (grp (rcv_seq_num p)) \<subseteq> rp_seq_num ` set rs"
    using decode_all_session[OF laws ses of, of ps fresh r0] by blast
  let ?D = "pkt_data ` rp_pkt ` set rs" and ?S = "rp_seq_num ` set rs"
  have D: "?D = orig ` ?S" using gen by (simp add: image_image cong: image_cong)
  have mem: "q \<in> ?D \<longleftrightarrow> ParseSequenceNumber q \<in> ?S" if q: "q \<in> set media" for q
  proof -
    have "s = ParseSequenceNumber q \<longleftrightarrow> orig s = q" if s: "s \<in> ?S" for s
    proof -
      obtain q' where "q' \<in> set media" "s = ParseSequenceNumber q'" using gen s by auto
      then show ?thesis using orig[of q'] inj_onD[OF inj, of q' q] q by auto
    qed
    then show ?thesis unfolding D image_iff[of q] by (metis (no_types, lifting))
  qed
  show thesis
  proof (rule that[OF d])
    show "?D \<subseteq> set media" unfolding D using gen orig by auto
    show "rcv_pkt p \<in> ?D" if "p \<in> set ps" "\<not> is_fec p" for p
      using got[rule_format, OF that] ps[OF that(1)] that(2) mem by (simp add: sent_def)
  next
    fix p i lost
    assume p: "p \<in> set ps" "is_fec p" "i < n" "rcv_seq_num p = num i" and sub: "set (protected_by w msk i media) - {lost} \<subseteq> ?D"
    have "ParseSequenceNumber q \<in> ?S" if q: "q \<in> set (protected_by w msk i media)" "q \<noteq> lost" for q
      using subsetD[OF sub, of q] q mem[OF protected_by_set[OF q(1)]] by simp
    then have all: "ParseSequenceNumber ` set (protected_by w msk i media) \<subseteq> ?S"
      using sat[rule_format, of p lost] grp p by simp
    show "set (protected_by w msk i media) \<subseteq> ?D"
    proof
      fix q assume "q \<in> set (protected_by w msk i media)"
      then show "q \<in> ?D" using subsetD[OF all imageI] mem[OF protected_by_set] by simp
    qed
  qed
qed

text \<open>
  C2: a batch of media packets is encoded and any of its media and FEC packets arrive, in any order and with repetitions. The decoder, started empty,
  takes them all; what it holds afterwards are media packets of the batch, byte for byte, with all the received ones among them; and
  nothing recoverable is left: if a FEC packet arrived and all the packets it protects but one are there, then all of them are.
\<close>

theorem fec_end_to_end:
  fixes num :: "nat \<Rightarrow> u16"
  assumes "batch media" "media_sizes media" "encoder_ok st" "grow_law grow" "seq_laws newer min_diff" "0 < pf" "pf < 256" "imp \<le> length media"
    and "\<And>p. p \<in> set media \<Longrightarrow> p ! 0 AND 0xc0 = 0x80 \<and> ParseSsrc p = ssrc"
    and "n = NumFecPackets (length media) pf" "num ` {..<n} \<subseteq> stretch (ParseSequenceNumber (hd media))" "inj_on num {..<n}"
  shows "\<exists>st' msk. EncodeFec grow UlpfecHeaderWriter media pf imp uep ty st = Some (True, n, st') \<and>
    covers (length media) n (PacketMaskSize (length media)) msk \<and>
    (\<forall>ps fresh r0. (\<forall>p \<in> set ps. sent ssrc num media n (generated_fec_packets st') p) \<longrightarrow>
      (\<exists>dec rs. decode_all grow newer min_diff fresh r0 ps (\<lparr>protected_media_ssrc = ssrc, received_fec_packets = []\<rparr>, []) = Some (dec, rs) \<and>
        pkt_data ` rp_pkt ` set rs \<subseteq> set media \<and>
        (\<forall>p \<in> set ps. \<not> is_fec p \<longrightarrow> rcv_pkt p \<in> pkt_data ` rp_pkt ` set rs) \<and>
        (\<forall>p \<in> set ps. \<forall>i < n. \<forall>lost. is_fec p \<and> rcv_seq_num p = num i \<and>
           set (protected_by (PacketMaskSize (length media)) msk i media) - {lost} \<subseteq> pkt_data ` rp_pkt ` set rs \<longrightarrow>
           set (protected_by (PacketMaskSize (length media)) msk i media) \<subseteq> pkt_data ` rp_pkt ` set rs)))"
proof -
  have m: "length media \<le> kMaxMediaPackets" "0 < length media"
    using batch_columns(3,4)[OF assms(1) refl] assms(1) by (auto simp: kMaxMediaPackets_def batch_def)
  let ?w = "PacketMaskSize (length media)"
  obtain st' msk where e: "EncodeFec grow UlpfecHeaderWriter media pf imp uep ty st = Some (True, n, st')" "covers (length media) n ?w msk"
    "\<And>i. i < n \<Longrightarrow> describes (protected_by ?w msk i media) (pkt_data (generated_fec_packets st' ! i))"
    using EncodeFec_describes[OF assms(1,2) m(1) assms(3,4,6-8), of uep ty] assms(10) by blast
  have n: "n \<le> kMaxFecPackets" using NumFecPackets_bounds[OF assms(6,7) m(2)] m(1) assms(10) by (simp add: kMaxFecPackets_def)
  have mp: "media_packet ssrc (ParseSequenceNumber p) p" if "p \<in> set media" for p
    using assms(9)[OF that] media_sizes_fits[OF assms(2) that, of 2] by (simp add: media_packet_def fits_mtu_def IP_PACKET_SIZE_def kRtpHeaderSize_def)
  show ?thesis
  proof (intro exI[of _ st'] exI[of _ msk] conjI allI impI, rule e(1), rule e(2))
    fix ps fresh r0
    assume ps: "\<forall>p \<in> set ps. sent ssrc num media n (generated_fec_packets st') p"
    obtain dec rs where d: "decode_all grow newer min_diff fresh r0 ps (\<lparr>protected_media_ssrc = ssrc, received_fec_packets = []\<rparr>, []) = Some (dec, rs)"
      "pkt_data ` rp_pkt ` set rs \<subseteq> set media" "\<And>p. p \<in> set ps \<Longrightarrow> \<not> is_fec p \<Longrightarrow> rcv_pkt p \<in> pkt_data ` rp_pkt ` set rs"
      "\<And>p i lost. p \<in> set ps \<Longrightarrow> is_fec p \<Longrightarrow> i < n \<Longrightarrow> rcv_seq_num p = num i \<Longrightarrow>
       set (protected_by ?w msk i media) - {lost} \<subseteq> pkt_data ` rp_pkt ` set rs \<Longrightarrow>
       set (protected_by ?w msk i media) \<subseteq> pkt_data ` rp_pkt ` set rs"
      using batch_decode[OF assms(1) n e(2) mp assms(11,12,5,4) e(3) ps[rule_format], of _ fresh r0] by blast
    show "\<exists>dec rs. decode_all grow newer min_diff fresh r0 ps (\<lparr>protected_media_ssrc = ssrc, received_fec_packets = []\<rparr>, []) = Some (dec, rs) \<and>
        pkt_data ` rp_pkt ` set rs \<subseteq> set media \<and>
        (\<forall>p \<in> set ps. \<not> is_fec p \<longrightarrow> rcv_pkt p \<in> pkt_data ` rp_pkt ` set rs) \<and>
        (\<forall>p \<in> set ps. \<forall>i < n. \<forall>lost. is_fec p \<and> rcv_seq_num p = num i \<and>
           set (protected_by ?w msk i media) - {lost} \<subseteq> pkt_data ` rp_pkt ` set rs \<longrightarrow>
           set (protected_by ?w msk i media) \<subseteq> pkt_data ` rp_pkt ` set rs)"
      by (intro exI conjI ballI allI impI, rule d(1), rule d(2), rule d(3), assumption+, elim conjE, rule d(4))
  qed
qed

definition witness_newer :: newer_fn where
  "witness_newer a b \<longleftrightarrow> a \<noteq> b \<and> (unat (a - b) < 0x8000 \<or> unat (a - b) = 0x8000 \<and> b < a)"

definition witness_min_diff :: "u16 \<Rightarrow> u16 \<Rightarrow> u16" where
  "witness_min_diff a b = min (a - b) (b - a)"

lemma witness_seq_laws: "seq_laws witness_newer witness_min_diff"
proof -
  have flip: "unat (b - a) = 0x10000 - unat (a - b)" if "a \<noteq> b" for a b :: u16
  proof -
    have "unat x < 0x10000" for x :: u16 using unsigned_less[of x] by simp
    from this[of a] this[of b] have "unat a < 0x10000" "unat b < 0x10000" .
    then show ?thesis using that by (auto simp: unat_sub_if' word_unat_eq_iff)
  qed
  have "witness_newer a b \<or> witness_newer b a" if "a \<noteq> b" for a b
    using that flip[OF that] by (cases "unat (a - b)" "0x8000 :: nat" rule: linorder_cases) (auto simp: witness_newer_def)
  then have "newer_law witness_newer" by (simp add: newer_law_def)
  moreover have "\<not> witness_newer b a" if "0 < unat (a - b)" "unat (a - b) < 0x8000" for a b
    using that flip[of a b] by (cases "a = b") (auto simp: witness_newer_def)
  ultimately show ?thesis by (auto simp: seq_laws_def witness_newer_def witness_min_diff_def)
qed

theorem fec_end_to_end_witness:
  "\<exists>st' msk. EncodeFec witness_grow UlpfecHeaderWriter witness_media 128 1 True kFecMaskBursty witness_encoder = Some (True, 1, st') \<and>
    covers (length witness_media) 1 (PacketMaskSize (length witness_media)) msk \<and>
    (\<forall>ps fresh r0. (\<forall>p \<in> set ps. sent 5 (\<lambda>_. 4) witness_media 1 (generated_fec_packets st') p) \<longrightarrow>
      (\<exists>dec rs. decode_all witness_grow witness_newer witness_min_diff fresh r0 ps
          (\<lparr>protected_media_ssrc = 5, received_fec_packets = []\<rparr>, []) = Some (dec, rs) \<and>
        pkt_data ` rp_pkt ` set rs \<subseteq> set witness_media \<and>
        (\<forall>p \<in> set ps. \<not> is_fec p \<longrightarrow> rcv_pkt p \<in> pkt_data ` rp_pkt ` set rs) \<and>
        (\<forall>p \<in> set ps. \<forall>i < 1. \<forall>lost. is_fec p \<and> rcv_seq_num p = 4 \<and>
           set (protected_by (PacketMaskSize (length witness_media)) msk i witness_media) - {lost} \<subseteq> pkt_data ` rp_pkt ` set rs \<longrightarrow>
           set (protected_by (PacketMaskSize (length witness_media)) msk i witness_media) \<subseteq> pkt_data ` rp_pkt ` set rs)))"
proof (rule fec_end_to_end)
  show "batch witness_media" by code_simp
  show "media_sizes witness_media" by code_simp
  show "encoder_ok witness_encoder" by (simp add: encoder_ok_def witness_encoder_def)
  show "grow_law witness_grow" by (simp add: grow_law_def witness_grow_def)
  show "seq_laws witness_newer witness_min_diff" by (rule witness_seq_laws)
  show "1 \<le> length witness_media" by (simp add: witness_media_def)
  show "p ! 0 AND 0xc0 = 0x80 \<and> ParseSsrc p = 5" if "p \<in> set witness_media" for p
    using that by (auto simp: witness_media_def ParseSsrc_def)
  show "1 = NumFecPackets (length witness_media) 128" by (simp add: NumFecPackets_def witness_media_def)
  show "(\<lambda>_. 4) ` {..<1::nat} \<subseteq> stretch (ParseSequenceNumber (hd witness_media))"
    by (auto simp: stretch_def pos_def witness_media_def ParseSequenceNumber_def)
  show "inj_on (\<lambda>_. 4 :: u16) {..<1::nat}" by (simp add: inj_on_def)
qed simp_all

end
