(* ===== verification/Librtc_Stun.thy ===== *)
theory Librtc_Stun
  imports Byte_Io
begin

text \<open>
  \<open>librtc/stun.cpp\<close>, the STUN messages of the ICE connectivity checks, and the classification of datagrams of
  \<open>librtc/rtc_server.cpp\<close>. The HMAC of OpenSSL and \<open>rtc::ComputeCrc32\<close> are not under \<open>src/\<close>: they are the arguments
  \<open>hmac\<close> (key and data) and \<open>crc32\<close>. Strings are lists of bytes. The memory of the response buffer is the argument \<open>mem\<close>.
  \<open>None\<close> is an access outside of the received bytes or of the response buffer.
\<close>

subsection \<open>Messages\<close>

definition kStunMagicCookie :: u32 where "kStunMagicCookie = 0x2112A442"

definition kStunMsgUnknow :: u16 where "kStunMsgUnknow = 0x0000"
definition kStunMsgBindingRequest :: u16 where "kStunMsgBindingRequest = 0x0001"
definition kStunMsgBindingResponse :: u16 where "kStunMsgBindingResponse = 0x0101"

definition kStunAttrUsername :: u16 where "kStunAttrUsername = 0x0006"
definition kStunAttrPassword :: u16 where "kStunAttrPassword = 0x0007"
definition kStunAttrMessageIntegrity :: u16 where "kStunAttrMessageIntegrity = 0x0008"
definition kStunAttrXorMappedAddress :: u16 where "kStunAttrXorMappedAddress = 0x0020"
definition kStunAttrFingerprint :: u16 where "kStunAttrFingerprint = 0x8028"

lemmas stun_consts = kStunMagicCookie_def kStunAttrUsername_def kStunAttrPassword_def kStunAttrMessageIntegrity_def
  kStunAttrXorMappedAddress_def kStunAttrFingerprint_def

record Stun =
  stun_type :: u16
  stun_length :: nat
  transcation_id :: "byte list"
  user_name :: "byte list"
  password :: "byte list"
  mapped_addr :: u32
  mapped_port :: u16

definition Stun_init :: Stun where
  "Stun_init = \<lparr>stun_type = kStunMsgUnknow, stun_length = 0, transcation_id = [], user_name = [], password = [],
     mapped_addr = 0, mapped_port = 0\<rparr>"

definition SetPassword :: "byte list \<Rightarrow> Stun \<Rightarrow> Stun" where "SetPassword pwd s = s\<lparr>password := pwd\<rparr>"
definition SetMappedAddr :: "u32 \<Rightarrow> Stun \<Rightarrow> Stun" where "SetMappedAddr addr s = s\<lparr>mapped_addr := addr\<rparr>"
definition SetMappedPort :: "u16 \<Rightarrow> Stun \<Rightarrow> Stun" where "SetMappedPort port s = s\<lparr>mapped_port := port\<rparr>"
definition SetMessageType :: "u16 \<Rightarrow> Stun \<Rightarrow> Stun" where "SetMessageType ty s = s\<lparr>stun_type := ty\<rparr>"

text \<open>The part of the user name in front of the first colon (byte 58); empty when there is none.\<close>

definition LocalUFrag :: "Stun \<Rightarrow> byte list" where
  "LocalUFrag s = (if 58 \<in> set (user_name s) then takeWhile (\<lambda>c. c \<noteq> 58) (user_name s) else [])"

subsection \<open>Decoding\<close>

definition attr_padding :: "nat \<Rightarrow> nat" where
  "attr_padding n = (4 - n mod 4) mod 4"

definition decode_attr :: "u16 \<Rightarrow> byte list \<Rightarrow> nat \<Rightarrow> nat \<Rightarrow> Stun \<Rightarrow> Stun option" where
  "decode_attr attr_type bs off attr_len s =
     (if attr_type = kStunAttrUsername then map_option (\<lambda>v. s\<lparr>user_name := v\<rparr>) (slice bs off attr_len)
      else if attr_type = kStunAttrPassword then map_option (\<lambda>v. s\<lparr>password := v\<rparr>) (slice bs off attr_len)
      else Some s)"

text \<open>The loop over the attributes; \<open>off\<close> is the read position and \<open>size\<close> what is left.\<close>

function decode_attrs :: "byte list \<Rightarrow> nat \<Rightarrow> nat \<Rightarrow> Stun \<Rightarrow> (bool \<times> Stun) option" where
  "decode_attrs bs off sz s =
     (if sz < 4 then Some (True, s)
      else
        case (get_be16 bs off, get_be16 bs (off + 2)) of
          (Some attr_type, Some len) \<Rightarrow>
            (let attr_len = unat len; padding_len = attr_padding attr_len
             in if sz - 4 < padding_len + attr_len then Some (False, s)
                else
                  case decode_attr attr_type bs (off + 4) attr_len s of
                    None \<Rightarrow> None
                  | Some s \<Rightarrow> decode_attrs bs (off + 4 + (attr_len + padding_len)) (sz - 4 - (attr_len + padding_len)) s)
        | _ \<Rightarrow> None)"
  by pat_completeness auto
termination
  by (relation "measure (\<lambda>(_, _, sz, _). sz)") auto

declare decode_attrs.simps [simp del]

text \<open>\<open>size -= 20\<close> on a \<open>uint32_t\<close> wraps for a message shorter than its header.\<close>

definition Stun_Decode :: "byte list \<Rightarrow> nat \<Rightarrow> Stun \<Rightarrow> (bool \<times> Stun) option" where
  "Stun_Decode bs sz s = do {
     ty \<leftarrow> get_be16 bs 0;
     len \<leftarrow> get_be16 bs 2;
     let s = s\<lparr>stun_type := ty, stun_length := unat len\<rparr>;
     magic \<leftarrow> get_be32 bs 4;
     if magic \<noteq> kStunMagicCookie then Some (False, s)
     else do {
       tid \<leftarrow> slice bs 8 12;
       decode_attrs bs 20 (nat ((int sz - 20) mod 2 ^ 32)) (s\<lparr>transcation_id := tid\<rparr>) } }"

subsection \<open>Encoding\<close>

definition encode_username :: "Stun \<Rightarrow> byte list \<Rightarrow> nat \<Rightarrow> (byte list \<times> nat) option" where
  "encode_username s m n = do {
     let padding_bytes = attr_padding (length (user_name s));
     m \<leftarrow> store_at n (put_be16 kStunAttrUsername) m;
     m \<leftarrow> store_at (n + 2) (put_be16 (of_nat (length (user_name s)))) m;
     m \<leftarrow> store_at (n + 4) (user_name s) m;
     let n = n + 4 + length (user_name s);
     if padding_bytes \<noteq> 0 then do {
       m \<leftarrow> store_at n (replicate padding_bytes 0) m;
       Some (m, n + padding_bytes) }
     else Some (m, n) }"

definition encode_address :: "Stun \<Rightarrow> byte list \<Rightarrow> nat \<Rightarrow> (byte list \<times> nat) option" where
  "encode_address s m n = do {
     m \<leftarrow> store_at n (put_be16 kStunAttrXorMappedAddress) m;
     m \<leftarrow> store_at (n + 2) (put_be16 8) m;
     m \<leftarrow> store_at (n + 4) [0] m;
     m \<leftarrow> store_at (n + 5) [1] m;
     m \<leftarrow> store_at (n + 6) (put_be16 (mapped_port s XOR ucast (drop_bit 16 kStunMagicCookie))) m;
     m \<leftarrow> store_at (n + 8) (put_be32 (mapped_addr s XOR kStunMagicCookie)) m;
     Some (m, n + 12) }"

text \<open>The integrity attribute covers the message with the length field counting up to itself; the fingerprint all in front of it.\<close>

definition encode_integrity :: "(byte list \<Rightarrow> byte list \<Rightarrow> byte list) \<Rightarrow> Stun \<Rightarrow> byte list \<Rightarrow> nat \<Rightarrow> (byte list \<times> nat) option" where
  "encode_integrity hmac s m n = do {
     let data_bytes = size_sub n 20;
     m \<leftarrow> store_at 2 (put_be16 (of_nat (data_bytes + 24))) m;
     m \<leftarrow> store_at n (put_be16 kStunAttrMessageIntegrity) m;
     m \<leftarrow> store_at (n + 2) (put_be16 20) m;
     covered \<leftarrow> slice m 0 (data_bytes + 20);
     m \<leftarrow> store_at (n + 4) (hmac (password s) covered) m;
     m \<leftarrow> store_at 2 (put_be16 (of_nat (data_bytes + 24 + 8))) m;
     Some (m, n + 4 + 20) }"

definition encode_fingerprint :: "(byte list \<Rightarrow> u32) \<Rightarrow> byte list \<Rightarrow> nat \<Rightarrow> byte list option" where
  "encode_fingerprint crc32 m n = do {
     m \<leftarrow> store_at n (put_be16 kStunAttrFingerprint) m;
     m \<leftarrow> store_at (n + 2) (put_be16 4) m;
     covered \<leftarrow> slice m 0 n;
     m \<leftarrow> store_at (n + 4) (put_be32 (crc32 covered XOR 0x5354554e)) m;
     Some (take (n + 8) m) }"

definition Stun_Encode :: "(byte list \<Rightarrow> byte list \<Rightarrow> byte list) \<Rightarrow> (byte list \<Rightarrow> u32) \<Rightarrow> byte list \<Rightarrow> Stun \<Rightarrow> byte list option" where
  "Stun_Encode hmac crc32 mem s = do {
     m \<leftarrow> store_at 0 (put_be16 (stun_type s)) mem;
     m \<leftarrow> store_at 2 (put_be16 0) m;
     m \<leftarrow> store_at 4 (put_be32 kStunMagicCookie) m;
     m \<leftarrow> store_at 8 (transcation_id s) m;
     (m, n) \<leftarrow> encode_username s m (8 + length (transcation_id s));
     (m, n) \<leftarrow> encode_address s m n;
     (m, n) \<leftarrow> encode_integrity hmac s m n;
     encode_fingerprint crc32 m n }"

subsection \<open>Classifying datagrams\<close>

datatype DatagramKind = SignalStun | SignalDtls | SignalRtp | SignalRtcp | SignalNone

text \<open>The conditions are evaluated from left to right; a read happens only when the ones before it hold.\<close>

definition IsStun :: "byte list \<Rightarrow> nat \<Rightarrow> bool option" where
  "IsStun data len =
     (if \<not> len \<ge> 20 then Some False
      else do {
        b0 \<leftarrow> get_u8 data 0;
        if \<not> b0 < 3 then Some False
        else do {
          c \<leftarrow> slice data 4 4;
          Some (c = [0x21, 0x12, 0xA4, 0x42]) } })"

definition IsDtls :: "byte list \<Rightarrow> nat \<Rightarrow> bool option" where
  "IsDtls data len =
     (if \<not> len \<ge> 13 then Some False
      else map_option (\<lambda>b0. 19 < b0 \<and> b0 < 64) (get_u8 data 0))"

definition IsRtp :: "byte list \<Rightarrow> nat \<Rightarrow> bool option" where
  "IsRtp data len = do {
     pt \<leftarrow> get_u8 data 1;
     if \<not> len \<ge> 12 then Some False
     else map_option (\<lambda>b0. 127 < b0 \<and> b0 < 192 \<and> b0 AND 0x80 \<noteq> 0) (get_u8 data 0) }"

definition IsRtcp :: "byte list \<Rightarrow> nat \<Rightarrow> bool option" where
  "IsRtcp data len = do {
     pt \<leftarrow> get_u8 data 1;
     if \<not> len \<ge> 12 then Some False
     else map_option (\<lambda>b0. 127 < b0 \<and> b0 < 192 \<and> b0 AND 0x80 \<noteq> 0 \<and> 192 \<le> pt \<and> pt \<le> 223) (get_u8 data 0) }"

definition OnRecvPacket :: "byte list \<Rightarrow> nat \<Rightarrow> DatagramKind option" where
  "OnRecvPacket data len = do {
     stun \<leftarrow> IsStun data len;
     if stun then Some SignalStun
     else do {
       dtls \<leftarrow> IsDtls data len;
       if dtls then Some SignalDtls
       else do {
         rtp \<leftarrow> IsRtp data len;
         if rtp then Some SignalRtp
         else do {
           rtcp \<leftarrow> IsRtcp data len;
           Some (if rtcp then SignalRtcp else SignalNone) } } } }"

subsection \<open>The encoder writes the wire format\<close>

text \<open>The wire format: attributes padded to whole words, and the message as a sequence of them.\<close>

definition stun_attr :: "u16 \<Rightarrow> byte list \<Rightarrow> byte list" where
  "stun_attr ty v = put_be16 ty @ put_be16 (of_nat (length v)) @ v @ replicate (attr_padding (length v)) 0"

definition stun_head :: "Stun \<Rightarrow> nat \<Rightarrow> byte list" where
  "stun_head s n = put_be16 (stun_type s) @ put_be16 (of_nat n) @ put_be32 kStunMagicCookie @ transcation_id s"

definition stun_body :: "Stun \<Rightarrow> byte list" where
  "stun_body s = stun_attr kStunAttrUsername (user_name s) @
     stun_attr kStunAttrXorMappedAddress ([0, 1] @ put_be16 (mapped_port s XOR 0x2112) @ put_be32 (mapped_addr s XOR kStunMagicCookie))"

definition stun_message :: "(byte list \<Rightarrow> byte list \<Rightarrow> byte list) \<Rightarrow> (byte list \<Rightarrow> u32) \<Rightarrow> Stun \<Rightarrow> byte list" where
  "stun_message hmac crc32 s =
     (let body = stun_body s; n = length body;
          signed = stun_head s (n + 32) @ body @ stun_attr kStunAttrMessageIntegrity (hmac (password s) (stun_head s (n + 24) @ body))
      in signed @ stun_attr kStunAttrFingerprint (put_be32 (crc32 signed XOR 0x5354554e)))"

text \<open>Documented behaviour of HMAC with SHA-1: the digest has 20 bytes.\<close>

definition hmac_law :: "(byte list \<Rightarrow> byte list \<Rightarrow> byte list) \<Rightarrow> bool" where
  "hmac_law hmac \<longleftrightarrow> (\<forall>k d. length (hmac k d) = 20)"

lemma length_stun_attr [simp]: "length (stun_attr ty v) = 4 + length v + attr_padding (length v)"
  by (simp add: stun_attr_def)

lemma attr_padding_words: "4 dvd n + attr_padding n" "attr_padding n < 4"
proof -
  have "n mod 4 < 4" by simp
  then consider "n mod 4 = 0" | "n mod 4 = 1" | "n mod 4 = 2" | "n mod 4 = 3" by linarith
  then show "4 dvd n + attr_padding n"
    by cases (simp_all add: attr_padding_def dvd_eq_mod_eq_0 mod_add_left_eq [of n, symmetric], presburger+)
qed (simp add: attr_padding_def)

lemma attr_padding_simps [simp]: "attr_padding 8 = 0" "attr_padding 20 = 0" "attr_padding 4 = 0"
  by (simp_all add: attr_padding_def)

lemma encode_username_ok:
  assumes "length (stun_attr kStunAttrUsername (user_name s)) \<le> length rest" "length pre = n"
  shows "encode_username s (pre @ rest) n =
    Some ((pre @ stun_attr kStunAttrUsername (user_name s)) @ drop (length (stun_attr kStunAttrUsername (user_name s))) rest,
      n + length (stun_attr kStunAttrUsername (user_name s)))"
  using assms
  by (auto simp: encode_username_def Let_def store_at_next stun_attr_def add.commute simp del: append_assoc)
    (simp_all add: eval_nat_numeral add.commute)

lemma encode_address_ok:
  assumes "12 \<le> length rest" "length pre = n"
  shows "encode_address s (pre @ rest) n =
    Some ((pre @ stun_attr kStunAttrXorMappedAddress ([0, 1] @ put_be16 (mapped_port s XOR 0x2112) @ put_be32 (mapped_addr s XOR kStunMagicCookie)))
      @ drop 12 rest, n + 12)"
proof -
  have "ucast (drop_bit 16 kStunMagicCookie) = (0x2112 :: u16)" by (simp add: kStunMagicCookie_def)
  then show ?thesis
    using assms by (auto simp: encode_address_def store_at_next stun_attr_def add.commute simp del: append_assoc)
qed

lemma length_stun_body [simp]: "length (stun_body s) = 16 + length (user_name s) + attr_padding (length (user_name s))"
  by (simp add: stun_body_def)

lemma length_stun_head [simp]: "length (stun_head s n) = 8 + length (transcation_id s)"
  by (simp add: stun_head_def)

text \<open>The length field of a finished head can be overwritten.\<close>

lemma stun_head_patch:
  "store_at 2 (put_be16 (of_nat k)) (stun_head s n @ rest) = Some (stun_head s k @ rest)"
  by (simp add: stun_head_def store_at_def put_at_def)

lemma encode_integrity_ok:
  assumes "length (transcation_id s) = 12" "n = 20 + length b" "24 \<le> length rest" "n < 2 ^ 64"
    and mac: "mac = hmac (password s) (stun_head s (length b + 24) @ b)" "length mac = 20"
  shows "encode_integrity hmac s (stun_head s k @ b @ rest) n =
    Some (stun_head s (length b + 32) @ b @ stun_attr kStunAttrMessageIntegrity mac @ drop 24 rest, n + 24)"
proof -
  have D: "size_sub n 20 = length b" using assms(2,4) by (simp add: size_sub_le)
  have behind: "store_at (n + length mid) bs (stun_head s k @ b @ mid @ rest) = Some (stun_head s k @ b @ mid @ bs @ drop (length bs) rest)"
    if "length bs \<le> length rest" for k mid bs rest
    using store_at_next[of "stun_head s k @ b @ mid" "n + length mid" bs rest] that assms(1,2) by simp
  have s1: "store_at n (put_be16 ty) (stun_head s k @ b @ rest) = Some (stun_head s k @ b @ put_be16 ty @ drop 2 rest)" for k ty
    using behind[of "put_be16 ty" rest "[]" k] assms(3) by simp
  have s2: "store_at (n + 2) (put_be16 20) (stun_head s k @ b @ put_be16 ty @ drop 2 rest) =
      Some (stun_head s k @ b @ put_be16 ty @ put_be16 20 @ drop 4 rest)" for k ty
    using behind[of "put_be16 20" "drop 2 rest" "put_be16 ty" k] assms(3) by simp
  have s3: "store_at (n + 4) mac (stun_head s k @ b @ put_be16 ty @ put_be16 20 @ drop 4 rest) =
      Some (stun_head s k @ b @ put_be16 ty @ put_be16 20 @ mac @ drop 24 rest)" for k ty
    using behind[of mac "drop 4 rest" "put_be16 ty @ put_be16 20" k] assms(3) mac(2) by simp
  have c: "slice (stun_head s k @ b @ rest) 0 (length b + 20) = Some (stun_head s k @ b)" for k rest
    using assms(1) by (simp add: slice_def)
  have k: "length b + 24 + 8 = length b + 32" "n + 4 + 20 = n + 24" by simp_all
  show ?thesis
    unfolding encode_integrity_def
    by (simp only: Option.bind.bind_lunit Let_def D stun_head_patch s1 s2 c mac(1) [symmetric] s3 k)
      (simp add: stun_attr_def mac(2))
qed

lemma encode_fingerprint_ok:
  assumes "length pre = n" "8 \<le> length rest"
  shows "encode_fingerprint crc32 (pre @ rest) n =
    Some (pre @ stun_attr kStunAttrFingerprint (put_be32 (crc32 pre XOR 0x5354554e)))"
proof -
  have c: "slice (((pre @ x) @ y) @ z) 0 n = Some pre" for x y z using assms(1) by (simp add: slice_def)
  show ?thesis
    using assms by (simp add: encode_fingerprint_def store_at_next c stun_attr_def del: append_assoc)
qed

lemma Stun_Encode_ok:
  assumes "length mem = 512" "length (transcation_id s) = 12" "length (user_name s) \<le> 444" "hmac_law hmac"
  shows "Stun_Encode hmac crc32 mem s = Some (stun_message hmac crc32 s)"
proof -
  have u: "length (user_name s) + attr_padding (length (user_name s)) \<le> 444"
    using attr_padding_words[of "length (user_name s)"] assms(3) by (auto elim!: dvdE)
  have h: "length (hmac k d) = 20" for k d using assms(4) by (simp add: hmac_law_def)
  let ?mac = "hmac (password s) (stun_head s (length (stun_body s) + 24) @ stun_body s)" and ?R = "drop (20 + length (stun_body s)) mem"
  have "Stun_Encode hmac crc32 mem s = do { (m, n) \<leftarrow> encode_integrity hmac s (stun_head s 0 @ stun_body s @ ?R) (20 + length (stun_body s));
     encode_fingerprint crc32 m n }"
    unfolding Stun_Encode_def using u assms(1,2)
    by (simp add: store_at_first store_at_next encode_username_ok encode_address_ok stun_head_def stun_body_def add.commute del: append_assoc) simp
  also have "\<dots> = Some (stun_message hmac crc32 s)"
    using encode_integrity_ok[of s "20 + length (stun_body s)" "stun_body s" ?R ?mac hmac 0] u assms(1,2) h
      encode_fingerprint_ok[of "stun_head s (length (stun_body s) + 32) @ stun_body s @ stun_attr kStunAttrMessageIntegrity ?mac" _ "drop 24 ?R"]
    by (simp add: stun_message_def Let_def)
  finally show ?thesis .
qed

text \<open>The response does not fit its buffer when the user name is too long.\<close>

lemma encode_username_Some:
  "encode_username s m n = Some (m', n') \<Longrightarrow> length m' = length m \<and> n' = n + length (stun_attr kStunAttrUsername (user_name s))"
  by (auto simp: encode_username_def Let_def split: if_splits Option.bind_splits dest!: store_at_Some)

lemma encode_address_Some: "encode_address s m n = Some (m', n') \<Longrightarrow> length m' = length m \<and> n' = n + 12"
  by (auto simp: encode_address_def split: Option.bind_splits dest!: store_at_Some)

lemma encode_integrity_Some: "encode_integrity hmac s m n = Some (m', n') \<Longrightarrow> length m' = length m \<and> n' = n + 24"
  by (auto simp: encode_integrity_def Let_def split: Option.bind_splits dest!: store_at_Some)

lemma encode_fingerprint_Some: "encode_fingerprint crc32 m n = Some bs \<Longrightarrow> n + 8 \<le> length m"
  by (auto simp: encode_fingerprint_def split: Option.bind_splits dest!: store_at_Some)

lemma Stun_Encode_overrun:
  assumes "length mem = 512" "length (transcation_id s) = 12" "444 < length (user_name s)"
  shows "Stun_Encode hmac crc32 mem s = None"
proof (rule ccontr)
  assume "Stun_Encode hmac crc32 mem s \<noteq> None"
  then show False
    using assms by (auto simp: Stun_Encode_def split: Option.bind_splits
      dest!: store_at_Some encode_username_Some encode_address_Some encode_integrity_Some encode_fingerprint_Some)
qed

subsection \<open>Decoding what was encoded\<close>

lemma decode_attrs_continue:
  assumes "\<not> sz < 4" "get_be16 bs off = Some ty" "get_be16 bs (off + 2) = Some len" "\<not> sz - 4 < attr_padding (unat len) + unat len"
    "decode_attr ty bs (off + 4) (unat len) s = Some s'"
  shows "decode_attrs bs off sz s =
    decode_attrs bs (off + 4 + (unat len + attr_padding (unat len))) (sz - 4 - (unat len + attr_padding (unat len))) s'"
  using assms by (subst decode_attrs.simps) (simp only: if_False prod.case option.case Let_def)

lemma decode_attrs_step:
  assumes "length (stun_attr ty v) \<le> sz" "length v < 2 ^ 16"
  shows "decode_attrs (pre @ stun_attr ty v @ post) (length pre) sz s =
    decode_attrs (pre @ stun_attr ty v @ post) (length pre + length (stun_attr ty v)) (sz - length (stun_attr ty v))
      (if ty = kStunAttrUsername then s\<lparr>user_name := v\<rparr> else if ty = kStunAttrPassword then s\<lparr>password := v\<rparr> else s)"
proof -
  let ?bs = "pre @ stun_attr ty v @ post"
  have len: "unat (of_nat (length v) :: u16) = length v" using assms(2) by (simp add: unat_of_nat)
  have t: "get_be16 ?bs (length pre) = Some ty" "get_be16 ?bs (length pre + 2) = Some (of_nat (length v))"
    by (simp_all add: stun_attr_def wire_simps)
  have "slice ?bs (length pre + 4) (length v) = Some v" by (simp add: stun_attr_def wire_simps)
  then have d: "decode_attr ty ?bs (length pre + 4) (length v) s =
      Some (if ty = kStunAttrUsername then s\<lparr>user_name := v\<rparr> else if ty = kStunAttrPassword then s\<lparr>password := v\<rparr> else s)"
    by (auto simp: decode_attr_def)
  define s' where "s' = (if ty = kStunAttrUsername then s\<lparr>user_name := v\<rparr> else if ty = kStunAttrPassword then s\<lparr>password := v\<rparr> else s)"
  have "decode_attrs ?bs (length pre) sz s = decode_attrs ?bs (length pre + 4 + (length v + attr_padding (length v)))
      (sz - 4 - (length v + attr_padding (length v))) s'"
    using decode_attrs_continue[OF _ t, of sz s s'] assms(1) d unfolding len s'_def by simp
  then show ?thesis unfolding s'_def [symmetric] by (simp add: add.assoc)
qed

lemma decode_attrs_end: "decode_attrs bs off 0 s = Some (True, s)"
  by (subst decode_attrs.simps) simp

lemma decode_attrs_safe: "off + sz \<le> length bs \<Longrightarrow> \<exists>r. decode_attrs bs off sz s = Some r"
proof (induction bs off sz s rule: decode_attrs.induct)
  case (1 bs off sz s)
  show ?case
  proof (cases "sz < 4")
    case True
    then show ?thesis by (subst decode_attrs.simps) auto
  next
    case False
    then obtain ty len where g: "get_be16 bs off = Some ty" "get_be16 bs (off + 2) = Some len"
      using 1(2) by (simp add: fetch_Some)
    let ?n = "unat len" let ?p = "attr_padding ?n"
    show ?thesis
    proof (cases "sz - 4 < ?p + ?n")
      case True
      then show ?thesis using False g by (subst decode_attrs.simps) (simp only: if_False if_True prod.case option.case Let_def, auto)
    next
      case fits: False
      have "off + 4 + ?n \<le> length bs" using fits False 1(2) by simp
      then have "\<exists>s'. decode_attr ty bs (off + 4) ?n s = Some s'" by (simp add: decode_attr_def slice_def)
      then obtain s' where s': "decode_attr ty bs (off + 4) ?n s = Some s'" ..
      have "\<exists>r. decode_attrs bs (off + 4 + (?n + ?p)) (sz - 4 - (?n + ?p)) s' = Some r"
        using fits False 1(2) by (intro 1(1)[OF False refl g refl refl fits s']) simp
      then show ?thesis using decode_attrs_continue[OF False g fits s'] by simp
    qed
  qed
qed

lemma Stun_Decode_message:
  assumes "length (transcation_id s) = 12" "length (user_name s) \<le> 444" "hmac_law hmac" and bs: "bs = stun_message hmac crc32 s"
  shows "length bs = 68 + length (user_name s) + attr_padding (length (user_name s))"
    "Stun_Decode bs (length bs) s0 = Some (True, s0\<lparr>stun_type := stun_type s, stun_length := length bs - 20,
       transcation_id := transcation_id s, user_name := user_name s\<rparr>)"
proof -
  let ?n = "length (stun_body s)"
  define mac where "mac = hmac (password s) (stun_head s (?n + 24) @ stun_body s)"
  define fp where "fp = put_be32 (crc32 (stun_head s (?n + 32) @ stun_body s @ stun_attr kStunAttrMessageIntegrity mac) XOR 0x5354554e)"
  let ?addr = "[0, 1] @ put_be16 (mapped_port s XOR 0x2112) @ put_be32 (mapped_addr s XOR kStunMagicCookie)"
  let ?u = "stun_attr kStunAttrUsername (user_name s)" and ?a = "stun_attr kStunAttrXorMappedAddress ?addr"
    and ?m = "stun_attr kStunAttrMessageIntegrity mac" and ?f = "stun_attr kStunAttrFingerprint fp" and ?h = "stun_head s (?n + 32)"
  have msg: "bs = ?h @ ?u @ ?a @ ?m @ ?f" unfolding bs by (simp add: stun_message_def Let_def stun_body_def mac_def fp_def)
  have len: "length mac = 20" "length fp = 4" "length ?addr = 8" using assms(3) by (simp_all add: hmac_law_def mac_def fp_def)
  have p: "attr_padding (length (user_name s)) < 4" by (rule attr_padding_words)
  show sz: "length bs = 68 + length (user_name s) + attr_padding (length (user_name s))" using assms(1) len unfolding msg by simp
  let ?s = "s0\<lparr>stun_type := stun_type s, stun_length := length bs - 20, transcation_id := transcation_id s\<rparr>"
  have hd: "get_be16 bs 0 = Some (stun_type s)" "get_be16 bs 2 = Some (of_nat (?n + 32))" "get_be32 bs 4 = Some kStunMagicCookie"
    "slice bs 8 12 = Some (transcation_id s)" using assms(1) unfolding msg stun_head_def by (simp_all add: wire_simps)
  have n: "unat (of_nat (?n + 32) :: u16) = length bs - 20" using sz p assms(2) by (simp only: unat_of_nat) simp
  have w: "nat ((int (length bs) - 20) mod 2 ^ 32) = length bs - 20" using sz p assms(2) by (simp add: nat_diff_distrib)
  have neq: "kStunAttrXorMappedAddress \<noteq> kStunAttrUsername" "kStunAttrXorMappedAddress \<noteq> kStunAttrPassword"
    "kStunAttrMessageIntegrity \<noteq> kStunAttrUsername" "kStunAttrMessageIntegrity \<noteq> kStunAttrPassword"
    "kStunAttrFingerprint \<noteq> kStunAttrUsername" "kStunAttrFingerprint \<noteq> kStunAttrPassword" by (simp_all add: stun_consts)
  have "decode_attrs bs 20 (length bs - 20) ?s = Some (True, ?s\<lparr>user_name := user_name s\<rparr>)"
    using decode_attrs_step[of kStunAttrUsername "user_name s" "length bs - 20" ?h "?a @ ?m @ ?f" ?s]
      decode_attrs_step[of kStunAttrXorMappedAddress ?addr "length bs - 20 - length ?u" "?h @ ?u" "?m @ ?f" "?s\<lparr>user_name := user_name s\<rparr>"]
      decode_attrs_step[of kStunAttrMessageIntegrity mac "length bs - 20 - length ?u - length ?a" "?h @ ?u @ ?a" "?f" "?s\<lparr>user_name := user_name s\<rparr>"]
      decode_attrs_step[of kStunAttrFingerprint fp "length bs - 20 - length ?u - length ?a - length ?m" "?h @ ?u @ ?a @ ?m" "[]" "?s\<lparr>user_name := user_name s\<rparr>"]
      assms(1,2) len p sz neq
    by (simp add: msg decode_attrs_end ac_simps)
  then show "Stun_Decode bs (length bs) s0 = Some (True, s0\<lparr>stun_type := stun_type s, stun_length := length bs - 20,
       transcation_id := transcation_id s, user_name := user_name s\<rparr>)"
    unfolding Stun_Decode_def hd using n w by (simp add: Let_def)
qed

subsection \<open>Properties\<close>

text \<open>
  C19: a STUN message with a transaction id of 12 bytes and a user name of up to 444 bytes is encoded without leaving its buffer, into the
  wire format of RFC 5389 (padded attributes, the integrity attribute over the message in front of it with the length that ends with it,
  the fingerprint over everything in front of it), and decoding it gives back type, length, transaction id and user name.
\<close>

theorem stun_roundtrip:
  assumes "length (transcation_id s) = 12" "length (user_name s) \<le> 444" "hmac_law hmac" "length mem = 512"
  shows "\<exists>bs. Stun_Encode hmac crc32 mem s = Some bs \<and> bs = stun_message hmac crc32 s \<and> 4 dvd length bs \<and>
    Stun_Decode bs (length bs) s0 = Some (True, s0\<lparr>stun_type := stun_type s, stun_length := length bs - 20,
       transcation_id := transcation_id s, user_name := user_name s\<rparr>)"
proof -
  have "4 dvd 68 + (length (user_name s) + attr_padding (length (user_name s)))"
    using attr_padding_words(1)[of "length (user_name s)"] by (rule dvd_add[rotated]) simp
  then show ?thesis
    using Stun_Encode_ok[OF assms(4,1-3)] Stun_Decode_message[OF assms(1-3) refl [of "stun_message hmac crc32 s"]] by (simp add: add.assoc)
qed

theorem stun_roundtrip_witness:
  "(let s = \<lparr>stun_type = kStunMsgBindingResponse, stun_length = 0, transcation_id = replicate 12 7, user_name = [97, 58, 98], password = [1],
        mapped_addr = 0x7f000001, mapped_port = 5000\<rparr>
    in \<exists>bs. Stun_Encode (\<lambda>_ _. replicate 20 1) (\<lambda>_. 9) (replicate 512 0) s = Some bs \<and>
      bs = stun_message (\<lambda>_ _. replicate 20 1) (\<lambda>_. 9) s \<and> 4 dvd length bs \<and>
      Stun_Decode bs (length bs) Stun_init = Some (True, Stun_init\<lparr>stun_type := stun_type s, stun_length := length bs - 20,
         transcation_id := transcation_id s, user_name := user_name s\<rparr>))"
  unfolding Let_def by (rule stun_roundtrip) (simp_all add: hmac_law_def)

text \<open>
  C37: a binding request whose user name is longer than 444 bytes is decoded, and the response that is encoded from it is written behind
  the end of its 512-byte buffer, whatever password and address are set in between.
\<close>

theorem stun_response_overrun:
  assumes "20 + length (stun_attr kStunAttrUsername name) = sz" "444 < length name" "length name < 2 ^ 16" "length tid = 12" "length mem = 512"
  shows "\<exists>s. Stun_Decode (put_be16 kStunMsgBindingRequest @ put_be16 len @ put_be32 kStunMagicCookie @ tid @ stun_attr kStunAttrUsername name) sz
       Stun_init = Some (True, s) \<and> user_name s = name \<and>
    Stun_Encode hmac crc32 mem (SetMessageType kStunMsgBindingResponse (SetMappedPort port (SetMappedAddr addr (SetPassword pwd s)))) = None"
proof -
  let ?h = "put_be16 kStunMsgBindingRequest @ put_be16 len @ put_be32 kStunMagicCookie @ tid"
  let ?s = "Stun_init\<lparr>stun_type := kStunMsgBindingRequest, stun_length := unat len, transcation_id := tid\<rparr>"
  have p: "attr_padding (length name) < 4" by (rule attr_padding_words)
  have w: "nat ((int sz - 20) mod 2 ^ 32) = sz - 20" using assms(1,3) p by (simp add: nat_diff_distrib)
  have "decode_attrs (?h @ stun_attr kStunAttrUsername name @ []) 20 (sz - 20) ?s = Some (True, ?s\<lparr>user_name := name\<rparr>)"
    using decode_attrs_step[of kStunAttrUsername name "sz - 20" ?h "[]" ?s] assms(1,3,4) by (simp add: decode_attrs_end)
  then have "Stun_Decode (?h @ stun_attr kStunAttrUsername name) sz Stun_init = Some (True, ?s\<lparr>user_name := name\<rparr>)"
    unfolding Stun_Decode_def w using assms(4) by (simp add: wire_simps Let_def)
  then show ?thesis
    using assms(2,4,5) by (simp add: SetMessageType_def SetMappedPort_def SetMappedAddr_def SetPassword_def Stun_Encode_overrun)
qed

theorem stun_response_overrun_witness:
  "\<exists>s. Stun_Decode (put_be16 kStunMsgBindingRequest @ put_be16 452 @ put_be32 kStunMagicCookie @ replicate 12 0 @
        stun_attr kStunAttrUsername (replicate 445 97)) 472 Stun_init = Some (True, s) \<and> user_name s = replicate 445 97 \<and>
    Stun_Encode (\<lambda>_ _. replicate 20 1) (\<lambda>_. 9) (replicate 512 0)
      (SetMessageType kStunMsgBindingResponse (SetMappedPort 5000 (SetMappedAddr 1 (SetPassword [1] s)))) = None"
  by (rule stun_response_overrun) (simp_all add: attr_padding_def)

lemma top_bit: "127 < (b :: byte) \<Longrightarrow> b AND 0x80 \<noteq> 0"
proof
  assume b: "127 < b" "b AND 0x80 = 0"
  have "\<not> bit b 7" using and_push_bit_1[of b 7] b(2) by simp
  moreover have "n < 7 \<or> n = 7" if "n < LENGTH(8)" for n using that by auto
  ultimately have "take_bit 7 b = b" by (intro bit_eqI) (auto simp: bit_take_bit_iff)
  then have "unat b < 2 ^ 7" using take_bit_nat_less_exp[of 7 "unat b"] by (simp add: unsigned_take_bit_eq [symmetric])
  then show False using b(1) by (simp add: word_less_nat_alt)
qed

text \<open>
  C32: every datagram of at least two bytes is classified without reading outside of it; one that is taken for STUN is decoded without
  reading outside of it either. But no datagram is ever signalled as RTCP: everything in the range of RTP and RTCP is
  signalled as RTP, because that test does not look at the payload type and comes first.
\<close>

theorem datagram_classified:
  assumes "2 \<le> length data" "length data < 2 ^ 31"
  shows "\<exists>k. OnRecvPacket data (length data) = Some k \<and> k \<noteq> SignalRtcp \<and>
    (k = SignalStun \<longrightarrow> (\<forall>s0. \<exists>ok s. Stun_Decode data (length data) s0 = Some (ok, s))) \<and>
    (12 \<le> length data \<and> 128 \<le> data ! 0 \<and> data ! 0 < 192 \<longrightarrow> k = SignalRtp)"
proof -
  have stun: "\<exists>ok s. Stun_Decode data (length data) s0 = Some (ok, s)" if "20 \<le> length data" for s0
  proof -
    have "nat ((int (length data) - 20) mod 2 ^ 32) = length data - 20" "nat (int (length data) - 20) = length data - 20"
      using that assms(2) by (simp_all add: nat_diff_distrib)
    then show ?thesis
      using that decode_attrs_safe[of 20 "length data - 20" data] by (auto simp: Stun_Decode_def Let_def fetch_Some slice_def split: prod.splits)
  qed
  have hi: "127 < b \<longleftrightarrow> 128 \<le> b" for b :: byte by (simp add: word_less_nat_alt word_le_nat_alt) linarith
  have b: "get_u8 data 0 = Some (data ! 0)" "get_u8 data 1 = Some (data ! 1)" using assms(1) by (auto intro!: get_u8_Some)
  let ?stun = "20 \<le> length data \<and> data ! 0 < 3 \<and> take 4 (drop 4 data) = [0x21, 0x12, 0xA4, 0x42]"
    and ?rtp = "12 \<le> length data \<and> 127 < data ! 0 \<and> data ! 0 < 192 \<and> data ! 0 AND 0x80 \<noteq> 0"
  have c: "IsStun data (length data) = Some ?stun" "IsDtls data (length data) = Some (13 \<le> length data \<and> 19 < data ! 0 \<and> data ! 0 < 64)"
    "IsRtp data (length data) = Some ?rtp" "IsRtcp data (length data) = Some (?rtp \<and> 192 \<le> data ! 1 \<and> data ! 1 \<le> 223)"
    unfolding IsStun_def IsDtls_def IsRtp_def IsRtcp_def b by (auto simp: slice_def)
  have lo: "\<not> data ! 0 < 3" "\<not> data ! 0 < 64" if "128 \<le> data ! 0" using that by (auto simp: word_less_nat_alt word_le_nat_alt)
  show ?thesis
    using stun top_bit[of "data ! 0"] lo unfolding OnRecvPacket_def c by (auto simp: hi)
qed

theorem datagram_classified_witness:
  "OnRecvPacket [0x80, 200, 0, 6, 0, 0, 0, 1, 0, 0, 0, 0] 12 = Some SignalRtp"
proof -
  let ?d = "[0x80, 200, 0, 6, 0, 0, 0, 1, 0, 0, 0, 0] :: byte list"
  have len: "length ?d = 12" by simp
  have "2 \<le> length ?d" "length ?d < 2 ^ 31" "12 \<le> length ?d \<and> 128 \<le> ?d ! 0 \<and> ?d ! 0 < 192" unfolding len by simp_all
  with datagram_classified [of ?d] show ?thesis unfolding len by blast
qed

end
