(* ===== verification/Mpeg_Ps.thy ===== *)
theory Mpeg_Ps
  imports Byte_Io
begin

text \<open>
  \<open>libmpeg/mpeg_decoder.cpp\<close>: the decoder of MPEG program streams that arrive in datagrams. A call of \<open>parse\<close> gets one
  datagram, continues the video payload the previous one ended in, and walks over the packs, system headers, maps and
  elementary stream packets. The frame under construction is the first \<open>stream_len_\<close> bytes of \<open>byte_stream_\<close>; only
  these are ever read, so the model keeps exactly them (\<open>byte_stream\<close>). The signals are a list of events. \<open>None\<close> is a read outside
  of the datagram or a store behind the 8 MB of \<open>byte_stream_\<close>.

  The test \<open>PackInfo1[1] == '\80'\<close> compares a \<open>char\<close> with a constant of two characters and is never true; its branch has no
  counterpart here. \<open>EncodedImage\<close> and \<open>CopyOnWriteBuffer\<close> are not under \<open>src/\<close>; an event has the bytes and the time stamp given to them.
\<close>

subsection \<open>State\<close>

datatype MpegEvent = RecvVideoFrame "byte list" int | RecvAudioFrame "byte list"

record MpegDecoder =
  byte_stream :: "byte list"
  read_byte :: int
  video_pts :: int
  signals :: "MpegEvent list"

definition kByteStreamSize :: nat where "kByteStreamSize = 1024 * 1024 * 8"

definition MpegDecoder_init :: MpegDecoder where
  "MpegDecoder_init = \<lparr>byte_stream = [], read_byte = 0, video_pts = 0, signals = []\<rparr>"

definition sizeof_program_stream_map :: nat where "sizeof_program_stream_map = 6"
definition sizeof_program_stream_e :: nat where "sizeof_program_stream_e = 9"

text \<open>\<open>memcpy(byte_stream_ + stream_len_, data + off, n); stream_len_ += n\<close>.\<close>

definition append_stream :: "byte list \<Rightarrow> nat \<Rightarrow> nat \<Rightarrow> MpegDecoder \<Rightarrow> MpegDecoder option" where
  "append_stream data off n st = do {
     bs \<leftarrow> slice data off n;
     if length (byte_stream st) + n > kByteStreamSize then None
     else Some (st\<lparr>byte_stream := byte_stream st @ bs\<rparr>) }"

text \<open>What a case of the loop does: it goes on at an offset or returns a value.\<close>

datatype 'a outcome = Go nat 'a | Return int 'a

subsection \<open>Elementary stream packets\<close>

text \<open>\<open>PackLength - 2 - 1 - stuffing_length\<close> is an \<open>int\<close> that becomes a \<open>size_t\<close>.\<close>

definition pes_payload_size :: "u16 \<Rightarrow> byte \<Rightarrow> nat" where
  "pes_payload_size len stuffing = nat ((int (unat len) - 2 - 1 - int (unat stuffing)) mod 2 ^ 64)"

text \<open>The four comparisons of the start code, each made only when the ones before hold.\<close>

fun matches_at :: "byte list \<Rightarrow> nat \<Rightarrow> byte list \<Rightarrow> bool option" where
  "matches_at data off [] = Some True"
| "matches_at data off (c # cs) = do {
     b \<leftarrow> get_u8 data off;
     if b \<noteq> c then Some False else matches_at data (Suc off) cs }"

definition flush_frame :: "byte list \<Rightarrow> nat \<Rightarrow> MpegDecoder \<Rightarrow> MpegDecoder option" where
  "flush_frame data payload st = do {
     nal \<leftarrow> (if length (byte_stream st) > 4 then matches_at data payload [0, 0, 0, 1] else Some False);
     Some (if nal then st\<lparr>signals := signals st @ [RecvVideoFrame (byte_stream st) (video_pts st)], byte_stream := []\<rparr> else st) }"

definition read_pts :: "byte list \<Rightarrow> nat \<Rightarrow> int option" where
  "read_pts data off = do {
     bs \<leftarrow> slice data (off + 9) 5;
     Some (foldl (\<lambda>pts b. (pts + int (unat b)) * 256) 0 bs div 90) }"

definition update_pts :: "byte list \<Rightarrow> nat \<Rightarrow> MpegDecoder \<Rightarrow> MpegDecoder option" where
  "update_pts data off st = do {
     info \<leftarrow> get_u8 data (off + 7);
     if info AND 0xe0 = 0x20 \<or> info AND 0xc0 = 0x80 then do {
       pts \<leftarrow> read_pts data off;
       Some (st\<lparr>video_pts := pts\<rparr>) }
     else Some st }"

text \<open>
  A video packet. \<open>avil_read_byte\<close> is computed as a \<open>size_t\<close> and cut to an \<open>int32_t\<close>; in the comparison with
  \<open>payload_size\<close> and as the size of the copy it is a \<open>size_t\<close> again.
\<close>

definition pes_video :: "byte list \<Rightarrow> nat \<Rightarrow> MpegDecoder \<Rightarrow> MpegDecoder outcome option" where
  "pes_video data len st =
     (if int (length data) - int len < 9 then Some (Return (-1) st)
      else do {
        pack_length \<leftarrow> get_be16 data (len + 4);
        stuffing \<leftarrow> get_u8 data (len + 8);
        let payload_size = pes_payload_size pack_length stuffing;
        let next = len + 6 + unat pack_length;
        if payload_size > 0 then do {
          let payload = len + sizeof_program_stream_e + unat stuffing;
          st \<leftarrow> flush_frame data payload st;
          st \<leftarrow> update_pts data len st;
          let avil = sint (word_of_int (int (length data) - int len - int sizeof_program_stream_e - int (unat stuffing)) :: u32);
          let avil_size = nat (avil mod 2 ^ 64);
          if avil_size < payload_size then do {
            st \<leftarrow> append_stream data payload avil_size st;
            Some (Return 0 (st\<lparr>read_byte := sint (word_of_int (int payload_size - avil) :: u32)\<rparr>)) }
          else do {
            st \<leftarrow> append_stream data payload payload_size st;
            Some (Go next st) } }
        else Some (Go next st) })"

definition pes_audio :: "byte list \<Rightarrow> nat \<Rightarrow> MpegDecoder \<Rightarrow> MpegDecoder outcome option" where
  "pes_audio data len st =
     (if int (length data) - int len < 9 then Some (Return (-1) st)
      else do {
        pack_length \<leftarrow> get_be16 data (len + 4);
        stuffing \<leftarrow> get_u8 data (len + 8);
        let payload_size = pes_payload_size pack_length stuffing;
        st \<leftarrow> (if payload_size > 0 then do {
                 frame \<leftarrow> slice data (len + sizeof_program_stream_e + unat stuffing) payload_size;
                 Some (st\<lparr>signals := signals st @ [RecvAudioFrame frame]\<rparr>) }
               else Some st);
        Some (Go (len + 6 + unat pack_length) st) })"

subsection \<open>The loop\<close>

definition pack_header :: "byte list \<Rightarrow> nat \<Rightarrow> MpegDecoder \<Rightarrow> MpegDecoder outcome option" where
  "pack_header data len st = do {
     b \<leftarrow> get_u8 data (len + 13);
     Some (Go (len + (4 + 9 + 1 + unat (b AND 7))) st) }"

definition system_header :: "byte list \<Rightarrow> nat \<Rightarrow> MpegDecoder \<Rightarrow> MpegDecoder outcome option" where
  "system_header data len st =
     (if int (length data) - int len < 4 + 2 then Some (Return (-1) st)
      else do {
        pack_length \<leftarrow> get_be16 data (len + 4);
        Some (Go (len + (unat pack_length + sizeof_program_stream_map)) st) })"

definition parse_unit :: "byte list \<Rightarrow> nat \<Rightarrow> MpegDecoder \<Rightarrow> MpegDecoder outcome option" where
  "parse_unit data len st = do {
     start \<leftarrow> matches_at data len [0, 0, 1];
     if \<not> start then Some (Return 0 st)
     else do {
       stream_id \<leftarrow> get_u8 data (len + 3);
       if stream_id = 0xBA then pack_header data len st
       else if stream_id = 0xBB \<or> stream_id = 0xBC then system_header data len st
       else if stream_id = 0xE0 then pes_video data len st
       else if stream_id = 0xC0 then pes_audio data len st
       else Some (Return (-1) st) } }"

lemma parse_unit_forward: "parse_unit data len st = Some (Go len' st') \<Longrightarrow> len < len'"
  by (auto simp: parse_unit_def pack_header_def system_header_def pes_video_def pes_audio_def sizeof_program_stream_map_def Let_def
      split: if_splits Option.bind_splits)

function parse_loop :: "byte list \<Rightarrow> nat \<Rightarrow> MpegDecoder \<Rightarrow> (int \<times> MpegDecoder) option" where
  "parse_loop data len st =
     (if int (length data) - int len > 4 then
        (case parse_unit data len st of
           None \<Rightarrow> None
         | Some (Return r st) \<Rightarrow> Some (r, st)
         | Some (Go len' st) \<Rightarrow> parse_loop data len' st)
      else Some (0, st))"
  by pat_completeness auto
termination
  by (relation "measure (\<lambda>(data, len, _). length data - len)") (auto dest: parse_unit_forward)

declare parse_loop.simps [simp del]

definition mpeg_parse :: "byte list \<Rightarrow> MpegDecoder \<Rightarrow> (int \<times> MpegDecoder) option" where
  "mpeg_parse data st =
     (let sz = int (length data)
      in if read_byte st > 0 then
           if sz \<ge> read_byte st then do {
             let n = nat (read_byte st);
             st \<leftarrow> append_stream data 0 n st;
             parse_loop data n (st\<lparr>read_byte := 0\<rparr>) }
           else do {
             st \<leftarrow> append_stream data 0 (length data) st;
             parse_loop data (length data) (st\<lparr>read_byte := read_byte st - sz\<rparr>) }
         else parse_loop data 0 st)"

end
