(* ===== verification/Mpeg_Stream.thy ===== *)
theory Mpeg_Stream
  imports Mpeg_Ps
begin

text \<open>
  What the decoder of \<open>Mpeg_Ps\<close> does with the datagrams of a program stream: the units of a stream and their bytes, their
  effect on the decoder (\<open>consume\<close>), the ways in which a stream is cut into datagrams (\<open>stream_cut\<close>), and the frames that are
  signalled.
\<close>

subsection \<open>What a program stream means\<close>

text \<open>
  The units of a program stream: pack headers (nine bytes, the byte with the stuffing length, stuffing), system headers and
  maps, and audio and video packets (two information bytes, the header data and the payload).
\<close>

datatype ps_unit = PackUnit "byte list" byte "byte list" | HeaderUnit byte "byte list"
  | AudioUnit byte byte "byte list" "byte list" | VideoUnit byte byte "byte list" "byte list"

definition pes_fixed :: "byte \<Rightarrow> byte \<Rightarrow> byte \<Rightarrow> byte list \<Rightarrow> byte list \<Rightarrow> byte list" where
  "pes_fixed sid i j h p = [0, 0, 1, sid] @ put_be16 (of_nat (3 + length h + length p)) @ [i, j, of_nat (length h)]"

definition pes_head :: "byte \<Rightarrow> byte \<Rightarrow> byte \<Rightarrow> byte list \<Rightarrow> byte list \<Rightarrow> byte list" where
  "pes_head sid i j h p = pes_fixed sid i j h p @ h"

fun unit_bytes :: "ps_unit \<Rightarrow> byte list" where
  "unit_bytes (PackUnit b s st) = [0, 0, 1, 0xBA] @ b @ [s] @ st"
| "unit_bytes (HeaderUnit sid v) = [0, 0, 1, sid] @ put_be16 (of_nat (length v)) @ v"
| "unit_bytes (AudioUnit i j h p) = pes_head 0xC0 i j h p @ p"
| "unit_bytes (VideoUnit i j h p) = pes_head 0xE0 i j h p @ p"

definition has_pts :: "byte \<Rightarrow> bool" where
  "has_pts j \<longleftrightarrow> j AND 0xe0 = 0x20 \<or> j AND 0xc0 = 0x80"

text \<open>
  The decoder compares the first bytes of a video payload with the start code, one after the other and without a look at where the
  payload or the datagram ends. The bytes at hand decide the comparison when there are four of them or one of them differs.
\<close>

definition start_code :: "byte list" where
  "start_code = [0, 0, 0, 1]"

definition code_decided :: "byte list \<Rightarrow> bool" where
  "code_decided q \<longleftrightarrow> 4 \<le> length q \<or> q \<noteq> take (length q) start_code"

fun unit_ok :: "ps_unit \<Rightarrow> bool" where
  "unit_ok (PackUnit b s st) \<longleftrightarrow> length b = 9 \<and> length st = unat (s AND 7)"
| "unit_ok (HeaderUnit sid v) \<longleftrightarrow> sid \<in> {0xBB, 0xBC} \<and> length v < 2 ^ 16"
| "unit_ok (AudioUnit i j h p) \<longleftrightarrow> length h < 256 \<and> p \<noteq> [] \<and> 3 + length h + length p < 2 ^ 16"
| "unit_ok (VideoUnit i j h p) \<longleftrightarrow> length h < 256 \<and> code_decided p \<and> 3 + length h + length p < 2 ^ 16 \<and> (has_pts j \<longrightarrow> 5 \<le> length h)"

definition pts_of :: "byte list \<Rightarrow> int" where
  "pts_of h = foldl (\<lambda>pts b. (pts + int (unat b)) * 256) 0 (take 5 h) div 90"

text \<open>The effect of the start of a video packet: a new frame begins, and the time stamp is read.\<close>

definition video_start :: "byte \<Rightarrow> byte list \<Rightarrow> byte list \<Rightarrow> MpegDecoder \<Rightarrow> MpegDecoder" where
  "video_start j h p st =
     (let st = (if length (byte_stream st) > 4 \<and> take 4 p = [0, 0, 0, 1]
                then st\<lparr>signals := signals st @ [RecvVideoFrame (byte_stream st) (video_pts st)], byte_stream := []\<rparr> else st)
      in if has_pts j then st\<lparr>video_pts := pts_of h\<rparr> else st)"

fun consume :: "ps_unit \<Rightarrow> MpegDecoder \<Rightarrow> MpegDecoder" where
  "consume (AudioUnit i j h p) st = st\<lparr>signals := signals st @ [RecvAudioFrame p]\<rparr>"
| "consume (VideoUnit i j h p) st = (let st = video_start j h p st in st\<lparr>byte_stream := byte_stream st @ p\<rparr>)"
| "consume _ st = st"

fun bounded :: "ps_unit list \<Rightarrow> MpegDecoder \<Rightarrow> bool" where
  "bounded [] st \<longleftrightarrow> length (byte_stream st) \<le> kByteStreamSize"
| "bounded (u # us) st \<longleftrightarrow> length (byte_stream st) \<le> kByteStreamSize \<and> bounded us (consume u st)"

lemma length_pes_fixed [simp]: "length (pes_fixed sid i j h p) = 9"
  by (simp add: pes_fixed_def)

lemma length_pes_head [simp]: "length (pes_head sid i j h p) = 9 + length h"
  by (simp add: pes_head_def)

lemma bounded_now: "bounded us st \<Longrightarrow> length (byte_stream st) \<le> kByteStreamSize"
  by (cases us) simp_all

lemma matches_at_here:
  "matches_at (xs @ ys) (length xs) cs =
     (if length ys < length cs \<and> ys = take (length ys) cs then None else Some (take (length cs) ys = cs))"
proof (induction cs arbitrary: xs ys)
  case (Cons c cs)
  show ?case
  proof (cases ys)
    case (Cons y ys')
    then show ?thesis using Cons.IH[of "xs @ [y]" ys'] by (auto simp: get_u8_def nth_append)
  qed (simp add: get_u8_def)
qed simp

lemma matches_code:
  "length pre = off \<Longrightarrow> matches_at (pre @ q) off [0, 0, 0, 1] = (if code_decided q then Some (take 4 q = start_code) else None)"
  using matches_at_here[of pre q start_code] by (auto simp: code_decided_def start_code_def numeral_eq_Suc)

lemma code_decided_nonempty: "code_decided q \<Longrightarrow> 0 < length q"
  by (cases q) (auto simp: code_decided_def)

lemma code_decided_append:
  assumes "code_decided q"
  shows "code_decided (q @ post)"
proof -
  have "q = take (length q) start_code" if "q @ post = take (length q + length post) start_code"
    using arg_cong[OF that, of "take (length q)"] by (simp add: min_absorb1)
  then show ?thesis using assms by (auto simp: code_decided_def)
qed

lemma code_decided_take:
  assumes "code_decided (take n p)"
  shows "take 4 (take n p) = start_code \<longleftrightarrow> take 4 p = start_code"
proof (cases "4 \<le> n")
  case False
  have "length (take 4 (take n p)) \<noteq> length start_code" using False by (simp add: start_code_def)
  then have "take 4 (take n p) \<noteq> start_code" by metis
  moreover have False if c: "take 4 p = start_code"
  proof -
    have "4 \<le> length p" using arg_cong[OF c, of length] by (simp add: start_code_def)
    then have "length (take n p) = n" using False by simp
    moreover have "take n p = take n start_code" using False by (simp add: c[symmetric] min_def)
    ultimately show False using assms False unfolding code_decided_def by metis
  qed
  ultimately show ?thesis by blast
qed (simp add: min_def)

lemma read_pes:
  fixes pre rest :: "byte list"
  assumes "length h < 256" "3 + length h + length p < 2 ^ 16" and data: "data = pre @ pes_fixed sid i j h p @ rest"
  shows "matches_at data (length pre) [0, 0, 1] = Some True" "get_u8 data (length pre + 3) = Some sid"
    "get_be16 data (length pre + 4) = Some (of_nat (3 + length h + length p))" "get_u8 data (length pre + 7) = Some j"
    "get_u8 data (length pre + 8) = Some (of_nat (length h))"
    "unat (of_nat (length h) :: byte) = length h" "unat (of_nat (3 + length h + length p) :: u16) = 3 + length h + length p"
    "pes_payload_size (of_nat (3 + length h + length p)) (of_nat (length h)) = length p"
proof -
  show m: "matches_at data (length pre) [0, 0, 1] = Some True"
    using matches_at_here[of pre "pes_fixed sid i j h p @ rest" "[0, 0, 1]"] by (simp add: data pes_fixed_def)
  show "get_u8 data (length pre + 3) = Some sid" "get_be16 data (length pre + 4) = Some (of_nat (3 + length h + length p))"
    "get_u8 data (length pre + 7) = Some j" "get_u8 data (length pre + 8) = Some (of_nat (length h))"
    by (simp_all add: data pes_fixed_def wire_simps)
  show u: "unat (of_nat (length h) :: byte) = length h" "unat (of_nat (3 + length h + length p) :: u16) = 3 + length h + length p"
    using assms(1,2) by (simp_all only: unat_of_nat) simp_all
  show "pes_payload_size (of_nat (3 + length h + length p)) (of_nat (length h)) = length p"
    unfolding pes_payload_size_def u using assms(2) by simp
qed

lemma video_begin:
  assumes ok: "unit_ok (VideoUnit i j h p)" and data: "data = pre @ pes_head 0xE0 i j h p @ q @ post"
    and q: "4 < length (byte_stream st) \<longrightarrow> code_decided q \<and> (take 4 q = start_code \<longleftrightarrow> take 4 p = start_code)"
  shows "do { st \<leftarrow> flush_frame data (length pre + 9 + length h) st; update_pts data (length pre) st } = Some (video_start j h p st)"
proof -
  have m: "matches_at data (length pre + 9 + length h) [0, 0, 0, 1] = Some (take 4 p = start_code)" if "4 < length (byte_stream st)"
  proof -
    have "code_decided (q @ post)" "take 4 (q @ post) = start_code \<longleftrightarrow> take 4 q = start_code"
      using code_decided_append[of q post] code_decided_take[of "length q" "q @ post"] q that by simp_all
    then show ?thesis
      using matches_code[of "pre @ pes_head 0xE0 i j h p" "length pre + 9 + length h" "q @ post"] q that by (simp add: data)
  qed
  have i: "get_u8 data (length pre + 7) = Some j" using read_pes(4)[of h p data pre _ i j] ok by (simp add: data pes_head_def)
  have s: "slice data (length pre + 9) 5 = Some (take 5 h)" if "has_pts j"
    using ok that by (simp add: data pes_head_def wire_simps slice_def)
  show ?thesis
    unfolding flush_frame_def update_pts_def read_pts_def
    using m i s by (auto simp: video_start_def Let_def has_pts_def pts_of_def start_code_def simp del: matches_at.simps)
qed

lemma parse_video_complete:
  assumes ok: "unit_ok (VideoUnit i j h p)" and data: "data = pre @ unit_bytes (VideoUnit i j h p) @ post" and len: "length data < 2 ^ 31"
  shows "parse_unit data (length pre) st = do { st \<leftarrow> append_stream data (length pre + 9 + length h) (length p) (video_start j h p st);
      Some (Go (length pre + length (unit_bytes (VideoUnit i j h p))) st) }"
proof -
  have data': "data = pre @ pes_head 0xE0 i j h p @ p @ post" using data by simp
  have "length h < 256" "3 + length h + length p < 2 ^ 16" using ok by simp_all
  note r = read_pes[OF this data'[unfolded pes_head_def append_assoc]]
  have b: "do { st \<leftarrow> flush_frame data (length pre + 9 + length h) st; st \<leftarrow> update_pts data (length pre) st; f st } = f (video_start j h p st)" for f
    using arg_cong[OF video_begin[OF ok data', of st], of "\<lambda>m. m \<bind> f"] ok by simp
  let ?n = "length data - length pre - 9 - length h"
  have av: "sint (word_of_int (int (length data) - int (length pre) - int 9 - int (length h)) :: u32) = int ?n"
  proof -
    have e: "int (length data) - int (length pre) - int 9 - int (length h) = int ?n" by (simp add: data')
    show ?thesis unfolding e by (rule sint_u32_small) (use len in simp_all)
  qed
  have n: "nat (int ?n mod 2 ^ 64) = ?n" using len by (simp add: nat_mod_distrib)
  have ge: "\<not> ?n < length p" by (simp add: data')
  have c: "\<not> int (length data) - int (length pre) < 9" "0 < length p" using ok code_decided_nonempty[of p] by (auto simp: data')
  have nx: "length pre + 6 + (3 + length h + length p) = length pre + (9 + length h + length p)" by simp
  have "pes_video data (length pre) st = do { st \<leftarrow> append_stream data (length pre + 9 + length h) (length p) (video_start j h p st);
      Some (Go (length pre + (9 + length h + length p)) st) }"
    unfolding pes_video_def
    by (simp only: c if_False if_True r Option.bind.bind_lunit Let_def sizeof_program_stream_e_def b av n ge nx)
  then show ?thesis unfolding parse_unit_def by (simp only: r Option.bind.bind_lunit if_True if_False simp_thms) simp
qed

lemma parse_video_whole:
  assumes "unit_ok (VideoUnit i j h p)" and data: "data = pre @ unit_bytes (VideoUnit i j h p) @ post" and "length data < 2 ^ 31"
    and fits: "length (byte_stream (consume (VideoUnit i j h p) st)) \<le> kByteStreamSize"
  shows "parse_unit data (length pre) st = Some (Go (length pre + length (unit_bytes (VideoUnit i j h p))) (consume (VideoUnit i j h p) st))"
proof -
  have "append_stream data (length pre + 9 + length h) (length p) (video_start j h p st) = Some (consume (VideoUnit i j h p) st)"
    using fits by (simp add: append_stream_def data wire_simps slice_def Let_def)
  then show ?thesis unfolding parse_video_complete[OF assms(1-3)] by simp
qed

lemma parse_video_part:
  assumes ok: "unit_ok (VideoUnit i j h p)" and n: "4 < length (byte_stream st) \<longrightarrow> code_decided (take n p)" "n < length p"
    and data: "data = pre @ take (9 + length h + n) (unit_bytes (VideoUnit i j h p))"
  shows "parse_unit data (length pre) st = do { st \<leftarrow> append_stream data (length pre + 9 + length h) n (video_start j h p st);
      Some (Return 0 (st\<lparr>read_byte := int (length p - n)\<rparr>)) }"
proof -
  have data': "data = pre @ pes_head 0xE0 i j h p @ take n p @ []" using data by simp
  have "length h < 256" "3 + length h + length p < 2 ^ 16" using ok by simp_all
  note r = read_pes[OF this data'[unfolded pes_head_def append_assoc]]
  have b: "do { st \<leftarrow> flush_frame data (length pre + 9 + length h) st; st \<leftarrow> update_pts data (length pre) st; f st } = f (video_start j h p st)" for f
    using arg_cong[OF video_begin[OF ok data', of st], of "\<lambda>m. m \<bind> f"] n(1) code_decided_take[of n p] by simp
  have av: "sint (word_of_int (int (length data) - int (length pre) - int 9 - int (length h)) :: u32) = int n"
  proof -
    have e: "int (length data) - int (length pre) - int 9 - int (length h) = int n" using n by (simp add: data')
    show ?thesis unfolding e by (rule sint_u32_small) (use ok n in simp_all)
  qed
  have sz: "nat (int n mod 2 ^ 64) = n" using ok n by (simp add: nat_mod_distrib)
  have rb: "sint (word_of_int (int (length p) - int n) :: u32) = int (length p - n)"
  proof -
    have e: "int (length p) - int n = int (length p - n)" using n by simp
    show ?thesis unfolding e by (rule sint_u32_small) (use ok in auto)
  qed
  have c: "\<not> int (length data) - int (length pre) < 9" "0 < length p" using n by (auto simp: data')
  have "pes_video data (length pre) st = do { st \<leftarrow> append_stream data (length pre + 9 + length h) n (video_start j h p st);
      Some (Return 0 (st\<lparr>read_byte := int (length p - n)\<rparr>)) }"
    unfolding pes_video_def
    by (simp only: c n if_False if_True r Option.bind.bind_lunit Let_def sizeof_program_stream_e_def b av sz rb)
  then show ?thesis unfolding parse_unit_def by (simp only: r Option.bind.bind_lunit if_True if_False simp_thms) simp
qed

lemma parse_video_cut:
  assumes ok: "unit_ok (VideoUnit i j h p)" and n: "code_decided (take n p)" "n < length p"
    and data: "data = pre @ take (9 + length h + n) (unit_bytes (VideoUnit i j h p))"
    and fits: "length (byte_stream (consume (VideoUnit i j h p) st)) \<le> kByteStreamSize"
  shows "parse_unit data (length pre) st = Some (Return 0 ((video_start j h p st)
     \<lparr>byte_stream := byte_stream (video_start j h p st) @ take n p, read_byte := int (length p - n)\<rparr>))"
proof -
  have a: "append_stream data (length pre + 9 + length h) n (video_start j h p st) =
      Some ((video_start j h p st)\<lparr>byte_stream := byte_stream (video_start j h p st) @ take n p\<rparr>)"
    using fits n by (simp add: append_stream_def data wire_simps slice_def Let_def)
  have p: "4 < length (byte_stream st) \<longrightarrow> code_decided (take n p)" using n(1) by simp
  show ?thesis unfolding parse_video_part[OF ok p n(2) data] a by simp
qed

lemma parse_other_whole:
  assumes ok: "unit_ok u" and data: "data = pre @ unit_bytes u @ post" and v: "\<And>i j h p. u \<noteq> VideoUnit i j h p"
  shows "parse_unit data (length pre) st = Some (Go (length pre + length (unit_bytes u)) (consume u st))"
proof (cases u)
  case (PackUnit b s x)
  have "matches_at data (length pre) [0, 0, 1] = Some True" "get_u8 data (length pre + 3) = Some 0xBA" "get_u8 data (length pre + 13) = Some s"
    using matches_at_here[of pre "unit_bytes u @ post" "[0, 0, 1]"] ok by (simp_all add: data PackUnit wire_simps)
  then show ?thesis using ok by (simp add: parse_unit_def pack_header_def PackUnit)
next
  case (HeaderUnit sid x)
  have "matches_at data (length pre) [0, 0, 1] = Some True" "get_u8 data (length pre + 3) = Some sid"
    "get_be16 data (length pre + 4) = Some (of_nat (length x))"
    using matches_at_here[of pre "unit_bytes u @ post" "[0, 0, 1]"] by (simp_all add: data HeaderUnit wire_simps)
  moreover have "unat (of_nat (length x) :: u16) = length x" using ok by (simp only: unat_of_nat HeaderUnit) simp
  ultimately show ?thesis using ok by (auto simp: parse_unit_def system_header_def HeaderUnit data sizeof_program_stream_map_def)
next
  case (AudioUnit i j h p)
  have data': "data = pre @ pes_head 0xC0 i j h p @ p @ post" using data by (simp add: AudioUnit)
  have "length h < 256" "3 + length h + length p < 2 ^ 16" using ok by (simp_all add: AudioUnit)
  note r = read_pes[OF this data'[unfolded pes_head_def append_assoc]]
  have c: "\<not> int (length data) - int (length pre) < 9" "0 < length p" using ok by (auto simp: data' AudioUnit)
  have s: "slice data (length pre + 9 + length h) (length p) = Some p" by (simp add: data' wire_simps slice_def)
  have nx: "length pre + 6 + (3 + length h + length p) = length pre + (9 + length h + length p)" by simp
  have "pes_audio data (length pre) st = Some (Go (length pre + (9 + length h + length p)) (consume (AudioUnit i j h p) st))"
    unfolding pes_audio_def
    by (simp only: c if_False if_True r Option.bind.bind_lunit Let_def sizeof_program_stream_e_def s nx consume.simps)
  then show ?thesis unfolding parse_unit_def AudioUnit by (simp only: r Option.bind.bind_lunit if_True if_False simp_thms) simp
next
  case (VideoUnit i j h p)
  then show ?thesis using v by blast
qed

lemma parse_whole:
  assumes "unit_ok u" "data = pre @ unit_bytes u @ post" "length data < 2 ^ 31" "length (byte_stream (consume u st)) \<le> kByteStreamSize"
  shows "parse_unit data (length pre) st = Some (Go (length pre + length (unit_bytes u)) (consume u st))"
  using parse_video_whole[of _ _ _ _ data pre post st] parse_other_whole[of u data pre post st] assms by (cases u) blast+

lemma length_unit_bytes: "unit_ok u \<Longrightarrow> 4 < length (unit_bytes u)"
  by (cases u) auto

lemma parse_loop_end: "length data \<le> len + 4 \<Longrightarrow> parse_loop data len st = Some (0, st)"
  by (subst parse_loop.simps) auto

lemma parse_loop_step:
  "parse_unit data len st = Some (Go len' st') \<Longrightarrow> len + 4 < length data \<Longrightarrow> parse_loop data len st = parse_loop data len' st'"
  by (subst parse_loop.simps) simp

lemma parse_loop_return:
  "parse_unit data len st = Some (Return r st') \<Longrightarrow> len + 4 < length data \<Longrightarrow> parse_loop data len st = Some (r, st')"
  by (subst parse_loop.simps) simp

lemma parse_loop_units:
  assumes "\<forall>u \<in> set us. unit_ok u" "bounded us st" "data = pre @ concat (map unit_bytes us) @ post" "length data < 2 ^ 31"
  shows "parse_loop data (length pre) st = parse_loop data (length pre + length (concat (map unit_bytes us))) (fold consume us st)"
  using assms
proof (induction us arbitrary: pre st)
  case (Cons u us)
  have "data = pre @ unit_bytes u @ concat (map unit_bytes us) @ post" using Cons.prems(3) by simp
  moreover have "length (byte_stream (consume u st)) \<le> kByteStreamSize" using Cons.prems(2) bounded_now[of us "consume u st"] by simp
  ultimately have "parse_unit data (length pre) st = Some (Go (length pre + length (unit_bytes u)) (consume u st))"
    using parse_whole Cons.prems by simp
  moreover have "length pre + 4 < length data" using Cons.prems(1,3) length_unit_bytes[of u] by simp
  ultimately have "parse_loop data (length pre) st = parse_loop data (length (pre @ unit_bytes u)) (consume u st)"
    using parse_loop_step by simp
  also have "\<dots> = parse_loop data (length (pre @ unit_bytes u) + length (concat (map unit_bytes us))) (fold consume us (consume u st))"
    using Cons.prems by (intro Cons.IH) simp_all
  finally show ?case by (simp add: add.assoc)
qed simp

subsection \<open>Streams cut into datagrams\<close>

text \<open>
  A stream may be cut between units and inside the payload of a video packet, any number of times in one payload. \<open>pend\<close> is the
  rest of the payload the previous datagram ended in. The first cut of a payload does not leave fewer than four bytes of it that are
  all bytes of the start code: there the decoder reads behind the datagram (\<open>video_code_cut\<close>). Pack headers, maps, audio packets
  and the headers of video packets are not cut (the lemmas of the last section say what happens when they are).
\<close>

inductive stream_cut :: "byte list \<Rightarrow> ps_unit list \<Rightarrow> byte list list \<Rightarrow> bool" where
  cut_end: "stream_cut [] [] []"
| cut_inside: "stream_cut (drop k pend) us ds \<Longrightarrow> 0 < k \<Longrightarrow> k < length pend \<Longrightarrow> stream_cut pend us (take k pend # ds)"
| cut_between: "stream_cut [] us ds \<Longrightarrow> stream_cut pend (vs @ us) ((pend @ concat (map unit_bytes vs)) # ds)"
| cut_payload: "stream_cut (drop n p) us ds \<Longrightarrow> code_decided (take n p) \<Longrightarrow> n < length p \<Longrightarrow>
    stream_cut pend (vs @ VideoUnit i j h p # us)
      ((pend @ concat (map unit_bytes vs) @ take (9 + length h + n) (unit_bytes (VideoUnit i j h p))) # ds)"

fun parse_all :: "byte list list \<Rightarrow> MpegDecoder \<Rightarrow> (int list \<times> MpegDecoder) option" where
  "parse_all [] st = Some ([], st)"
| "parse_all (d # ds) st = do {
     (r, st) \<leftarrow> mpeg_parse d st;
     (rs, st) \<leftarrow> parse_all ds st;
     Some (r # rs, st) }"

lemma bounded_append: "bounded (us @ vs) st \<longleftrightarrow> bounded us st \<and> bounded vs (fold consume us st)"
  by (induction us arbitrary: st) (auto dest: bounded_now)

lemma consume_read_byte: "consume u (st\<lparr>read_byte := x\<rparr>) = (consume u st)\<lparr>read_byte := x\<rparr>"
  by (cases u) (simp_all add: video_start_def Let_def)

lemma fold_consume_read_byte: "fold consume us (st\<lparr>read_byte := x\<rparr>) = (fold consume us st)\<lparr>read_byte := x\<rparr>"
  by (induction us arbitrary: st) (simp_all add: consume_read_byte)

lemma bounded_read_byte: "bounded us (st\<lparr>read_byte := x\<rparr>) = bounded us st"
  by (induction us arbitrary: st) (simp_all add: consume_read_byte)

lemma read_byte_consume: "read_byte (consume u st) = read_byte st"
  by (cases u) (simp_all add: video_start_def Let_def)

lemma read_byte_fold: "read_byte (fold consume us st) = read_byte st"
  by (induction us arbitrary: st) (simp_all add: read_byte_consume)

text \<open>A datagram that begins with all of the pending payload.\<close>

lemma parse_resume:
  assumes "read_byte st = int (length pend)" "data = pend @ rest" "length (byte_stream st) + length pend \<le> kByteStreamSize"
  shows "mpeg_parse data st = parse_loop data (length pend) (st\<lparr>byte_stream := byte_stream st @ pend, read_byte := 0\<rparr>)"
proof (cases "pend = []")
  case True
  then have e: "st\<lparr>byte_stream := byte_stream st @ pend, read_byte := 0\<rparr> = st" using assms(1) by simp
  show ?thesis unfolding e using assms(1) True by (simp add: mpeg_parse_def)
next
  case False
  then have "append_stream data 0 (length pend) st = Some (st\<lparr>byte_stream := byte_stream st @ pend\<rparr>)"
    using assms by (simp add: append_stream_def slice_def)
  then show ?thesis using assms(1,2) False by (simp add: mpeg_parse_def Let_def)
qed

lemma parse_to_unit:
  assumes "read_byte st = int (length pend)" "s1 = st\<lparr>byte_stream := byte_stream st @ pend, read_byte := 0\<rparr>"
    "\<forall>u \<in> set us. unit_ok u" "bounded us s1" "data = pend @ concat (map unit_bytes us) @ rest" "length data < 2 ^ 31"
  shows "mpeg_parse data st = parse_loop data (length pend + length (concat (map unit_bytes us))) (fold consume us s1)"
proof -
  have "mpeg_parse data st = parse_loop data (length pend) s1"
    unfolding assms(2) using bounded_now[OF assms(4)] assms(1,2,5) by (intro parse_resume) simp_all
  also have "\<dots> = parse_loop data (length pend + length (concat (map unit_bytes us))) (fold consume us s1)"
    using assms(3-6) by (intro parse_loop_units)
  finally show ?thesis .
qed

lemma parse_all_cut:
  assumes "stream_cut pend us ds" "\<forall>u \<in> set us. unit_ok u" "\<forall>d \<in> set ds. length d < 2 ^ 31"
    "read_byte st = int (length pend)" "bounded us (st\<lparr>byte_stream := byte_stream st @ pend\<rparr>)"
  shows "parse_all ds st = Some (replicate (length ds) 0, fold consume us (st\<lparr>byte_stream := byte_stream st @ pend, read_byte := 0\<rparr>))"
  using assms
proof (induction arbitrary: st rule: stream_cut.induct)
  case cut_end
  then show ?case by simp
next
  case (cut_inside k pend us ds)
  let ?st = "st\<lparr>byte_stream := byte_stream st @ take k pend, read_byte := int (length pend - k)\<rparr>"
  have b: "length (byte_stream st) + length pend \<le> kByteStreamSize" using bounded_now[OF cut_inside(8)] by simp
  have "mpeg_parse (take k pend) st = parse_loop (take k pend) k ?st"
    using cut_inside(2,3,7) b by (auto simp: mpeg_parse_def Let_def append_stream_def slice_def min_def of_nat_diff)
  also have "\<dots> = Some (0, ?st)" using cut_inside(3) by (intro parse_loop_end) simp
  finally have p: "mpeg_parse (take k pend) st = Some (0, ?st)" .
  have e: "?st\<lparr>byte_stream := byte_stream ?st @ drop k pend\<rparr> = (st\<lparr>byte_stream := byte_stream st @ pend\<rparr>)\<lparr>read_byte := int (length pend - k)\<rparr>"
    by (cases st) simp
  have "bounded us (?st\<lparr>byte_stream := byte_stream ?st @ drop k pend\<rparr>)"
    unfolding e using cut_inside(8) bounded_read_byte[of us "int (length pend - k)" "st\<lparr>byte_stream := byte_stream st @ pend\<rparr>"] by simp
  then have "parse_all ds ?st = Some (replicate (length ds) 0, fold consume us (?st\<lparr>byte_stream := byte_stream ?st @ drop k pend, read_byte := 0\<rparr>))"
    using cut_inside(5,6) by (intro cut_inside(4)) simp_all
  moreover have "?st\<lparr>byte_stream := byte_stream ?st @ drop k pend, read_byte := 0\<rparr> = st\<lparr>byte_stream := byte_stream st @ pend, read_byte := 0\<rparr>"
    by (cases st) simp
  ultimately show ?case using p by simp
next
  case (cut_between us ds pend vs)
  let ?s1 = "st\<lparr>byte_stream := byte_stream st @ pend, read_byte := 0\<rparr>" and ?d = "pend @ concat (map unit_bytes vs)"
  have b: "bounded (vs @ us) ?s1"
    using cut_between(6) bounded_read_byte[of "vs @ us" 0 "st\<lparr>byte_stream := byte_stream st @ pend\<rparr>"] by simp
  have "mpeg_parse ?d st = parse_loop ?d (length pend + length (concat (map unit_bytes vs))) (fold consume vs ?s1)"
    using cut_between(3,4,5) b by (intro parse_to_unit[where rest = "[]"]) (simp_all add: bounded_append)
  also have "\<dots> = Some (0, fold consume vs ?s1)" by (intro parse_loop_end) simp
  finally have p: "mpeg_parse ?d st = Some (0, fold consume vs ?s1)" .
  have "parse_all ds (fold consume vs ?s1) = Some (replicate (length ds) 0,
      fold consume us ((fold consume vs ?s1)\<lparr>byte_stream := byte_stream (fold consume vs ?s1) @ [], read_byte := 0\<rparr>))"
    using cut_between(3,4) b by (intro cut_between(2)) (simp_all add: read_byte_fold bounded_append)
  moreover have "(fold consume vs ?s1)\<lparr>byte_stream := byte_stream (fold consume vs ?s1) @ [], read_byte := 0\<rparr> = fold consume vs ?s1"
    using read_byte_fold[of vs ?s1] by simp
  ultimately show ?case using p by simp
next
  case (cut_payload n p us ds pend vs i j h)
  let ?s1 = "st\<lparr>byte_stream := byte_stream st @ pend, read_byte := 0\<rparr>" and ?u = "VideoUnit i j h p"
  let ?t = "take (9 + length h + n) (unit_bytes ?u)" and ?c = "concat (map unit_bytes vs)"
  let ?s2 = "fold consume vs ?s1"
  let ?v = "video_start j h p ?s2"
  let ?s3 = "?v\<lparr>byte_stream := byte_stream ?v @ take n p, read_byte := int (length p - n)\<rparr>"
  have b: "bounded (vs @ ?u # us) ?s1"
    using cut_payload(8) bounded_read_byte[of "vs @ ?u # us" 0 "st\<lparr>byte_stream := byte_stream st @ pend\<rparr>"] by simp
  have ok: "unit_ok ?u" "length (pend @ ?c @ ?t) < 2 ^ 31" using cut_payload(5,6) by simp_all
  have "mpeg_parse (pend @ ?c @ ?t) st = parse_loop (pend @ ?c @ ?t) (length pend + length ?c) ?s2"
    using cut_payload(5,7) ok(2) b by (intro parse_to_unit[where rest = ?t]) (simp_all add: bounded_append)
  also have "\<dots> = Some (0, ?s3)"
  proof (rule parse_loop_return)
    have "bounded (?u # us) ?s2" using b unfolding bounded_append by blast
    then have "length (byte_stream (consume ?u ?s2)) \<le> kByteStreamSize" unfolding bounded.simps using bounded_now by blast
    then have "parse_unit ((pend @ ?c) @ ?t) (length (pend @ ?c)) ?s2 = Some (Return 0 ?s3)"
      by (intro parse_video_cut[OF ok(1) cut_payload(2,3) refl]) simp_all
    then show "parse_unit (pend @ ?c @ ?t) (length pend + length ?c) ?s2 = Some (Return 0 ?s3)" by simp
  qed simp
  finally have p: "mpeg_parse (pend @ ?c @ ?t) st = Some (0, ?s3)" .
  have e: "?s3\<lparr>byte_stream := byte_stream ?s3 @ drop n p, read_byte := 0\<rparr> = consume ?u ?s2"
    using read_byte_consume[of ?u ?s2] read_byte_fold[of vs ?s1] by (simp add: Let_def)
  have "bounded us (?s3\<lparr>byte_stream := byte_stream ?s3 @ drop n p\<rparr>)"
  proof -
    have "bounded us (?s3\<lparr>byte_stream := byte_stream ?s3 @ drop n p, read_byte := 0\<rparr>)" using b unfolding e by (simp add: bounded_append)
    then show ?thesis using bounded_read_byte[of us 0 "?s3\<lparr>byte_stream := byte_stream ?s3 @ drop n p\<rparr>"] by simp
  qed
  then have "parse_all ds ?s3 = Some (replicate (length ds) 0, fold consume us (consume ?u ?s2))"
    unfolding e [symmetric] using cut_payload(5,6) by (intro cut_payload(4)) simp_all
  then show ?case using p by simp
qed

text \<open>
  A frame: units of which the first video packet begins with the start code of a network abstraction unit and no other video packet does.
\<close>

fun video_part :: "ps_unit \<Rightarrow> byte list option" where
  "video_part (VideoUnit i j h p) = Some p"
| "video_part _ = None"

definition frame_bytes :: "ps_unit list \<Rightarrow> byte list" where
  "frame_bytes us = concat (List.map_filter video_part us)"

definition is_frame :: "ps_unit list \<Rightarrow> bool" where
  "is_frame us \<longleftrightarrow> (case List.map_filter video_part us of [] \<Rightarrow> False
     | p # ps \<Rightarrow> take 4 p = [0, 0, 0, 1] \<and> (\<forall>q \<in> set ps. take 4 q \<noteq> [0, 0, 0, 1])) \<and> 4 < length (frame_bytes us)"

definition video_frames :: "MpegEvent list \<Rightarrow> byte list list" where
  "video_frames es = List.map_filter (\<lambda>e. case e of RecvVideoFrame bs _ \<Rightarrow> Some bs | RecvAudioFrame _ \<Rightarrow> None) es"

definition audio_frames :: "MpegEvent list \<Rightarrow> byte list list" where
  "audio_frames es = List.map_filter (\<lambda>e. case e of RecvVideoFrame _ _ \<Rightarrow> None | RecvAudioFrame bs \<Rightarrow> Some bs) es"

fun audio_part :: "ps_unit \<Rightarrow> byte list option" where
  "audio_part (AudioUnit i j h p) = Some p"
| "audio_part _ = None"

lemma map_filter_append: "List.map_filter f (xs @ ys) = List.map_filter f xs @ List.map_filter f ys"
  by (simp add: List.map_filter_def)

lemma fold_audio: "audio_frames (signals (fold consume us st)) = audio_frames (signals st) @ List.map_filter audio_part us"
proof (induction us arbitrary: st)
  case (Cons u us)
  then show ?case
    by (cases u) (auto simp: audio_frames_def map_filter_append video_start_def Let_def List.map_filter_simps)
qed (simp add: List.map_filter_simps)

text \<open>Units that do not begin a frame only add to the one under construction.\<close>

lemma fold_inside:
  assumes "\<forall>q \<in> set (List.map_filter video_part us). take 4 q \<noteq> [0, 0, 0, 1]"
  shows "video_frames (signals (fold consume us st)) = video_frames (signals st) \<and>
    byte_stream (fold consume us st) = byte_stream st @ frame_bytes us"
  using assms
proof (induction us arbitrary: st)
  case (Cons u us)
  have "video_frames (signals (consume u st)) = video_frames (signals st) \<and> byte_stream (consume u st) = byte_stream st @ frame_bytes [u]"
    using Cons.prems by (cases u) (auto simp: video_frames_def map_filter_append video_start_def Let_def List.map_filter_simps frame_bytes_def)
  moreover have "\<forall>q \<in> set (List.map_filter video_part us). take 4 q \<noteq> [0, 0, 0, 1]"
    using Cons.prems by (cases u) (auto simp: List.map_filter_simps)
  ultimately show ?case using Cons.IH[of "consume u st"] by (cases u) (auto simp: frame_bytes_def List.map_filter_simps)
qed (simp add: frame_bytes_def List.map_filter_simps)

lemma fold_frame:
  assumes "is_frame us"
  shows "video_frames (signals (fold consume us st)) =
      video_frames (signals st) @ (if 4 < length (byte_stream st) then [byte_stream st] else []) \<and>
    byte_stream (fold consume us st) = (if 4 < length (byte_stream st) then frame_bytes us else byte_stream st @ frame_bytes us)"
  using assms
proof (induction us arbitrary: st)
  case (Cons u us)
  show ?case
  proof (cases "video_part u")
    case None
    then have "video_frames (signals (consume u st)) = video_frames (signals st)" "byte_stream (consume u st) = byte_stream st"
      by (cases u; simp add: video_frames_def map_filter_append List.map_filter_simps)+
    moreover have "is_frame us" "frame_bytes (u # us) = frame_bytes us"
      using Cons.prems None by (simp_all add: is_frame_def frame_bytes_def List.map_filter_simps)
    ultimately show ?thesis using Cons.IH[of "consume u st"] by simp
  next
    case (Some p)
    then obtain i j h where u: "u = VideoUnit i j h p" by (cases u) auto
    have "take 4 p = [0, 0, 0, 1]" and rest: "\<forall>q \<in> set (List.map_filter video_part us). take 4 q \<noteq> [0, 0, 0, 1]"
      using Cons.prems by (auto simp: is_frame_def u List.map_filter_simps)
    then show ?thesis
      using fold_inside[OF rest, of "consume u st"]
      by (auto simp: u frame_bytes_def List.map_filter_simps video_start_def Let_def video_frames_def map_filter_append)
  qed
qed (simp add: is_frame_def List.map_filter_simps)

lemma fold_frames:
  assumes "\<forall>f \<in> set fs. is_frame f" "4 < length (byte_stream st)"
  shows "video_frames (signals (fold consume (concat fs) st)) @ [byte_stream (fold consume (concat fs) st)] =
    video_frames (signals st) @ byte_stream st # map frame_bytes fs"
  using assms
proof (induction fs arbitrary: st)
  case (Cons f fs)
  have "4 < length (frame_bytes f)" using Cons.prems(1) by (simp add: is_frame_def)
  then show ?case
    using Cons.IH[of "fold consume f st"] Cons.prems fold_frame[of f st] by simp
qed simp


definition sample_frames :: "ps_unit list list" where
  "sample_frames = [[PackUnit (replicate 9 0) 0 [], VideoUnit 0x80 0x80 [1, 1, 1, 1, 1] [0, 0, 0, 1, 0x65, 7, 8, 9], VideoUnit 0x80 0 [] [5, 6]],
     [AudioUnit 0x80 0 [] [5, 6], VideoUnit 0x80 0 [] [0, 0, 0, 1, 0x41]]]"

definition sample_datagrams :: "byte list list" where
  "sample_datagrams = [unit_bytes (PackUnit (replicate 9 0) 0 []) @
       take (9 + 5 + 6) (unit_bytes (VideoUnit 0x80 0x80 [1, 1, 1, 1, 1] [0, 0, 0, 1, 0x65, 7, 8, 9])),
     [8, 9] @ take (9 + 1) (unit_bytes (VideoUnit 0x80 0 [] [5, 6])),
     [6] @ unit_bytes (AudioUnit 0x80 0 [] [5, 6]) @ unit_bytes (VideoUnit 0x80 0 [] [0, 0, 0, 1, 0x41])]"

lemma sample_cut: "stream_cut [] (concat sample_frames) sample_datagrams"
proof -
  let ?p = "[0, 0, 0, 1, 0x65, 7, 8, 9] :: byte list" and ?q = "[5, 6] :: byte list"
    and ?vs = "[AudioUnit 0x80 0 [] [5, 6], VideoUnit 0x80 0 [] [0, 0, 0, 1, 0x41]]"
  have d: "code_decided (take 6 ?p)" "code_decided (take 1 ?q)" by (simp_all add: code_decided_def start_code_def)
  have "stream_cut (drop 1 ?q) (?vs @ []) [drop 1 ?q @ concat (map unit_bytes ?vs)]" by (rule cut_between[OF cut_end])
  from cut_payload[OF this d(2), of "drop 6 ?p" "[]" "0x80" 0 "[]"]
  have "stream_cut (drop 6 ?p) (VideoUnit 0x80 0 [] ?q # ?vs)
      [drop 6 ?p @ take (9 + 1) (unit_bytes (VideoUnit 0x80 0 [] ?q)), drop 1 ?q @ concat (map unit_bytes ?vs)]"
    by (simp del: unit_bytes.simps)
  from cut_payload[OF this d(1), of "[]" "[PackUnit (replicate 9 0) 0 []]" "0x80" "0x80" "[1, 1, 1, 1, 1]"]
  show ?thesis by (simp add: sample_frames_def sample_datagrams_def del: unit_bytes.simps)
qed


subsection \<open>Where a datagram may end\<close>

text \<open>
  The value returned for a datagram that ends \<open>k\<close> bytes into a unit, in a decoder with the state before that unit; \<open>None\<close> when the
  decoder leaves its buffers.
\<close>

fun end_result :: "nat \<Rightarrow> ps_unit \<Rightarrow> MpegDecoder \<Rightarrow> int option" where
  "end_result k (PackUnit b s x) st = (if k \<le> 4 then Some 0 else if k < 14 then None else Some 0)"
| "end_result k (HeaderUnit sid x) st = (if k \<le> 4 then Some 0 else if k < 6 then Some (-1) else Some 0)"
| "end_result k (AudioUnit i j h p) st =
     (if k \<le> 4 then Some 0 else if k < 9 then Some (-1) else if k < 9 + length h + length p then None else Some 0)"
| "end_result k (VideoUnit i j h p) st =
     (if k \<le> 4 then Some 0 else if k < 9 then Some (-1) else if k < 9 + length h then None
      else if 4 < length (byte_stream st) \<and> \<not> code_decided (take (k - 9 - length h) p) then None
      else if kByteStreamSize < length (byte_stream (video_start j h p st)) + (k - 9 - length h) then None
      else Some 0)"

definition loop_result :: "byte list \<Rightarrow> nat \<Rightarrow> MpegDecoder \<Rightarrow> int option" where
  "loop_result data len st = map_option fst (parse_loop data len st)"

lemma loop_result_unit:
  assumes "len + 4 < length data"
  shows "loop_result data len st = (case parse_unit data len st of None \<Rightarrow> None | Some (Return r _) \<Rightarrow> Some r
     | Some (Go len' st') \<Rightarrow> loop_result data len' st')"
  using assms by (auto simp: loop_result_def parse_loop.simps[of data len st] split: option.splits outcome.splits)

lemma loop_result_end: "length data \<le> len + 4 \<Longrightarrow> loop_result data len st = Some 0"
  by (simp add: loop_result_def parse_loop_end)

lemma read_start:
  assumes "data = pre @ [0, 0, 1, sid] @ rest"
  shows "matches_at data (length pre) [0, 0, 1] = Some True" "get_u8 data (length pre + 3) = Some sid"
  using matches_at_here[of pre "[0, 0, 1, sid] @ rest" "[0, 0, 1]"] by (simp_all add: assms wire_simps)

lemma take_start: "4 \<le> k \<Longrightarrow> take k ([0, 0, 1, sid] @ xs) = [0, 0, 1, sid] @ take (k - 4) xs"
  unfolding take_append by (simp add: numeral_eq_Suc)

lemma pack_end:
  assumes k: "4 < k" "k \<le> length (unit_bytes u)" and u: "u = PackUnit b s x" "unit_ok u" and data: "data = pre @ take k (unit_bytes u)"
  shows "loop_result data (length pre) st = end_result k u st"
proof -
  have "data = pre @ [0, 0, 1, 0xBA] @ take (k - 4) (b @ [s] @ x)" unfolding data u unit_bytes.simps using k by (subst take_start) simp_all
  note r = read_start[OF this]
  have l: "length data = length pre + k" using k by (simp add: data)
  show ?thesis
  proof (cases "k < 14")
    case True
    then have "get_u8 data (length pre + 13) = None" using l by (simp add: get_u8_def)
    then show ?thesis using k True l r by (simp add: loop_result_unit parse_unit_def pack_header_def u)
  next
    case False
    then have "get_u8 data (length pre + 13) = Some s" using u l by (simp add: get_u8_def data nth_append)
    moreover have "k \<le> 14 + unat (s AND 7)" using k u by simp
    ultimately show ?thesis using k False l r by (simp add: loop_result_unit parse_unit_def pack_header_def u loop_result_end)
  qed
qed

lemma header_end:
  assumes k: "4 < k" "k \<le> length (unit_bytes u)" and u: "u = HeaderUnit sid x" "unit_ok u" and data: "data = pre @ take k (unit_bytes u)"
  shows "loop_result data (length pre) st = end_result k u st"
proof -
  have "data = pre @ [0, 0, 1, sid] @ take (k - 4) (put_be16 (of_nat (length x)) @ x)"
    unfolding data u unit_bytes.simps using k by (subst take_start) simp_all
  note r = read_start[OF this]
  have l: "length data = length pre + k" using k by (simp add: data)
  have sid: "sid \<noteq> 0xBA" "sid = 0xBB \<or> sid = 0xBC" using u by auto
  show ?thesis
  proof (cases "k < 6")
    case True
    then show ?thesis using k l r sid by (simp add: loop_result_unit parse_unit_def system_header_def u)
  next
    case False
    have "take k (unit_bytes u) = [0, 0, 1, sid] @ put_be16 (of_nat (length x)) @ take (k - 6) x"
      unfolding u unit_bytes.simps using k False by (subst take_start) simp_all
    then have "get_be16 data (length pre + 4) = Some (of_nat (length x))" by (simp add: data wire_simps)
    moreover have "unat (of_nat (length x) :: u16) = length x" using u by (simp only: unat_of_nat) simp
    moreover have "k \<le> length x + 6" using k u by simp
    ultimately show ?thesis
      using k False l r sid by (simp add: loop_result_unit parse_unit_def system_header_def u sizeof_program_stream_map_def loop_result_end)
  qed
qed

lemma pes_short:
  assumes "4 < k" "k < 9" "u = AudioUnit i j h p \<or> u = VideoUnit i j h p" "data = pre @ take k (unit_bytes u)"
  shows "loop_result data (length pre) st = Some (-1)"
proof -
  obtain sid xs where u: "unit_bytes u = [0, 0, 1, sid] @ xs" "sid = 0xC0 \<or> sid = 0xE0" "9 \<le> length (unit_bytes u)"
    using assms(3) by (auto simp: pes_head_def pes_fixed_def)
  then have "data = pre @ [0, 0, 1, sid] @ take (k - 4) xs" unfolding assms(4) u(1) using assms(1) by (subst take_start) simp_all
  note r = read_start[OF this]
  have l: "length data = length pre + k" using assms(2,4) u(3) by simp
  show ?thesis using u(2) l assms(1,2) r by (auto simp: loop_result_unit parse_unit_def pes_audio_def pes_video_def)
qed

lemma take_pes: "9 \<le> k \<Longrightarrow> take k (pes_fixed sid i j h p @ xs) = pes_fixed sid i j h p @ take (k - 9) xs"
  by simp

lemma audio_end:
  assumes k: "4 < k" "k \<le> length (unit_bytes u)" and u: "u = AudioUnit i j h p" "unit_ok u" and data: "data = pre @ take k (unit_bytes u)"
  shows "loop_result data (length pre) st = end_result k u st"
proof (cases "k < 9")
  case True
  then show ?thesis using pes_short[OF k(1) True _ data] u(1) k(1) by simp
next
  case False
  have d: "data = pre @ pes_fixed 0xC0 i j h p @ take (k - 9) (h @ p)" using False take_pes[of k] by (simp add: data u pes_head_def)
  have "length h < 256" "3 + length h + length p < 2 ^ 16" using u by simp_all
  note r = read_pes[OF this d]
  have l: "length data = length pre + k" using k by (simp add: data)
  have c: "\<not> int (length data) - int (length pre) < 9" "0 < length p" using u False by (auto simp: l)
  have g: "length pre + 4 < length data" using k(1) l by simp
  show ?thesis
  proof (cases "k = length (unit_bytes u)")
    case True
    then have "parse_unit data (length pre) st = Some (Go (length pre + length (unit_bytes u)) (consume u st))"
      using parse_other_whole[OF u(2), of data pre "[]" st] data u(1) by simp
    then show ?thesis using g l True u(1) by (simp add: loop_result_unit loop_result_end)
  next
    case cut: False
    then have s: "slice data (length pre + 9 + length h) (length p) = None" using k u(1) l by (simp add: slice_def)
    have "pes_audio data (length pre) st = None"
      unfolding pes_audio_def
      by (simp only: c if_False if_True r Option.bind.bind_lunit Let_def sizeof_program_stream_e_def s Option.bind.bind_lzero)
    then have "parse_unit data (length pre) st = None"
      unfolding parse_unit_def by (simp only: r Option.bind.bind_lunit if_True if_False simp_thms) simp
    then show ?thesis using g k False cut u(1) by (simp add: loop_result_unit)
  qed
qed

text \<open>A datagram that ends in the header data of a video packet: the available size is negative, and becomes a huge \<open>size_t\<close>.\<close>

lemma video_head_cut:
  assumes k: "9 \<le> k" "k < 9 + length h" and ok: "unit_ok (VideoUnit i j h p)" and data: "data = pre @ take k (unit_bytes (VideoUnit i j h p))"
  shows "parse_unit data (length pre) st = None"
proof -
  have d: "data = pre @ pes_fixed 0xE0 i j h p @ take (k - 9) (h @ p)" using k take_pes[of k] by (simp add: data pes_head_def)
  have hp: "length h < 256" "3 + length h + length p < 2 ^ 16" using ok by simp_all
  note r = read_pes[OF hp d]
  have l: "length data = length pre + k" using k by (simp add: data)
  have c: "\<not> int (length data) - int (length pre) < 9" "0 < length p" using k ok code_decided_nonempty[of p] by (auto simp: l)
  let ?a = "int (length data) - int (length pre) - int 9 - int (length h)"
  have a: "- 256 < ?a" "?a < 0" using k hp(1) by (simp_all add: l)
  have av: "sint (word_of_int ?a :: u32) = ?a" by (rule sint_u32_small) (use a in simp_all)
  have "?a mod 2 ^ 64 = 2 ^ 64 + ?a" using a mod_add_self1[of "2 ^ 64" ?a] by (simp add: mod_pos_pos_trivial)
  then have "int (length p) \<le> ?a mod 2 ^ 64" using a(1) hp(2) by simp
  then have n: "\<not> nat (?a mod 2 ^ 64) < length p" by linarith
  have s: "append_stream data (length pre + 9 + length h) (length p) st' = None" for st'
    using c(2) k by (simp add: append_stream_def slice_def l)
  have "pes_video data (length pre) st = None"
    unfolding pes_video_def
    by (simp only: c if_False if_True r Option.bind.bind_lunit Let_def sizeof_program_stream_e_def av n s Option.bind.bind_lzero)
      (simp split: Option.bind_splits)
  then show ?thesis unfolding parse_unit_def by (simp only: r Option.bind.bind_lunit if_True if_False simp_thms) simp
qed

text \<open>A datagram that ends where the bytes of the payload at hand leave it open whether a start code begins.\<close>

lemma video_code_cut:
  assumes ok: "unit_ok (VideoUnit i j h p)" and n: "\<not> code_decided (take n p)" "4 < length (byte_stream st)"
    and data: "data = pre @ take (9 + length h + n) (unit_bytes (VideoUnit i j h p))"
  shows "parse_unit data (length pre) st = None"
proof -
  have d: "data = pre @ pes_fixed 0xE0 i j h p @ h @ take n p" by (simp add: data pes_head_def)
  have hp: "length h < 256" "3 + length h + length p < 2 ^ 16" using ok by simp_all
  note r = read_pes[OF hp d]
  have c: "\<not> int (length data) - int (length pre) < 9" "0 < length p" using ok code_decided_nonempty[of p] by (auto simp: d)
  have "matches_at data (length pre + 9 + length h) [0, 0, 0, 1] = None"
    using matches_code[of "pre @ pes_head 0xE0 i j h p" "length pre + 9 + length h" "take n p"] n(1) by (simp add: data del: matches_at.simps)
  then have f: "flush_frame data (length pre + 9 + length h) st = None" using n(2) by (simp add: flush_frame_def del: matches_at.simps)
  have "pes_video data (length pre) st = None"
    unfolding pes_video_def
    by (simp only: c if_False if_True r Option.bind.bind_lunit Let_def sizeof_program_stream_e_def f Option.bind.bind_lzero)
  then show ?thesis unfolding parse_unit_def by (simp only: r Option.bind.bind_lunit if_True if_False simp_thms) simp
qed

lemma video_end:
  assumes k: "4 < k" "k \<le> length (unit_bytes u)" and u: "u = VideoUnit i j h p" "unit_ok u"
    and data: "data = pre @ take k (unit_bytes u)" "length data < 2 ^ 31"
  shows "loop_result data (length pre) st = end_result k u st"
proof -
  have l: "length data = length pre + k" using k by (simp add: data)
  have g: "length pre + 4 < length data" using k(1) l by simp
  note ok = u(2)[unfolded u(1)] and data' = data(1)[unfolded u(1)]
  consider "k < 9" | "9 \<le> k" "k < 9 + length h" | n where "k = 9 + length h + n" "n \<le> length p"
  proof -
    have "k \<le> 9 + length h + length p" using k(2) u(1) by simp
    then have "k < 9 + length h \<or> k = 9 + length h + (k - 9 - length h) \<and> k - 9 - length h \<le> length p" by linarith
    then show ?thesis using that by (metis not_less)
  qed
  then show ?thesis
  proof cases
    case 1
    then show ?thesis using pes_short[OF k(1) 1 _ data(1)] u(1) k(1) by simp
  next
    case 2
    then show ?thesis using video_head_cut[OF 2 ok data'] g u(1) by (simp add: loop_result_unit)
  next
    case (3 n)
    let ?v = "video_start j h p st"
    have a: "append_stream data (length pre + 9 + length h) n ?v =
        (if kByteStreamSize < length (byte_stream ?v) + n then None else Some (?v\<lparr>byte_stream := byte_stream ?v @ take n p\<rparr>))"
      using 3 u(1) by (simp add: append_stream_def data(1) slice_def wire_simps)
    show ?thesis
    proof (cases "4 < length (byte_stream st) \<longrightarrow> code_decided (take n p)")
      case False
      then show ?thesis using video_code_cut[OF ok, of n st data pre] g 3 u(1) data' by (simp add: loop_result_unit)
    next
      case True
      show ?thesis
      proof (cases "n = length p")
        case all: True
        then have "parse_unit data (length pre) st = do { st \<leftarrow> append_stream data (length pre + 9 + length h) n ?v;
            Some (Go (length pre + length (unit_bytes u)) st) }"
          using parse_video_complete[OF ok, of data pre "[]" st] data 3 u(1) by simp
        then show ?thesis using a g l 3 all True k u(1) by (simp add: loop_result_unit loop_result_end)
      next
        case False
        then have "parse_unit data (length pre) st = do { st \<leftarrow> append_stream data (length pre + 9 + length h) n ?v;
            Some (Return 0 (st\<lparr>read_byte := int (length p - n)\<rparr>)) }"
          using parse_video_part[OF ok True, of data pre] data' 3 by simp
        then show ?thesis using a g True 3 k u(1) by (simp add: loop_result_unit)
      qed
    qed
  qed
qed

lemma unit_end:
  assumes "k \<le> length (unit_bytes u)" "unit_ok u" "data = pre @ take k (unit_bytes u)" "length data < 2 ^ 31"
  shows "loop_result data (length pre) st = end_result k u st"
proof (cases "4 < k")
  case True
  then show ?thesis
    using pack_end[OF True assms(1)] header_end[OF True assms(1)] audio_end[OF True assms(1)] video_end[OF True assms(1)] assms(2-4)
    by (cases u) blast+
next
  case False
  then have "loop_result data (length pre) st = Some 0" using assms(1,3) by (intro loop_result_end) simp
  then show ?thesis using False by (cases u) simp_all
qed

text \<open>
  C38: A datagram holds the rest of the payload the previous one ended in, whole units, and the first \<open>k\<close> bytes of a further unit
  (everything well formed, the frame under construction within the 8 MB). With up to four bytes of that unit the call returns 0. A pack header cut
  between its bytes 5 and 13 is read behind the datagram. A system header or map cut at byte 5 is answered by -1, a later cut goes unnoticed.
  An audio or video packet cut between its bytes 5 and 8 is answered by -1. Any later cut of an audio packet makes the decoder read behind
  the datagram, and so does a cut of a video packet inside its header data or, when the frame under construction has more than four bytes, where the
  payload bytes at hand are fewer than four and all agree with the start code. A part of a video payload for which the frame under construction
  has no room is stored behind its 8 MB. In all other cases the call returns 0.
\<close>

theorem mpeg_overruns:
  assumes "read_byte st = int (length pend)" "s1 = st\<lparr>byte_stream := byte_stream st @ pend, read_byte := 0\<rparr>"
    "\<forall>v \<in> set us. unit_ok v" "bounded us s1" "unit_ok u" "k \<le> length (unit_bytes u)"
    "data = pend @ concat (map unit_bytes us) @ take k (unit_bytes u)" "length data < 2 ^ 31"
  shows "map_option fst (mpeg_parse data st) = end_result k u (fold consume us s1)"
proof -
  let ?pre = "pend @ concat (map unit_bytes us)"
  have "mpeg_parse data st = parse_loop data (length ?pre) (fold consume us s1)"
    using parse_to_unit[OF assms(1-4,7,8)] by simp
  then show ?thesis
    using unit_end[OF assms(6,5), of data ?pre "fold consume us s1"] assms(7,8) by (simp add: loop_result_def)
qed

theorem mpeg_overruns_witness:
  "map_option fst (mpeg_parse (unit_bytes (VideoUnit 0x80 0 [] [0, 0, 0, 1, 0x65]) @ take 11 (unit_bytes (VideoUnit 0x80 0 [] [0, 0, 0, 1, 0x41])))
       MpegDecoder_init) = None \<and>
   map_option fst (mpeg_parse (take 7 (unit_bytes (AudioUnit 0x80 0 [] [5, 6]))) MpegDecoder_init) = Some (-1) \<and>
   map_option fst (mpeg_parse (take 10 (unit_bytes (AudioUnit 0x80 0 [] [5, 6]))) MpegDecoder_init) = None"
proof -
  let ?i = MpegDecoder_init and ?v = "VideoUnit 0x80 0 [] [0, 0, 0, 1, 0x65]" and ?w = "VideoUnit 0x80 0 [] [0, 0, 0, 1, 0x41]"
    and ?a = "AudioUnit 0x80 0 [] [5, 6]"
  have i: "read_byte ?i = int (length [])" "?i = ?i\<lparr>byte_stream := byte_stream ?i @ [], read_byte := 0\<rparr>"
    by (simp_all add: MpegDecoder_init_def)
  have "\<forall>v \<in> set [?v]. unit_ok v" "unit_ok ?w" "unit_ok ?a"
    by (simp_all add: has_pts_def code_decided_def)
  moreover have "length (unit_bytes ?w) = 14" "length (unit_bytes ?a) = 11" by simp_all
  moreover have "length (unit_bytes ?v @ take 11 (unit_bytes ?w)) < 2 ^ 31" "length (take 7 (unit_bytes ?a)) < 2 ^ 31"
    "length (take 10 (unit_bytes ?a)) < 2 ^ 31" by simp_all
  moreover have "bounded [?v] ?i" "bounded [] ?i"
    by (simp_all add: MpegDecoder_init_def kByteStreamSize_def video_start_def Let_def)
  moreover have "end_result 11 ?w (fold consume [?v] ?i) = None"
    by (simp add: MpegDecoder_init_def video_start_def Let_def code_decided_def start_code_def)
  moreover have "end_result 7 ?a (fold consume [] ?i) = Some (-1)" "end_result 10 ?a (fold consume [] ?i) = None" by simp_all
  ultimately show ?thesis
    using mpeg_overruns[OF i, of "[?v]" ?w 11 "unit_bytes ?v @ take 11 (unit_bytes ?w)"]
      mpeg_overruns[OF i, of "[]" ?a 7 "take 7 (unit_bytes ?a)"] mpeg_overruns[OF i, of "[]" ?a 10 "take 10 (unit_bytes ?a)"]
    by (simp del: unit_bytes.simps unit_ok.simps consume.simps bounded.simps end_result.simps fold_simps)
qed

end
