(* ===== verification/Spec2Isabelle.thy ===== *)
theory Spec2Isabelle
  imports Rtcp_Reports Rtcp_Bitrate Rtcp_Session Rtcp_Xr Rtcp_Transport_Feedback Rtp_Header_Extensions
    Rtp_H264_Stream Http_Safety Fec_Session Librtc_Stun Mpeg_Stream
begin

text \<open>
  A verification library for the media transfer protocol stack under \<open>src/\<close>.

  \<^bold>\<open>The program.\<close> The repository is a C++ media stack: RTP and RTCP (\<open>rtp_rtcp/\<close>, derived from WebRTC), congestion
  control and pacing (\<open>congestion_controller/\<close>, \<open>pacing/\<close>, \<open>remote_bitrate_estimator/\<close>), and the servers and formats
  built on them (\<open>libhttp/\<close>, \<open>libflv/\<close>, \<open>libmpeg/\<close>, \<open>librtc/\<close>, \<open>librtsp/\<close>, \<open>libsip/\<close>, \<open>libgb28181/\<close>, \<open>libnetwork/\<close>, \<open>sctp/\<close>).
  What goes over the network is bytes, so the core of the program is the code that turns objects into bytes
  and received bytes into objects; that is what the development covers first.

  \<^bold>\<open>Conventions.\<close> A class is a \<open>record\<close>, an enum a \<open>datatype\<close>, \<open>uintN_t\<close> a word of \<open>N\<close> bits, \<open>int\<close> and \<open>int64_t\<close> are
  \<open>int\<close> with the conversions written out, \<open>size_t\<close> is \<open>nat\<close> with \<open>size_sub\<close> (\<open>usub\<close> in the HTTP theories) where it can wrap. A parser returns
  \<open>(bool * object) option\<close>: the code's result and the object as the code leaves it, and \<open>None\<close> when the code reads outside
  its buffer. A writer returns the bytes, or sets a fault flag when it would store outside its buffer. A failed
  \<open>RTC_CHECK\<close> is a fault; \<open>RTC_DCHECK\<close>, \<open>assert\<close> and logging are not behaviour. Code that is not under \<open>src/\<close> (\<open>rtc_base\<close>,
  \<open>absl\<close>, \<open>api/units\<close>, \<open>NtpTime\<close>) is an argument of the definitions that call it, with a named hypothesis that states
  its documented behaviour (\<open>cast16_law\<close>, \<open>ntp_halves\<close>, \<open>div_exact_law\<close>, \<open>splits_fields\<close>, \<open>walks\<close>, \<open>grow_law\<close>, \<open>seq_laws\<close>, \<open>hmac_law\<close>, \<open>h264_law\<close> and the like) and, for every
  property that has one, a witness with a concrete function.

  \<^bold>\<open>The theories.\<close>
  \<^item> \<open>Prelude\<close>: byte-list lemmas, bounds-checked reads, \<open>put_at\<close> (storing into a buffer), \<open>returns\<close> (a parser ends without an
    out-of-bounds read and a success satisfies a predicate).
  \<^item> \<open>Byte_Io\<close>: \<open>rtp_rtcp/byte_io.h\<close>, the generic byte loops and the unrolled specialisations.
  \<^item> \<open>Rtcp_Packet\<close>: \<open>rtcp_packet.cc\<close> and \<open>rtcp_packet/common_header.cc\<close>: the header, the write position and flushing of \<open>Build\<close>,
    and the locales \<open>rtcp_writer\<close> and \<open>rtcp_codec\<close>, the contract of an RTCP packet class (its writer fills exactly
    \<open>BlockLength\<close>, its parser is safe and inverts the writer). The classes of the following theories are interpretations of it.
  \<^item> \<open>Rtcp_Reports\<close> (sender, receiver and jitter reports), \<open>Rtcp_Feedback\<close> (PLI, rapid resync, FIR, NACK), \<open>Rtcp_Bitrate\<close> (TMMBR,
    TMMBN, REMB), \<open>Rtcp_Session\<close> (SDES, BYE, APP, loss notification), \<open>Rtcp_Xr\<close> (extended reports).
  \<^item> \<open>Rtcp_Status_Chunk\<close> and \<open>Rtcp_Transport_Feedback\<close>: \<open>rtcp_packet/transport_feedback.cc\<close>, the chunk encoder as a queue and the whole
    message with its incremental construction, its parser and its consistency check.
  \<^item> \<open>Rtp_Extension_Map\<close>: \<open>rtp_header_extension_map.cpp\<close> and the extension functions of \<open>rtp_parameters.cc\<close>.
  \<^item> \<open>Rtp_Packet\<close>, \<open>Rtp_Packet_Build\<close>, \<open>Rtp_Packet_Interface\<close>: \<open>rtp_packet.cpp\<close>: the state and every operation, the
    representation invariant of a packet under construction, and the packets reachable through the interface.
  \<^item> \<open>Rtp_Header_Extensions\<close>: the extension classes of \<open>rtp_header_extensions.cpp\<close> as interpretations of the locale \<open>header_extension\<close>.
  \<^item> \<open>Rtp_Format\<close> (\<open>rtp_format.cc\<close>: the split of a frame into packets; \<open>rtp_format_video_generic.cc\<close> and the generic and raw depacketizers; the locale
    \<open>packetizer\<close>, the contract of the interface \<open>RtpPacketizer\<close>), \<open>Rtp_H264\<close> (\<open>rtp_format_h264.cc\<close>) and \<open>Rtp_H264_Stream\<close>
    (\<open>video_rtp_depacketizer_h264.cc\<close>, \<open>video_rtp_depacketizer.cc\<close>, and frames from the packetizer to the receiver).
  \<^item> \<open>Http_Buffer\<close> (\<open>libhttp/msg_buffer\<close>, as an interpretation of the locale \<open>byte_queue\<close>), \<open>Http_Utils\<close> (\<open>http_utils\<close>), \<open>Http_Request\<close>
    (\<open>http_request\<close>), \<open>Http_Parser\<close> (\<open>packet\<close>, \<open>http_parser\<close>), \<open>Http_Context\<close> (\<open>http_context\<close>, the receiving side of \<open>http_server\<close>):
    the definitions; \<open>Http_Message\<close> and \<open>Http_Safety\<close>: printing and parsing of messages, delivery, safety, the loops that do
    not end, and the order of the writes.
  \<^item> \<open>Fec_Masks\<close> (\<open>forward_error_correction_internal.cc\<close> and both mask tables), \<open>Fec_Codec\<close> (the encoder, the ULPFEC header and the recovery
    of one packet, \<open>forward_error_correction.cc\<close> and \<open>ulpfec_header_reader_writer.cc\<close>), \<open>Fec_Decoder\<close> (the lists of the decoder): the
    definitions; \<open>Fec_Recover\<close> (a FEC packet that carries the parity of its packets rebuilds a lost one), \<open>Fec_Spread\<close> (columns moved over the
    holes in the sequence numbers), \<open>Fec_Encode\<close> (what the encoder writes describes what it protects) and \<open>Fec_Session\<close> (the decoder recovers
    everything that can be recovered; encoder and decoder together). A received FEC packet is a buffer of its own on every arrival:
    \<open>ReadFecHeader\<close> writes into it.
  \<^item> \<open>Librtc_Stun\<close>: \<open>librtc/stun.cpp\<close> and the classification of datagrams of \<open>librtc/rtc_server.cpp\<close>.
  \<^item> \<open>Mpeg_Ps\<close> (\<open>libmpeg/mpeg_decoder.cpp\<close>) and \<open>Mpeg_Stream\<close> (the meaning of a program stream and its datagrams).

  \<^bold>\<open>What is shown.\<close> Round trips: every RTCP class, every RTP packet built through the interface, every header extension, HTTP
  messages, STUN messages and encoded URLs come back from their bytes, video frames from the packets they were split into, a lost media packet from the parity of the others, and the frames
  of a program stream from its datagrams, under the conditions each theorem states. Safety: the RTP, RTCP, transport feedback and STUN parsers never read outside the
  received bytes, and what they accept satisfies the invariant of its class; the HTTP parser stays inside for bounded lengths. The decoder of program
  streams does read behind its datagram, and \<open>mpeg_overruns\<close> says for which ends of a datagram. Invariants and refinement: the extension map, the packet under construction,
  the transport feedback message, the status chunk queue, the byte buffer, the FEC decoder. Error behaviour: where the code stores behind
  its buffer, accepts a value it means to refuse, or does not return, a theorem says exactly when.

  \<^bold>\<open>Fuel.\<close> Loops over a buffer are recursion on the remaining bytes. The only loop with fuel is the receiving loop of
  \<open>HttpContext::Parse\<close>: two turns per message are enough (\<open>http_messages_delivered\<close>), and for input without a complete header
  no fuel is enough (\<open>incomplete_header_never_returns\<close>). The loop of \<open>SplitAboutEqually\<close> is a \<open>partial_function\<close>; that it ends is part of
  \<open>SplitAboutEqually_optimal\<close>.

  \<^bold>\<open>Not modelled.\<close> \<open>ToString\<close> and logging; the schedulers, threads and sockets of \<open>libnetwork\<close>, \<open>pacing\<close> and the module
  implementations, which are calls into \<open>rtc_base\<close>; DTLS, SRTP and SCTP, which wrap OpenSSL, libsrtp and usrsctp; the
  floating-point estimators of \<open>congestion_controller\<close>; abstract interface headers. The packetizers and depacketizers of VP8, VP9 and AV1, FlexFEC and the
  FEC generators, the sequencing and statistics classes of \<open>rtp_rtcp\<close>, FLV and RTSP parsing are the next candidates.
\<close>

text \<open>
  C15: parsing arbitrary received bytes as any of the RTCP packet classes terminates and never reads outside the receive
  buffer; a packet that parses satisfies the invariant of its class, so that it can be written again.
\<close>

theorem rtcp_parsers_safe:
  assumes "sz \<le> length buffer" and "CommonHeader_Parse buffer sz h0 = Some (True, h)"
  shows "returns (SenderReport_Parse N h sr) SenderReport_wf
    \<and> returns (ReceiverReport_Parse h rr) ReceiverReport_wf
    \<and> returns (ExtendedJitterReport_Parse h jr) (\<lambda>p. length (inter_arrival_jitters p) \<le> 31)
    \<and> returns (Pli_Parse h pl) (\<lambda>_. True) \<and> returns (RapidResyncRequest_Parse h rs) (\<lambda>_. True)
    \<and> returns (Fir_Parse h fi) Fir_wf
    \<and> returns (Nack_Parse h na) (\<lambda>q. packed q \<noteq> [] \<and> packet_ids q = Unpack_items (packed q))
    \<and> returns (Sdes_Parse h (sd\<lparr>sender_ssrc := 0\<rparr>)) Sdes_wf \<and> returns (Bye_Parse h by) Bye_wf
    \<and> returns (App_Parse h ap) App_wf \<and> returns (LossNotification_Parse h ln) LossNotification_wf
    \<and> returns (Tmmbr_Parse h tr) Tmmbr_wf \<and> returns (Tmmbn_Parse h tn) Tmmbn_wf
    \<and> returns (Remb_Parse h rb) (\<lambda>q. length (remb_ssrcs q) \<le> 255)
    \<and> returns (ExtendedReports_Parse N h xr) ExtendedReports_wf"
  using report_parsers_safe [OF assms] feedback_parsers_safe [OF assms] session_parsers_safe [OF assms]
    bitrate_parsers_safe [OF assms] ExtendedReports_Parse_safe [OF assms] by blast

theorem rtcp_parsers_safe_witness:
  "(let bs = [0x81, 205, 0, 3, 0, 0, 0, 9, 0, 0, 0, 1, 0, 5, 0, 3] :: byte list;
        h = the (map_option snd (CommonHeader_Parse bs 16 CommonHeader_init))
    in returns (Nack_Parse h \<lparr>sender_ssrc = 7, media_ssrc = 8, packed = [], packet_ids = []\<rparr>)
          (\<lambda>q. packed q \<noteq> [] \<and> packet_ids q = Unpack_items (packed q))
       \<and> returns (Fir_Parse h \<lparr>sender_ssrc = 1, ps_media_ssrc = 0, fir_items = []\<rparr>) Fir_wf)"
proof -
  let ?bs = "[0x81, 205, 0, 3, 0, 0, 0, 9, 0, 0, 0, 1, 0, 5, 0, 3] :: byte list"
  have "map_option fst (CommonHeader_Parse ?bs 16 CommonHeader_init) = Some True"
    by code_simp
  then obtain h where h: "CommonHeader_Parse ?bs 16 CommonHeader_init = Some (True, h)"
    by auto
  have "16 \<le> length ?bs" by simp
  from rtcp_parsers_safe [OF this h, where ?'a = "nat \<times> nat"] h show ?thesis
    unfolding Let_def by auto
qed

text \<open>
  C16: every RTCP message within the limits of its class arrives as it was sent, in front of any further data and whatever the state of
  the object it is parsed into; the bitrates of TMMBR, TMMBN and REMB arrive rounded (\<open>bitrate_rounding\<close> says by how much).
\<close>

theorem rtcp_messages_roundtrip:
  "(SenderReport_wf sr \<and> ntp_halves N \<longrightarrow>
      received_as (SenderReport_Create N) SenderReport_BlockLength (SenderReport_Parse N) 200 (length (sr_report_blocks sr)) sr sr)
   \<and> (ReceiverReport_wf rr \<longrightarrow>
      received_as ReceiverReport_Create ReceiverReport_BlockLength ReceiverReport_Parse 201 (length (rr_report_blocks rr)) rr rr)
   \<and> (ExtendedJitterReport_wf jr \<longrightarrow> received_as ExtendedJitterReport_Create ExtendedJitterReport_BlockLength
        (\<lambda>h p. ExtendedJitterReport_Parse h (p\<lparr>sender_ssrc := 0\<rparr>)) 195 (length (inter_arrival_jitters jr)) jr jr)
   \<and> received_as Pli_Create Pli_BlockLength Pli_Parse 206 1 pl pl
   \<and> received_as RapidResyncRequest_Create RapidResyncRequest_BlockLength RapidResyncRequest_Parse 205 5 rs rs
   \<and> (Fir_wf fi \<longrightarrow> received_as Fir_Create Fir_BlockLength Fir_Parse 206 4 fi fi)
   \<and> (Sdes_wf sd \<and> sender_ssrc sd = 0 \<longrightarrow>
      received_as Sdes_Create Sdes_BlockLength (\<lambda>h p. Sdes_Parse h (p\<lparr>sender_ssrc := 0\<rparr>)) 202 (length (chunks sd)) sd sd)
   \<and> (Bye_wf bye \<longrightarrow> received_as Bye_Create Bye_BlockLength Bye_Parse 203 (1 + length (csrcs bye)) bye bye)
   \<and> (App_wf ap \<longrightarrow> received_as App_Create App_BlockLength App_Parse 204 (unat (sub_type ap)) ap ap)
   \<and> (LossNotification_wf ln \<longrightarrow>
      received_as LossNotification_Create LossNotification_BlockLength LossNotification_Parse 206 15 ln ln)
   \<and> (Tmmbr_wf tr \<longrightarrow> received_as Tmmbr_Create Tmmbr_BlockLength Tmmbr_Parse 205 3 tr
        (tr\<lparr>tmmbr_items := map TmmbItem_canon (tmmbr_items tr)\<rparr>))
   \<and> (Tmmbn_wf tn \<longrightarrow> received_as Tmmbn_Create Tmmbn_BlockLength Tmmbn_Parse 205 4 tn
        (tn\<lparr>tmmbn_items := map TmmbItem_canon (tmmbn_items tn)\<rparr>))
   \<and> (Remb_wf rb \<longrightarrow> received_as Remb_Create Remb_BlockLength Remb_Parse 206 15 rb (Remb_canon rb))
   \<and> (ExtendedReports_wf xr \<and> ntp_halves N \<and> cast16_law cast16 \<longrightarrow>
      received_as (ExtendedReports_Create N cast16) ExtendedReports_BlockLength (ExtendedReports_Parse N) 207 0 xr xr)"
  using sender_report.received [of sr N] receiver_report.received [of rr] jitter_report.received [of jr] pli.received [of pl]
    rrr.received [of rs] fir.received [of fi] sdes.received [of sd] bye.received [of bye] app.received [of ap] loss.received [of ln]
    tmmbr.received [of tr] tmmbn.received [of tn] remb.received [of rb] xr.received [of xr N cast16]
  by simp

theorem rtcp_messages_roundtrip_witness:
  "(let N = \<lparr>NtpSet = Pair, NtpSeconds = fst, NtpFractions = snd\<rparr>;
        b = ReportBlock_init\<lparr>cumulative_lost_signed := -7, jitter := 9\<rparr>;
        sr = \<lparr>sender_ssrc = 1, sr_ntp = (2, 3), sr_rtp_timestamp = 4, sr_packet_count = 5, sr_octet_count = 6, sr_report_blocks = [b]\<rparr>;
        tr = Tmmbr_AddTmmbr \<lparr>tmmb_ssrc = 5, bitrate_bps = 123456789, packet_overhead = 40\<rparr>
               \<lparr>sender_ssrc = 1, media_ssrc = 0, tmmbr_items = []\<rparr>;
        sd = snd (AddCName 7 [104, 105] (snd (AddCName 9 [] Sdes_init)))
    in received_as (SenderReport_Create N) SenderReport_BlockLength (SenderReport_Parse N) 200 1 sr sr
     \<and> received_as Tmmbr_Create Tmmbr_BlockLength Tmmbr_Parse 205 3 tr (tr\<lparr>tmmbr_items := map TmmbItem_canon (tmmbr_items tr)\<rparr>)
     \<and> received_as Sdes_Create Sdes_BlockLength (\<lambda>h p. Sdes_Parse h (p\<lparr>sender_ssrc := 0\<rparr>)) 202 (length (chunks sd)) sd sd)"
proof -
  let ?N = "\<lparr>NtpSet = Pair, NtpSeconds = fst, NtpFractions = snd\<rparr> :: (u32 \<times> u32) NtpOps"
  let ?sr = "\<lparr>sender_ssrc = 1, sr_ntp = (2, 3), sr_rtp_timestamp = 4, sr_packet_count = 5, sr_octet_count = 6,
     sr_report_blocks = [ReportBlock_init\<lparr>cumulative_lost_signed := -7, jitter := 9\<rparr>]\<rparr>"
  let ?tr = "Tmmbr_AddTmmbr \<lparr>tmmb_ssrc = 5, bitrate_bps = 123456789, packet_overhead = 40\<rparr>
     \<lparr>sender_ssrc = 1, media_ssrc = 0, tmmbr_items = []\<rparr>"
  let ?sd = "snd (AddCName 7 [104, 105] (snd (AddCName 9 [] Sdes_init)))"
  have sr: "SenderReport_wf ?sr \<and> ntp_halves ?N"
    by (simp add: SenderReport_wf_def ReportBlock_wf_def ReportBlock_init_def ntp_halves_def SenderReport_consts)
  have tr: "Tmmbr_wf ?tr" by (simp add: Tmmbr_wf_def Tmmbr_AddTmmbr_def TmmbItem_wf_def tmmb_consts)
  have sd: "Sdes_wf ?sd \<and> sender_ssrc ?sd = 0"
    by (simp add: Sdes_wf_def AddCName_def Sdes_init_def ChunkSize_def Let_def kHeaderLength_def kMaxNumberOfChunks_def)
  note r = rtcp_messages_roundtrip [where sr = ?sr and N = ?N and tr = ?tr and sd = ?sd]
  have one: "length (sr_report_blocks ?sr) = 1" by simp
  show ?thesis
    unfolding Let_def
  proof (intro conjI)
    show "received_as (SenderReport_Create ?N) SenderReport_BlockLength (SenderReport_Parse ?N) 200 1 ?sr ?sr"
      using r sr unfolding one by blast
  qed (use r tr sd in blast)+
qed

end
